(* ===== verification/Driver_Prelude.thy ===== *)
theory Driver_Prelude
  imports Main "HOL-Library.Word" "HOL-Library.Monad_Syntax"
begin

text \<open>
  What every component of the driver model shares: the machine types, the little- and
  big-endian views of byte strings, the reads and writes of a buffer at an offset (with
  an access outside the buffer as \<open>None\<close>), and the bytewise exclusive or on which all the
  driver's ciphers rest. Nothing here models a particular function of the driver except the
  few macros of \<^verbatim>\<open>rtw_security.h\<close> and \<^verbatim>\<open>osdep_service.h\<close> named below.
\<close>

unbundle bit_operations_syntax

type_synonym u8 = "8 word"
type_synonym u16 = "16 word"
type_synonym u32 = "32 word"
type_synonym u64 = "64 word"

text \<open>\<open>buf_simps\<close> collects the facts on buffers that the component proofs share.\<close>

named_theorems buf_simps "reads and writes of buffers"

section \<open>Return codes\<close>

text \<open>The driver returns \<^verbatim>\<open>_SUCCESS\<close> (1) or \<^verbatim>\<open>_FAIL\<close> (0) from its fallible functions.\<close>

datatype status = SUCCESS | FAIL

section \<open>Buffers\<close>

text \<open>
  A C buffer is the list of its bytes. \<open>read_at off n b\<close> reads \<open>n\<close> bytes at offset \<open>off\<close>;
  \<open>write_at off ys b\<close> writes \<open>ys\<close> there. Both are \<open>None\<close> when they would leave the
  buffer, which in C is undefined behaviour.
\<close>

definition read_at :: "nat \<Rightarrow> nat \<Rightarrow> 'a list \<Rightarrow> 'a list option" where
  "read_at off n b = (if off + n \<le> length b then Some (take n (drop off b)) else None)"

definition write_at :: "nat \<Rightarrow> 'a list \<Rightarrow> 'a list \<Rightarrow> 'a list option" where
  "write_at off ys b =
     (if off + length ys \<le> length b
      then Some (take off b @ ys @ drop (off + length ys) b) else None)"

text \<open>One byte.\<close>

definition byte_at :: "nat \<Rightarrow> 'a list \<Rightarrow> 'a option" where
  "byte_at i b = (if i < length b then Some (b ! i) else None)"

lemma read_at_Some_length [buf_simps]: "read_at off n b = Some ys \<Longrightarrow> length ys = n"
  by (auto simp: read_at_def split: if_splits)

lemma read_at_eq_Some [simp]:
  "off + n \<le> length b \<Longrightarrow> read_at off n b = Some (take n (drop off b))"
  by (simp add: read_at_def)

lemma write_at_eq_Some [simp]:
  "off + length ys \<le> length b \<Longrightarrow>
     write_at off ys b = Some (take off b @ ys @ drop (off + length ys) b)"
  by (simp add: write_at_def)

lemma write_at_Some_length [buf_simps]: "write_at off ys b = Some b' \<Longrightarrow> length b' = length b"
  by (auto simp: write_at_def split: if_splits)

lemma write_at_append3:
  assumes "off = length pre" and "length ys = length mid"
  shows "write_at off ys (pre @ mid @ post) = Some (pre @ ys @ post)"
  using assms by (simp add: write_at_def)

lemma read_at_append3:
  assumes "off = length pre" and "n = length mid"
  shows "read_at off n (pre @ mid @ post) = Some mid"
  using assms by (simp add: read_at_def)

lemma byte_at_eq_Some [simp]: "i < length b \<Longrightarrow> byte_at i b = Some (b ! i)"
  by (simp add: byte_at_def)

lemma take_drop_split: "b = take off b @ take n (drop off b) @ drop (off + n) b"
proof -
  have "drop off b = take n (drop off b) @ drop n (drop off b)"
    by (rule append_take_drop_id [symmetric])
  then show ?thesis by (metis append_take_drop_id drop_drop add.commute)
qed

lemma write_at_append:
  "write_at off (ys @ zs) b = Option.bind (write_at off ys b) (write_at (off + length ys) zs)"
proof (cases "off + length ys \<le> length b")
  case True
  define b' where "b' = take off b @ ys @ drop (off + length ys) b"
  have len: "length b' = length b" and
    tk: "take (off + length ys) b' = take off b @ ys" and
    dr: "drop (off + length ys + length zs) b' = drop (off + length ys + length zs) b"
    using True by (simp_all add: b'_def add.commute)
  have "write_at off ys b = Some b'" using True by (simp add: b'_def)
  then show ?thesis
    using dr by (simp add: write_at_def [of _ "ys @ zs"] write_at_def [of _ zs] len tk add.assoc
        del: write_at_eq_Some)
next
  case False
  then show ?thesis by (simp add: write_at_def)
qed

lemma write_at_same_prefix:
  assumes "off + k + length ys \<le> length b"
  shows "write_at off (take k (drop off b) @ ys) b = write_at (off + k) ys b"
proof -
  have "length (take k (drop off b)) = k" using assms by simp
  then have "write_at off (take k (drop off b) @ ys) b =
      Some (take off b @ (take k (drop off b) @ ys) @ drop (off + k + length ys) b)"
    using assms by (simp add: write_at_def add.assoc)
  also have "take off b @ (take k (drop off b) @ ys) @ drop (off + k + length ys) b =
      take (off + k) b @ ys @ drop (off + k + length ys) b"
    by (simp add: take_add)
  finally show ?thesis using assms by simp
qed

lemma read_at_NoneI: "length b < off + n \<Longrightarrow> read_at off n b = None"
  by (simp add: read_at_def)

lemma write_at_NoneI: "length b < off + length ys \<Longrightarrow> write_at off ys b = None"
  by (simp add: write_at_def)

section \<open>Widening a byte and cutting it back\<close>

lemma bit_u8_out [simp]: "8 \<le> n \<Longrightarrow> \<not> bit (b :: u8) n"
  using bit_imp_le_length [of b n] by auto

lemma bit_u16_out [simp]: "16 \<le> n \<Longrightarrow> \<not> bit (b :: u16) n"
  using bit_imp_le_length [of b n] by auto

lemma bit_u32_out [simp]: "32 \<le> n \<Longrightarrow> \<not> bit (b :: u32) n"
  using bit_imp_le_length [of b n] by auto

lemma ucast_8_32_8 [simp]: "(ucast (ucast (b :: u8) :: u32) :: u8) = b"
  by (rule bit_word_eqI) (simp add: bit_simps)

lemma ucast_8_16_8 [simp]: "(ucast (ucast (b :: u8) :: u16) :: u8) = b"
  by (rule bit_word_eqI) (simp add: bit_simps)

lemma ucast_16_32_16 [simp]: "(ucast (ucast (b :: u16) :: u32) :: u16) = b"
  by (rule bit_word_eqI) (simp add: bit_simps)

section \<open>Byte order\<close>

text \<open>
  The 32-bit words of the driver seen as bytes. The target (the ARM cores of the Zynq) is
  little-endian, so \<^verbatim>\<open>cpu_to_le32\<close> and \<^verbatim>\<open>le32_to_cpu\<close> are the identity and a
  \<^verbatim>\<open>u32\<close> stored through a cast pointer is \<open>le32_bytes\<close>. \<open>be32_of\<close> is
  \<^verbatim>\<open>WPA_GET_BE32\<close> and \<^verbatim>\<open>GETU32\<close>, \<open>be32_bytes\<close> is \<^verbatim>\<open>WPA_PUT_BE32\<close> and
  \<^verbatim>\<open>PUTU32\<close>.
\<close>

definition le32_bytes :: "u32 \<Rightarrow> u8 list" where
  "le32_bytes w = [ucast w, ucast (drop_bit 8 w), ucast (drop_bit 16 w), ucast (drop_bit 24 w)]"

definition le32_of :: "u8 \<Rightarrow> u8 \<Rightarrow> u8 \<Rightarrow> u8 \<Rightarrow> u32" where
  "le32_of a b c d =
     ucast a OR push_bit 8 (ucast b) OR push_bit 16 (ucast c) OR push_bit 24 (ucast d)"

definition be32_bytes :: "u32 \<Rightarrow> u8 list" where
  "be32_bytes w = [ucast (drop_bit 24 w), ucast (drop_bit 16 w), ucast (drop_bit 8 w), ucast w]"

definition be32_of :: "u8 \<Rightarrow> u8 \<Rightarrow> u8 \<Rightarrow> u8 \<Rightarrow> u32" where
  "be32_of a b c d =
     push_bit 24 (ucast a) OR push_bit 16 (ucast b) OR push_bit 8 (ucast c) OR ucast d"

lemma length_le32_bytes [simp]: "length (le32_bytes w) = 4"
  by (simp add: le32_bytes_def)

lemma length_be32_bytes [simp]: "length (be32_bytes w) = 4"
  by (simp add: be32_bytes_def)

lemma le32_bytes_of [simp]: "le32_bytes (le32_of a b c d) = [a, b, c, d]"
  unfolding le32_bytes_def le32_of_def
  by (auto intro!: bit_word_eqI simp: bit_simps)

lemma be32_bytes_of [simp]: "be32_bytes (be32_of a b c d) = [a, b, c, d]"
  unfolding be32_bytes_def be32_of_def
  by (auto intro!: bit_word_eqI simp: bit_simps)

lemma le32_bytes_inj: "le32_bytes v = le32_bytes w \<Longrightarrow> v = w"
proof (rule bit_word_eqI)
  fix n assume eq: "le32_bytes v = le32_bytes w" and "n < LENGTH(32)"
  from eq have "\<forall>i < 8. bit v i = bit w i \<and> bit v (8 + i) = bit w (8 + i) \<and>
      bit v (16 + i) = bit w (16 + i) \<and> bit v (24 + i) = bit w (24 + i)"
    by (auto simp: le32_bytes_def bit_eq_iff bit_simps)
  moreover from \<open>n < LENGTH(32)\<close> obtain i where "i < 8"
      "n = i \<or> n = 8 + i \<or> n = 16 + i \<or> n = 24 + i"
    by (intro that [of "n mod 8"]) (simp_all, presburger)
  ultimately show "bit v n = bit w n" by auto
qed

lemma be32_bytes_rev: "be32_bytes w = rev (le32_bytes w)"
  by (simp add: be32_bytes_def le32_bytes_def)

lemma be32_bytes_inj: "be32_bytes v = be32_bytes w \<Longrightarrow> v = w"
  using le32_bytes_inj by (simp add: be32_bytes_rev)

section \<open>Bytewise exclusive or\<close>

definition xor_bytes :: "'a::len word list \<Rightarrow> 'a word list \<Rightarrow> 'a word list" where
  "xor_bytes xs ys = map2 (XOR) xs ys"

lemma length_xor_bytes [simp]: "length (xor_bytes xs ys) = min (length xs) (length ys)"
  by (simp add: xor_bytes_def)

lemma nth_xor_bytes [simp]:
  "i < length xs \<Longrightarrow> i < length ys \<Longrightarrow> xor_bytes xs ys ! i = xs ! i XOR ys ! i"
  by (simp add: xor_bytes_def)

lemma xor_bytes_Nil [simp]: "xor_bytes [] ys = []" "xor_bytes xs [] = []"
  by (simp_all add: xor_bytes_def)

lemma xor_bytes_Cons [simp]: "xor_bytes (x # xs) (y # ys) = (x XOR y) # xor_bytes xs ys"
  by (simp add: xor_bytes_def)

lemma xor_bytes_involution:
  "length xs \<le> length ks \<Longrightarrow> xor_bytes (xor_bytes xs ks) ks = xs"
  by (rule nth_equalityI) (auto simp: xor.assoc)

lemma xor_bytes_commute: "xor_bytes xs ys = xor_bytes ys xs"
  by (rule nth_equalityI) (auto simp: xor.commute)

lemma xor_bytes_append:
  "length xs = length ks \<Longrightarrow> xor_bytes (xs @ ys) (ks @ ls) = xor_bytes xs ks @ xor_bytes ys ls"
  by (simp add: xor_bytes_def)

lemma xor_bytes_inject:
  assumes "length xs \<le> length ks" "length ys \<le> length ks" "xor_bytes xs ks = xor_bytes ys ks"
  shows "xs = ys"
  using assms xor_bytes_involution by metis

lemma xor_bytes_eq_iff:
  assumes "length xs = n" "length ys = n" "n \<le> length ks"
  shows "xor_bytes xs ks = xor_bytes ys ks \<longleftrightarrow> xs = ys"
  using assms xor_bytes_inject by metis

lemma xor_bytes_take: "xor_bytes (take n xs) ks = take n (xor_bytes xs ks)"
  by (rule nth_equalityI) auto

lemma xor_bytes_take2:
  "n \<le> length ks \<Longrightarrow> length xs = n \<Longrightarrow> xor_bytes xs (take n ks) = xor_bytes xs ks"
  by (rule nth_equalityI) auto

end
