(* ===== verification/Rc4.thy ===== *)
theory Rc4
  imports Driver_Prelude "HOL-Library.Multiset"
begin

text \<open>
  The RC4 stream cipher of \<^verbatim>\<open>core/rtw_security.c\<close> (\<^verbatim>\<open>arcfour_init\<close>,
  \<^verbatim>\<open>arcfour_byte\<close>, \<^verbatim>\<open>arcfour_encrypt\<close>), and the interface \<open>keystream_cipher\<close>:
  a cipher that adds a keystream of the right length to its input. Both WEP and TKIP, and
  the counter mode of CCMP, are instances of it; that such a cipher undoes itself is proved
  once, here.
\<close>

section \<open>Ciphers that add a keystream\<close>

locale keystream_cipher =
  fixes ks :: "'k \<Rightarrow> nat \<Rightarrow> u8 list"
  assumes length_ks: "length (ks k n) = n"
begin

definition crypt :: "'k \<Rightarrow> u8 list \<Rightarrow> u8 list" where
  "crypt k xs = xor_bytes xs (ks k (length xs))"

lemma length_crypt: "length (crypt k xs) = length xs"
  by (simp add: crypt_def length_ks)

lemma crypt_crypt: "crypt k (crypt k xs) = xs"
  by (simp add: crypt_def length_ks xor_bytes_involution)

lemma crypt_inj:
  assumes "crypt k xs = crypt k ys"
  shows "xs = ys"
  using assms crypt_crypt by metis

end

text \<open>
  A sealed payload: the payload followed by an integrity value of fixed length, the whole
  encrypted. \<open>unseal\<close> decrypts and compares the integrity value, as every receiver of the
  driver does.
\<close>

locale sealed_payload = keystream_cipher ks
  for ks :: "'k \<Rightarrow> nat \<Rightarrow> u8 list" +
  fixes icv :: "'k \<Rightarrow> u8 list \<Rightarrow> u8 list" and icv_len :: nat
  assumes length_icv: "length (icv k p) = icv_len"
begin

definition seal :: "'k \<Rightarrow> u8 list \<Rightarrow> u8 list" where
  "seal k p = crypt k (p @ icv k p)"

definition unseal :: "'k \<Rightarrow> u8 list \<Rightarrow> u8 list \<times> bool" where
  "unseal k c =
     (let d = crypt k c; p = take (length d - icv_len) d
      in (d, drop (length d - icv_len) d = icv k p))"

lemma length_seal: "length (seal k p) = length p + icv_len"
  by (simp add: seal_def length_crypt length_icv)

lemma unseal_seal: "unseal k (seal k p) = (p @ icv k p, True)"
  by (simp add: unseal_def seal_def crypt_crypt length_icv Let_def)

lemma seal_inj:
  assumes "seal k p = seal k q"
  shows "p = q"
  using assms unseal_seal length_icv
  by (metis append_eq_append_conv seal_def crypt_inj)

text \<open>Only the sealing of the payload passes the check.\<close>

lemma unseal_accepts_iff:
  assumes "icv_len \<le> length c"
  shows "snd (unseal k c) \<longleftrightarrow> (\<exists>p. c = seal k p)"
proof
  assume ok: "snd (unseal k c)"
  define d where "d = crypt k c"
  define p where "p = take (length d - icv_len) d"
  from ok have "drop (length d - icv_len) d = icv k p"
    by (simp add: unseal_def Let_def d_def p_def)
  then have "d = p @ icv k p"
    by (metis append_take_drop_id p_def)
  then have "c = seal k p"
    by (metis seal_def crypt_crypt d_def)
  then show "\<exists>p. c = seal k p" ..
qed (auto simp: unseal_seal)

end

section \<open>RC4\<close>

record arc4context =
  arc_x :: u32
  arc_y :: u32
  arc_state :: "u8 list"

definition arcfour_init_step ::
  "u8 list \<Rightarrow> nat \<Rightarrow> nat \<Rightarrow> u8 list \<times> nat \<times> u32 \<Rightarrow> u8 list \<times> nat \<times> u32" where
  "arcfour_init_step key key_len counter = (\<lambda>(state, keyindex, stateindex).
     let t = state ! counter;
         stateindex' = (stateindex + ucast (key ! keyindex) + ucast t) AND 0xff;
         u = state ! unat stateindex';
         state1 = state[unat stateindex' := t];
         state2 = state1[counter := u];
         keyindex' = (if keyindex + 1 \<ge> key_len then 0 else keyindex + 1)
     in (state2, keyindex', stateindex'))"

text \<open>The key schedule reads \<open>key[0..key_len-1]\<close>, and \<open>key[0]\<close> even when \<open>key_len\<close> is 0.\<close>

definition arcfour_init :: "u8 list \<Rightarrow> nat \<Rightarrow> arc4context option" where
  "arcfour_init key key_len =
     (if length key < max 1 key_len then None
      else let (state, _, _) = fold (arcfour_init_step key key_len) [0..<256]
                                 (map word_of_nat [0..<256], 0, 0)
           in Some \<lparr>arc_x = 0, arc_y = 0, arc_state = state\<rparr>)"

definition arcfour_byte :: "arc4context \<Rightarrow> u32 \<times> arc4context" where
  "arcfour_byte ctx =
     (let state = arc_state ctx;
          x = (arc_x ctx + 1) AND 0xff;
          sx = ucast (state ! unat x) :: u32;
          y = (sx + arc_y ctx) AND 0xff;
          sy = ucast (state ! unat y) :: u32;
          state1 = state[unat y := ucast sx];
          state2 = state1[unat x := ucast sy]
      in (ucast (state2 ! unat ((sx + sy) AND 0xff)),
          \<lparr>arc_x = x, arc_y = y, arc_state = state2\<rparr>))"

fun arcfour_encrypt :: "arc4context \<Rightarrow> u8 list \<Rightarrow> u8 list \<times> arc4context" where
  "arcfour_encrypt ctx [] = ([], ctx)"
| "arcfour_encrypt ctx (b # src) =
     (let (k, ctx1) = arcfour_byte ctx;
          (dest, ctx2) = arcfour_encrypt ctx1 src
      in ((b XOR ucast k) # dest, ctx2))"

subsection \<open>The state stays a permutation\<close>

definition arc_perm :: "u8 list \<Rightarrow> bool" where
  "arc_perm st \<longleftrightarrow> mset st = mset (map word_of_nat [0..<256])"

lemma arc_perm_length: "arc_perm st \<Longrightarrow> length st = 256"
  by (metis arc_perm_def diff_zero length_map length_upt size_mset)

lemma and_0xff_less: "unat ((w :: u32) AND 0xff) < 256"
proof -
  have "w AND 0xff \<le> 0xff" by (rule word_and_le1)
  then have "unat (w AND 0xff) \<le> unat (0xff :: u32)" by (simp only: word_le_nat_alt)
  then show ?thesis by simp
qed

lemma arc_perm_swap:
  assumes "arc_perm st" and "i < 256" and "j < 256"
  shows "arc_perm (st[i := st ! j, j := st ! i])"
  using assms arc_perm_length [OF assms(1)] by (simp add: arc_perm_def mset_swap)

lemma arcfour_init_step_perm:
  assumes "arc_perm st" and "i < 256"
  shows "arc_perm (fst (arcfour_init_step key n i (st, k, s)))"
  using arc_perm_swap [OF assms(1) and_0xff_less assms(2)]
  by (simp add: arcfour_init_step_def Let_def)

lemma arcfour_init_fold_perm:
  assumes "arc_perm (fst acc)" and "\<forall>i \<in> set is. i < 256"
  shows "arc_perm (fst (fold (arcfour_init_step key n) is acc))"
  using assms
proof (induction "is" arbitrary: acc)
  case (Cons i "is")
  obtain st k s where acc: "acc = (st, k, s)" by (cases acc)
  with Cons.prems have "arc_perm (fst (arcfour_init_step key n i acc))"
    by (simp add: arcfour_init_step_perm)
  with Cons show ?case by simp
qed simp

lemma arcfour_init_perm:
  assumes "arcfour_init key n = Some ctx"
  shows "arc_perm (arc_state ctx)"
  using assms arcfour_init_fold_perm
    [of "(map word_of_nat [0..<256], 0, 0)" "[0..<256]" key n]
  by (auto simp: arcfour_init_def arc_perm_def Let_def split: if_splits prod.splits)

lemma arcfour_byte_perm:
  assumes "arc_perm (arc_state ctx)"
  shows "arc_perm (arc_state (snd (arcfour_byte ctx)))"
proof -
  let ?x = "(arc_x ctx + 1) AND 0xff"
  let ?y = "(ucast (arc_state ctx ! unat ?x) + arc_y ctx) AND 0xff"
  have "arc_state (snd (arcfour_byte ctx)) =
      (arc_state ctx)[unat ?y := arc_state ctx ! unat ?x, unat ?x := arc_state ctx ! unat ?y]"
    by (simp add: arcfour_byte_def Let_def)
  then show ?thesis
    using arc_perm_swap [OF assms and_0xff_less and_0xff_less] by metis
qed

subsection \<open>The keystream\<close>

fun arcfour_stream :: "arc4context \<Rightarrow> nat \<Rightarrow> u8 list" where
  "arcfour_stream ctx 0 = []"
| "arcfour_stream ctx (Suc n) =
     (let (k, ctx1) = arcfour_byte ctx in ucast k # arcfour_stream ctx1 n)"

fun arcfour_skip :: "arc4context \<Rightarrow> nat \<Rightarrow> arc4context" where
  "arcfour_skip ctx 0 = ctx"
| "arcfour_skip ctx (Suc n) = arcfour_skip (snd (arcfour_byte ctx)) n"

lemma length_arcfour_stream [simp]: "length (arcfour_stream ctx n) = n"
  by (induction n arbitrary: ctx) (auto split: prod.splits)

lemma arcfour_encrypt_stream:
  "arcfour_encrypt ctx src =
     (xor_bytes src (arcfour_stream ctx (length src)), arcfour_skip ctx (length src))"
  by (induction src arbitrary: ctx) (auto simp: Let_def split: prod.splits)

lemma arcfour_stream_append:
  "arcfour_stream ctx (m + n) = arcfour_stream ctx m @ arcfour_stream (arcfour_skip ctx m) n"
  by (induction m arbitrary: ctx) (auto simp: Let_def split: prod.splits)

lemma arcfour_encrypt_append:
  "fst (arcfour_encrypt ctx (xs @ ys)) =
     fst (arcfour_encrypt ctx xs) @ fst (arcfour_encrypt (snd (arcfour_encrypt ctx xs)) ys)"
  by (simp add: arcfour_encrypt_stream arcfour_stream_append xor_bytes_append)

lemma arcfour_skip_perm: "arc_perm (arc_state ctx) \<Longrightarrow> arc_perm (arc_state (arcfour_skip ctx n))"
  by (induction n arbitrary: ctx) (auto intro: arcfour_byte_perm)

interpretation arc4: keystream_cipher arcfour_stream
  by unfold_locales simp

lemma arcfour_encrypt_crypt: "fst (arcfour_encrypt ctx src) = arc4.crypt ctx src"
  by (simp add: arcfour_encrypt_stream arc4.crypt_def)

section \<open>Properties\<close>

text \<open>
  RC4 undoes itself. Encrypting twice from the same initialised context gives the text back,
  and the state stays a permutation of the 256 bytes through every byte produced, so that no
  access to it leaves the table.
\<close>

theorem arcfour_roundtrip:
  assumes "arcfour_init key n = Some ctx"
  shows "fst (arcfour_encrypt ctx (fst (arcfour_encrypt ctx src))) = src \<and>
    arc_perm (arc_state (snd (arcfour_encrypt ctx src)))"
proof -
  have "arc_perm (arc_state (snd (arcfour_encrypt ctx src)))"
    using arcfour_skip_perm [OF arcfour_init_perm [OF assms]] by (simp add: arcfour_encrypt_stream)
  moreover have "fst (arcfour_encrypt ctx (fst (arcfour_encrypt ctx src))) = src"
    by (simp only: arcfour_encrypt_crypt arc4.crypt_crypt)
  ultimately show ?thesis by simp
qed

theorem arcfour_roundtrip_witness:
  "\<exists>ctx. arcfour_init [1, 2, 3] 3 = Some ctx \<and>
     fst (arcfour_encrypt ctx (fst (arcfour_encrypt ctx [7, 8, 9]))) = [7, 8, 9]"
proof -
  have "arcfour_init [1, 2, 3] 3 \<noteq> None"
    by (simp add: arcfour_init_def Let_def split: prod.splits)
  then obtain ctx where "arcfour_init [1, 2, 3] 3 = Some ctx" by blast
  then show ?thesis using arcfour_roundtrip by blast
qed

end
