(* ===== verification/Crc32.thy ===== *)
theory Crc32
  imports Driver_Prelude
begin

text \<open>
  The CRC-32 that WEP and TKIP use as integrity value: \<^verbatim>\<open>crc32_reverseBit\<close>,
  \<^verbatim>\<open>crc32_init\<close> and \<^verbatim>\<open>getcrc32\<close> of \<^verbatim>\<open>core/rtw_security.c\<close>, with the lazily built
  table as explicit state, and the proof that the table-driven routine computes the
  bit-serial reflected CRC of IEEE 802.3.
\<close>

section \<open>The code\<close>

record crc_state =
  bcrc32initialized :: int
  crc32_table :: "u32 list"

definition crc_boot :: crc_state where
  "crc_boot = \<lparr>bcrc32initialized = 0, crc32_table = replicate 256 0\<rparr>"

definition crc32_reverseBit :: "u8 \<Rightarrow> u8" where
  "crc32_reverseBit data =
     (push_bit 7 data AND 0x80) OR (push_bit 5 data AND 0x40) OR (push_bit 3 data AND 0x20) OR
     (push_bit 1 data AND 0x10) OR (drop_bit 1 data AND 0x08) OR (drop_bit 3 data AND 0x04) OR
     (drop_bit 5 data AND 0x02) OR (drop_bit 7 data AND 0x01)"

text \<open>The inner loop: eight shifts of the register, most significant bit first.\<close>

definition crc32_shift :: "u32 \<Rightarrow> u32" where
  "crc32_shift c =
     (if c AND 0x80000000 \<noteq> 0 then push_bit 1 c XOR 0x04c11db7 else push_bit 1 c)"

definition crc32_entry :: "nat \<Rightarrow> u32" where
  "crc32_entry i =
     (let k = crc32_reverseBit (word_of_nat i);
          c = (crc32_shift ^^ 8) (push_bit 24 (ucast k));
          p = le32_bytes c
      in le32_of (crc32_reverseBit (p ! 3)) (crc32_reverseBit (p ! 2))
                 (crc32_reverseBit (p ! 1)) (crc32_reverseBit (p ! 0)))"

definition crc32_init :: "crc_state \<Rightarrow> crc_state" where
  "crc32_init st =
     (if bcrc32initialized st = 1 then st
      else \<lparr>bcrc32initialized = 1, crc32_table = map crc32_entry [0..<256]\<rparr>)"

fun crc32_loop :: "u32 list \<Rightarrow> u32 \<Rightarrow> u8 list \<Rightarrow> u32" where
  "crc32_loop tbl crc [] = crc"
| "crc32_loop tbl crc (p # buf) =
     crc32_loop tbl (tbl ! unat ((crc XOR ucast p) AND 0xff) XOR drop_bit 8 crc) buf"

definition getcrc32 :: "crc_state \<Rightarrow> u8 list \<Rightarrow> u32 \<times> crc_state" where
  "getcrc32 st buf =
     (let st1 = (if bcrc32initialized st = 0 then crc32_init st else st)
      in (NOT (crc32_loop (crc32_table st1) 0xffffffff buf), st1))"

text \<open>
  The table is built once and never changed, so a caller sees a function of the data alone:
  \<open>crc32_of\<close>, the value from the state the module is loaded in. \<open>getcrc32_any\<close> below shows
  that every later state gives the same value.
\<close>

definition crc32_of :: "u8 list \<Rightarrow> u32" where
  "crc32_of buf = fst (getcrc32 crc_boot buf)"

definition crc_inv :: "crc_state \<Rightarrow> bool" where
  "crc_inv st \<longleftrightarrow> bcrc32initialized st = 0 \<or>
     bcrc32initialized st = 1 \<and> crc32_table st = map crc32_entry [0..<256]"

section \<open>The reference: one bit at a time, reflected\<close>

definition crc_bit :: "u32 \<Rightarrow> u32" where
  "crc_bit x = (if x AND 1 = 1 then drop_bit 1 x XOR 0xEDB88320 else drop_bit 1 x)"

definition crc_byte :: "u8 \<Rightarrow> u32 \<Rightarrow> u32" where
  "crc_byte b crc = (crc_bit ^^ 8) (crc XOR ucast b)"

definition crc32_spec :: "u8 list \<Rightarrow> u32" where
  "crc32_spec buf = NOT (fold crc_byte buf 0xffffffff)"

section \<open>The code's register is the reference register, mirrored\<close>

lemma bit_single: "bit (2 ^ k :: u8) n \<longleftrightarrow> n = k \<and> n < 8"
  by (auto simp: bit_exp_iff)

lemma bit_masks:
  "bit (0x80 :: u8) n \<longleftrightarrow> n = 7" "bit (0x40 :: u8) n \<longleftrightarrow> n = 6"
  "bit (0x20 :: u8) n \<longleftrightarrow> n = 5" "bit (0x10 :: u8) n \<longleftrightarrow> n = 4"
  "bit (0x08 :: u8) n \<longleftrightarrow> n = 3" "bit (0x04 :: u8) n \<longleftrightarrow> n = 2"
  "bit (0x02 :: u8) n \<longleftrightarrow> n = 1" "bit (0x01 :: u8) n \<longleftrightarrow> n = 0"
  subgoal using bit_single [of 7 n] by auto
  subgoal using bit_single [of 6 n] by auto
  subgoal using bit_single [of 5 n] by auto
  subgoal using bit_single [of 4 n] by auto
  subgoal using bit_single [of 3 n] by auto
  subgoal using bit_single [of 2 n] by auto
  subgoal using bit_single [of 1 n] by auto
  subgoal using bit_single [of 0 n] by auto
  done

lemma bit_crc32_reverseBit: "bit (crc32_reverseBit b) n \<longleftrightarrow> n < 8 \<and> bit b (7 - n)"
proof (cases "n < 8")
  case True
  then have "n \<in> {0, 1, 2, 3, 4, 5, 6, 7}" by auto
  then show ?thesis
    by (elim insertE emptyE)
      (simp_all add: crc32_reverseBit_def bit_or_iff bit_and_iff bit_masks bit_push_bit_iff
        bit_drop_bit_eq del: push_bit_Suc)
next
  case False
  then show ?thesis by simp
qed

text \<open>The byte-swapped, byte-reversed copy into the table mirrors the 32-bit register.\<close>

definition crc32_mirror :: "u32 \<Rightarrow> u32" where
  "crc32_mirror c =
     (let p = le32_bytes c
      in le32_of (crc32_reverseBit (p ! 3)) (crc32_reverseBit (p ! 2))
                 (crc32_reverseBit (p ! 1)) (crc32_reverseBit (p ! 0)))"

lemma bit_crc32_mirror: "bit (crc32_mirror c) n \<longleftrightarrow> n < 32 \<and> bit c (31 - n)"
proof -
  consider "n < 8" | "8 \<le> n" "n < 16" | "16 \<le> n" "n < 24" | "24 \<le> n" "n < 32" | "32 \<le> n"
    by arith
  then show ?thesis
    by cases (auto simp: crc32_mirror_def Let_def le32_of_def le32_bytes_def bit_simps
        bit_crc32_reverseBit)
qed

lemma crc32_mirror_xor: "crc32_mirror (x XOR y) = crc32_mirror x XOR crc32_mirror y"
  by (rule bit_word_eqI) (auto simp: bit_crc32_mirror bit_simps)

lemma crc32_mirror_poly: "crc32_mirror 0x04c11db7 = 0xEDB88320"
  by (simp add: crc32_mirror_def crc32_reverseBit_def le32_bytes_def le32_of_def)

lemma crc32_mirror_shift1: "crc32_mirror (push_bit 1 c) = drop_bit 1 (crc32_mirror c)"
proof (rule bit_word_eqI)
  fix n assume "n < LENGTH(32)"
  then show "bit (crc32_mirror (push_bit 1 c)) n = bit (drop_bit 1 (crc32_mirror c)) n"
    by (auto simp: bit_crc32_mirror bit_drop_bit_eq bit_push_bit_iff simp del: push_bit_Suc One_nat_def)
qed

lemma and_one_bit: "x AND 1 = 1 \<longleftrightarrow> bit (x :: u32) 0"
  by (simp add: and_one_eq bit_0 mod2_eq_if)

lemma and_top_bit: "x AND 0x80000000 \<noteq> 0 \<longleftrightarrow> bit (x :: u32) 31"
  by (simp add: bit_iff_and_push_bit_not_eq_0)

lemma crc32_mirror_shift: "crc32_mirror (crc32_shift c) = crc_bit (crc32_mirror c)"
proof -
  have "crc32_mirror c AND 1 = 1 \<longleftrightarrow> c AND 0x80000000 \<noteq> 0"
    unfolding and_one_bit and_top_bit bit_crc32_mirror by simp
  then show ?thesis
    unfolding crc32_shift_def crc_bit_def
    by (simp only: crc32_mirror_xor crc32_mirror_shift1 crc32_mirror_poly if_distrib)
      (simp split: if_splits)
qed

lemma crc32_mirror_shifts: "crc32_mirror ((crc32_shift ^^ n) c) = (crc_bit ^^ n) (crc32_mirror c)"
  by (induction n) (simp_all add: crc32_mirror_shift)

lemma crc32_mirror_index:
  "crc32_mirror (push_bit 24 (ucast (crc32_reverseBit b))) = ucast b"
proof (rule bit_word_eqI)
  fix n assume "n < LENGTH(32)"
  then show "bit (crc32_mirror (push_bit 24 (ucast (crc32_reverseBit b)))) n = bit (ucast b :: u32) n"
    by (cases "n < 8") (auto simp: bit_crc32_mirror bit_crc32_reverseBit bit_simps)
qed

lemma crc32_entry_spec: "crc32_entry i = (crc_bit ^^ 8) (ucast (word_of_nat i :: u8))"
proof -
  have "crc32_entry i =
      crc32_mirror ((crc32_shift ^^ 8) (push_bit 24 (ucast (crc32_reverseBit (word_of_nat i)))))"
    by (simp only: crc32_entry_def crc32_mirror_def Let_def)
  then show ?thesis by (simp only: crc32_mirror_shifts crc32_mirror_index)
qed

section \<open>Eight bits at a time\<close>

lemma crc_bit_xor: "crc_bit (x XOR y) = crc_bit x XOR crc_bit y"
proof -
  have "(x XOR y) AND 1 = (x AND 1) XOR (y AND 1)"
    by (rule bit_word_eqI) (auto simp: bit_simps)
  moreover have "x AND 1 = 0 \<or> x AND 1 = 1" "y AND 1 = 0 \<or> y AND 1 = 1"
    by (simp_all add: and_one_eq mod2_eq_if)
  ultimately show ?thesis
    by (auto simp: crc_bit_def ac_simps)
qed

lemma crc_bits_xor: "(crc_bit ^^ n) (x XOR y) = (crc_bit ^^ n) x XOR (crc_bit ^^ n) y"
  by (induction n arbitrary: x y) (simp_all add: crc_bit_xor)

text \<open>While the low bits are clear the register is only shifted.\<close>

lemma crc_bit_even: "\<not> bit x 0 \<Longrightarrow> crc_bit x = drop_bit 1 x"
  by (simp only: crc_bit_def and_one_bit if_False)

lemma crc_bits_shift:
  assumes "\<And>i. i < n \<Longrightarrow> \<not> bit x i"
  shows "(crc_bit ^^ n) x = drop_bit n x"
  using assms
proof (induction n)
  case (Suc n)
  then have "(crc_bit ^^ n) x = drop_bit n x" by simp
  moreover have "\<not> bit (drop_bit n x) 0"
    using Suc.prems [of n] by (simp add: bit_drop_bit_eq)
  ultimately show ?case by (simp add: crc_bit_even drop_bit_drop_bit)
qed simp

lemma crc_byte_table:
  "crc_byte b crc =
     map crc32_entry [0..<256] ! unat ((crc XOR ucast b) AND 0xff) XOR drop_bit 8 crc"
proof -
  define x where "x = crc XOR ucast b"
  have mask: "(0xff :: u32) = mask 8" by (simp add: mask_eq_exp_minus_1)
  have lt: "unat (x AND 0xff) < 256"
  proof -
    have "unat (x AND 0xff) \<le> unat (0xff :: u32)"
      using word_and_le1 by (simp only: word_le_nat_alt [symmetric])
    then show ?thesis by simp
  qed
  have byte: "ucast (ucast (x AND 0xff) :: u8) = x AND 0xff"
    by (rule bit_word_eqI) (auto simp: mask bit_and_iff bit_mask_iff bit_ucast_iff)
  have split: "x = (x AND 0xff) XOR push_bit 8 (drop_bit 8 x)"
    by (rule bit_word_eqI) (auto simp: mask bit_simps)
  have "(crc_bit ^^ 8) (push_bit 8 (drop_bit 8 x)) = drop_bit 8 (push_bit 8 (drop_bit 8 x))"
    by (rule crc_bits_shift) (simp add: bit_push_bit_iff)
  also have "\<dots> = drop_bit 8 crc"
    by (rule bit_word_eqI)
      (auto simp: x_def bit_drop_bit_eq bit_push_bit_iff bit_xor_iff bit_ucast_iff
        dest: bit_imp_le_length)
  finally have high: "(crc_bit ^^ 8) (push_bit 8 (drop_bit 8 x)) = drop_bit 8 crc" .
  have "crc_byte b crc = (crc_bit ^^ 8) ((x AND 0xff) XOR push_bit 8 (drop_bit 8 x))"
    using split by (simp add: crc_byte_def x_def)
  also have "\<dots> = (crc_bit ^^ 8) (x AND 0xff) XOR drop_bit 8 crc"
    by (simp only: crc_bits_xor high)
  also have "(crc_bit ^^ 8) (x AND 0xff) = map crc32_entry [0..<256] ! unat (x AND 0xff)"
    using lt by (simp add: crc32_entry_spec byte)
  finally show ?thesis by (simp only: x_def)
qed

lemma crc32_loop_spec:
  "crc32_loop (map crc32_entry [0..<256]) crc buf = fold crc_byte buf crc"
  by (induction buf arbitrary: crc) (simp_all only: crc32_loop.simps fold_simps crc_byte_table)

section \<open>What a caller sees\<close>

lemma crc32_init_inv: "crc_inv st \<Longrightarrow> crc_inv (crc32_init st)"
  by (auto simp: crc_inv_def crc32_init_def)

lemma getcrc32_any:
  assumes "crc_inv st"
  shows "fst (getcrc32 st buf) = crc32_spec buf" and "crc_inv (snd (getcrc32 st buf))"
proof -
  let ?st = "if bcrc32initialized st = 0 then crc32_init st else st"
  from assms consider "bcrc32initialized st = 0"
    | "bcrc32initialized st = 1" "crc32_table st = map crc32_entry [0..<256]"
    by (auto simp only: crc_inv_def)
  then have "crc32_table ?st = map crc32_entry [0..<256]" "bcrc32initialized ?st = 1"
    by (cases; simp add: crc32_init_def)+
  then show "fst (getcrc32 st buf) = crc32_spec buf" and "crc_inv (snd (getcrc32 st buf))"
    unfolding getcrc32_def Let_def fst_conv snd_conv crc_inv_def crc32_spec_def
    by (simp_all only: crc32_loop_spec simp_thms)
qed

lemma crc_boot_inv: "crc_inv crc_boot"
  by (simp add: crc_inv_def crc_boot_def)

lemma crc32_of_spec: "crc32_of = crc32_spec"
  by (simp add: fun_eq_iff crc32_of_def getcrc32_any(1) [OF crc_boot_inv])

section \<open>Properties\<close>

text \<open>
  C38: \<^verbatim>\<open>getcrc32\<close> is the CRC-32 of the standard. From the state at boot or after any
  earlier calls, the table-driven code, with its table built by reversing bits, computes the
  reflected CRC with polynomial EDB88320 bit by bit, and keeps the table.
\<close>

theorem getcrc32_is_crc32:
  "let (crcs, st) = fold (\<lambda>buf (cs, st). let (c, st') = getcrc32 st buf in (cs @ [c], st')) bufs ([], crc_boot)
   in crcs = map crc32_spec bufs \<and> crc_inv st"
proof -
  have "crc_inv st \<Longrightarrow> (let (crcs, st') = fold (\<lambda>buf (cs, st). let (c, st') = getcrc32 st buf in (cs @ [c], st')) bufs (cs, st)
     in crcs = cs @ map crc32_spec bufs \<and> crc_inv st')" for cs st
  proof (induction bufs arbitrary: cs st)
    case (Cons buf bufs)
    obtain c st' where g: "getcrc32 st buf = (c, st')" by fastforce
    then have "c = crc32_spec buf" "crc_inv st'" using getcrc32_any [OF Cons.prems, of buf] by simp_all
    with Cons.IH [of st' "cs @ [c]"] g show ?case by simp
  qed simp
  from this [OF crc_boot_inv, of "[]"] show ?thesis by simp
qed

end
