(* ===== verification/Michael.thy ===== *)
theory Michael
  imports Driver_Prelude
begin

text \<open>
  The Michael message integrity code of TKIP (\<^verbatim>\<open>struct mic_data\<close>, \<^verbatim>\<open>rtw_secmic*\<close>,
  \<^verbatim>\<open>rtw_secgetmic\<close> and \<^verbatim>\<open>rtw_seccalctkipmic\<close> of \<^verbatim>\<open>core/rtw_security.c\<close>). The code
  feeds the message a byte at a time into a 32-bit accumulator; the reference of IEEE 802.11
  takes the padded message a word at a time. The theory shows that both give the same code.
\<close>

section \<open>The code\<close>

record mic_data =
  mic_K0 :: u32
  mic_K1 :: u32
  mic_L :: u32
  mic_R :: u32
  mic_M :: u32
  nBytesInM :: nat

definition ROL32 :: "u32 \<Rightarrow> nat \<Rightarrow> u32" where
  "ROL32 A n = push_bit n A OR (drop_bit (32 - n) A AND (push_bit n 1 - 1))"

definition ROR32 :: "u32 \<Rightarrow> nat \<Rightarrow> u32" where
  "ROR32 A n = ROL32 A (32 - n)"

definition secmicgetuint32 :: "u8 list \<Rightarrow> u32" where
  "secmicgetuint32 p = fold (\<lambda>i res. res OR push_bit (8 * i) (ucast (p ! i))) [0..<4] 0"

primrec secmicput_loop :: "nat \<Rightarrow> u32 \<Rightarrow> u8 list" where
  "secmicput_loop 0 val = []"
| "secmicput_loop (Suc i) val = ucast (val AND 0xff) # secmicput_loop i (drop_bit 8 val)"

definition secmicputuint32 :: "u32 \<Rightarrow> u8 list" where
  "secmicputuint32 val = secmicput_loop 4 val"

definition secmicclear :: "mic_data \<Rightarrow> mic_data" where
  "secmicclear md = md\<lparr>mic_L := mic_K0 md, mic_R := mic_K1 md, nBytesInM := 0, mic_M := 0\<rparr>"

definition rtw_secmicsetkey :: "mic_data \<Rightarrow> u8 list \<Rightarrow> mic_data" where
  "rtw_secmicsetkey md key =
     secmicclear (md\<lparr>mic_K0 := secmicgetuint32 key, mic_K1 := secmicgetuint32 (drop 4 key)\<rparr>)"

definition rtw_secmicappendbyte :: "mic_data \<Rightarrow> u8 \<Rightarrow> mic_data" where
  "rtw_secmicappendbyte md b =
     (let M = mic_M md OR push_bit (8 * nBytesInM md) (ucast b);
          n = nBytesInM md + 1
      in if n \<ge> 4
         then
           (let L = mic_L md XOR M;
                R = mic_R md XOR ROL32 L 17;
                L = L + R;
                R = R XOR (drop_bit 8 (L AND 0xff00ff00) OR push_bit 8 (L AND 0x00ff00ff));
                L = L + R;
                R = R XOR ROL32 L 3;
                L = L + R;
                R = R XOR ROR32 L 2;
                L = L + R
            in md\<lparr>mic_L := L, mic_R := R, mic_M := 0, nBytesInM := 0\<rparr>)
         else md\<lparr>mic_M := M, nBytesInM := n\<rparr>)"

definition rtw_secmicappend :: "mic_data \<Rightarrow> u8 list \<Rightarrow> mic_data" where
  "rtw_secmicappend md src = foldl rtw_secmicappendbyte md src"

text \<open>The loop that pads with zeroes until the accumulator is empty.\<close>

function secmic_pad :: "mic_data \<Rightarrow> mic_data" where
  "secmic_pad md = (if nBytesInM md \<noteq> 0 then secmic_pad (rtw_secmicappendbyte md 0) else md)"
  by pat_completeness auto
termination
  by (relation "measure (\<lambda>md. if nBytesInM md = 0 then 0 else max 1 (5 - nBytesInM md))")
    (auto simp: rtw_secmicappendbyte_def Let_def)

declare secmic_pad.simps [simp del]

definition rtw_secgetmic :: "mic_data \<Rightarrow> u8 list \<times> mic_data" where
  "rtw_secgetmic md =
     (let md1 = rtw_secmicappendbyte md 0x5a;
          md2 = rtw_secmicappendbyte (rtw_secmicappendbyte (rtw_secmicappendbyte
                  (rtw_secmicappendbyte md1 0) 0) 0) 0;
          md3 = secmic_pad md2
      in (secmicputuint32 (mic_L md3) @ secmicputuint32 (mic_R md3), secmicclear md3))"

text \<open>
  The MIC of a data frame: destination and source address by the \<^verbatim>\<open>ToDS\<close> and
  \<^verbatim>\<open>FromDS\<close> bits of \<^verbatim>\<open>header[1]\<close>, the priority, the data. The \<^verbatim>\<open>micdata\<close> of
  the code is uninitialised before the key is set; \<open>md0\<close> stands for its content.
\<close>

definition rtw_seccalctkipmic ::
  "mic_data \<Rightarrow> u8 list \<Rightarrow> u8 list \<Rightarrow> u8 list \<Rightarrow> nat \<Rightarrow> u8 \<Rightarrow> u8 list option" where
  "rtw_seccalctkipmic md0 key header data data_len pri = do {
     k \<leftarrow> read_at 0 8 key;
     let md = rtw_secmicsetkey md0 k;
     let priority = [pri, 0, 0, 0];
     h1 \<leftarrow> byte_at 1 header;
     da \<leftarrow> (if h1 AND 1 \<noteq> 0 then read_at 16 6 header else read_at 4 6 header);
     sa \<leftarrow> (if h1 AND 1 \<noteq> 0
            then (if h1 AND 2 \<noteq> 0 then read_at 24 6 header else read_at 10 6 header)
            else (if h1 AND 2 \<noteq> 0 then read_at 16 6 header else read_at 10 6 header));
     d \<leftarrow> read_at 0 data_len data;
     Some (fst (rtw_secgetmic
       (rtw_secmicappend (rtw_secmicappend (rtw_secmicappend (rtw_secmicappend md da) sa)
          priority) d)))
   }"

section \<open>The reference\<close>

definition xswap :: "u32 \<Rightarrow> u32" where
  "xswap l = drop_bit 8 (l AND 0xff00ff00) OR push_bit 8 (l AND 0x00ff00ff)"

definition michael_block :: "u32 \<times> u32 \<Rightarrow> u32 \<times> u32" where
  "michael_block = (\<lambda>(l, r).
     let r = r XOR word_rotl 17 l; l = l + r;
         r = r XOR xswap l; l = l + r;
         r = r XOR word_rotl 3 l; l = l + r;
         r = r XOR word_rotr 2 l; l = l + r
     in (l, r))"

definition michael_step :: "u32 \<Rightarrow> u32 \<times> u32 \<Rightarrow> u32 \<times> u32" where
  "michael_step w = (\<lambda>(l, r). michael_block (l XOR w, r))"

fun le_words :: "u8 list \<Rightarrow> u32 list" where
  "le_words (a # b # c # d # rest) = le32_of a b c d # le_words rest"
| "le_words _ = []"

text \<open>A byte \<open>0x5a\<close>, four zero bytes, and zero bytes up to a multiple of four.\<close>

definition michael_pad :: "u8 list \<Rightarrow> u8 list" where
  "michael_pad m = m @ 0x5a # replicate (7 - length m mod 4) 0"

definition michael :: "u8 list \<Rightarrow> u8 list \<Rightarrow> u8 list" where
  "michael key m =
     (let l0 = le32_of (key ! 0) (key ! 1) (key ! 2) (key ! 3);
          r0 = le32_of (key ! 4) (key ! 5) (key ! 6) (key ! 7);
          (l, r) = fold michael_step (le_words (michael_pad m)) (l0, r0)
      in le32_bytes l @ le32_bytes r)"

section \<open>The rotations and the byte order\<close>

lemma ROL32_mask: "ROL32 A n = push_bit n A OR (drop_bit (32 - n) A AND mask n)"
proof -
  have "push_bit n 1 - 1 = (mask n :: u32)"
    by (simp add: mask_eq_exp_minus_1)
  then show ?thesis by (simp only: ROL32_def)
qed

lemma ROL32_rotl: "0 < n \<Longrightarrow> n < 32 \<Longrightarrow> ROL32 A n = word_rotl n A"
proof (rule bit_word_eqI)
  fix i assume n: "0 < n" "n < 32" and i: "i < LENGTH(32)"
  show "bit (ROL32 A n) i = bit (word_rotl n A) i"
  proof (cases "i < n")
    case True
    with n i have rot: "(i + 32 - n mod 32) mod 32 = 32 + i - n" by simp
    from True n i show ?thesis
      by (simp add: ROL32_mask bit_or_iff bit_and_iff bit_push_bit_iff bit_drop_bit_eq
          bit_mask_iff bit_word_rotl_iff rot del: mod_less)
  next
    case False
    with n i have "(i + (32 - n)) mod 32 = i - n" by (simp add: mod_if)
    with False n i show ?thesis
      by (simp add: ROL32_mask bit_or_iff bit_and_iff bit_push_bit_iff bit_drop_bit_eq
          bit_mask_iff bit_word_rotl_iff)
  qed
qed

lemma ROR32_rotr: "0 < n \<Longrightarrow> n < 32 \<Longrightarrow> ROR32 A n = word_rotr n A"
  by (simp add: ROR32_def ROL32_rotl word_rotl_eq_word_rotr)

lemma secmicputuint32_le: "secmicputuint32 val = le32_bytes val"
proof -
  have cut: "ucast (w AND 0xff) = (ucast w :: u8)" for w :: u32
  proof (rule bit_word_eqI)
    fix i assume "i < LENGTH(8)"
    moreover have "(0xff :: u32) = mask 8" by (simp add: mask_eq_exp_minus_1)
    ultimately show "bit (ucast (w AND 0xff) :: u8) i = bit (ucast w :: u8) i"
      by (simp only: bit_ucast_iff bit_and_iff bit_mask_iff) simp
  qed
  show ?thesis
    by (simp add: secmicputuint32_def numeral_eq_Suc cut le32_bytes_def drop_bit_drop_bit)
qed

lemma secmicgetuint32_le: "secmicgetuint32 p = le32_of (p ! 0) (p ! 1) (p ! 2) (p ! 3)"
  by (simp add: secmicgetuint32_def le32_of_def upt_rec or.assoc numeral_2_eq_2 numeral_3_eq_3)

section \<open>A byte at a time against a word at a time\<close>

lemma append_nBytes:
  "nBytesInM md < 4 \<Longrightarrow> nBytesInM (rtw_secmicappendbyte md b) = (nBytesInM md + 1) mod 4"
  by (auto simp: rtw_secmicappendbyte_def Let_def mod_Suc)

lemma foldl_append_nBytes:
  "nBytesInM md < 4 \<Longrightarrow>
     nBytesInM (foldl rtw_secmicappendbyte md xs) = (nBytesInM md + length xs) mod 4"
proof (induction xs arbitrary: md)
  case (Cons x xs)
  then show ?case by (simp add: append_nBytes mod_simps)
qed simp

lemma append_keys:
  "mic_K0 (rtw_secmicappendbyte md b) = mic_K0 md"
  "mic_K1 (rtw_secmicappendbyte md b) = mic_K1 md"
  by (simp_all add: rtw_secmicappendbyte_def Let_def)

lemma foldl_append_keys:
  "mic_K0 (foldl rtw_secmicappendbyte md xs) = mic_K0 md"
  "mic_K1 (foldl rtw_secmicappendbyte md xs) = mic_K1 md"
  by (induction xs arbitrary: md) (simp_all add: append_keys)

text \<open>Four bytes make one word, and one word is one step of the reference.\<close>

lemma append_word:
  assumes "nBytesInM md = 0" and "mic_M md = 0"
    and "(l, r) = michael_step (le32_of a b c d) (mic_L md, mic_R md)"
  shows "foldl rtw_secmicappendbyte md [a, b, c, d] = md\<lparr>mic_L := l, mic_R := r\<rparr>"
proof -
  have M: "((ucast a OR push_bit 8 (ucast b)) OR push_bit 16 (ucast c)) OR push_bit 24 (ucast d) =
      le32_of a b c d"
    by (simp only: le32_of_def or.assoc)
  show ?thesis
    using assms M
    by (cases md) (simp add: rtw_secmicappendbyte_def michael_step_def michael_block_def xswap_def
        ROL32_rotl ROR32_rotr Let_def)
qed

lemma foldl_append_words:
  assumes "nBytesInM md = 0" and "mic_M md = 0" and "length xs mod 4 = 0"
    and "(l, r) = fold michael_step (le_words xs) (mic_L md, mic_R md)"
  shows "foldl rtw_secmicappendbyte md xs = md\<lparr>mic_L := l, mic_R := r\<rparr>"
  using assms
proof (induction xs arbitrary: md rule: le_words.induct)
  case (1 a b c d rest)
  obtain l' r' where step: "(l', r') = michael_step (le32_of a b c d) (mic_L md, mic_R md)"
    by (metis surj_pair)
  let ?md = "md\<lparr>mic_L := l', mic_R := r'\<rparr>"
  have "foldl rtw_secmicappendbyte md (a # b # c # d # rest) =
      foldl rtw_secmicappendbyte ?md rest"
    using append_word [OF "1.prems"(1,2) step] by simp
  also have "\<dots> = ?md\<lparr>mic_L := l, mic_R := r\<rparr>"
    by (rule "1.IH") (use "1.prems" step in \<open>simp_all add: mod_Suc split: if_splits\<close>)
  finally show ?case by simp
qed auto

lemma secmic_pad_zeroes:
  "nBytesInM md < 4 \<Longrightarrow>
     secmic_pad md = foldl rtw_secmicappendbyte md (replicate ((4 - nBytesInM md) mod 4) 0)"
proof (induction md rule: secmic_pad.induct)
  case (1 md)
  show ?case
  proof (cases "nBytesInM md = 0")
    case True
    then show ?thesis by (simp add: secmic_pad.simps)
  next
    case False
    let ?md = "rtw_secmicappendbyte md 0"
    have n: "nBytesInM ?md = (nBytesInM md + 1) mod 4" "nBytesInM ?md < 4"
      using "1.prems" by (simp_all add: append_nBytes)
    have "(4 - nBytesInM md) mod 4 = Suc ((4 - nBytesInM ?md) mod 4)"
    proof -
      have "nBytesInM md \<in> {1, 2, 3}" using False "1.prems" by auto
      then show ?thesis unfolding n by auto
    qed
    with False "1.IH" [OF False n(2)] show ?thesis
      by (simp add: secmic_pad.simps [of md])
  qed
qed

lemma pad_count: "m < 4 \<Longrightarrow> 4 + (4 - (m + 5) mod 4) mod 4 = 7 - (m :: nat)"
proof -
  assume "m < 4"
  then consider "m = 0" | "m = 1" | "m = 2" | "m = 3" by linarith
  then show ?thesis by cases (hypsubst, simp)+
qed

lemma five_zeroes: "[0x5a, 0, 0, 0, 0 :: u8] @ replicate n 0 = 0x5a # replicate (4 + n) 0"
proof -
  have "replicate (4 + n) (0 :: u8) = 0 # 0 # 0 # 0 # replicate n 0"
    by (simp add: numeral_eq_Suc)
  then show ?thesis by simp
qed

lemma secgetmic_fold:
  assumes "nBytesInM md < 4" and "tail = 0x5a # replicate (7 - nBytesInM md) 0"
  shows "rtw_secgetmic md =
    (let e = foldl rtw_secmicappendbyte md tail
     in (secmicputuint32 (mic_L e) @ secmicputuint32 (mic_R e), secmicclear e))"
proof -
  let ?five = "[0x5a, 0, 0, 0, 0]"
  let ?e = "foldl rtw_secmicappendbyte md ?five"
  have n: "nBytesInM ?e = (nBytesInM md + 5) mod 4"
    using foldl_append_nBytes [OF assms(1), of ?five] by (simp add: add.commute)
  then have "secmic_pad ?e = foldl rtw_secmicappendbyte md
      (?five @ replicate ((4 - (nBytesInM md + 5) mod 4) mod 4) 0)"
    by (simp add: secmic_pad_zeroes)
  also have "?five @ replicate ((4 - (nBytesInM md + 5) mod 4) mod 4) 0 = tail"
  proof -
    show ?thesis
      unfolding assms(2) by (subst five_zeroes, subst pad_count [OF assms(1)], rule refl)
  qed
  finally have pad: "secmic_pad ?e = foldl rtw_secmicappendbyte md tail" .
  have "rtw_secgetmic md =
      (secmicputuint32 (mic_L (secmic_pad ?e)) @ secmicputuint32 (mic_R (secmic_pad ?e)),
       secmicclear (secmic_pad ?e))"
    by (simp only: rtw_secgetmic_def Let_def foldl.simps)
  then show ?thesis by (simp only: pad Let_def)
qed

text \<open>The code is the reference, on every message and from every earlier state.\<close>

lemma secmic_is_michael:
  assumes "length key = 8"
  shows "fst (rtw_secgetmic (rtw_secmicappend (rtw_secmicsetkey md key) msg)) = michael key msg"
proof -
  let ?md = "rtw_secmicsetkey md key"
  let ?pad = "0x5a # replicate (7 - length msg mod 4) 0"
  obtain l r where lr: "(l, r) = fold michael_step (le_words (michael_pad msg))
      (le32_of (key ! 0) (key ! 1) (key ! 2) (key ! 3),
       le32_of (key ! 4) (key ! 5) (key ! 6) (key ! 7))"
    by (metis surj_pair)
  have md: "nBytesInM ?md = 0" "mic_M ?md = 0"
    "mic_L ?md = le32_of (key ! 0) (key ! 1) (key ! 2) (key ! 3)"
    "mic_R ?md = le32_of (key ! 4) (key ! 5) (key ! 6) (key ! 7)"
    using assms
    by (simp_all add: rtw_secmicsetkey_def secmicclear_def secmicgetuint32_le)
  have len: "length (michael_pad msg) mod 4 = 0"
  proof -
    have "length (michael_pad msg) = 4 * (length msg div 4) + 8"
      unfolding michael_pad_def by simp presburger
    then show ?thesis by simp
  qed
  have n: "nBytesInM (rtw_secmicappend ?md msg) = length msg mod 4"
    by (simp add: rtw_secmicappend_def foldl_append_nBytes md)
  have all: "foldl rtw_secmicappendbyte (rtw_secmicappend ?md msg) ?pad =
      ?md\<lparr>mic_L := l, mic_R := r\<rparr>"
    using foldl_append_words [of ?md "michael_pad msg" l r] md len lr
    by (simp add: rtw_secmicappend_def michael_pad_def)
  have "rtw_secgetmic (rtw_secmicappend ?md msg) =
      (let e = foldl rtw_secmicappendbyte (rtw_secmicappend ?md msg) ?pad
       in (secmicputuint32 (mic_L e) @ secmicputuint32 (mic_R e), secmicclear e))"
    by (rule secgetmic_fold) (simp_all add: n)
  then have "fst (rtw_secgetmic (rtw_secmicappend ?md msg)) = le32_bytes l @ le32_bytes r"
    unfolding all by (simp add: Let_def secmicputuint32_le)
  then show ?thesis
    unfolding michael_def Let_def lr [symmetric] by simp
qed

lemma rtw_seccalctkipmic_abs:
  assumes "8 \<le> length key" and "30 \<le> length header" and "data_len \<le> length data"
  shows "rtw_seccalctkipmic md0 key header data data_len pri =
    (let tods = header ! 1 AND 1 \<noteq> 0; fromds = header ! 1 AND 2 \<noteq> 0;
         da = take 6 (drop (if tods then 16 else 4) header);
         sa = take 6 (drop (if fromds then (if tods then 24 else 16) else 10) header)
     in Some (michael (take 8 key) (da @ sa @ [pri, 0, 0, 0] @ take data_len data)))"
proof -
  have "length (take 8 key) = 8" using assms(1) by simp
  note m = secmic_is_michael [OF this]
  have app: "rtw_secmicappend (rtw_secmicappend md xs) ys = rtw_secmicappend md (xs @ ys)" for md xs ys
    by (simp add: rtw_secmicappend_def)
  show ?thesis
    using assms by (auto simp: rtw_seccalctkipmic_def Let_def app m)
qed

section \<open>Properties\<close>

text \<open>
  C37: \<^verbatim>\<open>rtw_seccalctkipmic\<close> is Michael. Whatever the accumulator held, the byte-wise code
  computes the Michael value of destination address, source address, priority and data, with
  the addresses taken from the header as its \<^verbatim>\<open>ToDS\<close> and \<^verbatim>\<open>FromDS\<close> bits say, and it
  reads nothing outside key, header and data.
\<close>

theorem rtw_seccalctkipmic_is_michael:
  assumes "8 \<le> length key" and "30 \<le> length header" and "data_len \<le> length data"
  shows "rtw_seccalctkipmic md0 key header data data_len pri =
    (let tods = header ! 1 AND 1 \<noteq> 0; fromds = header ! 1 AND 2 \<noteq> 0;
         da = take 6 (drop (if tods then 16 else 4) header);
         sa = take 6 (drop (if fromds then (if tods then 24 else 16) else 10) header)
     in Some (michael (take 8 key) (da @ sa @ [pri, 0, 0, 0] @ take data_len data)))"
  using assms by (rule rtw_seccalctkipmic_abs)

theorem rtw_seccalctkipmic_is_michael_witness:
  "rtw_seccalctkipmic
     \<lparr>mic_K0 = 0, mic_K1 = 0, mic_L = 0, mic_R = 0, mic_M = 0, nBytesInM = 0\<rparr> (replicate 8 1) (replicate 30 0) [5, 6] 2 7 =
     Some (michael (replicate 8 1) (replicate 12 0 @ [7, 0, 0, 0, 5, 6]))"
  using rtw_seccalctkipmic_is_michael [of "replicate 8 1" "replicate 30 0" 2 "[5, 6]" _ 7]
  by (simp add: Let_def numeral_eq_Suc)

end
