(* ===== verification/Frames.thy ===== *)
theory Frames
  imports Driver_Prelude
begin

text \<open>
  The frames that the ciphers work on: the transmit frame with its attributes, the receive
  frame, the keys of the adapter (\<^verbatim>\<open>struct security_priv\<close>), and the walk over the
  fragments of a transmit frame that \<^verbatim>\<open>rtw_wep_encrypt\<close>, \<^verbatim>\<open>rtw_tkip_encrypt\<close> and
  \<^verbatim>\<open>rtw_aes_encrypt\<close> share. The locale \<open>fragment_cipher\<close> states what a cipher has to
  do for one fragment and proves, once, what the walk then does to the whole buffer.
\<close>

section \<open>Constants of the headers\<close>

abbreviation (input) "NO_PRIVACY \<equiv> 0x0 :: nat"
abbreviation (input) "WEP40 \<equiv> 0x1 :: nat"
abbreviation (input) "TKIP \<equiv> 0x2 :: nat"
abbreviation (input) "AES \<equiv> 0x4 :: nat"
abbreviation (input) "WEP104 \<equiv> 0x5 :: nat"

definition TXDESC_SIZE :: nat where "TXDESC_SIZE = 32"
definition PACKET_OFFSET_SZ :: nat where "PACKET_OFFSET_SZ = 8"

definition IS_MCAST :: "u8 list \<Rightarrow> bool" where
  "IS_MCAST da \<longleftrightarrow> da ! 0 AND 0x01 \<noteq> 0"

text \<open>Rounding an address up to a multiple of four.\<close>

definition RND4 :: "nat \<Rightarrow> nat" where
  "RND4 x = 4 * (x div 4 + (if x mod 4 = 0 then 0 else 1))"

section \<open>Keys\<close>

record security_priv =
  dot11AuthAlgrthm :: nat
  dot11PrivacyAlgrthm :: nat
  dot11PrivacyKeyIndex :: nat
  dot11DefKey :: "u8 list list"
  dot11DefKeylen :: "nat list"
  key_mask :: u8
  dot118021XGrpPrivacy :: nat
  dot118021XGrpKeyid :: nat
  dot118021XGrpKey :: "u8 list list"
  dot118021XGrprxmickey :: "u8 list list"
  binstallGrpkey :: bool
  busetkipkey :: bool
  bcheck_grpkey :: bool
  sw_decrypt :: bool
  hw_decrypted :: bool
  last_mic_err_time :: u32
  btkip_countermeasure :: bool
  btkip_countermeasure_time :: u32

section \<open>Transmit and receive frames\<close>

text \<open>
  Stations are named by their index in the station array; a null pointer is \<open>None\<close>. A
  transmit frame has the address of its buffer (for the rounding) and the buffer's bytes.
\<close>

record pkt_attrib =
  encrypt :: nat
  nr_frags :: nat
  hdrlen :: nat
  iv_len :: nat
  icv_len :: nat
  last_txcmdsz :: nat
  tx_psta :: "nat option"
  tx_ra :: "u8 list"
  tx_ta :: "u8 list"

record xmit_frame =
  attrib :: pkt_attrib
  buf_addr :: "(nat \<times> u8 list) option"
  pkt_offset :: nat

record rx_attrib =
  rx_encrypt :: nat
  rx_hdrlen :: nat
  rx_iv_len :: nat
  rx_key_index :: nat
  rx_ta :: "u8 list"
  rx_ra :: "u8 list"

record recv_frame =
  rx_attr :: rx_attrib
  rx_len :: nat
  rx_data :: "u8 list"

definition pframe_start :: "xmit_frame \<Rightarrow> nat" where
  "pframe_start xf = TXDESC_SIZE + pkt_offset xf * PACKET_OFFSET_SZ"

text \<open>The lengths of the protected part of the last and of the other fragments.\<close>

definition last_length :: "pkt_attrib \<Rightarrow> int" where
  "last_length a = int (last_txcmdsz a) - int (hdrlen a) - int (iv_len a) - int (icv_len a)"

definition mid_length :: "pkt_attrib \<Rightarrow> nat \<Rightarrow> int" where
  "mid_length a frag_len = int frag_len - int (hdrlen a) - int (iv_len a) - int (icv_len a)"

section \<open>The walk over the fragments\<close>

text \<open>
  \<open>enc pf l buf\<close> protects the fragment at offset \<open>pf\<close> whose payload has length \<open>l\<close>.
  The counter counts the fragments left, so \<open>Suc 0\<close> is the last one, for which the code
  takes the other length and does not advance \<^verbatim>\<open>pframe\<close>. The advance rounds the address
  \<open>A + pf + frag_len\<close>, not the offset.
\<close>

fun frag_loop ::
  "(nat \<Rightarrow> int \<Rightarrow> u8 list \<Rightarrow> u8 list option) \<Rightarrow> pkt_attrib \<Rightarrow> nat \<Rightarrow> nat \<Rightarrow> nat \<Rightarrow> nat \<Rightarrow>
     u8 list \<Rightarrow> u8 list option" where
  "frag_loop enc a frag_len A 0 pf buf = Some buf"
| "frag_loop enc a frag_len A (Suc 0) pf buf = enc pf (last_length a) buf"
| "frag_loop enc a frag_len A (Suc (Suc n)) pf buf = do {
     buf1 \<leftarrow> enc pf (mid_length a frag_len) buf;
     frag_loop enc a frag_len A (Suc n) (RND4 (A + pf + frag_len) - A) buf1
   }"

text \<open>Offset and size of the \<open>k\<close>-th fragment, and its bytes.\<close>

primrec frag_off :: "nat \<Rightarrow> nat \<Rightarrow> nat \<Rightarrow> nat \<Rightarrow> nat" where
  "frag_off frag_len A pf 0 = pf"
| "frag_off frag_len A pf (Suc k) = frag_off frag_len A (RND4 (A + pf + frag_len) - A) k"

definition frag_size :: "pkt_attrib \<Rightarrow> nat \<Rightarrow> nat \<Rightarrow> nat \<Rightarrow> nat" where
  "frag_size a frag_len n k = (if Suc k = n then last_txcmdsz a else frag_len)"

definition frag_bytes :: "pkt_attrib \<Rightarrow> nat \<Rightarrow> nat \<Rightarrow> nat \<Rightarrow> nat \<Rightarrow> nat \<Rightarrow> u8 list \<Rightarrow> u8 list" where
  "frag_bytes a frag_len A n pf k buf =
     take (frag_size a frag_len n k) (drop (frag_off frag_len A pf k) buf)"

lemma RND4_ge: "x \<le> RND4 x"
  unfolding RND4_def by presburger

lemma RND4_aligned: "RND4 x mod 4 = 0"
  by (simp add: RND4_def)

lemma RND4_less: "RND4 x < x + 4"
  unfolding RND4_def by presburger

lemma next_off_ge: "pf + frag_len \<le> RND4 (A + pf + frag_len) - A"
  using RND4_ge [of "A + pf + frag_len"] by simp

lemma frag_off_ge: "pf \<le> frag_off frag_len A pf k"
proof (induction k arbitrary: pf)
  case (Suc k)
  have "pf \<le> RND4 (A + pf + frag_len) - A" using next_off_ge [of pf frag_len A] by simp
  also have "\<dots> \<le> frag_off frag_len A (RND4 (A + pf + frag_len) - A) k" by (rule Suc.IH)
  finally show ?case by simp
qed simp

text \<open>The buffer of a transmit frame has room for all its fragments.\<close>

definition frags_fit :: "nat \<Rightarrow> xmit_frame \<Rightarrow> bool" where
  "frags_fit frag_len xf =
     (case buf_addr xf of
        None \<Rightarrow> False
      | Some (A, buf) \<Rightarrow>
          let a = attrib xf in
          0 < nr_frags a \<and> 0 \<le> last_length a \<and> 0 \<le> mid_length a frag_len \<and>
          frag_off frag_len A (pframe_start xf) (nr_frags a - 1) + last_txcmdsz a \<le> length buf)"

text \<open>The \<open>k\<close>-th fragment of a transmit frame.\<close>

definition fragment :: "nat \<Rightarrow> xmit_frame \<Rightarrow> nat \<Rightarrow> u8 list" where
  "fragment frag_len xf k =
     (case buf_addr xf of
        None \<Rightarrow> []
      | Some (A, buf) \<Rightarrow>
          frag_bytes (attrib xf) frag_len A (nr_frags (attrib xf)) (pframe_start xf) k buf)"

section \<open>Working on one fragment in place\<close>

definition in_place :: "(u8 list \<Rightarrow> u8 list option) \<Rightarrow> nat \<Rightarrow> nat \<Rightarrow> u8 list \<Rightarrow> u8 list option" where
  "in_place f off n buf = do {
     r \<leftarrow> read_at off n buf;
     r' \<leftarrow> f r;
     write_at off r' buf
   }"

lemma in_place_Some:
  assumes "in_place f off n buf = Some buf'" and "\<And>r r'. f r = Some r' \<Longrightarrow> length r' = length r"
  obtains r' where "off + n \<le> length buf" "f (take n (drop off buf)) = Some r'" "length r' = n"
    "buf' = take off buf @ r' @ drop (off + n) buf"
proof -
  from assms(1) have fits: "off + n \<le> length buf"
    by (auto simp: in_place_def read_at_def bind_eq_Some_conv split: if_splits)
  with assms(1) obtain r' where r': "f (take n (drop off buf)) = Some r'" "write_at off r' buf = Some buf'"
    by (auto simp: in_place_def bind_eq_Some_conv)
  have len: "length r' = n" using assms(2) [OF r'(1)] fits by simp
  with r'(2) fits have "buf' = take off buf @ r' @ drop (off + n) buf" by simp
  with that fits r'(1) len show thesis by blast
qed

locale fragment_cipher =
  fixes enc :: "nat \<Rightarrow> int \<Rightarrow> u8 list \<Rightarrow> u8 list option"
    and encf :: "u8 list \<Rightarrow> u8 list option"
    and ok :: "u8 list \<Rightarrow> bool"
    and a :: pkt_attrib
  assumes enc_frame: "0 \<le> l \<Longrightarrow> ok (take (hdrlen a + iv_len a + nat l + icv_len a) (drop pf buf)) \<Longrightarrow>
      enc pf l buf = in_place encf pf (hdrlen a + iv_len a + nat l + icv_len a) buf"
    and enc_negative: "l < 0 \<Longrightarrow> enc pf l buf = None"
    and encf_length: "encf r = Some r' \<Longrightarrow> length r' = length r"
begin

lemma enc_last:
  assumes "enc pf (last_length a) buf = Some buf'" and "ok (take (last_txcmdsz a) (drop pf buf))"
  shows "in_place encf pf (last_txcmdsz a) buf = Some buf'"
proof -
  have "0 \<le> last_length a" using assms enc_negative by (metis not_le option.distinct(1))
  moreover from this have "hdrlen a + iv_len a + nat (last_length a) + icv_len a = last_txcmdsz a"
    by (simp add: last_length_def)
  ultimately show ?thesis using assms enc_frame by metis
qed

lemma enc_mid:
  assumes "enc pf (mid_length a fl) buf = Some buf'" and "ok (take fl (drop pf buf))"
  shows "in_place encf pf fl buf = Some buf'"
proof -
  have "0 \<le> mid_length a fl" using assms enc_negative by (metis not_le option.distinct(1))
  moreover from this have "hdrlen a + iv_len a + nat (mid_length a fl) + icv_len a = fl"
    by (simp add: mid_length_def)
  ultimately show ?thesis using assms enc_frame by metis
qed

text \<open>
  The walk keeps the length of the buffer and everything before the first fragment, and
  replaces each fragment by its protected form.
\<close>

lemma frag_loop_fragments:
  assumes "frag_loop enc a fl A n pf buf = Some buf'"
    and "\<forall>k < n. ok (frag_bytes a fl A n pf k buf)"
  shows "length buf' = length buf \<and> take pf buf' = take pf buf \<and>
    (\<forall>k < n. encf (frag_bytes a fl A n pf k buf) = Some (frag_bytes a fl A n pf k buf'))"
  using assms
proof (induction n arbitrary: pf buf)
  case 0
  then show ?case by simp
next
  case (Suc n)
  show ?case
  proof (cases n)
    case 0
    have "ok (take (last_txcmdsz a) (drop pf buf))"
      using spec [OF Suc.prems(2), of 0] 0 by (simp add: frag_bytes_def frag_size_def)
    with Suc.prems 0 have "in_place encf pf (last_txcmdsz a) buf = Some buf'"
      by (simp add: enc_last)
    then show ?thesis
      by (rule in_place_Some [OF _ encf_length])
        (auto simp: 0 frag_bytes_def frag_size_def)
  next
    case (Suc m)
    let ?pf = "RND4 (A + pf + fl) - A"
    from Suc.prems Suc obtain buf1 where b1: "enc pf (mid_length a fl) buf = Some buf1"
      and rest: "frag_loop enc a fl A n ?pf buf1 = Some buf'"
      by (auto simp: bind_eq_Some_conv)
    have ok0: "ok (take fl (drop pf buf))"
      using spec [OF Suc.prems(2), of 0] Suc by (simp add: frag_bytes_def frag_size_def)
    from in_place_Some [OF enc_mid [OF b1 ok0] encf_length] obtain r' where r':
      "pf + fl \<le> length buf" "encf (take fl (drop pf buf)) = Some r'" "length r' = fl"
      "buf1 = take pf buf @ r' @ drop (pf + fl) buf" by blast
    have pf: "pf + fl \<le> ?pf" by (rule next_off_ge)
    have beyond: "frag_bytes a fl A n ?pf j buf1 = frag_bytes a fl A (Suc n) pf (Suc j) buf" for j
    proof -
      have "pf + fl \<le> frag_off fl A ?pf j" using pf frag_off_ge order_trans by blast
      then have "drop (frag_off fl A ?pf j) buf1 = drop (frag_off fl A ?pf j) buf"
        using r' by simp
      then show ?thesis by (simp add: frag_bytes_def frag_size_def)
    qed
    have "\<forall>j < n. ok (frag_bytes a fl A n ?pf j buf1)"
      using Suc.prems(2) unfolding beyond by simp
    note IH = Suc.IH [OF rest this]
    have same: "take (pf + fl) buf' = take (pf + fl) buf1"
      using pf IH by (metis min.absorb1 take_take)
    have first: "take pf buf' = take pf buf" "take fl (drop pf buf') = r'"
    proof -
      have "take (pf + fl) buf1 = take pf buf @ r'" using r' by simp
      with same have both: "take (pf + fl) buf' = take pf buf @ r'" by simp
      have "take pf buf' = take pf (take (pf + fl) buf')" by simp
      then show "take pf buf' = take pf buf" unfolding both using r'(1) by simp
      have "take fl (drop pf buf') = drop pf (take (pf + fl) buf')" by (simp add: drop_take)
      then show "take fl (drop pf buf') = r'" unfolding both using r'(1) by simp
    qed
    show ?thesis
    proof (intro conjI allI impI)
      show "length buf' = length buf" using IH r' by simp
      show "take pf buf' = take pf buf" by (rule first)
      fix k assume "k < Suc n"
      show "encf (frag_bytes a fl A (Suc n) pf k buf) = Some (frag_bytes a fl A (Suc n) pf k buf')"
      proof (cases k)
        case 0
        then show ?thesis using r'(2) first(2) Suc by (simp add: frag_bytes_def frag_size_def)
      next
        case (Suc j)
        with \<open>k < Suc n\<close> IH have "encf (frag_bytes a fl A n ?pf j buf1) =
            Some (frag_bytes a fl A n ?pf j buf')" by simp
        moreover have "frag_bytes a fl A (Suc n) pf (Suc j) buf' = frag_bytes a fl A n ?pf j buf'"
          by (simp add: frag_bytes_def frag_size_def)
        ultimately show ?thesis using Suc beyond by simp
      qed
    qed
  qed
qed

text \<open>With room for every fragment and lengths that are not negative the walk succeeds.\<close>

lemma frag_loop_total:
  assumes "\<And>r. hdrlen a + iv_len a + icv_len a \<le> length r \<Longrightarrow> \<exists>r'. encf r = Some r'"
    and "0 < n" and "0 \<le> last_length a" and "0 \<le> mid_length a fl"
    and "frag_off fl A pf (n - 1) + last_txcmdsz a \<le> length buf"
    and "\<forall>k < n. ok (frag_bytes a fl A n pf k buf)"
  shows "\<exists>buf'. frag_loop enc a fl A n pf buf = Some buf'"
  using assms(2,5,6)
proof (induction n arbitrary: pf buf)
  case (Suc n)
  have step: "\<exists>b r'. enc pf l buf = Some b \<and> length r' = hdrlen a + iv_len a + nat l + icv_len a \<and>
      b = take pf buf @ r' @ drop (pf + (hdrlen a + iv_len a + nat l + icv_len a)) buf"
    if l: "0 \<le> l" "pf + (hdrlen a + iv_len a + nat l + icv_len a) \<le> length buf"
      "ok (take (hdrlen a + iv_len a + nat l + icv_len a) (drop pf buf))" for l
  proof -
    let ?n = "hdrlen a + iv_len a + nat l + icv_len a"
    from l(2) have "length (take ?n (drop pf buf)) = ?n" by simp
    then obtain r' where "encf (take ?n (drop pf buf)) = Some r'" "length r' = ?n"
      using assms(1) [of "take ?n (drop pf buf)"] encf_length by auto
    then show ?thesis using l by (simp add: enc_frame in_place_def)
  qed
  show ?case
  proof (cases n)
    case 0
    have "hdrlen a + iv_len a + nat (last_length a) + icv_len a = last_txcmdsz a"
      using assms(3) by (simp add: last_length_def)
    moreover have "ok (take (last_txcmdsz a) (drop pf buf))"
      using spec [OF Suc.prems(3), of 0] 0 by (simp add: frag_bytes_def frag_size_def)
    ultimately show ?thesis using step [OF assms(3)] Suc.prems(2) 0 by auto
  next
    case (Suc m)
    let ?pf = "RND4 (A + pf + fl) - A"
    have size: "hdrlen a + iv_len a + nat (mid_length a fl) + icv_len a = fl"
      using assms(4) by (simp add: mid_length_def)
    have pf: "pf + fl \<le> ?pf" by (rule next_off_ge)
    also have "\<dots> \<le> frag_off fl A ?pf m" by (rule frag_off_ge)
    finally have "pf + fl \<le> length buf" using Suc.prems Suc by simp
    moreover have "ok (take fl (drop pf buf))"
      using spec [OF Suc.prems(3), of 0] Suc by (simp add: frag_bytes_def frag_size_def)
    ultimately obtain b r' where b: "enc pf (mid_length a fl) buf = Some b" "length r' = fl"
      "b = take pf buf @ r' @ drop (pf + fl) buf"
      using step [OF assms(4)] size by auto
    then have len: "length b = length buf" using \<open>pf + fl \<le> length buf\<close> by simp
    have beyond: "frag_bytes a fl A n ?pf j b = frag_bytes a fl A (Suc n) pf (Suc j) buf" for j
    proof -
      have "pf + fl \<le> frag_off fl A ?pf j" using pf frag_off_ge order_trans by blast
      then have "drop (frag_off fl A ?pf j) b = drop (frag_off fl A ?pf j) buf"
        using b \<open>pf + fl \<le> length buf\<close> by simp
      then show ?thesis by (simp add: frag_bytes_def frag_size_def)
    qed
    have "\<forall>j < n. ok (frag_bytes a fl A n ?pf j b)"
      using Suc.prems(3) unfolding beyond by simp
    then have "\<exists>buf'. frag_loop enc a fl A n ?pf b = Some buf'"
      by (intro Suc.IH) (use Suc.prems Suc len in auto)
    then show ?thesis using b(1) Suc by simp
  qed
qed simp

text \<open>Both together, for a transmit frame.\<close>

lemma frag_loop_xmit:
  assumes total: "\<And>r. hdrlen a + iv_len a + icv_len a \<le> length r \<Longrightarrow> \<exists>r'. encf r = Some r'"
    and buf: "buf_addr xf = Some (A, buf)" and a: "attrib xf = a" and fit: "frags_fit fl xf"
    and ok: "\<forall>k < nr_frags a. ok (fragment fl xf k)"
  shows "\<exists>buf'. frag_loop enc a fl A (nr_frags a) (pframe_start xf) buf = Some buf' \<and>
    (\<forall>k < nr_frags a. encf (fragment fl xf k) =
       Some (fragment fl (xf\<lparr>buf_addr := Some (A, buf')\<rparr>) k))"
proof -
  from fit buf a have "0 < nr_frags a" "0 \<le> last_length a" "0 \<le> mid_length a fl"
    "frag_off fl A (pframe_start xf) (nr_frags a - 1) + last_txcmdsz a \<le> length buf"
    by (simp_all add: frags_fit_def Let_def)
  moreover have oks: "\<forall>k < nr_frags a. ok (frag_bytes a fl A (nr_frags a) (pframe_start xf) k buf)"
    using ok buf a by (simp add: fragment_def)
  ultimately obtain buf' where
    res: "frag_loop enc a fl A (nr_frags a) (pframe_start xf) buf = Some buf'"
    using frag_loop_total [OF total] by blast
  then show ?thesis
    using frag_loop_fragments [OF res oks] buf a by (auto simp: fragment_def pframe_start_def)
qed

end

section \<open>Concrete frames\<close>

text \<open>Two fragments of 48 and 45 bytes, for the witnesses of the ciphers.\<close>

definition sample_security :: "security_priv" where
  "sample_security = \<lparr>dot11AuthAlgrthm = 2, dot11PrivacyAlgrthm = WEP40, dot11PrivacyKeyIndex = 0,
     dot11DefKey = [[1, 2, 3, 4, 5]], dot11DefKeylen = [5], key_mask = 0, dot118021XGrpPrivacy = 2, dot118021XGrpKeyid = 1,
     dot118021XGrpKey = replicate 4 (map word_of_nat [1..<17]),
     dot118021XGrprxmickey = replicate 4 (map word_of_nat [1..<9]), binstallGrpkey = True,
     busetkipkey = False, bcheck_grpkey = False, sw_decrypt = False, hw_decrypted = False,
     last_mic_err_time = 0, btkip_countermeasure = False, btkip_countermeasure_time = 0\<rparr>"

definition sample_attrib :: "nat \<Rightarrow> nat \<Rightarrow> nat \<Rightarrow> pkt_attrib" where
  "sample_attrib alg ivl icvl = \<lparr>encrypt = alg, nr_frags = 2, hdrlen = 24, iv_len = ivl, icv_len = icvl,
     last_txcmdsz = 45, tx_psta = Some 0, tx_ra = [2, 0, 0, 0, 0, 1], tx_ta = [2, 0, 0, 0, 0, 2]\<rparr>"

definition sample_xmit :: "pkt_attrib \<Rightarrow> xmit_frame" where
  "sample_xmit a = \<lparr>attrib = a, buf_addr = Some (4096, replicate 160 0), pkt_offset = 0\<rparr>"

definition sample_rx :: "nat \<Rightarrow> nat \<Rightarrow> rx_attrib" where
  "sample_rx alg ivl = \<lparr>rx_encrypt = alg, rx_hdrlen = 24, rx_iv_len = ivl, rx_key_index = 0,
     rx_ta = [2, 0, 0, 0, 0, 2], rx_ra = [2, 0, 0, 0, 0, 1]\<rparr>"

lemma sample_fit: "ivl + icvl \<le> 20 \<Longrightarrow> frags_fit 48 (sample_xmit (sample_attrib alg ivl icvl))"
  by (simp add: frags_fit_def sample_xmit_def sample_attrib_def Let_def last_length_def
      mid_length_def pframe_start_def TXDESC_SIZE_def RND4_def)

end
