(* ===== verification/Wep.thy ===== *)
theory Wep
  imports Frames Rc4 Crc32
begin

text \<open>
  WEP: \<^verbatim>\<open>rtw_wep_encrypt\<close> and \<^verbatim>\<open>rtw_wep_decrypt\<close> of \<^verbatim>\<open>core/rtw_security.c\<close>.
  Every fragment is header, IV, payload and integrity value; payload and integrity value are
  encrypted with RC4 under the first three bytes of the IV and the default key.
\<close>

section \<open>The code\<close>

text \<open>
  The per-packet key: \<^verbatim>\<open>wepkey\<close> is an array of 16 bytes, so a key length above 13
  overruns it.
\<close>

definition wep_key :: "security_priv \<Rightarrow> nat \<Rightarrow> u8 list \<Rightarrow> u8 list option" where
  "wep_key sp idx iv = do {
     keylength \<leftarrow> byte_at idx (dot11DefKeylen sp);
     skey \<leftarrow> byte_at idx (dot11DefKey sp);
     k \<leftarrow> (if 3 + keylength \<le> 16 then read_at 0 keylength skey else None);
     Some (iv @ k)
   }"

definition wep_encrypt_frag ::
  "security_priv \<Rightarrow> pkt_attrib \<Rightarrow> nat \<Rightarrow> int \<Rightarrow> u8 list \<Rightarrow> u8 list option" where
  "wep_encrypt_frag sp a pf l buf = do {
     iv \<leftarrow> read_at (pf + hdrlen a) 3 buf;
     wepkey \<leftarrow> wep_key sp (dot11PrivacyKeyIndex sp) iv;
     let payload = pf + iv_len a + hdrlen a;
     (if l < 0 then None else do {
        p \<leftarrow> read_at payload (nat l) buf;
        let crc = le32_bytes (crc32_of p);
        mycontext \<leftarrow> arcfour_init wepkey (length wepkey);
        let (c, mycontext1) = arcfour_encrypt mycontext p;
        buf1 \<leftarrow> write_at payload c buf;
        let (e, mycontext2) = arcfour_encrypt mycontext1 crc;
        write_at (payload + nat l) e buf1
      })
   }"

definition rtw_wep_encrypt :: "security_priv \<Rightarrow> nat \<Rightarrow> xmit_frame \<Rightarrow> xmit_frame option" where
  "rtw_wep_encrypt sp frag_len xf =
     (case buf_addr xf of
        None \<Rightarrow> Some xf
      | Some (A, buf) \<Rightarrow>
          let a = attrib xf in
          if encrypt a = WEP40 \<or> encrypt a = WEP104
          then do {
            buf' \<leftarrow> frag_loop (wep_encrypt_frag sp a) a frag_len A (nr_frags a) (pframe_start xf) buf;
            Some (xf\<lparr>buf_addr := Some (A, buf')\<rparr>)
          }
          else Some xf)"

text \<open>
  The receiver returns nothing: the comparison of the integrity value only decides whether
  an error is traced, which is the first component here.
\<close>

definition rtw_wep_decrypt :: "security_priv \<Rightarrow> recv_frame \<Rightarrow> (bool \<times> recv_frame) option" where
  "rtw_wep_decrypt sp rf =
     (let a = rx_attr rf; pframe = rx_data rf in
      if rx_encrypt a = WEP40 \<or> rx_encrypt a = WEP104
      then do {
        iv \<leftarrow> read_at (rx_hdrlen a) 3 pframe;
        wepkey \<leftarrow> wep_key sp (rx_key_index a) iv;
        let l = int (rx_len rf) - int (rx_hdrlen a) - int (rx_iv_len a);
        let payload = rx_iv_len a + rx_hdrlen a;
        (if l < 0 then None else do {
           mycontext \<leftarrow> arcfour_init wepkey (length wepkey);
           c \<leftarrow> read_at payload (nat l) pframe;
           let (p, mycontext1) = arcfour_encrypt mycontext c;
           pframe1 \<leftarrow> write_at payload p pframe;
           let crc = le32_bytes (crc32_of (take (nat l - 4) p));
           icv \<leftarrow> (if payload + nat l < 4 then None else read_at (payload + nat l - 4) 4 pframe1);
           Some (crc \<noteq> icv, rf\<lparr>rx_data := pframe1\<rparr>)
         })
      }
      else Some (False, rf))"

section \<open>WEP as a sealed payload\<close>

definition rc4_ks :: "u8 list \<Rightarrow> nat \<Rightarrow> u8 list" where
  "rc4_ks key n = (case arcfour_init key (length key) of
     None \<Rightarrow> replicate n 0 | Some ctx \<Rightarrow> arcfour_stream ctx n)"

definition crc_icv :: "u8 list \<Rightarrow> u8 list \<Rightarrow> u8 list" where
  "crc_icv key p = le32_bytes (crc32_of p)"

interpretation rc4: sealed_payload rc4_ks crc_icv 4
  by unfold_locales (auto simp: rc4_ks_def crc_icv_def split: option.splits)

lemma arcfour_init_total: "0 < length key \<Longrightarrow> \<exists>ctx. arcfour_init key (length key) = Some ctx"
  by (cases key) (auto simp: arcfour_init_def Let_def split: prod.splits)

lemma rc4_crypt:
  assumes "arcfour_init key (length key) = Some ctx"
  shows "fst (arcfour_encrypt ctx xs) = rc4.crypt key xs"
  using assms by (simp add: rc4.crypt_def rc4_ks_def arcfour_encrypt_stream)

text \<open>Encrypting the payload and then the integrity value is encrypting both at once.\<close>

lemma rc4_seal_two:
  assumes "arcfour_init key (length key) = Some ctx"
  shows "fst (arcfour_encrypt ctx p) @
      fst (arcfour_encrypt (snd (arcfour_encrypt ctx p)) (le32_bytes (crc32_of p))) =
    rc4.seal key p"
  using assms
  by (simp add: rc4.seal_def rc4_crypt [symmetric] arcfour_encrypt_append crc_icv_def)

text \<open>
  What sealing does to one fragment, header and IV included. TKIP shares it: only the key
  derivation \<open>kf\<close>, from header and IV, differs.
\<close>

definition rc4_frame :: "(u8 list \<Rightarrow> u8 list option) \<Rightarrow> nat \<Rightarrow> u8 list \<Rightarrow> u8 list option" where
  "rc4_frame kf hl r =
     (if length r < hl + 4 then None
      else do {
        key \<leftarrow> kf r;
        Some (take hl r @ rc4.seal key (take (length r - hl - 4) (drop hl r)))
      })"

lemma rc4_frame_length: "rc4_frame kf hl r = Some r' \<Longrightarrow> length r' = length r"
  by (auto simp: rc4_frame_def rc4.length_seal bind_eq_Some_conv split: if_splits)

text \<open>The two writes of the code are one write of the sealed payload.\<close>

lemma rc4_write_sealed:
  assumes "arcfour_init key (length key) = Some ctx"
  shows "(let (c, ctx1) = arcfour_encrypt ctx p in do {
       buf1 \<leftarrow> write_at off c buf;
       let (e, ctx2) = arcfour_encrypt ctx1 (le32_bytes (crc32_of p));
       write_at (off + length p) e buf1 }) = write_at off (rc4.seal key p) buf"
proof -
  have "length (fst (arcfour_encrypt ctx p)) = length p"
    by (simp add: arcfour_encrypt_stream)
  then show ?thesis
    unfolding rc4_seal_two [OF assms, symmetric] write_at_append
    by (simp add: case_prod_unfold Let_def)
qed

text \<open>
  A fragment routine that reads the IV and the payload, derives the key and writes the sealed
  payload is \<open>rc4_frame\<close> in place.
\<close>

lemma rc4_frame_in_place:
  assumes fits: "pf + (hl + n + 4) \<le> length buf"
    and key: "kf (take (hl + n + 4) (drop pf buf)) = Some key"
  shows "in_place (rc4_frame kf hl) pf (hl + n + 4) buf =
    write_at (pf + hl) (rc4.seal key (take n (drop (pf + hl) buf))) buf"
proof -
  let ?r = "take (hl + n + 4) (drop pf buf)"
  let ?s = "rc4.seal key (take n (drop (pf + hl) buf))"
  have len: "length ?r = hl + n + 4" using fits by simp
  then have "take (length ?r - hl - 4) (drop hl ?r) = take n (drop (pf + hl) buf)"
    by (simp only: len) (simp add: drop_take min_def add.commute)
  moreover have "take hl ?r = take hl (drop pf buf)" using fits by simp
  ultimately have "rc4_frame kf hl ?r = Some (take hl (drop pf buf) @ ?s)"
    using fits key by (simp add: rc4_frame_def)
  moreover have "length ?s = n + 4" using fits by (simp add: rc4.length_seal)
  ultimately show ?thesis
    using fits write_at_same_prefix [of pf hl ?s buf] by (simp add: in_place_def)
qed

section \<open>The fragment routine is the sealed frame, in place\<close>

definition wep_frame_key :: "security_priv \<Rightarrow> nat \<Rightarrow> nat \<Rightarrow> u8 list \<Rightarrow> u8 list option" where
  "wep_frame_key sp idx h r = wep_key sp idx (take 3 (drop h r))"

lemma wep_key_length: "wep_key sp idx iv = Some k \<Longrightarrow> length iv = 3 \<Longrightarrow> 0 < length k"
  by (auto simp: wep_key_def bind_eq_Some_conv)

lemma wep_encrypt_frag_sealed:
  assumes "0 \<le> l"
  shows "wep_encrypt_frag sp a pf l buf =
    in_place (rc4_frame (wep_frame_key sp (dot11PrivacyKeyIndex sp) (hdrlen a)) (hdrlen a + iv_len a))
      pf (hdrlen a + iv_len a + nat l + 4) buf"
    (is "_ = in_place (rc4_frame ?kf ?hl) pf ?n buf")
proof (cases "pf + ?n \<le> length buf")
  case fits: True
  let ?iv = "take 3 (drop (pf + hdrlen a) buf)"
  have iv: "take 3 (drop (hdrlen a) (take ?n (drop pf buf))) = ?iv"
    using fits by (simp add: drop_take min_def add.commute)
  show ?thesis
  proof (cases "wep_key sp (dot11PrivacyKeyIndex sp) ?iv")
    case None
    then show ?thesis
      using fits iv by (simp add: wep_encrypt_frag_def in_place_def rc4_frame_def wep_frame_key_def)
  next
    case (Some key)
    then have "0 < length key" using fits wep_key_length by simp
    then obtain ctx where ctx: "arcfour_init key (length key) = Some ctx"
      using arcfour_init_total by blast
    let ?p = "take (nat l) (drop (pf + ?hl) buf)"
    have "length ?p = nat l" using fits by simp
    then have "wep_encrypt_frag sp a pf l buf = write_at (pf + ?hl) (rc4.seal key ?p) buf"
      using fits assms Some ctx rc4_write_sealed [OF ctx, of ?p "pf + ?hl" buf]
      by (simp add: wep_encrypt_frag_def Let_def ac_simps)
    moreover have "?kf (take ?n (drop pf buf)) = Some key"
      using Some iv by (simp add: wep_frame_key_def)
    ultimately show ?thesis
      using rc4_frame_in_place [OF fits] by simp
  qed
next
  case False
  then have rhs: "in_place (rc4_frame ?kf ?hl) pf ?n buf = None"
    by (simp add: in_place_def read_at_NoneI)
  have "wep_encrypt_frag sp a pf l buf \<noteq> Some b" for b
  proof
    assume "wep_encrypt_frag sp a pf l buf = Some b"
    with assms obtain e buf1 where "write_at (pf + iv_len a + hdrlen a + nat l) e buf1 = Some b"
      and "length e = 4" and "length buf1 = length buf"
      by (auto simp: wep_encrypt_frag_def Let_def bind_eq_Some_conv arcfour_encrypt_stream
          dest: write_at_Some_length split: prod.splits)
    with False show False by (auto simp: write_at_def split: if_splits)
  qed
  then show ?thesis using rhs by (cases "wep_encrypt_frag sp a pf l buf") auto
qed

interpretation wepf: fragment_cipher "wep_encrypt_frag sp a"
  "rc4_frame (wep_frame_key sp (dot11PrivacyKeyIndex sp) (hdrlen a)) (hdrlen a + iv_len a)"
  "\<lambda>_. True" "a\<lparr>icv_len := 4\<rparr>" for sp a
proof
  fix l pf buf assume "l < (0 :: int)"
  then show "wep_encrypt_frag sp a pf l buf = None"
    by (simp add: wep_encrypt_frag_def bind_eq_None_conv)
qed (simp_all add: wep_encrypt_frag_sealed rc4_frame_length)

section \<open>Opening a sealed frame\<close>

text \<open>
  The receiving side of \<open>rc4_frame\<close>: decrypt everything after header and IV and report
  whether the integrity value is wrong.
\<close>

definition rc4_open :: "(u8 list \<Rightarrow> u8 list option) \<Rightarrow> nat \<Rightarrow> u8 list \<Rightarrow> (bool \<times> u8 list) option" where
  "rc4_open kf hl r = do {
     key \<leftarrow> kf r;
     let (d, ok) = rc4.unseal key (drop hl r);
     Some (\<not> ok, take hl r @ d)
   }"

lemma rc4_open_frame:
  assumes sealed: "rc4_frame kf hl r = Some r'" and kf: "\<And>x. kf (take hl r @ x) = kf r"
  shows "rc4_open kf hl r' = Some (False, take hl r @
    (let p = take (length r - hl - 4) (drop hl r) in p @ le32_bytes (crc32_of p)))"
proof -
  from sealed obtain key where len: "hl + 4 \<le> length r" and key: "kf r = Some key"
    and r': "r' = take hl r @ rc4.seal key (take (length r - hl - 4) (drop hl r))"
    by (auto simp: rc4_frame_def bind_eq_Some_conv split: if_splits)
  from len have "length (take hl r) = hl" by simp
  then have "drop hl r' = rc4.seal key (take (length r - hl - 4) (drop hl r))"
    "take hl r' = take hl r" by (simp_all add: r')
  moreover have "kf r' = Some key" using kf key r' by simp
  ultimately show ?thesis
    by (simp add: rc4_open_def rc4.unseal_seal crc_icv_def Let_def)
qed

lemma wep_frame_key_prefix:
  assumes "h + 3 \<le> hl" "hl \<le> length r"
  shows "wep_frame_key sp idx h (take hl r @ x) = wep_frame_key sp idx h r"
proof -
  have "take 3 (drop h (take hl r @ x)) = take 3 (drop h (take hl r))" using assms by simp
  also have "\<dots> = take 3 (drop h r)" using assms(1) by (simp add: drop_take)
  finally show ?thesis by (simp add: wep_frame_key_def)
qed

text \<open>The decryption of the code, and the last four decrypted bytes it compares.\<close>

lemma rc4_read_unsealed:
  assumes ctx: "arcfour_init key (length key) = Some ctx"
    and len: "length r = hl + n" "4 \<le> n"
  defines "d \<equiv> fst (arcfour_encrypt ctx (drop hl r))"
  shows "write_at hl d r = Some (take hl r @ d)"
    and "read_at (hl + n - 4) 4 (take hl r @ d) = Some (drop (n - 4) d)"
    and "rc4.unseal key (drop hl r) =
      (d, drop (n - 4) d = le32_bytes (crc32_of (take (n - 4) d)))"
proof -
  have d: "d = rc4.crypt key (drop hl r)" by (simp add: d_def rc4_crypt [OF ctx])
  have dlen: "length d = n" using len by (simp add: d rc4.length_crypt)
  show "read_at (hl + n - 4) 4 (take hl r @ d) = Some (drop (n - 4) d)"
    and "write_at hl d r = Some (take hl r @ d)" using len dlen by simp_all
  show "rc4.unseal key (drop hl r) =
      (d, drop (n - 4) d = le32_bytes (crc32_of (take (n - 4) d)))"
    using dlen by (simp add: rc4.unseal_def Let_def d [symmetric] crc_icv_def)
qed

lemma rtw_wep_decrypt_open:
  assumes enc: "rx_encrypt (rx_attr rf) = WEP40 \<or> rx_encrypt (rx_attr rf) = WEP104"
    and len: "rx_len rf = length (rx_data rf)"
    and iv: "3 \<le> rx_iv_len (rx_attr rf)"
    and fits: "rx_hdrlen (rx_attr rf) + rx_iv_len (rx_attr rf) + 4 \<le> length (rx_data rf)"
  shows "rtw_wep_decrypt sp rf =
    map_option (\<lambda>(e, r). (e, rf\<lparr>rx_data := r\<rparr>))
      (rc4_open (wep_frame_key sp (rx_key_index (rx_attr rf)) (rx_hdrlen (rx_attr rf)))
        (rx_hdrlen (rx_attr rf) + rx_iv_len (rx_attr rf)) (rx_data rf))"
proof -
  let ?h = "rx_hdrlen (rx_attr rf)" and ?i = "rx_iv_len (rx_attr rf)" and ?r = "rx_data rf"
  let ?iv = "take 3 (drop ?h ?r)"
  define n where "n = length ?r - (?h + ?i)"
  have n: "4 \<le> n" "length ?r = (?h + ?i) + n" using fits by (simp_all add: n_def)
  have l: "int (rx_len rf) - int ?h - int ?i = int n" using n len by simp
  show ?thesis
  proof (cases "wep_key sp (rx_key_index (rx_attr rf)) ?iv")
    case None
    then show ?thesis using enc fits
      by (simp add: rtw_wep_decrypt_def Let_def rc4_open_def wep_frame_key_def)
  next
    case (Some key)
    have "0 < length key" using wep_key_length [OF Some] fits iv by simp
    then obtain ctx where ctx: "arcfour_init key (length key) = Some ctx"
      using arcfour_init_total by blast
    have r: "read_at ?h 3 ?r = Some ?iv" using fits iv by simp
    have p: "read_at (?h + ?i) n ?r = Some (drop (?h + ?i) ?r)" using n by simp
    have "\<not> ?h + ?i + n < 4" using n by simp
    then show ?thesis
      using enc Some ctx rc4_read_unsealed [OF ctx n(2) n(1)]
      by (auto simp: rtw_wep_decrypt_def Let_def l r p rc4_open_def wep_frame_key_def
          add.commute [of ?i ?h] case_prod_unfold simp del: write_at_eq_Some read_at_eq_Some)
  qed
qed

section \<open>Properties\<close>

text \<open>The default key at an index is one the driver can use.\<close>

definition wep_key_ok :: "security_priv \<Rightarrow> nat \<Rightarrow> bool" where
  "wep_key_ok sp idx \<longleftrightarrow> idx < length (dot11DefKeylen sp) \<and> idx < length (dot11DefKey sp) \<and>
     dot11DefKeylen sp ! idx \<le> 13 \<and> dot11DefKeylen sp ! idx \<le> length (dot11DefKey sp ! idx)"

lemma wep_key_okD: "wep_key_ok sp idx \<Longrightarrow> \<exists>key. wep_key sp idx iv = Some key"
  by (auto simp: wep_key_ok_def wep_key_def)

lemma wep_frame_total:
  assumes "wep_key_ok sp idx" "hl + 4 \<le> length r"
  shows "\<exists>r'. rc4_frame (wep_frame_key sp idx h) hl r = Some r'"
  using assms wep_key_okD [OF assms(1), of "take 3 (drop h r)"]
  by (auto simp: rc4_frame_def wep_frame_key_def)

text \<open>
  WEP round trip. For a frame whose buffer has room for its fragments and a usable default
  key, \<^verbatim>\<open>rtw_wep_encrypt\<close> succeeds, and every fragment it leaves in the buffer, received by
  a station with the same key, is decrypted by \<^verbatim>\<open>rtw_wep_decrypt\<close> to header, IV and payload of
  the original fragment, followed by the CRC-32 of the payload, without an integrity error.
\<close>

theorem rtw_wep_roundtrip:
  assumes enc: "encrypt (attrib xf) = WEP40 \<or> encrypt (attrib xf) = WEP104"
    and lens: "icv_len (attrib xf) = 4" "3 \<le> iv_len (attrib xf)"
    and key: "wep_key_ok sp (dot11PrivacyKeyIndex sp)"
    and fit: "frags_fit frag_len xf"
    and rx: "rx_encrypt ra = WEP40 \<or> rx_encrypt ra = WEP104"
      "rx_hdrlen ra = hdrlen (attrib xf)" "rx_iv_len ra = iv_len (attrib xf)"
      "rx_key_index ra = dot11PrivacyKeyIndex sp"
  shows "\<exists>xf'. rtw_wep_encrypt sp frag_len xf = Some xf' \<and>
    (\<forall>k < nr_frags (attrib xf).
       (let plain = fragment frag_len xf k; sent = fragment frag_len xf' k;
            hl = hdrlen (attrib xf) + iv_len (attrib xf);
            payload = take (length plain - hl - 4) (drop hl plain)
        in rtw_wep_decrypt sp \<lparr>rx_attr = ra, rx_len = length sent, rx_data = sent\<rparr> =
             Some (False, \<lparr>rx_attr = ra, rx_len = length sent,
               rx_data = take hl plain @ payload @ le32_bytes (crc32_spec payload)\<rparr>)))"
proof -
  let ?a = "attrib xf" and ?idx = "dot11PrivacyKeyIndex sp"
  let ?hl = "hdrlen ?a + iv_len ?a"
  let ?kf = "wep_frame_key sp ?idx (hdrlen ?a)"
  from fit obtain A buf where buf: "buf_addr xf = Some (A, buf)"
    by (auto simp: frags_fit_def split: option.splits)
  have a: "?a\<lparr>icv_len := 4\<rparr> = ?a" using lens(1) by simp
  have total: "\<exists>r'. rc4_frame ?kf ?hl r = Some r'"
    if "hdrlen ?a + iv_len ?a + icv_len ?a \<le> length r" for r
    using that lens(1) by (intro wep_frame_total [OF key]) simp
  have "\<exists>buf'. frag_loop (wep_encrypt_frag sp ?a) ?a frag_len A (nr_frags ?a) (pframe_start xf) buf =
      Some buf' \<and> (\<forall>k < nr_frags ?a. rc4_frame ?kf ?hl (fragment frag_len xf k) =
       Some (fragment frag_len (xf\<lparr>buf_addr := Some (A, buf')\<rparr>) k))"
    by (rule wepf.frag_loop_xmit [of ?a sp xf A buf frag_len, unfolded a])
      (use total buf fit in auto)
  then obtain buf' where
    res: "frag_loop (wep_encrypt_frag sp ?a) ?a frag_len A (nr_frags ?a) (pframe_start xf) buf = Some buf'"
    and frags: "\<And>k. k < nr_frags ?a \<Longrightarrow> rc4_frame ?kf ?hl (fragment frag_len xf k) =
       Some (fragment frag_len (xf\<lparr>buf_addr := Some (A, buf')\<rparr>) k)"
    by (elim exE conjE) (rule that, assumption, simp)
  define xf' where "xf' = xf\<lparr>buf_addr := Some (A, buf')\<rparr>"
  have "rtw_wep_encrypt sp frag_len xf = Some xf'"
    using buf enc res by (auto simp: rtw_wep_encrypt_def Let_def xf'_def)
  moreover have "rtw_wep_decrypt sp \<lparr>rx_attr = ra, rx_len = length sent, rx_data = sent\<rparr> =
      Some (False, \<lparr>rx_attr = ra, rx_len = length sent,
        rx_data = take ?hl plain @ payload @ le32_bytes (crc32_spec payload)\<rparr>)"
    if "k < nr_frags ?a" "plain = fragment frag_len xf k" "sent = fragment frag_len xf' k"
      "payload = take (length plain - ?hl - 4) (drop ?hl plain)" for k plain sent payload
  proof -
    have sealed: "rc4_frame ?kf ?hl plain = Some sent" using frags that xf'_def by simp
    then have len: "?hl + 4 \<le> length plain" "length sent = length plain"
      using rc4_frame_length [OF sealed] sealed by (simp_all add: rc4_frame_def split: if_splits)
    have kf: "?kf (take ?hl plain @ x) = ?kf plain" for x
      using len lens(2) by (intro wep_frame_key_prefix) auto
    show ?thesis
      using rtw_wep_decrypt_open [of "\<lparr>rx_attr = ra, rx_len = length sent, rx_data = sent\<rparr>" sp]
        rc4_open_frame [OF sealed kf] rx lens(2) len that(4)
      by (simp add: Let_def crc32_of_spec)
  qed
  ultimately show ?thesis by (auto simp: Let_def)
qed

theorem rtw_wep_roundtrip_witness:
  "\<exists>xf'. rtw_wep_encrypt sample_security 48 (sample_xmit (sample_attrib WEP40 4 4)) = Some xf'"
proof -
  have "wep_key_ok sample_security (dot11PrivacyKeyIndex sample_security)"
    by (simp add: wep_key_ok_def sample_security_def)
  then show ?thesis
    using rtw_wep_roundtrip [of "sample_xmit (sample_attrib WEP40 4 4)" sample_security 48
        "sample_rx WEP40 4"]
    by (auto simp: sample_fit) (auto simp: sample_xmit_def sample_attrib_def sample_rx_def sample_security_def)
qed

text \<open>
  The integrity value never stops a frame. On every WEP frame that is long enough
  \<^verbatim>\<open>rtw_wep_decrypt\<close> replaces the payload by its decryption, and the error it traces says
  exactly that no payload has this encryption; the frame handed on is the same either way.
\<close>

theorem rtw_wep_decrypt_icv:
  assumes "rx_encrypt (rx_attr rf) = WEP40 \<or> rx_encrypt (rx_attr rf) = WEP104"
    and "rx_len rf = length (rx_data rf)" and "3 \<le> rx_iv_len (rx_attr rf)"
    and "hl = rx_hdrlen (rx_attr rf) + rx_iv_len (rx_attr rf)"
    and "hl + 4 \<le> length (rx_data rf)"
    and "wep_key sp (rx_key_index (rx_attr rf)) (take 3 (drop (rx_hdrlen (rx_attr rf)) (rx_data rf))) = Some key"
  shows "rtw_wep_decrypt sp rf =
    Some (\<not> (\<exists>p. drop hl (rx_data rf) = rc4.seal key p),
      rf\<lparr>rx_data := take hl (rx_data rf) @ rc4.crypt key (drop hl (rx_data rf))\<rparr>)"
proof -
  have "snd (rc4.unseal key (drop hl (rx_data rf))) \<longleftrightarrow> (\<exists>p. drop hl (rx_data rf) = rc4.seal key p)"
    using assms(5) by (intro rc4.unseal_accepts_iff) simp
  moreover have "fst (rc4.unseal key (drop hl (rx_data rf))) = rc4.crypt key (drop hl (rx_data rf))"
    by (simp add: rc4.unseal_def Let_def)
  ultimately show ?thesis
    using rtw_wep_decrypt_open [of rf sp] assms
    by (simp add: rc4_open_def wep_frame_key_def case_prod_unfold)
qed

theorem rtw_wep_decrypt_icv_witness:
  "\<exists>e. rtw_wep_decrypt sample_security
      \<lparr>rx_attr = sample_rx WEP104 4, rx_len = 32, rx_data = replicate 32 0\<rparr> =
    Some (e, \<lparr>rx_attr = sample_rx WEP104 4, rx_len = 32,
      rx_data = replicate 28 0 @ rc4.crypt [0, 0, 0, 1, 2, 3, 4, 5] (replicate 4 0)\<rparr>)"
  using rtw_wep_decrypt_icv [of "\<lparr>rx_attr = sample_rx WEP104 4, rx_len = 32, rx_data = replicate 32 0\<rparr>"
      28 sample_security "[0, 0, 0, 1, 2, 3, 4, 5]"]
  by (simp add: sample_rx_def sample_security_def wep_key_def numeral_eq_Suc)

end
