(* ===== verification/Recv_Queue.thy ===== *)
theory Recv_Queue
  imports Driver_Prelude
begin

text \<open>
  The pool of receive frames of \<^verbatim>\<open>core/rtw_recv.c\<close>: \<^verbatim>\<open>NR_RECVFRAME\<close> frames, named by
  their index in \<^verbatim>\<open>precv_frame_buf\<close>, that move between intrusive lists. A frame has one
  list node, so deleting it takes it off whatever list it is on; the model keeps one list per
  queue and deletes from all of them.
\<close>

section \<open>State\<close>

definition NR_RECVFRAME :: nat where "NR_RECVFRAME = 256"

text \<open>
  The queues a frame can be on: the three of \<^verbatim>\<open>recv_priv\<close>, and for each station the
  defragmentation queue and the reordering queue of each TID.
\<close>

datatype recv_qid = FREE_RECV | RECV_PENDING | UC_SWDEC_PENDING | DEFRAG nat | REORDER nat nat

text \<open>\<open>rf_pkt f\<close> is the socket buffer of frame \<open>f\<close>, \<open>skb_freed\<close> the buffers given back.\<close>

record recv_priv =
  rqueue :: "recv_qid \<Rightarrow> nat list"
  free_recvframe_cnt :: u32
  rf_pkt :: "nat \<Rightarrow> nat option"
  skb_freed :: "nat list"

definition rq_set :: "recv_qid \<Rightarrow> nat list \<Rightarrow> recv_priv \<Rightarrow> recv_priv" where
  "rq_set q xs rp = rp\<lparr>rqueue := (rqueue rp)(q := xs)\<rparr>"

definition rq_delete :: "nat \<Rightarrow> recv_priv \<Rightarrow> recv_priv" where
  "rq_delete f rp = rp\<lparr>rqueue := (\<lambda>q. removeAll f (rqueue rp q))\<rparr>"

definition rq_insert_tail :: "nat \<Rightarrow> recv_qid \<Rightarrow> recv_priv \<Rightarrow> recv_priv" where
  "rq_insert_tail f q rp = rq_set q (rqueue rp q @ [f]) rp"

section \<open>Operations\<close>

text \<open>The flag says whether the frames could be allocated.\<close>

definition rtw_init_recv_priv :: "bool \<Rightarrow> status \<times> recv_priv" where
  "rtw_init_recv_priv alloc_ok =
     (let rp = \<lparr>rqueue = (\<lambda>q. []), free_recvframe_cnt = of_nat NR_RECVFRAME,
                rf_pkt = (\<lambda>f. None), skb_freed = []\<rparr> in
      if alloc_ok
      then (SUCCESS, fold (\<lambda>i. rq_insert_tail i FREE_RECV) [0..<NR_RECVFRAME] rp)
      else (FAIL, rp))"

definition rtw_alloc_recvframe :: "recv_qid \<Rightarrow> recv_priv \<Rightarrow> nat option \<times> recv_priv" where
  "rtw_alloc_recvframe q rp =
     (case rqueue rp q of
        [] \<Rightarrow> (None, rp)
      | f # _ \<Rightarrow>
          let rp1 = rq_delete f rp in
          (Some f, if q = FREE_RECV
                   then rp1\<lparr>free_recvframe_cnt := free_recvframe_cnt rp1 - 1\<rparr> else rp1))"

definition rtw_enqueue_recvframe :: "nat \<Rightarrow> recv_qid \<Rightarrow> recv_priv \<Rightarrow> recv_priv" where
  "rtw_enqueue_recvframe f q rp =
     (let rp1 = rq_insert_tail f q (rq_delete f rp) in
      if q = FREE_RECV then rp1\<lparr>free_recvframe_cnt := free_recvframe_cnt rp1 + 1\<rparr> else rp1)"

definition rtw_free_recvframe :: "nat \<Rightarrow> recv_qid \<Rightarrow> recv_priv \<Rightarrow> recv_priv" where
  "rtw_free_recvframe f q rp =
     (let rp1 = (case rf_pkt rp f of
                   None \<Rightarrow> rp
                 | Some skb \<Rightarrow> rp\<lparr>skb_freed := skb_freed rp @ [skb], rf_pkt := (rf_pkt rp)(f := None)\<rparr>);
          rp2 = rq_insert_tail f q (rq_delete f rp1) in
      if q = FREE_RECV then rp2\<lparr>free_recvframe_cnt := free_recvframe_cnt rp2 + 1\<rparr> else rp2)"

text \<open>
  The successor is read before the frame is freed, so the walk visits the frames that were on
  the queue. Freeing a queue into itself would take the lock of the queue twice.
\<close>

definition rtw_free_recvframe_queue :: "recv_qid \<Rightarrow> recv_qid \<Rightarrow> recv_priv \<Rightarrow> recv_priv option" where
  "rtw_free_recvframe_queue q free rp =
     (if q = free then None else Some (fold (\<lambda>f. rtw_free_recvframe f free) (rqueue rp q) rp))"

text \<open>
  Emptying \<^verbatim>\<open>uc_swdec_pending_queue\<close>; returns the number of frames freed.
\<close>

function uc_swdec_loop :: "u32 \<Rightarrow> recv_priv \<Rightarrow> u32 \<times> recv_priv" where
  "uc_swdec_loop cnt rp =
     (case rtw_alloc_recvframe UC_SWDEC_PENDING rp of
        (None, rp1) \<Rightarrow> (cnt, rp1)
      | (Some f, rp1) \<Rightarrow> uc_swdec_loop (cnt + 1) (rtw_free_recvframe f FREE_RECV rp1))"
  by pat_completeness auto

section \<open>Basic facts\<close>

lemma rqueue_rq_set [simp]: "rqueue (rq_set q xs rp) = (rqueue rp)(q := xs)"
  by (simp add: rq_set_def)

lemma rqueue_rq_delete [simp]: "rqueue (rq_delete f rp) q = removeAll f (rqueue rp q)"
  by (simp add: rq_delete_def)

lemma rqueue_insert_tail [simp]:
  "rqueue (rq_insert_tail f q rp) = (rqueue rp)(q := rqueue rp q @ [f])"
  by (simp add: rq_insert_tail_def)

lemma rq_other_fields [simp]:
  "free_recvframe_cnt (rq_set q xs rp) = free_recvframe_cnt rp"
  "free_recvframe_cnt (rq_delete f rp) = free_recvframe_cnt rp"
  "free_recvframe_cnt (rq_insert_tail f q rp) = free_recvframe_cnt rp"
  "rf_pkt (rq_set q xs rp) = rf_pkt rp" "rf_pkt (rq_delete f rp) = rf_pkt rp"
  "rf_pkt (rq_insert_tail f q rp) = rf_pkt rp"
  "skb_freed (rq_set q xs rp) = skb_freed rp" "skb_freed (rq_delete f rp) = skb_freed rp"
  "skb_freed (rq_insert_tail f q rp) = skb_freed rp"
  by (simp_all add: rq_set_def rq_delete_def rq_insert_tail_def)

lemma free_recvframe_fields:
  "rqueue (rtw_free_recvframe f q rp) =
     (\<lambda>q'. removeAll f (rqueue rp q') @ (if q' = q then [f] else []))"
  "free_recvframe_cnt (rtw_free_recvframe f q rp) =
     free_recvframe_cnt rp + (if q = FREE_RECV then 1 else 0)"
  "rf_pkt (rtw_free_recvframe f q rp) = (rf_pkt rp)(f := None)"
  "skb_freed (rtw_free_recvframe f q rp) =
     skb_freed rp @ (case rf_pkt rp f of None \<Rightarrow> [] | Some s \<Rightarrow> [s])"
  by (auto simp: rtw_free_recvframe_def Let_def fun_eq_iff split: option.splits)

lemma enqueue_recvframe_fields:
  "rqueue (rtw_enqueue_recvframe f q rp) =
     (\<lambda>q'. removeAll f (rqueue rp q') @ (if q' = q then [f] else []))"
  "free_recvframe_cnt (rtw_enqueue_recvframe f q rp) =
     free_recvframe_cnt rp + (if q = FREE_RECV then 1 else 0)"
  "rf_pkt (rtw_enqueue_recvframe f q rp) = rf_pkt rp"
  "skb_freed (rtw_enqueue_recvframe f q rp) = skb_freed rp"
  by (auto simp: rtw_enqueue_recvframe_def Let_def fun_eq_iff)

text \<open>The loop over \<^verbatim>\<open>uc_swdec_pending_queue\<close> ends: each turn takes a frame off it.\<close>

termination uc_swdec_loop
proof (relation "measure (\<lambda>(cnt, rp). length (rqueue rp UC_SWDEC_PENDING))")
  fix cnt :: u32 and rp rp1 x f
  assume "(x, rp1) = rtw_alloc_recvframe UC_SWDEC_PENDING rp" "x = Some f"
  moreover have "length (removeAll f xs) \<le> length xs" for xs :: "nat list"
    by (simp add: removeAll_filter_not_eq)
  ultimately show "((cnt + 1, rtw_free_recvframe f FREE_RECV rp1), cnt, rp)
      \<in> measure (\<lambda>(cnt, rp). length (rqueue rp UC_SWDEC_PENDING))"
    by (auto simp: rtw_alloc_recvframe_def free_recvframe_fields Let_def le_imp_less_Suc
        split: list.splits)
qed simp

declare uc_swdec_loop.simps [simp del]

definition rtw_free_uc_swdec_pending_queue :: "recv_priv \<Rightarrow> u32 \<times> recv_priv" where
  "rtw_free_uc_swdec_pending_queue rp = uc_swdec_loop 0 rp"

section \<open>The invariant of the pool\<close>

text \<open>
  No frame is on two lists, or twice on one, and \<^verbatim>\<open>free_recvframe_cnt\<close> is the length of the
  free list.
\<close>

definition recv_inv :: "recv_priv \<Rightarrow> bool" where
  "recv_inv rp \<longleftrightarrow>
     (\<forall>q. distinct (rqueue rp q) \<and> set (rqueue rp q) \<subseteq> {..<NR_RECVFRAME}) \<and>
     (\<forall>q q'. q \<noteq> q' \<longrightarrow> set (rqueue rp q) \<inter> set (rqueue rp q') = {}) \<and>
     free_recvframe_cnt rp = of_nat (length (rqueue rp FREE_RECV))"

lemma recv_invD:
  assumes "recv_inv rp"
  shows "distinct (rqueue rp q)" "f \<in> set (rqueue rp q) \<Longrightarrow> f < NR_RECVFRAME"
    "f \<in> set (rqueue rp q) \<Longrightarrow> f \<in> set (rqueue rp q') \<Longrightarrow> q = q'"
    "free_recvframe_cnt rp = of_nat (length (rqueue rp FREE_RECV))"
  using assms unfolding recv_inv_def by blast+

lemma recv_invI:
  assumes "\<And>q. distinct (rqueue rp q)" "\<And>q f. f \<in> set (rqueue rp q) \<Longrightarrow> f < NR_RECVFRAME"
    "\<And>q q' f. f \<in> set (rqueue rp q) \<Longrightarrow> f \<in> set (rqueue rp q') \<Longrightarrow> q = q'"
    "free_recvframe_cnt rp = of_nat (length (rqueue rp FREE_RECV))"
  shows "recv_inv rp"
  unfolding recv_inv_def using assms by blast

lemma distinct_removeAll_notin: "f \<notin> set xs \<Longrightarrow> removeAll f xs = xs"
  by simp

lemma free_recvframe_inv:
  assumes inv: "recv_inv rp" and f: "f < NR_RECVFRAME" "f \<notin> set (rqueue rp FREE_RECV)"
  shows "recv_inv (rtw_free_recvframe f q rp)"
proof (rule recv_invI)
  show "distinct (rqueue (rtw_free_recvframe f q rp) q')" for q'
    using recv_invD(1) [OF inv] by (simp add: free_recvframe_fields distinct_removeAll)
  show "g \<in> set (rqueue (rtw_free_recvframe f q rp) q') \<Longrightarrow> g < NR_RECVFRAME" for g q'
    using recv_invD(2) [OF inv] f by (auto simp: free_recvframe_fields split: if_splits)
  show "g \<in> set (rqueue (rtw_free_recvframe f q rp) q1) \<Longrightarrow>
      g \<in> set (rqueue (rtw_free_recvframe f q rp) q2) \<Longrightarrow> q1 = q2" for g q1 q2
    using recv_invD(3) [OF inv] by (auto simp: free_recvframe_fields split: if_splits)
  show "free_recvframe_cnt (rtw_free_recvframe f q rp) =
      of_nat (length (rqueue (rtw_free_recvframe f q rp) FREE_RECV))"
    using recv_invD(4) [OF inv] f by (simp add: free_recvframe_fields)
qed

lemma enqueue_recvframe_inv:
  assumes inv: "recv_inv rp" and f: "f < NR_RECVFRAME" "f \<notin> set (rqueue rp FREE_RECV)"
  shows "recv_inv (rtw_enqueue_recvframe f q rp)"
proof -
  have "recv_inv (rtw_enqueue_recvframe f q rp) = recv_inv (rtw_free_recvframe f q rp)"
    by (simp add: recv_inv_def free_recvframe_fields enqueue_recvframe_fields)
  then show ?thesis using free_recvframe_inv [OF assms] by simp
qed

lemma alloc_recvframe_inv:
  assumes inv: "recv_inv rp"
  shows "recv_inv (snd (rtw_alloc_recvframe q rp))"
proof (cases "rqueue rp q")
  case Nil
  then show ?thesis using inv by (simp add: rtw_alloc_recvframe_def)
next
  case (Cons f fs)
  let ?rp = "snd (rtw_alloc_recvframe q rp)"
  have qs: "rqueue ?rp = (\<lambda>q'. removeAll f (rqueue rp q'))"
    using Cons by (auto simp: rtw_alloc_recvframe_def Let_def)
  show ?thesis
  proof (rule recv_invI)
    show "distinct (rqueue ?rp q')" for q' using recv_invD(1) [OF inv] by (simp add: qs distinct_removeAll)
    show "g \<in> set (rqueue ?rp q') \<Longrightarrow> g < NR_RECVFRAME" for g q'
      using recv_invD(2) [OF inv] by (auto simp: qs)
    show "g \<in> set (rqueue ?rp q1) \<Longrightarrow> g \<in> set (rqueue ?rp q2) \<Longrightarrow> q1 = q2" for g q1 q2
      using recv_invD(3) [OF inv] by (auto simp: qs)
    show "free_recvframe_cnt ?rp = of_nat (length (rqueue ?rp FREE_RECV))"
    proof (cases "q = FREE_RECV")
      case True
      then have "f \<notin> set fs" using recv_invD(1) [OF inv, of q] Cons by simp
      with True Cons show ?thesis
        using recv_invD(4) [OF inv] by (simp add: rtw_alloc_recvframe_def Let_def)
    next
      case False
      then have "f \<notin> set (rqueue rp FREE_RECV)"
        using recv_invD(3) [OF inv, of f q FREE_RECV] Cons by auto
      with False Cons show ?thesis
        using recv_invD(4) [OF inv] by (simp add: rtw_alloc_recvframe_def Let_def)
    qed
  qed
qed

lemma alloc_recvframe_Some:
  assumes "recv_inv rp" and "rtw_alloc_recvframe q rp = (Some f, rp')"
  shows "f < NR_RECVFRAME" "f \<notin> set (rqueue rp' q')"
    "q \<noteq> FREE_RECV \<Longrightarrow> f \<notin> set (rqueue rp FREE_RECV)"
proof -
  obtain fs where fs: "rqueue rp q = f # fs"
    using assms(2) by (auto simp: rtw_alloc_recvframe_def Let_def split: list.splits)
  then show "f < NR_RECVFRAME" using recv_invD(2) [OF assms(1), of f q] by simp
  show "f \<notin> set (rqueue rp' q')"
    using assms(2) fs by (auto simp: rtw_alloc_recvframe_def Let_def split: if_splits)
  show "q \<noteq> FREE_RECV \<Longrightarrow> f \<notin> set (rqueue rp FREE_RECV)"
    using recv_invD(3) [OF assms(1), of f q FREE_RECV] fs by auto
qed

text \<open>Freeing a list of frames, all distinct and none of them free.\<close>

definition freed_skbs :: "recv_priv \<Rightarrow> nat list \<Rightarrow> nat list" where
  "freed_skbs rp fs = concat (map (\<lambda>f. case rf_pkt rp f of None \<Rightarrow> [] | Some s \<Rightarrow> [s]) fs)"

lemma free_recvframes:
  assumes "recv_inv rp" "distinct fs" "set fs \<subseteq> {..<NR_RECVFRAME}"
    "set fs \<inter> set (rqueue rp FREE_RECV) = {}"
  shows "let rp' = fold (\<lambda>f. rtw_free_recvframe f FREE_RECV) fs rp in
    recv_inv rp' \<and>
    rqueue rp' = (\<lambda>q. filter (\<lambda>g. g \<notin> set fs) (rqueue rp q) @ (if q = FREE_RECV then fs else [])) \<and>
    rf_pkt rp' = (\<lambda>f. if f \<in> set fs then None else rf_pkt rp f) \<and>
    skb_freed rp' = skb_freed rp @ freed_skbs rp fs"
  using assms
proof (induction fs arbitrary: rp)
  case Nil
  then show ?case by (simp add: freed_skbs_def)
next
  case (Cons f fs)
  let ?rp = "rtw_free_recvframe f FREE_RECV rp"
  have "recv_inv ?rp" using Cons.prems by (intro free_recvframe_inv) auto
  moreover have "set fs \<inter> set (rqueue ?rp FREE_RECV) = {}"
    using Cons.prems by (auto simp: free_recvframe_fields)
  moreover have skbs: "freed_skbs ?rp fs = freed_skbs rp fs"
    using Cons.prems(2) unfolding freed_skbs_def
    by (intro arg_cong [where f = concat] map_cong) (auto simp: free_recvframe_fields)
  moreover have "filter (\<lambda>g. g \<notin> set fs) (rqueue ?rp q) @ (if q = FREE_RECV then fs else []) =
      filter (\<lambda>g. g \<notin> set (f # fs)) (rqueue rp q) @ (if q = FREE_RECV then f # fs else [])" for q
  proof -
    have "filter (\<lambda>g. g \<notin> set fs) (removeAll f (rqueue rp q)) =
        filter (\<lambda>g. g \<notin> set (f # fs)) (rqueue rp q)"
      by (auto simp: removeAll_filter_not_eq intro: filter_cong)
    then show ?thesis using Cons.prems(2) by (simp add: free_recvframe_fields)
  qed
  ultimately show ?case
    using Cons.IH [of ?rp] Cons.prems
    by (simp add: Let_def fun_eq_iff)
      (simp add: free_recvframe_fields freed_skbs_def)
qed

lemma rtw_free_recvframe_queue_frees:
  assumes inv: "recv_inv rp" and q: "q \<noteq> FREE_RECV"
  shows "\<exists>rp'. rtw_free_recvframe_queue q FREE_RECV rp = Some rp' \<and> recv_inv rp' \<and>
    rqueue rp' = (rqueue rp)(q := [], FREE_RECV := rqueue rp FREE_RECV @ rqueue rp q) \<and>
    skb_freed rp' = skb_freed rp @ freed_skbs rp (rqueue rp q)"
proof -
  have "set (rqueue rp q) \<inter> set (rqueue rp FREE_RECV) = {}"
    using recv_invD(3) [OF inv, of _ q FREE_RECV] q by auto
  moreover have "set (rqueue rp q) \<subseteq> {..<NR_RECVFRAME}" using recv_invD(2) [OF inv] by auto
  ultimately have *: "let rp' = fold (\<lambda>f. rtw_free_recvframe f FREE_RECV) (rqueue rp q) rp in
    recv_inv rp' \<and>
    rqueue rp' = (\<lambda>q'. filter (\<lambda>g. g \<notin> set (rqueue rp q)) (rqueue rp q') @
       (if q' = FREE_RECV then rqueue rp q else [])) \<and>
    rf_pkt rp' = (\<lambda>f. if f \<in> set (rqueue rp q) then None else rf_pkt rp f) \<and>
    skb_freed rp' = skb_freed rp @ freed_skbs rp (rqueue rp q)"
    using free_recvframes [OF inv] recv_invD(1) [OF inv] by blast
  have "filter (\<lambda>g. g \<notin> set (rqueue rp q)) (rqueue rp q') = (if q' = q then [] else rqueue rp q')" for q'
    using recv_invD(3) [OF inv, of _ q q'] by (auto simp: filter_id_conv)
  then have "(\<lambda>q'. filter (\<lambda>g. g \<notin> set (rqueue rp q)) (rqueue rp q') @
       (if q' = FREE_RECV then rqueue rp q else [])) =
     (rqueue rp)(q := [], FREE_RECV := rqueue rp FREE_RECV @ rqueue rp q)"
    using q by (auto simp: fun_eq_iff)
  with * q show ?thesis by (simp add: rtw_free_recvframe_queue_def Let_def)
qed

section \<open>The pool as a state machine\<close>

text \<open>
  The calls the driver makes, each with what its caller owes: a frame that is freed or queued
  is not on the free list.
\<close>

inductive pool_step :: "recv_priv \<Rightarrow> recv_priv \<Rightarrow> bool" where
  step_alloc: "rtw_alloc_recvframe q rp = (r, rp') \<Longrightarrow> pool_step rp rp'"
| step_enqueue: "f < NR_RECVFRAME \<Longrightarrow> f \<notin> set (rqueue rp FREE_RECV) \<Longrightarrow>
    pool_step rp (rtw_enqueue_recvframe f q rp)"
| step_free: "f < NR_RECVFRAME \<Longrightarrow> f \<notin> set (rqueue rp FREE_RECV) \<Longrightarrow>
    pool_step rp (rtw_free_recvframe f FREE_RECV rp)"
| step_free_queue: "q \<noteq> FREE_RECV \<Longrightarrow> rtw_free_recvframe_queue q FREE_RECV rp = Some rp' \<Longrightarrow>
    pool_step rp rp'"
| step_uc_swdec: "rtw_free_uc_swdec_pending_queue rp = (cnt, rp') \<Longrightarrow> pool_step rp rp'"

inductive pool_reach :: "recv_priv \<Rightarrow> bool" where
  pool_init: "rtw_init_recv_priv True = (SUCCESS, rp) \<Longrightarrow> pool_reach rp"
| pool_next: "pool_reach rp \<Longrightarrow> pool_step rp rp' \<Longrightarrow> pool_reach rp'"

inductive_cases pool_stepE: "pool_step rp rp'"

lemma uc_swdec_loop_inv:
  "recv_inv rp \<Longrightarrow> recv_inv (snd (uc_swdec_loop cnt rp)) \<and>
     rqueue (snd (uc_swdec_loop cnt rp)) UC_SWDEC_PENDING = [] \<and>
     fst (uc_swdec_loop cnt rp) = cnt + of_nat (length (rqueue rp UC_SWDEC_PENDING))"
proof (induction cnt rp rule: uc_swdec_loop.induct)
  case (1 cnt rp)
  show ?case
  proof (cases "rtw_alloc_recvframe UC_SWDEC_PENDING rp")
    case (Pair r rp1)
    have inv1: "recv_inv rp1" using alloc_recvframe_inv [OF 1(2), of UC_SWDEC_PENDING] Pair by simp
    show ?thesis
    proof (cases r)
      case None
      then have "rqueue rp UC_SWDEC_PENDING = []" "rp1 = rp"
        using Pair by (auto simp: rtw_alloc_recvframe_def Let_def split: list.splits)
      then show ?thesis using Pair None 1(2) by (subst (1 2 3) uc_swdec_loop.simps) simp
    next
      case (Some f)
      let ?rp2 = "rtw_free_recvframe f FREE_RECV rp1"
      from Pair Some have al: "rtw_alloc_recvframe UC_SWDEC_PENDING rp = (Some f, rp1)" by simp
      have "recv_inv ?rp2"
        using alloc_recvframe_Some [OF 1(2) al] inv1 by (intro free_recvframe_inv) auto
      note IH = 1(1) [OF al [symmetric] refl this]
      obtain fs where fs: "rqueue rp UC_SWDEC_PENDING = f # fs"
        "rp1 = rq_delete f rp"
        using al by (auto simp: rtw_alloc_recvframe_def Let_def split: list.splits)
      then have "rqueue ?rp2 UC_SWDEC_PENDING = fs"
        using recv_invD(1) [OF 1(2), of UC_SWDEC_PENDING] by (simp add: free_recvframe_fields)
      moreover have "uc_swdec_loop cnt rp = uc_swdec_loop (cnt + 1) ?rp2"
        by (subst uc_swdec_loop.simps) (simp add: al)
      ultimately show ?thesis using IH fs by simp
    qed
  qed
qed

lemma init_recv_priv_queues:
  "rtw_init_recv_priv True = (SUCCESS, rp) \<Longrightarrow>
     rqueue rp = (\<lambda>q. if q = FREE_RECV then [0..<NR_RECVFRAME] else []) \<and>
     free_recvframe_cnt rp = of_nat NR_RECVFRAME"
proof -
  have "rqueue (fold (\<lambda>i. rq_insert_tail i FREE_RECV) is rp0) =
      (rqueue rp0)(FREE_RECV := rqueue rp0 FREE_RECV @ is) \<and>
    free_recvframe_cnt (fold (\<lambda>i. rq_insert_tail i FREE_RECV) is rp0) = free_recvframe_cnt rp0"
    for "is" rp0
    by (induction "is" arbitrary: rp0) auto
  then show "rtw_init_recv_priv True = (SUCCESS, rp) \<Longrightarrow> ?thesis"
    by (auto simp: rtw_init_recv_priv_def Let_def fun_eq_iff)
qed

lemma pool_step_inv: "pool_step rp rp' \<Longrightarrow> recv_inv rp \<Longrightarrow> recv_inv rp'"
proof (erule pool_stepE)
  fix q assume "recv_inv rp" "q \<noteq> FREE_RECV" "rtw_free_recvframe_queue q FREE_RECV rp = Some rp'"
  then show "recv_inv rp'" using rtw_free_recvframe_queue_frees by fastforce
next
  fix q r assume "recv_inv rp" "rtw_alloc_recvframe q rp = (r, rp')"
  then show "recv_inv rp'" using alloc_recvframe_inv [of rp q] by simp
next
  fix cnt assume "recv_inv rp" "rtw_free_uc_swdec_pending_queue rp = (cnt, rp')"
  then show "recv_inv rp'"
    using uc_swdec_loop_inv [of rp 0] by (simp add: rtw_free_uc_swdec_pending_queue_def)
qed (simp_all add: enqueue_recvframe_inv free_recvframe_inv)

lemma pool_reach_inv: "pool_reach rp \<Longrightarrow> recv_inv rp"
proof (induction rule: pool_reach.induct)
  case (pool_init rp)
  note q = init_recv_priv_queues [OF pool_init]
  show ?case by (rule recv_invI) (auto simp: q split: if_splits)
next
  case (pool_next rp rp')
  then show ?case using pool_step_inv by blast
qed

section \<open>Properties\<close>

text \<open>
  Whatever sequence of allocations, enqueues and frees the driver makes after
  \<^verbatim>\<open>_rtw_init_recv_priv\<close>, no receive frame is on two queues, and \<^verbatim>\<open>free_recvframe_cnt\<close>
  is the number of frames on the free queue, at most \<^verbatim>\<open>NR_RECVFRAME\<close>.
\<close>

theorem recv_pool_invariant:
  assumes "pool_reach rp"
  shows "recv_inv rp \<and> unat (free_recvframe_cnt rp) = length (rqueue rp FREE_RECV) \<and>
    length (rqueue rp FREE_RECV) \<le> NR_RECVFRAME"
proof -
  have inv: "recv_inv rp" using assms by (rule pool_reach_inv)
  then have "set (rqueue rp FREE_RECV) \<subseteq> {..<NR_RECVFRAME}" "distinct (rqueue rp FREE_RECV)"
    using recv_invD by auto
  then have le: "length (rqueue rp FREE_RECV) \<le> NR_RECVFRAME"
    using card_mono [of "{..<NR_RECVFRAME}" "set (rqueue rp FREE_RECV)"] by (simp add: distinct_card)
  then have "unat (of_nat (length (rqueue rp FREE_RECV)) :: u32) = length (rqueue rp FREE_RECV)"
    by (simp add: unat_of_nat NR_RECVFRAME_def)
  with inv le recv_invD(4) [OF inv] show ?thesis by simp
qed

theorem recv_pool_invariant_witness:
  "let rp = snd (rtw_alloc_recvframe FREE_RECV (snd (rtw_init_recv_priv True)))
   in recv_inv rp \<and> unat (free_recvframe_cnt rp) = length (rqueue rp FREE_RECV)"
proof -
  define rp where "rp = snd (rtw_init_recv_priv True)"
  have rp: "rtw_init_recv_priv True = (SUCCESS, rp)"
    unfolding rp_def by (simp add: rtw_init_recv_priv_def Let_def del: upt.simps)
  then have "pool_reach (snd (rtw_alloc_recvframe FREE_RECV rp))"
    by (intro pool_next [OF pool_init step_alloc]) (auto simp: prod_eq_iff)
  from recv_pool_invariant [OF this] show ?thesis unfolding Let_def rp_def by blast
qed

text \<open>
  Releasing a queue loses nothing. \<^verbatim>\<open>rtw_free_recvframe_queue\<close> moves all frames of the
  queue, in order, to the end of the free queue, gives back the socket buffer of each exactly
  once, and changes no other queue; \<^verbatim>\<open>rtw_free_uc_swdec_pending_queue\<close> returns the number
  of frames it released.
\<close>

theorem rtw_free_recvframe_queue_spec:
  assumes "recv_inv rp" and "q \<noteq> FREE_RECV"
  shows "(\<exists>rp'. rtw_free_recvframe_queue q FREE_RECV rp = Some rp' \<and>
      rqueue rp' = (rqueue rp)(q := [], FREE_RECV := rqueue rp FREE_RECV @ rqueue rp q) \<and>
      skb_freed rp' = skb_freed rp @ freed_skbs rp (rqueue rp q)) \<and>
    fst (rtw_free_uc_swdec_pending_queue rp) = of_nat (length (rqueue rp UC_SWDEC_PENDING)) \<and>
    rqueue (snd (rtw_free_uc_swdec_pending_queue rp)) UC_SWDEC_PENDING = []"
proof (intro conjI)
  show "\<exists>rp'. rtw_free_recvframe_queue q FREE_RECV rp = Some rp' \<and>
      rqueue rp' = (rqueue rp)(q := [], FREE_RECV := rqueue rp FREE_RECV @ rqueue rp q) \<and>
      skb_freed rp' = skb_freed rp @ freed_skbs rp (rqueue rp q)"
    using rtw_free_recvframe_queue_frees [OF assms] by blast
qed (use uc_swdec_loop_inv [OF assms(1), of 0] in
    \<open>simp_all add: rtw_free_uc_swdec_pending_queue_def\<close>)

theorem rtw_free_recvframe_queue_spec_witness:
  "let rp = \<lparr>rqueue = (\<lambda>q. if q = FREE_RECV then [4] else if q = DEFRAG 1 then [7, 9] else []),
             free_recvframe_cnt = 1, rf_pkt = (\<lambda>f. Some (100 + f)), skb_freed = []\<rparr>
   in \<exists>rp'. rtw_free_recvframe_queue (DEFRAG 1) FREE_RECV rp = Some rp' \<and>
        rqueue rp' FREE_RECV = [4, 7, 9] \<and> skb_freed rp' = [107, 109]"
proof -
  let ?rp = "\<lparr>rqueue = (\<lambda>q. if q = FREE_RECV then [4] else if q = DEFRAG 1 then [7, 9] else []),
             free_recvframe_cnt = 1, rf_pkt = (\<lambda>f. Some (100 + f)), skb_freed = []\<rparr>"
  have "recv_inv ?rp" by (rule recv_invI) (auto simp: NR_RECVFRAME_def split: if_splits)
  from rtw_free_recvframe_queue_spec [OF this, of "DEFRAG 1"] show ?thesis
    by (auto simp: freed_skbs_def)
qed

end
