(* ===== verification/Sta_Table.thy ===== *)
theory Sta_Table
  imports Recv_Queue Frames "HOL-Library.Multiset"
begin

text \<open>
  The station table of \<^verbatim>\<open>core/rtw_sta_mgt.c\<close>: an array of \<^verbatim>\<open>NUM_STA\<close> stations, each
  either on \<^verbatim>\<open>free_sta_queue\<close> or on the hash list of its address, and the frames a station
  holds, which freeing it gives back to the pools of \<^verbatim>\<open>core/rtw_xmit.c\<close> and
  \<^verbatim>\<open>core/rtw_recv.c\<close>. Stations are named by their index in \<^verbatim>\<open>pstainfo_buf\<close>.
\<close>

section \<open>State\<close>

definition NUM_STA :: nat where "NUM_STA = 32"
definition FW_LINKED :: u32 where "FW_LINKED = 0x00000001"

type_synonym mac = "u8 list"

abbreviation (input) "bc_addr \<equiv> [0xff, 0xff, 0xff, 0xff, 0xff, 0xff] :: mac"

record recv_reorder_ctrl =
  enable :: bool
  indicate_seq :: u16
  wend_b :: u16
  wsize_b :: u8
  reorder_timer :: bool

record tx_servq =
  sta_pending :: "nat list"
  qcnt :: int

text \<open>
  \<open>sleep_q\<close> and \<open>sta_pending\<close> are lists of transmit frames.
  \<open>addba_timer\<close> and \<open>reorder_timer\<close> say whether the timer is pending.
\<close>

record sta_info =
  hwaddr :: mac
  sta_state :: u32
  aid :: nat
  mac_id :: nat
  sleep_q :: "nat list"
  sleepq_len :: nat
  vo_q :: tx_servq
  vi_q :: tx_servq
  be_q :: tx_servq
  bk_q :: tx_servq
  tid_rxseq :: "u16 list"
  recvreorder_ctrl :: "recv_reorder_ctrl list"
  RxMgmtFrameSeqNum :: u16
  ieee8021x_blocked :: bool
  dot118021x_UncstKey :: "u8 list"
  dot11tkiprxmickey :: "u8 list"
  addba_timer :: bool
  expire_to :: nat
  dot118021XPrivacy :: nat
  qos_option :: bool
  sleepq_ac_len :: nat
  qos_info :: u8
  max_sp_len :: u8
  uapsd_bk :: u8
  uapsd_be :: u8
  uapsd_vi :: u8
  uapsd_vo :: u8
  has_legacy_ac :: bool
  sta_under_exist_checking :: bool

text \<open>The attributes of a transmit frame that queueing and power saving use.\<close>

record tx_attrib = pkt_attrib +
  tx_priority :: u8
  tx_triggered :: bool
  tx_mdata :: bool
  tx_eosp :: bool
  tx_qsel :: u8
  tx_pktlen :: nat
  tx_bswenc :: bool

text \<open>
  The part of \<^verbatim>\<open>xmit_priv\<close> that frames wait in and are given back to; \<open>xf_ext\<close> is
  \<^verbatim>\<open>ext_tag\<close>. For access category \<open>ac\<close>, \<open>hw_accnt ! ac\<close> is \<^verbatim>\<open>hwxmits[ac].accnt\<close> and
  \<open>hw_sta_queue ! ac\<close> lists the stations whose \<^verbatim>\<open>tx_pending\<close> node is on
  \<^verbatim>\<open>hwxmits[ac].sta_queue\<close>.
\<close>

record xmit_priv =
  free_xmit_queue :: "nat list"
  free_xmitframe_cnt :: u32
  free_xframe_ext_queue :: "nat list"
  free_xframe_ext_cnt :: u32
  xf_ext :: "nat \<Rightarrow> bool"
  xf_alloced :: "nat \<Rightarrow> bool"
  xf_pkt :: "nat \<Rightarrow> nat option"
  pkt_completed :: "nat list"
  hw_accnt :: "int list"
  hw_sta_queue :: "nat list list"
  xf_attr :: "nat \<Rightarrow> tx_attrib"
  tx_pkts :: int
  tx_drop :: int

definition tx_attrib_of :: "pkt_attrib \<Rightarrow> tx_attrib" where
  "tx_attrib_of a = pkt_attrib.extend a
     (tx_attrib.fields 0 False False False 0 0 False)"

text \<open>\<open>sta_hash_lock\<close> is the number of times the lock is held.\<close>

record sta_priv =
  stainfo_buf :: "sta_info list"
  free_sta_queue :: "nat list"
  sta_hash :: "nat list list"
  sta_hash_lock :: int
  asoc_sta_count :: int
  auth_list :: "nat list"
  auth_list_cnt :: u8
  sta_dz_bitmap :: u16
  tim_bitmap :: u16
  sta_aid :: "nat option list"
  max_num_sta :: nat
  sta_expire_to :: nat

record adapter =
  stapriv :: sta_priv
  xmitpriv :: xmit_priv
  recvpriv :: recv_priv

section \<open>The hash of an address\<close>

definition wifi_mac_hash :: "mac \<Rightarrow> u32" where
  "wifi_mac_hash mac =
     (let x0 = ucast (mac ! 0) :: u32;
          x1 = push_bit 2 x0 XOR ucast (mac ! 1);
          x2 = push_bit 2 x1 XOR ucast (mac ! 2);
          x3 = push_bit 2 x2 XOR ucast (mac ! 3);
          x4 = push_bit 2 x3 XOR ucast (mac ! 4);
          x5 = push_bit 2 x4 XOR ucast (mac ! 5);
          x6 = x5 XOR drop_bit 8 x5
      in x6 AND (of_nat NUM_STA - 1))"

lemma wifi_mac_hash_bound: "unat (wifi_mac_hash mac) < NUM_STA"
proof -
  have "unat (x AND 31 :: u32) < 32" for x
  proof -
    have "x AND 31 \<le> 31" by (rule word_and_le1)
    then have "unat (x AND 31) \<le> unat (31 :: u32)" by (simp only: word_le_nat_alt)
    then show ?thesis by simp
  qed
  then show ?thesis by (simp add: wifi_mac_hash_def Let_def NUM_STA_def)
qed

section \<open>Initialisation\<close>

definition init_txservq :: tx_servq where
  "init_txservq = \<lparr>sta_pending = [], qcnt = 0\<rparr>"

definition init_reorder_ctrl :: recv_reorder_ctrl where
  "init_reorder_ctrl =
     \<lparr>enable = False, indicate_seq = 0, wend_b = 0, wsize_b = 0, reorder_timer = False\<rparr>"

text \<open>\<^verbatim>\<open>_rtw_init_stainfo\<close>: everything zero, every list empty.\<close>

definition init_stainfo :: sta_info where
  "init_stainfo = \<lparr>hwaddr = replicate 6 0, sta_state = 0, aid = 0, mac_id = 0,
     sleep_q = [], sleepq_len = 0,
     vo_q = init_txservq, vi_q = init_txservq, be_q = init_txservq, bk_q = init_txservq,
     tid_rxseq = replicate 16 0, recvreorder_ctrl = replicate 16 init_reorder_ctrl,
     RxMgmtFrameSeqNum = 0, ieee8021x_blocked = False, dot118021x_UncstKey = replicate 16 0,
     dot11tkiprxmickey = replicate 16 0, addba_timer = False,
     expire_to = 0, dot118021XPrivacy = 0, qos_option = False, sleepq_ac_len = 0, qos_info = 0,
     max_sp_len = 0, uapsd_bk = 0, uapsd_be = 0, uapsd_vi = 0, uapsd_vo = 0, has_legacy_ac = False,
     sta_under_exist_checking = False\<rparr>"

definition rtw_init_sta_priv :: "bool \<Rightarrow> status \<times> sta_priv" where
  "rtw_init_sta_priv alloc_ok =
     (let s = \<lparr>stainfo_buf = [], free_sta_queue = [], sta_hash = [], sta_hash_lock = 0,
               asoc_sta_count = 0, auth_list = [], auth_list_cnt = 0, sta_dz_bitmap = 0,
               tim_bitmap = 0, sta_aid = replicate NUM_STA None, max_num_sta = NUM_STA, sta_expire_to = 3\<rparr> in
      if \<not> alloc_ok then (FAIL, s)
      else (SUCCESS, fold (\<lambda>i s. s\<lparr>stainfo_buf := stainfo_buf s @ [init_stainfo],
                                 sta_hash := sta_hash s @ [[]],
                                 free_sta_queue := free_sta_queue s @ [i]\<rparr>) [0..<NUM_STA] s))"

section \<open>Allocation\<close>

text \<open>
  The fields set after the station is on its hash list. The pending queues of the reordering
  control are those of the receive pool.
\<close>

definition alloc_sta_fields :: "mac \<Rightarrow> sta_info" where
  "alloc_sta_fields addr = init_stainfo\<lparr>
     hwaddr := take 6 addr,
     tid_rxseq := replicate 16 0xffff,
     recvreorder_ctrl := replicate 16
       \<lparr>enable = False, indicate_seq = 0xffff, wend_b = 0xffff, wsize_b = 64, reorder_timer = False\<rparr>,
     RxMgmtFrameSeqNum := 0xffff\<rparr>"

definition clear_sta_recv_queues :: "nat \<Rightarrow> recv_priv \<Rightarrow> recv_priv" where
  "clear_sta_recv_queues i rp =
     fold (\<lambda>t. rq_set (REORDER i t) []) [0..<16] (rq_set (DEFRAG i) [] rp)"

definition lock_hash :: "sta_priv \<Rightarrow> sta_priv" where
  "lock_hash s = s\<lparr>sta_hash_lock := sta_hash_lock s + 1\<rparr>"

definition unlock_hash :: "sta_priv \<Rightarrow> sta_priv" where
  "unlock_hash s = s\<lparr>sta_hash_lock := sta_hash_lock s - 1\<rparr>"

text \<open>
  With no free station the code leaves the critical section in the branch and again at
  \<^verbatim>\<open>exit\<close>.
\<close>

definition rtw_alloc_stainfo :: "mac \<Rightarrow> adapter \<Rightarrow> nat option \<times> adapter" where
  "rtw_alloc_stainfo addr ad =
     (let s = lock_hash (stapriv ad) in
      case free_sta_queue s of
        [] \<Rightarrow> (None, ad\<lparr>stapriv := unlock_hash (unlock_hash s)\<rparr>)
      | i # free \<Rightarrow>
          let s1 = s\<lparr>free_sta_queue := free,
                     stainfo_buf := (stainfo_buf s)[i := init_stainfo\<lparr>hwaddr := take 6 addr\<rparr>]\<rparr>;
              index = unat (wifi_mac_hash addr)
          in if NUM_STA \<le> index then (None, ad\<lparr>stapriv := unlock_hash s1\<rparr>)
             else
               let s2 = s1\<lparr>sta_hash := (sta_hash s1)[index := sta_hash s1 ! index @ [i]],
                           asoc_sta_count := asoc_sta_count s1 + 1,
                           stainfo_buf := (stainfo_buf s1)[i := alloc_sta_fields addr]\<rparr>
               in (Some i, ad\<lparr>stapriv := unlock_hash s2,
                              recvpriv := clear_sta_recv_queues i (recvpriv ad)\<rparr>))"

section \<open>Giving frames back\<close>

definition rtw_free_xmitframe :: "nat \<Rightarrow> xmit_priv \<Rightarrow> xmit_priv" where
  "rtw_free_xmitframe f xp =
     (let pkt = xf_pkt xp f;
          xp1 = xp\<lparr>xf_pkt := (xf_pkt xp)(f := None)\<rparr>;
          xp2 = (if xf_alloced xp f then xp1\<lparr>xf_alloced := (xf_alloced xp1)(f := False)\<rparr>
                 else if xf_ext xp f
                 then xp1\<lparr>free_xframe_ext_queue := removeAll f (free_xframe_ext_queue xp1) @ [f],
                          free_xframe_ext_cnt := free_xframe_ext_cnt xp1 + 1\<rparr>
                 else xp1\<lparr>free_xmit_queue := removeAll f (free_xmit_queue xp1) @ [f],
                          free_xmitframe_cnt := free_xmitframe_cnt xp1 + 1\<rparr>)
      in case pkt of None \<Rightarrow> xp2 | Some p \<Rightarrow> xp2\<lparr>pkt_completed := pkt_completed xp2 @ [p]\<rparr>)"

definition rtw_free_xmitframe_queue :: "nat list \<Rightarrow> xmit_priv \<Rightarrow> xmit_priv" where
  "rtw_free_xmitframe_queue q xp = fold rtw_free_xmitframe q xp"

text \<open>One access category of station \<open>i\<close>: its frames freed, its node taken off
  \<^verbatim>\<open>hwxmits + n\<close> and its count off that of it.\<close>

definition free_servq :: "nat \<Rightarrow> nat \<Rightarrow> tx_servq \<Rightarrow> xmit_priv \<Rightarrow> tx_servq \<times> xmit_priv" where
  "free_servq i n q xp =
     (let xp1 = rtw_free_xmitframe_queue (sta_pending q) xp in
      (\<lparr>sta_pending = [], qcnt = 0\<rparr>,
       xp1\<lparr>hw_sta_queue := (hw_sta_queue xp1)[n := removeAll i (hw_sta_queue xp1 ! n)],
         hw_accnt := (hw_accnt xp1)[n := hw_accnt xp1 ! n - qcnt q]\<rparr>))"

text \<open>The pending frames of the sixteen reordering controls; the timers are cancelled.\<close>

definition free_reorder_queues :: "nat \<Rightarrow> recv_priv \<Rightarrow> recv_priv" where
  "free_reorder_queues i rp =
     fold (\<lambda>t rp. fold (\<lambda>f. rtw_free_recvframe f FREE_RECV) (rqueue rp (REORDER i t)) rp) [0..<16] rp"

section \<open>Freeing a station\<close>

text \<open>
  The bit of an association id in the 16-bit maps; \<^verbatim>\<open>BIT\<close> shifts an \<^verbatim>\<open>int\<close>, so that
  ids above 15 have no bit there.
\<close>

definition clear_aid_bit :: "nat \<Rightarrow> u16 \<Rightarrow> u16" where
  "clear_aid_bit a m = m AND NOT (ucast (push_bit a 1 :: u32))"

definition sta_freed :: "sta_info \<Rightarrow> sta_info" where
  "sta_freed p = p\<lparr>sta_state := sta_state p AND NOT FW_LINKED, sleep_q := [], sleepq_len := 0,
     vo_q := init_txservq, vi_q := init_txservq, be_q := init_txservq, bk_q := init_txservq,
     addba_timer := False,
     recvreorder_ctrl := map (\<lambda>c. c\<lparr>reorder_timer := False\<rparr>) (recvreorder_ctrl p),
     expire_to := 0, sleepq_ac_len := 0, qos_info := 0, max_sp_len := 0, uapsd_bk := 0, uapsd_be := 0,
     uapsd_vi := 0, uapsd_vo := 0, has_legacy_ac := False, sta_under_exist_checking := False\<rparr>"

definition rtw_free_stainfo :: "nat option \<Rightarrow> adapter \<Rightarrow> adapter" where
  "rtw_free_stainfo psta ad =
     (case psta of
        None \<Rightarrow> ad
      | Some i \<Rightarrow>
          let s = stapriv ad; p = stainfo_buf s ! i;
              xp0 = rtw_free_xmitframe_queue (sleep_q p) (xmitpriv ad);
              (vo', xp1) = free_servq i 0 (vo_q p) xp0;
              (vi', xp2) = free_servq i 1 (vi_q p) xp1;
              (be', xp3) = free_servq i 2 (be_q p) xp2;
              (bk', xp4) = free_servq i 3 (bk_q p) xp3;
              p1 = (sta_freed p)\<lparr>vo_q := vo', vi_q := vi', be_q := be', bk_q := bk'\<rparr>;
              s1 = s\<lparr>sta_hash := map (removeAll i) (sta_hash s),
                     asoc_sta_count := asoc_sta_count s - 1\<rparr>;
              s2 = (if i \<in> set (auth_list s1)
                    then s1\<lparr>auth_list := removeAll i (auth_list s1),
                            auth_list_cnt := auth_list_cnt s1 - 1\<rparr>
                    else s1);
              s3 = s2\<lparr>sta_dz_bitmap := clear_aid_bit (aid p) (sta_dz_bitmap s2),
                      tim_bitmap := clear_aid_bit (aid p) (tim_bitmap s2)\<rparr>;
              (p2, s4) = (if 0 < aid p \<and> sta_aid s3 ! (aid p - 1) = Some i
                          then (p1\<lparr>aid := 0\<rparr>, s3\<lparr>sta_aid := (sta_aid s3)[aid p - 1 := None]\<rparr>)
                          else (p1, s3));
              s5 = s4\<lparr>stainfo_buf := (stainfo_buf s4)[i := p2],
                      free_sta_queue := free_sta_queue s4 @ [i]\<rparr>
          in ad\<lparr>stapriv := s5, xmitpriv := xp4, recvpriv := free_reorder_queues i (recvpriv ad)\<rparr>)"

section \<open>Lookup\<close>

definition rtw_get_stainfo :: "sta_priv \<Rightarrow> mac option \<Rightarrow> nat option" where
  "rtw_get_stainfo s hw =
     (case hw of
        None \<Rightarrow> None
      | Some h \<Rightarrow>
          let addr = (if IS_MCAST h then bc_addr else h);
              index = unat (wifi_mac_hash addr)
          in find (\<lambda>i. hwaddr (stainfo_buf s ! i) = take 6 addr) (sta_hash s ! index))"

definition rtw_get_bcmc_stainfo :: "adapter \<Rightarrow> nat option" where
  "rtw_get_bcmc_stainfo ad = rtw_get_stainfo (stapriv ad) (Some bc_addr)"

definition rtw_init_bcmc_stainfo :: "adapter \<Rightarrow> status \<times> adapter" where
  "rtw_init_bcmc_stainfo ad =
     (case rtw_alloc_stainfo bc_addr ad of
        (None, ad1) \<Rightarrow> (SUCCESS, ad1)
      | (Some i, ad1) \<Rightarrow>
          (SUCCESS, ad1\<lparr>stapriv := (stapriv ad1)\<lparr>stainfo_buf :=
             (stainfo_buf (stapriv ad1))[i := (stainfo_buf (stapriv ad1) ! i)\<lparr>mac_id := 1\<rparr>]\<rparr>\<rparr>))"

text \<open>
  \<^verbatim>\<open>rtw_free_all_stainfo\<close> walks every hash list; the successor is read before the station
  is freed.
\<close>

definition rtw_free_all_stainfo :: "adapter \<Rightarrow> adapter" where
  "rtw_free_all_stainfo ad =
     (let bcmc = rtw_get_bcmc_stainfo ad in
      if asoc_sta_count (stapriv ad) = 1 then ad
      else
        let ad1 = ad\<lparr>stapriv := lock_hash (stapriv ad)\<rparr>;
            ad2 = fold (\<lambda>index ad.
                    fold (\<lambda>i ad. if bcmc \<noteq> Some i then rtw_free_stainfo (Some i) ad else ad)
                      (sta_hash (stapriv ad) ! index) ad) [0..<NUM_STA] ad1
        in ad2\<lparr>stapriv := unlock_hash (stapriv ad2)\<rparr>)"

section \<open>Access control\<close>

record rtw_wlan_acl_node =
  acl_addr :: mac
  acl_valid :: bool

record wlan_acl_pool =
  acl_mode :: int
  acl_node_q :: "rtw_wlan_acl_node list"

definition rtw_access_ctrl :: "wlan_acl_pool \<Rightarrow> mac \<Rightarrow> bool" where
  "rtw_access_ctrl acl mac =
     (let match = list_ex (\<lambda>n. acl_addr n = take 6 mac \<and> acl_valid n) (acl_node_q acl) in
      if acl_mode acl = 1 then \<not> match
      else if acl_mode acl = 2 then match
      else True)"

section \<open>The invariant of the table\<close>

text \<open>
  Every station is either free or on exactly one hash list, the one of its address; the count
  is that of the stations on hash lists; and no two of them have the same address.
\<close>

definition allocated :: "sta_priv \<Rightarrow> nat \<Rightarrow> bool" where
  "allocated s i \<longleftrightarrow> i \<in> set (concat (sta_hash s))"

definition sta_inv :: "sta_priv \<Rightarrow> bool" where
  "sta_inv s \<longleftrightarrow>
     length (stainfo_buf s) = NUM_STA \<and> length (sta_hash s) = NUM_STA \<and>
     mset (free_sta_queue s) + mset (concat (sta_hash s)) = mset [0..<NUM_STA] \<and>
     asoc_sta_count s = int (length (concat (sta_hash s))) \<and>
     (\<forall>h < NUM_STA. \<forall>i \<in> set (sta_hash s ! h).
        length (hwaddr (stainfo_buf s ! i)) = 6 \<and> unat (wifi_mac_hash (hwaddr (stainfo_buf s ! i))) = h) \<and>
     (\<forall>i j. allocated s i \<longrightarrow> allocated s j \<longrightarrow>
        hwaddr (stainfo_buf s ! i) = hwaddr (stainfo_buf s ! j) \<longrightarrow> i = j)"

definition canonical :: "mac \<Rightarrow> mac" where
  "canonical b = (if IS_MCAST b then bc_addr else b)"

lemma canonical_length: "length b = 6 \<Longrightarrow> length (canonical b) = 6"
  by (simp add: canonical_def)

lemma sta_inv_stations:
  assumes "sta_inv s"
  shows "distinct (free_sta_queue s @ concat (sta_hash s))"
    and "set (free_sta_queue s) \<union> set (concat (sta_hash s)) = {..<NUM_STA}"
proof -
  have "mset (free_sta_queue s @ concat (sta_hash s)) = mset [0..<NUM_STA]"
    using assms by (simp add: sta_inv_def)
  then show "distinct (free_sta_queue s @ concat (sta_hash s))"
    by (metis distinct_upt mset_eq_imp_distinct_iff)
  from \<open>mset (free_sta_queue s @ concat (sta_hash s)) = mset [0..<NUM_STA]\<close>
  have "set (free_sta_queue s @ concat (sta_hash s)) = set [0..<NUM_STA]"
    by (rule mset_eq_setD)
  then show "set (free_sta_queue s) \<union> set (concat (sta_hash s)) = {..<NUM_STA}"
    by (simp add: atLeast0LessThan)
qed

lemma allocated_iff: "length (sta_hash s) = NUM_STA \<Longrightarrow>
  allocated s i \<longleftrightarrow> (\<exists>h < NUM_STA. i \<in> set (sta_hash s ! h))"
  unfolding allocated_def by (metis UN_iff in_set_conv_nth set_concat)

text \<open>The lookup, characterised: it finds the allocated station of that address.\<close>

lemma rtw_get_stainfo_iff:
  assumes inv: "sta_inv s" and b: "length b = 6"
  shows "rtw_get_stainfo s (Some b) = Some i \<longleftrightarrow>
    allocated s i \<and> hwaddr (stainfo_buf s ! i) = canonical b"
proof -
  let ?c = "canonical b" and ?h = "unat (wifi_mac_hash (canonical b))"
  have h: "?h < NUM_STA" by (rule wifi_mac_hash_bound)
  have get: "rtw_get_stainfo s (Some b) = find (\<lambda>i. hwaddr (stainfo_buf s ! i) = ?c) (sta_hash s ! ?h)"
    using canonical_length [OF b] by (simp add: rtw_get_stainfo_def canonical_def Let_def)
  have len: "length (sta_hash s) = NUM_STA" using inv by (simp add: sta_inv_def)
  have bucket: "i \<in> set (sta_hash s ! ?h)" if "allocated s i" "hwaddr (stainfo_buf s ! i) = ?c" for i
  proof -
    from that(1) obtain h' where h': "h' < NUM_STA" "i \<in> set (sta_hash s ! h')"
      unfolding allocated_iff [OF len] by blast
    with inv have "unat (wifi_mac_hash (hwaddr (stainfo_buf s ! i))) = h'" unfolding sta_inv_def by blast
    with h'(2) that(2) show ?thesis by simp
  qed
  have alloc: "allocated s i" if "i \<in> set (sta_hash s ! ?h)" for i
    using that h unfolding allocated_iff [OF len] by blast
  have uniq: "i = j" if "allocated s i" "allocated s j"
    "hwaddr (stainfo_buf s ! i) = ?c" "hwaddr (stainfo_buf s ! j) = ?c" for i j
    using inv that unfolding sta_inv_def by metis
  show ?thesis
  proof
    assume "rtw_get_stainfo s (Some b) = Some i"
    then show "allocated s i \<and> hwaddr (stainfo_buf s ! i) = ?c"
      using alloc unfolding get find_Some_iff by (metis nth_mem)
  next
    assume i: "allocated s i \<and> hwaddr (stainfo_buf s ! i) = ?c"
    then have "find (\<lambda>i. hwaddr (stainfo_buf s ! i) = ?c) (sta_hash s ! ?h) \<noteq> None"
      using bucket unfolding find_None_iff by blast
    then obtain j where j: "find (\<lambda>i. hwaddr (stainfo_buf s ! i) = ?c) (sta_hash s ! ?h) = Some j" by auto
    then have "j \<in> set (sta_hash s ! ?h)" "hwaddr (stainfo_buf s ! j) = ?c"
      unfolding find_Some_iff by (auto simp: in_set_conv_nth)
    then have "j = i" using uniq alloc i by blast
    then show "rtw_get_stainfo s (Some b) = Some i" using j get by simp
  qed
qed

lemma rtw_get_stainfo_None:
  assumes "sta_inv s" and "length b = 6"
  shows "rtw_get_stainfo s (Some b) = None \<longleftrightarrow>
    (\<forall>i. allocated s i \<longrightarrow> hwaddr (stainfo_buf s ! i) \<noteq> canonical b)"
  using rtw_get_stainfo_iff [OF assms] by (metis option.exhaust option.distinct(1))

section \<open>Allocating and freeing\<close>

lemma mset_concat_insert:
  "h < length xs \<Longrightarrow> mset (concat (xs[h := xs ! h @ [i]])) = add_mset i (mset (concat xs))"
proof (induction xs arbitrary: h)
  case (Cons x xs)
  then show ?case by (cases h) auto
qed simp

lemma concat_remove: "concat (map (removeAll i) xs) = filter (\<lambda>x. i \<noteq> x) (concat xs)"
  by (induction xs) (auto simp: removeAll_filter_not_eq)

lemma alloc_stainfo_cases:
  "(free_sta_queue (stapriv ad) = [] \<and> fst (rtw_alloc_stainfo addr ad) = None \<and>
      (let s' = stapriv (snd (rtw_alloc_stainfo addr ad)) in
         s' = (stapriv ad)\<lparr>sta_hash_lock := sta_hash_lock (stapriv ad) - 1\<rparr>)) \<or>
   (\<exists>i free. free_sta_queue (stapriv ad) = i # free \<and> fst (rtw_alloc_stainfo addr ad) = Some i \<and>
      (let s = stapriv ad; s' = stapriv (snd (rtw_alloc_stainfo addr ad));
           h = unat (wifi_mac_hash addr) in
         free_sta_queue s' = free \<and> sta_hash s' = (sta_hash s)[h := sta_hash s ! h @ [i]] \<and>
         asoc_sta_count s' = asoc_sta_count s + 1 \<and> sta_hash_lock s' = sta_hash_lock s \<and>
         stainfo_buf s' = (stainfo_buf s)[i := alloc_sta_fields addr]))"
proof (cases "free_sta_queue (stapriv ad)")
  case (Cons i free)
  then show ?thesis
    using wifi_mac_hash_bound [of addr]
    by (simp add: rtw_alloc_stainfo_def Let_def lock_hash_def unlock_hash_def)
qed (simp add: rtw_alloc_stainfo_def Let_def lock_hash_def unlock_hash_def)

definition station_addr :: "mac \<Rightarrow> bool" where
  "station_addr a \<longleftrightarrow> length a = 6 \<and> (IS_MCAST a \<longrightarrow> a = bc_addr)"

lemma canonical_station: "station_addr a \<Longrightarrow> canonical a = a"
  by (auto simp: canonical_def station_addr_def)

lemma alloc_stainfo_inv:
  assumes inv: "sta_inv (stapriv ad)" and a: "station_addr addr"
    and new: "rtw_get_stainfo (stapriv ad) (Some addr) = None"
    and alloc: "rtw_alloc_stainfo addr ad = (r, ad')"
  shows "sta_inv (stapriv ad')"
    and "allocated (stapriv ad') j \<longleftrightarrow> allocated (stapriv ad) j \<or> r = Some j"
    and "r = Some j \<Longrightarrow> hwaddr (stainfo_buf (stapriv ad') ! j) = addr \<and> \<not> allocated (stapriv ad) j"
    and "allocated (stapriv ad) j \<Longrightarrow> stainfo_buf (stapriv ad') ! j = stainfo_buf (stapriv ad) ! j"
proof -
  let ?s = "stapriv ad" and ?s' = "stapriv ad'"
  have a6: "length addr = 6" using a by (simp add: station_addr_def)
  have all: "sta_inv ?s' \<and> (\<forall>j. allocated ?s' j \<longleftrightarrow> allocated ?s j \<or> r = Some j) \<and>
    (\<forall>j. r = Some j \<longrightarrow> hwaddr (stainfo_buf ?s' ! j) = addr \<and> \<not> allocated ?s j) \<and>
    (\<forall>j. allocated ?s j \<longrightarrow> stainfo_buf ?s' ! j = stainfo_buf ?s ! j)"
    using alloc_stainfo_cases [of ad addr] unfolding alloc Let_def fst_conv snd_conv
  proof (elim disjE exE conjE)
    assume r: "r = None" and s': "?s' = ?s\<lparr>sta_hash_lock := sta_hash_lock ?s - 1\<rparr>"
    then show ?thesis using inv by (simp add: sta_inv_def allocated_def)
  next
    fix i free
    let ?h = "unat (wifi_mac_hash addr)"
    assume free: "free_sta_queue ?s = i # free" and r: "r = Some i"
      and free': "free_sta_queue ?s' = free"
      and hash': "sta_hash ?s' = (sta_hash ?s)[?h := sta_hash ?s ! ?h @ [i]]"
      and count': "asoc_sta_count ?s' = asoc_sta_count ?s + 1"
      and buf': "stainfo_buf ?s' = (stainfo_buf ?s)[i := alloc_sta_fields addr]"
    have len: "length (stainfo_buf ?s) = NUM_STA" "length (sta_hash ?s) = NUM_STA"
      using inv by (simp_all add: sta_inv_def)
    have h: "?h < length (sta_hash ?s)" using len wifi_mac_hash_bound by simp
    note ms = mset_concat_insert [OF h, of i, folded hash']
    have set': "set (concat (sta_hash ?s')) = insert i (set (concat (sta_hash ?s)))"
      using arg_cong [OF ms, of set_mset] by simp
    have i: "i < NUM_STA" "\<not> allocated ?s i"
      using sta_inv_stations [OF inv] free by (auto simp: allocated_def)
    have hw: "hwaddr (stainfo_buf ?s' ! i) = addr"
      using i len a6 by (simp add: buf' alloc_sta_fields_def)
    have same: "stainfo_buf ?s' ! j = stainfo_buf ?s ! j" if "allocated ?s j" for j
      using that i(2) by (cases "j = i") (simp_all add: buf')
    have al: "allocated ?s' j \<longleftrightarrow> allocated ?s j \<or> j = i" for j
      using set' by (auto simp: allocated_def)
    have "sta_inv ?s'"
      unfolding sta_inv_def
    proof (intro conjI allI impI ballI)
      show "length (stainfo_buf ?s') = NUM_STA" using len by (simp add: buf')
      show len': "length (sta_hash ?s') = NUM_STA" using len by (simp add: hash')
      show "mset (free_sta_queue ?s') + mset (concat (sta_hash ?s')) = mset [0..<NUM_STA]"
        using inv free ms by (simp add: sta_inv_def free')
      have "length (concat (sta_hash ?s')) = Suc (length (concat (sta_hash ?s)))"
        using arg_cong [OF ms, of size] by simp
      then show "asoc_sta_count ?s' = int (length (concat (sta_hash ?s')))"
        using inv by (simp add: sta_inv_def count')
    next
      fix k j assume k: "k < NUM_STA" "j \<in> set (sta_hash ?s' ! k)"
      have "j = i \<and> k = ?h \<or> j \<in> set (sta_hash ?s ! k)"
        using k h len by (cases "k = ?h") (auto simp: hash')
      moreover have "allocated ?s j" if "j \<in> set (sta_hash ?s ! k)"
        using that k(1) allocated_iff [OF len(2)] by blast
      ultimately show "length (hwaddr (stainfo_buf ?s' ! j)) = 6"
        "unat (wifi_mac_hash (hwaddr (stainfo_buf ?s' ! j))) = k"
        using hw a6 same inv k(1) unfolding sta_inv_def by auto
    next
      fix j k assume jk: "allocated ?s' j" "allocated ?s' k"
        "hwaddr (stainfo_buf ?s' ! j) = hwaddr (stainfo_buf ?s' ! k)"
      have fresh: "hwaddr (stainfo_buf ?s ! j) \<noteq> addr" if "allocated ?s j" for j
        using new that rtw_get_stainfo_None [OF inv a6] canonical_station [OF a] by auto
      have "j = k" if "allocated ?s j" "allocated ?s k"
        using inv that jk(3) same unfolding sta_inv_def by metis
      then show "j = k" using jk hw same fresh unfolding al by metis
    qed
    then show ?thesis using al hw same i r by auto
  qed
  then show "sta_inv ?s'" "allocated ?s' j \<longleftrightarrow> allocated ?s j \<or> r = Some j"
    "r = Some j \<Longrightarrow> hwaddr (stainfo_buf ?s' ! j) = addr \<and> \<not> allocated ?s j"
    "allocated ?s j \<Longrightarrow> stainfo_buf ?s' ! j = stainfo_buf ?s ! j" by blast+
qed

lemma free_stainfo_fields:
  "free_sta_queue (stapriv (rtw_free_stainfo (Some i) ad)) = free_sta_queue (stapriv ad) @ [i]"
  "sta_hash (stapriv (rtw_free_stainfo (Some i) ad)) = map (removeAll i) (sta_hash (stapriv ad))"
  "asoc_sta_count (stapriv (rtw_free_stainfo (Some i) ad)) = asoc_sta_count (stapriv ad) - 1"
  "length (stainfo_buf (stapriv (rtw_free_stainfo (Some i) ad))) = length (stainfo_buf (stapriv ad))"
  "j \<noteq> i \<Longrightarrow> stainfo_buf (stapriv (rtw_free_stainfo (Some i) ad)) ! j = stainfo_buf (stapriv ad) ! j"
  by (simp_all add: rtw_free_stainfo_def Let_def case_prod_unfold)

lemma free_stainfo_inv:
  assumes inv: "sta_inv (stapriv ad)" and i: "allocated (stapriv ad) i"
  defines "s' \<equiv> stapriv (rtw_free_stainfo (Some i) ad)"
  shows "sta_inv s'" and "allocated s' j \<longleftrightarrow> allocated (stapriv ad) j \<and> j \<noteq> i"
    and "j \<noteq> i \<Longrightarrow> stainfo_buf s' ! j = stainfo_buf (stapriv ad) ! j"
proof -
  let ?s = "stapriv ad"
  note f = free_stainfo_fields(1-4) [of i ad, folded s'_def] free_stainfo_fields(5) [of _ i ad, folded s'_def]
  have hash': "concat (sta_hash s') = filter (\<lambda>x. i \<noteq> x) (concat (sta_hash ?s))"
    by (simp add: f concat_remove)
  show al: "allocated s' j \<longleftrightarrow> allocated ?s j \<and> j \<noteq> i" for j
    unfolding allocated_def hash' by auto
  show same: "j \<noteq> i \<Longrightarrow> stainfo_buf s' ! j = stainfo_buf ?s ! j" for j by (simp add: f)
  have "distinct (concat (sta_hash ?s))" using sta_inv_stations [OF inv] by simp
  moreover from this i have one: "count (mset (concat (sta_hash ?s))) i = 1"
    by (simp add: allocated_def distinct_count_atmost_1)
  ultimately have split: "mset (concat (sta_hash ?s)) = add_mset i (mset (concat (sta_hash s')))"
    unfolding hash' by (intro multiset_eqI) (auto simp: mset_filter)
  have "length (concat (sta_hash ?s)) = Suc (length (concat (sta_hash s')))"
    using arg_cong [OF split, of size] by simp
  with inv split show "sta_inv s'"
    unfolding sta_inv_def
    by (auto simp: f al allocated_def [of ?s] same)
qed

section \<open>The table as a map from addresses to stations\<close>

text \<open>
  What the rest of the driver relies on. The callers allocate a station only for an address
  that has none, and free a station they have looked up.
\<close>

datatype station_op = Join mac | Leave mac

locale station_map =
  fixes inv :: "'s \<Rightarrow> bool"
    and lookup :: "'s \<Rightarrow> mac \<Rightarrow> nat option"
    and alloc :: "mac \<Rightarrow> 's \<Rightarrow> nat option \<times> 's"
    and free :: "nat \<Rightarrow> 's \<Rightarrow> 's"
  assumes alloc_inv: "inv s \<Longrightarrow> station_addr a \<Longrightarrow> lookup s a = None \<Longrightarrow> inv (snd (alloc a s))"
    and alloc_lookup: "inv s \<Longrightarrow> station_addr a \<Longrightarrow> lookup s a = None \<Longrightarrow> length b = 6 \<Longrightarrow>
      lookup (snd (alloc a s)) b = (if canonical b = a then fst (alloc a s) else lookup s b)"
    and free_inv: "inv s \<Longrightarrow> length a = 6 \<Longrightarrow> lookup s a = Some i \<Longrightarrow> inv (free i s)"
    and free_lookup: "inv s \<Longrightarrow> length a = 6 \<Longrightarrow> lookup s a = Some i \<Longrightarrow> length b = 6 \<Longrightarrow>
      lookup (free i s) b = (if canonical b = canonical a then None else lookup s b)"
    and lookup_canonical: "length b = 6 \<Longrightarrow> lookup s (canonical b) = lookup s b"
begin

fun step :: "station_op \<Rightarrow> 's \<Rightarrow> 's" where
  "step (Join a) s = (if lookup s a = None then snd (alloc a s) else s)"
| "step (Leave a) s = (case lookup s a of None \<Rightarrow> s | Some i \<Rightarrow> free i s)"

fun legal :: "station_op \<Rightarrow> bool" where
  "legal (Join a) = station_addr a"
| "legal (Leave a) = (length a = 6)"

definition run :: "station_op list \<Rightarrow> 's \<Rightarrow> 's" where
  "run ops s = fold step ops s"

lemma step_inv: "inv s \<Longrightarrow> legal op \<Longrightarrow> inv (step op s)"
  by (cases op) (auto simp: alloc_inv split: option.splits intro: free_inv)

lemma run_inv: "inv s \<Longrightarrow> list_all legal ops \<Longrightarrow> inv (run ops s)"
  unfolding run_def by (induction ops arbitrary: s) (auto simp: step_inv)

lemma step_other:
  assumes "inv s" "legal op" "length b = 6" "op \<noteq> Join (canonical b)"
    "\<And>a. op = Leave a \<Longrightarrow> canonical a \<noteq> canonical b"
  shows "lookup (step op s) b = lookup s b"
  using assms by (cases op) (auto simp: alloc_lookup free_lookup split: option.splits)

lemma run_other:
  assumes "inv s" "list_all legal ops" "length b = 6" "Join (canonical b) \<notin> set ops"
    "\<And>a. Leave a \<in> set ops \<Longrightarrow> canonical a \<noteq> canonical b"
  shows "lookup (run ops s) b = lookup s b"
  using assms
proof (induction ops arbitrary: s)
  case (Cons op ops)
  have "lookup (step op s) b = lookup s b" using Cons.prems by (intro step_other) auto
  moreover have "lookup (run ops (step op s)) b = lookup (step op s) b"
    using Cons.prems by (intro Cons.IH step_inv) auto
  ultimately show ?case by (simp add: run_def)
qed (simp add: run_def)

lemma leave_forgets:
  "inv s \<Longrightarrow> length a = 6 \<Longrightarrow> lookup (step (Leave a) s) a = None"
  by (auto simp: free_lookup split: option.splits)

lemma alloc_free_restores:
  assumes "inv s" "station_addr a" "lookup s a = None" "fst (alloc a s) = Some i" "length b = 6"
  shows "lookup (free i (snd (alloc a s))) b = lookup s b"
proof -
  have a: "length a = 6" "canonical a = a" using assms(2) canonical_station by (auto simp: station_addr_def)
  have "lookup (snd (alloc a s)) a = Some i"
    using alloc_lookup [OF assms(1-3) a(1)] a assms(4) by simp
  from free_lookup [OF alloc_inv [OF assms(1-3)] a(1) this assms(5)]
  have "lookup (free i (snd (alloc a s))) b =
      (if canonical b = a then None else lookup (snd (alloc a s)) b)" by (simp add: a)
  also have "\<dots> = lookup s b"
    using alloc_lookup [OF assms(1-3,5)] lookup_canonical [OF assms(5)] assms(3) by (metis (full_types))
  finally show ?thesis .
qed

end

interpretation sta: station_map "\<lambda>ad. sta_inv (stapriv ad)"
  "\<lambda>ad b. rtw_get_stainfo (stapriv ad) (Some b)" rtw_alloc_stainfo "\<lambda>i. rtw_free_stainfo (Some i)"
proof
  fix ad :: adapter and a b :: mac and i :: nat
  show "rtw_get_stainfo (stapriv ad) (Some (canonical b)) = rtw_get_stainfo (stapriv ad) (Some b)"
    if "length b = 6"
  proof -
    have "IS_MCAST bc_addr" by (simp add: IS_MCAST_def)
    then show ?thesis by (simp add: rtw_get_stainfo_def canonical_def)
  qed
  show "sta_inv (stapriv (snd (rtw_alloc_stainfo a ad)))"
    if "sta_inv (stapriv ad)" "station_addr a" "rtw_get_stainfo (stapriv ad) (Some a) = None"
    using alloc_stainfo_inv(1) [OF that] by (metis prod.collapse)
  show "rtw_get_stainfo (stapriv (snd (rtw_alloc_stainfo a ad))) (Some b) =
      (if canonical b = a then fst (rtw_alloc_stainfo a ad) else rtw_get_stainfo (stapriv ad) (Some b))"
    if pre: "sta_inv (stapriv ad)" "station_addr a" "rtw_get_stainfo (stapriv ad) (Some a) = None"
      and b: "length b = 6"
  proof -
    obtain r ad' where al: "rtw_alloc_stainfo a ad = (r, ad')" by fastforce
    note A = alloc_stainfo_inv [OF pre al]
    have none: "allocated (stapriv ad) j \<Longrightarrow> hwaddr (stainfo_buf (stapriv ad) ! j) \<noteq> a" for j
      using rtw_get_stainfo_None [OF pre(1), of a] pre canonical_station by (auto simp: station_addr_def)
    have "rtw_get_stainfo (stapriv ad') (Some b) = Some j \<longleftrightarrow>
      (if canonical b = a then r else rtw_get_stainfo (stapriv ad) (Some b)) = Some j" for j
      unfolding rtw_get_stainfo_iff [OF A(1) b]
      using A(2-4) [of j] none [of j] rtw_get_stainfo_iff [OF pre(1) b, of j] by auto
    then show ?thesis by (metis al fst_conv snd_conv option.exhaust)
  qed
  assume inv: "sta_inv (stapriv ad)" and a: "length a = 6"
    and get: "rtw_get_stainfo (stapriv ad) (Some a) = Some i"
  have i: "allocated (stapriv ad) i" "hwaddr (stainfo_buf (stapriv ad) ! i) = canonical a"
    using get rtw_get_stainfo_iff [OF inv a] by auto
  note F = free_stainfo_inv [OF inv i(1)]
  show "sta_inv (stapriv (rtw_free_stainfo (Some i) ad))" by (rule F)
  show "rtw_get_stainfo (stapriv (rtw_free_stainfo (Some i) ad)) (Some b) =
      (if canonical b = canonical a then None else rtw_get_stainfo (stapriv ad) (Some b))"
    if b: "length b = 6"
  proof -
    have uniq: "j = i" if "allocated (stapriv ad) j" "hwaddr (stainfo_buf (stapriv ad) ! j) = canonical a" for j
      using inv i that unfolding sta_inv_def by metis
    have "rtw_get_stainfo (stapriv (rtw_free_stainfo (Some i) ad)) (Some b) = Some j \<longleftrightarrow>
        allocated (stapriv ad) j \<and> j \<noteq> i \<and> hwaddr (stainfo_buf (stapriv ad) ! j) = canonical b" for j
      unfolding rtw_get_stainfo_iff [OF F(1) b] F(2) using F(3) [of j] by (cases "j = i") simp_all
    moreover have "rtw_get_stainfo (stapriv ad) (Some b) = Some j \<longleftrightarrow>
        allocated (stapriv ad) j \<and> hwaddr (stainfo_buf (stapriv ad) ! j) = canonical b" for j
      by (rule rtw_get_stainfo_iff [OF inv b])
    ultimately have "rtw_get_stainfo (stapriv (rtw_free_stainfo (Some i) ad)) (Some b) = Some j \<longleftrightarrow>
      (if canonical b = canonical a then None else rtw_get_stainfo (stapriv ad) (Some b)) = Some j" for j
      using uniq [of j] i(2) by (cases "canonical b = canonical a") auto
    then show ?thesis by (metis option.exhaust)
  qed
qed

section \<open>Freeing all stations\<close>

definition free_others :: "nat option \<Rightarrow> nat list \<Rightarrow> adapter \<Rightarrow> adapter" where
  "free_others bcmc xs ad = fold (\<lambda>i ad. if bcmc \<noteq> Some i then rtw_free_stainfo (Some i) ad else ad) xs ad"

lemma free_stainfo_lock: "sta_hash_lock (stapriv (rtw_free_stainfo (Some i) ad)) = sta_hash_lock (stapriv ad)"
  by (simp add: rtw_free_stainfo_def Let_def case_prod_unfold)

lemma free_stainfo_bucket:
  assumes "sta_inv (stapriv ad)" "h < NUM_STA"
  shows "set (sta_hash (stapriv (rtw_free_stainfo (Some i) ad)) ! h) = set (sta_hash (stapriv ad) ! h) - {i}"
  using assms by (simp add: free_stainfo_fields sta_inv_def)

lemma free_others_spec:
  assumes "sta_inv (stapriv ad)" "distinct xs" "\<And>i. i \<in> set xs \<Longrightarrow> allocated (stapriv ad) i"
  shows "sta_inv (stapriv (free_others bcmc xs ad)) \<and>
    sta_hash_lock (stapriv (free_others bcmc xs ad)) = sta_hash_lock (stapriv ad) \<and>
    (\<forall>h < NUM_STA. set (sta_hash (stapriv (free_others bcmc xs ad)) ! h) =
       {j \<in> set (sta_hash (stapriv ad) ! h). bcmc = Some j \<or> j \<notin> set xs})"
  using assms
proof (induction xs arbitrary: ad)
  case Nil
  then show ?case by (simp add: free_others_def)
next
  case (Cons i xs)
  show ?case
  proof (cases "bcmc = Some i")
    case True
    with Cons show ?thesis by (auto simp: free_others_def)
  next
    case False
    let ?ad = "rtw_free_stainfo (Some i) ad"
    have i: "allocated (stapriv ad) i" using Cons.prems by simp
    note F = free_stainfo_inv [OF Cons.prems(1) i]
    have "sta_inv (stapriv (free_others bcmc xs ?ad)) \<and>
      sta_hash_lock (stapriv (free_others bcmc xs ?ad)) = sta_hash_lock (stapriv ?ad) \<and>
      (\<forall>h < NUM_STA. set (sta_hash (stapriv (free_others bcmc xs ?ad)) ! h) =
       {j \<in> set (sta_hash (stapriv ?ad) ! h). bcmc = Some j \<or> j \<notin> set xs})"
      using Cons.prems by (intro Cons.IH F(1)) (auto simp: F(2))
    moreover have "free_others bcmc (i # xs) ad = free_others bcmc xs ?ad"
      using False by (simp add: free_others_def)
    ultimately show ?thesis
      using False free_stainfo_bucket [OF Cons.prems(1), of _ i] by (auto simp: free_stainfo_lock)
  qed
qed

lemma free_buckets_spec:
  fixes bcmc :: "nat option"
  assumes "sta_inv (stapriv ad)" "k \<le> NUM_STA"
  defines "ad' \<equiv> fold (\<lambda>index ad. free_others bcmc (sta_hash (stapriv ad) ! index) ad) [0..<k] ad"
  shows "sta_inv (stapriv ad') \<and> sta_hash_lock (stapriv ad') = sta_hash_lock (stapriv ad) \<and>
    (\<forall>h < NUM_STA. set (sta_hash (stapriv ad') ! h) =
       {j \<in> set (sta_hash (stapriv ad) ! h). bcmc = Some j \<or> k \<le> h})"
  unfolding ad'_def using assms(2)
proof (induction k)
  case 0
  then show ?case using assms(1) by auto
next
  case (Suc k)
  define adk where "adk = fold (\<lambda>index ad. free_others bcmc (sta_hash (stapriv ad) ! index) ad) [0..<k] ad"
  let ?xs = "sta_hash (stapriv adk) ! k"
  have IH: "sta_inv (stapriv adk)" "sta_hash_lock (stapriv adk) = sta_hash_lock (stapriv ad)"
    "\<And>h. h < NUM_STA \<Longrightarrow> set (sta_hash (stapriv adk) ! h) =
       {j \<in> set (sta_hash (stapriv ad) ! h). bcmc = Some j \<or> k \<le> h}"
    using Suc by (simp_all add: adk_def)
  have k: "k < NUM_STA" using Suc.prems by simp
  have len: "length (sta_hash (stapriv adk)) = NUM_STA" using IH(1) by (simp add: sta_inv_def)
  have "distinct (concat (sta_hash (stapriv adk)))" using sta_inv_stations [OF IH(1)] by simp
  then have "distinct ?xs" using k len by (simp add: distinct_concat_iff)
  moreover have "allocated (stapriv adk) i" if "i \<in> set ?xs" for i
    using that k allocated_iff [OF len] by blast
  ultimately have F: "sta_inv (stapriv (free_others bcmc ?xs adk))"
    "sta_hash_lock (stapriv (free_others bcmc ?xs adk)) = sta_hash_lock (stapriv adk)"
    "\<And>h. h < NUM_STA \<Longrightarrow> set (sta_hash (stapriv (free_others bcmc ?xs adk)) ! h) =
       {j \<in> set (sta_hash (stapriv adk) ! h). bcmc = Some j \<or> j \<notin> set ?xs}"
    using free_others_spec [OF IH(1), of ?xs bcmc] by blast+
  have other: "j \<notin> set (sta_hash (stapriv ad) ! k)"
    if "j \<in> set (sta_hash (stapriv ad) ! h)" "h < NUM_STA" "h \<noteq> k" for j h
    using assms(1) that k unfolding sta_inv_def by metis
  have "set (sta_hash (stapriv (free_others bcmc ?xs adk)) ! h) =
      {j \<in> set (sta_hash (stapriv ad) ! h). bcmc = Some j \<or> Suc k \<le> h}" if h: "h < NUM_STA" for h
    using other [OF _ h] unfolding F(3) [OF h] IH(3) [OF h] IH(3) [OF k] by (cases "h = k") auto
  then show ?case using F(1,2) IH(2) by (simp add: adk_def)
qed

lemma init_sta_priv_fields:
  "fst (rtw_init_sta_priv True) = SUCCESS"
  "stainfo_buf (snd (rtw_init_sta_priv True)) = replicate NUM_STA init_stainfo"
  "sta_hash (snd (rtw_init_sta_priv True)) = replicate NUM_STA []"
  "free_sta_queue (snd (rtw_init_sta_priv True)) = [0..<NUM_STA]"
  "asoc_sta_count (snd (rtw_init_sta_priv True)) = 0"
  "sta_hash_lock (snd (rtw_init_sta_priv True)) = 0"
proof -
  have *: "fold (\<lambda>i s. s\<lparr>stainfo_buf := stainfo_buf s @ [init_stainfo],
      sta_hash := sta_hash s @ [[]], free_sta_queue := free_sta_queue s @ [i]\<rparr>) [0..<n] s =
    s\<lparr>stainfo_buf := stainfo_buf s @ replicate n init_stainfo,
      sta_hash := sta_hash s @ replicate n [], free_sta_queue := free_sta_queue s @ [0..<n]\<rparr>" for n s
    by (induction n) (simp_all add: replicate_append_same)
  show "fst (rtw_init_sta_priv True) = SUCCESS"
    "stainfo_buf (snd (rtw_init_sta_priv True)) = replicate NUM_STA init_stainfo"
    "sta_hash (snd (rtw_init_sta_priv True)) = replicate NUM_STA []"
    "free_sta_queue (snd (rtw_init_sta_priv True)) = [0..<NUM_STA]"
    "asoc_sta_count (snd (rtw_init_sta_priv True)) = 0"
    "sta_hash_lock (snd (rtw_init_sta_priv True)) = 0"
    by (simp_all add: rtw_init_sta_priv_def * del: upt.simps)
qed

lemma init_sta_priv_inv: "sta_inv (snd (rtw_init_sta_priv True))"
proof -
  have "concat (replicate n []) = []" for n by (induction n) auto
  then show ?thesis by (simp add: sta_inv_def allocated_def init_sta_priv_fields)
qed

section \<open>The frames of a freed station\<close>

lemma free_reorder_queues_spec:
  assumes inv: "recv_inv rp"
  shows "recv_inv (free_reorder_queues i rp)"
    and "rqueue (free_reorder_queues i rp) =
      (\<lambda>q. if q = FREE_RECV
           then rqueue rp FREE_RECV @ concat (map (\<lambda>t. rqueue rp (REORDER i t)) [0..<16])
           else if q \<in> REORDER i ` {..<16} then [] else rqueue rp q)"
proof -
  let ?free = "\<lambda>t rp. fold (\<lambda>f. rtw_free_recvframe f FREE_RECV) (rqueue rp (REORDER i t)) rp"
  have step: "recv_inv (?free t rp) \<and> rqueue (?free t rp) = (rqueue rp)
      (REORDER i t := [], FREE_RECV := rqueue rp FREE_RECV @ rqueue rp (REORDER i t))"
    if "recv_inv rp" for t rp
    using rtw_free_recvframe_queue_frees [OF that, of "REORDER i t"]
    by (simp add: rtw_free_recvframe_queue_def)
  have "recv_inv (fold ?free [0..<n] rp) \<and> rqueue (fold ?free [0..<n] rp) =
      (\<lambda>q. if q = FREE_RECV
           then rqueue rp FREE_RECV @ concat (map (\<lambda>t. rqueue rp (REORDER i t)) [0..<n])
           else if q \<in> REORDER i ` {..<n} then [] else rqueue rp q)" for n
  proof (induction n)
    case 0
    then show ?case using inv by (simp add: fun_eq_iff)
  next
    case (Suc n)
    then show ?case
      using step [of "fold ?free [0..<n] rp" n]
      by (auto simp: fun_eq_iff lessThan_Suc)
  qed
  from this [of 16] show "recv_inv (free_reorder_queues i rp)"
    and "rqueue (free_reorder_queues i rp) =
      (\<lambda>q. if q = FREE_RECV
           then rqueue rp FREE_RECV @ concat (map (\<lambda>t. rqueue rp (REORDER i t)) [0..<16])
           else if q \<in> REORDER i ` {..<16} then [] else rqueue rp q)"
    unfolding free_reorder_queues_def by blast+
qed

lemma free_stainfo_recv:
  "recvpriv (rtw_free_stainfo (Some i) ad) = free_reorder_queues i (recvpriv ad)"
  by (simp add: rtw_free_stainfo_def Let_def case_prod_unfold)

lemma clear_sta_recv_queues_rqueue:
  "rqueue (clear_sta_recv_queues i rp) q =
     (if q = DEFRAG i \<or> q \<in> REORDER i ` {..<16} then [] else rqueue rp q)"
proof -
  have "rqueue (fold (\<lambda>t. rq_set (REORDER i t) []) [0..<n] rp) q =
      (if q \<in> REORDER i ` {..<n} then [] else rqueue rp q)" for n rp
    by (induction n) (auto simp: lessThan_Suc)
  then show ?thesis by (simp add: clear_sta_recv_queues_def)
qed

section \<open>Properties\<close>

text \<open>
  C36: The station table stays well formed. After any sequence of joins (an address without a
  station gets one) and leaves (the station of an address is freed) from the initialised table,
  every station is on exactly one of the free queue and the hash lists, the one of its address,
  addresses are unique, and \<^verbatim>\<open>asoc_sta_count\<close> counts the stations in use.
\<close>

theorem sta_table_invariant:
  assumes "stapriv ad = snd (rtw_init_sta_priv True)" and "list_all sta.legal ops"
  shows "sta_inv (stapriv (sta.run ops ad))"
  using sta.run_inv [OF _ assms(2), of ad] init_sta_priv_inv assms(1) by simp

definition sample_adapter :: adapter where
  "sample_adapter = \<lparr>stapriv = snd (rtw_init_sta_priv True),
     xmitpriv = \<lparr>free_xmit_queue = [], free_xmitframe_cnt = 0, free_xframe_ext_queue = [],
       free_xframe_ext_cnt = 0, xf_ext = (\<lambda>f. False), xf_alloced = (\<lambda>f. False), xf_pkt = (\<lambda>f. None),
       pkt_completed = [], hw_accnt = [0, 0, 0, 0], hw_sta_queue = [[], [], [], []],
       xf_attr = (\<lambda>f. tx_attrib_of (sample_attrib 0 0 0)), tx_pkts = 0, tx_drop = 0\<rparr>,
     recvpriv = snd (rtw_init_recv_priv True)\<rparr>"

theorem sta_table_invariant_witness:
  "sta_inv (stapriv (sta.run [Join [2, 0, 0, 0, 0, 1], Join bc_addr, Leave [2, 0, 0, 0, 0, 1]] sample_adapter))"
  by (rule sta_table_invariant) (simp_all add: sample_adapter_def station_addr_def IS_MCAST_def)

text \<open>
  C35: Allocation and lookup. With a station free, \<^verbatim>\<open>rtw_alloc_stainfo\<close> for a new address
  succeeds; from then on \<^verbatim>\<open>rtw_get_stainfo\<close> finds that station under the address (for the
  broadcast address under every group address) and what it found before under every other; and
  freeing the station restores every lookup.
\<close>

theorem rtw_alloc_stainfo_lookup:
  assumes "sta_inv (stapriv ad)" and "station_addr a"
    and "rtw_get_stainfo (stapriv ad) (Some a) = None"
    and "free_sta_queue (stapriv ad) \<noteq> []" and "length b = 6"
  shows "\<exists>i ad'. rtw_alloc_stainfo a ad = (Some i, ad') \<and>
    rtw_get_stainfo (stapriv ad') (Some b) =
      (if canonical b = a then Some i else rtw_get_stainfo (stapriv ad) (Some b)) \<and>
    rtw_get_stainfo (stapriv (rtw_free_stainfo (Some i) ad')) (Some b) =
      rtw_get_stainfo (stapriv ad) (Some b)"
proof -
  obtain i ad' where al: "rtw_alloc_stainfo a ad = (Some i, ad')"
    using alloc_stainfo_cases [of ad a] assms(4) by (metis prod.collapse)
  then show ?thesis
    using sta.alloc_lookup [OF assms(1-3,5)] sta.alloc_free_restores [OF assms(1-3) _ assms(5)] by simp
qed

theorem rtw_alloc_stainfo_lookup_witness:
  "\<exists>i ad'. rtw_alloc_stainfo bc_addr sample_adapter = (Some i, ad') \<and>
    rtw_get_stainfo (stapriv ad') (Some [1, 0, 94, 0, 0, 1]) = Some i"
proof -
  have none: "rtw_get_stainfo (stapriv sample_adapter) (Some bc_addr) = None"
    by (simp add: rtw_get_stainfo_def sample_adapter_def init_sta_priv_fields Let_def wifi_mac_hash_bound)
  show ?thesis
    using rtw_alloc_stainfo_lookup [OF _ _ none, of "[1, 0, 94, 0, 0, 1]"]
    by (auto simp: sample_adapter_def init_sta_priv_inv init_sta_priv_fields station_addr_def
        IS_MCAST_def canonical_def NUM_STA_def)
qed

text \<open>
  Stations do not interfere. A sequence of joins and leaves that does not name an address
  leaves the lookup of that address as it was.
\<close>

theorem sta_lookup_isolated:
  assumes "sta_inv (stapriv ad)" and "list_all sta.legal ops" and "length b = 6"
    and "Join (canonical b) \<notin> set ops" and "\<And>a. Leave a \<in> set ops \<Longrightarrow> canonical a \<noteq> canonical b"
  shows "rtw_get_stainfo (stapriv (sta.run ops ad)) (Some b) = rtw_get_stainfo (stapriv ad) (Some b)"
  by (rule sta.run_other) (use assms in auto)

theorem sta_lookup_isolated_witness:
  "rtw_get_stainfo (stapriv (sta.run [Join [2, 0, 0, 0, 0, 1], Leave [2, 0, 0, 0, 0, 1]] sample_adapter))
      (Some [2, 0, 0, 0, 0, 9]) =
    rtw_get_stainfo (stapriv sample_adapter) (Some [2, 0, 0, 0, 0, 9])"
  by (rule sta_lookup_isolated)
    (auto simp: sample_adapter_def init_sta_priv_inv station_addr_def IS_MCAST_def canonical_def)

text \<open>
  A full table. When no station is free \<^verbatim>\<open>rtw_alloc_stainfo\<close> returns null and keeps
  every field of the table, but leaves \<^verbatim>\<open>sta_hash_lock\<close> released once more than it took it;
  with a station free it takes and releases the lock once.
\<close>

theorem rtw_alloc_stainfo_full:
  "stapriv (snd (rtw_alloc_stainfo a ad))\<lparr>sta_hash_lock := 0\<rparr> = (stapriv ad)\<lparr>sta_hash_lock := 0\<rparr> \<and>
     fst (rtw_alloc_stainfo a ad) = None \<and>
     sta_hash_lock (stapriv (snd (rtw_alloc_stainfo a ad))) = sta_hash_lock (stapriv ad) - 1
   \<longleftrightarrow> free_sta_queue (stapriv ad) = []"
  using alloc_stainfo_cases [of ad a] by (auto simp: Let_def)

text \<open>
  C39: The frames of a freed station. \<^verbatim>\<open>rtw_free_stainfo\<close> gives the frames pending in its
  sixteen reordering queues back to the free queue, but keeps those of its defragmentation queue;
  when the station is allocated again these frames are on no queue at all, so the pool has lost
  them.
\<close>

theorem rtw_free_stainfo_frames:
  assumes "recv_inv (recvpriv ad)" and "free_sta_queue (stapriv ad) = []"
    and "ad1 = rtw_free_stainfo (Some i) ad" and "rtw_alloc_stainfo a ad1 = (r, ad2)"
  shows "rqueue (recvpriv ad1) FREE_RECV = rqueue (recvpriv ad) FREE_RECV @
      concat (map (\<lambda>t. rqueue (recvpriv ad) (REORDER i t)) [0..<16]) \<and>
    rqueue (recvpriv ad1) (DEFRAG i) = rqueue (recvpriv ad) (DEFRAG i) \<and> r = Some i \<and>
    (\<forall>f \<in> set (rqueue (recvpriv ad) (DEFRAG i)). \<forall>q. f \<notin> set (rqueue (recvpriv ad2) q))"
proof (intro conjI ballI allI)
  note Q = free_reorder_queues_spec(2) [OF assms(1), of i]
  have q1: "rqueue (recvpriv ad1) = rqueue (free_reorder_queues i (recvpriv ad))"
    by (simp add: assms(3) free_stainfo_recv)
  show "rqueue (recvpriv ad1) FREE_RECV = rqueue (recvpriv ad) FREE_RECV @
      concat (map (\<lambda>t. rqueue (recvpriv ad) (REORDER i t)) [0..<16])"
    and same: "rqueue (recvpriv ad1) (DEFRAG i) = rqueue (recvpriv ad) (DEFRAG i)"
    by (auto simp: q1 Q)
  have free: "free_sta_queue (stapriv ad1) = [i]" by (simp add: assms(2,3) free_stainfo_fields)
  then show "r = Some i" using alloc_stainfo_cases [of ad1 a] assms(4) by auto
  have rp2: "recvpriv ad2 = clear_sta_recv_queues i (recvpriv ad1)"
    using assms(4) free wifi_mac_hash_bound [of a]
    by (auto simp: rtw_alloc_stainfo_def Let_def lock_hash_def split: if_splits)
  fix f q assume f: "f \<in> set (rqueue (recvpriv ad) (DEFRAG i))"
  have "recv_inv (recvpriv ad1)" using free_reorder_queues_spec(1) [OF assms(1)] assms(3)
    by (simp add: free_stainfo_recv)
  then have "q = DEFRAG i" if "f \<in> set (rqueue (recvpriv ad1) q)"
    using recv_invD(3) that f same by metis
  then show "f \<notin> set (rqueue (recvpriv ad2) q)" by (auto simp: rp2 clear_sta_recv_queues_rqueue)
qed

text \<open>A state with one frame waiting in the defragmentation queue of station 3.\<close>

definition sample_defrag :: adapter where
  "sample_defrag = sample_adapter\<lparr>stapriv := (stapriv sample_adapter)\<lparr>free_sta_queue := []\<rparr>,
     recvpriv := \<lparr>rqueue = (\<lambda>q. if q = DEFRAG 3 then [7] else []), free_recvframe_cnt = 0,
       rf_pkt = (\<lambda>f. None), skb_freed = []\<rparr>\<rparr>"

theorem rtw_free_stainfo_frames_witness:
  "\<forall>q. 7 \<notin> set (rqueue (recvpriv (snd (rtw_alloc_stainfo bc_addr (rtw_free_stainfo (Some 3) sample_defrag)))) q)"
proof -
  have "recv_inv (recvpriv sample_defrag)"
    by (rule recv_invI) (auto simp: NR_RECVFRAME_def sample_defrag_def split: if_splits)
  from rtw_free_stainfo_frames [OF this _ refl prod.collapse [symmetric]] show ?thesis
    by (simp add: sample_defrag_def)
qed

text \<open>
  \<^verbatim>\<open>rtw_free_all_stainfo\<close> frees every station but the broadcast one, keeps the table
  well formed, and leaves \<^verbatim>\<open>sta_hash_lock\<close> as it found it.
\<close>

theorem rtw_free_all_stainfo_spec:
  assumes inv: "sta_inv (stapriv ad)" and bcmc: "rtw_get_bcmc_stainfo ad = Some b"
  shows "sta_inv (stapriv (rtw_free_all_stainfo ad)) \<and>
    (\<forall>j. allocated (stapriv (rtw_free_all_stainfo ad)) j \<longleftrightarrow> j = b) \<and>
    sta_hash_lock (stapriv (rtw_free_all_stainfo ad)) = sta_hash_lock (stapriv ad)"
proof -
  have b: "allocated (stapriv ad) b"
    using bcmc rtw_get_stainfo_iff [OF inv, of bc_addr b] by (simp add: rtw_get_bcmc_stainfo_def)
  show ?thesis
  proof (cases "asoc_sta_count (stapriv ad) = 1")
    case True
    then have "length (concat (sta_hash (stapriv ad))) = 1" using inv by (simp add: sta_inv_def)
    then obtain x where "concat (sta_hash (stapriv ad)) = [x]" by (auto simp: length_Suc_conv)
    then show ?thesis using True inv b
      by (simp add: rtw_free_all_stainfo_def Let_def allocated_def)
  next
    case False
    let ?ad1 = "ad\<lparr>stapriv := lock_hash (stapriv ad)\<rparr>"
    define ad2 where "ad2 = fold (\<lambda>index ad. free_others (Some b) (sta_hash (stapriv ad) ! index) ad) [0..<NUM_STA] ?ad1"
    have inv1: "sta_inv (stapriv ?ad1)" using inv by (simp add: sta_inv_def allocated_def lock_hash_def)
    note B = free_buckets_spec [OF inv1 order_refl, of "Some b", folded ad2_def]
    have len: "length (sta_hash (stapriv ad2)) = NUM_STA" "length (sta_hash (stapriv ad)) = NUM_STA"
      using B inv by (simp_all add: sta_inv_def)
    have "allocated (stapriv ad2) j \<longleftrightarrow> j = b" for j
      using B b unfolding allocated_iff [OF len(1)] allocated_iff [OF len(2)]
      by (auto simp: lock_hash_def)
    moreover have "rtw_free_all_stainfo ad = ad2\<lparr>stapriv := unlock_hash (stapriv ad2)\<rparr>"
      using False bcmc by (simp add: rtw_free_all_stainfo_def Let_def ad2_def free_others_def)
    ultimately show ?thesis
      using B by (simp add: sta_inv_def allocated_def lock_hash_def unlock_hash_def)
  qed
qed

theorem rtw_free_all_stainfo_spec_witness:
  "\<exists>ad b. rtw_get_bcmc_stainfo ad = Some b \<and> (\<forall>j. allocated (stapriv (rtw_free_all_stainfo ad)) j \<longleftrightarrow> j = b)"
proof -
  let ?s = "stapriv sample_adapter"
  have inv: "sta_inv ?s" by (simp add: sample_adapter_def init_sta_priv_inv)
  have a: "station_addr bc_addr" by (simp add: station_addr_def)
  have none: "rtw_get_stainfo ?s (Some bc_addr) = None"
    by (simp add: rtw_get_stainfo_def sample_adapter_def init_sta_priv_fields Let_def wifi_mac_hash_bound)
  obtain i ad' where al: "rtw_alloc_stainfo bc_addr sample_adapter = (Some i, ad')"
    using alloc_stainfo_cases [of sample_adapter bc_addr]
    by (auto simp: sample_adapter_def init_sta_priv_fields NUM_STA_def prod_eq_iff)
  have "rtw_get_bcmc_stainfo ad' = Some i"
    using sta.alloc_lookup [OF inv a none, of bc_addr] al canonical_station [OF a]
    by (simp add: rtw_get_bcmc_stainfo_def)
  moreover have "sta_inv (stapriv ad')" using sta.alloc_inv [OF inv a none] al by simp
  ultimately show ?thesis using rtw_free_all_stainfo_spec by blast
qed

section \<open>A table for the witnesses of the ciphers\<close>

text \<open>One linked station, found under its address.\<close>

definition sample_stations :: "mac \<Rightarrow> sta_priv" where
  "sample_stations a = (snd (rtw_init_sta_priv True))\<lparr>
     stainfo_buf := [init_stainfo\<lparr>hwaddr := a, sta_state := FW_LINKED\<rparr>],
     sta_hash := replicate NUM_STA [0]\<rparr>"

lemma sample_stations_lookup:
  "length a = 6 \<Longrightarrow> \<not> IS_MCAST a \<Longrightarrow> rtw_get_stainfo (sample_stations a) (Some a) = Some 0"
  by (simp add: rtw_get_stainfo_def sample_stations_def Let_def wifi_mac_hash_bound)

end
