(* ===== verification/Tkip.thy ===== *)
theory Tkip
  imports Wep Sta_Table
begin

text \<open>
  TKIP: the two phases of key mixing and \<^verbatim>\<open>rtw_tkip_encrypt\<close>, \<^verbatim>\<open>rtw_tkip_decrypt\<close> of
  \<^verbatim>\<open>core/rtw_security.c\<close>. Fragments are sealed with RC4 and CRC-32 as in WEP, under a key
  that is mixed per packet from the temporal key, the transmitter address and the 48-bit packet
  number of the IV.
\<close>

section \<open>Key mixing\<close>

definition RotR1 :: "u16 \<Rightarrow> u16" where
  "RotR1 v = (drop_bit 1 v AND 0x7FFF) XOR push_bit 15 (v AND 1)"

definition Lo8 :: "u16 \<Rightarrow> u8" where "Lo8 v = ucast (v AND 0x00FF)"
definition Hi8 :: "u16 \<Rightarrow> u8" where "Hi8 v = ucast (drop_bit 8 v AND 0x00FF)"
definition Lo16 :: "u32 \<Rightarrow> u16" where "Lo16 v = ucast (v AND 0xFFFF)"
definition Hi16 :: "u32 \<Rightarrow> u16" where "Hi16 v = ucast (drop_bit 16 v AND 0xFFFF)"

definition Mk16 :: "u8 \<Rightarrow> u8 \<Rightarrow> u16" where
  "Mk16 hi lo = ucast lo XOR push_bit 8 (ucast hi)"

definition TK16 :: "u8 list \<Rightarrow> nat \<Rightarrow> u16" where
  "TK16 tk n = Mk16 (tk ! (2 * n + 1)) (tk ! (2 * n))"

definition PHASE1_LOOP_CNT :: nat where "PHASE1_LOOP_CNT = 8"

definition Sbox1_0 :: "u16 list" where
  "Sbox1_0 = [
     0xC6A5, 0xF884, 0xEE99, 0xF68D, 0xFF0D, 0xD6BD, 0xDEB1, 0x9154,
     0x6050, 0x0203, 0xCEA9, 0x567D, 0xE719, 0xB562, 0x4DE6, 0xEC9A,
     0x8F45, 0x1F9D, 0x8940, 0xFA87, 0xEF15, 0xB2EB, 0x8EC9, 0xFB0B,
     0x41EC, 0xB367, 0x5FFD, 0x45EA, 0x23BF, 0x53F7, 0xE496, 0x9B5B,
     0x75C2, 0xE11C, 0x3DAE, 0x4C6A, 0x6C5A, 0x7E41, 0xF502, 0x834F,
     0x685C, 0x51F4, 0xD134, 0xF908, 0xE293, 0xAB73, 0x6253, 0x2A3F,
     0x080C, 0x9552, 0x4665, 0x9D5E, 0x3028, 0x37A1, 0x0A0F, 0x2FB5,
     0x0E09, 0x2436, 0x1B9B, 0xDF3D, 0xCD26, 0x4E69, 0x7FCD, 0xEA9F,
     0x121B, 0x1D9E, 0x5874, 0x342E, 0x362D, 0xDCB2, 0xB4EE, 0x5BFB,
     0xA4F6, 0x764D, 0xB761, 0x7DCE, 0x527B, 0xDD3E, 0x5E71, 0x1397,
     0xA6F5, 0xB968, 0x0000, 0xC12C, 0x4060, 0xE31F, 0x79C8, 0xB6ED,
     0xD4BE, 0x8D46, 0x67D9, 0x724B, 0x94DE, 0x98D4, 0xB0E8, 0x854A,
     0xBB6B, 0xC52A, 0x4FE5, 0xED16, 0x86C5, 0x9AD7, 0x6655, 0x1194,
     0x8ACF, 0xE910, 0x0406, 0xFE81, 0xA0F0, 0x7844, 0x25BA, 0x4BE3,
     0xA2F3, 0x5DFE, 0x80C0, 0x058A, 0x3FAD, 0x21BC, 0x7048, 0xF104,
     0x63DF, 0x77C1, 0xAF75, 0x4263, 0x2030, 0xE51A, 0xFD0E, 0xBF6D,
     0x814C, 0x1814, 0x2635, 0xC32F, 0xBEE1, 0x35A2, 0x88CC, 0x2E39,
     0x9357, 0x55F2, 0xFC82, 0x7A47, 0xC8AC, 0xBAE7, 0x322B, 0xE695,
     0xC0A0, 0x1998, 0x9ED1, 0xA37F, 0x4466, 0x547E, 0x3BAB, 0x0B83,
     0x8CCA, 0xC729, 0x6BD3, 0x283C, 0xA779, 0xBCE2, 0x161D, 0xAD76,
     0xDB3B, 0x6456, 0x744E, 0x141E, 0x92DB, 0x0C0A, 0x486C, 0xB8E4,
     0x9F5D, 0xBD6E, 0x43EF, 0xC4A6, 0x39A8, 0x31A4, 0xD337, 0xF28B,
     0xD532, 0x8B43, 0x6E59, 0xDAB7, 0x018C, 0xB164, 0x9CD2, 0x49E0,
     0xD8B4, 0xACFA, 0xF307, 0xCF25, 0xCAAF, 0xF48E, 0x47E9, 0x1018,
     0x6FD5, 0xF088, 0x4A6F, 0x5C72, 0x3824, 0x57F1, 0x73C7, 0x9751,
     0xCB23, 0xA17C, 0xE89C, 0x3E21, 0x96DD, 0x61DC, 0x0D86, 0x0F85,
     0xE090, 0x7C42, 0x71C4, 0xCCAA, 0x90D8, 0x0605, 0xF701, 0x1C12,
     0xC2A3, 0x6A5F, 0xAEF9, 0x69D0, 0x1791, 0x9958, 0x3A27, 0x27B9,
     0xD938, 0xEB13, 0x2BB3, 0x2233, 0xD2BB, 0xA970, 0x0789, 0x33A7,
     0x2DB6, 0x3C22, 0x1592, 0xC920, 0x8749, 0xAAFF, 0x5078, 0xA57A,
     0x038F, 0x59F8, 0x0980, 0x1A17, 0x65DA, 0xD731, 0x84C6, 0xD0B8,
     0x82C3, 0x29B0, 0x5A77, 0x1E11, 0x7BCB, 0xA8FC, 0x6DD6, 0x2C3A]"

definition Sbox1_1 :: "u16 list" where
  "Sbox1_1 = [
     0xA5C6, 0x84F8, 0x99EE, 0x8DF6, 0x0DFF, 0xBDD6, 0xB1DE, 0x5491,
     0x5060, 0x0302, 0xA9CE, 0x7D56, 0x19E7, 0x62B5, 0xE64D, 0x9AEC,
     0x458F, 0x9D1F, 0x4089, 0x87FA, 0x15EF, 0xEBB2, 0xC98E, 0x0BFB,
     0xEC41, 0x67B3, 0xFD5F, 0xEA45, 0xBF23, 0xF753, 0x96E4, 0x5B9B,
     0xC275, 0x1CE1, 0xAE3D, 0x6A4C, 0x5A6C, 0x417E, 0x02F5, 0x4F83,
     0x5C68, 0xF451, 0x34D1, 0x08F9, 0x93E2, 0x73AB, 0x5362, 0x3F2A,
     0x0C08, 0x5295, 0x6546, 0x5E9D, 0x2830, 0xA137, 0x0F0A, 0xB52F,
     0x090E, 0x3624, 0x9B1B, 0x3DDF, 0x26CD, 0x694E, 0xCD7F, 0x9FEA,
     0x1B12, 0x9E1D, 0x7458, 0x2E34, 0x2D36, 0xB2DC, 0xEEB4, 0xFB5B,
     0xF6A4, 0x4D76, 0x61B7, 0xCE7D, 0x7B52, 0x3EDD, 0x715E, 0x9713,
     0xF5A6, 0x68B9, 0x0000, 0x2CC1, 0x6040, 0x1FE3, 0xC879, 0xEDB6,
     0xBED4, 0x468D, 0xD967, 0x4B72, 0xDE94, 0xD498, 0xE8B0, 0x4A85,
     0x6BBB, 0x2AC5, 0xE54F, 0x16ED, 0xC586, 0xD79A, 0x5566, 0x9411,
     0xCF8A, 0x10E9, 0x0604, 0x81FE, 0xF0A0, 0x4478, 0xBA25, 0xE34B,
     0xF3A2, 0xFE5D, 0xC080, 0x8A05, 0xAD3F, 0xBC21, 0x4870, 0x04F1,
     0xDF63, 0xC177, 0x75AF, 0x6342, 0x3020, 0x1AE5, 0x0EFD, 0x6DBF,
     0x4C81, 0x1418, 0x3526, 0x2FC3, 0xE1BE, 0xA235, 0xCC88, 0x392E,
     0x5793, 0xF255, 0x82FC, 0x477A, 0xACC8, 0xE7BA, 0x2B32, 0x95E6,
     0xA0C0, 0x9819, 0xD19E, 0x7FA3, 0x6644, 0x7E54, 0xAB3B, 0x830B,
     0xCA8C, 0x29C7, 0xD36B, 0x3C28, 0x79A7, 0xE2BC, 0x1D16, 0x76AD,
     0x3BDB, 0x5664, 0x4E74, 0x1E14, 0xDB92, 0x0A0C, 0x6C48, 0xE4B8,
     0x5D9F, 0x6EBD, 0xEF43, 0xA6C4, 0xA839, 0xA431, 0x37D3, 0x8BF2,
     0x32D5, 0x438B, 0x596E, 0xB7DA, 0x8C01, 0x64B1, 0xD29C, 0xE049,
     0xB4D8, 0xFAAC, 0x07F3, 0x25CF, 0xAFCA, 0x8EF4, 0xE947, 0x1810,
     0xD56F, 0x88F0, 0x6F4A, 0x725C, 0x2438, 0xF157, 0xC773, 0x5197,
     0x23CB, 0x7CA1, 0x9CE8, 0x213E, 0xDD96, 0xDC61, 0x860D, 0x850F,
     0x90E0, 0x427C, 0xC471, 0xAACC, 0xD890, 0x0506, 0x01F7, 0x121C,
     0xA3C2, 0x5F6A, 0xF9AE, 0xD069, 0x9117, 0x5899, 0x273A, 0xB927,
     0x38D9, 0x13EB, 0xB32B, 0x3322, 0xBBD2, 0x70A9, 0x8907, 0xA733,
     0xB62D, 0x223C, 0x9215, 0x20C9, 0x4987, 0xFFAA, 0x7850, 0x7AA5,
     0x8F03, 0xF859, 0x8009, 0x171A, 0xDA65, 0x31D7, 0xC684, 0xB8D0,
     0xC382, 0xB029, 0x775A, 0x111E, 0xCB7B, 0xFCA8, 0xD66D, 0x3A2C]"

text \<open>\<^verbatim>\<open>_S_\<close>: the 16-bit S-box.\<close>

definition S16 :: "u16 \<Rightarrow> u16" where
  "S16 v = Sbox1_0 ! unat (Lo8 v) XOR Sbox1_1 ! unat (Hi8 v)"

type_synonym p1key = "u16 \<times> u16 \<times> u16 \<times> u16 \<times> u16"

definition phase1_round :: "u8 list \<Rightarrow> nat \<Rightarrow> p1key \<Rightarrow> p1key" where
  "phase1_round tk i = (\<lambda>(p0, p1, p2, p3, p4).
     let b = (if i mod 2 = 1 then 1 else 0);
         q0 = p0 + S16 (p4 XOR TK16 tk (b + 0));
         q1 = p1 + S16 (q0 XOR TK16 tk (b + 2));
         q2 = p2 + S16 (q1 XOR TK16 tk (b + 4));
         q3 = p3 + S16 (q2 XOR TK16 tk (b + 6));
         q4 = p4 + S16 (q3 XOR TK16 tk (b + 0)) + of_nat i
     in (q0, q1, q2, q3, q4))"

definition phase1_init :: "u8 list \<Rightarrow> u32 \<Rightarrow> p1key" where
  "phase1_init ta iv32 =
     (Lo16 iv32, Hi16 iv32, Mk16 (ta ! 1) (ta ! 0), Mk16 (ta ! 3) (ta ! 2), Mk16 (ta ! 5) (ta ! 4))"

definition phase1 :: "u8 list \<Rightarrow> u8 list \<Rightarrow> u32 \<Rightarrow> p1key" where
  "phase1 tk ta iv32 = fold (phase1_round tk) [0..<PHASE1_LOOP_CNT] (phase1_init ta iv32)"

definition phase2 :: "u8 list \<Rightarrow> p1key \<Rightarrow> u16 \<Rightarrow> u8 list" where
  "phase2 tk = (\<lambda>(k0, k1, k2, k3, k4) iv16.
     let p0 = k0; p1 = k1; p2 = k2; p3 = k3; p4 = k4; p5 = k4 + iv16;
         p0 = p0 + S16 (p5 XOR TK16 tk 0);
         p1 = p1 + S16 (p0 XOR TK16 tk 1);
         p2 = p2 + S16 (p1 XOR TK16 tk 2);
         p3 = p3 + S16 (p2 XOR TK16 tk 3);
         p4 = p4 + S16 (p3 XOR TK16 tk 4);
         p5 = p5 + S16 (p4 XOR TK16 tk 5);
         p0 = p0 + RotR1 (p5 XOR TK16 tk 6);
         p1 = p1 + RotR1 (p0 XOR TK16 tk 7);
         p2 = p2 + RotR1 p1;
         p3 = p3 + RotR1 p2;
         p4 = p4 + RotR1 p3;
         p5 = p5 + RotR1 p4
     in [Hi8 iv16, (Hi8 iv16 OR 0x20) AND 0x7F, Lo8 iv16, Lo8 (drop_bit 1 (p5 XOR TK16 tk 0)),
         Lo8 p0, Hi8 p0, Lo8 p1, Hi8 p1, Lo8 p2, Hi8 p2, Lo8 p3, Hi8 p3, Lo8 p4, Hi8 p4,
         Lo8 p5, Hi8 p5])"

section \<open>Frames\<close>

text \<open>
  \<^verbatim>\<open>GET_TKIP_PN\<close>: the packet number in the eight bytes of the IV, as \<^verbatim>\<open>pnl\<close> and
  \<^verbatim>\<open>pnh\<close>.
\<close>

definition get_tkip_pn :: "u8 list \<Rightarrow> u16 \<times> u32" where
  "get_tkip_pn iv = (Mk16 (iv ! 0) (iv ! 2), le32_of (iv ! 4) (iv ! 5) (iv ! 6) (iv ! 7))"

definition tkip_rc4key :: "u8 list \<Rightarrow> u8 list \<Rightarrow> u8 list \<Rightarrow> u8 list" where
  "tkip_rc4key tk ta iv = (case get_tkip_pn iv of (pnl, pnh) \<Rightarrow> phase2 tk (phase1 tk ta pnh) pnl)"

definition tkip_encrypt_frag ::
  "u8 list \<Rightarrow> pkt_attrib \<Rightarrow> nat \<Rightarrow> int \<Rightarrow> u8 list \<Rightarrow> u8 list option" where
  "tkip_encrypt_frag prwskey a pf l buf = do {
     iv \<leftarrow> read_at (pf + hdrlen a) 8 buf;
     let payload = pf + iv_len a + hdrlen a;
     let rc4key = tkip_rc4key prwskey (tx_ta a) iv;
     (if l < 0 then None else do {
        p \<leftarrow> read_at payload (nat l) buf;
        let crc = le32_bytes (crc32_of p);
        mycontext \<leftarrow> arcfour_init rc4key 16;
        let (c, mycontext1) = arcfour_encrypt mycontext p;
        buf1 \<leftarrow> write_at payload c buf;
        let (e, mycontext2) = arcfour_encrypt mycontext1 crc;
        write_at (payload + nat l) e buf1
      })
   }"

definition tkip_tx_key :: "security_priv \<Rightarrow> sta_info \<Rightarrow> pkt_attrib \<Rightarrow> u8 list option" where
  "tkip_tx_key sp psta a =
     (if IS_MCAST (tx_ra a)
      then do { k \<leftarrow> byte_at (dot118021XGrpKeyid sp) (dot118021XGrpKey sp); read_at 0 16 k }
      else read_at 0 16 (dot118021x_UncstKey psta))"

definition rtw_tkip_encrypt ::
  "sta_priv \<Rightarrow> security_priv \<Rightarrow> nat \<Rightarrow> xmit_frame \<Rightarrow> (status \<times> xmit_frame) option" where
  "rtw_tkip_encrypt s sp frag_len xf =
     (case buf_addr xf of
        None \<Rightarrow> Some (FAIL, xf)
      | Some (A, buf) \<Rightarrow>
          let a = attrib xf in
          if encrypt a = TKIP
          then (case (case tx_psta a of None \<Rightarrow> rtw_get_stainfo s (Some (tx_ra a)) | Some i \<Rightarrow> Some i) of
                  None \<Rightarrow> Some (FAIL, xf)
                | Some i \<Rightarrow>
                    let stainfo = stainfo_buf s ! i in
                    if sta_state stainfo AND FW_LINKED = 0 then Some (FAIL, xf)
                    else do {
                      prwskey \<leftarrow> tkip_tx_key sp stainfo a;
                      buf' \<leftarrow> frag_loop (tkip_encrypt_frag prwskey a) a frag_len A (nr_frags a)
                               (pframe_start xf) buf;
                      Some (SUCCESS, xf\<lparr>buf_addr := Some (A, buf')\<rparr>)
                    })
          else Some (SUCCESS, xf))"

definition tkip_rx_key :: "security_priv \<Rightarrow> sta_info \<Rightarrow> rx_attrib \<Rightarrow> u8 list option" where
  "tkip_rx_key sp psta a =
     (if IS_MCAST (rx_ra a)
      then do { k \<leftarrow> byte_at (rx_key_index a) (dot118021XGrpKey sp); read_at 0 16 k }
      else read_at 0 16 (dot118021x_UncstKey psta))"

definition rtw_tkip_decrypt ::
  "sta_priv \<Rightarrow> security_priv \<Rightarrow> recv_frame \<Rightarrow> (status \<times> recv_frame) option" where
  "rtw_tkip_decrypt s sp rf =
     (let a = rx_attr rf; pframe = rx_data rf in
      if rx_encrypt a = TKIP
      then (case rtw_get_stainfo s (Some (rx_ta a)) of
              None \<Rightarrow> Some (FAIL, rf)
            | Some i \<Rightarrow>
                if IS_MCAST (rx_ra a) \<and> \<not> binstallGrpkey sp then Some (FAIL, rf)
                else do {
                  prwskey \<leftarrow> tkip_rx_key sp (stainfo_buf s ! i) a;
                  iv \<leftarrow> read_at (rx_hdrlen a) 8 pframe;
                  let payload = rx_iv_len a + rx_hdrlen a;
                  let l = int (rx_len rf) - int (rx_hdrlen a) - int (rx_iv_len a);
                  let rc4key = tkip_rc4key prwskey (rx_ta a) iv;
                  (if l < 0 then None else do {
                     mycontext \<leftarrow> arcfour_init rc4key 16;
                     c \<leftarrow> read_at payload (nat l) pframe;
                     let (p, mycontext1) = arcfour_encrypt mycontext c;
                     pframe1 \<leftarrow> write_at payload p pframe;
                     let crc = le32_bytes (crc32_of (take (nat l - 4) p));
                     icv \<leftarrow> (if payload + nat l < 4 then None else read_at (payload + nat l - 4) 4 pframe1);
                     Some (if crc \<noteq> icv then FAIL else SUCCESS, rf\<lparr>rx_data := pframe1\<rparr>)
                   })
                })
      else Some (SUCCESS, rf))"

section \<open>The key mixing is injective\<close>

lemma bit_masks16:
  "bit (0xFF :: u16) n \<longleftrightarrow> n < 8" "bit (0xFFFF :: u32) n \<longleftrightarrow> n < 16"
proof -
  have "(0xFF :: u16) = mask 8" "(0xFFFF :: u32) = mask 16" by (simp_all add: mask_numeral)
  then show "bit (0xFF :: u16) n \<longleftrightarrow> n < 8" "bit (0xFFFF :: u32) n \<longleftrightarrow> n < 16"
    by (simp_all only: bit_mask_iff) auto
qed

lemma byte_macros:
  "Lo8 v = ucast v" "Hi8 v = ucast (drop_bit 8 v)" "Lo16 x = ucast x" "Hi16 x = ucast (drop_bit 16 x)"
  unfolding Lo8_def Hi8_def Lo16_def Hi16_def
  by (rule bit_word_eqI; simp only: bit_unsigned_iff bit_and_iff bit_masks16; simp)+

lemma Lo8_Hi8_inj: "Lo8 v = Lo8 w \<Longrightarrow> Hi8 v = Hi8 w \<Longrightarrow> v = w"
proof (rule bit_word_eqI)
  fix n assume "Lo8 v = Lo8 w" "Hi8 v = Hi8 w" and n: "n < LENGTH(16)"
  then have "bit (Lo8 v) n = bit (Lo8 w) n" "bit (Hi8 v) (n - 8) = bit (Hi8 w) (n - 8)" by simp_all
  then show "bit v n = bit w n" using n
    by (cases "n < 8") (simp_all add: byte_macros bit_simps less_diff_conv2)
qed

lemma Mk16_bytes: "Lo8 (Mk16 a b) = b" "Hi8 (Mk16 a b) = a"
  unfolding byte_macros Mk16_def by (rule bit_word_eqI; simp add: bit_simps)+

lemma Mk16_inj: "Mk16 a b = Mk16 c d \<Longrightarrow> a = c \<and> b = d"
  using Mk16_bytes by metis

lemma Lo16_Hi16_inj: "Lo16 v = Lo16 w \<Longrightarrow> Hi16 v = Hi16 w \<Longrightarrow> v = w"
proof (rule bit_word_eqI)
  fix n assume "Lo16 v = Lo16 w" "Hi16 v = Hi16 w" and n: "n < LENGTH(32)"
  then have "bit (Lo16 v) n = bit (Lo16 w) n" "bit (Hi16 v) (n - 16) = bit (Hi16 w) (n - 16)" by simp_all
  then show "bit v n = bit w n" using n
    by (cases "n < 16") (simp_all add: byte_macros bit_simps less_diff_conv2)
qed

lemma phase1_init_inj:
  assumes "length ta = 6" "length ta' = 6" "phase1_init ta v = phase1_init ta' v'"
  shows "ta = ta' \<and> v = v'"
proof -
  from assms(3) have "v = v'" using Lo16_Hi16_inj by (simp add: phase1_init_def)
  moreover have "ta ! i = ta' ! i" if "i < 6" for i
  proof -
    from that consider "i = 0" | "i = 1" | "i = 2" | "i = 3" | "i = 4" | "i = 5" by linarith
    then show ?thesis using assms(3) by cases (auto simp: phase1_init_def dest: Mk16_inj)
  qed
  ultimately show ?thesis using assms(1,2) by (simp add: list_eq_iff_nth_eq)
qed

text \<open>A round can be undone from its last component backwards.\<close>

lemma phase1_round_inj: "phase1_round tk i p = phase1_round tk i q \<Longrightarrow> p = q"
  by (cases p; cases q) (auto simp: phase1_round_def Let_def)

lemma phase1_inj:
  assumes "length ta = 6" "length ta' = 6" "phase1 tk ta v = phase1 tk ta' v'"
  shows "ta = ta' \<and> v = v'"
proof -
  have "fold (phase1_round tk) is p = fold (phase1_round tk) is q \<Longrightarrow> p = q" for "is" p q
    by (induction "is" arbitrary: p q) (simp, metis fold_simps(2) phase1_round_inj)
  then show ?thesis using assms phase1_init_inj unfolding phase1_def by blast
qed

text \<open>The two sweeps of phase 2, each undone from its last component backwards.\<close>

definition phase2_mix :: "u8 list \<Rightarrow> u16 \<times> u16 \<times> u16 \<times> u16 \<times> u16 \<times> u16 \<Rightarrow> u16 \<times> u16 \<times> u16 \<times> u16 \<times> u16 \<times> u16" where
  "phase2_mix tk = (\<lambda>(p0, p1, p2, p3, p4, p5).
     let q0 = p0 + S16 (p5 XOR TK16 tk 0); q1 = p1 + S16 (q0 XOR TK16 tk 1);
         q2 = p2 + S16 (q1 XOR TK16 tk 2); q3 = p3 + S16 (q2 XOR TK16 tk 3);
         q4 = p4 + S16 (q3 XOR TK16 tk 4); q5 = p5 + S16 (q4 XOR TK16 tk 5)
     in (q0, q1, q2, q3, q4, q5))"

definition phase2_sweep :: "u8 list \<Rightarrow> u16 \<times> u16 \<times> u16 \<times> u16 \<times> u16 \<times> u16 \<Rightarrow> u16 \<times> u16 \<times> u16 \<times> u16 \<times> u16 \<times> u16" where
  "phase2_sweep tk = (\<lambda>(p0, p1, p2, p3, p4, p5).
     let q0 = p0 + RotR1 (p5 XOR TK16 tk 6); q1 = p1 + RotR1 (q0 XOR TK16 tk 7);
         q2 = p2 + RotR1 q1; q3 = p3 + RotR1 q2; q4 = p4 + RotR1 q3; q5 = p5 + RotR1 q4
     in (q0, q1, q2, q3, q4, q5))"

lemma phase2_mix_inj: "phase2_mix tk p = phase2_mix tk q \<Longrightarrow> p = q"
  by (cases p; cases q) (auto simp: phase2_mix_def Let_def)

lemma phase2_sweep_inj: "phase2_sweep tk p = phase2_sweep tk q \<Longrightarrow> p = q"
  by (cases p; cases q) (auto simp: phase2_sweep_def Let_def)

lemma phase2_sweeps:
  "phase2 tk (k0, k1, k2, k3, k4) iv16 =
     (case phase2_sweep tk (phase2_mix tk (k0, k1, k2, k3, k4, k4 + iv16)) of
        (p0, p1, p2, p3, p4, p5) \<Rightarrow>
          [Hi8 iv16, (Hi8 iv16 OR 0x20) AND 0x7F, Lo8 iv16, Lo8 (drop_bit 1 (p5 XOR TK16 tk 0)),
           Lo8 p0, Hi8 p0, Lo8 p1, Hi8 p1, Lo8 p2, Hi8 p2, Lo8 p3, Hi8 p3, Lo8 p4, Hi8 p4,
           Lo8 p5, Hi8 p5])"
  by (simp only: phase2_def phase2_sweep_def phase2_mix_def Let_def prod.case)

lemma phase2_inj:
  assumes "phase2 tk p v = phase2 tk q w"
  shows "p = q \<and> v = w"
proof -
  obtain p0 p1 p2 p3 p4 where p: "p = (p0, p1, p2, p3, p4)" by (cases p)
  obtain q0 q1 q2 q3 q4 where q: "q = (q0, q1, q2, q3, q4)" by (cases q)
  let ?P = "phase2_sweep tk (phase2_mix tk (p0, p1, p2, p3, p4, p4 + v))"
  let ?Q = "phase2_sweep tk (phase2_mix tk (q0, q1, q2, q3, q4, q4 + w))"
  obtain a0 a1 a2 a3 a4 a5 where P: "?P = (a0, a1, a2, a3, a4, a5)" by (cases ?P)
  obtain b0 b1 b2 b3 b4 b5 where Q: "?Q = (b0, b1, b2, b3, b4, b5)" by (cases ?Q)
  from assms have "?P = ?Q"
    unfolding p q phase2_sweeps P Q by (simp add: Lo8_Hi8_inj)
  then have "(p0, p1, p2, p3, p4, p4 + v) = (q0, q1, q2, q3, q4, q4 + w)"
    using phase2_sweep_inj phase2_mix_inj by blast
  then show ?thesis by (auto simp: p q)
qed

lemma length_phase2 [simp]: "length (phase2 tk p v) = 16"
  by (cases p) (simp add: phase2_def Let_def)

lemma length_tkip_rc4key [simp]: "length (tkip_rc4key tk ta iv) = 16"
  by (simp add: tkip_rc4key_def split: prod.splits)

section \<open>Sealed TKIP frames\<close>

definition tkip_frame_key :: "u8 list \<Rightarrow> u8 list \<Rightarrow> nat \<Rightarrow> u8 list \<Rightarrow> u8 list option" where
  "tkip_frame_key tk ta h r = (if h + 8 \<le> length r then Some (tkip_rc4key tk ta (take 8 (drop h r))) else None)"

lemma tkip_frame_key_prefix:
  assumes "h + 8 \<le> hl" "hl \<le> length r"
  shows "tkip_frame_key tk ta h (take hl r @ x) = tkip_frame_key tk ta h r"
proof -
  have "take 8 (drop h (take hl r @ x)) = take 8 (drop h (take hl r))" using assms by simp
  also have "\<dots> = take 8 (drop h r)" using assms(1) by (simp add: drop_take)
  finally show ?thesis using assms by (simp add: tkip_frame_key_def)
qed

lemma tkip_encrypt_frag_sealed:
  assumes "0 \<le> l" and iv: "8 \<le> iv_len a"
  shows "tkip_encrypt_frag tk a pf l buf =
    in_place (rc4_frame (tkip_frame_key tk (tx_ta a) (hdrlen a)) (hdrlen a + iv_len a))
      pf (hdrlen a + iv_len a + nat l + 4) buf"
    (is "_ = in_place (rc4_frame ?kf ?hl) pf ?n buf")
proof (cases "pf + ?n \<le> length buf")
  case fits: True
  let ?iv = "take 8 (drop (pf + hdrlen a) buf)"
  have iv': "take 8 (drop (hdrlen a) (take ?n (drop pf buf))) = ?iv"
    using fits iv by (simp add: drop_take min_def add.commute)
  let ?key = "tkip_rc4key tk (tx_ta a) ?iv"
  obtain ctx where ctx: "arcfour_init ?key (length ?key) = Some ctx"
    using arcfour_init_total [of ?key] by auto
  let ?p = "take (nat l) (drop (pf + ?hl) buf)"
  have "length ?p = nat l" using fits by simp
  then have "tkip_encrypt_frag tk a pf l buf = write_at (pf + ?hl) (rc4.seal ?key ?p) buf"
    using fits assms ctx rc4_write_sealed [OF ctx, of ?p "pf + ?hl" buf]
    by (simp add: tkip_encrypt_frag_def Let_def ac_simps)
  moreover have "?kf (take ?n (drop pf buf)) = Some ?key"
    using iv iv' fits by (simp add: tkip_frame_key_def)
  ultimately show ?thesis using rc4_frame_in_place [OF fits] by simp
next
  case False
  then have rhs: "in_place (rc4_frame ?kf ?hl) pf ?n buf = None"
    by (simp add: in_place_def read_at_NoneI)
  have "tkip_encrypt_frag tk a pf l buf \<noteq> Some b" for b
  proof
    assume "tkip_encrypt_frag tk a pf l buf = Some b"
    with assms obtain e buf1 where "write_at (pf + iv_len a + hdrlen a + nat l) e buf1 = Some b"
      and "length e = 4" and "length buf1 = length buf"
      by (auto simp: tkip_encrypt_frag_def Let_def bind_eq_Some_conv arcfour_encrypt_stream
          dest: write_at_Some_length split: prod.splits)
    with False show False by (auto simp: write_at_def split: if_splits)
  qed
  then show ?thesis using rhs by (cases "tkip_encrypt_frag tk a pf l buf") auto
qed

text \<open>With \<open>iv_len\<close> at least eight, as TKIP sets it.\<close>

definition tkip_attrib :: "pkt_attrib \<Rightarrow> pkt_attrib" where
  "tkip_attrib a = a\<lparr>iv_len := max 8 (iv_len a), icv_len := 4\<rparr>"

interpretation tkipf: fragment_cipher "tkip_encrypt_frag tk (tkip_attrib a)"
  "rc4_frame (tkip_frame_key tk (tx_ta a) (hdrlen a)) (hdrlen a + iv_len (tkip_attrib a))"
  "\<lambda>_. True" "tkip_attrib a" for tk a
proof
  fix l pf buf assume "l < (0 :: int)"
  then show "tkip_encrypt_frag tk (tkip_attrib a) pf l buf = None"
    by (simp add: tkip_encrypt_frag_def bind_eq_None_conv)
next
  fix l pf buf assume l: "0 \<le> (l :: int)"
  have "8 \<le> iv_len (tkip_attrib a)" "tx_ta (tkip_attrib a) = tx_ta a" "hdrlen (tkip_attrib a) = hdrlen a"
    "icv_len (tkip_attrib a) = 4" by (simp_all add: tkip_attrib_def)
  with tkip_encrypt_frag_sealed [OF l, of "tkip_attrib a" tk pf buf]
  show "tkip_encrypt_frag tk (tkip_attrib a) pf l buf =
      in_place (rc4_frame (tkip_frame_key tk (tx_ta a) (hdrlen a)) (hdrlen a + iv_len (tkip_attrib a)))
        pf (hdrlen (tkip_attrib a) + iv_len (tkip_attrib a) + nat l + icv_len (tkip_attrib a)) buf"
    by simp
qed (simp add: rc4_frame_length)

section \<open>Opening TKIP frames\<close>

lemma rtw_tkip_decrypt_open:
  assumes enc: "rx_encrypt (rx_attr rf) = TKIP"
    and sta: "rtw_get_stainfo s (Some (rx_ta (rx_attr rf))) = Some i"
    and grp: "IS_MCAST (rx_ra (rx_attr rf)) \<Longrightarrow> binstallGrpkey sp"
    and key: "tkip_rx_key sp (stainfo_buf s ! i) (rx_attr rf) = Some tk"
    and len: "rx_len rf = length (rx_data rf)"
    and iv: "8 \<le> rx_iv_len (rx_attr rf)"
    and fits: "rx_hdrlen (rx_attr rf) + rx_iv_len (rx_attr rf) + 4 \<le> length (rx_data rf)"
  shows "rtw_tkip_decrypt s sp rf =
    map_option (\<lambda>(e, r). (if e then FAIL else SUCCESS, rf\<lparr>rx_data := r\<rparr>))
      (rc4_open (tkip_frame_key tk (rx_ta (rx_attr rf)) (rx_hdrlen (rx_attr rf)))
        (rx_hdrlen (rx_attr rf) + rx_iv_len (rx_attr rf)) (rx_data rf))"
proof -
  let ?h = "rx_hdrlen (rx_attr rf)" and ?i = "rx_iv_len (rx_attr rf)" and ?r = "rx_data rf"
  let ?key = "tkip_rc4key tk (rx_ta (rx_attr rf)) (take 8 (drop ?h ?r))"
  define n where "n = length ?r - (?h + ?i)"
  have n: "4 \<le> n" "length ?r = (?h + ?i) + n" using fits by (simp_all add: n_def)
  have l: "int (rx_len rf) - int ?h - int ?i = int n" using n len by simp
  obtain ctx where ctx: "arcfour_init ?key (length ?key) = Some ctx"
    using arcfour_init_total [of ?key] by auto
  then have ctx16: "arcfour_init ?key 16 = Some ctx" by simp
  have r: "read_at ?h 8 ?r = Some (take 8 (drop ?h ?r))" using fits iv by simp
  have p: "read_at (?h + ?i) n ?r = Some (drop (?h + ?i) ?r)" using n by simp
  have neg: "\<not> ?h + ?i + n < 4" using n by simp
  have kf: "tkip_frame_key tk (rx_ta (rx_attr rf)) ?h ?r = Some ?key"
    using fits iv by (simp add: tkip_frame_key_def)
  have go: "\<not> (IS_MCAST (rx_ra (rx_attr rf)) \<and> \<not> binstallGrpkey sp)" using grp by blast
  show ?thesis
    using enc sta key go neg ctx16 kf rc4_read_unsealed [OF ctx n(2) n(1)]
    by (auto simp: rtw_tkip_decrypt_def Let_def l r p rc4_open_def add.commute [of ?i ?h]
        case_prod_unfold simp del: write_at_eq_Some read_at_eq_Some)
qed

section \<open>Properties\<close>

text \<open>
  C34: TKIP never repeats a packet key. For one temporal key, different transmitter addresses or
  packet numbers give different RC4 keys: the two phases of the mixing lose nothing of the 96
  bits they mix.
\<close>

theorem tkip_key_mixing_injective:
  assumes "length ta = 6" and "length ta' = 6"
    and "phase2 tk (phase1 tk ta iv32) iv16 = phase2 tk (phase1 tk ta' iv32') iv16'"
  shows "ta = ta' \<and> iv32 = iv32' \<and> iv16 = iv16'"
  using phase2_inj [OF assms(3)] phase1_inj [OF assms(1,2)] by blast

theorem tkip_key_mixing_injective_witness:
  "phase2 (replicate 16 0) (phase1 (replicate 16 0) [0, 1, 2, 3, 4, 5] 7) 8 \<noteq>
   phase2 (replicate 16 0) (phase1 (replicate 16 0) [0, 1, 2, 3, 4, 5] 7) 9"
  using tkip_key_mixing_injective [of "[0, 1, 2, 3, 4, 5]" "[0, 1, 2, 3, 4, 5]" "replicate 16 0" 7 8 7 9]
  by auto

text \<open>
  C28: TKIP round trip. When the receiver is linked, both ends hold the same key for the receiver
  address, and the buffer has room for the fragments, \<^verbatim>\<open>rtw_tkip_encrypt\<close> succeeds and
  \<^verbatim>\<open>rtw_tkip_decrypt\<close> accepts every fragment, giving back header, IV and payload of the
  original followed by the CRC-32 of the payload.
\<close>

theorem rtw_tkip_roundtrip:
  assumes enc: "encrypt (attrib xf) = TKIP" "rx_encrypt ra = TKIP"
    and lens: "icv_len (attrib xf) = 4" "8 \<le> iv_len (attrib xf)"
      "rx_hdrlen ra = hdrlen (attrib xf)" "rx_iv_len ra = iv_len (attrib xf)"
    and psta: "tx_psta (attrib xf) = Some i" "sta_state (stainfo_buf s ! i) AND FW_LINKED \<noteq> 0"
    and key: "tkip_tx_key sp (stainfo_buf s ! i) (attrib xf) = Some tk"
      "rtw_get_stainfo s' (Some (rx_ta ra)) = Some j"
      "tkip_rx_key sp' (stainfo_buf s' ! j) ra = Some tk"
      "binstallGrpkey sp'" "rx_ta ra = tx_ta (attrib xf)"
    and fit: "frags_fit frag_len xf"
  shows "\<exists>xf'. rtw_tkip_encrypt s sp frag_len xf = Some (SUCCESS, xf') \<and>
    (\<forall>k < nr_frags (attrib xf).
       (let plain = fragment frag_len xf k; sent = fragment frag_len xf' k;
            hl = hdrlen (attrib xf) + iv_len (attrib xf);
            payload = take (length plain - hl - 4) (drop hl plain)
        in rtw_tkip_decrypt s' sp' \<lparr>rx_attr = ra, rx_len = length sent, rx_data = sent\<rparr> =
             Some (SUCCESS, \<lparr>rx_attr = ra, rx_len = length sent,
               rx_data = take hl plain @ payload @ le32_bytes (crc32_spec payload)\<rparr>)))"
proof -
  let ?a = "attrib xf"
  let ?hl = "hdrlen ?a + iv_len ?a"
  let ?kf = "tkip_frame_key tk (tx_ta ?a) (hdrlen ?a)"
  from fit obtain A buf where buf: "buf_addr xf = Some (A, buf)"
    by (auto simp: frags_fit_def split: option.splits)
  have a: "tkip_attrib ?a = ?a" using lens(1,2) by (simp add: tkip_attrib_def max_def)
  have total: "\<exists>r'. rc4_frame ?kf ?hl r = Some r'"
    if "hdrlen ?a + iv_len ?a + icv_len ?a \<le> length r" for r
    using that lens by (simp add: rc4_frame_def tkip_frame_key_def)
  have "\<exists>buf'. frag_loop (tkip_encrypt_frag tk ?a) ?a frag_len A (nr_frags ?a) (pframe_start xf) buf =
      Some buf' \<and> (\<forall>k < nr_frags ?a. rc4_frame ?kf ?hl (fragment frag_len xf k) =
       Some (fragment frag_len (xf\<lparr>buf_addr := Some (A, buf')\<rparr>) k))"
    by (rule tkipf.frag_loop_xmit [of ?a tk xf A buf frag_len, unfolded a])
      (use total buf fit in auto)
  then obtain buf' where
    res: "frag_loop (tkip_encrypt_frag tk ?a) ?a frag_len A (nr_frags ?a) (pframe_start xf) buf = Some buf'"
    and frags: "\<And>k. k < nr_frags ?a \<Longrightarrow> rc4_frame ?kf ?hl (fragment frag_len xf k) =
       Some (fragment frag_len (xf\<lparr>buf_addr := Some (A, buf')\<rparr>) k)"
    by (elim exE conjE) (rule that, assumption, simp)
  define xf' where "xf' = xf\<lparr>buf_addr := Some (A, buf')\<rparr>"
  have "rtw_tkip_encrypt s sp frag_len xf = Some (SUCCESS, xf')"
    using buf enc(1) psta key(1) res by (simp add: rtw_tkip_encrypt_def Let_def xf'_def)
  moreover have "rtw_tkip_decrypt s' sp' \<lparr>rx_attr = ra, rx_len = length sent, rx_data = sent\<rparr> =
      Some (SUCCESS, \<lparr>rx_attr = ra, rx_len = length sent,
        rx_data = take ?hl plain @ payload @ le32_bytes (crc32_spec payload)\<rparr>)"
    if "k < nr_frags ?a" "plain = fragment frag_len xf k" "sent = fragment frag_len xf' k"
      "payload = take (length plain - ?hl - 4) (drop ?hl plain)" for k plain sent payload
  proof -
    have sealed: "rc4_frame ?kf ?hl plain = Some sent" using frags that xf'_def by simp
    then have len: "?hl + 4 \<le> length plain" "length sent = length plain"
      using rc4_frame_length [OF sealed] sealed by (simp_all add: rc4_frame_def split: if_splits)
    have kf: "?kf (take ?hl plain @ x) = ?kf plain" for x
      using len lens(2) by (intro tkip_frame_key_prefix) auto
    have "rtw_tkip_decrypt s' sp' \<lparr>rx_attr = ra, rx_len = length sent, rx_data = sent\<rparr> =
        map_option (\<lambda>(e, r). (if e then FAIL else SUCCESS, \<lparr>rx_attr = ra, rx_len = length sent, rx_data = r\<rparr>))
          (rc4_open ?kf ?hl sent)"
      using rtw_tkip_decrypt_open [of "\<lparr>rx_attr = ra, rx_len = length sent, rx_data = sent\<rparr>" s' j sp' tk]
        enc(2) key lens len by simp
    then show ?thesis
      using rc4_open_frame [OF sealed kf] that(4) by (simp add: Let_def crc32_of_spec)
  qed
  ultimately show ?thesis by (auto simp: Let_def)
qed

theorem rtw_tkip_roundtrip_witness:
  "\<exists>xf'. rtw_tkip_encrypt (sample_stations [2, 0, 0, 0, 0, 1]) sample_security 48
      (sample_xmit (sample_attrib TKIP 8 4)) = Some (SUCCESS, xf')"
proof -
  have "rtw_get_stainfo (sample_stations [2, 0, 0, 0, 0, 2]) (Some (rx_ta (sample_rx TKIP 8))) = Some 0"
    using sample_stations_lookup [of "[2, 0, 0, 0, 0, 2]"] by (simp add: sample_rx_def IS_MCAST_def)
  moreover have "frags_fit 48 (sample_xmit (sample_attrib TKIP 8 4))" by (rule sample_fit) simp
  ultimately show ?thesis
    using rtw_tkip_roundtrip [of "sample_xmit (sample_attrib TKIP 8 4)" "sample_rx TKIP 8" 0
        "sample_stations [2, 0, 0, 0, 0, 1]" sample_security "replicate 16 0"
        "sample_stations [2, 0, 0, 0, 0, 2]" 0 sample_security 48]
    by (simp add: sample_xmit_def sample_attrib_def sample_rx_def sample_security_def
        tkip_tx_key_def tkip_rx_key_def IS_MCAST_def sample_stations_def init_stainfo_def FW_LINKED_def)
      blast
qed

text \<open>
  What \<^verbatim>\<open>rtw_tkip_decrypt\<close> accepts. With the keys in place it returns
  \<^verbatim>\<open>_SUCCESS\<close> exactly for the frames whose protected part is the sealing of some payload
  under the packet key, and it fails without touching the frame when the transmitter is unknown or
  a group frame arrives before the group key.
\<close>

theorem rtw_tkip_decrypt_accepts:
  assumes enc: "rx_encrypt (rx_attr rf) = TKIP" and len: "rx_len rf = length (rx_data rf)"
    and hl: "hl = rx_hdrlen (rx_attr rf) + rx_iv_len (rx_attr rf)"
    and iv: "8 \<le> rx_iv_len (rx_attr rf)" and fits: "hl + 4 \<le> length (rx_data rf)"
    and key: "tkip_rx_key sp (stainfo_buf s ! i) (rx_attr rf) = Some tk"
  shows "(rtw_get_stainfo s (Some (rx_ta (rx_attr rf))) = None \<longrightarrow> rtw_tkip_decrypt s sp rf = Some (FAIL, rf)) \<and>
    (IS_MCAST (rx_ra (rx_attr rf)) \<and> \<not> binstallGrpkey sp \<longrightarrow> rtw_tkip_decrypt s sp rf = Some (FAIL, rf)) \<and>
    (rtw_get_stainfo s (Some (rx_ta (rx_attr rf))) = Some i \<and>
     (IS_MCAST (rx_ra (rx_attr rf)) \<longrightarrow> binstallGrpkey sp) \<longrightarrow>
       (\<exists>st rf'. rtw_tkip_decrypt s sp rf = Some (st, rf') \<and>
          (st = SUCCESS \<longleftrightarrow> (\<exists>p. drop hl (rx_data rf) = rc4.seal
             (tkip_rc4key tk (rx_ta (rx_attr rf)) (take 8 (drop (rx_hdrlen (rx_attr rf)) (rx_data rf)))) p))))"
proof (intro conjI impI)
  assume sta: "rtw_get_stainfo s (Some (rx_ta (rx_attr rf))) = Some i \<and>
     (IS_MCAST (rx_ra (rx_attr rf)) \<longrightarrow> binstallGrpkey sp)"
  let ?key = "tkip_rc4key tk (rx_ta (rx_attr rf)) (take 8 (drop (rx_hdrlen (rx_attr rf)) (rx_data rf)))"
  have "snd (rc4.unseal ?key (drop hl (rx_data rf))) \<longleftrightarrow> (\<exists>p. drop hl (rx_data rf) = rc4.seal ?key p)"
    using fits by (intro rc4.unseal_accepts_iff) simp
  then show "\<exists>st rf'. rtw_tkip_decrypt s sp rf = Some (st, rf') \<and>
      (st = SUCCESS \<longleftrightarrow> (\<exists>p. drop hl (rx_data rf) = rc4.seal ?key p))"
    using rtw_tkip_decrypt_open [OF enc, of s i sp tk] sta key len iv fits hl
    by (simp add: rc4_open_def tkip_frame_key_def case_prod_unfold)
qed (use enc in \<open>auto simp: rtw_tkip_decrypt_def Let_def split: option.splits\<close>)

theorem rtw_tkip_decrypt_accepts_witness:
  "\<exists>st rf'. rtw_tkip_decrypt (sample_stations [2, 0, 0, 0, 0, 2]) sample_security
     \<lparr>rx_attr = sample_rx TKIP 8, rx_len = 40, rx_data = replicate 40 0\<rparr> = Some (st, rf')"
proof -
  have "rtw_get_stainfo (sample_stations [2, 0, 0, 0, 0, 2]) (Some (rx_ta (sample_rx TKIP 8))) = Some 0"
    using sample_stations_lookup [of "[2, 0, 0, 0, 0, 2]"] by (simp add: sample_rx_def IS_MCAST_def)
  then show ?thesis
    using rtw_tkip_decrypt_accepts [of "\<lparr>rx_attr = sample_rx TKIP 8, rx_len = 40, rx_data = replicate 40 0\<rparr>"
        32 sample_security "sample_stations [2, 0, 0, 0, 0, 2]" 0 "replicate 16 0"]
    by (auto simp: sample_rx_def tkip_rx_key_def IS_MCAST_def sample_stations_def init_stainfo_def
        sample_security_def)
qed

end
