(* ===== verification/Aes_Core.thy ===== *)
theory Aes_Core
  imports Driver_Prelude
begin

text \<open>
  The block cipher of \<^verbatim>\<open>core/rtw_security.c\<close> that CCMP uses, \<^verbatim>\<open>aes128k128d\<close>: AES with a
  128-bit key, bytes throughout, the round keys computed along the way. The second half states
  AES-128 as FIPS 197 does, with the field GF(256), and shows that the code computes it.
\<close>

section \<open>The code\<close>

definition sbox_table :: "u8 list" where
  "sbox_table = [
     0x63, 0x7c, 0x77, 0x7b, 0xf2, 0x6b, 0x6f, 0xc5,
     0x30, 0x01, 0x67, 0x2b, 0xfe, 0xd7, 0xab, 0x76,
     0xca, 0x82, 0xc9, 0x7d, 0xfa, 0x59, 0x47, 0xf0,
     0xad, 0xd4, 0xa2, 0xaf, 0x9c, 0xa4, 0x72, 0xc0,
     0xb7, 0xfd, 0x93, 0x26, 0x36, 0x3f, 0xf7, 0xcc,
     0x34, 0xa5, 0xe5, 0xf1, 0x71, 0xd8, 0x31, 0x15,
     0x04, 0xc7, 0x23, 0xc3, 0x18, 0x96, 0x05, 0x9a,
     0x07, 0x12, 0x80, 0xe2, 0xeb, 0x27, 0xb2, 0x75,
     0x09, 0x83, 0x2c, 0x1a, 0x1b, 0x6e, 0x5a, 0xa0,
     0x52, 0x3b, 0xd6, 0xb3, 0x29, 0xe3, 0x2f, 0x84,
     0x53, 0xd1, 0x00, 0xed, 0x20, 0xfc, 0xb1, 0x5b,
     0x6a, 0xcb, 0xbe, 0x39, 0x4a, 0x4c, 0x58, 0xcf,
     0xd0, 0xef, 0xaa, 0xfb, 0x43, 0x4d, 0x33, 0x85,
     0x45, 0xf9, 0x02, 0x7f, 0x50, 0x3c, 0x9f, 0xa8,
     0x51, 0xa3, 0x40, 0x8f, 0x92, 0x9d, 0x38, 0xf5,
     0xbc, 0xb6, 0xda, 0x21, 0x10, 0xff, 0xf3, 0xd2,
     0xcd, 0x0c, 0x13, 0xec, 0x5f, 0x97, 0x44, 0x17,
     0xc4, 0xa7, 0x7e, 0x3d, 0x64, 0x5d, 0x19, 0x73,
     0x60, 0x81, 0x4f, 0xdc, 0x22, 0x2a, 0x90, 0x88,
     0x46, 0xee, 0xb8, 0x14, 0xde, 0x5e, 0x0b, 0xdb,
     0xe0, 0x32, 0x3a, 0x0a, 0x49, 0x06, 0x24, 0x5c,
     0xc2, 0xd3, 0xac, 0x62, 0x91, 0x95, 0xe4, 0x79,
     0xe7, 0xc8, 0x37, 0x6d, 0x8d, 0xd5, 0x4e, 0xa9,
     0x6c, 0x56, 0xf4, 0xea, 0x65, 0x7a, 0xae, 0x08,
     0xba, 0x78, 0x25, 0x2e, 0x1c, 0xa6, 0xb4, 0xc6,
     0xe8, 0xdd, 0x74, 0x1f, 0x4b, 0xbd, 0x8b, 0x8a,
     0x70, 0x3e, 0xb5, 0x66, 0x48, 0x03, 0xf6, 0x0e,
     0x61, 0x35, 0x57, 0xb9, 0x86, 0xc1, 0x1d, 0x9e,
     0xe1, 0xf8, 0x98, 0x11, 0x69, 0xd9, 0x8e, 0x94,
     0x9b, 0x1e, 0x87, 0xe9, 0xce, 0x55, 0x28, 0xdf,
     0x8c, 0xa1, 0x89, 0x0d, 0xbf, 0xe6, 0x42, 0x68,
     0x41, 0x99, 0x2d, 0x0f, 0xb0, 0x54, 0xbb, 0x16]"

definition xor_128 :: "u8 list \<Rightarrow> u8 list \<Rightarrow> u8 list" where
  "xor_128 a b = map (\<lambda>i. a ! i XOR b ! i) [0..<16]"

definition xor_32 :: "u8 list \<Rightarrow> u8 list \<Rightarrow> u8 list" where
  "xor_32 a b = map (\<lambda>i. a ! i XOR b ! i) [0..<4]"

definition sbox :: "u8 \<Rightarrow> u8" where
  "sbox a = sbox_table ! unat a"

definition rcon_table :: "u8 list" where
  "rcon_table = [0x01, 0x02, 0x04, 0x08, 0x10, 0x20, 0x40, 0x80, 0x1b, 0x36, 0x36, 0x36]"

definition next_key :: "u8 list \<Rightarrow> nat \<Rightarrow> u8 list" where
  "next_key key round =
     (let sbox_key = [sbox (key ! 13), sbox (key ! 14), sbox (key ! 15), sbox (key ! 12)];
          rcon = rcon_table ! round;
          k0 = xor_32 (take 4 key) sbox_key;
          k0 = k0[0 := k0 ! 0 XOR rcon];
          k4 = xor_32 (take 4 (drop 4 key)) k0;
          k8 = xor_32 (take 4 (drop 8 key)) k4;
          k12 = xor_32 (take 4 (drop 12 key)) k8
      in k0 @ k4 @ k8 @ k12)"

definition byte_sub :: "u8 list \<Rightarrow> u8 list" where
  "byte_sub inp = map (\<lambda>i. sbox (inp ! i)) [0..<16]"

definition shift_row :: "u8 list \<Rightarrow> u8 list" where
  "shift_row inp =
     [inp ! 0, inp ! 5, inp ! 10, inp ! 15, inp ! 4, inp ! 9, inp ! 14, inp ! 3,
      inp ! 8, inp ! 13, inp ! 2, inp ! 7, inp ! 12, inp ! 1, inp ! 6, inp ! 11]"

text \<open>One column of four bytes. The carry between the bytes of \<^verbatim>\<open>andf7\<close> never happens.\<close>

definition mix_column :: "u8 list \<Rightarrow> u8 list" where
  "mix_column inp =
     (let add1b = map (\<lambda>i. if inp ! i AND 0x80 = 0x80 then 0x1b else 0x00) [0..<4];
          swap_halfs = [inp ! 2, inp ! 3, inp ! 0, inp ! 1];
          rotl = [inp ! 3, inp ! 0, inp ! 1, inp ! 2];
          andf7 = map (\<lambda>i. inp ! i AND 0x7f) [0..<4];
          carry = (\<lambda>i. if andf7 ! (i - 1) AND 0x80 = 0x80 then 0x01 else 0x00);
          andf7' = [push_bit 1 (andf7 ! 0) AND 0xfe,
                    push_bit 1 (andf7 ! 1) OR carry 1,
                    push_bit 1 (andf7 ! 2) OR carry 2,
                    push_bit 1 (andf7 ! 3) OR carry 3];
          add1bf7 = xor_32 add1b andf7';
          rotr = xor_32 inp add1bf7;
          rotr = [rotr ! 1, rotr ! 2, rotr ! 3, rotr ! 0];
          temp = xor_32 add1bf7 rotr;
          tempb = xor_32 swap_halfs rotl
      in xor_32 temp tempb)"

text \<open>One turn of the loop, on the round key and the text.\<close>

definition aes_round :: "u8 list \<Rightarrow> nat \<Rightarrow> u8 list \<times> u8 list \<Rightarrow> u8 list \<times> u8 list" where
  "aes_round data round = (\<lambda>(round_key, ciphertext).
     if round = 0 then (next_key round_key round, xor_128 round_key data)
     else if round = 10 then (round_key, xor_128 (shift_row (byte_sub ciphertext)) round_key)
     else
       let b = shift_row (byte_sub ciphertext);
           a = mix_column (take 4 b) @ mix_column (take 4 (drop 4 b)) @
               mix_column (take 4 (drop 8 b)) @ mix_column (take 4 (drop 12 b))
       in (next_key round_key round, xor_128 a round_key))"

definition aes128k128d :: "u8 list \<Rightarrow> u8 list \<Rightarrow> u8 list" where
  "aes128k128d key data = snd (fold (aes_round data) [0..<11] (take 16 key, []))"

section \<open>The field GF(256)\<close>

definition xtime :: "u8 \<Rightarrow> u8" where
  "xtime a = push_bit 1 a XOR (if bit a 7 then 0x1b else 0)"

definition gf_mul :: "u8 \<Rightarrow> u8 \<Rightarrow> u8" where
  "gf_mul a b = foldr (\<lambda>i r. (if bit b i then (xtime ^^ i) a else 0) XOR r) [0..<8] 0"

lemma gf_mul_unroll:
  "gf_mul a b =
     (let a1 = xtime a; a2 = xtime a1; a3 = xtime a2; a4 = xtime a3; a5 = xtime a4; a6 = xtime a5;
          a7 = xtime a6
      in (if bit b 0 then a else 0) XOR ((if bit b 1 then a1 else 0) XOR
        ((if bit b 2 then a2 else 0) XOR ((if bit b 3 then a3 else 0) XOR
        ((if bit b 4 then a4 else 0) XOR ((if bit b 5 then a5 else 0) XOR
        ((if bit b 6 then a6 else 0) XOR (if bit b 7 then a7 else 0))))))))"
proof -
  have u: "[0..<8] = [0, 1, 2, 3, 4, 5, 6, 7 :: nat]" by (simp add: upt_rec)
  show ?thesis by (simp add: gf_mul_def u Let_def eval_nat_numeral)
qed

text \<open>The affine map of the S-box, on the bits of a byte, undone.\<close>

definition rot8 :: "nat \<Rightarrow> u8 \<Rightarrow> u8" where
  "rot8 n a = push_bit n a OR drop_bit (8 - n) a"

definition affine_inv :: "u8 \<Rightarrow> u8" where
  "affine_inv a = rot8 1 a XOR rot8 3 a XOR rot8 6 a XOR 0x05"

fun sbox_from :: "u8 \<Rightarrow> u8 list \<Rightarrow> bool" where
  "sbox_from a [] = True"
| "sbox_from a (s # ss) = ((a = 0 \<and> s = 0x63 \<or> gf_mul a (affine_inv s) = 1) \<and> sbox_from (a + 1) ss)"

lemma sbox_table_from: "sbox_from 0 sbox_table"
  unfolding sbox_table_def
  by (simp add: gf_mul_unroll xtime_def affine_inv_def rot8_def Let_def)

lemma sbox_from_nth:
  "sbox_from a t \<Longrightarrow> i < length t \<Longrightarrow> a + of_nat i = 0 \<and> t ! i = 0x63 \<or>
     gf_mul (a + of_nat i) (affine_inv (t ! i)) = 1"
proof (induction t arbitrary: a i)
  case (Cons s t)
  show ?case
  proof (cases i)
    case 0
    then show ?thesis using Cons.prems by simp
  next
    case (Suc j)
    have "a + 1 + of_nat j = 0 \<and> t ! j = 0x63 \<or> gf_mul (a + 1 + of_nat j) (affine_inv (t ! j)) = 1"
      using Cons.prems Suc by (intro Cons.IH) auto
    then show ?thesis by (simp add: Suc ac_simps)
  qed
qed simp

lemma length_sbox_table [simp]: "length sbox_table = 256"
  by (simp add: sbox_table_def)

text \<open>The S-box: a byte is sent to the affine image of its inverse, zero to 63.\<close>

lemma sbox_inverse: "a = 0 \<and> sbox a = 0x63 \<or> gf_mul a (affine_inv (sbox a)) = 1"
proof -
  have "unat a < 256" using unsigned_less [of a] by simp
  then show ?thesis using sbox_from_nth [OF sbox_table_from, of "unat a"] by (simp add: sbox_def)
qed

section \<open>AES-128 as in FIPS 197\<close>

text \<open>
  Over any S-box with that property. The state is sixteen bytes, column by column; byte \<open>i\<close> is
  in row \<open>i mod 4\<close> and column \<open>i div 4\<close>.
\<close>

definition sub_bytes :: "(u8 \<Rightarrow> u8) \<Rightarrow> u8 list \<Rightarrow> u8 list" where
  "sub_bytes S s = map S s"

definition shift_rows :: "u8 list \<Rightarrow> u8 list" where
  "shift_rows s = map (\<lambda>i. s ! (4 * ((i div 4 + i mod 4) mod 4) + i mod 4)) [0..<16]"

definition mix_columns :: "u8 list \<Rightarrow> u8 list" where
  "mix_columns s = map (\<lambda>i.
     let c = 4 * (i div 4); r = i mod 4
     in gf_mul (s ! (c + r)) 2 XOR gf_mul (s ! (c + (r + 1) mod 4)) 3 XOR
        s ! (c + (r + 2) mod 4) XOR s ! (c + (r + 3) mod 4)) [0..<16]"

text \<open>The words of the key schedule.\<close>

fun key_word :: "(u8 \<Rightarrow> u8) \<Rightarrow> u8 list \<Rightarrow> nat \<Rightarrow> u8 list" where
  "key_word S key i =
     (if i < 4 then take 4 (drop (4 * i) key)
      else
        let t = key_word S key (i - 1);
            t' = (if i mod 4 = 0
                  then xor_bytes (map S (rotate1 t)) [(xtime ^^ (i div 4 - 1)) 1, 0, 0, 0]
                  else t)
        in xor_bytes (key_word S key (i - 4)) t')"

declare key_word.simps [simp del]

definition round_key :: "(u8 \<Rightarrow> u8) \<Rightarrow> u8 list \<Rightarrow> nat \<Rightarrow> u8 list" where
  "round_key S key r = concat (map (key_word S key) [4 * r..<4 * r + 4])"

fun cipher_rounds :: "(u8 \<Rightarrow> u8) \<Rightarrow> u8 list \<Rightarrow> u8 list \<Rightarrow> nat \<Rightarrow> u8 list" where
  "cipher_rounds S key data 0 = xor_bytes data (round_key S key 0)"
| "cipher_rounds S key data (Suc r) =
     xor_bytes (mix_columns (shift_rows (sub_bytes S (cipher_rounds S key data r))))
       (round_key S key (Suc r))"

definition fips_aes :: "(u8 \<Rightarrow> u8) \<Rightarrow> u8 list \<Rightarrow> u8 list \<Rightarrow> u8 list" where
  "fips_aes S key data =
     xor_bytes (shift_rows (sub_bytes S (cipher_rounds S key data 9))) (round_key S key 10)"

section \<open>The code computes it\<close>

lemma list16:
  assumes "length xs = 16"
  obtains a b c d e f g h i j k l m n q p where "xs = [a, b, c, d, e, f, g, h, i, j, k, l, m, n, q, p]"
  using assms by (auto simp: numeral_eq_Suc length_Suc_conv)

lemma list4:
  assumes "length xs = 4"
  obtains a b c d where "xs = [a, b, c, d]"
  using assms by (auto simp: numeral_eq_Suc length_Suc_conv)

lemma upt16: "[0..<16] = [0, 1, 2, 3, 4, 5, 6, 7, 8, 9, 10, 11, 12, 13, 14, 15 :: nat]"
  by (simp add: upt_rec)

lemma upt4: "[0..<4] = [0, 1, 2, 3 :: nat]"
  by (simp add: upt_rec)

lemma xor_128_bytes: "length a = 16 \<Longrightarrow> length b = 16 \<Longrightarrow> xor_128 a b = xor_bytes a b"
  by (rule nth_equalityI) (simp_all add: xor_128_def)

lemma xor_32_bytes: "length a = 4 \<Longrightarrow> length b = 4 \<Longrightarrow> xor_32 a b = xor_bytes a b"
  by (rule nth_equalityI) (simp_all add: xor_32_def)

lemma byte_sub_sub_bytes: "length s = 16 \<Longrightarrow> byte_sub s = sub_bytes sbox s"
  by (rule nth_equalityI) (simp_all add: byte_sub_def sub_bytes_def)

lemma shift_row_shift_rows: "shift_row s = shift_rows s"
  by (simp add: shift_row_def shift_rows_def upt16)
    (simp add: numeral_2_eq_2 numeral_3_eq_3)

lemma bit_80: "a AND 0x80 = (0x80 :: u8) \<longleftrightarrow> bit a 7"
proof -
  have e: "(0x80 :: u8) = 2 ^ 7" by simp
  have b: "bit (0x80 :: u8) n \<longleftrightarrow> n = 7" for n
    unfolding e bit_exp_iff possible_bit_word by (cases "n = 7") simp_all
  have "a AND 0x80 = 0x80 \<longleftrightarrow> (\<forall>n. bit (a AND 0x80) n = bit (0x80 :: u8) n)"
    by (metis bit_eqI)
  also have "\<dots> \<longleftrightarrow> bit a 7" by (auto simp only: bit_and_iff b)
  finally show ?thesis .
qed

lemma shift_7f: "2 * (a AND 0x7f) = 2 * (a :: u8)" "2 * a AND 0xfe = 2 * (a :: u8)"
proof -
  have m: "(0xfe :: u8) = push_bit 1 (mask 7)" "(0x7f :: u8) = mask 7" by (simp_all add: mask_numeral)
  have d: "2 * a = push_bit 1 a" for a :: u8 by simp
  show "2 * (a AND 0x7f) = 2 * (a :: u8)" "2 * a AND 0xfe = 2 * (a :: u8)"
    unfolding m d
    by (rule bit_word_eqI; auto simp add: bit_simps simp del: push_bit_Suc push_bit_of_Suc_0 One_nat_def)+
qed

lemma no_carry: "\<not> bit (a AND 0x7f :: u8) 7"
proof -
  have "(0x7f :: u8) = mask 7" by (simp add: mask_numeral)
  then show ?thesis by (simp add: bit_and_iff bit_mask_iff)
qed

lemma gf_mul_small: "gf_mul a 1 = a" "gf_mul a 2 = xtime a" "gf_mul a 3 = a XOR xtime a"
  by (simp_all add: gf_mul_unroll Let_def)

lemma mix_column_gf:
  assumes "s = [a, b, c, d]"
  shows "mix_column s =
    [xtime a XOR (b XOR xtime b) XOR c XOR d, xtime b XOR (c XOR xtime c) XOR d XOR a,
     xtime c XOR (d XOR xtime d) XOR a XOR b, xtime d XOR (a XOR xtime a) XOR b XOR c]"
  unfolding assms mix_column_def xor_32_def upt4
  by (simp add: Let_def no_carry bit_80 xtime_def shift_7f mult.commute [of _ 2] split del: if_split)
    (simp add: ac_simps)

lemma mix_columns_code:
  assumes "length s = 16"
  shows "mix_column (take 4 s) @ mix_column (take 4 (drop 4 s)) @ mix_column (take 4 (drop 8 s)) @
      mix_column (take 4 (drop 12 s)) = mix_columns s"
proof -
  from assms obtain a b c d e f g h i j k l m n q p
    where s: "s = [a, b, c, d, e, f, g, h, i, j, k, l, m, n, q, p]" by (rule list16)
  show ?thesis
    unfolding s mix_columns_def upt16
    by (simp add: mix_column_gf [OF refl] gf_mul_small Let_def ac_simps)
qed

text \<open>The schedule: four words at a time from the four before.\<close>

lemma length_key_word:
  assumes "length key = 16"
  shows "length (key_word S key i) = 4"
proof (induction i rule: less_induct)
  case (less i)
  show ?case
  proof (cases "i < 4")
    case True
    then show ?thesis using assms by (simp add: key_word.simps)
  next
    case False
    then have "length (key_word S key (i - 1)) = 4" "length (key_word S key (i - 4)) = 4"
      using less by simp_all
    then show ?thesis using False by (subst key_word.simps) (simp add: Let_def)
  qed
qed

lemma round_key_words:
  "round_key S key r = key_word S key (4 * r) @ key_word S key (4 * r + 1) @
     key_word S key (4 * r + 2) @ key_word S key (4 * r + 3)"
proof -
  have "[4 * r..<4 * r + 4] = [4 * r, 4 * r + 1, 4 * r + 2, 4 * r + 3]"
    by (simp add: upt_rec)
  then show ?thesis by (simp add: round_key_def)
qed

lemma length_round_key: "length key = 16 \<Longrightarrow> length (round_key S key r) = 16"
  by (simp add: round_key_words length_key_word)

lemma round_key_0: "length key = 16 \<Longrightarrow> round_key S key 0 = key"
  by (erule list16) (simp add: round_key_words key_word.simps)

lemma key_word_step:
  "key_word S key (4 * r + 4) = xor_bytes (key_word S key (4 * r))
     (xor_bytes (map S (rotate1 (key_word S key (4 * r + 3)))) [(xtime ^^ r) 1, 0, 0, 0])"
  "key_word S key (4 * r + 5) = xor_bytes (key_word S key (4 * r + 1)) (key_word S key (4 * r + 4))"
  "key_word S key (4 * r + 6) = xor_bytes (key_word S key (4 * r + 2)) (key_word S key (4 * r + 5))"
  "key_word S key (4 * r + 7) = xor_bytes (key_word S key (4 * r + 3)) (key_word S key (4 * r + 6))"
proof -
  have m: "(4 * r + 4) mod 4 = 0" "(4 * r + 5) mod 4 \<noteq> 0" "(4 * r + 6) mod 4 \<noteq> 0" "(4 * r + 7) mod 4 \<noteq> 0"
    by presburger+
  have d: "(4 * r + 4) div 4 - 1 = r" by simp
  have i: "4 * r + 4 - 1 = 4 * r + 3" "4 * r + 5 - 1 = 4 * r + 4" "4 * r + 6 - 1 = 4 * r + 5"
    "4 * r + 7 - 1 = 4 * r + 6" "4 * r + 4 - 4 = 4 * r" "4 * r + 5 - 4 = 4 * r + 1"
    "4 * r + 6 - 4 = 4 * r + 2" "4 * r + 7 - 4 = 4 * r + 3" by simp_all
  show "key_word S key (4 * r + 4) = xor_bytes (key_word S key (4 * r))
     (xor_bytes (map S (rotate1 (key_word S key (4 * r + 3)))) [(xtime ^^ r) 1, 0, 0, 0])"
    by (subst key_word.simps) (simp only: Let_def i m d simp_thms if_True if_False, simp)
  show "key_word S key (4 * r + 5) = xor_bytes (key_word S key (4 * r + 1)) (key_word S key (4 * r + 4))"
    by (subst key_word.simps) (simp only: Let_def i m simp_thms if_False, simp)
  show "key_word S key (4 * r + 6) = xor_bytes (key_word S key (4 * r + 2)) (key_word S key (4 * r + 5))"
    by (subst key_word.simps) (simp only: Let_def i m simp_thms if_False, simp)
  show "key_word S key (4 * r + 7) = xor_bytes (key_word S key (4 * r + 3)) (key_word S key (4 * r + 6))"
    by (subst key_word.simps) (simp only: Let_def i m simp_thms if_False, simp)
qed

lemma funpow_numeral: "(f ^^ numeral k) x = f ((f ^^ pred_numeral k) x)"
  by (simp add: numeral_eq_Suc)

lemma rcon_xtime: "r < 10 \<Longrightarrow> rcon_table ! r = (xtime ^^ r) 1"
proof -
  have "map (\<lambda>r. rcon_table ! r) [0..<10] = map (\<lambda>r. (xtime ^^ r) 1) [0..<10]"
    by (simp add: rcon_table_def upt_rec funpow_numeral xtime_def)
  then show "r < 10 \<Longrightarrow> ?thesis" by (auto dest!: arg_cong [of _ _ "\<lambda>xs. xs ! r"])
qed

lemma next_key_words:
  assumes "length a = 4" "length b = 4" "length c = 4" "length d = 4"
  shows "next_key (a @ b @ c @ d) r =
    (let a' = xor_bytes a (xor_bytes (map sbox (rotate1 d)) [rcon_table ! r, 0, 0, 0]);
         b' = xor_bytes b a'; c' = xor_bytes c b'
     in a' @ b' @ c' @ xor_bytes d c')"
proof -
  from assms obtain a0 a1 a2 a3 b0 b1 b2 b3 c0 c1 c2 c3 d0 d1 d2 d3 where
    "a = [a0, a1, a2, a3]" "b = [b0, b1, b2, b3]" "c = [c0, c1, c2, c3]" "d = [d0, d1, d2, d3]"
    by (metis list4)
  then show ?thesis by (simp add: next_key_def xor_32_def upt4 Let_def xor.assoc)
qed

lemma next_key_round_key:
  assumes "length key = 16" "r < 10"
  shows "next_key (round_key sbox key r) r = round_key sbox key (Suc r)"
proof -
  have i: "4 * Suc r = 4 * r + 4" "4 * r + 4 + 1 = 4 * r + 5" "4 * r + 4 + 2 = 4 * r + 6"
    "4 * r + 4 + 3 = 4 * r + 7" by simp_all
  show ?thesis
    unfolding round_key_words next_key_words [OF length_key_word length_key_word length_key_word
        length_key_word, OF assms(1) assms(1) assms(1) assms(1)] i
    by (simp add: Let_def key_word_step rcon_xtime [OF assms(2)])
qed

lemma length_cipher_rounds: "length key = 16 \<Longrightarrow> length data = 16 \<Longrightarrow> length (cipher_rounds S key data r) = 16"
  by (cases r) (simp_all add: length_round_key mix_columns_def)

lemma aes_rounds:
  assumes "length key = 16" "length data = 16" "r < 10"
  shows "fold (aes_round data) [0..<Suc r] (key, c0) =
    (round_key sbox key (Suc r), cipher_rounds sbox key data r)"
  using assms(3)
proof (induction r)
  case 0
  then show ?case
    using assms round_key_0 [OF assms(1), of sbox] next_key_round_key [OF assms(1), of 0]
    by (simp add: aes_round_def xor_128_bytes xor_bytes_commute)
next
  case (Suc r)
  let ?c = "cipher_rounds sbox key data r"
  have len: "length ?c = 16" "length (sub_bytes sbox ?c) = 16"
    using length_cipher_rounds [OF assms(1,2)] by (simp_all add: sub_bytes_def)
  have "length (shift_rows (sub_bytes sbox ?c)) = 16" by (simp add: shift_rows_def)
  note mix = mix_columns_code [OF this]
  have "length (mix_columns (shift_rows (sub_bytes sbox ?c))) = 16" by (simp add: mix_columns_def)
  moreover have "Suc r \<noteq> 10" "Suc r < 10" using Suc.prems by simp_all
  ultimately have "aes_round data (Suc r) (round_key sbox key (Suc r), ?c) =
      (round_key sbox key (Suc (Suc r)), cipher_rounds sbox key data (Suc r))"
    by (simp add: aes_round_def Let_def byte_sub_sub_bytes [OF len(1)] shift_row_shift_rows mix
        next_key_round_key [OF assms(1)] xor_128_bytes length_round_key [OF assms(1)])
  moreover have "[0..<Suc (Suc r)] = [0..<Suc r] @ [Suc r]" by simp
  ultimately show ?case using Suc by (simp del: upt_Suc)
qed

lemma aes128k128d_fips:
  assumes "length key = 16" "length data = 16"
  shows "aes128k128d key data = fips_aes sbox key data"
proof -
  let ?c = "cipher_rounds sbox key data 9"
  have len: "length ?c = 16" using length_cipher_rounds [OF assms] .
  have "[0..<11] = [0..<Suc 9] @ [10]" by (simp add: upt_rec)
  then have "aes128k128d key data = snd (aes_round data 10 (fold (aes_round data) [0..<Suc 9] (key, [])))"
    using assms by (simp add: aes128k128d_def)
  also have "fold (aes_round data) [0..<Suc 9] (key, []) = (round_key sbox key 10, ?c)"
    using aes_rounds [OF assms, of 9] by simp
  also have "snd (aes_round data 10 (round_key sbox key 10, ?c)) = fips_aes sbox key data"
    by (simp add: aes_round_def fips_aes_def byte_sub_sub_bytes [OF len] shift_row_shift_rows
        xor_128_bytes length_round_key [OF assms(1)] shift_rows_def)
  finally show ?thesis .
qed

lemma length_aes128k128d: "length key = 16 \<Longrightarrow> length data = 16 \<Longrightarrow> length (aes128k128d key data) = 16"
  by (simp add: aes128k128d_fips fips_aes_def length_round_key shift_rows_def)

section \<open>The interface of a block cipher\<close>

text \<open>What the modes of operation need of the cipher: sixteen bytes in, sixteen bytes out.\<close>

locale block_cipher =
  fixes blk :: "u8 list \<Rightarrow> u8 list \<Rightarrow> u8 list"
  assumes length_blk: "length key = 16 \<Longrightarrow> length b = 16 \<Longrightarrow> length (blk key b) = 16"
begin

text \<open>CBC-MAC over whole blocks.\<close>

definition cbc :: "u8 list \<Rightarrow> u8 list \<Rightarrow> u8 list list \<Rightarrow> u8 list" where
  "cbc key c0 blocks = foldl (\<lambda>c b. blk key (xor_bytes c b)) c0 blocks"

lemma length_cbc:
  "length key = 16 \<Longrightarrow> length c = 16 \<Longrightarrow> (\<And>b. b \<in> set bs \<Longrightarrow> length b = 16) \<Longrightarrow> length (cbc key c bs) = 16"
  unfolding cbc_def by (induction bs arbitrary: c) (simp_all add: length_blk)

lemma cbc_append: "cbc key c (xs @ ys) = cbc key (cbc key c xs) ys"
  by (simp add: cbc_def)

end

interpretation aes: block_cipher aes128k128d
  by unfold_locales (rule length_aes128k128d)

section \<open>Properties\<close>

text \<open>
  C27: \<^verbatim>\<open>aes128k128d\<close> is AES-128. With its word-parallel column mixing and its round keys
  computed along the way it computes the cipher of FIPS 197: the rounds over GF(256) with the
  expanded key schedule, and its table is the S-box of the standard (the affine image of the
  inverse).
\<close>

theorem aes128k128d_is_aes:
  assumes "length key = 16" and "length data = 16"
  shows "aes128k128d key data = fips_aes sbox key data \<and>
    (a = 0 \<and> sbox a = 0x63 \<or> gf_mul a (affine_inv (sbox a)) = 1)"
  using aes128k128d_fips [OF assms] sbox_inverse by blast

theorem aes128k128d_is_aes_witness:
  "aes128k128d (replicate 16 1) (replicate 16 2) = fips_aes sbox (replicate 16 1) (replicate 16 2)"
  using aes128k128d_is_aes [of "replicate 16 1" "replicate 16 2"] by simp

end
