(* ===== verification/Ccmp.thy ===== *)
theory Ccmp
  imports Rc4 Frames Sta_Table Aes_Core
begin

text \<open>
  CCMP: \<^verbatim>\<open>aes_cipher\<close>, \<^verbatim>\<open>aes_decipher\<close>, \<^verbatim>\<open>rtw_aes_encrypt\<close> and
  \<^verbatim>\<open>rtw_aes_decrypt\<close> of \<^verbatim>\<open>core/rtw_security.c\<close>. The cipher works on the frame in place;
  a frame is given as the bytes from \<^verbatim>\<open>pframe\<close> to the end of its buffer. An access
  outside the buffer, or outside the static \<^verbatim>\<open>message\<close> of the receiver, is \<open>None\<close>.
\<close>

section \<open>The blocks of CCM\<close>

definition MAX_MSG_SIZE :: nat where "MAX_MSG_SIZE = 2048"

abbreviation (input) "WLAN_HDR_A3_LEN \<equiv> 24 :: nat"
abbreviation (input) "WLAN_HDR_A3_QOS_LEN \<equiv> 26 :: nat"
abbreviation (input) "WIFI_DATA \<equiv> 0x08 :: nat"
abbreviation (input) "WIFI_DATA_CFACK \<equiv> 0x18 :: nat"
abbreviation (input) "WIFI_DATA_CFPOLL \<equiv> 0x28 :: nat"
abbreviation (input) "WIFI_DATA_CFACKPOLL \<equiv> 0x38 :: nat"

definition GetFrameType :: "u8 list \<Rightarrow> nat" where
  "GetFrameType pframe = unat (pframe ! 0 AND 0x0c)"

definition GetFrameSubType :: "u8 list \<Rightarrow> nat" where
  "GetFrameSubType pframe = unat (pframe ! 0 AND 0xfc)"

text \<open>Whether the frame has a QoS field, and the header length the code goes on with.\<close>

definition qc_hdrlen :: "nat \<Rightarrow> u8 list \<Rightarrow> bool \<times> nat" where
  "qc_hdrlen hlen pframe =
     (let frtype = GetFrameType pframe; frsubtype = GetFrameSubType pframe div 16;
          hl = (if hlen \<noteq> WLAN_HDR_A3_QOS_LEN then hlen + 2 else hlen)
      in if or frtype frsubtype = WIFI_DATA_CFACK \<or> or frtype frsubtype = WIFI_DATA_CFPOLL \<or>
            or frtype frsubtype = WIFI_DATA_CFACKPOLL
         then (True, hl)
         else if frtype = WIFI_DATA \<and>
            (frsubtype = 0x08 \<or> frsubtype = 0x09 \<or> frsubtype = 0x0a \<or> frsubtype = 0x0b)
         then (True, hl)
         else (False, hlen))"

definition get_pn :: "nat \<Rightarrow> u8 list \<Rightarrow> u8 list" where
  "get_pn hlen p = [p ! hlen, p ! (hlen + 1), p ! (hlen + 4), p ! (hlen + 5),
     p ! (hlen + 6), p ! (hlen + 7)]"

definition construct_mic_iv :: "bool \<Rightarrow> bool \<Rightarrow> u8 list \<Rightarrow> nat \<Rightarrow> u8 list \<Rightarrow> u8 list" where
  "construct_mic_iv qc_exists a4_exists mpdu payload_length pn_vector =
     [0x59, if \<not> qc_exists then 0 else if a4_exists then mpdu ! 30 AND 0x0f else mpdu ! 24 AND 0x0f] @
     map (\<lambda>i. mpdu ! (i + 8)) [2..<8] @ map (\<lambda>i. pn_vector ! (13 - i)) [8..<14] @
     [of_nat (payload_length div 256), of_nat (payload_length mod 256)]"

definition construct_mic_header1 :: "nat \<Rightarrow> u8 list \<Rightarrow> u8 list" where
  "construct_mic_header1 header_length mpdu =
     [of_nat ((header_length - 2) div 256), of_nat ((header_length - 2) mod 256),
      mpdu ! 0 AND 0xcf, mpdu ! 1 AND 0xc7] @ map (\<lambda>i. mpdu ! i) [4..<16]"

definition construct_mic_header2 :: "u8 list \<Rightarrow> bool \<Rightarrow> bool \<Rightarrow> u8 list" where
  "construct_mic_header2 mpdu a4_exists qc_exists =
     map (\<lambda>i. mpdu ! i) [16..<22] @ [0, 0] @
     (if a4_exists
      then map (\<lambda>i. mpdu ! (24 + i)) [0..<6] @
           (if qc_exists then [mpdu ! 30 AND 0x0f, mpdu ! 31 AND 0x00] else [0, 0])
      else (if qc_exists then [mpdu ! 24 AND 0x0f, mpdu ! 25 AND 0x00] else [0, 0]) @
           [0, 0, 0, 0, 0, 0])"

definition construct_ctr_preload :: "bool \<Rightarrow> bool \<Rightarrow> u8 list \<Rightarrow> u8 list \<Rightarrow> nat \<Rightarrow> u8 list" where
  "construct_ctr_preload a4_exists qc_exists mpdu pn_vector c =
     [0x01, if \<not> qc_exists then 0 else if a4_exists then mpdu ! 30 AND 0x0f else mpdu ! 24 AND 0x0f] @
     map (\<lambda>i. mpdu ! (i + 8)) [2..<8] @ map (\<lambda>i. pn_vector ! (13 - i)) [8..<14] @
     [of_nat (c div 256), of_nat (c mod 256)]"

definition bitwise_xor :: "u8 list \<Rightarrow> u8 list \<Rightarrow> u8 list" where
  "bitwise_xor ina inb = map (\<lambda>i. ina ! i XOR inb ! i) [0..<16]"

section \<open>The loops\<close>

text \<open>The bytes of \<open>p\<close> from \<open>idx\<close> on, overwritten by \<open>ys\<close>.\<close>

definition put :: "nat \<Rightarrow> u8 list \<Rightarrow> u8 list \<Rightarrow> u8 list" where
  "put idx ys p = take idx p @ ys @ drop (idx + length ys) p"

definition padded :: "u8 list \<Rightarrow> u8 list" where
  "padded xs = xs @ replicate (16 - length xs) 0"

fun mic_blocks :: "u8 list \<Rightarrow> u8 list \<Rightarrow> nat \<Rightarrow> nat \<Rightarrow> u8 list \<Rightarrow> u8 list" where
  "mic_blocks key p 0 idx aes_out = aes_out"
| "mic_blocks key p (Suc n) idx aes_out =
     mic_blocks key p n (idx + 16) (aes128k128d key (bitwise_xor aes_out (take 16 (drop idx p))))"

text \<open>The integrity value of the \<open>plen\<close> bytes after header and IV.\<close>

definition calc_mic :: "u8 list \<Rightarrow> bool \<Rightarrow> bool \<Rightarrow> nat \<Rightarrow> u8 list \<Rightarrow> nat \<Rightarrow> u8 list" where
  "calc_mic key qc a4 hlen p plen =
     (let mic_iv = construct_mic_iv qc a4 p plen (get_pn hlen p);
          mic_header1 = construct_mic_header1 hlen p;
          mic_header2 = construct_mic_header2 p a4 qc;
          payload_remainder = plen mod 16; num_blocks = plen div 16;
          aes_out = aes128k128d key mic_iv;
          aes_out = aes128k128d key (bitwise_xor aes_out mic_header1);
          aes_out = aes128k128d key (bitwise_xor aes_out mic_header2);
          aes_out = mic_blocks key p num_blocks (hlen + 8) aes_out;
          rest = take payload_remainder (drop (hlen + 8 + 16 * num_blocks) p);
          aes_out = (if 0 < payload_remainder
                     then aes128k128d key (bitwise_xor aes_out (padded rest)) else aes_out)
      in take 8 aes_out)"

fun ctr_blocks :: "u8 list \<Rightarrow> bool \<Rightarrow> bool \<Rightarrow> u8 list \<Rightarrow> nat \<Rightarrow> nat \<Rightarrow> nat \<Rightarrow> u8 list \<Rightarrow> u8 list" where
  "ctr_blocks key qc a4 pn 0 i idx p = p"
| "ctr_blocks key qc a4 pn (Suc n) i idx p =
     (let aes_out = aes128k128d key (construct_ctr_preload a4 qc p pn (i + 1))
      in ctr_blocks key qc a4 pn n (i + 1) (idx + 16)
           (put idx (bitwise_xor aes_out (take 16 (drop idx p))) p))"

text \<open>Counter mode over \<open>plen\<close> bytes from \<open>idx\<close>, in place.\<close>

definition ctr_payload :: "u8 list \<Rightarrow> bool \<Rightarrow> bool \<Rightarrow> u8 list \<Rightarrow> nat \<Rightarrow> nat \<Rightarrow> u8 list \<Rightarrow> u8 list" where
  "ctr_payload key qc a4 pn plen idx p =
     (let payload_remainder = plen mod 16; num_blocks = plen div 16;
          p1 = ctr_blocks key qc a4 pn num_blocks 0 idx p; idx1 = idx + 16 * num_blocks
      in if 0 < payload_remainder
         then let aes_out = aes128k128d key (construct_ctr_preload a4 qc p1 pn (num_blocks + 1));
                  chain = bitwise_xor aes_out (padded (take payload_remainder (drop idx1 p1)))
              in put idx1 (take payload_remainder chain) p1
         else p1)"

text \<open>Encrypting the eight bytes at \<open>idx\<close> with counter zero.\<close>

definition ctr_mic :: "u8 list \<Rightarrow> bool \<Rightarrow> bool \<Rightarrow> u8 list \<Rightarrow> nat \<Rightarrow> u8 list \<Rightarrow> u8 list" where
  "ctr_mic key qc a4 pn idx p =
     (let aes_out = aes128k128d key (construct_ctr_preload a4 qc p pn 0);
          chain = bitwise_xor aes_out (padded (take 8 (drop idx p)))
      in put idx (take 8 chain) p)"

section \<open>The two ciphers\<close>

text \<open>\<open>plen\<close> is unsigned in the code, so a negative length is one beyond every buffer.\<close>

definition aes_cipher :: "u8 list \<Rightarrow> nat \<Rightarrow> u8 list \<Rightarrow> int \<Rightarrow> u8 list option" where
  "aes_cipher key hlen0 pframe plen0 =
     (let a4_exists = (\<not> (hlen0 = WLAN_HDR_A3_LEN \<or> hlen0 = WLAN_HDR_A3_QOS_LEN));
          (qc_exists, hlen) = qc_hdrlen hlen0 pframe;
          plen = nat plen0
      in if plen0 < 0 \<or> length pframe < hlen + 8 + plen + 8 then None
         else
           let pn_vector = get_pn hlen pframe;
               mic = calc_mic key qc_exists a4_exists hlen pframe plen;
               p1 = put (hlen + 8 + plen) mic pframe;
               p2 = ctr_payload key qc_exists a4_exists pn_vector plen (hlen + 8) p1
           in Some (ctr_mic key qc_exists a4_exists pn_vector (hlen + 8 + plen) p2))"

text \<open>
  The receiver takes the packet number at the header length it was given, before the QoS
  adjustment. It decrypts the payload, copies the frame, encrypts the copy again and compares the
  two integrity values.
\<close>

definition aes_decipher :: "u8 list \<Rightarrow> nat \<Rightarrow> u8 list \<Rightarrow> int \<Rightarrow> (status \<times> u8 list) option" where
  "aes_decipher key hlen0 pframe plen0 =
     (let a4_exists = (\<not> (hlen0 = WLAN_HDR_A3_LEN \<or> hlen0 = WLAN_HDR_A3_QOS_LEN));
          (qc_exists, hlen) = qc_hdrlen hlen0 pframe;
          plen = nat plen0
      in if plen0 < 8 \<or> length pframe < hlen + 8 + plen \<or> MAX_MSG_SIZE < hlen + plen + 8 then None
         else
           let pframe' = ctr_payload key qc_exists a4_exists (get_pn hlen0 pframe) (plen - 8)
                           (hlen + 8) pframe;
               message = take (hlen + plen + 8) pframe';
               pn_vector = get_pn hlen pframe';
               mic = calc_mic key qc_exists a4_exists hlen message (plen - 8);
               m1 = put (hlen + 8 + (plen - 8)) mic message;
               m2 = ctr_payload key qc_exists a4_exists pn_vector (plen - 8) (hlen + 8) m1;
               m3 = ctr_mic key qc_exists a4_exists pn_vector (hlen + 8 + (plen - 8)) m2
           in Some (if take 8 (drop (hlen + 8 + (plen - 8)) pframe') =
                       take 8 (drop (hlen + 8 + (plen - 8)) m3) then SUCCESS else FAIL, pframe'))"

section \<open>Frames\<close>

definition aes_tx_key :: "security_priv \<Rightarrow> sta_info \<Rightarrow> pkt_attrib \<Rightarrow> u8 list option" where
  "aes_tx_key sp psta a =
     (if IS_MCAST (tx_ra a)
      then do { k \<leftarrow> byte_at (dot118021XGrpKeyid sp) (dot118021XGrpKey sp); read_at 0 16 k }
      else read_at 0 16 (dot118021x_UncstKey psta))"

definition aes_encrypt_frag :: "u8 list \<Rightarrow> pkt_attrib \<Rightarrow> nat \<Rightarrow> int \<Rightarrow> u8 list \<Rightarrow> u8 list option" where
  "aes_encrypt_frag prwskey a pf l buf = do {
     p \<leftarrow> (if pf < length buf then Some (drop pf buf) else None);
     p' \<leftarrow> aes_cipher prwskey (hdrlen a) p l;
     Some (take pf buf @ p')
   }"

definition rtw_aes_encrypt ::
  "sta_priv \<Rightarrow> security_priv \<Rightarrow> nat \<Rightarrow> xmit_frame \<Rightarrow> (status \<times> xmit_frame) option" where
  "rtw_aes_encrypt s sp frag_len xf =
     (case buf_addr xf of
        None \<Rightarrow> Some (FAIL, xf)
      | Some (A, buf) \<Rightarrow>
          let a = attrib xf in
          if encrypt a = AES
          then (case (case tx_psta a of None \<Rightarrow> rtw_get_stainfo s (Some (tx_ra a)) | Some i \<Rightarrow> Some i) of
                  None \<Rightarrow> Some (FAIL, xf)
                | Some i \<Rightarrow>
                    let stainfo = stainfo_buf s ! i in
                    if sta_state stainfo AND FW_LINKED = 0 then Some (FAIL, xf)
                    else do {
                      prwskey \<leftarrow> aes_tx_key sp stainfo a;
                      buf' \<leftarrow> frag_loop (aes_encrypt_frag prwskey a) a frag_len A (nr_frags a)
                               (pframe_start xf) buf;
                      Some (SUCCESS, xf\<lparr>buf_addr := Some (A, buf')\<rparr>)
                    })
          else Some (SUCCESS, xf))"

text \<open>
  A group frame is refused before the group key is installed, and when its key index is not that
  of the installed key.
\<close>

definition rtw_aes_decrypt ::
  "sta_priv \<Rightarrow> security_priv \<Rightarrow> recv_frame \<Rightarrow> (status \<times> recv_frame) option" where
  "rtw_aes_decrypt s sp rf =
     (let a = rx_attr rf in
      if rx_encrypt a = AES
      then (case rtw_get_stainfo s (Some (rx_ta a)) of
              None \<Rightarrow> Some (FAIL, rf)
            | Some i \<Rightarrow>
                let l = int (rx_len rf) - int (rx_hdrlen a) - int (rx_iv_len a);
                    go = (\<lambda>prwskey. do {
                       (st, p) \<leftarrow> aes_decipher prwskey (rx_hdrlen a) (rx_data rf) l;
                       Some (st, rf\<lparr>rx_data := p\<rparr>) })
                in if IS_MCAST (rx_ra a)
                   then if \<not> binstallGrpkey sp then Some (FAIL, rf)
                        else if dot118021XGrpKeyid sp \<noteq> rx_key_index a then Some (FAIL, rf)
                        else do {
                          k \<leftarrow> byte_at (rx_key_index a) (dot118021XGrpKey sp);
                          prwskey \<leftarrow> read_at 0 16 k;
                          go prwskey }
                   else do {
                     prwskey \<leftarrow> read_at 0 16 (dot118021x_UncstKey (stainfo_buf s ! i));
                     go prwskey })
      else Some (SUCCESS, rf))"

section \<open>Overwriting a part of the frame\<close>

lemma length_put [simp]: "idx + length ys \<le> length p \<Longrightarrow> length (put idx ys p) = length p"
  by (simp add: put_def)

lemma take_put: "n \<le> idx \<Longrightarrow> idx \<le> length p \<Longrightarrow> take n (put idx ys p) = take n p"
  by (simp add: put_def)

lemma drop_put: "idx \<le> length p \<Longrightarrow> idx + length ys \<le> n \<Longrightarrow> drop n (put idx ys p) = drop n p"
  by (simp add: put_def)

lemma drop_put_same: "idx \<le> length p \<Longrightarrow> drop idx (put idx ys p) = ys @ drop (idx + length ys) p"
  by (simp add: put_def)

lemma put_put:
  "idx \<le> length p \<Longrightarrow> j = idx + length ys \<Longrightarrow> put j zs (put idx ys p) = put idx (ys @ zs) p"
  by (simp add: put_def ac_simps)

lemma put_Nil [simp]: "put idx [] p = p"
  by (simp add: put_def)

section \<open>CCM as a sealed payload\<close>

text \<open>
  The parameters of a frame: key, the two flags, the header length, and header and extended IV.
\<close>

type_synonym ccm_ctx = "u8 list \<times> bool \<times> bool \<times> nat \<times> u8 list"

definition fit :: "nat \<Rightarrow> u8 list \<Rightarrow> u8 list" where
  "fit n xs = take n (xs @ replicate n 0)"

lemma length_fit [simp]: "length (fit n xs) = n"
  by (simp add: fit_def)

lemma fit_take: "n \<le> length xs \<Longrightarrow> fit n xs = take n xs"
  by (simp add: fit_def)

fun blocks16 :: "u8 list \<Rightarrow> u8 list list" where
  "blocks16 xs = (if xs = [] then [] else padded (take 16 xs) # blocks16 (drop 16 xs))"

declare blocks16.simps [simp del]

definition ccm_ctr :: "ccm_ctx \<Rightarrow> nat \<Rightarrow> u8 list" where
  "ccm_ctr = (\<lambda>(key, qc, a4, hl, hdr) c.
     aes128k128d key (construct_ctr_preload a4 qc hdr (get_pn hl hdr) c))"

definition ccm_stream :: "ccm_ctx \<Rightarrow> nat \<Rightarrow> u8 list" where
  "ccm_stream ctx n = fit n (concat (map (\<lambda>i. ccm_ctr ctx (i + 1)) [0..<n div 16 + 1]))"

definition ccm_ks :: "ccm_ctx \<Rightarrow> nat \<Rightarrow> u8 list" where
  "ccm_ks ctx n = (if n < 8 then replicate n 0 else ccm_stream ctx (n - 8) @ fit 8 (ccm_ctr ctx 0))"

definition ccm_mic :: "ccm_ctx \<Rightarrow> u8 list \<Rightarrow> u8 list" where
  "ccm_mic = (\<lambda>(key, qc, a4, hl, hdr) p. fit 8
     (aes.cbc key (aes128k128d key (construct_mic_iv qc a4 hdr (length p) (get_pn hl hdr)))
       ([construct_mic_header1 hl hdr, construct_mic_header2 hdr a4 qc] @ blocks16 p)))"

interpretation ccm: sealed_payload ccm_ks ccm_mic 8
  by unfold_locales (auto simp: ccm_ks_def ccm_stream_def ccm_mic_def)

lemma ccm_seal_parts: "ccm.seal ctx p = xor_bytes p (ccm_stream ctx (length p)) @
    xor_bytes (ccm_mic ctx p) (fit 8 (ccm_ctr ctx 0))"
proof -
  have "length (ccm_mic ctx p) = 8" by (rule ccm.length_icv)
  then show ?thesis
    by (simp add: ccm.seal_def ccm.crypt_def ccm_ks_def xor_bytes_append ccm_stream_def)
qed

section \<open>The blocks look at header and IV only\<close>

lemma nth_prefix: "take n p = take n q \<Longrightarrow> i < n \<Longrightarrow> p ! i = q ! i"
  by (metis nth_take)

lemma construct_prefix:
  assumes "take (hl + 8) p = take (hl + 8) q" and "24 \<le> hl"
  shows "get_pn hl p = get_pn hl q"
    and "construct_mic_iv qc a4 p n pn = construct_mic_iv qc a4 q n pn"
    and "construct_mic_header1 hl p = construct_mic_header1 hl q"
    and "construct_mic_header2 p a4 qc = construct_mic_header2 q a4 qc"
    and "construct_ctr_preload a4 qc p pn c = construct_ctr_preload a4 qc q pn c"
proof -
  have nth: "p ! i = q ! i" if "i < hl + 8" for i using nth_prefix [OF assms(1) that] .
  show "get_pn hl p = get_pn hl q" using assms(2) by (simp add: get_pn_def nth)
  show "construct_mic_iv qc a4 p n pn = construct_mic_iv qc a4 q n pn"
    using assms(2) by (simp add: construct_mic_iv_def nth upt_rec)
  show "construct_mic_header1 hl p = construct_mic_header1 hl q"
    using assms(2) by (simp add: construct_mic_header1_def nth upt_rec)
  show "construct_mic_header2 p a4 qc = construct_mic_header2 q a4 qc"
    using assms(2) by (simp add: construct_mic_header2_def nth upt_rec)
  show "construct_ctr_preload a4 qc p pn c = construct_ctr_preload a4 qc q pn c"
    using assms(2) by (simp add: construct_ctr_preload_def nth upt_rec)
qed

lemma length_construct [simp]:
  "length (construct_mic_iv qc a4 p n pn) = 16" "length (construct_mic_header1 hl p) = 16"
  "length (construct_mic_header2 p a4 qc) = 16" "length (construct_ctr_preload a4 qc p pn c) = 16"
  by (simp_all add: construct_mic_iv_def construct_mic_header1_def construct_mic_header2_def
      construct_ctr_preload_def)

lemma bitwise_xor_bytes: "length a = 16 \<Longrightarrow> length b = 16 \<Longrightarrow> bitwise_xor a b = xor_bytes a b"
  by (rule nth_equalityI) (simp_all add: bitwise_xor_def)

lemma length_bitwise_xor [simp]: "length (bitwise_xor a b) = 16"
  by (simp add: bitwise_xor_def)

lemma length_padded: "length xs \<le> 16 \<Longrightarrow> length (padded xs) = 16"
  by (simp add: padded_def)

section \<open>The integrity value\<close>

lemma blocks16_Nil [simp]: "blocks16 [] = []"
  by (simp add: blocks16.simps)

lemma blocks16_full:
  assumes "length xs = 16 * n"
  shows "blocks16 (xs @ ys) = blocks16 xs @ blocks16 ys"
  using assms
proof (induction n arbitrary: xs)
  case (Suc n)
  then have "16 \<le> length xs" and "length (drop 16 xs) = 16 * n" by simp_all
  then show ?case
    using Suc.IH [of "drop 16 xs"] by (subst (1 2) blocks16.simps) auto
qed simp

lemma blocks16_short: "length ys < 16 \<Longrightarrow> blocks16 ys = (if ys = [] then [] else [padded ys])"
  by (subst blocks16.simps) simp

lemma mic_blocks_cbc:
  assumes "length key = 16" "length out = 16" "idx + 16 * n \<le> length p"
  shows "mic_blocks key p n idx out = aes.cbc key out (blocks16 (take (16 * n) (drop idx p)))"
  using assms(2,3)
proof (induction n arbitrary: idx out)
  case 0
  then show ?case by (simp add: aes.cbc_def)
next
  case (Suc n)
  let ?b = "take 16 (drop idx p)"
  have b: "length ?b = 16" using Suc.prems by simp
  have "take (16 * Suc n) (drop idx p) = ?b @ take (16 * n) (drop (idx + 16) p)"
    by (simp add: take_add add.commute)
  then have "blocks16 (take (16 * Suc n) (drop idx p)) = ?b # blocks16 (take (16 * n) (drop (idx + 16) p))"
    using b by (subst blocks16.simps) (auto simp: padded_def)
  then show ?case
    using Suc.IH [of "aes128k128d key (xor_bytes out ?b)" "idx + 16"] Suc.prems b assms(1)
    by (simp add: bitwise_xor_bytes length_aes128k128d aes.cbc_def)
qed

lemma calc_mic_ccm:
  assumes key: "length key = 16" and hl: "24 \<le> hl" and len: "hl + 8 + plen \<le> length p"
  shows "calc_mic key qc a4 hl p plen =
    ccm_mic (key, qc, a4, hl, take (hl + 8) p) (take plen (drop (hl + 8) p))"
proof -
  let ?hdr = "take (hl + 8) p" and ?pl = "take plen (drop (hl + 8) p)"
  define n where "n = plen div 16"
  define out where "out = aes.cbc key (aes128k128d key (construct_mic_iv qc a4 p plen (get_pn hl p)))
     [construct_mic_header1 hl p, construct_mic_header2 p a4 qc]"
  have out16: "length out = 16" unfolding out_def
    by (rule aes.length_cbc) (use key in \<open>auto simp: length_aes128k128d\<close>)
  let ?full = "take (16 * n) (drop (hl + 8) p)" and ?rest = "take (plen mod 16) (drop (hl + 8 + 16 * n) p)"
  have pl: "?pl = ?full @ ?rest"
    using take_add [of "16 * n" "plen mod 16" "drop (hl + 8) p"] by (simp add: n_def add.commute)
  have "16 * n + plen mod 16 = plen" by (simp add: n_def)
  with len have lens: "length ?pl = plen" "length ?full = 16 * n" "length ?rest = plen mod 16"
    by simp_all
  have rest: "blocks16 ?rest = (if 0 < plen mod 16 then [padded ?rest] else [])"
    using lens(3) blocks16_short [of ?rest] by auto
  have mid: "mic_blocks key p n (hl + 8) out = aes.cbc key out (blocks16 ?full)"
    using len by (intro mic_blocks_cbc key out16) (simp add: n_def)
  have mid16: "length (aes.cbc key out (blocks16 ?full)) = 16"
  proof (rule aes.length_cbc [OF key out16])
    have "b \<in> set (blocks16 xs) \<Longrightarrow> length b = 16" for b xs
    proof (induction xs rule: blocks16.induct)
      case (1 xs)
      then show ?case by (subst (asm) (2) blocks16.simps) (auto simp: length_padded split: if_splits)
    qed
    then show "\<And>b. b \<in> set (blocks16 ?full) \<Longrightarrow> length b = 16" by blast
  qed
  have final: "(if 0 < plen mod 16 then aes128k128d key (bitwise_xor (aes.cbc key out (blocks16 ?full)) (padded ?rest))
      else aes.cbc key out (blocks16 ?full)) = aes.cbc key out (blocks16 ?pl)"
    unfolding pl blocks16_full [OF lens(2)] aes.cbc_append rest
    using mid16 lens(3) by (simp add: aes.cbc_def bitwise_xor_bytes length_padded)
  have final16: "length (aes.cbc key out (blocks16 ?pl)) = 16"
    unfolding final [symmetric] using mid16 key by (auto simp: length_aes128k128d)
  have start: "aes128k128d key (bitwise_xor (aes128k128d key (bitwise_xor (aes128k128d key
      (construct_mic_iv qc a4 p plen (get_pn hl p))) (construct_mic_header1 hl p)))
      (construct_mic_header2 p a4 qc)) = out"
    using key by (simp add: out_def aes.cbc_def bitwise_xor_bytes length_aes128k128d)
  have "calc_mic key qc a4 hl p plen = take 8 (aes.cbc key out (blocks16 ?pl))"
    unfolding calc_mic_def Let_def start n_def [symmetric] mid final ..
  moreover have "take (hl + 8) p = take (hl + 8) ?hdr" by simp
  note pre = construct_prefix [OF this hl]
  have "ccm_mic (key, qc, a4, hl, ?hdr) ?pl = fit 8 (aes.cbc key out (blocks16 ?pl))"
    unfolding ccm_mic_def prod.case lens(1) out_def aes.cbc_append
    by (simp only: pre [symmetric])
  ultimately show ?thesis using final16 by (simp add: fit_take)
qed

section \<open>Counter mode\<close>

lemma length_ccm_ctr: "length (fst ctx) = 16 \<Longrightarrow> length (ccm_ctr ctx c) = 16"
  by (cases ctx) (simp add: ccm_ctr_def length_aes128k128d)

lemma ccm_ctr_code:
  assumes "take (hl + 8) p = take (hl + 8) q" "24 \<le> hl"
  shows "aes128k128d key (construct_ctr_preload a4 qc q (get_pn hl p) c) =
    ccm_ctr (key, qc, a4, hl, take (hl + 8) p) c"
proof -
  have 1: "take (hl + 8) q = take (hl + 8) (take (hl + 8) p)" using assms(1) by simp
  have 2: "take (hl + 8) p = take (hl + 8) (take (hl + 8) p)" by simp
  show ?thesis
    using construct_prefix(5) [OF 1 assms(2)] construct_prefix(1) [OF 2 assms(2)]
    by (simp add: ccm_ctr_def)
qed

lemma ctr_blocks_put:
  assumes key: "length key = 16" and hl: "24 \<le> hl"
  shows "take (hl + 8) q = take (hl + 8) p \<Longrightarrow> hl + 8 \<le> idx \<Longrightarrow> idx + 16 * n \<le> length q \<Longrightarrow>
    ctr_blocks key qc a4 (get_pn hl p) n i idx q =
      put idx (xor_bytes (take (16 * n) (drop idx q))
        (concat (map (\<lambda>j. ccm_ctr (key, qc, a4, hl, take (hl + 8) p) (i + j + 1)) [0..<n]))) q"
proof (induction n arbitrary: i idx q)
  case (Suc n)
  let ?f = "ccm_ctr (key, qc, a4, hl, take (hl + 8) p)"
  let ?b = "take 16 (drop idx q)"
  let ?x = "xor_bytes ?b (?f (i + 1))"
  have f16: "length (?f c) = 16" for c by (rule length_ccm_ctr) (simp add: key)
  have len: "length ?b = 16" "length ?x = 16" using Suc.prems f16 by simp_all
  have code: "aes128k128d key (construct_ctr_preload a4 qc q (get_pn hl p) (i + 1)) = ?f (i + 1)"
    using Suc.prems(1) by (intro ccm_ctr_code [OF _ hl]) simp
  have bx: "bitwise_xor (?f (i + 1)) ?b = ?x"
    using len f16 by (simp add: bitwise_xor_bytes xor_bytes_commute)
  let ?q = "put idx ?x q"
  have pre: "take (hl + 8) ?q = take (hl + 8) p" using Suc.prems len by (simp add: take_put)
  have "ctr_blocks key qc a4 (get_pn hl p) (Suc n) i idx q =
      ctr_blocks key qc a4 (get_pn hl p) n (i + 1) (idx + 16) ?q"
    unfolding ctr_blocks.simps Let_def code bx ..
  also have "\<dots> = put (idx + 16) (xor_bytes (take (16 * n) (drop (idx + 16) ?q))
      (concat (map (\<lambda>j. ?f (i + 1 + j + 1)) [0..<n]))) ?q"
    using Suc.prems len pre by (intro Suc.IH) simp_all
  also have "drop (idx + 16) ?q = drop (idx + 16) q" using Suc.prems len by (intro drop_put) simp_all
  also have "put (idx + 16) (xor_bytes (take (16 * n) (drop (idx + 16) q))
      (concat (map (\<lambda>j. ?f (i + 1 + j + 1)) [0..<n]))) ?q =
    put idx (?x @ xor_bytes (take (16 * n) (drop (idx + 16) q))
      (concat (map (\<lambda>j. ?f (i + 1 + j + 1)) [0..<n]))) q"
    using Suc.prems len by (intro put_put) simp_all
  also have "?x @ xor_bytes (take (16 * n) (drop (idx + 16) q)) (concat (map (\<lambda>j. ?f (i + 1 + j + 1)) [0..<n])) =
    xor_bytes (?b @ take (16 * n) (drop (idx + 16) q)) (?f (i + 1) @ concat (map (\<lambda>j. ?f (i + 1 + j + 1)) [0..<n]))"
    using len f16 by (simp add: xor_bytes_append)
  also have "?b @ take (16 * n) (drop (idx + 16) q) = take (16 * Suc n) (drop idx q)"
    by (simp add: take_add add.commute)
  also have "?f (i + 1) @ concat (map (\<lambda>j. ?f (i + 1 + j + 1)) [0..<n]) =
      concat (map (\<lambda>j. ?f (i + j + 1)) [0..<Suc n])"
  proof -
    have "[0..<Suc n] = 0 # map Suc [0..<n]" by (simp add: map_Suc_upt upt_conv_Cons del: upt_Suc)
    then show ?thesis by (simp add: comp_def del: upt_Suc)
  qed
  finally show ?case .
qed simp

lemma length_concat16: "(\<And>c. length (f c) = 16) \<Longrightarrow> length (concat (map f xs)) = 16 * length xs"
  by (induction xs) auto

lemma ctr_payload_put:
  assumes key: "length key = 16" and hl: "24 \<le> hl" and len: "hl + 8 + plen \<le> length q"
    and same: "take (hl + 8) q = take (hl + 8) p"
  shows "ctr_payload key qc a4 (get_pn hl p) plen (hl + 8) q =
    put (hl + 8) (xor_bytes (take plen (drop (hl + 8) q))
      (ccm_stream (key, qc, a4, hl, take (hl + 8) p) plen)) q"
proof -
  define n where "n = plen div 16"
  let ?f = "ccm_ctr (key, qc, a4, hl, take (hl + 8) p)"
  let ?S = "concat (map (\<lambda>j. ?f (j + 1)) [0..<n])"
  let ?idx = "hl + 8" and ?r = "plen mod 16"
  have pl: "16 * n + ?r = plen" by (simp add: n_def)
  have f16: "length (?f c) = 16" for c by (rule length_ccm_ctr) (simp add: key)
  have S: "length ?S = 16 * n" using length_concat16 [of "\<lambda>j. ?f (j + 1)"] f16 by simp
  let ?q1 = "put ?idx (xor_bytes (take (16 * n) (drop ?idx q)) ?S) q"
  have b: "ctr_blocks key qc a4 (get_pn hl p) n 0 ?idx q = ?q1"
    using ctr_blocks_put [OF key hl same, where n = n and i = 0] len pl by simp
  have stream: "ccm_stream (key, qc, a4, hl, take (hl + 8) p) plen = ?S @ take ?r (?f (n + 1))"
  proof -
    have "[0..<n + 1] = [0..<n] @ [n]" by simp
    then have "concat (map (\<lambda>i. ?f (i + 1)) [0..<n + 1]) = ?S @ ?f (n + 1)" by simp
    moreover have "plen - 16 * n = ?r" "16 * n \<le> plen" using pl by simp_all
    ultimately show ?thesis
      using S f16 by (simp add: ccm_stream_def n_def [symmetric] fit_def)
  qed
  have x: "length (xor_bytes (take (16 * n) (drop ?idx q)) ?S) = 16 * n" using S len pl by simp
  have rest: "drop (?idx + 16 * n) ?q1 = drop (?idx + 16 * n) q" using x len pl by (intro drop_put) simp_all
  have all: "take plen (drop ?idx q) = take (16 * n) (drop ?idx q) @ take ?r (drop (?idx + 16 * n) q)"
    using take_add [of "16 * n" ?r "drop ?idx q"] pl by (simp add: add.commute)
  let ?t = "take ?r (drop (?idx + 16 * n) q)"
  have tlen: "length ?t = ?r" using len pl by simp
  have tail: "take ?r (bitwise_xor (?f (n + 1)) (padded ?t)) = xor_bytes ?t (take ?r (?f (n + 1)))"
  proof (rule nth_equalityI)
    have "?r < 16" by simp
    then show "length (take ?r (bitwise_xor (?f (n + 1)) (padded ?t))) = length (xor_bytes ?t (take ?r (?f (n + 1))))"
      using f16 tlen by simp
    fix i assume "i < length (take ?r (bitwise_xor (?f (n + 1)) (padded ?t)))"
    then have "i < ?r" "i < 16" by simp_all
    then show "take ?r (bitwise_xor (?f (n + 1)) (padded ?t)) ! i = xor_bytes ?t (take ?r (?f (n + 1))) ! i"
      using f16 tlen by (simp add: bitwise_xor_def padded_def nth_append xor.commute)
  qed
  have code: "aes128k128d key (construct_ctr_preload a4 qc ?q1 (get_pn hl p) (n + 1)) = ?f (n + 1)"
    using same len x by (intro ccm_ctr_code [OF _ hl]) (simp add: take_put)
  have whole: "xor_bytes (take plen (drop ?idx q)) (ccm_stream (key, qc, a4, hl, take (hl + 8) p) plen) =
      xor_bytes (take (16 * n) (drop ?idx q)) ?S @ xor_bytes ?t (take ?r (?f (n + 1)))"
    unfolding all stream using S len pl by (intro xor_bytes_append) simp
  show ?thesis
  proof (cases "0 < ?r")
    case True
    have "put (?idx + 16 * n) (xor_bytes ?t (take ?r (?f (n + 1)))) ?q1 =
        put ?idx (xor_bytes (take (16 * n) (drop ?idx q)) ?S @ xor_bytes ?t (take ?r (?f (n + 1)))) q"
      using x len by (intro put_put) simp_all
    then show ?thesis
      unfolding whole ctr_payload_def Let_def n_def [symmetric] b rest code tail using True by simp
  next
    case False
    then show ?thesis
      unfolding whole ctr_payload_def Let_def n_def [symmetric] b by simp
  qed
qed

lemma ctr_mic_put:
  assumes key: "length key = 16" and hl: "24 \<le> hl" and idx: "idx + 8 \<le> length q"
    and same: "take (hl + 8) q = take (hl + 8) p"
  shows "ctr_mic key qc a4 (get_pn hl p) idx q =
    put idx (xor_bytes (take 8 (drop idx q)) (fit 8 (ccm_ctr (key, qc, a4, hl, take (hl + 8) p) 0))) q"
proof -
  let ?f = "ccm_ctr (key, qc, a4, hl, take (hl + 8) p) 0"
  have f16: "length ?f = 16" by (rule length_ccm_ctr) (simp add: key)
  have code: "aes128k128d key (construct_ctr_preload a4 qc q (get_pn hl p) 0) = ?f"
    using same by (intro ccm_ctr_code [OF _ hl]) simp
  have "take 8 (bitwise_xor ?f (padded (take 8 (drop idx q)))) = xor_bytes (take 8 (drop idx q)) (fit 8 ?f)"
    using f16 idx by (intro nth_equalityI)
      (simp_all add: bitwise_xor_def padded_def nth_append xor.commute fit_take)
  then show ?thesis unfolding ctr_mic_def Let_def code by simp
qed

section \<open>The ciphers seal and open\<close>

text \<open>The parameters of a frame, as the sender and the receiver determine them.\<close>

definition frame_ctx :: "u8 list \<Rightarrow> nat \<Rightarrow> u8 list \<Rightarrow> ccm_ctx" where
  "frame_ctx key hlen0 p =
     (key, fst (qc_hdrlen hlen0 p), \<not> (hlen0 = WLAN_HDR_A3_LEN \<or> hlen0 = WLAN_HDR_A3_QOS_LEN),
      snd (qc_hdrlen hlen0 p), take (snd (qc_hdrlen hlen0 p) + 8) p)"

lemma aes_cipher_seal:
  assumes key: "length key = 16" and hl: "24 \<le> hlen0" and qc: "qc_hdrlen hlen0 p = (qc, hl)"
    and len: "hl + 8 + plen + 8 \<le> length p"
  shows "aes_cipher key hlen0 p (int plen) =
    Some (put (hl + 8) (ccm.seal (frame_ctx key hlen0 p) (take plen (drop (hl + 8) p))) p)"
proof -
  have hl24: "24 \<le> hl" using qc hl by (auto simp: qc_hdrlen_def Let_def split: if_splits)
  define a4 where "a4 = (\<not> (hlen0 = WLAN_HDR_A3_LEN \<or> hlen0 = WLAN_HDR_A3_QOS_LEN))"
  define ctx where "ctx = (key, qc, a4, hl, take (hl + 8) p)"
  have a4': "(hlen0 \<noteq> WLAN_HDR_A3_LEN \<and> hlen0 \<noteq> WLAN_HDR_A3_QOS_LEN) = a4" by (simp add: a4_def)
  have ctx: "frame_ctx key hlen0 p = ctx" by (simp add: frame_ctx_def qc ctx_def a4_def)
  let ?pl = "take plen (drop (hl + 8) p)"
  let ?mic = "ccm_mic ctx ?pl"
  have mic: "calc_mic key qc a4 hl p plen = ?mic"
    unfolding ctx_def using len by (intro calc_mic_ccm key hl24) simp
  have mlen: "length ?mic = 8" by (rule ccm.length_icv)
  define p1 where "p1 = put (hl + 8 + plen) ?mic p"
  let ?e = "xor_bytes ?pl (ccm_stream ctx plen)"
  have plen: "length ?pl = plen" and elen: "length ?e = plen" using len by (simp_all add: ccm_stream_def)
  have p1s: "take (hl + 8) p1 = take (hl + 8) p" "length p1 = length p"
    using len mlen by (simp_all add: take_put p1_def)
  have "take plen (drop (hl + 8) p1) = drop (hl + 8) (take (hl + 8 + plen) p1)"
    by (simp add: drop_take)
  also have "take (hl + 8 + plen) p1 = take (hl + 8 + plen) p" using len by (simp add: take_put p1_def)
  also have "drop (hl + 8) (take (hl + 8 + plen) p) = ?pl" by (simp add: drop_take)
  finally have p2c: "ctr_payload key qc a4 (get_pn hl p) plen (hl + 8) p1 = put (hl + 8) ?e p1"
    using ctr_payload_put [OF key hl24 _ p1s(1), where qc = qc and ?a4.0 = a4 and plen = plen, folded ctx_def]
      len p1s(2) by simp
  define p2 where "p2 = put (hl + 8) ?e p1"
  have at: "take 8 (drop (hl + 8 + plen) p2) = ?mic"
    using len elen mlen p1s(2) by (simp add: drop_put drop_put_same p2_def p1_def)
  have "take (hl + 8) p2 = take (hl + 8) p" using p1s len by (simp add: take_put p2_def)
  then have p3: "ctr_mic key qc a4 (get_pn hl p) (hl + 8 + plen) p2 =
      put (hl + 8 + plen) (xor_bytes ?mic (fit 8 (ccm_ctr ctx 0))) p2"
    unfolding ctx_def [symmetric]
    using ctr_mic_put [OF key hl24, of "hl + 8 + plen" p2 p qc a4, folded ctx_def] at len elen p1s(2) by (simp add: p2_def)
  have "put (hl + 8 + plen) (xor_bytes ?mic (fit 8 (ccm_ctr ctx 0))) p2 =
      put (hl + 8) (?e @ xor_bytes ?mic (fit 8 (ccm_ctr ctx 0))) p1"
    unfolding p2_def using len elen p1s(2) by (intro put_put) simp_all
  also have "\<dots> = put (hl + 8) (ccm.seal ctx ?pl) p"
    using len elen mlen by (simp add: ccm_seal_parts plen put_def p1_def)
  finally have res: "put (hl + 8 + plen) (xor_bytes ?mic (fit 8 (ccm_ctr ctx 0))) p2 = put (hl + 8) (ccm.seal ctx ?pl) p" .
  have guard: "\<not> (int plen < 0 \<or> length p < hl + 8 + plen + 8)" using len by simp
  show ?thesis
    unfolding aes_cipher_def Let_def qc prod.case nat_int if_not_P [OF guard] a4_def [symmetric] mic
      p1_def [symmetric] p2c p2_def [symmetric] p3 res ctx ..
qed

lemma aes_decipher_unseal:
  assumes key: "length key = 16" and hl: "24 \<le> hlen0" and qc: "qc_hdrlen hlen0 p = (qc, hlen0)"
    and len: "hlen0 + 8 + (plen + 8) \<le> length p" and max: "hlen0 + plen + 16 \<le> MAX_MSG_SIZE"
  defines "ctx \<equiv> frame_ctx key hlen0 p"
  defines "d \<equiv> ccm.unseal ctx (take (plen + 8) (drop (hlen0 + 8) p))"
  shows "aes_decipher key hlen0 p (int (plen + 8)) =
    Some (if snd d then SUCCESS else FAIL, put (hlen0 + 8) (take plen (fst d)) p)"
proof -
  define a4 where "a4 = (\<not> (hlen0 = WLAN_HDR_A3_LEN \<or> hlen0 = WLAN_HDR_A3_QOS_LEN))"
  have a4': "(hlen0 \<noteq> WLAN_HDR_A3_LEN \<and> hlen0 \<noteq> WLAN_HDR_A3_QOS_LEN) = a4" by (simp add: a4_def)
  have ctx: "ctx = (key, qc, a4, hlen0, take (hlen0 + 8) p)" by (simp add: ctx_def frame_ctx_def qc a4_def)
  let ?h = "hlen0 + 8"
  let ?c = "take plen (drop ?h p)" and ?m = "take 8 (drop (?h + plen) p)"
  let ?ks = "ccm_stream ctx plen" and ?s0 = "fit 8 (ccm_ctr ctx 0)"
  let ?pl = "xor_bytes ?c ?ks"
  have lens: "length ?c = plen" "length ?m = 8" "length ?ks = plen" "length ?pl = plen"
    using len by (simp_all add: ccm_stream_def)
  have cm: "take (plen + 8) (drop ?h p) = ?c @ ?m" by (simp add: take_add add.commute)
  have crypt: "ccm.crypt ctx (?c @ ?m) = ?pl @ xor_bytes ?m ?s0"
    using lens by (simp add: ccm.crypt_def ccm_ks_def xor_bytes_append)
  have fst_d: "take plen (fst d) = ?pl" and snd_d: "snd d \<longleftrightarrow> xor_bytes ?m ?s0 = ccm_mic ctx ?pl"
    unfolding d_def cm ccm.unseal_def crypt Let_def using lens by simp_all
  define P where "P = put ?h ?pl p"
  have pc: "ctr_payload key qc a4 (get_pn hlen0 p) plen ?h p = P"
    using ctr_payload_put [OF key hl _ refl [of "take (hlen0 + 8) p"], where qc = qc and ?a4.0 = a4 and plen = plen, folded ctx]
      len by (simp add: P_def)
  define msg where "msg = take (hlen0 + (plen + 8) + 8) P"
  have pre: "take ?h P = take ?h p" "take ?h msg = take ?h p" using len lens by (simp_all add: take_put min_def P_def msg_def)
  have plen': "length P = length p" using len lens by (simp add: P_def)
  have mlen: "length msg = ?h + plen + 8" using plen' len by (simp add: msg_def)
  have dp: "drop ?h P = ?pl @ drop (?h + plen) p" using len lens by (simp add: drop_put_same P_def)
  have dmsg: "drop ?h msg = ?pl @ ?m"
    using dp lens by (simp add: drop_take msg_def)
  have pn: "get_pn hlen0 P = get_pn hlen0 p" by (rule construct_prefix(1) [OF pre(1) hl])
  let ?mic = "ccm_mic ctx ?pl"
  have mic16: "length ?mic = 8" by (rule ccm.length_icv)
  have "calc_mic key qc a4 hlen0 msg plen = ccm_mic (key, qc, a4, hlen0, take ?h msg) (take plen (drop ?h msg))"
    using mlen by (intro calc_mic_ccm key hl) simp
  moreover have "take plen (drop ?h msg) = ?pl" unfolding dmsg using lens(4) by simp
  ultimately have mic: "calc_mic key qc a4 hlen0 msg plen = ?mic" by (simp only: pre(2) ctx [symmetric])
  define m1 where "m1 = put (?h + plen) ?mic msg"
  have m1s: "length m1 = length msg" "take ?h m1 = take ?h p" using mlen mic16 pre by (simp_all add: take_put m1_def)
  let ?e = "xor_bytes (take plen (drop ?h m1)) ?ks"
  have m2c: "ctr_payload key qc a4 (get_pn hlen0 p) plen ?h m1 = put ?h ?e m1"
    using ctr_payload_put [OF key hl _ m1s(2), where qc = qc and ?a4.0 = a4 and plen = plen, folded ctx]
      mlen m1s(1) by simp
  have elen: "length ?e = plen" using mlen m1s lens by simp
  define m2 where "m2 = put ?h ?e m1"
  have at: "take 8 (drop (?h + plen) m2) = ?mic"
    using mlen m1s(1) elen mic16 by (simp add: drop_put drop_put_same m2_def m1_def)
  have m2': "length m2 = length msg" "take ?h m2 = take ?h p" using m1s mlen elen by (simp_all add: take_put m2_def)
  have m3: "ctr_mic key qc a4 (get_pn hlen0 p) (?h + plen) m2 = put (?h + plen) (xor_bytes ?mic ?s0) m2"
  proof -
    have "?h + plen + 8 \<le> length m2" using m2'(1) mlen by simp
    from ctr_mic_put [OF key hl this m2'(2), where qc = qc and ?a4.0 = a4, folded ctx]
    show ?thesis unfolding at .
  qed
  have m3at: "take 8 (drop (?h + plen) (put (?h + plen) (xor_bytes ?mic ?s0) m2)) = xor_bytes ?mic ?s0"
    using m2'(1) mlen mic16 by (simp add: drop_put_same)
  have pat: "take 8 (drop (?h + plen) P) = ?m" using len lens by (simp add: drop_put P_def)
  have "?m = xor_bytes ?mic ?s0 \<longleftrightarrow> snd d"
    unfolding snd_d using lens(2) mic16 by (metis length_fit order_refl xor_bytes_involution)
  then have res: "(if take 8 (drop (?h + plen) P) = xor_bytes ?mic ?s0 then SUCCESS else FAIL) =
      (if snd d then SUCCESS else FAIL)" unfolding pat by simp
  have guard: "\<not> (int (plen + 8) < 8 \<or> length p < hlen0 + 8 + (plen + 8) \<or> MAX_MSG_SIZE < hlen0 + (plen + 8) + 8)"
    using len max by simp
  show ?thesis
    unfolding aes_decipher_def Let_def qc prod.case nat_int if_not_P [OF guard] diff_add_inverse2
      a4_def [symmetric] pc P_def [symmetric] msg_def [symmetric] pn mic
      m1_def [symmetric] m2c m2_def [symmetric] m3 m3at res fst_d ..
qed

section \<open>Fragments\<close>

lemma qc_hdrlen_prefix: "take n p = take n q \<Longrightarrow> 0 < n \<Longrightarrow> qc_hdrlen h p = qc_hdrlen h q"
  using nth_prefix [of n p q 0] by (simp add: qc_hdrlen_def GetFrameType_def GetFrameSubType_def)

lemma frame_ctx_prefix:
  assumes "take n p = take n q" "snd (qc_hdrlen h p) + 8 \<le> n"
  shows "frame_ctx key h p = frame_ctx key h q"
proof -
  have qc: "qc_hdrlen h p = qc_hdrlen h q" using assms by (intro qc_hdrlen_prefix) auto
  have "take (snd (qc_hdrlen h p) + 8) p = take (snd (qc_hdrlen h p) + 8) (take n p)"
    using assms(2) by (simp add: min_def)
  also have "\<dots> = take (snd (qc_hdrlen h p) + 8) q"
    using assms(2) by (simp add: assms(1) min_def)
  finally show ?thesis by (simp add: frame_ctx_def qc)
qed

text \<open>CCMP on the bytes of one fragment, header and extended IV included.\<close>

definition aes_frame :: "u8 list \<Rightarrow> nat \<Rightarrow> u8 list \<Rightarrow> u8 list option" where
  "aes_frame key h r =
     (if length r < h + 16 then None
      else Some (put (h + 8) (ccm.seal (frame_ctx key h r) (take (length r - h - 16) (drop (h + 8) r))) r))"

text \<open>
  The fragments the code protects as they are laid out: the header length it was given is the one
  it goes on with.
\<close>

definition aes_frame_ok :: "u8 list \<Rightarrow> nat \<Rightarrow> u8 list \<Rightarrow> bool" where
  "aes_frame_ok key h r \<longleftrightarrow> length key = 16 \<and> 24 \<le> h \<and> r \<noteq> [] \<and> snd (qc_hdrlen h r) = h"

definition aes_attrib :: "pkt_attrib \<Rightarrow> pkt_attrib" where
  "aes_attrib a = a\<lparr>iv_len := 8, icv_len := 8\<rparr>"

lemma aes_frame_length: "aes_frame key h r = Some r' \<Longrightarrow> length r' = length r"
  by (auto simp: aes_frame_def ccm.length_seal split: if_splits)

lemma aes_encrypt_frag_frame:
  assumes l: "0 \<le> l" and ok: "aes_frame_ok key (hdrlen a) (take (hdrlen a + 8 + nat l + 8) (drop pf buf))"
  shows "aes_encrypt_frag key a pf l buf = in_place (aes_frame key (hdrlen a)) pf (hdrlen a + 8 + nat l + 8) buf"
proof -
  let ?h = "hdrlen a" let ?n = "?h + 8 + nat l + 8" let ?p = "drop pf buf" let ?r = "take ?n ?p"
  have key: "length key = 16" and h: "24 \<le> ?h" and ne: "?r \<noteq> []" and hl: "snd (qc_hdrlen ?h ?r) = ?h"
    using ok by (auto simp: aes_frame_ok_def)
  have qcp: "qc_hdrlen ?h ?p = qc_hdrlen ?h ?r" by (rule qc_hdrlen_prefix [of ?n]) simp_all
  then obtain qc where qc: "qc_hdrlen ?h ?p = (qc, ?h)" using hl by (metis prod.collapse)
  have pf: "pf < length buf" using ne by auto
  show ?thesis
  proof (cases "pf + ?n \<le> length buf")
    case True
    then have len: "?h + 8 + nat l + 8 \<le> length ?p" and rlen: "length ?r = ?n" by simp_all
    let ?s = "ccm.seal (frame_ctx key ?h ?p) (take (nat l) (drop (?h + 8) ?p))"
    have slen: "length ?s = nat l + 8" using True by (simp add: ccm.length_seal)
    have ctx: "frame_ctx key ?h ?r = frame_ctx key ?h ?p"
    proof (rule frame_ctx_prefix)
      show "take ?n ?r = take ?n ?p" by simp
      show "snd (qc_hdrlen ?h ?r) + 8 \<le> ?n" unfolding hl by simp
    qed
    have pl: "take (length ?r - ?h - 16) (drop (?h + 8) ?r) = take (nat l) (drop (?h + 8) ?p)"
      unfolding rlen by (simp add: drop_take)
    have "aes_cipher key ?h ?p l = Some (put (?h + 8) ?s ?p)"
      using aes_cipher_seal [OF key h qc len] l by simp
    moreover have "take pf buf @ put (?h + 8) ?s ?p = take pf buf @ put (?h + 8) ?s ?r @ drop (pf + ?n) buf"
    proof -
      have "take (?h + 8) ?p = take (?h + 8) ?r" by simp
      moreover have "drop (?h + 8 + length ?s) ?p = drop (?h + 8 + length ?s) ?r @ drop (pf + ?n) buf"
        unfolding slen by (simp add: add.commute)
      ultimately show ?thesis by (simp add: put_def)
    qed
    moreover have "aes_frame key ?h ?r = Some (put (?h + 8) ?s ?r)"
      using rlen unfolding aes_frame_def ctx pl by simp
    moreover have "length (put (?h + 8) ?s ?r) = ?n" using rlen slen by simp
    ultimately show ?thesis using True pf l by (simp add: aes_encrypt_frag_def in_place_def)
  next
    case False
    then have "aes_cipher key ?h ?p l = None" using l by (simp add: aes_cipher_def qc Let_def)
    then show ?thesis using False pf by (simp add: aes_encrypt_frag_def in_place_def read_at_NoneI)
  qed
qed

interpretation aesf: fragment_cipher "aes_encrypt_frag key (aes_attrib a)" "aes_frame key (hdrlen a)"
  "aes_frame_ok key (hdrlen a)" "aes_attrib a" for key a
proof
  have h: "hdrlen (aes_attrib a) = hdrlen a" "iv_len (aes_attrib a) = 8" "icv_len (aes_attrib a) = 8"
    by (simp_all add: aes_attrib_def)
  fix l pf buf
  show "aes_encrypt_frag key (aes_attrib a) pf l buf =
      in_place (aes_frame key (hdrlen a)) pf (hdrlen (aes_attrib a) + iv_len (aes_attrib a) + nat l + icv_len (aes_attrib a)) buf"
    if "0 \<le> l" "aes_frame_ok key (hdrlen a)
      (take (hdrlen (aes_attrib a) + iv_len (aes_attrib a) + nat l + icv_len (aes_attrib a)) (drop pf buf))"
    using aes_encrypt_frag_frame [OF that(1), of key "aes_attrib a" pf buf] that(2) h by simp
  show "aes_encrypt_frag key (aes_attrib a) pf l buf = None" if "l < 0"
    using that by (simp add: aes_encrypt_frag_def aes_cipher_def bind_eq_None_conv Let_def split: prod.splits)
qed (simp add: aes_frame_length)

section \<open>Receiving\<close>

text \<open>The key the receiver uses, \<open>None\<close> when it refuses the frame for want of one.\<close>

definition aes_rx_key :: "security_priv \<Rightarrow> sta_info \<Rightarrow> rx_attrib \<Rightarrow> u8 list option" where
  "aes_rx_key sp psta a =
     (if IS_MCAST (rx_ra a)
      then if binstallGrpkey sp \<and> dot118021XGrpKeyid sp = rx_key_index a
           then do { k \<leftarrow> byte_at (rx_key_index a) (dot118021XGrpKey sp); read_at 0 16 k } else None
      else read_at 0 16 (dot118021x_UncstKey psta))"

lemma rtw_aes_decrypt_unseal:
  assumes enc: "rx_encrypt (rx_attr rf) = AES" and h: "h = rx_hdrlen (rx_attr rf)" "24 \<le> h"
    and iv: "rx_iv_len (rx_attr rf) = 8"
    and sta: "rtw_get_stainfo s (Some (rx_ta (rx_attr rf))) = Some i"
    and key: "aes_rx_key sp (stainfo_buf s ! i) (rx_attr rf) = Some tk"
    and len: "rx_len rf = length (rx_data rf)" "h + 16 \<le> length (rx_data rf)" "length (rx_data rf) \<le> MAX_MSG_SIZE"
    and ok: "snd (qc_hdrlen h (rx_data rf)) = h"
  defines "d \<equiv> ccm.unseal (frame_ctx tk h (rx_data rf)) (drop (h + 8) (rx_data rf))"
  shows "rtw_aes_decrypt s sp rf = Some (if snd d then SUCCESS else FAIL,
    rf\<lparr>rx_data := put (h + 8) (take (length (rx_data rf) - h - 16) (fst d)) (rx_data rf)\<rparr>)"
proof -
  let ?p = "rx_data rf"
  have tk: "length tk = 16"
    using key by (auto simp: aes_rx_key_def bind_eq_Some_conv dest: read_at_Some_length split: if_splits)
  obtain qc where qc: "qc_hdrlen h ?p = (qc, h)" using ok by (metis prod.collapse)
  define n where "n = length ?p - h - 16"
  have n: "length ?p = h + 8 + (n + 8)" using len(2) by (simp add: n_def)
  define L where "L = int (n + 8)"
  have l: "int (rx_len rf) - int h - int (rx_iv_len (rx_attr rf)) = L"
    using len(1) n h iv by (simp add: L_def)
  have n': "length ?p - (h + 16) = n" by (simp add: n_def)
  have dec: "aes_decipher tk h ?p L =
      Some (if snd d then SUCCESS else FAIL, put (h + 8) (take n (fst d)) ?p)"
  proof -
    have "take (n + 8) (drop (h + 8) ?p) = drop (h + 8) ?p" using n by simp
    then show ?thesis
      using aes_decipher_unseal [OF tk h(2) qc, of n] n len(3) by (simp add: d_def L_def del: of_nat_add)
  qed
  show ?thesis
  proof (cases "IS_MCAST (rx_ra (rx_attr rf))")
    case True
    then obtain k where "byte_at (rx_key_index (rx_attr rf)) (dot118021XGrpKey sp) = Some k"
      "read_at 0 16 k = Some tk" "binstallGrpkey sp" "dot118021XGrpKeyid sp = rx_key_index (rx_attr rf)"
      using key by (auto simp: aes_rx_key_def bind_eq_Some_conv split: if_splits)
    with True show ?thesis
      using enc sta dec by (simp add: rtw_aes_decrypt_def Let_def l h(1) [symmetric] n')
  next
    case False
    then have "read_at 0 16 (dot118021x_UncstKey (stainfo_buf s ! i)) = Some tk"
      using key by (simp add: aes_rx_key_def)
    with False show ?thesis
      using enc sta dec by (simp add: rtw_aes_decrypt_def Let_def l h(1) [symmetric] n')
  qed
qed

section \<open>Properties\<close>

text \<open>
  C25: CCMP round trip. When the receiver is linked, both ends use the same key, the header
  lengths agree with the frame type and the buffer has room for the fragments,
  \<^verbatim>\<open>rtw_aes_encrypt\<close> succeeds and \<^verbatim>\<open>rtw_aes_decrypt\<close> accepts every fragment and
  restores header, IV and payload of the original; the integrity value stays encrypted behind them.
\<close>

theorem rtw_aes_roundtrip:
  assumes enc: "encrypt (attrib xf) = AES" "rx_encrypt ra = AES"
    and lens: "icv_len (attrib xf) = 8" "iv_len (attrib xf) = 8" "24 \<le> hdrlen (attrib xf)"
      "rx_hdrlen ra = hdrlen (attrib xf)" "rx_iv_len ra = 8"
    and psta: "tx_psta (attrib xf) = Some i" "sta_state (stainfo_buf s ! i) AND FW_LINKED \<noteq> 0"
    and key: "aes_tx_key sp (stainfo_buf s ! i) (attrib xf) = Some tk"
      "rtw_get_stainfo s' (Some (rx_ta ra)) = Some j"
      "aes_rx_key sp' (stainfo_buf s' ! j) ra = Some tk"
    and fit: "frags_fit frag_len xf"
    and frames: "\<forall>k < nr_frags (attrib xf).
      snd (qc_hdrlen (hdrlen (attrib xf)) (fragment frag_len xf k)) = hdrlen (attrib xf) \<and>
      fragment frag_len xf k \<noteq> [] \<and> length (fragment frag_len xf k) \<le> MAX_MSG_SIZE"
  shows "\<exists>xf'. rtw_aes_encrypt s sp frag_len xf = Some (SUCCESS, xf') \<and>
    (\<forall>k < nr_frags (attrib xf).
       (let plain = fragment frag_len xf k; sent = fragment frag_len xf' k;
            n = length plain - 8
        in rtw_aes_decrypt s' sp' \<lparr>rx_attr = ra, rx_len = length sent, rx_data = sent\<rparr> =
             Some (SUCCESS, \<lparr>rx_attr = ra, rx_len = length sent,
               rx_data = take n plain @ drop n sent\<rparr>)))"
proof -
  let ?a = "attrib xf" let ?h = "hdrlen ?a"
  have tk: "length tk = 16"
    using key(1) by (auto simp: aes_tx_key_def bind_eq_Some_conv dest: read_at_Some_length split: if_splits)
  from fit obtain A buf where buf: "buf_addr xf = Some (A, buf)"
    by (auto simp: frags_fit_def split: option.splits)
  have a: "aes_attrib ?a = ?a" using lens(1,2) by (simp add: aes_attrib_def)
  have total: "\<exists>r'. aes_frame tk ?h r = Some r'" if "hdrlen ?a + iv_len ?a + icv_len ?a \<le> length r" for r
    using that lens by (simp add: aes_frame_def)
  have ok: "\<forall>k < nr_frags ?a. aes_frame_ok tk ?h (fragment frag_len xf k)"
    using frames lens(3) tk by (simp add: aes_frame_ok_def)
  have "\<exists>buf'. frag_loop (aes_encrypt_frag tk ?a) ?a frag_len A (nr_frags ?a) (pframe_start xf) buf =
      Some buf' \<and> (\<forall>k < nr_frags ?a. aes_frame tk ?h (fragment frag_len xf k) =
       Some (fragment frag_len (xf\<lparr>buf_addr := Some (A, buf')\<rparr>) k))"
    by (rule aesf.frag_loop_xmit [of ?a tk xf A buf frag_len, unfolded a])
      (use total buf fit ok in auto)
  then obtain buf' where
    res: "frag_loop (aes_encrypt_frag tk ?a) ?a frag_len A (nr_frags ?a) (pframe_start xf) buf = Some buf'"
    and frags: "\<And>k. k < nr_frags ?a \<Longrightarrow> aes_frame tk ?h (fragment frag_len xf k) =
       Some (fragment frag_len (xf\<lparr>buf_addr := Some (A, buf')\<rparr>) k)"
    by (elim exE conjE) (rule that, assumption, simp)
  define xf' where "xf' = xf\<lparr>buf_addr := Some (A, buf')\<rparr>"
  have "rtw_aes_encrypt s sp frag_len xf = Some (SUCCESS, xf')"
    using buf enc(1) psta key(1) res by (simp add: rtw_aes_encrypt_def Let_def xf'_def)
  moreover have "rtw_aes_decrypt s' sp' \<lparr>rx_attr = ra, rx_len = length sent, rx_data = sent\<rparr> =
      Some (SUCCESS, \<lparr>rx_attr = ra, rx_len = length sent, rx_data = take n plain @ drop n sent\<rparr>)"
    if "k < nr_frags ?a" "plain = fragment frag_len xf k" "sent = fragment frag_len xf' k"
      "n = length plain - 8" for k plain sent n
  proof -
    have sealed: "aes_frame tk ?h plain = Some sent" using frags that xf'_def by simp
    let ?pl = "take (length plain - ?h - 16) (drop (?h + 8) plain)"
    let ?ctx = "frame_ctx tk ?h plain"
    have len: "?h + 16 \<le> length plain" "length sent = length plain"
      using aes_frame_length [OF sealed] sealed by (simp_all add: aes_frame_def split: if_splits)
    have sent: "sent = put (?h + 8) (ccm.seal ?ctx ?pl) plain"
      using sealed len by (simp add: aes_frame_def)
    have slen: "length (ccm.seal ?ctx ?pl) = length plain - ?h - 8" using len by (simp add: ccm.length_seal)
    have pre: "take (?h + 8) sent = take (?h + 8) plain" unfolding sent using len by (simp add: take_put)
    have drop: "drop (?h + 8) sent = ccm.seal ?ctx ?pl"
      unfolding sent using len slen by (simp add: drop_put_same)
    have hl: "snd (qc_hdrlen ?h plain) = ?h" using frames that(1,2) by simp
    have qc: "qc_hdrlen ?h sent = qc_hdrlen ?h plain" by (rule qc_hdrlen_prefix [OF pre]) simp
    have ctx: "frame_ctx tk ?h sent = ?ctx" by (rule frame_ctx_prefix [OF pre]) (simp add: qc hl)
    have max: "length sent \<le> MAX_MSG_SIZE" using frames that(1,2) len by simp
    have "rtw_aes_decrypt s' sp' \<lparr>rx_attr = ra, rx_len = length sent, rx_data = sent\<rparr> =
        Some (SUCCESS, \<lparr>rx_attr = ra, rx_len = length sent,
          rx_data = put (?h + 8) (take (length sent - ?h - 16) (fst (ccm.unseal ?ctx (ccm.seal ?ctx ?pl)))) sent\<rparr>)"
      using rtw_aes_decrypt_unseal [of "\<lparr>rx_attr = ra, rx_len = length sent, rx_data = sent\<rparr>" ?h s' j sp' tk]
        enc(2) key(2,3) lens len max by (simp add: qc hl ctx drop ccm.unseal_seal)
    moreover have "put (?h + 8) (take (length sent - ?h - 16) (fst (ccm.unseal ?ctx (ccm.seal ?ctx ?pl)))) sent =
        take n plain @ drop n sent"
    proof -
      have "take n plain = take (?h + 8) plain @ ?pl"
        using len take_add [of "?h + 8" "length plain - ?h - 16" plain] by (simp add: that(4))
      then show ?thesis
        using len by (simp add: ccm.unseal_seal put_def pre that(4))
    qed
    ultimately show ?thesis by simp
  qed
  ultimately show ?thesis by (auto simp: Let_def)
qed

theorem rtw_aes_roundtrip_witness:
  "\<exists>xf'. rtw_aes_encrypt (sample_stations [2, 0, 0, 0, 0, 1]) sample_security 48
      (sample_xmit (sample_attrib AES 8 8)) = Some (SUCCESS, xf')"
proof -
  let ?xf = "sample_xmit (sample_attrib AES 8 8)"
  have sta: "rtw_get_stainfo (sample_stations [2, 0, 0, 0, 0, 2]) (Some (rx_ta (sample_rx AES 8))) = Some 0"
    using sample_stations_lookup [of "[2, 0, 0, 0, 0, 2]"] by (simp add: sample_rx_def IS_MCAST_def)
  have fit: "frags_fit 48 ?xf" by (rule sample_fit) simp
  have frames: "\<forall>k < nr_frags (attrib ?xf).
      snd (qc_hdrlen (hdrlen (attrib ?xf)) (fragment 48 ?xf k)) = hdrlen (attrib ?xf) \<and>
      fragment 48 ?xf k \<noteq> [] \<and> length (fragment 48 ?xf k) \<le> MAX_MSG_SIZE"
    by (auto simp: less_Suc_eq numeral_2_eq_2 sample_xmit_def sample_attrib_def fragment_def frag_bytes_def
        frag_size_def pframe_start_def TXDESC_SIZE_def RND4_def MAX_MSG_SIZE_def qc_hdrlen_def Let_def
        GetFrameType_def GetFrameSubType_def)
  show ?thesis
    using rtw_aes_roundtrip [of ?xf "sample_rx AES 8" 0 "sample_stations [2, 0, 0, 0, 0, 1]" sample_security
        "replicate 16 0" "sample_stations [2, 0, 0, 0, 0, 2]" 0 sample_security 48, OF _ _ _ _ _ _ _ _ _ _ sta _ fit frames]
    by (simp add: sample_xmit_def sample_attrib_def sample_rx_def sample_security_def
        aes_tx_key_def aes_rx_key_def IS_MCAST_def sample_stations_def init_stainfo_def FW_LINKED_def)
      blast
qed

text \<open>
  C26: What \<^verbatim>\<open>rtw_aes_decrypt\<close> accepts. With the keys in place and a header as the frame
  type has it, it returns \<^verbatim>\<open>_SUCCESS\<close> exactly for the frames whose protected part is the
  CCM sealing of some payload under this header and packet number; a group frame with another key
  index than the installed one is refused and left as it is.
\<close>

theorem rtw_aes_decrypt_accepts:
  assumes enc: "rx_encrypt (rx_attr rf) = AES" and h: "h = rx_hdrlen (rx_attr rf)" "24 \<le> h"
    and iv: "rx_iv_len (rx_attr rf) = 8"
    and sta: "rtw_get_stainfo s (Some (rx_ta (rx_attr rf))) = Some i"
    and len: "rx_len rf = length (rx_data rf)" "h + 16 \<le> length (rx_data rf)" "length (rx_data rf) \<le> MAX_MSG_SIZE"
    and ok: "snd (qc_hdrlen h (rx_data rf)) = h"
  shows "(\<forall>tk. aes_rx_key sp (stainfo_buf s ! i) (rx_attr rf) = Some tk \<longrightarrow>
      (\<exists>st rf'. rtw_aes_decrypt s sp rf = Some (st, rf') \<and>
         (st = SUCCESS \<longleftrightarrow> (\<exists>p. drop (h + 8) (rx_data rf) = ccm.seal (frame_ctx tk h (rx_data rf)) p)))) \<and>
    (IS_MCAST (rx_ra (rx_attr rf)) \<and> (\<not> binstallGrpkey sp \<or> dot118021XGrpKeyid sp \<noteq> rx_key_index (rx_attr rf)) \<longrightarrow>
      rtw_aes_decrypt s sp rf = Some (FAIL, rf))"
proof (intro conjI allI impI)
  fix tk assume key: "aes_rx_key sp (stainfo_buf s ! i) (rx_attr rf) = Some tk"
  have "snd (ccm.unseal (frame_ctx tk h (rx_data rf)) (drop (h + 8) (rx_data rf))) \<longleftrightarrow>
      (\<exists>p. drop (h + 8) (rx_data rf) = ccm.seal (frame_ctx tk h (rx_data rf)) p)"
    using len by (intro ccm.unseal_accepts_iff) simp
  then show "\<exists>st rf'. rtw_aes_decrypt s sp rf = Some (st, rf') \<and>
      (st = SUCCESS \<longleftrightarrow> (\<exists>p. drop (h + 8) (rx_data rf) = ccm.seal (frame_ctx tk h (rx_data rf)) p))"
    using rtw_aes_decrypt_unseal [OF enc h iv sta key len ok] by simp
qed (use enc sta in \<open>auto simp: rtw_aes_decrypt_def Let_def\<close>)

theorem rtw_aes_decrypt_accepts_witness:
  "\<exists>st rf'. rtw_aes_decrypt (sample_stations [2, 0, 0, 0, 0, 2]) sample_security
     \<lparr>rx_attr = sample_rx AES 8, rx_len = 40, rx_data = replicate 40 0\<rparr> = Some (st, rf')"
proof -
  let ?s = "sample_stations [2, 0, 0, 0, 0, 2]"
  let ?rf = "\<lparr>rx_attr = sample_rx AES 8, rx_len = 40, rx_data = replicate 40 0\<rparr>"
  have sta: "rtw_get_stainfo ?s (Some (rx_ta (rx_attr ?rf))) = Some 0"
    using sample_stations_lookup [of "[2, 0, 0, 0, 0, 2]"] by (simp add: sample_rx_def IS_MCAST_def)
  have key: "aes_rx_key sample_security (stainfo_buf ?s ! 0) (rx_attr ?rf) = Some (replicate 16 0)"
    by (simp add: aes_rx_key_def sample_rx_def IS_MCAST_def sample_stations_def init_stainfo_def)
  have ok: "snd (qc_hdrlen 24 (rx_data ?rf)) = 24"
    by (simp add: qc_hdrlen_def Let_def GetFrameType_def GetFrameSubType_def)
  have hyps: "rx_encrypt (rx_attr ?rf) = AES" "24 = rx_hdrlen (rx_attr ?rf)" "(24 :: nat) \<le> 24"
    "rx_iv_len (rx_attr ?rf) = 8" "rx_len ?rf = length (rx_data ?rf)" "24 + 16 \<le> length (rx_data ?rf)"
    "length (rx_data ?rf) \<le> MAX_MSG_SIZE"
    by (simp_all add: sample_rx_def MAX_MSG_SIZE_def)
  from conjunct1 [OF rtw_aes_decrypt_accepts [OF hyps(1-4) sta hyps(5-7) ok]] key
  show ?thesis by blast
qed

text \<open>
  Four-address QoS frames are protected two bytes too late. For a QoS data frame with a
  32-byte header \<^verbatim>\<open>aes_cipher\<close> adds two to the header length, so that the first two bytes of
  the payload stay in the clear, the packet number is read past its place, and the integrity value
  ends two bytes behind the frame.
\<close>

theorem aes_cipher_a4_qos:
  assumes "length key = 16" and "GetFrameType p = WIFI_DATA" and "GetFrameSubType p = 0x88"
  shows "(length p < 32 + 8 + plen + 8 + 2 \<longrightarrow> aes_cipher key 32 p (int plen) = None) \<and>
    (32 + 8 + plen + 8 + 2 \<le> length p \<longrightarrow>
      (\<exists>p'. aes_cipher key 32 p (int plen) = Some p' \<and> take (32 + 8 + 2) p' = take (32 + 8 + 2) p \<and>
         drop (32 + 8 + 2) p' = ccm.seal (frame_ctx key 32 p) (take plen (drop (32 + 8 + 2) p)) @
           drop (32 + 8 + plen + 8 + 2) p \<and>
         snd (qc_hdrlen 32 p) = 34))"
proof -
  have qc: "qc_hdrlen 32 p = (True, 34)" using assms(2,3) by (simp add: qc_hdrlen_def Let_def)
  show ?thesis
  proof (intro conjI impI)
    show "aes_cipher key 32 p (int plen) = None" if "length p < 32 + 8 + plen + 8 + 2"
      using that by (simp add: aes_cipher_def qc Let_def)
    assume len: "32 + 8 + plen + 8 + 2 \<le> length p"
    let ?s = "ccm.seal (frame_ctx key 32 p) (take plen (drop 42 p))"
    have slen: "length ?s = plen + 8" using len by (simp add: ccm.length_seal)
    have "aes_cipher key 32 p (int plen) = Some (put 42 ?s p)"
      using aes_cipher_seal [OF assms(1) _ qc, of plen] len by simp
    moreover have "take 42 (put 42 ?s p) = take 42 p" using len by (simp add: take_put)
    moreover have "drop 42 (put 42 ?s p) = ?s @ drop (42 + (plen + 8)) p"
      using len slen by (simp add: drop_put_same)
    moreover have "(32 :: nat) + 8 + 2 = 42" "42 + (plen + 8) = 32 + 8 + plen + 8 + 2" by simp_all
    moreover have "snd (qc_hdrlen 32 p) = 34" by (simp add: qc)
    ultimately show "\<exists>p'. aes_cipher key 32 p (int plen) = Some p' \<and> take (32 + 8 + 2) p' = take (32 + 8 + 2) p \<and>
         drop (32 + 8 + 2) p' = ccm.seal (frame_ctx key 32 p) (take plen (drop (32 + 8 + 2) p)) @
           drop (32 + 8 + plen + 8 + 2) p \<and>
         snd (qc_hdrlen 32 p) = 34"
      by (intro exI [of _ "put 42 ?s p"]) (simp only: simp_thms)
  qed
qed

theorem aes_cipher_a4_qos_witness:
  "\<exists>p'. aes_cipher (replicate 16 1) 32 (0x88 # replicate 60 0) (int 5) = Some p' \<and>
     take (32 + 8 + 2) p' = take (32 + 8 + 2) (0x88 # replicate 60 0)"
proof -
  have "GetFrameType (0x88 # replicate 60 0) = WIFI_DATA" "GetFrameSubType (0x88 # replicate 60 0) = 0x88"
    by (simp_all add: GetFrameType_def GetFrameSubType_def)
  note C = aes_cipher_a4_qos [OF _ this, of "replicate 16 1" 5]
  have "length (replicate 16 (1 :: u8)) = 16" "32 + 8 + 5 + 8 + 2 \<le> length ((0x88 :: u8) # replicate 60 0)"
    by simp_all
  with C show ?thesis by blast
qed

end
