(* ===== verification/Rx_State.thy ===== *)
theory Rx_State
  imports Sta_Table
begin

text \<open>
  The state of the receive path: the attributes and the buffer of a receive frame
  (\<^verbatim>\<open>struct recv_frame_hdr\<close>, \<^verbatim>\<open>struct rx_pkt_attrib\<close> of \<^verbatim>\<open>include/rtw_recv.h\<close>),
  the four functions that move the two ends of its data, and the part of \<^verbatim>\<open>_adapter\<close> the receive
  functions work on. A frame is named by its index, as in \<^verbatim>\<open>Recv_Queue\<close>.
\<close>

section \<open>Frames\<close>

text \<open>
  \<open>rx_mem\<close> are the bytes from \<^verbatim>\<open>rx_head\<close> to \<^verbatim>\<open>rx_end\<close>; \<open>rx_doff\<close> and \<open>rx_toff\<close> are the
  offsets of \<^verbatim>\<open>rx_data\<close> and \<^verbatim>\<open>rx_tail\<close>; \<open>rx_flen\<close> is \<^verbatim>\<open>len\<close>. \<open>rx_preorder\<close> names the
  reordering control of the frame, by station and traffic identifier, or is \<open>None\<close> for null.
\<close>

record rx_frame =
  rx_attrs :: rx_attrib
  rx_icv_len :: nat
  rx_bdecrypted :: u8
  rx_privacy :: u8
  rx_seq_num :: u16
  rx_frag_num :: u8
  rx_mfrag :: u8
  rx_qos :: u8
  rx_amsdu :: u8
  rx_priority :: u8
  rx_dst :: mac
  rx_src :: mac
  rx_bssid :: mac
  rx_to_fr_ds :: nat
  rx_pw_save :: bool
  rx_mdata :: bool
  rx_order :: bool
  rx_ack_policy :: u8
  rx_eth_type :: u16
  rx_psta :: "nat option"
  rx_preorder :: "(nat \<times> nat) option"
  rx_mem :: "u8 list"
  rx_doff :: nat
  rx_toff :: nat
  rx_flen :: nat

text \<open>The data: what lies between \<^verbatim>\<open>rx_data\<close> and \<^verbatim>\<open>rx_tail\<close>.\<close>

definition frame_data :: "rx_frame \<Rightarrow> u8 list" where
  "frame_data fr = take (rx_toff fr - rx_doff fr) (drop (rx_doff fr) (rx_mem fr))"

definition rx_frame_ok :: "rx_frame \<Rightarrow> bool" where
  "rx_frame_ok fr \<longleftrightarrow> rx_doff fr \<le> rx_toff fr \<and> rx_toff fr \<le> length (rx_mem fr) \<and>
     rx_flen fr = rx_toff fr - rx_doff fr"

text \<open>
  The size is signed. \<open>recvframe_pull\<close> may be called with a negative one; the code then moves
  \<^verbatim>\<open>rx_data\<close> back without a check, and a position before \<^verbatim>\<open>rx_head\<close>, which no pointer may have,
  is the null of the result here.
\<close>

definition recvframe_push :: "int \<Rightarrow> rx_frame \<Rightarrow> nat option \<times> rx_frame" where
  "recvframe_push sz fr =
     (let d = int (rx_doff fr) - sz in
      if d < 0 then (None, fr)
      else (Some (nat d), fr\<lparr>rx_doff := nat d, rx_flen := nat (int (rx_flen fr) + sz)\<rparr>))"

definition recvframe_pull :: "int \<Rightarrow> rx_frame \<Rightarrow> nat option \<times> rx_frame" where
  "recvframe_pull sz fr =
     (let d = int (rx_doff fr) + sz in
      if int (rx_toff fr) < d \<or> d < 0 then (None, fr)
      else (Some (nat d), fr\<lparr>rx_doff := nat d, rx_flen := nat (int (rx_flen fr) - sz)\<rparr>))"

definition recvframe_put :: "int \<Rightarrow> rx_frame \<Rightarrow> nat option \<times> rx_frame" where
  "recvframe_put sz fr =
     (let t = int (rx_toff fr) + sz in
      if int (length (rx_mem fr)) < t \<or> t < 0 then (None, fr)
      else (Some (nat t), fr\<lparr>rx_toff := nat t, rx_flen := nat (int (rx_flen fr) + sz)\<rparr>))"

definition recvframe_pull_tail :: "int \<Rightarrow> rx_frame \<Rightarrow> nat option \<times> rx_frame" where
  "recvframe_pull_tail sz fr =
     (let t = int (rx_toff fr) - sz in
      if t < int (rx_doff fr) then (None, fr)
      else (Some (nat t), fr\<lparr>rx_toff := nat t, rx_flen := nat (int (rx_flen fr) - sz)\<rparr>))"

lemma length_frame_data [simp]: "rx_frame_ok fr \<Longrightarrow> length (frame_data fr) = rx_flen fr"
  by (auto simp: rx_frame_ok_def frame_data_def)

lemma recvframe_pull_ok:
  assumes "rx_frame_ok fr" and "n \<le> rx_flen fr"
  shows "recvframe_pull (int n) fr = (Some (rx_doff fr + n),
      fr\<lparr>rx_doff := rx_doff fr + n, rx_flen := rx_flen fr - n\<rparr>)"
  using assms by (auto simp: recvframe_pull_def Let_def rx_frame_ok_def nat_diff_distrib' nat_add_distrib)

lemma recvframe_pull_tail_ok:
  assumes "rx_frame_ok fr" and "n \<le> rx_flen fr"
  shows "recvframe_pull_tail (int n) fr = (Some (rx_toff fr - n),
      fr\<lparr>rx_toff := rx_toff fr - n, rx_flen := rx_flen fr - n\<rparr>)"
  using assms
  by (auto simp: recvframe_pull_tail_def Let_def rx_frame_ok_def nat_diff_distrib')

lemma recvframe_put_ok:
  assumes "rx_toff fr + n \<le> length (rx_mem fr)"
  shows "recvframe_put (int n) fr = (Some (rx_toff fr + n),
      fr\<lparr>rx_toff := rx_toff fr + n, rx_flen := rx_flen fr + n\<rparr>)"
  using assms by (auto simp: recvframe_put_def Let_def nat_add_distrib)

lemma recvframe_moves_ok:
  assumes "rx_frame_ok fr"
  shows "0 \<le> sz \<Longrightarrow> rx_frame_ok (snd (recvframe_pull sz fr))"
    and "0 \<le> sz \<Longrightarrow> rx_frame_ok (snd (recvframe_push sz fr))"
    and "0 \<le> sz \<Longrightarrow> rx_frame_ok (snd (recvframe_pull_tail sz fr))"
    and "0 \<le> sz \<Longrightarrow> rx_frame_ok (snd (recvframe_put sz fr))"
  using assms
  by (auto simp: recvframe_pull_def recvframe_push_def recvframe_pull_tail_def recvframe_put_def
      rx_frame_ok_def Let_def nat_diff_distrib')

section \<open>The adapter\<close>

text \<open>What the receive path asks of the transmit path and of the management entity.\<close>

datatype rx_event =
    Issue_deauth mac nat
  | Issue_qos_nulldata mac u16
  | Issue_nulldata mac
  | Update_beacon_tim
  | Mgt_dispatcher nat

text \<open>
  \<open>netif_rx\<close> are the packets given to the network stack, \<open>xmit_entry\<close> those an access point
  gives back to its transmit path. \<open>jiffies\<close> is the clock and \<open>kernel_HZ\<close> its rate.
\<close>

record rx_adapter = adapter +
  securitypriv :: security_priv
  fw_state :: u32
  ht_option :: bool
  myid :: mac
  get_bssid :: mac
  mlme_key_index :: nat
  bDriverStopped :: bool
  bSurpriseRemoved :: bool
  rxf :: "nat \<Rightarrow> rx_frame"
  netif_rx :: "u8 list list"
  xmit_entry :: "u8 list list"
  rx_events :: "rx_event list"
  rx_drop :: nat
  rx_pkts :: nat
  jiffies :: u32
  kernel_HZ :: u32

definition WIFI_STATION_STATE :: u32 where "WIFI_STATION_STATE = 0x00000008"
definition WIFI_AP_STATE :: u32 where "WIFI_AP_STATE = 0x00000010"
definition WIFI_MP_STATE :: u32 where "WIFI_MP_STATE = 0x00010000"
definition WIFI_MP_LPBK_STATE :: u32 where "WIFI_MP_LPBK_STATE = 0x00400000"

definition check_fwstate :: "rx_adapter \<Rightarrow> u32 \<Rightarrow> bool" where
  "check_fwstate ad st \<longleftrightarrow> fw_state ad AND st \<noteq> 0"

definition set_rxf :: "nat \<Rightarrow> rx_frame \<Rightarrow> rx_adapter \<Rightarrow> rx_adapter" where
  "set_rxf f fr ad = ad\<lparr>rxf := (rxf ad)(f := fr)\<rparr>"

text \<open>The free queue of the pool is where every finished frame goes.\<close>

definition free_frame :: "nat \<Rightarrow> rx_adapter \<Rightarrow> rx_adapter" where
  "free_frame f ad = ad\<lparr>recvpriv := rtw_free_recvframe f FREE_RECV (recvpriv ad)\<rparr>"

definition free_queue :: "recv_qid \<Rightarrow> rx_adapter \<Rightarrow> rx_adapter option" where
  "free_queue q ad = do {
     rp \<leftarrow> rtw_free_recvframe_queue q FREE_RECV (recvpriv ad);
     Some (ad\<lparr>recvpriv := rp\<rparr>)
   }"

definition bcmc_station :: "rx_adapter \<Rightarrow> nat option" where
  "bcmc_station ad = rtw_get_bcmc_stainfo (adapter.truncate ad)"

text \<open>A frame as the ciphers see it: the bytes from \<^verbatim>\<open>rx_data\<close> on.\<close>

definition cipher_view :: "rx_frame \<Rightarrow> recv_frame" where
  "cipher_view fr = \<lparr>rx_attr = rx_attrs fr, rx_len = rx_flen fr, rx_data = drop (rx_doff fr) (rx_mem fr)\<rparr>"

definition cipher_back :: "recv_frame \<Rightarrow> rx_frame \<Rightarrow> rx_frame" where
  "cipher_back rf fr = fr\<lparr>rx_mem := take (rx_doff fr) (rx_mem fr) @ rx_data rf\<rparr>"

section \<open>Duplicate frames\<close>

text \<open>\<open>tid_rxseq\<close> is the cache of the last sequence control per traffic identifier.\<close>

definition recv_decache :: "rx_frame \<Rightarrow> u16 list \<Rightarrow> status \<times> u16 list" where
  "recv_decache fr cache =
     (let tid = unat (rx_priority fr);
          seq_ctrl = push_bit 4 (rx_seq_num fr AND 0xffff) OR (ucast (rx_frag_num fr) AND 0xf)
      in if 15 < tid then (FAIL, cache)
         else if seq_ctrl = cache ! tid then (FAIL, cache)
         else (SUCCESS, cache[tid := seq_ctrl]))"

section \<open>Signal values\<close>

definition query_rx_pwr_percentage :: "int \<Rightarrow> int" where
  "query_rx_pwr_percentage antpower =
     (if antpower \<le> -100 \<or> 20 \<le> antpower then 0
      else if 0 \<le> antpower then 100
      else 100 + antpower)"

definition translate_percentage_to_dbm :: "u32 \<Rightarrow> int" where
  "translate_percentage_to_dbm SignalStrengthIndex =
     uint (drop_bit 1 (SignalStrengthIndex + 1)) - 95"

end
