(* ===== verification/Rx_Ethernet.thy ===== *)
theory Rx_Ethernet
  imports Rx_State
begin

text \<open>
  From 802.11 to Ethernet (\<^verbatim>\<open>core/rtw_recv.c\<close>): \<^verbatim>\<open>wlanhdr_to_ethhdr\<close> replaces the header of
  a data frame in place, \<^verbatim>\<open>amsdu_to_msdu\<close> splits an aggregate into packets, and
  \<^verbatim>\<open>rtw_recv_indicatepkt\<close> (\<^verbatim>\<open>os_dep/linux/recv_linux.c\<close>) gives a packet to the network stack
  or, in an access point, back to the transmitter. Allocations of socket buffers succeed and no
  bridge is attached to the interface.
\<close>

section \<open>The headers\<close>

definition SNAP_SIZE :: nat where "SNAP_SIZE = 6"
definition ETH_HLEN :: nat where "ETH_HLEN = 14"
definition MAX_SUBFRAME_COUNT :: nat where "MAX_SUBFRAME_COUNT = 64"

definition rtw_rfc1042_header :: "u8 list" where
  "rtw_rfc1042_header = [0xaa, 0xaa, 0x03, 0x00, 0x00, 0x00]"

definition rtw_bridge_tunnel_header :: "u8 list" where
  "rtw_bridge_tunnel_header = [0xaa, 0xaa, 0x03, 0x00, 0x00, 0xf8]"

definition SNAP_ETH_TYPE_IPX :: "u8 list" where "SNAP_ETH_TYPE_IPX = [0x81, 0x37]"
definition SNAP_ETH_TYPE_APPLETALK_AARP :: "u8 list" where
  "SNAP_ETH_TYPE_APPLETALK_AARP = [0x80, 0xf3]"

definition be16_bytes :: "u16 \<Rightarrow> u8 list" where
  "be16_bytes x = [ucast (drop_bit 8 x), ucast x]"

definition be16_of :: "u8 \<Rightarrow> u8 \<Rightarrow> u16" where
  "be16_of a b = push_bit 8 (ucast a) OR ucast b"

definition snap_encapsulated :: "u8 list \<Rightarrow> u8 list \<Rightarrow> bool" where
  "snap_encapsulated snap snap_type \<longleftrightarrow>
     snap = rtw_rfc1042_header \<and> snap_type \<noteq> SNAP_ETH_TYPE_IPX \<and>
       snap_type \<noteq> SNAP_ETH_TYPE_APPLETALK_AARP \<or>
     snap = rtw_bridge_tunnel_header"

section \<open>One packet\<close>

text \<open>
  In the manufacturing state the type is overwritten and 24 bytes from the start of the buffer
  are put before the header. The result is undefined where the code reads or writes outside the
  buffer, or through the null of a refused \<^verbatim>\<open>recvframe_pull\<close>. \<open>ethhdr_place\<close> is the place of
  the new header.
\<close>

definition ethhdr_place :: "rx_adapter \<Rightarrow> bool \<Rightarrow> nat \<Rightarrow> nat \<Rightarrow> rx_frame \<Rightarrow> (nat \<times> rx_frame) option" where
  "ethhdr_place ad bsnaphdr ptr rmv_len fr =
     (if check_fwstate ad WIFI_MP_STATE
      then do {
        mem1 \<leftarrow> write_at (ptr + rmv_len) [0x87, 0x12] (rx_mem fr);
        rxmem \<leftarrow> read_at 0 24 mem1;
        (case recvframe_pull (int rmv_len - 14 + 2 - 24) (fr\<lparr>rx_mem := mem1\<rparr>) of
           (None, fr1) \<Rightarrow> None
         | (Some d, fr1) \<Rightarrow> do {
             mem2 \<leftarrow> write_at d rxmem mem1;
             Some (d + 24, fr1\<lparr>rx_mem := mem2\<rparr>) }) }
      else (case recvframe_pull (int rmv_len - 14 + (if bsnaphdr then 2 else 0)) fr of
         (None, fr1) \<Rightarrow> None
       | (Some d, fr1) \<Rightarrow> Some (d, fr1)))"

definition wlanhdr_to_ethhdr :: "rx_adapter \<Rightarrow> rx_frame \<Rightarrow> (status \<times> rx_frame) option" where
  "wlanhdr_to_ethhdr ad fr0 = do {
     let a = rx_attrs fr0;
     let ptr = rx_doff fr0;
     let fr1 = (if rx_encrypt a \<noteq> 0 then snd (recvframe_pull_tail (int (rx_icv_len fr0)) fr0) else fr0);
     psnap \<leftarrow> read_at (ptr + rx_hdrlen a + rx_iv_len a) SNAP_SIZE (rx_mem fr1);
     psnap_type \<leftarrow> read_at (ptr + rx_hdrlen a + rx_iv_len a + SNAP_SIZE) 2 (rx_mem fr1);
     let bsnaphdr = snap_encapsulated psnap psnap_type;
     let rmv_len = rx_hdrlen a + rx_iv_len a + (if bsnaphdr then SNAP_SIZE else 0);
     let len = (of_int (int (rx_flen fr1) - int rmv_len) :: u16);
     et \<leftarrow> read_at (ptr + rmv_len) 2 (rx_mem fr1);
     let fr2 = fr1\<lparr>rx_eth_type := be16_of (et ! 0) (et ! 1)\<rparr>;
     (dst, fr3) \<leftarrow> ethhdr_place ad bsnaphdr ptr rmv_len fr2;
     mem3 \<leftarrow> write_at dst (take 6 (rx_dst fr3)) (rx_mem fr3);
     mem4 \<leftarrow> write_at (dst + 6) (take 6 (rx_src fr3)) mem3;
     mem5 \<leftarrow> (if bsnaphdr then Some mem4 else write_at (dst + 12) (be16_bytes len) mem4);
     Some (SUCCESS, fr3\<lparr>rx_mem := mem5\<rparr>)
   }"

section \<open>Aggregates\<close>

text \<open>
  The walk over the subframes. \<open>pdata\<close> are the remaining bytes, so its length is
  \<^verbatim>\<open>a_len\<close>; the second component says whether the walk left by \<^verbatim>\<open>goto exit\<close>, with all
  subframes dropped.
\<close>

function amsdu_loop :: "nat \<Rightarrow> u8 list \<Rightarrow> u8 list list \<times> bool" where
  "amsdu_loop nr_subframes pdata =
     (if length pdata \<le> ETH_HLEN then ([], False)
      else
        let nSubframe_Length = unat (be16_of (pdata ! 12) (pdata ! 13)) in
        if length pdata < ETH_HLEN + nSubframe_Length then ([], True)
        else
          let sub_skb = take nSubframe_Length (drop ETH_HLEN pdata);
              rest = drop (ETH_HLEN + nSubframe_Length) pdata
          in if MAX_SUBFRAME_COUNT \<le> nr_subframes + 1 then ([sub_skb], False)
             else if rest = [] then ([sub_skb], False)
             else
               let p = 4 - (nSubframe_Length + ETH_HLEN) mod 4;
                   padding_len = (if p = 4 then 0 else p)
               in if length rest < padding_len then ([sub_skb], True)
                  else
                    let (subs, err) = amsdu_loop (nr_subframes + 1) (drop padding_len rest)
                    in (sub_skb # subs, err))"
  by pat_completeness auto
termination
  by (relation "measure (\<lambda>(nr, pdata). length pdata)") (auto simp: ETH_HLEN_def)

declare amsdu_loop.simps [simp del]

text \<open>The Ethernet packet of a subframe, with the addresses of the aggregate.\<close>

definition amsdu_packet :: "mac \<Rightarrow> mac \<Rightarrow> u8 list \<Rightarrow> u8 list" where
  "amsdu_packet dst src sub_skb =
     (if 8 \<le> length sub_skb \<and>
        (take 6 sub_skb = rtw_rfc1042_header \<and>
           take 2 (drop 6 sub_skb) \<noteq> SNAP_ETH_TYPE_APPLETALK_AARP \<and>
           take 2 (drop 6 sub_skb) \<noteq> SNAP_ETH_TYPE_IPX \<or>
         take 6 sub_skb = rtw_bridge_tunnel_header)
      then take 6 dst @ take 6 src @ drop SNAP_SIZE sub_skb
      else take 6 dst @ take 6 src @ be16_bytes (of_nat (length sub_skb)) @ sub_skb)"

definition amsdu_packets :: "rx_frame \<Rightarrow> u8 list list" where
  "amsdu_packets fr =
     (let fr1 = snd (recvframe_pull (int (rx_hdrlen (rx_attrs fr))) fr);
          fr2 = (if 0 < rx_iv_len (rx_attrs fr)
                 then snd (recvframe_pull (int (rx_iv_len (rx_attrs fr))) fr1) else fr1);
          pdata = take (rx_flen fr2) (drop (rx_doff fr2) (rx_mem fr2))
      in case amsdu_loop 0 pdata of (subs, err) \<Rightarrow>
        if err then [] else map (amsdu_packet (rx_dst fr) (rx_src fr)) subs)"

definition amsdu_to_msdu :: "nat \<Rightarrow> rx_adapter \<Rightarrow> status \<times> rx_adapter" where
  "amsdu_to_msdu f ad =
     (let fr = rxf ad f;
          ad1 = ad\<lparr>netif_rx := netif_rx ad @ amsdu_packets fr\<rparr>
      in (SUCCESS, free_frame f (set_rxf f (fr\<lparr>rx_flen := 0\<rparr>) ad1)))"

section \<open>Handing a packet on\<close>

text \<open>
  In an access point a packet for a group address goes both ways and one for an associated station
  only back to the air.
\<close>

definition rtw_recv_indicatepkt :: "nat \<Rightarrow> rx_adapter \<Rightarrow> status \<times> rx_adapter" where
  "rtw_recv_indicatepkt f ad =
     (case rf_pkt (recvpriv ad) f of
        None \<Rightarrow> (FAIL, free_frame f ad)
      | Some skb \<Rightarrow>
          let fr = rxf ad f; pkt = take (rx_flen fr) (drop (rx_doff fr) (rx_mem fr));
              bmcast = IS_MCAST (rx_dst fr);
              psta = (if check_fwstate ad WIFI_AP_STATE \<and> take 6 (rx_dst fr) \<noteq> myid ad
                      then if bmcast then bcmc_station ad
                           else rtw_get_stainfo (stapriv ad) (Some (rx_dst fr))
                      else None);
              ad1 = (if psta \<noteq> None then ad\<lparr>xmit_entry := xmit_entry ad @ [pkt]\<rparr> else ad);
              ad2 = (if psta \<noteq> None \<and> \<not> bmcast then ad1
                     else ad1\<lparr>netif_rx := netif_rx ad1 @ [pkt]\<rparr>);
              rp = recvpriv ad2
          in (SUCCESS, free_frame f (ad2\<lparr>recvpriv := rp\<lparr>rf_pkt := (rf_pkt rp)(f := None)\<rparr>\<rparr>)))"

section \<open>What the operations leave alone\<close>

lemma rqueue_free_frame:
  "rqueue (recvpriv (free_frame f ad)) =
     (\<lambda>q. removeAll f (rqueue (recvpriv ad) q) @ (if q = FREE_RECV then [f] else []))"
  by (simp add: free_frame_def free_recvframe_fields)

lemma free_frame_fields [simp]:
  "rxf (free_frame f ad) = rxf ad" "stapriv (free_frame f ad) = stapriv ad"
  "netif_rx (free_frame f ad) = netif_rx ad" "xmit_entry (free_frame f ad) = xmit_entry ad"
  "bDriverStopped (free_frame f ad) = bDriverStopped ad"
  "bSurpriseRemoved (free_frame f ad) = bSurpriseRemoved ad"
  "fw_state (free_frame f ad) = fw_state ad" "myid (free_frame f ad) = myid ad"
  "securitypriv (free_frame f ad) = securitypriv ad" "ht_option (free_frame f ad) = ht_option ad"
  by (simp_all add: free_frame_def)

lemma set_rxf_fields [simp]:
  "rxf (set_rxf f fr ad) = (rxf ad)(f := fr)" "stapriv (set_rxf f fr ad) = stapriv ad"
  "recvpriv (set_rxf f fr ad) = recvpriv ad" "netif_rx (set_rxf f fr ad) = netif_rx ad"
  "bDriverStopped (set_rxf f fr ad) = bDriverStopped ad"
  "bSurpriseRemoved (set_rxf f fr ad) = bSurpriseRemoved ad"
  "fw_state (set_rxf f fr ad) = fw_state ad" "myid (set_rxf f fr ad) = myid ad"
  "securitypriv (set_rxf f fr ad) = securitypriv ad" "ht_option (set_rxf f fr ad) = ht_option ad"
  by (simp_all add: set_rxf_def)

lemma indicatepkt_fields:
  "rqueue (recvpriv (snd (rtw_recv_indicatepkt f ad))) =
     (\<lambda>q. removeAll f (rqueue (recvpriv ad) q) @ (if q = FREE_RECV then [f] else []))"
  "rxf (snd (rtw_recv_indicatepkt f ad)) = rxf ad"
  "stapriv (snd (rtw_recv_indicatepkt f ad)) = stapriv ad"
  "bDriverStopped (snd (rtw_recv_indicatepkt f ad)) = bDriverStopped ad"
  "bSurpriseRemoved (snd (rtw_recv_indicatepkt f ad)) = bSurpriseRemoved ad"
  "fw_state (snd (rtw_recv_indicatepkt f ad)) = fw_state ad"
  by (auto simp: rtw_recv_indicatepkt_def Let_def rqueue_free_frame split: option.splits)

lemma amsdu_to_msdu_fields:
  "rqueue (recvpriv (snd (amsdu_to_msdu f ad))) =
     (\<lambda>q. removeAll f (rqueue (recvpriv ad) q) @ (if q = FREE_RECV then [f] else []))"
  "rxf (snd (amsdu_to_msdu f ad)) = (rxf ad)(f := (rxf ad f)\<lparr>rx_flen := 0\<rparr>)"
  "stapriv (snd (amsdu_to_msdu f ad)) = stapriv ad"
  "bDriverStopped (snd (amsdu_to_msdu f ad)) = bDriverStopped ad"
  "bSurpriseRemoved (snd (amsdu_to_msdu f ad)) = bSurpriseRemoved ad"
  "fst (amsdu_to_msdu f ad) = SUCCESS"
  by (auto simp: amsdu_to_msdu_def Let_def rqueue_free_frame)

section \<open>Splitting an aggregate\<close>

lemma be16_of_bytes [simp]: "be16_of (ucast (drop_bit 8 x)) (ucast x) = (x :: u16)"
  by (rule bit_word_eqI)
    (auto simp: be16_of_def bit_simps not_less le_Suc_eq elim!: less_natE dest: bit_imp_le_length)

text \<open>The aggregate of the standard: each subframe but the last is padded to four bytes.\<close>

definition amsdu_pad :: "u8 list \<Rightarrow> u8 list" where
  "amsdu_pad p = replicate ((4 - (length p + 14) mod 4) mod 4) 0"

definition amsdu_sub :: "u8 list \<times> u8 list \<Rightarrow> u8 list" where
  "amsdu_sub hp = fst hp @ be16_bytes (of_nat (length (snd hp))) @ snd hp"

fun amsdu_encode :: "(u8 list \<times> u8 list) list \<Rightarrow> u8 list" where
  "amsdu_encode [] = []"
| "amsdu_encode [hp] = amsdu_sub hp"
| "amsdu_encode (hp # hq # hps) = amsdu_sub hp @ amsdu_pad (snd hp) @ amsdu_encode (hq # hps)"

definition amsdu_sub_ok :: "u8 list \<times> u8 list \<Rightarrow> bool" where
  "amsdu_sub_ok hp \<longleftrightarrow> length (fst hp) = 12 \<and> snd hp \<noteq> [] \<and> length (snd hp) < 2 ^ 16"

lemma amsdu_sub_parts:
  assumes "amsdu_sub_ok hp"
  shows "unat (be16_of ((amsdu_sub hp @ r) ! 12) ((amsdu_sub hp @ r) ! 13)) = length (snd hp)"
    and "length (amsdu_sub hp) = 14 + length (snd hp)"
    and "drop 14 (amsdu_sub hp) = snd hp"
proof -
  have l: "length (fst hp) = 12" "length (snd hp) < 2 ^ 16" using assms by (auto simp: amsdu_sub_ok_def)
  have "(amsdu_sub hp @ r) ! 12 = ucast (drop_bit 8 (of_nat (length (snd hp)) :: u16))"
    "(amsdu_sub hp @ r) ! 13 = ucast (of_nat (length (snd hp)) :: u16)"
    using l by (simp_all add: amsdu_sub_def be16_bytes_def nth_append)
  then show "unat (be16_of ((amsdu_sub hp @ r) ! 12) ((amsdu_sub hp @ r) ! 13)) = length (snd hp)"
    using l by (simp only: be16_of_bytes) (simp add: unat_of_nat take_bit_nat_eq_self)
  show "length (amsdu_sub hp) = 14 + length (snd hp)" "drop 14 (amsdu_sub hp) = snd hp"
    using l by (simp_all add: amsdu_sub_def be16_bytes_def)
qed

lemma amsdu_pad_len:
  "(let p = 4 - (length s + ETH_HLEN) mod 4 in if p = 4 then 0 else p) = length (amsdu_pad s)"
  by (auto simp: amsdu_pad_def Let_def ETH_HLEN_def)

lemma amsdu_loop_encode:
  assumes "list_all amsdu_sub_ok hps" and "nr + length hps \<le> MAX_SUBFRAME_COUNT"
  shows "amsdu_loop nr (amsdu_encode hps) = (map snd hps, False)"
  using assms
proof (induction hps arbitrary: nr rule: amsdu_encode.induct)
  case 1
  then show ?case by (simp add: amsdu_loop.simps)
next
  case (2 hp)
  then have ok: "amsdu_sub_ok hp" by simp
  then have "snd hp \<noteq> []" by (simp add: amsdu_sub_ok_def)
  with amsdu_sub_parts(1) [OF ok, of "[]"] amsdu_sub_parts(2,3) [OF ok] show ?case
    by (subst amsdu_loop.simps) (simp add: ETH_HLEN_def Let_def)
next
  case (3 hp hq hps)
  define r where "r = amsdu_pad (snd hp) @ amsdu_encode (hq # hps)"
  have ok: "amsdu_sub_ok hp" and ok': "list_all amsdu_sub_ok (hq # hps)" using 3 by auto
  note parts = amsdu_sub_parts(1) [OF ok, of r] amsdu_sub_parts(2,3) [OF ok]
  have "amsdu_encode (hq # hps) \<noteq> []"
    by (cases hps) (auto simp: amsdu_sub_def be16_bytes_def)
  then have r: "r \<noteq> []" by (simp add: r_def)
  have dr: "drop (14 + length (snd hp)) (amsdu_sub hp @ r) = r" using parts by simp
  have tk: "take (length (snd hp)) (drop 14 (amsdu_sub hp @ r)) = snd hp" using parts by simp
  have pad: "drop (length (amsdu_pad (snd hp))) r = amsdu_encode (hq # hps)"
    "\<not> length r < length (amsdu_pad (snd hp))" by (simp_all add: r_def)
  have IH: "amsdu_loop (nr + 1) (amsdu_encode (hq # hps)) = (map snd (hq # hps), False)"
    using 3 ok' by simp
  have ne: "snd hp \<noteq> []" using ok by (simp add: amsdu_sub_ok_def)
  have enc: "amsdu_encode (hp # hq # hps) = amsdu_sub hp @ r" by (simp add: r_def)
  have "amsdu_loop nr (amsdu_sub hp @ r) =
      (let (subs, err) = amsdu_loop (nr + 1) (drop (length (amsdu_pad (snd hp))) r)
       in (snd hp # subs, err))"
    using parts(1,2) r pad(2) 3(3) ne
    by (subst amsdu_loop.simps)
      (simp only: ETH_HLEN_def [symmetric] dr [folded ETH_HLEN_def] tk [folded ETH_HLEN_def]
        amsdu_pad_len [unfolded Let_def] Let_def parts(1) if_False refl,
        simp add: ETH_HLEN_def)
  then show ?case by (simp only: enc pad IH) simp
qed

text \<open>Whatever the bytes are, the subframes lie one behind the other within them.\<close>

lemma amsdu_loop_bounds:
  assumes "nr < MAX_SUBFRAME_COUNT"
  shows "sum_list (map (\<lambda>s. 14 + length s) (fst (amsdu_loop nr pdata))) \<le> length pdata \<and>
    nr + length (fst (amsdu_loop nr pdata)) \<le> MAX_SUBFRAME_COUNT"
  using assms
proof (induction nr pdata rule: amsdu_loop.induct)
  case (1 nr pdata)
  define n where "n = unat (be16_of (pdata ! 12) (pdata ! 13))"
  define p where "p = (let p = 4 - (n + ETH_HLEN) mod 4 in if p = 4 then 0 else p)"
  define rest where "rest = drop (ETH_HLEN + n) pdata"
  show ?case
  proof (cases "length pdata \<le> ETH_HLEN \<or> length pdata < ETH_HLEN + n \<or>
      MAX_SUBFRAME_COUNT \<le> nr + 1 \<or> rest = [] \<or> length rest < p")
    case True
    then show ?thesis using 1(2)
      by (subst (1 2) amsdu_loop.simps) (auto simp: Let_def n_def p_def rest_def ETH_HLEN_def)
  next
    case False
    then have IH: "sum_list (map (\<lambda>s. 14 + length s) (fst (amsdu_loop (nr + 1) (drop p rest)))) \<le>
        length (drop p rest) \<and>
      (nr + 1) + length (fst (amsdu_loop (nr + 1) (drop p rest))) \<le> MAX_SUBFRAME_COUNT"
      using 1(1) [OF _ refl _ refl refl _ _ refl refl] by (simp add: n_def p_def rest_def Let_def)
    have eq: "amsdu_loop nr pdata =
        (take n (drop ETH_HLEN pdata) # fst (amsdu_loop (nr + 1) (drop p rest)),
         snd (amsdu_loop (nr + 1) (drop p rest)))"
      using False by (subst amsdu_loop.simps)
        (simp add: Let_def n_def p_def rest_def case_prod_beta)
    have "length rest = length pdata - (14 + n)" "14 + n \<le> length pdata" "p \<le> length rest"
      using False by (simp_all add: rest_def ETH_HLEN_def)
    then show ?thesis using IH by (auto simp: eq ETH_HLEN_def)
  qed
qed

section \<open>Rewriting the header\<close>

lemma frame_data_split:
  assumes "rx_frame_ok fr" and "frame_data fr = xs @ ys"
  shows "rx_mem fr = take (rx_doff fr) (rx_mem fr) @ xs @ ys @ drop (rx_toff fr) (rx_mem fr)"
proof -
  have "take (rx_toff fr) (rx_mem fr) = take (rx_doff fr) (rx_mem fr) @ frame_data fr"
    using assms(1) by (simp add: frame_data_def rx_frame_ok_def flip: take_add)
  then show ?thesis by (metis append.assoc append_take_drop_id assms(2))
qed

lemma pull_keeps:
  "rx_seq_num (snd (recvframe_pull_tail sz fr)) = rx_seq_num fr"
  "rx_amsdu (snd (recvframe_pull_tail sz fr)) = rx_amsdu fr"
  by (auto simp: recvframe_pull_tail_def Let_def)

lemma ethhdr_place_keeps:
  assumes "ethhdr_place ad b p l fr = Some (d, fr')"
  shows "rx_seq_num fr' = rx_seq_num fr \<and> rx_amsdu fr' = rx_amsdu fr"
  using assms
  by (auto simp: ethhdr_place_def bind_eq_Some_conv recvframe_pull_def Let_def split: if_split_asm)

lemma wlanhdr_to_ethhdr_keeps:
  assumes "wlanhdr_to_ethhdr ad fr = Some (st, fr')"
  shows "rx_seq_num fr' = rx_seq_num fr" and "rx_amsdu fr' = rx_amsdu fr"
  using assms
  by (auto simp: wlanhdr_to_ethhdr_def Let_def bind_eq_Some_conv pull_keeps
      split: prod.split_asm dest!: ethhdr_place_keeps)

lemma write_at_append_fun:
  "write_at off (ys @ zs) = (\<lambda>b. Option.bind (write_at off ys b) (write_at (off + length ys) zs))"
  by (rule ext) (rule write_at_append)

lemma write_header:
  assumes "n \<le> length xs" and "m = length pre + length xs - n" and "length ys = n"
  shows "write_at m ys (pre @ xs @ post) = Some (pre @ take (length xs - n) xs @ ys @ post)"
  using assms by (simp add: write_at_def)

text \<open>
  The Ethernet packet of a data frame: addresses, then the encapsulated protocol, or the length
  and the whole body when the body is not one of the two known encapsulations.
\<close>

definition eth_packet :: "rx_frame \<Rightarrow> u8 list \<Rightarrow> u8 list" where
  "eth_packet fr body =
     take 6 (rx_dst fr) @ take 6 (rx_src fr) @
     (if snap_encapsulated (take 6 body) (take 2 (drop 6 body)) then drop 6 body
      else be16_bytes (of_nat (length body)) @ body)"

lemma wlanhdr_to_ethhdr_core:
  assumes ok: "rx_frame_ok fr" and mp: "\<not> check_fwstate ad WIFI_MP_STATE"
    and data: "frame_data fr = hdr @ body @ icv"
    and hdr: "length hdr = rx_hdrlen (rx_attrs fr) + rx_iv_len (rx_attrs fr)" "14 \<le> length hdr"
    and icv: "length icv = (if rx_encrypt (rx_attrs fr) \<noteq> 0 then rx_icv_len fr else 0)"
    and body: "8 \<le> length body"
    and addr: "length (rx_dst fr) = 6" "length (rx_src fr) = 6"
  shows "\<exists>fr'. wlanhdr_to_ethhdr ad fr = Some (SUCCESS, fr') \<and> rx_frame_ok fr' \<and>
    frame_data fr' = eth_packet fr body \<and> rx_seq_num fr' = rx_seq_num fr \<and>
    rx_amsdu fr' = rx_amsdu fr \<and> rx_dst fr' = rx_dst fr"
proof -
  define a where "a = rx_attrs fr"
  define pre where "pre = take (rx_doff fr) (rx_mem fr)"
  define post where "post = icv @ drop (rx_toff fr) (rx_mem fr)"
  define sn where "sn = snap_encapsulated (take 6 body) (take 2 (drop 6 body))"
  define k where "k = length hdr + (if sn then 6 else 0)"
  define n where "n = (if sn then 12 else 14 :: nat)"
  have mem: "rx_mem fr = pre @ hdr @ body @ post"
    using frame_data_split [OF ok, of hdr "body @ icv"] data by (simp add: pre_def post_def)
  have off: "rx_doff fr = length pre" using ok by (simp add: pre_def rx_frame_ok_def)
  have len: "rx_flen fr = length hdr + length body + length icv"
    using length_frame_data [OF ok] data by simp
  have toff: "rx_toff fr = length pre + length hdr + length body + length icv"
    using ok off len unfolding rx_frame_ok_def by linarith
  define fr1 where "fr1 = fr\<lparr>rx_toff := rx_toff fr - length icv, rx_flen := rx_flen fr - length icv\<rparr>"
  have fr1: "(if rx_encrypt a \<noteq> 0 then snd (recvframe_pull_tail (int (rx_icv_len fr)) fr) else fr) = fr1"
  proof (cases "rx_encrypt a = 0")
    case False
    then have "rx_icv_len fr = length icv" using icv by (simp add: a_def)
    then show ?thesis using recvframe_pull_tail_ok [OF ok, of "length icv"] False len by (simp add: fr1_def)
  qed (use icv in \<open>simp add: a_def fr1_def\<close>)
  have r1: "read_at (rx_doff fr + rx_hdrlen a + rx_iv_len a) 6 (rx_mem fr) = Some (take 6 body)"
    and r2: "read_at (rx_doff fr + rx_hdrlen a + rx_iv_len a + 6) 2 (rx_mem fr) = Some (take 2 (drop 6 body))"
    using hdr body by (simp_all add: mem off a_def read_at_def)
  have kn: "n \<le> k" "k \<le> length hdr + length body" using hdr body by (auto simp: k_def n_def)
  have "rx_doff fr + k + 2 \<le> length (rx_mem fr)"
    using body by (simp add: mem off k_def)
  then obtain et where r3: "read_at (rx_doff fr + k) 2 (rx_mem fr) = Some et"
    using read_at_eq_Some by blast
  define xs where "xs = take k (hdr @ body)"
  define ys where "ys = drop k (hdr @ body)"
  have xy: "hdr @ body = xs @ ys" "length xs = k"
    unfolding xs_def ys_def append_take_drop_id using kn(2) by simp_all
  define fr2 where "fr2 = fr1\<lparr>rx_eth_type := be16_of (et ! 0) (et ! 1)\<rparr>"
  define fr3 where "fr3 = fr2\<lparr>rx_doff := length pre + (k - n), rx_flen := rx_flen fr2 - (k - n)\<rparr>"
  have ok2: "rx_frame_ok fr2" using ok len toff off
    by (simp add: fr2_def fr1_def rx_frame_ok_def)
  have "recvframe_pull (int (k - n)) fr2 = (Some (rx_doff fr2 + (k - n)), fr3)"
    using recvframe_pull_ok [OF ok2, of "k - n"] len kn by (simp add: fr2_def fr1_def fr3_def off)
  moreover have "int k - 14 + (if sn then 2 else 0) = int (k - n)"
    using kn(1) by (auto simp: n_def)
  ultimately have pull: "recvframe_pull (int k - 14 + (if sn then 2 else 0)) fr2 = (Some (length pre + (k - n)), fr3)"
    by (simp add: fr2_def fr1_def off)
  have mem3: "rx_mem fr3 = pre @ xs @ ys @ post"
    using mem xy by (simp add: fr3_def fr2_def fr1_def)
  define hd' where "hd' = rx_dst fr @ rx_src fr @ (if sn then [] else be16_bytes (of_nat (length body)))"
  have lh: "length hd' = n" using addr by (simp add: hd'_def n_def be16_bytes_def)
  define mem' where "mem' = pre @ take (k - n) xs @ hd' @ ys @ post"
  have w: "write_at (length pre + (k - n)) hd' (rx_mem fr3) = Some mem'"
    using write_header [of n xs _ pre hd' "ys @ post"] kn xy lh by (simp add: mem3 mem'_def)
  have l16: "(of_int (int (rx_flen fr1) - int k) :: u16) = of_nat (length body)" if "\<not> sn"
    using that by (simp add: fr1_def len k_def)
  have code: "wlanhdr_to_ethhdr ad fr = Some (SUCCESS, fr3\<lparr>rx_mem := mem'\<rparr>)"
  proof -
    have fl: "rx_mem fr1 = rx_mem fr" "rx_dst fr3 = rx_dst fr" "rx_src fr3 = rx_src fr"
      by (simp_all add: fr1_def fr3_def fr2_def)
    have k_eq: "rx_hdrlen a + rx_iv_len a + (if sn then 6 else 0) = k"
      using hdr by (simp add: k_def a_def)
    have "Option.bind (write_at (length pre + (k - n)) (rx_dst fr) (rx_mem fr3))
        (\<lambda>m. Option.bind (write_at (length pre + (k - n) + 6) (rx_src fr) m)
          (\<lambda>m. if sn then Some m else write_at (length pre + (k - n) + 12) (be16_bytes (of_nat (length body))) m)) = Some mem'"
      using w addr unfolding hd'_def by (cases sn) (simp_all add: write_at_append_fun ac_simps)
    then have W: "Option.bind (write_at (length pre + (k - n)) (rx_dst fr) (rx_mem fr3))
        (\<lambda>m. Option.bind (write_at (length pre + (k - n) + 6) (rx_src fr) m)
          (\<lambda>m. Option.bind (if sn then Some m else write_at (length pre + (k - n) + 12)
              (be16_bytes (of_int (int (rx_flen fr1) - int k))) m)
            (\<lambda>m. Some (SUCCESS, fr3\<lparr>rx_mem := m\<rparr>)))) = Some (SUCCESS, fr3\<lparr>rx_mem := mem'\<rparr>)"
      using l16 by (cases sn) (auto split: bind_splits)
    have t6: "take 6 (rx_dst fr) = rx_dst fr" "take 6 (rx_src fr) = rx_src fr" using addr by simp_all
    show ?thesis
      using W by (simp only: wlanhdr_to_ethhdr_def Let_def a_def [symmetric] fr1 fl t6 r1 r2 r3
          SNAP_SIZE_def bind.bind_lunit sn_def [symmetric] k_eq ethhdr_place_def fr2_def [symmetric] mp if_False pull
          prod.case option.case)
  qed
  show ?thesis
  proof (intro exI conjI)
    show "wlanhdr_to_ethhdr ad fr = Some (SUCCESS, fr3\<lparr>rx_mem := mem'\<rparr>)" by (rule code)
    have lx: "length xs + length ys = length hdr + length body"
      using arg_cong [OF xy(1), of length] by simp
    then have lm: "length mem' = length (rx_mem fr)" using mem xy(2) kn lh by (simp add: mem'_def)
    have tf: "rx_toff fr3 = length pre + length hdr + length body" "rx_doff fr3 = length pre + (k - n)"
      "rx_flen fr3 = length hdr + length body - (k - n)"
      using toff len by (simp_all add: fr3_def fr2_def fr1_def)
    show "rx_frame_ok (fr3\<lparr>rx_mem := mem'\<rparr>)"
      using kn lm mem by (auto simp: rx_frame_ok_def tf)
    have d: "ys = (if sn then drop 6 body else body)"
      by (simp add: ys_def k_def)
    show "frame_data (fr3\<lparr>rx_mem := mem'\<rparr>) = eth_packet fr body"
      using kn xy(2) lh lx addr
      by (simp add: frame_data_def tf mem'_def eth_packet_def hd'_def d flip: sn_def)
  qed (simp_all add: fr3_def fr2_def fr1_def)
qed

section \<open>Properties\<close>

definition sample_rx_frame :: "u8 list \<Rightarrow> rx_frame" where
  "sample_rx_frame bytes = \<lparr>rx_attrs = \<lparr>rx_encrypt = 0, rx_hdrlen = 24, rx_iv_len = 0, rx_key_index = 0,
       rx_ta = [2, 0, 0, 0, 0, 2], rx_ra = [2, 0, 0, 0, 0, 1]\<rparr>,
     rx_icv_len = 0, rx_bdecrypted = 0, rx_privacy = 0, rx_seq_num = 7, rx_frag_num = 0, rx_mfrag = 0,
     rx_qos = 1, rx_amsdu = 0, rx_priority = 0, rx_dst = [2, 0, 0, 0, 0, 1], rx_src = [2, 0, 0, 0, 0, 2],
     rx_bssid = [2, 0, 0, 0, 0, 2], rx_to_fr_ds = 1, rx_pw_save = False, rx_mdata = False, rx_order = False,
     rx_ack_policy = 0, rx_eth_type = 0, rx_psta = Some 0, rx_preorder = Some (0, 0), rx_mem = bytes, rx_doff = 0, rx_toff = length bytes,
     rx_flen = length bytes\<rparr>"

definition sample_rx_adapter :: rx_adapter where
  "sample_rx_adapter = \<lparr>stapriv = sample_stations [2, 0, 0, 0, 0, 2], xmitpriv = xmitpriv sample_adapter,
     recvpriv = \<lparr>rqueue = (\<lambda>q. []), free_recvframe_cnt = 0, rf_pkt = (\<lambda>f. Some f), skb_freed = []\<rparr>,
     securitypriv = sample_security, fw_state = WIFI_STATION_STATE, ht_option = True,
     myid = [2, 0, 0, 0, 0, 1], get_bssid = [2, 0, 0, 0, 0, 2],
     mlme_key_index = 1, bDriverStopped = False, bSurpriseRemoved = False,
     rxf = (\<lambda>f. sample_rx_frame (replicate 40 0)), netif_rx = [], xmit_entry = [], rx_events = [], rx_drop = 0,
     rx_pkts = 0, jiffies = 500, kernel_HZ = 100\<rparr>"

text \<open>
  From 802.11 to Ethernet. A data frame of header, body and, when encrypted, integrity value
  becomes in its own buffer the Ethernet packet of its body: destination and source address, then
  the protocol and data of an RFC 1042 or bridge tunnel encapsulation, or length and body of
  anything else; the integrity value is gone and nothing outside the frame is read or written.
\<close>

theorem wlanhdr_to_ethhdr_spec:
  assumes "rx_frame_ok fr" and "\<not> check_fwstate ad WIFI_MP_STATE"
    and "frame_data fr = hdr @ body @ icv"
    and "length hdr = rx_hdrlen (rx_attrs fr) + rx_iv_len (rx_attrs fr)" and "14 \<le> length hdr"
    and "length icv = (if rx_encrypt (rx_attrs fr) \<noteq> 0 then rx_icv_len fr else 0)"
    and "8 \<le> length body" and "length (rx_dst fr) = 6" and "length (rx_src fr) = 6"
  shows "\<exists>fr'. wlanhdr_to_ethhdr ad fr = Some (SUCCESS, fr') \<and> rx_frame_ok fr' \<and>
    frame_data fr' = eth_packet fr body"
  using wlanhdr_to_ethhdr_core [OF assms] by blast

theorem wlanhdr_to_ethhdr_spec_witness:
  "\<exists>fr'. wlanhdr_to_ethhdr sample_rx_adapter (sample_rx_frame (replicate 40 0)) = Some (SUCCESS, fr') \<and>
     frame_data fr' = eth_packet (sample_rx_frame (replicate 40 0)) (replicate 16 0)"
  using wlanhdr_to_ethhdr_spec [of "sample_rx_frame (replicate 40 0)" sample_rx_adapter
      "replicate 24 0" "replicate 16 0" "[]"]
  by (auto simp: rx_frame_ok_def frame_data_def sample_rx_frame_def sample_rx_adapter_def
      check_fwstate_def WIFI_MP_STATE_def WIFI_STATION_STATE_def simp flip: replicate_add)

text \<open>
  C29: Splitting an aggregate. For every aggregate of at most 64 subframes that is well formed,
  \<^verbatim>\<open>amsdu_to_msdu\<close> gives the network stack one packet per subframe, in order, and frees the
  frame. Each packet has the addresses of the aggregate: those in the header of its subframe
  have no influence.
\<close>

theorem amsdu_to_msdu_delivers:
  assumes "rx_frame_ok (rxf ad f)"
    and "frame_data (rxf ad f) = hdr @ iv @ amsdu_encode subs"
    and "length hdr = rx_hdrlen (rx_attrs (rxf ad f))" and "length iv = rx_iv_len (rx_attrs (rxf ad f))"
    and "list_all amsdu_sub_ok subs" and "length subs \<le> MAX_SUBFRAME_COUNT"
  shows "fst (amsdu_to_msdu f ad) = SUCCESS \<and>
    netif_rx (snd (amsdu_to_msdu f ad)) = netif_rx ad @
      map (\<lambda>(addresses, msdu). amsdu_packet (rx_dst (rxf ad f)) (rx_src (rxf ad f)) msdu) subs \<and>
    f \<in> set (rqueue (recvpriv (snd (amsdu_to_msdu f ad))) FREE_RECV)"
proof -
  define fr where "fr = rxf ad f"
  define fr1 where "fr1 = snd (recvframe_pull (int (rx_hdrlen (rx_attrs fr))) fr)"
  have len: "rx_flen fr = length hdr + length iv + length (amsdu_encode subs)"
    using length_frame_data [OF assms(1)] assms(2) by (simp add: fr_def)
  have ok: "rx_frame_ok fr" using assms(1) by (simp add: fr_def)
  have ok1: "rx_frame_ok fr1" unfolding fr1_def by (rule recvframe_moves_ok(1) [OF ok]) simp
  have e1: "fr1 = fr\<lparr>rx_doff := rx_doff fr + length hdr, rx_flen := rx_flen fr - length hdr\<rparr>"
    using recvframe_pull_ok [OF ok, of "length hdr"] len assms(3) by (simp add: fr1_def fr_def)
  define fr2 where "fr2 = (if 0 < rx_iv_len (rx_attrs fr)
    then snd (recvframe_pull (int (rx_iv_len (rx_attrs fr))) fr1) else fr1)"
  have e2: "fr2 = fr\<lparr>rx_doff := rx_doff fr + length hdr + length iv,
      rx_flen := rx_flen fr - length hdr - length iv\<rparr>"
    using recvframe_pull_ok [OF ok1, of "length iv"] len assms(4)
    by (simp add: fr2_def e1 fr_def)
  have split: "rx_mem fr = take (rx_doff fr) (rx_mem fr) @ (hdr @ iv) @ amsdu_encode subs @
      drop (rx_toff fr) (rx_mem fr)"
    using frame_data_split [OF ok, of "hdr @ iv" "amsdu_encode subs"] assms(2) by (simp add: fr_def)
  have "take (rx_flen fr2) (drop (rx_doff fr2) (rx_mem fr2)) = amsdu_encode subs"
  proof -
    have "length (take (rx_doff fr) (rx_mem fr)) = rx_doff fr" using ok by (simp add: rx_frame_ok_def)
    then have "drop (rx_doff fr + length hdr + length iv) (rx_mem fr) =
        amsdu_encode subs @ drop (rx_toff fr) (rx_mem fr)"
      by (subst split) (simp add: add.assoc)
    then show ?thesis using len by (simp add: e2)
  qed
  then have "amsdu_packets fr = map (amsdu_packet (rx_dst fr) (rx_src fr)) (map snd subs)"
    using amsdu_loop_encode [OF assms(5), of 0] assms(6)
    by (simp only: amsdu_packets_def Let_def fr1_def [symmetric] fr2_def [symmetric]) simp
  then show ?thesis
    by (auto simp: amsdu_to_msdu_def Let_def rqueue_free_frame fr_def case_prod_beta comp_def)
qed

definition sample_amsdu :: "(u8 list \<times> u8 list) list" where
  "sample_amsdu = [(replicate 12 1, [5, 6, 7]), (replicate 12 2, [8, 8, 8, 8, 8, 8, 8, 8, 8])]"

theorem amsdu_to_msdu_delivers_witness:
  "netif_rx (snd (amsdu_to_msdu 3
      (sample_rx_adapter\<lparr>rxf := (\<lambda>f. sample_rx_frame (replicate 24 0 @ amsdu_encode sample_amsdu))\<rparr>))) =
    [[2, 0, 0, 0, 0, 1, 2, 0, 0, 0, 0, 2, 0, 3, 5, 6, 7],
     [2, 0, 0, 0, 0, 1, 2, 0, 0, 0, 0, 2, 0, 9, 8, 8, 8, 8, 8, 8, 8, 8, 8]]"
proof -
  define bytes where "bytes = replicate 24 0 @ amsdu_encode sample_amsdu"
  define ad where "ad = sample_rx_adapter\<lparr>rxf := (\<lambda>f. sample_rx_frame bytes)\<rparr>"
  have f: "rxf ad 3 = sample_rx_frame bytes" "netif_rx ad = []"
    by (simp_all add: ad_def sample_rx_adapter_def)
  have fr: "rx_frame_ok (sample_rx_frame bytes)" "frame_data (sample_rx_frame bytes) = bytes"
    "rx_hdrlen (rx_attrs (sample_rx_frame bytes)) = 24" "rx_iv_len (rx_attrs (sample_rx_frame bytes)) = 0"
    "rx_dst (sample_rx_frame bytes) = [2, 0, 0, 0, 0, 1]"
    "rx_src (sample_rx_frame bytes) = [2, 0, 0, 0, 0, 2]"
    by (simp_all add: sample_rx_frame_def rx_frame_ok_def frame_data_def)
  have subs: "list_all amsdu_sub_ok sample_amsdu" "length sample_amsdu \<le> MAX_SUBFRAME_COUNT"
    by (simp_all add: sample_amsdu_def amsdu_sub_ok_def MAX_SUBFRAME_COUNT_def)
  have "netif_rx (snd (amsdu_to_msdu 3 ad)) = netif_rx ad @
      map (\<lambda>(addresses, msdu). amsdu_packet (rx_dst (rxf ad 3)) (rx_src (rxf ad 3)) msdu) sample_amsdu"
    by (rule conjunct1 [OF conjunct2 [OF amsdu_to_msdu_delivers [of _ _ "replicate 24 0" "[]"]]])
      (simp_all add: f fr subs, simp add: bytes_def)
  also have "\<dots> = [[2, 0, 0, 0, 0, 1, 2, 0, 0, 0, 0, 2, 0, 3, 5, 6, 7],
     [2, 0, 0, 0, 0, 1, 2, 0, 0, 0, 0, 2, 0, 9, 8, 8, 8, 8, 8, 8, 8, 8, 8]]"
    by (simp add: f fr sample_amsdu_def amsdu_packet_def be16_bytes_def
        rtw_rfc1042_header_def rtw_bridge_tunnel_header_def)
  finally show ?thesis by (simp only: ad_def bytes_def)
qed

text \<open>
  The walk over an aggregate stays inside it. Whatever the bytes are, the walk ends, the
  subframes it cuts out lie one behind the other, headers included, within the data, and
  there are never more than the 64 the array of the code holds.
\<close>

theorem amsdu_subframes_bounded:
  "sum_list (map (\<lambda>s. ETH_HLEN + length s) (fst (amsdu_loop 0 pdata))) \<le> length pdata \<and>
   length (fst (amsdu_loop 0 pdata)) \<le> MAX_SUBFRAME_COUNT"
  using amsdu_loop_bounds [of 0 pdata] by (simp add: ETH_HLEN_def MAX_SUBFRAME_COUNT_def)

end
