(* ===== verification/Rx_Reorder.thy ===== *)
theory Rx_Reorder
  imports Rx_Ethernet
begin

text \<open>
  The reordering of the frames of a block acknowledgement agreement (\<^verbatim>\<open>core/rtw_recv.c\<close>,
  \<^verbatim>\<open>check_indicate_seq\<close> to \<^verbatim>\<open>rtw_reordering_ctrl_timeout_handler\<close>). The code counts with the
  12-bit sequence numbers of the air; the abstract reorder buffer \<open>rob\<close> below counts without
  wrapping and keeps a set of numbers. The code refines it as long as every frame arrives within
  half the number space of the window, and so hands frames on in order.
\<close>

section \<open>The code\<close>

definition SN_LESS :: "u16 \<Rightarrow> u16 \<Rightarrow> bool" where "SN_LESS a b \<longleftrightarrow> (a - b) AND 0x800 \<noteq> 0"
definition SN_EQUAL :: "u16 \<Rightarrow> u16 \<Rightarrow> bool" where "SN_EQUAL a b \<longleftrightarrow> a = b"

definition check_indicate_seq :: "recv_reorder_ctrl \<Rightarrow> u16 \<Rightarrow> bool \<times> recv_reorder_ctrl" where
  "check_indicate_seq c seq_num =
     (let wsize = (ucast (wsize_b c) :: u16);
          wend = (indicate_seq c + wsize - 1) AND 0xFFF;
          c1 = (if indicate_seq c = 0xFFFF then c\<lparr>indicate_seq := seq_num\<rparr> else c)
      in if SN_LESS seq_num (indicate_seq c1) then (False, c1)
         else if SN_EQUAL seq_num (indicate_seq c1)
         then (True, c1\<lparr>indicate_seq := (indicate_seq c1 + 1) AND 0xFFF\<rparr>)
         else if SN_LESS wend seq_num
         then (True, c1\<lparr>indicate_seq := (if uint wsize - 1 \<le> uint seq_num then seq_num + 1 - wsize
                                        else 0xFFF - (wsize - (seq_num + 1)) + 1)\<rparr>)
         else (True, c1))"

text \<open>The place of a frame in the pending queue; \<open>None\<close> for a duplicate.\<close>

fun enqueue_reorder :: "(nat \<Rightarrow> u16) \<Rightarrow> nat \<Rightarrow> nat list \<Rightarrow> nat list option" where
  "enqueue_reorder sn f [] = Some [f]"
| "enqueue_reorder sn f (g # gs) =
     (if SN_LESS (sn g) (sn f) then map_option ((#) g) (enqueue_reorder sn f gs)
      else if SN_EQUAL (sn g) (sn f) then None
      else Some (f # g # gs))"

text \<open>The reordering control \<open>t\<close> of station \<open>i\<close>; its queue is \<open>REORDER i t\<close> of the pool.\<close>

definition get_ctrl :: "nat \<Rightarrow> nat \<Rightarrow> rx_adapter \<Rightarrow> recv_reorder_ctrl" where
  "get_ctrl i t ad = recvreorder_ctrl (stainfo_buf (stapriv ad) ! i) ! t"

definition set_ctrl :: "nat \<Rightarrow> nat \<Rightarrow> recv_reorder_ctrl \<Rightarrow> rx_adapter \<Rightarrow> rx_adapter" where
  "set_ctrl i t c ad =
     (let s = stapriv ad; p = stainfo_buf s ! i in
      ad\<lparr>stapriv := s\<lparr>stainfo_buf := (stainfo_buf s)[i :=
        p\<lparr>recvreorder_ctrl := (recvreorder_ctrl p)[t := c]\<rparr>]\<rparr>\<rparr>)"

definition enqueue_reorder_recvframe :: "nat \<Rightarrow> nat \<Rightarrow> nat \<Rightarrow> rx_adapter \<Rightarrow> bool \<times> rx_adapter" where
  "enqueue_reorder_recvframe i t f ad =
     (case enqueue_reorder (\<lambda>g. rx_seq_num (rxf ad g)) f (rqueue (recvpriv ad) (REORDER i t)) of
        None \<Rightarrow> (False, ad)
      | Some fs \<Rightarrow> (True, ad\<lparr>recvpriv := rq_set (REORDER i t) fs (rq_delete f (recvpriv ad))\<rparr>))"

definition rx_running :: "rx_adapter \<Rightarrow> bool" where
  "rx_running ad \<longleftrightarrow> \<not> bDriverStopped ad \<and> \<not> bSurpriseRemoved ad"

text \<open>One frame taken off the queue. A stopped driver neither hands it on nor frees it.\<close>

definition indicate_frame :: "nat \<Rightarrow> rx_adapter \<Rightarrow> rx_adapter" where
  "indicate_frame f ad =
     (if rx_amsdu (rxf ad f) = 0
      then (if rx_running ad then snd (rtw_recv_indicatepkt f ad) else ad)
      else if rx_amsdu (rxf ad f) = 1
      then (case amsdu_to_msdu f ad of (st, ad1) \<Rightarrow> if st \<noteq> SUCCESS then free_frame f ad1 else ad1)
      else ad)"

text \<open>The walk over the pending frames; its result says whether frames stay behind.\<close>

fun indicate_loop :: "nat \<Rightarrow> nat \<Rightarrow> nat list \<Rightarrow> rx_adapter \<Rightarrow> bool \<times> rx_adapter" where
  "indicate_loop i t [] ad = (False, ad)"
| "indicate_loop i t (f # fs) ad =
     (let c = get_ctrl i t ad; s = rx_seq_num (rxf ad f) in
      if \<not> SN_LESS (indicate_seq c) s
      then
        let ad1 = ad\<lparr>recvpriv := rq_delete f (recvpriv ad)\<rparr>;
            ad2 = (if SN_EQUAL (indicate_seq c) s
                   then set_ctrl i t (c\<lparr>indicate_seq := (indicate_seq c + 1) AND 0xFFF\<rparr>) ad1
                   else ad1)
        in indicate_loop i t fs (indicate_frame f ad2)
      else (True, ad))"

definition recv_indicatepkts_in_order :: "nat \<Rightarrow> nat \<Rightarrow> bool \<Rightarrow> rx_adapter \<Rightarrow> bool \<times> rx_adapter" where
  "recv_indicatepkts_in_order i t bforced ad =
     (let fs = rqueue (recvpriv ad) (REORDER i t) in
      if bforced
      then (case fs of
              [] \<Rightarrow> (True, ad)
            | f # _ \<Rightarrow> indicate_loop i t fs
                (set_ctrl i t ((get_ctrl i t ad)\<lparr>indicate_seq := rx_seq_num (rxf ad f)\<rparr>) ad))
      else indicate_loop i t fs ad)"

definition set_reorder_timer :: "bool \<Rightarrow> nat \<Rightarrow> nat \<Rightarrow> rx_adapter \<Rightarrow> rx_adapter" where
  "set_reorder_timer b i t ad = set_ctrl i t ((get_ctrl i t ad)\<lparr>reorder_timer := b\<rparr>) ad"

text \<open>Steps 2 to 4 of \<^verbatim>\<open>recv_indicatepkt_reorder\<close>, under the lock of the queue.\<close>

definition reorder_steps :: "nat \<Rightarrow> nat \<Rightarrow> nat \<Rightarrow> rx_adapter \<Rightarrow> status \<times> rx_adapter" where
  "reorder_steps i t f ad =
     (let (ok, c) = check_indicate_seq (get_ctrl i t ad) (rx_seq_num (rxf ad f));
          ad1 = set_ctrl i t c ad
      in if \<not> ok then (FAIL, ad1)
         else case enqueue_reorder_recvframe i t f ad1 of
           (False, ad2) \<Rightarrow> (FAIL, ad2)
         | (True, ad2) \<Rightarrow>
             (case recv_indicatepkts_in_order i t False ad2 of
                (bPktInBuf, ad3) \<Rightarrow> (SUCCESS, set_reorder_timer bPktInBuf i t ad3)))"

text \<open>
  Without an agreement frames are handed on at once, and the window follows them. The result is
  undefined when a frame with a priority has no reordering control.
\<close>

definition recv_indicatepkt_reorder :: "nat \<Rightarrow> rx_adapter \<Rightarrow> (status \<times> rx_adapter) option" where
  "recv_indicatepkt_reorder f ad =
     (let fr = rxf ad f in
      if rx_amsdu fr = 0
      then do {
        (r, fr1) \<leftarrow> wlanhdr_to_ethhdr ad fr;
        let ad1 = set_rxf f fr1 ad;
        (if rx_qos fr \<noteq> 1
         then Some (if rx_running ad1 then (SUCCESS, snd (rtw_recv_indicatepkt f ad1)) else (FAIL, ad1))
         else do {
           (i, t) \<leftarrow> rx_preorder fr;
           let c = get_ctrl i t ad1;
           (if \<not> enable c
            then
              let ad2 = set_ctrl i t (c\<lparr>indicate_seq := rx_seq_num fr\<rparr>) ad1;
                  ad3 = snd (rtw_recv_indicatepkt f ad2);
                  c3 = get_ctrl i t ad3
              in Some (SUCCESS, set_ctrl i t (c3\<lparr>indicate_seq := (indicate_seq c3 + 1) mod 4096\<rparr>) ad3)
            else Some (reorder_steps i t f ad1)) }) }
      else do {
        (i, t) \<leftarrow> rx_preorder fr;
        let c = get_ctrl i t ad;
        (if rx_amsdu fr = 1 \<and> \<not> enable c
         then
           let ad2 = set_ctrl i t (c\<lparr>indicate_seq := rx_seq_num fr\<rparr>) ad;
               (retval, ad3) = amsdu_to_msdu f ad2;
               c3 = get_ctrl i t ad3
           in Some (retval, set_ctrl i t (c3\<lparr>indicate_seq := (indicate_seq c3 + 1) mod 4096\<rparr>) ad3)
         else Some (reorder_steps i t f ad)) })"

definition rtw_reordering_ctrl_timeout_handler :: "nat \<Rightarrow> nat \<Rightarrow> rx_adapter \<Rightarrow> rx_adapter" where
  "rtw_reordering_ctrl_timeout_handler i t ad =
     (if \<not> rx_running ad then ad
      else
        let ad0 = set_reorder_timer False i t ad in
        case recv_indicatepkts_in_order i t True ad0 of
          (bPktInBuf, ad1) \<Rightarrow> if bPktInBuf then set_reorder_timer True i t ad1 else ad1)"

section \<open>Sequence numbers\<close>

definition sq :: "nat \<Rightarrow> u16" where "sq n = of_nat (n mod 4096)"

text \<open>Two numbers less than half the number space apart.\<close>

definition near :: "nat \<Rightarrow> nat \<Rightarrow> bool" where "near a b \<longleftrightarrow> \<bar>int a - int b\<bar> < 2048"

lemma and_4095: "(x :: u16) AND 0xFFF = take_bit 12 x"
  by (simp add: take_bit_eq_mask mask_eq_exp_minus_1)

lemma unat_and_4095: "unat ((x :: u16) AND 0xFFF) = unat x mod 4096"
  by (simp only: and_4095 unsigned_take_bit_eq) (simp add: take_bit_eq_mod)

lemma unat_sq: "unat (sq n) = n mod 4096"
proof -
  have "n mod 4096 < 2 ^ 16" by (rule less_trans [OF mod_less_divisor]) simp_all
  then show ?thesis by (simp add: sq_def unat_of_nat take_bit_nat_eq_self)
qed

lemma uint_sq: "uint (sq n) = int n mod 4096"
  using unat_sq [of n] by (simp add: uint_nat zmod_int)

lemma sq_not_init: "sq n \<noteq> 0xFFFF"
proof
  assume "sq n = 0xFFFF"
  then have "n mod 4096 = unat (0xFFFF :: u16)" by (simp flip: unat_sq)
  moreover have "n mod 4096 < 4096" by simp
  ultimately show False by simp
qed

lemma SN_LESS_uint: "SN_LESS a b \<longleftrightarrow> 2048 \<le> (uint a - uint b) mod 4096"
proof -
  have "(0x800 :: u16) = 2 ^ 11" by simp
  then have "SN_LESS a b \<longleftrightarrow> bit (a - b) 11"
    by (simp only: SN_LESS_def and_exp_eq_0_iff_not_bit not_not)
  also have "\<dots> \<longleftrightarrow> bit (uint (a - b)) 11" by (simp add: bit_uint_iff)
  also have "\<dots> \<longleftrightarrow> bit (uint a - uint b) 11"
    by (simp add: uint_word_ariths(2) bit_take_bit_iff flip: take_bit_eq_mod [of 16, simplified])
  also have "\<dots> \<longleftrightarrow> odd ((uint a - uint b) div 2048)" by (simp add: bit_iff_odd)
  also have "\<dots> \<longleftrightarrow> 2048 \<le> (uint a - uint b) mod 4096"
  proof -
    define x where "x = uint a - uint b"
    have "x mod 4096 = x mod 2048 + 2048 * (x div 2048 mod 2)"
      using mod_mult2_eq' [of x 2048 2] zmod_zmult2_eq [of 2 x 2048] by simp
    moreover have "0 \<le> x mod 2048" "x mod 2048 < 2048" by simp_all
    ultimately show ?thesis unfolding x_def [symmetric] by (auto simp: odd_iff_mod_2_eq_one)
  qed
  finally show ?thesis .
qed

lemma mod_4096_near:
  assumes "near a b"
  shows "(int a - int b) mod 4096 = (if a < b then int a - int b + 4096 else int a - int b)"
proof (cases "a < b")
  case True
  then have "(int a - int b + 4096) mod 4096 = int a - int b + 4096"
    using assms by (intro mod_pos_pos_trivial) (auto simp: near_def)
  then show ?thesis using True by simp
next
  case False
  then show ?thesis using assms by (simp add: near_def mod_pos_pos_trivial)
qed

lemma SN_LESS_sq:
  assumes "near a b"
  shows "SN_LESS (sq a) (sq b) \<longleftrightarrow> a < b"
proof -
  have "SN_LESS (sq a) (sq b) \<longleftrightarrow> 2048 \<le> (int a - int b) mod 4096"
    by (simp add: SN_LESS_uint uint_sq mod_diff_eq)
  then show ?thesis using assms mod_4096_near [OF assms] by (auto simp: near_def)
qed

lemma SN_EQUAL_sq:
  assumes "near a b"
  shows "SN_EQUAL (sq a) (sq b) \<longleftrightarrow> a = b"
proof -
  have "SN_EQUAL (sq a) (sq b) \<longleftrightarrow> uint (sq a) = uint (sq b)"
    by (simp only: SN_EQUAL_def word_uint_eq_iff)
  also have "\<dots> \<longleftrightarrow> (int a - int b) mod 4096 = 0"
    by (simp add: uint_sq mod_eq_dvd_iff dvd_eq_mod_eq_0)
  finally show ?thesis using assms mod_4096_near [OF assms] by (auto simp: near_def split: if_splits)
qed

lemma sq_eqI: "n mod 4096 = m mod 4096 \<Longrightarrow> sq n = sq m"
  by (simp add: sq_def)

lemma sq_Suc: "(sq n + 1) AND 0xFFF = sq (Suc n)"
proof -
  have "unat ((sq n + 1) AND 0xFFF) = (n mod 4096 + 1) mod 65536 mod 4096"
    by (simp add: unat_and_4095 unat_word_ariths(1) unat_sq)
  also have "\<dots> = (n mod 4096 + 1) mod 4096" by (rule mod_mod_cancel) simp
  also have "\<dots> = Suc n mod 4096" by (simp add: mod_Suc_eq)
  finally show ?thesis by (simp add: word_unat_eq_iff unat_sq)
qed

section \<open>The abstract reorder buffer\<close>

text \<open>
  The window starts at \<open>no\<close> (\<open>None\<close> before the first frame) and holds back the set \<open>P\<close>. A
  number before the window, or held back already, is refused. A number beyond the \<open>w\<close> numbers
  of the window moves it. Then everything before the first gap is released, in order.
\<close>

type_synonym rob = "nat option \<times> nat set"

definition first_gap :: "nat \<Rightarrow> nat set \<Rightarrow> nat" where
  "first_gap n P = (LEAST m. n \<le> m \<and> m \<notin> P)"

definition rob_release :: "nat \<Rightarrow> nat set \<Rightarrow> nat list \<times> rob" where
  "rob_release n P =
     (let m = first_gap n P in (sorted_list_of_set {x \<in> P. x < m}, (Some m, {x \<in> P. m \<le> x})))"

definition rob_start :: "rob \<Rightarrow> nat \<Rightarrow> nat" where
  "rob_start s a = (case fst s of None \<Rightarrow> a | Some n \<Rightarrow> n)"

definition rob_receive :: "nat \<Rightarrow> nat \<Rightarrow> rob \<Rightarrow> (nat list \<times> rob) option" where
  "rob_receive w a s =
     (let n = rob_start s a in
      if a < n \<or> a \<in> snd s then None
      else Some (rob_release (max n (a + 1 - w)) (insert a (snd s))))"

definition rob_timeout :: "rob \<Rightarrow> nat list \<times> rob" where
  "rob_timeout s = (if snd s = {} then ([], s) else rob_release (Min (snd s)) (snd s))"

text \<open>What the code does with the pending numbers in ascending order.\<close>

fun release :: "nat \<Rightarrow> nat list \<Rightarrow> nat list \<times> nat \<times> nat list" where
  "release n [] = ([], n, [])"
| "release n (x # xs) =
     (if x \<le> n then let (d, m, r) = release (if x = n then Suc n else n) xs in (x # d, m, r)
      else ([], n, x # xs))"

lemma first_gapI:
  assumes "n \<le> m" "m \<notin> P" "\<And>k. n \<le> k \<Longrightarrow> k < m \<Longrightarrow> k \<in> P"
  shows "first_gap n P = m"
  unfolding first_gap_def
proof (rule Least_equality)
  show "n \<le> m \<and> m \<notin> P" using assms(1,2) ..
  show "m \<le> y" if "n \<le> y \<and> y \<notin> P" for y using that assms(3) [of y] not_le_imp_less by blast
qed

lemma release_facts:
  assumes "sorted_wrt (<) xs" and "release n xs = (d, m, r)"
  shows "xs = d @ r \<and> n \<le> m \<and> (\<forall>x \<in> set d. x < m) \<and> (\<forall>x \<in> set r. m < x) \<and>
    (\<forall>k. n \<le> k \<longrightarrow> k < m \<longrightarrow> k \<in> set d)"
  using assms
proof (induction xs arbitrary: n d m r)
  case (Cons x xs)
  show ?case
  proof (cases "x \<le> n")
    case True
    obtain d' where rel: "release (if x = n then Suc n else n) xs = (d', m, r)" and d: "d = x # d'"
      using Cons.prems(2) True by (auto split: prod.splits)
    define n' where "n' = (if x = n then Suc n else n)"
    have n': "n \<le> n'" "x < n'" "\<And>k. n \<le> k \<Longrightarrow> k < n' \<Longrightarrow> k = x"
      using True by (auto simp: n'_def split: if_splits)
    have IH: "xs = d' @ r \<and> n' \<le> m \<and> (\<forall>x \<in> set d'. x < m) \<and> (\<forall>x \<in> set r. m < x) \<and>
        (\<forall>k. n' \<le> k \<longrightarrow> k < m \<longrightarrow> k \<in> set d')"
      using Cons.IH [OF _ rel] Cons.prems(1) by (simp add: n'_def)
    have in_d: "k \<in> set d" if "n \<le> k" "k < m" for k
    proof (cases "k < n'")
      case True
      then show ?thesis using n'(3) that(1) by (simp add: d)
    next
      case False
      then have "k \<in> set d'" using IH that(2) by (meson not_le)
      then show ?thesis by (simp add: d)
    qed
    have eqs: "xs = d' @ r" "n' \<le> m" "\<forall>y \<in> set d'. y < m" "\<forall>y \<in> set r. m < y" using IH by blast+
    have "x < m" "n \<le> m" using eqs(2) n'(1,2) by linarith+
    with eqs show ?thesis by (intro conjI allI impI in_d) (simp_all add: d)
  next
    case False
    then show ?thesis using Cons.prems by (auto simp: not_le intro: less_trans)
  qed
qed simp

lemma release_rob:
  assumes "sorted_wrt (<) xs" and "release n xs = (d, m, r)"
  shows "rob_release n (set xs) = (d, (Some m, set r))" and "xs = d @ r" and "sorted_wrt (<) d"
    and "sorted_wrt (<) r" and "m \<notin> set r" and "n \<le> m"
proof -
  note f = release_facts [OF assms]
  have gap: "first_gap n (set xs) = m" using f by (intro first_gapI) auto
  show "sorted_wrt (<) d" "sorted_wrt (<) r" using f assms(1) by (auto simp: sorted_wrt_append)
  then have "sorted_list_of_set (set d) = d"
    by (simp add: strict_sorted_iff sorted_list_of_set.idem_if_sorted_distinct)
  moreover have "{x \<in> set xs. x < m} = set d" "{x \<in> set xs. m \<le> x} = set r" using f by auto
  ultimately show "rob_release n (set xs) = (d, (Some m, set r))"
    by (simp add: rob_release_def gap)
  show "xs = d @ r" "m \<notin> set r" "n \<le> m" using f by auto
qed

text \<open>Every number released is new and larger than all before it.\<close>

definition rob_inv :: "rob \<Rightarrow> bool" where
  "rob_inv s \<longleftrightarrow> finite (snd s) \<and> (fst s = None \<longrightarrow> snd s = {}) \<and>
     (\<forall>n. fst s = Some n \<longrightarrow> (\<forall>x \<in> snd s. n < x))"

lemma first_gap_props:
  assumes "finite P"
  shows "n \<le> first_gap n P" "first_gap n P \<notin> P" "n \<le> k \<Longrightarrow> k < first_gap n P \<Longrightarrow> k \<in> P"
proof -
  obtain m where "n \<le> m \<and> m \<notin> P"
    using assms infinite_Ici [of n] by (metis atLeast_iff finite_subset subsetI)
  then have "n \<le> first_gap n P \<and> first_gap n P \<notin> P"
    unfolding first_gap_def by (rule LeastI)
  then show "n \<le> first_gap n P" "first_gap n P \<notin> P" by auto
  show "n \<le> k \<Longrightarrow> k < first_gap n P \<Longrightarrow> k \<in> P"
    unfolding first_gap_def using not_less_Least by blast
qed

lemma rob_release_inv:
  assumes "finite P" and "rob_release n P = (d, s)"
  shows "rob_inv s" "sorted_wrt (<) d" "set d \<union> snd s = P" "set d \<inter> snd s = {}"
    "\<exists>m. fst s = Some m \<and> n \<le> m \<and> (\<forall>x \<in> set d. x < m)"
proof -
  define m where "m = first_gap n P"
  have m: "n \<le> m" "m \<notin> P" using first_gap_props [OF assms(1), of n] by (simp_all add: m_def)
  then have lt: "m < x" if "x \<in> P" "m \<le> x" for x using that le_neq_implies_less by blast
  have e: "d = sorted_list_of_set {x \<in> P. x < m}" "s = (Some m, {x \<in> P. m \<le> x})"
    using assms(2) by (simp_all add: rob_release_def Let_def m_def)
  show "rob_inv s" "sorted_wrt (<) d" "set d \<union> snd s = P" "set d \<inter> snd s = {}"
    "\<exists>m. fst s = Some m \<and> n \<le> m \<and> (\<forall>x \<in> set d. x < m)"
    using assms(1) m(1) lt by (auto simp: e rob_inv_def)
qed

section \<open>The code on one frame\<close>

definition ctrl_ok :: "nat \<Rightarrow> nat \<Rightarrow> rx_adapter \<Rightarrow> bool" where
  "ctrl_ok i t ad \<longleftrightarrow> i < length (stainfo_buf (stapriv ad)) \<and>
     t < length (recvreorder_ctrl (stainfo_buf (stapriv ad) ! i))"

definition same_frames :: "rx_adapter \<Rightarrow> rx_adapter \<Rightarrow> bool" where
  "same_frames ad ad' \<longleftrightarrow> (\<forall>g. rx_seq_num (rxf ad' g) = rx_seq_num (rxf ad g) \<and>
     rx_amsdu (rxf ad' g) = rx_amsdu (rxf ad g))"

lemma same_frames_trans: "same_frames a b \<Longrightarrow> same_frames b c \<Longrightarrow> same_frames a c"
  by (simp add: same_frames_def)

lemma set_ctrl_fields [simp]:
  "recvpriv (set_ctrl i t c ad) = recvpriv ad" "rxf (set_ctrl i t c ad) = rxf ad"
  "rx_running (set_ctrl i t c ad) = rx_running ad" "fw_state (set_ctrl i t c ad) = fw_state ad"
  "ctrl_ok i t (set_ctrl i t c ad) = ctrl_ok i t ad"
  "netif_rx (set_ctrl i t c ad) = netif_rx ad"
  by (auto simp: set_ctrl_def Let_def rx_running_def ctrl_ok_def nth_list_update)

lemma get_set_ctrl [simp]: "ctrl_ok i t ad \<Longrightarrow> get_ctrl i t (set_ctrl i t c ad) = c"
  by (simp add: set_ctrl_def get_ctrl_def Let_def ctrl_ok_def)

lemma get_ctrl_stapriv: "stapriv ad' = stapriv ad \<Longrightarrow> get_ctrl i t ad' = get_ctrl i t ad"
  by (simp add: get_ctrl_def)

lemma ctrl_ok_stapriv: "stapriv ad' = stapriv ad \<Longrightarrow> ctrl_ok i t ad' = ctrl_ok i t ad"
  by (simp add: ctrl_ok_def)

lemma indicate_frame_fields:
  assumes "rx_amsdu (rxf ad f) = 0 \<or> rx_amsdu (rxf ad f) = 1" and "rx_running ad"
  shows "rqueue (recvpriv (indicate_frame f ad)) =
      (\<lambda>q. removeAll f (rqueue (recvpriv ad) q) @ (if q = FREE_RECV then [f] else []))"
    and "stapriv (indicate_frame f ad) = stapriv ad" and "same_frames ad (indicate_frame f ad)"
    and "rx_running (indicate_frame f ad)"
  using assms
  by (auto simp: indicate_frame_def same_frames_def rx_running_def indicatepkt_fields case_prod_beta
      amsdu_to_msdu_fields)

lemma check_indicate_seq_abs:
  assumes c: "indicate_seq c = sq n" and w: "unat (wsize_b c) = w" "0 < w" and ns: "near a n"
  shows "check_indicate_seq c (sq a) =
    (n \<le> a, c\<lparr>indicate_seq := sq (if a = n then Suc n else if n + w \<le> a then a + 1 - w else n)\<rparr>)"
proof -
  define ws where "ws = (ucast (wsize_b c) :: u16)"
  have w8: "w < 256"
    unfolding w(1) [symmetric] by (rule order.strict_trans2 [OF unsigned_less]) simp
  have uw: "unat ws = w" "uint ws = int w"
    using w(1) w8 by (simp_all add: ws_def unsigned_ucast_eq take_bit_eq_mod uint_nat)
  have wsn: "ws = of_nat w" using arg_cong [OF uw(1), of "of_nat :: nat \<Rightarrow> u16"] by simp
  have wend: "(sq n + ws - 1) AND 0xFFF = sq (n + w - 1)"
  proof -
    have "(sq n + ws - 1) = of_nat (n mod 4096 + w - 1)"
      using w(2) by (simp add: sq_def of_nat_diff wsn)
    then have "unat ((sq n + ws - 1) AND 0xFFF) = (n mod 4096 + w - 1) mod 65536 mod 4096"
      by (simp only: unat_and_4095) (simp add: unat_of_nat take_bit_eq_mod)
    also have "\<dots> = (n mod 4096 + (w - 1)) mod 4096" using w(2) by (simp add: mod_mod_cancel)
    also have "\<dots> = (n + (w - 1)) mod 4096" by (rule mod_add_left_eq)
    also have "\<dots> = (n + w - 1) mod 4096" using w(2) by simp
    finally show ?thesis by (simp add: word_unat_eq_iff unat_sq)
  qed
  have ne: "indicate_seq c \<noteq> 0xFFFF" using sq_not_init by (simp add: c)
  consider "a < n" | "a = n" | "n < a" "a < n + w" | "n + w \<le> a" using w(2) by linarith
  then show ?thesis
  proof cases
    case 1
    then show ?thesis using SN_LESS_sq [OF ns] ne
      by (simp add: check_indicate_seq_def Let_def c split: if_splits)
  next
    case 2
    then show ?thesis using SN_LESS_sq [OF ns] SN_EQUAL_sq [OF ns] ne sq_Suc [of n] w(2)
      by (simp add: check_indicate_seq_def Let_def c)
  next
    case 3
    then have "near (n + w - 1) a" using w8 by (simp add: near_def)
    then have "\<not> SN_LESS (sq (n + w - 1)) (sq a)" using 3 SN_LESS_sq by simp
    then show ?thesis using 3 SN_LESS_sq [OF ns] SN_EQUAL_sq [OF ns] ne
      by (simp add: check_indicate_seq_def Let_def c wend [unfolded ws_def])
  next
    case 4
    then have "near (n + w - 1) a" using w8 w(2) ns by (simp add: near_def)
    then have lt: "SN_LESS (sq (n + w - 1)) (sq a)" using 4 w(2) SN_LESS_sq by simp
    have cond: "uint ws - 1 \<le> uint (sq a) \<longleftrightarrow> w \<le> a mod 4096 + 1"
      using zmod_int [of a 4096] unfolding uw(2) uint_sq by auto
    have val: "(if uint ws - 1 \<le> uint (sq a) then sq a + 1 - ws else 0xFFF - (ws - (sq a + 1)) + 1) =
        sq (a + 1 - w)"
    proof (cases "w \<le> a mod 4096 + 1")
      case True
      have "sq a + 1 - ws = of_nat (a mod 4096 + 1 - w)"
        using True by (simp add: sq_def of_nat_diff wsn)
      moreover have "a mod 4096 + 1 - w = (a + 1 - w) mod 4096"
      proof -
        have "a + 1 - w = (a mod 4096 + 1 - w) + 4096 * (a div 4096)"
          using True mult_div_mod_eq [of 4096 a] by linarith
        moreover have "a mod 4096 + 1 - w < 4096" using w(2) mod_less_divisor [of 4096 a] by linarith
        ultimately show ?thesis by (metis mod_mult_self2 mod_less)
      qed
      ultimately have "sq a + 1 - ws = sq (a + 1 - w)" by (simp only: sq_def [of "a + 1 - w"])
      then show ?thesis using True cond by simp
    next
      case False
      have "0xFFF - (ws - (sq a + 1)) + 1 = of_nat (4096 + a mod 4096 + 1 - w)"
        using w8 by (simp add: sq_def of_nat_diff wsn)
      moreover have "4096 + a mod 4096 + 1 - w = (a + 1 - w) mod 4096"
      proof -
        have "a div 4096 \<noteq> 0" using False 4 by (intro notI) simp
        then obtain k where "a div 4096 = Suc k" by (cases "a div 4096") auto
        then have "a + 1 - w = (4096 + a mod 4096 + 1 - w) + 4096 * k"
          using w8 mult_div_mod_eq [of 4096 a] by simp
        moreover have "4096 + a mod 4096 + 1 - w < 4096" using False w8 by simp
        ultimately show ?thesis by (metis mod_mult_self2 mod_less)
      qed
      ultimately have "0xFFF - (ws - (sq a + 1)) + 1 = sq (a + 1 - w)"
        by (simp only: sq_def [of "a + 1 - w"])
      then show ?thesis using False cond by simp
    qed
    have neg: "SN_LESS (sq a) (sq n) = False" "SN_EQUAL (sq a) (sq n) = False" "(sq n = 0xFFFF) = False"
      using 4 w(2) SN_LESS_sq [OF ns] SN_EQUAL_sq [OF ns] sq_not_init by simp_all
    have "check_indicate_seq c (sq a) = (True, c\<lparr>indicate_seq := sq (a + 1 - w)\<rparr>)"
      by (simp only: check_indicate_seq_def Let_def c neg lt wend val if_False if_True ws_def [symmetric])
    then show ?thesis using 4 w(2) by simp
  qed
qed

section \<open>The code refines the reorder buffer\<close>

text \<open>\<open>num\<close> gives the unwrapped sequence number of every frame.\<close>

definition framed :: "(nat \<Rightarrow> nat) \<Rightarrow> rx_adapter \<Rightarrow> nat \<Rightarrow> bool" where
  "framed num ad f \<longleftrightarrow> rx_seq_num (rxf ad f) = sq (num f) \<and>
     (rx_amsdu (rxf ad f) = 0 \<or> rx_amsdu (rxf ad f) = 1)"

lemma framed_same: "same_frames ad ad' \<Longrightarrow> framed num ad f \<Longrightarrow> framed num ad' f"
  by (simp add: same_frames_def framed_def)

lemma enqueue_reorder_abs:
  assumes "sorted_wrt (<) (map num fs)" and "\<forall>g \<in> set fs. near (num g) (num f)"
    and "sn f = sq (num f)" "\<forall>g \<in> set fs. sn g = sq (num g)"
  shows "case enqueue_reorder sn f fs of
      None \<Rightarrow> num f \<in> num ` set fs
    | Some gs \<Rightarrow> num f \<notin> num ` set fs \<and> set gs = insert f (set fs) \<and> sorted_wrt (<) (map num gs)"
  using assms
proof (induction fs)
  case (Cons g gs)
  have s: "sn f = sq (num f)" "sn g = sq (num g)" "near (num g) (num f)" using Cons.prems by simp_all
  note cmp = SN_LESS_sq [OF s(3)] SN_EQUAL_sq [OF s(3)]
  have IH: "case enqueue_reorder sn f gs of None \<Rightarrow> num f \<in> num ` set gs
    | Some hs \<Rightarrow> num f \<notin> num ` set gs \<and> set hs = insert f (set gs) \<and> sorted_wrt (<) (map num hs)"
    using Cons by simp
  consider "num g < num f" | "num g = num f" | "num f < num g" by linarith
  then show ?case
  proof cases
    case 1
    then show ?thesis using IH Cons.prems(1) cmp s
      by (auto split: option.splits)
  next
    case 2
    then show ?thesis using cmp s by simp
  next
    case 3
    then have "num f < num h" if "h \<in> set gs" for h using Cons.prems(1) that by (auto dest: less_trans)
    then show ?thesis using 3 Cons.prems(1) cmp s by auto
  qed
qed simp

text \<open>What a walk over the pending frames \<open>fs\<close> needs and keeps.\<close>

definition walk_ok :: "(nat \<Rightarrow> nat) \<Rightarrow> nat \<Rightarrow> nat \<Rightarrow> nat \<Rightarrow> nat list \<Rightarrow> rx_adapter \<Rightarrow> bool" where
  "walk_ok num i t n fs ad \<longleftrightarrow> ctrl_ok i t ad \<and> rx_running ad \<and> indicate_seq (get_ctrl i t ad) = sq n \<and>
     rqueue (recvpriv ad) (REORDER i t) = fs \<and> sorted_wrt (<) (map num fs) \<and>
     set fs \<inter> set (rqueue (recvpriv ad) FREE_RECV) = {} \<and>
     (\<forall>f \<in> set fs. framed num ad f \<and> near (num f) n)"

lemma sorted_map_distinct: "sorted_wrt (<) (map num fs) \<Longrightarrow> distinct fs"
  for num :: "nat \<Rightarrow> nat"
  by (induction fs) auto

lemma indicate_loop_abs:
  assumes "walk_ok num i t n fs ad" and "release n (map num fs) = (d, m, r)"
  shows "\<exists>ad'. indicate_loop i t fs ad = (r \<noteq> [], ad') \<and>
    rqueue (recvpriv ad') FREE_RECV = rqueue (recvpriv ad) FREE_RECV @ take (length d) fs \<and>
    rqueue (recvpriv ad') (REORDER i t) = drop (length d) fs \<and>
    get_ctrl i t ad' = (get_ctrl i t ad)\<lparr>indicate_seq := sq m\<rparr> \<and>
    ctrl_ok i t ad' \<and> rx_running ad' \<and> same_frames ad ad'"
  using assms
proof (induction fs arbitrary: n ad d)
  case Nil
  then show ?case by (auto simp: walk_ok_def same_frames_def)
next
  case (Cons f fs)
  note ok = Cons.prems(1) [unfolded walk_ok_def]
  have fr: "framed num ad f" "near (num f) n" "near n (num f)" using ok by (auto simp: near_def)
  have ord: "num f < num g" if "g \<in> set fs" for g using ok that by auto
  define c where "c = get_ctrl i t ad"
  have cmp: "SN_LESS (indicate_seq c) (rx_seq_num (rxf ad f)) \<longleftrightarrow> n < num f"
    "SN_EQUAL (indicate_seq c) (rx_seq_num (rxf ad f)) \<longleftrightarrow> n = num f"
    using ok fr SN_LESS_sq [OF fr(3)] SN_EQUAL_sq [OF fr(3)] by (simp_all add: c_def framed_def)
  show ?case
  proof (cases "num f \<le> n")
    case False
    have "get_ctrl i t ad = (get_ctrl i t ad)\<lparr>indicate_seq := sq n\<rparr>" using ok by simp
    moreover have "(d, m, r) = ([], n, num f # map num fs)" using Cons.prems(2) False by simp
    ultimately show ?thesis using False cmp ok
      by (simp add: Let_def c_def [symmetric] same_frames_def)
  next
    case True
    define n' where "n' = (if num f = n then Suc n else n)"
    obtain d' where rel: "release n' (map num fs) = (d', m, r)" and d: "d = num f # d'"
      using Cons.prems(2) True by (auto simp: n'_def split: prod.splits)
    define ad1 where "ad1 = ad\<lparr>recvpriv := rq_delete f (recvpriv ad)\<rparr>"
    define ad2 where "ad2 = (if SN_EQUAL (indicate_seq c) (rx_seq_num (rxf ad f))
      then set_ctrl i t (c\<lparr>indicate_seq := (indicate_seq c + 1) AND 0xFFF\<rparr>) ad1 else ad1)"
    define ad3 where "ad3 = indicate_frame f ad2"
    have code: "indicate_loop i t (f # fs) ad = indicate_loop i t fs ad3"
      using True cmp by (simp add: Let_def ad3_def ad2_def ad1_def flip: c_def)
    have ok1: "ctrl_ok i t ad1" "rx_running ad1" "get_ctrl i t ad1 = c" "rxf ad1 = rxf ad"
      using ok by (simp_all add: ad1_def ctrl_ok_def rx_running_def get_ctrl_def c_def)
    have ok2: "ctrl_ok i t ad2" "rx_running ad2" "rxf ad2 = rxf ad" "recvpriv ad2 = recvpriv ad1"
      using ok1 by (simp_all add: ad2_def)
    have ctrl2: "get_ctrl i t ad2 = c\<lparr>indicate_seq := sq n'\<rparr>"
      using ok ok1 cmp True by (auto simp: ad2_def n'_def sq_Suc c_def)
    have am: "rx_amsdu (rxf ad2 f) = 0 \<or> rx_amsdu (rxf ad2 f) = 1"
      using fr(1) ok2(3) by (simp add: framed_def)
    note ind = indicate_frame_fields [OF am ok2(2), folded ad3_def]
    have nf: "f \<notin> set fs" "f \<notin> set (rqueue (recvpriv ad) FREE_RECV)"
      using ok sorted_map_distinct [of num "f # fs"] by auto
    have q3: "rqueue (recvpriv ad3) FREE_RECV = rqueue (recvpriv ad) FREE_RECV @ [f]"
      "rqueue (recvpriv ad3) (REORDER i t) = fs"
      using ok nf by (simp_all add: ind(1) ok2(4) ad1_def)
    have same: "same_frames ad ad3" using ind(3) ok2(3) by (simp add: same_frames_def)
    have ctrl3: "get_ctrl i t ad3 = c\<lparr>indicate_seq := sq n'\<rparr>" "ctrl_ok i t ad3"
      using ctrl2 ok2(1) by (simp_all add: get_ctrl_stapriv [OF ind(2)] ctrl_ok_stapriv [OF ind(2)])
    have "near (num g) n'" if g: "g \<in> set fs" for g
    proof -
      have "near (num g) n" using ok g by simp
      then show ?thesis using True ord [OF g] by (auto simp: near_def n'_def)
    qed
    then have "walk_ok num i t n' fs ad3"
      using ok q3 ctrl3 nf ind(4) framed_same [OF same] by (auto simp: walk_ok_def)
    from Cons.IH [OF this rel] obtain ad' where IH:
      "indicate_loop i t fs ad3 = (r \<noteq> [], ad')"
      "rqueue (recvpriv ad') FREE_RECV = rqueue (recvpriv ad3) FREE_RECV @ take (length d') fs"
      "rqueue (recvpriv ad') (REORDER i t) = drop (length d') fs"
      "get_ctrl i t ad' = (get_ctrl i t ad3)\<lparr>indicate_seq := sq m\<rparr>"
      "ctrl_ok i t ad'" "rx_running ad'" "same_frames ad3 ad'" by blast
    then show ?thesis
      using code q3 ctrl3 same_frames_trans [OF same] by (auto simp: d c_def)
  qed
qed

text \<open>The state of one reordering control against the abstract buffer.\<close>

definition reorder_rel :: "(nat \<Rightarrow> nat) \<Rightarrow> nat \<Rightarrow> nat \<Rightarrow> nat \<Rightarrow> rob \<Rightarrow> rx_adapter \<Rightarrow> bool" where
  "reorder_rel num i t w s ad \<longleftrightarrow>
     (let c = get_ctrl i t ad; fs = rqueue (recvpriv ad) (REORDER i t) in
      ctrl_ok i t ad \<and> rx_running ad \<and> enable c \<and> unat (wsize_b c) = w \<and> 0 < w \<and>
      sorted_wrt (<) (map num fs) \<and> snd s = num ` set fs \<and>
      set fs \<inter> set (rqueue (recvpriv ad) FREE_RECV) = {} \<and> (\<forall>f \<in> set fs. framed num ad f) \<and>
      (case fst s of
         None \<Rightarrow> indicate_seq c = 0xFFFF \<and> fs = []
       | Some n \<Rightarrow> indicate_seq c = sq n \<and> (\<forall>x \<in> snd s. n < x \<and> x < n + w)))"

lemma check_indicate_seq_init:
  assumes "indicate_seq c = 0xFFFF"
  shows "check_indicate_seq c (sq a) = (True, c\<lparr>indicate_seq := sq (Suc a)\<rparr>)"
  using SN_LESS_sq [of a a] assms sq_Suc [of a]
  by (simp add: check_indicate_seq_def Let_def SN_EQUAL_def near_def)

lemma first_gap_Suc: "n \<in> P \<Longrightarrow> first_gap (Suc n) P = first_gap n P"
  unfolding first_gap_def by (metis Suc_le_eq le_less order.strict_iff_order)

definition next_start :: "nat \<Rightarrow> nat \<Rightarrow> nat \<Rightarrow> nat" where
  "next_start w n a = (if a = n then Suc n else if n + w \<le> a then a + 1 - w else n)"

lemma rob_release_next:
  assumes "n \<le> a" "0 < w" "a \<in> P"
  shows "rob_release (max n (a + 1 - w)) P = rob_release (next_start w n a) P"
proof -
  have "max n (a + 1 - w) = (if n + w \<le> a then a + 1 - w else n)" using assms(1) by auto
  then show ?thesis
    using assms first_gap_Suc [of n P] by (auto simp: rob_release_def next_start_def)
qed

lemma check_indicate_seq_rel:
  assumes rel: "reorder_rel num i t w s ad" and ns: "near a (rob_start s a)"
  shows "check_indicate_seq (get_ctrl i t ad) (sq a) = (rob_start s a \<le> a,
    (get_ctrl i t ad)\<lparr>indicate_seq := sq (next_start w (rob_start s a) a)\<rparr>)"
proof (cases "fst s")
  case None
  then show ?thesis using rel check_indicate_seq_init
    by (simp add: reorder_rel_def Let_def rob_start_def next_start_def)
next
  case (Some n)
  then have "indicate_seq (get_ctrl i t ad) = sq n" "unat (wsize_b (get_ctrl i t ad)) = w" "0 < w"
    using rel by (simp_all add: reorder_rel_def Let_def)
  then show ?thesis using check_indicate_seq_abs ns Some
    by (simp add: rob_start_def next_start_def)
qed

lemma reorder_steps_abs:
  assumes rel: "reorder_rel num i t w s ad" and f: "framed num ad f"
    and new: "f \<notin> set (rqueue (recvpriv ad) (REORDER i t))" "f \<notin> set (rqueue (recvpriv ad) FREE_RECV)"
    and ns: "near (num f) (rob_start s (num f))"
  shows "\<exists>st ad'. reorder_steps i t f ad = (st, ad') \<and> same_frames ad ad' \<and>
    (case rob_receive w (num f) s of
       None \<Rightarrow> st = FAIL \<and> reorder_rel num i t w s ad' \<and> recvpriv ad' = recvpriv ad
     | Some (out, s') \<Rightarrow> st = SUCCESS \<and> reorder_rel num i t w s' ad' \<and>
         (\<exists>ds. map num ds = out \<and>
            rqueue (recvpriv ad') FREE_RECV = rqueue (recvpriv ad) FREE_RECV @ ds \<and>
            set ds \<union> set (rqueue (recvpriv ad') (REORDER i t)) =
              insert f (set (rqueue (recvpriv ad) (REORDER i t)))))"
proof -
  define a where "a = num f"
  define n where "n = rob_start s a"
  define c where "c = get_ctrl i t ad"
  define fs where "fs = rqueue (recvpriv ad) (REORDER i t)"
  define ad1 where "ad1 = set_ctrl i t (c\<lparr>indicate_seq := sq (next_start w n a)\<rparr>) ad"
  have R: "ctrl_ok i t ad" "rx_running ad" "enable c" "unat (wsize_b c) = w" "0 < w"
    "sorted_wrt (<) (map num fs)" "snd s = num ` set fs"
    "set fs \<inter> set (rqueue (recvpriv ad) FREE_RECV) = {}" "\<forall>f \<in> set fs. framed num ad f"
    using rel by (simp_all add: reorder_rel_def Let_def c_def fs_def)
  have w8: "w < 256"
    unfolding R(4) [symmetric] by (rule order.strict_trans2 [OF unsigned_less]) simp
  have win: "n < x \<and> x < n + w" if "x \<in> num ` set fs" for x
    using rel that R(7) by (cases "fst s") (auto simp: reorder_rel_def Let_def n_def rob_start_def fs_def)
  have nr: "near a n" using ns by (simp add: a_def n_def)
  have seq: "rx_seq_num (rxf ad f) = sq a" using f by (simp add: framed_def a_def)
  have chk: "check_indicate_seq c (sq a) = (n \<le> a, c\<lparr>indicate_seq := sq (next_start w n a)\<rparr>)"
    using check_indicate_seq_rel [OF rel] nr by (simp add: c_def n_def)
  have ctrl1: "get_ctrl i t ad1 = c\<lparr>indicate_seq := sq (next_start w n a)\<rparr>" "ctrl_ok i t ad1"
    using R(1) by (simp_all add: ad1_def)
  have keep: "ad1 = set_ctrl i t c ad"
    if no: "next_start w n a = n" and some: "fst s \<noteq> None"
  proof -
    obtain y where y: "fst s = Some y" using some by blast
    then have "n = y" "indicate_seq c = sq y"
      using rel by (simp_all add: n_def rob_start_def reorder_rel_def Let_def c_def)
    then have "c\<lparr>indicate_seq := sq (next_start w n a)\<rparr> = c" using no by simp
    then show ?thesis by (simp only: ad1_def)
  qed
  have rel_keep: "reorder_rel num i t w s (set_ctrl i t c ad)"
    using rel R(1) by (simp add: reorder_rel_def Let_def c_def framed_def)
  show ?thesis
  proof (cases "a < n")
    case True
    then have *: "fst s \<noteq> None" "next_start w n a = n"
      by (auto simp: n_def rob_start_def next_start_def split: option.splits)
    have "reorder_steps i t f ad = (FAIL, ad1)"
      using chk True by (simp add: reorder_steps_def seq ad1_def flip: c_def)
    moreover have "rob_receive w a s = None" using True by (simp add: rob_receive_def n_def)
    ultimately show ?thesis using rel_keep keep [OF *(2,1)]
      by (simp add: a_def same_frames_def)
  next
    case ge: False
    have near_g: "\<forall>g \<in> set fs. near (num g) (num f)"
      using win nr ge w8 unfolding near_def a_def [symmetric] by fastforce
    have sns: "(\<lambda>g. rx_seq_num (rxf ad g)) f = sq (num f)"
      "\<forall>g \<in> set fs. (\<lambda>g. rx_seq_num (rxf ad g)) g = sq (num g)"
      using R(9) f by (simp_all add: framed_def)
    note enq = enqueue_reorder_abs [OF R(6) near_g sns]
    show ?thesis
    proof (cases "enqueue_reorder (\<lambda>g. rx_seq_num (rxf ad g)) f fs")
      case None
      then have dup: "a \<in> snd s" using enq R(7) by (simp add: a_def)
      then have *: "fst s \<noteq> None" "next_start w n a = n"
        using rel win [of a] R(7) by (auto simp: reorder_rel_def Let_def next_start_def)
      have "reorder_steps i t f ad = (FAIL, ad1)"
        using chk ge None
        by (simp add: reorder_steps_def seq enqueue_reorder_recvframe_def ad1_def flip: c_def fs_def)
      moreover have "rob_receive w a s = None" using dup by (simp add: rob_receive_def)
      ultimately show ?thesis using rel_keep keep [OF *(2,1)] by (simp add: a_def same_frames_def)
    next
      case (Some gs)
      then have gs: "a \<notin> num ` set fs" "set gs = insert f (set fs)" "sorted_wrt (<) (map num gs)"
        using enq by (simp_all add: a_def)
      define ad2 where "ad2 = ad1\<lparr>recvpriv := rq_set (REORDER i t) gs (rq_delete f (recvpriv ad1))\<rparr>"
      define n1 where "n1 = next_start w n a"
      obtain d m r where rls: "release n1 (map num gs) = (d, m, r)" by (metis prod_cases3)
      note rob = release_rob [OF gs(3) rls]
      have st: "rqueue (recvpriv ad2) (REORDER i t) = gs"
        "rqueue (recvpriv ad2) FREE_RECV = rqueue (recvpriv ad) FREE_RECV"
        using new by (simp_all add: ad2_def ad1_def)
      have c2: "get_ctrl i t ad2 = c\<lparr>indicate_seq := sq n1\<rparr>" "ctrl_ok i t ad2" "rx_running ad2" "rxf ad2 = rxf ad"
        using ctrl1 R(1,2) by (simp_all add: ad2_def n1_def get_ctrl_def ctrl_ok_def rx_running_def)
          (simp_all add: ad1_def set_ctrl_def Let_def)
      have near_n1: "near (num g) n1" if "g \<in> set gs" for g
        using that win [of "num g"] gs(2) nr ge w8 R(5)
        by (auto simp: near_def n1_def next_start_def a_def [symmetric])
      have walk: "walk_ok num i t n1 gs ad2"
        using c2 st gs near_n1 R(8,9) new f by (auto simp: walk_ok_def framed_def)
      obtain ad3 where L: "indicate_loop i t gs ad2 = (r \<noteq> [], ad3)"
        "rqueue (recvpriv ad3) FREE_RECV = rqueue (recvpriv ad2) FREE_RECV @ take (length d) gs"
        "rqueue (recvpriv ad3) (REORDER i t) = drop (length d) gs"
        "get_ctrl i t ad3 = (get_ctrl i t ad2)\<lparr>indicate_seq := sq m\<rparr>"
        "ctrl_ok i t ad3" "rx_running ad3" "same_frames ad2 ad3"
        using indicate_loop_abs [OF walk rls] by blast
      define ad4 where "ad4 = set_reorder_timer (r \<noteq> []) i t ad3"
      have code: "reorder_steps i t f ad = (SUCCESS, ad4)"
        using chk ge Some L(1) st(1)
        by (simp add: reorder_steps_def seq enqueue_reorder_recvframe_def recv_indicatepkts_in_order_def
            ad4_def ad2_def ad1_def flip: c_def fs_def)
      have spec: "rob_receive w a s = Some (d, (Some m, set r))"
        using ge gs rob(1) rob_release_next [of n a w "insert a (num ` set fs)"] R(5,7)
        by (simp add: rob_receive_def n1_def a_def flip: n_def) (simp add: n_def a_def)
      have split: "map num (take (length d) gs) = d" "map num (drop (length d) gs) = r"
        using rob(2) by (simp_all flip: take_map drop_map)
      have same: "same_frames ad ad4"
        using L(7) c2(4) by (simp add: same_frames_def ad4_def set_reorder_timer_def)
      have dist: "distinct gs" by (rule sorted_map_distinct [OF gs(3)])
      have disj: "set gs \<inter> set (rqueue (recvpriv ad) FREE_RECV) = {}" using gs(2) R(8) new by auto
      have bound: "x < m + w" if "x \<in> set r" for x
      proof -
        have "x \<in> num ` set gs" using that rob(2) by (metis Un_iff list.set_map set_append)
        then show ?thesis using win [of x] gs(2) rob(6) R(5)
          by (auto simp: n1_def next_start_def a_def [symmetric] split: if_splits)
      qed
      have rel': "reorder_rel num i t w (Some m, set r) ad4"
      proof -
        have above: "m < x" if "x \<in> set r" for x
          using release_facts [OF gs(3) rls] that by blast
        have sub: "set (drop (length d) gs) \<subseteq> set gs" "set (take (length d) gs) \<subseteq> set gs"
          by (rule set_drop_subset, rule set_take_subset)
        have fr: "framed num ad4 g" if "g \<in> set gs" for g
        proof -
          have "framed num ad g" using that R(9) f unfolding gs(2) by auto
          then show ?thesis by (rule framed_same [OF same])
        qed
        have tk: "set (take (length d) gs) \<inter> set (drop (length d) gs) = {}"
          by (rule set_take_disj_set_drop_if_distinct [OF dist]) simp
        have img: "set r = num ` set (drop (length d) gs)" by (metis list.set_map split(2))
        have q4: "rqueue (recvpriv ad4) (REORDER i t) = drop (length d) gs"
          "rqueue (recvpriv ad4) FREE_RECV = rqueue (recvpriv ad) FREE_RECV @ take (length d) gs"
          using L(2,3) st by (simp_all add: ad4_def set_reorder_timer_def)
        have c4: "get_ctrl i t ad4 = c\<lparr>indicate_seq := sq m, reorder_timer := r \<noteq> []\<rparr>"
          "ctrl_ok i t ad4" "rx_running ad4"
          using L(4-6) c2(1) by (simp_all add: ad4_def set_reorder_timer_def)
        have "set (drop (length d) gs) \<inter> set (rqueue (recvpriv ad4) FREE_RECV) = {}"
          using disj sub tk unfolding q4(2) by auto
        then show ?thesis
          using R(3-5) rob(4) split(2) img sub above bound fr
          unfolding reorder_rel_def Let_def q4(1) c4(1) by (auto simp: c4(2,3))
      qed
      have part: "set (take (length d) gs) \<union> set (drop (length d) gs) = set gs"
        by (metis append_take_drop_id set_append)
      show ?thesis
        using code spec rel' same split(1) L(2,3) st part gs(2)
        by (auto simp: a_def ad4_def set_reorder_timer_def fs_def intro!: exI [of _ "take (length d) gs"])
    qed
  qed
qed

section \<open>Arrival and timeout\<close>

lemma reorder_rel_set_rxf:
  assumes "rx_seq_num fr = rx_seq_num (rxf ad f)" "rx_amsdu fr = rx_amsdu (rxf ad f)"
  shows "reorder_rel num i t w s (set_rxf f fr ad) = reorder_rel num i t w s ad"
    and "framed num (set_rxf f fr ad) g = framed num ad g"
    and "same_frames ad (set_rxf f fr ad)"
  using assms
  by (auto simp: reorder_rel_def Let_def get_ctrl_def ctrl_ok_def rx_running_def framed_def same_frames_def)

text \<open>A frame ready to arrive at reordering control \<open>t\<close> of station \<open>i\<close>.\<close>

definition arrivable :: "(nat \<Rightarrow> nat) \<Rightarrow> nat \<Rightarrow> nat \<Rightarrow> rx_adapter \<Rightarrow> nat \<Rightarrow> bool" where
  "arrivable num i t ad f \<longleftrightarrow> framed num ad f \<and> rx_preorder (rxf ad f) = Some (i, t) \<and>
     rx_qos (rxf ad f) = 1 \<and> f \<notin> set (rqueue (recvpriv ad) (REORDER i t)) \<and>
     f \<notin> set (rqueue (recvpriv ad) FREE_RECV) \<and>
     (rx_amsdu (rxf ad f) = 0 \<longrightarrow> wlanhdr_to_ethhdr ad (rxf ad f) \<noteq> None)"

lemma recv_indicatepkt_reorder_steps:
  assumes rel: "reorder_rel num i t w s ad" and f: "arrivable num i t ad f"
  shows "\<exists>fr. recv_indicatepkt_reorder f ad = Some (reorder_steps i t f (set_rxf f fr ad)) \<and>
    rx_seq_num fr = rx_seq_num (rxf ad f) \<and> rx_amsdu fr = rx_amsdu (rxf ad f)"
proof -
  have en: "enable (get_ctrl i t ad)" using rel by (simp add: reorder_rel_def Let_def)
  show ?thesis
  proof (cases "rx_amsdu (rxf ad f) = 0")
    case True
    then obtain st fr where w: "wlanhdr_to_ethhdr ad (rxf ad f) = Some (st, fr)"
      using f by (auto simp: arrivable_def)
    have "get_ctrl i t (set_rxf f fr ad) = get_ctrl i t ad" by (simp add: get_ctrl_def)
    then show ?thesis using True w en f wlanhdr_to_ethhdr_keeps [OF w]
      by (intro exI [of _ fr]) (simp add: recv_indicatepkt_reorder_def Let_def arrivable_def)
  next
    case False
    have "set_rxf f (rxf ad f) ad = ad" by (simp add: set_rxf_def)
    then show ?thesis using False en f
      by (intro exI [of _ "rxf ad f"]) (simp add: recv_indicatepkt_reorder_def Let_def arrivable_def)
  qed
qed

lemma recv_indicatepkt_reorder_abs:
  assumes rel: "reorder_rel num i t w s ad" and f: "arrivable num i t ad f"
    and ns: "near (num f) (rob_start s (num f))"
  shows "\<exists>st ad'. recv_indicatepkt_reorder f ad = Some (st, ad') \<and>
    (case rob_receive w (num f) s of
       None \<Rightarrow> st = FAIL \<and> reorder_rel num i t w s ad' \<and> recvpriv ad' = recvpriv ad
     | Some (out, s') \<Rightarrow> st = SUCCESS \<and> reorder_rel num i t w s' ad' \<and>
         (\<exists>ds. map num ds = out \<and>
            rqueue (recvpriv ad') FREE_RECV = rqueue (recvpriv ad) FREE_RECV @ ds \<and>
            set ds \<union> set (rqueue (recvpriv ad') (REORDER i t)) =
              insert f (set (rqueue (recvpriv ad) (REORDER i t)))))"
proof -
  obtain fr where fr: "recv_indicatepkt_reorder f ad = Some (reorder_steps i t f (set_rxf f fr ad))"
    "rx_seq_num fr = rx_seq_num (rxf ad f)" "rx_amsdu fr = rx_amsdu (rxf ad f)"
    using recv_indicatepkt_reorder_steps [OF rel f] by blast
  define ad1 where "ad1 = set_rxf f fr ad"
  have rel1: "reorder_rel num i t w s ad1" and fm: "framed num ad1 f"
    using rel f reorder_rel_set_rxf [OF fr(2,3)] by (simp_all add: ad1_def arrivable_def)
  have rp: "recvpriv ad1 = recvpriv ad" by (simp add: ad1_def)
  have new: "f \<notin> set (rqueue (recvpriv ad1) (REORDER i t))" "f \<notin> set (rqueue (recvpriv ad1) FREE_RECV)"
    using f by (simp_all add: rp arrivable_def)
  obtain st ad' where R: "reorder_steps i t f ad1 = (st, ad')"
    "case rob_receive w (num f) s of
       None \<Rightarrow> st = FAIL \<and> reorder_rel num i t w s ad' \<and> recvpriv ad' = recvpriv ad1
     | Some (out, s') \<Rightarrow> st = SUCCESS \<and> reorder_rel num i t w s' ad' \<and>
         (\<exists>ds. map num ds = out \<and>
            rqueue (recvpriv ad') FREE_RECV = rqueue (recvpriv ad1) FREE_RECV @ ds \<and>
            set ds \<union> set (rqueue (recvpriv ad') (REORDER i t)) =
              insert f (set (rqueue (recvpriv ad1) (REORDER i t))))"
    using reorder_steps_abs [OF rel1 fm new ns] by blast
  show ?thesis
    by (intro exI conjI, unfold fr(1) ad1_def [symmetric] R(1), rule refl, rule R(2) [unfolded rp])
qed

lemma reorder_timeout_abs:
  assumes rel: "reorder_rel num i t w s ad"
  shows "\<exists>ds. map num ds = fst (rob_timeout s) \<and>
    reorder_rel num i t w (snd (rob_timeout s)) (rtw_reordering_ctrl_timeout_handler i t ad) \<and>
    rqueue (recvpriv (rtw_reordering_ctrl_timeout_handler i t ad)) FREE_RECV =
      rqueue (recvpriv ad) FREE_RECV @ ds \<and>
    set ds \<union> set (rqueue (recvpriv (rtw_reordering_ctrl_timeout_handler i t ad)) (REORDER i t)) =
      set (rqueue (recvpriv ad) (REORDER i t))"
proof -
  define c where "c = (get_ctrl i t ad)\<lparr>reorder_timer := False\<rparr>"
  define ad0 where "ad0 = set_reorder_timer False i t ad"
  define fs where "fs = rqueue (recvpriv ad) (REORDER i t)"
  have R: "ctrl_ok i t ad" "rx_running ad" "enable c" "unat (wsize_b c) = w" "0 < w"
    "sorted_wrt (<) (map num fs)" "snd s = num ` set fs"
    "set fs \<inter> set (rqueue (recvpriv ad) FREE_RECV) = {}" "\<forall>f \<in> set fs. framed num ad f"
    using rel by (simp_all add: reorder_rel_def Let_def c_def fs_def)
  have s0: "get_ctrl i t ad0 = c" "ctrl_ok i t ad0" "rx_running ad0" "recvpriv ad0 = recvpriv ad" "rxf ad0 = rxf ad"
    using R(1,2) by (simp_all add: ad0_def set_reorder_timer_def c_def)
  show ?thesis
  proof (cases fs)
    case Nil
    have "recv_indicatepkts_in_order i t True ad0 = (True, ad0)"
      using Nil by (simp add: recv_indicatepkts_in_order_def s0(4) flip: fs_def)
    then have "rtw_reordering_ctrl_timeout_handler i t ad = set_reorder_timer True i t ad0"
      using R(2) by (simp add: rtw_reordering_ctrl_timeout_handler_def Let_def flip: ad0_def)
    moreover have "reorder_rel num i t w s (set_reorder_timer True i t ad0)"
      using rel s0 by (cases "fst s") (auto simp: reorder_rel_def Let_def set_reorder_timer_def c_def framed_def)
    ultimately show ?thesis using Nil R(7)
      by (auto simp: rob_timeout_def set_reorder_timer_def s0 simp flip: fs_def)
  next
    case (Cons f fs')
    define n where "n = num f"
    obtain d m r where rls: "release n (map num fs) = (d, m, r)" by (metis prod_cases3)
    note rob = release_rob [OF R(6) rls]
    obtain n0 where n0: "\<forall>x \<in> snd s. n0 < x \<and> x < n0 + w"
      using rel Cons by (cases "fst s") (auto simp: reorder_rel_def Let_def fs_def)
    define ad1 where "ad1 = set_ctrl i t (c\<lparr>indicate_seq := rx_seq_num (rxf ad f)\<rparr>) ad0"
    have w8: "w < 256" unfolding R(4) [symmetric] by (rule order.strict_trans2 [OF unsigned_less]) simp
    have walk: "walk_ok num i t n fs ad1"
    proof -
      have "near (num g) n" if "g \<in> set fs" for g
      proof -
        have "num g \<in> snd s" "n \<in> snd s" using that R(7) Cons by (auto simp: n_def)
        then have "n0 < num g \<and> num g < n0 + w" "n0 < n \<and> n < n0 + w" using n0 by blast+
        then show ?thesis using w8 unfolding near_def by linarith
      qed
      then show ?thesis
        using R s0 Cons by (auto simp: walk_ok_def ad1_def n_def framed_def fs_def)
    qed
    obtain ad2 where L: "indicate_loop i t fs ad1 = (r \<noteq> [], ad2)"
      "rqueue (recvpriv ad2) FREE_RECV = rqueue (recvpriv ad1) FREE_RECV @ take (length d) fs"
      "rqueue (recvpriv ad2) (REORDER i t) = drop (length d) fs"
      "get_ctrl i t ad2 = (get_ctrl i t ad1)\<lparr>indicate_seq := sq m\<rparr>"
      "ctrl_ok i t ad2" "rx_running ad2" "same_frames ad1 ad2"
      using indicate_loop_abs [OF walk rls] by blast
    define ad3 where "ad3 = (if r \<noteq> [] then set_reorder_timer True i t ad2 else ad2)"
    have "recv_indicatepkts_in_order i t True ad0 = (r \<noteq> [], ad2)"
      using L(1) Cons by (simp add: recv_indicatepkts_in_order_def s0 Let_def ad1_def flip: fs_def)
    then have code: "rtw_reordering_ctrl_timeout_handler i t ad = ad3"
      using R(2) by (simp add: rtw_reordering_ctrl_timeout_handler_def Let_def ad3_def flip: ad0_def)
    have "Min (snd s) = n"
      using R(6,7) Cons by (intro Min_eqI) (auto simp: n_def less_imp_le)
    then have spec: "rob_timeout s = (d, (Some m, set r))"
      using rob(1) R(7) Cons by (simp add: rob_timeout_def)
    have split: "map num (take (length d) fs) = d" "map num (drop (length d) fs) = r"
      using rob(2) by (simp_all flip: take_map drop_map)
    have q3: "rqueue (recvpriv ad3) (REORDER i t) = drop (length d) fs"
      "rqueue (recvpriv ad3) FREE_RECV = rqueue (recvpriv ad) FREE_RECV @ take (length d) fs"
      using L(2,3) by (simp_all add: ad3_def set_reorder_timer_def ad1_def s0)
    have c3: "indicate_seq (get_ctrl i t ad3) = sq m" "enable (get_ctrl i t ad3)"
      "wsize_b (get_ctrl i t ad3) = wsize_b c" "ctrl_ok i t ad3" "rx_running ad3"
      using L(4-6) R(3) s0 by (simp_all add: ad3_def set_reorder_timer_def ad1_def)
    have same: "same_frames ad ad3"
      using L(7) s0(5) by (simp add: same_frames_def ad3_def set_reorder_timer_def ad1_def)
    have part: "set (take (length d) fs) \<union> set (drop (length d) fs) = set fs"
      by (metis append_take_drop_id set_append)
    have rel': "reorder_rel num i t w (Some m, set r) ad3"
    proof -
      have sub: "set (drop (length d) fs) \<subseteq> set fs" by (rule set_drop_subset)
      have disj: "set (drop (length d) fs) \<inter> set (rqueue (recvpriv ad3) FREE_RECV) = {}"
        using R(8) sub set_take_disj_set_drop_if_distinct [OF sorted_map_distinct [OF R(6)], of "length d" "length d"]
        unfolding q3(2) by auto
      have img: "set r = num ` set (drop (length d) fs)" by (metis list.set_map split(2))
      have win: "m < x \<and> x < m + w" if x: "x \<in> set r" for x
      proof -
        have "x \<in> snd s" "n \<in> snd s" using x img sub R(7) Cons by (auto simp: n_def)
        then have "n0 < n" "x < n0 + w" using n0 by blast+
        then have "x < m + w" using rob(6) by linarith
        then show ?thesis using release_facts [OF R(6) rls] x by blast
      qed
      have fr: "framed num ad3 g" if "g \<in> set (drop (length d) fs)" for g
        using framed_same [OF same] R(9) sub that by blast
      show ?thesis
        using c3 R(4,5) rob(4) split(2) img disj win fr
        unfolding reorder_rel_def Let_def q3(1) by auto
    qed
    show ?thesis using code spec rel' q3 split(1) part
      by (auto simp: fs_def [symmetric] intro!: exI [of _ "take (length d) fs"])
  qed
qed

section \<open>Sequences of arrivals and timeouts\<close>

datatype reorder_event = Arrive nat | Timeout

fun rob_step :: "(nat \<Rightarrow> nat) \<Rightarrow> nat \<Rightarrow> reorder_event \<Rightarrow> rob \<Rightarrow> nat list \<times> rob" where
  "rob_step num w (Arrive f) s = (case rob_receive w (num f) s of None \<Rightarrow> ([], s) | Some r \<Rightarrow> r)"
| "rob_step num w Timeout s = rob_timeout s"

fun rob_run :: "(nat \<Rightarrow> nat) \<Rightarrow> nat \<Rightarrow> reorder_event list \<Rightarrow> rob \<Rightarrow> nat list \<times> rob" where
  "rob_run num w [] s = ([], s)"
| "rob_run num w (e # es) s =
     (let (out, s1) = rob_step num w e s; (outs, s2) = rob_run num w es s1 in (out @ outs, s2))"

fun reorder_run :: "nat \<Rightarrow> nat \<Rightarrow> reorder_event list \<Rightarrow> rx_adapter \<Rightarrow> rx_adapter option" where
  "reorder_run i t [] ad = Some ad"
| "reorder_run i t (Arrive f # es) ad =
     (case recv_indicatepkt_reorder f ad of
        None \<Rightarrow> None | Some (st, ad1) \<Rightarrow> reorder_run i t es ad1)"
| "reorder_run i t (Timeout # es) ad =
     reorder_run i t es (rtw_reordering_ctrl_timeout_handler i t ad)"

text \<open>No frame is further than half the number space from the window it meets.\<close>

fun near_run :: "(nat \<Rightarrow> nat) \<Rightarrow> nat \<Rightarrow> reorder_event list \<Rightarrow> rob \<Rightarrow> bool" where
  "near_run num w [] s = True"
| "near_run num w (Arrive f # es) s =
     (near (num f) (rob_start s (num f)) \<and> near_run num w es (snd (rob_step num w (Arrive f) s)))"
| "near_run num w (Timeout # es) s = near_run num w es (snd (rob_timeout s))"

fun arrivals :: "reorder_event list \<Rightarrow> nat list" where
  "arrivals [] = []"
| "arrivals (Arrive f # es) = f # arrivals es"
| "arrivals (Timeout # es) = arrivals es"

lemma rob_step_order:
  assumes inv: "rob_inv s" and step: "rob_step num w e s = (out, s')"
  shows "rob_inv s'" and "sorted_wrt (<) out"
    and "out \<noteq> [] \<or> fst s \<noteq> None \<Longrightarrow> \<exists>m. fst s' = Some m \<and> (\<forall>x \<in> set out. x < m) \<and>
      (\<forall>n. fst s = Some n \<longrightarrow> n \<le> m \<and> (\<forall>x \<in> set out. n \<le> x))"
proof -
  have fin: "finite (snd s)" using inv by (simp add: rob_inv_def)
  have low: "n < x" if "fst s = Some n" "x \<in> snd s" for n x using inv that by (auto simp: rob_inv_def)
  have "rob_inv s' \<and> sorted_wrt (<) out \<and> (out \<noteq> [] \<or> fst s \<noteq> None \<longrightarrow>
      (\<exists>m. fst s' = Some m \<and> (\<forall>x \<in> set out. x < m) \<and>
        (\<forall>n. fst s = Some n \<longrightarrow> n \<le> m \<and> (\<forall>x \<in> set out. n \<le> x))))"
  proof (cases "out = [] \<and> s' = s")
    case True
    then show ?thesis using inv by (cases "fst s") auto
  next
    case False
    then obtain k P where rel: "rob_release k P = (out, s')" "finite P"
      "\<And>n. fst s = Some n \<Longrightarrow> n \<le> k \<and> (\<forall>x \<in> P. n \<le> x)"
    proof (cases e)
      case (Arrive f)
      then have r: "rob_receive w (num f) s = Some (out, s')"
        using step False by (auto split: option.splits)
      then show ?thesis
        using that [of "max (rob_start s (num f)) (num f + 1 - w)" "insert (num f) (snd s)"] fin low
        by (cases "fst s") (auto simp: rob_receive_def Let_def rob_start_def less_imp_le split: if_splits)
    next
      case Timeout
      then have r: "snd s \<noteq> {}" "rob_release (Min (snd s)) (snd s) = (out, s')"
        using step False by (auto simp: rob_timeout_def split: if_splits)
      then show ?thesis using that [of "Min (snd s)" "snd s"] fin low less_imp_le by auto
    qed
    note f = rob_release_inv [OF rel(2,1)]
    obtain m where m: "fst s' = Some m" "k \<le> m" "\<forall>x \<in> set out. x < m" using f(5) by blast
    have "n \<le> m \<and> (\<forall>x \<in> set out. n \<le> x)" if "fst s = Some n" for n
      using rel(3) [OF that] m(2) f(3) by auto
    then show ?thesis using f(1,2) m by blast
  qed
  then show "rob_inv s'" "sorted_wrt (<) out"
    "out \<noteq> [] \<or> fst s \<noteq> None \<Longrightarrow> \<exists>m. fst s' = Some m \<and> (\<forall>x \<in> set out. x < m) \<and>
      (\<forall>n. fst s = Some n \<longrightarrow> n \<le> m \<and> (\<forall>x \<in> set out. n \<le> x))" by blast+
qed

lemma rob_run_order:
  assumes "rob_inv s" and "rob_run num w es s = (outs, s')"
  shows "sorted_wrt (<) outs \<and> (\<forall>n. fst s = Some n \<longrightarrow> (\<forall>x \<in> set outs. n \<le> x))"
  using assms
proof (induction es arbitrary: s outs)
  case (Cons e es)
  obtain out s1 where st: "rob_step num w e s = (out, s1)" by (cases "rob_step num w e s")
  obtain outs1 where run: "rob_run num w es s1 = (outs1, s')" and o: "outs = out @ outs1"
    using Cons.prems(2) st by (auto split: prod.splits)
  note step = rob_step_order [OF Cons.prems(1) st]
  have IH: "sorted_wrt (<) outs1" "\<And>n x. fst s1 = Some n \<Longrightarrow> x \<in> set outs1 \<Longrightarrow> n \<le> x"
    using Cons.IH [OF step(1) run] by blast+
  show ?case
  proof (cases "out \<noteq> [] \<or> fst s \<noteq> None")
    case True
    then obtain m where m: "fst s1 = Some m" "\<forall>x \<in> set out. x < m"
      "\<And>n. fst s = Some n \<Longrightarrow> n \<le> m \<and> (\<forall>x \<in> set out. n \<le> x)" using step(3) by blast
    have "x < y" if "x \<in> set out" "y \<in> set outs1" for x y
      using m(2) that(1) IH(2) [OF m(1) that(2)] by (meson less_le_trans)
    moreover have "n \<le> x" if "fst s = Some n" "x \<in> set outs" for n x
      using m(3) [OF that(1)] IH(2) [OF m(1)] that(2) by (auto simp: o intro: le_trans)
    ultimately show ?thesis using step(2) IH(1) by (auto simp: o sorted_wrt_append)
  next
    case False
    then show ?thesis using IH(1) by (simp add: o)
  qed
qed simp

lemma indicate_frame_rxf:
  "g \<noteq> f \<Longrightarrow> rxf (indicate_frame f ad) g = rxf ad g" "fw_state (indicate_frame f ad) = fw_state ad"
  by (auto simp: indicate_frame_def indicatepkt_fields amsdu_to_msdu_def free_frame_def Let_def)

lemma indicate_loop_rxf:
  "(g \<notin> set fs \<longrightarrow> rxf (snd (indicate_loop i t fs ad)) g = rxf ad g) \<and>
   fw_state (snd (indicate_loop i t fs ad)) = fw_state ad"
proof (induction fs arbitrary: ad)
  case (Cons f fs)
  show ?case
    using Cons.IH by (auto simp: Let_def indicate_frame_rxf)
qed simp

lemma enqueue_reorder_set: "enqueue_reorder sn f fs = Some gs \<Longrightarrow> set gs = insert f (set fs)"
  by (induction fs arbitrary: gs) (auto split: if_splits)

lemma in_order_rxf:
  "g \<notin> set (rqueue (recvpriv ad) (REORDER i t)) \<Longrightarrow>
     rxf (snd (recv_indicatepkts_in_order i t b ad)) g = rxf ad g"
  "fw_state (snd (recv_indicatepkts_in_order i t b ad)) = fw_state ad"
  using indicate_loop_rxf
  by (auto simp: recv_indicatepkts_in_order_def Let_def simp del: indicate_loop.simps split: list.splits)

lemma set_reorder_timer_rxf [simp]:
  "rxf (set_reorder_timer b i t ad) = rxf ad" "fw_state (set_reorder_timer b i t ad) = fw_state ad"
  "recvpriv (set_reorder_timer b i t ad) = recvpriv ad"
  by (simp_all add: set_reorder_timer_def)

lemma reorder_steps_rxf:
  "g \<noteq> f \<Longrightarrow> g \<notin> set (rqueue (recvpriv ad) (REORDER i t)) \<Longrightarrow>
     rxf (snd (reorder_steps i t f ad)) g = rxf ad g"
  "fw_state (snd (reorder_steps i t f ad)) = fw_state ad"
  using in_order_rxf enqueue_reorder_set
  by (auto simp: reorder_steps_def Let_def enqueue_reorder_recvframe_def case_prod_beta
      split: option.splits)

lemma timeout_rxf:
  "g \<notin> set (rqueue (recvpriv ad) (REORDER i t)) \<Longrightarrow>
     rxf (rtw_reordering_ctrl_timeout_handler i t ad) g = rxf ad g"
  "fw_state (rtw_reordering_ctrl_timeout_handler i t ad) = fw_state ad"
  using in_order_rxf
  by (auto simp: rtw_reordering_ctrl_timeout_handler_def Let_def case_prod_beta)

lemma wlanhdr_fw_state: "fw_state ad' = fw_state ad \<Longrightarrow> wlanhdr_to_ethhdr ad' = wlanhdr_to_ethhdr ad"
  by (simp add: fun_eq_iff wlanhdr_to_ethhdr_def ethhdr_place_def check_fwstate_def)

lemma arrivable_later:
  assumes "arrivable num i t ad g" "rxf ad' g = rxf ad g" "fw_state ad' = fw_state ad"
    and "g \<notin> set (rqueue (recvpriv ad') (REORDER i t))" "g \<notin> set (rqueue (recvpriv ad') FREE_RECV)"
  shows "arrivable num i t ad' g"
  using assms wlanhdr_fw_state [OF assms(3)] by (simp add: arrivable_def framed_def)

lemma reorder_run_abs:
  assumes "reorder_rel num i t w s ad" and "near_run num w es s" and "distinct (arrivals es)"
    and "\<forall>f \<in> set (arrivals es). arrivable num i t ad f"
  shows "\<exists>ad' ds. reorder_run i t es ad = Some ad' \<and> map num ds = fst (rob_run num w es s) \<and>
    reorder_rel num i t w (snd (rob_run num w es s)) ad' \<and>
    rqueue (recvpriv ad') FREE_RECV = rqueue (recvpriv ad) FREE_RECV @ ds"
  using assms
proof (induction es arbitrary: s ad)
  case Nil
  then show ?case by auto
next
  case (Cons e es)
  define Q where "Q = set (rqueue (recvpriv ad) (REORDER i t))"
  obtain ad1 ds1 new where step:
    "reorder_run i t (e # es) ad = reorder_run i t es ad1"
    "map num ds1 = fst (rob_step num w e s)" "reorder_rel num i t w (snd (rob_step num w e s)) ad1"
    "rqueue (recvpriv ad1) FREE_RECV = rqueue (recvpriv ad) FREE_RECV @ ds1"
    "set ds1 \<subseteq> Q \<union> new" "set (rqueue (recvpriv ad1) (REORDER i t)) \<subseteq> Q \<union> new"
    "new \<inter> set (arrivals es) = {}" "fw_state ad1 = fw_state ad"
    "\<And>g. g \<notin> Q \<Longrightarrow> g \<notin> new \<Longrightarrow> rxf ad1 g = rxf ad g"
  proof (cases e)
    case Timeout
    obtain ds where T: "map num ds = fst (rob_timeout s)"
      "reorder_rel num i t w (snd (rob_timeout s)) (rtw_reordering_ctrl_timeout_handler i t ad)"
      "rqueue (recvpriv (rtw_reordering_ctrl_timeout_handler i t ad)) FREE_RECV =
        rqueue (recvpriv ad) FREE_RECV @ ds"
      "set ds \<union> set (rqueue (recvpriv (rtw_reordering_ctrl_timeout_handler i t ad)) (REORDER i t)) = Q"
      using reorder_timeout_abs [OF Cons.prems(1)] unfolding Q_def by blast
    show ?thesis
      by (rule that [of "rtw_reordering_ctrl_timeout_handler i t ad" ds "{}"])
        (use T timeout_rxf in \<open>auto simp: Timeout Q_def\<close>)
  next
    case (Arrive f)
    have f: "arrivable num i t ad f" "near (num f) (rob_start s (num f))"
      "f \<notin> set (arrivals es)"
      using Cons.prems(2,3,4) by (simp_all add: Arrive)
    obtain st ad1 where A: "recv_indicatepkt_reorder f ad = Some (st, ad1)"
      "case rob_receive w (num f) s of
         None \<Rightarrow> st = FAIL \<and> reorder_rel num i t w s ad1 \<and> recvpriv ad1 = recvpriv ad
       | Some (out, s') \<Rightarrow> st = SUCCESS \<and> reorder_rel num i t w s' ad1 \<and>
         (\<exists>ds. map num ds = out \<and>
            rqueue (recvpriv ad1) FREE_RECV = rqueue (recvpriv ad) FREE_RECV @ ds \<and>
            set ds \<union> set (rqueue (recvpriv ad1) (REORDER i t)) =
              insert f (set (rqueue (recvpriv ad) (REORDER i t))))"
      using recv_indicatepkt_reorder_abs [OF Cons.prems(1) f(1,2)] by blast
    obtain fr where "recv_indicatepkt_reorder f ad = Some (reorder_steps i t f (set_rxf f fr ad))"
      using recv_indicatepkt_reorder_steps [OF Cons.prems(1) f(1)] by blast
    then have ad1: "ad1 = snd (reorder_steps i t f (set_rxf f fr ad))" using A(1) by (metis option.inject snd_conv)
    have fw: "fw_state ad1 = fw_state ad" by (simp add: ad1 reorder_steps_rxf)
    have same: "rxf ad1 g = rxf ad g" if "g \<notin> Q" "g \<notin> {f}" for g
      using that by (simp add: ad1 reorder_steps_rxf Q_def)
    show ?thesis
    proof (cases "rob_receive w (num f) s")
      case None
      show ?thesis
        by (rule that [of ad1 "[]" "{f}"]) (use A None f(3) fw same in \<open>auto simp: Arrive Q_def\<close>)
    next
      case (Some r)
      obtain out s' where r: "r = (out, s')" by (cases r)
      obtain ds where "map num ds = out"
        "rqueue (recvpriv ad1) FREE_RECV = rqueue (recvpriv ad) FREE_RECV @ ds"
        "set ds \<union> set (rqueue (recvpriv ad1) (REORDER i t)) = insert f Q"
        using A(2) Some r unfolding Q_def by auto
      then show ?thesis
        by (intro that [of ad1 ds "{f}"]) (use A Some r f(3) fw same in \<open>auto simp: Arrive\<close>)
    qed
  qed
  have arr: "\<forall>g \<in> set (arrivals es). arrivable num i t ad1 g"
  proof
    fix g assume g: "g \<in> set (arrivals es)"
    have a: "arrivable num i t ad g" using Cons.prems(4) g by (cases e) auto
    have "g \<notin> Q" "g \<notin> new" using a g step(7) by (auto simp: arrivable_def Q_def)
    then show "arrivable num i t ad1 g"
      using arrivable_later [OF a step(9) step(8)] a step(4-6) by (auto simp: arrivable_def)
  qed
  have "near_run num w es (snd (rob_step num w e s))" "distinct (arrivals es)"
    using Cons.prems(2,3) by (cases e; simp)+
  from Cons.IH [OF step(3) this arr] obtain ad' ds where IH:
    "reorder_run i t es ad1 = Some ad'" "map num ds = fst (rob_run num w es (snd (rob_step num w e s)))"
    "reorder_rel num i t w (snd (rob_run num w es (snd (rob_step num w e s)))) ad'"
    "rqueue (recvpriv ad') FREE_RECV = rqueue (recvpriv ad1) FREE_RECV @ ds" by blast
  then show ?case
    using step(1,2,4) by (intro exI [of _ ad'] exI [of _ "ds1 @ ds"]) (simp add: case_prod_beta Let_def)
qed

lemma reorder_rel_inv: "reorder_rel num i t w s ad \<Longrightarrow> rob_inv s"
  by (cases "fst s") (auto simp: reorder_rel_def rob_inv_def Let_def)

lemma timeout_progress:
  assumes rel: "reorder_rel num i t w s ad" and ne: "rqueue (recvpriv ad) (REORDER i t) \<noteq> []"
  shows "length (rqueue (recvpriv (rtw_reordering_ctrl_timeout_handler i t ad)) (REORDER i t)) <
    length (rqueue (recvpriv ad) (REORDER i t))"
proof -
  define ad' where "ad' = rtw_reordering_ctrl_timeout_handler i t ad"
  define Q Q' where "Q = rqueue (recvpriv ad) (REORDER i t)" and "Q' = rqueue (recvpriv ad') (REORDER i t)"
  have s: "snd s = num ` set Q" "distinct Q" "snd s \<noteq> {}" "finite (snd s)"
    using rel ne sorted_map_distinct by (auto simp: reorder_rel_def Let_def Q_def)
  obtain ds where T: "reorder_rel num i t w (snd (rob_timeout s)) ad'"
    "set ds \<union> set Q' = set Q"
    using reorder_timeout_abs [OF rel] unfolding ad'_def Q_def Q'_def by blast
  have Q': "distinct Q'" "snd (snd (rob_timeout s)) = num ` set Q'"
    using T(1) sorted_map_distinct by (auto simp: reorder_rel_def Let_def Q'_def)
  have "Min (snd s) \<notin> num ` set Q'"
  proof
    assume m: "Min (snd s) \<in> num ` set Q'"
    have "first_gap (Min (snd s)) (snd s) \<le> Min (snd s)"
      using m s(3) by (simp add: rob_timeout_def rob_release_def Let_def flip: Q'(2))
    then show False
      using first_gap_props [OF s(4), of "Min (snd s)"] Min_in [OF s(4,3)] by auto
  qed
  moreover have "Min (snd s) \<in> num ` set Q" using Min_in [OF s(4,3)] s(1) by simp
  ultimately have "set Q' \<subset> set Q" using T(2) by auto
  then have "card (set Q') < card (set Q)" by (intro psubset_card_mono) auto
  then show ?thesis using s(2) Q'(1) by (simp add: distinct_card Q_def Q'_def ad'_def)
qed

text \<open>One firing of the timer takes a first part of the pending frames, and not none of them.\<close>

lemma timeout_takes:
  assumes rel: "reorder_rel num i t w s ad"
  defines "q \<equiv> rqueue (recvpriv ad) (REORDER i t)" and "ad' \<equiv> rtw_reordering_ctrl_timeout_handler i t ad"
  shows "\<exists>n s'. reorder_rel num i t w s' ad' \<and> rqueue (recvpriv ad') (REORDER i t) = drop n q \<and>
    rqueue (recvpriv ad') FREE_RECV = rqueue (recvpriv ad) FREE_RECV @ take n q \<and> n \<le> length q \<and>
    (q \<noteq> [] \<longrightarrow> 0 < n)"
proof -
  define q' where "q' = rqueue (recvpriv ad') (REORDER i t)"
  obtain ds where T: "map num ds = fst (rob_timeout s)" "reorder_rel num i t w (snd (rob_timeout s)) ad'"
    "rqueue (recvpriv ad') FREE_RECV = rqueue (recvpriv ad) FREE_RECV @ ds" "set ds \<union> set q' = set q"
    using reorder_timeout_abs [OF rel] unfolding ad'_def q_def q'_def by blast
  have q: "sorted_wrt (<) (map num q)" "snd s = num ` set q" "finite (snd s)"
    and q': "sorted_wrt (<) (map num q')" "snd (snd (rob_timeout s)) = num ` set q'"
    using rel T(2) by (auto simp: reorder_rel_def Let_def q_def q'_def)
  have ord: "sorted_wrt (<) (map num ds) \<and> (\<forall>x \<in> set (map num ds). \<forall>y \<in> num ` set q'. x < y)"
  proof (cases "snd s = {}")
    case True
    then show ?thesis using T(1) by (simp add: rob_timeout_def)
  next
    case False
    obtain d s' where r: "rob_release (Min (snd s)) (snd s) = (d, s')" by (cases "rob_release (Min (snd s)) (snd s)") simp
    note p = rob_release_inv [OF q(3) r]
    have e: "map num ds = d" "num ` set q' = snd s'" using T(1) q'(2) False r by (simp_all add: rob_timeout_def)
    obtain m where "fst s' = Some m" "\<forall>x \<in> set d. x < m" using p(5) by blast
    moreover have "m < y" if "y \<in> snd s'" for y using p(1) calculation(1) that by (auto simp: rob_inv_def)
    ultimately show ?thesis unfolding e using p(2) by (auto intro: less_trans)
  qed
  have "sorted_wrt (<) (map num (ds @ q'))" using ord q'(1) by (auto simp: sorted_wrt_append)
  then have "distinct (map num (ds @ q'))" by (simp only: strict_sorted_iff)
  moreover have "distinct (map num q)" using q(1) by (simp only: strict_sorted_iff)
  moreover have S: "set (ds @ q') = set q" using T(4) by simp
  ultimately have "map num (ds @ q') = map num q"
    using \<open>sorted_wrt (<) (map num (ds @ q'))\<close> q(1)
    by (metis image_set sorted_distinct_set_unique strict_sorted_iff)
  moreover have "inj_on num (set (ds @ q') \<union> set q)"
    unfolding S using \<open>distinct (map num q)\<close> by (simp add: distinct_map)
  ultimately have split: "ds @ q' = q" by (rule map_inj_on)
  have "0 < length ds" if "q \<noteq> []"
    using timeout_progress [OF rel, folded q_def ad'_def] that split by (auto simp flip: q'_def)
  then show ?thesis
    using T(2,3) split by (intro exI [of _ "length ds"] exI [of _ "snd (rob_timeout s)"]) (auto simp flip: q'_def)
qed

lemma timeouts_take:
  assumes "reorder_rel num i t w s ad"
  defines "q \<equiv> rqueue (recvpriv ad) (REORDER i t)"
  shows "\<exists>ad' n. reorder_run i t (replicate k Timeout) ad = Some ad' \<and> min k (length q) \<le> n \<and>
    rqueue (recvpriv ad') (REORDER i t) = drop n q \<and>
    rqueue (recvpriv ad') FREE_RECV = rqueue (recvpriv ad) FREE_RECV @ take n q"
  using assms(1) unfolding q_def
proof (induction k arbitrary: s ad)
  case 0
  then show ?case by (intro exI [of _ ad] exI [of _ 0]) simp
next
  case (Suc k)
  define ad1 where "ad1 = rtw_reordering_ctrl_timeout_handler i t ad"
  let ?q = "rqueue (recvpriv ad) (REORDER i t)"
  obtain n s' where n: "reorder_rel num i t w s' ad1" "rqueue (recvpriv ad1) (REORDER i t) = drop n ?q"
    "rqueue (recvpriv ad1) FREE_RECV = rqueue (recvpriv ad) FREE_RECV @ take n ?q" "n \<le> length ?q" "?q \<noteq> [] \<longrightarrow> 0 < n"
    using timeout_takes [OF Suc.prems] unfolding ad1_def by blast
  from Suc.IH [OF n(1)] obtain ad' m where m: "reorder_run i t (replicate k Timeout) ad1 = Some ad'"
    "min k (length ?q - n) \<le> m" "rqueue (recvpriv ad') (REORDER i t) = drop m (drop n ?q)"
    "rqueue (recvpriv ad') FREE_RECV = (rqueue (recvpriv ad) FREE_RECV @ take n ?q) @ take m (drop n ?q)"
    by (auto simp: n(2,3))
  have "min (Suc k) (length ?q) \<le> n + m" using n(4,5) m(2) by (cases "?q = []") auto
  moreover have "take n ?q @ take m (drop n ?q) = take (n + m) ?q" by (simp add: take_add)
  ultimately show ?case
    using m(1,3,4) by (intro exI [of _ ad'] exI [of _ "n + m"]) (simp add: ad1_def add.commute)
qed

text \<open>
  When the timer fires with nothing pending, the forced walk reports frames left behind and the
  handler arms the timer again.
\<close>

lemma reorder_timer_idle:
  assumes "ctrl_ok i t ad" and "rx_running ad" and "rqueue (recvpriv ad) (REORDER i t) = []"
  shows "reorder_timer (get_ctrl i t (rtw_reordering_ctrl_timeout_handler i t ad))"
    and "recvpriv (rtw_reordering_ctrl_timeout_handler i t ad) = recvpriv ad"
  using assms
  by (simp_all add: rtw_reordering_ctrl_timeout_handler_def Let_def recv_indicatepkts_in_order_def
      set_reorder_timer_def)

text \<open>
  What a pending frame becomes for the network stack: the packet it is, or the packets of the
  aggregate. In a station every frame with a buffer is handed to the stack.
\<close>

definition stack_packets :: "rx_frame \<Rightarrow> u8 list list" where
  "stack_packets fr = (if rx_amsdu fr = 0 then [take (rx_flen fr) (drop (rx_doff fr) (rx_mem fr))] else amsdu_packets fr)"

definition for_stack :: "nat list \<Rightarrow> rx_adapter \<Rightarrow> bool" where
  "for_stack fs ad \<longleftrightarrow> \<not> check_fwstate ad WIFI_AP_STATE \<and> rx_running ad \<and> distinct fs \<and>
     (\<forall>f \<in> set fs. rf_pkt (recvpriv ad) f \<noteq> None \<and> (rx_amsdu (rxf ad f) = 0 \<or> rx_amsdu (rxf ad f) = 1))"

lemma indicate_frame_netif:
  assumes "for_stack (f # fs) ad"
  shows "netif_rx (indicate_frame f ad) = netif_rx ad @ stack_packets (rxf ad f)"
    and "for_stack fs (indicate_frame f ad)"
proof -
  have f: "rf_pkt (recvpriv ad) f \<noteq> None" "rx_amsdu (rxf ad f) = 0 \<or> rx_amsdu (rxf ad f) = 1"
    "rx_running ad" "\<not> check_fwstate ad WIFI_AP_STATE" "f \<notin> set fs"
    using assms by (simp_all add: for_stack_def)
  then show "netif_rx (indicate_frame f ad) = netif_rx ad @ stack_packets (rxf ad f)"
    by (auto simp: indicate_frame_def rtw_recv_indicatepkt_def amsdu_to_msdu_def stack_packets_def Let_def)
  have "rf_pkt (recvpriv (indicate_frame f ad)) g = rf_pkt (recvpriv ad) g" if "g \<in> set fs" for g
  proof -
    have "g \<noteq> f" using that f(5) by blast
    then show ?thesis using f(1-3)
      by (auto simp: indicate_frame_def rtw_recv_indicatepkt_def amsdu_to_msdu_def free_frame_def
          rtw_free_recvframe_def rq_insert_tail_def rq_delete_def rq_set_def Let_def split: option.splits)
  qed
  moreover have "rxf (indicate_frame f ad) g = rxf ad g" if "g \<in> set fs" for g
    using that f(5) indicate_frame_rxf(1) [of g f ad] by auto
  moreover have "rx_running (indicate_frame f ad)" using indicate_frame_fields f(2,3) by blast
  ultimately show "for_stack fs (indicate_frame f ad)"
    using assms by (auto simp: for_stack_def check_fwstate_def indicate_frame_rxf)
qed

lemma for_stack_cong:
  "netif_rx ad' = netif_rx ad \<Longrightarrow> rxf ad' = rxf ad \<Longrightarrow> fw_state ad' = fw_state ad \<Longrightarrow>
   rf_pkt (recvpriv ad') = rf_pkt (recvpriv ad) \<Longrightarrow> rx_running ad' = rx_running ad \<Longrightarrow>
   for_stack fs ad' = for_stack fs ad"
  by (simp add: for_stack_def check_fwstate_def)

lemma indicate_loop_netif:
  assumes "for_stack fs ad" and "rqueue (recvpriv ad) (REORDER i t) = fs"
  shows "\<exists>n. netif_rx (snd (indicate_loop i t fs ad)) =
      netif_rx ad @ concat (map (\<lambda>f. stack_packets (rxf ad f)) (take n fs)) \<and>
    rqueue (recvpriv (snd (indicate_loop i t fs ad))) (REORDER i t) = drop n fs \<and>
    for_stack (drop n fs) (snd (indicate_loop i t fs ad)) \<and>
    (\<forall>f \<in> set (drop n fs). rxf (snd (indicate_loop i t fs ad)) f = rxf ad f)"
  using assms
proof (induction fs arbitrary: ad)
  case (Cons f fs)
  define c where "c = get_ctrl i t ad"
  show ?case
  proof (cases "SN_LESS (indicate_seq c) (rx_seq_num (rxf ad f))")
    case True
    then show ?thesis using Cons.prems by (intro exI [of _ 0]) (simp add: Let_def flip: c_def)
  next
    case False
    define ad2 where "ad2 = (let ad1 = ad\<lparr>recvpriv := rq_delete f (recvpriv ad)\<rparr> in
      if SN_EQUAL (indicate_seq c) (rx_seq_num (rxf ad f))
      then set_ctrl i t (c\<lparr>indicate_seq := (indicate_seq c + 1) AND 0xFFF\<rparr>) ad1 else ad1)"
    have code: "indicate_loop i t (f # fs) ad = indicate_loop i t fs (indicate_frame f ad2)"
      using False by (simp add: Let_def ad2_def flip: c_def)
    have e: "netif_rx ad2 = netif_rx ad" "rxf ad2 = rxf ad" "recvpriv ad2 = rq_delete f (recvpriv ad)"
      "fw_state ad2 = fw_state ad" "rx_running ad2 = rx_running ad"
      by (auto simp: ad2_def Let_def) (auto simp: rx_running_def)
    have st: "for_stack (f # fs) ad2"
      using Cons.prems(1) for_stack_cong [of ad2 ad] e by (simp add: rq_delete_def)
    note ind = indicate_frame_netif [OF st]
    have nf: "f \<notin> set fs" using st by (simp add: for_stack_def)
    have q: "rqueue (recvpriv (indicate_frame f ad2)) (REORDER i t) = fs"
      using st Cons.prems(2) nf by (auto simp: indicate_frame_fields e rq_delete_def for_stack_def)
    have same: "rxf (indicate_frame f ad2) g = rxf ad g" if "g \<in> set fs" for g
      using that nf indicate_frame_rxf(1) [of g f ad2] e(2) by auto
    obtain n where IH: "netif_rx (snd (indicate_loop i t fs (indicate_frame f ad2))) =
        netif_rx (indicate_frame f ad2) @
          concat (map (\<lambda>f'. stack_packets (rxf (indicate_frame f ad2) f')) (take n fs))"
      "rqueue (recvpriv (snd (indicate_loop i t fs (indicate_frame f ad2)))) (REORDER i t) = drop n fs"
      "for_stack (drop n fs) (snd (indicate_loop i t fs (indicate_frame f ad2)))"
      "\<forall>g \<in> set (drop n fs). rxf (snd (indicate_loop i t fs (indicate_frame f ad2))) g = rxf (indicate_frame f ad2) g"
      using Cons.IH [OF ind(2) q] by blast
    have "map (\<lambda>f'. stack_packets (rxf (indicate_frame f ad2) f')) (take n fs) =
        map (\<lambda>f'. stack_packets (rxf ad f')) (take n fs)"
      using same by (auto dest!: in_set_takeD)
    note pk = arg_cong [OF this, of concat]
    show ?thesis unfolding code
      using IH same pk by (intro exI [of _ "Suc n"]) (auto simp: ind(1) e dest: in_set_dropD)
  qed
qed (auto intro!: exI [of _ 0])

lemma timeout_netif:
  assumes "for_stack fs ad" and fs: "rqueue (recvpriv ad) (REORDER i t) = fs"
  defines "ad' \<equiv> rtw_reordering_ctrl_timeout_handler i t ad"
  shows "\<exists>n. netif_rx ad' = netif_rx ad @ concat (map (\<lambda>f. stack_packets (rxf ad f)) (take n fs)) \<and>
    rqueue (recvpriv ad') (REORDER i t) = drop n fs \<and> for_stack (drop n fs) ad' \<and>
    (\<forall>f \<in> set (drop n fs). rxf ad' f = rxf ad f)"
proof -
  have sc: "netif_rx (set_ctrl i t c ad0) = netif_rx ad0" "rxf (set_ctrl i t c ad0) = rxf ad0"
    "recvpriv (set_ctrl i t c ad0) = recvpriv ad0" "fw_state (set_ctrl i t c ad0) = fw_state ad0"
    "for_stack gs (set_ctrl i t c ad0) = for_stack gs ad0" for c gs ad0
    by (simp_all add: for_stack_def check_fwstate_def)
  have run: "rx_running ad" using assms(1) by (simp add: for_stack_def)
  show ?thesis
  proof (cases fs)
    case Nil
    then show ?thesis using assms(1) run fs
      by (simp add: ad'_def rtw_reordering_ctrl_timeout_handler_def Let_def recv_indicatepkts_in_order_def
          set_reorder_timer_def sc)
  next
    case (Cons f gs)
    define ad0 where "ad0 = set_reorder_timer False i t ad"
    define ad1 where "ad1 = set_ctrl i t ((get_ctrl i t ad0)\<lparr>indicate_seq := rx_seq_num (rxf ad0 f)\<rparr>) ad0"
    have e: "netif_rx ad1 = netif_rx ad" "rxf ad1 = rxf ad" "recvpriv ad1 = recvpriv ad"
      "for_stack fs ad1 = for_stack fs ad"
      by (simp_all add: ad1_def ad0_def set_reorder_timer_def sc)
    have "recv_indicatepkts_in_order i t True ad0 = indicate_loop i t fs ad1"
      using fs Cons by (simp add: recv_indicatepkts_in_order_def ad0_def ad1_def Let_def)
    then obtain b where b: "ad' = (if b then set_reorder_timer True i t (snd (indicate_loop i t fs ad1))
        else snd (indicate_loop i t fs ad1))"
      using run that [of "fst (indicate_loop i t fs ad1)"]
      by (simp add: ad'_def rtw_reordering_ctrl_timeout_handler_def Let_def case_prod_beta flip: ad0_def)
    have "for_stack fs ad1" "rqueue (recvpriv ad1) (REORDER i t) = fs" using assms(1) fs e by simp_all
    from indicate_loop_netif [OF this]
    show ?thesis unfolding b by (auto simp: e set_reorder_timer_def sc)
  qed
qed

lemma timeouts_netif:
  assumes "for_stack fs ad" and "rqueue (recvpriv ad) (REORDER i t) = fs"
    and "reorder_run i t (replicate k Timeout) ad = Some ad'"
  shows "\<exists>n. netif_rx ad' = netif_rx ad @ concat (map (\<lambda>f. stack_packets (rxf ad f)) (take n fs)) \<and>
    rqueue (recvpriv ad') (REORDER i t) = drop n fs"
  using assms
proof (induction k arbitrary: fs ad)
  case 0
  then show ?case by (auto intro!: exI [of _ 0])
next
  case (Suc k)
  define ad1 where "ad1 = rtw_reordering_ctrl_timeout_handler i t ad"
  obtain n where n: "netif_rx ad1 = netif_rx ad @ concat (map (\<lambda>f. stack_packets (rxf ad f)) (take n fs))"
    "rqueue (recvpriv ad1) (REORDER i t) = drop n fs" "for_stack (drop n fs) ad1"
    "\<forall>f \<in> set (drop n fs). rxf ad1 f = rxf ad f"
    using timeout_netif [OF Suc.prems(1,2)] unfolding ad1_def by blast
  have "reorder_run i t (replicate k Timeout) ad1 = Some ad'" using Suc.prems(3) by (simp add: ad1_def)
  from Suc.IH [OF n(3,2) this] obtain m where m:
    "netif_rx ad' = netif_rx ad1 @ concat (map (\<lambda>f. stack_packets (rxf ad1 f)) (take m (drop n fs)))"
    "rqueue (recvpriv ad') (REORDER i t) = drop m (drop n fs)" by blast
  have "map (\<lambda>f. stack_packets (rxf ad1 f)) (take m (drop n fs)) =
      map (\<lambda>f. stack_packets (rxf ad f)) (take m (drop n fs))"
    using n(4) by (auto dest: in_set_takeD)
  then have "netif_rx ad' = netif_rx ad @ concat (map (\<lambda>f. stack_packets (rxf ad f)) (take (n + m) fs))"
    using m(1) n(1) by (simp only: take_add map_append concat_append append_assoc)
  then show ?case using m(2) by (intro exI [of _ "n + m"]) (simp add: add.commute)
qed

lemma timeouts_deliver:
  assumes rel: "reorder_rel num i t w s ad"
  defines "q \<equiv> rqueue (recvpriv ad) (REORDER i t)"
  shows "\<exists>ad' n. reorder_run i t (replicate k Timeout) ad = Some ad' \<and> min k (length q) \<le> n \<and>
    rqueue (recvpriv ad') (REORDER i t) = drop n q \<and>
    rqueue (recvpriv ad') FREE_RECV = rqueue (recvpriv ad) FREE_RECV @ take n q \<and>
    (\<not> check_fwstate ad WIFI_AP_STATE \<and> (\<forall>f \<in> set q. rf_pkt (recvpriv ad) f \<noteq> None) \<longrightarrow>
      netif_rx ad' = netif_rx ad @ concat (map (\<lambda>f. stack_packets (rxf ad f)) (take n q)))"
proof -
  obtain ad' n where n: "reorder_run i t (replicate k Timeout) ad = Some ad'" "min k (length q) \<le> n"
    "rqueue (recvpriv ad') (REORDER i t) = drop n q"
    "rqueue (recvpriv ad') FREE_RECV = rqueue (recvpriv ad) FREE_RECV @ take n q"
    using timeouts_take [OF rel, folded q_def] by blast
  have "netif_rx ad' = netif_rx ad @ concat (map (\<lambda>f. stack_packets (rxf ad f)) (take n q))"
    if "\<not> check_fwstate ad WIFI_AP_STATE" "\<forall>f \<in> set q. rf_pkt (recvpriv ad) f \<noteq> None"
  proof -
    have "for_stack q ad"
      using that rel sorted_map_distinct by (auto simp: for_stack_def reorder_rel_def Let_def framed_def q_def)
    from timeouts_netif [OF this q_def [THEN meta_eq_to_obj_eq, symmetric] n(1)] obtain m where
      m: "netif_rx ad' = netif_rx ad @ concat (map (\<lambda>f. stack_packets (rxf ad f)) (take m q))"
      "rqueue (recvpriv ad') (REORDER i t) = drop m q" by blast
    have "drop m q = drop n q" using m(2) n(3) by simp
    then have "take m q = take n q" by (metis append_take_drop_id append_same_eq)
    then show ?thesis using m(1) by simp
  qed
  then show ?thesis using n by blast
qed

section \<open>Properties\<close>

definition sample_num :: "nat \<Rightarrow> nat" where "sample_num f = f + 4090"

definition sample_reorder :: rx_adapter where
  "sample_reorder = set_ctrl 0 0 \<lparr>enable = True, indicate_seq = 0xFFFF, wend_b = 0xFFFF, wsize_b = 64,
       reorder_timer = False\<rparr>
     (sample_rx_adapter\<lparr>rxf := (\<lambda>f. (sample_rx_frame (replicate 40 0))\<lparr>rx_seq_num := sq (f + 4090)\<rparr>)\<rparr>)"

lemma sample_reorder_ok:
  "reorder_rel sample_num 0 0 64 (None, {}) sample_reorder" "arrivable sample_num 0 0 sample_reorder f"
proof -
  define ad0 where "ad0 = sample_rx_adapter\<lparr>rxf :=
    (\<lambda>f. (sample_rx_frame (replicate 40 0))\<lparr>rx_seq_num := sq (f + 4090)\<rparr>)\<rparr>"
  have c: "ctrl_ok 0 0 ad0"
    by (simp add: ctrl_ok_def ad0_def sample_rx_adapter_def sample_stations_def init_stainfo_def)
  have q: "rqueue (recvpriv ad0) q = []" "rx_running ad0" "fw_state ad0 = WIFI_STATION_STATE" for q
    by (simp_all add: ad0_def sample_rx_adapter_def rx_running_def)
  show "reorder_rel sample_num 0 0 64 (None, {}) sample_reorder"
    using c q by (simp add: reorder_rel_def sample_reorder_def flip: ad0_def)
  have fr: "rxf sample_reorder f = (sample_rx_frame (replicate 40 0))\<lparr>rx_seq_num := sq (f + 4090)\<rparr>"
    by (simp add: sample_reorder_def)
  have "\<exists>fr'. wlanhdr_to_ethhdr sample_reorder (rxf sample_reorder f) = Some (SUCCESS, fr') \<and> rx_frame_ok fr' \<and>
      frame_data fr' = eth_packet (rxf sample_reorder f) (replicate 16 0) \<and>
      rx_seq_num fr' = rx_seq_num (rxf sample_reorder f) \<and> rx_amsdu fr' = rx_amsdu (rxf sample_reorder f) \<and>
      rx_dst fr' = rx_dst (rxf sample_reorder f)"
    by (rule wlanhdr_to_ethhdr_core [of _ _ "replicate 24 0" _ "[]"])
      (simp_all add: fr sample_rx_frame_def rx_frame_ok_def frame_data_def check_fwstate_def
        sample_reorder_def sample_rx_adapter_def WIFI_MP_STATE_def WIFI_STATION_STATE_def flip: replicate_add)
  then have "wlanhdr_to_ethhdr sample_reorder (rxf sample_reorder f) \<noteq> None" by blast
  moreover have "rqueue (recvpriv sample_reorder) q = []" for q
    by (simp add: sample_reorder_def sample_rx_adapter_def)
  moreover have "framed sample_num sample_reorder f" "rx_preorder (rxf sample_reorder f) = Some (0, 0)"
    "rx_qos (rxf sample_reorder f) = 1"
    by (simp_all add: framed_def fr sample_rx_frame_def sample_num_def)
  ultimately show "arrivable sample_num 0 0 sample_reorder f" by (simp add: arrivable_def)
qed

definition sample_pending :: rx_adapter where
  "sample_pending = set_ctrl 0 0 \<lparr>enable = True, indicate_seq = sq 4090, wend_b = 0, wsize_b = 64,
       reorder_timer = True\<rparr>
     (sample_reorder\<lparr>recvpriv := (recvpriv sample_reorder)\<lparr>rqueue :=
       (\<lambda>q. if q = REORDER 0 0 then [6, 8, 9] else [])\<rparr>\<rparr>)"

lemma sample_pending_ok:
  "reorder_rel sample_num 0 0 64 (Some 4090, {4096, 4098, 4099}) sample_pending"
  "rqueue (recvpriv sample_pending) (REORDER 0 0) = [6, 8, 9]" "rqueue (recvpriv sample_pending) FREE_RECV = []"
proof -
  have ok: "ctrl_ok 0 0 sample_reorder" "rx_running sample_reorder"
    using sample_reorder_ok(1) by (simp_all add: reorder_rel_def Let_def)
  have "ctrl_ok 0 0 (sample_reorder\<lparr>recvpriv := r\<rparr>) = ctrl_ok 0 0 sample_reorder"
    "rx_running (sample_reorder\<lparr>recvpriv := r\<rparr>) = rx_running sample_reorder" for r
    by (simp_all add: ctrl_ok_def rx_running_def)
  moreover have "framed sample_num sample_pending f" for f
    using sample_reorder_ok(2) [of f] by (simp add: arrivable_def framed_def sample_pending_def)
  ultimately show "reorder_rel sample_num 0 0 64 (Some 4090, {4096, 4098, 4099}) sample_pending"
    using ok by (simp add: reorder_rel_def Let_def sample_pending_def sample_num_def)
qed (simp_all add: sample_pending_def)

text \<open>
  C1: Reordering refines an unbounded reorder buffer. While the control of an agreement represents
  the abstract buffer \<open>s\<close> and a frame arrives within half the number space of the window,
  \<^verbatim>\<open>recv_indicatepkt_reorder\<close> does what the buffer does: it fails and keeps all queues when the
  number lies before the window or is pending already, and otherwise hands on exactly the frames
  the buffer releases, in their order, and keeps the others; the 12-bit arithmetic of the window
  never shows.
\<close>

theorem recv_indicatepkt_reorder_refines:
  assumes "reorder_rel num i t w s ad" and "arrivable num i t ad f"
    and "near (num f) (rob_start s (num f))"
  shows "\<exists>st ad'. recv_indicatepkt_reorder f ad = Some (st, ad') \<and>
    (case rob_receive w (num f) s of
       None \<Rightarrow> st = FAIL \<and> reorder_rel num i t w s ad' \<and> recvpriv ad' = recvpriv ad
     | Some (out, s') \<Rightarrow> st = SUCCESS \<and> reorder_rel num i t w s' ad' \<and>
         (\<exists>ds. map num ds = out \<and>
            rqueue (recvpriv ad') FREE_RECV = rqueue (recvpriv ad) FREE_RECV @ ds \<and>
            set ds \<union> set (rqueue (recvpriv ad') (REORDER i t)) =
              insert f (set (rqueue (recvpriv ad) (REORDER i t)))))"
  by (rule recv_indicatepkt_reorder_abs [OF assms])

theorem recv_indicatepkt_reorder_refines_witness:
  "\<exists>ad' ds. recv_indicatepkt_reorder 6 sample_reorder = Some (SUCCESS, ad') \<and> map sample_num ds = [4096] \<and>
     rqueue (recvpriv ad') FREE_RECV = rqueue (recvpriv sample_reorder) FREE_RECV @ ds"
proof -
  have gap: "first_gap 4096 {4096} = 4097" by (rule first_gapI) auto
  have "{x \<in> {4096 :: nat}. x < 4097} = {4096}" by auto
  then have rcv: "rob_receive 64 (sample_num 6) (None, {}) =
      Some ([4096], (Some 4097, {x \<in> {4096 :: nat}. 4097 \<le> x}))"
    by (simp add: rob_receive_def rob_start_def rob_release_def Let_def sample_num_def gap)
  have "near (sample_num 6) (rob_start (None, {}) (sample_num 6))" by (simp add: near_def rob_start_def)
  from recv_indicatepkt_reorder_refines [OF sample_reorder_ok(1) sample_reorder_ok(2) this, unfolded rcv]
  show ?thesis by auto
qed

text \<open>
  C2: Frames are handed on in order. Whatever sequence of arrivals and timeouts meets a
  reordering control, as long as no frame is half the number space away from the window, the code
  runs through, the frames handed on have strictly increasing sequence numbers, none twice, and
  what is left pending is what the abstract buffer holds back.
\<close>

theorem reorder_in_order:
  assumes "reorder_rel num i t w s ad" and "near_run num w es s" and "distinct (arrivals es)"
    and "\<forall>f \<in> set (arrivals es). arrivable num i t ad f"
  shows "\<exists>ad' ds. reorder_run i t es ad = Some ad' \<and>
    rqueue (recvpriv ad') FREE_RECV = rqueue (recvpriv ad) FREE_RECV @ ds \<and>
    sorted_wrt (<) (map num ds) \<and> map num ds = fst (rob_run num w es s) \<and>
    num ` set (rqueue (recvpriv ad') (REORDER i t)) = snd (snd (rob_run num w es s))"
proof -
  obtain ad' ds where R: "reorder_run i t es ad = Some ad'" "map num ds = fst (rob_run num w es s)"
    "reorder_rel num i t w (snd (rob_run num w es s)) ad'"
    "rqueue (recvpriv ad') FREE_RECV = rqueue (recvpriv ad) FREE_RECV @ ds"
    using reorder_run_abs [OF assms] by blast
  moreover have "sorted_wrt (<) (map num ds)"
    using rob_run_order [OF reorder_rel_inv [OF assms(1)], of num w es] R(2) by (metis prod.collapse)
  moreover have "num ` set (rqueue (recvpriv ad') (REORDER i t)) = snd (snd (rob_run num w es s))"
    using R(3) by (simp add: reorder_rel_def Let_def)
  ultimately show ?thesis by blast
qed

theorem reorder_in_order_witness:
  "\<exists>ad' ds. reorder_run 0 0 [Arrive 6, Timeout] sample_reorder = Some ad' \<and>
     rqueue (recvpriv ad') FREE_RECV = rqueue (recvpriv sample_reorder) FREE_RECV @ ds \<and>
     sorted_wrt (<) (map sample_num ds)"
  using reorder_in_order [OF sample_reorder_ok(1), of "[Arrive 6, Timeout]"] sample_reorder_ok(2)
  by (auto simp: near_def rob_start_def)

text \<open>
  C3: No frame waits for ever. Each firing of the reordering timer hands on the first pending frame at
  least, and frames are handed on from the front of the queue and in its order: after \<open>k\<close> firings at
  least the first \<open>k\<close> of the pending frames have been handed on and given back to the pool, and those
  that have not are pending still. After as many firings as frames are pending, all have been handed
  on and the queue is empty. In a station, where every pending frame has its buffer, the network stack
  gets their packets in this order, those of an aggregate one after the other.
\<close>

theorem reorder_timeouts_drain:
  assumes "reorder_rel num i t w s ad"
  shows "\<exists>ad' n. reorder_run i t (replicate k Timeout) ad = Some ad' \<and>
    min k (length (rqueue (recvpriv ad) (REORDER i t))) \<le> n \<and>
    rqueue (recvpriv ad') (REORDER i t) = drop n (rqueue (recvpriv ad) (REORDER i t)) \<and>
    rqueue (recvpriv ad') FREE_RECV =
      rqueue (recvpriv ad) FREE_RECV @ take n (rqueue (recvpriv ad) (REORDER i t)) \<and>
    (\<not> check_fwstate ad WIFI_AP_STATE \<and>
       (\<forall>f \<in> set (rqueue (recvpriv ad) (REORDER i t)). rf_pkt (recvpriv ad) f \<noteq> None) \<longrightarrow>
      netif_rx ad' = netif_rx ad @
        concat (map (\<lambda>f. stack_packets (rxf ad f)) (take n (rqueue (recvpriv ad) (REORDER i t)))))"
  by (rule timeouts_deliver [OF assms])

theorem reorder_timeouts_drain_witness:
  "\<exists>ad'. reorder_run 0 0 (replicate 3 Timeout) sample_pending = Some ad' \<and>
     rqueue (recvpriv ad') (REORDER 0 0) = [] \<and> rqueue (recvpriv ad') FREE_RECV = [6, 8, 9] \<and>
     netif_rx ad' = replicate 3 (replicate 40 0)"
proof -
  have "netif_rx sample_pending = []" "rf_pkt (recvpriv sample_pending) f \<noteq> None"
    "rxf sample_pending f = (sample_rx_frame (replicate 40 0))\<lparr>rx_seq_num := sq (f + 4090)\<rparr>"
    "\<not> check_fwstate sample_pending WIFI_AP_STATE" for f
    by (simp_all add: sample_pending_def sample_reorder_def sample_rx_adapter_def check_fwstate_def
        WIFI_AP_STATE_def WIFI_STATION_STATE_def)
  moreover have "stack_packets ((sample_rx_frame (replicate 40 0))\<lparr>rx_seq_num := x\<rparr>) = [replicate 40 0]" for x
    by (simp add: stack_packets_def sample_rx_frame_def)
  ultimately show ?thesis
    using reorder_timeouts_drain [OF sample_pending_ok(1), of 3]
    by (auto simp: sample_pending_ok(2,3) numeral_3_eq_3)
qed

end
