(* ===== verification/Rx_Defrag.thy ===== *)
theory Rx_Defrag
  imports Rx_Reorder Wep Tkip Ccmp Michael
begin

text \<open>
  A data frame on its way from the hardware to the network stack (\<^verbatim>\<open>core/rtw_recv.c\<close>):
  \<^verbatim>\<open>decryptor\<close>, \<^verbatim>\<open>recvframe_chk_defrag\<close> with \<^verbatim>\<open>recvframe_defrag\<close> and
  \<^verbatim>\<open>recvframe_chkmic\<close>, \<^verbatim>\<open>portctrl\<close>, \<^verbatim>\<open>process_recv_indicatepkts\<close>, and their
  composition \<^verbatim>\<open>recv_func_posthandle\<close>. Here the ciphers, the Michael value, the frame pool,
  the station table and the reordering meet. A frame that is dropped must go back to the free queue
  exactly once.
\<close>

section \<open>Decryption\<close>

definition WEP_KEYS :: nat where "WEP_KEYS = 4"

definition set_key_index :: "nat \<Rightarrow> rx_frame \<Rightarrow> rx_frame" where
  "set_key_index k fr = fr\<lparr>rx_attrs := (rx_attrs fr)\<lparr>rx_key_index := k\<rparr>\<rparr>"

text \<open>The key index is two bits of the IV, so the second half never applies.\<close>

definition decryptor_key_index :: "security_priv \<Rightarrow> rx_frame \<Rightarrow> nat option" where
  "decryptor_key_index sp fr = do {
     b \<leftarrow> byte_at (rx_doff fr + rx_hdrlen (rx_attrs fr) + 3) (rx_mem fr);
     let k = unat (drop_bit 6 b AND 3);
     Some (if WEP_KEYS < k
           then if rx_encrypt (rx_attrs fr) = WEP40 \<or> rx_encrypt (rx_attrs fr) = WEP104
                then dot11PrivacyKeyIndex sp else dot118021XGrpKeyid sp
           else k)
   }"

definition set_hw_decrypted :: "bool \<Rightarrow> rx_adapter \<Rightarrow> rx_adapter" where
  "set_hw_decrypted b ad = ad\<lparr>securitypriv := (securitypriv ad)\<lparr>hw_decrypted := b\<rparr>\<rparr>"

definition sw_decipher :: "rx_adapter \<Rightarrow> rx_frame \<Rightarrow> (status \<times> rx_frame) option" where
  "sw_decipher ad fr =
     (let e = rx_encrypt (rx_attrs fr); sp = securitypriv ad; rf = cipher_view fr in
      if e = WEP40 \<or> e = WEP104
      then map_option (\<lambda>(icv_err, rf'). (SUCCESS, cipher_back rf' fr)) (rtw_wep_decrypt sp rf)
      else if e = TKIP
      then map_option (\<lambda>(st, rf'). (st, cipher_back rf' fr)) (rtw_tkip_decrypt (stapriv ad) sp rf)
      else if e = AES
      then map_option (\<lambda>(st, rf'). (st, cipher_back rf' fr)) (rtw_aes_decrypt (stapriv ad) sp rf)
      else Some (SUCCESS, fr))"

text \<open>The frame handed on, if any.\<close>

definition decryptor :: "nat \<Rightarrow> rx_adapter \<Rightarrow> (nat option \<times> rx_adapter) option" where
  "decryptor f ad = do {
     let sp = securitypriv ad;
     let e = rx_encrypt (rx_attrs (rxf ad f));
     k \<leftarrow> (if 0 < e then decryptor_key_index sp (rxf ad f) else Some (rx_key_index (rx_attrs (rxf ad f))));
     let fr = set_key_index k (rxf ad f);
     let ad1 = set_rxf f fr ad;
     (if 0 < e \<and> (rx_bdecrypted fr = 0 \<or> sw_decrypt sp)
      then do {
        let ad2 = set_hw_decrypted False ad1;
        (res, fr') \<leftarrow> sw_decipher ad2 fr;
        let ad3 = set_rxf f fr' ad2;
        Some (if res = FAIL then (None, free_frame f ad3) else (Some f, ad3)) }
      else if rx_bdecrypted fr = 1 \<and> 0 < e \<and> (busetkipkey sp \<or> e \<noteq> TKIP)
      then Some (Some f, set_hw_decrypted True ad1)
      else Some (Some f, ad1))
   }"

section \<open>The Michael value of a received frame\<close>

text \<open>
  A second error within sixty seconds starts the countermeasures. The event for user space is left
  out.
\<close>

definition rtw_handle_tkip_mic_err :: "rx_adapter \<Rightarrow> rx_adapter" where
  "rtw_handle_tkip_mic_err ad =
     (let sp = securitypriv ad; cur_time = jiffies ad in
      ad\<lparr>securitypriv :=
        (if last_mic_err_time sp = 0 then sp\<lparr>last_mic_err_time := cur_time\<rparr>
         else if cur_time - last_mic_err_time sp < 60 * kernel_HZ ad
         then sp\<lparr>btkip_countermeasure := True, last_mic_err_time := 0,
                 btkip_countermeasure_time := cur_time\<rparr>
         else sp\<lparr>last_mic_err_time := cur_time\<rparr>)\<rparr>)"

definition pull_tail_frame :: "nat \<Rightarrow> nat \<Rightarrow> rx_adapter \<Rightarrow> rx_adapter" where
  "pull_tail_frame n f ad = set_rxf f (snd (recvframe_pull_tail (int n) (rxf ad f))) ad"

text \<open>
  The length of the data is unsigned; a frame too short for its own header makes it wrap, and the
  code reads far outside the buffer. The accumulator the code does not initialise is zero here, its
  content has no influence (\<^verbatim>\<open>Michael\<close>).
\<close>

definition recvframe_chkmic :: "nat \<Rightarrow> rx_adapter \<Rightarrow> (status \<times> rx_adapter) option" where
  "recvframe_chkmic f ad =
     (let fr = rxf ad f; a = rx_attrs fr; sp = securitypriv ad; mcast = IS_MCAST (rx_ra a) in
      if rx_encrypt a = TKIP
      then (case rtw_get_stainfo (stapriv ad) (Some (rx_ta a)) of
          None \<Rightarrow> Some (SUCCESS, pull_tail_frame 8 f ad)
        | Some i \<Rightarrow>
            if mcast \<and> \<not> binstallGrpkey sp then Some (FAIL, ad)
            else do {
              mickey \<leftarrow> (if mcast then byte_at (rx_key_index a) (dot118021XGrprxmickey sp)
                         else Some (dot11tkiprxmickey (stainfo_buf (stapriv ad) ! i)));
              let datalen = int (rx_flen fr) - int (rx_hdrlen a) - int (rx_iv_len a) - int (rx_icv_len fr) - 8;
              (if datalen < 0 then None else do {
                let pframe = drop (rx_doff fr) (rx_mem fr);
                let payload = drop (rx_hdrlen a + rx_iv_len a) pframe;
                miccode \<leftarrow> rtw_seccalctkipmic
                  \<lparr>mic_K0 = 0, mic_K1 = 0, mic_L = 0, mic_R = 0, mic_M = 0, nBytesInM = 0\<rparr>
                  mickey pframe payload (nat datalen) (rx_priority fr);
                pframemic \<leftarrow> read_at (nat datalen) 8 payload;
                Some (if miccode \<noteq> pframemic
                      then (FAIL, pull_tail_frame 8 f
                        (if mcast \<and> rx_key_index a \<noteq> mlme_key_index ad then ad
                         else rtw_handle_tkip_mic_err ad))
                      else (SUCCESS, pull_tail_frame 8 f
                        (if \<not> bcheck_grpkey sp \<and> mcast
                         then ad\<lparr>securitypriv := sp\<lparr>bcheck_grpkey := True\<rparr>\<rparr> else ad)))
              }) })
      else Some (SUCCESS, ad))"

section \<open>Reassembly\<close>

text \<open>
  The first fragment \<open>f\<close> is off the queue; the payload of each further one is copied behind it.
  \<^verbatim>\<open>recvframe_put\<close> checks the end of the buffer only after the copy, which is undefined when
  it runs over. \<^verbatim>\<open>wlanhdr_offset\<close> and \<^verbatim>\<open>curfragnum\<close> are bytes.
\<close>

fun defrag_loop :: "recv_qid \<Rightarrow> nat \<Rightarrow> u8 \<Rightarrow> nat list \<Rightarrow> rx_adapter \<Rightarrow> (nat option \<times> rx_adapter) option" where
  "defrag_loop q f cur [] ad = do { ad1 \<leftarrow> free_queue q ad; Some (Some f, ad1) }"
| "defrag_loop q f cur (g # gs) ad =
     (if cur \<noteq> rx_frag_num (rxf ad g)
      then do { ad1 \<leftarrow> free_queue q (free_frame f ad); Some (None, ad1) }
      else do {
        let pn = rxf ad g;
        let off = unat (of_nat (rx_hdrlen (rx_attrs pn) + rx_iv_len (rx_attrs pn)) :: u8);
        let pn1 = snd (recvframe_pull (int off) pn);
        let fr = snd (recvframe_pull_tail (int (rx_icv_len (rxf ad f))) (rxf ad f));
        data \<leftarrow> read_at (rx_doff pn1) (rx_flen pn1) (rx_mem pn1);
        mem \<leftarrow> write_at (rx_toff fr) data (rx_mem fr);
        let fr1 = snd (recvframe_put (int (rx_flen pn1)) (fr\<lparr>rx_mem := mem\<rparr>));
        defrag_loop q f (cur + 1) gs
          (set_rxf f (fr1\<lparr>rx_icv_len := rx_icv_len pn1\<rparr>) (set_rxf g pn1 ad)) })"

definition recvframe_defrag :: "recv_qid \<Rightarrow> rx_adapter \<Rightarrow> (nat option \<times> rx_adapter) option" where
  "recvframe_defrag q ad =
     (case rqueue (recvpriv ad) q of
        [] \<Rightarrow> None
      | f # fs \<Rightarrow>
          let ad1 = ad\<lparr>recvpriv := rq_delete f (recvpriv ad)\<rparr> in
          if rx_frag_num (rxf ad1 f) \<noteq> 0
          then do { ad2 \<leftarrow> free_queue q (free_frame f ad1); Some (None, ad2) }
          else defrag_loop q f 1 fs ad1)"

text \<open>
  The queue of the fragments: that of the transmitter; of the broadcast station for a frame that is
  not data; no queue for a data frame from a stranger. With no broadcast station the code goes on
  with the address of a field of the null pointer, the \<open>Some None\<close> here.
\<close>

definition defrag_queue :: "rx_frame \<Rightarrow> rx_adapter \<Rightarrow> nat option option" where
  "defrag_queue fr ad =
     (case rtw_get_stainfo (stapriv ad) (Some (rx_ta (rx_attrs fr))) of
        Some i \<Rightarrow> Some (Some i)
      | None \<Rightarrow> if GetFrameType (drop (rx_doff fr) (rx_mem fr)) \<noteq> 0x08 then Some (bcmc_station ad) else None)"

definition chk_defrag_queue :: "nat \<Rightarrow> rx_adapter \<Rightarrow> (nat option \<times> rx_adapter) option" where
  "chk_defrag_queue f ad =
     (let fr = rxf ad f; ismfrag = rx_mfrag fr; fragnum = rx_frag_num fr in
      if ismfrag = 1
      then (case defrag_queue fr ad of
              None \<Rightarrow> Some (None, free_frame f ad)
            | Some None \<Rightarrow> None
            | Some (Some i) \<Rightarrow> do {
                ad1 \<leftarrow> (if fragnum = 0 \<and> rqueue (recvpriv ad) (DEFRAG i) \<noteq> []
                       then free_queue (DEFRAG i) ad else Some ad);
                Some (None, ad1\<lparr>recvpriv := rq_insert_tail f (DEFRAG i) (recvpriv ad1)\<rparr>) })
      else if ismfrag = 0 \<and> fragnum \<noteq> 0
      then (case defrag_queue fr ad of
              None \<Rightarrow> Some (None, free_frame f ad)
            | Some None \<Rightarrow> None
            | Some (Some i) \<Rightarrow>
                recvframe_defrag (DEFRAG i) (ad\<lparr>recvpriv := rq_insert_tail f (DEFRAG i) (recvpriv ad)\<rparr>))
      else if ismfrag = 0 then Some (Some f, ad)
      else Some (None, ad))"

definition recvframe_chk_defrag :: "nat \<Rightarrow> rx_adapter \<Rightarrow> (nat option \<times> rx_adapter) option" where
  "recvframe_chk_defrag f ad = do {
     (r, ad1) \<leftarrow> chk_defrag_queue f ad;
     (case r of
        None \<Rightarrow> Some (None, ad1)
      | Some g \<Rightarrow>
          if rx_privacy (rxf ad1 g) \<noteq> 0
          then do {
            (st, ad2) \<leftarrow> recvframe_chkmic g ad1;
            Some (if st = FAIL then (None, free_frame g ad2) else (Some g, ad2)) }
          else Some (Some g, ad1))
   }"

section \<open>The controlled port\<close>

definition LLC_HEADER_SIZE :: nat where "LLC_HEADER_SIZE = 6"

definition portctrl :: "nat \<Rightarrow> rx_adapter \<Rightarrow> (nat option \<times> rx_adapter) option" where
  "portctrl f ad =
     (let fr = rxf ad f; a = rx_attrs fr in
      if dot11AuthAlgrthm (securitypriv ad) = 2
      then (case rtw_get_stainfo (stapriv ad) (Some (rx_ta a)) of
              None \<Rightarrow> Some (Some f, ad)
            | Some i \<Rightarrow>
                if ieee8021x_blocked (stainfo_buf (stapriv ad) ! i)
                then do {
                  et \<leftarrow> read_at (rx_doff fr + rx_hdrlen a + rx_iv_len a + LLC_HEADER_SIZE) 2 (rx_mem fr);
                  Some (if be16_of (et ! 0) (et ! 1) = 0x888e then (Some f, ad) else (None, free_frame f ad)) }
                else Some (Some f, ad))
      else Some (Some f, ad))"

section \<open>The path of a data frame\<close>

text \<open>Traffic statistics and the led are left out.\<close>

definition process_recv_indicatepkts :: "nat \<Rightarrow> rx_adapter \<Rightarrow> (status \<times> rx_adapter) option" where
  "process_recv_indicatepkts f ad =
     (if ht_option ad
      then do {
        (st, ad1) \<leftarrow> recv_indicatepkt_reorder f ad;
        Some (if st \<noteq> SUCCESS \<and> rx_running ad1 then FAIL else SUCCESS, ad1) }
      else do {
        (st, fr) \<leftarrow> wlanhdr_to_ethhdr ad (rxf ad f);
        let ad1 = set_rxf f fr ad;
        Some (if st \<noteq> SUCCESS then (st, ad1)
              else if rx_running ad1 then (SUCCESS, snd (rtw_recv_indicatepkt f ad1))
              else (FAIL, ad1)) })"

definition drop_count :: "rx_adapter \<Rightarrow> rx_adapter" where
  "drop_count ad = ad\<lparr>rx_drop := rx_drop ad + 1\<rparr>"

text \<open>On a failure at the end the frame that came in is freed, not the one that was reassembled.\<close>

definition recv_func_posthandle :: "nat \<Rightarrow> rx_adapter \<Rightarrow> (status \<times> rx_adapter) option" where
  "recv_func_posthandle f ad = do {
     (r1, ad1) \<leftarrow> decryptor f ad;
     (case r1 of
        None \<Rightarrow> Some (FAIL, drop_count ad1)
      | Some f1 \<Rightarrow> do {
          (r2, ad2) \<leftarrow> recvframe_chk_defrag f1 ad1;
          (case r2 of
             None \<Rightarrow> Some (SUCCESS, drop_count ad2)
           | Some f2 \<Rightarrow> do {
               (r3, ad3) \<leftarrow> portctrl f2 ad2;
               (case r3 of
                  None \<Rightarrow> Some (FAIL, drop_count ad3)
                | Some f3 \<Rightarrow> do {
                    (st, ad4) \<leftarrow> process_recv_indicatepkts f3 ad3;
                    Some (if st \<noteq> SUCCESS then (st, drop_count (free_frame f ad4)) else (st, ad4)) }) }) })
   }"

text \<open>
  \<^verbatim>\<open>recv_func\<close>, after \<^verbatim>\<open>recv_func_prehandle\<close> accepted the frame: first the frames that
  wait for a key, then this one.
\<close>

function recv_uc_swdec :: "rx_adapter \<Rightarrow> nat \<Rightarrow> rx_adapter option" where
  "recv_uc_swdec ad 0 = Some ad"
| "recv_uc_swdec ad (Suc n) =
     (case rtw_alloc_recvframe UC_SWDEC_PENDING (recvpriv ad) of
        (None, rp) \<Rightarrow> Some (ad\<lparr>recvpriv := rp\<rparr>)
      | (Some g, rp) \<Rightarrow>
          (case recv_func_posthandle g (ad\<lparr>recvpriv := rp\<rparr>) of
             None \<Rightarrow> None | Some (st, ad1) \<Rightarrow> recv_uc_swdec ad1 n))"
  by pat_completeness auto
termination by (relation "measure snd") auto

section \<open>Fragments\<close>

text \<open>A fragment is its header and IV, a part of the body, and its integrity value.\<close>

definition frag_hdrlen :: "rx_frame \<Rightarrow> nat" where
  "frag_hdrlen fr = rx_hdrlen (rx_attrs fr) + rx_iv_len (rx_attrs fr)"

definition frag_ok :: "rx_frame \<Rightarrow> bool" where
  "frag_ok fr \<longleftrightarrow> rx_frame_ok fr \<and> frag_hdrlen fr < 256 \<and> frag_hdrlen fr + rx_icv_len fr \<le> rx_flen fr"

definition frag_head :: "rx_frame \<Rightarrow> u8 list" where
  "frag_head fr = take (frag_hdrlen fr) (frame_data fr)"

definition frag_body :: "rx_frame \<Rightarrow> u8 list" where
  "frag_body fr = take (rx_flen fr - frag_hdrlen fr - rx_icv_len fr) (drop (frag_hdrlen fr) (frame_data fr))"

definition frag_icv :: "rx_frame \<Rightarrow> u8 list" where
  "frag_icv fr = drop (rx_flen fr - rx_icv_len fr) (frame_data fr)"

lemma frag_split:
  assumes "frag_ok fr"
  shows "frame_data fr = frag_head fr @ frag_body fr @ frag_icv fr"
    and "length (frag_head fr) = frag_hdrlen fr" and "length (frag_icv fr) = rx_icv_len fr"
    and "drop (frag_hdrlen fr) (frame_data fr) = frag_body fr @ frag_icv fr"
proof -
  have len: "length (frame_data fr) = rx_flen fr" using assms by (simp add: frag_ok_def)
  have "rx_flen fr - rx_icv_len fr = (rx_flen fr - frag_hdrlen fr - rx_icv_len fr) + frag_hdrlen fr"
    using assms by (simp add: frag_ok_def)
  then show d: "drop (frag_hdrlen fr) (frame_data fr) = frag_body fr @ frag_icv fr"
    unfolding frag_body_def frag_icv_def
    by (metis append_take_drop_id drop_drop add.commute)
  then show "frame_data fr = frag_head fr @ frag_body fr @ frag_icv fr"
    unfolding frag_head_def by (metis append_take_drop_id)
  show "length (frag_head fr) = frag_hdrlen fr" "length (frag_icv fr) = rx_icv_len fr"
    using assms len by (simp_all add: frag_head_def frag_icv_def frag_ok_def)
qed

text \<open>One turn of the loop: the data of \<open>fr\<close> lose their integrity value and gain body and integrity value of \<open>pn\<close>.\<close>

definition join_frag :: "rx_frame \<Rightarrow> rx_frame \<Rightarrow> rx_frame option" where
  "join_frag pn fr = do {
     let fr0 = snd (recvframe_pull_tail (int (rx_icv_len fr)) fr);
     let pn1 = snd (recvframe_pull (int (frag_hdrlen pn)) pn);
     data \<leftarrow> read_at (rx_doff pn1) (rx_flen pn1) (rx_mem pn1);
     mem \<leftarrow> write_at (rx_toff fr0) data (rx_mem fr0);
     Some ((snd (recvframe_put (int (rx_flen pn1)) (fr0\<lparr>rx_mem := mem\<rparr>)))\<lparr>rx_icv_len := rx_icv_len pn1\<rparr>) }"

lemma frame_data_put:
  assumes "rx_frame_ok fr" and "rx_toff fr + length ys \<le> length (rx_mem fr)"
    and "write_at (rx_toff fr) ys (rx_mem fr) = Some mem"
  shows "let fr' = snd (recvframe_put (int (length ys)) (fr\<lparr>rx_mem := mem\<rparr>)) in
    rx_frame_ok fr' \<and> frame_data fr' = frame_data fr @ ys \<and> rx_toff fr' = rx_toff fr + length ys \<and>
    length (rx_mem fr') = length (rx_mem fr)"
proof -
  have len: "length mem = length (rx_mem fr)" using assms(3) by (rule write_at_Some_length)
  have mem: "mem = take (rx_toff fr) (rx_mem fr) @ ys @ drop (rx_toff fr + length ys) (rx_mem fr)"
    using assms by simp
  have "frame_data (fr\<lparr>rx_mem := mem, rx_toff := rx_toff fr + length ys, rx_flen := x\<rparr>) = frame_data fr @ ys" for x
  proof -
    have "take (rx_toff fr + length ys) mem = take (rx_toff fr) (rx_mem fr) @ ys"
      using assms by (simp add: mem)
    then show ?thesis using assms(1)
      by (simp add: frame_data_def rx_frame_ok_def flip: drop_take)
  qed
  then show ?thesis
    using recvframe_put_ok [of "fr\<lparr>rx_mem := mem\<rparr>" "length ys"] assms len
    by (simp add: Let_def rx_frame_ok_def)
qed

lemma join_frag_ok:
  assumes "frag_ok pn" and "rx_frame_ok fr" and "frame_data fr = pre @ icv"
    and "length icv = rx_icv_len fr" and "rx_toff fr + rx_flen pn \<le> length (rx_mem fr)"
  obtains fr' where "join_frag pn fr = Some fr'" and "rx_frame_ok fr'"
    and "frame_data fr' = (pre @ frag_body pn) @ frag_icv pn" and "length (frag_icv pn) = rx_icv_len fr'"
    and "rx_toff fr' \<le> rx_toff fr + rx_flen pn" and "length (rx_mem fr') = length (rx_mem fr)"
proof -
  note sp = frag_split [OF assms(1)]
  have okn: "rx_frame_ok pn" and hl: "frag_hdrlen pn \<le> rx_flen pn" using assms(1) by (simp_all add: frag_ok_def)
  have pull: "recvframe_pull (int (frag_hdrlen pn)) pn = (Some (rx_doff pn + frag_hdrlen pn),
      pn\<lparr>rx_doff := rx_doff pn + frag_hdrlen pn, rx_flen := rx_flen pn - frag_hdrlen pn\<rparr>)"
    by (rule recvframe_pull_ok [OF okn hl])
  have il: "rx_icv_len fr \<le> rx_flen fr"
    using assms(4) length_frame_data [OF assms(2)] by (simp add: assms(3))
  note ptail = recvframe_pull_tail_ok [OF assms(2) il]
  define fr0 where "fr0 = fr\<lparr>rx_toff := rx_toff fr - rx_icv_len fr, rx_flen := rx_flen fr - rx_icv_len fr\<rparr>"
  have ok0: "rx_frame_ok fr0" using assms(2) il by (auto simp: fr0_def rx_frame_ok_def)
  have fd0: "frame_data fr0 = pre"
  proof -
    have "frame_data fr0 = take (rx_flen fr - rx_icv_len fr) (frame_data fr)"
      using assms(2) by (simp add: fr0_def frame_data_def rx_frame_ok_def min_def add.commute)
    then show ?thesis using length_frame_data [OF assms(2)] by (simp add: assms(3,4) flip: assms(4))
  qed
  define data where "data = frag_body pn @ frag_icv pn"
  have data: "read_at (rx_doff pn + frag_hdrlen pn) (rx_flen pn - frag_hdrlen pn) (rx_mem pn) = Some data"
    using okn hl unfolding data_def sp(4) [symmetric]
    by (auto simp: read_at_def frame_data_def rx_frame_ok_def drop_take add.commute)
  have ld: "length data = rx_flen pn - frag_hdrlen pn" using read_at_Some_length [OF data] .
  have room: "rx_toff fr0 + length data \<le> length (rx_mem fr0)"
    using assms(5) by (simp add: fr0_def ld)
  then obtain mem where mem: "write_at (rx_toff fr0) data (rx_mem fr0) = Some mem" by simp
  define fr1 where "fr1 = snd (recvframe_put (int (length data)) (fr0\<lparr>rx_mem := mem\<rparr>))"
  have r1: "rx_frame_ok fr1" "frame_data fr1 = pre @ data" "rx_toff fr1 = rx_toff fr0 + length data"
    "length (rx_mem fr1) = length (rx_mem fr0)"
    using frame_data_put [OF ok0 room mem] fd0 by (simp_all add: fr1_def Let_def)
  have tl: "rx_toff fr1 \<le> rx_toff fr + rx_flen pn" using r1(3) ld by (simp add: fr0_def)
  show thesis
  proof (rule that)
    show "join_frag pn fr = Some (fr1\<lparr>rx_icv_len := rx_icv_len pn\<rparr>)"
      by (simp add: join_frag_def Let_def pull ptail data [folded ld] mem fr0_def [symmetric] ld [symmetric] fr1_def)
  qed (use r1 tl sp(3) in \<open>simp_all add: data_def rx_frame_ok_def frame_data_def fr0_def\<close>)
qed

lemma upt_length_Cons: "[k..<k + length (g # gs)] = k # [Suc k..<Suc k + length gs]"
  by (subst upt_conv_Cons) auto

lemma defrag_loop_step:
  assumes "cur = rx_frag_num (rxf ad g)" and "join_frag (rxf ad g) (rxf ad f) = Some fr"
    and "frag_hdrlen (rxf ad g) < 256"
  shows "defrag_loop q f cur (g # gs) ad = defrag_loop q f (cur + 1) gs
     (set_rxf f fr (set_rxf g (snd (recvframe_pull (int (frag_hdrlen (rxf ad g))) (rxf ad g))) ad))"
proof -
  have "uint (of_nat (frag_hdrlen (rxf ad g)) :: u8) = int (frag_hdrlen (rxf ad g))"
    using assms(3) by (simp add: uint_nat unat_of_nat take_bit_nat_eq_self)
  then show ?thesis
    using assms(1,2) unfolding join_frag_def frag_hdrlen_def [symmetric] defrag_loop.simps(2)
    by (auto simp: Let_def bind_eq_Some_conv frag_hdrlen_def [symmetric] simp del: of_nat_add)
qed

text \<open>The walk over the remaining fragments, as long as their numbers count up.\<close>

lemma defrag_loop_joins:
  assumes "distinct (f # gs)" and "\<forall>g \<in> set gs. frag_ok (rxf ad g)" and "rx_frame_ok (rxf ad f)"
    and "frame_data (rxf ad f) = pre @ icv" and "length icv = rx_icv_len (rxf ad f)"
    and "rx_toff (rxf ad f) + (\<Sum>g \<leftarrow> gs. rx_flen (rxf ad g)) \<le> length (rx_mem (rxf ad f))"
    and "map (\<lambda>g. rx_frag_num (rxf ad g)) gs = map of_nat [k..<k + length gs]"
  shows "\<exists>ad'. defrag_loop q f (of_nat k) gs ad = do { ad1 \<leftarrow> free_queue q ad'; Some (Some f, ad1) } \<and>
     recvpriv ad' = recvpriv ad \<and> rx_frame_ok (rxf ad' f) \<and>
     frame_data (rxf ad' f) = pre @ concat (map (\<lambda>g. frag_body (rxf ad g)) gs) @
       (if gs = [] then icv else frag_icv (rxf ad (last gs)))"
  using assms
proof (induction gs arbitrary: ad k pre icv)
  case Nil
  then show ?case by auto
next
  case (Cons g gs)
  have g: "frag_ok (rxf ad g)" "frag_hdrlen (rxf ad g) < 256" "rx_frag_num (rxf ad g) = of_nat k"
    using Cons.prems(2) Cons.prems(7) [unfolded upt_length_Cons] by (simp_all add: frag_ok_def)
  have room: "rx_toff (rxf ad f) + rx_flen (rxf ad g) \<le> length (rx_mem (rxf ad f))"
    using Cons.prems(6) by simp
  obtain fr where fr: "join_frag (rxf ad g) (rxf ad f) = Some fr" "rx_frame_ok fr"
    "frame_data fr = (pre @ frag_body (rxf ad g)) @ frag_icv (rxf ad g)"
    "length (frag_icv (rxf ad g)) = rx_icv_len fr"
    "rx_toff fr \<le> rx_toff (rxf ad f) + rx_flen (rxf ad g)"
    "length (rx_mem fr) = length (rx_mem (rxf ad f))"
    using join_frag_ok [OF g(1) Cons.prems(3-5) room] by blast
  define ad1 where "ad1 = set_rxf f fr
    (set_rxf g (snd (recvframe_pull (int (frag_hdrlen (rxf ad g))) (rxf ad g))) ad)"
  have ff: "rxf ad1 f = fr" "recvpriv ad1 = recvpriv ad"
    by (simp_all add: ad1_def)
  have oth: "rxf ad1 h = rxf ad h" if "h \<in> set gs" for h
    using that Cons.prems(1) by (auto simp: ad1_def)
  then have sums: "(\<Sum>h \<leftarrow> gs. rx_flen (rxf ad1 h)) = (\<Sum>h \<leftarrow> gs. rx_flen (rxf ad h))"
    and nums: "map (\<lambda>h. rx_frag_num (rxf ad1 h)) gs = map (\<lambda>h. rx_frag_num (rxf ad h)) gs"
    and bodies: "map (\<lambda>h. frag_body (rxf ad1 h)) gs = map (\<lambda>h. frag_body (rxf ad h)) gs"
    by (simp_all cong: map_cong)
  have nums': "map (\<lambda>h. rx_frag_num (rxf ad1 h)) gs = map of_nat [Suc k..<Suc k + length gs]"
    using Cons.prems(7) [unfolded upt_length_Cons] unfolding nums by simp
  have "\<exists>ad'. defrag_loop q f (of_nat (Suc k)) gs ad1 = do { ad1 \<leftarrow> free_queue q ad'; Some (Some f, ad1) } \<and>
     recvpriv ad' = recvpriv ad1 \<and> rx_frame_ok (rxf ad' f) \<and>
     frame_data (rxf ad' f) = (pre @ frag_body (rxf ad g)) @ concat (map (\<lambda>g. frag_body (rxf ad1 g)) gs) @
       (if gs = [] then frag_icv (rxf ad g) else frag_icv (rxf ad1 (last gs)))"
    by (rule Cons.IH) (use Cons.prems fr oth nums' in \<open>auto simp: ff sums\<close>)
  moreover have "defrag_loop q f (of_nat k) (g # gs) ad = defrag_loop q f (of_nat (Suc k)) gs ad1"
    using defrag_loop_step [OF g(3) [symmetric] fr(1) g(2)] by (simp add: ad1_def add.commute)
  moreover have "gs \<noteq> [] \<Longrightarrow> rxf ad1 (last gs) = rxf ad (last gs)" by (simp add: oth)
  ultimately show ?case by (auto simp: ff(2) bodies)
qed

text \<open>The first number out of line ends the walk; the whole queue is freed.\<close>

lemma defrag_loop_drops:
  assumes "distinct (f # gs)" and "\<forall>g \<in> set gs. frag_ok (rxf ad g)" and "rx_frame_ok (rxf ad f)"
    and "frame_data (rxf ad f) = pre @ icv" and "length icv = rx_icv_len (rxf ad f)"
    and "rx_toff (rxf ad f) + (\<Sum>g \<leftarrow> gs. rx_flen (rxf ad g)) \<le> length (rx_mem (rxf ad f))"
    and "map (\<lambda>g. rx_frag_num (rxf ad g)) gs \<noteq> map of_nat [k..<k + length gs]"
  shows "\<exists>ad'. defrag_loop q f (of_nat k) gs ad =
       do { ad1 \<leftarrow> free_queue q (free_frame f ad'); Some (None, ad1) } \<and> recvpriv ad' = recvpriv ad"
  using assms
proof (induction gs arbitrary: ad k pre icv)
  case (Cons g gs)
  show ?case
  proof (cases "rx_frag_num (rxf ad g) = of_nat k")
    case False
    then show ?thesis by auto
  next
    case True
    have g: "frag_ok (rxf ad g)" "frag_hdrlen (rxf ad g) < 256"
      using Cons.prems by (simp_all add: frag_ok_def)
    have room: "rx_toff (rxf ad f) + rx_flen (rxf ad g) \<le> length (rx_mem (rxf ad f))"
      using Cons.prems(6) by simp
    obtain fr where fr: "join_frag (rxf ad g) (rxf ad f) = Some fr" "rx_frame_ok fr"
      "frame_data fr = (pre @ frag_body (rxf ad g)) @ frag_icv (rxf ad g)"
      "length (frag_icv (rxf ad g)) = rx_icv_len fr"
      "rx_toff fr \<le> rx_toff (rxf ad f) + rx_flen (rxf ad g)"
      "length (rx_mem fr) = length (rx_mem (rxf ad f))"
      using join_frag_ok [OF g(1) Cons.prems(3-5) room] by blast
    define ad1 where "ad1 = set_rxf f fr
      (set_rxf g (snd (recvframe_pull (int (frag_hdrlen (rxf ad g))) (rxf ad g))) ad)"
    have ff: "rxf ad1 f = fr" "recvpriv ad1 = recvpriv ad" by (simp_all add: ad1_def)
    have oth: "rxf ad1 h = rxf ad h" if "h \<in> set gs" for h
      using that Cons.prems(1) by (auto simp: ad1_def)
    then have sums: "(\<Sum>h \<leftarrow> gs. rx_flen (rxf ad1 h)) = (\<Sum>h \<leftarrow> gs. rx_flen (rxf ad h))"
      and nums: "map (\<lambda>h. rx_frag_num (rxf ad1 h)) gs = map (\<lambda>h. rx_frag_num (rxf ad h)) gs"
      by (simp_all cong: map_cong)
    have "map (\<lambda>h. rx_frag_num (rxf ad1 h)) gs \<noteq> map of_nat [Suc k..<Suc k + length gs]"
      using Cons.prems(7) [unfolded upt_length_Cons] True unfolding nums by simp
    then have "\<exists>ad'. defrag_loop q f (of_nat (Suc k)) gs ad1 =
       do { ad1 \<leftarrow> free_queue q (free_frame f ad'); Some (None, ad1) } \<and> recvpriv ad' = recvpriv ad1"
      by (intro Cons.IH [where pre = "pre @ frag_body (rxf ad g)" and icv = "frag_icv (rxf ad g)"])
        (use Cons.prems fr oth in \<open>auto simp: ff sums\<close>)
    moreover have "defrag_loop q f (of_nat k) (g # gs) ad = defrag_loop q f (of_nat (Suc k)) gs ad1"
      using defrag_loop_step [OF True [symmetric] fr(1) g(2)] by (simp add: ad1_def add.commute)
    ultimately show ?thesis by (simp add: ff(2))
  qed
qed simp


text \<open>Deleting a frame of a well-formed pool takes it off its one queue.\<close>

lemma rq_delete_head:
  assumes "recv_inv rp" and "rqueue rp q = f # fs" and "q \<noteq> FREE_RECV"
  shows "rqueue (rq_delete f rp) = (rqueue rp)(q := fs)" and "recv_inv (rq_delete f rp)"
    and "f < NR_RECVFRAME" and "f \<notin> set (rqueue rp FREE_RECV)"
proof -
  have nf: "f \<notin> set fs" using recv_invD(1) [OF assms(1), of q] by (simp add: assms(2))
  have "f \<notin> set (rqueue rp q')" if "q' \<noteq> q" for q'
    using recv_invD(3) [OF assms(1), of f q q'] that by (auto simp: assms(2))
  with nf show eq: "rqueue (rq_delete f rp) = (rqueue rp)(q := fs)"
    by (auto simp: fun_eq_iff assms(2))
  show "f < NR_RECVFRAME" using recv_invD(2) [OF assms(1), of f q] by (simp add: assms(2))
  show "f \<notin> set (rqueue rp FREE_RECV)"
    using recv_invD(3) [OF assms(1), of f q FREE_RECV] assms(2,3) by auto
  have "rtw_alloc_recvframe q rp = (Some f, rq_delete f rp)"
    using assms(2,3) by (simp add: rtw_alloc_recvframe_def Let_def)
  then show "recv_inv (rq_delete f rp)" using alloc_recvframe_inv [OF assms(1), of q] by simp
qed

text \<open>A queue of fragments that fit into the buffer of the first.\<close>

definition frag_queue :: "nat \<Rightarrow> nat \<Rightarrow> nat list \<Rightarrow> rx_adapter \<Rightarrow> bool" where
  "frag_queue i f fs ad \<longleftrightarrow> recv_inv (recvpriv ad) \<and> rqueue (recvpriv ad) (DEFRAG i) = f # fs \<and>
     (\<forall>g \<in> set (f # fs). frag_ok (rxf ad g)) \<and>
     rx_toff (rxf ad f) + (\<Sum>g \<leftarrow> fs. rx_flen (rxf ad g)) \<le> length (rx_mem (rxf ad f))"

definition frags_in_order :: "nat list \<Rightarrow> rx_adapter \<Rightarrow> bool" where
  "frags_in_order fs ad \<longleftrightarrow> map (\<lambda>g. rx_frag_num (rxf ad g)) fs = map of_nat [0..<length fs]"

lemma frag_queue_deleted:
  assumes "frag_queue i f fs ad"
  defines "ad1 \<equiv> ad\<lparr>recvpriv := rq_delete f (recvpriv ad)\<rparr>"
  shows "rqueue (recvpriv ad1) = (rqueue (recvpriv ad))(DEFRAG i := fs)" and "recv_inv (recvpriv ad1)"
    and "rxf ad1 = rxf ad" and "distinct (f # fs)" and "f < NR_RECVFRAME"
    and "f \<notin> set (rqueue (recvpriv ad1) FREE_RECV)" and "\<forall>g \<in> set fs. frag_ok (rxf ad1 g)"
    and "rx_frame_ok (rxf ad1 f)"
    and "frame_data (rxf ad1 f) = (frag_head (rxf ad f) @ frag_body (rxf ad f)) @ frag_icv (rxf ad f)"
    and "length (frag_icv (rxf ad f)) = rx_icv_len (rxf ad1 f)"
proof -
  note fq = assms(1) [unfolded frag_queue_def]
  have h: "recv_inv (recvpriv ad)" "rqueue (recvpriv ad) (DEFRAG i) = f # fs" "frag_ok (rxf ad f)"
    using fq by simp_all
  note del = rq_delete_head [OF h(1,2) recv_qid.distinct(5) [symmetric]]
  show q: "rqueue (recvpriv ad1) = (rqueue (recvpriv ad))(DEFRAG i := fs)" "recv_inv (recvpriv ad1)"
    using del by (simp_all add: ad1_def)
  show "rxf ad1 = rxf ad" "f < NR_RECVFRAME" "f \<notin> set (rqueue (recvpriv ad1) FREE_RECV)"
    using del q by (simp_all add: ad1_def)
  show "distinct (f # fs)" using recv_invD(1) [OF h(1), of "DEFRAG i"] by (simp only: h(2))
  show "\<forall>g \<in> set fs. frag_ok (rxf ad1 g)" "rx_frame_ok (rxf ad1 f)"
    using fq by (simp_all add: ad1_def frag_ok_def)
  show "frame_data (rxf ad1 f) = (frag_head (rxf ad f) @ frag_body (rxf ad f)) @ frag_icv (rxf ad f)"
    "length (frag_icv (rxf ad f)) = rx_icv_len (rxf ad1 f)"
    using frag_split [OF h(3)] by (simp_all add: ad1_def)
qed

lemma free_queue_frees:
  assumes "recv_inv (recvpriv ad)" and "q \<noteq> FREE_RECV"
  shows "\<exists>ad'. free_queue q ad = Some ad' \<and> recv_inv (recvpriv ad') \<and> rxf ad' = rxf ad \<and>
    rqueue (recvpriv ad') = (rqueue (recvpriv ad))
      (q := [], FREE_RECV := rqueue (recvpriv ad) FREE_RECV @ rqueue (recvpriv ad) q)"
  using rtw_free_recvframe_queue_frees [OF assms] by (auto simp: free_queue_def)

lemma recvframe_defrag_core:
  assumes fq: "frag_queue i f fs ad"
  shows "\<exists>r ad'. recvframe_defrag (DEFRAG i) ad = Some (r, ad') \<and> recv_inv (recvpriv ad') \<and>
    (if frags_in_order (f # fs) ad
     then r = Some f \<and> rx_frame_ok (rxf ad' f) \<and>
       frame_data (rxf ad' f) = frag_head (rxf ad f) @
         concat (map (\<lambda>g. frag_body (rxf ad g)) (f # fs)) @ frag_icv (rxf ad (last (f # fs))) \<and>
       rqueue (recvpriv ad') = (rqueue (recvpriv ad))
         (DEFRAG i := [], FREE_RECV := rqueue (recvpriv ad) FREE_RECV @ fs)
     else r = None \<and>
       rqueue (recvpriv ad') = (rqueue (recvpriv ad))
         (DEFRAG i := [], FREE_RECV := rqueue (recvpriv ad) FREE_RECV @ f # fs))"
proof -
  define ad1 where "ad1 = ad\<lparr>recvpriv := rq_delete f (recvpriv ad)\<rparr>"
  note d = frag_queue_deleted [OF fq, folded ad1_def]
  have q: "rqueue (recvpriv ad) (DEFRAG i) = f # fs" using fq by (simp add: frag_queue_def)
  have code: "recvframe_defrag (DEFRAG i) ad =
      (if rx_frag_num (rxf ad f) \<noteq> 0
       then do { ad2 \<leftarrow> free_queue (DEFRAG i) (free_frame f ad1); Some (None, ad2) }
       else defrag_loop (DEFRAG i) f (of_nat 1) fs ad1)"
    using d(3) by (simp add: recvframe_defrag_def q Let_def ad1_def)
  have room: "rx_toff (rxf ad1 f) + (\<Sum>g \<leftarrow> fs. rx_flen (rxf ad1 g)) \<le> length (rx_mem (rxf ad1 f))"
    using fq by (simp add: frag_queue_def d(3))
  have order: "frags_in_order (f # fs) ad \<longleftrightarrow> rx_frag_num (rxf ad f) = 0 \<and>
      map (\<lambda>g. rx_frag_num (rxf ad1 g)) fs = map of_nat [1..<1 + length fs]"
    unfolding frags_in_order_def d(3) using upt_length_Cons [of 0 f fs] by simp
  have drop_all: "\<exists>ad'. free_queue (DEFRAG i) (free_frame f ad2) = Some ad' \<and> recv_inv (recvpriv ad') \<and>
      rqueue (recvpriv ad') = (rqueue (recvpriv ad))
         (DEFRAG i := [], FREE_RECV := rqueue (recvpriv ad) FREE_RECV @ f # fs)"
    if "recvpriv ad2 = recvpriv ad1" for ad2
  proof -
    have "recv_inv (recvpriv (free_frame f ad2))"
      using free_recvframe_inv [OF d(2,5,6)] that by (simp add: free_frame_def)
    moreover have "f \<notin> set (rqueue (recvpriv ad1) q')" for q'
      using recv_invD(3) [of "recvpriv ad" f "DEFRAG i" q'] fq q d(4)
      by (auto simp: d(1) frag_queue_def)
    ultimately show ?thesis
      using free_queue_frees [of "free_frame f ad2" "DEFRAG i"] that
      by (auto simp: rqueue_free_frame d(1) fun_eq_iff)
  qed
  show ?thesis
  proof (cases "frags_in_order (f # fs) ad")
    case True
    then have "map (\<lambda>g. rx_frag_num (rxf ad1 g)) fs = map of_nat [1..<1 + length fs]"
      using order by blast
    from defrag_loop_joins [OF d(4,7,8,9,10) room this, of "DEFRAG i"] obtain ad2 where l:
      "defrag_loop (DEFRAG i) f (of_nat 1) fs ad1 = do { ad3 \<leftarrow> free_queue (DEFRAG i) ad2; Some (Some f, ad3) }"
      "recvpriv ad2 = recvpriv ad1" "rx_frame_ok (rxf ad2 f)"
      "frame_data (rxf ad2 f) = (frag_head (rxf ad f) @ frag_body (rxf ad f)) @
         concat (map (\<lambda>g. frag_body (rxf ad1 g)) fs) @
         (if fs = [] then frag_icv (rxf ad f) else frag_icv (rxf ad1 (last fs)))" by blast
    obtain ad3 where "free_queue (DEFRAG i) ad2 = Some ad3" "recv_inv (recvpriv ad3)" "rxf ad3 = rxf ad2"
      "rqueue (recvpriv ad3) = (rqueue (recvpriv ad))
         (DEFRAG i := [], FREE_RECV := rqueue (recvpriv ad) FREE_RECV @ fs)"
      using free_queue_frees [of ad2 "DEFRAG i"] d(2) by (auto simp: l(2) d(1))
    then show ?thesis using True order code l(1,3,4) by (simp add: d(3))
  next
    case False
    show ?thesis
    proof (cases "rx_frag_num (rxf ad f) = 0")
      case zero: True
      then have "map (\<lambda>g. rx_frag_num (rxf ad1 g)) fs \<noteq> map of_nat [1..<1 + length fs]"
        using False order by blast
      from defrag_loop_drops [OF d(4,7,8,9,10) room this, of "DEFRAG i"] obtain ad2 where
        "defrag_loop (DEFRAG i) f (of_nat 1) fs ad1 =
           do { ad3 \<leftarrow> free_queue (DEFRAG i) (free_frame f ad2); Some (None, ad3) }"
        "recvpriv ad2 = recvpriv ad1" by blast
      then show ?thesis using drop_all [of ad2] code False zero by auto
    next
      case nonzero: False
      then show ?thesis using drop_all [of ad1] code False by auto
    qed
  qed
qed

section \<open>The Michael check\<close>

text \<open>The message Michael protects, as the header of a received frame and its body say.\<close>

definition mic_message :: "rx_frame \<Rightarrow> u8 list \<Rightarrow> u8 list" where
  "mic_message fr body =
     (let h = frame_data fr; tods = h ! 1 AND 1 \<noteq> 0; fromds = h ! 1 AND 2 \<noteq> 0
      in take 6 (drop (if tods then 16 else 4) h) @
         take 6 (drop (if fromds then (if tods then 24 else 16) else 10) h) @
         [rx_priority fr, 0, 0, 0] @ body)"

text \<open>The key for the frame; \<open>None\<close> for a group frame without group keys.\<close>

definition rx_mic_key :: "rx_adapter \<Rightarrow> rx_attrib \<Rightarrow> nat \<Rightarrow> u8 list option" where
  "rx_mic_key ad a i =
     (if IS_MCAST (rx_ra a)
      then if binstallGrpkey (securitypriv ad) then byte_at (rx_key_index a) (dot118021XGrprxmickey (securitypriv ad))
           else None
      else Some (dot11tkiprxmickey (stainfo_buf (stapriv ad) ! i)))"

lemma drop_frame_prefix:
  assumes "rx_frame_ok fr" and "off + n \<le> rx_flen fr"
  shows "take n (drop off (drop (rx_doff fr) (rx_mem fr))) = take n (drop off (frame_data fr))"
  using assms by (auto simp: frame_data_def rx_frame_ok_def drop_take min_def)

lemma recvframe_chkmic_core:
  assumes ok: "rx_frame_ok (rxf ad f)" and enc: "rx_encrypt (rx_attrs (rxf ad f)) = TKIP"
    and sta: "rtw_get_stainfo (stapriv ad) (Some (rx_ta (rx_attrs (rxf ad f)))) = Some i"
    and key: "rx_mic_key ad (rx_attrs (rxf ad f)) i = Some key" "8 \<le> length key"
    and fd: "frame_data (rxf ad f) = hdr @ body @ mic @ icv" and mic: "length mic = 8"
    and hdr: "length hdr = rx_hdrlen (rx_attrs (rxf ad f)) + rx_iv_len (rx_attrs (rxf ad f))" "30 \<le> length hdr"
    and icv: "length icv = rx_icv_len (rxf ad f)"
  shows "recvframe_chkmic f ad = Some
     (if mic = michael (take 8 key) (mic_message (rxf ad f) body)
      then (SUCCESS, pull_tail_frame 8 f
        (if \<not> bcheck_grpkey (securitypriv ad) \<and> IS_MCAST (rx_ra (rx_attrs (rxf ad f)))
         then ad\<lparr>securitypriv := (securitypriv ad)\<lparr>bcheck_grpkey := True\<rparr>\<rparr> else ad))
      else (FAIL, pull_tail_frame 8 f
        (if IS_MCAST (rx_ra (rx_attrs (rxf ad f))) \<and> rx_key_index (rx_attrs (rxf ad f)) \<noteq> mlme_key_index ad
         then ad else rtw_handle_tkip_mic_err ad)))"
proof -
  define fr where "fr = rxf ad f"
  define a where "a = rx_attrs fr"
  define pframe where "pframe = drop (rx_doff fr) (rx_mem fr)"
  define payload where "payload = drop (rx_hdrlen a + rx_iv_len a) pframe"
  have okf: "rx_frame_ok fr" using ok by (simp add: fr_def)
  have len: "rx_flen fr = length hdr + (length body + (length mic + length icv))"
    using length_frame_data [OF okf] fd by (simp add: fr_def)
  have dl: "int (rx_flen fr) - int (rx_hdrlen a) - int (rx_iv_len a) - int (rx_icv_len fr) - 8 =
      int (length body)"
    using len hdr(1) icv mic by (simp add: fr_def a_def)
  have pl: "length pframe = length (rx_mem fr) - rx_doff fr" "rx_flen fr \<le> length pframe"
    using okf by (auto simp: pframe_def rx_frame_ok_def)
  have pre: "take n (drop off pframe) = take n (drop off (frame_data fr))" if "off + n \<le> rx_flen fr" for off n
    unfolding pframe_def by (rule drop_frame_prefix [OF okf that])
  have h1: "pframe ! 1 = frame_data fr ! 1"
    using pre [of 1 1] pl(2) len hdr(2) fd by (simp add: fr_def hd_drop_conv_nth take_Suc nth_append)
  have bodyp: "take (length body) payload = body"
    using pre [of "length hdr" "length body"] len fd hdr(1) by (simp add: payload_def fr_def a_def)
  have micp: "read_at (length body) 8 payload = Some mic"
  proof -
    have "take 8 (drop (length hdr + length body) pframe) = mic"
      using pre [of "length hdr + length body" 8] len fd mic by (simp add: fr_def)
    then show ?thesis
      using pl(2) len hdr(1) mic by (simp add: read_at_def payload_def a_def fr_def add.commute)
  qed
  have m: "rtw_seccalctkipmic md0 key pframe payload (length body) (rx_priority fr) =
      Some (michael (take 8 key) (mic_message fr body))" for md0
  proof -
    have "30 \<le> length pframe" "length body \<le> length payload"
      using pl(2) len hdr by (simp_all add: payload_def a_def fr_def)
    note mm = rtw_seccalctkipmic_abs [OF key(2) this, of md0 "rx_priority fr"]
    have "take 6 (drop off pframe) = take 6 (drop off (frame_data fr))" if "off \<le> 24" for off
      using pre [of off 6] that len hdr(2) by simp
    then show ?thesis
      unfolding mm h1 bodyp by (simp add: Let_def mic_message_def)
  qed
  have k: "(if IS_MCAST (rx_ra a) then byte_at (rx_key_index a) (dot118021XGrprxmickey (securitypriv ad))
      else Some (dot11tkiprxmickey (stainfo_buf (stapriv ad) ! i))) = Some key"
    "\<not> (IS_MCAST (rx_ra a) \<and> \<not> binstallGrpkey (securitypriv ad))"
    using key(1) by (auto simp: rx_mic_key_def a_def fr_def split: if_splits)
  have e: "rx_encrypt a = TKIP" "rtw_get_stainfo (stapriv ad) (Some (rx_ta a)) = Some i"
    using enc sta by (simp_all add: a_def fr_def)
  show ?thesis
    unfolding recvframe_chkmic_def Let_def fr_def [symmetric] a_def [symmetric] pframe_def [symmetric]
    unfolding e payload_def [symmetric] dl
    using k(2)
    by (simp only: if_True if_False k(1) option.case bind.bind_lunit m micp nat_int refl HOL.simp_thms)
      auto
qed

section \<open>Properties\<close>

text \<open>
  C23: Reassembly. Fragments numbered 0, 1, 2, ... that fit into the buffer of the first become one
  frame: header and IV of the first, all bodies in order, integrity value of the last; the other
  fragments go back to the pool. Any other numbering frees all of them. Only the fragment numbers
  are compared: the sequence numbers of the frames have no influence.
\<close>

theorem recvframe_defrag_reassembles:
  assumes "frag_queue i f fs ad"
  shows "\<exists>r ad'. recvframe_defrag (DEFRAG i) ad = Some (r, ad') \<and> recv_inv (recvpriv ad') \<and>
    (if frags_in_order (f # fs) ad
     then r = Some f \<and>
       frame_data (rxf ad' f) = frag_head (rxf ad f) @
         concat (map (\<lambda>g. frag_body (rxf ad g)) (f # fs)) @ frag_icv (rxf ad (last (f # fs))) \<and>
       rqueue (recvpriv ad') = (rqueue (recvpriv ad))
         (DEFRAG i := [], FREE_RECV := rqueue (recvpriv ad) FREE_RECV @ fs)
     else r = None \<and>
       rqueue (recvpriv ad') = (rqueue (recvpriv ad))
         (DEFRAG i := [], FREE_RECV := rqueue (recvpriv ad) FREE_RECV @ f # fs))"
  using recvframe_defrag_core [OF assms] by (elim exE) (auto split: if_splits)

definition sample_fragments :: rx_adapter where
  "sample_fragments = sample_rx_adapter\<lparr>
     recvpriv := \<lparr>rqueue = (\<lambda>q. if q = FREE_RECV then [6] else if q = DEFRAG 1 then [4, 5] else []),
       free_recvframe_cnt = 1, rf_pkt = (\<lambda>f. Some f), skb_freed = []\<rparr>,
     rxf := (\<lambda>k. (sample_rx_frame (replicate 80 (of_nat k)))\<lparr>rx_toff := 40, rx_flen := 40,
       rx_frag_num := of_nat k - 4\<rparr>)\<rparr>"

lemma sample_fragments_queue: "frag_queue 1 4 [5] sample_fragments"
proof -
  have "recv_inv (recvpriv sample_fragments)"
    by (rule recv_invI) (auto simp: sample_fragments_def NR_RECVFRAME_def split: if_splits)
  then show ?thesis
    by (simp add: frag_queue_def sample_fragments_def frag_ok_def rx_frame_ok_def frag_hdrlen_def
        sample_rx_frame_def)
qed

theorem recvframe_defrag_reassembles_witness:
  "\<exists>ad'. recvframe_defrag (DEFRAG 1) sample_fragments = Some (Some 4, ad') \<and>
     frame_data (rxf ad' 4) = replicate 40 4 @ replicate 16 5 \<and> rqueue (recvpriv ad') FREE_RECV = [6, 5]"
proof -
  have "frags_in_order [4, 5] sample_fragments"
    by (simp add: frags_in_order_def sample_fragments_def)
  moreover have "frag_head (rxf sample_fragments 4) @
      concat (map (\<lambda>g. frag_body (rxf sample_fragments g)) [4, 5]) @ frag_icv (rxf sample_fragments 5) =
      replicate 40 4 @ replicate 16 5"
    by (simp add: frag_head_def frag_body_def frag_icv_def frame_data_def sample_fragments_def
        frag_hdrlen_def sample_rx_frame_def min_def flip: replicate_add)
  moreover have "rqueue (recvpriv sample_fragments) FREE_RECV = [6]" by (simp add: sample_fragments_def)
  ultimately show ?thesis
    using recvframe_defrag_reassembles [OF sample_fragments_queue] by fastforce
qed

text \<open>
  C24: The Michael check. For a TKIP frame of a known station \<^verbatim>\<open>recvframe_chkmic\<close> succeeds
  exactly when the eight bytes behind the body are the Michael value of addresses, priority and
  body under the key of the station or, for a group frame, of its key index; either way it takes
  eight bytes off the end. A wrong value is an error to report unless it is of a group frame under
  another key index than the current one. A reported error within sixty seconds of the last one turns
  on the countermeasures and starts their time; any other one is only remembered with its time; an
  error that is not reported changes nothing of the security state.
\<close>

theorem recvframe_chkmic_spec:
  assumes "rx_frame_ok (rxf ad f)" and "rx_encrypt (rx_attrs (rxf ad f)) = TKIP"
    and "rtw_get_stainfo (stapriv ad) (Some (rx_ta (rx_attrs (rxf ad f)))) = Some i"
    and "rx_mic_key ad (rx_attrs (rxf ad f)) i = Some key" and "8 \<le> length key"
    and "frame_data (rxf ad f) = hdr @ body @ mic @ icv" and "length mic = 8"
    and "length hdr = rx_hdrlen (rx_attrs (rxf ad f)) + rx_iv_len (rx_attrs (rxf ad f))"
    and "30 \<le> length hdr" and "length icv = rx_icv_len (rxf ad f)"
  shows "\<exists>st ad'. recvframe_chkmic f ad = Some (st, ad') \<and>
    (st = SUCCESS \<longleftrightarrow> mic = michael (take 8 key) (mic_message (rxf ad f) body)) \<and>
    frame_data (rxf ad' f) = hdr @ take (length body + length icv) (body @ mic @ icv) \<and>
    (st = FAIL \<longrightarrow> securitypriv ad' =
      (if IS_MCAST (rx_ra (rx_attrs (rxf ad f))) \<and> rx_key_index (rx_attrs (rxf ad f)) \<noteq> mlme_key_index ad then securitypriv ad
       else if last_mic_err_time (securitypriv ad) \<noteq> 0 \<and>
         jiffies ad - last_mic_err_time (securitypriv ad) < 60 * kernel_HZ ad
       then (securitypriv ad)\<lparr>btkip_countermeasure := True, btkip_countermeasure_time := jiffies ad, last_mic_err_time := 0\<rparr>
       else (securitypriv ad)\<lparr>last_mic_err_time := jiffies ad\<rparr>))"
proof -
  have n: "8 \<le> rx_flen (rxf ad f)" using length_frame_data [OF assms(1)] assms(6,7) by simp
  have "frame_data (snd (recvframe_pull_tail 8 (rxf ad f))) = take (rx_flen (rxf ad f) - 8) (frame_data (rxf ad f))"
    using recvframe_pull_tail_ok [OF assms(1) n] assms(1)
    by (simp add: frame_data_def rx_frame_ok_def min_def add.commute)
  also have "\<dots> = hdr @ take (length body + length icv) (body @ mic @ icv)"
  proof -
    have "rx_flen (rxf ad f) = length hdr + (length body + (8 + length icv))"
      using length_frame_data [OF assms(1)] assms(6,7) by simp
    then show ?thesis by (simp add: assms(6,7))
  qed
  finally have fd: "frame_data (rxf (pull_tail_frame 8 f ad1) f) = hdr @ take (length body + length icv) (body @ mic @ icv)"
    if "rxf ad1 = rxf ad" for ad1
    using that by (simp add: pull_tail_frame_def)
  have sec: "securitypriv (pull_tail_frame 8 f ad1) = securitypriv ad1" for ad1
    by (simp add: pull_tail_frame_def)
  have err: "rxf (rtw_handle_tkip_mic_err ad) = rxf ad" by (simp add: rtw_handle_tkip_mic_err_def Let_def)
  show ?thesis
    unfolding recvframe_chkmic_core [OF assms(1-10)]
    by (auto simp: fd err sec) (simp_all add: rtw_handle_tkip_mic_err_def Let_def)
qed

theorem recvframe_chkmic_spec_witness:
  "\<exists>st ad'. recvframe_chkmic 3 (sample_rx_adapter\<lparr>rxf := (\<lambda>f. sample_rx_frame (replicate 50 0)
        \<lparr>rx_attrs := sample_rx TKIP 8, rx_icv_len := 4\<rparr>)\<rparr>) = Some (st, ad') \<and>
     frame_data (rxf ad' 3) = replicate 42 0"
proof -
  define fr where "fr = sample_rx_frame (replicate 50 0)\<lparr>rx_attrs := sample_rx TKIP 8, rx_icv_len := 4\<rparr>"
  define ad where "ad = sample_rx_adapter\<lparr>rxf := (\<lambda>f. fr)\<rparr>"
  have r: "rxf ad 3 = fr" by (simp add: ad_def)
  have ok: "rx_frame_ok fr" "frame_data fr = replicate 32 0 @ replicate 6 0 @ replicate 8 0 @ replicate 4 0"
    "rx_attrs fr = sample_rx TKIP 8" "rx_icv_len fr = 4"
    by (simp_all add: fr_def sample_rx_frame_def rx_frame_ok_def frame_data_def flip: replicate_add)
  have "rtw_get_stainfo (stapriv ad) (Some (rx_ta (sample_rx TKIP 8))) = Some 0"
    using sample_stations_lookup [of "[2, 0, 0, 0, 0, 2]"]
    by (simp add: sample_rx_def IS_MCAST_def sample_rx_adapter_def ad_def)
  moreover have "rx_mic_key ad (sample_rx TKIP 8) 0 = Some (replicate 16 0)"
    by (simp add: rx_mic_key_def sample_rx_def IS_MCAST_def ad_def sample_rx_adapter_def
        sample_stations_def init_stainfo_def)
  moreover have "rx_encrypt (sample_rx TKIP 8) = TKIP" "rx_hdrlen (sample_rx TKIP 8) = 24"
    "rx_iv_len (sample_rx TKIP 8) = 8" by (simp_all add: sample_rx_def)
  ultimately obtain st ad' where "recvframe_chkmic 3 ad = Some (st, ad')"
    "frame_data (rxf ad' 3) = replicate 32 0 @ take (6 + 4) (replicate 6 0 @ replicate 8 0 @ replicate 4 0)"
    using recvframe_chkmic_spec [of ad 3 0 "replicate 16 0" "replicate 32 0" "replicate 6 0"
        "replicate 8 0" "replicate 4 0", unfolded r ok] ok(1) by auto
  then show ?thesis by (simp add: ad_def fr_def flip: replicate_add)
qed

end
