(* ===== verification/Rx_Path.thy ===== *)
theory Rx_Path
  imports Rx_Defrag
begin

text \<open>
  What happens to the frames of the pool on the data path (\<^verbatim>\<open>recv_func_posthandle\<close>): every
  operation of \<^verbatim>\<open>Rx_Ethernet\<close>, \<^verbatim>\<open>Rx_Reorder\<close> and \<^verbatim>\<open>Rx_Defrag\<close> keeps each frame
  on one queue. \<open>rx_pool U S\<close> is the invariant the lemmas carry from one step to the next.
\<close>

section \<open>No frame is lost\<close>

text \<open>
  \<open>S\<close> are the frames on some queue, \<open>U\<close> those that wait for a key, none of
  them a fragment. The pool is well formed, the driver runs, and every frame has
  the A-MSDU and fragment flags the parser gives.
\<close>

definition rx_pool :: "nat list \<Rightarrow> nat set \<Rightarrow> rx_adapter \<Rightarrow> bool" where
  "rx_pool U S ad \<longleftrightarrow> recv_inv (recvpriv ad) \<and> (\<Union>q. set (rqueue (recvpriv ad) q)) = S \<and> rx_running ad \<and>
     rqueue (recvpriv ad) UC_SWDEC_PENDING = U \<and>
     (\<forall>g \<in> set U. rx_mfrag (rxf ad g) = 0 \<and> rx_frag_num (rxf ad g) = 0) \<and>
     (\<forall>f. (rx_amsdu (rxf ad f) = 0 \<or> rx_amsdu (rxf ad f) = 1) \<and> (rx_mfrag (rxf ad f) = 0 \<or> rx_mfrag (rxf ad f) = 1))"

definition same_flags :: "rx_adapter \<Rightarrow> rx_adapter \<Rightarrow> bool" where
  "same_flags ad ad' \<longleftrightarrow> (\<forall>g. rx_amsdu (rxf ad' g) = rx_amsdu (rxf ad g) \<and> rx_mfrag (rxf ad' g) = rx_mfrag (rxf ad g) \<and>
     rx_frag_num (rxf ad' g) = rx_frag_num (rxf ad g)) \<and> rx_running ad' = rx_running ad"

lemma rx_pool_same:
  "rx_pool U S ad \<Longrightarrow> same_flags ad ad' \<Longrightarrow> recvpriv ad' = recvpriv ad \<Longrightarrow> rx_pool U S ad'"
  by (simp add: rx_pool_def same_flags_def)

lemma recv_inv_rqueue:
  "recv_inv rp \<Longrightarrow> rqueue rp' = rqueue rp \<Longrightarrow> free_recvframe_cnt rp' = free_recvframe_cnt rp \<Longrightarrow> recv_inv rp'"
  by (simp add: recv_inv_def)

lemma rx_pool_fresh: "rx_pool U S ad \<Longrightarrow> f \<notin> S \<Longrightarrow> f \<notin> set (rqueue (recvpriv ad) q)"
  by (auto simp: rx_pool_def)

lemma rx_pool_free_frame:
  assumes "rx_pool U S ad" and "f < NR_RECVFRAME" and "f \<notin> S"
  shows "rx_pool U (insert f S) (free_frame f ad)"
  using assms free_recvframe_inv [of "recvpriv ad" f FREE_RECV] rx_pool_fresh [OF assms(1,3)]
  by (auto simp: rx_pool_def rqueue_free_frame rx_running_def) (auto simp: free_frame_def)

lemma rx_pool_delete:
  assumes "rx_pool U S ad" and "rqueue (recvpriv ad) q = f # fs" and "q \<noteq> FREE_RECV"
  shows "rx_pool (if q = UC_SWDEC_PENDING then fs else U) (S - {f}) (ad\<lparr>recvpriv := rq_delete f (recvpriv ad)\<rparr>)"
    and "f < NR_RECVFRAME" and "f \<in> S"
    and "rqueue (rq_delete f (recvpriv ad)) = (rqueue (recvpriv ad))(q := fs)"
proof -
  have inv: "recv_inv (recvpriv ad)" using assms(1) by (simp add: rx_pool_def)
  note del = rq_delete_head [OF inv assms(2,3)]
  show "f < NR_RECVFRAME" "rqueue (rq_delete f (recvpriv ad)) = (rqueue (recvpriv ad))(q := fs)"
    by (rule del)+
  show "f \<in> S" using assms(1,2) unfolding rx_pool_def by (metis UN_I UNIV_I list.set_intros(1))
  have "rqueue (rq_delete f (recvpriv ad)) UC_SWDEC_PENDING = (if q = UC_SWDEC_PENDING then fs else U)"
    using assms(1) unfolding del(1) by (simp add: rx_pool_def)
  moreover have "(\<Union>q. set (rqueue (rq_delete f (recvpriv ad)) q)) = S - {f}"
    using assms(1) by (auto simp: rx_pool_def)
  ultimately show "rx_pool (if q = UC_SWDEC_PENDING then fs else U) (S - {f}) (ad\<lparr>recvpriv := rq_delete f (recvpriv ad)\<rparr>)"
    using assms(1,2) del(2) by (auto simp: rx_pool_def rx_running_def)
qed

lemma rx_pool_insert:
  assumes "rx_pool U S ad" and "f \<notin> S" and "f < NR_RECVFRAME" and "q \<noteq> FREE_RECV" and "q \<noteq> UC_SWDEC_PENDING"
    and "mset fs = add_mset f (mset (rqueue (recvpriv ad) q))"
    and rp: "rp = rq_set q fs (recvpriv ad)"
  shows "rx_pool U (insert f S) (ad\<lparr>recvpriv := rp\<rparr>)"
proof -
  have inv: "recv_inv (recvpriv ad)" using assms(1) by (simp add: rx_pool_def)
  have st: "set fs = insert f (set (rqueue (recvpriv ad) q))" using assms(6) mset_eq_setD
    by (metis set_mset_mset set_mset_add_mset_insert)
  have ds: "distinct fs"
    using assms(6) recv_invD(1) [OF inv, of q] rx_pool_fresh [OF assms(1,2), of q]
    by (metis distinct.simps(2) mset.simps(2) mset_eq_imp_distinct_iff)
  have "recv_inv rp"
  proof (rule recv_invI)
    show "distinct (rqueue rp q')" for q' using ds recv_invD(1) [OF inv] by (simp add: rp)
    show "g < NR_RECVFRAME" if "g \<in> set (rqueue rp q')" for q' g
      using that st recv_invD(2) [OF inv] assms(3) by (auto simp: rp split: if_splits)
    show "q1 = q2" if "g \<in> set (rqueue rp q1)" "g \<in> set (rqueue rp q2)" for q1 q2 g
      using that st recv_invD(3) [OF inv] rx_pool_fresh [OF assms(1,2)] by (auto simp: rp split: if_splits)
    show "free_recvframe_cnt rp = of_nat (length (rqueue rp FREE_RECV))"
      using recv_invD(4) [OF inv] assms(4) by (simp add: rp)
  qed
  moreover have "(\<Union>q'. set (rqueue rp q')) = insert f S"
    using assms(1) st by (auto simp: rx_pool_def rp split: if_splits)
  ultimately show ?thesis using assms(1,5) by (simp add: rx_pool_def rx_running_def rp)
qed

lemma rx_pool_indicatepkt:
  assumes "rx_pool U S ad" and "f < NR_RECVFRAME" and "f \<notin> S"
  shows "rx_pool U (insert f S) (snd (rtw_recv_indicatepkt f ad))"
proof -
  have "recv_inv (recvpriv (snd (rtw_recv_indicatepkt f ad)))"
    using assms(1) free_recvframe_inv [OF _ assms(2), of "(recvpriv ad)\<lparr>rf_pkt := (rf_pkt (recvpriv ad))(f := None)\<rparr>" FREE_RECV]
      free_recvframe_inv [OF _ assms(2), of _ FREE_RECV] rx_pool_fresh [OF assms(1,3)]
    by (auto simp: rtw_recv_indicatepkt_def Let_def free_frame_def rx_pool_def recv_inv_def split: option.splits)
  then show ?thesis
    using assms by (auto simp: rx_pool_def indicatepkt_fields rx_running_def split: if_splits)
qed

lemma rx_pool_amsdu:
  assumes "rx_pool U S ad" and "f < NR_RECVFRAME" and "f \<notin> S"
  shows "rx_pool U (insert f S) (snd (amsdu_to_msdu f ad))"
proof -
  have "rx_pool U S (set_rxf f ((rxf ad f)\<lparr>rx_flen := 0\<rparr>) (ad\<lparr>netif_rx := netif_rx ad @ amsdu_packets (rxf ad f)\<rparr>))"
    by (rule rx_pool_same [OF assms(1)]) (simp_all add: same_flags_def rx_running_def)
  from rx_pool_free_frame [OF this assms(2)] show ?thesis
    using assms(3) by (simp add: amsdu_to_msdu_def Let_def)
qed

lemma rx_pool_indicate_frame:
  assumes "rx_pool U S ad" and "f < NR_RECVFRAME" and "f \<notin> S"
  shows "rx_pool U (insert f S) (indicate_frame f ad)"
proof -
  have "rx_running ad" "rx_amsdu (rxf ad f) = 0 \<or> rx_amsdu (rxf ad f) = 1"
    using assms(1) by (simp_all add: rx_pool_def)
  then show ?thesis
    using rx_pool_amsdu [OF assms] rx_pool_indicatepkt [OF assms] amsdu_to_msdu_fields(6) [of f ad]
    by (auto simp: indicate_frame_def case_prod_beta)
qed

lemma rx_pool_set_ctrl: "rx_pool U S ad \<Longrightarrow> rx_pool U S (set_ctrl i t c ad)"
  by (rule rx_pool_same) (simp_all add: same_flags_def)

lemma indicate_frame_rqueue:
  assumes "rx_pool U S ad" 
  shows "rqueue (recvpriv (indicate_frame f ad)) =
      (\<lambda>q. removeAll f (rqueue (recvpriv ad) q) @ (if q = FREE_RECV then [f] else []))"
  using assms by (intro indicate_frame_fields(1)) (simp_all add: rx_pool_def)

lemma rx_pool_indicate_loop:
  assumes "rx_pool U S ad" and "rqueue (recvpriv ad) (REORDER i t) = fs"
  shows "rx_pool U S (snd (indicate_loop i t fs ad))"
  using assms
proof (induction fs arbitrary: ad)
  case (Cons f fs)
  define ad1 where "ad1 = ad\<lparr>recvpriv := rq_delete f (recvpriv ad)\<rparr>"
  have ne: "REORDER i t \<noteq> FREE_RECV" by simp
  note del = rx_pool_delete [OF Cons.prems ne, folded ad1_def, simplified recv_qid.simps if_False]
  have q1: "rqueue (recvpriv ad1) = (rqueue (recvpriv ad))(REORDER i t := fs)" using del(4) by (simp add: ad1_def)
  have nf: "f \<notin> set (rqueue (recvpriv ad1) q)" for q using rx_pool_fresh [OF del(1), of f] by simp
  have step: "rx_pool U S (indicate_frame f ad2) \<and> rqueue (recvpriv (indicate_frame f ad2)) (REORDER i t) = fs"
    if "rx_pool U (S - {f}) ad2" "recvpriv ad2 = recvpriv ad1" for ad2
  proof -
    have "rx_pool U (insert f (S - {f})) (indicate_frame f ad2)"
      using that nf by (intro rx_pool_indicate_frame del(2)) simp_all
    moreover have "insert f (S - {f}) = S" using del(3) by blast
    ultimately show ?thesis using that nf [of "REORDER i t"] by (simp add: indicate_frame_rqueue [OF that(1)] q1)
  qed
  show ?case
    using Cons.IH step [OF del(1) refl] step [OF rx_pool_set_ctrl [OF del(1)]] Cons.prems(1)
    by (auto simp: Let_def ad1_def)
qed simp

lemma enqueue_reorder_mset: "enqueue_reorder sn f gs = Some hs \<Longrightarrow> mset hs = add_mset f (mset gs)"
  by (induction gs arbitrary: hs) (auto split: if_splits)

lemma rx_pool_reorder_steps:
  assumes "rx_pool U S ad" and "f \<notin> S" and "f < NR_RECVFRAME"
  shows "rx_pool U (if fst (reorder_steps i t f ad) = SUCCESS then insert f S else S) (snd (reorder_steps i t f ad))"
proof -
  define ad1 where "ad1 = set_ctrl i t (snd (check_indicate_seq (get_ctrl i t ad) (rx_seq_num (rxf ad f)))) ad"
  have p1: "rx_pool U S ad1" unfolding ad1_def by (rule rx_pool_set_ctrl [OF assms(1)])
  define e where "e = enqueue_reorder_recvframe i t f ad1"
  have code: "reorder_steps i t f ad =
      (if \<not> fst (check_indicate_seq (get_ctrl i t ad) (rx_seq_num (rxf ad f))) then (FAIL, ad1)
       else case e of (False, ad2) \<Rightarrow> (FAIL, ad2)
         | (True, ad2) \<Rightarrow> (case recv_indicatepkts_in_order i t False ad2 of
                (bPktInBuf, ad3) \<Rightarrow> (SUCCESS, set_reorder_timer bPktInBuf i t ad3)))"
    unfolding reorder_steps_def Let_def e_def ad1_def by (simp only: case_prod_beta)
  show ?thesis
  proof (cases "enqueue_reorder (\<lambda>g. rx_seq_num (rxf ad1 g)) f (rqueue (recvpriv ad1) (REORDER i t))")
    case None
    then have "e = (False, ad1)" by (simp add: e_def enqueue_reorder_recvframe_def)
    then show ?thesis using p1 by (simp add: code)
  next
    case (Some fs)
    have del: "rq_set (REORDER i t) fs (rq_delete f (recvpriv ad1)) = rq_set (REORDER i t) fs (recvpriv ad1)"
      using rx_pool_fresh [OF p1 assms(2)] by (simp add: rq_set_def rq_delete_def)
    define ad2 where "ad2 = ad1\<lparr>recvpriv := rq_set (REORDER i t) fs (recvpriv ad1)\<rparr>"
    have e: "e = (True, ad2)"
      using Some by (simp add: e_def enqueue_reorder_recvframe_def del ad2_def)
    have p2: "rx_pool U (insert f S) ad2"
      unfolding ad2_def
      by (rule rx_pool_insert [OF p1 assms(2,3) _ _ enqueue_reorder_mset [OF Some] refl]) simp_all
    have "rx_pool U (insert f S) (snd (recv_indicatepkts_in_order i t False ad2))"
      using rx_pool_indicate_loop [OF p2 refl] by (simp add: recv_indicatepkts_in_order_def Let_def)
    then show ?thesis using p1
      by (simp add: code e case_prod_beta set_reorder_timer_def rx_pool_set_ctrl)
  qed
qed


definition rx_flags :: "rx_frame \<Rightarrow> u8 \<times> u8 \<times> u8" where
  "rx_flags fr = (rx_amsdu fr, rx_mfrag fr, rx_frag_num fr)"

lemma recvframe_flags [simp]:
  "rx_flags (snd (recvframe_pull n fr)) = rx_flags fr"
  "rx_flags (snd (recvframe_pull_tail n fr)) = rx_flags fr"
  "rx_flags (snd (recvframe_put n fr)) = rx_flags fr"
  by (simp_all add: rx_flags_def recvframe_pull_def recvframe_pull_tail_def recvframe_put_def Let_def)

lemma rx_flags_update [simp]:
  "rx_flags (fr\<lparr>rx_mem := m\<rparr>) = rx_flags fr" "rx_flags (fr\<lparr>rx_eth_type := t\<rparr>) = rx_flags fr"
  "rx_flags (fr\<lparr>rx_icv_len := n\<rparr>) = rx_flags fr" "rx_flags (fr\<lparr>rx_attrs := a\<rparr>) = rx_flags fr"
  "rx_flags (fr\<lparr>rx_flen := n\<rparr>) = rx_flags fr" "rx_flags (cipher_back rf fr) = rx_flags fr"
  by (simp_all add: rx_flags_def cipher_back_def)

lemma recvframe_pull_flags: "recvframe_pull n fr = (r, fr') \<Longrightarrow> rx_flags fr' = rx_flags fr"
  using recvframe_flags(1) [of n fr] by simp

lemma ethhdr_place_flags:
  assumes "ethhdr_place ad b p n fr = Some (d, fr')"
  shows "rx_flags fr' = rx_flags fr"
proof (cases "check_fwstate ad WIFI_MP_STATE")
  case True
  obtain mem1 rxmem where m: "(case recvframe_pull (int n - 14 + 2 - 24) (fr\<lparr>rx_mem := mem1\<rparr>) of
           (None, fr1) \<Rightarrow> None
         | (Some d, fr1) \<Rightarrow> do {
             mem2 \<leftarrow> write_at d rxmem mem1;
             Some (d + 24, fr1\<lparr>rx_mem := mem2\<rparr>) }) = Some (d, fr')"
    using assms True unfolding ethhdr_place_def by (auto simp only: if_True bind_eq_Some_conv)
  obtain r fr1 where pr: "recvframe_pull (int n - 14 + 2 - 24) (fr\<lparr>rx_mem := mem1\<rparr>) = (r, fr1)" by fastforce
  have "\<exists>mem2. fr' = fr1\<lparr>rx_mem := mem2\<rparr>"
    using m unfolding pr by (auto simp: bind_eq_Some_conv split: option.splits)
  then show ?thesis using recvframe_pull_flags [OF pr] by auto
next
  case False
  then obtain k where "recvframe_pull k fr = (Some d, fr')"
    using assms by (auto simp: ethhdr_place_def split: prod.splits option.splits)
  then show ?thesis by (rule recvframe_pull_flags)
qed

lemma wlanhdr_to_ethhdr_flags:
  assumes "wlanhdr_to_ethhdr ad fr = Some (st, fr')"
  shows "rx_flags fr' = rx_flags fr"
proof -
  define fr1 where "fr1 = (if rx_encrypt (rx_attrs fr) \<noteq> 0 then snd (recvframe_pull_tail (int (rx_icv_len fr)) fr) else fr)"
  obtain b p n t y mem5 where "ethhdr_place ad b p n (fr1\<lparr>rx_eth_type := t\<rparr>) = Some y"
    "fr' = snd y\<lparr>rx_mem := mem5\<rparr>"
    using assms unfolding wlanhdr_to_ethhdr_def Let_def bind_eq_Some_conv fr1_def [symmetric] case_prod_beta
      option.inject prod.inject by blast
  then show ?thesis
    using ethhdr_place_flags [of ad b p n "fr1\<lparr>rx_eth_type := t\<rparr>" "fst y" "snd y"] by (simp add: fr1_def)
qed


lemma rx_pool_set_rxf:
  "rx_pool U S ad \<Longrightarrow> rx_flags fr = rx_flags (rxf ad f) \<Longrightarrow> rx_pool U S (set_rxf f fr ad)"
  by (rule rx_pool_same) (simp_all add: same_flags_def rx_running_def rx_flags_def)

lemma rx_pool_reorder:
  assumes "recv_indicatepkt_reorder f ad = Some (st, ad')"
    and "rx_pool U S ad" and "f \<notin> S" and "f < NR_RECVFRAME"
  shows "rx_pool U (if st = SUCCESS then insert f S else S) ad'"
proof (cases "rx_amsdu (rxf ad f) = 0")
  case True
  obtain r fr1 where w: "wlanhdr_to_ethhdr ad (rxf ad f) = Some (r, fr1)"
    using assms(1) True by (auto simp: recv_indicatepkt_reorder_def Let_def bind_eq_Some_conv)
  define ad1 where "ad1 = set_rxf f fr1 ad"
  have p1: "rx_pool U S ad1" unfolding ad1_def
    by (rule rx_pool_set_rxf [OF assms(2) wlanhdr_to_ethhdr_flags [OF w]])
  have run: "rx_running ad1" using p1 by (simp add: rx_pool_def)
  have ind: "rx_pool U (insert f S) (snd (rtw_recv_indicatepkt f ad2))"
    if "rx_pool U S ad2" for ad2
    by (rule rx_pool_indicatepkt [OF that assms(4) assms(3)])
  show ?thesis
  proof (cases "rx_qos (rxf ad f) = 1")
    case False
    then have "(st, ad') = (SUCCESS, snd (rtw_recv_indicatepkt f ad1))"
      using assms(1) True w run by (simp add: recv_indicatepkt_reorder_def Let_def flip: ad1_def)
    then show ?thesis using ind [OF p1] by simp
  next
    case qos: True
    then obtain i t where it: "rx_preorder (rxf ad f) = Some (i, t)"
      using assms(1) True w by (auto simp: recv_indicatepkt_reorder_def Let_def bind_eq_Some_conv)
    show ?thesis
    proof (cases "enable (get_ctrl i t ad1)")
      case False
      define c where "c = (get_ctrl i t ad1)\<lparr>indicate_seq := rx_seq_num (rxf ad f)\<rparr>"
      obtain c' where "(st, ad') = (SUCCESS, set_ctrl i t c' (snd (rtw_recv_indicatepkt f (set_ctrl i t c ad1))))"
        using assms(1) True w qos it False
        by (auto simp: recv_indicatepkt_reorder_def Let_def simp flip: ad1_def c_def)
      then show ?thesis using ind [OF rx_pool_set_ctrl [OF p1]] by (simp add: rx_pool_set_ctrl)
    next
      case en: True
      then have "(st, ad') = reorder_steps i t f ad1"
        using assms(1) True w qos it by (simp add: recv_indicatepkt_reorder_def Let_def flip: ad1_def)
      then show ?thesis using rx_pool_reorder_steps [OF p1 assms(3,4), of i t]
        by (metis fst_conv snd_conv)
    qed
  qed
next
  case False
  then obtain i t where it: "rx_preorder (rxf ad f) = Some (i, t)"
    using assms(1) by (auto simp: recv_indicatepkt_reorder_def Let_def bind_eq_Some_conv)
  show ?thesis
  proof (cases "rx_amsdu (rxf ad f) = 1 \<and> \<not> enable (get_ctrl i t ad)")
    case True
    define c where "c = (get_ctrl i t ad)\<lparr>indicate_seq := rx_seq_num (rxf ad f)\<rparr>"
    obtain c' where "(st, ad') = (SUCCESS, set_ctrl i t c' (snd (amsdu_to_msdu f (set_ctrl i t c ad))))"
      using assms(1) False it True amsdu_to_msdu_fields(6) [of f]
      by (auto simp: recv_indicatepkt_reorder_def Let_def case_prod_beta simp flip: c_def)
    moreover have "rx_pool U S (set_ctrl i t c ad)" by (rule rx_pool_set_ctrl [OF assms(2)])
    ultimately show ?thesis
      using rx_pool_amsdu [OF _ assms(4) assms(3)] by (simp add: rx_pool_set_ctrl)
  next
    case en: False
    then have "(st, ad') = reorder_steps i t f ad"
      using assms(1) False it by (auto simp: recv_indicatepkt_reorder_def Let_def split: if_splits)
    then show ?thesis using rx_pool_reorder_steps [OF assms(2,3,4), of i t]
      by (metis fst_conv snd_conv)
  qed
qed

lemma rx_pool_process:
  assumes "process_recv_indicatepkts f ad = Some (st, ad')"
    and "rx_pool U S ad" and "f \<notin> S" and "f < NR_RECVFRAME"
  shows "rx_pool U (if st = SUCCESS then insert f S else S) ad'"
proof (cases "ht_option ad")
  case True
  obtain st0 where r: "recv_indicatepkt_reorder f ad = Some (st0, ad')"
    and st: "st = (if st0 \<noteq> SUCCESS \<and> rx_running ad' then FAIL else SUCCESS)"
    using assms(1) True by (auto simp: process_recv_indicatepkts_def bind_eq_Some_conv)
  have p: "rx_pool U (if st0 = SUCCESS then insert f S else S) ad'"
    by (rule rx_pool_reorder [OF r assms(2-4)])
  then have "rx_running ad'" by (simp add: rx_pool_def)
  with st have "st = SUCCESS \<longleftrightarrow> st0 = SUCCESS" by simp
  with p show ?thesis by simp
next
  case False
  obtain st0 fr where w: "wlanhdr_to_ethhdr ad (rxf ad f) = Some (st0, fr)"
    and r: "(if st0 \<noteq> SUCCESS then (st0, set_rxf f fr ad)
       else if rx_running (set_rxf f fr ad) then (SUCCESS, snd (rtw_recv_indicatepkt f (set_rxf f fr ad)))
       else (FAIL, set_rxf f fr ad)) = (st, ad')"
    using assms(1) False by (auto simp: process_recv_indicatepkts_def bind_eq_Some_conv Let_def)
  have p: "rx_pool U S (set_rxf f fr ad)"
    by (rule rx_pool_set_rxf [OF assms(2) wlanhdr_to_ethhdr_flags [OF w]])
  then have "rx_running (set_rxf f fr ad)" by (simp add: rx_pool_def)
  then show ?thesis
    using r p rx_pool_indicatepkt [OF p assms(4) assms(3)]
    by (auto split: if_splits)
qed

lemma sw_decipher_flags: "sw_decipher ad fr = Some (st, fr') \<Longrightarrow> rx_flags fr' = rx_flags fr"
  by (auto simp: sw_decipher_def Let_def split: if_splits)

lemma set_hw_decrypted_fields [simp]:
  "recvpriv (set_hw_decrypted b ad) = recvpriv ad" "rxf (set_hw_decrypted b ad) = rxf ad"
  "rx_running (set_hw_decrypted b ad) = rx_running ad"
  by (simp_all add: set_hw_decrypted_def rx_running_def)

lemma rx_pool_hw: "rx_pool U S ad \<Longrightarrow> rx_pool U S (set_hw_decrypted b ad)"
  by (simp add: rx_pool_def)

lemma rx_pool_decryptor:
  assumes "decryptor f ad = Some (r, ad')"
    and "rx_pool U S ad" and "f \<notin> S" and "f < NR_RECVFRAME"
  shows "(r = None \<and> rx_pool U (insert f S) ad' \<or> r = Some f \<and> rx_pool U S ad') \<and>
    rx_flags (rxf ad' f) = rx_flags (rxf ad f)"
proof -
  obtain k where r: "(let fr = set_key_index k (rxf ad f); ad1 = set_rxf f fr ad; e = rx_encrypt (rx_attrs (rxf ad f));
        sp = securitypriv ad in
     (if 0 < e \<and> (rx_bdecrypted fr = 0 \<or> sw_decrypt sp)
      then do {
        let ad2 = set_hw_decrypted False ad1;
        (res, fr') \<leftarrow> sw_decipher ad2 fr;
        let ad3 = set_rxf f fr' ad2;
        Some (if res = FAIL then (None, free_frame f ad3) else (Some f, ad3)) }
      else if rx_bdecrypted fr = 1 \<and> 0 < e \<and> (busetkipkey sp \<or> e \<noteq> TKIP)
      then Some (Some f, set_hw_decrypted True ad1)
      else Some (Some f, ad1))) = Some (r, ad')"
    using assms(1) unfolding decryptor_def Let_def bind_eq_Some_conv by blast
  define fr where "fr = set_key_index k (rxf ad f)"
  have fl: "rx_flags fr = rx_flags (rxf ad f)" by (simp add: fr_def set_key_index_def)
  have p1: "rx_pool U S (set_rxf f fr ad)" by (rule rx_pool_set_rxf [OF assms(2) fl])
  show ?thesis
  proof (cases "0 < rx_encrypt (rx_attrs (rxf ad f)) \<and> (rx_bdecrypted fr = 0 \<or> sw_decrypt (securitypriv ad))")
    case True
    then obtain res fr' where d: "sw_decipher (set_hw_decrypted False (set_rxf f fr ad)) fr = Some (res, fr')"
      and r2: "(if res = FAIL then (None, free_frame f (set_rxf f fr' (set_hw_decrypted False (set_rxf f fr ad))))
        else (Some f, set_rxf f fr' (set_hw_decrypted False (set_rxf f fr ad)))) = (r, ad')"
      using r unfolding Let_def fr_def [symmetric] by (auto simp: bind_eq_Some_conv)
    have p2: "rx_pool U S (set_rxf f fr' (set_hw_decrypted False (set_rxf f fr ad)))"
      by (rule rx_pool_set_rxf [OF rx_pool_hw [OF p1]]) (simp add: sw_decipher_flags [OF d])
    show ?thesis
      using r2 p2 rx_pool_free_frame [OF p2 assms(4) assms(3)]
        sw_decipher_flags [OF d] fl by (auto split: if_splits)
  next
    case False
    then have "r = Some f \<and> (ad' = set_hw_decrypted True (set_rxf f fr ad) \<or> ad' = set_rxf f fr ad)"
      using r unfolding Let_def fr_def [symmetric] by (auto split: if_splits)
    then show ?thesis using p1 rx_pool_hw [OF p1] fl by auto
  qed
qed


lemma rx_pool_free_queue:
  assumes "rx_pool U S ad" and "free_queue q ad = Some ad'" and "q \<noteq> FREE_RECV" and "q \<noteq> UC_SWDEC_PENDING"
  shows "rx_pool U S ad'"
proof -
  obtain rp where rp: "rtw_free_recvframe_queue q FREE_RECV (recvpriv ad) = Some rp" "ad' = ad\<lparr>recvpriv := rp\<rparr>"
    using assms(2) by (auto simp: free_queue_def bind_eq_Some_conv)
  have "recv_inv (recvpriv ad)" using assms(1) by (simp add: rx_pool_def)
  from rtw_free_recvframe_queue_frees [OF this assms(3)] rp(1) have inv: "recv_inv rp"
    and q: "rqueue rp = (rqueue (recvpriv ad))(q := [], FREE_RECV := rqueue (recvpriv ad) FREE_RECV @ rqueue (recvpriv ad) q)"
    by simp_all
  have "(\<Union>q'. set (rqueue rp q')) = (\<Union>q'. set (rqueue (recvpriv ad) q'))"
  proof (intro equalityI subsetI)
    fix x assume "x \<in> (\<Union>q'. set (rqueue rp q'))"
    then show "x \<in> (\<Union>q'. set (rqueue (recvpriv ad) q'))"
      by (auto simp: q split: if_splits)
  next
    fix x assume "x \<in> (\<Union>q'. set (rqueue (recvpriv ad) q'))"
    then obtain q' where x: "x \<in> set (rqueue (recvpriv ad) q')" by blast
    have "x \<in> set (rqueue rp (if q' = q then FREE_RECV else q'))" using x assms(3) by (auto simp: q)
    then show "x \<in> (\<Union>q'. set (rqueue rp q'))" by blast
  qed
  with inv assms(1,4) show ?thesis by (simp add: rp(2) rx_pool_def rx_running_def q)
qed

lemma defrag_loop_frees:
  assumes "defrag_loop q f cur gs ad = Some (r, ad')"
  shows "\<exists>ad2. recvpriv ad2 = recvpriv ad \<and> same_flags ad ad2 \<and>
    (r = Some f \<and> free_queue q ad2 = Some ad' \<or> r = None \<and> free_queue q (free_frame f ad2) = Some ad')"
  using assms
proof (induction gs arbitrary: cur ad)
  case Nil
  then show ?case by (auto simp: bind_eq_Some_conv same_flags_def)
next
  case (Cons g gs)
  show ?case
  proof (cases "cur = rx_frag_num (rxf ad g)")
    case False
    then show ?thesis using Cons.prems by (auto simp: bind_eq_Some_conv same_flags_def)
  next
    case True
    define pn1 where "pn1 = snd (recvframe_pull (int (unat (of_nat (rx_hdrlen (rx_attrs (rxf ad g)) +
       rx_iv_len (rx_attrs (rxf ad g))) :: u8))) (rxf ad g))"
    define fr where "fr = snd (recvframe_pull_tail (int (rx_icv_len (rxf ad f))) (rxf ad f))"
    obtain data mem where dm: "read_at (rx_doff pn1) (rx_flen pn1) (rx_mem pn1) = Some data"
      "write_at (rx_toff fr) data (rx_mem fr) = Some mem"
      using True Cons.prems unfolding pn1_def fr_def by (auto simp only: defrag_loop.simps Let_def bind_eq_Some_conv split: if_splits)
    define fr1 where "fr1 = (snd (recvframe_put (int (rx_flen pn1)) (fr\<lparr>rx_mem := mem\<rparr>)))\<lparr>rx_icv_len := rx_icv_len pn1\<rparr>"
    define ad1 where "ad1 = set_rxf f fr1 (set_rxf g pn1 ad)"
    have l: "defrag_loop q f (cur + 1) gs ad1 = Some (r, ad')"
      using True Cons.prems dm
      by (simp only: defrag_loop.simps Let_def pn1_def [symmetric] fr_def [symmetric] bind.bind_lunit
          fr1_def [symmetric] ad1_def [symmetric] HOL.simp_thms if_False)
    have "rx_flags pn1 = rx_flags (rxf ad g)" "rx_flags fr1 = rx_flags (rxf ad f)"
      by (simp_all add: pn1_def fr1_def fr_def)
    then have same: "recvpriv ad1 = recvpriv ad" "same_flags ad ad1"
      by (auto simp: ad1_def same_flags_def rx_flags_def rx_running_def)
    have "\<exists>ad2. recvpriv ad2 = recvpriv ad1 \<and> same_flags ad1 ad2 \<and>
      (r = Some f \<and> free_queue q ad2 = Some ad' \<or> r = None \<and> free_queue q (free_frame f ad2) = Some ad')"
      by (rule Cons.IH [OF l])
    with same show ?thesis by (auto simp: same_flags_def)
  qed
qed

lemma rx_pool_defrag:
  assumes "recvframe_defrag (DEFRAG i) ad = Some (r, ad')" and "rx_pool U S ad"
  shows "case r of None \<Rightarrow> rx_pool U S ad' | Some g \<Rightarrow> rx_pool U (S - {g}) ad' \<and> g \<in> S \<and> g < NR_RECVFRAME"
proof -
  obtain f fs where q: "rqueue (recvpriv ad) (DEFRAG i) = f # fs"
    using assms(1) by (auto simp: recvframe_defrag_def split: list.splits)
  have ne: "DEFRAG i \<noteq> FREE_RECV" by simp
  define ad1 where "ad1 = ad\<lparr>recvpriv := rq_delete f (recvpriv ad)\<rparr>"
  note del = rx_pool_delete [OF assms(2) q ne, folded ad1_def, simplified recv_qid.simps if_False]
  have ins: "insert f (S - {f}) = S" using del(3) by blast
  then have ins': "insert f S = S" by blast
  have drop_all: "rx_pool U S ad3"
    if "rx_pool U (S - {f}) ad2" "free_queue (DEFRAG i) (free_frame f ad2) = Some ad3" for ad2 ad3
    using rx_pool_free_queue [OF rx_pool_free_frame [OF that(1) del(2)] that(2)]
    by (simp add: ins')
  show ?thesis
  proof (cases "rx_frag_num (rxf ad1 f) = 0")
    case False
    then show ?thesis
      using assms(1) drop_all [OF del(1)] by (auto simp: recvframe_defrag_def q ad1_def Let_def bind_eq_Some_conv)
  next
    case True
    then have "defrag_loop (DEFRAG i) f 1 fs ad1 = Some (r, ad')"
      using assms(1) by (simp add: recvframe_defrag_def q ad1_def Let_def)
    then obtain ad2 where ad2: "recvpriv ad2 = recvpriv ad1" "same_flags ad1 ad2"
      "r = Some f \<and> free_queue (DEFRAG i) ad2 = Some ad' \<or> r = None \<and> free_queue (DEFRAG i) (free_frame f ad2) = Some ad'"
      using defrag_loop_frees by blast
    have p2: "rx_pool U (S - {f}) ad2" by (rule rx_pool_same [OF del(1) ad2(2,1)])
    then show ?thesis using ad2(3) drop_all [OF p2] rx_pool_free_queue [OF p2 _ ne] del(2,3) by auto
  qed
qed


lemma rx_pool_enqueue:
  assumes "rx_pool U S ad" and "f \<notin> S" and "f < NR_RECVFRAME" and "q \<noteq> FREE_RECV" and "q \<noteq> UC_SWDEC_PENDING"
  shows "rx_pool U (insert f S) (ad\<lparr>recvpriv := rq_insert_tail f q (recvpriv ad)\<rparr>)"
  by (rule rx_pool_insert [OF assms, where fs = "rqueue (recvpriv ad) q @ [f]"])
    (simp_all add: rq_insert_tail_def)

lemma rx_pool_chk_defrag_queue:
  assumes "chk_defrag_queue f ad = Some (r, ad')" and "rx_pool U S ad" and "f \<notin> S" and "f < NR_RECVFRAME"
  shows "case r of None \<Rightarrow> rx_pool U (insert f S) ad'
    | Some g \<Rightarrow> rx_pool U (insert f S - {g}) ad' \<and> g \<in> insert f S \<and> g < NR_RECVFRAME \<and>
        (rx_mfrag (rxf ad f) = 0 \<and> rx_frag_num (rxf ad f) = 0 \<longrightarrow> g = f)"
proof -
  define fr where "fr = rxf ad f"
  have free: "rx_pool U (insert f S) (free_frame f ad)"
    by (rule rx_pool_free_frame [OF assms(2,4) assms(3)])
  have m: "rx_mfrag fr = 0 \<or> rx_mfrag fr = 1" using assms(2) by (simp add: rx_pool_def fr_def)
  have ins: "insert f S - {f} = S" using assms(3) by simp
  consider (more_frag) "rx_mfrag fr = 1" | (last_frag) "rx_mfrag fr = 0" "rx_frag_num fr \<noteq> 0"
    | (whole) "rx_mfrag fr = 0" "rx_frag_num fr = 0"
    using m by blast
  then show ?thesis
  proof cases
    case more_frag
    show ?thesis
    proof (cases "defrag_queue fr ad")
      case None
      then show ?thesis using assms(1) more_frag free by (auto simp: chk_defrag_queue_def Let_def fr_def)
    next
      case (Some q)
      then obtain i where q: "defrag_queue fr ad = Some (Some i)"
        using assms(1) more_frag by (cases q) (auto simp: chk_defrag_queue_def Let_def fr_def)
      define clr where "clr = (if rx_frag_num fr = 0 \<and> rqueue (recvpriv ad) (DEFRAG i) \<noteq> []
        then free_queue (DEFRAG i) ad else Some ad)"
      obtain ad1 where ad1: "clr = Some ad1"
        and r: "r = None" "ad' = ad1\<lparr>recvpriv := rq_insert_tail f (DEFRAG i) (recvpriv ad1)\<rparr>"
        using assms(1) more_frag q unfolding clr_def
        by (auto simp: chk_defrag_queue_def Let_def fr_def [symmetric] bind_eq_Some_conv)
      have "rx_pool U S ad1"
        using ad1 rx_pool_free_queue [OF assms(2)] assms(2) by (auto simp: clr_def split: if_splits)
      then show ?thesis using rx_pool_enqueue [OF _ assms(3,4)] by (simp add: r)
    qed
  next
    case last_frag
    show ?thesis
    proof (cases "defrag_queue fr ad")
      case None
      then show ?thesis using assms(1) last_frag free by (auto simp: chk_defrag_queue_def Let_def fr_def)
    next
      case (Some q)
      then obtain i where q: "defrag_queue fr ad = Some (Some i)"
        using assms(1) last_frag by (cases q) (auto simp: chk_defrag_queue_def Let_def fr_def)
      define ad1 where "ad1 = ad\<lparr>recvpriv := rq_insert_tail f (DEFRAG i) (recvpriv ad)\<rparr>"
      have p: "rx_pool U (insert f S) ad1" unfolding ad1_def
        by (rule rx_pool_enqueue [OF assms(2,3,4)]) simp_all
      have "recvframe_defrag (DEFRAG i) ad1 = Some (r, ad')"
        using assms(1) last_frag q by (simp add: chk_defrag_queue_def Let_def fr_def ad1_def)
      from rx_pool_defrag [OF this p] show ?thesis
        using last_frag(2) by (cases r) (simp_all add: fr_def)
    qed
  next
    case whole
    then have "r = Some f" "ad' = ad"
      using assms(1) by (auto simp: chk_defrag_queue_def Let_def fr_def)
    then show ?thesis using assms(2,4) by (simp add: ins)
  qed
qed

lemma pull_tail_frame_pool:
  "rx_pool U S ad \<Longrightarrow> rx_pool U S (pull_tail_frame n f ad)"
  by (simp add: pull_tail_frame_def rx_pool_set_rxf)

lemma rx_pool_securitypriv [simp]: "rx_pool U S (ad\<lparr>securitypriv := sp\<rparr>) = rx_pool U S ad"
  by (simp add: rx_pool_def rx_running_def)

lemma rx_pool_chkmic:
  assumes "recvframe_chkmic f ad = Some (st, ad')" and "rx_pool U S ad"
  shows "rx_pool U S ad'"
proof -
  have "rx_pool U S (rtw_handle_tkip_mic_err ad)"
    using assms(2) by (simp add: rtw_handle_tkip_mic_err_def Let_def)
  then show ?thesis
    using assms
    by (auto simp: recvframe_chkmic_def Let_def bind_eq_Some_conv pull_tail_frame_pool
        split: if_splits option.splits)
qed

lemma rx_pool_chk_defrag:
  assumes "recvframe_chk_defrag f ad = Some (r, ad')" and "rx_pool U S ad" and "f \<notin> S" and "f < NR_RECVFRAME"
  shows "case r of None \<Rightarrow> rx_pool U (insert f S) ad'
    | Some g \<Rightarrow> rx_pool U (insert f S - {g}) ad' \<and> g \<in> insert f S \<and> g < NR_RECVFRAME \<and>
        (rx_mfrag (rxf ad f) = 0 \<and> rx_frag_num (rxf ad f) = 0 \<longrightarrow> g = f)"
proof -
  obtain r1 ad1 where c: "chk_defrag_queue f ad = Some (r1, ad1)"
    and r: "(case r1 of None \<Rightarrow> Some (None, ad1)
      | Some g \<Rightarrow> if rx_privacy (rxf ad1 g) \<noteq> 0
          then do { (st, ad2) \<leftarrow> recvframe_chkmic g ad1;
                    Some (if st = FAIL then (None, free_frame g ad2) else (Some g, ad2)) }
          else Some (Some g, ad1)) = Some (r, ad')"
    using assms(1) by (auto simp: recvframe_chk_defrag_def bind_eq_Some_conv)
  note p = rx_pool_chk_defrag_queue [OF c assms(2-4)]
  show ?thesis
  proof (cases r1)
    case None
    then show ?thesis using p r by simp
  next
    case (Some g)
    then have pg: "rx_pool U (insert f S - {g}) ad1" "g \<in> insert f S" "g < NR_RECVFRAME"
      "rx_mfrag (rxf ad f) = 0 \<and> rx_frag_num (rxf ad f) = 0 \<longrightarrow> g = f"
      using p by simp_all
    show ?thesis
    proof (cases "rx_privacy (rxf ad1 g) = 0")
      case True
      then show ?thesis using r Some pg by auto
    next
      case False
      then obtain st ad2 where m: "recvframe_chkmic g ad1 = Some (st, ad2)"
        and r2: "(r, ad') = (if st = FAIL then (None, free_frame g ad2) else (Some g, ad2))"
        using r Some by (auto simp: bind_eq_Some_conv)
      have p2: "rx_pool U (insert f S - {g}) ad2" by (rule rx_pool_chkmic [OF m pg(1)])
      have "rx_pool U (insert g (insert f S - {g})) (free_frame g ad2)"
        by (rule rx_pool_free_frame [OF p2 pg(3)]) simp
      moreover have "insert g (insert f S - {g}) = insert f S" using pg(2) by blast
      ultimately show ?thesis using r2 pg p2 by (auto split: if_splits)
    qed
  qed
qed

lemma rx_pool_portctrl:
  assumes "portctrl f ad = Some (r, ad')" and "rx_pool U S ad" and "f \<notin> S" and "f < NR_RECVFRAME"
  shows "r = None \<and> rx_pool U (insert f S) ad' \<or> r = Some f \<and> ad' = ad"
  using assms rx_pool_free_frame [OF assms(2,4) assms(3)]
  by (auto simp: portctrl_def Let_def bind_eq_Some_conv split: if_splits option.splits)

lemma rx_pool_drop_count: "rx_pool U S ad \<Longrightarrow> rx_pool U S (drop_count ad)"
  by (simp add: drop_count_def rx_pool_def rx_running_def)

lemma recv_func_posthandle_pool:
  assumes "recv_func_posthandle f ad = Some (st, ad')"
    and "rx_pool U S ad" and "f \<notin> S" and "f < NR_RECVFRAME"
    and ok: "st = SUCCESS \<or> rx_mfrag (rxf ad f) = 0 \<and> rx_frag_num (rxf ad f) = 0"
  shows "rx_pool U (insert f S) ad'"
proof -
  note code = assms(1) [unfolded recv_func_posthandle_def]
  obtain r1 ad1 where d: "decryptor f ad = Some (r1, ad1)"
    using code by (auto simp: bind_eq_Some_conv)
  note p1 = rx_pool_decryptor [OF d assms(2-4)]
  show ?thesis
  proof (cases r1)
    case None
    then show ?thesis using code d p1 by (auto simp: rx_pool_drop_count)
  next
    case (Some f1)
    then have f1: "f1 = f" "rx_pool U S ad1" "rx_flags (rxf ad1 f) = rx_flags (rxf ad f)" using p1 by simp_all
    obtain r2 ad2 where c: "recvframe_chk_defrag f ad1 = Some (r2, ad2)"
      using code d Some f1(1) by (auto simp: bind_eq_Some_conv)
    note p2 = rx_pool_chk_defrag [OF c f1(2) assms(3,4)]
    show ?thesis
    proof (cases r2)
      case None
      then show ?thesis using code d Some f1(1) c p2 by (auto simp: rx_pool_drop_count)
    next
      case r2: (Some g)
      then have g: "rx_pool U (insert f S - {g}) ad2" "g \<in> insert f S" "g < NR_RECVFRAME"
        "rx_mfrag (rxf ad f) = 0 \<and> rx_frag_num (rxf ad f) = 0 \<longrightarrow> g = f"
        using p2 f1(3) by (simp_all add: rx_flags_def)
      have gn: "g \<notin> insert f S - {g}" by simp
      have ins: "insert g (insert f S - {g}) = insert f S" using g(2) by blast
      obtain r3 ad3 where pc: "portctrl g ad2 = Some (r3, ad3)"
        using code d Some f1(1) c r2 by (auto simp: bind_eq_Some_conv)
      note p3 = rx_pool_portctrl [OF pc g(1) gn g(3)]
      show ?thesis
      proof (cases r3)
        case None
        then show ?thesis using code d Some f1(1) c r2 pc p3 by (auto simp: rx_pool_drop_count ins [simplified])
      next
        case r3: (Some h)
        then have h: "h = g" "ad3 = ad2" using p3 by simp_all
        obtain st4 ad4 where pr: "process_recv_indicatepkts g ad2 = Some (st4, ad4)"
          and res: "(st, ad') = (if st4 \<noteq> SUCCESS then (st4, drop_count (free_frame f ad4)) else (st4, ad4))"
          using code d Some f1(1) c r2 pc r3 h by (auto simp: bind_eq_Some_conv)
        note p4 = rx_pool_process [OF pr g(1) gn g(3)]
        show ?thesis
        proof (cases "st4 = SUCCESS")
          case True
          then show ?thesis using p4 res by (simp add: ins [simplified])
        next
          case False
          then have "g = f" using ok res g(4) by (auto split: if_splits)
          then have p: "rx_pool U S ad4" using p4 False assms(3) by simp
          show ?thesis using res False
              rx_pool_drop_count [OF rx_pool_free_frame [OF p assms(4) assms(3)]] by simp
        qed
      qed
    qed
  qed
qed

end
