(* ===== verification/Xmit_Queue.thy ===== *)
theory Xmit_Queue
  imports Rx_State
begin

text \<open>
  The transmit queues of \<^verbatim>\<open>core/rtw_xmit.c\<close>: a data frame waits either in the queue of
  its station and access category, from which \<^verbatim>\<open>rtw_dequeue_xframe\<close> serves the hardware,
  or, while the station sleeps, in its \<^verbatim>\<open>sleep_q\<close>, from which a wake-up, a trigger or a
  PS-Poll takes it back. A transmit frame is named by its index; its attributes are in
  \<^verbatim>\<open>Sta_Table.xf_attr\<close>. Scheduling the transmit tasklet has no effect on this state.
\<close>

section \<open>Stations and frames of the adapter\<close>

definition WIFI_SLEEP_STATE :: u32 where "WIFI_SLEEP_STATE = 0x00000004"
definition WIFI_STA_ALIVE_CHK_STATE :: u32 where "WIFI_STA_ALIVE_CHK_STATE = 0x00000400"

definition rx_event :: "rx_event \<Rightarrow> rx_adapter \<Rightarrow> rx_adapter" where
  "rx_event e ad = ad\<lparr>rx_events := rx_events ad @ [e]\<rparr>"

definition set_sta :: "nat \<Rightarrow> sta_info \<Rightarrow> rx_adapter \<Rightarrow> rx_adapter" where
  "set_sta i p ad = ad\<lparr>stapriv := (stapriv ad)\<lparr>stainfo_buf := (stainfo_buf (stapriv ad))[i := p]\<rparr>\<rparr>"

definition get_sta :: "nat \<Rightarrow> rx_adapter \<Rightarrow> sta_info" where
  "get_sta i ad = stainfo_buf (stapriv ad) ! i"

definition set_xmit :: "(xmit_priv \<Rightarrow> xmit_priv) \<Rightarrow> rx_adapter \<Rightarrow> rx_adapter" where
  "set_xmit g ad = ad\<lparr>xmitpriv := g (xmitpriv ad)\<rparr>"

definition xattr :: "rx_adapter \<Rightarrow> nat \<Rightarrow> tx_attrib" where
  "xattr ad f = xf_attr (xmitpriv ad) f"

definition set_xattr :: "nat \<Rightarrow> tx_attrib \<Rightarrow> rx_adapter \<Rightarrow> rx_adapter" where
  "set_xattr f a = set_xmit (\<lambda>xp. xp\<lparr>xf_attr := (xf_attr xp)(f := a)\<rparr>)"

text \<open>
  The bits of an association id. \<^verbatim>\<open>BIT\<close> shifts an \<^verbatim>\<open>int\<close> and the maps have 16
  bits, so that ids above 15 have no bit in them.
\<close>

definition aid_bit :: "nat \<Rightarrow> u16 \<Rightarrow> bool" where
  "aid_bit a m \<longleftrightarrow> m AND ucast (push_bit a 1 :: u32) \<noteq> 0"

definition set_aid_bit :: "nat \<Rightarrow> u16 \<Rightarrow> u16" where
  "set_aid_bit a m = m OR ucast (push_bit a 1 :: u32)"

definition set_tim :: "(u16 \<Rightarrow> u16) \<Rightarrow> rx_adapter \<Rightarrow> rx_adapter" where
  "set_tim g ad = ad\<lparr>stapriv := (stapriv ad)\<lparr>tim_bitmap := g (tim_bitmap (stapriv ad))\<rparr>\<rparr>"

definition set_dz :: "(u16 \<Rightarrow> u16) \<Rightarrow> rx_adapter \<Rightarrow> rx_adapter" where
  "set_dz g ad = ad\<lparr>stapriv := (stapriv ad)\<lparr>sta_dz_bitmap := g (sta_dz_bitmap (stapriv ad))\<rparr>\<rparr>"

section \<open>Access categories\<close>

text \<open>
  The index into \<^verbatim>\<open>hwxmits\<close> of a priority: voice 0, video 1, best effort 2, background 3. The
  four \<^verbatim>\<open>tx_servq\<close>s of a station are addressed by it.
\<close>

definition rtw_get_sta_pending :: "u8 \<Rightarrow> nat" where
  "rtw_get_sta_pending up =
     (if up = 1 \<or> up = 2 then 3 else if up = 4 \<or> up = 5 then 1 else if up = 6 \<or> up = 7 then 0 else 2)"

definition servq :: "nat \<Rightarrow> sta_info \<Rightarrow> tx_servq" where
  "servq ac p = (if ac = 0 then vo_q p else if ac = 1 then vi_q p else if ac = 2 then be_q p else bk_q p)"

definition set_servq :: "nat \<Rightarrow> tx_servq \<Rightarrow> sta_info \<Rightarrow> sta_info" where
  "set_servq ac q p =
     (if ac = 0 then p\<lparr>vo_q := q\<rparr> else if ac = 1 then p\<lparr>vi_q := q\<rparr>
      else if ac = 2 then p\<lparr>be_q := q\<rparr> else p\<lparr>bk_q := q\<rparr>)"

text \<open>The U-APSD setting of the access category of a priority; bit 0 is delivery, bit 1 trigger.\<close>

definition wmmps_ac :: "u8 \<Rightarrow> sta_info \<Rightarrow> u8" where
  "wmmps_ac pri p =
     (if pri = 1 \<or> pri = 2 then uapsd_bk p
      else if pri = 4 \<or> pri = 5 then uapsd_vi p
      else if pri = 6 \<or> pri = 7 then uapsd_vo p
      else uapsd_be p)"

definition hw_count :: "nat \<Rightarrow> int \<Rightarrow> xmit_priv \<Rightarrow> xmit_priv" where
  "hw_count ac d xp = xp\<lparr>hw_accnt := (hw_accnt xp)[ac := hw_accnt xp ! ac + d]\<rparr>"

definition hw_stations :: "nat \<Rightarrow> (nat list \<Rightarrow> nat list) \<Rightarrow> xmit_priv \<Rightarrow> xmit_priv" where
  "hw_stations ac g xp = xp\<lparr>hw_sta_queue := (hw_sta_queue xp)[ac := g (hw_sta_queue xp ! ac)]\<rparr>"

section \<open>Enqueueing\<close>

definition tx_station :: "nat \<Rightarrow> rx_adapter \<Rightarrow> nat option" where
  "tx_station f ad =
     (case tx_psta (xattr ad f) of
        Some i \<Rightarrow> Some i
      | None \<Rightarrow> rtw_get_stainfo (stapriv ad) (Some (tx_ra (xattr ad f))))"

definition rtw_xmit_classifier :: "nat \<Rightarrow> rx_adapter \<Rightarrow> status \<times> rx_adapter" where
  "rtw_xmit_classifier f ad =
     (case tx_station f ad of
        None \<Rightarrow> (FAIL, ad)
      | Some i \<Rightarrow>
          let p = get_sta i ad in
          if sta_state p AND FW_LINKED = 0 then (FAIL, ad)
          else
            let ac = rtw_get_sta_pending (tx_priority (xattr ad f)); q = servq ac p;
                ad1 = set_xmit (hw_stations ac (\<lambda>is. if i \<in> set is then is else is @ [i])) ad;
                ad2 = set_sta i (set_servq ac (q\<lparr>sta_pending := sta_pending q @ [f], qcnt := qcnt q + 1\<rparr>) p) ad1
            in (SUCCESS, set_xmit (hw_count ac 1) ad2))"

definition rtw_xmitframe_enqueue :: "nat \<Rightarrow> rx_adapter \<Rightarrow> status \<times> rx_adapter" where
  "rtw_xmitframe_enqueue f ad = rtw_xmit_classifier f ad"

definition rtw_hal_xmitframe_enqueue :: "nat \<Rightarrow> rx_adapter \<Rightarrow> rx_adapter" where
  "rtw_hal_xmitframe_enqueue f ad =
     (case rtw_xmitframe_enqueue f ad of
        (SUCCESS, ad1) \<Rightarrow> ad1
      | (FAIL, ad1) \<Rightarrow>
          set_xmit (\<lambda>xp. (rtw_free_xmitframe f xp)\<lparr>tx_pkts := tx_pkts xp - 1, tx_drop := tx_drop xp + 1\<rparr>) ad1)"

section \<open>Dequeueing\<close>

text \<open>
  \<^verbatim>\<open>dequeue_one_xmitframe\<close> and the bookkeeping behind it: the first frame of the first station
  on the list of the access category that has one.
\<close>

fun dequeue_stations :: "nat \<Rightarrow> nat list \<Rightarrow> rx_adapter \<Rightarrow> nat option \<times> rx_adapter" where
  "dequeue_stations ac [] ad = (None, ad)"
| "dequeue_stations ac (i # is) ad =
     (let q = servq ac (get_sta i ad) in
      case sta_pending q of
        [] \<Rightarrow> dequeue_stations ac is ad
      | f # fs \<Rightarrow>
          let ad1 = set_sta i (set_servq ac (q\<lparr>sta_pending := fs, qcnt := qcnt q - 1\<rparr>) (get_sta i ad)) ad;
              ad2 = set_xmit (hw_count ac (- 1)) ad1
          in (Some f, if fs = [] then set_xmit (hw_stations ac (removeAll i)) ad2 else ad2))"

text \<open>
  The order of the access categories: by falling priority, or under \<^verbatim>\<open>wifi_spec\<close> sorted by
  the numbers of transfers in flight, which the USB layer counts.
\<close>

definition inx_swap :: "nat \<times> nat \<Rightarrow> int list \<times> nat list \<Rightarrow> int list \<times> nat list" where
  "inx_swap ij ci =
     (case ij of (i, j) \<Rightarrow> case ci of (cnt, inx) \<Rightarrow>
        if cnt ! j < cnt ! i
        then (cnt[i := cnt ! j, j := cnt ! i], inx[i := inx ! j, j := inx ! i])
        else (cnt, inx))"

definition inx_order :: "bool \<Rightarrow> int list \<Rightarrow> nat list" where
  "inx_order wifi_spec acirp_cnt =
     (if wifi_spec
      then snd (fold inx_swap [(0, 1), (0, 2), (0, 3), (1, 2), (1, 3), (2, 3)] (acirp_cnt, [0, 1, 2, 3]))
      else [0, 1, 2, 3])"

fun dequeue_categories :: "nat list \<Rightarrow> rx_adapter \<Rightarrow> nat option \<times> rx_adapter" where
  "dequeue_categories [] ad = (None, ad)"
| "dequeue_categories (ac # acs) ad =
     (case dequeue_stations ac (hw_sta_queue (xmitpriv ad) ! ac) ad of
        (Some f, ad1) \<Rightarrow> (Some f, ad1)
      | (None, ad1) \<Rightarrow> dequeue_categories acs ad1)"

definition rtw_dequeue_xframe :: "bool \<Rightarrow> int list \<Rightarrow> rx_adapter \<Rightarrow> nat option \<times> rx_adapter" where
  "rtw_dequeue_xframe wifi_spec acirp_cnt ad = dequeue_categories (inx_order wifi_spec acirp_cnt) ad"

section \<open>Stations that sleep\<close>

text \<open>\<^verbatim>\<open>rtw_list_delete\<close> of a frame: it leaves whatever queue it is on.\<close>

definition tx_unlink :: "nat \<Rightarrow> sta_info \<Rightarrow> sta_info" where
  "tx_unlink f p = p\<lparr>sleep_q := removeAll f (sleep_q p),
     vo_q := (vo_q p)\<lparr>sta_pending := removeAll f (sta_pending (vo_q p))\<rparr>,
     vi_q := (vi_q p)\<lparr>sta_pending := removeAll f (sta_pending (vi_q p))\<rparr>,
     be_q := (be_q p)\<lparr>sta_pending := removeAll f (sta_pending (be_q p))\<rparr>,
     bk_q := (bk_q p)\<lparr>sta_pending := removeAll f (sta_pending (bk_q p))\<rparr>\<rparr>"

definition list_delete :: "nat \<Rightarrow> rx_adapter \<Rightarrow> rx_adapter" where
  "list_delete f ad = ad\<lparr>stapriv := (stapriv ad)\<lparr>stainfo_buf := map (tx_unlink f) (stainfo_buf (stapriv ad))\<rparr>\<rparr>"

definition to_sleep_q :: "nat \<Rightarrow> nat \<Rightarrow> rx_adapter \<Rightarrow> rx_adapter" where
  "to_sleep_q i f ad =
     (let ad1 = list_delete f ad; p = get_sta i ad1 in
      set_sta i (p\<lparr>sleep_q := sleep_q p @ [f], sleepq_len := (sleepq_len p + 1) mod 2 ^ 32\<rparr>) ad1)"

definition xmitframe_enqueue_for_sleeping_sta :: "nat \<Rightarrow> rx_adapter \<Rightarrow> bool \<times> rx_adapter" where
  "xmitframe_enqueue_for_sleeping_sta f ad =
     (let a = xattr ad f; bmcst = IS_MCAST (tx_ra a) in
      if \<not> check_fwstate ad WIFI_AP_STATE then (False, ad)
      else case tx_station f ad of
        None \<Rightarrow> (False, ad)
      | Some i \<Rightarrow>
          let p = get_sta i ad in
          if sta_state p AND FW_LINKED = 0 then (False, ad)
          else if tx_triggered a
          then (False, if bmcst then set_xattr f (a\<lparr>tx_qsel := 0x11\<rparr>) ad else ad)
          else if bmcst
          then (if sta_dz_bitmap (stapriv ad) \<noteq> 0
                then (True, rx_event Update_beacon_tim
                       (set_dz (set_aid_bit 0) (set_tim (set_aid_bit 0) (to_sleep_q i f ad))))
                else (False, ad))
          else if sta_state p AND WIFI_SLEEP_STATE \<noteq> 0 \<and> aid_bit (aid p) (sta_dz_bitmap (stapriv ad))
          then
            let ad1 = to_sleep_q i f ad; p1 = get_sta i ad1;
                delivery = bit (wmmps_ac (tx_priority a) p1) 0;
                ad2 = (if delivery then set_sta i (p1\<lparr>sleepq_ac_len := (sleepq_ac_len p1 + 1) mod 2 ^ 32\<rparr>) ad1
                       else ad1)
            in (True,
                if has_legacy_ac p1 \<noteq> delivery
                then (let ad3 = set_tim (set_aid_bit (aid p1)) ad2 in
                      if sleepq_len p1 = 1 then rx_event Update_beacon_tim ad3 else ad3)
                else ad2)
          else (False, ad))"

text \<open>
  The frames of one of its queues follow a station that falls asleep. The code remembers the next
  frame before it moves one, so that it visits the frames that were there at the start.
\<close>

definition dequeue_one_to_sleep :: "nat \<Rightarrow> nat \<Rightarrow> rx_adapter \<Rightarrow> rx_adapter" where
  "dequeue_one_to_sleep i f ad =
     (case xmitframe_enqueue_for_sleeping_sta f ad of
        (False, ad1) \<Rightarrow> ad1
      | (True, ad1) \<Rightarrow>
          let ac = rtw_get_sta_pending (tx_priority (xattr ad1 f)); p = get_sta i ad1; q = servq ac p
          in set_xmit (hw_count ac (- 1)) (set_sta i (set_servq ac (q\<lparr>qcnt := qcnt q - 1\<rparr>) p) ad1))"

definition dequeue_xmitframes_to_sleeping_queue :: "nat \<Rightarrow> nat list \<Rightarrow> rx_adapter \<Rightarrow> rx_adapter" where
  "dequeue_xmitframes_to_sleeping_queue i fs ad = fold (dequeue_one_to_sleep i) fs ad"

definition stop_category :: "nat \<Rightarrow> nat \<Rightarrow> rx_adapter \<Rightarrow> rx_adapter" where
  "stop_category i ac ad =
     set_xmit (hw_stations ac (removeAll i))
       (dequeue_xmitframes_to_sleeping_queue i (sta_pending (servq ac (get_sta i ad))) ad)"

text \<open>The queue of the broadcast station is taken through a pointer that may be null.\<close>

definition stop_sta_xmit :: "nat \<Rightarrow> rx_adapter \<Rightarrow> rx_adapter option" where
  "stop_sta_xmit i ad =
     (let psta_bmc = bcmc_station ad; p = get_sta i ad;
          ad1 = set_dz (set_aid_bit (aid p)) (set_sta i (p\<lparr>sta_state := sta_state p OR WIFI_SLEEP_STATE\<rparr>) ad);
          ad2 = fold (stop_category i) [0, 1, 2, 3] ad1
      in case psta_bmc of
        None \<Rightarrow> None
      | Some b \<Rightarrow> Some (stop_category b 2 ad2))"

section \<open>Stations that wake up\<close>

text \<open>One frame of a sleeping queue goes back to the hardware queues.\<close>

definition dec32 :: "nat \<Rightarrow> nat" where "dec32 n = (n + 2 ^ 32 - 1) mod 2 ^ 32"

definition wake_frame :: "nat \<Rightarrow> nat \<Rightarrow> rx_adapter \<Rightarrow> rx_adapter" where
  "wake_frame i f ad =
     (let ad1 = list_delete f ad; a = xattr ad1 f; p = get_sta i ad1;
          p1 = p\<lparr>sleepq_len := dec32 (sleepq_len p)\<rparr>;
          a1 = a\<lparr>tx_mdata := 0 < sleepq_len p1\<rparr>;
          delivery = bit (wmmps_ac (tx_priority a) p) 1;
          p2 = (if delivery then p1\<lparr>sleepq_ac_len := dec32 (sleepq_ac_len p1)\<rparr> else p1);
          a2 = (if delivery then a1\<lparr>tx_mdata := 0 < sleepq_ac_len p2, tx_eosp := \<not> 0 < sleepq_ac_len p2\<rparr> else a1)
      in rtw_hal_xmitframe_enqueue f (set_xattr f (a2\<lparr>tx_triggered := True\<rparr>) (set_sta i p2 ad1)))"

definition release_frame :: "nat \<Rightarrow> nat \<Rightarrow> rx_adapter \<Rightarrow> rx_adapter" where
  "release_frame b f ad =
     (let ad1 = list_delete f ad; a = xattr ad1 f; p = get_sta b ad1;
          p1 = p\<lparr>sleepq_len := dec32 (sleepq_len p)\<rparr>
      in rtw_hal_xmitframe_enqueue f
           (set_xattr f (a\<lparr>tx_mdata := 0 < sleepq_len p1, tx_triggered := True\<rparr>) (set_sta b p1 ad1)))"

definition sta_awake :: "nat \<Rightarrow> rx_adapter \<Rightarrow> rx_adapter" where
  "sta_awake i ad =
     (let p = get_sta i ad;
          p1 = (if sta_state p AND WIFI_SLEEP_STATE \<noteq> 0 then p\<lparr>sta_state := sta_state p XOR WIFI_SLEEP_STATE\<rparr> else p);
          p2 = (if sta_state p1 AND WIFI_STA_ALIVE_CHK_STATE \<noteq> 0
                then p1\<lparr>expire_to := sta_expire_to (stapriv ad), sta_state := sta_state p1 XOR WIFI_STA_ALIVE_CHK_STATE\<rparr>
                else p1)
      in set_dz (clear_aid_bit (aid p)) (set_sta i p2 (set_tim (clear_aid_bit (aid p)) ad)))"

definition wakeup_sta_to_xmit :: "nat \<Rightarrow> rx_adapter \<Rightarrow> rx_adapter" where
  "wakeup_sta_to_xmit i ad =
     (let psta_bmc = bcmc_station ad;
          ad1 = fold (wake_frame i) (sleep_q (get_sta i ad)) ad
      in case psta_bmc of
        None \<Rightarrow> ad1
      | Some b \<Rightarrow>
          let nobody = (sta_dz_bitmap (stapriv ad1) AND 0xfffe = 0);
              ad2 = (if nobody then fold (release_frame b) (sleep_q (get_sta b ad1)) ad1 else ad1);
              flushed = (nobody \<and> sleepq_len (get_sta b ad2) = 0);
              ad3 = (if flushed then set_dz (clear_aid_bit 0) (set_tim (clear_aid_bit 0) ad2) else ad2);
              empty = (sleepq_len (get_sta i ad3) = 0);
              ad4 = (if empty then sta_awake i ad3 else ad3)
          in if flushed \<or> empty then rx_event Update_beacon_tim ad4 else ad4)"

section \<open>Triggers and polls\<close>

definition deliver_frame :: "nat \<Rightarrow> nat \<Rightarrow> rx_adapter \<Rightarrow> rx_adapter" where
  "deliver_frame i f ad =
     (let a = xattr ad f in
      if \<not> bit (wmmps_ac (tx_priority a) (get_sta i ad)) 1 then ad
      else
        let ad1 = list_delete f ad; p = get_sta i ad1;
            p1 = p\<lparr>sleepq_len := dec32 (sleepq_len p), sleepq_ac_len := dec32 (sleepq_ac_len p)\<rparr>;
            a1 = a\<lparr>tx_mdata := 0 < sleepq_ac_len p1, tx_eosp := \<not> 0 < sleepq_ac_len p1, tx_triggered := True\<rparr>;
            ad2 = rtw_hal_xmitframe_enqueue f (set_xattr f a1 (set_sta i p1 ad1));
            p2 = get_sta i ad2
        in if sleepq_ac_len p2 = 0 \<and> \<not> has_legacy_ac p2
           then rx_event Update_beacon_tim (set_tim (clear_aid_bit (aid p2)) ad2)
           else ad2)"

definition xmit_delivery_enabled_frames :: "nat \<Rightarrow> rx_adapter \<Rightarrow> rx_adapter" where
  "xmit_delivery_enabled_frames i ad = fold (deliver_frame i) (sleep_q (get_sta i ad)) ad"

text \<open>
  A PS-Poll of station \<open>i\<close> (\<^verbatim>\<open>validate_recv_ctrl_frame\<close> in \<^verbatim>\<open>core/rtw_recv.c\<close>):
  one buffered frame is sent, or the map is corrected.
\<close>

definition serve_pspoll :: "nat \<Rightarrow> rx_adapter \<Rightarrow> rx_adapter" where
  "serve_pspoll i ad =
     (let p = get_sta i ad;
          clear = (\<lambda>ad. rx_event Update_beacon_tim (set_tim (clear_aid_bit (aid p)) ad))
      in case sleep_q p of
        f # fs \<Rightarrow>
          let ad1 = release_frame i f ad in
          if sleepq_len (get_sta i ad1) = 0 then clear ad1 else ad1
      | [] \<Rightarrow>
          if aid_bit (aid p) (tim_bitmap (stapriv ad))
          then clear (if sleepq_len p = 0 then rx_event (Issue_nulldata (hwaddr p)) ad
                      else set_sta i (p\<lparr>sleepq_len := 0\<rparr>) ad)
          else ad)"

section \<open>The queues as a whole\<close>

text \<open>The largest number of frames of the pool (\<^verbatim>\<open>include/xmit_osdep.h\<close>).\<close>

definition NR_XMITFRAME :: nat where "NR_XMITFRAME = 256"

text \<open>Where a frame can be, the free queue of its kind or one of a station, and what is there.\<close>

datatype tx_loc = Free bool | Sleeping nat | Pending nat nat

definition nsta :: "rx_adapter \<Rightarrow> nat" where
  "nsta ad = length (stainfo_buf (stapriv ad))"

fun txq :: "rx_adapter \<Rightarrow> tx_loc \<Rightarrow> nat list" where
  "txq ad (Free ext) = (if ext then free_xframe_ext_queue (xmitpriv ad) else free_xmit_queue (xmitpriv ad))"
| "txq ad (Sleeping i) = (if i < nsta ad then sleep_q (get_sta i ad) else [])"
| "txq ad (Pending i ac) = (if i < nsta ad \<and> ac < 4 then sta_pending (servq ac (get_sta i ad)) else [])"

text \<open>The attributes of a frame agree with the queue of a station it is on.\<close>

fun loc_fits :: "tx_loc \<Rightarrow> rx_adapter \<Rightarrow> nat \<Rightarrow> bool" where
  "loc_fits (Free ext) ad f \<longleftrightarrow> xf_ext (xmitpriv ad) f = ext"
| "loc_fits (Sleeping i) ad f \<longleftrightarrow> tx_psta (xattr ad f) = Some i"
| "loc_fits (Pending i ac) ad f \<longleftrightarrow>
     tx_psta (xattr ad f) = Some i \<and> rtw_get_sta_pending (tx_priority (xattr ad f)) = ac"

text \<open>The counters of the stations and of the access categories.\<close>

definition tx_counted :: "rx_adapter \<Rightarrow> bool" where
  "tx_counted ad \<longleftrightarrow>
     (\<forall>i < nsta ad. sleepq_len (get_sta i ad) = length (txq ad (Sleeping i)) \<and>
        (\<forall>ac < 4. qcnt (servq ac (get_sta i ad)) = int (length (txq ad (Pending i ac))))) \<and>
     (\<forall>ac < 4. hw_accnt (xmitpriv ad) ! ac = (\<Sum>i < nsta ad. int (length (txq ad (Pending i ac))))) \<and>
     free_xmitframe_cnt (xmitpriv ad) = of_nat (length (txq ad (Free False))) \<and>
     free_xframe_ext_cnt (xmitpriv ad) = of_nat (length (txq ad (Free True)))"

definition tx_inv :: "rx_adapter \<Rightarrow> bool" where
  "tx_inv ad \<longleftrightarrow>
     (\<forall>l. distinct (txq ad l)) \<and>
     (\<forall>l f. f \<in> set (txq ad l) \<longrightarrow> f < NR_XMITFRAME \<and> \<not> xf_alloced (xmitpriv ad) f \<and> loc_fits l ad f) \<and>
     (\<forall>l l' f. f \<in> set (txq ad l) \<longrightarrow> f \<in> set (txq ad l') \<longrightarrow> l = l') \<and>
     tx_counted ad \<and>
     length (hw_accnt (xmitpriv ad)) = 4 \<and> length (hw_sta_queue (xmitpriv ad)) = 4 \<and>
     (\<forall>ac < 4. distinct (hw_sta_queue (xmitpriv ad) ! ac) \<and> set (hw_sta_queue (xmitpriv ad) ! ac) \<subseteq> {..<nsta ad})"

text \<open>A queue is served when its station is on the list of the access category.\<close>

definition tx_served :: "nat \<Rightarrow> nat \<Rightarrow> rx_adapter \<Rightarrow> bool" where
  "tx_served i ac ad \<longleftrightarrow> txq ad (Pending i ac) = [] \<or> i \<in> set (hw_sta_queue (xmitpriv ad) ! ac)"

definition tx_listed :: "rx_adapter \<Rightarrow> bool" where
  "tx_listed ad \<longleftrightarrow> (\<forall>i ac. tx_served i ac ad)"

section \<open>The parts of the state\<close>

lemma get_sta_set_sta: "i < nsta ad \<Longrightarrow> get_sta j (set_sta i p ad) = (if j = i then p else get_sta j ad)"
  by (simp add: get_sta_def set_sta_def nsta_def)

lemma get_sta_simps [simp]:
  "get_sta i (set_xmit g ad) = get_sta i ad" "get_sta i (set_xattr f a ad) = get_sta i ad"
  "get_sta i (set_tim h ad) = get_sta i ad" "get_sta i (set_dz h ad) = get_sta i ad"
  "get_sta i (rx_event e ad) = get_sta i ad"
  by (simp_all add: get_sta_def set_xmit_def set_xattr_def set_tim_def set_dz_def rx_event_def)

lemma nsta_simps [simp]:
  "nsta (set_xmit g ad) = nsta ad" "nsta (set_xattr f a ad) = nsta ad" "nsta (set_tim h ad) = nsta ad"
  "nsta (set_dz h ad) = nsta ad" "nsta (rx_event e ad) = nsta ad" "nsta (set_sta i p ad) = nsta ad"
  "nsta (list_delete f ad) = nsta ad"
  by (simp_all add: nsta_def set_xmit_def set_xattr_def set_tim_def set_dz_def rx_event_def set_sta_def list_delete_def)

lemma xmitpriv_simps [simp]:
  "xmitpriv (set_xmit g ad) = g (xmitpriv ad)" "xmitpriv (set_tim h ad) = xmitpriv ad"
  "xmitpriv (set_dz h ad) = xmitpriv ad" "xmitpriv (rx_event e ad) = xmitpriv ad"
  "xmitpriv (set_sta i p ad) = xmitpriv ad" "xmitpriv (list_delete f ad) = xmitpriv ad"
  by (simp_all add: set_xmit_def set_tim_def set_dz_def rx_event_def set_sta_def list_delete_def)

text \<open>What the free queues hold and the kind of a frame.\<close>

definition tx_pool :: "xmit_priv \<Rightarrow> nat list \<times> u32 \<times> nat list \<times> u32 \<times> (nat \<Rightarrow> bool) \<times> (nat \<Rightarrow> bool)" where
  "tx_pool xp = (free_xmit_queue xp, free_xmitframe_cnt xp, free_xframe_ext_queue xp, free_xframe_ext_cnt xp,
     xf_ext xp, xf_alloced xp)"

lemma tx_pool_simps [simp]:
  "tx_pool (hw_stations ac g xp) = tx_pool xp" "tx_pool (hw_count ac d xp) = tx_pool xp"
  "tx_pool (xmitpriv (set_xattr f a ad)) = tx_pool (xmitpriv ad)"
  by (simp_all add: tx_pool_def hw_stations_def hw_count_def set_xattr_def)

lemma hw_simps [simp]:
  "hw_accnt (hw_stations ac g xp) = hw_accnt xp" "hw_sta_queue (hw_count ac d xp) = hw_sta_queue xp"
  "xf_attr (hw_stations ac g xp) = xf_attr xp" "xf_attr (hw_count ac d xp) = xf_attr xp"
  "hw_accnt (hw_count ac d xp) = (hw_accnt xp)[ac := hw_accnt xp ! ac + d]"
  "hw_sta_queue (hw_stations ac g xp) = (hw_sta_queue xp)[ac := g (hw_sta_queue xp ! ac)]"
  "hw_accnt (xmitpriv (set_xattr f a ad)) = hw_accnt (xmitpriv ad)"
  "hw_sta_queue (xmitpriv (set_xattr f a ad)) = hw_sta_queue (xmitpriv ad)"
  by (simp_all add: hw_stations_def hw_count_def set_xattr_def)

lemma xattr_simps [simp]:
  "xattr (set_xattr f a ad) g = (if g = f then a else xattr ad g)" "xattr (set_tim h ad) g = xattr ad g"
  "xattr (set_dz h ad) g = xattr ad g" "xattr (rx_event e ad) g = xattr ad g"
  "xattr (set_sta i p ad) g = xattr ad g" "xattr (list_delete f ad) g = xattr ad g"
  "xattr (set_xmit (hw_count ac d) ad) g = xattr ad g"
  "xattr (set_xmit (hw_stations ac l) ad) g = xattr ad g"
  by (simp_all add: xattr_def set_xattr_def)

lemma servq_set_servq [simp]: "ac < 4 \<Longrightarrow> ac' < 4 \<Longrightarrow> servq ac (set_servq ac' q p) = (if ac = ac' then q else servq ac p)"
  by (auto simp: servq_def set_servq_def)

lemma set_servq_fields [simp]:
  "sleep_q (set_servq ac q p) = sleep_q p" "sleepq_len (set_servq ac q p) = sleepq_len p"
  "sta_state (set_servq ac q p) = sta_state p" "hwaddr (set_servq ac q p) = hwaddr p"
  "tid_rxseq (set_servq ac q p) = tid_rxseq p" "aid (set_servq ac q p) = aid p"
  by (simp_all add: set_servq_def)

lemma servq_update [simp]:
  "servq ac (p\<lparr>sleep_q := x\<rparr>) = servq ac p" "servq ac (p\<lparr>sleepq_len := y\<rparr>) = servq ac p"
  "servq ac (p\<lparr>sleepq_ac_len := y\<rparr>) = servq ac p" "servq ac (p\<lparr>sta_state := z\<rparr>) = servq ac p"
  "servq ac (p\<lparr>expire_to := w\<rparr>) = servq ac p"
  by (simp_all add: servq_def)

lemma rtw_get_sta_pending_less [simp]: "rtw_get_sta_pending up < 4"
  by (simp add: rtw_get_sta_pending_def)

lemma tx_unlink_fields [simp]:
  "sleep_q (tx_unlink f p) = removeAll f (sleep_q p)" "sleepq_len (tx_unlink f p) = sleepq_len p"
  "sleepq_ac_len (tx_unlink f p) = sleepq_ac_len p" "sta_state (tx_unlink f p) = sta_state p"
  "hwaddr (tx_unlink f p) = hwaddr p" "tid_rxseq (tx_unlink f p) = tid_rxseq p" "aid (tx_unlink f p) = aid p"
  "sta_pending (servq ac (tx_unlink f p)) = removeAll f (sta_pending (servq ac p))"
  "qcnt (servq ac (tx_unlink f p)) = qcnt (servq ac p)"
  by (simp_all add: tx_unlink_def servq_def)

lemma get_sta_list_delete: "i < nsta ad \<Longrightarrow> get_sta i (list_delete f ad) = tx_unlink f (get_sta i ad)"
  by (simp add: get_sta_def list_delete_def nsta_def)

lemma txq_simps [simp]:
  "txq (set_xattr f a ad) l = txq ad l" "txq (set_tim h ad) l = txq ad l"
  "txq (set_dz h ad) l = txq ad l" "txq (rx_event e ad) l = txq ad l"
  by (cases l; simp add: set_xattr_def)+

lemma txq_set_xmit [simp]: "tx_pool (g (xmitpriv ad)) = tx_pool (xmitpriv ad) \<Longrightarrow> txq (set_xmit g ad) l = txq ad l"
  by (cases l) (simp_all add: tx_pool_def)

lemma txq_list_delete:
  "txq (list_delete f ad) l = (case l of Free ext \<Rightarrow> txq ad l | _ \<Rightarrow> removeAll f (txq ad l))"
  by (cases l) (simp_all add: get_sta_list_delete)

text \<open>An update of one station that leaves its queues and their counters alone.\<close>

definition same_queues :: "sta_info \<Rightarrow> sta_info \<Rightarrow> bool" where
  "same_queues p q \<longleftrightarrow> sleep_q q = sleep_q p \<and> sleepq_len q = sleepq_len p \<and> (\<forall>ac < 4. servq ac q = servq ac p)"

lemma set_sta_out: "\<not> i < nsta ad \<Longrightarrow> set_sta i p ad = ad"
  by (simp add: set_sta_def nsta_def list_update_beyond)

lemma txq_set_sta_same: "same_queues (get_sta i ad) p \<Longrightarrow> txq (set_sta i p ad) l = txq ad l"
  by (cases "i < nsta ad"; cases l) (auto simp: get_sta_set_sta set_sta_out same_queues_def)

lemma tx_counted_set_sta_same:
  assumes "same_queues (get_sta i ad) p"
  shows "tx_counted (set_sta i p ad) = tx_counted ad"
proof (cases "i < nsta ad")
  case True
  then have q: "qcnt (servq ac (get_sta j (set_sta i p ad))) = qcnt (servq ac (get_sta j ad))"
    "sleepq_len (get_sta j (set_sta i p ad)) = sleepq_len (get_sta j ad)" if "ac < 4" for ac j
    using assms that by (auto simp: get_sta_set_sta same_queues_def)
  show ?thesis unfolding tx_counted_def nsta_simps xmitpriv_simps txq_set_sta_same [OF assms] using q
    by (simp cong: conj_cong) (metis zero_less_numeral)
qed (simp add: set_sta_out)

lemma tx_inv_same:
  assumes "\<And>l. txq ad' l = txq ad l" and "nsta ad' = nsta ad" and "tx_counted ad' = tx_counted ad"
    and "hw_accnt (xmitpriv ad') = hw_accnt (xmitpriv ad)" and "hw_sta_queue (xmitpriv ad') = hw_sta_queue (xmitpriv ad)"
    and "\<And>l f. f \<in> set (txq ad l) \<Longrightarrow> loc_fits l ad' f = loc_fits l ad f"
    and "tx_pool (xmitpriv ad') = tx_pool (xmitpriv ad)"
  shows "tx_inv ad' = tx_inv ad"
  unfolding tx_inv_def using assms by (simp add: tx_pool_def cong: conj_cong)


section \<open>Single moves\<close>

declare txq.simps [simp del]

text \<open>A frame that waits nowhere.\<close>

definition tx_idle :: "nat \<Rightarrow> rx_adapter \<Rightarrow> bool" where
  "tx_idle f ad \<longleftrightarrow> (\<forall>l. f \<notin> set (txq ad l))"

lemma tx_invI:
  assumes "\<And>l. distinct (txq ad l)" and "\<And>l f. f \<in> set (txq ad l) \<Longrightarrow> f < NR_XMITFRAME \<and> \<not> xf_alloced (xmitpriv ad) f \<and> loc_fits l ad f"
    and "\<And>l l' f. f \<in> set (txq ad l) \<Longrightarrow> f \<in> set (txq ad l') \<Longrightarrow> l = l'" and "tx_counted ad"
    and "length (hw_accnt (xmitpriv ad)) = 4" and "length (hw_sta_queue (xmitpriv ad)) = 4"
    and "\<And>ac. ac < 4 \<Longrightarrow> distinct (hw_sta_queue (xmitpriv ad) ! ac) \<and> set (hw_sta_queue (xmitpriv ad) ! ac) \<subseteq> {..<nsta ad}"
  shows "tx_inv ad"
  unfolding tx_inv_def using assms by blast

lemma tx_invD:
  assumes "tx_inv ad"
  shows "distinct (txq ad l)" "f \<in> set (txq ad l) \<Longrightarrow> f < NR_XMITFRAME" "f \<in> set (txq ad l) \<Longrightarrow> loc_fits l ad f"
    "f \<in> set (txq ad l) \<Longrightarrow> f \<in> set (txq ad l') \<Longrightarrow> l = l'" "tx_counted ad"
    "length (hw_accnt (xmitpriv ad)) = 4" "length (hw_sta_queue (xmitpriv ad)) = 4"
    "ac < 4 \<Longrightarrow> distinct (hw_sta_queue (xmitpriv ad) ! ac)"
    "ac < 4 \<Longrightarrow> j \<in> set (hw_sta_queue (xmitpriv ad) ! ac) \<Longrightarrow> j < nsta ad"
    "f \<in> set (txq ad l) \<Longrightarrow> \<not> xf_alloced (xmitpriv ad) f"
  using assms unfolding tx_inv_def by blast+

lemma sum_change:
  fixes g :: "nat \<Rightarrow> int"
  assumes "i < n" and "\<And>j. j \<noteq> i \<Longrightarrow> g' j = g j"
  shows "(\<Sum>j<n. g' j) = (\<Sum>j<n. g j) - g i + g' i"
proof -
  have "(\<Sum>j \<in> {..<n} - {i}. g' j) = (\<Sum>j \<in> {..<n} - {i}. g j)" using assms(2) by (intro sum.cong) auto
  then show ?thesis using assms(1) by (simp add: sum.remove [of "{..<n}" i])
qed

lemma hw_accnt_nth:
  "length (hw_accnt xp) = 4 \<Longrightarrow> ac < 4 \<Longrightarrow> hw_accnt (hw_count k d xp) ! ac = hw_accnt xp ! ac + (if ac = k then d else 0)"
  by (simp add: nth_list_update)

text \<open>Enqueueing: the classifier puts an idle frame behind those of its category.\<close>

lemma tx_psta_station: "tx_psta (xattr ad f) = Some i \<Longrightarrow> tx_station f ad = Some i"
  by (simp add: tx_station_def)

lemma classifier_result:
  assumes st: "tx_psta (xattr ad f) = Some i" and i: "i < nsta ad"
  shows "rtw_xmit_classifier f ad = (FAIL, ad) \<or>
    (\<exists>ad'. rtw_xmit_classifier f ad = (SUCCESS, ad') \<and> nsta ad' = nsta ad \<and> (\<forall>g. xattr ad' g = xattr ad g) \<and> tx_pool (xmitpriv ad') = tx_pool (xmitpriv ad) \<and>
      (\<forall>l. txq ad' l = (if l = Pending i (rtw_get_sta_pending (tx_priority (xattr ad f))) then txq ad l @ [f] else txq ad l)) \<and>
      (tx_inv ad \<and> tx_idle f ad \<and> f < NR_XMITFRAME \<and> \<not> xf_alloced (xmitpriv ad) f \<longrightarrow> tx_inv ad') \<and>
      (\<forall>j ac. tx_inv ad \<and> tx_served j ac ad \<longrightarrow> tx_served j ac ad'))"
proof (cases "sta_state (get_sta i ad) AND FW_LINKED = 0")
  case True
  then show ?thesis by (simp add: rtw_xmit_classifier_def tx_psta_station [OF st])
next
  case False
  define k where "k = rtw_get_sta_pending (tx_priority (xattr ad f))"
  define p where "p = get_sta i ad"
  define q where "q = (servq k p)\<lparr>sta_pending := sta_pending (servq k p) @ [f], qcnt := qcnt (servq k p) + 1\<rparr>"
  define ad1 where "ad1 = set_xmit (hw_stations k (\<lambda>is. if i \<in> set is then is else is @ [i])) ad"
  define ad' where "ad' = set_xmit (hw_count k 1) (set_sta i (set_servq k q p) ad1)"
  have k: "k < 4" by (simp add: k_def)
  have res: "rtw_xmit_classifier f ad = (SUCCESS, ad')"
    using False by (simp add: rtw_xmit_classifier_def tx_psta_station [OF st] Let_def ad'_def ad1_def q_def p_def k_def)
  have n: "nsta ad' = nsta ad" "xattr ad' g = xattr ad g" "tx_pool (xmitpriv ad') = tx_pool (xmitpriv ad)" for g
    by (simp_all add: ad'_def ad1_def)
  then have n': "xf_alloced (xmitpriv ad') = xf_alloced (xmitpriv ad)" "xf_ext (xmitpriv ad') = xf_ext (xmitpriv ad)"
    by (simp_all add: tx_pool_def)
  have gs: "get_sta j ad' = (if j = i then set_servq k q p else get_sta j ad)" for j
    using i by (simp add: ad'_def ad1_def get_sta_set_sta)
  have tq: "txq ad' l = (if l = Pending i k then txq ad l @ [f] else txq ad l)" for l
    using n(3) i k by (cases l) (auto simp: n gs q_def p_def txq.simps tx_pool_def)
  have hw: "hw_sta_queue (xmitpriv ad') = (hw_sta_queue (xmitpriv ad))
      [k := if i \<in> set (hw_sta_queue (xmitpriv ad) ! k) then hw_sta_queue (xmitpriv ad) ! k
            else hw_sta_queue (xmitpriv ad) ! k @ [i]]"
    "hw_accnt (xmitpriv ad') = hw_accnt (hw_count k 1 (xmitpriv ad))"
    by (simp_all add: ad'_def ad1_def)
  have inv: "tx_inv ad'" if a: "tx_inv ad" "tx_idle f ad" "f < NR_XMITFRAME" "\<not> xf_alloced (xmitpriv ad) f"
  proof (rule tx_invI)
    note inv = tx_invD [OF a(1)]
    show "distinct (txq ad' l)" for l using inv(1) [of l] a(2) by (auto simp: tq tx_idle_def)
    have fits: "loc_fits l ad' g = loc_fits l ad g" for l g by (cases l) (simp_all add: n n')
    show "g \<in> set (txq ad' l) \<Longrightarrow> g < NR_XMITFRAME \<and> \<not> xf_alloced (xmitpriv ad') g \<and> loc_fits l ad' g" for l g
      using inv(2,3,10) [of g l] a(3,4) st by (auto simp: tq n' fits k_def split: if_splits)
    show "g \<in> set (txq ad' l) \<Longrightarrow> g \<in> set (txq ad' l') \<Longrightarrow> l = l'" for g l l'
      using inv(4) [of g l l'] a(2) by (auto simp: tq tx_idle_def split: if_splits)
    show "length (hw_accnt (xmitpriv ad')) = 4" "length (hw_sta_queue (xmitpriv ad')) = 4"
      using inv(6,7) by (simp_all add: hw)
    show "distinct (hw_sta_queue (xmitpriv ad') ! ac) \<and> set (hw_sta_queue (xmitpriv ad') ! ac) \<subseteq> {..<nsta ad'}" if "ac < 4" for ac
      using inv(7) inv(8,9) [OF that] i k by (cases "ac = k") (auto simp: hw n)
    show "tx_counted ad'"
      unfolding tx_counted_def
    proof (intro conjI allI impI)
      fix j assume j: "j < nsta ad'"
      show "sleepq_len (get_sta j ad') = length (txq ad' (Sleeping j))"
        using inv(5) j by (simp add: tq gs n tx_counted_def p_def)
      show "qcnt (servq ac (get_sta j ad')) = int (length (txq ad' (Pending j ac)))" if ac: "ac < 4" for ac
        using inv(5) j ac k i by (auto simp: tq gs n tx_counted_def p_def q_def)
    next
      fix ac :: nat assume ac: "ac < 4"
      have "(\<Sum>j<nsta ad'. int (length (txq ad' (Pending j ac)))) =
          (\<Sum>j<nsta ad. int (length (txq ad (Pending j ac)))) + (if ac = k then 1 else 0)"
        using sum_change [OF i, of "\<lambda>j. int (length (txq ad' (Pending j ac)))" "\<lambda>j. int (length (txq ad (Pending j ac)))"]
        by (simp add: tq n)
      then show "hw_accnt (xmitpriv ad') ! ac = (\<Sum>j<nsta ad'. int (length (txq ad' (Pending j ac))))"
        using inv(5) ac by (simp add: hw(2) hw_accnt_nth [OF inv(6) ac] tx_counted_def del: hw_simps)
    qed (use inv(5) n(3) in \<open>simp_all add: tq tx_counted_def tx_pool_def\<close>)
  qed
  have served: "tx_served j ac ad'" if "tx_inv ad" "tx_served j ac ad" for j ac
    using that(2) k tx_invD(7) [OF that(1)]
    by (auto simp: tx_served_def tq hw nth_list_update split: if_splits)
  show ?thesis using res n tq inv served by (simp add: k_def)
qed


text \<open>A frame that the classifier refuses goes back to its free queue.\<close>

definition drop_frame :: "nat \<Rightarrow> rx_adapter \<Rightarrow> rx_adapter" where
  "drop_frame f = set_xmit (\<lambda>xp. (rtw_free_xmitframe f xp)\<lparr>tx_pkts := tx_pkts xp - 1, tx_drop := tx_drop xp + 1\<rparr>)"

lemma free_xmitframe_fields:
  assumes "\<not> xf_alloced xp f" and "f \<notin> set (free_xmit_queue xp)" and "f \<notin> set (free_xframe_ext_queue xp)"
  shows "free_xmit_queue (rtw_free_xmitframe f xp) = (if xf_ext xp f then free_xmit_queue xp else free_xmit_queue xp @ [f])"
    "free_xframe_ext_queue (rtw_free_xmitframe f xp) = (if xf_ext xp f then free_xframe_ext_queue xp @ [f] else free_xframe_ext_queue xp)"
    "free_xmitframe_cnt (rtw_free_xmitframe f xp) = free_xmitframe_cnt xp + (if xf_ext xp f then 0 else 1)"
    "free_xframe_ext_cnt (rtw_free_xmitframe f xp) = free_xframe_ext_cnt xp + (if xf_ext xp f then 1 else 0)"
    "xf_ext (rtw_free_xmitframe f xp) = xf_ext xp" "xf_alloced (rtw_free_xmitframe f xp) = xf_alloced xp"
    "hw_accnt (rtw_free_xmitframe f xp) = hw_accnt xp" "hw_sta_queue (rtw_free_xmitframe f xp) = hw_sta_queue xp"
    "xf_attr (rtw_free_xmitframe f xp) = xf_attr xp"
  using assms by (auto simp: rtw_free_xmitframe_def Let_def split: option.splits)

lemma drop_frame_result:
  assumes inv: "tx_inv ad" and f: "tx_idle f ad" "f < NR_XMITFRAME" "\<not> xf_alloced (xmitpriv ad) f"
  shows "tx_inv (drop_frame f ad)" and "nsta (drop_frame f ad) = nsta ad" and "xattr (drop_frame f ad) g = xattr ad g"
    and "txq (drop_frame f ad) l = (if l = Free (xf_ext (xmitpriv ad) f) then txq ad l @ [f] else txq ad l)"
    and "tx_served j ac (drop_frame f ad) = tx_served j ac ad" and "stapriv (drop_frame f ad) = stapriv ad"
    and "xf_alloced (xmitpriv (drop_frame f ad)) = xf_alloced (xmitpriv ad)"
proof -
  have nf: "f \<notin> set (free_xmit_queue (xmitpriv ad))" "f \<notin> set (free_xframe_ext_queue (xmitpriv ad))"
    using f(1) [unfolded tx_idle_def, rule_format, of "Free False"] f(1) [unfolded tx_idle_def, rule_format, of "Free True"]
    by (simp_all add: txq.simps)
  note ff = free_xmitframe_fields [OF f(3) nf]
  show n: "nsta (drop_frame f ad) = nsta ad" "stapriv (drop_frame f ad) = stapriv ad"
    by (simp_all add: drop_frame_def) (simp add: set_xmit_def)
  show x: "xattr (drop_frame f ad) g = xattr ad g" for g by (simp add: drop_frame_def xattr_def ff)
  have gs: "get_sta j (drop_frame f ad) = get_sta j ad" for j by (simp add: drop_frame_def)
  show tq: "txq (drop_frame f ad) l = (if l = Free (xf_ext (xmitpriv ad) f) then txq ad l @ [f] else txq ad l)" for l
    by (cases l) (auto simp: txq.simps n gs, auto simp: drop_frame_def ff)
  have hw: "hw_accnt (xmitpriv (drop_frame f ad)) = hw_accnt (xmitpriv ad)"
    "hw_sta_queue (xmitpriv (drop_frame f ad)) = hw_sta_queue (xmitpriv ad)"
    "xf_ext (xmitpriv (drop_frame f ad)) = xf_ext (xmitpriv ad)"
    by (simp_all add: drop_frame_def ff)
  show al: "xf_alloced (xmitpriv (drop_frame f ad)) = xf_alloced (xmitpriv ad)" by (simp add: drop_frame_def ff)
  show "tx_served j ac (drop_frame f ad) = tx_served j ac ad" by (simp add: tx_served_def tq hw)
  have fits: "loc_fits l (drop_frame f ad) g = loc_fits l ad g" for l g by (cases l) (simp_all add: x hw)
  note inv = tx_invD [OF inv]
  have cnt: "tx_counted (drop_frame f ad)"
    using inv(5) unfolding tx_counted_def n gs hw tq
    by (simp add: drop_frame_def ff)
  show "tx_inv (drop_frame f ad)"
  proof (rule tx_invI)
    show "distinct (txq (drop_frame f ad) l)" for l using inv(1) [of l] f(1) by (auto simp: tq tx_idle_def)
    show "g \<in> set (txq (drop_frame f ad) l) \<Longrightarrow>
        g < NR_XMITFRAME \<and> \<not> xf_alloced (xmitpriv (drop_frame f ad)) g \<and> loc_fits l (drop_frame f ad) g" for l g
      using inv(2,3,10) [of g l] f by (auto simp: tq al fits split: if_splits)
    show "g \<in> set (txq (drop_frame f ad) l) \<Longrightarrow> g \<in> set (txq (drop_frame f ad) l') \<Longrightarrow> l = l'" for g l l'
      using inv(4) [of g l l'] f(1) by (auto simp: tq tx_idle_def split: if_splits)
  qed (use inv cnt in \<open>auto simp: hw n\<close>)
qed

text \<open>The frame ends on one of the two queues, and no queue loses its station.\<close>

definition tx_keeps :: "rx_adapter \<Rightarrow> rx_adapter \<Rightarrow> bool" where
  "tx_keeps ad ad' \<longleftrightarrow> nsta ad' = nsta ad \<and> xf_alloced (xmitpriv ad') = xf_alloced (xmitpriv ad) \<and>
     (\<forall>g. tx_psta (xattr ad' g) = tx_psta (xattr ad g) \<and> tx_priority (xattr ad' g) = tx_priority (xattr ad g))"

lemma tx_keeps_trans: "tx_keeps a b \<Longrightarrow> tx_keeps b c \<Longrightarrow> tx_keeps a c"
  by (simp add: tx_keeps_def)

lemma hal_enqueue_result:
  assumes inv: "tx_inv ad" and f: "tx_idle f ad" "f < NR_XMITFRAME" "\<not> xf_alloced (xmitpriv ad) f"
    and st: "tx_psta (xattr ad f) = Some i" "i < nsta ad"
  defines "ad' \<equiv> rtw_hal_xmitframe_enqueue f ad"
  shows "tx_inv ad' \<and> tx_keeps ad ad' \<and>
    (\<exists>l. (\<forall>l'. txq ad' l' = (if l' = l then txq ad l' @ [f] else txq ad l')) \<and> (\<forall>j. l \<noteq> Sleeping j)) \<and>
    (\<forall>j ac. tx_served j ac ad \<longrightarrow> tx_served j ac ad')"
proof -
  consider "rtw_xmit_classifier f ad = (FAIL, ad)"
    | ad1 where "rtw_xmit_classifier f ad = (SUCCESS, ad1)" "nsta ad1 = nsta ad" "\<forall>g. xattr ad1 g = xattr ad g"
      "tx_pool (xmitpriv ad1) = tx_pool (xmitpriv ad)"
      "\<forall>l. txq ad1 l = (if l = Pending i (rtw_get_sta_pending (tx_priority (xattr ad f))) then txq ad l @ [f] else txq ad l)"
      "tx_inv ad1" "\<forall>j ac. tx_served j ac ad \<longrightarrow> tx_served j ac ad1"
    using classifier_result [OF st] inv f by blast
  then show ?thesis
  proof cases
    case 1
    then have "ad' = drop_frame f ad"
      by (simp add: ad'_def rtw_hal_xmitframe_enqueue_def rtw_xmitframe_enqueue_def drop_frame_def)
    then show ?thesis
      using drop_frame_result [OF inv f] by (auto simp: tx_keeps_def intro!: exI [of _ "Free (xf_ext (xmitpriv ad) f)"])
  next
    case 2
    then have "ad' = ad1" by (simp add: ad'_def rtw_hal_xmitframe_enqueue_def rtw_xmitframe_enqueue_def)
    then show ?thesis
      using 2 by (auto simp: tx_keeps_def tx_pool_def)
  qed
qed


text \<open>A frame leaves the sleeping queue of its station.\<close>

lemma dec32_Suc: "0 < n \<Longrightarrow> n \<le> NR_XMITFRAME \<Longrightarrow> dec32 n = n - 1"
  by (simp add: dec32_def NR_XMITFRAME_def mod_if)

lemma txq_length: "tx_inv ad \<Longrightarrow> length (txq ad l) \<le> NR_XMITFRAME"
  using distinct_card [OF tx_invD(1), of ad l] card_mono [of "{..<NR_XMITFRAME}" "set (txq ad l)"] tx_invD(2) [of ad]
  by auto

lemma removeAll_elsewhere:
  "tx_inv ad \<Longrightarrow> f \<in> set (txq ad l0) \<Longrightarrow> removeAll f (txq ad l) = (if l = l0 then removeAll f (txq ad l) else txq ad l)"
  using tx_invD(4) by (metis removeAll_id)

lemma length_removeAll_distinct: "distinct xs \<Longrightarrow> x \<in> set xs \<Longrightarrow> length (removeAll x xs) = length xs - 1"
  by (simp add: distinct_remove1_removeAll [symmetric] length_remove1)

lemma txq_Sleeping: "i < nsta ad \<Longrightarrow> txq ad (Sleeping i) = sleep_q (get_sta i ad)"
  by (simp add: txq.simps)

lemma txq_station: "f \<in> set (txq ad (Sleeping i)) \<Longrightarrow> i < nsta ad" "f \<in> set (txq ad (Pending i ac)) \<Longrightarrow> i < nsta ad"
  by (auto simp: txq.simps split: if_splits)

lemma release_result:
  assumes inv: "tx_inv ad" and f: "f \<in> set (txq ad (Sleeping i))"
    and p: "sleep_q p = removeAll f (sleep_q (get_sta i ad))" "sleepq_len p = dec32 (sleepq_len (get_sta i ad))"
      "\<forall>ac < 4. servq ac p = servq ac (tx_unlink f (get_sta i ad))"
    and a: "tx_psta a = tx_psta (xattr ad f)" "tx_priority a = tx_priority (xattr ad f)"
  defines "ad' \<equiv> set_xattr f a (set_sta i p (list_delete f ad))"
  shows "tx_inv ad' \<and> tx_keeps ad ad' \<and> (\<forall>l. txq ad' l = removeAll f (txq ad l)) \<and> tx_idle f ad' \<and>
    (\<forall>j ac. tx_served j ac ad' = tx_served j ac ad)"
proof -
  note iv = tx_invD [OF inv]
  have i: "i < nsta ad" using txq_station f by blast
  have n: "nsta ad' = nsta ad" by (simp add: ad'_def)
  have x: "tx_psta (xattr ad' g) = tx_psta (xattr ad g)" "tx_priority (xattr ad' g) = tx_priority (xattr ad g)" for g
    by (simp_all add: ad'_def a)
  have po: "tx_pool (xmitpriv ad') = tx_pool (xmitpriv ad)" by (simp add: ad'_def)
  then have al: "xf_alloced (xmitpriv ad') = xf_alloced (xmitpriv ad)" "xf_ext (xmitpriv ad') = xf_ext (xmitpriv ad)"
    by (simp_all add: tx_pool_def)
  have hw: "hw_accnt (xmitpriv ad') = hw_accnt (xmitpriv ad)" "hw_sta_queue (xmitpriv ad') = hw_sta_queue (xmitpriv ad)"
    by (simp_all add: ad'_def)
  have gs: "get_sta j ad' = (if j = i then p else tx_unlink f (get_sta j ad))" if "j < nsta ad" for j
    using i that by (simp add: ad'_def get_sta_set_sta get_sta_list_delete)
  have free: "f \<notin> set (txq ad (Free ext))" for ext using iv(4) [OF f] by blast
  have tq: "txq ad' l = removeAll f (txq ad l)" for l
    using free p po by (cases l) (auto simp: txq.simps n gs tx_pool_def)
  have tq': "txq ad' l = (if l = Sleeping i then removeAll f (txq ad l) else txq ad l)" for l
    using tq removeAll_elsewhere [OF inv f] by simp
  have fits: "loc_fits l ad' g = loc_fits l ad g" for l g by (cases l) (simp_all add: x al)
  have len: "length (removeAll f (txq ad (Sleeping i))) = length (txq ad (Sleeping i)) - 1"
    by (rule length_removeAll_distinct [OF iv(1) f])
  have pos: "0 < length (txq ad (Sleeping i))" using f by (cases "txq ad (Sleeping i)") auto
  have idle: "tx_idle f ad'" by (simp add: tx_idle_def tq)
  have served: "tx_served j ac ad' = tx_served j ac ad" for j ac
    by (simp add: tx_served_def tq' hw)
  have cnt: "tx_counted ad'"
    unfolding tx_counted_def n hw
  proof (intro conjI allI impI)
    fix j assume j: "j < nsta ad"
    show "sleepq_len (get_sta j ad') = length (txq ad' (Sleeping j))"
      using iv(5) j p(2) dec32_Suc [OF pos txq_length [OF inv]] by (simp add: gs tq' len tx_counted_def)
    show "qcnt (servq ac (get_sta j ad')) = int (length (txq ad' (Pending j ac)))" if "ac < 4" for ac
      using iv(5) j p(3) that by (simp add: gs tq' tx_counted_def)
  qed (use iv(5) po in \<open>simp_all add: tq' tx_counted_def tx_pool_def\<close>)
  have "tx_inv ad'"
  proof (rule tx_invI)
    show "distinct (txq ad' l)" for l using iv(1) [of l] by (simp add: tq distinct_removeAll)
    show "g \<in> set (txq ad' l) \<Longrightarrow> g < NR_XMITFRAME \<and> \<not> xf_alloced (xmitpriv ad') g \<and> loc_fits l ad' g" for l g
      using iv(2,3,10) [of g l] by (simp add: tq al fits)
    show "g \<in> set (txq ad' l) \<Longrightarrow> g \<in> set (txq ad' l') \<Longrightarrow> l = l'" for g l l'
      using iv(4) [of g l l'] by (simp add: tq)
  qed (use iv cnt in \<open>auto simp: hw n\<close>)
  then show ?thesis using tq idle served by (simp add: tx_keeps_def n x al)
qed

text \<open>Releasing and enqueueing again, as a wake-up, a trigger or a poll does.\<close>

lemma release_enqueue:
  assumes inv: "tx_inv ad" and f: "f \<in> set (txq ad (Sleeping i))"
    and p: "sleep_q p = removeAll f (sleep_q (get_sta i ad))" "sleepq_len p = dec32 (sleepq_len (get_sta i ad))"
      "\<forall>ac < 4. servq ac p = servq ac (tx_unlink f (get_sta i ad))"
    and a: "tx_psta a = tx_psta (xattr ad f)" "tx_priority a = tx_priority (xattr ad f)"
  defines "ad' \<equiv> rtw_hal_xmitframe_enqueue f (set_xattr f a (set_sta i p (list_delete f ad)))"
  shows "tx_inv ad' \<and> tx_keeps ad ad' \<and> (\<forall>j. txq ad' (Sleeping j) = removeAll f (txq ad (Sleeping j))) \<and>
    (\<Union>l. set (txq ad' l)) = (\<Union>l. set (txq ad l)) \<and> (\<forall>j ac. tx_served j ac ad \<longrightarrow> tx_served j ac ad')"
proof -
  define ad1 where "ad1 = set_xattr f a (set_sta i p (list_delete f ad))"
  note r = release_result [OF inv f p a, folded ad1_def]
  have k: "tx_keeps ad ad1" and idle: "tx_idle f ad1" and inv1: "tx_inv ad1" and tq: "\<And>l. txq ad1 l = removeAll f (txq ad l)"
    using r by blast+
  have st: "tx_psta (xattr ad1 f) = Some i" "i < nsta ad1"
    using tx_invD(3) [OF inv f] k txq_station [of f ad i] f by (simp_all add: tx_keeps_def)
  have "f < NR_XMITFRAME" "\<not> xf_alloced (xmitpriv ad1) f"
    using tx_invD(2,10) [OF inv f] k by (simp_all add: tx_keeps_def)
  note h = hal_enqueue_result [OF inv1 idle this st, folded ad'_def [folded ad1_def]]
  then obtain l0 where l0: "\<forall>l'. txq ad' l' = (if l' = l0 then txq ad1 l' @ [f] else txq ad1 l')" "\<forall>j. l0 \<noteq> Sleeping j"
    by blast
  have "(\<Union>l. set (txq ad' l)) = insert f (\<Union>l. set (txq ad1 l))" using l0(1) by (auto split: if_splits)
  also have "\<dots> = (\<Union>l. set (txq ad l))" using f by (auto simp: tq)
  finally show ?thesis using h l0 tx_keeps_trans [OF k] r by (auto simp: tq)
qed


section \<open>Runs of moves\<close>

text \<open>Every frame stays on exactly one queue and every served queue stays served.\<close>

definition all_frames :: "rx_adapter \<Rightarrow> nat set" where
  "all_frames ad = (\<Union>l. set (txq ad l))"

definition tx_safe :: "rx_adapter \<Rightarrow> rx_adapter \<Rightarrow> bool" where
  "tx_safe ad ad' \<longleftrightarrow> tx_inv ad' \<and> tx_keeps ad ad' \<and> all_frames ad' = all_frames ad"

definition tx_serves :: "rx_adapter \<Rightarrow> rx_adapter \<Rightarrow> bool" where
  "tx_serves ad ad' \<longleftrightarrow> (\<forall>j ac. tx_served j ac ad \<longrightarrow> tx_served j ac ad')"

lemma tx_safe_refl: "tx_inv ad \<Longrightarrow> tx_safe ad ad"
  by (simp add: tx_safe_def tx_keeps_def)

lemma tx_safe_trans: "tx_safe a b \<Longrightarrow> tx_safe b c \<Longrightarrow> tx_safe a c"
  using tx_keeps_trans by (auto simp: tx_safe_def)

lemma tx_serves_trans: "tx_serves a b \<Longrightarrow> tx_serves b c \<Longrightarrow> tx_serves a c"
  by (simp add: tx_serves_def)

lemma tx_serves_refl [simp]: "tx_serves ad ad"
  by (simp add: tx_serves_def)

text \<open>Changes that no queue sees.\<close>

definition queues_like :: "rx_adapter \<Rightarrow> rx_adapter \<Rightarrow> bool" where
  "queues_like ad ad' \<longleftrightarrow> nsta ad' = nsta ad \<and> (\<forall>i < nsta ad. same_queues (get_sta i ad) (get_sta i ad')) \<and>
     tx_pool (xmitpriv ad') = tx_pool (xmitpriv ad) \<and> hw_accnt (xmitpriv ad') = hw_accnt (xmitpriv ad) \<and>
     hw_sta_queue (xmitpriv ad') = hw_sta_queue (xmitpriv ad) \<and>
     (\<forall>g. tx_psta (xattr ad' g) = tx_psta (xattr ad g) \<and> tx_priority (xattr ad' g) = tx_priority (xattr ad g))"

lemma same_queues_refl [simp]: "same_queues p p"
  by (simp add: same_queues_def)

lemma queues_like_refl [simp]: "queues_like ad ad"
  by (simp add: queues_like_def)

lemma queues_like_simps [simp]:
  "queues_like ad (set_tim h ad') = queues_like ad ad'" "queues_like ad (set_dz h ad') = queues_like ad ad'"
  "queues_like ad (rx_event e ad') = queues_like ad ad'"
  by (simp_all add: queues_like_def)

lemma queues_like_set_sta: "same_queues (get_sta i ad) p \<Longrightarrow> queues_like ad (set_sta i p ad)"
  by (cases "i < nsta ad") (auto simp: queues_like_def get_sta_set_sta set_sta_out)

lemma queues_like_set_xattr:
  "tx_psta a = tx_psta (xattr ad f) \<Longrightarrow> tx_priority a = tx_priority (xattr ad f) \<Longrightarrow> queues_like ad (set_xattr f a ad)"
  by (simp add: queues_like_def)

lemma queues_like_trans: "queues_like a b \<Longrightarrow> queues_like b c \<Longrightarrow> queues_like a c"
  by (simp add: queues_like_def same_queues_def)

lemma queues_like_txq:
  assumes "queues_like ad ad'"
  shows "txq ad' l = txq ad l"
  using assms by (cases l) (auto simp: queues_like_def txq.simps same_queues_def tx_pool_def)

lemma queues_like_safe:
  assumes "queues_like ad ad'" and "tx_inv ad"
  shows "tx_safe ad ad'" and "tx_serves ad ad'"
proof -
  note tq = queues_like_txq [OF assms(1)]
  have cnt: "tx_counted ad' = tx_counted ad"
    using assms(1) unfolding tx_counted_def tq
    by (auto simp: queues_like_def same_queues_def tx_pool_def)
  have al: "xf_ext (xmitpriv ad') = xf_ext (xmitpriv ad)" "xf_alloced (xmitpriv ad') = xf_alloced (xmitpriv ad)"
    using assms(1) by (simp_all add: queues_like_def tx_pool_def)
  have fits: "loc_fits l ad' f = loc_fits l ad f" for l f
    using assms(1) al by (cases l) (simp_all add: queues_like_def)
  have "tx_inv ad' = tx_inv ad"
    by (rule tx_inv_same) (use assms(1) tq cnt fits in \<open>simp_all add: queues_like_def\<close>)
  then show "tx_safe ad ad'" using assms al by (simp add: tx_safe_def tx_keeps_def queues_like_def all_frames_def tq)
  show "tx_serves ad ad'" using assms(1) by (simp add: tx_serves_def tx_served_def tq queues_like_def)
qed

text \<open>A step that takes one frame out of a sleeping queue, or leaves it there.\<close>

definition releases :: "nat \<Rightarrow> nat \<Rightarrow> rx_adapter \<Rightarrow> rx_adapter \<Rightarrow> bool" where
  "releases i f ad ad' \<longleftrightarrow> tx_safe ad ad' \<and> tx_serves ad ad' \<and>
     (\<forall>j. txq ad' (Sleeping j) = removeAll f (txq ad (Sleeping j)))"

lemma release_frame_releases:
  assumes "tx_inv ad" and "f \<in> set (txq ad (Sleeping i))"
  shows "releases i f ad (release_frame i f ad)"
proof -
  have i: "i < nsta ad" using txq_station assms(2) by blast
  show ?thesis
    unfolding releases_def release_frame_def Let_def tx_safe_def tx_serves_def all_frames_def
    using release_enqueue [OF assms, of "(get_sta i (list_delete f ad))\<lparr>sleepq_len := dec32 (sleepq_len (get_sta i (list_delete f ad)))\<rparr>"
        "(xattr ad f)\<lparr>tx_mdata := 0 < dec32 (sleepq_len (get_sta i (list_delete f ad))), tx_triggered := True\<rparr>"] i
    by (simp add: get_sta_list_delete)
qed

lemma wake_frame_releases:
  assumes "tx_inv ad" and "f \<in> set (txq ad (Sleeping i))"
  shows "releases i f ad (wake_frame i f ad)"
proof -
  have i: "i < nsta ad" using txq_station assms(2) by blast
  define p where "p = tx_unlink f (get_sta i ad)"
  have p: "get_sta i (list_delete f ad) = p" using i by (simp add: get_sta_list_delete p_def)
  show ?thesis
    unfolding releases_def wake_frame_def Let_def tx_safe_def tx_serves_def all_frames_def p
    using release_enqueue [OF assms]
    by (cases "bit (wmmps_ac (tx_priority (xattr (list_delete f ad) f)) p) 1") (simp_all add: p_def)
qed

lemma deliver_frame_releases:
  assumes "tx_inv ad" and "f \<in> set (txq ad (Sleeping i))"
  shows "tx_safe ad (deliver_frame i f ad) \<and> tx_serves ad (deliver_frame i f ad) \<and>
    (deliver_frame i f ad = ad \<or> (\<forall>j. txq (deliver_frame i f ad) (Sleeping j) = removeAll f (txq ad (Sleeping j))))"
proof (cases "bit (wmmps_ac (tx_priority (xattr ad f)) (get_sta i ad)) 1")
  case False
  then show ?thesis using assms by (simp add: deliver_frame_def Let_def tx_safe_refl)
next
  case True
  have i: "i < nsta ad" using txq_station assms(2) by blast
  define p where "p = tx_unlink f (get_sta i ad)"
  have p: "get_sta i (list_delete f ad) = p" using i by (simp add: get_sta_list_delete p_def)
  define p1 where "p1 = p\<lparr>sleepq_len := dec32 (sleepq_len p), sleepq_ac_len := dec32 (sleepq_ac_len p)\<rparr>"
  define ad2 where "ad2 = rtw_hal_xmitframe_enqueue f (set_xattr f ((xattr ad f)\<lparr>tx_mdata := 0 < sleepq_ac_len p1,
      tx_eosp := \<not> 0 < sleepq_ac_len p1, tx_triggered := True\<rparr>) (set_sta i p1 (list_delete f ad)))"
  have r: "tx_safe ad ad2" "tx_serves ad ad2" "\<forall>j. txq ad2 (Sleeping j) = removeAll f (txq ad (Sleeping j))"
    using release_enqueue [OF assms, of p1]
    by (simp_all add: ad2_def p1_def p_def tx_safe_def tx_serves_def all_frames_def)
  have "deliver_frame i f ad = (if sleepq_ac_len (get_sta i ad2) = 0 \<and> \<not> has_legacy_ac (get_sta i ad2)
           then rx_event Update_beacon_tim (set_tim (clear_aid_bit (aid (get_sta i ad2))) ad2) else ad2)"
    using True by (simp add: deliver_frame_def Let_def p ad2_def p1_def)
  then have q: "queues_like ad2 (deliver_frame i f ad)" by simp
  have "tx_inv ad2" using r(1) by (simp add: tx_safe_def)
  note like = queues_like_safe [OF q this]
  show ?thesis
    using tx_safe_trans [OF r(1) like(1)] tx_serves_trans [OF r(2) like(2)] queues_like_txq [OF q] r(3) by simp
qed

lemma fold_releases:
  assumes "\<And>ad f. tx_inv ad \<Longrightarrow> f \<in> set (txq ad (Sleeping i)) \<Longrightarrow> releases i f ad (step f ad)"
    and "tx_inv ad" and "distinct fs" and "set fs \<subseteq> set (txq ad (Sleeping i))"
  shows "tx_safe ad (fold step fs ad) \<and> tx_serves ad (fold step fs ad) \<and>
    (\<forall>j. set (txq (fold step fs ad) (Sleeping j)) = set (txq ad (Sleeping j)) - set fs)"
  using assms(2-4)
proof (induction fs arbitrary: ad)
  case Nil
  then show ?case by (simp add: tx_safe_refl)
next
  case (Cons f fs)
  have r: "releases i f ad (step f ad)" using assms(1) Cons.prems by simp
  then have "tx_inv (step f ad)" "set fs \<subseteq> set (txq (step f ad) (Sleeping i))"
    using Cons.prems by (auto simp: releases_def tx_safe_def)
  from Cons.IH [OF this(1) _ this(2)] Cons.prems(2)
  have ih: "tx_safe (step f ad) (fold step fs (step f ad))" "tx_serves (step f ad) (fold step fs (step f ad))"
    "\<forall>j. set (txq (fold step fs (step f ad)) (Sleeping j)) = set (txq (step f ad) (Sleeping j)) - set fs"
    by simp_all
  have r': "tx_safe ad (step f ad)" "tx_serves ad (step f ad)" "\<forall>j. txq (step f ad) (Sleeping j) = removeAll f (txq ad (Sleeping j))"
    using r by (simp_all add: releases_def)
  show ?case
    using tx_safe_trans [OF r'(1) ih(1)] tx_serves_trans [OF r'(2) ih(2)] ih(3) r'(3) by auto
qed

lemma fold_delivers:
  assumes "tx_inv ad" and "distinct fs" and "set fs \<subseteq> set (txq ad (Sleeping i))"
  shows "tx_safe ad (fold (deliver_frame i) fs ad) \<and> tx_serves ad (fold (deliver_frame i) fs ad)"
  using assms
proof (induction fs arbitrary: ad)
  case Nil
  then show ?case by (simp add: tx_safe_refl)
next
  case (Cons f fs)
  have r: "tx_safe ad (deliver_frame i f ad)" "tx_serves ad (deliver_frame i f ad)"
    and t: "deliver_frame i f ad = ad \<or> (\<forall>j. txq (deliver_frame i f ad) (Sleeping j) = removeAll f (txq ad (Sleeping j)))"
    using deliver_frame_releases [of ad f i] Cons.prems by simp_all
  have "set fs \<subseteq> set (txq (deliver_frame i f ad) (Sleeping i))" using t Cons.prems by auto
  with r(1) Cons.IH [of "deliver_frame i f ad"] Cons.prems(2)
  have "tx_safe (deliver_frame i f ad) (fold (deliver_frame i) fs (deliver_frame i f ad))"
    "tx_serves (deliver_frame i f ad) (fold (deliver_frame i) fs (deliver_frame i f ad))"
    by (simp_all add: tx_safe_def)
  then show ?case using tx_safe_trans [OF r(1)] tx_serves_trans [OF r(2)] by simp
qed

section \<open>What the queue operations leave alone\<close>

text \<open>
  They change the queues and flags of the stations, the transmit frames and the events, and nothing
  else of the adapter; in particular no lookup and no cache against duplicates. \<open>tx_view\<close> is the
  adapter with all that blanked out.
\<close>

definition sta_view :: "sta_info \<Rightarrow> sta_info" where
  "sta_view p = init_stainfo\<lparr>hwaddr := hwaddr p, aid := aid p, tid_rxseq := tid_rxseq p\<rparr>"

definition tx_view :: "rx_adapter \<Rightarrow> rx_adapter" where
  "tx_view ad = ad\<lparr>stapriv := (stapriv ad)\<lparr>stainfo_buf := map sta_view (stainfo_buf (stapriv ad)),
       tim_bitmap := 0, sta_dz_bitmap := 0\<rparr>, xmitpriv := xmitpriv sample_adapter, rx_events := []\<rparr>"

lemma tx_view_simps [simp]:
  "tx_view (set_xmit g ad) = tx_view ad" "tx_view (set_xattr f a ad) = tx_view ad"
  "tx_view (set_tim h ad) = tx_view ad" "tx_view (set_dz h ad) = tx_view ad" "tx_view (rx_event e ad) = tx_view ad"
  "tx_view (list_delete f ad) = tx_view ad"
  by (simp_all add: tx_view_def set_xmit_def set_xattr_def set_tim_def set_dz_def rx_event_def list_delete_def
      sta_view_def comp_def)

lemma tx_view_set_sta:
  assumes "hwaddr p = hwaddr (get_sta i ad)" and "tid_rxseq p = tid_rxseq (get_sta i ad)"
    and "aid p = aid (get_sta i ad)"
  shows "tx_view (set_sta i p ad) = tx_view ad"
proof (cases "i < length (stainfo_buf (stapriv ad))")
  case True
  have "sta_view p = map sta_view (stainfo_buf (stapriv ad)) ! i"
    using assms True by (simp add: sta_view_def get_sta_def)
  then have "map sta_view ((stainfo_buf (stapriv ad))[i := p]) = map sta_view (stainfo_buf (stapriv ad))"
    by (simp add: map_update)
  then show ?thesis by (simp add: tx_view_def set_sta_def)
qed (simp add: set_sta_out nsta_def)

lemma tx_view_fields:
  assumes "tx_view ad' = tx_view ad"
  shows "recvpriv ad' = recvpriv ad" "securitypriv ad' = securitypriv ad" "fw_state ad' = fw_state ad"
    "rxf ad' = rxf ad" "myid ad' = myid ad" "get_bssid ad' = get_bssid ad" "bDriverStopped ad' = bDriverStopped ad"
    "bSurpriseRemoved ad' = bSurpriseRemoved ad" "sta_hash (stapriv ad') = sta_hash (stapriv ad)" "nsta ad' = nsta ad"
    "rx_drop ad' = rx_drop ad"
  using arg_cong [OF assms, of recvpriv] arg_cong [OF assms, of securitypriv] arg_cong [OF assms, of fw_state]
    arg_cong [OF assms, of rxf] arg_cong [OF assms, of myid] arg_cong [OF assms, of get_bssid]
    arg_cong [OF assms, of bDriverStopped] arg_cong [OF assms, of bSurpriseRemoved] arg_cong [OF assms, of rx_drop]
    arg_cong [OF assms, of "\<lambda>a. sta_hash (stapriv a)"] arg_cong [OF assms, of "\<lambda>a. length (stainfo_buf (stapriv a))"]
  by (simp_all add: tx_view_def nsta_def)

lemma tx_view_sta:
  assumes "tx_view ad' = tx_view ad" and "i < nsta ad"
  shows "hwaddr (get_sta i ad') = hwaddr (get_sta i ad)" and "tid_rxseq (get_sta i ad') = tid_rxseq (get_sta i ad)"
    and "aid (get_sta i ad') = aid (get_sta i ad)"
proof -
  have "i < length (stainfo_buf (stapriv ad'))" "i < length (stainfo_buf (stapriv ad))"
    using assms(2) tx_view_fields(10) [OF assms(1)] by (simp_all add: nsta_def)
  then have "sta_view (get_sta i ad') = sta_view (get_sta i ad)"
    using arg_cong [OF assms(1), of "\<lambda>a. stainfo_buf (stapriv a) ! i"] by (simp add: tx_view_def get_sta_def)
  then have "hwaddr (sta_view (get_sta i ad')) = hwaddr (sta_view (get_sta i ad))"
    "tid_rxseq (sta_view (get_sta i ad')) = tid_rxseq (sta_view (get_sta i ad))"
    "aid (sta_view (get_sta i ad')) = aid (sta_view (get_sta i ad))"
    by simp_all
  then show "hwaddr (get_sta i ad') = hwaddr (get_sta i ad)" "tid_rxseq (get_sta i ad') = tid_rxseq (get_sta i ad)"
    "aid (get_sta i ad') = aid (get_sta i ad)"
    by (simp_all add: sta_view_def)
qed

text \<open>Lookups find the same stations, as long as the hash lists hold only stations.\<close>

definition hash_ok :: "rx_adapter \<Rightarrow> bool" where
  "hash_ok ad \<longleftrightarrow> length (sta_hash (stapriv ad)) = NUM_STA \<and> (\<forall>is \<in> set (sta_hash (stapriv ad)). \<forall>i \<in> set is. i < nsta ad)"

lemma hash_bucket:
  assumes "hash_ok ad" and "i \<in> set (sta_hash (stapriv ad) ! unat (wifi_mac_hash a))"
  shows "i < nsta ad"
proof -
  have "sta_hash (stapriv ad) ! unat (wifi_mac_hash a) \<in> set (sta_hash (stapriv ad))"
    using assms(1) wifi_mac_hash_bound [of a] by (intro nth_mem) (simp add: hash_ok_def)
  then show ?thesis using assms by (auto simp: hash_ok_def)
qed

lemma lookup_bound:
  assumes "hash_ok ad" and "rtw_get_stainfo (stapriv ad) a = Some i"
  shows "i < nsta ad"
  using assms(2) hash_bucket [OF assms(1)]
  by (auto simp: rtw_get_stainfo_def Let_def find_Some_iff split: option.splits) (metis nth_mem)+

lemma find_cong_set: "(\<And>x. x \<in> set xs \<Longrightarrow> P x = Q x) \<Longrightarrow> find P xs = find Q xs"
  by (induction xs) auto

lemma tx_view_lookup:
  assumes "tx_view ad' = tx_view ad" and "hash_ok ad"
  shows "rtw_get_stainfo (stapriv ad') a = rtw_get_stainfo (stapriv ad) a" and "bcmc_station ad' = bcmc_station ad"
    and "hash_ok ad'"
proof -
  have h: "sta_hash (stapriv ad') = sta_hash (stapriv ad)" by (rule tx_view_fields(9) [OF assms(1)])
  have "hwaddr (stainfo_buf (stapriv ad') ! i) = hwaddr (stainfo_buf (stapriv ad) ! i)"
    if "i \<in> set (sta_hash (stapriv ad) ! unat (wifi_mac_hash b))" for i b
    using tx_view_sta(1) [OF assms(1) hash_bucket [OF assms(2) that]] by (simp add: get_sta_def)
  then show eq: "rtw_get_stainfo (stapriv ad') a = rtw_get_stainfo (stapriv ad) a" for a
    unfolding rtw_get_stainfo_def Let_def h
    by (cases a) (auto intro!: find_cong_set)
  show "bcmc_station ad' = bcmc_station ad"
    using eq by (simp add: bcmc_station_def rtw_get_bcmc_stainfo_def adapter.defs)
  show "hash_ok ad'" using assms(2) tx_view_fields(10) [OF assms(1)] by (simp add: hash_ok_def h)
qed

lemma tx_view_classifier: "tx_view (snd (rtw_xmit_classifier f ad)) = tx_view ad"
  by (auto simp: rtw_xmit_classifier_def Let_def split: option.splits intro!: tx_view_set_sta [THEN trans])

lemma tx_view_hal_enqueue [simp]: "tx_view (rtw_hal_xmitframe_enqueue f ad) = tx_view ad"
  using tx_view_classifier [of f ad]
  by (auto simp: rtw_hal_xmitframe_enqueue_def rtw_xmitframe_enqueue_def split: prod.splits status.splits)

lemma tx_view_fold: "(\<And>f ad. tx_view (step f ad) = tx_view ad) \<Longrightarrow> tx_view (fold step fs ad) = tx_view ad"
  by (induction fs arbitrary: ad) simp_all

lemma tx_view_release [simp]:
  "tx_view (release_frame i f ad) = tx_view ad" "tx_view (wake_frame i f ad) = tx_view ad"
  "tx_view (deliver_frame i f ad) = tx_view ad" "tx_view (to_sleep_q i f ad) = tx_view ad"
  by (simp_all add: release_frame_def wake_frame_def deliver_frame_def to_sleep_q_def Let_def tx_view_set_sta)

lemma tx_view_sleeping: "tx_view (snd (xmitframe_enqueue_for_sleeping_sta f ad)) = tx_view ad"
  by (auto simp: xmitframe_enqueue_for_sleeping_sta_def Let_def tx_view_set_sta split: option.splits)

lemma tx_view_one_to_sleep [simp]: "tx_view (dequeue_one_to_sleep i f ad) = tx_view ad"
  using tx_view_sleeping [of f ad]
  by (auto simp: dequeue_one_to_sleep_def Let_def tx_view_set_sta split: prod.splits bool.splits)

lemma tx_view_stop_category [simp]: "tx_view (stop_category i ac ad) = tx_view ad"
  by (simp add: stop_category_def dequeue_xmitframes_to_sleeping_queue_def tx_view_fold)

lemma tx_view_stop: "stop_sta_xmit i ad = Some ad' \<Longrightarrow> tx_view ad' = tx_view ad"
  by (auto simp: stop_sta_xmit_def Let_def tx_view_fold tx_view_set_sta split: option.splits)

lemma tx_view_awake [simp]: "tx_view (sta_awake i ad) = tx_view ad"
  by (simp add: sta_awake_def Let_def tx_view_set_sta)

lemma tx_view_wakeup [simp]: "tx_view (wakeup_sta_to_xmit i ad) = tx_view ad"
  by (simp add: wakeup_sta_to_xmit_def Let_def tx_view_fold split: option.splits)

lemma tx_view_delivery [simp]: "tx_view (xmit_delivery_enabled_frames i ad) = tx_view ad"
  by (simp add: xmit_delivery_enabled_frames_def tx_view_fold)

lemma tx_view_serve_pspoll [simp]: "tx_view (serve_pspoll i ad) = tx_view ad"
  by (simp add: serve_pspoll_def Let_def tx_view_set_sta split: list.splits)

section \<open>Waking up, triggers and polls\<close>

lemma sleeping_frames:
  assumes "tx_inv ad"
  shows "distinct (sleep_q (get_sta i ad)) \<or> \<not> i < nsta ad"
    and "i < nsta ad \<Longrightarrow> set (sleep_q (get_sta i ad)) \<subseteq> set (txq ad (Sleeping i))"
  using tx_invD(1) [OF assms, of "Sleeping i"] by (auto simp: txq.simps)

text \<open>
  A wake-up empties the sleeping queue of the station; its frames and, when nobody else sleeps, those
  of the broadcast station are on served queues again or back in the pool.
\<close>

lemma same_queues_update [simp]:
  "same_queues p (p\<lparr>sta_state := x\<rparr>)" "same_queues p (p\<lparr>expire_to := y, sta_state := x\<rparr>)"
  "same_queues p (p\<lparr>sleepq_ac_len := z\<rparr>)"
  by (simp_all add: same_queues_def)

lemma queues_like_set_sta_after: "queues_like ad ad' \<Longrightarrow> same_queues (get_sta i ad') p \<Longrightarrow> queues_like ad (set_sta i p ad')"
  using queues_like_trans queues_like_set_sta by blast

lemma sta_awake_like: "queues_like ad (sta_awake i ad)"
  by (auto simp: sta_awake_def Let_def intro!: queues_like_set_sta_after)

lemma wakeup_safe:
  assumes inv: "tx_inv ad" and h: "hash_ok ad" and i: "i < nsta ad"
  shows "tx_safe ad (wakeup_sta_to_xmit i ad) \<and> tx_serves ad (wakeup_sta_to_xmit i ad) \<and>
    txq (wakeup_sta_to_xmit i ad) (Sleeping i) = []"
proof -
  define ad1 where "ad1 = fold (wake_frame i) (sleep_q (get_sta i ad)) ad"
  have q: "txq ad (Sleeping i) = sleep_q (get_sta i ad)" by (rule txq_Sleeping [OF i])
  have d: "distinct (sleep_q (get_sta i ad))" using tx_invD(1) [OF inv, of "Sleeping i"] q by simp
  have r1: "tx_safe ad ad1" "tx_serves ad ad1" "\<forall>j. set (txq ad1 (Sleeping j)) = set (txq ad (Sleeping j)) - set (sleep_q (get_sta i ad))"
    using fold_releases [OF wake_frame_releases inv d, of i] q by (simp_all add: ad1_def)
  have e1: "txq ad1 (Sleeping i) = []" using r1(3) q by (metis Diff_cancel set_empty)
  show ?thesis
  proof (cases "bcmc_station ad")
    case None
    then have "wakeup_sta_to_xmit i ad = ad1" by (simp add: wakeup_sta_to_xmit_def Let_def ad1_def)
    then show ?thesis using r1 e1 by simp
  next
    case (Some b)
    then have b: "b < nsta ad" using lookup_bound [OF h] by (simp add: bcmc_station_def rtw_get_bcmc_stainfo_def adapter.defs)
    define nobody where "nobody = (sta_dz_bitmap (stapriv ad1) AND 0xfffe = 0)"
    define ad2 where "ad2 = (if nobody then fold (release_frame b) (sleep_q (get_sta b ad1)) ad1 else ad1)"
    define ad3 where "ad3 = (if nobody \<and> sleepq_len (get_sta b ad2) = 0
      then set_dz (clear_aid_bit 0) (set_tim (clear_aid_bit 0) ad2) else ad2)"
    define ad4 where "ad4 = (if sleepq_len (get_sta i ad3) = 0 then sta_awake i ad3 else ad3)"
    have res: "wakeup_sta_to_xmit i ad = ad4 \<or> wakeup_sta_to_xmit i ad = rx_event Update_beacon_tim ad4"
      unfolding wakeup_sta_to_xmit_def Let_def Some option.case ad1_def [symmetric] nobody_def [symmetric] ad2_def [symmetric]
          ad3_def [symmetric] ad4_def [symmetric] by (simp only: simp_thms split: if_split)
    have inv1: "tx_inv ad1" and n1: "b < nsta ad1" using r1(1) b by (simp_all add: tx_safe_def tx_keeps_def)
    have "tx_safe ad1 ad2 \<and> tx_serves ad1 ad2 \<and> (\<forall>j. set (txq ad2 (Sleeping j)) \<subseteq> set (txq ad1 (Sleeping j)))"
    proof (cases nobody)
      case True
      have qb: "txq ad1 (Sleeping b) = sleep_q (get_sta b ad1)" by (rule txq_Sleeping [OF n1])
      have db: "distinct (sleep_q (get_sta b ad1))" using tx_invD(1) [OF inv1, of "Sleeping b"] qb by simp
      show ?thesis using fold_releases [OF release_frame_releases inv1 db, of b] qb True by (auto simp: ad2_def)
    qed (simp add: ad2_def tx_safe_refl [OF inv1])
    then have r2: "tx_safe ad ad2" "tx_serves ad ad2" and e2: "txq ad2 (Sleeping i) = []"
      using tx_safe_trans [OF r1(1)] tx_serves_trans [OF r1(2)] e1 by (auto dest: spec [of _ i])
    have inv2: "tx_inv ad2" using r2(1) by (simp add: tx_safe_def)
    have "queues_like ad2 ad3" by (simp add: ad3_def)
    moreover have "queues_like ad3 ad4" by (simp add: ad4_def sta_awake_like)
    moreover have "queues_like ad4 (wakeup_sta_to_xmit i ad)" using res by auto
    ultimately have l: "queues_like ad2 (wakeup_sta_to_xmit i ad)" using queues_like_trans by blast
    show ?thesis
      using tx_safe_trans [OF r2(1) queues_like_safe(1) [OF l inv2]] tx_serves_trans [OF r2(2) queues_like_safe(2) [OF l inv2]]
        queues_like_txq [OF l] e2 by simp
  qed
qed

lemma delivery_safe:
  assumes inv: "tx_inv ad" and i: "i < nsta ad"
  shows "tx_safe ad (xmit_delivery_enabled_frames i ad) \<and> tx_serves ad (xmit_delivery_enabled_frames i ad)"
proof -
  have "distinct (sleep_q (get_sta i ad))" using tx_invD(1) [OF inv, of "Sleeping i"] txq_Sleeping [OF i] by simp
  then show ?thesis
    using fold_delivers [OF inv, of "sleep_q (get_sta i ad)" i] txq_Sleeping [OF i] by (simp add: xmit_delivery_enabled_frames_def)
qed

lemma pspoll_safe:
  assumes inv: "tx_inv ad" and i: "i < nsta ad"
  shows "tx_safe ad (serve_pspoll i ad) \<and> tx_serves ad (serve_pspoll i ad)"
proof (cases "sleep_q (get_sta i ad)")
  case Nil
  have "sleepq_len (get_sta i ad) = 0" using tx_invD(5) [OF inv] i Nil by (simp add: tx_counted_def txq_Sleeping)
  then have "queues_like ad (serve_pspoll i ad)" by (simp add: serve_pspoll_def Nil Let_def)
  then show ?thesis using queues_like_safe [OF _ inv] by simp
next
  case (Cons f fs)
  have "f \<in> set (txq ad (Sleeping i))" using Cons by (simp add: txq_Sleeping [OF i])
  from release_frame_releases [OF inv this] have r: "tx_safe ad (release_frame i f ad)" "tx_serves ad (release_frame i f ad)"
    by (simp_all add: releases_def)
  have inv1: "tx_inv (release_frame i f ad)" using r(1) by (simp add: tx_safe_def)
  have l: "queues_like (release_frame i f ad) (serve_pspoll i ad)" by (simp add: serve_pspoll_def Cons Let_def)
  show ?thesis
    using tx_safe_trans [OF r(1) queues_like_safe(1) [OF l inv1]] tx_serves_trans [OF r(2) queues_like_safe(2) [OF l inv1]] by simp
qed

section \<open>Taking a frame for the hardware\<close>

text \<open>The node of a station leaves the list of a category.\<close>

lemma hw_remove_result:
  fixes i :: nat
  assumes "tx_inv ad" and "ac < 4"
  defines "ad' \<equiv> set_xmit (hw_stations ac (removeAll i)) ad"
  shows "tx_safe ad ad' \<and> (\<forall>l. txq ad' l = txq ad l) \<and>
    (\<forall>k. set (hw_sta_queue (xmitpriv ad') ! k) = set (hw_sta_queue (xmitpriv ad) ! k) - (if k = ac then {i} else {}))"
proof -
  note iv = tx_invD [OF assms(1)]
  have tq: "txq ad' l = txq ad l" for l by (simp add: ad'_def)
  have hw: "set (hw_sta_queue (xmitpriv ad') ! k) = set (hw_sta_queue (xmitpriv ad) ! k) - (if k = ac then {i} else {})" for k
    using iv(7) assms(2) by (auto simp: ad'_def nth_list_update)
  have at: "xattr ad' g = xattr ad g" "xf_ext (xmitpriv ad') = xf_ext (xmitpriv ad)"
    "xf_alloced (xmitpriv ad') = xf_alloced (xmitpriv ad)" "nsta ad' = nsta ad"
    "hw_accnt (xmitpriv ad') = hw_accnt (xmitpriv ad)" "get_sta j ad' = get_sta j ad" for g j
    by (simp_all add: ad'_def hw_stations_def)
  have fits: "loc_fits l ad' g = loc_fits l ad g" for l g by (cases l) (simp_all add: at)
  have cnt: "tx_counted ad'"
    using iv(5) unfolding tx_counted_def tq at by (simp add: ad'_def hw_stations_def)
  have "tx_inv ad'"
  proof (rule tx_invI)
    show "distinct (hw_sta_queue (xmitpriv ad') ! k) \<and> set (hw_sta_queue (xmitpriv ad') ! k) \<subseteq> {..<nsta ad'}" if "k < 4" for k
      using iv(7) iv(8,9) [OF that] assms(2) by (cases "k = ac") (auto simp: ad'_def distinct_removeAll)
    show "length (hw_sta_queue (xmitpriv ad')) = 4" using iv(7) by (simp add: ad'_def)
  qed (use iv cnt in \<open>auto simp: tq at fits\<close>)
  then show ?thesis using tq hw by (simp add: tx_safe_def tx_keeps_def at all_frames_def)
qed

text \<open>The effect of \<^verbatim>\<open>dequeue_one_xmitframe\<close> on the queue of station \<open>i\<close> it finds.\<close>

definition take_one :: "nat \<Rightarrow> nat \<Rightarrow> rx_adapter \<Rightarrow> rx_adapter" where
  "take_one i ac ad =
     (let q = servq ac (get_sta i ad) in
      set_xmit (hw_count ac (- 1))
        (set_sta i (set_servq ac (q\<lparr>sta_pending := tl (sta_pending q), qcnt := qcnt q - 1\<rparr>) (get_sta i ad)) ad))"

definition take_head :: "nat \<Rightarrow> nat \<Rightarrow> rx_adapter \<Rightarrow> rx_adapter" where
  "take_head i ac ad =
     (if tl (sta_pending (servq ac (get_sta i ad))) = []
      then set_xmit (hw_stations ac (removeAll i)) (take_one i ac ad) else take_one i ac ad)"

lemma dequeue_stations_find:
  "dequeue_stations ac is ad =
     (case find (\<lambda>i. sta_pending (servq ac (get_sta i ad)) \<noteq> []) is of
        None \<Rightarrow> (None, ad)
      | Some i \<Rightarrow> (Some (hd (sta_pending (servq ac (get_sta i ad)))), take_head i ac ad))"
  by (induction "is") (auto simp: Let_def take_head_def take_one_def split: list.splits)

lemma inx_order_permutes:
  assumes "length cnt = 4"
  shows "set (inx_order ws cnt) = {0, 1, 2, 3}" and "length (inx_order ws cnt) = 4"
proof -
  have swap: "mset (snd (inx_swap (i, j) (c, inx))) = mset inx \<and> length (snd (inx_swap (i, j) (c, inx))) = length inx"
    if "i < length inx" "j < length inx" for i j c inx
    using that by (simp add: inx_swap_def mset_swap)
  have run: "mset (snd (fold inx_swap ijs (c, inx))) = mset inx \<and> length (snd (fold inx_swap ijs (c, inx))) = length inx"
    if "\<forall>(i, j) \<in> set ijs. i < length inx \<and> j < length inx" for ijs c inx
    using that
  proof (induction ijs arbitrary: c inx)
    case (Cons ij ijs)
    obtain i j where ij: "ij = (i, j)" by fastforce
    obtain c' inx' where s: "inx_swap (i, j) (c, inx) = (c', inx')" by fastforce
    then have "mset inx' = mset inx" "length inx' = length inx" using swap [of i inx j c] Cons.prems ij by simp_all
    then show ?case using Cons.IH [of inx' c'] Cons.prems by (simp add: ij s)
  qed simp
  let ?ps = "[(0, 1), (0, 2), (0, 3), (1, 2), (1, 3), (2, 3 :: nat)] :: (nat \<times> nat) list"
  have "mset (snd (fold inx_swap ?ps (cnt, [0, 1, 2, 3]))) = mset [0, 1, 2, 3]"
    "length (snd (fold inx_swap ?ps (cnt, [0, 1, 2, 3]))) = 4"
    using run [of ?ps "[0, 1, 2, 3]" cnt] by simp_all
  from this(1) have "set (snd (fold inx_swap ?ps (cnt, [0, 1, 2, 3]))) = {0, 1, 2, 3}"
    by (metis set_mset_mset list.set(1) list.set(2))
  then show "set (inx_order ws cnt) = {0, 1, 2, 3}" "length (inx_order ws cnt) = 4"
    using \<open>length (snd (fold inx_swap ?ps (cnt, [0, 1, 2, 3]))) = 4\<close> by (auto simp: inx_order_def simp del: fold_simps)
qed

lemma take_one_result:
  assumes inv: "tx_inv ad" and i: "i < nsta ad" and ac: "ac < 4" and q: "txq ad (Pending i ac) = f # fs"
  shows "tx_inv (take_one i ac ad) \<and>
    hw_sta_queue (xmitpriv (take_one i ac ad)) = hw_sta_queue (xmitpriv ad) \<and>
    (\<forall>l. txq (take_one i ac ad) l = (if l = Pending i ac then fs else txq ad l)) \<and>
    nsta (take_one i ac ad) = nsta ad \<and> (\<forall>g. xattr (take_one i ac ad) g = xattr ad g) \<and>
    tx_pool (xmitpriv (take_one i ac ad)) = tx_pool (xmitpriv ad)"
proof -
  note iv = tx_invD [OF inv]
  define ad' where "ad' = take_one i ac ad"
  define sq where "sq = servq ac (get_sta i ad)"
  have sq: "sta_pending sq = f # fs" using q i ac by (simp add: txq.simps sq_def)
  have n: "nsta ad' = nsta ad" "xattr ad' g = xattr ad g" "tx_pool (xmitpriv ad') = tx_pool (xmitpriv ad)" for g
    by (simp_all add: ad'_def take_one_def Let_def)
  then have n': "xf_alloced (xmitpriv ad') = xf_alloced (xmitpriv ad)" "xf_ext (xmitpriv ad') = xf_ext (xmitpriv ad)"
    by (simp_all add: tx_pool_def)
  have gs: "get_sta j ad' = (if j = i then set_servq ac (sq\<lparr>sta_pending := fs, qcnt := qcnt sq - 1\<rparr>) (get_sta i ad)
      else get_sta j ad)" for j
    using i sq by (simp add: ad'_def take_one_def Let_def get_sta_set_sta sq_def)
  have tq: "txq ad' l = (if l = Pending i ac then fs else txq ad l)" for l
    using n(3) i ac by (cases l) (auto simp: n gs txq.simps tx_pool_def)
  have hw: "hw_accnt (xmitpriv ad') = hw_accnt (hw_count ac (- 1) (xmitpriv ad))"
    "hw_sta_queue (xmitpriv ad') = hw_sta_queue (xmitpriv ad)"
    using sq by (simp_all add: ad'_def take_one_def Let_def sq_def)
  have fits: "loc_fits l ad' g = loc_fits l ad g" for l g by (cases l) (simp_all add: n n')
  have sub: "set (txq ad' l) \<subseteq> set (txq ad l)" for l using q by (auto simp: tq)
  have cnt: "tx_counted ad'"
    unfolding tx_counted_def n(1)
  proof (intro conjI allI impI)
    fix j assume j: "j < nsta ad"
    show "sleepq_len (get_sta j ad') = length (txq ad' (Sleeping j))"
      using iv(5) j by (simp add: tq gs tx_counted_def)
    show "qcnt (servq k (get_sta j ad')) = int (length (txq ad' (Pending j k)))" if k: "k < 4" for k
    proof (cases "j = i \<and> k = ac")
      case True
      then have "qcnt sq = int (length (f # fs))" using iv(5) j k q by (simp add: tx_counted_def sq_def)
      then show ?thesis using True ac by (simp add: tq gs)
    next
      case False
      then show ?thesis using iv(5) j k ac by (auto simp: tq gs tx_counted_def)
    qed
  next
    fix k :: nat assume k: "k < 4"
    have "(\<Sum>j<nsta ad. int (length (txq ad' (Pending j k)))) =
        (\<Sum>j<nsta ad. int (length (txq ad (Pending j k)))) + (if k = ac then - 1 else 0)"
      using sum_change [OF i, of "\<lambda>j. int (length (txq ad' (Pending j k)))" "\<lambda>j. int (length (txq ad (Pending j k)))"] q
      by (simp add: tq)
    then show "hw_accnt (xmitpriv ad') ! k = (\<Sum>j<nsta ad. int (length (txq ad' (Pending j k))))"
      using iv(5) k by (simp add: hw(1) hw_accnt_nth [OF iv(6) k] tx_counted_def del: hw_simps)
  qed (use iv(5) n(3) in \<open>simp_all add: tq tx_counted_def tx_pool_def\<close>)
  have "tx_inv ad'"
  proof (rule tx_invI)
    show "distinct (txq ad' l)" for l using iv(1) [of l] q iv(1) [of "Pending i ac"] by (simp add: tq)
    show "g \<in> set (txq ad' l) \<Longrightarrow> g < NR_XMITFRAME \<and> \<not> xf_alloced (xmitpriv ad') g \<and> loc_fits l ad' g" for l g
      using iv(2,3,10) [of g l] sub [of l] by (auto simp: n' fits)
    show "g \<in> set (txq ad' l) \<Longrightarrow> g \<in> set (txq ad' l') \<Longrightarrow> l = l'" for g l l'
      using iv(4) [of g l l'] sub [of l] sub [of l'] by blast
    show "length (hw_accnt (xmitpriv ad')) = 4" "length (hw_sta_queue (xmitpriv ad')) = 4"
      using iv(6,7) by (simp_all add: hw)
    show "distinct (hw_sta_queue (xmitpriv ad') ! k) \<and> set (hw_sta_queue (xmitpriv ad') ! k) \<subseteq> {..<nsta ad'}" if "k < 4" for k
      using iv(8,9) [OF that] by (auto simp: hw n)
  qed (rule cnt)
  then show ?thesis using tq n hw(2) by (simp add: ad'_def [symmetric])
qed

lemma take_head_result:
  assumes inv: "tx_inv ad" and i: "i < nsta ad" and ac: "ac < 4" and q: "txq ad (Pending i ac) = f # fs"
  shows "tx_inv (take_head i ac ad) \<and> tx_serves ad (take_head i ac ad) \<and>
    (\<forall>l. txq (take_head i ac ad) l = (if l = Pending i ac then fs else txq ad l)) \<and>
    nsta (take_head i ac ad) = nsta ad \<and> (\<forall>g. xattr (take_head i ac ad) g = xattr ad g) \<and>
    tx_pool (xmitpriv (take_head i ac ad)) = tx_pool (xmitpriv ad)"
proof -
  note r = take_one_result [OF assms]
  then have inv1: "tx_inv (take_one i ac ad)" by blast
  have fs: "tl (sta_pending (servq ac (get_sta i ad))) = fs" using q i ac by (simp add: txq.simps)
  show ?thesis
  proof (cases "fs = []")
    case False
    then show ?thesis using r q by (simp add: take_head_def fs tx_serves_def tx_served_def)
  next
    case True
    note h = hw_remove_result [OF inv1 ac, of i]
    have s: "tx_serves ad (set_xmit (hw_stations ac (removeAll i)) (take_one i ac ad))"
      unfolding tx_serves_def tx_served_def using h r True by auto
    show ?thesis using h r s True by (simp add: take_head_def fs tx_safe_def)
  qed
qed

lemma dequeue_categories_result:
  assumes inv: "tx_inv ad" and acs: "\<forall>ac \<in> set acs. ac < 4"
  shows "dequeue_categories acs ad = (None, ad) \<and>
      (\<forall>ac \<in> set acs. \<forall>i \<in> set (hw_sta_queue (xmitpriv ad) ! ac). txq ad (Pending i ac) = []) \<or>
    (\<exists>i ac f. i < nsta ad \<and> ac < 4 \<and> txq ad (Pending i ac) = f # tl (txq ad (Pending i ac)) \<and>
      dequeue_categories acs ad = (Some f, take_head i ac ad))"
  using acs
proof (induction acs)
  case (Cons ac acs)
  let ?is = "hw_sta_queue (xmitpriv ad) ! ac"
  show ?case
  proof (cases "find (\<lambda>i. sta_pending (servq ac (get_sta i ad)) \<noteq> []) ?is")
    case None
    then have "\<forall>i \<in> set ?is. txq ad (Pending i ac) = []" by (auto simp: find_None_iff txq.simps)
    moreover have "dequeue_categories (ac # acs) ad = dequeue_categories acs ad"
      by (simp add: dequeue_stations_find None)
    ultimately show ?thesis using Cons by auto
  next
    case (Some i)
    then have i: "i \<in> set ?is" "sta_pending (servq ac (get_sta i ad)) \<noteq> []"
      by (auto simp: find_Some_iff in_set_conv_nth)
    have "i < nsta ad" using tx_invD(9) [OF inv _ i(1)] Cons.prems by simp
    then have "txq ad (Pending i ac) = sta_pending (servq ac (get_sta i ad))" using Cons.prems by (simp add: txq.simps)
    then show ?thesis
      using i Cons.prems \<open>i < nsta ad\<close>
      by (intro disjI2 exI [of _ i] exI [of _ ac] exI [of _ "hd (sta_pending (servq ac (get_sta i ad)))"])
        (simp add: dequeue_stations_find Some)
  qed
qed simp

end
