(* ===== verification/Xmit_Power.thy ===== *)
theory Xmit_Power
  imports Xmit_Queue
begin

text \<open>
  Stations that fall asleep, and the transmit queues under any sequence of operations: the allocation
  of frames, the buffering for stations asleep, and the properties of the queues as a whole.
\<close>

section \<open>Allocating and freeing frames\<close>

definition zero_attrib :: tx_attrib where
  "zero_attrib = \<lparr>encrypt = 0, nr_frags = 0, hdrlen = 0, iv_len = 0, icv_len = 0, last_txcmdsz = 0,
     tx_psta = None, tx_ra = replicate 6 0, tx_ta = replicate 6 0, tx_priority = 0, tx_triggered = False,
     tx_mdata = False, tx_eosp = False, tx_qsel = 0,
     tx_pktlen = 0, tx_bswenc = False\<rparr>"

definition rtw_init_xmitframe :: "nat \<Rightarrow> xmit_priv \<Rightarrow> xmit_priv" where
  "rtw_init_xmitframe f xp = xp\<lparr>xf_attr := (xf_attr xp)(f := zero_attrib), xf_pkt := (xf_pkt xp)(f := None)\<rparr>"

definition rtw_alloc_xmitframe :: "xmit_priv \<Rightarrow> nat option \<times> xmit_priv" where
  "rtw_alloc_xmitframe xp =
     (case free_xmit_queue xp of
        [] \<Rightarrow> (None, xp)
      | f # fs \<Rightarrow> (Some f, rtw_init_xmitframe f
          (xp\<lparr>free_xmit_queue := fs, free_xmitframe_cnt := free_xmitframe_cnt xp - 1\<rparr>)))"

definition rtw_alloc_xmitframe_ext :: "xmit_priv \<Rightarrow> nat option \<times> xmit_priv" where
  "rtw_alloc_xmitframe_ext xp =
     (case free_xframe_ext_queue xp of
        [] \<Rightarrow> (None, xp)
      | f # fs \<Rightarrow> (Some f, rtw_init_xmitframe f
          (xp\<lparr>free_xframe_ext_queue := fs, free_xframe_ext_cnt := free_xframe_ext_cnt xp - 1\<rparr>)))"

definition alloc_frame :: "bool \<Rightarrow> rx_adapter \<Rightarrow> nat option \<times> rx_adapter" where
  "alloc_frame ext ad =
     (case (if ext then rtw_alloc_xmitframe_ext else rtw_alloc_xmitframe) (xmitpriv ad) of
        (f, xp) \<Rightarrow> (f, ad\<lparr>xmitpriv := xp\<rparr>))"

lemma alloc_frame_result:
  assumes inv: "tx_inv ad" and a: "alloc_frame ext ad = (Some f, ad')"
  shows "txq ad (Free ext) = f # txq ad' (Free ext) \<and> (\<forall>l. l \<noteq> Free ext \<longrightarrow> txq ad' l = txq ad l) \<and>
    tx_inv ad' \<and> tx_idle f ad' \<and> f < NR_XMITFRAME \<and> \<not> xf_alloced (xmitpriv ad') f \<and> nsta ad' = nsta ad \<and>
    tx_view ad' = tx_view ad \<and> xattr ad' f = zero_attrib \<and> tx_serves ad ad'"
proof -
  note iv = tx_invD [OF inv]
  obtain fs where fs: "txq ad (Free ext) = f # fs"
    and xp: "xmitpriv ad' = rtw_init_xmitframe f (if ext
        then (xmitpriv ad)\<lparr>free_xframe_ext_queue := fs, free_xframe_ext_cnt := free_xframe_ext_cnt (xmitpriv ad) - 1\<rparr>
        else (xmitpriv ad)\<lparr>free_xmit_queue := fs, free_xmitframe_cnt := free_xmitframe_cnt (xmitpriv ad) - 1\<rparr>)"
    and ad': "ad' = ad\<lparr>xmitpriv := xmitpriv ad'\<rparr>"
    using a by (cases ext) (auto simp: alloc_frame_def rtw_alloc_xmitframe_def rtw_alloc_xmitframe_ext_def txq.simps
        split: list.splits)
  have gs: "get_sta i ad' = get_sta i ad" "nsta ad' = nsta ad" for i
    by (subst ad', simp add: get_sta_def nsta_def)+
  have v: "tx_view ad' = tx_view ad" by (subst ad') (simp add: tx_view_def)
  have f: "f \<in> set (txq ad (Free ext))" by (simp add: fs)
  have ffs: "f \<notin> set fs" using iv(1) [of "Free ext"] fs by simp
  have tq: "txq ad' l = (if l = Free ext then fs else txq ad l)" for l
    by (cases l) (auto simp: txq.simps gs xp rtw_init_xmitframe_def)
  have hw: "hw_accnt (xmitpriv ad') = hw_accnt (xmitpriv ad)" "hw_sta_queue (xmitpriv ad') = hw_sta_queue (xmitpriv ad)"
    "xf_alloced (xmitpriv ad') = xf_alloced (xmitpriv ad)" "xf_ext (xmitpriv ad') = xf_ext (xmitpriv ad)"
    "xattr ad' g = (if g = f then zero_attrib else xattr ad g)" for g
    by (simp_all add: xp rtw_init_xmitframe_def xattr_def)
  have idle: "tx_idle f ad'" unfolding tx_idle_def
  proof
    fix l show "f \<notin> set (txq ad' l)" using iv(4) [OF f, of l] ffs by (auto simp: tq)
  qed
  have fits: "g \<in> set (txq ad' l) \<Longrightarrow> loc_fits l ad' g = loc_fits l ad g" for l g
    using idle by (cases l) (auto simp: hw tx_idle_def)
  have sub: "set (txq ad' l) \<subseteq> set (txq ad l)" for l by (auto simp: tq fs)
  have cnt: "tx_counted ad'"
    using iv(5) fs unfolding tx_counted_def gs hw tq
    by (cases ext) (auto simp: xp rtw_init_xmitframe_def)
  have "tx_inv ad'"
  proof (rule tx_invI)
    show "distinct (txq ad' l)" for l using iv(1) [of l] fs iv(1) [of "Free ext"] by (simp add: tq)
    show "g \<in> set (txq ad' l) \<Longrightarrow> g < NR_XMITFRAME \<and> \<not> xf_alloced (xmitpriv ad') g \<and> loc_fits l ad' g" for l g
      using iv(2,3,10) [of g l] sub [of l] by (auto simp: hw fits)
    show "g \<in> set (txq ad' l) \<Longrightarrow> g \<in> set (txq ad' l') \<Longrightarrow> l = l'" for g l l'
      using iv(4) [of g l l'] sub [of l] sub [of l'] by blast
  qed (use iv cnt in \<open>auto simp: hw gs\<close>)
  moreover have "tx_serves ad ad'" by (simp add: tx_serves_def tx_served_def tq hw)
  ultimately show ?thesis using tq fs idle iv(2,10) [OF f] v hw gs by auto
qed

text \<open>A frame the hardware has sent goes back to its free queue.\<close>

definition complete_frame :: "nat \<Rightarrow> rx_adapter \<Rightarrow> rx_adapter" where
  "complete_frame f = set_xmit (rtw_free_xmitframe f)"

lemma complete_frame_result:
  assumes inv: "tx_inv ad" and f: "tx_idle f ad" "f < NR_XMITFRAME" "\<not> xf_alloced (xmitpriv ad) f"
  shows "tx_inv (complete_frame f ad)" and "nsta (complete_frame f ad) = nsta ad"
    and "txq (complete_frame f ad) l = (if l = Free (xf_ext (xmitpriv ad) f) then txq ad l @ [f] else txq ad l)"
    and "tx_serves ad (complete_frame f ad)" and "tx_view (complete_frame f ad) = tx_view ad"
proof -
  have nf: "f \<notin> set (free_xmit_queue (xmitpriv ad))" "f \<notin> set (free_xframe_ext_queue (xmitpriv ad))"
    using f(1) [unfolded tx_idle_def, rule_format, of "Free False"] f(1) [unfolded tx_idle_def, rule_format, of "Free True"]
    by (simp_all add: txq.simps)
  note ff = free_xmitframe_fields [OF f(3) nf]
  note dr = drop_frame_result [OF inv f]
  have l: "queues_like (drop_frame f ad) (complete_frame f ad)"
    by (simp add: queues_like_def drop_frame_def complete_frame_def tx_pool_def ff xattr_def)
  show "tx_inv (complete_frame f ad)" using queues_like_safe(1) [OF l dr(1)] by (simp add: tx_safe_def)
  show "nsta (complete_frame f ad) = nsta ad" by (simp add: complete_frame_def)
  show "txq (complete_frame f ad) l = (if l = Free (xf_ext (xmitpriv ad) f) then txq ad l @ [f] else txq ad l)"
    using queues_like_txq [OF l] dr(4) by simp
  show "tx_serves ad (complete_frame f ad)"
    using queues_like_safe(2) [OF l dr(1)] dr(5) by (simp add: tx_serves_def)
  show "tx_view (complete_frame f ad) = tx_view ad" by (simp add: complete_frame_def)
qed


section \<open>Into a sleeping queue\<close>

text \<open>
  A frame of station \<open>i\<close> goes to its sleeping queue, from the pending queue of its access category
  or from outside; the counters follow.
\<close>

lemma length_removeAll_if: "distinct xs \<Longrightarrow> int (length (removeAll x xs)) = int (length xs) - of_bool (x \<in> set xs)"
  using length_removeAll_distinct [of xs x] by (cases xs) auto

lemma moved_inv:
  assumes inv: "tx_inv ad" and i: "i < nsta ad" and f: "f < NR_XMITFRAME" "\<not> xf_alloced (xmitpriv ad) f"
      "tx_psta (xattr ad f) = Some i"
    and out: "\<And>ext. f \<notin> set (txq ad (Free ext))" "\<And>j. f \<notin> set (txq ad (Sleeping j))"
    and n: "nsta ad' = nsta ad" "tx_pool (xmitpriv ad') = tx_pool (xmitpriv ad)"
      "hw_sta_queue (xmitpriv ad') = hw_sta_queue (xmitpriv ad)"
      "\<And>g. tx_psta (xattr ad' g) = tx_psta (xattr ad g)" "\<And>g. tx_priority (xattr ad' g) = tx_priority (xattr ad g)"
    and q: "\<And>j. j < nsta ad \<Longrightarrow> sleep_q (get_sta j ad') = removeAll f (sleep_q (get_sta j ad)) @ (if j = i then [f] else [])"
      "\<And>j. j < nsta ad \<Longrightarrow> sleepq_len (get_sta j ad') = (if j = i then (sleepq_len (get_sta j ad) + 1) mod 2 ^ 32 else sleepq_len (get_sta j ad))"
      "\<And>j ac. j < nsta ad \<Longrightarrow> ac < 4 \<Longrightarrow> sta_pending (servq ac (get_sta j ad')) = removeAll f (sta_pending (servq ac (get_sta j ad)))"
      "\<And>j ac. j < nsta ad \<Longrightarrow> ac < 4 \<Longrightarrow>
         qcnt (servq ac (get_sta j ad')) = qcnt (servq ac (get_sta j ad)) - of_bool (f \<in> set (txq ad (Pending j ac)))"
    and hw: "length (hw_accnt (xmitpriv ad')) = 4"
      "\<And>ac. ac < 4 \<Longrightarrow> hw_accnt (xmitpriv ad') ! ac = hw_accnt (xmitpriv ad) ! ac - of_bool (\<exists>j. f \<in> set (txq ad (Pending j ac)))"
  shows "tx_inv ad' \<and> tx_serves ad ad' \<and> tx_keeps ad ad' \<and> all_frames ad' = insert f (all_frames ad)"
proof -
  note iv = tx_invD [OF inv]
  have p: "xf_alloced (xmitpriv ad') = xf_alloced (xmitpriv ad)" "xf_ext (xmitpriv ad') = xf_ext (xmitpriv ad)"
    using n(2) by (simp_all add: tx_pool_def)
  have tq: "txq ad' l = removeAll f (txq ad l) @ (if l = Sleeping i then [f] else [])" for l
    using out n(2) q(1,3) i by (cases l) (auto simp: txq.simps n tx_pool_def)
  have fits: "loc_fits l ad' g = loc_fits l ad g" for l g by (cases l) (simp_all add: n p)
  have uniq: "f \<in> set (txq ad (Pending j ac)) \<Longrightarrow> f \<in> set (txq ad (Pending k ac')) \<Longrightarrow> j = k \<and> ac = ac'" for j k ac ac'
    using iv(4) by blast
  have sl: "txq ad' (Sleeping j) = txq ad (Sleeping j) @ (if j = i then [f] else [])" for j
    using out(2) [of j] by (simp add: tq)
  have cnt: "tx_counted ad'"
    unfolding tx_counted_def n(1)
  proof (intro conjI allI impI)
    fix j assume j: "j < nsta ad"
    have "length (txq ad (Sleeping i)) + 1 < 2 ^ 32" using txq_length [OF inv, of "Sleeping i"] by (simp add: NR_XMITFRAME_def)
    then show "sleepq_len (get_sta j ad') = length (txq ad' (Sleeping j))"
      using iv(5) j by (simp add: q sl tx_counted_def)
    show "qcnt (servq ac (get_sta j ad')) = int (length (txq ad' (Pending j ac)))" if "ac < 4" for ac
      using iv(5) j that length_removeAll_if [OF iv(1), of f "Pending j ac"] by (simp add: q(4) tq tx_counted_def)
  next
    fix ac :: nat assume ac: "ac < 4"
    have "(\<Sum>j<nsta ad. int (length (txq ad' (Pending j ac)))) =
        (\<Sum>j<nsta ad. int (length (txq ad (Pending j ac)))) - of_bool (\<exists>j. f \<in> set (txq ad (Pending j ac)))"
    proof (cases "\<exists>j. f \<in> set (txq ad (Pending j ac))")
      case True
      then obtain j where j: "f \<in> set (txq ad (Pending j ac))" by blast
      have "k \<noteq> j \<Longrightarrow> txq ad' (Pending k ac) = txq ad (Pending k ac)" for k
        using uniq [OF j, of k ac] by (simp add: tq) (metis removeAll_id)
      then show ?thesis
        using sum_change [OF txq_station(2) [OF j], of "\<lambda>j. int (length (txq ad' (Pending j ac)))" "\<lambda>j. int (length (txq ad (Pending j ac)))"]
          length_removeAll_if [OF iv(1), of f "Pending j ac"] j True by (simp add: tq)
    next
      case False
      then show ?thesis by (simp add: tq)
    qed
    then show "hw_accnt (xmitpriv ad') ! ac = (\<Sum>j<nsta ad. int (length (txq ad' (Pending j ac))))"
      using iv(5) ac by (simp add: hw(2) tx_counted_def)
  next
    show "free_xmitframe_cnt (xmitpriv ad') = of_nat (length (txq ad' (Free False)))"
      "free_xframe_ext_cnt (xmitpriv ad') = of_nat (length (txq ad' (Free True)))"
      using iv(5) n(2) out(1) by (simp_all add: tq tx_counted_def tx_pool_def)
  qed
  have "tx_inv ad'"
  proof (rule tx_invI)
    show "distinct (txq ad' l)" for l using iv(1) [of l] by (auto simp: tq distinct_removeAll)
    show "g \<in> set (txq ad' l) \<Longrightarrow> g < NR_XMITFRAME \<and> \<not> xf_alloced (xmitpriv ad') g \<and> loc_fits l ad' g" for l g
      using iv(2,3,10) [of g l] f by (auto simp: tq p fits split: if_splits)
    show "g \<in> set (txq ad' l) \<Longrightarrow> g \<in> set (txq ad' l') \<Longrightarrow> l = l'" for g l l'
      using iv(4) [of g l l'] by (auto simp: tq split: if_splits)
    show "distinct (hw_sta_queue (xmitpriv ad') ! ac) \<and> set (hw_sta_queue (xmitpriv ad') ! ac) \<subseteq> {..<nsta ad'}" if "ac < 4" for ac
      using iv(8,9) [OF that] by (auto simp: n)
  qed (use iv(7) cnt hw(1) n in simp_all)
  moreover have "tx_serves ad ad'" by (auto simp: tx_serves_def tx_served_def tq n)
  moreover have "all_frames ad' = insert f (all_frames ad)"
    unfolding all_frames_def by (auto simp: tq split: if_splits)
  ultimately show ?thesis by (simp add: tx_keeps_def n p)
qed

text \<open>What \<^verbatim>\<open>xmitframe_enqueue_for_sleeping_sta\<close> does to the queues.\<close>

lemma sleeping_cases:
  assumes st: "tx_psta (xattr ad f) = Some i"
  shows "(\<exists>ad'. xmitframe_enqueue_for_sleeping_sta f ad = (False, ad') \<and> queues_like ad ad' \<and>
       (\<forall>g. tx_triggered (xattr ad' g) = tx_triggered (xattr ad g) \<and> tx_ra (xattr ad' g) = tx_ra (xattr ad g))) \<or>
    (\<exists>ad'. xmitframe_enqueue_for_sleeping_sta f ad = (True, ad') \<and> queues_like (to_sleep_q i f ad) ad' \<and>
       \<not> tx_triggered (xattr ad f) \<and> (IS_MCAST (tx_ra (xattr ad f)) \<or> aid_bit (aid (get_sta i ad)) (sta_dz_bitmap (stapriv ad))) \<and>
       (\<forall>g. xattr ad' g = xattr ad g))"
proof -
  have x: "xattr (to_sleep_q i f ad) g = xattr ad g" for g by (simp add: to_sleep_q_def Let_def)
  show ?thesis
    unfolding xmitframe_enqueue_for_sleeping_sta_def Let_def tx_psta_station [OF st] option.case
    by (auto simp: x intro!: queues_like_set_xattr queues_like_set_sta_after)
qed


lemma to_sleep_q_fields:
  assumes i: "i < nsta ad" and j: "j < nsta ad"
  shows "get_sta j (to_sleep_q i f ad) = (if j = i then (tx_unlink f (get_sta j ad))\<lparr>
      sleep_q := removeAll f (sleep_q (get_sta j ad)) @ [f], sleepq_len := (sleepq_len (get_sta j ad) + 1) mod 2 ^ 32\<rparr>
    else tx_unlink f (get_sta j ad))"
  using assms by (simp add: to_sleep_q_def Let_def get_sta_set_sta get_sta_list_delete)

lemma to_sleep_q_xmit [simp]: "xmitpriv (to_sleep_q i f ad) = xmitpriv ad" "nsta (to_sleep_q i f ad) = nsta ad"
  by (simp_all add: to_sleep_q_def Let_def)

definition same_attrs :: "rx_adapter \<Rightarrow> rx_adapter \<Rightarrow> bool" where
  "same_attrs ad ad' \<longleftrightarrow> (\<forall>g. tx_triggered (xattr ad' g) = tx_triggered (xattr ad g) \<and> tx_ra (xattr ad' g) = tx_ra (xattr ad g))"

text \<open>Frames that are not taken for a sleeping station.\<close>

definition stays :: "nat \<Rightarrow> nat \<Rightarrow> rx_adapter \<Rightarrow> bool" where
  "stays i f ad \<longleftrightarrow> tx_triggered (xattr ad f) \<or> \<not> IS_MCAST (tx_ra (xattr ad f)) \<and> 16 \<le> aid (get_sta i ad)"

lemma aid_bit_16: "16 \<le> a \<Longrightarrow> \<not> aid_bit a m"
proof -
  assume "16 \<le> a"
  then have "(ucast (push_bit a 1 :: u32) :: u16) = 0"
    by (intro bit_word_eqI) (auto simp: bit_simps)
  then show ?thesis by (simp add: aid_bit_def)
qed

lemma one_to_sleep_result:
  assumes inv: "tx_inv ad" and f: "f \<in> set (txq ad (Pending i ac))"
  defines "ad' \<equiv> dequeue_one_to_sleep i f ad"
  shows "tx_safe ad ad' \<and> tx_serves ad ad' \<and> same_attrs ad ad' \<and>
    (\<forall>g l. g \<noteq> f \<longrightarrow> g \<in> set (txq ad l) \<longrightarrow> g \<in> set (txq ad' l)) \<and>
    (stays i f ad \<longrightarrow> f \<in> set (txq ad' (Pending i ac)))"
proof -
  note iv = tx_invD [OF inv]
  have i: "i < nsta ad" by (rule txq_station(2) [OF f])
  have ac: "ac < 4" using f by (auto simp: txq.simps split: if_splits)
  have st: "tx_psta (xattr ad f) = Some i" and pri: "rtw_get_sta_pending (tx_priority (xattr ad f)) = ac"
    using iv(3) [OF f] by simp_all
  consider (no) ad1 where "xmitframe_enqueue_for_sleeping_sta f ad = (False, ad1)" "queues_like ad ad1"
      "\<forall>g. tx_triggered (xattr ad1 g) = tx_triggered (xattr ad g) \<and> tx_ra (xattr ad1 g) = tx_ra (xattr ad g)"
    | (yes) ad1 where "xmitframe_enqueue_for_sleeping_sta f ad = (True, ad1)" "queues_like (to_sleep_q i f ad) ad1"
      "\<not> tx_triggered (xattr ad f)" "IS_MCAST (tx_ra (xattr ad f)) \<or> aid_bit (aid (get_sta i ad)) (sta_dz_bitmap (stapriv ad))"
      "\<forall>g. xattr ad1 g = xattr ad g"
    using sleeping_cases [OF st] by blast
  then show ?thesis
  proof cases
    case c: (no ad1)
    have "ad' = ad1" by (simp add: ad'_def dequeue_one_to_sleep_def c(1))
    then show ?thesis using queues_like_safe [OF c(2) inv] queues_like_txq [OF c(2)] c(3) f by (simp add: same_attrs_def)
  next
    case c: (yes ad1)
    define q where "q = servq ac (get_sta i ad1)"
    have ad': "ad' = set_xmit (hw_count ac (- 1)) (set_sta i (set_servq ac (q\<lparr>qcnt := qcnt q - 1\<rparr>) (get_sta i ad1)) ad1)"
      by (simp add: ad'_def dequeue_one_to_sleep_def c Let_def pri q_def)
    have n1: "nsta ad1 = nsta ad" "tx_pool (xmitpriv ad1) = tx_pool (xmitpriv ad)"
      "hw_sta_queue (xmitpriv ad1) = hw_sta_queue (xmitpriv ad)" "hw_accnt (xmitpriv ad1) = hw_accnt (xmitpriv ad)"
      using c(2) by (simp_all add: queues_like_def)
    have sq: "sleep_q (get_sta j ad1) = removeAll f (sleep_q (get_sta j ad)) @ (if j = i then [f] else [])"
      "sleepq_len (get_sta j ad1) = (if j = i then (sleepq_len (get_sta j ad) + 1) mod 2 ^ 32 else sleepq_len (get_sta j ad))"
      "k < 4 \<Longrightarrow> servq k (get_sta j ad1) = servq k (tx_unlink f (get_sta j ad))" if "j < nsta ad" for j k
      using c(2) that i by (auto simp: queues_like_def same_queues_def to_sleep_q_fields)
    have gs: "get_sta j ad' = (if j = i then set_servq ac (q\<lparr>qcnt := qcnt q - 1\<rparr>) (get_sta i ad1) else get_sta j ad1)" for j
      using i n1 by (simp add: ad' get_sta_set_sta)
    have fld: "sleep_q (get_sta j ad') = sleep_q (get_sta j ad1)" "sleepq_len (get_sta j ad') = sleepq_len (get_sta j ad1)" for j
      by (simp_all add: gs)
    have xd: "nsta ad' = nsta ad" "tx_pool (xmitpriv ad') = tx_pool (xmitpriv ad1)"
      "hw_sta_queue (xmitpriv ad') = hw_sta_queue (xmitpriv ad1)" "xattr ad' g = xattr ad1 g"
      "length (hw_accnt (xmitpriv ad')) = length (hw_accnt (xmitpriv ad1))" for g
      by (simp_all add: ad' n1)
    have only: "f \<in> set (txq ad (Pending j k)) \<longleftrightarrow> j = i \<and> k = ac" for j k using iv(4) [OF f, of "Pending j k"] f by blast
    have ex: "(\<exists>j. f \<in> set (txq ad (Pending j k))) \<longleftrightarrow> k = ac" for k using only by blast
    have m: "tx_inv ad' \<and> tx_serves ad ad' \<and> tx_keeps ad ad' \<and> all_frames ad' = insert f (all_frames ad)"
    proof (rule moved_inv [OF inv i iv(2) [OF f] iv(10) [OF f] st])
      show "f \<notin> set (txq ad (Free ext))" for ext using iv(4) [OF f, of "Free ext"] by blast
      show "f \<notin> set (txq ad (Sleeping j))" for j using iv(4) [OF f, of "Sleeping j"] by blast
      show "hw_accnt (xmitpriv ad') ! k = hw_accnt (xmitpriv ad) ! k - of_bool (\<exists>j. f \<in> set (txq ad (Pending j k)))" if "k < 4" for k
        unfolding ex using hw_accnt_nth [OF _ that, of "xmitpriv ad1" ac "- 1"] iv(6) n1 by (simp add: ad' del: hw_simps)
      show "qcnt (servq k (get_sta j ad')) = qcnt (servq k (get_sta j ad)) - of_bool (f \<in> set (txq ad (Pending j k)))"
        if "j < nsta ad" "k < 4" for j k
        unfolding only using that ac sq(3) by (simp add: gs q_def)
      show "sta_pending (servq k (get_sta j ad')) = removeAll f (sta_pending (servq k (get_sta j ad)))"
        if "j < nsta ad" "k < 4" for j k
        using that ac sq(3) by (simp add: gs q_def)
    qed (use n1 sq iv(6) c(5) in \<open>simp_all add: fld xd\<close>)
    have mv: "g \<in> set (txq ad' l)" if "g \<noteq> f" "g \<in> set (txq ad l)" for g l
    proof (cases l)
      case (Free ext) then show ?thesis using that n1(2) xd(2) by (cases ext) (simp_all add: txq.simps tx_pool_def)
    next
      case (Sleeping j)
      have j: "j < nsta ad" using that(2) unfolding Sleeping by (rule txq_station(1))
      have "txq ad' l = removeAll f (txq ad l) @ (if j = i then [f] else [])"
        unfolding Sleeping txq_Sleeping [OF j] txq_Sleeping [of j ad', unfolded xd(1), OF j] fld(1) sq(1) [OF j] by (rule refl)
      then show ?thesis using that by simp
    next
      case (Pending j k)
      have j: "j < nsta ad" "k < 4" using that Pending by (auto simp: txq.simps split: if_splits)
      have "sta_pending (servq k (get_sta j ad')) = sta_pending (servq k (get_sta j ad1))"
        using j ac by (cases "j = i"; cases "k = ac") (simp_all add: gs q_def)
      then have "sta_pending (servq k (get_sta j ad')) = removeAll f (sta_pending (servq k (get_sta j ad)))"
        using sq(3) [OF j] j by simp
      then have "txq ad' l = removeAll f (txq ad l)" using j xd(1) by (simp add: Pending txq.simps)
      then show ?thesis using that by simp
    qed
    have "\<not> stays i f ad" using c(3,4) aid_bit_16 by (auto simp: stays_def)
    moreover have "all_frames ad' = all_frames ad" using m f by (auto simp: all_frames_def)
    moreover have "same_attrs ad ad'" using c(5) by (simp add: same_attrs_def ad')
    ultimately show ?thesis using m mv by (simp add: tx_safe_def)
  qed
qed


section \<open>Falling asleep\<close>

lemma stays_view:
  "tx_view ad' = tx_view ad \<Longrightarrow> same_attrs ad ad' \<Longrightarrow> i < nsta ad \<Longrightarrow> stays i f ad' = stays i f ad"
  using tx_view_sta(3) [of ad' ad i] by (simp add: stays_def same_attrs_def)

lemma same_attrs_trans: "same_attrs a b \<Longrightarrow> same_attrs b c \<Longrightarrow> same_attrs a c"
  by (simp add: same_attrs_def)

lemma fold_to_sleep:
  assumes "tx_inv ad" and "distinct fs" and "set fs \<subseteq> set (txq ad (Pending i ac))"
  defines "ad' \<equiv> fold (dequeue_one_to_sleep i) fs ad"
  shows "tx_safe ad ad' \<and> tx_serves ad ad' \<and> same_attrs ad ad' \<and>
    (\<forall>g l. g \<notin> set fs \<longrightarrow> g \<in> set (txq ad l) \<longrightarrow> g \<in> set (txq ad' l)) \<and>
    (\<forall>g \<in> set fs. stays i g ad \<longrightarrow> g \<in> set (txq ad' (Pending i ac)))"
  using assms(1-3) unfolding ad'_def
proof (induction fs arbitrary: ad)
  case Nil
  then show ?case by (simp add: tx_safe_refl same_attrs_def)
next
  case (Cons f fs)
  have f: "f \<in> set (txq ad (Pending i ac))" using Cons.prems by simp
  define ad1 where "ad1 = dequeue_one_to_sleep i f ad"
  note r = one_to_sleep_result [OF Cons.prems(1) f, folded ad1_def]
  have r1: "tx_safe ad ad1" "tx_serves ad ad1" "same_attrs ad ad1"
    and keep: "\<And>g l. g \<noteq> f \<Longrightarrow> g \<in> set (txq ad l) \<Longrightarrow> g \<in> set (txq ad1 l)"
    and fs: "stays i f ad \<Longrightarrow> f \<in> set (txq ad1 (Pending i ac))"
    using r by blast+
  have v: "tx_view ad1 = tx_view ad" by (simp add: ad1_def)
  have sv: "stays i g ad1 = stays i g ad" for g by (rule stays_view [OF v r1(3) txq_station(2) [OF f]])
  have nf: "f \<notin> set fs" using Cons.prems by simp
  have "set fs \<subseteq> set (txq ad1 (Pending i ac))"
  proof
    fix x assume "x \<in> set fs"
    then show "x \<in> set (txq ad1 (Pending i ac))" using nf Cons.prems(3) by (intro keep) auto
  qed
  moreover have "tx_inv ad1" "distinct fs" using r1(1) Cons.prems by (simp_all add: tx_safe_def)
  ultimately have ih: "tx_safe ad1 (fold (dequeue_one_to_sleep i) fs ad1)" "tx_serves ad1 (fold (dequeue_one_to_sleep i) fs ad1)"
    "same_attrs ad1 (fold (dequeue_one_to_sleep i) fs ad1)"
    "\<forall>g l. g \<notin> set fs \<longrightarrow> g \<in> set (txq ad1 l) \<longrightarrow> g \<in> set (txq (fold (dequeue_one_to_sleep i) fs ad1) l)"
    "\<forall>g \<in> set fs. stays i g ad1 \<longrightarrow> g \<in> set (txq (fold (dequeue_one_to_sleep i) fs ad1) (Pending i ac))"
    using Cons.IH [of ad1] by blast+
  show ?case
  proof (simp only: fold_simps ad1_def [symmetric], intro conjI)
    show "tx_safe ad (fold (dequeue_one_to_sleep i) fs ad1)" by (rule tx_safe_trans [OF r1(1) ih(1)])
    show "tx_serves ad (fold (dequeue_one_to_sleep i) fs ad1)" by (rule tx_serves_trans [OF r1(2) ih(2)])
    show "same_attrs ad (fold (dequeue_one_to_sleep i) fs ad1)" by (rule same_attrs_trans [OF r1(3) ih(3)])
    show "\<forall>g l. g \<notin> set (f # fs) \<longrightarrow> g \<in> set (txq ad l) \<longrightarrow> g \<in> set (txq (fold (dequeue_one_to_sleep i) fs ad1) l)"
      using ih(4) keep by simp
    show "\<forall>g \<in> set (f # fs). stays i g ad \<longrightarrow> g \<in> set (txq (fold (dequeue_one_to_sleep i) fs ad1) (Pending i ac))"
      using ih(4,5) fs nf sv by simp
  qed
qed

text \<open>Moving frames to a sleeping queue leaves the lists of stations alone.\<close>

lemma sleeping_hw: "hw_sta_queue (xmitpriv (snd (xmitframe_enqueue_for_sleeping_sta f ad))) = hw_sta_queue (xmitpriv ad)"
  by (auto simp: xmitframe_enqueue_for_sleeping_sta_def Let_def split: option.splits)

lemma one_to_sleep_hw [simp]: "hw_sta_queue (xmitpriv (dequeue_one_to_sleep i f ad)) = hw_sta_queue (xmitpriv ad)"
  using sleeping_hw [of f ad] by (auto simp: dequeue_one_to_sleep_def Let_def split: prod.splits bool.splits)

lemma fold_hw_sta_queue: "hw_sta_queue (xmitpriv (fold (dequeue_one_to_sleep i) fs ad)) = hw_sta_queue (xmitpriv ad)"
  by (induction fs arbitrary: ad) simp_all

text \<open>One category: the frames are moved, and the node of the station leaves the list.\<close>

lemma stop_category_result:
  assumes inv: "tx_inv ad" and i: "i < nsta ad" and ac: "ac < 4"
  defines "ad' \<equiv> stop_category i ac ad"
  shows "tx_safe ad ad' \<and> same_attrs ad ad' \<and>
    (\<forall>g j k. stays i g ad \<longrightarrow> g \<in> set (txq ad (Pending j k)) \<longrightarrow> g \<in> set (txq ad' (Pending j k))) \<and>
    (\<forall>g j k. j \<noteq> i \<or> k \<noteq> ac \<longrightarrow> g \<in> set (txq ad (Pending j k)) \<longrightarrow> g \<in> set (txq ad' (Pending j k))) \<and>
    i \<notin> set (hw_sta_queue (xmitpriv ad') ! ac) \<and>
    (\<forall>k. set (hw_sta_queue (xmitpriv ad') ! k) \<subseteq> set (hw_sta_queue (xmitpriv ad) ! k))"
proof -
  let ?fs = "txq ad (Pending i ac)"
  define ad1 where "ad1 = fold (dequeue_one_to_sleep i) ?fs ad"
  have q: "?fs = sta_pending (servq ac (get_sta i ad))" using i ac by (simp add: txq.simps)
  have ad': "ad' = set_xmit (hw_stations ac (removeAll i)) ad1"
    by (simp add: ad'_def stop_category_def dequeue_xmitframes_to_sleeping_queue_def ad1_def q)
  note r = fold_to_sleep [OF inv tx_invD(1) [OF inv, of "Pending i ac"] subset_refl, folded ad1_def]
  have r1: "tx_safe ad ad1" "same_attrs ad ad1"
    and mv: "\<And>g l. g \<notin> set ?fs \<Longrightarrow> g \<in> set (txq ad l) \<Longrightarrow> g \<in> set (txq ad1 l)"
    and sty: "\<And>g. g \<in> set ?fs \<Longrightarrow> stays i g ad \<Longrightarrow> g \<in> set (txq ad1 (Pending i ac))"
    using r by blast+
  have inv1: "tx_inv ad1" using r1(1) by (simp add: tx_safe_def)
  note hr = hw_remove_result [OF inv1 ac, of i, folded ad']
  have hws: "hw_sta_queue (xmitpriv ad1) = hw_sta_queue (xmitpriv ad)"
    unfolding ad1_def by (rule fold_hw_sta_queue)
  have sa: "same_attrs ad1 ad'" by (simp add: same_attrs_def ad')
  have tq: "txq ad' l = txq ad1 l" and h: "set (hw_sta_queue (xmitpriv ad') ! k) =
      set (hw_sta_queue (xmitpriv ad) ! k) - (if k = ac then {i} else {})" for l k
    using hr hws by simp_all
  show ?thesis
  proof (intro conjI allI impI)
    show "tx_safe ad ad'" using hr tx_safe_trans [OF r1(1)] by blast
    show "same_attrs ad ad'" by (rule same_attrs_trans [OF r1(2) sa])
    fix g j k assume g: "g \<in> set (txq ad (Pending j k))"
    show "g \<in> set (txq ad' (Pending j k))" if "stays i g ad"
      using mv [OF _ g] sty [OF _ that] tx_invD(4) [OF inv g, of "Pending i ac"] by (cases "g \<in> set ?fs") (auto simp: tq)
    show "g \<in> set (txq ad' (Pending j k))" if "j \<noteq> i \<or> k \<noteq> ac"
      using mv [OF _ g] tx_invD(4) [OF inv g, of "Pending i ac"] that by (cases "g \<in> set ?fs") (auto simp: tq)
  qed (use h in auto)
qed

section \<open>Waking up\<close>

text \<open>
  Where a frame of a sleeping queue goes when it is released: behind those of its access category, or to
  its free queue when its station is no longer associated.
\<close>

definition linked :: "nat \<Rightarrow> rx_adapter \<Rightarrow> bool" where
  "linked i ad \<longleftrightarrow> sta_state (get_sta i ad) AND FW_LINKED \<noteq> 0"

definition tx_dest :: "nat \<Rightarrow> rx_adapter \<Rightarrow> nat \<Rightarrow> tx_loc" where
  "tx_dest i ad f = (if linked i ad then Pending i (rtw_get_sta_pending (tx_priority (xattr ad f)))
     else Free (xf_ext (xmitpriv ad) f))"

definition sends :: "nat \<Rightarrow> nat \<Rightarrow> rx_adapter \<Rightarrow> rx_adapter \<Rightarrow> bool" where
  "sends i f ad ad' \<longleftrightarrow> tx_dest i ad' = tx_dest i ad \<and>
     (\<forall>j < nsta ad. linked j ad' = linked j ad) \<and>
     (\<forall>l. (\<forall>j. l \<noteq> Sleeping j) \<longrightarrow> txq ad' l = txq ad l @ (if l = tx_dest i ad f then [f] else []))"

lemma hal_enqueue_dest:
  assumes inv: "tx_inv ad" and f: "tx_idle f ad" "f < NR_XMITFRAME" "\<not> xf_alloced (xmitpriv ad) f"
    and st: "tx_psta (xattr ad f) = Some i" "i < nsta ad"
  defines "ad' \<equiv> rtw_hal_xmitframe_enqueue f ad"
  shows "\<forall>l. txq ad' l = txq ad l @ (if l = tx_dest i ad f then [f] else [])"
    and "\<forall>j < nsta ad. sta_state (get_sta j ad') = sta_state (get_sta j ad)"
    and "xf_ext (xmitpriv ad') = xf_ext (xmitpriv ad)"
proof -
  note c = classifier_result [OF st]
  have s: "tx_station f ad = Some i" by (rule tx_psta_station [OF st(1)])
  have "(\<forall>l. txq ad' l = txq ad l @ (if l = tx_dest i ad f then [f] else [])) \<and>
    (\<forall>j < nsta ad. sta_state (get_sta j ad') = sta_state (get_sta j ad)) \<and> xf_ext (xmitpriv ad') = xf_ext (xmitpriv ad)"
  proof (cases "linked i ad")
    case False
    then have "ad' = drop_frame f ad"
      by (simp add: ad'_def rtw_hal_xmitframe_enqueue_def rtw_xmitframe_enqueue_def rtw_xmit_classifier_def s Let_def
          linked_def drop_frame_def)
    moreover have "xf_ext (xmitpriv (drop_frame f ad)) = xf_ext (xmitpriv ad)"
      by (auto simp: drop_frame_def rtw_free_xmitframe_def Let_def split: option.splits)
    ultimately show ?thesis
      using drop_frame_result [OF inv f] False by (simp add: tx_dest_def get_sta_def)
  next
    case True
    then obtain ad1 where ad1: "rtw_xmit_classifier f ad = (SUCCESS, ad1)"
      by (simp add: rtw_xmit_classifier_def s Let_def linked_def)
    then have ad': "ad' = ad1" by (simp add: ad'_def rtw_hal_xmitframe_enqueue_def rtw_xmitframe_enqueue_def)
    have "tx_pool (xmitpriv ad1) = tx_pool (xmitpriv ad)"
      "\<forall>l. txq ad1 l = (if l = Pending i (rtw_get_sta_pending (tx_priority (xattr ad f))) then txq ad l @ [f] else txq ad l)"
      using c ad1 by auto
    moreover have "\<forall>j < nsta ad. sta_state (get_sta j ad1) = sta_state (get_sta j ad)"
      using ad1 True st(2) by (auto simp: rtw_xmit_classifier_def s Let_def linked_def get_sta_set_sta set_servq_def)
    ultimately show ?thesis using True by (simp add: ad' tx_dest_def tx_pool_def)
  qed
  then show "\<forall>l. txq ad' l = txq ad l @ (if l = tx_dest i ad f then [f] else [])"
    "\<forall>j < nsta ad. sta_state (get_sta j ad') = sta_state (get_sta j ad)" "xf_ext (xmitpriv ad') = xf_ext (xmitpriv ad)"
    by blast+
qed

lemma release_sends:
  assumes inv: "tx_inv ad" and f: "f \<in> set (txq ad (Sleeping i))"
    and p: "sleep_q p = removeAll f (sleep_q (get_sta i ad))" "sleepq_len p = dec32 (sleepq_len (get_sta i ad))"
      "\<forall>ac < 4. servq ac p = servq ac (tx_unlink f (get_sta i ad))" "sta_state p = sta_state (get_sta i ad)"
    and a: "tx_psta a = tx_psta (xattr ad f)" "tx_priority a = tx_priority (xattr ad f)"
  shows "sends i f ad (rtw_hal_xmitframe_enqueue f (set_xattr f a (set_sta i p (list_delete f ad))))"
proof -
  define ad1 where "ad1 = set_xattr f a (set_sta i p (list_delete f ad))"
  define ad' where "ad' = rtw_hal_xmitframe_enqueue f ad1"
  note r = release_result [OF inv f p(1-3) a, folded ad1_def]
  have k: "tx_keeps ad ad1" and idle: "tx_idle f ad1" and inv1: "tx_inv ad1" and tq: "\<And>l. txq ad1 l = removeAll f (txq ad l)"
    using r by blast+
  have i: "i < nsta ad" using txq_station f by blast
  have st: "tx_psta (xattr ad1 f) = Some i" "i < nsta ad1"
    using tx_invD(3) [OF inv f] k i by (simp_all add: tx_keeps_def)
  have "f < NR_XMITFRAME" "\<not> xf_alloced (xmitpriv ad1) f"
    using tx_invD(2,10) [OF inv f] k by (simp_all add: tx_keeps_def)
  note h = hal_enqueue_dest [OF inv1 idle this st, folded ad'_def]
  have "tx_pool (xmitpriv ad1) = tx_pool (xmitpriv ad)" "nsta ad1 = nsta ad" by (simp_all add: ad1_def)
  then have e1: "xf_ext (xmitpriv ad1) = xf_ext (xmitpriv ad)" "nsta ad1 = nsta ad" by (simp_all add: tx_pool_def)
  have l1: "sta_state (get_sta j ad1) = sta_state (get_sta j ad)" if "j < nsta ad" for j
    using i that by (simp add: ad1_def get_sta_set_sta get_sta_list_delete p(4))
  have lk: "linked j ad' = linked j ad" "linked j ad1 = linked j ad" if "j < nsta ad" for j
    using h(2) l1 e1(2) that by (simp_all add: linked_def)
  have k': "tx_keeps ad1 ad'" using hal_enqueue_result [OF inv1 idle \<open>f < NR_XMITFRAME\<close> \<open>\<not> xf_alloced (xmitpriv ad1) f\<close> st]
    by (simp add: ad'_def)
  have d: "tx_dest i ad' = tx_dest i ad" "tx_dest i ad1 = tx_dest i ad"
    using lk [OF i] h(3) e1(1) tx_keeps_trans [OF k k'] k by (simp_all add: tx_dest_def fun_eq_iff tx_keeps_def)
  have "txq ad' l = txq ad l @ (if l = tx_dest i ad f then [f] else [])" if "\<forall>j. l \<noteq> Sleeping j" for l
    using h(1) removeAll_elsewhere [OF inv f, of l] that by (simp add: tq d(2))
  then show ?thesis using d(1) lk(1) by (simp add: sends_def ad'_def ad1_def)
qed

lemma wake_frame_sends:
  assumes "tx_inv ad" and "f \<in> set (txq ad (Sleeping i))"
  shows "sends i f ad (wake_frame i f ad)"
proof -
  have i: "i < nsta ad" using txq_station assms(2) by blast
  define p where "p = tx_unlink f (get_sta i ad)"
  have p: "get_sta i (list_delete f ad) = p" using i by (simp add: get_sta_list_delete p_def)
  show ?thesis
    unfolding wake_frame_def Let_def p
    by (rule release_sends [OF assms]) (auto simp: p_def)
qed

lemma release_frame_sends:
  assumes "tx_inv ad" and "f \<in> set (txq ad (Sleeping i))"
  shows "sends i f ad (release_frame i f ad)"
proof -
  have i: "i < nsta ad" using txq_station assms(2) by blast
  show ?thesis
    unfolding release_frame_def Let_def
    by (rule release_sends [OF assms]) (auto simp: get_sta_list_delete [OF i])
qed

lemma fold_sends:
  assumes "\<And>ad f. tx_inv ad \<Longrightarrow> f \<in> set (txq ad (Sleeping i)) \<Longrightarrow> releases i f ad (step f ad) \<and> sends i f ad (step f ad)"
    and "tx_inv ad" and "distinct fs" and "set fs \<subseteq> set (txq ad (Sleeping i))"
  shows "(\<forall>j < nsta ad. linked j (fold step fs ad) = linked j ad) \<and>
    (\<forall>l. (\<forall>j. l \<noteq> Sleeping j) \<longrightarrow> txq (fold step fs ad) l = txq ad l @ filter (\<lambda>f. tx_dest i ad f = l) fs)"
  using assms(2-4)
proof (induction fs arbitrary: ad)
  case (Cons f fs)
  have r: "releases i f ad (step f ad)" "sends i f ad (step f ad)" using assms(1) Cons.prems by simp_all
  have "tx_inv (step f ad)" "set fs \<subseteq> set (txq (step f ad) (Sleeping i))" "nsta (step f ad) = nsta ad"
    using r(1) Cons.prems by (auto simp: releases_def tx_safe_def tx_keeps_def)
  then show ?case using Cons.IH [of "step f ad"] Cons.prems(2) r(2) by (auto simp: sends_def)
qed simp

lemma wakeup_sends:
  assumes inv: "tx_inv ad" and h: "hash_ok ad" and i: "i < nsta ad"
  shows "linked i ad \<Longrightarrow> txq (wakeup_sta_to_xmit i ad) (Pending i ac) =
      txq ad (Pending i ac) @
      filter (\<lambda>f. rtw_get_sta_pending (tx_priority (xattr ad f)) = ac) (sleep_q (get_sta i ad))"
    and "\<not> linked i ad \<Longrightarrow> f \<in> set (sleep_q (get_sta i ad)) \<Longrightarrow>
      f \<in> set (txq (wakeup_sta_to_xmit i ad) (Free (xf_ext (xmitpriv ad) f)))"
proof -
  define ad1 where "ad1 = fold (wake_frame i) (sleep_q (get_sta i ad)) ad"
  have q: "txq ad (Sleeping i) = sleep_q (get_sta i ad)" by (rule txq_Sleeping [OF i])
  have d: "distinct (sleep_q (get_sta i ad))" using tx_invD(1) [OF inv, of "Sleeping i"] q by simp
  have s1: "\<And>l. (\<forall>j. l \<noteq> Sleeping j) \<Longrightarrow>
      txq ad1 l = txq ad l @ filter (\<lambda>f. tx_dest i ad f = l) (sleep_q (get_sta i ad))"
    using fold_sends [OF _ inv d, of i "wake_frame i"] wake_frame_releases wake_frame_sends q by (simp add: ad1_def)
  have r1: "tx_safe ad ad1" "\<forall>j. set (txq ad1 (Sleeping j)) = set (txq ad (Sleeping j)) - set (sleep_q (get_sta i ad))"
    using fold_releases [OF wake_frame_releases inv d, of i] q by (simp_all add: ad1_def)
  have e1: "txq ad1 (Sleeping i) = []" using r1(2) q by (metis Diff_cancel set_empty)
  have n1: "nsta ad1 = nsta ad" and inv1: "tx_inv ad1" using r1(1) by (simp_all add: tx_safe_def tx_keeps_def)
  have e1': "sleep_q (get_sta i ad1) = []" using e1 i n1 by (simp add: txq_Sleeping)
  have "\<exists>ad2. queues_like ad2 (wakeup_sta_to_xmit i ad) \<and> (\<forall>ac. txq ad2 (Pending i ac) = txq ad1 (Pending i ac)) \<and>
    (\<forall>ext. set (txq ad1 (Free ext)) \<subseteq> set (txq ad2 (Free ext)))"
  proof (cases "bcmc_station ad")
    case None
    then have "wakeup_sta_to_xmit i ad = ad1" by (simp add: wakeup_sta_to_xmit_def Let_def ad1_def)
    then show ?thesis by (intro exI [of _ ad1]) simp
  next
    case (Some b)
    then have b: "b < nsta ad1" using lookup_bound [OF h] n1 by (simp add: bcmc_station_def rtw_get_bcmc_stainfo_def adapter.defs)
    define nobody where "nobody = (sta_dz_bitmap (stapriv ad1) AND 0xfffe = 0)"
    define ad2 where "ad2 = (if nobody then fold (release_frame b) (sleep_q (get_sta b ad1)) ad1 else ad1)"
    define ad3 where "ad3 = (if nobody \<and> sleepq_len (get_sta b ad2) = 0
      then set_dz (clear_aid_bit 0) (set_tim (clear_aid_bit 0) ad2) else ad2)"
    define ad4 where "ad4 = (if sleepq_len (get_sta i ad3) = 0 then sta_awake i ad3 else ad3)"
    have res: "wakeup_sta_to_xmit i ad = ad4 \<or> wakeup_sta_to_xmit i ad = rx_event Update_beacon_tim ad4"
      unfolding wakeup_sta_to_xmit_def Let_def Some option.case ad1_def [symmetric] nobody_def [symmetric] ad2_def [symmetric]
          ad3_def [symmetric] ad4_def [symmetric] by (simp only: simp_thms split: if_split)
    have "queues_like ad2 ad3" by (simp add: ad3_def)
    moreover have "queues_like ad3 ad4" by (simp add: ad4_def sta_awake_like)
    moreover have "queues_like ad4 (wakeup_sta_to_xmit i ad)" using res by auto
    ultimately have l: "queues_like ad2 (wakeup_sta_to_xmit i ad)" using queues_like_trans by blast
    have qb: "txq ad1 (Sleeping b) = sleep_q (get_sta b ad1)" by (rule txq_Sleeping [OF b])
    have db: "distinct (sleep_q (get_sta b ad1))" using tx_invD(1) [OF inv1, of "Sleeping b"] qb by simp
    have s2: "txq ad2 l = txq ad1 l @ (if nobody then filter (\<lambda>f. tx_dest b ad1 f = l) (sleep_q (get_sta b ad1)) else [])"
      if "\<forall>j. l \<noteq> Sleeping j" for l
      using fold_sends [OF _ inv1 db, of b "release_frame b"] release_frame_releases release_frame_sends qb that
      by (simp add: ad2_def)
    have "txq ad2 (Pending i ac) = txq ad1 (Pending i ac)" for ac
      using s2 [of "Pending i ac"] e1' by (cases "b = i") (auto simp: tx_dest_def intro: filter_False)
    then show ?thesis using l s2 by (intro exI [of _ ad2]) simp
  qed
  then obtain ad2 where ad2: "queues_like ad2 (wakeup_sta_to_xmit i ad)" "\<And>ac. txq ad2 (Pending i ac) = txq ad1 (Pending i ac)"
    "\<And>ext. set (txq ad1 (Free ext)) \<subseteq> set (txq ad2 (Free ext))" by blast
  note tq = queues_like_txq [OF ad2(1)]
  show "linked i ad \<Longrightarrow> txq (wakeup_sta_to_xmit i ad) (Pending i ac) =
      txq ad (Pending i ac) @
      filter (\<lambda>f. rtw_get_sta_pending (tx_priority (xattr ad f)) = ac) (sleep_q (get_sta i ad))"
    by (simp add: tq ad2(2) s1 tx_dest_def)
  show "\<not> linked i ad \<Longrightarrow> f \<in> set (sleep_q (get_sta i ad)) \<Longrightarrow>
      f \<in> set (txq (wakeup_sta_to_xmit i ad) (Free (xf_ext (xmitpriv ad) f)))"
    using ad2(3) s1 by (auto simp: tq tx_dest_def)
qed

end
