(* ===== verification/Xmit_Path.thy ===== *)
theory Xmit_Path
  imports Xmit_Power Rx_Ethernet "HOL-Library.Sublist"
begin

text \<open>
  The two ways a data frame takes: \<^verbatim>\<open>rtw_xmit\<close>, called for a packet of the network
  stack, and \<^verbatim>\<open>rtl8192cu_xmitframe_complete\<close>, with which the transmit tasklet fills a USB
  buffer with an aggregate of waiting frames; and the queues under any sequence of their calls and of
  stations that fall asleep, wake up, trigger and poll.
\<close>

section \<open>A packet of the network stack\<close>

text \<open>
  What the parts outside the queues decide for a call of \<^verbatim>\<open>rtw_xmit\<close>: whether the bridge
  lets the packet through, the attributes \<^verbatim>\<open>update_attrib\<close> computes for it (none when it
  refuses the packet) and whether a transmit buffer is free.
\<close>

record xmit_env =
  br_ok :: bool
  new_attrib :: "tx_attrib option"
  new_pkt :: nat
  has_xmitbuf :: bool

definition FW_UNDER_LINKING :: u32 where "FW_UNDER_LINKING = 0x00000080"
definition FW_UNDER_SURVEY :: u32 where "FW_UNDER_SURVEY = 0x00000800"

datatype xmit_result = Xmit_fail | Xmit_enqueued | Xmit_hardware

definition rtw_txframes_sta_ac_pending :: "nat \<Rightarrow> rx_adapter \<Rightarrow> int" where
  "rtw_txframes_sta_ac_pending f ad =
     (case tx_station f ad of
        None \<Rightarrow> 0
      | Some i \<Rightarrow>
          if sta_state (get_sta i ad) AND FW_LINKED = 0 then 0
          else qcnt (servq (rtw_get_sta_pending (tx_priority (xattr ad f))) (get_sta i ad)))"

text \<open>
  A frame is sent at once, through a transmit buffer, or waits. Sent or not, it is free again when the
  call returns; the caller of a frame that was sent learns it from the result.
\<close>

definition pre_xmitframe :: "bool \<Rightarrow> nat \<Rightarrow> rx_adapter \<Rightarrow> bool \<times> rx_adapter" where
  "pre_xmitframe has_buf f ad =
     (if 0 < rtw_txframes_sta_ac_pending f ad \<or> check_fwstate ad (FW_UNDER_SURVEY OR FW_UNDER_LINKING) \<or> \<not> has_buf
      then case rtw_xmitframe_enqueue f ad of
          (SUCCESS, ad1) \<Rightarrow> (False, ad1)
        | (FAIL, ad1) \<Rightarrow> (True,
            set_xmit (\<lambda>xp. (rtw_free_xmitframe f xp)\<lparr>tx_pkts := tx_pkts xp - 1, tx_drop := tx_drop xp + 1\<rparr>) ad1)
      else (True, complete_frame f ad))"

definition do_queue_select :: "tx_attrib \<Rightarrow> tx_attrib" where
  "do_queue_select a = a\<lparr>tx_qsel := tx_priority a\<rparr>"

definition rtw_xmit :: "xmit_env \<Rightarrow> rx_adapter \<Rightarrow> xmit_result \<times> rx_adapter" where
  "rtw_xmit env ad =
     (case alloc_frame False ad of
        (None, ad1) \<Rightarrow> (Xmit_fail, ad1)
      | (Some f, ad1) \<Rightarrow>
          if \<not> br_ok env then (Xmit_fail, complete_frame f ad1)
          else case new_attrib env of
              None \<Rightarrow> (Xmit_fail, complete_frame f ad1)
            | Some a \<Rightarrow>
                let ad2 = set_xattr f (do_queue_select a)
                      (set_xmit (\<lambda>xp. xp\<lparr>xf_pkt := (xf_pkt xp)(f := Some (new_pkt env))\<rparr>) ad1)
                in case xmitframe_enqueue_for_sleeping_sta f ad2 of
                    (True, ad3) \<Rightarrow> (Xmit_enqueued, ad3)
                  | (False, ad3) \<Rightarrow>
                      (case pre_xmitframe (has_xmitbuf env) f ad3 of
                         (sent, ad4) \<Rightarrow> (if sent then Xmit_hardware else Xmit_enqueued, ad4)))"

section \<open>Aggregates\<close>

text \<open>
  The transmit buffer and the sizes in it. \<open>coal f\<close> tells whether \<^verbatim>\<open>rtw_xmitframe_coalesce\<close>
  can build frame \<open>f\<close>; \<open>bulk\<close> and \<open>desc_num\<close> are \<^verbatim>\<open>UsbBulkOutSize\<close> and
  \<^verbatim>\<open>UsbTxAggDescNum\<close> of the adapter.
\<close>

record agg_env =
  buf_ok :: bool
  wifi_spec :: bool
  acirp_cnt :: "int list"
  bulk :: nat
  desc_num :: nat
  coal :: "nat \<Rightarrow> bool"

definition MAX_XMITBUF_SZ :: nat where "MAX_XMITBUF_SZ = 20480"
definition MAX_TX_AGG_PACKET_NUMBER :: nat where "MAX_TX_AGG_PACKET_NUMBER = 255"
definition TXDESC_OFFSET :: nat where "TXDESC_OFFSET = TXDESC_SIZE + PACKET_OFFSET_SZ"

definition RND8 :: "nat \<Rightarrow> nat" where
  "RND8 sz = (sz div 8 + (if sz mod 8 \<noteq> 0 then 1 else 0)) * 8"

definition xmitframe_need_length :: "tx_attrib \<Rightarrow> nat" where
  "xmitframe_need_length a = hdrlen a + iv_len a + SNAP_SIZE + 2 + tx_pktlen a + (if tx_bswenc a then icv_len a else 0) +
     (if encrypt a = TKIP then 8 else 0)"

text \<open>\<open>pieces\<close> are the frames of the aggregate with the start and the end of their place in the buffer.\<close>

record agg =
  pbuf :: nat
  pbuf_tail :: nat
  descCount :: nat
  bulkPtr :: nat
  agg_num :: nat
  pieces :: "(nat \<times> nat \<times> nat) list"

text \<open>The first frame: those that cannot be built are dropped.\<close>

fun pick_first :: "nat \<Rightarrow> agg_env \<Rightarrow> rx_adapter \<Rightarrow> (nat option \<times> rx_adapter) option" where
  "pick_first 0 env ad = None"
| "pick_first (Suc n) env ad =
     (case rtw_dequeue_xframe (wifi_spec env) (acirp_cnt env) ad of
        (None, ad1) \<Rightarrow> Some (None, ad1)
      | (Some f, ad1) \<Rightarrow>
          if \<not> coal env f then pick_first n env (complete_frame f ad1)
          else Some (Some f, ad1))"

definition take_frame :: "nat \<Rightarrow> nat \<Rightarrow> nat \<Rightarrow> rx_adapter \<Rightarrow> rx_adapter" where
  "take_frame i ac f ad =
     (let ad1 = list_delete f ad; q = servq ac (get_sta i ad1) in
      set_xmit (hw_count ac (- 1)) (set_sta i (set_servq ac (q\<lparr>qcnt := qcnt q - 1\<rparr>) (get_sta i ad1)) ad1))"

definition os_complete :: "nat \<Rightarrow> xmit_priv \<Rightarrow> xmit_priv" where
  "os_complete f xp =
     (case xf_pkt xp f of
        None \<Rightarrow> xp
      | Some p \<Rightarrow> xp\<lparr>pkt_completed := pkt_completed xp @ [p], xf_pkt := (xf_pkt xp)(f := None)\<rparr>)"

definition next_bulk :: "nat \<Rightarrow> nat \<Rightarrow> nat" where
  "next_bulk sz p = (p div sz + 1) * sz"

fun agg_loop :: "agg_env \<Rightarrow> nat \<Rightarrow> nat \<Rightarrow> nat list \<Rightarrow> agg \<Rightarrow> rx_adapter \<Rightarrow> agg \<times> rx_adapter" where
  "agg_loop env i ac [] a ad = (a, ad)"
| "agg_loop env i ac (f # fs) a ad =
     (let len = xmitframe_need_length (xattr ad f) + TXDESC_SIZE in
      if MAX_XMITBUF_SZ < pbuf a + len then (a, ad)
      else
        let ad1 = take_frame i ac f ad in
        if \<not> coal env f then agg_loop env i ac fs a (complete_frame f ad1)
        else
          let ad2 = complete_frame f (set_xmit (os_complete f) ad1);
              a1 = a\<lparr>pbuf_tail := pbuf a + len, pbuf := RND8 (pbuf a + len), agg_num := agg_num a + 1,
                     pieces := pieces a @ [(f, pbuf a, pbuf a + len)]\<rparr>
          in if agg_num a1 = MAX_TX_AGG_PACKET_NUMBER then (a1, ad2)
             else if pbuf a1 < bulkPtr a1
             then (if descCount a1 + 1 = desc_num env then (a1\<lparr>descCount := descCount a1 + 1\<rparr>, ad2)
                   else agg_loop env i ac fs (a1\<lparr>descCount := descCount a1 + 1\<rparr>) ad2)
             else agg_loop env i ac fs (a1\<lparr>descCount := 0, bulkPtr := next_bulk (bulk env) (pbuf a1)\<rparr>) ad2)"

text \<open>
  The aggregate that is written, or none when no frame waits, and the number of bytes. \<open>None\<close> as
  a whole is a run that does not end or that reads the station of a frame that has none.
\<close>

definition rtl8192cu_xmitframe_complete ::
    "agg_env \<Rightarrow> rx_adapter \<Rightarrow> ((nat \<times> (nat \<times> nat \<times> nat) list) option \<times> rx_adapter) option" where
  "rtl8192cu_xmitframe_complete env ad =
     (if \<not> buf_ok env then Some (None, ad)
      else case pick_first (Suc NR_XMITFRAME) env ad of
          None \<Rightarrow> None
        | Some (None, ad1) \<Rightarrow> Some (None, ad1)
        | Some (Some f, ad1) \<Rightarrow>
            let ad2 = set_xmit (os_complete f) ad1; at = xattr ad2 f;
                len = xmitframe_need_length at + TXDESC_OFFSET; p = RND8 len;
                a = \<lparr>pbuf = p, pbuf_tail = len, descCount = (if p < bulk env then 1 else 0),
                     bulkPtr = (if p < bulk env then bulk env else next_bulk (bulk env) p), agg_num = 1,
                     pieces = [(f, 0, len)]\<rparr>
            in case tx_psta at of
                None \<Rightarrow> None
              | Some i \<Rightarrow>
                  let ac = rtw_get_sta_pending (tx_priority at) in
                  case agg_loop env i ac (sta_pending (servq ac (get_sta i ad2))) a ad2 of
                    (a1, ad3) \<Rightarrow>
                      let ad4 = (if sta_pending (servq ac (get_sta i ad3)) = []
                                 then set_xmit (hw_stations ac (removeAll i)) ad3 else ad3);
                          tail = (if pbuf_tail a1 mod bulk env = 0 then pbuf_tail a1 - PACKET_OFFSET_SZ
                                  else pbuf_tail a1)
                      in Some (Some (tail, pieces a1), complete_frame f ad4))"

section \<open>Frames that are on no queue\<close>

lemma tx_idle_iff: "tx_idle f ad \<longleftrightarrow> f \<notin> all_frames ad"
  by (auto simp: tx_idle_def all_frames_def)

lemma all_frames_insert:
  assumes "\<And>l. set (txq ad l) = (if l = lx then insert f (set (txq ad' l)) else set (txq ad' l))"
  shows "all_frames ad = insert f (all_frames ad')"
proof (intro set_eqI iffI)
  fix x assume "x \<in> insert f (all_frames ad')"
  then consider "x = f" | l where "x \<in> set (txq ad' l)" by (auto simp: all_frames_def)
  then show "x \<in> all_frames ad"
  proof cases
    case 1
    then show ?thesis using assms [of lx] by (auto simp: all_frames_def)
  next
    case (2 l)
    then have "x \<in> set (txq ad l)" using assms [of l] by (auto split: if_splits)
    then show ?thesis by (auto simp: all_frames_def)
  qed
qed (auto simp: all_frames_def assms split: if_splits)

text \<open>
  \<open>tx_takes f ad ad'\<close>: frame \<open>f\<close> has left the queues on the way from \<open>ad\<close> to
  \<open>ad'\<close>, and \<open>tx_holds f ad\<close> says that it can come back.
\<close>

definition tx_holds :: "nat \<Rightarrow> rx_adapter \<Rightarrow> bool" where
  "tx_holds f ad \<longleftrightarrow> tx_inv ad \<and> tx_idle f ad \<and> f < NR_XMITFRAME \<and> \<not> xf_alloced (xmitpriv ad) f"

definition tx_takes :: "nat \<Rightarrow> rx_adapter \<Rightarrow> rx_adapter \<Rightarrow> bool" where
  "tx_takes f ad ad' \<longleftrightarrow> tx_holds f ad' \<and> tx_keeps ad ad' \<and> tx_serves ad ad' \<and>
     all_frames ad = insert f (all_frames ad')"

lemma take_one_view [simp]: "tx_view (take_one i ac ad) = tx_view ad"
  by (simp add: take_one_def Let_def tx_view_set_sta)

lemma take_head_view [simp]: "tx_view (take_head i ac ad) = tx_view ad"
  by (simp add: take_head_def)

lemma taken_from_head:
  assumes inv: "tx_inv ad" and q: "txq ad (Pending i ac) = f # fs" and inv': "tx_inv ad'" and s: "tx_serves ad ad'"
    and r: "\<forall>l. txq ad' l = (if l = Pending i ac then fs else txq ad l)"
      "nsta ad' = nsta ad" "\<forall>g. xattr ad' g = xattr ad g" "tx_pool (xmitpriv ad') = tx_pool (xmitpriv ad)"
  shows "tx_takes f ad ad'"
proof -
  note iv = tx_invD [OF inv]
  have f: "f \<in> set (txq ad (Pending i ac))" by (simp add: q)
  have al: "xf_alloced (xmitpriv ad') = xf_alloced (xmitpriv ad)" using r(4) by (simp add: tx_pool_def)
  have "f \<notin> set (txq ad' l)" for l
  proof (cases "l = Pending i ac")
    case True
    then show ?thesis using iv(1) [of "Pending i ac"] q r(1) [rule_format, of l] by simp
  next
    case False
    then show ?thesis using iv(4) [OF f] r(1) [rule_format, of l] by auto
  qed
  moreover have "all_frames ad = insert f (all_frames ad')"
    using r(1) q by (intro all_frames_insert [where lx = "Pending i ac"]) (metis list.simps(15))
  ultimately show ?thesis
    using inv' s r(2,3) iv(2,10) [OF f] by (simp add: tx_takes_def tx_holds_def tx_idle_def tx_keeps_def al)
qed

lemma take_takes:
  assumes inv: "tx_inv ad" and i: "i < nsta ad" and ac: "ac < 4" and q: "txq ad (Pending i ac) = f # fs"
  shows "tx_takes f ad (take_one i ac ad)" and "tx_takes f ad (take_head i ac ad)"
proof -
  note r = take_one_result [OF assms]
  have "tx_serves ad (take_one i ac ad)" using r q by (simp add: tx_serves_def tx_served_def)
  then show "tx_takes f ad (take_one i ac ad)" using r by (intro taken_from_head [OF inv q]) simp_all
  show "tx_takes f ad (take_head i ac ad)"
    using take_head_result [OF assms] by (intro taken_from_head [OF inv q]) simp_all
qed

text \<open>A frame that was taken and is freed: nothing is lost.\<close>

lemma complete_held:
  assumes "tx_holds f ad"
  shows "tx_inv (complete_frame f ad)" "tx_keeps ad (complete_frame f ad)" "tx_serves ad (complete_frame f ad)"
    "all_frames (complete_frame f ad) = insert f (all_frames ad)"
    "txq (complete_frame f ad) (Pending j k) = txq ad (Pending j k)" "tx_view (complete_frame f ad) = tx_view ad"
    "xattr (complete_frame f ad) g = xattr ad g" "nsta (complete_frame f ad) = nsta ad"
proof -
  have h: "tx_inv ad" "tx_idle f ad" "f < NR_XMITFRAME" "\<not> xf_alloced (xmitpriv ad) f"
    using assms by (simp_all add: tx_holds_def)
  note c = complete_frame_result [OF h]
  have nf: "f \<notin> set (free_xmit_queue (xmitpriv ad))" "f \<notin> set (free_xframe_ext_queue (xmitpriv ad))"
    using h(2) [unfolded tx_idle_def, rule_format, of "Free False"] h(2) [unfolded tx_idle_def, rule_format, of "Free True"]
    by (simp_all add: txq.simps)
  note ff = free_xmitframe_fields [OF h(4) nf]
  show x: "xattr (complete_frame f ad) g = xattr ad g" for g by (simp add: complete_frame_def xattr_def ff)
  show "tx_inv (complete_frame f ad)" "tx_serves ad (complete_frame f ad)" "tx_view (complete_frame f ad) = tx_view ad"
    "nsta (complete_frame f ad) = nsta ad"
    using c by simp_all
  show "tx_keeps ad (complete_frame f ad)" using c x by (simp add: tx_keeps_def) (simp add: complete_frame_def ff)
  show "txq (complete_frame f ad) (Pending j k) = txq ad (Pending j k)" using c(3) by simp
  show "all_frames (complete_frame f ad) = insert f (all_frames ad)"
    unfolding all_frames_def c(3) by (auto split: if_splits)
qed

lemma take_complete:
  assumes "tx_takes f ad ad1"
  shows "tx_safe ad (complete_frame f ad1)" "tx_serves ad (complete_frame f ad1)"
proof -
  have t: "tx_holds f ad1" "tx_keeps ad ad1" "tx_serves ad ad1" "all_frames ad = insert f (all_frames ad1)"
    using assms by (simp_all add: tx_takes_def)
  note c = complete_held [OF t(1)]
  show "tx_safe ad (complete_frame f ad1)"
    unfolding tx_safe_def using c(1) tx_keeps_trans [OF t(2) c(2)] c(4) t(4) by simp
  show "tx_serves ad (complete_frame f ad1)" by (rule tx_serves_trans [OF t(3) c(3)])
qed

text \<open>Giving the packet of a frame back to the network stack changes no queue.\<close>

lemma os_complete_like: "queues_like ad (set_xmit (os_complete f) ad)"
  by (simp add: queues_like_def tx_pool_def os_complete_def xattr_def split: option.splits)

lemma os_complete_holds:
  assumes "tx_holds f ad"
  shows "tx_holds f (set_xmit (os_complete f) ad)"
  using assms queues_like_safe(1) [OF os_complete_like, of ad f] queues_like_txq [OF os_complete_like]
  by (simp add: tx_holds_def tx_safe_def tx_keeps_def tx_idle_def)

lemma os_complete_takes: "tx_takes f ad ad1 \<Longrightarrow> tx_takes f ad (set_xmit (os_complete f) ad1)"
  using os_complete_holds [of f ad1] queues_like_safe [OF os_complete_like, of ad1 f]
    tx_keeps_trans tx_serves_trans
  by (simp add: tx_takes_def tx_holds_def tx_safe_def) blast

section \<open>The aggregate\<close>

lemma take_frame_head:
  assumes inv: "tx_inv ad" and i: "i < nsta ad" and ac: "ac < 4" and q: "txq ad (Pending i ac) = f # fs"
  shows "take_frame i ac f ad = take_one i ac ad"
proof -
  note iv = tx_invD [OF inv]
  have f: "f \<in> set (txq ad (Pending i ac))" by (simp add: q)
  have nf: "f \<notin> set fs" using iv(1) [of "Pending i ac"] q by simp
  have p: "sta_pending (servq ac (get_sta i ad)) = f # fs" using q i ac by (simp add: txq.simps)
  have u: "tx_unlink f (get_sta j ad) =
      (if j = i then set_servq ac ((servq ac (get_sta i ad))\<lparr>sta_pending := fs\<rparr>) (get_sta i ad) else get_sta j ad)"
    if j: "j < nsta ad" for j
  proof -
    have s: "removeAll f (sleep_q (get_sta j ad)) = sleep_q (get_sta j ad)"
      using iv(4) [OF f, of "Sleeping j"] j by (intro removeAll_id) (auto simp: txq.simps)
    have o: "removeAll f (sta_pending (servq k (get_sta j ad))) =
        (if j = i \<and> k = ac then fs else sta_pending (servq k (get_sta j ad)))" if k: "k < 4" for k
    proof (cases "j = i \<and> k = ac")
      case True
      then show ?thesis using p nf by simp
    next
      case False
      then have "f \<notin> set (sta_pending (servq k (get_sta j ad)))"
        using iv(4) [OF f, of "Pending j k"] j k by (auto simp: txq.simps)
      then show ?thesis unfolding if_not_P [OF False] by (rule removeAll_id)
    qed
    have q4: "removeAll f (sta_pending (vo_q (get_sta j ad))) = (if j = i \<and> ac = 0 then fs else sta_pending (vo_q (get_sta j ad)))"
      "removeAll f (sta_pending (vi_q (get_sta j ad))) = (if j = i \<and> ac = 1 then fs else sta_pending (vi_q (get_sta j ad)))"
      "removeAll f (sta_pending (be_q (get_sta j ad))) = (if j = i \<and> ac = 2 then fs else sta_pending (be_q (get_sta j ad)))"
      "removeAll f (sta_pending (bk_q (get_sta j ad))) = (if j = i \<and> ac = 3 then fs else sta_pending (bk_q (get_sta j ad)))"
      using o [of 0] o [of 1] o [of 2] o [of 3] by (auto simp: servq_def)
    show ?thesis
      using ac unfolding tx_unlink_def s q4 by (auto simp: servq_def set_servq_def)
  qed
  have "list_delete f ad = set_sta i (set_servq ac ((servq ac (get_sta i ad))\<lparr>sta_pending := fs\<rparr>) (get_sta i ad)) ad"
  proof -
    have "map (tx_unlink f) (stainfo_buf (stapriv ad)) =
        (stainfo_buf (stapriv ad))[i := set_servq ac ((servq ac (get_sta i ad))\<lparr>sta_pending := fs\<rparr>) (get_sta i ad)]"
      using u i by (intro nth_equalityI) (auto simp: nsta_def get_sta_def nth_list_update)
    then show ?thesis by (simp add: list_delete_def set_sta_def)
  qed
  moreover have "set_servq ac q (set_servq ac q' p) = set_servq ac q p" for q q' p by (simp add: set_servq_def)
  ultimately show ?thesis
    using i ac p by (auto simp: take_frame_def take_one_def Let_def get_sta_set_sta set_sta_def get_sta_def nsta_def)
qed

lemma RND8_bounds: "n \<le> RND8 n" "RND8 n < n + 8" "8 dvd RND8 n"
proof -
  show "n \<le> RND8 n" "RND8 n < n + 8" unfolding RND8_def by presburger+
  show "8 dvd RND8 n" by (simp add: RND8_def)
qed

text \<open>
  How the frames lie in the buffer: one behind the other, on multiples of 8, and within its size.
\<close>

definition agg_ok :: "agg \<Rightarrow> bool" where
  "agg_ok a \<longleftrightarrow> sorted_wrt (\<lambda>x y. snd (snd x) \<le> fst (snd y)) (pieces a) \<and>
     (\<forall>(f, s, e) \<in> set (pieces a). 8 dvd s \<and> s < e \<and> e \<le> pbuf_tail a) \<and>
     pbuf_tail a \<le> pbuf a \<and> 8 dvd pbuf a \<and> pbuf_tail a \<le> MAX_XMITBUF_SZ \<and>
     length (pieces a) = agg_num a \<and> agg_num a \<le> MAX_TX_AGG_PACKET_NUMBER"

lemma agg_ok_more [simp]: "agg_ok (a\<lparr>descCount := d\<rparr>) = agg_ok a" "agg_ok (a\<lparr>descCount := d, bulkPtr := b\<rparr>) = agg_ok a"
  by (simp_all add: agg_ok_def)

lemma agg_ok_add:
  assumes "agg_ok a" and "agg_num a < MAX_TX_AGG_PACKET_NUMBER" and "pbuf a + len \<le> MAX_XMITBUF_SZ" and "0 < len"
  shows "agg_ok (a\<lparr>pbuf_tail := pbuf a + len, pbuf := RND8 (pbuf a + len), agg_num := agg_num a + 1,
    pieces := pieces a @ [(f, pbuf a, pbuf a + len)]\<rparr>)"
proof -
  have "\<forall>(f, s, e) \<in> set (pieces a). 8 dvd s \<and> s < e \<and> e \<le> pbuf a"
    using assms(1) by (fastforce simp: agg_ok_def)
  then show ?thesis
    using assms RND8_bounds [of "pbuf a + len"] by (fastforce simp: agg_ok_def sorted_wrt_append)
qed

lemma agg_loop_result:
  assumes "tx_inv ad" and "i < nsta ad" and "ac < 4" and "txq ad (Pending i ac) = fs"
    and "agg_num a < MAX_TX_AGG_PACKET_NUMBER"
    and "agg_loop env i ac fs a ad = (a', ad')"
  shows "tx_safe ad ad' \<and> tx_serves ad ad' \<and> tx_view ad' = tx_view ad \<and> (agg_ok a \<longrightarrow> agg_ok a') \<and>
    (\<exists>gs. pieces a' = pieces a @ gs \<and> subseq (map fst gs) fs)"
  using assms
proof (induction env i ac fs a ad rule: agg_loop.induct)
  case (1 env i ac a ad)
  then show ?case by (simp add: tx_safe_refl)
next
  case (2 env i ac f fs a ad)
  define len where "len = xmitframe_need_length (xattr ad f) + TXDESC_SIZE"
  define ad1 where "ad1 = take_frame i ac f ad"
  define a1 where "a1 = a\<lparr>pbuf_tail := pbuf a + len, pbuf := RND8 (pbuf a + len), agg_num := agg_num a + 1,
    pieces := pieces a @ [(f, pbuf a, pbuf a + len)]\<rparr>"
  have ad1: "ad1 = take_one i ac ad" unfolding ad1_def by (rule take_frame_head) fact+
  have t1: "tx_takes f ad ad1" unfolding ad1 by (rule take_takes) fact+
  have v1: "tx_view ad1 = tx_view ad" by (simp add: ad1)
  have q1: "txq ad1 (Pending i ac) = fs" using take_one_result [OF "2.prems"(1-4)] by (simp add: ad1)
  show ?case
  proof (cases "MAX_XMITBUF_SZ < pbuf a + len")
    case True
    then show ?thesis using "2.prems" by (simp add: len_def tx_safe_refl)
  next
    case fits: False
    show ?thesis
    proof (cases "\<not> coal env f")
      case True
      define ad2 where "ad2 = complete_frame f ad1"
      note c = take_complete [OF t1, folded ad2_def]
      have v2: "tx_view ad2 = tx_view ad" using complete_held(6) t1 v1 by (simp add: ad2_def tx_takes_def)
      have "txq ad2 (Pending i ac) = fs" using complete_held(5) t1 q1 by (simp add: ad2_def tx_takes_def)
      moreover have "agg_loop env i ac fs a ad2 = (a', ad')"
        using "2.prems"(6) fits True by (simp add: Let_def len_def ad2_def ad1_def)
      moreover have "tx_inv ad2" using c(1) by (simp add: tx_safe_def)
      moreover note ih = "2.IH"(1) [OF refl _ refl True, folded ad1_def, folded ad2_def, folded len_def]
      ultimately have "tx_safe ad2 ad' \<and> tx_serves ad2 ad' \<and> tx_view ad' = tx_view ad2 \<and> (agg_ok a \<longrightarrow> agg_ok a') \<and>
          (\<exists>gs. pieces a' = pieces a @ gs \<and> subseq (map fst gs) fs)"
        using fits "2.prems"(2,3,5) tx_view_fields(10) [OF v2] by (intro ih) simp_all
      then have ih: "tx_safe ad2 ad'" "tx_serves ad2 ad'" "tx_view ad' = tx_view ad2" "agg_ok a \<longrightarrow> agg_ok a'"
        "\<exists>gs. pieces a' = pieces a @ gs \<and> subseq (map fst gs) fs" by blast+
      show ?thesis
        using tx_safe_trans [OF c(1) ih(1)] tx_serves_trans [OF c(2) ih(2)] ih(3-5) v2 by auto
    next
      case False
      define ad2 where "ad2 = complete_frame f (set_xmit (os_complete f) ad1)"
      note t = os_complete_takes [OF t1]
      note c = take_complete [OF t, folded ad2_def]
      have h: "tx_holds f (set_xmit (os_complete f) ad1)" using t by (simp add: tx_takes_def)
      have v2: "tx_view ad2 = tx_view ad" using complete_held(6) [OF h] v1 by (simp add: ad2_def)
      have n2: "nsta ad2 = nsta ad" by (rule tx_view_fields(10) [OF v2])
      have inv2: "tx_inv ad2" using c(1) by (simp add: tx_safe_def)
      have q2: "txq ad2 (Pending i ac) = fs"
        using complete_held(5) [OF h] q1 queues_like_txq [OF os_complete_like] by (simp add: ad2_def)
      have ok1: "agg_ok a1" if "agg_ok a"
        unfolding a1_def using fits "2.prems"(5) by (intro agg_ok_add that) (simp_all add: len_def TXDESC_SIZE_def)
      have lt: "agg_num a1 \<noteq> MAX_TX_AGG_PACKET_NUMBER \<Longrightarrow> agg_num a1 < MAX_TX_AGG_PACKET_NUMBER"
        using "2.prems"(5) by (simp add: a1_def)
      have fin: ?thesis if r: "tx_safe ad2 ad'" "tx_serves ad2 ad'" "tx_view ad' = tx_view ad2" "agg_ok a1 \<longrightarrow> agg_ok a'"
        "\<exists>gs. pieces a' = pieces a1 @ gs \<and> subseq (map fst gs) fs"
      proof -
        have "\<exists>gs. pieces a' = pieces a @ gs \<and> subseq (map fst gs) (f # fs)" using r(5) by (auto simp: a1_def)
        then show ?thesis using tx_safe_trans [OF c(1) r(1)] tx_serves_trans [OF c(2) r(2)] r(3,4) ok1 v2 by simp
      qed
      have loop: "(if agg_num a1 = MAX_TX_AGG_PACKET_NUMBER then (a1, ad2)
          else if pbuf a1 < bulkPtr a1
          then (if descCount a1 + 1 = desc_num env then (a1\<lparr>descCount := descCount a1 + 1\<rparr>, ad2)
                else agg_loop env i ac fs (a1\<lparr>descCount := descCount a1 + 1\<rparr>) ad2)
          else agg_loop env i ac fs (a1\<lparr>descCount := 0, bulkPtr := next_bulk (bulk env) (pbuf a1)\<rparr>) ad2) = (a', ad')"
        using "2.prems"(6) [unfolded agg_loop.simps(2) Let_def, folded len_def, folded ad1_def, folded ad2_def, folded a1_def,
            unfolded if_not_P [OF fits] if_not_P [OF False]] .
      consider "agg_num a1 = MAX_TX_AGG_PACKET_NUMBER" "a' = a1" "ad' = ad2"
        | "agg_num a1 \<noteq> MAX_TX_AGG_PACKET_NUMBER" "pbuf a1 < bulkPtr a1" "descCount a1 + 1 = desc_num env"
          "a' = a1\<lparr>descCount := descCount a1 + 1\<rparr>" "ad' = ad2"
        | "agg_num a1 \<noteq> MAX_TX_AGG_PACKET_NUMBER" "pbuf a1 < bulkPtr a1" "descCount a1 + 1 \<noteq> desc_num env"
          "agg_loop env i ac fs (a1\<lparr>descCount := descCount a1 + 1\<rparr>) ad2 = (a', ad')"
        | "agg_num a1 \<noteq> MAX_TX_AGG_PACKET_NUMBER" "\<not> pbuf a1 < bulkPtr a1"
          "agg_loop env i ac fs (a1\<lparr>descCount := 0, bulkPtr := next_bulk (bulk env) (pbuf a1)\<rparr>) ad2 = (a', ad')"
        using loop by (auto split: if_splits)
      then show ?thesis
      proof cases
        case 1
        then show ?thesis using inv2 by (intro fin) (simp_all add: tx_safe_refl)
      next
        case 2
        then show ?thesis using inv2 by (intro fin) (simp_all add: tx_safe_refl)
      next
        case 3
        note ih = "2.IH"(2) [OF refl _ refl False refl refl, folded len_def, folded ad1_def, folded ad2_def, folded a1_def,
          OF fits _ _ _ inv2 _ "2.prems"(3) q2]
        show ?thesis using ih 3 lt n2 "2.prems"(2) by (intro fin) auto
      next
        case 4
        note ih = "2.IH"(3) [OF refl _ refl False refl refl, folded len_def, folded ad1_def, folded ad2_def, folded a1_def,
          OF fits _ _ inv2 _ "2.prems"(3) q2]
        show ?thesis using ih 4 lt n2 "2.prems"(2) by (intro fin) auto
      qed
    qed
  qed
qed

section \<open>The transmit tasklet\<close>

definition tx_waiting :: "rx_adapter \<Rightarrow> nat set" where
  "tx_waiting ad = {f. \<exists>i ac. f \<in> set (txq ad (Pending i ac))}"

lemma tx_waiting_finite: "tx_inv ad \<Longrightarrow> finite (tx_waiting ad) \<and> card (tx_waiting ad) \<le> NR_XMITFRAME"
proof -
  assume "tx_inv ad"
  then have "tx_waiting ad \<subseteq> {..<NR_XMITFRAME}" using tx_invD(2) by (auto simp: tx_waiting_def)
  then show ?thesis using card_mono [of "{..<NR_XMITFRAME}"] finite_subset [of _ "{..<NR_XMITFRAME}"] by auto
qed

lemma dequeue_takes:
  assumes inv: "tx_inv ad" and c: "length cnt = 4"
  shows "rtw_dequeue_xframe ws cnt ad = (None, ad) \<or>
    (\<exists>i ac f. rtw_dequeue_xframe ws cnt ad = (Some f, take_head i ac ad) \<and> i < nsta ad \<and> ac < 4 \<and>
       txq ad (Pending i ac) = f # tl (txq ad (Pending i ac)) \<and> tx_takes f ad (take_head i ac ad) \<and>
       tx_waiting (take_head i ac ad) = tx_waiting ad - {f} \<and> f \<in> tx_waiting ad)"
proof -
  have "\<forall>ac \<in> set (inx_order ws cnt). ac < 4" by (simp add: inx_order_permutes(1) [OF c])
  from dequeue_categories_result [OF inv this]
  consider "rtw_dequeue_xframe ws cnt ad = (None, ad)"
    | i ac f where "i < nsta ad" "ac < 4" "txq ad (Pending i ac) = f # tl (txq ad (Pending i ac))"
      "rtw_dequeue_xframe ws cnt ad = (Some f, take_head i ac ad)"
    unfolding rtw_dequeue_xframe_def by blast
  then show ?thesis
  proof cases
    case 1
    then show ?thesis by simp
  next
    case (2 i ac f)
    note tk = take_takes(2) [OF inv 2(1-3)] and r = take_head_result [OF inv 2(1-3)]
    note iv = tx_invD [OF inv]
    have f: "f \<in> set (txq ad (Pending i ac))" by (subst 2(3)) simp
    have "tx_idle f (take_head i ac ad)" using tk by (simp add: tx_takes_def tx_holds_def)
    then have nf: "f \<notin> set (txq (take_head i ac ad) l)" for l by (simp add: tx_idle_def)
    have q: "set (txq (take_head i ac ad) l) \<subseteq> set (txq ad l)" "set (txq ad l) \<subseteq> insert f (set (txq (take_head i ac ad) l))" for l
      using r 2(3) by (cases "l = Pending i ac"; metis list.simps(15) subset_insertI order_refl subset_insertI2)+
    have "tx_waiting (take_head i ac ad) \<subseteq> tx_waiting ad" "tx_waiting ad \<subseteq> insert f (tx_waiting (take_head i ac ad))"
      using q unfolding tx_waiting_def by blast+
    moreover have "f \<notin> tx_waiting (take_head i ac ad)" using nf by (simp add: tx_waiting_def)
    ultimately have "tx_waiting (take_head i ac ad) = tx_waiting ad - {f}" by blast
    moreover have "f \<in> tx_waiting ad" using f by (auto simp: tx_waiting_def)
    ultimately show ?thesis using 2 tk by blast
  qed
qed

definition picked :: "rx_adapter \<Rightarrow> nat option \<times> rx_adapter \<Rightarrow> bool" where
  "picked ad r \<longleftrightarrow> tx_view (snd r) = tx_view ad \<and> (\<forall>g. xattr (snd r) g = xattr ad g) \<and>
     (case r of
        (None, ad1) \<Rightarrow> tx_safe ad ad1 \<and> tx_serves ad ad1
      | (Some f, ad1) \<Rightarrow> tx_takes f ad ad1 \<and> f \<in> tx_waiting ad)"

lemma picked_after:
  assumes "picked ad2 r" and "tx_safe ad ad2" and "tx_serves ad ad2" and "tx_view ad2 = tx_view ad"
    and w: "tx_waiting ad2 \<subseteq> tx_waiting ad" and x: "\<forall>g. xattr ad2 g = xattr ad g"
  shows "picked ad r"
proof (cases r)
  case (Pair fo ad1)
  have all: "all_frames ad2 = all_frames ad" and k: "tx_keeps ad ad2" using assms(2) by (simp_all add: tx_safe_def)
  show ?thesis
  proof (cases fo)
    case None
    then have "tx_safe ad2 ad1" "tx_serves ad2 ad1" "tx_view ad1 = tx_view ad2" "\<forall>g. xattr ad1 g = xattr ad2 g"
      using assms(1) Pair by (simp_all add: picked_def)
    then show ?thesis
      using tx_safe_trans [OF assms(2)] tx_serves_trans [OF assms(3)] assms(4) x by (simp add: picked_def Pair None)
  next
    case (Some f)
    then have t: "tx_takes f ad2 ad1" "f \<in> tx_waiting ad2" "tx_view ad1 = tx_view ad2" "\<forall>g. xattr ad1 g = xattr ad2 g"
      using assms(1) Pair by (simp_all add: picked_def)
    then have "tx_takes f ad ad1"
      using tx_keeps_trans [OF k] tx_serves_trans [OF assms(3)] all by (simp add: tx_takes_def)
    then show ?thesis using t assms(4) w x by (auto simp: picked_def Pair Some)
  qed
qed

lemma pick_first_result:
  assumes "tx_inv ad" and "length (acirp_cnt env) = 4" and "card (tx_waiting ad) < n"
  shows "\<exists>r. pick_first n env ad = Some r \<and> picked ad r"
  using assms
proof (induction n arbitrary: ad)
  case (Suc n)
  from dequeue_takes [OF Suc.prems(1,2), of "wifi_spec env"]
  consider "rtw_dequeue_xframe (wifi_spec env) (acirp_cnt env) ad = (None, ad)"
    | i ac f where "rtw_dequeue_xframe (wifi_spec env) (acirp_cnt env) ad = (Some f, take_head i ac ad)"
      "tx_takes f ad (take_head i ac ad)" "tx_waiting (take_head i ac ad) = tx_waiting ad - {f}" "f \<in> tx_waiting ad"
    by blast
  then show ?case
  proof cases
    case 1
    then show ?thesis using Suc.prems by (simp add: picked_def tx_safe_refl)
  next
    case (2 i ac f)
    define ad1 where "ad1 = take_head i ac ad"
    note 2 = 2 [folded ad1_def]
    have v1: "tx_view ad1 = tx_view ad" by (simp add: ad1_def)
    have x1: "xattr ad1 g = xattr ad g" for g by (simp add: ad1_def take_head_def take_one_def Let_def)
    show ?thesis
    proof (cases "\<not> coal env f")
      case False
      then show ?thesis using 2 v1 x1 by (simp add: picked_def)
    next
      case True
      define ad2 where "ad2 = complete_frame f ad1"
      have h: "tx_holds f ad1" using 2(2) by (simp add: tx_takes_def)
      note c = take_complete [OF 2(2), folded ad2_def]
      have v2: "tx_view ad2 = tx_view ad" using complete_held(6) [OF h] v1 by (simp add: ad2_def)
      have w: "tx_waiting ad2 = tx_waiting ad - {f}" using 2(3) complete_held(5) [OF h] by (simp add: ad2_def tx_waiting_def)
      have "card (tx_waiting ad2) < n"
        using Suc.prems(3) 2(4) tx_waiting_finite [OF Suc.prems(1)] card_Diff1_less [of "tx_waiting ad" f] unfolding w by linarith
      then obtain r where r: "pick_first n env ad2 = Some r" "picked ad2 r"
        using Suc.IH [of ad2] c(1) Suc.prems(2) by (auto simp: tx_safe_def)
      have "picked ad r" using w x1 complete_held(7) [OF h] by (intro picked_after [OF r(2) c v2]) (auto simp: ad2_def)
      then show ?thesis using r(1) 2(1) True by (simp add: ad2_def)
    qed
  qed
qed simp

text \<open>
  A run of the tasklet ends, loses no frame and leaves every queue on its list; and the aggregate it
  writes lies in the buffer.
\<close>

definition agg_fits :: "nat \<Rightarrow> (nat \<times> nat \<times> nat) list \<Rightarrow> bool" where
  "agg_fits n ps \<longleftrightarrow> n \<le> MAX_XMITBUF_SZ \<and> length ps \<le> MAX_TX_AGG_PACKET_NUMBER \<and>
     sorted_wrt (\<lambda>x y. snd (snd x) \<le> fst (snd y)) ps \<and>
     (\<forall>(f, s, e) \<in> set ps. 8 dvd s \<and> s < e \<and> e \<le> MAX_XMITBUF_SZ)"

lemma xmitframe_complete_result:
  assumes inv: "tx_inv ad" and c: "length (acirp_cnt env) = 4"
  shows "\<exists>r ad'. rtl8192cu_xmitframe_complete env ad = Some (r, ad') \<and> tx_safe ad ad' \<and> tx_serves ad ad' \<and>
    tx_view ad' = tx_view ad \<and>
    (\<forall>n ps. r = Some (n, ps) \<longrightarrow>
       (\<forall>f \<in> tx_waiting ad. xmitframe_need_length (xattr ad f) + TXDESC_OFFSET \<le> MAX_XMITBUF_SZ) \<longrightarrow> agg_fits n ps)"
proof (cases "buf_ok env")
  case False
  then show ?thesis using inv by (simp add: rtl8192cu_xmitframe_complete_def tx_safe_refl)
next
  case True
  have "card (tx_waiting ad) < Suc NR_XMITFRAME" using tx_waiting_finite [OF inv] by simp
  from pick_first_result [OF inv c this] obtain fo ad1 where
    pf: "pick_first (Suc NR_XMITFRAME) env ad = Some (fo, ad1)" and pk: "picked ad (fo, ad1)"
    by auto
  show ?thesis
  proof (cases fo)
    case None
    then show ?thesis using True pf pk by (simp add: rtl8192cu_xmitframe_complete_def picked_def)
  next
    case (Some f)
    have v1: "tx_view ad1 = tx_view ad" and x1: "\<And>g. xattr ad1 g = xattr ad g" and t1: "tx_takes f ad ad1" and w: "f \<in> tx_waiting ad"
      using pk by (simp_all add: picked_def Some)
    obtain i ac where i: "f \<in> set (txq ad (Pending i ac))" using w by (auto simp: tx_waiting_def)
    have psta: "tx_psta (xattr ad f) = Some i" and n: "i < nsta ad" using tx_invD(3) [OF inv i] txq_station(2) [OF i] by simp_all
    define ad2 where "ad2 = set_xmit (os_complete f) ad1"
    have t2: "tx_takes f ad ad2" using os_complete_takes [OF t1] by (simp add: ad2_def)
    have v2: "tx_view ad2 = tx_view ad" by (simp add: ad2_def v1)
    have x2: "xattr ad2 g = xattr ad g" for g using x1 [of g] by (simp add: ad2_def os_complete_def xattr_def split: option.splits)
    define at where "at = xattr ad2 f"
    have st: "tx_psta at = Some i" using psta by (simp add: at_def x2)
    define k where "k = rtw_get_sta_pending (tx_priority at)"
    define len where "len = xmitframe_need_length at + TXDESC_OFFSET"
    define a where "a = \<lparr>pbuf = RND8 len, pbuf_tail = len, descCount = (if RND8 len < bulk env then 1 else 0),
       bulkPtr = (if RND8 len < bulk env then bulk env else next_bulk (bulk env) (RND8 len)), agg_num = 1,
       pieces = [(f, 0 :: nat, len)]\<rparr>"
    obtain a1 ad3 where lp: "agg_loop env i k (sta_pending (servq k (get_sta i ad2))) a ad2 = (a1, ad3)" by fastforce
    define ad4 where "ad4 = (if sta_pending (servq k (get_sta i ad3)) = [] then set_xmit (hw_stations k (removeAll i)) ad3 else ad3)"
    have n2: "nsta ad2 = nsta ad" by (rule tx_view_fields(10) [OF v2])
    have h2: "tx_holds f ad2" "tx_inv ad2" using t2 by (simp_all add: tx_takes_def tx_holds_def)
    have k: "k < 4" by (simp add: k_def)
    have q: "txq ad2 (Pending i k) = sta_pending (servq k (get_sta i ad2))" using n n2 k by (simp add: txq.simps)
    have "agg_num a < MAX_TX_AGG_PACKET_NUMBER" by (simp add: a_def MAX_TX_AGG_PACKET_NUMBER_def)
    from agg_loop_result [OF h2(2) _ k q this lp] n n2
    have r3: "tx_safe ad2 ad3" "tx_serves ad2 ad3" "tx_view ad3 = tx_view ad2" "agg_ok a \<longrightarrow> agg_ok a1" by simp_all
    have inv3: "tx_inv ad3" and n3: "nsta ad3 = nsta ad" using r3(1) n2 by (simp_all add: tx_safe_def tx_keeps_def)
    have q3: "txq ad3 (Pending i k) = sta_pending (servq k (get_sta i ad3))" using n n3 k by (simp add: txq.simps)
    have r4: "tx_safe ad3 ad4 \<and> tx_serves ad3 ad4 \<and> tx_view ad4 = tx_view ad3"
    proof (cases "sta_pending (servq k (get_sta i ad3)) = []")
      case True
      note hr = hw_remove_result [OF inv3 k, of i]
      then have "tx_serves ad3 (set_xmit (hw_stations k (removeAll i)) ad3)"
        using True q3 unfolding tx_serves_def tx_served_def by auto
      then show ?thesis using hr True by (simp add: ad4_def)
    qed (simp add: ad4_def tx_safe_refl inv3)
    have s4: "tx_safe ad2 ad4" "tx_serves ad2 ad4" using r4 tx_safe_trans [OF r3(1)] tx_serves_trans [OF r3(2)] by blast+
    have t4: "tx_takes f ad ad4"
      using t2 s4 tx_keeps_trans tx_serves_trans
      by (auto simp: tx_takes_def tx_holds_def tx_safe_def tx_idle_iff tx_keeps_def)
    have h4: "tx_holds f ad4" using t4 by (simp add: tx_takes_def)
    note c4 = take_complete [OF t4]
    have v4: "tx_view (complete_frame f ad4) = tx_view ad" using complete_held(6) [OF h4] r4 r3(3) v2 by simp
    define tail where "tail = (if pbuf_tail a1 mod bulk env = 0 then pbuf_tail a1 - PACKET_OFFSET_SZ else pbuf_tail a1)"
    have res: "rtl8192cu_xmitframe_complete env ad = Some (Some (tail, pieces a1), complete_frame f ad4)"
      unfolding rtl8192cu_xmitframe_complete_def pf Some option.case prod.case Let_def ad2_def [symmetric] at_def [symmetric]
        len_def [symmetric] k_def [symmetric] a_def [symmetric] st lp ad4_def [symmetric] tail_def [symmetric]
      using True by simp
    have "agg_fits tail (pieces a1)" if "\<forall>f \<in> tx_waiting ad. xmitframe_need_length (xattr ad f) + TXDESC_OFFSET \<le> MAX_XMITBUF_SZ"
    proof -
      have "len \<le> MAX_XMITBUF_SZ" "0 < len" using that w by (simp_all add: len_def at_def x2 TXDESC_OFFSET_def TXDESC_SIZE_def)
      then have "agg_ok a" using RND8_bounds [of len] by (simp add: agg_ok_def a_def MAX_TX_AGG_PACKET_NUMBER_def)
      then have "agg_ok a1" using r3(4) by simp
      then show ?thesis by (fastforce simp: agg_ok_def agg_fits_def tail_def)
    qed
    then show ?thesis using res c4 v4 by simp
  qed
qed

section \<open>A new frame\<close>

lemma set_xattr_holds:
  assumes "tx_holds f ad"
  shows "tx_holds f (set_xattr f a ad)" "txq (set_xattr f a ad) l = txq ad l" "tx_serves ad (set_xattr f a ad)"
    "all_frames (set_xattr f a ad) = all_frames ad"
proof -
  have h: "tx_inv ad" "tx_idle f ad" "f < NR_XMITFRAME" "\<not> xf_alloced (xmitpriv ad) f"
    using assms by (simp_all add: tx_holds_def)
  note iv = tx_invD [OF h(1)]
  have p: "tx_pool (xmitpriv (set_xattr f a ad)) = tx_pool (xmitpriv ad)"
    "hw_accnt (xmitpriv (set_xattr f a ad)) = hw_accnt (xmitpriv ad)"
    "hw_sta_queue (xmitpriv (set_xattr f a ad)) = hw_sta_queue (xmitpriv ad)"
    by (simp_all add: set_xattr_def tx_pool_def)
  then have al: "xf_alloced (xmitpriv (set_xattr f a ad)) = xf_alloced (xmitpriv ad)" "xf_ext (xmitpriv (set_xattr f a ad)) = xf_ext (xmitpriv ad)"
    "free_xmitframe_cnt (xmitpriv (set_xattr f a ad)) = free_xmitframe_cnt (xmitpriv ad)"
    "free_xframe_ext_cnt (xmitpriv (set_xattr f a ad)) = free_xframe_ext_cnt (xmitpriv ad)"
    by (simp_all add: tx_pool_def)
  show tq: "txq (set_xattr f a ad) l = txq ad l" for l using p(1) by (cases l) (simp_all add: txq.simps tx_pool_def)
  have x: "g \<noteq> f \<Longrightarrow> xattr (set_xattr f a ad) g = xattr ad g" for g by (simp add: xattr_def set_xattr_def)
  have fits: "g \<in> set (txq ad l) \<Longrightarrow> loc_fits l (set_xattr f a ad) g = loc_fits l ad g" for l g
    using h(2) x [of g] by (cases l) (auto simp: tx_idle_def al)
  have "tx_inv (set_xattr f a ad)"
  proof (rule tx_invI)
    show "tx_counted (set_xattr f a ad)" using iv(5) unfolding tx_counted_def tq p al by simp
  qed (use iv fits in \<open>auto simp: tq p al\<close>)
  then show "tx_holds f (set_xattr f a ad)" using h by (simp add: tx_holds_def tx_idle_def tq al)
  show "tx_serves ad (set_xattr f a ad)" by (simp add: tx_serves_def tx_served_def tq p)
  show "all_frames (set_xattr f a ad) = all_frames ad" by (simp add: all_frames_def tq)
qed

text \<open>What comes of a frame that was outside the queues: it is inside, and nothing else changes its place.\<close>

definition tx_enters :: "nat \<Rightarrow> rx_adapter \<Rightarrow> rx_adapter \<Rightarrow> bool" where
  "tx_enters f ad ad' \<longleftrightarrow> tx_inv ad' \<and> tx_serves ad ad' \<and> all_frames ad' = insert f (all_frames ad) \<and>
     tx_view ad' = tx_view ad"

lemma complete_enters: "tx_holds f ad \<Longrightarrow> tx_enters f ad (complete_frame f ad)"
  using complete_held [of f ad] by (simp add: tx_enters_def)

lemma hal_enqueue_enters:
  assumes "tx_holds f ad" and "tx_psta (xattr ad f) = Some i" and "i < nsta ad"
  shows "tx_enters f ad (rtw_hal_xmitframe_enqueue f ad)"
proof -
  have h: "tx_inv ad" "tx_idle f ad" "f < NR_XMITFRAME" "\<not> xf_alloced (xmitpriv ad) f"
    using assms(1) by (simp_all add: tx_holds_def)
  from hal_enqueue_result [OF h assms(2,3)] obtain l where r: "tx_inv (rtw_hal_xmitframe_enqueue f ad)"
    "\<forall>l'. txq (rtw_hal_xmitframe_enqueue f ad) l' = (if l' = l then txq ad l' @ [f] else txq ad l')"
    "\<forall>j ac. tx_served j ac ad \<longrightarrow> tx_served j ac (rtw_hal_xmitframe_enqueue f ad)"
    by blast
  have "all_frames (rtw_hal_xmitframe_enqueue f ad) = insert f (all_frames ad)"
    unfolding all_frames_def r(2) [rule_format] by (auto split: if_splits)
  then show ?thesis using r by (simp add: tx_enters_def tx_serves_def)
qed

lemma pre_xmitframe_enters:
  assumes "tx_holds f ad" and "tx_psta (xattr ad f) = Some i" and "i < nsta ad"
  shows "tx_enters f ad (snd (pre_xmitframe has_buf f ad))"
proof -
  have "snd (pre_xmitframe has_buf f ad) = complete_frame f ad \<or>
      snd (pre_xmitframe has_buf f ad) = rtw_hal_xmitframe_enqueue f ad"
    unfolding pre_xmitframe_def rtw_hal_xmitframe_enqueue_def by (auto split: prod.splits status.splits)
  then show ?thesis using complete_enters [OF assms(1)] hal_enqueue_enters [OF assms] by auto
qed

text \<open>A frame for a sleeping station goes to the sleeping queue at once.\<close>

lemma sleeping_enters:
  assumes h: "tx_holds f ad" and st: "tx_psta (xattr ad f) = Some i" and i: "i < nsta ad"
  shows "(\<exists>ad'. xmitframe_enqueue_for_sleeping_sta f ad = (True, ad') \<and> tx_enters f ad ad') \<or>
    (\<exists>ad'. xmitframe_enqueue_for_sleeping_sta f ad = (False, ad') \<and> tx_holds f ad' \<and>
       tx_psta (xattr ad' f) = Some i \<and> i < nsta ad' \<and> tx_serves ad ad' \<and> all_frames ad' = all_frames ad \<and>
       tx_view ad' = tx_view ad)"
proof -
  have hh: "tx_inv ad" "tx_idle f ad" "f < NR_XMITFRAME" "\<not> xf_alloced (xmitpriv ad) f"
    using h by (simp_all add: tx_holds_def)
  have v: "tx_view (snd (xmitframe_enqueue_for_sleeping_sta f ad)) = tx_view ad" by (rule tx_view_sleeping)
  consider (no) ad1 where "xmitframe_enqueue_for_sleeping_sta f ad = (False, ad1)" "queues_like ad ad1"
    | (yes) ad1 where "xmitframe_enqueue_for_sleeping_sta f ad = (True, ad1)" "queues_like (to_sleep_q i f ad) ad1"
      "\<forall>g. xattr ad1 g = xattr ad g"
    using sleeping_cases [OF st] by blast
  then show ?thesis
  proof cases
    case no
    note q = queues_like_safe [OF no(2) hh(1)] queues_like_txq [OF no(2)]
    have "tx_holds f ad1" using q h by (simp add: tx_holds_def tx_idle_def tx_safe_def tx_keeps_def)
    then show ?thesis using no q st i v by (simp add: tx_safe_def tx_keeps_def)
  next
    case yes
    have nf: "f \<notin> set (txq ad l)" for l using hh(2) by (simp add: tx_idle_def)
    have n1: "nsta ad1 = nsta ad" "tx_pool (xmitpriv ad1) = tx_pool (xmitpriv ad)"
      "hw_sta_queue (xmitpriv ad1) = hw_sta_queue (xmitpriv ad)" "hw_accnt (xmitpriv ad1) = hw_accnt (xmitpriv ad)"
      using yes(2) by (simp_all add: queues_like_def)
    have sq: "sleep_q (get_sta j ad1) = removeAll f (sleep_q (get_sta j ad)) @ (if j = i then [f] else [])"
      "sleepq_len (get_sta j ad1) = (if j = i then (sleepq_len (get_sta j ad) + 1) mod 2 ^ 32 else sleepq_len (get_sta j ad))"
      "k < 4 \<Longrightarrow> servq k (get_sta j ad1) = servq k (tx_unlink f (get_sta j ad))" if "j < nsta ad" for j k
      using yes(2) that i by (auto simp: queues_like_def same_queues_def to_sleep_q_fields)
    have "tx_inv ad1 \<and> tx_serves ad ad1 \<and> tx_keeps ad ad1 \<and> all_frames ad1 = insert f (all_frames ad)"
      by (rule moved_inv [OF hh(1) i hh(3,4) st nf nf]) (use nf n1 sq yes(3) tx_invD(6) [OF hh(1)] in simp_all)
    then show ?thesis using yes(1) v by (simp add: tx_enters_def)
  qed
qed

text \<open>The attributes that \<^verbatim>\<open>update_attrib\<close> computes name a station of the table.\<close>

definition xmit_env_ok :: "rx_adapter \<Rightarrow> xmit_env \<Rightarrow> bool" where
  "xmit_env_ok ad env \<longleftrightarrow>
     (case new_attrib env of None \<Rightarrow> True | Some a \<Rightarrow> (case tx_psta a of None \<Rightarrow> False | Some i \<Rightarrow> i < nsta ad))"

lemma rtw_xmit_result:
  assumes inv: "tx_inv ad" and e: "xmit_env_ok ad env"
  shows "tx_inv (snd (rtw_xmit env ad)) \<and> tx_serves ad (snd (rtw_xmit env ad)) \<and>
    all_frames (snd (rtw_xmit env ad)) = all_frames ad \<and> tx_view (snd (rtw_xmit env ad)) = tx_view ad"
proof (cases "alloc_frame False ad")
  case (Pair fo ad1)
  show ?thesis
  proof (cases fo)
    case None
    then have "ad1 = ad"
      using Pair by (auto simp: alloc_frame_def rtw_alloc_xmitframe_def split: list.splits)
    then show ?thesis using inv by (simp add: rtw_xmit_def Pair None)
  next
    case (Some f)
    note r = alloc_frame_result [OF inv Pair [unfolded Some]]
    have h1: "tx_holds f ad1" "tx_serves ad ad1" "tx_view ad1 = tx_view ad" "nsta ad1 = nsta ad" using r by (simp_all add: tx_holds_def)
    have all: "insert f (all_frames ad1) = all_frames ad"
    proof -
      have "set (txq ad l) = (if l = Free False then insert f (set (txq ad1 l)) else set (txq ad1 l))" for l using r by simp
      then show ?thesis by (rule all_frames_insert [symmetric])
    qed
    have fin: "tx_inv ad' \<and> tx_serves ad ad' \<and> all_frames ad' = all_frames ad \<and> tx_view ad' = tx_view ad"
      if "tx_enters f ad1 ad'" for ad'
      using that all h1 tx_serves_trans [OF h1(2)] by (simp add: tx_enters_def)
    show ?thesis
    proof (cases "br_ok env \<and> new_attrib env \<noteq> None")
      case False
      then have "snd (rtw_xmit env ad) = complete_frame f ad1" by (auto simp: rtw_xmit_def Pair Some)
      then show ?thesis using fin [OF complete_enters [OF h1(1)]] by simp
    next
      case True
      then obtain a i where a: "new_attrib env = Some a" "tx_psta a = Some i" "i < nsta ad"
        using e by (auto simp: xmit_env_ok_def split: option.splits)
      define adp where "adp = set_xmit (\<lambda>xp. xp\<lparr>xf_pkt := (xf_pkt xp)(f := Some (new_pkt env))\<rparr>) ad1"
      define ad2 where "ad2 = set_xattr f (do_queue_select a) adp"
      have lp: "queues_like ad1 adp" by (simp add: adp_def queues_like_def tx_pool_def xattr_def)
      have inv1: "tx_inv ad1" using h1(1) by (simp add: tx_holds_def)
      note qp = queues_like_safe [OF lp inv1] queues_like_txq [OF lp]
      have hp: "tx_holds f adp" using h1(1) qp by (simp add: tx_holds_def tx_idle_def tx_safe_def tx_keeps_def)
      note s2 = set_xattr_holds [OF hp, of "do_queue_select a", folded ad2_def]
      have v2: "tx_view ad2 = tx_view ad1" by (simp add: ad2_def adp_def)
      have st2: "tx_psta (xattr ad2 f) = Some i" using a(2) by (simp add: ad2_def xattr_def set_xattr_def do_queue_select_def)
      have n2: "i < nsta ad2" using a(3) tx_view_fields(10) [OF v2] h1(4) by simp
      have all2: "all_frames ad2 = all_frames ad1" and sv2: "tx_serves ad1 ad2"
        using s2(3,4) qp tx_serves_trans [OF qp(2) s2(3)] by (simp_all add: tx_safe_def)
      have up: "tx_enters f ad1 ad'" if "tx_enters f ad3 ad'" "tx_serves ad2 ad3" "all_frames ad3 = all_frames ad2" "tx_view ad3 = tx_view ad2" for ad3 ad'
        using that all2 v2 tx_serves_trans [OF sv2] tx_serves_trans [OF that(2)] by (simp add: tx_enters_def)
      have res: "snd (rtw_xmit env ad) = (case xmitframe_enqueue_for_sleeping_sta f ad2 of
          (True, ad3) \<Rightarrow> ad3 | (False, ad3) \<Rightarrow> snd (pre_xmitframe (has_xmitbuf env) f ad3))"
        using True a(1) by (auto simp: rtw_xmit_def Pair Some Let_def ad2_def adp_def split: prod.splits bool.splits)
      from sleeping_enters [OF s2(1) st2 n2] show ?thesis
      proof (elim disjE exE conjE)
        fix ad3 assume "xmitframe_enqueue_for_sleeping_sta f ad2 = (True, ad3)" "tx_enters f ad2 ad3"
        then show ?thesis using fin [OF up] res by simp
      next
        fix ad3 assume c: "xmitframe_enqueue_for_sleeping_sta f ad2 = (False, ad3)" "tx_holds f ad3"
          "tx_psta (xattr ad3 f) = Some i" "i < nsta ad3" "tx_serves ad2 ad3" "all_frames ad3 = all_frames ad2" "tx_view ad3 = tx_view ad2"
        show ?thesis using fin [OF up [OF pre_xmitframe_enters [OF c(2-4)] c(5-7)]] res c(1) by simp
      qed
    qed
  qed
qed

section \<open>Falling asleep\<close>

lemma fold_stop:
  assumes "tx_inv ad" and "i < nsta ad" and "\<forall>ac \<in> set acs. ac < 4"
  defines "ad' \<equiv> fold (stop_category i) acs ad"
  shows "tx_safe ad ad' \<and> same_attrs ad ad' \<and>
    (\<forall>g j k. stays i g ad \<longrightarrow> g \<in> set (txq ad (Pending j k)) \<longrightarrow> g \<in> set (txq ad' (Pending j k))) \<and>
    (\<forall>k \<in> set acs. i \<notin> set (hw_sta_queue (xmitpriv ad') ! k)) \<and>
    (\<forall>k. set (hw_sta_queue (xmitpriv ad') ! k) \<subseteq> set (hw_sta_queue (xmitpriv ad) ! k))"
  using assms(1-3) unfolding ad'_def
proof (induction acs arbitrary: ad)
  case Nil
  then show ?case by (simp add: tx_safe_refl same_attrs_def)
next
  case (Cons ac acs)
  define ad1 where "ad1 = stop_category i ac ad"
  have ac: "ac < 4" using Cons.prems by simp
  note r = stop_category_result [OF Cons.prems(1,2) ac, folded ad1_def]
  have r1: "tx_safe ad ad1" "same_attrs ad ad1" "i \<notin> set (hw_sta_queue (xmitpriv ad1) ! ac)"
    "\<And>k. set (hw_sta_queue (xmitpriv ad1) ! k) \<subseteq> set (hw_sta_queue (xmitpriv ad) ! k)"
    and st: "\<And>g j k. stays i g ad \<Longrightarrow> g \<in> set (txq ad (Pending j k)) \<Longrightarrow> g \<in> set (txq ad1 (Pending j k))"
    using r by blast+
  have v: "tx_view ad1 = tx_view ad" by (simp add: ad1_def)
  have n: "nsta ad1 = nsta ad" by (rule tx_view_fields(10) [OF v])
  have sv: "stays i g ad1 = stays i g ad" for g by (rule stays_view [OF v r1(2) Cons.prems(2)])
  have "tx_inv ad1" using r1(1) by (simp add: tx_safe_def)
  then have "tx_safe ad1 (fold (stop_category i) acs ad1) \<and> same_attrs ad1 (fold (stop_category i) acs ad1) \<and>
    (\<forall>g j k. stays i g ad1 \<longrightarrow> g \<in> set (txq ad1 (Pending j k)) \<longrightarrow> g \<in> set (txq (fold (stop_category i) acs ad1) (Pending j k))) \<and>
    (\<forall>k \<in> set acs. i \<notin> set (hw_sta_queue (xmitpriv (fold (stop_category i) acs ad1)) ! k)) \<and>
    (\<forall>k. set (hw_sta_queue (xmitpriv (fold (stop_category i) acs ad1)) ! k) \<subseteq> set (hw_sta_queue (xmitpriv ad1) ! k))"
    using Cons.IH [of ad1] Cons.prems n by simp
  then have ih: "tx_safe ad1 (fold (stop_category i) acs ad1)" "same_attrs ad1 (fold (stop_category i) acs ad1)"
    "\<And>g j k. stays i g ad1 \<Longrightarrow> g \<in> set (txq ad1 (Pending j k)) \<Longrightarrow> g \<in> set (txq (fold (stop_category i) acs ad1) (Pending j k))"
    "\<And>k. k \<in> set acs \<Longrightarrow> i \<notin> set (hw_sta_queue (xmitpriv (fold (stop_category i) acs ad1)) ! k)"
    "\<And>k. set (hw_sta_queue (xmitpriv (fold (stop_category i) acs ad1)) ! k) \<subseteq> set (hw_sta_queue (xmitpriv ad1) ! k)"
    by blast+
  show ?case
  proof (simp only: fold_simps ad1_def [symmetric], intro conjI allI ballI impI)
    show "tx_safe ad (fold (stop_category i) acs ad1)" by (rule tx_safe_trans [OF r1(1) ih(1)])
    show "same_attrs ad (fold (stop_category i) acs ad1)" by (rule same_attrs_trans [OF r1(2) ih(2)])
    show "i \<notin> set (hw_sta_queue (xmitpriv (fold (stop_category i) acs ad1)) ! k)" if "k \<in> set (ac # acs)" for k
      using that ih(4) [of k] ih(5) [of k] r1(3) by auto
    show "set (hw_sta_queue (xmitpriv (fold (stop_category i) acs ad1)) ! k) \<subseteq> set (hw_sta_queue (xmitpriv ad) ! k)" for k
      using ih(5) [of k] r1(4) [of k] by (rule subset_trans)
    show "g \<in> set (txq (fold (stop_category i) acs ad1) (Pending j k))"
      if "stays i g ad" "g \<in> set (txq ad (Pending j k))" for g j k
      using ih(3) sv st that by simp
  qed
qed

text \<open>
  A station that falls asleep: no frame is lost, the frames that the sleeping queue refuses stay where
  they are, and the station is on none of the lists.
\<close>

lemma stop_result:
  assumes inv: "tx_inv ad" and h: "hash_ok ad" and i: "i < nsta ad" and s: "stop_sta_xmit i ad = Some ad'"
  shows "tx_safe ad ad'"
    and "stays i g ad \<Longrightarrow> g \<in> set (txq ad (Pending i k)) \<Longrightarrow> g \<in> set (txq ad' (Pending i k))"
    and "k < 4 \<Longrightarrow> i \<notin> set (hw_sta_queue (xmitpriv ad') ! k)"
proof -
  define ad1 where "ad1 = set_dz (set_aid_bit (aid (get_sta i ad)))
      (set_sta i ((get_sta i ad)\<lparr>sta_state := sta_state (get_sta i ad) OR WIFI_SLEEP_STATE\<rparr>) ad)"
  define ad2 where "ad2 = fold (stop_category i) [0, 1, 2, 3] ad1"
  obtain b where b: "bcmc_station ad = Some b" and ad': "ad' = stop_category b 2 ad2"
    using s unfolding stop_sta_xmit_def Let_def ad1_def [symmetric] ad2_def [symmetric]
    by (auto split: option.splits)
  have ql: "queues_like ad ad1" by (simp add: ad1_def queues_like_set_sta)
  note q1 = queues_like_safe [OF ql inv] queues_like_txq [OF ql]
  have v1: "tx_view ad1 = tx_view ad" by (simp add: ad1_def tx_view_set_sta)
  have sa1: "same_attrs ad ad1" by (simp add: ad1_def same_attrs_def xattr_def)
  have n1: "nsta ad1 = nsta ad" by (rule tx_view_fields(10) [OF v1])
  have inv1: "tx_inv ad1" using q1(1) by (simp add: tx_safe_def)
  have i1: "i < nsta ad1" using i n1 by simp
  have "\<forall>ac \<in> set [0, 1, 2, 3 :: nat]. ac < 4" by simp
  note r2 = fold_stop [OF inv1 i1 this, folded ad2_def]
  then have s2: "tx_safe ad1 ad2" "same_attrs ad1 ad2" and h2: "\<And>k. k \<in> set [0, 1, 2, 3] \<Longrightarrow> i \<notin> set (hw_sta_queue (xmitpriv ad2) ! k)"
    and st2: "\<And>g j k. stays i g ad1 \<Longrightarrow> g \<in> set (txq ad1 (Pending j k)) \<Longrightarrow> g \<in> set (txq ad2 (Pending j k))"
    by blast+
  have v2: "tx_view ad2 = tx_view ad1" by (simp add: ad2_def tx_view_fold)
  have n2: "nsta ad2 = nsta ad1" by (rule tx_view_fields(10) [OF v2])
  have inv2: "tx_inv ad2" using s2(1) by (simp add: tx_safe_def)
  have b2: "b < nsta ad2" using lookup_bound [OF h] b n1 n2 by (simp add: bcmc_station_def rtw_get_bcmc_stainfo_def adapter.defs)
  have "(2 :: nat) < 4" by simp
  note r3 = stop_category_result [OF inv2 b2 this, folded ad']
  then have s3: "tx_safe ad2 ad'" and h3: "\<And>k. set (hw_sta_queue (xmitpriv ad') ! k) \<subseteq> set (hw_sta_queue (xmitpriv ad2) ! k)"
    and st3: "\<And>g j k. stays b g ad2 \<Longrightarrow> g \<in> set (txq ad2 (Pending j k)) \<Longrightarrow> g \<in> set (txq ad' (Pending j k))"
    and ot3: "\<And>g j k. j \<noteq> b \<or> k \<noteq> 2 \<Longrightarrow> g \<in> set (txq ad2 (Pending j k)) \<Longrightarrow> g \<in> set (txq ad' (Pending j k))"
    by blast+
  show "tx_safe ad ad'" by (rule tx_safe_trans [OF q1(1) tx_safe_trans [OF s2(1) s3]])
  show "i \<notin> set (hw_sta_queue (xmitpriv ad') ! k)" if "k < 4"
  proof -
    have "k \<in> set [0, 1, 2, 3]" using that by auto
    then show ?thesis using h2 h3 [of k] by blast
  qed
  show "g \<in> set (txq ad' (Pending i k))" if g: "stays i g ad" "g \<in> set (txq ad (Pending i k))"
  proof -
    have g1: "stays i g ad1" using g(1) stays_view [OF v1 sa1 i] by simp
    have g2: "g \<in> set (txq ad2 (Pending i k))" using st2 [OF g1] g(2) q1(3) by simp
    have "stays i g ad2" using g1 stays_view [OF v2 s2(2) i1] by simp
    then show ?thesis using st3 [of g i k] ot3 [of i k g] g2 by (cases "i = b") simp_all
  qed
qed

section \<open>The queues under any sequence of operations\<close>

text \<open>
  The operations on the transmit queues: packets of the network stack, runs of the transmit tasklet,
  and the power saving of the stations, which the receive path drives. Each holds
  \<^verbatim>\<open>xmitpriv.lock\<close> or a queue lock while it changes the queues; a step of the relation is
  one of them.
\<close>

inductive tx_step :: "rx_adapter \<Rightarrow> rx_adapter \<Rightarrow> bool" where
  Xmit: "xmit_env_ok ad env \<Longrightarrow> rtw_xmit env ad = (r, ad') \<Longrightarrow> tx_step ad ad'"
| Tasklet: "length (acirp_cnt env) = 4 \<Longrightarrow> rtl8192cu_xmitframe_complete env ad = Some (r, ad') \<Longrightarrow> tx_step ad ad'"
| Sleep: "i < nsta ad \<Longrightarrow> stop_sta_xmit i ad = Some ad' \<Longrightarrow> tx_step ad ad'"
| Wake: "i < nsta ad \<Longrightarrow> tx_step ad (wakeup_sta_to_xmit i ad)"
| Trigger: "i < nsta ad \<Longrightarrow> tx_step ad (xmit_delivery_enabled_frames i ad)"
| Poll: "i < nsta ad \<Longrightarrow> tx_step ad (serve_pspoll i ad)"

lemma tx_step_safe:
  assumes "tx_step ad ad'" and "tx_inv ad" and "hash_ok ad"
  shows "tx_inv ad'" and "all_frames ad' = all_frames ad" and "tx_view ad' = tx_view ad"
  using assms
proof (induction rule: tx_step.induct)
  case (Xmit ad env r ad')
  { case 1 then show ?case using rtw_xmit_result Xmit by (metis snd_conv) }
  { case 2 then show ?case using rtw_xmit_result Xmit by (metis snd_conv) }
  { case 3 then show ?case using rtw_xmit_result Xmit by (metis snd_conv) }
next
  case (Tasklet env ad r ad')
  have "tx_safe ad ad' \<and> tx_view ad' = tx_view ad" if "tx_inv ad"
    using xmitframe_complete_result [OF that Tasklet(1)] Tasklet(2) by fastforce
  then show "tx_inv ad \<Longrightarrow> tx_inv ad'" "tx_inv ad \<Longrightarrow> all_frames ad' = all_frames ad"
    "tx_inv ad \<Longrightarrow> tx_view ad' = tx_view ad" by (simp_all add: tx_safe_def)
next
  case (Sleep i ad ad')
  { case 1 then show ?case using stop_result(1) Sleep by (simp add: tx_safe_def) }
  { case 2 then show ?case using stop_result(1) Sleep by (simp add: tx_safe_def) }
  { case 3 then show ?case using tx_view_stop [OF Sleep(2)] by simp }
next
  case (Wake i ad)
  { case 1 then show ?case using wakeup_safe Wake by (simp add: tx_safe_def) }
  { case 2 then show ?case using wakeup_safe Wake by (simp add: tx_safe_def) }
  { case 3 then show ?case by simp }
next
  case (Trigger i ad)
  { case 1 then show ?case using delivery_safe Trigger by (simp add: tx_safe_def) }
  { case 2 then show ?case using delivery_safe Trigger by (simp add: tx_safe_def) }
  { case 3 then show ?case by simp }
next
  case (Poll i ad)
  { case 1 then show ?case using pspoll_safe Poll by (simp add: tx_safe_def) }
  { case 2 then show ?case using pspoll_safe Poll by (simp add: tx_safe_def) }
  { case 3 then show ?case by simp }
qed

lemma tx_steps_safe:
  assumes "tx_step\<^sup>*\<^sup>* ad ad'" and "tx_inv ad" and "hash_ok ad"
  shows "tx_inv ad' \<and> all_frames ad' = all_frames ad \<and> hash_ok ad'"
  using assms
proof (induction rule: rtranclp_induct)
  case (step ad1 ad2)
  then have i: "tx_inv ad1" "hash_ok ad1" "all_frames ad1 = all_frames ad" by simp_all
  note s = tx_step_safe [OF step(2) i(1,2)]
  then show ?case using i tx_view_lookup(3) [OF s(3) i(2)] by simp
qed simp

section \<open>Which frames are served\<close>

text \<open>Calling \<^verbatim>\<open>rtw_dequeue_xframe\<close> until nothing comes, at most \<open>n\<close> times.\<close>

fun dequeue_all :: "nat \<Rightarrow> bool \<Rightarrow> int list \<Rightarrow> rx_adapter \<Rightarrow> nat list \<times> rx_adapter" where
  "dequeue_all 0 ws cnt ad = ([], ad)"
| "dequeue_all (Suc n) ws cnt ad =
     (case rtw_dequeue_xframe ws cnt ad of
        (None, ad1) \<Rightarrow> ([], ad1)
      | (Some f, ad1) \<Rightarrow> (case dequeue_all n ws cnt ad1 of (fs, ad2) \<Rightarrow> (f # fs, ad2)))"

lemma dequeue_none:
  assumes inv: "tx_inv ad" and c: "length cnt = 4" and l: "tx_listed ad" and d: "rtw_dequeue_xframe ws cnt ad = (None, ad1)"
  shows "tx_waiting ad = {}"
proof -
  have "\<forall>ac \<in> set (inx_order ws cnt). ac < 4" by (simp add: inx_order_permutes(1) [OF c])
  from dequeue_categories_result [OF inv this] d
  have "\<forall>ac \<in> {0, 1, 2, 3}. \<forall>i \<in> set (hw_sta_queue (xmitpriv ad) ! ac). txq ad (Pending i ac) = []"
    unfolding rtw_dequeue_xframe_def inx_order_permutes(1) [OF c] by auto
  moreover have "ac < 4 \<longleftrightarrow> ac \<in> {0, 1, 2, 3}" for ac :: nat by auto
  ultimately have "txq ad (Pending i ac) = []" if "ac < 4" for i ac
    using l that unfolding tx_listed_def tx_served_def by blast
  moreover have "txq ad (Pending i ac) = []" if "\<not> ac < 4" for i ac using that by (simp add: txq.simps)
  ultimately have "txq ad (Pending i ac) = []" for i ac by blast
  then show ?thesis by (simp add: tx_waiting_def)
qed

lemma dequeue_all_result:
  assumes "tx_inv ad" and "length cnt = 4" and "tx_listed ad" and "card (tx_waiting ad) \<le> n"
  shows "set (fst (dequeue_all n ws cnt ad)) = tx_waiting ad \<and> distinct (fst (dequeue_all n ws cnt ad)) \<and>
    tx_waiting (snd (dequeue_all n ws cnt ad)) = {} \<and> tx_inv (snd (dequeue_all n ws cnt ad))"
  using assms
proof (induction n arbitrary: ad)
  case 0
  then show ?case using tx_waiting_finite [of ad] by simp
next
  case (Suc n)
  from dequeue_takes [OF Suc.prems(1,2), of ws]
  consider "rtw_dequeue_xframe ws cnt ad = (None, ad)"
    | i ac f where "rtw_dequeue_xframe ws cnt ad = (Some f, take_head i ac ad)"
      "tx_takes f ad (take_head i ac ad)" "tx_waiting (take_head i ac ad) = tx_waiting ad - {f}" "f \<in> tx_waiting ad"
    by blast
  then show ?case
  proof cases
    case 1
    then show ?thesis using dequeue_none [OF Suc.prems(1-3) 1] Suc.prems(1) by simp
  next
    case (2 i ac f)
    define ad1 where "ad1 = take_head i ac ad"
    note 2 = 2 [folded ad1_def]
    have "tx_inv ad1" "tx_listed ad1"
      using 2(2) Suc.prems(3) by (simp_all add: tx_takes_def tx_holds_def tx_serves_def tx_listed_def)
    moreover have "card (tx_waiting ad1) \<le> n"
      using Suc.prems(4) 2(4) tx_waiting_finite [OF Suc.prems(1)] card_Diff1_less [of "tx_waiting ad" f] unfolding 2(3) by linarith
    ultimately have "set (fst (dequeue_all n ws cnt ad1)) = tx_waiting ad1 \<and> distinct (fst (dequeue_all n ws cnt ad1)) \<and>
        tx_waiting (snd (dequeue_all n ws cnt ad1)) = {} \<and> tx_inv (snd (dequeue_all n ws cnt ad1))"
      using Suc.IH Suc.prems(2) by blast
    then show ?thesis using 2 by (auto simp: split_beta)
  qed
qed

text \<open>A station that is on no list is not served.\<close>

lemma dequeue_listed:
  assumes inv: "tx_inv ad" and c: "length cnt = 4" and d: "rtw_dequeue_xframe ws cnt ad = (Some f, ad1)"
  shows "\<exists>i ac. f \<in> set (txq ad (Pending i ac)) \<and> i \<in> set (hw_sta_queue (xmitpriv ad) ! ac) \<and> ad1 = take_head i ac ad"
proof -
  have "\<exists>i ac. f \<in> set (txq ad (Pending i ac)) \<and> i \<in> set (hw_sta_queue (xmitpriv ad) ! ac) \<and> ad1 = take_head i ac ad"
    if "\<forall>ac \<in> set acs. ac < 4" "dequeue_categories acs ad = (Some f, ad1)" for acs
    using that
  proof (induction acs)
    case (Cons ac acs)
    show ?case
    proof (cases "find (\<lambda>i. sta_pending (servq ac (get_sta i ad)) \<noteq> []) (hw_sta_queue (xmitpriv ad) ! ac)")
      case None
      then show ?thesis using Cons by (simp add: dequeue_stations_find)
    next
      case (Some i)
      then have i: "i \<in> set (hw_sta_queue (xmitpriv ad) ! ac)" "sta_pending (servq ac (get_sta i ad)) \<noteq> []"
        by (auto simp: find_Some_iff in_set_conv_nth)
      have "i < nsta ad" using tx_invD(9) [OF inv _ i(1)] Cons.prems by simp
      then show ?thesis
        using i Cons.prems Some by (intro exI [of _ i] exI [of _ ac]) (auto simp: dequeue_stations_find txq.simps)
    qed
  qed simp
  moreover have "\<forall>ac \<in> set (inx_order ws cnt). ac < 4" by (simp add: inx_order_permutes(1) [OF c])
  ultimately show ?thesis using d unfolding rtw_dequeue_xframe_def by blast
qed

lemma take_head_hw:
  "length (hw_sta_queue (xmitpriv ad)) = 4 \<Longrightarrow> k < 4 \<Longrightarrow>
    set (hw_sta_queue (xmitpriv (take_head i ac ad)) ! k) \<subseteq> set (hw_sta_queue (xmitpriv ad) ! k)"
  by (cases "k = ac") (auto simp: take_head_def take_one_def Let_def)

lemma unlisted_never_served:
  assumes "tx_inv ad" and "length cnt = 4" and "f \<in> set (txq ad (Pending i k))" and "i \<notin> set (hw_sta_queue (xmitpriv ad) ! k)"
  shows "f \<notin> set (fst (dequeue_all n ws cnt ad))"
  using assms
proof (induction n arbitrary: ad)
  case (Suc n)
  note iv = tx_invD [OF Suc.prems(1)]
  have k: "k < 4" using Suc.prems(3) by (auto simp: txq.simps split: if_splits)
  from dequeue_takes [OF Suc.prems(1,2), of ws]
  consider "rtw_dequeue_xframe ws cnt ad = (None, ad)"
    | g ad1 where "rtw_dequeue_xframe ws cnt ad = (Some g, ad1)" "tx_takes g ad ad1"
    by blast
  then show ?case
  proof cases
    case (2 g ad1)
    obtain j ac where j: "g \<in> set (txq ad (Pending j ac))" "j \<in> set (hw_sta_queue (xmitpriv ad) ! ac)" "ad1 = take_head j ac ad"
      using dequeue_listed [OF Suc.prems(1,2) 2(1)] by blast
    have gf: "g \<noteq> f" using iv(4) [OF Suc.prems(3), of "Pending j ac"] j(1,2) Suc.prems(4) by auto
    have ne: "(j, ac) \<noteq> (i, k)" using j(2) Suc.prems(4) by auto
    have h: "j < nsta ad" "ac < 4" using j(1) by (auto simp: txq.simps split: if_splits)
    obtain x xs where "txq ad (Pending j ac) = x # xs" using j(1) by (cases "txq ad (Pending j ac)") auto
    from take_head_result [OF Suc.prems(1) h this]
    have inv1: "tx_inv ad1" "f \<in> set (txq ad1 (Pending i k))" using ne Suc.prems(3) by (auto simp: j(3))
    have "i \<notin> set (hw_sta_queue (xmitpriv ad1) ! k)" using take_head_hw [OF iv(7) k, of j ac] Suc.prems(4) by (auto simp: j(3))
    from Suc.IH [OF inv1(1) Suc.prems(2) inv1(2) this] show ?thesis using 2(1) gf by (simp add: split_beta)
  qed simp
qed simp

section \<open>A concrete access point\<close>

text \<open>
  Station 0 with association id 20 and a frame that waits in a pending queue or, when it sleeps, in
  the sleeping queue; the broadcast station; and two free frames.
\<close>

definition sample_queues :: "bool \<Rightarrow> rx_adapter" where
  "sample_queues asleep = sample_rx_adapter\<lparr>fw_state := WIFI_AP_STATE,
     stapriv := (sample_stations [2, 0, 0, 0, 0, 2])\<lparr>
       stainfo_buf := [(alloc_sta_fields [2, 0, 0, 0, 0, 2])\<lparr>sta_state := FW_LINKED, aid := 20,
           sleep_q := (if asleep then [0] else []), sleepq_len := (if asleep then 1 else 0),
           be_q := (if asleep then init_txservq else \<lparr>sta_pending = [0], qcnt = 1\<rparr>)\<rparr>,
         (alloc_sta_fields bc_addr)\<lparr>sta_state := FW_LINKED\<rparr>],
       sta_hash := replicate NUM_STA [0, 1]\<rparr>,
     xmitpriv := (xmitpriv sample_adapter)\<lparr>free_xmit_queue := [1, 2], free_xmitframe_cnt := 2,
       hw_accnt := [0, 0, if asleep then 0 else 1, 0], hw_sta_queue := [[], [], if asleep then [] else [0], []],
       xf_attr := (\<lambda>f. zero_attrib\<lparr>tx_psta := Some 0\<rparr>)\<rparr>\<rparr>"

abbreviation sample_tx :: rx_adapter where "sample_tx \<equiv> sample_queues False"

lemma sample_queues_sta:
  "nsta (sample_queues z) = 2"
  "get_sta 0 (sample_queues z) = (alloc_sta_fields [2, 0, 0, 0, 0, 2])\<lparr>sta_state := FW_LINKED, aid := 20,
     sleep_q := (if z then [0] else []), sleepq_len := (if z then 1 else 0),
     be_q := (if z then init_txservq else \<lparr>sta_pending = [0], qcnt = 1\<rparr>)\<rparr>"
  "get_sta 1 (sample_queues z) = (alloc_sta_fields bc_addr)\<lparr>sta_state := FW_LINKED\<rparr>"
  "get_sta (Suc 0) (sample_queues z) = (alloc_sta_fields bc_addr)\<lparr>sta_state := FW_LINKED\<rparr>"
  by (simp_all add: sample_queues_def nsta_def get_sta_def)

lemma sample_queues_xattr: "xattr (sample_queues z) f = zero_attrib\<lparr>tx_psta := Some 0\<rparr>"
  by (simp add: sample_queues_def xattr_def)

lemma less_2_cases: "(j :: nat) < 2 \<longleftrightarrow> j = 0 \<or> j = 1"
  by auto

lemma sample_queues_txq: "txq (sample_queues z) l =
    (if l = Free False then [1, 2] else if l = (if z then Sleeping 0 else Pending 0 2) then [0] else [])"
  by (cases l) (auto simp: txq.simps sample_queues_sta servq_def less_2_cases alloc_sta_fields_def init_stainfo_def init_txservq_def
      sample_adapter_def, auto simp: sample_queues_def sample_adapter_def)

lemma sample_queues_hw: "hw_accnt (xmitpriv (sample_queues z)) = [0, 0, if z then 0 else 1, 0]"
  "hw_sta_queue (xmitpriv (sample_queues z)) = [[], [], if z then [] else [0], []]"
  "xf_alloced (xmitpriv (sample_queues z)) f = False" "xf_ext (xmitpriv (sample_queues z)) f = False"
  "free_xmitframe_cnt (xmitpriv (sample_queues z)) = 2" "free_xframe_ext_cnt (xmitpriv (sample_queues z)) = 0"
  by (simp_all add: sample_queues_def sample_adapter_def)

lemma sample_queues_inv: "tx_inv (sample_queues z)"
proof (rule tx_invI)
  have c: "sleepq_len (get_sta i (sample_queues z)) = length (txq (sample_queues z) (Sleeping i)) \<and>
      (\<forall>ac < 4. qcnt (servq ac (get_sta i (sample_queues z))) = int (length (txq (sample_queues z) (Pending i ac))))"
    if "i < 2" for i
    using that by (auto simp: less_2_cases sample_queues_sta sample_queues_txq servq_def alloc_sta_fields_def init_stainfo_def init_txservq_def)
  have s: "(\<Sum>i<2. int (length (txq (sample_queues z) (Pending i ac)))) = (if ac = 2 \<and> \<not> z then 1 else 0)" for ac
    by (simp add: numeral_2_eq_2 sample_queues_txq)
  have "hw_accnt (xmitpriv (sample_queues z)) ! ac = (if ac = 2 \<and> \<not> z then 1 else 0)" if "ac < 4" for ac
  proof -
    have "ac = 0 \<or> ac = 1 \<or> ac = 2 \<or> ac = 3" using that by auto
    then show ?thesis by (auto simp: sample_queues_hw)
  qed
  then show "tx_counted (sample_queues z)"
    unfolding tx_counted_def sample_queues_sta(1) s using c by (auto simp: sample_queues_hw sample_queues_txq)
  show "f \<in> set (txq (sample_queues z) l) \<Longrightarrow>
      f < NR_XMITFRAME \<and> \<not> xf_alloced (xmitpriv (sample_queues z)) f \<and> loc_fits l (sample_queues z) f" for l f
    by (auto simp: sample_queues_txq sample_queues_hw sample_queues_xattr NR_XMITFRAME_def zero_attrib_def rtw_get_sta_pending_def
        split: if_splits)
  show "distinct (hw_sta_queue (xmitpriv (sample_queues z)) ! ac) \<and>
      set (hw_sta_queue (xmitpriv (sample_queues z)) ! ac) \<subseteq> {..<nsta (sample_queues z)}" if "ac < 4" for ac
  proof -
    have "ac = 0 \<or> ac = 1 \<or> ac = 2 \<or> ac = 3" using that by auto
    then show ?thesis by (auto simp: sample_queues_hw sample_queues_sta)
  qed
qed (auto simp: sample_queues_txq sample_queues_hw split: if_splits)

lemma sample_queues_listed: "tx_listed (sample_queues z)"
  by (auto simp: tx_listed_def tx_served_def sample_queues_txq sample_queues_hw)

lemma sample_queues_hash: "hash_ok (sample_queues z)"
  by (simp add: hash_ok_def sample_queues_sta) (simp add: sample_queues_def)

lemma sample_queues_bcmc: "bcmc_station (sample_queues z) = Some 1"
proof -
  have "sta_hash (stapriv (sample_queues z)) ! unat (wifi_mac_hash bc_addr) = [0, 1]"
    using wifi_mac_hash_bound [of bc_addr] by (simp add: sample_queues_def)
  moreover have "hwaddr (stainfo_buf (stapriv (sample_queues z)) ! 0) = [2, 0, 0, 0, 0, 2]" "hwaddr (stainfo_buf (stapriv (sample_queues z)) ! 1) = bc_addr"
    by (simp_all add: sample_queues_def alloc_sta_fields_def)
  ultimately show ?thesis
    by (simp add: bcmc_station_def rtw_get_bcmc_stainfo_def adapter.defs rtw_get_stainfo_def Let_def IS_MCAST_def)
qed

lemma sample_queues_waiting: "tx_waiting sample_tx = {0}"
  by (auto simp: tx_waiting_def sample_queues_txq)

text \<open>A frame that is enqueued lists its station.\<close>

lemma classifier_lists:
  assumes "tx_inv ad" and "tx_psta (xattr ad f) = Some i" and "rtw_get_sta_pending (tx_priority (xattr ad f)) = k" and "k < 4"
    and "rtw_xmit_classifier f ad = (SUCCESS, ad')"
  shows "i \<in> set (hw_sta_queue (xmitpriv ad') ! k)"
proof -
  have "length (hw_sta_queue (xmitpriv ad)) = 4" using assms(1) by (simp add: tx_inv_def)
  then show ?thesis using assms(2-5) by (auto simp: rtw_xmit_classifier_def tx_psta_station Let_def hw_stations_def hw_count_def split: if_splits)
qed

section \<open>Properties\<close>

text \<open>
  C7: No transmit frame is lost or duplicated. After any sequence of packets from the network stack,
  runs of the transmit tasklet, and stations that fall asleep, wake up, trigger or poll, every frame
  that was on a queue is on exactly one, the queues hold no other frame, and these counters are the
  lengths of what they count: that of each queue of a station (\<^verbatim>\<open>qcnt\<close>), that of its
  sleeping queue (\<^verbatim>\<open>sleepq_len\<close>), those of the access categories
  (\<^verbatim>\<open>accnt\<close>) and those of the two free queues. \<^verbatim>\<open>sleepq_ac_len\<close>
  is not among them: a PS-Poll leaves it too large.
\<close>

theorem tx_frames_conserved:
  assumes "tx_inv ad" and "hash_ok ad" and "tx_step\<^sup>*\<^sup>* ad ad'"
  shows "(\<forall>f. (\<exists>l. f \<in> set (txq ad l)) \<longleftrightarrow> (\<exists>!l. f \<in> set (txq ad' l))) \<and> tx_inv ad'"
proof -
  have s: "tx_inv ad'" "all_frames ad' = all_frames ad" using tx_steps_safe [OF assms(3,1,2)] by simp_all
  have "(\<exists>l. f \<in> set (txq ad l)) \<longleftrightarrow> (\<exists>l. f \<in> set (txq ad' l))" for f
    using s(2) by (auto simp: all_frames_def)
  then show ?thesis using s(1) tx_invD(4) [OF s(1)] by blast
qed

theorem tx_frames_conserved_witness:
  "\<exists>r ad ad'. rtw_xmit \<lparr>br_ok = True, new_attrib = Some (zero_attrib\<lparr>tx_psta := Some 0\<rparr>), new_pkt = 7, has_xmitbuf = True\<rparr>
      sample_tx = (r, ad) \<and> stop_sta_xmit 0 ad = Some ad' \<and> (\<exists>!l. 1 \<in> set (txq ad' l))"
proof -
  define env where "env = \<lparr>br_ok = True, new_attrib = Some (zero_attrib\<lparr>tx_psta := Some 0\<rparr>), new_pkt = 7, has_xmitbuf = True\<rparr>"
  obtain r ad where x: "rtw_xmit env sample_tx = (r, ad)" by fastforce
  have e: "xmit_env_ok sample_tx env" by (simp add: xmit_env_ok_def env_def sample_queues_sta)
  have v: "tx_view ad = tx_view sample_tx" using rtw_xmit_result [OF sample_queues_inv e] x by simp
  have n: "nsta ad = 2" using tx_view_fields(10) [OF v] by (simp add: sample_queues_sta)
  obtain ad' where s: "stop_sta_xmit 0 ad = Some ad'"
    using tx_view_lookup(2) [OF v sample_queues_hash] sample_queues_bcmc by (simp add: stop_sta_xmit_def Let_def)
  have "tx_step\<^sup>*\<^sup>* sample_tx ad'"
    using tx_step.Xmit [OF e x] tx_step.Sleep [OF _ s] n by (simp add: converse_rtranclp_into_rtranclp)
  from tx_frames_conserved [OF sample_queues_inv sample_queues_hash this]
  have "\<exists>!l. 1 \<in> set (txq ad' l)" using sample_queues_txq [of False "Free False"] by (metis list.set_intros(1))
  then show ?thesis using x s unfolding env_def by blast
qed

text \<open>
  C8: The aggregates of the transmit tasklet. A run of it always ends, and when every waiting frame
  fits a transmit buffer by itself, what is written to the device lies in the buffer: at most 255
  frames, each on a multiple of eight bytes, none overlapping the next, none beyond the end.
\<close>

theorem tx_aggregate_fits:
  assumes "tx_inv ad" and "length (acirp_cnt env) = 4"
    and "\<forall>f \<in> tx_waiting ad. xmitframe_need_length (xattr ad f) + TXDESC_OFFSET \<le> MAX_XMITBUF_SZ"
  shows "\<exists>r ad'. rtl8192cu_xmitframe_complete env ad = Some (r, ad') \<and>
    (case r of
       None \<Rightarrow> True
     | Some (n, ps) \<Rightarrow> n \<le> MAX_XMITBUF_SZ \<and> length ps \<le> MAX_TX_AGG_PACKET_NUMBER \<and>
         sorted_wrt (\<lambda>x y. snd (snd x) \<le> fst (snd y)) ps \<and>
         (\<forall>(f, s, e) \<in> set ps. 8 dvd s \<and> s < e \<and> e \<le> MAX_XMITBUF_SZ))"
  using xmitframe_complete_result [OF assms(1,2)] assms(3) by (fastforce simp: agg_fits_def split: option.splits)

theorem tx_aggregate_fits_witness:
  "\<exists>r ad'. rtl8192cu_xmitframe_complete
      \<lparr>buf_ok = True, wifi_spec = False, acirp_cnt = [0, 0, 0, 0], bulk = 512, desc_num = 6, coal = (\<lambda>f. True)\<rparr> sample_tx =
    Some (r, ad') \<and> (\<forall>n ps. r = Some (n, ps) \<longrightarrow> n \<le> MAX_XMITBUF_SZ)"
proof -
  have "\<forall>f \<in> tx_waiting sample_tx. xmitframe_need_length (xattr sample_tx f) + TXDESC_OFFSET \<le> MAX_XMITBUF_SZ"
    by (simp add: sample_queues_xattr zero_attrib_def xmitframe_need_length_def TXDESC_OFFSET_def TXDESC_SIZE_def PACKET_OFFSET_SZ_def
        MAX_XMITBUF_SZ_def SNAP_SIZE_def)
  from tx_aggregate_fits [OF sample_queues_inv _ this,
      of "\<lparr>buf_ok = True, wifi_spec = False, acirp_cnt = [0, 0, 0, 0], bulk = 512, desc_num = 6, coal = (\<lambda>f. True)\<rparr>"]
  show ?thesis by fastforce
qed

text \<open>
  C9: Waiting frames are served. As long as every station with waiting frames is on the list of its
  access category, which all operations but the falling asleep of a station keep, calling
  \<^verbatim>\<open>rtw_dequeue_xframe\<close> again and again hands out every waiting frame exactly once,
  whatever the order of the categories, and leaves none.
\<close>

theorem tx_waiting_served:
  assumes "tx_inv ad" and "tx_listed ad" and "length cnt = 4"
  shows "set (fst (dequeue_all NR_XMITFRAME ws cnt ad)) = tx_waiting ad \<and>
    distinct (fst (dequeue_all NR_XMITFRAME ws cnt ad)) \<and> tx_waiting (snd (dequeue_all NR_XMITFRAME ws cnt ad)) = {}"
  using dequeue_all_result [OF assms(1,3,2)] tx_waiting_finite [OF assms(1)] by blast

theorem tx_waiting_served_witness: "set (fst (dequeue_all NR_XMITFRAME True [3, 1, 0, 2] sample_tx)) = {0}"
  using tx_waiting_served [OF sample_queues_inv sample_queues_listed, of "[3, 1, 0, 2]" True False] by (simp add: sample_queues_waiting)



text \<open>
  C11: A station that falls asleep strands frames. \<^verbatim>\<open>stop_sta_xmit\<close> takes the station off
  the lists of all access categories, also when \<^verbatim>\<open>xmitframe_enqueue_for_sleeping_sta\<close> left
  frames in their queues: the frames a trigger or PS-Poll has already released, and all frames of a
  station whose association id has no bit in the 16 bits of \<^verbatim>\<open>sta_dz_bitmap\<close>. As long as
  nothing else happens to the queues, no call of \<^verbatim>\<open>rtw_dequeue_xframe\<close> returns such a
  frame, however often it is called. The next frame that is enqueued for the station and the access
  category lists it again, and behind the stranded frames.
\<close>

theorem stop_sta_xmit_strands:
  assumes "tx_inv ad" and "hash_ok ad" and "i < nsta ad" and "stop_sta_xmit i ad = Some ad'"
    and "f \<in> set (txq ad (Pending i k))"
    and "tx_triggered (xattr ad f) \<or> \<not> IS_MCAST (tx_ra (xattr ad f)) \<and> 16 \<le> aid (get_sta i ad)"
    and "length cnt = 4"
  shows "f \<in> set (txq ad' (Pending i k)) \<and> f \<notin> set (fst (dequeue_all n ws cnt ad')) \<and>
    (\<forall>g ad''. tx_psta (xattr ad' g) = Some i \<longrightarrow> rtw_get_sta_pending (tx_priority (xattr ad' g)) = k \<longrightarrow>
      rtw_xmit_classifier g ad' = (SUCCESS, ad'') \<longrightarrow>
      i \<in> set (hw_sta_queue (xmitpriv ad'') ! k) \<and> txq ad'' (Pending i k) = txq ad' (Pending i k) @ [g])"
proof (intro conjI allI impI)
  note s = stop_result [OF assms(1-4)]
  have st: "stays i f ad" using assms(6) by (simp add: stays_def)
  have k: "k < 4" using assms(5) by (auto simp: txq.simps split: if_splits)
  show f': "f \<in> set (txq ad' (Pending i k))" by (rule s(2) [OF st assms(5)])
  have inv': "tx_inv ad'" and n: "nsta ad' = nsta ad" using s(1) by (simp_all add: tx_safe_def tx_keeps_def)
  show "f \<notin> set (fst (dequeue_all n ws cnt ad'))"
    by (rule unlisted_never_served [OF inv' assms(7) f' s(3) [OF k]])
  fix g ad''
  assume g: "tx_psta (xattr ad' g) = Some i" "rtw_get_sta_pending (tx_priority (xattr ad' g)) = k"
    and c: "rtw_xmit_classifier g ad' = (SUCCESS, ad'')"
  have i': "i < nsta ad'" using assms(3) n by simp
  show "i \<in> set (hw_sta_queue (xmitpriv ad'') ! k)" by (rule classifier_lists [OF inv' g k c])
  show "txq ad'' (Pending i k) = txq ad' (Pending i k) @ [g]"
    using classifier_result [OF g(1) i'] g(2) c by auto
qed

theorem stop_sta_xmit_strands_witness:
  "\<exists>ad'. stop_sta_xmit 0 sample_tx = Some ad' \<and> 0 \<in> set (txq ad' (Pending 0 2)) \<and>
     0 \<notin> set (fst (dequeue_all NR_XMITFRAME False [0, 0, 0, 0] ad'))"
proof -
  obtain ad' where s: "stop_sta_xmit 0 sample_tx = Some ad'"
    using sample_queues_bcmc by (simp add: stop_sta_xmit_def Let_def)
  have "0 \<in> set (txq sample_tx (Pending 0 2))" by (simp add: sample_queues_txq)
  from stop_sta_xmit_strands [OF sample_queues_inv sample_queues_hash _ s this, of "[0, 0, 0, 0]"] s
  show ?thesis by (simp add: sample_queues_sta sample_queues_xattr zero_attrib_def IS_MCAST_def)
qed

end
