(* ===== verification/Rx_Validate.thy ===== *)
theory Rx_Validate
  imports Rx_Path Xmit_Path
begin

text \<open>
  The first half of reception (\<^verbatim>\<open>core/rtw_recv.c\<close>): \<^verbatim>\<open>validate_recv_frame\<close> reads the
  802.11 header into the attributes of the frame and dispatches on its type; the three address
  filters \<^verbatim>\<open>sta2sta_data_frame\<close>, \<^verbatim>\<open>ap2sta_data_frame\<close> and
  \<^verbatim>\<open>sta2ap_data_frame\<close> decide which data frames go on; \<^verbatim>\<open>recv_func\<close> joins both halves.
  The accessors of the header are those of \<^verbatim>\<open>include/wifi.h\<close>. An access point learns
  here that a station sleeps, wakes up, triggers or polls, and calls the transmit path. Calls into the
  management entity are recorded as events; statistics and the led are left out.
\<close>

section \<open>The header\<close>

definition le16_of :: "u8 \<Rightarrow> u8 \<Rightarrow> u16" where
  "le16_of a b = ucast a OR push_bit 8 (ucast b)"

definition hdr16 :: "nat \<Rightarrow> u8 list \<Rightarrow> u16 option" where
  "hdr16 off ptr = do { b \<leftarrow> read_at off 2 ptr; Some (le16_of (b ! 0) (b ! 1)) }"

text \<open>The flags of the frame control field.\<close>

definition GetToDs :: "u16 \<Rightarrow> bool" where "GetToDs fc \<longleftrightarrow> bit fc 8"
definition GetFrDs :: "u16 \<Rightarrow> bool" where "GetFrDs fc \<longleftrightarrow> bit fc 9"
definition GetMFrag :: "u16 \<Rightarrow> bool" where "GetMFrag fc \<longleftrightarrow> bit fc 10"
definition GetPwrMgt :: "u16 \<Rightarrow> bool" where "GetPwrMgt fc \<longleftrightarrow> bit fc 12"
definition GetMData :: "u16 \<Rightarrow> bool" where "GetMData fc \<longleftrightarrow> bit fc 13"
definition GetPrivacy :: "u16 \<Rightarrow> bool" where "GetPrivacy fc \<longleftrightarrow> bit fc 14"
definition GetOrder :: "u16 \<Rightarrow> bool" where "GetOrder fc \<longleftrightarrow> bit fc 15"

definition get_tofr_ds :: "u16 \<Rightarrow> nat" where
  "get_tofr_ds fc = (if GetToDs fc then 2 else 0) + (if GetFrDs fc then 1 else 0)"

text \<open>The sequence control and the QoS control field.\<close>

definition GetSequence :: "u16 \<Rightarrow> u16" where "GetSequence sc = drop_bit 4 sc"
definition GetFragNum :: "u16 \<Rightarrow> u8" where "GetFragNum sc = ucast (sc AND 0x0f)"
definition GetPriority :: "u16 \<Rightarrow> u8" where "GetPriority qc = ucast (qc AND 0xf)"
definition GetAckpolicy :: "u16 \<Rightarrow> u8" where "GetAckpolicy qc = ucast (drop_bit 5 qc AND 0x3)"
definition GetAMsdu :: "u16 \<Rightarrow> u8" where "GetAMsdu qc = ucast (drop_bit 7 qc AND 0x1)"
definition GetAid :: "u16 \<Rightarrow> nat" where "GetAid x = unat (x AND 0x3fff)"

definition get_da :: "u16 \<Rightarrow> u8 list \<Rightarrow> mac option" where
  "get_da fc ptr = read_at (if get_tofr_ds fc = 0 \<or> get_tofr_ds fc = 1 then 4 else 16) 6 ptr"

definition get_sa :: "u16 \<Rightarrow> u8 list \<Rightarrow> mac option" where
  "get_sa fc ptr = read_at (if get_tofr_ds fc = 1 then 16 else if get_tofr_ds fc = 3 then 24 else 10) 6 ptr"

definition get_hdr_bssid :: "u16 \<Rightarrow> u8 list \<Rightarrow> mac option" where
  "get_hdr_bssid fc ptr = read_at (if get_tofr_ds fc = 0 then 16 else if get_tofr_ds fc = 1 then 10 else 4) 6 ptr"

definition frame_ptr :: "nat \<Rightarrow> rx_adapter \<Rightarrow> u8 list" where
  "frame_ptr f ad = drop (rx_doff (rxf ad f)) (rx_mem (rxf ad f))"

section \<open>Stations that sleep\<close>

definition WIFI_ADHOC_STATE :: u32 where "WIFI_ADHOC_STATE = 0x00000020"
definition WIFI_ADHOC_MASTER_STATE :: u32 where "WIFI_ADHOC_MASTER_STATE = 0x00000040"

text \<open>\<open>None\<close> is the null pointer that \<^verbatim>\<open>stop_sta_xmit\<close> reads without a broadcast station.\<close>

definition process_pwrbit_data :: "u16 \<Rightarrow> nat \<Rightarrow> rx_adapter \<Rightarrow> rx_adapter option" where
  "process_pwrbit_data fc f ad =
     (case rtw_get_stainfo (stapriv ad) (Some (rx_src (rxf ad f))) of
        None \<Rightarrow> Some ad
      | Some i \<Rightarrow>
          if GetPwrMgt fc
          then (if sta_state (get_sta i ad) AND WIFI_SLEEP_STATE = 0 then stop_sta_xmit i ad else Some ad)
          else (if sta_state (get_sta i ad) AND WIFI_SLEEP_STATE \<noteq> 0 then Some (wakeup_sta_to_xmit i ad) else Some ad))"

definition process_wmmps_data :: "nat \<Rightarrow> rx_adapter \<Rightarrow> rx_adapter" where
  "process_wmmps_data f ad =
     (case rtw_get_stainfo (stapriv ad) (Some (rx_src (rxf ad f))) of
        None \<Rightarrow> ad
      | Some i \<Rightarrow>
          let p = get_sta i ad; pri = rx_priority (rxf ad f) in
          if \<not> qos_option p \<or> qos_info p AND 0xf = 0 then ad
          else if sta_state p AND WIFI_SLEEP_STATE \<noteq> 0 \<and> bit (wmmps_ac pri p) 1
          then (if 0 < sleepq_ac_len p
                then xmit_delivery_enabled_frames i ad
                else rx_event (Issue_qos_nulldata (hwaddr p) (ucast pri)) ad)
          else ad)"

section \<open>The address filters\<close>

text \<open>\<^verbatim>\<open>RTW_RX_HANDLED\<close> is the third result; the station found comes with it.\<close>

datatype rx_result = RX_SUCCESS | RX_FAIL | RX_HANDLED

type_synonym filter_result = "rx_result \<times> nat option \<times> rx_adapter"

definition WLAN_REASON_CLASS3_FRAME_FROM_NONASSOC_STA :: nat where
  "WLAN_REASON_CLASS3_FRAME_FROM_NONASSOC_STA = 7"

definition null_mac :: mac where "null_mac = replicate 6 0"

text \<open>The last step of \<^verbatim>\<open>sta2sta_data_frame\<close>.\<close>

definition find_psta :: "bool \<Rightarrow> mac option \<Rightarrow> rx_result \<Rightarrow> rx_adapter \<Rightarrow> filter_result" where
  "find_psta bmcast sta_addr ret ad =
     (case (if bmcast then bcmc_station ad else rtw_get_stainfo (stapriv ad) sta_addr) of
        None \<Rightarrow> (RX_FAIL, None, ad)
      | Some i \<Rightarrow> (ret, Some i, ad))"

text \<open>In the manufacturing state the addresses are read from the header again.\<close>

definition mp_addresses :: "nat \<Rightarrow> rx_adapter \<Rightarrow> rx_adapter option" where
  "mp_addresses f ad = do {
     a1 \<leftarrow> read_at 4 6 (frame_ptr f ad);
     a2 \<leftarrow> read_at 10 6 (frame_ptr f ad);
     a3 \<leftarrow> read_at 16 6 (frame_ptr f ad);
     let fr = rxf ad f;
     Some (set_rxf f (fr\<lparr>rx_dst := a1, rx_src := a2, rx_bssid := a3,
       rx_attrs := (rx_attrs fr)\<lparr>rx_ra := a1, rx_ta := a2\<rparr>\<rparr>) ad) }"

definition sta2sta_data_frame :: "nat \<Rightarrow> rx_adapter \<Rightarrow> filter_result option" where
  "sta2sta_data_frame f ad =
     (let fr = rxf ad f; mybssid = get_bssid ad; bmcast = IS_MCAST (rx_dst fr) in
      if check_fwstate ad WIFI_ADHOC_STATE \<or> check_fwstate ad WIFI_ADHOC_MASTER_STATE
      then (if myid ad = rx_src fr then Some (RX_FAIL, None, ad)
            else if myid ad \<noteq> rx_dst fr \<and> \<not> bmcast then Some (RX_FAIL, None, ad)
            else if rx_bssid fr = null_mac \<or> mybssid = null_mac \<or> rx_bssid fr \<noteq> mybssid
            then Some (RX_FAIL, None, ad)
            else Some (find_psta bmcast (Some (rx_src fr)) RX_SUCCESS ad))
      else if check_fwstate ad WIFI_STATION_STATE
      then (if rx_bssid fr \<noteq> rx_src fr then Some (RX_FAIL, None, ad)
            else Some (find_psta bmcast (Some (rx_bssid fr)) RX_SUCCESS ad))
      else if check_fwstate ad WIFI_AP_STATE
      then (if bmcast
            then (if \<not> IS_MCAST (rx_bssid fr) then Some (RX_FAIL, None, ad)
                  else Some (find_psta bmcast None RX_SUCCESS ad))
            else (if rx_bssid fr \<noteq> rx_dst fr then Some (RX_FAIL, None, ad)
                  else Some (find_psta bmcast (Some (rx_src fr)) RX_SUCCESS ad)))
      else if check_fwstate ad WIFI_MP_STATE
      then do { ad1 \<leftarrow> mp_addresses f ad; Some (find_psta bmcast (Some mybssid) RX_SUCCESS ad1) }
      else Some (find_psta bmcast None RX_FAIL ad))"

definition ap2sta_data_frame :: "nat \<Rightarrow> rx_adapter \<Rightarrow> filter_result option" where
  "ap2sta_data_frame f ad =
     (let fr = rxf ad f; mybssid = get_bssid ad; bmcast = IS_MCAST (rx_dst fr) in
      if check_fwstate ad WIFI_STATION_STATE \<and>
         (check_fwstate ad FW_LINKED \<or> check_fwstate ad FW_UNDER_LINKING)
      then (if myid ad = rx_src fr then Some (RX_FAIL, None, ad)
            else if myid ad \<noteq> rx_dst fr \<and> \<not> bmcast then Some (RX_FAIL, None, ad)
            else if rx_bssid fr = null_mac \<or> mybssid = null_mac \<or> rx_bssid fr \<noteq> mybssid
            then Some (RX_FAIL, None,
              if \<not> bmcast
              then rx_event (Issue_deauth (rx_bssid fr) WLAN_REASON_CLASS3_FRAME_FROM_NONASSOC_STA) ad
              else ad)
            else (case (if bmcast then bcmc_station ad else rtw_get_stainfo (stapriv ad) (Some (rx_bssid fr))) of
                None \<Rightarrow> Some (RX_FAIL, None, ad)
              | Some i \<Rightarrow> do {
                  b \<leftarrow> byte_at 0 (frame_ptr f ad);
                  Some (if bit b 6 then RX_HANDLED else RX_SUCCESS, Some i, ad) }))
      else if check_fwstate ad WIFI_MP_STATE \<and> check_fwstate ad FW_LINKED
      then do {
        ad1 \<leftarrow> mp_addresses f ad;
        let ad2 = set_rxf f ((rxf ad1 f)\<lparr>rx_bssid := mybssid\<rparr>) ad1;
        Some (find_psta False (Some mybssid) RX_SUCCESS ad2) }
      else if check_fwstate ad WIFI_AP_STATE then Some (RX_HANDLED, None, ad)
      else if myid ad = rx_dst fr \<and> \<not> bmcast
      then (case rtw_get_stainfo (stapriv ad) (Some (rx_bssid fr)) of
              None \<Rightarrow> Some (RX_FAIL, None,
                rx_event (Issue_deauth (rx_bssid fr) WLAN_REASON_CLASS3_FRAME_FROM_NONASSOC_STA) ad)
            | Some i \<Rightarrow> Some (RX_FAIL, Some i, ad))
      else Some (RX_FAIL, None, ad))"

definition sta2ap_data_frame :: "u16 \<Rightarrow> nat \<Rightarrow> rx_adapter \<Rightarrow> filter_result option" where
  "sta2ap_data_frame fc f ad =
     (let fr = rxf ad f in
      if check_fwstate ad WIFI_AP_STATE
      then (if rx_bssid fr \<noteq> get_bssid ad then Some (RX_FAIL, None, ad)
            else (case rtw_get_stainfo (stapriv ad) (Some (rx_src fr)) of
                None \<Rightarrow> Some (RX_HANDLED, None,
                  rx_event (Issue_deauth (rx_src fr) WLAN_REASON_CLASS3_FRAME_FROM_NONASSOC_STA) ad)
              | Some i \<Rightarrow> do {
                  ad1 \<leftarrow> process_pwrbit_data fc f ad;
                  let ad2 = (if fc AND 0x88 = 0x88 then process_wmmps_data f ad1 else ad1);
                  Some (if bit fc 6 then RX_HANDLED else RX_SUCCESS, Some i, ad2) }))
      else if rx_ra (rx_attrs fr) \<noteq> myid ad then Some (RX_HANDLED, None, ad)
      else Some (RX_HANDLED, None,
        rx_event (Issue_deauth (rx_src fr) WLAN_REASON_CLASS3_FRAME_FROM_NONASSOC_STA) ad))"

section \<open>Data frames\<close>

definition GET_ENCRY_ALGO :: "security_priv \<Rightarrow> sta_info \<Rightarrow> nat \<Rightarrow> bool \<Rightarrow> nat" where
  "GET_ENCRY_ALGO sp psta encry_algo bmcst =
     (if dot11AuthAlgrthm sp = 0 \<or> dot11AuthAlgrthm sp = 1 \<or> dot11AuthAlgrthm sp = 3
      then dot11PrivacyAlgrthm sp
      else if dot11AuthAlgrthm sp = 2
      then (if bmcst then dot118021XGrpPrivacy sp else dot118021XPrivacy psta)
      else encry_algo)"

definition SET_ICE_IV_LEN :: "nat \<Rightarrow> nat \<times> nat" where
  "SET_ICE_IV_LEN e =
     (if e = WEP40 \<or> e = WEP104 then (4, 4)
      else if e = TKIP then (8, 4)
      else if e = AES then (8, 8) else (0, 0))"

text \<open>The fields taken from the QoS control, or their values without it.\<close>

definition set_qos_fields :: "nat \<Rightarrow> rx_adapter \<Rightarrow> rx_adapter option" where
  "set_qos_fields f ad =
     (let fr = rxf ad f; a = rx_attrs fr; ht = (if rx_order fr then 4 else 0) in
      if rx_qos fr = 1
      then do {
        qc \<leftarrow> hdr16 24 (frame_ptr f ad);
        Some (set_rxf f (fr\<lparr>rx_priority := GetPriority qc, rx_ack_policy := GetAckpolicy qc,
          rx_amsdu := GetAMsdu qc,
          rx_attrs := a\<lparr>rx_hdrlen := (if rx_to_fr_ds fr = 3 then 32 else 26) + ht\<rparr>\<rparr>) ad) }
      else Some (set_rxf f (fr\<lparr>rx_priority := 0, rx_ack_policy := 0, rx_amsdu := 0,
          rx_attrs := a\<lparr>rx_hdrlen := (if rx_to_fr_ds fr = 3 then 30 else 24) + ht\<rparr>\<rparr>) ad))"

definition set_cipher_fields :: "nat \<Rightarrow> nat \<Rightarrow> rx_adapter \<Rightarrow> rx_adapter" where
  "set_cipher_fields i f ad =
     (let fr = rxf ad f; a = rx_attrs fr in
      if rx_privacy fr \<noteq> 0
      then (let e = GET_ENCRY_ALGO (securitypriv ad) (get_sta i ad) (rx_encrypt a) (IS_MCAST (rx_ra a));
                (iv, icv) = SET_ICE_IV_LEN e
            in set_rxf f (fr\<lparr>rx_icv_len := icv, rx_attrs := a\<lparr>rx_encrypt := e, rx_iv_len := iv\<rparr>\<rparr>) ad)
      else set_rxf f (fr\<lparr>rx_icv_len := 0, rx_attrs := a\<lparr>rx_encrypt := 0, rx_iv_len := 0\<rparr>\<rparr>) ad)"

definition filter_data_frame :: "u16 \<Rightarrow> nat \<Rightarrow> rx_adapter \<Rightarrow> filter_result option" where
  "filter_data_frame fc f ad = do {
     pda \<leftarrow> get_da fc (frame_ptr f ad);
     psa \<leftarrow> get_sa fc (frame_ptr f ad);
     pbssid \<leftarrow> get_hdr_bssid fc (frame_ptr f ad);
     let fr = (rxf ad f)\<lparr>rx_dst := pda, rx_src := psa, rx_bssid := pbssid\<rparr>;
     let addrs = (\<lambda>ra ta. set_rxf f (fr\<lparr>rx_attrs := (rx_attrs fr)\<lparr>rx_ra := ra, rx_ta := ta\<rparr>\<rparr>) ad);
     (if rx_to_fr_ds fr = 0 then sta2sta_data_frame f (addrs pda psa)
      else if rx_to_fr_ds fr = 1 then ap2sta_data_frame f (addrs pda pbssid)
      else if rx_to_fr_ds fr = 2 then sta2ap_data_frame fc f (addrs pbssid psa)
      else do {
        a1 \<leftarrow> read_at 4 6 (frame_ptr f ad);
        a2 \<leftarrow> read_at 10 6 (frame_ptr f ad);
        Some (RX_FAIL, None, addrs a1 a2) }) }"

definition validate_recv_data_frame :: "u16 \<Rightarrow> nat \<Rightarrow> rx_adapter \<Rightarrow> (rx_result \<times> rx_adapter) option" where
  "validate_recv_data_frame fc f ad = do {
     (ret, psta, ad1) \<leftarrow> filter_data_frame fc f ad;
     (if ret \<noteq> RX_SUCCESS then Some (ret, ad1)
      else case psta of
        None \<Rightarrow> Some (RX_FAIL, ad1)
      | Some i \<Rightarrow> do {
          ad2 \<leftarrow> set_qos_fields f ad1;
          let fr = (rxf ad2 f)\<lparr>rx_psta := Some i, rx_preorder := Some (i, unat (rx_priority (rxf ad2 f)))\<rparr>;
          let ad3 = set_rxf f fr ad2;
          (case recv_decache fr (tid_rxseq (get_sta i ad3)) of
             (st, cache) \<Rightarrow>
               let ad4 = set_sta i ((get_sta i ad3)\<lparr>tid_rxseq := cache\<rparr>) ad3 in
               Some (if st = FAIL then (RX_FAIL, ad4) else (RX_SUCCESS, set_cipher_fields i f ad4))) }) }"

section \<open>Control and management frames\<close>

definition GetFrameType16 :: "u16 \<Rightarrow> u16" where "GetFrameType16 fc = fc AND 0x0c"
definition GetFrameSubType16 :: "u16 \<Rightarrow> u16" where "GetFrameSubType16 fc = fc AND 0xfc"

text \<open>A PS-Poll shows that the station is alive and, when it sleeps, takes a buffered frame.\<close>

definition answer_pspoll :: "nat \<Rightarrow> rx_adapter \<Rightarrow> rx_adapter" where
  "answer_pspoll i ad =
     (let p = get_sta i ad;
          ad1 = (if sta_state p AND WIFI_STA_ALIVE_CHK_STATE \<noteq> 0
                 then set_sta i (p\<lparr>expire_to := sta_expire_to (stapriv ad),
                   sta_state := sta_state p XOR WIFI_STA_ALIVE_CHK_STATE\<rparr>) ad
                 else ad)
      in if sta_state (get_sta i ad1) AND WIFI_SLEEP_STATE \<noteq> 0 \<and>
            aid_bit (aid p) (sta_dz_bitmap (stapriv ad1))
         then serve_pspoll i ad1 else ad1)"

definition validate_recv_ctrl_frame :: "u16 \<Rightarrow> nat \<Rightarrow> rx_adapter \<Rightarrow> (rx_result \<times> rx_adapter) option" where
  "validate_recv_ctrl_frame fc f ad =
     (if GetFrameType16 fc \<noteq> 0x04 then Some (RX_FAIL, ad)
      else do {
        a1 \<leftarrow> read_at 4 6 (frame_ptr f ad);
        (if a1 \<noteq> myid ad then Some (RX_FAIL, ad)
         else if GetFrameSubType16 fc \<noteq> 0xa4 then Some (RX_FAIL, ad)
         else do {
           d \<leftarrow> hdr16 2 (frame_ptr f ad);
           a2 \<leftarrow> read_at 10 6 (frame_ptr f ad);
           (case rtw_get_stainfo (stapriv ad) (Some a2) of
              None \<Rightarrow> Some (RX_FAIL, ad)
            | Some i \<Rightarrow>
                Some (RX_FAIL,
                  if aid (get_sta i ad) \<noteq> GetAid d \<or>
                     bit (wmmps_ac (rx_priority (rxf ad f)) (get_sta i ad)) 0
                  then ad else answer_pspoll i ad)) }) })"

definition validate_recv_mgnt_frame :: "nat \<Rightarrow> rx_adapter \<Rightarrow> (rx_result \<times> rx_adapter) option" where
  "validate_recv_mgnt_frame f ad = do {
     (r, ad1) \<leftarrow> recvframe_chk_defrag f ad;
     (case r of
        None \<Rightarrow> Some (RX_SUCCESS, ad1)
      | Some g \<Rightarrow> Some (RX_SUCCESS, rx_event (Mgt_dispatcher g) ad1)) }"

section \<open>Validation and the whole of reception\<close>

definition set_header_fields :: "u16 \<Rightarrow> u16 \<Rightarrow> rx_frame \<Rightarrow> rx_frame" where
  "set_header_fields fc sc fr = fr\<lparr>rx_to_fr_ds := get_tofr_ds fc, rx_frag_num := GetFragNum sc,
     rx_seq_num := GetSequence sc, rx_pw_save := GetPwrMgt fc, rx_mfrag := of_bool (GetMFrag fc),
     rx_mdata := GetMData fc, rx_privacy := of_bool (GetPrivacy fc), rx_order := GetOrder fc\<rparr>"

definition validate_recv_frame :: "nat \<Rightarrow> rx_adapter \<Rightarrow> (rx_result \<times> rx_adapter) option" where
  "validate_recv_frame f ad = do {
     b \<leftarrow> byte_at 0 (frame_ptr f ad);
     (if b AND 0x3 \<noteq> 0 then Some (RX_FAIL, ad)
      else do {
        fc \<leftarrow> hdr16 0 (frame_ptr f ad);
        sc \<leftarrow> hdr16 22 (frame_ptr f ad);
        let ad1 = set_rxf f (set_header_fields fc sc (rxf ad f)) ad;
        (if GetFrameType16 fc = 0
         then do { (r, ad2) \<leftarrow> validate_recv_mgnt_frame f ad1; Some (RX_FAIL, ad2) }
         else if GetFrameType16 fc = 0x04
         then do { (r, ad2) \<leftarrow> validate_recv_ctrl_frame fc f ad1; Some (RX_FAIL, ad2) }
         else if GetFrameType16 fc = 0x08
         then do {
           let ad2 = set_rxf f ((rxf ad1 f)\<lparr>rx_qos := of_bool (bit fc 7)\<rparr>) ad1;
           (r, ad3) \<leftarrow> validate_recv_data_frame fc f ad2;
           Some (r, if r = RX_FAIL then drop_count ad3 else ad3) }
         else Some (RX_FAIL, ad1)) }) }"

definition recv_func_prehandle :: "nat \<Rightarrow> rx_adapter \<Rightarrow> (rx_result \<times> rx_adapter) option" where
  "recv_func_prehandle f ad = do {
     (ret, ad1) \<leftarrow> validate_recv_frame f ad;
     Some (ret, if ret \<noteq> RX_SUCCESS then free_frame f ad1 else ad1) }"

text \<open>
  The frames that wait for the pairwise key. Each turn takes one off its queue and nothing in
  \<^verbatim>\<open>recv_func_posthandle\<close> puts one on, so that the length of the queue is enough fuel.
\<close>

definition is_wep_enc :: "nat \<Rightarrow> bool" where "is_wep_enc alg \<longleftrightarrow> alg = WEP40 \<or> alg = WEP104"

definition recv_func :: "nat \<Rightarrow> rx_adapter \<Rightarrow> (rx_result \<times> rx_adapter) option" where
  "recv_func f ad = do {
     ad1 \<leftarrow> (if check_fwstate ad WIFI_STATION_STATE \<and> busetkipkey (securitypriv ad)
            then recv_uc_swdec ad (Suc (length (rqueue (recvpriv ad) UC_SWDEC_PENDING)))
            else Some ad);
     (ret, ad2) \<leftarrow> recv_func_prehandle f ad1;
     (if ret = RX_SUCCESS
      then
        let a = rx_attrs (rxf ad2 f); sp = securitypriv ad2 in
        if check_fwstate ad2 WIFI_STATION_STATE \<and> \<not> IS_MCAST (rx_ra a) \<and> 0 < rx_encrypt a \<and>
           (rx_bdecrypted (rxf ad2 f) = 0 \<or> sw_decrypt sp) \<and> \<not> is_wep_enc (dot11PrivacyAlgrthm sp) \<and>
           \<not> busetkipkey sp
        then Some (RX_SUCCESS, ad2\<lparr>recvpriv := rtw_enqueue_recvframe f UC_SWDEC_PENDING (recvpriv ad2)\<rparr>)
        else do {
          (st, ad3) \<leftarrow> recv_func_posthandle f ad2;
          Some (if st = SUCCESS then RX_SUCCESS else RX_FAIL, ad3) }
      else Some (ret, ad2)) }"

section \<open>The pool during validation\<close>

lemma rx_pool_set_new:
  assumes "rx_pool U S ad" and "f \<notin> S" and "rx_amsdu fr = 0 \<or> rx_amsdu fr = 1" and "rx_mfrag fr = 0 \<or> rx_mfrag fr = 1"
  shows "rx_pool U S (set_rxf f fr ad)"
proof -
  have "f \<notin> set U" using assms(1) rx_pool_fresh [OF assms(1,2), of UC_SWDEC_PENDING] by (simp add: rx_pool_def)
  then show ?thesis using assms by (auto simp: rx_pool_def rx_running_def)
qed

lemma rx_pool_event [simp]: "rx_pool U S (rx_event e ad) = rx_pool U S ad"
  by (simp add: rx_event_def rx_pool_def rx_running_def)

lemma rx_pool_stapriv [simp]: "rx_pool U S (ad\<lparr>stapriv := s\<rparr>) = rx_pool U S ad"
  by (simp add: rx_pool_def rx_running_def)

lemma rx_pool_set_sta [simp]: "rx_pool U S (set_sta i p ad) = rx_pool U S ad"
  by (simp add: set_sta_def)

text \<open>The validation of data frames touches nothing but the frame itself, the station's cache and the events.\<close>

definition only_frame :: "nat \<Rightarrow> rx_adapter \<Rightarrow> rx_adapter \<Rightarrow> bool" where
  "only_frame f ad ad' \<longleftrightarrow> recvpriv ad' = recvpriv ad \<and> rx_running ad' = rx_running ad \<and>
     securitypriv ad' = securitypriv ad \<and>
     (\<forall>g. g \<noteq> f \<longrightarrow> rxf ad' g = rxf ad g) \<and> rx_mfrag (rxf ad' f) = rx_mfrag (rxf ad f) \<and>
     rx_frag_num (rxf ad' f) = rx_frag_num (rxf ad f) \<and>
     (rx_amsdu (rxf ad' f) = rx_amsdu (rxf ad f) \<or> rx_amsdu (rxf ad' f) = 0 \<or> rx_amsdu (rxf ad' f) = 1)"

lemma only_frame_refl [simp]: "only_frame f ad ad"
  by (simp add: only_frame_def)

lemma only_frame_trans: "only_frame f a b \<Longrightarrow> only_frame f b c \<Longrightarrow> only_frame f a c"
  by (auto simp: only_frame_def)

lemma only_frame_event [simp]: "only_frame f ad (rx_event e ad') = only_frame f ad ad'"
  by (simp add: only_frame_def rx_event_def rx_running_def)

lemma only_frame_set_sta [simp]: "only_frame f ad (set_sta i p ad') = only_frame f ad ad'"
  by (simp add: only_frame_def set_sta_def rx_running_def)

lemma only_frame_view: "tx_view ad2 = tx_view ad1 \<Longrightarrow> only_frame f ad ad2 = only_frame f ad ad1"
  using tx_view_fields [of ad2 ad1] by (simp add: only_frame_def rx_running_def)

lemma only_frame_rxf: "rx_flags fr = rx_flags (rxf ad f) \<Longrightarrow> only_frame f ad (set_rxf f fr ad)"
  by (auto simp: only_frame_def rx_flags_def rx_running_def)

lemma rx_flags_more [simp]:
  "rx_flags (fr\<lparr>rx_dst := a\<rparr>) = rx_flags fr" "rx_flags (fr\<lparr>rx_src := a\<rparr>) = rx_flags fr"
  "rx_flags (fr\<lparr>rx_bssid := a\<rparr>) = rx_flags fr" "rx_flags (fr\<lparr>rx_psta := b\<rparr>) = rx_flags fr"
  "rx_flags (fr\<lparr>rx_preorder := c\<rparr>) = rx_flags fr" "rx_flags (fr\<lparr>rx_privacy := d\<rparr>) = rx_flags fr"
  "rx_flags (fr\<lparr>rx_qos := d\<rparr>) = rx_flags fr"
  by (simp_all add: rx_flags_def)

lemma rx_pool_only_frame:
  assumes "rx_pool U S ad" and "f \<notin> S" and "only_frame f ad ad'"
  shows "rx_pool U S ad'"
proof -
  have "f \<notin> set U" using assms(1) rx_pool_fresh [OF assms(1,2), of UC_SWDEC_PENDING] by (simp add: rx_pool_def)
  then have "rx_mfrag (rxf ad' g) = 0 \<and> rx_frag_num (rxf ad' g) = 0" if "g \<in> set U" for g
    using assms(1,3) that by (auto simp: rx_pool_def only_frame_def)
  moreover have "(rx_amsdu (rxf ad' g) = 0 \<or> rx_amsdu (rxf ad' g) = 1) \<and> (rx_mfrag (rxf ad' g) = 0 \<or> rx_mfrag (rxf ad' g) = 1)" for g
    using assms(1,3) by (cases "g = f") (auto simp: rx_pool_def only_frame_def)
  ultimately show ?thesis using assms(1,3) by (simp add: rx_pool_def only_frame_def)
qed

lemma find_psta_same: "find_psta b a r ad = (ret, p, ad') \<Longrightarrow> ad' = ad"
  by (simp add: find_psta_def split: option.splits)

lemma mp_addresses_only: "mp_addresses f ad = Some ad' \<Longrightarrow> only_frame f ad ad'"
  by (auto simp: mp_addresses_def bind_eq_Some_conv Let_def intro!: only_frame_rxf)

lemma sta2sta_only: "sta2sta_data_frame f ad = Some (ret, p, ad') \<Longrightarrow> only_frame f ad ad'"
  unfolding sta2sta_data_frame_def Let_def
  by (auto simp: bind_eq_Some_conv split: if_split_asm dest!: find_psta_same mp_addresses_only)

lemma ap2sta_only: "ap2sta_data_frame f ad = Some (ret, p, ad') \<Longrightarrow> only_frame f ad ad'"
  unfolding ap2sta_data_frame_def Let_def
  by (auto simp: bind_eq_Some_conv split: if_split_asm option.split_asm
      dest!: find_psta_same mp_addresses_only intro: only_frame_trans [OF _ only_frame_rxf])

lemma process_data_view:
  "process_pwrbit_data fc f ad = Some ad' \<Longrightarrow> tx_view ad' = tx_view ad"
  "tx_view (process_wmmps_data f ad) = tx_view ad"
  by (auto simp: process_pwrbit_data_def process_wmmps_data_def Let_def dest: tx_view_stop split: option.splits if_split_asm)

lemma sta2ap_view:
  assumes "sta2ap_data_frame fc f ad = Some (ret, p, ad')"
  shows "tx_view ad' = tx_view ad"
  using assms unfolding sta2ap_data_frame_def Let_def
  by (auto simp: bind_eq_Some_conv process_data_view(2) dest: process_data_view(1) split: if_split_asm option.split_asm)

lemma sta2ap_only: "sta2ap_data_frame fc f ad = Some (ret, p, ad') \<Longrightarrow> only_frame f ad ad'"
  using only_frame_view [OF sta2ap_view, of fc f ad ret p ad' f ad] by simp

lemma filter_data_frame_only:
  assumes "filter_data_frame fc f ad = Some (ret, p, ad')"
  shows "only_frame f ad ad'"
proof -
  have a: "only_frame f ad (set_rxf f ((rxf ad f)\<lparr>rx_dst := x, rx_src := y, rx_bssid := z,
       rx_attrs := b\<rparr>) ad)" for x y z b
    by (rule only_frame_rxf) simp
  show ?thesis
    using assms unfolding filter_data_frame_def Let_def
    by (auto simp: bind_eq_Some_conv split: if_split_asm
        dest!: sta2sta_only ap2sta_only sta2ap_only intro: only_frame_trans [OF a] a)
qed

lemma GetAMsdu_1: "GetAMsdu qc = 1 \<longleftrightarrow> GetAMsdu qc \<noteq> 0"
  by (simp add: GetAMsdu_def and_one_eq mod_2_eq_odd)

lemma set_qos_fields_only: "set_qos_fields f ad = Some ad' \<Longrightarrow> only_frame f ad ad'"
  by (auto simp: set_qos_fields_def Let_def bind_eq_Some_conv only_frame_def rx_running_def GetAMsdu_1
      split: if_split_asm)

lemma set_cipher_fields_only: "only_frame f ad (set_cipher_fields i f ad)"
  by (auto simp: set_cipher_fields_def Let_def case_prod_beta intro!: only_frame_rxf)

lemma validate_recv_data_frame_only:
  assumes "validate_recv_data_frame fc f ad = Some (r, ad')"
  shows "only_frame f ad ad'"
proof -
  obtain ret psta ad1 where fl: "filter_data_frame fc f ad = Some (ret, psta, ad1)"
    using assms by (auto simp: validate_recv_data_frame_def bind_eq_Some_conv)
  note o1 = filter_data_frame_only [OF fl]
  show ?thesis
  proof (cases "ret = RX_SUCCESS \<and> psta \<noteq> None")
    case False
    then show ?thesis using assms fl o1
      by (cases psta) (auto simp: validate_recv_data_frame_def split: if_split_asm)
  next
    case True
    then obtain i where i: "psta = Some i" by blast
    obtain ad2 where q: "set_qos_fields f ad1 = Some ad2"
      using assms fl True i by (auto simp: validate_recv_data_frame_def bind_eq_Some_conv)
    define fr where "fr = (rxf ad2 f)\<lparr>rx_psta := Some i, rx_preorder := Some (i, unat (rx_priority (rxf ad2 f)))\<rparr>"
    define ad3 where "ad3 = set_rxf f fr ad2"
    obtain st cache where d: "recv_decache fr (tid_rxseq (get_sta i ad3)) = (st, cache)" by fastforce
    define ad4 where "ad4 = set_sta i ((get_sta i ad3)\<lparr>tid_rxseq := cache\<rparr>) ad3"
    have "only_frame f ad2 ad3" unfolding ad3_def by (rule only_frame_rxf) (simp add: fr_def)
    then have o4: "only_frame f ad ad4"
      using only_frame_trans [OF o1 only_frame_trans [OF set_qos_fields_only [OF q]]] by (simp add: ad4_def)
    have "ad' = (if st = FAIL then ad4 else set_cipher_fields i f ad4)"
      using assms fl True i q d
      by (auto simp: validate_recv_data_frame_def Let_def fr_def [symmetric] ad3_def [symmetric] ad4_def [symmetric]
          split: if_splits)
    then show ?thesis using o4 only_frame_trans [OF o4 set_cipher_fields_only] by simp
  qed
qed


lemma answer_pspoll_view: "tx_view (answer_pspoll i ad) = tx_view ad"
  by (simp add: answer_pspoll_def Let_def tx_view_set_sta)

lemma answer_pspoll_only: "only_frame f ad (answer_pspoll i ad)"
  using only_frame_view [OF answer_pspoll_view] by simp

lemma validate_recv_ctrl_frame_only:
  "validate_recv_ctrl_frame fc f ad = Some (r, ad') \<Longrightarrow> only_frame f ad ad'"
  by (auto simp: validate_recv_ctrl_frame_def bind_eq_Some_conv answer_pspoll_only
      split: if_split_asm option.split_asm)

definition management_frame :: "nat \<Rightarrow> rx_adapter \<Rightarrow> bool" where
  "management_frame f ad \<longleftrightarrow> (\<exists>fc. hdr16 0 (frame_ptr f ad) = Some fc \<and> GetFrameType16 fc = 0)"

definition unfragmented :: "nat \<Rightarrow> rx_adapter \<Rightarrow> bool" where
  "unfragmented f ad \<longleftrightarrow> (\<exists>fc sc. hdr16 0 (frame_ptr f ad) = Some fc \<and> hdr16 22 (frame_ptr f ad) = Some sc \<and>
     \<not> GetMFrag fc \<and> GetFragNum sc = 0)"

lemma rx_pool_validate:
  assumes "validate_recv_frame f ad = Some (r, ad')" and "rx_pool U S ad" and "f \<notin> S"
    and "\<not> management_frame f ad"
  shows "rx_pool U S ad' \<and> securitypriv ad' = securitypriv ad \<and> (r = RX_SUCCESS \<and> unfragmented f ad \<longrightarrow>
    rx_mfrag (rxf ad' f) = 0 \<and> rx_frag_num (rxf ad' f) = 0)"
proof -
  obtain b where b: "byte_at 0 (frame_ptr f ad) = Some b"
    using assms(1) by (auto simp: validate_recv_frame_def bind_eq_Some_conv)
  show ?thesis
  proof (cases "b AND 0x3 = 0")
    case False
    then show ?thesis using assms(1,2) b by (auto simp: validate_recv_frame_def)
  next
    case True
    then obtain fc sc where h: "hdr16 0 (frame_ptr f ad) = Some fc" "hdr16 22 (frame_ptr f ad) = Some sc"
      using assms(1) b by (auto simp: validate_recv_frame_def bind_eq_Some_conv)
    define fr where "fr = set_header_fields fc sc (rxf ad f)"
    define ad1 where "ad1 = set_rxf f fr ad"
    have p1: "rx_pool U S ad1"
      unfolding ad1_def using assms(2)
      by (intro rx_pool_set_new [OF assms(2,3)]) (auto simp: fr_def set_header_fields_def rx_pool_def)
    have fl: "rx_mfrag (rxf ad1 f) = of_bool (GetMFrag fc)" "rx_frag_num (rxf ad1 f) = GetFragNum sc"
      by (simp_all add: ad1_def fr_def set_header_fields_def)
    have ty: "GetFrameType16 fc \<noteq> 0" using assms(4) h(1) by (simp add: management_frame_def)
    define ad2 where "ad2 = set_rxf f ((rxf ad1 f)\<lparr>rx_qos := of_bool (bit fc 7)\<rparr>) ad1"
    have code: "(if GetFrameType16 fc = 0x04
         then do { (r, ad2) \<leftarrow> validate_recv_ctrl_frame fc f ad1; Some (RX_FAIL, ad2) }
         else if GetFrameType16 fc = 0x08
         then do { (r, ad3) \<leftarrow> validate_recv_data_frame fc f ad2;
                   Some (r, if r = RX_FAIL then drop_count ad3 else ad3) }
         else Some (RX_FAIL, ad1)) = Some (r, ad')"
      using assms(1) unfolding validate_recv_frame_def Let_def b h bind.bind_lunit fr_def [symmetric]
        ad1_def [symmetric] ad2_def [symmetric]
      by (simp only: \<open>b AND 0x3 = 0\<close> ty simp_thms if_True if_False)
    have "only_frame f ad1 ad'"
    proof (cases "GetFrameType16 fc = 0x08")
      case True
      have o: "only_frame f ad1 ad2"
        unfolding ad2_def by (rule only_frame_rxf) simp
      obtain r3 ad3 where v: "validate_recv_data_frame fc f ad2 = Some (r3, ad3)"
        and ad': "ad' = (if r3 = RX_FAIL then drop_count ad3 else ad3)"
        using code True by (auto simp: bind_eq_Some_conv)
      have "only_frame f ad1 ad3" by (rule only_frame_trans [OF o validate_recv_data_frame_only [OF v]])
      then show ?thesis by (auto simp: ad' drop_count_def only_frame_def rx_running_def)
    next
      case False
      then show ?thesis
        using code by (auto simp: bind_eq_Some_conv dest: validate_recv_ctrl_frame_only split: if_split_asm)
    qed
    then show ?thesis
      using rx_pool_only_frame [OF p1 assms(3)] fl h by (auto simp: unfragmented_def only_frame_def ad1_def)
  qed
qed

lemma rx_pool_prehandle:
  assumes "recv_func_prehandle f ad = Some (r, ad')" and "rx_pool U S ad" and "f \<notin> S" and "f < NR_RECVFRAME"
    and "\<not> management_frame f ad"
  shows "rx_pool U (if r = RX_SUCCESS then S else insert f S) ad' \<and> securitypriv ad' = securitypriv ad \<and> (r = RX_SUCCESS \<and> unfragmented f ad \<longrightarrow>
    rx_mfrag (rxf ad' f) = 0 \<and> rx_frag_num (rxf ad' f) = 0)"
proof -
  obtain ad1 where v: "validate_recv_frame f ad = Some (r, ad1)"
    and ad': "ad' = (if r \<noteq> RX_SUCCESS then free_frame f ad1 else ad1)"
    using assms(1) by (auto simp: recv_func_prehandle_def bind_eq_Some_conv)
  note p = rx_pool_validate [OF v assms(2,3,5)]
  moreover have "securitypriv (free_frame f ad1) = securitypriv ad1" by (simp add: free_frame_def)
  ultimately show ?thesis using rx_pool_free_frame [OF _ assms(4,3)] by (auto simp: ad')
qed

text \<open>
  Processing a frame changes no frame that is on no queue, and not the mark that the keys are there.
\<close>

definition spares :: "nat \<Rightarrow> rx_adapter \<Rightarrow> rx_adapter \<Rightarrow> bool" where
  "spares h ad ad' \<longleftrightarrow> rxf ad' h = rxf ad h \<and> busetkipkey (securitypriv ad') = busetkipkey (securitypriv ad)"

lemma spares_refl [simp]: "spares h ad ad"
  by (simp add: spares_def)

lemma spares_trans: "spares h a b \<Longrightarrow> spares h b c \<Longrightarrow> spares h a c"
  by (simp add: spares_def)

lemma spares_simps [simp]:
  "spares h ad (ad'\<lparr>recvpriv := rp\<rparr>) = spares h ad ad'" "spares h ad (free_frame f ad') = spares h ad ad'"
  "spares h ad (drop_count ad') = spares h ad ad'" "spares h ad (set_ctrl i t c ad') = spares h ad ad'"
  "spares h ad (snd (rtw_recv_indicatepkt f ad')) = spares h ad ad'"
  "spares h ad (set_hw_decrypted b ad') = spares h ad ad'"
  "spares h ad (rtw_handle_tkip_mic_err ad') = spares h ad ad'"
  by (auto simp: spares_def free_frame_def drop_count_def set_ctrl_def Let_def rtw_recv_indicatepkt_def
      set_hw_decrypted_def rtw_handle_tkip_mic_err_def split: option.splits)

lemma spares_set_rxf: "h \<noteq> f \<Longrightarrow> spares h ad (set_rxf f fr ad') = spares h ad ad'"
  by (simp add: spares_def)

lemma spares_amsdu: "h \<noteq> f \<Longrightarrow> spares h ad (snd (amsdu_to_msdu f ad'))= spares h ad ad'"
  by (simp add: spares_def amsdu_to_msdu_def Let_def free_frame_def)

lemma spares_indicate_frame: "h \<noteq> f \<Longrightarrow> spares h ad (indicate_frame f ad') = spares h ad ad'"
  using spares_amsdu [of h f ad ad'] by (auto simp: indicate_frame_def split: prod.splits)

lemma spares_indicate_loop: "h \<notin> set fs \<Longrightarrow> spares h ad (snd (indicate_loop i t fs ad))"
proof (induction fs arbitrary: ad)
  case (Cons f fs)
  have "spares h ad ad2 \<Longrightarrow> spares h ad (snd (indicate_loop i t fs (indicate_frame f ad2)))" for ad2
    using Cons spares_trans [of h ad "indicate_frame f ad2"] by (simp add: spares_indicate_frame)
  then show ?case by (simp add: Let_def)
qed simp

lemma spares_in_order:
  assumes "h \<notin> set (rqueue (recvpriv ad) (REORDER i t))"
  shows "spares h ad (snd (recv_indicatepkts_in_order i t b ad))"
proof -
  have "spares h ad (snd (indicate_loop i t (rqueue (recvpriv ad) (REORDER i t)) (set_ctrl i t c ad)))" for c
    using spares_trans [OF _ spares_indicate_loop [OF assms], of ad "set_ctrl i t c ad"] by simp
  then show ?thesis
    using spares_indicate_loop [OF assms]
    by (auto simp: recv_indicatepkts_in_order_def Let_def simp del: indicate_loop.simps split: list.splits)
qed

lemma spares_reorder:
  assumes "h \<noteq> f" and "h \<notin> set (rqueue (recvpriv ad) (REORDER i t))"
  shows "spares h ad (snd (reorder_steps i t f ad))"
proof -
  have e: "spares h ad (snd (enqueue_reorder_recvframe i t f (set_ctrl i t c ad))) \<and>
      h \<notin> set (rqueue (recvpriv (snd (enqueue_reorder_recvframe i t f (set_ctrl i t c ad)))) (REORDER i t))" for c
    using assms enqueue_reorder_set by (auto simp: enqueue_reorder_recvframe_def split: option.splits)
  then have "spares h ad (snd (recv_indicatepkts_in_order i t False (snd (enqueue_reorder_recvframe i t f (set_ctrl i t c ad)))))" for c
    using spares_trans [OF _ spares_in_order] by blast
  then show ?thesis
    using e by (auto simp: reorder_steps_def Let_def set_reorder_timer_def case_prod_beta split: bool.splits)
qed

lemma spares_indicate:
  assumes "process_recv_indicatepkts f ad = Some (st, ad')" and "h \<noteq> f"
    and "\<And>q. h \<notin> set (rqueue (recvpriv ad) q)"
  shows "spares h ad ad'"
proof -
  have r: "spares h ad (snd (reorder_steps i t f (set_rxf f fr ad)))" for i t fr
    using spares_trans [OF _ spares_reorder [of h f "set_rxf f fr ad" i t]] assms(2,3) by (simp add: spares_set_rxf)
  have r0: "spares h ad (snd (reorder_steps i t f ad))" for i t
    using assms(2,3) by (rule spares_reorder)
  have "spares h ad ad1" if "recv_indicatepkt_reorder f ad = Some (st1, ad1)" for st1 ad1
    using that assms(2) r r0 unfolding recv_indicatepkt_reorder_def Let_def
    by (auto simp: bind_eq_Some_conv spares_set_rxf case_prod_beta spares_amsdu split: if_split_asm; metis snd_conv)
  then show ?thesis
    using assms(1,2) unfolding process_recv_indicatepkts_def Let_def
    by (auto simp: bind_eq_Some_conv spares_set_rxf split: if_split_asm)
qed

lemma spares_chkmic: "recvframe_chkmic f ad = Some (st, ad') \<Longrightarrow> h \<noteq> f \<Longrightarrow> spares h ad ad'"
  by (auto simp: recvframe_chkmic_def Let_def bind_eq_Some_conv pull_tail_frame_def spares_set_rxf
      split: if_splits option.splits) (auto simp: spares_def)

text \<open>The frame that is processed is whole, so that no queue of fragments is looked at.\<close>

lemma spares_posthandle:
  assumes "recv_func_posthandle f ad = Some (st, ad')" and pool: "rx_pool U S ad" "f \<notin> S" "f < NR_RECVFRAME"
    and whole: "rx_mfrag (rxf ad f) = 0" "rx_frag_num (rxf ad f) = 0" and h: "h \<notin> insert f S"
  shows "spares h ad ad'"
proof -
  obtain r1 ad1 where d: "decryptor f ad = Some (r1, ad1)"
    using assms(1) by (auto simp: recv_func_posthandle_def bind_eq_Some_conv)
  have s1: "spares h ad ad1"
    using d h by (auto simp: decryptor_def Let_def bind_eq_Some_conv spares_set_rxf split: if_split_asm)
  have p1: "(r1 = None \<or> r1 = Some f \<and> rx_pool U S ad1) \<and> rx_flags (rxf ad1 f) = rx_flags (rxf ad f)"
    using rx_pool_decryptor [OF d pool] by blast
  show ?thesis
  proof (cases r1)
    case None
    then show ?thesis using assms(1) d s1 by (auto simp: recv_func_posthandle_def)
  next
    case (Some f1)
    then have f1: "r1 = Some f" "rx_pool U S ad1" "chk_defrag_queue f ad1 = Some (Some f, ad1)"
      using p1 whole by (auto simp: rx_flags_def chk_defrag_queue_def Let_def)
    obtain r2 ad2 where c: "recvframe_chk_defrag f ad1 = Some (r2, ad2)"
      using assms(1) d f1(1) by (auto simp: recv_func_posthandle_def bind_eq_Some_conv)
    have "spares h ad1 ad2 \<and> (r2 = None \<or> r2 = Some f \<and> rx_pool U S ad2)"
      using c h f1(2) rx_pool_chkmic [of f ad1] spares_chkmic [of f ad1]
      by (auto simp: recvframe_chk_defrag_def f1(3) bind_eq_Some_conv split: if_split_asm)
    then have s2: "spares h ad ad2" "r2 = None \<or> r2 = Some f \<and> rx_pool U S ad2"
      using spares_trans [OF s1] by blast+
    show ?thesis
    proof (cases r2)
      case None
      then show ?thesis using assms(1) d f1(1) c s2(1) by (auto simp: recv_func_posthandle_def)
    next
      case (Some f2)
      then have f2: "r2 = Some f" "rx_pool U S ad2" using s2(2) by auto
      obtain r3 ad3 where o: "portctrl f ad2 = Some (r3, ad3)"
        using assms(1) d f1(1) c f2(1) by (auto simp: recv_func_posthandle_def bind_eq_Some_conv)
      have o3: "r3 = None \<and> ad3 = free_frame f ad2 \<or> r3 = Some f \<and> ad3 = ad2"
        using o by (auto simp: portctrl_def Let_def bind_eq_Some_conv split: if_split_asm option.split_asm)
      show ?thesis
      proof (cases r3)
        case None
        then show ?thesis using assms(1) d f1(1) c f2(1) o o3 s2(1) by (auto simp: recv_func_posthandle_def)
      next
        case (Some f3)
        then have f3: "r3 = Some f" "ad3 = ad2" using o3 by auto
        obtain st4 ad4 where p: "process_recv_indicatepkts f ad2 = Some (st4, ad4)"
          and ad': "ad' = (if st4 \<noteq> SUCCESS then drop_count (free_frame f ad4) else ad4)"
          using assms(1) d f1(1) c f2(1) o f3 by (auto simp: recv_func_posthandle_def bind_eq_Some_conv split: if_split_asm)
        have "h \<notin> set (rqueue (recvpriv ad2) q)" for q using rx_pool_fresh [OF f2(2)] h by simp
        then have "spares h ad2 ad4" using spares_indicate [OF p] h by simp
        then show ?thesis using spares_trans [OF s2(1)] by (simp add: ad')
      qed
    qed
  qed
qed

text \<open>The frames that waited for a key are all processed, and all of them stay in the pool.\<close>

lemma recv_uc_swdec_drains:
  assumes "recv_uc_swdec ad n = Some ad'" and "rx_pool U S ad" and "length U < n"
  shows "rx_pool [] S ad' \<and> (\<forall>h. h \<notin> S \<longrightarrow> spares h ad ad')"
  using assms
proof (induction U arbitrary: ad n)
  case Nil
  then obtain m where "n = Suc m" by (cases n) auto
  with Nil show ?case by (auto simp: rtw_alloc_recvframe_def rx_pool_def)
next
  case (Cons g us)
  then obtain m where n: "n = Suc m" by (cases n) auto
  have q: "rqueue (recvpriv ad) UC_SWDEC_PENDING = g # us" using Cons.prems(2) by (simp add: rx_pool_def)
  note del = rx_pool_delete [OF Cons.prems(2) q, simplified]
  define ad0 where "ad0 = ad\<lparr>recvpriv := rq_delete g (recvpriv ad)\<rparr>"
  obtain st ad1 where p: "recv_func_posthandle g ad0 = Some (st, ad1)" and r: "recv_uc_swdec ad1 m = Some ad'"
    using Cons.prems(1) q by (auto simp: n ad0_def rtw_alloc_recvframe_def Let_def split: option.splits)
  have w: "rx_mfrag (rxf ad0 g) = 0" "rx_frag_num (rxf ad0 g) = 0" using Cons.prems(2) by (simp_all add: rx_pool_def ad0_def)
  have p0: "rx_pool us (S - {g}) ad0" using del(1) by (simp add: ad0_def)
  have S: "insert g (S - {g}) = S" using del(3) by blast
  have "rx_pool us S ad1"
    using recv_func_posthandle_pool [OF p p0 _ del(2)] w by (simp add: insert_absorb [OF del(3)])
  then have "rx_pool [] S ad' \<and> (\<forall>h. h \<notin> S \<longrightarrow> spares h ad1 ad')"
    using Cons.IH [OF r] Cons.prems(3) by (simp add: n)
  moreover have "spares h ad ad1" if "h \<notin> S" for h
    using spares_posthandle [OF p p0 _ del(2) w, of h] that del(3) by (auto simp: ad0_def spares_def)
  ultimately show ?case using spares_trans by blast
qed

text \<open>A frame on no queue is validated as it was after the waiting frames have been processed.\<close>

lemma spares_header:
  assumes "spares f ad ad'"
  shows "management_frame f ad' = management_frame f ad" and "unfragmented f ad' = unfragmented f ad"
  using assms by (simp_all add: spares_def management_frame_def unfragmented_def frame_ptr_def)

lemma recv_func_pool:
  assumes "recv_func f ad = Some (r, ad')" and "rx_pool U S ad" and "f \<notin> S" and "f < NR_RECVFRAME"
    and "\<not> management_frame f ad" and "r \<noteq> RX_FAIL \<or> unfragmented f ad"
  shows "recv_inv (recvpriv ad') \<and> (\<Union>q. set (rqueue (recvpriv ad') q)) = insert f S \<and>
    (check_fwstate ad WIFI_STATION_STATE \<and> busetkipkey (securitypriv ad) \<longrightarrow> rqueue (recvpriv ad') UC_SWDEC_PENDING = [])"
proof -
  let ?drain = "check_fwstate ad WIFI_STATION_STATE \<and> busetkipkey (securitypriv ad)"
  obtain ad1 where dr: "(if ?drain then recv_uc_swdec ad (Suc (length (rqueue (recvpriv ad) UC_SWDEC_PENDING)))
      else Some ad) = Some ad1"
    using assms(1) unfolding recv_func_def by (auto simp: bind_eq_Some_conv)
  have n: "length U < Suc (length (rqueue (recvpriv ad) UC_SWDEC_PENDING))" using assms(2) by (simp add: rx_pool_def)
  obtain V where V: "rx_pool V S ad1" "?drain \<longrightarrow> V = []" "spares f ad ad1"
  proof (cases ?drain)
    case True
    then have "recv_uc_swdec ad (Suc (length (rqueue (recvpriv ad) UC_SWDEC_PENDING))) = Some ad1"
      using dr by (simp only: simp_thms if_True)
    from recv_uc_swdec_drains [OF this assms(2) n] assms(3) show ?thesis by (intro that [of "[]"]) auto
  next
    case False
    then have "ad1 = ad" using dr by (simp only: if_False option.inject)
    with False assms(2) show ?thesis by (intro that [of U]) auto
  qed
  obtain r2 ad2 where pre: "recv_func_prehandle f ad1 = Some (r2, ad2)"
    and rest: "(if r2 = RX_SUCCESS
      then
        let a = rx_attrs (rxf ad2 f); sp = securitypriv ad2 in
        if check_fwstate ad2 WIFI_STATION_STATE \<and> \<not> IS_MCAST (rx_ra a) \<and> 0 < rx_encrypt a \<and>
           (rx_bdecrypted (rxf ad2 f) = 0 \<or> sw_decrypt sp) \<and> \<not> is_wep_enc (dot11PrivacyAlgrthm sp) \<and>
           \<not> busetkipkey sp
        then Some (RX_SUCCESS, ad2\<lparr>recvpriv := rtw_enqueue_recvframe f UC_SWDEC_PENDING (recvpriv ad2)\<rparr>)
        else do {
          (st, ad3) \<leftarrow> recv_func_posthandle f ad2;
          Some (if st = SUCCESS then RX_SUCCESS else RX_FAIL, ad3) }
      else Some (r2, ad2)) = Some (r, ad')"
    using assms(1) dr unfolding recv_func_def by (auto simp: bind_eq_Some_conv)
  note sh = spares_header [OF V(3)]
  have p: "rx_pool V (if r2 = RX_SUCCESS then S else insert f S) ad2" "securitypriv ad2 = securitypriv ad1"
    "r2 = RX_SUCCESS \<and> unfragmented f ad \<longrightarrow> rx_mfrag (rxf ad2 f) = 0 \<and> rx_frag_num (rxf ad2 f) = 0"
    using rx_pool_prehandle [OF pre V(1) assms(3,4)] assms(5) by (simp_all add: sh)
  have key: "?drain \<longrightarrow> busetkipkey (securitypriv ad2)" using V(3) p(2) by (simp add: spares_def)
  show ?thesis
  proof (cases "r2 = RX_SUCCESS")
    case False
    then show ?thesis using rest p(1) V(2) by (auto simp: rx_pool_def)
  next
    case True
    then have p2: "rx_pool V S ad2" and fl: "unfragmented f ad \<Longrightarrow> rx_mfrag (rxf ad2 f) = 0 \<and> rx_frag_num (rxf ad2 f) = 0"
      using p by auto
    consider (queue) "\<not> busetkipkey (securitypriv ad2)"
        "ad' = ad2\<lparr>recvpriv := rtw_enqueue_recvframe f UC_SWDEC_PENDING (recvpriv ad2)\<rparr>"
      | (post) st where "recv_func_posthandle f ad2 = Some (st, ad')" "r = (if st = SUCCESS then RX_SUCCESS else RX_FAIL)"
      using rest True by (auto simp: Let_def bind_eq_Some_conv split: if_split_asm)
    then show ?thesis
    proof cases
      case queue
      have fr: "f \<notin> set (rqueue (recvpriv ad2) q)" for q by (rule rx_pool_fresh [OF p2 assms(3)])
      then have "recv_inv (rtw_enqueue_recvframe f UC_SWDEC_PENDING (recvpriv ad2))"
        using p2 assms(4) by (intro enqueue_recvframe_inv) (auto simp: rx_pool_def)
      moreover have "(\<Union>q. set (rqueue (rtw_enqueue_recvframe f UC_SWDEC_PENDING (recvpriv ad2)) q)) = insert f S"
        using p2 fr by (auto simp: rx_pool_def enqueue_recvframe_fields)
      ultimately show ?thesis using key queue by (simp add: conj_commute) blast
    next
      case post
      have "st = SUCCESS \<or> rx_mfrag (rxf ad2 f) = 0 \<and> rx_frag_num (rxf ad2 f) = 0"
        using assms(6) post(2) fl by (auto split: if_split_asm)
      from recv_func_posthandle_pool [OF post(1) p2 assms(3,4) this] show ?thesis using V(2) by (simp add: rx_pool_def)
    qed
  qed
qed

section \<open>What validation accepts\<close>

lemma validate_success:
  assumes "validate_recv_frame f ad = Some (RX_SUCCESS, ad')"
  obtains fc sc ad1 i ad2 ad3 fr cache where
    "hdr16 0 (frame_ptr f ad) = Some fc" "hdr16 22 (frame_ptr f ad) = Some sc" "GetFrameType16 fc = 0x08"
    "ad1 = set_rxf f ((set_header_fields fc sc (rxf ad f))\<lparr>rx_qos := of_bool (bit fc 7)\<rparr>) ad"
    "filter_data_frame fc f ad1 = Some (RX_SUCCESS, Some i, ad2)" "set_qos_fields f ad2 = Some ad3"
    "fr = (rxf ad3 f)\<lparr>rx_psta := Some i, rx_preorder := Some (i, unat (rx_priority (rxf ad3 f)))\<rparr>"
    "recv_decache fr (tid_rxseq (get_sta i (set_rxf f fr ad3))) = (SUCCESS, cache)"
    "ad' = set_cipher_fields i f (set_sta i ((get_sta i (set_rxf f fr ad3))\<lparr>tid_rxseq := cache\<rparr>) (set_rxf f fr ad3))"
proof -
  obtain b where b: "byte_at 0 (frame_ptr f ad) = Some b"
    using assms(1) by (auto simp: validate_recv_frame_def bind_eq_Some_conv)
  have b0: "b AND 0x3 = 0" using assms b by (auto simp: validate_recv_frame_def split: if_split_asm)
  obtain fc sc where h: "hdr16 0 (frame_ptr f ad) = Some fc" "hdr16 22 (frame_ptr f ad) = Some sc"
    using assms(1) b b0 by (auto simp: validate_recv_frame_def bind_eq_Some_conv)
  define ad0 where "ad0 = set_rxf f (set_header_fields fc sc (rxf ad f)) ad"
  define ad1 where "ad1 = set_rxf f ((rxf ad0 f)\<lparr>rx_qos := of_bool (bit fc 7)\<rparr>) ad0"
  have ad1: "ad1 = set_rxf f ((set_header_fields fc sc (rxf ad f))\<lparr>rx_qos := of_bool (bit fc 7)\<rparr>) ad"
    by (simp add: ad1_def ad0_def set_rxf_def)
  have code: "(if GetFrameType16 fc = 0
         then do { (r, ad2) \<leftarrow> validate_recv_mgnt_frame f ad0; Some (RX_FAIL, ad2) }
         else if GetFrameType16 fc = 0x04
         then do { (r, ad2) \<leftarrow> validate_recv_ctrl_frame fc f ad0; Some (RX_FAIL, ad2) }
         else if GetFrameType16 fc = 0x08
         then do { (r, ad3) \<leftarrow> validate_recv_data_frame fc f ad1;
                   Some (r, if r = RX_FAIL then drop_count ad3 else ad3) }
         else Some (RX_FAIL, ad0)) = Some (RX_SUCCESS, ad')"
    using assms(1) unfolding validate_recv_frame_def Let_def b h bind.bind_lunit ad0_def [symmetric] ad1_def [symmetric]
    by (simp only: b0 simp_thms if_False)
  have ty: "GetFrameType16 fc = 0x08" using code by (auto simp: bind_eq_Some_conv split: if_split_asm)
  then have v: "validate_recv_data_frame fc f ad1 = Some (RX_SUCCESS, ad')"
    using code by (auto simp: bind_eq_Some_conv split: if_split_asm)
  then obtain ret p ad2 where fl: "filter_data_frame fc f ad1 = Some (ret, p, ad2)"
    by (auto simp: validate_recv_data_frame_def bind_eq_Some_conv)
  have ret: "ret = RX_SUCCESS" using v fl by (auto simp: validate_recv_data_frame_def split: if_split_asm)
  then obtain i where i: "p = Some i"
    using v fl by (cases p) (auto simp: validate_recv_data_frame_def)
  obtain ad3 where q: "set_qos_fields f ad2 = Some ad3"
    using v fl ret i by (auto simp: validate_recv_data_frame_def bind_eq_Some_conv)
  define fr where "fr = (rxf ad3 f)\<lparr>rx_psta := Some i, rx_preorder := Some (i, unat (rx_priority (rxf ad3 f)))\<rparr>"
  obtain st cache where d: "recv_decache fr (tid_rxseq (get_sta i (set_rxf f fr ad3))) = (st, cache)" by fastforce
  define ad4 where "ad4 = set_sta i ((get_sta i (set_rxf f fr ad3))\<lparr>tid_rxseq := cache\<rparr>) (set_rxf f fr ad3)"
  have "(if st = FAIL then (RX_FAIL, ad4) else (RX_SUCCESS, set_cipher_fields i f ad4)) = (RX_SUCCESS, ad')"
    using v unfolding validate_recv_data_frame_def fl ret i q Let_def bind.bind_lunit fr_def [symmetric] prod.case
      option.case d ad4_def [symmetric]
    by simp
  then have "st = SUCCESS" "ad' = set_cipher_fields i f ad4" by (cases st; simp)+
  then show thesis using that [OF h ty ad1 _ q fr_def] fl ret i d by (simp add: ad4_def)
qed

text \<open>The frame after the filter, and why it passed.\<close>

definition addressed :: "u16 \<Rightarrow> u8 list \<Rightarrow> rx_frame \<Rightarrow> bool" where
  "addressed fc ptr fr \<longleftrightarrow> get_da fc ptr = Some (rx_dst fr) \<and> get_sa fc ptr = Some (rx_src fr) \<and>
     get_hdr_bssid fc ptr = Some (rx_bssid fr)"

text \<open>
  What the filters ask of a frame with frame control \<open>fc\<close>, destination, source and BSSID. Bit 6 of
  the frame control is that of the subtypes without data.
\<close>

definition station_accepts :: "rx_adapter \<Rightarrow> u16 \<Rightarrow> mac \<Rightarrow> mac \<Rightarrow> mac \<Rightarrow> bool" where
  "station_accepts ad fc da sa bssid \<longleftrightarrow>
     get_tofr_ds fc = 1 \<and> (check_fwstate ad FW_LINKED \<or> check_fwstate ad FW_UNDER_LINKING) \<and> \<not> bit fc 6 \<and>
       bssid = get_bssid ad \<and> bssid \<noteq> null_mac \<and> sa \<noteq> myid ad \<and> (da = myid ad \<or> IS_MCAST da) \<or>
     get_tofr_ds fc = 0 \<and> sa = bssid"

definition ap_accepts :: "rx_adapter \<Rightarrow> u16 \<Rightarrow> mac \<Rightarrow> mac \<Rightarrow> mac \<Rightarrow> bool" where
  "ap_accepts ad fc da sa bssid \<longleftrightarrow>
     get_tofr_ds fc = 2 \<and> \<not> bit fc 6 \<and> bssid = get_bssid ad \<and> rtw_get_stainfo (stapriv ad) (Some sa) \<noteq> None \<or>
     get_tofr_ds fc = 0 \<and> (if IS_MCAST da then IS_MCAST bssid else bssid = da)"

abbreviation station_takes :: "rx_adapter \<Rightarrow> u16 \<Rightarrow> rx_frame \<Rightarrow> bool" where
  "station_takes ad fc fr \<equiv> station_accepts ad fc (rx_dst fr) (rx_src fr) (rx_bssid fr)"

abbreviation ap_takes :: "rx_adapter \<Rightarrow> u16 \<Rightarrow> rx_frame \<Rightarrow> bool" where
  "ap_takes ad fc fr \<equiv> ap_accepts ad fc (rx_dst fr) (rx_src fr) (rx_bssid fr)"

definition infrastructure :: "rx_adapter \<Rightarrow> bool" where
  "infrastructure ad \<longleftrightarrow> \<not> check_fwstate ad WIFI_ADHOC_STATE \<and> \<not> check_fwstate ad WIFI_ADHOC_MASTER_STATE \<and>
     \<not> check_fwstate ad WIFI_MP_STATE"

text \<open>Power saving leaves the addresses and the caches of the stations alone.\<close>

definition same_tables :: "rx_adapter \<Rightarrow> rx_adapter \<Rightarrow> bool" where
  "same_tables ad ad' \<longleftrightarrow> nsta ad' = nsta ad \<and> sta_hash (stapriv ad') = sta_hash (stapriv ad) \<and>
     (\<forall>i < nsta ad. hwaddr (get_sta i ad') = hwaddr (get_sta i ad) \<and> tid_rxseq (get_sta i ad') = tid_rxseq (get_sta i ad))"

lemma same_tables_stapriv: "stapriv ad' = stapriv ad \<Longrightarrow> same_tables ad ad'"
  by (simp add: same_tables_def nsta_def get_sta_def)

lemma same_tables_view: "tx_view ad' = tx_view ad \<Longrightarrow> same_tables ad ad'"
  using tx_view_fields(9,10) [of ad' ad] tx_view_sta(1,2) [of ad' ad] by (simp add: same_tables_def)

lemma same_tables_lookup:
  assumes "same_tables ad ad'" and "hash_ok ad"
  shows "rtw_get_stainfo (stapriv ad') a = rtw_get_stainfo (stapriv ad) a"
proof -
  have "hwaddr (stainfo_buf (stapriv ad') ! i) = hwaddr (stainfo_buf (stapriv ad) ! i)"
    if "i \<in> set (sta_hash (stapriv ad) ! unat (wifi_mac_hash b))" for i b
    using hash_bucket [OF assms(2) that] assms(1) by (simp add: same_tables_def get_sta_def)
  then show ?thesis
    using assms(1) unfolding rtw_get_stainfo_def Let_def same_tables_def
    by (cases a) (auto intro!: find_cong_set)
qed

lemma set_rxf_tables [simp]:
  "get_bssid (set_rxf f fr ad) = get_bssid ad" "check_fwstate (set_rxf f fr ad) st = check_fwstate ad st"
  "bcmc_station (set_rxf f fr ad) = bcmc_station ad"
  by (simp_all add: set_rxf_def check_fwstate_def bcmc_station_def adapter.defs)

lemma and_3_zero: "((x::'a::len word) AND 0x3 = 0) = (\<not> bit x 0 \<and> \<not> bit x (Suc 0))"
proof -
  have "x AND 0x3 = take_bit 2 x" by (simp add: take_bit_eq_mask mask_eq_exp_minus_1)
  moreover have "take_bit 2 x = 0 \<longleftrightarrow> (\<not> bit x 0 \<and> \<not> bit x (Suc 0))"
  proof
    assume "take_bit 2 x = 0"
    then have "\<not> bit (take_bit 2 x) 0" "\<not> bit (take_bit 2 x) (Suc 0)" by simp_all
    then show "\<not> bit x 0 \<and> \<not> bit x (Suc 0)" by (simp add: bit_take_bit_iff)
  next
    assume a: "\<not> bit x 0 \<and> \<not> bit x (Suc 0)"
    show "take_bit 2 x = 0"
    proof (rule bit_eqI)
      fix n
      have "n < 2 \<Longrightarrow> n = 0 \<or> n = Suc 0" by auto
      then show "bit (take_bit 2 x) n = bit 0 n" using a by (auto simp: bit_take_bit_iff)
    qed
  qed
  ultimately show ?thesis by simp
qed
lemma hdr16_0: "hdr16 0 p = Some fc \<longleftrightarrow> 2 \<le> length p \<and> fc = le16_of (p ! 0) (p ! 1)"
  by (auto simp: hdr16_def bind_eq_Some_conv read_at_def)

lemma hdr16_bit6:
  assumes "hdr16 0 p = Some fc"
  shows "byte_at 0 p = Some b \<longleftrightarrow> b = p ! 0" and "bit (p ! 0) 6 = bit fc 6" and "(p ! 0 AND 0x3 = 0) = (fc AND 0x3 = 0)"
proof -
  have p: "2 \<le> length p" "fc = le16_of (p ! 0) (p ! 1)" using assms by (simp_all add: hdr16_0)
  show "byte_at 0 p = Some b \<longleftrightarrow> b = p ! 0" using p(1) by (auto simp: byte_at_def)
  show "bit (p ! 0) 6 = bit fc 6" by (simp add: p(2) le16_of_def bit_simps)
  show "(p ! 0 AND 0x3 = 0) = (fc AND 0x3 = 0)" by (simp add: and_3_zero p(2) le16_of_def bit_simps)
qed

lemma filter_accepts:
  assumes fl: "filter_data_frame fc f ad = Some (RX_SUCCESS, p, ad')" and inf: "infrastructure ad"
    and ds: "rx_to_fr_ds (rxf ad f) = get_tofr_ds fc" and h: "hdr16 0 (frame_ptr f ad) = Some fc"
  shows "addressed fc (frame_ptr f ad) (rxf ad' f) \<and> rx_to_fr_ds (rxf ad' f) = get_tofr_ds fc \<and>
    same_tables ad ad' \<and> rx_mem (rxf ad' f) = rx_mem (rxf ad f) \<and> rx_doff (rxf ad' f) = rx_doff (rxf ad f) \<and>
    rx_seq_num (rxf ad' f) = rx_seq_num (rxf ad f) \<and> rx_frag_num (rxf ad' f) = rx_frag_num (rxf ad f) \<and>
    rx_qos (rxf ad' f) = rx_qos (rxf ad f) \<and>
    (check_fwstate ad WIFI_STATION_STATE \<and> \<not> check_fwstate ad WIFI_AP_STATE \<longrightarrow> station_takes ad fc (rxf ad' f)) \<and>
    (check_fwstate ad WIFI_AP_STATE \<and> \<not> check_fwstate ad WIFI_STATION_STATE \<longrightarrow> ap_takes ad fc (rxf ad' f))"
proof -
  obtain pda psa pbssid where a: "get_da fc (frame_ptr f ad) = Some pda" "get_sa fc (frame_ptr f ad) = Some psa"
    "get_hdr_bssid fc (frame_ptr f ad) = Some pbssid"
    using fl by (auto simp: filter_data_frame_def bind_eq_Some_conv)
  define fr where "fr = (rxf ad f)\<lparr>rx_dst := pda, rx_src := psa, rx_bssid := pbssid\<rparr>"
  define addrs where "addrs = (\<lambda>ra ta. set_rxf f (fr\<lparr>rx_attrs := (rx_attrs fr)\<lparr>rx_ra := ra, rx_ta := ta\<rparr>\<rparr>) ad)"
  have code: "(if rx_to_fr_ds fr = 0 then sta2sta_data_frame f (addrs pda psa)
      else if rx_to_fr_ds fr = 1 then ap2sta_data_frame f (addrs pda pbssid)
      else if rx_to_fr_ds fr = 2 then sta2ap_data_frame fc f (addrs pbssid psa)
      else do {
        a1 \<leftarrow> read_at 4 6 (frame_ptr f ad);
        a2 \<leftarrow> read_at 10 6 (frame_ptr f ad);
        Some (RX_FAIL, None, addrs a1 a2) }) = Some (RX_SUCCESS, p, ad')"
    using fl unfolding filter_data_frame_def a Let_def fr_def addrs_def by simp
  have frd: "rx_to_fr_ds fr = get_tofr_ds fc" by (simp add: fr_def ds)
  have in1: "\<not> check_fwstate ad WIFI_ADHOC_STATE" "\<not> check_fwstate ad WIFI_ADHOC_MASTER_STATE"
    "\<not> check_fwstate ad WIFI_MP_STATE" "check_fwstate (addrs x y) st = check_fwstate ad st"
    "get_bssid (addrs x y) = get_bssid ad" "myid (addrs x y) = myid ad" "stapriv (addrs x y) = stapriv ad" for x y st
    using inf by (simp_all add: addrs_def infrastructure_def)
  have rx: "rxf (addrs x y) f = fr\<lparr>rx_attrs := (rx_attrs fr)\<lparr>rx_ra := x, rx_ta := y\<rparr>\<rparr>" for x y
    by (simp add: addrs_def)
  have fp: "frame_ptr f (addrs x y) = frame_ptr f ad" for x y by (simp add: frame_ptr_def rx fr_def)
  consider "get_tofr_ds fc = 0" "sta2sta_data_frame f (addrs pda psa) = Some (RX_SUCCESS, p, ad')"
    | "get_tofr_ds fc = 1" "ap2sta_data_frame f (addrs pda pbssid) = Some (RX_SUCCESS, p, ad')"
    | "get_tofr_ds fc = 2" "sta2ap_data_frame fc f (addrs pbssid psa) = Some (RX_SUCCESS, p, ad')"
    using code by (auto simp: frd bind_eq_Some_conv split: if_split_asm)
  then show ?thesis
  proof cases
    case 1
    then have "ad' = addrs pda psa"
      by (auto simp: sta2sta_data_frame_def Let_def in1 split: if_split_asm dest!: find_psta_same)
    moreover have "check_fwstate ad WIFI_STATION_STATE \<longrightarrow> psa = pbssid"
      "check_fwstate ad WIFI_AP_STATE \<and> \<not> check_fwstate ad WIFI_STATION_STATE \<longrightarrow>
         (if IS_MCAST pda then IS_MCAST pbssid else pbssid = pda)"
      using 1 by (auto simp: sta2sta_data_frame_def Let_def in1 rx fr_def split: if_split_asm)
    ultimately show ?thesis
      using a 1(1) by (simp add: rx addressed_def station_accepts_def ap_accepts_def fr_def ds in1 same_tables_stapriv)
  next
    case 2
    then have "ad' = addrs pda pbssid"
      by (auto simp: ap2sta_data_frame_def Let_def in1 bind_eq_Some_conv split: if_split_asm option.split_asm)
    moreover have "check_fwstate ad WIFI_STATION_STATE \<and> (check_fwstate ad FW_LINKED \<or> check_fwstate ad FW_UNDER_LINKING) \<and>
        \<not> bit fc 6 \<and> pbssid = get_bssid ad \<and> pbssid \<noteq> null_mac \<and> psa \<noteq> myid ad \<and> (pda = myid ad \<or> IS_MCAST pda)"
      using 2 by (auto simp: ap2sta_data_frame_def Let_def in1 rx fp hdr16_bit6 [OF h] fr_def bind_eq_Some_conv
          split: if_split_asm option.split_asm)
    ultimately show ?thesis
      using a 2(1) by (auto simp: rx addressed_def station_accepts_def fr_def ds in1 same_tables_stapriv)
  next
    case 3
    note v = sta2ap_view [OF 3(2)]
    have "rxf ad' = rxf (addrs pbssid psa)" by (rule tx_view_fields(4) [OF v])
    moreover have "same_tables ad ad'" using same_tables_view [OF v] by (simp add: same_tables_def in1 nsta_def get_sta_def)
    moreover have "check_fwstate ad WIFI_AP_STATE \<and> \<not> bit fc 6 \<and> pbssid = get_bssid ad \<and>
        rtw_get_stainfo (stapriv ad) (Some psa) = p \<and> p \<noteq> None"
      using 3 by (auto simp: sta2ap_data_frame_def Let_def in1 rx fr_def bind_eq_Some_conv split: if_split_asm option.split_asm; metis)
    ultimately show ?thesis
      using a 3(1) by (simp add: rx addressed_def ap_accepts_def station_accepts_def fr_def ds)
  qed
qed


text \<open>The station a data frame is attributed to.\<close>

definition frame_station :: "rx_adapter \<Rightarrow> u16 \<Rightarrow> mac \<Rightarrow> mac \<Rightarrow> mac \<Rightarrow> nat option" where
  "frame_station ad fc da sa bssid =
     (if get_tofr_ds fc \<noteq> 2 \<and> IS_MCAST da then bcmc_station ad
      else rtw_get_stainfo (stapriv ad) (Some (if get_tofr_ds fc = 1 then bssid else sa)))"

abbreviation station_of :: "rx_adapter \<Rightarrow> u16 \<Rightarrow> rx_frame \<Rightarrow> nat option" where
  "station_of ad fc fr \<equiv> frame_station ad fc (rx_dst fr) (rx_src fr) (rx_bssid fr)"

lemma find_psta_success: "find_psta b a r ad = (RX_SUCCESS, p, ad') \<Longrightarrow>
    r = RX_SUCCESS \<and> p = (if b then bcmc_station ad else rtw_get_stainfo (stapriv ad) a)"
  by (auto simp: find_psta_def split: option.splits if_splits)

lemma filter_station:
  assumes fl: "filter_data_frame fc f ad = Some (RX_SUCCESS, p, ad')" and inf: "infrastructure ad"
    and ds: "rx_to_fr_ds (rxf ad f) = get_tofr_ds fc" and h: "hdr16 0 (frame_ptr f ad) = Some fc"
  shows "p = station_of ad fc (rxf ad' f)"
proof -
  obtain pda psa pbssid where a: "get_da fc (frame_ptr f ad) = Some pda" "get_sa fc (frame_ptr f ad) = Some psa"
    "get_hdr_bssid fc (frame_ptr f ad) = Some pbssid"
    using fl by (auto simp: filter_data_frame_def bind_eq_Some_conv)
  define fr where "fr = (rxf ad f)\<lparr>rx_dst := pda, rx_src := psa, rx_bssid := pbssid\<rparr>"
  define addrs where "addrs = (\<lambda>ra ta. set_rxf f (fr\<lparr>rx_attrs := (rx_attrs fr)\<lparr>rx_ra := ra, rx_ta := ta\<rparr>\<rparr>) ad)"
  have "addressed fc (frame_ptr f ad) (rxf ad' f) \<and> rx_to_fr_ds (rxf ad' f) = get_tofr_ds fc"
    using filter_accepts [OF assms] by blast
  then have frd: "rx_dst (rxf ad' f) = pda" "rx_src (rxf ad' f) = psa" "rx_bssid (rxf ad' f) = pbssid"
    "rx_to_fr_ds (rxf ad' f) = get_tofr_ds fc" using a by (simp_all add: addressed_def)
  have code: "(if rx_to_fr_ds fr = 0 then sta2sta_data_frame f (addrs pda psa)
      else if rx_to_fr_ds fr = 1 then ap2sta_data_frame f (addrs pda pbssid)
      else if rx_to_fr_ds fr = 2 then sta2ap_data_frame fc f (addrs pbssid psa)
      else do {
        a1 \<leftarrow> read_at 4 6 (frame_ptr f ad);
        a2 \<leftarrow> read_at 10 6 (frame_ptr f ad);
        Some (RX_FAIL, None, addrs a1 a2) }) = Some (RX_SUCCESS, p, ad')"
    using fl unfolding filter_data_frame_def a Let_def fr_def addrs_def by simp
  have in1: "\<not> check_fwstate ad WIFI_ADHOC_STATE" "\<not> check_fwstate ad WIFI_ADHOC_MASTER_STATE"
    "\<not> check_fwstate ad WIFI_MP_STATE" "check_fwstate (addrs x y) st = check_fwstate ad st"
    "get_bssid (addrs x y) = get_bssid ad" "myid (addrs x y) = myid ad" "stapriv (addrs x y) = stapriv ad"
    "bcmc_station (addrs x y) = bcmc_station ad" for x y st
    using inf by (simp_all add: addrs_def infrastructure_def)
  have rx: "rx_dst (rxf (addrs x y) f) = pda" "rx_src (rxf (addrs x y) f) = psa"
    "rx_bssid (rxf (addrs x y) f) = pbssid" "rx_to_fr_ds fr = get_tofr_ds fc" for x y
    by (simp_all add: addrs_def fr_def ds)
  note go = code [unfolded rx(4)]
  consider "get_tofr_ds fc = 0" "sta2sta_data_frame f (addrs pda psa) = Some (RX_SUCCESS, p, ad')"
    | "get_tofr_ds fc = 1" "ap2sta_data_frame f (addrs pda pbssid) = Some (RX_SUCCESS, p, ad')"
    | "get_tofr_ds fc = 2" "sta2ap_data_frame fc f (addrs pbssid psa) = Some (RX_SUCCESS, p, ad')"
    using go by (auto simp: bind_eq_Some_conv split: if_split_asm)
  then show ?thesis
  proof cases
    case 1
    then show ?thesis
      by (auto simp: sta2sta_data_frame_def Let_def in1 rx frame_station_def frd split: if_split_asm
          dest!: find_psta_success)
  next
    case 2
    then show ?thesis
      by (auto simp: ap2sta_data_frame_def Let_def in1 rx frame_station_def frd bind_eq_Some_conv
          split: if_split_asm option.split_asm)
  next
    case 3
    then show ?thesis
      by (auto simp: sta2ap_data_frame_def Let_def in1 rx frame_station_def frd bind_eq_Some_conv
          split: if_split_asm option.split_asm)
  qed
qed


text \<open>The other way round: a frame the filters ask for passes when its station is known.\<close>

lemma validate_type:
  assumes "validate_recv_frame f ad = Some (RX_SUCCESS, ad')" and "hdr16 0 (frame_ptr f ad) = Some fc"
  shows "fc AND 0x3 = 0 \<and> GetFrameType16 fc = 0x08"
proof -
  have "GetFrameType16 fc = 0x08" using assms(2) by (rule_tac validate_success [OF assms(1)]) auto
  moreover have "frame_ptr f ad ! 0 AND 0x3 = 0"
    using assms(1) by (auto simp: validate_recv_frame_def hdr16_bit6(1) [OF assms(2), THEN iffD2] split: if_split_asm)
  ultimately show ?thesis using hdr16_bit6(3) [OF assms(2)] by simp
qed

lemma filter_complete:
  assumes inf: "infrastructure ad" and ds: "rx_to_fr_ds (rxf ad f) = get_tofr_ds fc"
    and h: "hdr16 0 (frame_ptr f ad) = Some fc" and bm: "check_fwstate ad WIFI_AP_STATE \<longrightarrow> bcmc_station ad \<noteq> None"
    and a: "get_da fc (frame_ptr f ad) = Some da" "get_sa fc (frame_ptr f ad) = Some sa"
      "get_hdr_bssid fc (frame_ptr f ad) = Some bssid"
    and takes: "if check_fwstate ad WIFI_STATION_STATE then station_accepts ad fc da sa bssid
      else check_fwstate ad WIFI_AP_STATE \<and> ap_accepts ad fc da sa bssid"
    and i: "frame_station ad fc da sa bssid = Some i"
  shows "\<exists>ad'. filter_data_frame fc f ad = Some (RX_SUCCESS, Some i, ad')"
proof -
  define fr where "fr = (rxf ad f)\<lparr>rx_dst := da, rx_src := sa, rx_bssid := bssid\<rparr>"
  define addrs where "addrs = (\<lambda>ra ta. set_rxf f (fr\<lparr>rx_attrs := (rx_attrs fr)\<lparr>rx_ra := ra, rx_ta := ta\<rparr>\<rparr>) ad)"
  have code: "filter_data_frame fc f ad = (if get_tofr_ds fc = 0 then sta2sta_data_frame f (addrs da sa)
      else if get_tofr_ds fc = 1 then ap2sta_data_frame f (addrs da bssid)
      else if get_tofr_ds fc = 2 then sta2ap_data_frame fc f (addrs bssid sa)
      else do {
        a1 \<leftarrow> read_at 4 6 (frame_ptr f ad);
        a2 \<leftarrow> read_at 10 6 (frame_ptr f ad);
        Some (RX_FAIL, None, addrs a1 a2) })"
    unfolding filter_data_frame_def a Let_def fr_def [symmetric] addrs_def by (simp add: fr_def ds)
  have in1: "\<not> check_fwstate ad WIFI_ADHOC_STATE" "\<not> check_fwstate ad WIFI_ADHOC_MASTER_STATE"
    "\<not> check_fwstate ad WIFI_MP_STATE" "check_fwstate (addrs x y) st = check_fwstate ad st"
    "get_bssid (addrs x y) = get_bssid ad" "myid (addrs x y) = myid ad" "stapriv (addrs x y) = stapriv ad"
    "bcmc_station (addrs x y) = bcmc_station ad" for x y st
    using inf by (simp_all add: addrs_def infrastructure_def)
  have rx: "rx_dst (rxf (addrs x y) f) = da" "rx_src (rxf (addrs x y) f) = sa" "rx_bssid (rxf (addrs x y) f) = bssid"
    "frame_ptr f (addrs x y) = frame_ptr f ad" for x y
    by (simp_all add: addrs_def fr_def frame_ptr_def)
  have b: "byte_at 0 (frame_ptr f ad) = Some (frame_ptr f ad ! 0)" by (simp add: hdr16_bit6 [OF h])
  consider "get_tofr_ds fc = 0" | "get_tofr_ds fc = 1" | "get_tofr_ds fc = 2"
    using takes by (auto simp: station_accepts_def ap_accepts_def split: if_splits)
  then show ?thesis
  proof cases
    case 1
    then have "\<exists>ad'. sta2sta_data_frame f (addrs da sa) = Some (RX_SUCCESS, Some i, ad')"
      using takes i by (auto simp: sta2sta_data_frame_def Let_def in1 rx station_accepts_def ap_accepts_def frame_station_def
          find_psta_def split: if_splits)
    then show ?thesis by (simp add: code 1)
  next
    case 2
    then have "\<exists>ad'. ap2sta_data_frame f (addrs da bssid) = Some (RX_SUCCESS, Some i, ad')"
      using takes i b by (auto simp: ap2sta_data_frame_def Let_def in1 rx station_accepts_def ap_accepts_def frame_station_def
          hdr16_bit6(2) [OF h] split: if_splits)
    then show ?thesis by (simp add: code 2)
  next
    case 3
    have "check_fwstate ad WIFI_AP_STATE" using takes 3 by (auto simp: station_accepts_def split: if_splits)
    then obtain ad1 where "process_pwrbit_data fc f (addrs bssid sa) = Some ad1"
      using bm by (fastforce simp: process_pwrbit_data_def stop_sta_xmit_def Let_def in1 split: option.splits)
    then have "\<exists>ad'. sta2ap_data_frame fc f (addrs bssid sa) = Some (RX_SUCCESS, Some i, ad')"
      using 3 takes i by (auto simp: sta2ap_data_frame_def Let_def in1 rx station_accepts_def ap_accepts_def frame_station_def
          split: if_splits)
    then show ?thesis by (simp add: code 3)
  qed
qed

lemma set_qos_fields_result:
  assumes "set_qos_fields f ad = Some ad'"
  shows "rx_priority (rxf ad' f) =
      (if rx_qos (rxf ad f) = 1 then GetPriority (the (hdr16 24 (frame_ptr f ad))) else 0) \<and>
    rx_seq_num (rxf ad' f) = rx_seq_num (rxf ad f) \<and> rx_frag_num (rxf ad' f) = rx_frag_num (rxf ad f) \<and>
    rx_dst (rxf ad' f) = rx_dst (rxf ad f) \<and> rx_src (rxf ad' f) = rx_src (rxf ad f) \<and>
    rx_bssid (rxf ad' f) = rx_bssid (rxf ad f) \<and> rx_to_fr_ds (rxf ad' f) = rx_to_fr_ds (rxf ad f) \<and>
    stapriv ad' = stapriv ad"
  using assms by (auto simp: set_qos_fields_def Let_def bind_eq_Some_conv split: if_split_asm)

lemma set_cipher_fields_result [simp]:
  "rx_dst (rxf (set_cipher_fields i f ad) f) = rx_dst (rxf ad f)"
  "rx_src (rxf (set_cipher_fields i f ad) f) = rx_src (rxf ad f)"
  "rx_bssid (rxf (set_cipher_fields i f ad) f) = rx_bssid (rxf ad f)"
  "rx_to_fr_ds (rxf (set_cipher_fields i f ad) f) = rx_to_fr_ds (rxf ad f)"
  "rx_psta (rxf (set_cipher_fields i f ad) f) = rx_psta (rxf ad f)"
  "stapriv (set_cipher_fields i f ad) = stapriv ad"
  by (simp_all add: set_cipher_fields_def Let_def case_prod_beta)

text \<open>The key under which a frame is remembered: sequence control and traffic identifier.\<close>

definition decache_key :: "u16 \<Rightarrow> u16 \<Rightarrow> u8 list \<Rightarrow> u16 \<times> nat" where
  "decache_key fc sc ptr =
     (push_bit 4 (GetSequence sc AND 0xffff) OR (ucast (GetFragNum sc) AND 0xf),
      if bit fc 7 then unat (GetPriority (the (hdr16 24 ptr))) else 0)"

lemma validate_accepts:
  assumes v: "validate_recv_frame f ad = Some (RX_SUCCESS, ad')" and inf: "infrastructure ad"
  obtains fc sc i k where
    "hdr16 0 (frame_ptr f ad) = Some fc" "hdr16 22 (frame_ptr f ad) = Some sc"
    "addressed fc (frame_ptr f ad) (rxf ad' f)" "rx_to_fr_ds (rxf ad' f) = get_tofr_ds fc"
    "check_fwstate ad WIFI_STATION_STATE \<and> \<not> check_fwstate ad WIFI_AP_STATE \<longrightarrow> station_takes ad fc (rxf ad' f)"
    "check_fwstate ad WIFI_AP_STATE \<and> \<not> check_fwstate ad WIFI_STATION_STATE \<longrightarrow> ap_takes ad fc (rxf ad' f)"
    "rx_psta (rxf ad' f) = Some i" "station_of ad fc (rxf ad' f) = Some i"
    "k = decache_key fc sc (frame_ptr f ad)"
    "snd k \<le> 15"
    "hash_ok ad \<Longrightarrow> i < nsta ad \<and> tid_rxseq (get_sta i ad) ! snd k \<noteq> fst k \<and>
       tid_rxseq (get_sta i ad') = (tid_rxseq (get_sta i ad))[snd k := fst k] \<and>
       hash_ok ad' \<and> (\<forall>a. rtw_get_stainfo (stapriv ad') a = rtw_get_stainfo (stapriv ad) a)"
proof -
  obtain fc sc ad1 i ad2 ad3 fr cache where c:
    "hdr16 0 (frame_ptr f ad) = Some fc" "hdr16 22 (frame_ptr f ad) = Some sc" "GetFrameType16 fc = 0x08"
    "ad1 = set_rxf f ((set_header_fields fc sc (rxf ad f))\<lparr>rx_qos := of_bool (bit fc 7)\<rparr>) ad"
    "filter_data_frame fc f ad1 = Some (RX_SUCCESS, Some i, ad2)" "set_qos_fields f ad2 = Some ad3"
    "fr = (rxf ad3 f)\<lparr>rx_psta := Some i, rx_preorder := Some (i, unat (rx_priority (rxf ad3 f)))\<rparr>"
    "recv_decache fr (tid_rxseq (get_sta i (set_rxf f fr ad3))) = (SUCCESS, cache)"
    "ad' = set_cipher_fields i f (set_sta i ((get_sta i (set_rxf f fr ad3))\<lparr>tid_rxseq := cache\<rparr>) (set_rxf f fr ad3))"
    by (rule validate_success [OF v])
  have t: "infrastructure ad1" "stapriv ad1 = stapriv ad" "check_fwstate ad1 st = check_fwstate ad st"
    "get_bssid ad1 = get_bssid ad" "myid ad1 = myid ad" "bcmc_station ad1 = bcmc_station ad"
    "frame_ptr f ad1 = frame_ptr f ad" for st
    using inf by (simp_all add: c(4) infrastructure_def frame_ptr_def set_header_fields_def)
  have ds: "rx_to_fr_ds (rxf ad1 f) = get_tofr_ds fc"
    "rx_seq_num (rxf ad1 f) = GetSequence sc" "rx_frag_num (rxf ad1 f) = GetFragNum sc"
    "rx_qos (rxf ad1 f) = of_bool (bit fc 7)"
    by (simp_all add: c(4) set_header_fields_def)
  note fa = filter_accepts [OF c(5) t(1) ds(1) c(1) [folded t(7)]]
  have fs: "Some i = station_of ad1 fc (rxf ad2 f)" by (rule filter_station [OF c(5) t(1) ds(1) c(1) [folded t(7)]])
  note q = set_qos_fields_result [OF c(6)]
  have fp: "frame_ptr f ad2 = frame_ptr f ad" using fa t(7) by (simp add: frame_ptr_def)
  have same: "rx_dst (rxf ad' f) = rx_dst (rxf ad2 f)" "rx_src (rxf ad' f) = rx_src (rxf ad2 f)"
    "rx_bssid (rxf ad' f) = rx_bssid (rxf ad2 f)" "rx_to_fr_ds (rxf ad' f) = rx_to_fr_ds (rxf ad2 f)"
    "rx_psta (rxf ad' f) = Some i"
    using q by (simp_all add: c(9) set_sta_def c(7))
  define k where "k = decache_key fc sc (frame_ptr f ad)"
  have key: "push_bit 4 (rx_seq_num fr AND 0xffff) OR (ucast (rx_frag_num fr) AND 0xf) = fst (decache_key fc sc (frame_ptr f ad))"
    "unat (rx_priority fr) = snd (decache_key fc sc (frame_ptr f ad))"
    using q fa ds by (simp_all add: c(7) decache_key_def fp)
  have de: "snd k \<le> 15" "tid_rxseq (get_sta i ad3) ! snd k \<noteq> fst k" "cache = (tid_rxseq (get_sta i ad3))[snd k := fst k]"
    using c(8) unfolding recv_decache_def Let_def key k_def [symmetric] by (auto simp: get_sta_def split: if_split_asm)
  have tab: "same_tables ad ad3"
    using fa q t(2) by (simp add: same_tables_def nsta_def get_sta_def)
  have sacc: "station_takes ad1 fc (rxf ad2 f) = station_takes ad fc (rxf ad' f)"
    by (simp only: station_accepts_def same t)
  have aacc: "ap_takes ad1 fc (rxf ad2 f) = ap_takes ad fc (rxf ad' f)"
    by (simp only: ap_accepts_def same t)
  show thesis
  proof (rule that [OF c(1,2) _ _ _ _ same(5) _ k_def de(1)])
    show "addressed fc (frame_ptr f ad) (rxf ad' f)" using fa same t(7) by (simp add: addressed_def)
    show "rx_to_fr_ds (rxf ad' f) = get_tofr_ds fc" using fa same by simp
    show "check_fwstate ad WIFI_STATION_STATE \<and> \<not> check_fwstate ad WIFI_AP_STATE \<longrightarrow> station_takes ad fc (rxf ad' f)"
      using fa(1) unfolding t(3) sacc by (elim conjE)
    show "check_fwstate ad WIFI_AP_STATE \<and> \<not> check_fwstate ad WIFI_STATION_STATE \<longrightarrow> ap_takes ad fc (rxf ad' f)"
      using fa(1) unfolding t(3) aacc by (elim conjE)
    show "station_of ad fc (rxf ad' f) = Some i" using fs same t by (simp add: frame_station_def)
    assume h: "hash_ok ad"
    have "rtw_get_stainfo (stapriv ad1) a = Some i \<or> bcmc_station ad1 = Some i \<Longrightarrow> i < nsta ad" for a
      using lookup_bound [OF h] by (auto simp: t(2,6) bcmc_station_def rtw_get_bcmc_stainfo_def adapter.defs)
    then have i: "i < nsta ad" using fs by (auto simp: frame_station_def split: if_splits)
    have st: "stapriv ad' = stapriv (set_sta i ((get_sta i ad3)\<lparr>tid_rxseq := cache\<rparr>) ad3)"
      by (simp add: c(9) set_sta_def get_sta_def)
    have n3: "i < nsta ad3" using tab i by (simp add: same_tables_def)
    have cache': "cache = (tid_rxseq (get_sta i ad))[snd k := fst k]" using tab i de(3) by (simp add: same_tables_def)
    have gs: "get_sta j ad' = (if j = i then (get_sta i ad3)\<lparr>tid_rxseq := cache\<rparr> else get_sta j ad3)" for j
      using get_sta_set_sta [OF n3, of j] st by (simp add: get_sta_def)
    have ns: "nsta ad' = nsta ad" "sta_hash (stapriv ad') = sta_hash (stapriv ad)"
      using tab st by (simp_all add: same_tables_def nsta_def set_sta_def)
    have hw: "hwaddr (get_sta j ad') = hwaddr (get_sta j ad)" if "j < nsta ad" for j
      using tab that i by (simp add: gs same_tables_def)
    have look: "rtw_get_stainfo (stapriv ad') a = rtw_get_stainfo (stapriv ad) a" for a
    proof -
      have "hwaddr (stainfo_buf (stapriv ad') ! j) = hwaddr (stainfo_buf (stapriv ad) ! j)"
        if "j \<in> set (sta_hash (stapriv ad) ! unat (wifi_mac_hash b))" for j b
        using hash_bucket [OF h that] hw by (simp add: get_sta_def)
      then show ?thesis
        unfolding rtw_get_stainfo_def Let_def ns(2) by (cases a) (auto intro!: find_cong_set)
    qed
    show "i < nsta ad \<and> tid_rxseq (get_sta i ad) ! snd k \<noteq> fst k \<and>
       tid_rxseq (get_sta i ad') = (tid_rxseq (get_sta i ad))[snd k := fst k] \<and>
       hash_ok ad' \<and> (\<forall>a. rtw_get_stainfo (stapriv ad') a = rtw_get_stainfo (stapriv ad) a)"
      using i de(2) tab h look ns by (simp add: gs cache' same_tables_def hash_ok_def)
  qed
qed


lemma GetPriority_bound: "unat (GetPriority qc) \<le> 15"
proof -
  have "unat (ucast (qc AND 0xf) :: u8) \<le> unat (qc AND 0xf)"
    by (simp add: unsigned_ucast_eq take_bit_nat_less_eq_self unsigned_take_bit_eq)
  also have "\<dots> \<le> unat (0xf :: u16)" by (rule word_le_nat_alt [THEN iffD1, OF word_and_le1])
  finally show ?thesis by (simp add: GetPriority_def)
qed

lemma validate_complete:
  assumes inf: "infrastructure ad" and hok: "hash_ok ad" and bm: "check_fwstate ad WIFI_AP_STATE \<longrightarrow> bcmc_station ad \<noteq> None"
    and h: "hdr16 0 (frame_ptr f ad) = Some fc" "hdr16 22 (frame_ptr f ad) = Some sc"
    and a: "get_da fc (frame_ptr f ad) = Some da" "get_sa fc (frame_ptr f ad) = Some sa"
      "get_hdr_bssid fc (frame_ptr f ad) = Some bssid"
    and ty: "fc AND 0x3 = 0" "GetFrameType16 fc = 0x08" and qc: "bit fc 7 \<longrightarrow> hdr16 24 (frame_ptr f ad) \<noteq> None"
    and takes: "if check_fwstate ad WIFI_STATION_STATE then station_accepts ad fc da sa bssid
      else check_fwstate ad WIFI_AP_STATE \<and> ap_accepts ad fc da sa bssid"
    and i: "frame_station ad fc da sa bssid = Some i"
    and new: "tid_rxseq (get_sta i ad) ! snd (decache_key fc sc (frame_ptr f ad)) \<noteq> fst (decache_key fc sc (frame_ptr f ad))"
  shows "\<exists>ad'. validate_recv_frame f ad = Some (RX_SUCCESS, ad')"
proof -
  define ad0 where "ad0 = set_rxf f (set_header_fields fc sc (rxf ad f)) ad"
  define ad1 where "ad1 = set_rxf f ((rxf ad0 f)\<lparr>rx_qos := of_bool (bit fc 7)\<rparr>) ad0"
  have t: "infrastructure ad1" "stapriv ad1 = stapriv ad" "check_fwstate ad1 st = check_fwstate ad st"
    "get_bssid ad1 = get_bssid ad" "myid ad1 = myid ad" "bcmc_station ad1 = bcmc_station ad"
    "frame_ptr f ad1 = frame_ptr f ad" for st
    using inf by (simp_all add: ad1_def ad0_def infrastructure_def frame_ptr_def set_header_fields_def)
  have ds: "rx_to_fr_ds (rxf ad1 f) = get_tofr_ds fc"
    "rx_seq_num (rxf ad1 f) = GetSequence sc" "rx_frag_num (rxf ad1 f) = GetFragNum sc"
    "rx_qos (rxf ad1 f) = of_bool (bit fc 7)"
    by (simp_all add: ad1_def ad0_def set_header_fields_def)
  have same: "station_accepts ad1 fc da sa bssid = station_accepts ad fc da sa bssid"
    "ap_accepts ad1 fc da sa bssid = ap_accepts ad fc da sa bssid" "frame_station ad1 fc da sa bssid = frame_station ad fc da sa bssid"
    by (simp_all only: station_accepts_def ap_accepts_def frame_station_def t)
  have "\<exists>ad2. filter_data_frame fc f ad1 = Some (RX_SUCCESS, Some i, ad2)"
    by (rule filter_complete [OF t(1) ds(1), where da = da and sa = sa and bssid = bssid])
      (use bm takes in \<open>simp_all only: t same h a i not_False_eq_True simp_thms\<close>)
  then obtain ad2 where fl: "filter_data_frame fc f ad1 = Some (RX_SUCCESS, Some i, ad2)" by blast
  note fa = filter_accepts [OF fl t(1) ds(1) h(1) [folded t(7)]]
  have fp: "frame_ptr f ad2 = frame_ptr f ad" using fa t(7) by (simp add: frame_ptr_def)
  obtain ad3 where q: "set_qos_fields f ad2 = Some ad3"
    using qc fa ds(4) by (cases "bit fc 7") (auto simp: set_qos_fields_def Let_def fp)
  note qr = set_qos_fields_result [OF q]
  define fr where "fr = (rxf ad3 f)\<lparr>rx_psta := Some i, rx_preorder := Some (i, unat (rx_priority (rxf ad3 f)))\<rparr>"
  define k where "k = decache_key fc sc (frame_ptr f ad)"
  have key: "push_bit 4 (rx_seq_num fr AND 0xffff) OR (ucast (rx_frag_num fr) AND 0xf) = fst k" "unat (rx_priority fr) = snd k"
    using qr fa ds by (simp_all add: fr_def k_def decache_key_def fp)
  have "rtw_get_stainfo (stapriv ad) x = Some i \<or> bcmc_station ad = Some i \<Longrightarrow> i < nsta ad" for x
    using lookup_bound [OF hok] by (auto simp: bcmc_station_def rtw_get_bcmc_stainfo_def adapter.defs)
  then have n: "i < nsta ad" using i by (auto simp: frame_station_def split: if_splits)
  have "tid_rxseq (get_sta i ad3) = tid_rxseq (get_sta i ad)"
    using fa qr n by (simp add: same_tables_def nsta_def get_sta_def t(2))
  then have "tid_rxseq (get_sta i (set_rxf f fr ad3)) ! snd k \<noteq> fst k" using new by (simp add: get_sta_def k_def)
  moreover have "snd k \<le> 15"
    using GetPriority_bound by (simp add: k_def decache_key_def)
  ultimately have d: "recv_decache fr (tid_rxseq (get_sta i (set_rxf f fr ad3))) =
      (SUCCESS, (tid_rxseq (get_sta i (set_rxf f fr ad3)))[snd k := fst k])"
    unfolding recv_decache_def Let_def key by auto
  have "\<exists>ad'. validate_recv_data_frame fc f ad1 = Some (RX_SUCCESS, ad')"
    unfolding validate_recv_data_frame_def fl q Let_def bind.bind_lunit prod.case fr_def [symmetric] d option.case by simp
  then obtain ad' where v: "validate_recv_data_frame fc f ad1 = Some (RX_SUCCESS, ad')" by blast
  have b: "byte_at 0 (frame_ptr f ad) = Some (frame_ptr f ad ! 0)" "frame_ptr f ad ! 0 AND 0x3 = 0"
    using hdr16_bit6 [OF h(1)] ty(1) by simp_all
  show ?thesis
    unfolding validate_recv_frame_def h b(1) bind.bind_lunit Let_def ad0_def [symmetric] ad1_def [symmetric] v
    by (simp add: b(2) ty(2))
qed

lemma prehandle_success:
  "recv_func_prehandle f ad = Some (RX_SUCCESS, ad') \<longleftrightarrow> validate_recv_frame f ad = Some (RX_SUCCESS, ad')"
  by (auto simp: recv_func_prehandle_def bind_eq_Some_conv)

lemma frame_station_cong:
  assumes "\<And>a. rtw_get_stainfo (stapriv ad') a = rtw_get_stainfo (stapriv ad) a"
    and "addressed fc ptr fr" "addressed fc ptr fr'" "get_tofr_ds fc' = get_tofr_ds fc"
  shows "station_of ad' fc' fr' = station_of ad fc fr"
proof -
  have "rx_dst fr' = rx_dst fr" "rx_src fr' = rx_src fr" "rx_bssid fr' = rx_bssid fr"
    using assms(2,3) by (simp_all add: addressed_def)
  moreover have "bcmc_station ad' = bcmc_station ad"
    using assms(1) by (simp add: bcmc_station_def rtw_get_bcmc_stainfo_def adapter.defs)
  ultimately show ?thesis using assms(1,4) by (simp add: frame_station_def)
qed

text \<open>
  A retransmission is a copy of the frame in which only the retry bit, bit 11 of the frame control
  field, may differ.
\<close>

definition retransmission :: "u8 list \<Rightarrow> u8 list \<Rightarrow> bool" where
  "retransmission p q \<longleftrightarrow> take 1 p = take 1 q \<and> drop 2 p = drop 2 q \<and> length p = length q \<and>
     (2 \<le> length p \<longrightarrow> p ! 1 AND 0xf7 = q ! 1 AND 0xf7)"

lemma retransmission_read:
  assumes "retransmission p q" and "2 \<le> off"
  shows "read_at off n q = read_at off n p"
proof -
  obtain k where off: "off = 2 + k" using assms(2) le_Suc_ex by blast
  have "drop k (drop 2 q) = drop k (drop 2 p)" using assms(1) by (simp add: retransmission_def del: drop_drop)
  then have "drop off q = drop off p" by (simp add: off add.commute)
  then show ?thesis using assms(1) by (simp add: read_at_def retransmission_def)
qed

lemma and_bit_eq:
  fixes a b :: "'a::len word"
  shows "a AND m = b AND m \<Longrightarrow> bit m n \<Longrightarrow> bit a n = bit b n"
  by (metis bit_and_iff)

lemma retransmission_fc:
  assumes "retransmission p q" and "hdr16 0 p = Some fc" and "hdr16 0 q = Some fc'"
  shows "bit fc' 7 = bit fc 7" and "get_tofr_ds fc' = get_tofr_ds fc"
proof -
  have l: "2 \<le> length p" "2 \<le> length q" "fc = le16_of (p ! 0) (p ! 1)" "fc' = le16_of (q ! 0) (q ! 1)"
    using assms(2,3) by (simp_all add: hdr16_0)
  have z: "q ! 0 = p ! 0"
    using assms(1) l(1,2) unfolding retransmission_def by (cases p; cases q) auto
  have o: "p ! 1 AND 0xf7 = q ! 1 AND 0xf7" using assms(1) l(1) by (simp add: retransmission_def)
  have b: "bit (q ! 1) 0 = bit (p ! 1) 0" "bit (q ! 1) 1 = bit (p ! 1) 1"
    by (rule and_bit_eq [OF o, symmetric]; simp)+
  show "bit fc' 7 = bit fc 7"
    unfolding l(3,4) z by (simp add: le16_of_def bit_simps)
  have ds: "GetToDs (le16_of x y) = bit y 0" "GetFrDs (le16_of x y) = bit y 1" for x y
    by (simp_all add: GetToDs_def GetFrDs_def le16_of_def bit_simps)
  show "get_tofr_ds fc' = get_tofr_ds fc"
    unfolding l(3,4) get_tofr_ds_def ds b ..
qed

lemma retransmission_same:
  assumes "retransmission p q" and "hdr16 0 p = Some fc" and "hdr16 0 q = Some fc'"
  shows "addressed fc' q fr = addressed fc p fr" and "decache_key fc' sc q = decache_key fc sc p"
    and "hdr16 22 q = hdr16 22 p"
  using retransmission_fc [OF assms] retransmission_read [OF assms(1)]
  by (simp_all add: addressed_def get_da_def get_sa_def get_hdr_bssid_def decache_key_def hdr16_def)

text \<open>A second copy of an accepted frame is dropped.\<close>

lemma duplicate_dropped:
  assumes v: "validate_recv_frame f ad = Some (RX_SUCCESS, ad1)" and inf: "infrastructure ad" "infrastructure ad2"
    and cache: "\<forall>p \<in> set (stainfo_buf (stapriv ad)). length (tid_rxseq p) = 16"
    and h: "hash_ok ad"
    and same: "stapriv ad2 = stapriv ad1" "retransmission (frame_ptr f ad) (frame_ptr g ad2)"
  shows "validate_recv_frame g ad2 \<noteq> Some (RX_SUCCESS, ad3)"
proof
  assume v2: "validate_recv_frame g ad2 = Some (RX_SUCCESS, ad3)"
  obtain fc sc i k where a: "hdr16 0 (frame_ptr f ad) = Some fc" "hdr16 22 (frame_ptr f ad) = Some sc"
    "addressed fc (frame_ptr f ad) (rxf ad1 f)" "rx_to_fr_ds (rxf ad1 f) = get_tofr_ds fc"
    "station_of ad fc (rxf ad1 f) = Some i" "k = decache_key fc sc (frame_ptr f ad)" "snd k \<le> 15"
    "i < nsta ad \<and> tid_rxseq (get_sta i ad) ! snd k \<noteq> fst k \<and>
       tid_rxseq (get_sta i ad1) = (tid_rxseq (get_sta i ad))[snd k := fst k] \<and>
       hash_ok ad1 \<and> (\<forall>a. rtw_get_stainfo (stapriv ad1) a = rtw_get_stainfo (stapriv ad) a)"
    by (rule validate_accepts [OF v inf(1)]) (use h in blast)
  have h2: "hash_ok ad2" using a(8) by (simp add: hash_ok_def nsta_def same(1))
  obtain fc' sc' j k' where b: "hdr16 0 (frame_ptr g ad2) = Some fc'" "hdr16 22 (frame_ptr g ad2) = Some sc'"
    "addressed fc' (frame_ptr g ad2) (rxf ad3 g)" "rx_to_fr_ds (rxf ad3 g) = get_tofr_ds fc'"
    "station_of ad2 fc' (rxf ad3 g) = Some j" "k' = decache_key fc' sc' (frame_ptr g ad2)"
    "tid_rxseq (get_sta j ad2) ! snd k' \<noteq> fst k'"
    by (rule validate_accepts [OF v2 inf(2)]) (use h2 in blast)
  note rs = retransmission_same [OF same(2) a(1) b(1)] and rf = retransmission_fc [OF same(2) a(1) b(1)]
  have eq: "sc' = sc" "k' = k" using a(2,6) b(2,6) rs by simp_all
  have look: "rtw_get_stainfo (stapriv ad2) x = rtw_get_stainfo (stapriv ad) x" for x
    using a(8) by (simp add: same(1))
  have "station_of ad2 fc' (rxf ad3 g) = station_of ad fc (rxf ad1 f)"
    by (rule frame_station_cong [OF look a(3)]) (use b rs rf in simp_all)
  then have j: "j = i" using a(5) b(5) by simp
  have "length (tid_rxseq (get_sta i ad)) = 16" using cache a(8) by (simp add: get_sta_def nsta_def)
  moreover have "get_sta i ad2 = get_sta i ad1" by (simp add: get_sta_def same(1))
  ultimately have "tid_rxseq (get_sta i ad2) ! snd k = fst k" using a(7,8) by simp
  then show False using b(7) by (simp add: j eq)
qed

text \<open>A last fragment of a management frame whose other fragments never came.\<close>

lemma mgnt_fragment_core:
  assumes p: "rx_pool U S ad" and f: "f \<notin> S" "f < NR_RECVFRAME"
    and hdr: "byte_at 0 (frame_ptr f ad) = Some b" "b AND 0x3 = 0" "hdr16 0 (frame_ptr f ad) = Some fc"
      "hdr16 22 (frame_ptr f ad) = Some sc"
    and frag: "GetFrameType16 fc = 0" "\<not> GetMFrag fc" "GetFragNum sc \<noteq> 0"
    and q: "defrag_queue (rxf ad f) ad = Some (Some i)" "rqueue (recvpriv ad) (DEFRAG i) = []"
  shows "\<exists>ad'. recv_func_prehandle f ad = Some (RX_FAIL, ad') \<and>
     rqueue (recvpriv ad') = (rqueue (recvpriv ad))(FREE_RECV := rqueue (recvpriv ad) FREE_RECV @ [f]) \<and>
     free_recvframe_cnt (recvpriv ad') = free_recvframe_cnt (recvpriv ad) + 2"
proof -
  define fr where "fr = set_header_fields fc sc (rxf ad f)"
  define ad1 where "ad1 = set_rxf f fr ad"
  define ad2 where "ad2 = ad1\<lparr>recvpriv := rq_insert_tail f (DEFRAG i) (recvpriv ad1)\<rparr>"
  define ad3 where "ad3 = ad2\<lparr>recvpriv := rq_delete f (recvpriv ad2)\<rparr>"
  have nf: "f \<notin> set (rqueue (recvpriv ad) q)" for q by (rule rx_pool_fresh [OF p f(1)])
  have fr1: "rxf ad1 f = fr" "rx_mfrag fr = 0" "rx_frag_num fr \<noteq> 0"
    using frag by (simp_all add: ad1_def fr_def set_header_fields_def)
  have q1: "defrag_queue fr ad1 = Some (Some i)"
    using q(1) by (auto simp: defrag_queue_def fr_def set_header_fields_def ad1_def split: option.splits if_split_asm)
  have q2: "rqueue (recvpriv ad2) (DEFRAG i) = [f]" using q(2) by (simp add: ad2_def ad1_def)
  have q3: "rqueue (recvpriv ad3) = rqueue (recvpriv ad)"
    using nf q(2) by (auto simp: ad3_def ad2_def ad1_def fun_eq_iff)
  have "recvframe_defrag (DEFRAG i) ad2 = do { ad4 \<leftarrow> free_queue (DEFRAG i) (free_frame f ad3); Some (None, ad4) }"
    using fr1 by (simp add: recvframe_defrag_def q2 Let_def ad3_def [symmetric]) (simp add: ad3_def ad2_def)
  moreover have "free_queue (DEFRAG i) (free_frame f ad3) = Some (free_frame f ad3)"
    using q(2) by (simp add: free_queue_def rtw_free_recvframe_queue_def rqueue_free_frame q3)
  ultimately have "chk_defrag_queue f ad1 = Some (None, free_frame f ad3)"
    using fr1 q1 by (simp add: chk_defrag_queue_def Let_def ad2_def [symmetric])
  then have "validate_recv_mgnt_frame f ad1 = Some (RX_SUCCESS, free_frame f ad3)"
    by (simp add: validate_recv_mgnt_frame_def recvframe_chk_defrag_def)
  then have "validate_recv_frame f ad = Some (RX_FAIL, free_frame f ad3)"
    using hdr frag(1) by (simp add: validate_recv_frame_def Let_def fr_def [symmetric] ad1_def [symmetric])
  moreover have "rqueue (recvpriv (free_frame f (free_frame f ad3))) =
      (rqueue (recvpriv ad))(FREE_RECV := rqueue (recvpriv ad) FREE_RECV @ [f])"
    using nf by (auto simp: rqueue_free_frame q3 fun_eq_iff)
  moreover have "free_recvframe_cnt (recvpriv (free_frame f (free_frame f ad3))) = free_recvframe_cnt (recvpriv ad) + 2"
    by (simp add: free_frame_def free_recvframe_fields ad3_def ad2_def ad1_def)
  ultimately show ?thesis by (simp add: recv_func_prehandle_def)
qed

section \<open>Reception and the transmit queues\<close>

text \<open>What reception does to the transmit queues is done by the operations of power saving.\<close>

definition keeps_queues :: "rx_adapter \<Rightarrow> rx_adapter \<Rightarrow> bool" where
  "keeps_queues ad ad' \<longleftrightarrow>
     (tx_inv ad \<and> hash_ok ad \<longrightarrow> tx_inv ad' \<and> hash_ok ad' \<and> all_frames ad' = all_frames ad)"

lemma keeps_queues_refl [simp]: "keeps_queues ad ad"
  by (simp add: keeps_queues_def)

lemma keeps_queues_trans: "keeps_queues a b \<Longrightarrow> keeps_queues b c \<Longrightarrow> keeps_queues a c"
  by (simp add: keeps_queues_def)

lemma keeps_queues_like:
  "queues_like ad ad' \<Longrightarrow> sta_hash (stapriv ad') = sta_hash (stapriv ad) \<Longrightarrow> keeps_queues ad ad'"
  using queues_like_safe(1) [of ad ad'] by (auto simp: keeps_queues_def tx_safe_def tx_keeps_def hash_ok_def)

lemma keeps_queues_same:
  assumes "stapriv ad' = stapriv ad" and "xmitpriv ad' = xmitpriv ad"
  shows "keeps_queues ad ad'"
  by (rule keeps_queues_like) (simp_all add: queues_like_def nsta_def get_sta_def xattr_def assms)

lemma keeps_queues_step: "tx_step ad ad' \<Longrightarrow> keeps_queues ad ad'"
  using tx_step_safe [of ad ad'] tx_view_lookup(3) by (auto simp: keeps_queues_def)

lemma keeps_queues_sta: "same_queues (get_sta i ad) p \<Longrightarrow> keeps_queues ad (set_sta i p ad)"
  by (rule keeps_queues_like [OF queues_like_set_sta]) (simp_all add: set_sta_def)

lemma keeps_queues_event: "keeps_queues ad (rx_event e ad)"
  by (rule keeps_queues_same) (simp_all add: rx_event_def)

lemma keeps_queues_rxf: "keeps_queues ad (set_rxf f fr ad)"
  by (rule keeps_queues_same) (simp_all add: set_rxf_def)

lemma process_pwrbit_queues:
  assumes "process_pwrbit_data fc f ad = Some ad'"
  shows "keeps_queues ad ad'"
  unfolding keeps_queues_def
proof
  assume h: "tx_inv ad \<and> hash_ok ad"
  show "tx_inv ad' \<and> hash_ok ad' \<and> all_frames ad' = all_frames ad"
  proof (cases "rtw_get_stainfo (stapriv ad) (Some (rx_src (rxf ad f)))")
    case None
    then show ?thesis using assms h by (simp add: process_pwrbit_data_def)
  next
    case (Some i)
    then have "i < nsta ad" using h lookup_bound by blast
    then have "ad' = ad \<or> tx_step ad ad'"
      using assms Some by (auto simp: process_pwrbit_data_def intro: tx_step.Sleep tx_step.Wake split: if_split_asm)
    then show ?thesis using h keeps_queues_step [of ad ad'] by (auto simp: keeps_queues_def)
  qed
qed

lemma process_wmmps_queues: "keeps_queues ad (process_wmmps_data f ad)"
  unfolding keeps_queues_def
proof
  assume h: "tx_inv ad \<and> hash_ok ad"
  show "tx_inv (process_wmmps_data f ad) \<and> hash_ok (process_wmmps_data f ad) \<and>
    all_frames (process_wmmps_data f ad) = all_frames ad"
  proof (cases "rtw_get_stainfo (stapriv ad) (Some (rx_src (rxf ad f)))")
    case None
    then show ?thesis using h by (simp add: process_wmmps_data_def)
  next
    case (Some i)
    then have "tx_step ad (xmit_delivery_enabled_frames i ad)" using h lookup_bound by (blast intro: tx_step.Trigger)
    then have "keeps_queues ad (process_wmmps_data f ad)"
      using Some keeps_queues_step keeps_queues_event by (simp add: process_wmmps_data_def Let_def)
    then show ?thesis using h by (simp add: keeps_queues_def)
  qed
qed

lemma answer_pspoll_queues:
  assumes "i < nsta ad"
  shows "keeps_queues ad (answer_pspoll i ad)"
proof -
  define ad1 where "ad1 = (if sta_state (get_sta i ad) AND WIFI_STA_ALIVE_CHK_STATE \<noteq> 0
       then set_sta i ((get_sta i ad)\<lparr>expire_to := sta_expire_to (stapriv ad),
         sta_state := sta_state (get_sta i ad) XOR WIFI_STA_ALIVE_CHK_STATE\<rparr>) ad else ad)"
  have k: "keeps_queues ad ad1" by (simp add: ad1_def keeps_queues_sta)
  have "keeps_queues ad1 (serve_pspoll i ad1)"
    using assms by (intro keeps_queues_step tx_step.Poll) (simp add: ad1_def)
  then show ?thesis
    using k keeps_queues_trans [OF k] by (simp add: answer_pspoll_def Let_def ad1_def)
qed

lemma mp_addresses_queues: "mp_addresses f ad = Some ad' \<Longrightarrow> keeps_queues ad ad'"
  by (auto simp: mp_addresses_def bind_eq_Some_conv Let_def intro: keeps_queues_rxf)

lemma filter_queues:
  "sta2sta_data_frame f ad = Some (ret, p, ad') \<Longrightarrow> keeps_queues ad ad'"
  "ap2sta_data_frame f ad = Some (ret, p, ad') \<Longrightarrow> keeps_queues ad ad'"
  "sta2ap_data_frame fc f ad = Some (ret, p, ad') \<Longrightarrow> keeps_queues ad ad'"
proof -
  show "sta2sta_data_frame f ad = Some (ret, p, ad') \<Longrightarrow> keeps_queues ad ad'"
    unfolding sta2sta_data_frame_def Let_def
    by (auto simp: bind_eq_Some_conv split: if_split_asm dest!: find_psta_same mp_addresses_queues)
  show "ap2sta_data_frame f ad = Some (ret, p, ad') \<Longrightarrow> keeps_queues ad ad'"
    unfolding ap2sta_data_frame_def Let_def
    by (auto simp: bind_eq_Some_conv keeps_queues_event split: if_split_asm option.split_asm
        dest!: find_psta_same mp_addresses_queues intro: keeps_queues_trans [OF _ keeps_queues_rxf])
  assume a: "sta2ap_data_frame fc f ad = Some (ret, p, ad')"
  have "keeps_queues ad ad' \<or>
      (\<exists>ad1. process_pwrbit_data fc f ad = Some ad1 \<and> (ad' = ad1 \<or> ad' = process_wmmps_data f ad1))"
    using a unfolding sta2ap_data_frame_def Let_def
    by (auto simp: bind_eq_Some_conv keeps_queues_event split: if_split_asm option.split_asm)
  then show "keeps_queues ad ad'"
    using keeps_queues_trans [OF process_pwrbit_queues process_wmmps_queues] process_pwrbit_queues by auto
qed

lemma filter_data_frame_queues:
  assumes "filter_data_frame fc f ad = Some (ret, p, ad')"
  shows "keeps_queues ad ad'"
  using assms unfolding filter_data_frame_def Let_def
  by (auto simp: bind_eq_Some_conv split: if_split_asm
      dest!: filter_queues intro: keeps_queues_trans [OF keeps_queues_rxf] keeps_queues_rxf)

lemma validate_data_queues:
  assumes "validate_recv_data_frame fc f ad = Some (r, ad')"
  shows "keeps_queues ad ad'"
proof -
  obtain ret psta ad1 where fl: "filter_data_frame fc f ad = Some (ret, psta, ad1)"
    using assms by (auto simp: validate_recv_data_frame_def bind_eq_Some_conv)
  note k1 = filter_data_frame_queues [OF fl]
  show ?thesis
  proof (cases "ret = RX_SUCCESS \<and> psta \<noteq> None")
    case False
    then show ?thesis using assms fl k1
      by (cases psta) (auto simp: validate_recv_data_frame_def split: if_split_asm)
  next
    case True
    then obtain i where i: "psta = Some i" by blast
    obtain ad2 where q: "set_qos_fields f ad1 = Some ad2"
      using assms fl True i by (auto simp: validate_recv_data_frame_def bind_eq_Some_conv)
    define fr where "fr = (rxf ad2 f)\<lparr>rx_psta := Some i, rx_preorder := Some (i, unat (rx_priority (rxf ad2 f)))\<rparr>"
    define ad3 where "ad3 = set_rxf f fr ad2"
    obtain st cache where d: "recv_decache fr (tid_rxseq (get_sta i ad3)) = (st, cache)" by fastforce
    define ad4 where "ad4 = set_sta i ((get_sta i ad3)\<lparr>tid_rxseq := cache\<rparr>) ad3"
    have k2: "keeps_queues ad1 ad2" using q by (auto simp: set_qos_fields_def Let_def bind_eq_Some_conv keeps_queues_rxf split: if_split_asm)
    have k3: "keeps_queues ad2 ad3" unfolding ad3_def by (rule keeps_queues_rxf)
    have k4: "keeps_queues ad3 ad4" unfolding ad4_def by (rule keeps_queues_sta) (simp add: same_queues_def servq_def)
    have k5: "keeps_queues ad4 (set_cipher_fields i f ad4)" by (simp add: set_cipher_fields_def Let_def case_prod_beta keeps_queues_rxf)
    have "ad' = (if st = FAIL then ad4 else set_cipher_fields i f ad4)"
      using assms fl True i q d
      by (auto simp: validate_recv_data_frame_def Let_def fr_def [symmetric] ad3_def [symmetric] ad4_def [symmetric]
          split: if_splits)
    moreover have k: "keeps_queues ad ad4" by (rule keeps_queues_trans [OF k1 keeps_queues_trans [OF k2 keeps_queues_trans [OF k3 k4]]])
    ultimately show ?thesis using keeps_queues_trans [OF k k5] by simp
  qed
qed

lemma validate_ctrl_queues:
  assumes "validate_recv_ctrl_frame fc f ad = Some (r, ad')"
  shows "keeps_queues ad ad'"
  unfolding keeps_queues_def
proof
  assume h: "tx_inv ad \<and> hash_ok ad"
  show "tx_inv ad' \<and> hash_ok ad' \<and> all_frames ad' = all_frames ad"
  proof (cases "ad' = ad")
    case False
    then have ty: "GetFrameType16 fc = 0x04" "GetFrameSubType16 fc = 0xa4" "read_at 4 6 (frame_ptr f ad) = Some (myid ad)"
      using assms by (auto simp: validate_recv_ctrl_frame_def bind_eq_Some_conv split: if_split_asm)
    then obtain d a2 where r: "hdr16 2 (frame_ptr f ad) = Some d" "read_at 10 6 (frame_ptr f ad) = Some a2"
      using assms by (auto simp: validate_recv_ctrl_frame_def bind_eq_Some_conv)
    then obtain i where i: "rtw_get_stainfo (stapriv ad) (Some a2) = Some i"
      using assms ty False by (cases "rtw_get_stainfo (stapriv ad) (Some a2)") (simp_all add: validate_recv_ctrl_frame_def)
    then have "ad' = answer_pspoll i ad"
      using assms ty r False by (simp add: validate_recv_ctrl_frame_def split: if_split_asm)
    moreover have "i < nsta ad" using i h lookup_bound by blast
    ultimately show ?thesis using h answer_pspoll_queues by (simp add: keeps_queues_def)
  qed (use h in simp)
qed

lemma validate_queues:
  assumes "validate_recv_frame f ad = Some (r, ad')" and "\<not> management_frame f ad"
  shows "keeps_queues ad ad'"
proof -
  have d: "keeps_queues ad1 (drop_count ad1)" for ad1 by (rule keeps_queues_same) (simp_all add: drop_count_def)
  have c: "keeps_queues ad2 ad3" if "validate_recv_data_frame fc f ad2 = Some (r3, ad3)" for fc r3 ad2 ad3
    by (rule validate_data_queues [OF that])
  show ?thesis
    using assms unfolding validate_recv_frame_def Let_def management_frame_def
    by (auto simp: bind_eq_Some_conv split: if_split_asm dest!: validate_data_queues validate_ctrl_queues
        intro: keeps_queues_trans [OF keeps_queues_rxf] keeps_queues_rxf keeps_queues_trans [OF keeps_queues_trans [OF keeps_queues_rxf] d]
          keeps_queues_trans [OF keeps_queues_rxf keeps_queues_trans [OF keeps_queues_rxf]]
          keeps_queues_trans [OF keeps_queues_trans [OF keeps_queues_rxf keeps_queues_trans [OF keeps_queues_rxf]] d])
qed

section \<open>Properties\<close>


definition sample_header :: "u8 \<Rightarrow> u8 list" where
  "sample_header flags = [8, flags, 0, 0, 2, 0, 0, 0, 0, 1, 2, 0, 0, 0, 0, 2, 2, 0, 0, 0, 0, 3, 0x70, 0]"

definition sample_heard :: "u8 \<Rightarrow> rx_adapter" where
  "sample_heard flags = sample_rx_adapter\<lparr>
     securitypriv := sample_security\<lparr>dot11AuthAlgrthm := 0, dot11PrivacyAlgrthm := TKIP\<rparr>, fw_state := 9,
     rxf := (\<lambda>f. sample_rx_frame (sample_header flags @ replicate 16 0))\<rparr>"

lemma sample_heard_infrastructure: "infrastructure (sample_heard b)"
  by (simp add: infrastructure_def check_fwstate_def sample_heard_def WIFI_ADHOC_STATE_def
      WIFI_ADHOC_MASTER_STATE_def WIFI_MP_STATE_def)

lemma sample_stations_only: "rtw_get_stainfo (sample_stations x) a = Some j \<Longrightarrow> j = 0"
  by (auto simp: rtw_get_stainfo_def sample_stations_def Let_def wifi_mac_hash_bound split: option.splits if_split_asm)

lemma set_rxf_twice: "set_rxf f a (set_rxf f b ad) = set_rxf f a ad"
  by (simp add: set_rxf_def)

lemma sample_heard_step: "\<exists>ad'. recv_func_prehandle 3 (sample_heard 0x42) = Some (RX_SUCCESS, ad') \<and>
    rx_encrypt (rx_attrs (rxf ad' 3)) = TKIP \<and> rx_ra (rx_attrs (rxf ad' 3)) = [2, 0, 0, 0, 0, 1] \<and>
    rx_bdecrypted (rxf ad' 3) = 0 \<and> check_fwstate ad' WIFI_STATION_STATE \<and>
    securitypriv ad' = securitypriv (sample_heard 0x42) \<and> recvpriv ad' = recvpriv (sample_heard 0x42)"
proof -
  let ?ad = "sample_heard 0x42" and ?bytes = "sample_header 0x42 @ replicate 16 0"
  have p: "frame_ptr 3 ?ad = ?bytes"
    by (simp add: frame_ptr_def sample_heard_def sample_rx_frame_def)
  have h: "hdr16 0 ?bytes = Some 0x4208" "hdr16 22 ?bytes = Some 0x70" "byte_at 0 ?bytes = Some 8"
    "get_da 0x4208 ?bytes = Some [2, 0, 0, 0, 0, 1]" "get_sa 0x4208 ?bytes = Some [2, 0, 0, 0, 0, 3]"
    "get_hdr_bssid 0x4208 ?bytes = Some [2, 0, 0, 0, 0, 2]" "get_tofr_ds 0x4208 = 1"
    by (simp_all add: sample_header_def hdr16_def read_at_def le16_of_def byte_at_def get_da_def get_sa_def
        get_hdr_bssid_def get_tofr_ds_def GetToDs_def GetFrDs_def)
  have ty: "GetFrameType16 0x4208 = 8" "\<not> bit (0x4208 :: u16) 7" by (simp_all add: GetFrameType16_def)
  define ad2 where "ad2 = set_rxf 3 ((set_header_fields 0x4208 0x70 (rxf ?ad 3))\<lparr>rx_qos := 0\<rparr>) ?ad"
  have r2: "rxf ad2 3 = (set_header_fields 0x4208 0x70 (rxf ?ad 3))\<lparr>rx_qos := 0\<rparr>"
    by (simp add: ad2_def)
  have p2: "frame_ptr 3 ad2 = ?bytes"
    by (simp add: frame_ptr_def r2 set_header_fields_def sample_heard_def sample_rx_frame_def)
  define fr3 where "fr3 = (rxf ad2 3)\<lparr>rx_dst := [2, 0, 0, 0, 0, 1], rx_src := [2, 0, 0, 0, 0, 3],
    rx_bssid := [2, 0, 0, 0, 0, 2],
    rx_attrs := (rx_attrs (rxf ad2 3))\<lparr>rx_ra := [2, 0, 0, 0, 0, 1], rx_ta := [2, 0, 0, 0, 0, 2]\<rparr>\<rparr>"
  define ad3 where "ad3 = set_rxf 3 fr3 ad2"
  have "filter_data_frame 0x4208 3 ad2 = ap2sta_data_frame 3 ad3"
    by (simp add: filter_data_frame_def p2 h Let_def ad3_def fr3_def r2 set_header_fields_def)
  moreover have r3: "rxf ad3 3 = fr3" "frame_ptr 3 ad3 = ?bytes" "get_bssid ad3 = [2, 0, 0, 0, 0, 2]" "fw_state ad3 = 9"
    "myid ad3 = [2, 0, 0, 0, 0, 1]" "stapriv ad3 = sample_stations [2, 0, 0, 0, 0, 2]"
    "securitypriv ad3 = securitypriv ?ad" "recvpriv ad3 = recvpriv ?ad"
    using p2 by (simp_all add: ad3_def ad2_def fr3_def frame_ptr_def sample_heard_def sample_rx_adapter_def)
  moreover have look: "rtw_get_stainfo (sample_stations [2, 0, 0, 0, 0, 2]) (Some [2, 0, 0, 0, 0, 2]) = Some 0"
    by (rule sample_stations_lookup) (simp_all add: IS_MCAST_def)
  moreover have "\<not> IS_MCAST [2, 0, 0, 0, 0, 1]" by (simp add: IS_MCAST_def)
  moreover have "[2, 0, 0, 0, 0, 2] \<noteq> null_mac" by (simp add: null_mac_def numeral_eq_Suc)
  ultimately have fl: "filter_data_frame 0x4208 3 ad2 = Some (RX_SUCCESS, Some 0, ad3)"
    by (simp add: ap2sta_data_frame_def Let_def check_fwstate_def WIFI_STATION_STATE_def FW_LINKED_def
        fr3_def h)
  define ad4 where "ad4 = set_rxf 3 (fr3\<lparr>rx_priority := 0, rx_ack_policy := 0, rx_amsdu := 0,
          rx_attrs := (rx_attrs fr3)\<lparr>rx_hdrlen := 24\<rparr>\<rparr>) ad3"
  have q: "set_qos_fields 3 ad3 = Some ad4"
    by (simp add: set_qos_fields_def Let_def r3 ad4_def) (simp add: fr3_def r2 set_header_fields_def GetOrder_def h)
  define fr5 where "fr5 = (rxf ad4 3)\<lparr>rx_psta := Some 0, rx_preorder := Some (0, unat (rx_priority (rxf ad4 3)))\<rparr>"
  have f5: "rx_priority fr5 = 0" "rx_seq_num fr5 = 7" "rx_frag_num fr5 = 0" "rx_privacy fr5 = 1"
    "rx_ra (rx_attrs fr5) = [2, 0, 0, 0, 0, 1]" "rx_bdecrypted fr5 = 0"
    by (simp_all add: fr5_def ad4_def fr3_def r2 set_header_fields_def GetSequence_def GetFragNum_def
        GetPrivacy_def sample_heard_def sample_rx_frame_def)
  have "tid_rxseq (get_sta 0 (set_rxf 3 fr5 ad4)) = replicate 16 0"
    by (simp add: get_sta_def ad4_def r3 sample_stations_def init_stainfo_def)
  then obtain cache where "recv_decache fr5 (tid_rxseq (get_sta 0 (set_rxf 3 fr5 ad4))) = (SUCCESS, cache)"
    by (simp add: recv_decache_def f5)
  then obtain p where v: "validate_recv_data_frame 0x4208 3 ad2 =
      Some (RX_SUCCESS, set_cipher_fields 0 3 (set_sta 0 p (set_rxf 3 fr5 ad4)))"
    by (simp add: validate_recv_data_frame_def fl q Let_def fr5_def [symmetric])
  define ad6 where "ad6 = set_sta 0 p (set_rxf 3 fr5 ad4)"
  have "rx_encrypt (rx_attrs (rxf (set_cipher_fields 0 3 ad6) 3)) = TKIP \<and>
      rx_ra (rx_attrs (rxf (set_cipher_fields 0 3 ad6) 3)) = [2, 0, 0, 0, 0, 1] \<and>
      rx_bdecrypted (rxf (set_cipher_fields 0 3 ad6) 3) = 0 \<and>
      check_fwstate (set_cipher_fields 0 3 ad6) WIFI_STATION_STATE \<and>
      securitypriv (set_cipher_fields 0 3 ad6) = securitypriv ?ad \<and> recvpriv (set_cipher_fields 0 3 ad6) = recvpriv ?ad"
    using f5 r3 by (simp add: set_cipher_fields_def Let_def case_prod_beta ad6_def set_sta_def ad4_def check_fwstate_def
        WIFI_STATION_STATE_def GET_ENCRY_ALGO_def sample_heard_def)
  moreover have "recv_func_prehandle 3 ?ad = Some (RX_SUCCESS, set_cipher_fields 0 3 ad6)"
    using v unfolding prehandle_success validate_recv_frame_def p h bind.bind_lunit Let_def ad6_def ad2_def
    by (simp add: ty set_rxf_twice)
  ultimately show ?thesis by blast
qed


text \<open>
  C6: Duplicates. After a data frame has been accepted, a retransmission of it (the same bytes up
  to the retry bit, in any receive frame) is not accepted as long as no other frame came between,
  in infrastructure mode and whatever priority, fragment number and station the frame has.
\<close>

theorem recv_drops_duplicate:
  assumes "recv_func_prehandle f ad = Some (RX_SUCCESS, ad1)" and "infrastructure ad" and "infrastructure ad2"
    and "\<forall>p \<in> set (stainfo_buf (stapriv ad)). length (tid_rxseq p) = 16"
    and "hash_ok ad"
    and "stapriv ad2 = stapriv ad1" and "retransmission (frame_ptr f ad) (frame_ptr g ad2)"
  shows "recv_func_prehandle g ad2 \<noteq> Some (RX_SUCCESS, ad3)"
  using duplicate_dropped [OF _ assms(2-7)] assms(1) by (simp add: prehandle_success)

theorem recv_drops_duplicate_witness:
  "\<exists>ad1. recv_func_prehandle 3 (sample_heard 0x42) = Some (RX_SUCCESS, ad1) \<and>
     (\<forall>ad3. recv_func_prehandle 4 ((sample_heard 0x4a)\<lparr>stapriv := stapriv ad1\<rparr>) \<noteq> Some (RX_SUCCESS, ad3))"
proof -
  obtain ad1 where s: "recv_func_prehandle 3 (sample_heard 0x42) = Some (RX_SUCCESS, ad1)"
    using sample_heard_step by blast
  have inf: "infrastructure ((sample_heard 0x4a)\<lparr>stapriv := stapriv ad1\<rparr>)"
    using sample_heard_infrastructure [of "0x4a"] by (simp add: infrastructure_def check_fwstate_def)
  have st: "stapriv (sample_heard 0x42) = sample_stations [2, 0, 0, 0, 0, 2]"
    by (simp add: sample_heard_def sample_rx_adapter_def)
  have "retransmission (frame_ptr 3 (sample_heard 0x42)) (frame_ptr 4 ((sample_heard 0x4a)\<lparr>stapriv := stapriv ad1\<rparr>))"
    by (simp add: retransmission_def frame_ptr_def sample_heard_def sample_rx_frame_def sample_header_def)
  moreover have "\<forall>p \<in> set (stainfo_buf (stapriv (sample_heard 0x42))). length (tid_rxseq p) = 16"
    by (simp add: st sample_stations_def init_stainfo_def)
  moreover have "hash_ok (sample_heard 0x42)"
    by (auto simp: hash_ok_def nsta_def st sample_stations_def)
  ultimately have "recv_func_prehandle 4 ((sample_heard 0x4a)\<lparr>stapriv := stapriv ad1\<rparr>) \<noteq> Some (RX_SUCCESS, ad3)" for ad3
    by (intro recv_drops_duplicate [OF s sample_heard_infrastructure inf]) simp_all
  with s show ?thesis by blast
qed


lemma sample_heard_pool: "rx_pool [] {} (sample_heard b)"
  by (auto simp: rx_pool_def sample_heard_def sample_rx_adapter_def rx_running_def sample_rx_frame_def
      intro!: recv_invI)

text \<open>A frame waits for the key, which is there, when a frame of an unknown protocol version arrives.\<close>

definition sample_waiting :: rx_adapter where
  "sample_waiting = sample_rx_adapter\<lparr>
     recvpriv := (recvpriv sample_rx_adapter)\<lparr>rqueue := (\<lambda>q. if q = UC_SWDEC_PENDING then [5] else [])\<rparr>,
     securitypriv := sample_security\<lparr>dot11AuthAlgrthm := 0, dot11PrivacyAlgrthm := TKIP, busetkipkey := True\<rparr>,
     ht_option := False, rxf := (\<lambda>f. sample_rx_frame ([9] @ replicate 39 0))\<rparr>"

lemma sample_waiting_pool: "rx_pool [5] {5} sample_waiting"
  by (auto simp: rx_pool_def sample_waiting_def sample_rx_adapter_def rx_running_def sample_rx_frame_def NR_RECVFRAME_def
      intro!: recv_invI split: if_splits)

lemma sample_waiting_step: "\<exists>ad'. recv_func_posthandle 5 (sample_waiting\<lparr>recvpriv := rq_delete 5 (recvpriv sample_waiting)\<rparr>) =
    Some (SUCCESS, ad')"
proof -
  define ad where "ad = sample_waiting\<lparr>recvpriv := rq_delete 5 (recvpriv sample_waiting)\<rparr>"
  have f: "rxf ad 5 = sample_rx_frame ([9] @ replicate 39 0)" "ht_option ad = False" "rx_running ad"
    "dot11AuthAlgrthm (securitypriv ad) = 0" "rf_pkt (recvpriv ad) 5 = Some 5" "check_fwstate ad WIFI_MP_STATE = False"
    by (simp_all add: ad_def sample_waiting_def sample_rx_adapter_def rx_running_def check_fwstate_def WIFI_STATION_STATE_def
        WIFI_MP_STATE_def rq_delete_def)
  have "\<exists>fr'. wlanhdr_to_ethhdr a (sample_rx_frame ([9] @ replicate 39 0)) = Some (SUCCESS, fr')"
    if "\<not> check_fwstate a WIFI_MP_STATE" for a
    using that wlanhdr_to_ethhdr_core [of "sample_rx_frame ([9] @ replicate 39 0)" a "[9] @ replicate 23 0" "replicate 16 0" "[]"]
    by (auto simp: sample_rx_frame_def rx_frame_ok_def frame_data_def simp flip: replicate_add)
  then obtain fr' where "wlanhdr_to_ethhdr ad (rxf ad 5) = Some (SUCCESS, fr')" using f(1,6) by fastforce
  moreover have "set_rxf 5 (set_key_index 0 (rxf ad 5)) ad = ad"
    by (simp add: set_rxf_def set_key_index_def f(1) sample_rx_frame_def) (simp add: ad_def sample_waiting_def fun_eq_iff sample_rx_frame_def)
  moreover have "recvframe_chk_defrag 5 ad = Some (Some 5, ad)"
    by (simp add: recvframe_chk_defrag_def chk_defrag_queue_def f sample_rx_frame_def)
  moreover have "rx_running (set_rxf 5 fr' ad)" using f(3) by (simp add: rx_running_def)
  ultimately show ?thesis
    unfolding ad_def [symmetric]
    by (simp add: recv_func_posthandle_def decryptor_def Let_def f(1,2,4) sample_rx_frame_def portctrl_def process_recv_indicatepkts_def)
qed

lemma sample_waiting_run: "\<exists>ad'. recv_func 3 sample_waiting = Some (RX_FAIL, ad')"
proof -
  let ?ad = sample_waiting
  obtain ad1 where p: "recv_func_posthandle 5 (?ad\<lparr>recvpriv := rq_delete 5 (recvpriv ?ad)\<rparr>) = Some (SUCCESS, ad1)"
    using sample_waiting_step by blast
  have q: "rqueue (recvpriv ?ad) UC_SWDEC_PENDING = [5]" by (simp add: sample_waiting_def)
  have d: "rx_pool [] {} (?ad\<lparr>recvpriv := rq_delete 5 (recvpriv ?ad)\<rparr>)"
    using rx_pool_delete [OF sample_waiting_pool q] by simp
  have "rx_pool [] {5} ad1" using recv_func_posthandle_pool [OF p d] by (simp add: NR_RECVFRAME_def)
  then have "rqueue (recvpriv ad1) UC_SWDEC_PENDING = []" by (simp add: rx_pool_def)
  then have r: "recv_uc_swdec ?ad 2 = Some ad1"
    using p q by (simp add: numeral_2_eq_2 rtw_alloc_recvframe_def Let_def)
  have "spares 3 ?ad ad1" using recv_uc_swdec_drains [OF r sample_waiting_pool] by simp
  then have "frame_ptr 3 ad1 = [9] @ replicate 39 0"
    by (simp add: spares_def frame_ptr_def sample_waiting_def sample_rx_frame_def)
  then have "recv_func_prehandle 3 ad1 = Some (RX_FAIL, free_frame 3 ad1)"
    by (simp add: recv_func_prehandle_def validate_recv_frame_def byte_at_def)
  moreover have "check_fwstate ?ad WIFI_STATION_STATE" "busetkipkey (securitypriv ?ad)"
    by (simp_all add: sample_waiting_def sample_rx_adapter_def check_fwstate_def WIFI_STATION_STATE_def)
  ultimately show ?thesis using r q by (simp add: recv_func_def numeral_2_eq_2)
qed


text \<open>
  C13: A management frame that is given back twice. A management frame with a fragment number but
  without the more-fragments bit, for which no earlier fragment waits, goes back to the pool in
  \<^verbatim>\<open>recvframe_defrag\<close> and again in \<^verbatim>\<open>recv_func_prehandle\<close>: it is on the free
  queue once, but \<^verbatim>\<open>free_recvframe_cnt\<close> counts it twice, so that the invariant of the pool
  is broken from then on.
\<close>

theorem mgnt_fragment_freed_twice:
  assumes "rx_pool U S ad" and "f \<notin> S" and "f < NR_RECVFRAME"
    and "byte_at 0 (frame_ptr f ad) = Some b" and "b AND 0x3 = 0" and "hdr16 0 (frame_ptr f ad) = Some fc"
    and "hdr16 22 (frame_ptr f ad) = Some sc"
    and "GetFrameType16 fc = 0" and "\<not> GetMFrag fc" and "GetFragNum sc \<noteq> 0"
    and "defrag_queue (rxf ad f) ad = Some (Some i)" and "rqueue (recvpriv ad) (DEFRAG i) = []"
  shows "\<exists>ad'. recv_func_prehandle f ad = Some (RX_FAIL, ad') \<and>
     rqueue (recvpriv ad') FREE_RECV = rqueue (recvpriv ad) FREE_RECV @ [f] \<and>
     free_recvframe_cnt (recvpriv ad') = free_recvframe_cnt (recvpriv ad) + 2 \<and> \<not> recv_inv (recvpriv ad')"
proof -
  obtain ad' where s: "recv_func_prehandle f ad = Some (RX_FAIL, ad')"
    "rqueue (recvpriv ad') = (rqueue (recvpriv ad))(FREE_RECV := rqueue (recvpriv ad) FREE_RECV @ [f])"
    "free_recvframe_cnt (recvpriv ad') = free_recvframe_cnt (recvpriv ad) + 2"
    using mgnt_fragment_core [OF assms] by blast
  have "free_recvframe_cnt (recvpriv ad) = of_nat (length (rqueue (recvpriv ad) FREE_RECV))"
    using assms(1) by (simp add: rx_pool_def recv_inv_def)
  then have "\<not> recv_inv (recvpriv ad')" using s(2,3) by (simp add: recv_inv_def)
  with s show ?thesis by simp
qed

definition sample_mgnt :: rx_adapter where
  "sample_mgnt = sample_rx_adapter\<lparr>
     rxf := (\<lambda>f. sample_rx_frame ([0x80, 0, 0, 0] @ replicate 18 2 @ [0x71, 0] @ replicate 16 0))\<rparr>"

theorem mgnt_fragment_freed_twice_witness:
  "\<exists>ad'. recv_func_prehandle 3 sample_mgnt = Some (RX_FAIL, ad') \<and> rqueue (recvpriv ad') FREE_RECV = [3] \<and>
     free_recvframe_cnt (recvpriv ad') = 2"
proof -
  have pool: "rx_pool [] {} sample_mgnt"
    by (auto simp: rx_pool_def sample_mgnt_def sample_rx_adapter_def rx_running_def sample_rx_frame_def
        intro!: recv_invI)
  have p: "frame_ptr 3 sample_mgnt = [0x80, 0, 0, 0] @ replicate 18 2 @ [0x71, 0] @ replicate 16 0"
    by (simp add: frame_ptr_def sample_mgnt_def sample_rx_frame_def)
  have h: "byte_at 0 (frame_ptr 3 sample_mgnt) = Some 0x80" "hdr16 0 (frame_ptr 3 sample_mgnt) = Some 0x80"
    "hdr16 22 (frame_ptr 3 sample_mgnt) = Some 0x71"
    unfolding p by (simp_all add: hdr16_def read_at_def le16_of_def byte_at_def)
  have "rtw_get_stainfo (sample_stations [2, 0, 0, 0, 0, 2]) (Some [2, 0, 0, 0, 0, 2]) = Some 0"
    by (rule sample_stations_lookup) (simp_all add: IS_MCAST_def)
  then have "defrag_queue (rxf sample_mgnt 3) sample_mgnt = Some (Some 0)"
    by (simp add: defrag_queue_def sample_mgnt_def sample_rx_adapter_def sample_rx_frame_def)
  from mgnt_fragment_freed_twice [OF pool _ _ h(1) _ h(2,3) _ _ _ this] show ?thesis
    by (auto simp: GetFrameType16_def GetMFrag_def GetFragNum_def NR_RECVFRAME_def sample_mgnt_def sample_rx_adapter_def)
qed

text \<open>
  C12: Reception drives power saving and keeps the transmit queues. Whatever data or control frame an
  access point or a station is given, \<^verbatim>\<open>recv_func_prehandle\<close> keeps the transmit queues well
  formed and their frames: a station that announces that it sleeps or wakes up, a trigger and a
  PS-Poll move frames between the queues and lose none.
\<close>

theorem reception_keeps_queues:
  assumes "recv_func_prehandle f ad = Some (r, ad')" and "tx_inv ad" and "hash_ok ad" and "\<not> management_frame f ad"
  shows "tx_inv ad' \<and> hash_ok ad' \<and> all_frames ad' = all_frames ad"
proof -
  obtain ad1 where v: "validate_recv_frame f ad = Some (r, ad1)"
    and ad': "ad' = (if r \<noteq> RX_SUCCESS then free_frame f ad1 else ad1)"
    using assms(1) by (auto simp: recv_func_prehandle_def bind_eq_Some_conv)
  have "keeps_queues ad1 ad'" by (rule keeps_queues_same) (simp_all add: ad' free_frame_def)
  from keeps_queues_trans [OF validate_queues [OF v assms(4)] this] show ?thesis
    using assms(2,3) by (simp add: keeps_queues_def)
qed

text \<open>A PS-Poll of station 0.\<close>

definition sample_poll :: rx_adapter where
  "sample_poll = sample_tx\<lparr>rxf := (\<lambda>f. sample_rx_frame
     ([0xa4, 0, 20, 0, 2, 0, 0, 0, 0, 1, 2, 0, 0, 0, 0, 2] @ replicate 8 0))\<rparr>"

theorem reception_keeps_queues_witness:
  "\<exists>ad'. recv_func_prehandle 3 sample_poll = Some (RX_FAIL, ad') \<and> all_frames ad' = {0, 1, 2}"
proof -
  let ?bytes = "[0xa4, 0, 20, 0, 2, 0, 0, 0, 0, 1, 2, 0, 0, 0, 0, 2] @ replicate 8 0 :: u8 list"
  have p: "frame_ptr 3 sample_poll = ?bytes" by (simp add: frame_ptr_def sample_poll_def sample_rx_frame_def)
  have h: "byte_at 0 ?bytes = Some 0xa4" "hdr16 0 ?bytes = Some 0xa4" "hdr16 2 ?bytes = Some 20" "hdr16 22 ?bytes = Some 0"
    "read_at 4 6 ?bytes = Some [2, 0, 0, 0, 0, 1]" "read_at 10 6 ?bytes = Some [2, 0, 0, 0, 0, 2]"
    by (simp_all add: byte_at_def hdr16_def read_at_def le16_of_def)
  have ty: "GetFrameType16 0xa4 = 4" "GetFrameSubType16 0xa4 = 0xa4" by (simp_all add: GetFrameType16_def GetFrameSubType16_def)
  have m: "\<not> management_frame 3 sample_poll" by (simp add: management_frame_def p h [simplified] ty)
  define fr where "fr = set_header_fields 0xa4 0 (rxf sample_poll 3)"
  define ad1 where "ad1 = set_rxf 3 fr sample_poll"
  have p1: "frame_ptr 3 ad1 = ?bytes"
    by (simp add: frame_ptr_def ad1_def fr_def set_header_fields_def sample_poll_def sample_rx_frame_def)
  have "myid ad1 = [2, 0, 0, 0, 0, 1]" by (simp add: ad1_def sample_poll_def sample_queues_def sample_rx_adapter_def)
  then obtain r ad2 where v: "validate_recv_ctrl_frame 0xa4 3 ad1 = Some (r, ad2)"
    by (cases "rtw_get_stainfo (stapriv ad1) (Some [2, 0, 0, 0, 0, 2])")
      (simp_all add: validate_recv_ctrl_frame_def p1 h [simplified] ty)
  have r: "recv_func_prehandle 3 sample_poll = Some (RX_FAIL, free_frame 3 ad2)"
    using v by (simp add: recv_func_prehandle_def validate_recv_frame_def p h [simplified] ty Let_def fr_def ad1_def)
  have "keeps_queues sample_tx sample_poll" by (rule keeps_queues_same) (simp_all add: sample_poll_def)
  then have "tx_inv sample_poll \<and> hash_ok sample_poll \<and> all_frames sample_poll = all_frames sample_tx"
    using sample_queues_inv sample_queues_hash by (simp add: keeps_queues_def)
  moreover have "all_frames sample_tx = {0, 1, 2}"
    by (auto simp: all_frames_def sample_queues_txq split: if_splits intro: exI [of _ "Free False"] exI [of _ "Pending 0 2"])
  ultimately show ?thesis using reception_keeps_queues [OF r _ _ m] r by auto
qed

end
