(* ===== verification/Ie_Series.thy ===== *)
theory Ie_Series
  imports Driver_Prelude
begin

text \<open>
  Series of information elements (\<^verbatim>\<open>core/rtw_ieee80211.c\<close>): an element is its identifier, the
  length of its data and the data. \<^verbatim>\<open>rtw_set_ie\<close> appends an element, \<^verbatim>\<open>rtw_get_ie\<close> and
  \<^verbatim>\<open>rtw_get_ie_ex\<close> search for one, \<^verbatim>\<open>rtw_ies_remove_ie\<close> deletes all that match. The
  locale \<open>tlv_search\<close> is what these searches and those for attributes within an element have in
  common. A pointer is its offset in the buffer \<open>b\<close>; buffers are so short that offsets
  do not wrap.
\<close>

section \<open>Writing elements\<close>

definition rtw_set_fixed_ie ::
  "nat \<Rightarrow> u32 \<Rightarrow> u8 list \<Rightarrow> u32 \<Rightarrow> u8 list \<Rightarrow> (nat \<times> u32 \<times> u8 list) option" where
  "rtw_set_fixed_ie pbuf len source frlen b = do {
     d \<leftarrow> read_at 0 (unat len) source;
     b \<leftarrow> write_at pbuf d b;
     Some (pbuf + unat len, frlen + len, b)
   }"

text \<open>The identifier and the length are cut to a byte. The source is read only when there is data.\<close>

definition rtw_set_ie ::
  "nat \<Rightarrow> int \<Rightarrow> u32 \<Rightarrow> u8 list \<Rightarrow> u32 \<Rightarrow> u8 list \<Rightarrow> (nat \<times> u32 \<times> u8 list) option" where
  "rtw_set_ie pbuf index len source frlen b = do {
     b \<leftarrow> write_at pbuf [word_of_int index] b;
     b \<leftarrow> write_at (pbuf + 1) [ucast len] b;
     b \<leftarrow> (if 0 < len then do {
            d \<leftarrow> read_at 0 (unat len) source;
            write_at (pbuf + 2) d b }
          else Some b);
     Some (pbuf + unat len + 2, frlen + (len + 2), b)
   }"

abbreviation (input) "WLAN_EID_CHANNEL_SWITCH \<equiv> 37 :: int"
abbreviation (input) "WLAN_EID_SECONDARY_CHANNEL_OFFSET \<equiv> 62 :: int"

definition rtw_set_ie_ch_switch ::
  "nat \<Rightarrow> u32 \<Rightarrow> u8 \<Rightarrow> u8 \<Rightarrow> u8 \<Rightarrow> u8 list \<Rightarrow> (nat \<times> u32 \<times> u8 list) option" where
  "rtw_set_ie_ch_switch buf buf_len ch_switch_mode new_ch ch_switch_cnt b =
     rtw_set_ie buf WLAN_EID_CHANNEL_SWITCH 3 [ch_switch_mode, new_ch, ch_switch_cnt] buf_len b"

abbreviation (input) "SCN \<equiv> 0 :: u8"
abbreviation (input) "SCA \<equiv> 1 :: u8"
abbreviation (input) "SCB \<equiv> 3 :: u8"
abbreviation (input) "HAL_PRIME_CHNL_OFFSET_DONT_CARE \<equiv> 0 :: u8"
abbreviation (input) "HAL_PRIME_CHNL_OFFSET_LOWER \<equiv> 1 :: u8"
abbreviation (input) "HAL_PRIME_CHNL_OFFSET_UPPER \<equiv> 2 :: u8"

definition secondary_ch_offset_to_hal_ch_offset :: "u8 \<Rightarrow> u8" where
  "secondary_ch_offset_to_hal_ch_offset ch_offset =
     (if ch_offset = SCN then HAL_PRIME_CHNL_OFFSET_DONT_CARE
      else if ch_offset = SCA then HAL_PRIME_CHNL_OFFSET_UPPER
      else if ch_offset = SCB then HAL_PRIME_CHNL_OFFSET_LOWER
      else HAL_PRIME_CHNL_OFFSET_DONT_CARE)"

definition hal_ch_offset_to_secondary_ch_offset :: "u8 \<Rightarrow> u8" where
  "hal_ch_offset_to_secondary_ch_offset ch_offset =
     (if ch_offset = HAL_PRIME_CHNL_OFFSET_DONT_CARE then SCN
      else if ch_offset = HAL_PRIME_CHNL_OFFSET_LOWER then SCB
      else if ch_offset = HAL_PRIME_CHNL_OFFSET_UPPER then SCA
      else SCN)"

definition rtw_set_ie_secondary_ch_offset ::
  "nat \<Rightarrow> u32 \<Rightarrow> u8 \<Rightarrow> u8 list \<Rightarrow> (nat \<times> u32 \<times> u8 list) option" where
  "rtw_set_ie_secondary_ch_offset buf buf_len secondary_ch_offset b =
     rtw_set_ie buf WLAN_EID_SECONDARY_CHANNEL_OFFSET 1 [secondary_ch_offset] buf_len b"

definition put_le16 :: "u16 \<Rightarrow> u8 list" where
  "put_le16 v = [ucast (v AND 0xff), ucast (drop_bit 8 v)]"

text \<open>The identifier \<^verbatim>\<open>0x118\<close> does not fit a byte.\<close>

definition rtw_set_ie_mesh_ch_switch_parm ::
  "nat \<Rightarrow> u32 \<Rightarrow> u8 \<Rightarrow> u8 \<Rightarrow> u16 \<Rightarrow> u16 \<Rightarrow> u8 list \<Rightarrow> (nat \<times> u32 \<times> u8 list) option" where
  "rtw_set_ie_mesh_ch_switch_parm buf buf_len ttl flags reason precedence b =
     rtw_set_ie buf 0x118 6 ([ttl, flags] @ put_le16 reason @ put_le16 precedence) buf_len b"

section \<open>Searching\<close>

text \<open>
  \<^verbatim>\<open>_rtw_memcmp\<close>, which is \<^verbatim>\<open>memcmp\<close> of the kernel: it reads up to the first
  difference.
\<close>

primrec rtw_memcmp :: "nat \<Rightarrow> u8 list \<Rightarrow> u8 list \<Rightarrow> bool option" where
  "rtw_memcmp p [] b = Some True"
| "rtw_memcmp p (y # ys) b = do {
     x \<leftarrow> byte_at p b;
     if x = y then rtw_memcmp (Suc p) ys b else Some False
   }"

text \<open>The result is the offset of the element, if any, and \<^verbatim>\<open>*len\<close>.\<close>

function rtw_get_ie_loop :: "u8 list \<Rightarrow> int \<Rightarrow> int \<Rightarrow> nat \<Rightarrow> int \<Rightarrow> (nat option \<times> int) option" where
  "rtw_get_ie_loop b index limit p i = do {
     eid \<leftarrow> byte_at p b;
     tmp \<leftarrow> byte_at (p + 1) b;
     if uint eid = index then Some (Some p, uint tmp)
     else (if limit \<le> i + (uint tmp + 2) then Some (None, 0)
           else rtw_get_ie_loop b index limit (p + (unat tmp + 2)) (i + (uint tmp + 2)))
   }"
  by pat_completeness auto

termination
  by (relation "measure (\<lambda>(b, index, limit, p, i). length b - p)")
    (auto simp: byte_at_def split: if_splits)

declare rtw_get_ie_loop.simps [simp del]

text \<open>With no limit \<^verbatim>\<open>*len\<close> keeps the value \<open>len\<close> it had.\<close>

definition rtw_get_ie :: "u8 list \<Rightarrow> nat \<Rightarrow> int \<Rightarrow> int \<Rightarrow> int \<Rightarrow> (nat option \<times> int) option" where
  "rtw_get_ie b pbuf index len limit =
     (if limit < 1 then Some (None, len) else rtw_get_ie_loop b index limit pbuf 0)"

text \<open>\<open>oui\<close> and \<open>ie\<close> may be null. The last component is \<^verbatim>\<open>*ielen\<close>.\<close>

definition copy_out :: "nat \<Rightarrow> nat \<Rightarrow> u8 list \<Rightarrow> u8 list option \<Rightarrow> u8 list option option" where
  "copy_out p n b dst =
     (case dst of
        None \<Rightarrow> Some None
      | Some d \<Rightarrow> do { xs \<leftarrow> read_at p n b; d \<leftarrow> write_at 0 xs d; Some (Some d) })"

definition oui_match :: "u8 list \<Rightarrow> nat \<Rightarrow> u8 list option \<Rightarrow> nat \<Rightarrow> bool option" where
  "oui_match b p oui oui_len =
     (case oui of
        None \<Rightarrow> Some True
      | Some ys \<Rightarrow> do { ys \<leftarrow> read_at 0 oui_len ys; rtw_memcmp (p + 2) ys b })"

function get_ie_ex_loop ::
  "u8 list \<Rightarrow> nat \<Rightarrow> nat \<Rightarrow> u8 \<Rightarrow> u8 list option \<Rightarrow> nat \<Rightarrow> nat \<Rightarrow> nat option option" where
  "get_ie_ex_loop b in_ie in_len eid oui oui_len cnt =
     (if cnt < in_len then do {
        x \<leftarrow> byte_at (in_ie + cnt) b;
        m \<leftarrow> (if eid = x then oui_match b (in_ie + cnt) oui oui_len else Some False);
        if m then Some (Some (in_ie + cnt))
        else do {
          l \<leftarrow> byte_at (in_ie + cnt + 1) b;
          get_ie_ex_loop b in_ie in_len eid oui oui_len (cnt + (unat l + 2))
        }
      }
      else Some None)"
  by pat_completeness auto

termination
  by (relation "measure (\<lambda>(b, in_ie, in_len, eid, oui, oui_len, cnt). in_len - cnt)") auto

declare get_ie_ex_loop.simps [simp del]

definition rtw_get_ie_ex ::
  "u8 list \<Rightarrow> nat \<Rightarrow> u32 \<Rightarrow> u8 \<Rightarrow> u8 list option \<Rightarrow> u8 \<Rightarrow> u8 list option \<Rightarrow>
     (nat option \<times> u8 list option \<times> u32) option" where
  "rtw_get_ie_ex b in_ie in_len eid oui oui_len ie =
     (if in_len \<le> 0 then Some (None, ie, 0)
      else do {
        t \<leftarrow> get_ie_ex_loop b in_ie (unat in_len) eid oui (unat oui_len) 0;
        case t of
          None \<Rightarrow> Some (None, ie, 0)
        | Some p \<Rightarrow> do {
            l \<leftarrow> byte_at (p + 1) b;
            ie \<leftarrow> copy_out p (unat l + 2) b ie;
            Some (Some p, ie, ucast l + 2)
          }
      })"

text \<open>The rest behind a deleted element is moved by way of an array on the stack.\<close>

definition MAX_IE_SZ :: nat where "MAX_IE_SZ = 768"

definition remove_one :: "nat \<Rightarrow> nat \<Rightarrow> u32 \<Rightarrow> u8 list \<Rightarrow> u8 list option" where
  "remove_one target remain remain_len b = do {
     xs \<leftarrow> read_at remain (unat remain_len) b;
     buf \<leftarrow> write_at 0 xs (replicate MAX_IE_SZ 0);
     write_at target (take (unat remain_len) buf) b
   }"

lemma get_ie_ex_loop_bounds:
  "get_ie_ex_loop b in_ie in_len eid oui oui_len cnt = Some (Some p) \<Longrightarrow>
     in_ie + cnt \<le> p \<and> p < in_ie + in_len"
proof (induction b in_ie in_len eid oui oui_len cnt rule: get_ie_ex_loop.induct)
  case (1 b in_ie in_len eid oui oui_len cnt)
  note IH = 1(1) and eq = 1(2)
  have lt: "cnt < in_len"
    using eq by (subst (asm) get_ie_ex_loop.simps) (simp split: if_split_asm)
  from eq lt obtain x m where x: "byte_at (in_ie + cnt) b = Some x"
    and m: "(if eid = x then oui_match b (in_ie + cnt) oui oui_len else Some False) = Some m"
    by (subst (asm) get_ie_ex_loop.simps) (auto simp: Option.bind_eq_Some_conv)
  show ?case
  proof (cases m)
    case True
    then show ?thesis
      using eq lt x m by (subst (asm) get_ie_ex_loop.simps) simp
  next
    case False
    then obtain l where l: "byte_at (in_ie + cnt + 1) b = Some l"
      and rec: "get_ie_ex_loop b in_ie in_len eid oui oui_len (cnt + (unat l + 2)) = Some (Some p)"
      using eq lt x m by (subst (asm) get_ie_ex_loop.simps) (auto simp: Option.bind_eq_Some_conv)
    show ?thesis
      using IH [OF lt x m False l rec] by simp
  qed
qed


lemma rtw_get_ie_ex_None:
  "rtw_get_ie_ex b in_ie in_len eid oui oui_len None =
     (if in_len = 0 then Some (None, None, 0)
      else Option.bind (get_ie_ex_loop b in_ie (unat in_len) eid oui (unat oui_len) 0)
        (\<lambda>t. case t of None \<Rightarrow> Some (None, None, 0)
           | Some p \<Rightarrow> Option.bind (byte_at (p + 1) b) (\<lambda>l. Some (Some p, None, ucast l + 2))))"
  by (auto simp: rtw_get_ie_ex_def copy_out_def word_le_0_iff intro!: Option.bind_cong split: option.split)

lemma unat_ielen: "unat (ucast (l :: u8) + 2 :: u32) = unat l + 2"
proof -
  have "unat l < 256" using unsigned_less [of l] by simp
  then show ?thesis by (simp add: unat_word_ariths unsigned_ucast_eq take_bit_nat_eq_self)
qed

lemma rtw_get_ie_ex_bounds:
  assumes "rtw_get_ie_ex b in_ie in_len eid oui oui_len None = Some (Some p, ie, n)"
  shows "in_ie \<le> p \<and> p < in_ie + unat in_len \<and> 2 \<le> unat n \<and> unat n \<le> 257 \<and> ie = None"
proof -
  from assms obtain l where g: "get_ie_ex_loop b in_ie (unat in_len) eid oui (unat oui_len) 0 = Some (Some p)"
    and n: "n = ucast (l :: u8) + 2" and "ie = None"
    unfolding rtw_get_ie_ex_None by (auto simp: Option.bind_eq_Some_conv split: if_split_asm option.split_asm)
  moreover have "unat l < 256" using unsigned_less [of l] by simp
  ultimately show ?thesis using get_ie_ex_loop_bounds [OF g] by (simp add: n unat_ielen)
qed

lemma remain_shrinks:
  fixes sl :: u32
  assumes "2 \<le> c" "c \<le> unat sl + 256" "unat (sl - of_nat c) \<le> 768"
  shows "unat (sl - of_nat c) < unat sl"
proof (cases "c \<le> unat sl")
  case True
  then have "c < 2 ^ 32" using unsigned_less [of sl, where 'a = nat] by simp
  then have uc: "unat (of_nat c :: u32) = c" by (simp add: unsigned_of_nat take_bit_nat_eq_self)
  have "of_nat c \<le> sl" using True by (simp add: word_le_nat_alt uc)
  then have "unat (sl - of_nat c) = unat sl - c" by (simp add: unat_sub uc)
  then show ?thesis using assms(1) True by simp
next
  case False
  show ?thesis
  proof (cases "unat sl < 1024")
    case True
    then have "c < 2 ^ 32" using assms(2) by simp
    then have uc: "unat (of_nat c :: u32) = c" by (simp add: unsigned_of_nat take_bit_nat_eq_self)
    have "unat (sl - of_nat c) = 2 ^ 32 + unat sl - c"
      using False \<open>c < 2 ^ 32\<close> by (simp add: unat_sub_if' uc)
    then have False using assms(2,3) True by simp
    then show ?thesis ..
  next
    case False
    then show ?thesis using assms(3) by simp
  qed
qed

lemma remove_one_len: "remove_one t r n b = Some b' \<Longrightarrow> unat n \<le> 768"
  by (auto simp: remove_one_def MAX_IE_SZ_def Option.bind_eq_Some_conv read_at_def write_at_def
      split: if_split_asm)

function remove_ie_loop ::
  "u8 list \<Rightarrow> nat \<Rightarrow> u32 \<Rightarrow> u32 \<Rightarrow> status \<Rightarrow> u8 \<Rightarrow> u8 list option \<Rightarrow> u8 \<Rightarrow> (status \<times> u32 \<times> u8 list) option" where
  "remove_ie_loop b start search_len ies_len ret eid oui oui_len =
     (case rtw_get_ie_ex b start search_len eid oui oui_len None of
        None \<Rightarrow> None
      | Some (None, _, _) \<Rightarrow> Some (ret, ies_len, b)
      | Some (Some target, _, ielen) \<Rightarrow>
          if ielen = 0 then Some (ret, ies_len, b)
          else
            (let remain = target + unat ielen;
                 remain_len = search_len - of_nat (remain - start)
             in case remove_one target remain remain_len b of
                  None \<Rightarrow> None
                | Some b' \<Rightarrow> remove_ie_loop b' target remain_len (ies_len - ielen) SUCCESS eid oui oui_len))"
  by pat_completeness auto

termination
proof (relation "measure (\<lambda>(b, start, search_len, ies_len, ret, eid, oui, oui_len). unat search_len)",
    goal_cases)
  case 1
  show ?case by simp
next
  case (2 b start search_len ies_len ret eid oui oui_len a t y target x2 n remain remain_len b')
  have b: "start \<le> target" "target < start + unat search_len" "2 \<le> unat n" "unat n \<le> 257"
    using rtw_get_ie_ex_bounds [of b start search_len eid oui oui_len target x2 n] 2 by auto
  have "unat remain_len \<le> 768" using 2 by (auto dest: remove_one_len)
  then have "unat (search_len - of_nat (target + unat n - start)) < unat search_len"
    using b 2 by (intro remain_shrinks) auto
  then show ?case using 2 by simp
qed

declare remove_ie_loop.simps [simp del]

definition rtw_ies_remove_ie ::
  "u8 list \<Rightarrow> u32 \<Rightarrow> u32 \<Rightarrow> u8 \<Rightarrow> u8 list option \<Rightarrow> u8 \<Rightarrow> (status \<times> u32 \<times> u8 list) option" where
  "rtw_ies_remove_ie ies ies_len offset eid oui oui_len =
     (if ies_len \<le> offset then Some (FAIL, ies_len, ies)
      else remove_ie_loop ies (unat offset) (ies_len - offset) ies_len FAIL eid oui oui_len)"

section \<open>Series of elements\<close>

text \<open>
  An element is a pair of identifier and data. A search meets the elements of a series one after
  the other and stops at the first it looks for.
\<close>

definition ie_bytes :: "u8 \<times> u8 list \<Rightarrow> u8 list" where
  "ie_bytes e = fst e # of_nat (length (snd e)) # snd e"

definition ies_bytes :: "(u8 \<times> u8 list) list \<Rightarrow> u8 list" where
  "ies_bytes es = concat (map ie_bytes es)"

definition ie_ok :: "u8 \<times> u8 list \<Rightarrow> bool" where
  "ie_ok e \<longleftrightarrow> length (snd e) < 256"

primrec first_hit :: "('e \<Rightarrow> u8 list) \<Rightarrow> ('e \<Rightarrow> bool) \<Rightarrow> nat \<Rightarrow> 'e list \<Rightarrow> ('e \<times> nat) option" where
  "first_hit enc hit p [] = None"
| "first_hit enc hit p (e # es) = (if hit e then Some (e, p) else first_hit enc hit (p + length (enc e)) es)"

lemma ies_bytes_simps [simp]:
  "ies_bytes [] = []" "ies_bytes (e # es) = ie_bytes e @ ies_bytes es"
  "ies_bytes (es @ fs) = ies_bytes es @ ies_bytes fs"
  by (simp_all add: ies_bytes_def)

lemma length_ie_bytes [simp]: "length (ie_bytes e) = length (snd e) + 2"
  by (simp add: ie_bytes_def)

lemma ie_bytes_not_Nil [simp]: "ie_bytes e \<noteq> []"
  by (simp add: ie_bytes_def)

lemma ie_byte_at:
  "byte_at (length pre) (pre @ ie_bytes e @ post) = Some (fst e)"
  "byte_at (length pre + 1) (pre @ ie_bytes e @ post) = Some (of_nat (length (snd e)))"
  by (simp_all add: byte_at_def ie_bytes_def nth_append)

lemma ie_ok_length:
  "ie_ok e \<Longrightarrow> unat (of_nat (length (snd e)) :: u8) = length (snd e)"
  "ie_ok e \<Longrightarrow> uint (of_nat (length (snd e)) :: u8) = int (length (snd e))"
  by (simp_all add: ie_ok_def unsigned_of_nat take_bit_nat_eq_self)

lemma first_hit_None: "first_hit enc hit p es = None \<longleftrightarrow> (\<forall>e \<in> set es. \<not> hit e)"
  by (induction es arbitrary: p) auto

lemma first_hit_split:
  "\<forall>e \<in> set es. \<not> hit e \<Longrightarrow> hit e \<Longrightarrow>
     first_hit enc hit p (es @ e # fs) = Some (e, p + length (concat (map enc es)))"
  by (induction es arbitrary: p) auto

lemma first_hit_Some:
  "first_hit enc hit p es = Some (e, q) \<Longrightarrow>
     \<exists>fs gs. es = fs @ e # gs \<and> q = p + length (concat (map enc fs)) \<and> hit e"
proof (induction es arbitrary: p)
  case Nil
  then show ?case by simp
next
  case (Cons a es)
  show ?case
  proof (cases "hit a")
    case True
    then have "a # es = [] @ e # es \<and> q = p + length (concat (map enc [])) \<and> hit e" using Cons.prems by auto
    then show ?thesis by blast
  next
    case False
    then have "first_hit enc hit (p + length (enc a)) es = Some (e, q)" using Cons.prems by simp
    from Cons.IH [OF this] obtain fs gs
      where "es = fs @ e # gs" "q = p + length (enc a) + length (concat (map enc fs))" "hit e" by blast
    then have "a # es = (a # fs) @ e # gs \<and> q = p + length (concat (map enc (a # fs))) \<and> hit e" by simp
    then show ?thesis by blast
  qed
qed

text \<open>
  What a search has to do at one element: \<open>search b lim p\<close> looks in the buffer \<open>b\<close> from
  \<open>p\<close> on, up to \<open>lim\<close>. \<open>valid\<close> are the elements it handles, \<open>hit\<close> those it looks
  for, \<open>ok\<close> the limits it works with.
\<close>

locale tlv_search =
  fixes enc :: "'e \<Rightarrow> u8 list"
    and valid :: "'e \<Rightarrow> bool"
    and hit :: "'e \<Rightarrow> bool"
    and ok :: "nat \<Rightarrow> bool"
    and search :: "u8 list \<Rightarrow> nat \<Rightarrow> nat \<Rightarrow> 'r"
    and found :: "'e \<Rightarrow> nat \<Rightarrow> 'r"
    and miss :: 'r
  assumes enc_pos: "valid e \<Longrightarrow> enc e \<noteq> []"
    and stop: "lim \<le> p \<Longrightarrow> search b lim p = miss"
    and at_hit: "valid e \<Longrightarrow> hit e \<Longrightarrow> ok lim \<Longrightarrow> length pre < lim \<Longrightarrow>
      search (pre @ enc e @ post) lim (length pre) = found e (length pre)"
    and at_skip: "valid e \<Longrightarrow> \<not> hit e \<Longrightarrow> ok lim \<Longrightarrow> length pre < lim \<Longrightarrow>
      search (pre @ enc e @ post) lim (length pre) =
      search (pre @ enc e @ post) lim (length pre + length (enc e))"
begin

lemma search_series:
  assumes "\<forall>e \<in> set es. valid e" and "ok (length pre + length (concat (map enc es)))"
  shows "search (pre @ concat (map enc es) @ post) (length pre + length (concat (map enc es))) (length pre) =
    (case first_hit enc hit (length pre) es of None \<Rightarrow> miss | Some (e, p) \<Rightarrow> found e p)"
  using assms
proof (induction es arbitrary: pre)
  case Nil
  then show ?case by (simp add: stop)
next
  case (Cons e es)
  have v: "valid e" and vs: "\<forall>e \<in> set es. valid e" using Cons.prems(1) by auto
  have ok: "ok (length pre + (length (enc e) + length (concat (map enc es))))"
    using Cons.prems(2) by simp
  have lt: "length pre < length pre + (length (enc e) + length (concat (map enc es)))"
    using enc_pos [OF v] by simp
  show ?case
  proof (cases "hit e")
    case True
    then show ?thesis
      using at_hit [OF v True ok lt, of "concat (map enc es) @ post"] by simp
  next
    case False
    have "ok (length (pre @ enc e) + length (concat (map enc es)))"
      using ok by (simp add: add.assoc)
    from Cons.IH [OF vs this] show ?thesis
      using at_skip [OF v False ok lt, of "concat (map enc es) @ post"] False by (simp add: add.assoc)
  qed
qed

lemma search_reach:
  assumes "\<forall>x \<in> set es. valid x \<and> \<not> hit x" "valid e" "hit e" "ok lim"
    "length pre + length (concat (map enc es)) + length (enc e) \<le> lim"
  shows "search (pre @ concat (map enc es) @ enc e @ post) lim (length pre) =
    found e (length pre + length (concat (map enc es)))"
  using assms(1,5)
proof (induction es arbitrary: pre)
  case Nil
  have "length pre < lim" using Nil.prems(2) enc_pos [OF assms(2)] by (cases "enc e") simp_all
  then show ?case using at_hit [OF assms(2-4), of pre post] by simp
next
  case (Cons x es)
  have x: "valid x" "\<not> hit x" and xs: "\<forall>y \<in> set es. valid y \<and> \<not> hit y" using Cons.prems(1) by auto
  have "length pre < lim" using Cons.prems(2) enc_pos [OF x(1)] by (cases "enc x") simp_all
  moreover have "length (pre @ enc x) + length (concat (map enc es)) + length (enc e) \<le> lim"
    using Cons.prems(2) by simp
  note Cons.IH [OF xs this]
  ultimately show ?case
    using at_skip [OF x assms(4), of pre "concat (map enc es) @ enc e @ post"] by (simp add: add.assoc)
qed

lemma search_skip:
  assumes "\<forall>x \<in> set es. valid x \<and> \<not> hit x" "ok lim" "length pre + length (concat (map enc es)) \<le> lim"
  shows "search (pre @ concat (map enc es) @ post) lim (length pre) =
    search (pre @ concat (map enc es) @ post) lim (length pre + length (concat (map enc es)))"
  using assms(1,3)
proof (induction es arbitrary: pre)
  case Nil
  then show ?case by simp
next
  case (Cons x es)
  have x: "valid x" "\<not> hit x" and xs: "\<forall>y \<in> set es. valid y \<and> \<not> hit y" using Cons.prems(1) by auto
  have "length pre < lim" using Cons.prems(2) enc_pos [OF x(1)] by (cases "enc x") simp_all
  moreover have "length (pre @ enc x) + length (concat (map enc es)) \<le> lim"
    using Cons.prems(2) by simp
  note Cons.IH [OF xs this]
  ultimately show ?case
    using at_skip [OF x assms(2), of pre "concat (map enc es) @ post"] by (simp add: add.assoc)
qed

lemma search_miss:
  assumes "\<forall>e \<in> set es. valid e \<and> \<not> hit e" and "ok (length pre + length (concat (map enc es)))"
  shows "search (pre @ concat (map enc es) @ post) (length pre + length (concat (map enc es))) (length pre) = miss"
proof -
  have "first_hit enc hit (length pre) es = None" using assms(1) by (simp add: first_hit_None)
  then show ?thesis using search_series [of es pre post] assms by simp
qed

lemma search_found:
  assumes "\<forall>x \<in> set es. valid x \<and> \<not> hit x" and "valid e" and "hit e" and "\<forall>x \<in> set fs. valid x"
    and "ok (length pre + length (concat (map enc (es @ e # fs))))"
  shows "search (pre @ concat (map enc (es @ e # fs)) @ post)
      (length pre + length (concat (map enc (es @ e # fs)))) (length pre) =
    found e (length pre + length (concat (map enc es)))"
proof -
  have "first_hit enc hit (length pre) (es @ e # fs) = Some (e, length pre + length (concat (map enc es)))"
    using assms(1,3) by (intro first_hit_split) auto
  then show ?thesis
    using search_series [of "es @ e # fs" pre post] assms by auto
qed

end

section \<open>The searches stop at the first match\<close>

lemma get_ie_loop_shift:
  "rtw_get_ie_loop b index (limit + k) p (i + k) = rtw_get_ie_loop b index limit p i"
proof (induction b index limit p i rule: rtw_get_ie_loop.induct)
  case (1 b index limit p i)
  show ?case
    using 1 by (subst (1 2) rtw_get_ie_loop.simps) (auto simp: algebra_simps intro!: Option.bind_cong)
qed

lemma rtw_get_ie_loop_0:
  "rtw_get_ie_loop b index limit p i = rtw_get_ie_loop b index (limit - i) p 0"
  using get_ie_loop_shift [of b index "limit - i" i p 0] by simp

text \<open>One turn of \<^verbatim>\<open>rtw_get_ie\<close> at an element.\<close>

lemma rtw_get_ie_step:
  assumes "ie_ok e" and "0 < limit"
  shows "rtw_get_ie (pre @ ie_bytes e @ post) (length pre) index 0 limit =
    (if uint (fst e) = index then Some (Some (length pre), int (length (snd e)))
     else rtw_get_ie (pre @ ie_bytes e @ post) (length pre + length (ie_bytes e)) index 0
            (limit - int (length (ie_bytes e))))"
proof -
  let ?b = "pre @ ie_bytes e @ post"
  have "rtw_get_ie ?b (length pre) index 0 limit = rtw_get_ie_loop ?b index limit (length pre) 0"
    using assms(2) by (simp add: rtw_get_ie_def)
  also have "\<dots> = (if uint (fst e) = index then Some (Some (length pre), int (length (snd e)))
      else if limit \<le> int (length (snd e)) + 2 then Some (None, 0)
      else rtw_get_ie_loop ?b index limit (length pre + (length (snd e) + 2)) (int (length (snd e)) + 2))"
    by (subst rtw_get_ie_loop.simps) (simp add: ie_byte_at [simplified] ie_ok_length [OF assms(1)])
  also have "rtw_get_ie_loop ?b index limit (length pre + (length (snd e) + 2)) (int (length (snd e)) + 2) =
      rtw_get_ie_loop ?b index (limit - (int (length (snd e)) + 2)) (length pre + (length (snd e) + 2)) 0"
    by (rule rtw_get_ie_loop_0)
  finally show ?thesis by (auto simp: rtw_get_ie_def algebra_simps)
qed

interpretation get_ie: tlv_search ie_bytes ie_ok "\<lambda>e. uint (fst e) = index" "\<lambda>_. True"
    "\<lambda>b lim p. rtw_get_ie b p index 0 (int lim - int p)"
    "\<lambda>e p. Some (Some p, int (length (snd e)))" "Some (None, 0)"
  for index
proof (unfold_locales, goal_cases)
  case (2 lim p b)
  then show ?case by (simp add: rtw_get_ie_def)
next
  case (4 e lim pre post)
  then show ?case using rtw_get_ie_step [of e "int lim - int (length pre)" pre post index]
    by (simp add: algebra_simps)
qed (simp_all add: rtw_get_ie_step)

text \<open>One turn of \<^verbatim>\<open>rtw_get_ie_ex\<close>.\<close>

lemma rtw_memcmp_append:
  "rtw_memcmp (length pre) ys (pre @ zs @ post) =
     (if length ys \<le> length zs \<or> take (length zs) ys \<noteq> zs then Some (take (length ys) zs = ys)
      else rtw_memcmp (length pre + length zs) (drop (length zs) ys) (pre @ zs @ post))"
proof (induction ys arbitrary: pre zs)
  case Nil
  then show ?case by simp
next
  case (Cons y ys)
  show ?case
  proof (cases zs)
    case Nil
    then show ?thesis by simp
  next
    fix z zs' assume zs: "zs = z # zs'"
    have "rtw_memcmp (Suc (length pre)) ys (pre @ z # zs' @ post) =
        (if length ys \<le> length zs' \<or> take (length zs') ys \<noteq> zs' then Some (take (length ys) zs' = ys)
         else rtw_memcmp (Suc (length pre) + length zs') (drop (length zs') ys) (pre @ z # zs' @ post))"
      using Cons.IH [of "pre @ [z]" zs'] by simp
    then show ?thesis by (auto simp: zs byte_at_def nth_append split: if_split_asm)
  qed
qed

lemma get_ie_ex_loop_base:
  "get_ie_ex_loop b in_ie in_len eid oui n cnt = get_ie_ex_loop b 0 (in_ie + in_len) eid oui n (in_ie + cnt)"
proof (induction b in_ie in_len eid oui n cnt rule: get_ie_ex_loop.induct)
  case (1 b in_ie in_len eid oui n cnt)
  show ?case
    using 1 by (subst (1 2) get_ie_ex_loop.simps, unfold add_0) (auto simp: algebra_simps intro!: Option.bind_cong)
qed

text \<open>
  An element the search looks for has the identifier and its data begins with \<open>oui\<close>. The code
  compares \<open>oui\<close> also beyond the end of a short element, so such an element must differ within.
\<close>

definition ex_hit :: "u8 \<Rightarrow> u8 list option \<Rightarrow> u8 \<times> u8 list \<Rightarrow> bool" where
  "ex_hit eid oui e \<longleftrightarrow> fst e = eid \<and> (case oui of None \<Rightarrow> True | Some ys \<Rightarrow> take (length ys) (snd e) = ys)"

definition ex_valid :: "u8 \<Rightarrow> u8 list option \<Rightarrow> u8 \<times> u8 list \<Rightarrow> bool" where
  "ex_valid eid oui e \<longleftrightarrow> ie_ok e \<and> (fst e = eid \<longrightarrow>
     (case oui of None \<Rightarrow> True
      | Some ys \<Rightarrow> length ys \<le> length (snd e) \<or> take (length (snd e)) ys \<noteq> snd e))"

definition oui_size :: "u8 list option \<Rightarrow> nat" where
  "oui_size oui = (case oui of None \<Rightarrow> 0 | Some ys \<Rightarrow> length ys)"

lemma oui_match_at:
  assumes "ex_valid (fst e) oui e"
  shows "oui_match (pre @ ie_bytes e @ post) (length pre) oui (oui_size oui) = Some (ex_hit (fst e) oui e)"
proof (cases oui)
  case None
  then show ?thesis by (simp add: oui_match_def ex_hit_def)
next
  case (Some ys)
  have "pre @ ie_bytes e @ post = (pre @ [fst e, of_nat (length (snd e))]) @ snd e @ post"
    by (simp add: ie_bytes_def)
  then show ?thesis
    using rtw_memcmp_append [of "pre @ [fst e, of_nat (length (snd e))]" ys "snd e" post] assms Some
    by (simp add: oui_match_def ex_hit_def ex_valid_def oui_size_def)
qed

interpretation get_ie_ex: tlv_search ie_bytes "ex_valid eid oui" "ex_hit eid oui" "\<lambda>_. True"
    "\<lambda>b lim p. get_ie_ex_loop b 0 lim eid oui (oui_size oui) p"
    "\<lambda>e p. Some (Some p)" "Some None"
  for eid oui
proof (unfold_locales, goal_cases)
  case (2 lim p b)
  then show ?case by (subst get_ie_ex_loop.simps) simp
next
  case (3 e lim pre post)
  then have "fst e = eid" by (simp add: ex_hit_def)
  then show ?case using 3 oui_match_at [of e oui pre post]
    by (subst get_ie_ex_loop.simps) (simp add: ie_byte_at [simplified])
next
  case (4 e lim pre post)
  then have l: "unat (of_nat (length (snd e)) :: u8) = length (snd e)"
    by (simp add: ie_ok_length ex_valid_def)
  have m: "oui_match (pre @ ie_bytes e @ post) (length pre) oui (oui_size oui) = Some False" if "eid = fst e"
    using 4(1,2) oui_match_at [of e oui pre post] that by simp
  show ?case using 4(4) m
    by (subst get_ie_ex_loop.simps) (simp add: ie_byte_at [simplified] l)
qed simp


section \<open>Written series are found\<close>

lemma rtw_set_ie_writes:
  assumes "length d < 256" and "read_at 0 (length d) source = Some d" and "length d + 2 \<le> length rest"
  shows "rtw_set_ie (length pre) index (of_nat (length d)) source frlen (pre @ rest) =
    Some (length (pre @ ie_bytes (word_of_int index, d)), frlen + of_nat (length d + 2),
      (pre @ ie_bytes (word_of_int index, d)) @ drop (length d + 2) rest)"
proof -
  have u: "unat (of_nat (length d) :: u32) = length d"
    using assms(1) by (simp add: unsigned_of_nat take_bit_nat_eq_self)
  have c: "(ucast (of_nat (length d) :: u32) :: u8) = of_nat (length d)"
    using assms(1) by (simp add: unsigned_of_nat take_bit_nat_eq_self)
  obtain x y m where rest: "rest = x # y # m" and m: "length d \<le> length m"
    using assms(3) by (metis Suc_le_length_iff add_2_eq_Suc' add_Suc_right)
  show ?thesis
  proof (cases "d = []")
    case True
    then show ?thesis using m by (simp add: rtw_set_ie_def rest ie_bytes_def)
  next
    case False
    then have "0 < (of_nat (length d) :: u32)" using u by (simp add: word_less_nat_alt)
    then show ?thesis using m u c assms(2)
      by (simp add: rtw_set_ie_def rest ie_bytes_def add.commute)
  qed
qed

text \<open>A frame is built by one call of \<^verbatim>\<open>rtw_set_ie\<close> after the other.\<close>

fun set_ies :: "nat \<Rightarrow> u32 \<Rightarrow> (u8 \<times> u8 list) list \<Rightarrow> u8 list \<Rightarrow> (nat \<times> u32 \<times> u8 list) option" where
  "set_ies p frlen [] b = Some (p, frlen, b)"
| "set_ies p frlen ((eid, d) # es) b = do {
     (p, frlen, b) \<leftarrow> rtw_set_ie p (uint eid) (of_nat (length d)) d frlen b;
     set_ies p frlen es b
   }"

lemma set_ies_writes:
  assumes "\<forall>e \<in> set es. ie_ok e" and "length mid = length (ies_bytes es)"
  shows "set_ies (length pre) frlen es (pre @ mid @ post) =
    Some (length pre + length (ies_bytes es), frlen + of_nat (length (ies_bytes es)), pre @ ies_bytes es @ post)"
  using assms
proof (induction es arbitrary: pre mid frlen)
  case Nil
  then show ?case by simp
next
  case (Cons e es)
  obtain eid d where e: "e = (eid, d)" by (cases e)
  define n where "n = length d + 2"
  have l: "length d + 2 \<le> length (mid @ post)" "length (drop n mid) = length (ies_bytes es)" "n \<le> length mid"
    using Cons.prems(2) by (simp_all add: e n_def)
  have d: "length d < 256" using Cons.prems(1) by (simp add: e ie_ok_def)
  have "rtw_set_ie (length pre) (uint eid) (of_nat (length d)) d frlen (pre @ mid @ post) =
      Some (length (pre @ ie_bytes e), frlen + of_nat (length d + 2), (pre @ ie_bytes e) @ drop n mid @ post)"
    using rtw_set_ie_writes [OF d _ l(1), of d pre "uint eid" frlen] l(3) by (simp add: e n_def)
  then show ?case
    using Cons.IH [of "drop n mid" "pre @ ie_bytes e" "frlen + of_nat (length d + 2)"] Cons.prems(1) l(2)
    by (simp add: e ac_simps)
qed

text \<open>
  A series of elements written with \<^verbatim>\<open>rtw_set_ie\<close> is there, the frame length has grown
  by its size, and \<^verbatim>\<open>rtw_get_ie\<close> finds in it the first element with the identifier asked for,
  with its length, or reports that there is none.
\<close>

theorem rtw_set_get_ie:
  assumes "\<forall>e \<in> set es. ie_ok e" and "length mid = length (ies_bytes es)" and "b' = pre @ ies_bytes es @ post"
  shows "set_ies (length pre) frlen es (pre @ mid @ post) =
      Some (length pre + length (ies_bytes es), frlen + of_nat (length (ies_bytes es)), b') \<and>
    rtw_get_ie b' (length pre) index 0 (int (length (ies_bytes es))) =
      Some (case first_hit ie_bytes (\<lambda>e. uint (fst e) = index) (length pre) es of
              None \<Rightarrow> (None, 0)
            | Some (e, p) \<Rightarrow> (Some p, int (length (snd e))))"
proof
  show "set_ies (length pre) frlen es (pre @ mid @ post) =
      Some (length pre + length (ies_bytes es), frlen + of_nat (length (ies_bytes es)), b')"
    using set_ies_writes [OF assms(1,2)] assms(3) by simp
  show "rtw_get_ie b' (length pre) index 0 (int (length (ies_bytes es))) =
      Some (case first_hit ie_bytes (\<lambda>e. uint (fst e) = index) (length pre) es of
              None \<Rightarrow> (None, 0)
            | Some (e, p) \<Rightarrow> (Some p, int (length (snd e))))"
    using get_ie.search_series [of es pre post index] assms(1)
    unfolding assms(3) ies_bytes_def by (simp split: option.split)
qed

theorem rtw_set_get_ie_witness:
  "set_ies 1 0 [(0, [65, 66]), (1, [130]), (1, [132])] (replicate 12 7) =
     Some (11, 10, [7, 0, 2, 65, 66, 1, 1, 130, 1, 1, 132, 7]) \<and>
   rtw_get_ie [7, 0, 2, 65, 66, 1, 1, 130, 1, 1, 132, 7] 1 1 0 10 = Some (Some 5, 1)"
  using rtw_set_get_ie [of "[(0, [65, 66]), (1, [130]), (1, [132])]" "replicate 10 7"
      "[7, 0, 2, 65, 66, 1, 1, 130, 1, 1, 132, 7]" "[7]" "[7]" 0 1]
  by (simp add: ie_ok_def ie_bytes_def eval_nat_numeral)

section \<open>Deleting elements\<close>

lemma read_behind: "read_at (length pre) (length ys) (pre @ ys @ post) = Some ys"
  by (simp add: read_at_def)

lemma remove_one_moves:
  assumes "length ys \<le> 768"
  shows "remove_one (length pre) (length pre + length zs) (of_nat (length ys)) (pre @ zs @ ys @ post) =
    Some (pre @ ys @ drop (length ys) (zs @ ys @ post))"
proof -
  have u: "unat (of_nat (length ys) :: u32) = length ys"
    using assms by (simp add: unsigned_of_nat take_bit_nat_eq_self)
  have "read_at (length pre + length zs) (length ys) (pre @ zs @ ys @ post) = Some ys"
    using read_behind [of "pre @ zs" ys post] by simp
  then show ?thesis
    using assms u by (simp add: remove_one_def MAX_IE_SZ_def)
qed


lemma unat_small: "n \<le> 2000 \<Longrightarrow> unat (of_nat n :: u32) = n"
  by (simp add: unsigned_of_nat take_bit_nat_eq_self)

lemma get_ie_ex_series:
  assumes "\<forall>e \<in> set es. ex_valid eid oui e" "oui_size oui = unat oui_len"
    "ies_bytes es \<noteq> []" "length (ies_bytes es) \<le> 2000"
  shows "rtw_get_ie_ex (pre @ ies_bytes es @ post) (length pre) (of_nat (length (ies_bytes es))) eid oui oui_len None =
    Some (case first_hit ie_bytes (ex_hit eid oui) (length pre) es of
            None \<Rightarrow> (None, None, 0)
          | Some (e, p) \<Rightarrow> (Some p, None, of_nat (length (ie_bytes e))))"
proof -
  let ?n = "of_nat (length (ies_bytes es)) :: u32"
  have u: "unat ?n = length (ies_bytes es)" using assms(4) by (intro unat_small) simp
  have nz: "?n \<noteq> 0" using u assms(3) by auto
  have g: "get_ie_ex_loop (pre @ ies_bytes es @ post) (length pre) (unat ?n) eid oui (unat oui_len) 0 =
      (case first_hit ie_bytes (ex_hit eid oui) (length pre) es of None \<Rightarrow> Some None | Some (e, p) \<Rightarrow> Some (Some p))"
    using get_ie_ex.search_series [of es eid oui pre post] assms(1)
    by (subst get_ie_ex_loop_base, unfold u assms(2) [symmetric]) (simp add: ies_bytes_def)
  show ?thesis
  proof (cases "first_hit ie_bytes (ex_hit eid oui) (length pre) es")
    case None
    then show ?thesis by (simp add: rtw_get_ie_ex_None nz g)
  next
    case (Some ep)
    obtain e p where ep: "ep = (e, p)" by (cases ep)
    from first_hit_Some [OF Some [unfolded ep]]
    obtain fs gs where es: "es = fs @ e # gs" and p: "p = length (pre @ ies_bytes fs)"
      by (auto simp: ies_bytes_def)
    have b: "pre @ ies_bytes es @ post = (pre @ ies_bytes fs) @ ie_bytes e @ (ies_bytes gs @ post)"
      by (simp add: es)
    have "byte_at (p + 1) (pre @ ies_bytes es @ post) = Some (of_nat (length (snd e)))"
      unfolding b p by (rule ie_byte_at)
    moreover have "ie_ok e" using assms(1) by (simp add: es ex_valid_def)
    then have "(ucast (of_nat (length (snd e)) :: u8) + 2 :: u32) = of_nat (length (ie_bytes e))"
      by (simp add: ie_ok_def unsigned_of_nat take_bit_nat_eq_self)
    ultimately show ?thesis by (simp add: rtw_get_ie_ex_None nz g Some ep)
  qed
qed

lemma remove_ie_loop_series:
  assumes "\<forall>e \<in> set es. ex_valid eid oui e" "oui_size oui = unat oui_len" "length (ies_bytes es) \<le> 768"
  shows "\<exists>rest. length rest = length (ies_bytes es) + length post - length (ies_bytes (filter (Not \<circ> ex_hit eid oui) es)) \<and>
    remove_ie_loop (pre @ ies_bytes es @ post) (length pre) (of_nat (length (ies_bytes es))) n ret eid oui oui_len =
      Some (if \<exists>e \<in> set es. ex_hit eid oui e then SUCCESS else ret,
        n - of_nat (length (ies_bytes es) - length (ies_bytes (filter (Not \<circ> ex_hit eid oui) es))),
        pre @ ies_bytes (filter (Not \<circ> ex_hit eid oui) es) @ rest)"
  using assms(1,3)
proof (induction es arbitrary: pre post n ret rule: measure_induct_rule [of length])
  case (less es)
  let ?keep = "filter (Not \<circ> ex_hit eid oui)"
  let ?b = "pre @ ies_bytes es @ post"
  let ?n = "of_nat (length (ies_bytes es)) :: u32"
  show ?case
  proof (cases "\<exists>e \<in> set es. ex_hit eid oui e")
    case False
    then have k: "?keep es = es" and fh: "first_hit ie_bytes (ex_hit eid oui) (length pre) es = None"
      by (simp_all add: first_hit_None filter_id_conv)
    have "rtw_get_ie_ex ?b (length pre) ?n eid oui oui_len None = Some (None, None, 0)"
    proof (cases "ies_bytes es = []")
      case True
      then show ?thesis by (simp add: rtw_get_ie_ex_None)
    next
      case False
      then show ?thesis using get_ie_ex_series [of es eid oui oui_len pre post] less.prems assms(2) fh by simp
    qed
    then show ?thesis using False k by (subst remove_ie_loop.simps) auto
  next
    case True
    then obtain fs e gs where es: "es = fs @ e # gs" and e: "ex_hit eid oui e"
      and fs: "\<forall>f \<in> set fs. \<not> ex_hit eid oui f"
      using split_list_first_prop [of es "ex_hit eid oui"] by blast
    let ?p = "pre @ ies_bytes fs"
    have fh: "first_hit ie_bytes (ex_hit eid oui) (length pre) es = Some (e, length ?p)"
      using first_hit_split [OF fs e] by (simp add: es ies_bytes_def)
    have lens: "length (ies_bytes es) = length (ies_bytes fs) + length (ie_bytes e) + length (ies_bytes gs)"
      by (simp add: es)
    have le: "length (ie_bytes e) \<le> 768" "length (ies_bytes gs) \<le> 768" "ies_bytes es \<noteq> []"
      using less.prems(2) by (auto simp: es)
    have ue: "unat (of_nat (length (ie_bytes e)) :: u32) = length (ie_bytes e)"
      using le(1) by (intro unat_small) simp
    have nz: "(of_nat (length (ie_bytes e)) :: u32) \<noteq> 0" using ue by (metis ie_bytes_not_Nil length_0_conv unsigned_0)
    have g: "rtw_get_ie_ex ?b (length pre) ?n eid oui oui_len None =
        Some (Some (length ?p), None, of_nat (length (ie_bytes e)))"
      using get_ie_ex_series [of es eid oui oui_len pre post] less.prems assms(2) fh le(3) by simp
    have rl: "?n - of_nat (length ?p + length (ie_bytes e) - length pre) = (of_nat (length (ies_bytes gs)) :: u32)"
      unfolding lens by (simp add: algebra_simps)
    have b: "?b = ?p @ ie_bytes e @ ies_bytes gs @ post" by (simp add: es)
    define post' where "post' = drop (length (ies_bytes gs)) (ie_bytes e @ ies_bytes gs @ post)"
    have mv: "remove_one (length ?p) (length ?p + length (ie_bytes e)) (of_nat (length (ies_bytes gs))) ?b =
        Some (?p @ ies_bytes gs @ post')"
      unfolding b post'_def by (rule remove_one_moves [OF le(2)])
    have "length gs < length es" "\<forall>x \<in> set gs. ex_valid eid oui x"
      using less.prems(1) by (simp_all add: es)
    from less.IH [OF this le(2), of post' ?p "n - of_nat (length (ie_bytes e))" SUCCESS] obtain rest where rest: "length rest = length (ies_bytes gs) + length post' - length (ies_bytes (?keep gs))"
      and loop: "remove_ie_loop (?p @ ies_bytes gs @ post') (length ?p) (of_nat (length (ies_bytes gs)))
          (n - of_nat (length (ie_bytes e))) SUCCESS eid oui oui_len =
        Some (SUCCESS, n - of_nat (length (ie_bytes e)) - of_nat (length (ies_bytes gs) - length (ies_bytes (?keep gs))),
          ?p @ ies_bytes (?keep gs) @ rest)"
      unfolding if_cancel by blast
    have kfs: "?keep fs = fs" using fs by (simp add: filter_id_conv)
    have kes: "ies_bytes (?keep es) = ies_bytes fs @ ies_bytes (?keep gs)" using e by (simp add: es kfs)
    have kle: "length (ies_bytes (?keep gs)) \<le> length (ies_bytes gs)"
      by (induction gs) (simp_all del: o_apply)
    have "remove_ie_loop ?b (length pre) ?n n ret eid oui oui_len =
        remove_ie_loop (?p @ ies_bytes gs @ post') (length ?p) (of_nat (length (ies_bytes gs)))
          (n - of_nat (length (ie_bytes e))) SUCCESS eid oui oui_len"
      by (subst remove_ie_loop.simps) (simp only: g option.case prod.case ue Let_def rl mv if_False nz)
    moreover have "n - of_nat (length (ie_bytes e)) - of_nat (length (ies_bytes gs) - length (ies_bytes (?keep gs))) =
        n - of_nat (length (ies_bytes es) - length (ies_bytes (?keep es)))"
      unfolding lens kes length_append using kle by (simp add: algebra_simps of_nat_diff)
    moreover have "length rest = length (ies_bytes es) + length post - length (ies_bytes (?keep es))"
      unfolding rest post'_def lens kes by simp
    ultimately show ?thesis
      using True loop kes by (intro exI [of _ rest]) (simp only: append_assoc simp_thms if_True)
  qed
qed


text \<open>A match that more than 768 bytes follow: the array on the stack is too small for them.\<close>

lemma remove_ie_loop_overruns:
  assumes "\<forall>x \<in> set (fs @ e # gs). ex_valid eid oui x" "oui_size oui = unat oui_len"
    "\<forall>f \<in> set fs. \<not> ex_hit eid oui f" "ex_hit eid oui e" "768 < length (ies_bytes gs)"
    "length (ies_bytes (fs @ e # gs)) \<le> 2000"
  shows "remove_ie_loop (pre @ ies_bytes (fs @ e # gs) @ post) (length pre) (of_nat (length (ies_bytes (fs @ e # gs))))
    n ret eid oui oui_len = None"
proof -
  let ?es = "fs @ e # gs" and ?p = "length (pre @ ies_bytes fs)"
  let ?b = "pre @ ies_bytes ?es @ post" and ?n = "of_nat (length (ies_bytes ?es)) :: u32"
  have fh: "first_hit ie_bytes (ex_hit eid oui) (length pre) ?es = Some (e, ?p)"
    using first_hit_split [OF assms(3,4)] by (simp add: ies_bytes_def)
  have ue: "unat (of_nat (length (ie_bytes e)) :: u32) = length (ie_bytes e)"
    and ug: "unat (of_nat (length (ies_bytes gs)) :: u32) = length (ies_bytes gs)"
    using assms(6) by (intro unat_small; simp)+
  have nz: "(of_nat (length (ie_bytes e)) :: u32) \<noteq> 0" using ue by (metis ie_bytes_not_Nil length_0_conv unsigned_0)
  have g: "rtw_get_ie_ex ?b (length pre) ?n eid oui oui_len None = Some (Some ?p, None, of_nat (length (ie_bytes e)))"
    using get_ie_ex_series [OF assms(1,2) _ assms(6), of pre post] fh by simp
  have rl: "?n - of_nat (?p + length (ie_bytes e) - length pre) = (of_nat (length (ies_bytes gs)) :: u32)"
    by (simp add: algebra_simps)
  have "remove_one ?p (?p + length (ie_bytes e)) (of_nat (length (ies_bytes gs))) ?b = None"
    using remove_one_len assms(5) by (metis not_le ug option.exhaust)
  then show ?thesis
    by (subst remove_ie_loop.simps) (simp only: g option.case prod.case ue Let_def rl if_False nz)
qed



end
