(* ===== verification/Ie_Parse.thy ===== *)
theory Ie_Parse
  imports Ie_Series "HOL-Library.While_Combinator"
begin

text \<open>
  What the driver reads out of the elements of a management frame (\<^verbatim>\<open>core/rtw_ieee80211.c\<close>):
  \<^verbatim>\<open>rtw_ieee802_11_parse_elems\<close> notes where each element of a frame is, and the
  functions around \<^verbatim>\<open>rtw_parse_wpa_ie\<close> find the security elements and decode their ciphers.
\<close>

section \<open>All elements of a frame\<close>

text \<open>
  A field is the offset of the data of an element and its length, or \<open>None\<close> for the null pointer
  with length 0 that the structure is initialised with.
\<close>

record rtw_ieee802_11_elems =
  ssid :: "(nat \<times> u8) option"
  supp_rates :: "(nat \<times> u8) option"
  fh_params :: "(nat \<times> u8) option"
  ds_params :: "(nat \<times> u8) option"
  cf_params :: "(nat \<times> u8) option"
  tim :: "(nat \<times> u8) option"
  ibss_params :: "(nat \<times> u8) option"
  challenge :: "(nat \<times> u8) option"
  erp_info :: "(nat \<times> u8) option"
  ext_supp_rates :: "(nat \<times> u8) option"
  wpa_ie :: "(nat \<times> u8) option"
  rsn_ie :: "(nat \<times> u8) option"
  wme :: "(nat \<times> u8) option"
  wme_tspec :: "(nat \<times> u8) option"
  wps_ie :: "(nat \<times> u8) option"
  power_cap :: "(nat \<times> u8) option"
  supp_channels :: "(nat \<times> u8) option"
  mdie :: "(nat \<times> u8) option"
  ftie :: "(nat \<times> u8) option"
  timeout_int :: "(nat \<times> u8) option"
  ht_capabilities :: "(nat \<times> u8) option"
  ht_operation :: "(nat \<times> u8) option"
  vendor_ht_cap :: "(nat \<times> u8) option"

definition no_elems :: rtw_ieee802_11_elems where
    "no_elems = \<lparr>ssid = None, supp_rates = None, fh_params = None, ds_params = None,
     cf_params = None, tim = None, ibss_params = None, challenge = None, erp_info = None,
     ext_supp_rates = None, wpa_ie = None, rsn_ie = None, wme = None, wme_tspec = None, wps_ie =
     None, power_cap = None, supp_channels = None, mdie = None, ftie = None, timeout_int = None,
     ht_capabilities = None, ht_operation = None, vendor_ht_cap = None\<rparr>"

datatype ParseRes = ParseOK | ParseUnknown | ParseFailed

abbreviation (input) "OUI_MICROSOFT \<equiv> 0x0050f2 :: u32"
abbreviation (input) "OUI_BROADCOM \<equiv> 0x00904c :: u32"

definition be24_of :: "u8 list \<Rightarrow> u32" where
  "be24_of h = push_bit 16 (ucast (h ! 0)) OR push_bit 8 (ucast (h ! 1)) OR ucast (h ! 2)"

text \<open>The result is false where the code returns -1.\<close>

definition parse_vendor_specific ::
  "u8 list \<Rightarrow> nat \<Rightarrow> u8 \<Rightarrow> rtw_ieee802_11_elems \<Rightarrow> (bool \<times> rtw_ieee802_11_elems) option" where
  "parse_vendor_specific b pos elen el =
     (if elen < 4 then Some (False, el)
      else do {
        h \<leftarrow> read_at pos 3 b;
        t \<leftarrow> byte_at (pos + 3) b;
        if be24_of h = OUI_MICROSOFT then
          (if t = 1 then Some (True, el\<lparr>wpa_ie := Some (pos, elen)\<rparr>)
           else if t = 2 then
             (if elen < 5 then Some (False, el)
              else do {
                s \<leftarrow> byte_at (pos + 4) b;
                if s = 0 \<or> s = 1 then Some (True, el\<lparr>wme := Some (pos, elen)\<rparr>)
                else if s = 2 then Some (True, el\<lparr>wme_tspec := Some (pos, elen)\<rparr>)
                else Some (False, el)
              })
           else if t = 4 then Some (True, el\<lparr>wps_ie := Some (pos, elen)\<rparr>)
           else Some (False, el))
        else if be24_of h = OUI_BROADCOM then
          (if t = 0x33 then Some (True, el\<lparr>vendor_ht_cap := Some (pos, elen)\<rparr>)
           else Some (False, el))
        else Some (False, el)
      })"

text \<open>One element; the result is false when the code counts it as unknown.\<close>

definition parse_elem ::
  "u8 list \<Rightarrow> u8 \<Rightarrow> nat \<Rightarrow> u8 \<Rightarrow> rtw_ieee802_11_elems \<Rightarrow> (bool \<times> rtw_ieee802_11_elems) option" where
  "parse_elem b eid pos elen el =
     (if eid = 0 then Some (True, el\<lparr>ssid := Some (pos, elen)\<rparr>)
      else if eid = 1 then Some (True, el\<lparr>supp_rates := Some (pos, elen)\<rparr>)
      else if eid = 2 then Some (True, el\<lparr>fh_params := Some (pos, elen)\<rparr>)
      else if eid = 3 then Some (True, el\<lparr>ds_params := Some (pos, elen)\<rparr>)
      else if eid = 4 then Some (True, el\<lparr>cf_params := Some (pos, elen)\<rparr>)
      else if eid = 5 then Some (True, el\<lparr>tim := Some (pos, elen)\<rparr>)
      else if eid = 6 then Some (True, el\<lparr>ibss_params := Some (pos, elen)\<rparr>)
      else if eid = 16 then Some (True, el\<lparr>challenge := Some (pos, elen)\<rparr>)
      else if eid = 42 then Some (True, el\<lparr>erp_info := Some (pos, elen)\<rparr>)
      else if eid = 50 then Some (True, el\<lparr>ext_supp_rates := Some (pos, elen)\<rparr>)
      else if eid = 221 then parse_vendor_specific b pos elen el
      else if eid = 48 then Some (True, el\<lparr>rsn_ie := Some (pos, elen)\<rparr>)
      else if eid = 33 then Some (True, el\<lparr>power_cap := Some (pos, elen)\<rparr>)
      else if eid = 36 then Some (True, el\<lparr>supp_channels := Some (pos, elen)\<rparr>)
      else if eid = 54 then Some (True, el\<lparr>mdie := Some (pos, elen)\<rparr>)
      else if eid = 55 then Some (True, el\<lparr>ftie := Some (pos, elen)\<rparr>)
      else if eid = 56 then Some (True, el\<lparr>timeout_int := Some (pos, elen)\<rparr>)
      else if eid = 45 then Some (True, el\<lparr>ht_capabilities := Some (pos, elen)\<rparr>)
      else if eid = 61 then Some (True, el\<lparr>ht_operation := Some (pos, elen)\<rparr>)
      else Some (False, el))"

function parse_elems_loop ::
  "u8 list \<Rightarrow> nat \<Rightarrow> nat \<Rightarrow> bool \<Rightarrow> rtw_ieee802_11_elems \<Rightarrow> (ParseRes \<times> rtw_ieee802_11_elems) option" where
  "parse_elems_loop b left pos unknown el =
     (if 2 \<le> left then do {
        eid \<leftarrow> byte_at pos b;
        elen \<leftarrow> byte_at (pos + 1) b;
        if left - 2 < unat elen then Some (ParseFailed, el)
        else do {
          (known, el') \<leftarrow> parse_elem b eid (pos + 2) elen el;
          parse_elems_loop b (left - 2 - unat elen) (pos + 2 + unat elen) (unknown \<or> \<not> known) el'
        }
      }
      else if left \<noteq> 0 then Some (ParseFailed, el)
      else Some (if unknown then ParseUnknown else ParseOK, el))"
  by pat_completeness auto

termination
  by (relation "measure (\<lambda>(b, left, pos, unknown, el). left)") auto

declare parse_elems_loop.simps [simp del]

definition rtw_ieee802_11_parse_elems ::
  "u8 list \<Rightarrow> nat \<Rightarrow> u32 \<Rightarrow> (ParseRes \<times> rtw_ieee802_11_elems) option" where
  "rtw_ieee802_11_parse_elems b start len = parse_elems_loop b (unat len) start False no_elems"

subsection \<open>The parser stays inside and recognises exactly the series\<close>

text \<open>The fields of the elements that are not vendor specific, by identifier.\<close>

definition elem_fields :: "(u8 \<times> (rtw_ieee802_11_elems \<Rightarrow> (nat \<times> u8) option)) list" where
  "elem_fields = [
     (0, ssid),
     (1, supp_rates),
     (2, fh_params),
     (3, ds_params),
     (4, cf_params),
     (5, tim),
     (6, ibss_params),
     (16, challenge),
     (42, erp_info),
     (50, ext_supp_rates),
     (48, rsn_ie),
     (33, power_cap),
     (36, supp_channels),
     (54, mdie),
     (55, ftie),
     (56, timeout_int),
     (45, ht_capabilities),
     (61, ht_operation)]"

text \<open>The fields the vendor specific elements set.\<close>

definition vendor_fields :: "(rtw_ieee802_11_elems \<Rightarrow> (nat \<times> u8) option) list" where
  "vendor_fields = [wpa_ie, wme, wme_tspec, wps_ie, vendor_ht_cap]"

text \<open>Every pointer of the structure points at data inside the buffer from \<open>s\<close> to \<open>e\<close>.\<close>

definition elems_inside :: "nat \<Rightarrow> nat \<Rightarrow> rtw_ieee802_11_elems \<Rightarrow> bool" where
  "elems_inside s e el \<longleftrightarrow> (\<forall>g \<in> set (map snd elem_fields @ vendor_fields).
     case g el of None \<Rightarrow> True | Some (p, n) \<Rightarrow> s + 2 \<le> p \<and> p + unat n \<le> e)"

lemma no_elems_fields: "g \<in> set (map snd elem_fields @ vendor_fields) \<Longrightarrow> g no_elems = None"
  by (auto simp: elem_fields_def vendor_fields_def no_elems_def)

lemma ex_flag: "(\<exists>k :: bool. k) = True" "(\<exists>k :: bool. \<not> k) = True"
  by blast+

lemma parse_vendor_total:
  assumes "pos + unat elen \<le> length b"
  shows "\<exists>k el'. parse_vendor_specific b pos elen el = Some (k, el') \<and>
    (\<forall>(i, g) \<in> set elem_fields. g el' = g el) \<and>
    (\<forall>g \<in> set vendor_fields. g el' = g el \<or> g el' = Some (pos, elen))"
proof (cases "elen < 4")
  case True
  then show ?thesis by (auto simp: parse_vendor_specific_def)
next
  case False
  then have "3 < unat elen" by (simp add: word_less_nat_alt not_less)
  then obtain h t where "read_at pos 3 b = Some h" "byte_at (pos + 3) b = Some t"
    using assms by simp
  moreover have "\<not> elen < 5 \<Longrightarrow> \<exists>s. byte_at (pos + 4) b = Some s"
    using assms by (simp add: word_less_nat_alt not_less)
  ultimately show ?thesis
    using False by (auto simp: ex_flag parse_vendor_specific_def elem_fields_def vendor_fields_def)
qed

lemma parse_elem_total:
  assumes "pos + unat elen \<le> length b"
  shows "\<exists>k el'. parse_elem b eid pos elen el = Some (k, el') \<and>
    (\<forall>(i, g) \<in> set elem_fields. g el' = (if i = eid then Some (pos, elen) else g el)) \<and>
    (\<forall>g \<in> set vendor_fields. g el' = g el \<or> g el' = Some (pos, elen))"
proof (cases "eid = 221")
  case True
  then show ?thesis
    using parse_vendor_total [OF assms, of el] by (auto simp: parse_elem_def elem_fields_def)
next
  case False
  then show ?thesis
    by (auto simp: parse_elem_def elem_fields_def vendor_fields_def)
qed

text \<open>The last element of a series with an identifier: where its data is, and how long.\<close>

primrec last_elem :: "u8 \<Rightarrow> nat \<Rightarrow> (u8 \<times> u8 list) list \<Rightarrow> (nat \<times> u8) option \<Rightarrow> (nat \<times> u8) option" where
  "last_elem i p [] acc = acc"
| "last_elem i p (e # es) acc = last_elem i (p + length (ie_bytes e)) es
     (if i = fst e then Some (p + 2, of_nat (length (snd e))) else acc)"

lemma last_elem_split:
  "\<forall>g \<in> set gs. fst g \<noteq> i \<Longrightarrow> fst e = i \<Longrightarrow>
     last_elem i p (fs @ e # gs) acc = Some (p + length (ies_bytes fs) + 2, of_nat (length (snd e)))"
proof (induction fs arbitrary: p acc)
  case Nil
  then have "last_elem i q gs acc' = acc'" for q acc' by (induction gs arbitrary: q) auto
  then show ?case using Nil by simp
next
  case (Cons a fs)
  then show ?case by (simp add: add.assoc)
qed

lemma elems_inside_step:
  assumes "elems_inside s e el" "s \<le> pos" "pos + 2 + unat elen \<le> e"
    "\<forall>(i, g) \<in> set elem_fields. g el' = (if i = eid then Some (pos + 2, elen) else g el)"
    "\<forall>g \<in> set vendor_fields. g el' = g el \<or> g el' = Some (pos + 2, elen)"
  shows "elems_inside s e el'"
  unfolding elems_inside_def
proof
  fix g assume g: "g \<in> set (map snd elem_fields @ vendor_fields)"
  then have "g el' = g el \<or> g el' = Some (pos + 2, elen)" using assms(4,5) by (fastforce split: if_split_asm)
  moreover have "case g el of None \<Rightarrow> True | Some (p, n) \<Rightarrow> s + 2 \<le> p \<and> p + unat n \<le> e"
    using assms(1) g by (simp add: elems_inside_def)
  ultimately show "case g el' of None \<Rightarrow> True | Some (p, n) \<Rightarrow> s + 2 \<le> p \<and> p + unat n \<le> e"
    using assms(2,3) by auto
qed

definition is_series :: "u8 list \<Rightarrow> nat \<Rightarrow> nat \<Rightarrow> (u8 \<times> u8 list) list \<Rightarrow> bool" where
  "is_series b pos n es \<longleftrightarrow> (\<forall>e \<in> set es. ie_ok e) \<and> read_at pos n b = Some (ies_bytes es)"

lemma is_series_Nil: "pos + n \<le> length b \<Longrightarrow> is_series b pos n [] \<longleftrightarrow> n = 0"
  by (auto simp: is_series_def)

lemma is_series_Cons:
  assumes "pos + n \<le> length b"
  shows "is_series b pos n (e # es) \<longleftrightarrow>
    2 \<le> n \<and> ie_ok e \<and> b ! pos = fst e \<and> unat (b ! (pos + 1)) = length (snd e) \<and> 2 + length (snd e) \<le> n \<and>
    take (length (snd e)) (drop (pos + 2) b) = snd e \<and>
    is_series b (pos + 2 + length (snd e)) (n - 2 - length (snd e)) es"
proof (cases "2 \<le> n")
  case False
  then have "is_series b pos n (e # es) \<Longrightarrow> length (take n (drop pos b)) = length (ies_bytes (e # es))"
    by (simp add: is_series_def assms)
  then show ?thesis using False assms by auto
next
  case True
  then obtain m where n: "n = Suc (Suc m)" by (metis add_2_eq_Suc le_Suc_ex)
  have p: "pos < length b" "Suc pos < length b" using assms n by auto
  have tk: "take n (drop pos b) = b ! pos # b ! (pos + 1) # take m (drop (pos + 2) b)"
    using p by (simp add: n Cons_nth_drop_Suc [symmetric] take_Suc_Cons)
  have ok: "ie_ok e \<Longrightarrow> (b ! (pos + 1) = of_nat (length (snd e))) = (unat (b ! (pos + 1)) = length (snd e))"
    using ie_ok_length(1) [of e] by (auto simp: word_unat_eq_iff)
  have app: "take m xs = snd e @ zs \<longleftrightarrow> length (snd e) \<le> m \<and> take (length (snd e)) xs = snd e \<and>
      take (m - length (snd e)) (drop (length (snd e)) xs) = zs" if "m \<le> length xs" for xs zs :: "u8 list"
  proof
    assume eq: "take m xs = snd e @ zs"
    have "length (snd e) \<le> m" using arg_cong [OF eq, of length] that by simp
    then show "length (snd e) \<le> m \<and> take (length (snd e)) xs = snd e \<and>
        take (m - length (snd e)) (drop (length (snd e)) xs) = zs"
      using eq by (simp add: append_eq_conv_conj [symmetric] min_absorb1 flip: drop_take)
        (metis append_eq_conv_conj min_absorb1 take_take)
  next
    assume "length (snd e) \<le> m \<and> take (length (snd e)) xs = snd e \<and>
        take (m - length (snd e)) (drop (length (snd e)) xs) = zs"
    then show "take m xs = snd e @ zs"
      using take_add [of "length (snd e)" "m - length (snd e)" xs] by simp
  qed
  have m: "m \<le> length (drop (pos + 2) b)" using assms n by simp
  have a: "is_series b pos n (e # es) \<longleftrightarrow>
      ie_ok e \<and> (\<forall>x \<in> set es. ie_ok x) \<and> take n (drop pos b) = ie_bytes e @ ies_bytes es"
    by (simp add: is_series_def assms conj_assoc)
  have c: "take n (drop pos b) = ie_bytes e @ ies_bytes es \<longleftrightarrow>
      b ! pos = fst e \<and> b ! (pos + 1) = of_nat (length (snd e)) \<and>
      take m (drop (pos + 2) b) = snd e @ ies_bytes es"
    unfolding tk by (simp add: ie_bytes_def)
  have r: "is_series b (pos + 2 + length (snd e)) (n - 2 - length (snd e)) es \<longleftrightarrow>
      (\<forall>x \<in> set es. ie_ok x) \<and> take (m - length (snd e)) (drop (length (snd e)) (drop (pos + 2) b)) = ies_bytes es"
    if "length (snd e) \<le> m"
    using that assms n by (simp add: is_series_def add.commute add.left_commute)
  have "(2 + length (snd e) \<le> n) = (length (snd e) \<le> m)" "2 \<le> n" by (simp_all add: n)
  then show ?thesis
    unfolding a c app [OF m] using ok r by blast
qed

lemma parse_elems_loop_correct:
  assumes "pos + left \<le> length b" "elems_inside s (pos + left) el" "s \<le> pos"
  shows "\<exists>r el'. parse_elems_loop b left pos unknown el = Some (r, el') \<and> elems_inside s (pos + left) el' \<and>
    (r \<noteq> ParseFailed \<longleftrightarrow> (\<exists>es. is_series b pos left es)) \<and>
    (\<forall>es. is_series b pos left es \<longrightarrow> (\<forall>(i, g) \<in> set elem_fields. g el' = last_elem i pos es (g el)))"
  using assms
proof (induction b left pos unknown el rule: parse_elems_loop.induct)
  case (1 b left pos unknown el)
  note IH = 1(1) and len = 1(2) and ins = 1(3) and le = 1(4)
  show ?case
  proof (cases "2 \<le> left")
    case False
    then have nc: "\<not> is_series b pos left (e # es)" for e es
      by (simp add: is_series_Cons [OF len])
    have ser0: "is_series b pos left es \<longleftrightarrow> left = 0 \<and> es = []" for es
      using nc is_series_Nil [OF len] by (cases es) auto
    have eq: "parse_elems_loop b left pos unknown el =
        Some (if left = 0 then if unknown then ParseUnknown else ParseOK else ParseFailed, el)"
      using False by (subst parse_elems_loop.simps) simp
    show ?thesis
      unfolding eq ser0 using ins by simp
  next
    case True
    define x where "x = b ! pos"
    define n where "n = b ! (pos + 1)"
    have xn: "byte_at pos b = Some x" "byte_at (pos + 1) b = Some n"
      using True len by (simp_all add: x_def n_def)
    have ser: "is_series b pos left es \<longleftrightarrow> unat n \<le> left - 2 \<and>
        (\<exists>d ds. es = (x, d) # ds \<and> d = take (unat n) (drop (pos + 2) b) \<and>
          is_series b (pos + 2 + unat n) (left - 2 - unat n) ds)" for es
    proof (cases es)
      case Nil
      then show ?thesis using is_series_Nil [OF len] True by simp
    next
      case (Cons e ds)
      obtain i d where e: "e = (i, d)" by (cases e)
      have n8: "unat n < 256" using unsigned_less [of n, where 'a = nat] by simp
      have tl: "length (take (unat n) (drop (pos + 2) b)) = unat n" if "unat n \<le> left - 2"
        using that len True by simp
      show ?thesis
      proof
        assume "is_series b pos left es"
        then have "i = x" "length d = unat n" "2 + length d \<le> left" "d = take (length d) (drop (pos + 2) b)"
          "is_series b (pos + 2 + length d) (left - 2 - length d) ds"
          unfolding Cons is_series_Cons [OF len] by (simp_all add: e x_def n_def)
        then show "unat n \<le> left - 2 \<and> (\<exists>d ds. es = (x, d) # ds \<and> d = take (unat n) (drop (pos + 2) b) \<and>
            is_series b (pos + 2 + unat n) (left - 2 - unat n) ds)"
          by (simp add: Cons e)
      next
        assume a: "unat n \<le> left - 2 \<and> (\<exists>d ds. es = (x, d) # ds \<and> d = take (unat n) (drop (pos + 2) b) \<and>
            is_series b (pos + 2 + unat n) (left - 2 - unat n) ds)"
        then have "i = x" "d = take (unat n) (drop (pos + 2) b)" "length d = unat n"
          "is_series b (pos + 2 + unat n) (left - 2 - unat n) ds"
          using tl by (simp_all add: Cons e)
        moreover have "2 + unat n \<le> left" using a True by auto
        ultimately show "is_series b pos left es"
          unfolding Cons is_series_Cons [OF len] using n8 True by (simp add: e x_def n_def ie_ok_def)
      qed
    qed
    show ?thesis
    proof (cases "left - 2 < unat n")
      case True
      then show ?thesis
        using \<open>2 \<le> left\<close> xn ins by (subst parse_elems_loop.simps) (simp add: ser)
    next
      case False
      then have in_b: "pos + 2 + unat n \<le> length b" using len True by simp
      obtain k el1 where pe: "parse_elem b x (pos + 2) n el = Some (k, el1)"
        and std: "\<forall>(i, g) \<in> set elem_fields. g el1 = (if i = x then Some (pos + 2, n) else g el)"
        and ven: "\<forall>g \<in> set vendor_fields. g el1 = g el \<or> g el1 = Some (pos + 2, n)"
        using parse_elem_total [OF in_b] by blast
      let ?l = "left - 2 - unat n" and ?p = "pos + 2 + unat n"
      have e: "?p + ?l = pos + left" using False True by simp
      have "elems_inside s (?p + ?l) el1"
        unfolding e using elems_inside_step [OF ins le _ std ven] False True by simp
      moreover have "?p + ?l \<le> length b" "s \<le> ?p" using e len le by simp_all
      ultimately obtain r el' where
        rec: "parse_elems_loop b ?l ?p (unknown \<or> \<not> k) el1 = Some (r, el')" and
        ins': "elems_inside s (?p + ?l) el'" and
        res: "r \<noteq> ParseFailed \<longleftrightarrow> (\<exists>es. is_series b ?p ?l es)" and
        flds: "\<forall>es. is_series b ?p ?l es \<longrightarrow> (\<forall>(i, g) \<in> set elem_fields. g el' = last_elem i ?p es (g el1))"
        using IH [OF True xn False pe refl] by blast
      have "parse_elems_loop b left pos unknown el = Some (r, el')"
        using True xn False pe rec by (subst parse_elems_loop.simps) simp
      moreover have "r \<noteq> ParseFailed \<longleftrightarrow> (\<exists>es. is_series b pos left es)"
        unfolding res using ser False by auto
      moreover have "\<forall>es. is_series b pos left es \<longrightarrow>
          (\<forall>(i, g) \<in> set elem_fields. g el' = last_elem i pos es (g el))"
      proof (intro allI impI)
        fix es assume "is_series b pos left es"
        then obtain d ds where es: "es = (x, d) # ds" and d: "d = take (unat n) (drop (pos + 2) b)"
          and ds: "is_series b ?p ?l ds" using ser by blast
        have ld: "length d = unat n" using d in_b by simp
        have "last_elem i pos es (g el) = last_elem i ?p ds (g el1)" if "(i, g) \<in> set elem_fields" for i g
          using std that by (auto simp: es ld add.assoc)
        then show "\<forall>(i, g) \<in> set elem_fields. g el' = last_elem i pos es (g el)"
          using flds ds by fastforce
      qed
      ultimately show ?thesis using ins' unfolding e by blast
    qed
  qed
qed

lemma parse_elems_total:
  assumes "start + unat len \<le> length b"
  shows "\<exists>r el. rtw_ieee802_11_parse_elems b start len = Some (r, el) \<and>
    elems_inside start (start + unat len) el \<and>
    (r \<noteq> ParseFailed \<longleftrightarrow> (\<exists>es. is_series b start (unat len) es)) \<and>
    (\<forall>es. is_series b start (unat len) es \<longrightarrow>
      (\<forall>(i, g) \<in> set elem_fields. g el = last_elem i start es None))"
proof -
  have "elems_inside start (start + unat len) no_elems"
    by (simp add: elems_inside_def no_elems_fields ball_Un del: set_append)
  from parse_elems_loop_correct [OF assms this order_refl, of False] obtain r el where
    p: "parse_elems_loop b (unat len) start False no_elems = Some (r, el)"
      "elems_inside start (start + unat len) el" "r \<noteq> ParseFailed \<longleftrightarrow> (\<exists>es. is_series b start (unat len) es)" and
    f: "\<forall>es. is_series b start (unat len) es \<longrightarrow>
      (\<forall>(i, g) \<in> set elem_fields. g el = last_elem i start es (g no_elems))" by blast
  have "\<forall>(i, g) \<in> set elem_fields. g no_elems = None"
    using no_elems_fields by force
  then show ?thesis using p f unfolding rtw_ieee802_11_parse_elems_def by fastforce
qed

text \<open>
  C19: \<^verbatim>\<open>rtw_ieee802_11_parse_elems\<close> reads nothing outside the bytes it is given, every
  pointer it sets points at data within them, it fails exactly when they are no series of elements,
  and for a series every field that is not vendor specific is the last element of its identifier.
\<close>

theorem parse_elems_correct:
  assumes "start + unat len \<le> length b"
  shows "\<exists>r el. rtw_ieee802_11_parse_elems b start len = Some (r, el) \<and>
    elems_inside start (start + unat len) el \<and>
    (r \<noteq> ParseFailed \<longleftrightarrow> (\<exists>es. is_series b start (unat len) es)) \<and>
    (\<forall>es. is_series b start (unat len) es \<longrightarrow>
      (\<forall>(i, g) \<in> set elem_fields. g el = last_elem i start es None))"
  by (rule parse_elems_total [OF assms])

theorem parse_elems_correct_witness:
  "\<exists>r el. rtw_ieee802_11_parse_elems [0, 1, 65, 1, 2, 130, 132] 0 7 = Some (r, el) \<and>
    r \<noteq> ParseFailed \<and> elems_inside 0 7 el \<and> ssid el = Some (2, 1) \<and> supp_rates el = Some (5, 2)"
proof -
  have s: "is_series [0, 1, 65, 1, 2, 130, 132] 0 7 [(0, [65]), (1, [130, 132])]"
    by (simp add: is_series_def ie_ok_def ie_bytes_def)
  obtain r el where "rtw_ieee802_11_parse_elems [0, 1, 65, 1, 2, 130, 132] 0 7 = Some (r, el)"
    "elems_inside 0 7 el" "r \<noteq> ParseFailed"
    "\<forall>(i, g) \<in> set elem_fields. g el = last_elem i 0 [(0, [65]), (1, [130, 132])] None"
    using parse_elems_correct [of 0 7 "[0, 1, 65, 1, 2, 130, 132]"] s by auto
  then show ?thesis by (simp add: elem_fields_def)
qed

section \<open>Security elements\<close>

text \<open>What \<^verbatim>\<open>rtw_get_ie\<close> leaves in \<^verbatim>\<open>len\<close> is used only with an element found.\<close>

abbreviation (input) "WPA_IE_ID \<equiv> 0xdd :: int"
abbreviation (input) "WPA2_IE_ID \<equiv> 0x30 :: int"

definition wpa_oui_type :: "u8 list" where "wpa_oui_type = [0x00, 0x50, 0xf2, 0x01]"

definition le16 :: "u8 \<Rightarrow> u8 \<Rightarrow> u16" where
  "le16 x y = push_bit 8 (ucast y) OR ucast x"

lemma le16_bytes: "ucast (le16 x y) = x" "ucast (drop_bit 8 (le16 x y)) = y"
  unfolding le16_def by (rule bit_word_eqI; simp add: bit_simps)+

lemma le16_eq_iff: "le16 x y = le16 x' y' \<longleftrightarrow> x = x' \<and> y = y'"
  using le16_bytes by metis

lemma le16_one: "le16 x y = 1 \<longleftrightarrow> x = 1 \<and> y = 0"
  using le16_eq_iff [of x y 1 0] by (simp add: le16_def)

definition get_le16 :: "nat \<Rightarrow> u8 list \<Rightarrow> u16 option" where
  "get_le16 p b = do { h \<leftarrow> read_at p 2 b; Some (le16 (h ! 0) (h ! 1)) }"

lemma get_ie_loop_inside:
  "rtw_get_ie_loop b index limit p i = Some (Some q, n) \<Longrightarrow>
     p \<le> q \<and> q + 1 < length b \<and> 0 \<le> n \<and> byte_at (q + 1) b = Some (word_of_int n)"
proof (induction b index limit p i rule: rtw_get_ie_loop.induct)
  case (1 b index limit p i)
  from 1(2) obtain eid tmp where r: "byte_at p b = Some eid" "byte_at (p + 1) b = Some tmp"
    by (subst (asm) rtw_get_ie_loop.simps) (auto simp: Option.bind_eq_Some_conv)
  have "p + 1 < length b" using r(2) by (simp add: byte_at_def split: if_split_asm)
  then show ?case
    using 1(2) 1(1) [OF r] r
    by (subst (asm) rtw_get_ie_loop.simps) (auto split: if_split_asm)
qed

lemma rtw_get_ie_inside:
  "rtw_get_ie b p index len limit = Some (Some q, n) \<Longrightarrow>
     p \<le> q \<and> q + 1 < length b \<and> 0 \<le> n \<and> byte_at (q + 1) b = Some (word_of_int n)"
  using get_ie_loop_inside [of b index limit p 0 q n] by (simp add: rtw_get_ie_def split: if_split_asm)

text \<open>The result is the offset of the element, if any, and \<^verbatim>\<open>*wpa_ie_len\<close>.\<close>

function get_wpa_ie_loop :: "u8 list \<Rightarrow> nat \<Rightarrow> int \<Rightarrow> (nat option \<times> int) option" where
  "get_wpa_ie_loop b pbuf limit =
     (case rtw_get_ie b pbuf WPA_IE_ID 0 limit of
        None \<Rightarrow> None
      | Some (None, len) \<Rightarrow> Some (None, 0)
      | Some (Some q, len) \<Rightarrow> do {
          oui \<leftarrow> rtw_memcmp (q + 2) wpa_oui_type b;
          ok \<leftarrow> (if oui then do { val16 \<leftarrow> get_le16 (q + 6) b; Some (val16 = 1) } else Some False);
          if ok then do { l \<leftarrow> byte_at (q + 1) b; Some (Some q, uint l) }
          else if limit - (2 + len) \<le> 0 then Some (None, 0)
          else get_wpa_ie_loop b (q + 2 + nat len) (limit - (2 + len))
        })"
  by pat_completeness auto

termination
proof (relation "measure (\<lambda>(b, pbuf, limit). length b - pbuf)", goal_cases)
  case (2 b pbuf limit a x n q oui ok)
  then have "pbuf \<le> q" "q + 1 < length b" using rtw_get_ie_inside [of b pbuf WPA_IE_ID 0 limit q n] by auto
  then show ?case by simp
qed simp

declare get_wpa_ie_loop.simps [simp del]

definition rtw_get_wpa_ie :: "u8 list \<Rightarrow> nat \<Rightarrow> int \<Rightarrow> (nat option \<times> int) option" where
  "rtw_get_wpa_ie b pie limit = get_wpa_ie_loop b pie limit"

definition rtw_get_wpa2_ie :: "u8 list \<Rightarrow> nat \<Rightarrow> int \<Rightarrow> int \<Rightarrow> (nat option \<times> int) option" where
  "rtw_get_wpa2_ie b pie rsn_ie_len limit = rtw_get_ie b pie WPA2_IE_ID rsn_ie_len limit"

abbreviation (input) "WPA_CIPHER_NONE \<equiv> 0x01 :: u32"
abbreviation (input) "WPA_CIPHER_WEP40 \<equiv> 0x02 :: u32"
abbreviation (input) "WPA_CIPHER_WEP104 \<equiv> 0x04 :: u32"
abbreviation (input) "WPA_CIPHER_TKIP \<equiv> 0x08 :: u32"
abbreviation (input) "WPA_CIPHER_CCMP \<equiv> 0x10 :: u32"

fun suite_of :: "(u8 list \<times> u32) list \<Rightarrow> nat \<Rightarrow> u8 list \<Rightarrow> u32 option" where
  "suite_of [] s b = Some 0"
| "suite_of ((sel, c) # cs) s b = do {
     m \<leftarrow> rtw_memcmp s sel b;
     if m then Some c else suite_of cs s b
   }"

definition suites :: "u8 list \<Rightarrow> (u8 list \<times> u32) list" where
  "suites oui = [(oui @ [0], WPA_CIPHER_NONE), (oui @ [1], WPA_CIPHER_WEP40), (oui @ [2], WPA_CIPHER_TKIP),
     (oui @ [4], WPA_CIPHER_CCMP), (oui @ [5], WPA_CIPHER_WEP104)]"

definition rtw_get_wpa_cipher_suite :: "nat \<Rightarrow> u8 list \<Rightarrow> u32 option" where
  "rtw_get_wpa_cipher_suite s b = suite_of (suites [0x00, 0x50, 0xf2]) s b"

definition rtw_get_wpa2_cipher_suite :: "nat \<Rightarrow> u8 list \<Rightarrow> u32 option" where
  "rtw_get_wpa2_cipher_suite s b = suite_of (suites [0x00, 0x0f, 0xac]) s b"

text \<open>The list of pairwise ciphers; \<open>suite\<close> reads one of them.\<close>

primrec pairwise_loop :: "(nat \<Rightarrow> u8 list \<Rightarrow> u32 option) \<Rightarrow> nat \<Rightarrow> nat \<Rightarrow> u8 list \<Rightarrow> u32 \<Rightarrow> u32 option" where
  "pairwise_loop suite 0 pos b pairw = Some pairw"
| "pairwise_loop suite (Suc n) pos b pairw = do {
     c \<leftarrow> suite pos b;
     pairwise_loop suite n (pos + 4) b (pairw OR c)
   }"

definition parse_pairwise ::
  "(nat \<Rightarrow> u8 list \<Rightarrow> u32 option) \<Rightarrow> u8 list \<Rightarrow> nat \<Rightarrow> int \<Rightarrow> u32 \<Rightarrow> (status \<times> u32) option" where
  "parse_pairwise suite b pos left pairw =
     (if 2 \<le> left then do {
        count \<leftarrow> get_le16 pos b;
        if count = 0 \<or> left - 2 < int (unat count) * 4 then Some (FAIL, pairw)
        else do {
          p \<leftarrow> pairwise_loop suite (unat count) (pos + 2) b pairw;
          Some (SUCCESS, p)
        }
      }
      else Some (if left = 1 then FAIL else SUCCESS, pairw))"

definition parse_ciphers ::
  "(nat \<Rightarrow> u8 list \<Rightarrow> u32 option) \<Rightarrow> u8 list \<Rightarrow> nat \<Rightarrow> int \<Rightarrow> u32 \<Rightarrow> u32 \<Rightarrow> (status \<times> u32 \<times> u32) option" where
  "parse_ciphers suite b pos left groupc pairw =
     (if 4 \<le> left then do {
        g \<leftarrow> suite pos b;
        (r, p) \<leftarrow> parse_pairwise suite b (pos + 4) (left - 4) pairw;
        Some (r, g, p)
      }
      else if 0 < left then Some (FAIL, groupc, pairw)
      else do {
        (r, p) \<leftarrow> parse_pairwise suite b pos left pairw;
        Some (r, groupc, p)
      })"

text \<open>The element starts at the beginning of \<open>b\<close>. The conditions are evaluated from left to right.\<close>

definition rtw_parse_wpa_ie :: "u8 list \<Rightarrow> int \<Rightarrow> u32 \<Rightarrow> u32 \<Rightarrow> (status \<times> u32 \<times> u32) option" where
  "rtw_parse_wpa_ie b wpa_ie_len groupc pairw =
     (if wpa_ie_len \<le> 0 then Some (FAIL, groupc, pairw)
      else do {
        eid \<leftarrow> byte_at 0 b;
        ok \<leftarrow> (if uint eid \<noteq> WPA_IE_ID then Some False
               else do {
                 l \<leftarrow> byte_at 1 b;
                 if l \<noteq> word_of_int (wpa_ie_len - 2) then Some False
                 else rtw_memcmp 2 wpa_oui_type b
               });
        if \<not> ok then Some (FAIL, groupc, pairw)
        else parse_ciphers rtw_get_wpa_cipher_suite b 8 (wpa_ie_len - 8) groupc pairw
      })"

definition rtw_parse_wpa2_ie :: "u8 list \<Rightarrow> int \<Rightarrow> u32 \<Rightarrow> u32 \<Rightarrow> (status \<times> u32 \<times> u32) option" where
  "rtw_parse_wpa2_ie b rsn_ie_len groupc pairw =
     (if rsn_ie_len \<le> 0 then Some (FAIL, groupc, pairw)
      else do {
        eid \<leftarrow> byte_at 0 b;
        ok \<leftarrow> (if uint eid \<noteq> WPA2_IE_ID then Some False
               else do { l \<leftarrow> byte_at 1 b; Some (l = word_of_int (rsn_ie_len - 2)) });
        if \<not> ok then Some (FAIL, groupc, pairw)
        else parse_ciphers rtw_get_wpa2_cipher_suite b 4 (rsn_ie_len - 4) groupc pairw
      })"

subsection \<open>Finding the WPA element\<close>

definition wpa_ie_ok :: "u8 \<times> u8 list \<Rightarrow> bool" where
  "wpa_ie_ok e \<longleftrightarrow> fst e = 0xdd \<and> take 6 (snd e) = wpa_oui_type @ [1, 0]"

text \<open>
  The elements the search handles: those with the identifier are long enough for the OUI, and for
  the version if they have it, or differ before.
\<close>

definition wpa_valid :: "u8 \<times> u8 list \<Rightarrow> bool" where
  "wpa_valid e \<longleftrightarrow> ie_ok e \<and> (fst e = 0xdd \<longrightarrow> 6 \<le> length (snd e) \<or> take (length (snd e)) wpa_oui_type \<noteq> take 4 (snd e))"

text \<open>One turn at an element with the identifier.\<close>

lemma wpa_check:
  assumes "wpa_valid e" "fst e = 0xdd"
  shows "Option.bind (rtw_memcmp (length pre + 2) wpa_oui_type (pre @ ie_bytes e @ post))
      (\<lambda>oui. if oui then Option.bind (get_le16 (length pre + 6) (pre @ ie_bytes e @ post)) (\<lambda>v. Some (v = 1))
         else Some False) = Some (wpa_ie_ok e)"
proof -
  let ?b = "pre @ ie_bytes e @ post"
  have b: "?b = (pre @ [fst e, of_nat (length (snd e))]) @ snd e @ post" by (simp add: ie_bytes_def)
  have l4: "length wpa_oui_type = 4" by (simp add: wpa_oui_type_def)
  have m: "rtw_memcmp (length pre + 2) wpa_oui_type ?b = Some (take 4 (snd e) = wpa_oui_type)"
    using rtw_memcmp_append [of "pre @ [fst e, of_nat (length (snd e))]" wpa_oui_type "snd e" post] assms l4
    unfolding b by (auto simp: wpa_valid_def)
  show ?thesis
  proof (cases "take 4 (snd e) = wpa_oui_type")
    case False
    then have "\<not> wpa_ie_ok e" by (auto simp: wpa_ie_ok_def wpa_oui_type_def dest: arg_cong [of _ _ "take 4"])
    then show ?thesis using m False by simp
  next
    case True
    then have len: "6 \<le> length (snd e)" using assms l4 by (auto simp: wpa_valid_def)
    have "get_le16 (length pre + 6) ?b = Some (le16 (snd e ! 4) (snd e ! 5))"
      using len by (simp add: get_le16_def ie_bytes_def nth_append)
    moreover have "take 6 (snd e) = take 4 (snd e) @ [snd e ! 4, snd e ! 5]"
      using len by (simp add: take_Suc_conv_app_nth numeral_eq_Suc)
    ultimately show ?thesis
      using True m assms(2) by (auto simp: wpa_ie_ok_def le16_one)
  qed
qed


text \<open>One turn of the loop at the next element with the identifier, \<open>e\<close>.\<close>

lemma get_ie_wpa:
  assumes "\<forall>x \<in> set es. wpa_valid x \<and> fst x \<noteq> 0xdd" "wpa_valid e" "fst e = 0xdd"
    "int (length (ies_bytes (es @ [e]))) \<le> limit"
  shows "rtw_get_ie (pre @ ies_bytes (es @ [e]) @ post) (length pre) WPA_IE_ID 0 limit =
    Some (Some (length pre + length (ies_bytes es)), int (length (snd e)))"
proof -
  have v: "\<forall>x \<in> set es. ie_ok x \<and> uint (fst x) \<noteq> WPA_IE_ID"
    using assms(1) by (auto simp: wpa_valid_def word_uint_eq_iff)
  have n: "length pre + length (ies_bytes es) + length (ie_bytes e) \<le> length pre + nat limit"
    using assms(4) by simp
  have "rtw_get_ie (pre @ ies_bytes es @ ie_bytes e @ post) (length pre) WPA_IE_ID 0 (int (length pre + nat limit) - int (length pre)) =
    Some (Some (length pre + length (ies_bytes es)), int (length (snd e)))"
    using get_ie.search_reach [of es WPA_IE_ID e pre "length pre + nat limit" post] v assms(2,3) n
    by (simp add: ies_bytes_def wpa_valid_def)
  then show ?thesis using assms(4) by simp
qed

lemma get_wpa_ie_turn:
  assumes "\<forall>x \<in> set es. wpa_valid x \<and> fst x \<noteq> 0xdd" "wpa_valid e" "fst e = 0xdd"
    "int (length (ies_bytes (es @ [e]))) \<le> limit"
  shows "get_wpa_ie_loop (pre @ ies_bytes (es @ [e]) @ post) (length pre) limit =
    (if wpa_ie_ok e then Some (Some (length pre + length (ies_bytes es)), int (length (snd e)))
     else if limit \<le> int (length (ie_bytes e)) then Some (None, 0)
     else get_wpa_ie_loop (pre @ ies_bytes (es @ [e]) @ post) (length pre + length (ies_bytes (es @ [e])))
            (limit - int (length (ie_bytes e))))"
proof -
  let ?b = "(pre @ ies_bytes es) @ ie_bytes e @ post"
  have b: "pre @ ies_bytes (es @ [e]) @ post = ?b" by simp
  define q where "q = length pre + length (ies_bytes es)"
  have l: "byte_at (q + 1) ?b = Some (of_nat (length (snd e)))"
    using ie_byte_at(2) [of "pre @ ies_bytes es" e post] by (simp add: q_def)
  have u: "uint (of_nat (length (snd e)) :: u8) = int (length (snd e))"
    using assms(2) by (simp add: wpa_valid_def ie_ok_length)
  have g: "rtw_get_ie ?b (length pre) WPA_IE_ID 0 limit = Some (Some q, int (length (snd e)))"
    using get_ie_wpa [OF assms, of pre post] unfolding b q_def .
  obtain oui where oui: "rtw_memcmp (q + 2) wpa_oui_type ?b = Some oui"
    and ok: "(if oui then Option.bind (get_le16 (q + 6) ?b) (\<lambda>v. Some (v = 1)) else Some False) = Some (wpa_ie_ok e)"
    using wpa_check [OF assms(2,3), of "pre @ ies_bytes es" post, unfolded length_append, folded q_def]
    by (cases "rtw_memcmp (q + 2) wpa_oui_type ?b") simp_all
  have n: "q + 2 + nat (int (length (snd e))) = length pre + length (ies_bytes (es @ [e]))"
    "limit - (2 + int (length (snd e))) = limit - int (length (ie_bytes e))"
    by (simp_all add: q_def)
  have lim: "limit - int (length (ie_bytes e)) \<le> 0 \<longleftrightarrow> limit \<le> int (length (ie_bytes e))" by simp
  show ?thesis
    unfolding b q_def [symmetric]
    by (subst get_wpa_ie_loop.simps)
      (simp only: g option.case prod.case oui ok Option.bind.bind_lunit l u n lim)
qed

text \<open>
  \<^verbatim>\<open>rtw_get_wpa_ie\<close> finds the first WPA element of a series, past vendor elements of
  other kinds.
\<close>

theorem rtw_get_wpa_ie_finds:
  assumes "\<forall>x \<in> set es. wpa_valid x \<and> \<not> wpa_ie_ok x" "wpa_valid w" "wpa_ie_ok w"
    "int (length (ies_bytes (es @ [w]))) \<le> limit"
  shows "rtw_get_wpa_ie (pre @ ies_bytes (es @ [w]) @ post) (length pre) limit =
    Some (Some (length pre + length (ies_bytes es)), int (length (snd w)))"
  unfolding rtw_get_wpa_ie_def using assms(1,4)
proof (induction es arbitrary: pre limit rule: measure_induct_rule [of length])
  case (less es)
  have w: "fst w = 0xdd" using assms(3) by (simp add: wpa_ie_ok_def)
  show ?case
  proof (cases "\<exists>x \<in> set es. fst x = 0xdd")
    case False
    then show ?thesis
      using get_wpa_ie_turn [of es w limit pre post] less.prems assms(2,3) w by auto
  next
    case True
    then obtain fs e gs where es: "es = fs @ e # gs" and e: "fst e = 0xdd"
      and fs: "\<forall>f \<in> set fs. fst f \<noteq> 0xdd"
      using split_list_first_prop [of es "\<lambda>x. fst x = 0xdd"] by blast
    have v: "\<forall>x \<in> set fs. wpa_valid x \<and> fst x \<noteq> 0xdd" "wpa_valid e" "\<not> wpa_ie_ok e"
      and gs: "\<forall>x \<in> set gs. wpa_valid x \<and> \<not> wpa_ie_ok x"
      using less.prems(1) fs by (simp_all add: es)
    have lim: "int (length (ies_bytes (fs @ [e]))) \<le> limit" "\<not> limit \<le> int (length (ie_bytes e))"
      "int (length (ies_bytes (gs @ [w]))) \<le> limit - int (length (ie_bytes e))"
      using less.prems(2) by (simp_all add: es)
    have b: "pre @ ies_bytes (es @ [w]) @ post = pre @ ies_bytes (fs @ [e]) @ ies_bytes (gs @ [w]) @ post"
      by (simp add: es)
    have b': "pre @ ies_bytes (fs @ [e]) @ ies_bytes (gs @ [w]) @ post =
        (pre @ ies_bytes (fs @ [e])) @ ies_bytes (gs @ [w]) @ post" by simp
    have "length gs < length es" by (simp add: es)
    from less.IH [OF this gs lim(3), of "pre @ ies_bytes (fs @ [e])"]
    have "get_wpa_ie_loop (pre @ ies_bytes (fs @ [e]) @ ies_bytes (gs @ [w]) @ post)
        (length pre + length (ies_bytes (fs @ [e]))) (limit - int (length (ie_bytes e))) =
      Some (Some (length (pre @ ies_bytes (fs @ [e])) + length (ies_bytes gs)), int (length (snd w)))"
      unfolding b' length_append .
    then show ?thesis
      unfolding b get_wpa_ie_turn [OF v(1,2) e lim(1)] using v(3) lim(2) by (simp add: es)
  qed
qed

theorem rtw_get_wpa_ie_finds_witness:
  "rtw_get_wpa_ie [0, 1, 65, 221, 6, 0, 80, 242, 4, 1, 0, 221, 6, 0, 80, 242, 1, 1, 0] 0 19 = Some (Some 11, 6)"
  using rtw_get_wpa_ie_finds [of "[(0, [65]), (221, [0, 80, 242, 4, 1, 0])]" "(221, [0, 80, 242, 1, 1, 0])" 19 "[]" "[]"]
  by (simp add: wpa_valid_def wpa_ie_ok_def wpa_oui_type_def ie_ok_def ie_bytes_def)

text \<open>
  The limit is reduced only by the elements with the identifier. When other elements come
  before a vendor element that is not WPA and is the last, the search goes on behind the end of
  the buffer.
\<close>

theorem rtw_get_wpa_ie_overreads:
  assumes "\<forall>x \<in> set es. wpa_valid x \<and> fst x \<noteq> 0xdd" "es \<noteq> []" "wpa_valid v" "fst v = 0xdd" "\<not> wpa_ie_ok v"
    "b = pre @ ies_bytes (es @ [v])"
  shows "rtw_get_wpa_ie b (length pre) (int (length (ies_bytes (es @ [v])))) = None"
proof -
  let ?n = "int (length (ies_bytes (es @ [v])))"
  have "\<not> ?n \<le> int (length (ie_bytes v))" using assms(2) by (cases es) simp_all
  then have "rtw_get_wpa_ie b (length pre) ?n =
      get_wpa_ie_loop b (length b) (?n - int (length (ie_bytes v)))"
    using get_wpa_ie_turn [OF assms(1,3,4) order_refl, of pre "[]"] assms(5)
    by (simp add: rtw_get_wpa_ie_def assms(6))
  moreover have "rtw_get_ie b (length b) WPA_IE_ID 0 (?n - int (length (ie_bytes v))) = None"
    using assms(2) by (cases es) (simp_all add: rtw_get_ie_def rtw_get_ie_loop.simps byte_at_def)
  ultimately show ?thesis by (simp add: get_wpa_ie_loop.simps)
qed

theorem rtw_get_wpa_ie_overreads_witness:
  "rtw_get_wpa_ie [0, 1, 65, 221, 6, 0, 80, 242, 4, 16, 74] 0 11 = None"
  using rtw_get_wpa_ie_overreads [of "[(0, [65])]" "(221, [0, 80, 242, 4, 16, 74])"
      "[0, 1, 65, 221, 6, 0, 80, 242, 4, 16, 74]" "[]"]
  by (simp add: wpa_valid_def wpa_ie_ok_def wpa_oui_type_def ie_ok_def ie_bytes_def)

subsection \<open>The ciphers of a security element\<close>

definition cipher_of :: "u8 list \<Rightarrow> u8 list \<Rightarrow> u32" where
  "cipher_of oui sel = (case map_of (suites oui) sel of None \<Rightarrow> 0 | Some c \<Rightarrow> c)"

lemma suite_of_map:
  assumes "\<forall>x \<in> set cs. length (fst x) = length sel"
  shows "suite_of cs (length pre) (pre @ sel @ post) = Some (case map_of cs sel of None \<Rightarrow> 0 | Some c \<Rightarrow> c)"
  using assms
proof (induction cs)
  case Nil
  then show ?case by simp
next
  case (Cons x cs)
  obtain k c where x: "x = (k, c)" by (cases x)
  have "rtw_memcmp (length pre) k (pre @ sel @ post) = Some (sel = k)"
    using Cons.prems by (simp add: rtw_memcmp_append x)
  then show ?case using Cons by (auto simp: x)
qed

text \<open>\<open>cipher_reader\<close> is a function that reads a selector of four bytes.\<close>

definition cipher_reader :: "(nat \<Rightarrow> u8 list \<Rightarrow> u32 option) \<Rightarrow> u8 list \<Rightarrow> bool" where
  "cipher_reader suite oui \<longleftrightarrow>
     (\<forall>pre sel post. length sel = 4 \<longrightarrow> suite (length pre) (pre @ sel @ post) = Some (cipher_of oui sel))"

lemma suites_length: "\<forall>x \<in> set (suites [a, b, c]). length (fst x) = 4"
  by (simp add: suites_def)

lemma cipher_readers:
  "cipher_reader rtw_get_wpa_cipher_suite [0x00, 0x50, 0xf2]"
  "cipher_reader rtw_get_wpa2_cipher_suite [0x00, 0x0f, 0xac]"
  by (simp_all add: cipher_reader_def cipher_of_def rtw_get_wpa_cipher_suite_def
      rtw_get_wpa2_cipher_suite_def suite_of_map suites_length)

lemma pairwise_loop_reads:
  assumes "cipher_reader suite oui" "\<forall>sel \<in> set ps. length sel = 4"
  shows "pairwise_loop suite (length ps) (length pre) (pre @ concat ps @ post) pw =
    Some (fold (OR) (map (cipher_of oui) ps) pw)"
  using assms(2)
proof (induction ps arbitrary: pre pw)
  case Nil
  then show ?case by simp
next
  case (Cons sel ps)
  have "suite (length pre) (pre @ sel @ concat ps @ post) = Some (cipher_of oui sel)"
    using assms(1) Cons.prems by (simp add: cipher_reader_def)
  then show ?case
    using Cons.IH [of "pre @ sel" "pw OR cipher_of oui sel"] Cons.prems by (simp add: or.commute)
qed

definition put_ciphers :: "u8 list \<Rightarrow> u8 list list \<Rightarrow> u8 list" where
  "put_ciphers g ps = g @ put_le16 (of_nat (length ps)) @ concat ps"

lemma le16_put: "le16 (ucast (v AND 0xff)) (ucast (drop_bit 8 v)) = v"
proof -
  have "v AND 0xff = take_bit 8 v" by (simp add: take_bit_eq_mask mask_eq_exp_minus_1)
  then show ?thesis
    unfolding le16_def by (intro bit_word_eqI) (auto simp: bit_simps)
qed

lemma length_put_le16 [simp]: "length (put_le16 v) = 2"
  by (simp add: put_le16_def)

lemma get_le16_put: "get_le16 (length pre) (pre @ put_le16 v @ post) = Some v"
  by (simp add: get_le16_def put_le16_def le16_put)

lemma parse_ciphers_reads:
  assumes r: "cipher_reader suite oui" and g: "length g = 4" and ps: "\<forall>sel \<in> set ps. length sel = 4" "ps \<noteq> []"
    and len: "length (put_ciphers g ps) \<le> left" "left < 256"
  shows "parse_ciphers suite (pre @ put_ciphers g ps @ post) (length pre) (int left) g0 p0 =
    Some (SUCCESS, cipher_of oui g, fold (OR) (map (cipher_of oui) ps) p0)"
proof -
  let ?b = "pre @ put_ciphers g ps @ post"
  have lc: "length (concat ps) = 4 * length ps" using ps(1) by (induction ps) auto
  then have lps: "4 * length ps + 6 \<le> left" using len(1) g by (simp add: put_ciphers_def)
  then have cnt: "unat (of_nat (length ps) :: u16) = length ps" "uint (of_nat (length ps) :: u16) = int (length ps)"
    "(of_nat (length ps) :: u16) \<noteq> 0"
    using len(2) ps(2) by (simp_all add: unsigned_of_nat take_bit_nat_eq_self word_unat_eq_iff)
  have s: "suite (length pre) ?b = Some (cipher_of oui g)"
    using r g by (simp add: cipher_reader_def put_ciphers_def)
  have c: "get_le16 (length pre + 4) ?b = Some (of_nat (length ps))"
    using get_le16_put [of "pre @ g" "of_nat (length ps)" "concat ps @ post"] g by (simp add: put_ciphers_def)
  have l: "pairwise_loop suite (length ps) (length pre + 4 + 2) ?b p0 = Some (fold (OR) (map (cipher_of oui) ps) p0)"
    using pairwise_loop_reads [OF r ps(1), of "pre @ g @ put_le16 (of_nat (length ps))" post p0] g
    by (simp add: put_ciphers_def add.commute)
  have "parse_pairwise suite ?b (length pre + 4) (int left - 4) p0 =
      Some (SUCCESS, fold (OR) (map (cipher_of oui) ps) p0)"
    using c l cnt lps by (simp add: parse_pairwise_def)
  then show ?thesis using s lps by (simp add: parse_ciphers_def)
qed

lemma numeral_4: "Suc (Suc (Suc (Suc 0))) = 4"
  by simp

text \<open>
  C33: From a WPA or an RSN element with a group cipher, a list of pairwise ciphers and whatever
  follows, \<^verbatim>\<open>rtw_parse_wpa_ie\<close> and \<^verbatim>\<open>rtw_parse_wpa2_ie\<close> read exactly these
  ciphers, adding the pairwise ones to those the caller has.
\<close>

theorem rtw_parse_wpa_ies:
  assumes "length g = 4" "\<forall>sel \<in> set ps. length sel = 4" "ps \<noteq> []"
    "wpa = (0xdd, wpa_oui_type @ [1, 0] @ put_ciphers g ps @ tail)" "ie_ok wpa"
    "rsn = (0x30, [1, 0] @ put_ciphers g ps @ tail)"
  shows "rtw_parse_wpa_ie (ie_bytes wpa @ post) (int (length (ie_bytes wpa))) g0 p0 =
      Some (SUCCESS, cipher_of [0x00, 0x50, 0xf2] g, fold (OR) (map (cipher_of [0x00, 0x50, 0xf2]) ps) p0) \<and>
    rtw_parse_wpa2_ie (ie_bytes rsn @ post) (int (length (ie_bytes rsn))) g0 p0 =
      Some (SUCCESS, cipher_of [0x00, 0x0f, 0xac] g, fold (OR) (map (cipher_of [0x00, 0x0f, 0xac]) ps) p0)"
proof
  let ?n = "length (snd wpa)"
  have l6: "length wpa_oui_type = 4" by (simp add: wpa_oui_type_def)
  have n: "?n < 256" using assms(5) by (simp add: ie_ok_def)
  have w: "ie_bytes wpa @ post = [0xdd, of_nat ?n] @ wpa_oui_type @ [1, 0] @ put_ciphers g ps @ tail @ post"
    by (simp add: ie_bytes_def assms(4))
  have m: "rtw_memcmp 2 wpa_oui_type (ie_bytes wpa @ post) = Some True"
    using rtw_memcmp_append [of "[0xdd, of_nat ?n]" wpa_oui_type wpa_oui_type] unfolding w
    by (simp add: numeral_2_eq_2)
  have "parse_ciphers rtw_get_wpa_cipher_suite (ie_bytes wpa @ post) 8 (int (?n - 6)) g0 p0 =
      Some (SUCCESS, cipher_of [0x00, 0x50, 0xf2] g, fold (OR) (map (cipher_of [0x00, 0x50, 0xf2]) ps) p0)"
    using parse_ciphers_reads [OF cipher_readers(1) assms(1-3), of "?n - 6"
        "[0xdd, of_nat ?n] @ wpa_oui_type @ [1, 0]" "tail @ post" g0 p0] n l6
    unfolding w by (simp add: assms(4))
  moreover have "int (?n - 6) = int (length (ie_bytes wpa)) - 8" using l6 by (simp add: assms(4))
  ultimately show "rtw_parse_wpa_ie (ie_bytes wpa @ post) (int (length (ie_bytes wpa))) g0 p0 =
      Some (SUCCESS, cipher_of [0x00, 0x50, 0xf2] g, fold (OR) (map (cipher_of [0x00, 0x50, 0xf2]) ps) p0)"
    using m by (simp add: rtw_parse_wpa_ie_def w)
next
  let ?n = "length (snd rsn)"
  have n: "?n < 256" using assms(5) by (simp add: ie_ok_def assms(4,6))
  have w: "ie_bytes rsn @ post = [0x30, of_nat ?n] @ [1, 0] @ put_ciphers g ps @ tail @ post"
    by (simp add: ie_bytes_def assms(6))
  have "parse_ciphers rtw_get_wpa2_cipher_suite (ie_bytes rsn @ post) 4 (int (?n - 2)) g0 p0 =
      Some (SUCCESS, cipher_of [0x00, 0x0f, 0xac] g, fold (OR) (map (cipher_of [0x00, 0x0f, 0xac]) ps) p0)"
    using parse_ciphers_reads [OF cipher_readers(2) assms(1-3), of "?n - 2"
        "[0x30, of_nat ?n] @ [1, 0]" "tail @ post" g0 p0] n
    unfolding w by (simp add: assms(6) numeral_4)
  moreover have "int (?n - 2) = int (length (ie_bytes rsn)) - 4" by (simp add: assms(6))
  ultimately show "rtw_parse_wpa2_ie (ie_bytes rsn @ post) (int (length (ie_bytes rsn))) g0 p0 =
      Some (SUCCESS, cipher_of [0x00, 0x0f, 0xac] g, fold (OR) (map (cipher_of [0x00, 0x0f, 0xac]) ps) p0)"
    by (simp add: rtw_parse_wpa2_ie_def w)
qed

theorem rtw_parse_wpa_ies_witness:
  "rtw_parse_wpa2_ie [48, 12, 1, 0, 0, 15, 172, 2, 1, 0, 0, 15, 172, 4] 14 0 0 = Some (SUCCESS, 8, 16)"
  using rtw_parse_wpa_ies [of "[0, 15, 172, 2]" "[[0, 15, 172, 4]]"
      "(0xdd, wpa_oui_type @ [1, 0] @ put_ciphers [0, 15, 172, 2] [[0, 15, 172, 4]])" "[]"
      "(0x30, [1, 0] @ put_ciphers [0, 15, 172, 2] [[0, 15, 172, 4]])" "[]" 0 0]
  by (simp add: ie_ok_def ie_bytes_def put_ciphers_def put_le16_def wpa_oui_type_def cipher_of_def suites_def)

section \<open>Copying the security elements\<close>

text \<open>
  The result of code with a loop that may not end: \<open>Outside\<close> when it leaves a buffer,
  \<open>Endless\<close> when it never returns.
\<close>

datatype 'a run = Returns 'a | Outside | Endless

text \<open>
  The loop that traces an element of \<open>n\<close> bytes: its tracing is compiled out, but it counts
  in a byte.
\<close>

definition trace_loop :: "nat \<Rightarrow> u8 option" where
  "trace_loop n = while_option (\<lambda>i. unat i < n) (\<lambda>i. i + 8) 0"

definition copy_ie :: "u8 list \<Rightarrow> nat \<Rightarrow> u8 \<Rightarrow> u8 list \<Rightarrow> u8 list option" where
  "copy_ie b p l dst = do { xs \<leftarrow> read_at p (unat l + 2) b; write_at 0 xs dst }"

record sec_ies =
  sec_rsn_ie :: "u8 list"
  sec_rsn_len :: u16
  sec_wpa_ie :: "u8 list"
  sec_wpa_len :: u16

definition copy_sec :: "bool \<Rightarrow> u8 list \<Rightarrow> nat \<Rightarrow> u8 \<Rightarrow> sec_ies \<Rightarrow> sec_ies run" where
  "copy_sec wpa b p l st =
     (case copy_ie b p l (if wpa then sec_wpa_ie st else sec_rsn_ie st) of
        None \<Rightarrow> Outside
      | Some d \<Rightarrow>
          (case trace_loop (unat l + 2) of
             None \<Rightarrow> Endless
           | Some _ \<Rightarrow> Returns (if wpa then st\<lparr>sec_wpa_ie := d, sec_wpa_len := ucast l + 2\<rparr>
                               else st\<lparr>sec_rsn_ie := d, sec_rsn_len := ucast l + 2\<rparr>)))"

text \<open>One element: the state behind it and its length.\<close>

definition sec_step :: "u8 list \<Rightarrow> nat \<Rightarrow> sec_ies \<Rightarrow> (sec_ies \<times> nat) run" where
  "sec_step b cnt st =
     (case do {
        authmode \<leftarrow> byte_at cnt b;
        wpa \<leftarrow> (if uint authmode = WPA_IE_ID then rtw_memcmp (cnt + 2) wpa_oui_type b else Some False);
        l \<leftarrow> byte_at (cnt + 1) b;
        Some (authmode, wpa, l)
      } of
        None \<Rightarrow> Outside
      | Some (authmode, wpa, l) \<Rightarrow>
          if wpa \<or> uint authmode = WPA2_IE_ID
          then (case copy_sec wpa b cnt l st of
                  Returns st' \<Rightarrow> Returns (st', unat l + 2) | Outside \<Rightarrow> Outside | Endless \<Rightarrow> Endless)
          else Returns (st, unat l + 2))"

lemma sec_step_forward: "sec_step b cnt st = Returns (st', n) \<Longrightarrow> 0 < n"
  by (auto simp: sec_step_def split: option.split_asm if_split_asm run.split_asm)

function sec_ie_loop :: "u8 list \<Rightarrow> nat \<Rightarrow> nat \<Rightarrow> sec_ies \<Rightarrow> sec_ies run" where
  "sec_ie_loop b in_len cnt st =
     (if cnt < in_len
      then (case sec_step b cnt st of
              Returns (st', n) \<Rightarrow> sec_ie_loop b in_len (cnt + n) st'
            | Outside \<Rightarrow> Outside
            | Endless \<Rightarrow> Endless)
      else Returns st)"
  by pat_completeness auto

termination
  by (relation "measure (\<lambda>(b, in_len, cnt, st). in_len - cnt)") (auto dest: sec_step_forward)

declare sec_ie_loop.simps [simp del]

text \<open>The search starts behind timestamp, beacon interval and capabilities.\<close>

definition rtw_get_sec_ie :: "u8 list \<Rightarrow> u32 \<Rightarrow> sec_ies \<Rightarrow> (u32 \<times> sec_ies) run" where
  "rtw_get_sec_ie in_ie in_len st =
     (case sec_ie_loop in_ie (unat in_len) (8 + 2 + 2) st of
        Returns st' \<Rightarrow> Returns (ucast (sec_rsn_len st') + ucast (sec_wpa_len st'), st')
      | Outside \<Rightarrow> Outside
      | Endless \<Rightarrow> Endless)"

text \<open>A multiple of eight in a byte never passes 248, so that an element of 247 bytes is too long.\<close>

lemma trace_loop_ends_iff: "trace_loop n \<noteq> None \<longleftrightarrow> n \<le> 248"
proof
  assume "trace_loop n \<noteq> None"
  then obtain t where t: "while_option (\<lambda>i :: u8. unat i < n) (\<lambda>i. i + 8) 0 = Some t"
    by (auto simp: trace_loop_def)
  have "8 dvd unat t"
  proof (rule while_option_rule [OF _ t])
    fix i :: u8 assume "8 dvd unat i"
    moreover have "unat (i + 8) = (unat i + 8) mod 256" by (simp add: unat_word_ariths)
    ultimately show "8 dvd unat (i + 8)" by (simp add: dvd_mod_iff)
  qed simp
  moreover have "unat t < 256" using unsigned_less [of t, where 'a = nat] by simp
  ultimately have "unat t \<le> 248" by presburger
  then show "n \<le> 248" using while_option_stop [OF t] by simp
next
  assume n: "n \<le> 248"
  have "\<exists>t. while_option (\<lambda>i :: u8. unat i < n) (\<lambda>i. i + 8) 0 = Some t"
  proof (rule measure_while_option_Some [where P = "\<lambda>_. True" and f = "\<lambda>i. 256 - unat i"])
    fix i :: u8 assume "unat i < n"
    then show "True \<and> 256 - unat (i + 8) < 256 - unat i"
      using n by (simp add: unat_word_ariths)
  qed simp
  then show "trace_loop n \<noteq> None" by (auto simp: trace_loop_def)
qed

text \<open>
  An RSN element of 247 bytes or more keeps \<^verbatim>\<open>rtw_get_sec_ie\<close>, which the report of a scan
  calls with the elements of every network, from returning.
\<close>

lemma rtw_get_sec_ie_endless:
  assumes "length fixed = 12" "length d \<ge> 247" "ie_ok (0x30, d)" "257 \<le> length (sec_rsn_ie st)" "12 < unat in_len"
  shows "rtw_get_sec_ie (fixed @ ie_bytes (0x30, d) @ post) in_len st = Endless"
proof -
  let ?b = "fixed @ ie_bytes (0x30, d) @ post"
  have l: "byte_at 12 ?b = Some 0x30" "byte_at 13 ?b = Some (of_nat (length d))"
    using ie_byte_at [of fixed "(0x30, d)" post] by (simp_all add: assms(1))
  have u: "unat (of_nat (length d) :: u8) = length d"
    using ie_ok_length(1) [OF assms(3)] by simp
  obtain x where x: "copy_ie ?b 12 (of_nat (length d)) (sec_rsn_ie st) = Some x"
    using assms(1,3,4) by (simp add: copy_ie_def u ie_ok_def)
  have "trace_loop (length d + 2) = None" using trace_loop_ends_iff [of "length d + 2"] assms(2) by auto
  then have "sec_step ?b 12 st = Endless"
    using l x by (simp add: sec_step_def copy_sec_def u)
  then show ?thesis
    using assms(5) by (simp add: rtw_get_sec_ie_def sec_ie_loop.simps [of _ _ 12])
qed

end
