(* ===== verification/Ie_Vendor.thy ===== *)
theory Ie_Vendor
  imports Ie_Parse
begin

text \<open>
  Vendor elements and their attributes (\<^verbatim>\<open>core/rtw_ieee80211.c\<close>): Wi-Fi protected setup,
  Wi-Fi direct (P2P) and Wi-Fi display. An attribute is an identifier, a length of 16 bits and
  data. The searches add the size of the header to the length in 16 bits; a length for which the
  sum is zero keeps them where they are.
\<close>

section \<open>The searches\<close>

abbreviation (input) "VENDOR_SPECIFIC_IE \<equiv> 221 :: u8"

definition wps_oui :: "u8 list" where "wps_oui = [0x00, 0x50, 0xf2, 0x04]"
definition p2p_oui :: "u8 list" where "p2p_oui = [0x50, 0x6f, 0x9a, 0x09]"
definition wfd_oui :: "u8 list" where "wfd_oui = [0x50, 0x6f, 0x9a, 0x0a]"

definition is_vendor_ie :: "u8 list \<Rightarrow> nat \<Rightarrow> u8 list \<Rightarrow> bool option" where
  "is_vendor_ie oui p b = do {
     eid \<leftarrow> byte_at p b;
     if eid = VENDOR_SPECIFIC_IE then rtw_memcmp (p + 2) oui b else Some False
   }"

text \<open>\<open>None\<close> as pointer is null. The result is the match and \<^verbatim>\<open>*wps_ielen\<close>.\<close>

definition rtw_is_wps_ie :: "nat option \<Rightarrow> u32 \<Rightarrow> u8 list \<Rightarrow> (bool \<times> u32) option" where
  "rtw_is_wps_ie ie_ptr wps_ielen b =
     (case ie_ptr of
        None \<Rightarrow> Some (False, wps_ielen)
      | Some p \<Rightarrow> do {
          m \<leftarrow> is_vendor_ie wps_oui p b;
          if m then do { l \<leftarrow> byte_at (p + 1) b; Some (True, ucast l + 2) }
          else Some (False, wps_ielen)
        })"

text \<open>The search for a WPS element is that of \<^verbatim>\<open>rtw_get_ie_ex\<close>.\<close>

definition rtw_get_wps_ie ::
  "u8 list \<Rightarrow> nat \<Rightarrow> u32 \<Rightarrow> u8 list option \<Rightarrow> (nat option \<times> u8 list option \<times> u32) option" where
  "rtw_get_wps_ie b in_ie in_len wps =
     rtw_get_ie_ex b in_ie in_len VENDOR_SPECIFIC_IE (Some wps_oui) 4 wps"

text \<open>
  \<open>hdr p b\<close> reads the header at \<open>p\<close>: the identifier and the size of the attribute, header
  included. \<open>attr_walk\<close> goes on while the attribute is not the one looked for and stops where it
  would leave the buffer.
\<close>

definition attr_walk ::
  "(nat \<Rightarrow> u8 list \<Rightarrow> ('k \<times> u16) option) \<Rightarrow> 'k \<Rightarrow> u8 list \<Rightarrow> nat \<Rightarrow> nat \<Rightarrow> nat option" where
  "attr_walk hdr target b lim p = while_option
     (\<lambda>p. p < lim \<and> (case hdr p b of None \<Rightarrow> False | Some (k, n) \<Rightarrow> k \<noteq> target))
     (\<lambda>p. p + unat (snd (the (hdr p b)))) p"

definition get_attr ::
  "(nat \<Rightarrow> u8 list \<Rightarrow> ('k \<times> u16) option) \<Rightarrow> 'k \<Rightarrow> u8 list \<Rightarrow> nat \<Rightarrow> nat \<Rightarrow> (nat \<times> u16) option run" where
  "get_attr hdr target b lim p =
     (case attr_walk hdr target b lim p of
        None \<Rightarrow> Endless
      | Some q \<Rightarrow>
          if q < lim then (case hdr q b of None \<Rightarrow> Outside | Some (k, n) \<Rightarrow> Returns (Some (q, n)))
          else Returns None)"

definition be16_pair :: "u8 \<Rightarrow> u8 \<Rightarrow> u16" where
  "be16_pair a b = push_bit 8 (ucast a) OR ucast b"

definition wps_hdr :: "nat \<Rightarrow> u8 list \<Rightarrow> (u16 \<times> u16) option" where
  "wps_hdr p b = do {
     h \<leftarrow> read_at p 4 b;
     Some (be16_pair (h ! 0) (h ! 1), be16_pair (h ! 2) (h ! 3) + 4)
   }"

definition p2p_hdr :: "nat \<Rightarrow> u8 list \<Rightarrow> (u8 \<times> u16) option" where
  "p2p_hdr p b = do {
     h \<leftarrow> read_at p 3 b;
     Some (h ! 0, le16 (h ! 1) (h ! 2) + 3)
   }"

text \<open>
  \<open>buf\<close> is the buffer for the attribute, or null. The result is the attribute, the buffer and
  \<^verbatim>\<open>*len_attr\<close>.
\<close>

definition take_attr ::
  "u8 list \<Rightarrow> u8 list option \<Rightarrow> (nat \<times> u16) option run \<Rightarrow> (nat option \<times> u8 list option \<times> u32) run" where
  "take_attr b buf r =
     (case r of
        Endless \<Rightarrow> Endless
      | Outside \<Rightarrow> Outside
      | Returns None \<Rightarrow> Returns (None, buf, 0)
      | Returns (Some (p, n)) \<Rightarrow>
          (case copy_out p (unat n) b buf of
             None \<Rightarrow> Outside
           | Some buf' \<Rightarrow> Returns (Some p, buf', ucast n)))"

definition rtw_get_wps_attr ::
  "u8 list \<Rightarrow> nat \<Rightarrow> u32 \<Rightarrow> u16 \<Rightarrow> u8 list option \<Rightarrow> (nat option \<times> u8 list option \<times> u32) run" where
  "rtw_get_wps_attr b wps wps_ielen target buf =
     (case is_vendor_ie wps_oui wps b of
        None \<Rightarrow> Outside
      | Some False \<Rightarrow> Returns (None, buf, 0)
      | Some True \<Rightarrow> take_attr b buf (get_attr wps_hdr target b (wps + unat wps_ielen) (wps + 6)))"

text \<open>The content of an attribute is what follows its header of \<open>h\<close> bytes.\<close>

definition attr_content ::
  "u8 list \<Rightarrow> nat \<Rightarrow> u8 list option \<Rightarrow> (nat option \<times> u8 list option \<times> u32) run \<Rightarrow>
     (nat option \<times> u8 list option \<times> u32) run" where
  "attr_content b h buf r =
     (case r of
        Returns (Some p, _, n) \<Rightarrow>
          if n \<noteq> 0 then
            (case copy_out (p + h) (unat (n - of_nat h)) b buf of
               None \<Rightarrow> Outside
             | Some buf' \<Rightarrow> Returns (Some (p + h), buf', n - of_nat h))
          else Returns (None, buf, 0)
      | Returns (None, _, n) \<Rightarrow> Returns (None, buf, 0)
      | Outside \<Rightarrow> Outside
      | Endless \<Rightarrow> Endless)"

definition rtw_get_wps_attr_content ::
  "u8 list \<Rightarrow> nat \<Rightarrow> u32 \<Rightarrow> u16 \<Rightarrow> u8 list option \<Rightarrow> (nat option \<times> u8 list option \<times> u32) run" where
  "rtw_get_wps_attr_content b wps wps_ielen target buf =
     attr_content b 4 buf (rtw_get_wps_attr b wps wps_ielen target None)"

text \<open>
  The length is signed and compared as unsigned, so that a negative one enters the loop, which the
  test after the first read leaves.
\<close>

function get_p2p_ie_loop :: "u8 list \<Rightarrow> nat \<Rightarrow> int \<Rightarrow> nat \<Rightarrow> nat option option" where
  "get_p2p_ie_loop b in_ie in_len cnt =
     (if cnt < nat (in_len mod 2 ^ 32) then do {
        eid \<leftarrow> byte_at (in_ie + cnt) b;
        if in_len < 0 \<or> MAX_IE_SZ < cnt then Some None
        else do {
          m \<leftarrow> (if eid = VENDOR_SPECIFIC_IE then rtw_memcmp (in_ie + cnt + 2) p2p_oui b else Some False);
          if m then Some (Some (in_ie + cnt))
          else do {
            l \<leftarrow> byte_at (in_ie + cnt + 1) b;
            get_p2p_ie_loop b in_ie in_len (cnt + (unat l + 2))
          }
        }
      }
      else Some None)"
  by pat_completeness auto

termination
  by (relation "measure (\<lambda>(b, in_ie, in_len, cnt). nat (in_len mod 2 ^ 32) - cnt)") auto

declare get_p2p_ie_loop.simps [simp del]

definition rtw_get_p2p_ie ::
  "u8 list \<Rightarrow> nat \<Rightarrow> int \<Rightarrow> u8 list option \<Rightarrow> (nat option \<times> u8 list option \<times> u32) option" where
  "rtw_get_p2p_ie b in_ie in_len p2p_ie = do {
     t \<leftarrow> get_p2p_ie_loop b in_ie in_len 0;
     case t of
       None \<Rightarrow> Some (None, p2p_ie, 0)
     | Some p \<Rightarrow> do {
         l \<leftarrow> byte_at (p + 1) b;
         p2p_ie \<leftarrow> copy_out p (unat l + 2) b p2p_ie;
         Some (Some p, p2p_ie, ucast l + 2)
       }
   }"

definition rtw_get_p2p_attr ::
  "u8 list \<Rightarrow> nat option \<Rightarrow> u32 \<Rightarrow> u8 \<Rightarrow> u8 list option \<Rightarrow> (nat option \<times> u8 list option \<times> u32) run" where
  "rtw_get_p2p_attr b p2p_ie p2p_ielen target buf =
     (case p2p_ie of
        None \<Rightarrow> Returns (None, buf, 0)
      | Some ie \<Rightarrow>
          (case is_vendor_ie p2p_oui ie b of
             None \<Rightarrow> Outside
           | Some False \<Rightarrow> Returns (None, buf, 0)
           | Some True \<Rightarrow> take_attr b buf (get_attr p2p_hdr target b (ie + unat p2p_ielen) (ie + 6))))"

definition rtw_get_p2p_attr_content ::
  "u8 list \<Rightarrow> nat option \<Rightarrow> u32 \<Rightarrow> u8 \<Rightarrow> u8 list option \<Rightarrow> (nat option \<times> u8 list option \<times> u32) run" where
  "rtw_get_p2p_attr_content b p2p_ie p2p_ielen target buf =
     attr_content b 3 buf (rtw_get_p2p_attr b p2p_ie p2p_ielen target None)"

definition rtw_set_p2p_attr_content ::
  "nat \<Rightarrow> u8 \<Rightarrow> u16 \<Rightarrow> u8 list option \<Rightarrow> u8 list \<Rightarrow> (u32 \<times> u8 list) option" where
  "rtw_set_p2p_attr_content pbuf attr_id attr_len pdata b = do {
     b \<leftarrow> write_at pbuf [attr_id] b;
     b \<leftarrow> write_at (pbuf + 1) (put_le16 attr_len) b;
     b \<leftarrow> (case pdata of
            None \<Rightarrow> Some b
          | Some d \<Rightarrow> do { xs \<leftarrow> read_at 0 (unat attr_len) d; write_at (pbuf + 3) xs b });
     Some (ucast attr_len + 3, b)
   }"

section \<open>Deleting attributes\<close>

text \<open>
  The attribute of \<open>n\<close> bytes at \<open>p\<close> is deleted from the element at \<open>ie\<close>, the rest moved up
  and the bytes that become free cleared. The length in the element is a byte. When the attribute
  claims to be longer than the element, the length of the rest is negative and the copy longer
  than any buffer.
\<close>

definition remove_attr :: "nat \<Rightarrow> nat \<Rightarrow> nat \<Rightarrow> nat \<Rightarrow> u8 list \<Rightarrow> u8 list option" where
  "remove_attr ie ielen p n b =
     (if ie + ielen < p + n then None
      else do {
        let remain = ie + ielen - (p + n);
        b \<leftarrow> write_at p (replicate n 0) b;
        xs \<leftarrow> read_at (p + n) remain b;
        b \<leftarrow> write_at p xs b;
        b \<leftarrow> write_at (p + remain) (replicate n 0) b;
        l \<leftarrow> byte_at (ie + 1) b;
        write_at (ie + 1) [l - of_nat n] b
      })"

lemma remove_attr_inside: "remove_attr ie ielen p n b = Some b' \<Longrightarrow> p + n \<le> ie + ielen"
  by (simp add: remove_attr_def split: if_split_asm)

lemma get_attr_from: "get_attr hdr target b lim p = Returns (Some (q, n)) \<Longrightarrow> p \<le> q \<and> q < lim"
proof -
  assume g: "get_attr hdr target b lim p = Returns (Some (q, n))"
  then have w: "attr_walk hdr target b lim p = Some q" and "q < lim"
    by (auto simp: get_attr_def split: option.split_asm if_split_asm)
  have "p \<le> q"
    by (rule while_option_rule [OF _ w [unfolded attr_walk_def], of "\<lambda>q. p \<le> q"]) simp_all
  then show ?thesis using \<open>q < lim\<close> by simp
qed

lemma get_p2p_attr_from:
  assumes "rtw_get_p2p_attr b (Some ie) ielen target None = Returns (Some p, buf, n)"
  shows "ie \<le> p \<and> unat n < 65536"
proof -
  from assms obtain m where g: "get_attr p2p_hdr target b (ie + unat ielen) (ie + 6) = Returns (Some (p, m))"
    and n: "n = ucast m"
    by (auto simp: rtw_get_p2p_attr_def take_attr_def
        split: option.split_asm bool.split_asm run.split_asm prod.split_asm)
  have "unat m < 65536" using unsigned_less [of m, where 'a = nat] by simp
  then show ?thesis using get_attr_from [OF g] n by (simp add: unsigned_ucast_eq take_bit_nat_eq_self)
qed


function p2p_attr_remove_loop :: "u8 list \<Rightarrow> nat \<Rightarrow> nat \<Rightarrow> u8 \<Rightarrow> (nat \<times> u8 list) run" where
  "p2p_attr_remove_loop b ie ielen attr_id =
     (case rtw_get_p2p_attr b (Some ie) (of_nat ielen) attr_id None of
        Returns (Some p, _, n) \<Rightarrow>
          if n \<noteq> 0 then
            (case remove_attr ie ielen p (unat n) b of
               None \<Rightarrow> Outside
             | Some b' \<Rightarrow> p2p_attr_remove_loop b' ie (ielen - unat n) attr_id)
          else Returns (ielen, b)
      | Returns (None, _, _) \<Rightarrow> Returns (ielen, b)
      | Outside \<Rightarrow> Outside
      | Endless \<Rightarrow> Endless)"
  by pat_completeness auto

termination
proof (relation "measure (\<lambda>(b, ie, ielen, attr_id). ielen)", goal_cases)
  case (2 b ie ielen attr_id x1 a x p y n b')
  then have "ie \<le> p" using get_p2p_attr_from [of b ie "of_nat ielen" attr_id p y n] by simp
  moreover have "p + unat n \<le> ie + ielen" using 2 by (auto dest: remove_attr_inside)
  moreover have "0 < unat n" using 2 by (simp add: unat_gt_0)
  ultimately show ?case by simp
qed simp

declare p2p_attr_remove_loop.simps [simp del]

definition rtw_p2p_attr_remove :: "u8 list \<Rightarrow> nat \<Rightarrow> u32 \<Rightarrow> u8 \<Rightarrow> (u32 \<times> u8 list) run" where
  "rtw_p2p_attr_remove b ie ielen_ori attr_id =
     (case p2p_attr_remove_loop b ie (unat ielen_ori) attr_id of
        Returns (n, b') \<Rightarrow> Returns (of_nat n, b')
      | Outside \<Rightarrow> Outside
      | Endless \<Rightarrow> Endless)"

text \<open>The elements of a network and their length, \<^verbatim>\<open>IEs\<close> and \<^verbatim>\<open>IELength\<close>.\<close>

definition FIXED_IE_LENGTH :: nat where "FIXED_IE_LENGTH = 12"

definition close_gap :: "u8 list \<Rightarrow> u32 \<Rightarrow> nat \<Rightarrow> u32 \<Rightarrow> u32 \<Rightarrow> (u8 list \<times> u32) option" where
  "close_gap IEs IELength p2p_ie ielen_ori ielen = do {
     let remain_len = IELength - of_nat (p2p_ie + unat ielen_ori);
     xs \<leftarrow> read_at (p2p_ie + unat ielen_ori) (unat remain_len) IEs;
     b \<leftarrow> write_at (p2p_ie + unat ielen) xs IEs;
     b \<leftarrow> write_at (p2p_ie + unat ielen + unat remain_len) (replicate (unat (ielen_ori - ielen)) 0) b;
     Some (b, IELength - (ielen_ori - ielen))
   }"

definition rtw_WLAN_BSSID_EX_remove_p2p_attr :: "u8 list \<Rightarrow> u32 \<Rightarrow> u8 \<Rightarrow> (u8 list \<times> u32) run" where
  "rtw_WLAN_BSSID_EX_remove_p2p_attr IEs IELength attr_id =
     (case rtw_get_p2p_ie IEs FIXED_IE_LENGTH (sint (IELength - of_nat FIXED_IE_LENGTH)) None of
        None \<Rightarrow> Outside
      | Some (None, _, _) \<Rightarrow> Returns (IEs, IELength)
      | Some (Some p, _, ielen_ori) \<Rightarrow>
          (case rtw_p2p_attr_remove IEs p ielen_ori attr_id of
             Returns (ielen, b) \<Rightarrow>
               if ielen \<noteq> ielen_ori
               then (case close_gap b IELength p ielen_ori ielen of None \<Rightarrow> Outside | Some r \<Rightarrow> Returns r)
               else Returns (b, IELength)
           | Outside \<Rightarrow> Outside
           | Endless \<Rightarrow> Endless))"

section \<open>Merging P2P elements\<close>

function p2p_merged_loop :: "u8 list \<Rightarrow> nat \<Rightarrow> nat \<Rightarrow> int \<Rightarrow> int option" where
  "p2p_merged_loop b in_len i len =
     (if i < in_len then do {
        eid \<leftarrow> byte_at i b;
        m \<leftarrow> (if eid = VENDOR_SPECIFIC_IE then rtw_memcmp (i + 2) p2p_oui b else Some False);
        l \<leftarrow> byte_at (i + 1) b;
        p2p_merged_loop b in_len (i + (unat l + 2)) (if m then len + (uint l - 4) else len)
      }
      else Some len)"
  by pat_completeness auto

termination
  by (relation "measure (\<lambda>(b, in_len, i, len). in_len - i)") auto

declare p2p_merged_loop.simps [simp del]

definition rtw_get_p2p_merged_ies_len :: "u8 list \<Rightarrow> u32 \<Rightarrow> u32 option" where
  "rtw_get_p2p_merged_ies_len in_ie in_len = do {
     len \<leftarrow> p2p_merged_loop in_ie (unat in_len) 0 0;
     Some (word_of_int (len + 4))
   }"

text \<open>
  The copy of a P2P element into the merged one. With a length below four the number of bytes is
  negative, that is, more than any buffer has.
\<close>

definition merge_one :: "u8 list \<Rightarrow> nat \<Rightarrow> u8 \<Rightarrow> nat \<Rightarrow> u8 list \<Rightarrow> (nat \<times> u8 list) option" where
  "merge_one b i l m dst =
     (if unat l < 4 then None
      else do {
        xs \<leftarrow> read_at (i + 2 + 4) (unat l - 4) b;
        dst \<leftarrow> write_at m xs dst;
        Some (m + (unat l - 4), dst)
      })"

function p2p_merge_loop :: "u8 list \<Rightarrow> nat \<Rightarrow> nat \<Rightarrow> nat \<Rightarrow> u8 \<Rightarrow> u8 list \<Rightarrow> (u8 \<times> u8 list) option" where
  "p2p_merge_loop b in_len i m len dst =
     (if i < in_len then do {
        eid \<leftarrow> byte_at i b;
        hit \<leftarrow> (if eid = VENDOR_SPECIFIC_IE then rtw_memcmp (i + 2) p2p_oui b else Some False);
        l \<leftarrow> byte_at (i + 1) b;
        (m', dst') \<leftarrow> (if hit then merge_one b i l m dst else Some (m, dst));
        p2p_merge_loop b in_len (i + (unat l + 2)) m' (if hit then len + (l - 4) else len) dst'
      }
      else Some (len, dst))"
  by pat_completeness auto

termination
  by (relation "measure (\<lambda>(b, in_len, i, m, len, dst). in_len - i)") auto

declare p2p_merge_loop.simps [simp del]

definition rtw_p2p_merge_ies :: "u8 list \<Rightarrow> u32 \<Rightarrow> u8 list option \<Rightarrow> (int \<times> u8 list option) option" where
  "rtw_p2p_merge_ies in_ie in_len merge_ie =
     (case merge_ie of
        None \<Rightarrow> Some (0, None)
      | Some d \<Rightarrow> do {
          d \<leftarrow> write_at 0 ([0xdd, 0x00] @ p2p_oui) d;
          (len, d) \<leftarrow> p2p_merge_loop in_ie (unat in_len) 0 6 0 d;
          Some (uint len + 4, Some d)
        })"

section \<open>Wi-Fi display\<close>

text \<open>The result is the offset behind the element, or 0; the length is set only with an element.\<close>

definition rtw_get_wfd_ie ::
  "u8 list \<Rightarrow> int \<Rightarrow> u8 list option \<Rightarrow> u32 \<Rightarrow> (nat \<times> u8 list option \<times> u32) option" where
  "rtw_get_wfd_ie in_ie in_len wfd_ie wfd_ielen =
     (if in_len < 0 then Some (0, wfd_ie, wfd_ielen)
      else do {
        t \<leftarrow> get_ie_ex_loop in_ie 0 (nat in_len) VENDOR_SPECIFIC_IE (Some wfd_oui) 4 0;
        case t of
          None \<Rightarrow> Some (0, wfd_ie, wfd_ielen)
        | Some p \<Rightarrow> do {
            l \<leftarrow> byte_at (p + 1) in_ie;
            wfd_ie \<leftarrow> copy_out p (unat l + 2) in_ie wfd_ie;
            Some (p + unat l + 2, wfd_ie, ucast l + 2)
          }
      })"

definition wfd_hdr :: "nat \<Rightarrow> u8 list \<Rightarrow> (u8 \<times> u16) option" where
  "wfd_hdr p b = do { h \<leftarrow> read_at p 3 b; Some (h ! 0, be16_pair (h ! 1) (h ! 2)) }"

text \<open>Here the offset is of 32 bits and the sum does not wrap.\<close>

function wfd_attr_loop :: "u8 list \<Rightarrow> nat \<Rightarrow> u8 \<Rightarrow> nat \<Rightarrow> (nat \<times> u16) option option" where
  "wfd_attr_loop b ielen target cnt =
     (if cnt < ielen then do {
        (k, attrlen) \<leftarrow> wfd_hdr cnt b;
        if k = target then Some (Some (cnt, attrlen))
        else wfd_attr_loop b ielen target (cnt + (unat attrlen + 3))
      }
      else Some None)"
  by pat_completeness auto

termination
  by (relation "measure (\<lambda>(b, ielen, target, cnt). ielen - cnt)") auto

declare wfd_attr_loop.simps [simp del]

definition rtw_get_wfd_attr_content ::
  "u8 list \<Rightarrow> u32 \<Rightarrow> u8 \<Rightarrow> u8 list option \<Rightarrow> u32 \<Rightarrow> (bool \<times> u8 list option \<times> u32) option" where
  "rtw_get_wfd_attr_content wfd_ie wfd_ielen target content contentlen = do {
     v \<leftarrow> is_vendor_ie wfd_oui 0 wfd_ie;
     if \<not> v then Some (False, content, contentlen)
     else do {
       t \<leftarrow> wfd_attr_loop wfd_ie (unat wfd_ielen) target 6;
       case t of
         None \<Rightarrow> Some (False, content, contentlen)
       | Some (p, n) \<Rightarrow> do {
           c \<leftarrow> copy_out (p + 3) (unat n) wfd_ie content;
           Some (True, c, ucast n)
         }
     }
   }"


section \<open>Series of attributes\<close>

text \<open>
  The format of an attribute: \<open>enc\<close> writes an attribute and \<open>hdr\<close> reads its identifier and
  size.
\<close>

locale attr_format =
  fixes enc :: "'k \<times> u8 list \<Rightarrow> u8 list"
    and hdr :: "nat \<Rightarrow> u8 list \<Rightarrow> ('k \<times> u16) option"
  assumes hdr_enc: "length (enc a) < 65536 \<Longrightarrow>
      hdr (length pre) (pre @ enc a @ post) = Some (fst a, of_nat (length (enc a)))"
    and enc_not_Nil: "enc a \<noteq> []"
begin

lemma walk_stop: "\<not> (p < lim \<and> (case hdr p b of None \<Rightarrow> False | Some (k, n) \<Rightarrow> k \<noteq> target)) \<Longrightarrow>
    attr_walk hdr target b lim p = Some p"
  unfolding attr_walk_def by (subst while_option_unfold) (erule if_not_P)

lemma walk_step: "p < lim \<Longrightarrow> hdr p b = Some (k, n) \<Longrightarrow> k \<noteq> target \<Longrightarrow>
    attr_walk hdr target b lim p = attr_walk hdr target b lim (p + unat n)"
  unfolding attr_walk_def by (subst while_option_unfold) simp

text \<open>An attribute that is passed over and whose size is zero stops the search from ending.\<close>

lemma walk_endless:
  assumes "p < lim" "hdr p b = Some (k, 0)" "k \<noteq> target"
  shows "attr_walk hdr target b lim p = None"
proof (rule ccontr)
  assume "attr_walk hdr target b lim p \<noteq> None"
  then obtain q where w: "attr_walk hdr target b lim p = Some q" by blast
  have "q = p"
    by (rule while_option_rule [OF _ w [unfolded attr_walk_def], of "\<lambda>q. q = p"]) (simp_all add: assms)
  then show False using while_option_stop [OF w [unfolded attr_walk_def]] assms by simp
qed

end

sublocale attr_format \<subseteq> tlv_search enc "\<lambda>a. length (enc a) < 65536" "\<lambda>a. fst a = target" "\<lambda>_. True"
    "\<lambda>b lim p. get_attr hdr target b lim p"
    "\<lambda>a p. Returns (Some (p, of_nat (length (enc a))))" "Returns None"
  for target
proof (unfold_locales, goal_cases)
  case (1 a)
  show ?case by (rule enc_not_Nil)
next
  case (2 lim p b)
  then show ?case by (simp add: get_attr_def walk_stop)
next
  case (3 a lim pre post)
  then show ?case by (simp add: get_attr_def walk_stop hdr_enc)
next
  case (4 a lim pre post)
  have "unat (of_nat (length (enc a)) :: u16) = length (enc a)"
    using 4(1) by (simp add: unsigned_of_nat take_bit_nat_eq_self)
  then show ?case
    using walk_step [OF 4(4) hdr_enc [OF 4(1)] 4(2), of post] by (simp add: get_attr_def)
qed

definition put_be16 :: "u16 \<Rightarrow> u8 list" where
  "put_be16 v = [ucast (drop_bit 8 v), ucast v]"

definition wps_attr :: "u16 \<times> u8 list \<Rightarrow> u8 list" where
  "wps_attr a = put_be16 (fst a) @ put_be16 (of_nat (length (snd a))) @ snd a"

definition p2p_attr :: "u8 \<times> u8 list \<Rightarrow> u8 list" where
  "p2p_attr a = fst a # put_le16 (of_nat (length (snd a))) @ snd a"

lemma be16_put: "be16_pair (ucast (drop_bit 8 v)) (ucast v) = v"
  unfolding be16_pair_def by (rule bit_word_eqI) (auto simp: bit_simps)

lemma wps_hdr_put: "wps_hdr (length pre) (pre @ put_be16 k @ put_be16 n @ post) = Some (k, n + 4)"
  by (simp add: wps_hdr_def put_be16_def be16_put)

lemma p2p_hdr_put: "p2p_hdr (length pre) (pre @ k # put_le16 n @ post) = Some (k, n + 3)"
  by (simp add: p2p_hdr_def put_le16_def le16_put)

interpretation wps: attr_format wps_attr wps_hdr
proof (unfold_locales, goal_cases)
  case (1 a pre post)
  have "of_nat (length (snd a)) + 4 = (of_nat (length (wps_attr a)) :: u16)"
    by (simp add: wps_attr_def put_be16_def)
  then show ?case
    using wps_hdr_put [of pre "fst a" "of_nat (length (snd a))" "snd a @ post"] by (simp add: wps_attr_def)
qed (simp add: wps_attr_def put_be16_def)

interpretation p2p: attr_format p2p_attr p2p_hdr
proof (unfold_locales, goal_cases)
  case (1 a pre post)
  have "of_nat (length (snd a)) + 3 = (of_nat (length (p2p_attr a)) :: u16)"
    by (simp add: p2p_attr_def)
  then show ?case
    using p2p_hdr_put [of pre "fst a" "of_nat (length (snd a))" "snd a @ post"] by (simp add: p2p_attr_def)
qed (simp add: p2p_attr_def)


lemma vendor_ie_head:
  assumes "length oui = 4"
  shows "is_vendor_ie oui 0 ([221, l] @ oui @ rest) = Some True"
  using rtw_memcmp_append [of "[221, l]" oui oui rest] assms by (simp add: is_vendor_ie_def numeral_2_eq_2)

lemma length_ouis [simp]: "length wps_oui = 4" "length p2p_oui = 4" "length wfd_oui = 4"
  by (simp_all add: wps_oui_def p2p_oui_def wfd_oui_def)

text \<open>
  C20: In a WPS element with a series of attributes \<^verbatim>\<open>rtw_get_wps_attr\<close> finds the first
  attribute with the identifier asked for, or reports that there is none. But behind attributes it
  passes over, one whose length field is \<^verbatim>\<open>0xfffc\<close> keeps it from returning.
\<close>

theorem rtw_get_wps_attr_series:
  assumes "\<forall>a \<in> set as. length (wps_attr a) < 65536" "n = 6 + length (concat (map wps_attr as))" "n < 2 ^ 32"
    "b = [221, l] @ wps_oui @ concat (map wps_attr as) @ post"
  shows "rtw_get_wps_attr b 0 (of_nat n) target None =
      Returns (case first_hit wps_attr (\<lambda>a. fst a = target) 6 as of
                 None \<Rightarrow> (None, None, 0)
               | Some (a, p) \<Rightarrow> (Some p, None, of_nat (length (wps_attr a)))) \<and>
    (\<forall>k rest ielen. (\<forall>a \<in> set as. fst a \<noteq> target) \<and> k \<noteq> target \<and> n < unat ielen \<and>
       post = put_be16 k @ put_be16 0xfffc @ rest \<longrightarrow> rtw_get_wps_attr b 0 ielen target None = Endless)"
proof (intro conjI allI impI)
  let ?as = "concat (map wps_attr as)"
  let ?pre = "[221, l] @ wps_oui"
  have v: "is_vendor_ie wps_oui 0 b = Some True"
    unfolding assms(4) by (rule vendor_ie_head) simp
  have b: "b = ?pre @ ?as @ post" and pre: "length ?pre = 6" by (simp_all add: assms(4))
  have un: "unat (of_nat n :: u32) = n" using assms(3) by (simp add: unsigned_of_nat take_bit_nat_eq_self)
  have g: "get_attr wps_hdr target b n 6 =
      (case first_hit wps_attr (\<lambda>a. fst a = target) 6 as of
         None \<Rightarrow> Returns None | Some (a, p) \<Rightarrow> Returns (Some (p, of_nat (length (wps_attr a)))))"
    using wps.search_series [of as target ?pre post, unfolded pre, OF assms(1)] unfolding b assms(2) by simp
  show "rtw_get_wps_attr b 0 (of_nat n) target None =
      Returns (case first_hit wps_attr (\<lambda>a. fst a = target) 6 as of
                 None \<Rightarrow> (None, None, 0)
               | Some (a, p) \<Rightarrow> (Some p, None, of_nat (length (wps_attr a))))"
  proof (cases "first_hit wps_attr (\<lambda>a. fst a = target) 6 as")
    case None
    then show ?thesis using g un by (simp add: rtw_get_wps_attr_def v take_attr_def)
  next
    case (Some ap)
    obtain a p where ap: "ap = (a, p)" by (cases ap)
    have "length (wps_attr a) < 65536"
      using first_hit_Some [OF Some [unfolded ap]] assms(1) by auto
    then show ?thesis using g un Some ap
      by (simp add: rtw_get_wps_attr_def v take_attr_def copy_out_def unsigned_of_nat take_bit_nat_eq_self)
  qed
next
  fix k rest and ielen :: u32
  assume a: "(\<forall>a \<in> set as. fst a \<noteq> target) \<and> k \<noteq> target \<and> n < unat ielen \<and>
    post = put_be16 k @ put_be16 0xfffc @ rest"
  let ?as = "concat (map wps_attr as)"
  let ?pre = "[221, l] @ wps_oui"
  have v: "is_vendor_ie wps_oui 0 b = Some True"
    unfolding assms(4) by (rule vendor_ie_head) simp
  have b: "b = ?pre @ ?as @ post" and b': "b = (?pre @ ?as) @ put_be16 k @ put_be16 0xfffc @ rest"
    and pre: "length ?pre = 6" and l: "length (?pre @ ?as) = n"
    using a by (simp_all add: assms(2,4))
  have "wps_hdr n b = Some (k, 0)"
    using wps_hdr_put [of "?pre @ ?as" k "0xfffc" rest] unfolding b' l by simp
  then have "attr_walk wps_hdr target b (unat ielen) n = None"
    using a by (intro wps.walk_endless) auto
  then have "get_attr wps_hdr target b (unat ielen) n = Endless" by (simp add: get_attr_def)
  moreover have "get_attr wps_hdr target b (unat ielen) 6 = get_attr wps_hdr target b (unat ielen) n"
    using wps.search_skip [of as target ?pre "unat ielen" post, unfolded pre] a assms(1)
    unfolding b assms(2) by auto
  ultimately show "rtw_get_wps_attr b 0 ielen target None = Endless"
    by (simp add: rtw_get_wps_attr_def v take_attr_def)
qed

theorem rtw_get_wps_attr_series_witness:
  "rtw_get_wps_attr ([221, 14] @ wps_oui @ [16, 74, 0, 1, 16] @ [16, 68, 0xff, 0xfc]) 0 11 0x104a None =
      Returns (Some 6, None, 5) \<and>
   rtw_get_wps_attr ([221, 14] @ wps_oui @ [16, 74, 0, 1, 16] @ [16, 68, 0xff, 0xfc]) 0 15 0x1012 None = Endless"
proof -
  let ?as = "[(0x104a, [16])] :: (u16 \<times> u8 list) list"
  let ?b = "[221, 14] @ wps_oui @ [16, 74, 0, 1, 16] @ [16, 68, 0xff, 0xfc]"
  have a: "\<forall>a \<in> set ?as. length (wps_attr a) < 65536" "(11 :: nat) = 6 + length (concat (map wps_attr ?as))"
    "(11 :: nat) < 2 ^ 32" "?b = [221, 14] @ wps_oui @ concat (map wps_attr ?as) @ [16, 68, 0xff, 0xfc]"
    by (simp_all add: wps_attr_def put_be16_def)
  have p: "[16, 68, 0xff, 0xfc] = put_be16 0x1044 @ put_be16 0xfffc @ []" by (simp add: put_be16_def)
  have "rtw_get_wps_attr ?b 0 (of_nat 11) 0x104a None = Returns (Some 6, None, of_nat (length (wps_attr (0x104a, [16]))))"
    using conjunct1 [OF rtw_get_wps_attr_series [OF a, of "0x104a"]] by simp
  moreover have "rtw_get_wps_attr ?b 0 15 0x1012 None = Endless"
    using conjunct2 [OF rtw_get_wps_attr_series [OF a, of "0x1012"]] p 
    by (elim allE [of _ "0x1044"] allE [of _ "[]"] allE [of _ 15] impE) simp_all
  ultimately show ?thesis by (simp add: wps_attr_def put_be16_def)
qed

section \<open>The merged P2P element\<close>

text \<open>The contents of the P2P elements of a series, without their OUIs.\<close>

abbreviation p2p_hit :: "u8 \<times> u8 list \<Rightarrow> bool" where
  "p2p_hit \<equiv> ex_hit VENDOR_SPECIFIC_IE (Some p2p_oui)"

definition p2p_contents :: "(u8 \<times> u8 list) list \<Rightarrow> u8 list" where
  "p2p_contents es = concat (map (\<lambda>e. drop 4 (snd e)) (filter p2p_hit es))"

lemma p2p_contents_simps [simp]:
  "p2p_contents [] = []"
  "p2p_contents (e # es) = (if p2p_hit e then drop 4 (snd e) else []) @ p2p_contents es"
  by (simp_all add: p2p_contents_def)

lemma p2p_hit_at:
  assumes "ex_valid VENDOR_SPECIFIC_IE (Some p2p_oui) e"
  shows "(if fst e = VENDOR_SPECIFIC_IE then rtw_memcmp (length pre + 2) p2p_oui (pre @ ie_bytes e @ post)
      else Some False) = Some (p2p_hit e)"
proof (cases "fst e = VENDOR_SPECIFIC_IE")
  case True
  then show ?thesis using oui_match_at [of e "Some p2p_oui" pre post] assms
    by (simp add: oui_match_def oui_size_def)
qed (simp add: ex_hit_def)

lemma p2p_hit_length: "p2p_hit e \<Longrightarrow> 4 \<le> length (snd e)"
proof -
  assume "p2p_hit e"
  then have "take 4 (snd e) = p2p_oui" by (simp add: ex_hit_def)
  then have "length (take 4 (snd e)) = 4" by simp
  then show ?thesis by simp
qed

lemma p2p_merged_loop_series:
  assumes "\<forall>e \<in> set es. ex_valid VENDOR_SPECIFIC_IE (Some p2p_oui) e"
  shows "p2p_merged_loop (pre @ ies_bytes es @ post) (length pre + length (ies_bytes es)) (length pre) len =
    Some (len + int (length (p2p_contents es)))"
  using assms
proof (induction es arbitrary: pre len)
  case Nil
  then show ?case by (simp add: p2p_merged_loop.simps)
next
  case (Cons e es)
  let ?b = "pre @ ie_bytes e @ ies_bytes es @ post"
  have v: "ex_valid VENDOR_SPECIFIC_IE (Some p2p_oui) e" using Cons.prems by simp
  have l: "unat (of_nat (length (snd e)) :: u8) = length (snd e)" "uint (of_nat (length (snd e)) :: u8) = int (length (snd e))"
    using v by (simp_all add: ex_valid_def ie_ok_length)
  have "p2p_merged_loop ?b (length pre + length (ies_bytes (e # es))) (length pre) len =
      p2p_merged_loop ?b (length pre + length (ies_bytes (e # es))) (length pre + (length (snd e) + 2))
        (if p2p_hit e then len + (int (length (snd e)) - 4) else len)"
    by (subst p2p_merged_loop.simps)
      (simp only: ie_byte_at p2p_hit_at [OF v] Option.bind.bind_lunit l, simp)
  then show ?case
    using Cons.IH [of "pre @ ie_bytes e"] Cons.prems p2p_hit_length [of e] by (simp add: add.assoc)
qed

lemma p2p_merge_loop_series:
  assumes "\<forall>e \<in> set es. ex_valid VENDOR_SPECIFIC_IE (Some p2p_oui) e" "m \<le> length dst"
  shows "p2p_merge_loop (pre @ ies_bytes es @ post) (length pre + length (ies_bytes es)) (length pre) m len dst =
    (if m + length (p2p_contents es) \<le> length dst
     then Some (len + of_nat (length (p2p_contents es)),
       take m dst @ p2p_contents es @ drop (m + length (p2p_contents es)) dst)
     else None)"
  using assms
proof (induction es arbitrary: pre m len dst)
  case Nil
  then show ?case by (simp add: p2p_merge_loop.simps)
next
  case (Cons e es)
  let ?b = "pre @ ie_bytes e @ ies_bytes es @ post"
  let ?e = "length pre + length (ies_bytes (e # es))"
  have v: "ex_valid VENDOR_SPECIFIC_IE (Some p2p_oui) e" using Cons.prems by simp
  have l: "unat (of_nat (length (snd e)) :: u8) = length (snd e)"
    using v by (simp add: ex_valid_def ie_ok_length)
  have step: "p2p_merge_loop ?b ?e (length pre) m len dst =
      Option.bind (if p2p_hit e then merge_one ?b (length pre) (of_nat (length (snd e))) m dst else Some (m, dst))
        (\<lambda>(m', dst'). p2p_merge_loop ?b ?e (length pre + (length (snd e) + 2)) m'
          (if p2p_hit e then len + (of_nat (length (snd e)) - 4) else len) dst')"
    by (subst p2p_merge_loop.simps)
      (simp only: ie_byte_at p2p_hit_at [OF v] Option.bind.bind_lunit l, simp)
  show ?case
  proof (cases "p2p_hit e")
    case False
    then show ?thesis using step Cons.IH [of m dst "pre @ ie_bytes e" len] Cons.prems by (simp add: add.assoc)
  next
    case True
    have d4: "4 \<le> length (snd e)" using p2p_hit_length [OF True] .
    have "read_at (length pre + 2 + 4) (length (snd e) - 4) ?b = Some (drop 4 (snd e))"
      using d4 by (simp add: ie_bytes_def)
    then have mo: "merge_one ?b (length pre) (of_nat (length (snd e))) m dst =
        Option.bind (write_at m (drop 4 (snd e)) dst) (\<lambda>d. Some (m + (length (snd e) - 4), d))"
      using d4 by (simp add: merge_one_def l)
    show ?thesis
    proof (cases "m + (length (snd e) - 4) \<le> length dst")
      case False
      then have "write_at m (drop 4 (snd e)) dst = None" by (simp add: write_at_NoneI)
      then show ?thesis using step True mo False by simp
    next
      case fits: True
      define dst' where "dst' = take m dst @ drop 4 (snd e) @ drop (m + (length (snd e) - 4)) dst"
      have w: "write_at m (drop 4 (snd e)) dst = Some dst'" using fits by (simp add: dst'_def)
      have ld: "length dst' = length dst" using fits Cons.prems(2) by (simp add: dst'_def)
      have "(of_nat (length (snd e)) - 4 :: u8) = of_nat (length (snd e) - 4)" using d4 by (simp add: of_nat_diff)
      moreover have "take (m + (length (snd e) - 4)) dst' = take m dst @ drop 4 (snd e)"
        "drop (m + (length (snd e) - 4) + n) dst' = drop (m + (length (snd e) - 4) + n) dst" for n
        using fits Cons.prems(2) by (simp_all add: dst'_def add.commute)
      ultimately show ?thesis
        using step True mo w ld fits Cons.prems
          Cons.IH [of "m + (length (snd e) - 4)" dst' "pre @ ie_bytes e" "len + of_nat (length (snd e) - 4)"]
        by (simp add: add.assoc)
    qed
  qed
qed

text \<open>
  C22: \<^verbatim>\<open>rtw_p2p_merge_ies\<close> writes the header of an element and the contents of the P2P elements
  of a series, one after the other, which takes two bytes more than
  \<^verbatim>\<open>rtw_get_p2p_merged_ies_len\<close> tells the caller to allocate: a buffer of that size is
  overrun.
\<close>

theorem rtw_p2p_merge_ies_size:
  assumes "\<forall>e \<in> set es. ex_valid VENDOR_SPECIFIC_IE (Some p2p_oui) e" "b = ies_bytes es @ post"
    "unat n = length (ies_bytes es)"
  shows "rtw_get_p2p_merged_ies_len b n = Some (of_nat (length (p2p_contents es) + 4)) \<and>
    (length buf = length (p2p_contents es) + 4 \<longrightarrow> rtw_p2p_merge_ies b n (Some buf) = None) \<and>
    (length buf = length (p2p_contents es) + 6 \<longrightarrow> rtw_p2p_merge_ies b n (Some buf) =
       Some (uint (of_nat (length (p2p_contents es)) :: u8) + 4, Some ([0xdd, 0x00] @ p2p_oui @ p2p_contents es)))"
proof (intro conjI impI)
  let ?c = "p2p_contents es"
  let ?h = "[0xdd, 0x00] @ p2p_oui"
  show "rtw_get_p2p_merged_ies_len b n = Some (of_nat (length ?c + 4))"
    using p2p_merged_loop_series [OF assms(1), of "[]" post 0]
    by (simp add: rtw_get_p2p_merged_ies_len_def assms(2,3))
  show "rtw_p2p_merge_ies b n (Some buf) = None" if l: "length buf = length ?c + 4"
  proof (cases "write_at 0 ?h buf")
    case None
    then show ?thesis by (simp add: rtw_p2p_merge_ies_def)
  next
    case (Some d)
    then have "length d = length ?c + 4" "6 \<le> length d"
      using l by (auto simp: write_at_def split: if_split_asm)
    then show ?thesis
      using Some p2p_merge_loop_series [OF assms(1), of 6 d "[]" post 0]
      by (simp add: rtw_p2p_merge_ies_def assms(2,3))
  qed
  show "rtw_p2p_merge_ies b n (Some buf) = Some (uint (of_nat (length ?c) :: u8) + 4, Some ([0xdd, 0x00] @ p2p_oui @ ?c))"
    if l: "length buf = length ?c + 6"
  proof -
    have w: "write_at 0 ?h buf = Some (?h @ drop 6 buf)" using l by (simp add: write_at_def)
    then show ?thesis
      using p2p_merge_loop_series [OF assms(1), of 6 "?h @ drop 6 buf" "[]" post 0] l
      by (simp add: rtw_p2p_merge_ies_def assms(2,3))
  qed
qed

theorem rtw_p2p_merge_ies_size_witness:
  "rtw_get_p2p_merged_ies_len ([221, 6] @ p2p_oui @ [1, 2, 0, 0]) 10 = Some 6 \<and>
   rtw_p2p_merge_ies ([221, 6] @ p2p_oui @ [1, 2, 0, 0]) 10 (Some (replicate 6 0)) = None"
proof -
  have e: "[221, 6] @ p2p_oui @ [1, 2, 0, 0] = ies_bytes [(221, p2p_oui @ [1, 2]), (0, [])] @ []"
    and v: "\<forall>e \<in> set [(221, p2p_oui @ [1, 2]), (0, [])]. ex_valid VENDOR_SPECIFIC_IE (Some p2p_oui) e"
    by (simp_all add: ie_bytes_def ex_valid_def ie_ok_def)
  have h: "p2p_hit (221, p2p_oui @ [1, 2])" "\<not> p2p_hit (0, [])" by (simp_all add: ex_hit_def)
  show ?thesis
    using rtw_p2p_merge_ies_size [OF v e, of 10 "replicate 6 0"] h by simp
qed

end
