(* ===== verification/Ie_Rates.thy ===== *)
theory Ie_Rates
  imports Ie_Parse
begin

text \<open>
  Rates and the elements an ad-hoc master announces (\<^verbatim>\<open>core/rtw_ieee80211.c\<close>):
  classification and construction of rate sets, \<^verbatim>\<open>rtw_generate_ie\<close>, and the smaller functions of
  the file: the configured MAC address, the length of a header, the rate of an MCS set and the
  fields of an action frame.
\<close>

section \<open>Rate sets\<close>

definition dot11_rate_table :: "u8 list" where
  "dot11_rate_table = [2, 4, 11, 22, 12, 18, 24, 36, 48, 72, 96, 108, 0]"

fun rate_bit :: "u8 list \<Rightarrow> nat \<Rightarrow> u8 \<Rightarrow> u32" where
  "rate_bit [] i val = 0"
| "rate_bit (r # rs) i val = (if r = 0 then 0 else if r = val then push_bit i 1 else rate_bit rs (Suc i) val)"

definition rtw_get_bit_value_from_ieee_value :: "u8 \<Rightarrow> u32" where
  "rtw_get_bit_value_from_ieee_value val = rate_bit dot11_rate_table 0 val"

definition cck_rate :: "u8 \<Rightarrow> bool" where
  "cck_rate r \<longleftrightarrow> r AND 0x7f = 2 \<or> r AND 0x7f = 4 \<or> r AND 0x7f = 11 \<or> r AND 0x7f = 22"

text \<open>A rate set ends at a zero; without one the search leaves the array.\<close>

fun rtw_is_cckrates_included :: "u8 list \<Rightarrow> bool option" where
  "rtw_is_cckrates_included [] = None"
| "rtw_is_cckrates_included (r # rs) =
     (if r = 0 then Some False else if cck_rate r then Some True else rtw_is_cckrates_included rs)"

fun rtw_is_cckratesonly_included :: "u8 list \<Rightarrow> bool option" where
  "rtw_is_cckratesonly_included [] = None"
| "rtw_is_cckratesonly_included (r # rs) =
     (if r = 0 then Some True else if \<not> cck_rate r then Some False else rtw_is_cckratesonly_included rs)"

abbreviation (input) "WIRELESS_INVALID \<equiv> 0 :: u8"
abbreviation (input) "WIRELESS_11B \<equiv> 1 :: u8"
abbreviation (input) "WIRELESS_11G \<equiv> 2 :: u8"
abbreviation (input) "WIRELESS_11A \<equiv> 4 :: u8"
abbreviation (input) "WIRELESS_11_24N \<equiv> 8 :: u8"
abbreviation (input) "WIRELESS_11_5N \<equiv> 16 :: u8"
abbreviation (input) "WIRELESS_11BG \<equiv> 3 :: u8"
abbreviation (input) "WIRELESS_11G_24N \<equiv> 10 :: u8"
abbreviation (input) "WIRELESS_11A_5N \<equiv> 20 :: u8"
abbreviation (input) "WIRELESS_11BG_24N \<equiv> 11 :: u8"
abbreviation (input) "WIRELESS_11ABGN \<equiv> 31 :: u8"

definition rtw_check_network_type :: "u8 list \<Rightarrow> int \<Rightarrow> u8 option" where
  "rtw_check_network_type rate channel =
     (if 14 < channel then do {
        cck \<leftarrow> rtw_is_cckrates_included rate;
        Some (if cck then WIRELESS_INVALID else WIRELESS_11A)
      }
      else do {
        only \<leftarrow> rtw_is_cckratesonly_included rate;
        if only then Some WIRELESS_11B
        else do {
          cck \<leftarrow> rtw_is_cckrates_included rate;
          Some (if cck then WIRELESS_11BG else WIRELESS_11G)
        }
      })"

definition WIFI_CCKRATES :: "u8 list" where "WIFI_CCKRATES = [0x82, 0x84, 0x8b, 0x96]"
definition WIFI_OFDMRATES :: "u8 list" where
  "WIFI_OFDMRATES = [0x0c, 0x12, 0x18, 0x24, 0x30, 0x48, 0x60, 0x6c]"

definition rtw_set_supported_rate :: "u8 list \<Rightarrow> u8 \<Rightarrow> u8 list option" where
  "rtw_set_supported_rate rates mode = do {
     r \<leftarrow> write_at 0 (replicate 16 0) rates;
     if mode = WIRELESS_11B then write_at 0 WIFI_CCKRATES r
     else if mode \<in> {WIRELESS_11G, WIRELESS_11A, WIRELESS_11_5N, WIRELESS_11A_5N} then write_at 0 WIFI_OFDMRATES r
     else if mode \<in> {WIRELESS_11BG, WIRELESS_11G_24N, WIRELESS_11_24N, WIRELESS_11BG_24N} then do {
       r \<leftarrow> write_at 0 WIFI_CCKRATES r;
       write_at 4 WIFI_OFDMRATES r
     }
     else Some r
   }"

function rateset_len_from :: "nat \<Rightarrow> u8 list \<Rightarrow> nat option" where
  "rateset_len_from i rateset = do {
     r \<leftarrow> byte_at i rateset;
     if r = 0 \<or> 12 < i then Some i else rateset_len_from (Suc i) rateset
   }"
  by pat_completeness auto

termination
  by (relation "measure (\<lambda>(i, rateset). 13 - i)") auto

declare rateset_len_from.simps [simp del]

definition rtw_get_rateset_len :: "u8 list \<Rightarrow> nat option" where
  "rtw_get_rateset_len rateset = rateset_len_from 0 rateset"

section \<open>The elements of an ad-hoc network\<close>

text \<open>The part of \<^verbatim>\<open>struct registry_priv\<close> and its \<^verbatim>\<open>dev_network\<close> the function uses.\<close>

record dev_network =
  net_Ssid :: "u8 list"
  net_SsidLength :: u32
  net_Privacy :: u32
  net_BeaconPeriod :: u32
  net_ATIMWindow :: u32
  net_DSConfig :: u32
  net_SupportedRates :: "u8 list"
  net_IEs :: "u8 list"

record registry_priv =
  reg_wireless_mode :: u8
  reg_preamble :: u8
  reg_network :: dev_network

definition generate_mode :: "registry_priv \<Rightarrow> u8" where
  "generate_mode rp =
     (if reg_wireless_mode rp = WIRELESS_11ABGN
      then if 14 < net_DSConfig (reg_network rp) then WIRELESS_11A_5N else WIRELESS_11BG_24N
      else reg_wireless_mode rp)"

definition generate_caps :: "registry_priv \<Rightarrow> u16" where
  "generate_caps rp = 0x0002 OR (if reg_preamble rp = 3 then 0x0020 else 0) OR
     (if net_Privacy (reg_network rp) \<noteq> 0 then 0x0010 else 0)"

text \<open>The result is the length and the state with the elements and the rates written.\<close>

definition rtw_generate_ie :: "registry_priv \<Rightarrow> (u32 \<times> registry_priv) option" where
  "rtw_generate_ie rp = do {
     let net = reg_network rp;
     b \<leftarrow> write_at 8 (put_le16 (ucast (net_BeaconPeriod net))) (net_IEs net);
     b \<leftarrow> write_at 10 (put_le16 (generate_caps rp)) b;
     (ie, sz, b) \<leftarrow> rtw_set_ie 12 0 (net_SsidLength net) (net_Ssid net) 12 b;
     rates \<leftarrow> rtw_set_supported_rate (net_SupportedRates net) (generate_mode rp);
     rateLen \<leftarrow> rtw_get_rateset_len rates;
     (ie, sz, b) \<leftarrow> rtw_set_ie ie 1 (if 8 < rateLen then 8 else of_nat rateLen) rates sz b;
     (ie, sz, b) \<leftarrow> rtw_set_ie ie 3 1 (le32_bytes (net_DSConfig net)) sz b;
     (ie, sz, b) \<leftarrow> rtw_set_ie ie 6 2 (le32_bytes (net_ATIMWindow net)) sz b;
     (ie, sz, b) \<leftarrow> (if 8 < rateLen then rtw_set_ie ie 50 (of_nat rateLen - 8) (drop 8 rates) sz b
                     else Some (ie, sz, b));
     Some (sz, rp\<lparr>reg_network := net\<lparr>net_SupportedRates := rates, net_IEs := b\<rparr>\<rparr>)
   }"

section \<open>The configured address\<close>

definition key_char2num :: "u8 \<Rightarrow> u8" where
  "key_char2num ch =
     (if 0x30 \<le> ch \<and> ch \<le> 0x39 then ch - 0x30
      else if 0x61 \<le> ch \<and> ch \<le> 0x66 then ch - 0x61 + 10
      else if 0x41 \<le> ch \<and> ch \<le> 0x46 then ch - 0x41 + 10
      else 0xff)"

definition str_2char2num :: "u8 \<Rightarrow> u8 \<Rightarrow> u8" where
  "str_2char2num hch lch = key_char2num hch * 10 + key_char2num lch"

definition key_2char2num :: "u8 \<Rightarrow> u8 \<Rightarrow> u8" where
  "key_2char2num hch lch = push_bit 4 (key_char2num hch) OR key_char2num lch"

definition convert_ip_addr :: "u8 \<Rightarrow> u8 \<Rightarrow> u8 \<Rightarrow> u8" where
  "convert_ip_addr hch mch lch = key_char2num hch * 100 + key_char2num mch * 10 + key_char2num lch"

text \<open>Six pairs of digits, three characters apart.\<close>

primrec parse_mac :: "nat \<Rightarrow> nat \<Rightarrow> u8 list \<Rightarrow> u8 list option" where
  "parse_mac 0 kk s = Some []"
| "parse_mac (Suc n) kk s = do {
     h \<leftarrow> byte_at kk s;
     l \<leftarrow> byte_at (kk + 1) s;
     m \<leftarrow> parse_mac n (kk + 3) s;
     Some (key_2char2num h l # m)
   }"

text \<open>
  \<open>rtw_initmac\<close> is the parameter of the module, \<open>mac_addr\<close> the address of the EFUSE; both may
  be null.
\<close>

definition rtw_macaddr_cfg :: "u8 list option \<Rightarrow> u8 list option \<Rightarrow> u8 list option option" where
  "rtw_macaddr_cfg rtw_initmac mac_addr =
     (case mac_addr of
        None \<Rightarrow> Some None
      | Some a \<Rightarrow> do {
          mac \<leftarrow> (case rtw_initmac of Some s \<Rightarrow> parse_mac 6 0 s | None \<Rightarrow> read_at 0 6 a);
          a \<leftarrow> (case rtw_initmac of Some s \<Rightarrow> write_at 0 mac a | None \<Rightarrow> Some a);
          if mac = replicate 6 0xff \<or> mac = replicate 6 0
          then do { a \<leftarrow> write_at 0 [0x00, 0xe0, 0x4c, 0x87, 0x00, 0x00] a; Some (Some a) }
          else Some (Some a)
        })"

section \<open>Small functions\<close>

primrec all_zero_below :: "nat \<Rightarrow> u8 list \<Rightarrow> bool option" where
  "all_zero_below 0 s = Some True"
| "all_zero_below (Suc n) s = do { c \<leftarrow> byte_at n s; if c \<noteq> 0 then Some False else all_zero_below n s }"

definition ieee80211_is_empty_essid :: "u8 list \<Rightarrow> nat \<Rightarrow> bool option" where
  "ieee80211_is_empty_essid essid essid_len = do {
     blank \<leftarrow> (if essid_len = 1 then do { c \<leftarrow> byte_at 0 essid; Some (c = 0x20) } else Some False);
     if blank then Some True else all_zero_below essid_len essid
   }"

definition ieee80211_get_hdrlen :: "u16 \<Rightarrow> nat" where
  "ieee80211_get_hdrlen fc =
     (if fc AND 0x000c = 0x0008 then
        24 + (if fc AND 0x0080 \<noteq> 0 then 2 else 0) +
        (if fc AND 0x0200 \<noteq> 0 \<and> fc AND 0x0100 \<noteq> 0 then 6 else 0)
      else if fc AND 0x000c = 0x0004 then
        (if fc AND 0x00f0 = 0x00c0 \<or> fc AND 0x00f0 = 0x00d0 then 10 else 16)
      else 24)"

text \<open>The rates of one and of two streams by MCS: 40 MHz with and without short GI, then 20 MHz.\<close>

definition mcs_rates_1ss :: "(nat \<times> u16 \<times> u16 \<times> u16 \<times> u16) list" where
  "mcs_rates_1ss = [
     (7, 1500, 1350, 722, 650),
     (6, 1350, 1215, 650, 585),
     (5, 1200, 1080, 578, 520),
     (4, 900, 810, 433, 390),
     (3, 600, 540, 289, 260),
     (2, 450, 405, 217, 195),
     (1, 300, 270, 144, 130),
     (0, 150, 135, 72, 65)]"

definition mcs_rates_2ss :: "(nat \<times> u16 \<times> u16 \<times> u16 \<times> u16) list" where
  "mcs_rates_2ss = [
     (7, 3000, 2700, 1444, 1300),
     (6, 2700, 2430, 1300, 1170),
     (5, 2400, 2160, 1156, 1040),
     (4, 1800, 1620, 867, 780),
     (3, 1200, 1080, 578, 520),
     (2, 900, 810, 433, 390),
     (1, 600, 540, 289, 260),
     (0, 300, 270, 144, 130)]"

fun max_mcs :: "(nat \<times> u16 \<times> u16 \<times> u16 \<times> u16) list \<Rightarrow> u8 \<Rightarrow> bool \<Rightarrow> bool \<Rightarrow> bool \<Rightarrow> u16" where
  "max_mcs [] mcs bw_40MHz short_GI_20 short_GI_40 = 0"
| "max_mcs ((i, s40, l40, s20, l20) # ts) mcs bw_40MHz short_GI_20 short_GI_40 =
     (if bit mcs i
      then if bw_40MHz then if short_GI_40 then s40 else l40 else if short_GI_20 then s20 else l20
      else max_mcs ts mcs bw_40MHz short_GI_20 short_GI_40)"

definition rtw_mcs_rate :: "u8 \<Rightarrow> bool \<Rightarrow> bool \<Rightarrow> bool \<Rightarrow> u8 list \<Rightarrow> u16 option" where
  "rtw_mcs_rate rf_type bw_40MHz short_GI_20 short_GI_40 MCS_rate =
     (if rf_type = 3 then do {
        m0 \<leftarrow> byte_at 0 MCS_rate;
        Some (max_mcs mcs_rates_1ss m0 bw_40MHz short_GI_20 short_GI_40)
      }
      else do {
        m1 \<leftarrow> byte_at 1 MCS_rate;
        if m1 \<noteq> 0 then Some (max_mcs mcs_rates_2ss m1 bw_40MHz short_GI_20 short_GI_40)
        else do {
          m0 \<leftarrow> byte_at 0 MCS_rate;
          Some (max_mcs mcs_rates_1ss m0 bw_40MHz short_GI_20 short_GI_40)
        }
      })"

text \<open>
  The result is the match, \<^verbatim>\<open>*category\<close> and \<^verbatim>\<open>*action\<close>. For a P2P action frame the
  code stores an uninitialised variable, \<open>garbage\<close>, as action.
\<close>

definition rtw_action_frame_parse :: "u8 \<Rightarrow> u8 list \<Rightarrow> u8 \<Rightarrow> u8 \<Rightarrow> (bool \<times> u8 \<times> u8) option" where
  "rtw_action_frame_parse garbage frame category action = do {
     fc \<leftarrow> get_le16 0 frame;
     if fc AND 0x00fc \<noteq> 0x00d0 then Some (False, category, action)
     else do {
       c \<leftarrow> byte_at 24 frame;
       a \<leftarrow> (if c = 0x7f then Some garbage else byte_at 25 frame);
       Some (True, c, a)
     }
   }"

section \<open>Properties\<close>

definition mode_rates :: "u8 \<Rightarrow> u8 list" where
  "mode_rates mode =
     (if mode = WIRELESS_11B then WIFI_CCKRATES
      else if mode \<in> {WIRELESS_11G, WIRELESS_11A, WIRELESS_11_5N, WIRELESS_11A_5N} then WIFI_OFDMRATES
      else if mode \<in> {WIRELESS_11BG, WIRELESS_11G_24N, WIRELESS_11_24N, WIRELESS_11BG_24N}
      then WIFI_CCKRATES @ WIFI_OFDMRATES else [])"

lemma mode_rates_cases:
  "mode_rates mode \<in> {WIFI_CCKRATES, WIFI_OFDMRATES, WIFI_CCKRATES @ WIFI_OFDMRATES, []}"
  by (simp add: mode_rates_def)

lemma rtw_set_supported_rate_mode:
  assumes "length rates = 16"
  shows "rtw_set_supported_rate rates mode = Some (mode_rates mode @ replicate (16 - length (mode_rates mode)) 0)"
proof -
  have "write_at 0 (replicate 16 0) rates = Some (replicate 16 (0 :: u8))" using assms by (simp add: write_at_def)
  moreover have "write_at 0 WIFI_CCKRATES (replicate 16 0) = Some (WIFI_CCKRATES @ replicate 12 0)"
    "write_at 0 WIFI_OFDMRATES (replicate 16 0) = Some (WIFI_OFDMRATES @ replicate 8 0)"
    "write_at 4 WIFI_OFDMRATES (WIFI_CCKRATES @ replicate 12 0) = Some (WIFI_CCKRATES @ WIFI_OFDMRATES @ replicate 4 0)"
    by (simp_all add: write_at_def WIFI_CCKRATES_def WIFI_OFDMRATES_def)
  ultimately show ?thesis
    by (simp add: rtw_set_supported_rate_def mode_rates_def) (simp add: WIFI_CCKRATES_def WIFI_OFDMRATES_def)
qed

text \<open>The length of a rate set is that of its prefix without zeros, up to 13.\<close>

lemma rateset_len_from_prefix:
  assumes "\<forall>r \<in> set rs. r \<noteq> 0" "length pre + length rs \<le> 13"
  shows "rateset_len_from (length pre) (pre @ rs @ 0 # post) = Some (length pre + length rs)"
  using assms
proof (induction rs arbitrary: pre)
  case Nil
  then show ?case by (subst rateset_len_from.simps) (simp add: byte_at_def nth_append)
next
  case (Cons r rs)
  then show ?case using Cons.IH [of "pre @ [r]"]
    by (subst rateset_len_from.simps) (simp add: byte_at_def nth_append)
qed

lemma rtw_get_rateset_len_mode:
  "rtw_get_rateset_len (mode_rates mode @ replicate (16 - length (mode_rates mode)) 0) = Some (length (mode_rates mode))"
proof -
  have nz: "\<forall>r \<in> set (mode_rates mode). r \<noteq> 0" and l: "length (mode_rates mode) \<le> 12"
    using mode_rates_cases [of mode] by (auto simp: WIFI_CCKRATES_def WIFI_OFDMRATES_def)
  obtain k where "16 - length (mode_rates mode) = Suc k" using l by (cases "16 - length (mode_rates mode)") simp_all
  then show ?thesis
    using rateset_len_from_prefix [OF nz, of "[]" "replicate k 0"] l by (simp add: rtw_get_rateset_len_def)
qed


text \<open>The data a field of the parsed elements points at.\<close>

definition field_data :: "u8 list \<Rightarrow> (nat \<times> u8) option \<Rightarrow> u8 list option" where
  "field_data b f = (case f of None \<Rightarrow> None | Some (p, n) \<Rightarrow> read_at p (unat n) b)"

lemma field_data_last:
  assumes "ie_ok e" "\<forall>g \<in> set gs. fst g \<noteq> i" "fst e = i" "b = pre @ ies_bytes (fs @ e # gs) @ post"
  shows "field_data b (last_elem i (length pre) (fs @ e # gs) acc) = Some (snd e)"
proof -
  have "b = (pre @ ies_bytes fs @ [fst e, of_nat (length (snd e))]) @ snd e @ ies_bytes gs @ post"
    by (simp add: assms(4) ie_bytes_def)
  then have "read_at (length pre + length (ies_bytes fs) + 2) (length (snd e)) b = Some (snd e)"
    using read_at_append3 [of "length pre + length (ies_bytes fs) + 2"
        "pre @ ies_bytes fs @ [fst e, of_nat (length (snd e))]" "length (snd e)" "snd e"] by simp
  then show ?thesis
    using last_elem_split [OF assms(2,3)] by (simp add: field_data_def ie_ok_length [OF assms(1)])
qed

text \<open>The elements \<^verbatim>\<open>rtw_generate_ie\<close> writes behind the fixed fields.\<close>

definition generated_ies :: "registry_priv \<Rightarrow> (u8 \<times> u8 list) list" where
  "generated_ies rp =
     (let net = reg_network rp; rates = mode_rates (generate_mode rp) in
      [(0, take (unat (net_SsidLength net)) (net_Ssid net)), (1, take 8 rates),
       (3, [ucast (net_DSConfig net)]), (6, take 2 (le32_bytes (net_ATIMWindow net)))] @
      (if 8 < length rates then [(50, drop 8 rates)] else []))"

lemma set_ie_step:
  assumes "length d < 256" "read_at 0 (length d) source = Some d" "length d + 2 \<le> length rest"
    "len = of_nat (length d)" "p = length pre" "eid = word_of_int index" "sz = of_nat (length pre)"
    "pre' = pre @ ie_bytes (eid, d)"
  shows "rtw_set_ie p index len source sz (pre @ rest) =
    Some (length pre', of_nat (length pre'), pre' @ drop (length d + 2) rest)"
  using rtw_set_ie_writes [OF assms(1-3), of pre index sz] by (simp add: assms(4-8))

lemma rtw_generate_ie_writes:
  assumes "length (net_IEs net) = 768" "length (net_Ssid net) = 32" "net_SsidLength net \<le> 32"
    "length (net_SupportedRates net) = 16" "net = reg_network rp"
  shows "\<exists>pre post rates. length pre = 12 \<and>
    rtw_generate_ie rp = Some (of_nat (12 + length (ies_bytes (generated_ies rp))),
      rp\<lparr>reg_network := net\<lparr>net_SupportedRates := rates, net_IEs := pre @ ies_bytes (generated_ies rp) @ post\<rparr>\<rparr>)"
proof -
  define m where "m = mode_rates (generate_mode rp)"
  define rates where "rates = m @ replicate (16 - length m) 0"
  define d where "d = take (unat (net_SsidLength net)) (net_Ssid net)"
  define t where "t = take 2 (le32_bytes (net_ATIMWindow net))"
  have ml: "length m \<le> 12" using mode_rates_cases [of "generate_mode rp"]
    by (auto simp: m_def WIFI_CCKRATES_def WIFI_OFDMRATES_def)
  have n32: "unat (net_SsidLength net) \<le> 32" using assms(3) by (simp add: word_le_nat_alt)
  then have dl: "length d = unat (net_SsidLength net)" "length d \<le> 32" using assms(2) by (simp_all add: d_def)
  have dn: "net_SsidLength net = of_nat (length d)" by (simp add: dl)
  have tl: "length t = 2" by (simp add: t_def)
  obtain b1 where w1: "write_at 8 (put_le16 (ucast (net_BeaconPeriod net))) (net_IEs net) = Some b1"
    and l1: "length b1 = 768"
    using assms(1) by (simp add: write_at_def)
  obtain b2 where w2: "write_at 10 (put_le16 (generate_caps rp)) b1 = Some b2" and l2: "length b2 = 768"
    using l1 by (simp add: write_at_def)
  define pre where "pre = take 12 b2"
  define r2 where "r2 = drop 12 b2"
  have b2: "b2 = pre @ r2" and lp: "length pre = 12" and lr: "length r2 = 756"
    using l2 by (simp_all add: pre_def r2_def)
  define p3 where "p3 = pre @ ie_bytes (0, d)"
  define r3 where "r3 = drop (length d + 2) r2"
  have s3: "rtw_set_ie 12 0 (net_SsidLength net) (net_Ssid net) 12 b2 =
      Some (length p3, of_nat (length p3), p3 @ r3)"
    unfolding b2 r3_def
    by (rule set_ie_step) (use dl n32 assms(2) lr in \<open>simp_all add: lp p3_def read_at_def d_def\<close>)
  define p4 where "p4 = p3 @ ie_bytes (1, take 8 m)"
  define r4 where "r4 = drop (length (take 8 m) + 2) r3"
  have lr3: "length r3 = 754 - length d" using lr by (simp add: r3_def)
  have s4: "rtw_set_ie (length p3) 1 (if 8 < length m then 8 else of_nat (length m)) rates (of_nat (length p3)) (p3 @ r3) =
      Some (length p4, of_nat (length p4), p4 @ r4)"
    unfolding r4_def
    by (rule set_ie_step) (use dl lr3 in \<open>auto simp: p4_def read_at_def rates_def min_def\<close>)
  define p5 where "p5 = p4 @ ie_bytes (3, [ucast (net_DSConfig net)])"
  define r5 where "r5 = drop 3 r4"
  have lr4: "700 \<le> length r4" using lr3 dl(2) by (simp add: r4_def)
  have s5: "rtw_set_ie (length p4) 3 1 (le32_bytes (net_DSConfig net)) (of_nat (length p4)) (p4 @ r4) =
      Some (length p5, of_nat (length p5), p5 @ r5)"
    using set_ie_step [of "[ucast (net_DSConfig net)]" "le32_bytes (net_DSConfig net)" r4 1 "length p4" p4 3 3
        "of_nat (length p4)" p5] lr4
    by (simp add: p5_def r5_def read_at_def le32_bytes_def numeral_3_eq_3)
  define p6 where "p6 = p5 @ ie_bytes (6, t)"
  define r6 where "r6 = drop 4 r5"
  have lr5: "690 \<le> length r5" using lr4 by (simp add: r5_def)
  have s6: "rtw_set_ie (length p5) 6 2 (le32_bytes (net_ATIMWindow net)) (of_nat (length p5)) (p5 @ r5) =
      Some (length p6, of_nat (length p6), p6 @ r6)"
    using set_ie_step [of t "le32_bytes (net_ATIMWindow net)" r5 2 "length p5" p5 6 6 "of_nat (length p5)" p6] lr5
    by (simp add: p6_def r6_def read_at_def tl t_def)
  define x where "x = (if 8 < length m then ie_bytes (50, drop 8 m) else [])"
  define r7 where "r7 = drop (length x) r6"
  have lr6: "600 \<le> length r6" using lr5 by (simp add: r6_def)
  have s7: "(if 8 < length m then rtw_set_ie (length p6) 50 (of_nat (length m) - 8) (drop 8 rates) (of_nat (length p6)) (p6 @ r6)
      else Some (length p6, of_nat (length p6), p6 @ r6)) =
      Some (length (p6 @ x), of_nat (length (p6 @ x)), (p6 @ x) @ r7)"
  proof (cases "8 < length m")
    case True
    then show ?thesis
      using set_ie_step [of "drop 8 m" "drop 8 rates" r6 "of_nat (length m) - 8" "length p6" p6 50 50 "of_nat (length p6)" "p6 @ x"]
        ml lr6
      by (simp add: x_def r7_def rates_def read_at_def of_nat_diff)
  qed (simp add: x_def r7_def)
  have fin: "p6 @ x = pre @ ies_bytes (generated_ies rp)"
    by (simp add: p6_def p5_def p4_def p3_def x_def generated_ies_def assms(5) [symmetric] m_def [symmetric] d_def t_def)
  have r: "rtw_set_supported_rate (net_SupportedRates net) (generate_mode rp) = Some rates"
    using rtw_set_supported_rate_mode [OF assms(4)] by (simp add: rates_def m_def)
  have rl: "rtw_get_rateset_len rates = Some (length m)"
    using rtw_get_rateset_len_mode [of "generate_mode rp"] by (simp add: rates_def m_def)
  have "rtw_generate_ie rp = Some (of_nat (length (p6 @ x)),
      rp\<lparr>reg_network := net\<lparr>net_SupportedRates := rates, net_IEs := (p6 @ x) @ r7\<rparr>\<rparr>)"
    unfolding rtw_generate_ie_def Let_def assms(5) [symmetric]
    by (simp only: w1 w2 s3 s4 s5 s6 s7 r rl Option.bind.bind_lunit prod.case)
  then show ?thesis unfolding fin using lp by auto
qed


lemma generated_ok: 
  assumes "length (net_Ssid (reg_network rp)) = 32"
  shows "\<forall>e \<in> set (generated_ies rp). ie_ok e" "length (ies_bytes (generated_ies rp)) \<le> 80"
proof -
  have m: "length (mode_rates (generate_mode rp)) \<le> 12" using mode_rates_cases [of "generate_mode rp"]
    by (auto simp: WIFI_CCKRATES_def WIFI_OFDMRATES_def)
  have d: "length (take (unat (net_SsidLength (reg_network rp))) (net_Ssid (reg_network rp))) \<le> 32" using assms by simp
  show "\<forall>e \<in> set (generated_ies rp). ie_ok e"
    using m d by (auto simp: generated_ies_def Let_def ie_ok_def simp del: length_take) simp_all
  show "length (ies_bytes (generated_ies rp)) \<le> 80"
    using m d by (simp add: generated_ies_def Let_def del: length_take) simp
qed

text \<open>
  C21: What \<^verbatim>\<open>rtw_generate_ie\<close> announces for an ad-hoc network is a series of elements, which
  \<^verbatim>\<open>rtw_ieee802_11_parse_elems\<close> reads back: the network name, the rates of the mode (those
  beyond eight in the extended element), the channel and the ATIM window.
\<close>

theorem rtw_generate_ie_parses:
  assumes "length (net_IEs net) = 768" "length (net_Ssid net) = 32" "net_SsidLength net \<le> 32"
    "length (net_SupportedRates net) = 16" "net = reg_network rp" "rates = mode_rates (generate_mode rp)"
  shows "\<exists>sz rp' r el b. rtw_generate_ie rp = Some (sz, rp') \<and> b = net_IEs (reg_network rp') \<and>
    rtw_ieee802_11_parse_elems b 12 (sz - 12) = Some (r, el) \<and> r \<noteq> ParseFailed \<and>
    field_data b (ssid el) = Some (take (unat (net_SsidLength net)) (net_Ssid net)) \<and>
    field_data b (supp_rates el) = Some (take 8 rates) \<and>
    field_data b (ds_params el) = Some [ucast (net_DSConfig net)] \<and>
    field_data b (ibss_params el) = Some (take 2 (le32_bytes (net_ATIMWindow net))) \<and>
    field_data b (ext_supp_rates el) = (if 8 < length rates then Some (drop 8 rates) else None)"
proof -
  let ?es = "generated_ies rp"
  have s32: "length (net_Ssid (reg_network rp)) = 32" using assms(2,5) by simp
  note ok = generated_ok(1) [OF s32]
  have lt: "length (ies_bytes ?es) \<le> 80" using generated_ok(2) [OF s32] .
  obtain pre post rates' where lp: "length pre = 12" and
    g: "rtw_generate_ie rp = Some (of_nat (12 + length (ies_bytes ?es)),
      rp\<lparr>reg_network := net\<lparr>net_SupportedRates := rates', net_IEs := pre @ ies_bytes ?es @ post\<rparr>\<rparr>)"
    using rtw_generate_ie_writes [OF assms(1-5)] by blast
  define b where "b = pre @ ies_bytes ?es @ post"
  have u: "unat (of_nat (12 + length (ies_bytes ?es)) - 12 :: u32) = length (ies_bytes ?es)"
    using lt by (simp add: unsigned_of_nat take_bit_nat_eq_self)
  have ser: "is_series b 12 (length (ies_bytes ?es)) ?es"
    using ok lp by (simp add: is_series_def b_def read_at_def)
  have "12 + unat (of_nat (12 + length (ies_bytes ?es)) - 12 :: u32) \<le> length b"
    unfolding u by (simp add: b_def lp)
  from parse_elems_total [OF this, unfolded u] obtain r el where
    p: "rtw_ieee802_11_parse_elems b 12 (of_nat (12 + length (ies_bytes ?es)) - 12) = Some (r, el)"
    and rf: "r \<noteq> ParseFailed" and f: "\<forall>(i, g) \<in> set elem_fields. g el = last_elem i 12 ?es None"
    using ser by blast
  have fs: "ssid el = last_elem 0 12 ?es None" "supp_rates el = last_elem 1 12 ?es None"
    "ds_params el = last_elem 3 12 ?es None" "ibss_params el = last_elem 6 12 ?es None"
    "ext_supp_rates el = last_elem 50 12 ?es None"
    using f by (simp_all add: elem_fields_def)
  have fd: "field_data b (last_elem i 12 ?es None) = Some (snd e)"
    if "?es = xs @ e # ys" "\<forall>y \<in> set ys. fst y \<noteq> i" "fst e = i" for i xs e ys
    using field_data_last [of e ys i b pre xs post None] that ok lp by (simp add: b_def)
  define x where "x = (if 8 < length rates then [(50 :: u8, drop 8 rates)] else [])"
  have fx: "\<forall>y \<in> set x. fst y = 50" by (simp add: x_def)
  define es where "es = [(0 :: u8, take (unat (net_SsidLength net)) (net_Ssid net)), (1, take 8 rates),
      (3, [ucast (net_DSConfig net)]), (6, take 2 (le32_bytes (net_ATIMWindow net)))]"
  have es: "?es = es @ x"
    by (simp add: generated_ies_def Let_def assms(5,6) es_def x_def)
  have "field_data b (ssid el) = Some (take (unat (net_SsidLength net)) (net_Ssid net))"
    unfolding fs using fd [of "[]" "es ! 0" "drop 1 es @ x" 0] fx by (auto simp: es es_def)
  moreover have "field_data b (supp_rates el) = Some (take 8 rates)"
    unfolding fs using fd [of "take 1 es" "es ! 1" "drop 2 es @ x" 1] fx by (auto simp: es es_def)
  moreover have "field_data b (ds_params el) = Some [ucast (net_DSConfig net)]"
    unfolding fs using fd [of "take 2 es" "es ! 2" "drop 3 es @ x" 3] fx by (auto simp: es es_def)
  moreover have "field_data b (ibss_params el) = Some (take 2 (le32_bytes (net_ATIMWindow net)))"
    unfolding fs using fd [of "take 3 es" "es ! 3" "drop 4 es @ x" 6] fx by (auto simp: es es_def)
  moreover have "field_data b (ext_supp_rates el) = (if 8 < length rates then Some (drop 8 rates) else None)"
  proof (cases "8 < length rates")
    case True
    then show ?thesis
      unfolding fs using fd [of es "(50, drop 8 rates)" "[]" 50] by (simp add: es x_def)
  next
    case False
    then show ?thesis
      unfolding fs by (simp add: es x_def es_def field_data_def)
  qed
  ultimately show ?thesis
    using g p rf by (intro exI conjI) (auto simp: b_def)
qed

definition sample_registry :: registry_priv where
  "sample_registry = \<lparr>reg_wireless_mode = 31, reg_preamble = 3, reg_network =
     \<lparr>net_Ssid = [122, 121, 98, 111] @ replicate 28 0, net_SsidLength = 4, net_Privacy = 1, net_BeaconPeriod = 100,
      net_ATIMWindow = 0, net_DSConfig = 6, net_SupportedRates = replicate 16 7, net_IEs = replicate 768 0\<rparr>\<rparr>"

theorem rtw_generate_ie_parses_witness:
  "\<exists>sz rp' r el b. rtw_generate_ie sample_registry = Some (sz, rp') \<and> b = net_IEs (reg_network rp') \<and>
    rtw_ieee802_11_parse_elems b 12 (sz - 12) = Some (r, el) \<and> r \<noteq> ParseFailed \<and>
    field_data b (ssid el) = Some [122, 121, 98, 111] \<and>
    field_data b (supp_rates el) = Some [0x82, 0x84, 0x8b, 0x96, 0x0c, 0x12, 0x18, 0x24] \<and>
    field_data b (ds_params el) = Some [6] \<and>
    field_data b (ibss_params el) = Some [0, 0] \<and>
    field_data b (ext_supp_rates el) = Some [0x30, 0x48, 0x60, 0x6c]"
proof -
  let ?net = "reg_network sample_registry"
  have m: "mode_rates (generate_mode sample_registry) = WIFI_CCKRATES @ WIFI_OFDMRATES"
    by (simp add: sample_registry_def generate_mode_def mode_rates_def)
  have c: "length (net_IEs ?net) = 768" "length (net_Ssid ?net) = 32" "net_SsidLength ?net \<le> 32"
    "length (net_SupportedRates ?net) = 16"
    by (simp_all add: sample_registry_def)
  show ?thesis
    using rtw_generate_ie_parses [OF c refl m [symmetric]]
    by (simp add: sample_registry_def WIFI_CCKRATES_def WIFI_OFDMRATES_def le32_bytes_def)
qed

end
