(* ===== verification/Scan_Table.thy ===== *)
theory Scan_Table
  imports Sta_Table Ie_Vendor "HOL-Library.Signed_Division"
begin

text \<open>
  The table of scanned networks of \<^verbatim>\<open>core/rtw_mlme.c\<close>: an array of \<^verbatim>\<open>MAX_BSS_CNT\<close> networks, each
  on \<^verbatim>\<open>free_bss_pool\<close> or on \<^verbatim>\<open>scanned_queue\<close>; how a received beacon or probe response enters
  it, how its signal values are smoothed, how networks expire and which one is overwritten when
  the pool is empty. Networks are named by their index in \<^verbatim>\<open>free_bss_buf\<close>.

  \<open>None\<close> stands for an access outside a buffer or through a null pointer. A length of elements
  above the size of the array is such an access, also where the size of the structure would wrap.
  The timers of \<^verbatim>\<open>rtw_set_scan_deny\<close> are compiled out in this configuration.
\<close>

section \<open>State\<close>

definition MAX_BSS_CNT :: nat where "MAX_BSS_CNT = 128"

abbreviation (input) "WIFI_STATION_STATE \<equiv> 0x08 :: u32"
abbreviation (input) "WIFI_AP_STATE \<equiv> 0x10 :: u32"
abbreviation (input) "WIFI_ADHOC_STATE \<equiv> 0x20 :: u32"
abbreviation (input) "WIFI_ADHOC_MASTER_STATE \<equiv> 0x40 :: u32"
abbreviation (input) "FW_UNDER_LINKING \<equiv> 0x80 :: u32"
abbreviation (input) "WIFI_UNDER_WPS \<equiv> 0x100 :: u32"

text \<open>
  \<open>Rssi\<close> is a \<^verbatim>\<open>long\<close> in dBm; its values are so small that sums of it do not overflow.
  \<open>Reserved\<close> are two bytes, the first set to 1 for a beacon.
\<close>

record WLAN_BSSID_EX =
  Length :: u32
  MacAddress :: mac
  Reserved :: "u8 list"
  SsidLength :: u32
  Ssid :: "u8 list"
  Privacy :: u32
  Rssi :: int
  NetworkTypeInUse :: nat
  ConfigLength :: u32
  BeaconPeriod :: u32
  ATIMWindow :: u32
  DSConfig :: u32
  FHConfig :: "u32 list"
  InfrastructureMode :: nat
  SupportedRates :: "u8 list"
  SignalStrength :: u8
  SignalQuality :: u8
  Optimum_antenna :: u8
  PhyReserved_0 :: u8
  IELength :: u32
  IEs :: "u8 list"

record wlan_network =
  network_type :: int
  fixed :: bool
  last_scanned :: u32
  net_aid :: int
  join_res :: int
  network :: WLAN_BSSID_EX

record mlme_priv =
  fw_state :: u32
  bss_buf :: "wlan_network list"
  free_bss_pool :: "nat list"
  scanned_queue :: "nat list"
  num_of_scanned :: u32
  cur_network :: wlan_network
  assoc_ssid_len :: u32
  assoc_ssid :: "u8 list"
  assoc_bssid :: mac
  assoc_by_bssid :: bool
  to_roaming :: u8

text \<open>
  The other parts of the adapter that the table's operations read or write. \<open>AntDivCfg\<close>,
  \<open>is_92C_serial\<close> and \<open>CurAntenna\<close> are of the hardware data, \<open>vcs_setting\<close>, \<open>vcs_type\<close> and \<open>vcs\<close>
  the protection of \<^verbatim>\<open>xmit_priv\<close>; \<open>p2p_none\<close> is \<^verbatim>\<open>P2P_STATE_NONE\<close>.
\<close>

record mlme_adapter =
  mlmepriv :: mlme_priv
  sta_adapter :: adapter
  signal_strength :: u8
  signal_qual :: u8
  AntDivCfg :: u8
  is_92C_serial :: bool
  CurAntenna :: u8
  ndisencryptstatus :: nat
  ndisauthtype :: nat
  key_mask :: u8
  wifi_spec :: u8
  vcs_setting :: u8
  vcs_type :: u8
  vcs :: u8
  p2p_none :: bool

definition mlme_check_fwstate :: "mlme_priv \<Rightarrow> u32 \<Rightarrow> bool" where
  "mlme_check_fwstate m st \<longleftrightarrow> fw_state m AND st \<noteq> 0"

definition set_network :: "nat \<Rightarrow> (wlan_network \<Rightarrow> wlan_network) \<Rightarrow> mlme_priv \<Rightarrow> mlme_priv" where
  "set_network i f m = m\<lparr>bss_buf := (bss_buf m)[i := f (bss_buf m ! i)]\<rparr>"

section \<open>Networks\<close>

definition BSSID_EX_SZ :: nat where "BSSID_EX_SZ = 888"

definition get_WLAN_BSSID_EX_sz :: "WLAN_BSSID_EX \<Rightarrow> u32" where
  "get_WLAN_BSSID_EX_sz bss = of_nat (BSSID_EX_SZ - MAX_IE_SZ) + IELength bss"

text \<open>The copy of as many bytes: all fields, and of the elements those that are in use.\<close>

definition copy_bss :: "WLAN_BSSID_EX \<Rightarrow> WLAN_BSSID_EX \<Rightarrow> WLAN_BSSID_EX option" where
  "copy_bss dst src =
     (if MAX_IE_SZ < unat (IELength src) then None
      else Some (src\<lparr>IEs := take (unat (IELength src)) (IEs src) @ drop (unat (IELength src)) (IEs dst)\<rparr>))"

definition rtw_get_capability :: "WLAN_BSSID_EX \<Rightarrow> u16 option" where
  "rtw_get_capability bss = get_le16 (8 + 2) (IEs bss)"

definition WLAN_CAPABILITY_BSS :: u16 where "WLAN_CAPABILITY_BSS = 1"
definition WLAN_CAPABILITY_IBSS :: u16 where "WLAN_CAPABILITY_IBSS = 2"

definition ssid_eq :: "u8 list \<Rightarrow> u8 list \<Rightarrow> u32 \<Rightarrow> bool option" where
  "ssid_eq a b n = do {
     x \<leftarrow> read_at 0 (unat n) a;
     y \<leftarrow> read_at 0 (unat n) b;
     Some (x = y)
   }"

definition is_same_ess :: "WLAN_BSSID_EX \<Rightarrow> WLAN_BSSID_EX \<Rightarrow> bool option" where
  "is_same_ess a b =
     (if SsidLength a = SsidLength b then ssid_eq (Ssid a) (Ssid b) (SsidLength a) else Some False)"

definition is_same_network :: "WLAN_BSSID_EX \<Rightarrow> WLAN_BSSID_EX \<Rightarrow> bool option" where
  "is_same_network src dst = do {
     s_cap \<leftarrow> rtw_get_capability src;
     d_cap \<leftarrow> rtw_get_capability dst;
     if SsidLength src = SsidLength dst \<and> MacAddress src = MacAddress dst then do {
       eq \<leftarrow> ssid_eq (Ssid src) (Ssid dst) (SsidLength src);
       Some (eq \<and>
         s_cap AND WLAN_CAPABILITY_IBSS = d_cap AND WLAN_CAPABILITY_IBSS \<and>
         s_cap AND WLAN_CAPABILITY_BSS = d_cap AND WLAN_CAPABILITY_BSS)
     }
     else Some False
   }"

definition time_after :: "u32 \<Rightarrow> u32 \<Rightarrow> bool" where
  "time_after a b \<longleftrightarrow> sint (b - a) < 0"

section \<open>The lists\<close>

definition zero_bss :: WLAN_BSSID_EX where
  "zero_bss = \<lparr>Length = 0, MacAddress = replicate 6 0, Reserved = [0, 0], SsidLength = 0,
     Ssid = replicate 32 0, Privacy = 0, Rssi = 0, NetworkTypeInUse = 0, ConfigLength = 0,
     BeaconPeriod = 0, ATIMWindow = 0, DSConfig = 0, FHConfig = [0, 0, 0, 0], InfrastructureMode = 0,
     SupportedRates = replicate 16 0, SignalStrength = 0, SignalQuality = 0, Optimum_antenna = 0,
     PhyReserved_0 = 0, IELength = 0, IEs = replicate MAX_IE_SZ 0\<rparr>"

definition zero_network :: wlan_network where
  "zero_network = \<lparr>network_type = 0, fixed = False, last_scanned = 0, net_aid = 0, join_res = 0,
     network = zero_bss\<rparr>"

definition Ndis802_11AutoUnknown :: nat where "Ndis802_11AutoUnknown = 2"

definition rtw_init_mlme_priv :: "bool \<Rightarrow> mlme_priv \<Rightarrow> status \<times> mlme_priv" where
  "rtw_init_mlme_priv alloc_ok m =
     (let m = m\<lparr>fw_state := 0,
                cur_network := (cur_network m)\<lparr>network :=
                  (network (cur_network m))\<lparr>InfrastructureMode := Ndis802_11AutoUnknown\<rparr>\<rparr>,
                free_bss_pool := [], scanned_queue := [], num_of_scanned := 0,
                assoc_ssid_len := 0, assoc_ssid := replicate 32 0\<rparr> in
      if \<not> alloc_ok then (FAIL, m)
      else (SUCCESS, fold (\<lambda>i m. m\<lparr>bss_buf := bss_buf m @ [zero_network],
                                  free_bss_pool := free_bss_pool m @ [i]\<rparr>)
                       [0..<MAX_BSS_CNT] (m\<lparr>bss_buf := []\<rparr>)))"

definition rtw_alloc_network :: "u32 \<Rightarrow> mlme_priv \<Rightarrow> nat option \<times> mlme_priv" where
  "rtw_alloc_network now m =
     (case free_bss_pool m of
        [] \<Rightarrow> (None, m)
      | i # free \<Rightarrow>
          (Some i, set_network i (\<lambda>w. w\<lparr>network_type := 0, fixed := False, last_scanned := now,
                                      net_aid := 0, join_res := 0\<rparr>)
             (m\<lparr>free_bss_pool := free, num_of_scanned := num_of_scanned m + 1\<rparr>)))"

text \<open>A network is taken off the list it is on and put at the end of the pool.\<close>

definition to_pool :: "nat \<Rightarrow> mlme_priv \<Rightarrow> mlme_priv" where
  "to_pool i m = m\<lparr>scanned_queue := removeAll i (scanned_queue m),
                  free_bss_pool := removeAll i (free_bss_pool m) @ [i],
                  num_of_scanned := num_of_scanned m - 1\<rparr>"

definition SCANQUEUE_LIFETIME :: u32 where "SCANQUEUE_LIFETIME = 20"

definition rtw_free_network :: "u32 \<Rightarrow> u32 \<Rightarrow> bool \<Rightarrow> nat option \<Rightarrow> mlme_priv \<Rightarrow> mlme_priv" where
  "rtw_free_network HZ now isfreeall pnetwork m =
     (case pnetwork of
        None \<Rightarrow> m
      | Some i \<Rightarrow>
          if fixed (bss_buf m ! i) then m
          else
            let lifetime = (if mlme_check_fwstate m WIFI_ADHOC_MASTER_STATE \<or>
                               mlme_check_fwstate m WIFI_ADHOC_STATE
                            then 1 else SCANQUEUE_LIFETIME);
                delta_time = (now - last_scanned (bss_buf m ! i)) div HZ
            in if \<not> isfreeall \<and> delta_time < lifetime then m else to_pool i m)"

definition rtw_free_network_nolock :: "nat option \<Rightarrow> mlme_priv \<Rightarrow> mlme_priv" where
  "rtw_free_network_nolock pnetwork m =
     (case pnetwork of
        None \<Rightarrow> m
      | Some i \<Rightarrow> if fixed (bss_buf m ! i) then m else to_pool i m)"

definition rtw_find_network :: "mlme_priv \<Rightarrow> mac \<Rightarrow> nat option" where
  "rtw_find_network m addr =
     (if addr = replicate 6 0 then None
      else find (\<lambda>i. addr = MacAddress (network (bss_buf m ! i))) (scanned_queue m))"

text \<open>The successor on the list is read before the network is freed.\<close>

definition rtw_free_network_queue :: "u32 \<Rightarrow> u32 \<Rightarrow> bool \<Rightarrow> mlme_priv \<Rightarrow> mlme_priv" where
  "rtw_free_network_queue HZ now isfreeall m =
     fold (\<lambda>i. rtw_free_network HZ now isfreeall (Some i)) (scanned_queue m) m"

definition free_scanqueue :: "mlme_priv \<Rightarrow> mlme_priv" where
  "free_scanqueue m = fold to_pool (scanned_queue m) m"

text \<open>The older of a network and the oldest so far.\<close>

definition older :: "wlan_network list \<Rightarrow> nat \<Rightarrow> nat option \<Rightarrow> nat option" where
  "older buf i oldest =
     (case oldest of
        None \<Rightarrow> Some i
      | Some j \<Rightarrow> if time_after (last_scanned (buf ! j)) (last_scanned (buf ! i)) then Some i else Some j)"

definition rtw_get_oldest_wlan_network :: "mlme_priv \<Rightarrow> nat option" where
  "rtw_get_oldest_wlan_network m =
     fold (\<lambda>i oldest. if fixed (bss_buf m ! i) then oldest else older (bss_buf m) i oldest)
       (scanned_queue m) None"

section \<open>Updating a network\<close>

text \<open>The result are the two networks: the sample's signal is raised to the one that is kept.\<close>

definition SwAntDivCompare8192C ::
  "mlme_adapter \<Rightarrow> WLAN_BSSID_EX \<Rightarrow> WLAN_BSSID_EX \<Rightarrow> WLAN_BSSID_EX" where
  "SwAntDivCompare8192C ad dst src =
     (if AntDivCfg ad \<noteq> 0 \<and> \<not> is_92C_serial ad \<and> Rssi src \<le> Rssi dst
      then src\<lparr>Rssi := Rssi dst, Optimum_antenna := Optimum_antenna dst\<rparr>
      else src)"

text \<open>One fifth of the sample and four fifths of the history.\<close>

definition smooth_u8 :: "u8 \<Rightarrow> u8 \<Rightarrow> u8" where
  "smooth_u8 smp ori = ucast ((ucast smp + ucast ori * 4 :: u32) div 5)"

definition smooth_rssi :: "int \<Rightarrow> int \<Rightarrow> int" where
  "smooth_rssi smp ori = (smp + ori * 4) sdiv 5"

text \<open>The signal quality of a frame that came in on another channel.\<close>

definition WRONG_CHANNEL :: u8 where "WRONG_CHANNEL = 101"

definition update_network ::
  "mlme_adapter \<Rightarrow> bool \<Rightarrow> WLAN_BSSID_EX \<Rightarrow> WLAN_BSSID_EX \<Rightarrow> (WLAN_BSSID_EX \<times> WLAN_BSSID_EX) option" where
  "update_network ad update_ie dst src0 = do {
     let src = SwAntDivCompare8192C ad dst src0;
     let m = mlmepriv ad;
     joined \<leftarrow> (if mlme_check_fwstate m FW_LINKED
               then is_same_network (network (cur_network m)) src else Some False);
     let right = SignalQuality src0 \<noteq> WRONG_CHANNEL;
     let ss_final = (if joined then signal_strength ad
                     else if right then smooth_u8 (SignalStrength src) (SignalStrength dst)
                     else SignalStrength dst);
     let sq_final = (if joined then signal_qual ad
                     else if right then smooth_u8 (SignalQuality src) (SignalQuality dst)
                     else SignalQuality dst);
     let rssi_final = (if right then smooth_rssi (Rssi src) (Rssi dst) else Rssi dst);
     d \<leftarrow> (if update_ie then copy_bss dst src else Some dst);
     Some (d\<lparr>SignalStrength := ss_final, SignalQuality := sq_final, Rssi := rssi_final\<rparr>, src)
   }"

section \<open>The network that is joined\<close>

abbreviation (input) "ERPINFO_IE \<equiv> 42 :: int"
abbreviation (input) "DISABLE_VCS \<equiv> 0 :: u8"
abbreviation (input) "ENABLE_VCS \<equiv> 1 :: u8"
abbreviation (input) "NONE_VCS \<equiv> 0 :: u8"
abbreviation (input) "RTS_CTS \<equiv> 1 :: u8"
abbreviation (input) "CTS_TO_SELF \<equiv> 2 :: u8"

definition rtw_update_protection :: "u8 list \<Rightarrow> nat \<Rightarrow> u32 \<Rightarrow> mlme_adapter \<Rightarrow> mlme_adapter option" where
  "rtw_update_protection b ie ie_len ad =
     (if vcs_setting ad = DISABLE_VCS then Some (ad\<lparr>vcs := NONE_VCS\<rparr>)
      else if vcs_setting ad = ENABLE_VCS then Some ad
      else do {
        (perp, erp_len) \<leftarrow> rtw_get_ie b ie ERPINFO_IE 0 (sint ie_len);
        case perp of
          None \<Rightarrow> Some (ad\<lparr>vcs := NONE_VCS\<rparr>)
        | Some p \<Rightarrow> do {
            erp \<leftarrow> byte_at (p + 2) b;
            if erp AND 2 \<noteq> 0
            then Some (ad\<lparr>vcs := if vcs_type ad = RTS_CTS then RTS_CTS else CTS_TO_SELF\<rparr>)
            else Some (ad\<lparr>vcs := NONE_VCS\<rparr>)
          }
      })"

text \<open>
  The joined network is updated in place; the sample may have been changed. The length given to
  \<^verbatim>\<open>rtw_update_protection\<close> counts the fixed part that its pointer is already behind.
\<close>

definition update_current_network ::
  "mlme_adapter \<Rightarrow> WLAN_BSSID_EX \<Rightarrow> (mlme_adapter \<times> WLAN_BSSID_EX) option" where
  "update_current_network ad pnetwork = do {
     let m = mlmepriv ad;
     let cur = cur_network m;
     same \<leftarrow> (if mlme_check_fwstate m FW_LINKED then is_same_network (network cur) pnetwork
             else Some False);
     if same then do {
       (d, src) \<leftarrow> update_network ad True (network cur) pnetwork;
       ad1 \<leftarrow> rtw_update_protection (IEs d) FIXED_IE_LENGTH (IELength d)
               (ad\<lparr>mlmepriv := m\<lparr>cur_network := cur\<lparr>network := d\<rparr>\<rparr>\<rparr>);
       Some (ad1, src)
     }
     else Some (ad, pnetwork)
   }"

section \<open>Entering a network\<close>

text \<open>The walk: the network that matches, and the oldest of those before it.\<close>

fun scan_walk ::
  "wlan_network list \<Rightarrow> WLAN_BSSID_EX \<Rightarrow> nat list \<Rightarrow> nat option \<Rightarrow> (nat option \<times> nat option) option" where
  "scan_walk buf target [] oldest = Some (None, oldest)"
| "scan_walk buf target (i # q) oldest = do {
     same \<leftarrow> is_same_network (network (buf ! i)) target;
     if same then Some (Some i, oldest)
     else scan_walk buf target q (older buf i oldest)
   }"

definition fix_quality :: "WLAN_BSSID_EX \<Rightarrow> WLAN_BSSID_EX" where
  "fix_quality b = (if SignalQuality b = WRONG_CHANNEL then b\<lparr>SignalQuality := 0\<rparr> else b)"

definition rtw_update_scanned_network ::
  "u32 \<Rightarrow> WLAN_BSSID_EX \<Rightarrow> mlme_adapter \<Rightarrow> mlme_adapter option" where
  "rtw_update_scanned_network now target ad = do {
     let m = mlmepriv ad;
     (found, oldest) \<leftarrow> scan_walk (bss_buf m) target (scanned_queue m) None;
     m' \<leftarrow>
       (case found of
          None \<Rightarrow>
            if free_bss_pool m = [] then do {
              i \<leftarrow> oldest;
              let target = target\<lparr>Optimum_antenna := CurAntenna ad\<rparr>;
              net \<leftarrow> copy_bss (network (bss_buf m ! i)) target;
              Some (set_network i (\<lambda>w. w\<lparr>network := fix_quality net, fixed := False,
                      last_scanned := now, network_type := 0, net_aid := 0, join_res := 0\<rparr>) m)
            }
            else
              (case rtw_alloc_network now m of
                 (None, m1) \<Rightarrow> Some m1
               | (Some i, m1) \<Rightarrow> do {
                   let target = target\<lparr>Length := get_WLAN_BSSID_EX_sz target,
                                      Optimum_antenna := CurAntenna ad\<rparr>;
                   net \<leftarrow> copy_bss (network (bss_buf m1 ! i)) target;
                   let m2 = set_network i (\<lambda>w. w\<lparr>network := fix_quality net, last_scanned := now\<rparr>) m1;
                   Some (m2\<lparr>scanned_queue := scanned_queue m2 @ [i]\<rparr>)
                 })
        | Some i \<Rightarrow> do {
            let w = bss_buf m ! i;
            let update_ie = \<not> (IELength target < IELength (network w) \<and> hd (Reserved target) = 1);
            (d, src) \<leftarrow> update_network ad update_ie (network w) target;
            Some (set_network i (\<lambda>w. w\<lparr>last_scanned := now, network := d\<rparr>) m)
          });
     Some (ad\<lparr>mlmepriv := m'\<rparr>)
   }"

definition P2P_ATTR_GROUP_INFO :: u8 where "P2P_ATTR_GROUP_INFO = 0x0e"

definition run_of :: "'a option \<Rightarrow> 'a run" where
  "run_of r = (case r of None \<Rightarrow> Outside | Some x \<Rightarrow> Returns x)"

definition rtw_add_network :: "u32 \<Rightarrow> WLAN_BSSID_EX \<Rightarrow> mlme_adapter \<Rightarrow> mlme_adapter run" where
  "rtw_add_network now pnetwork ad =
     (case rtw_WLAN_BSSID_EX_remove_p2p_attr (IEs pnetwork) (IELength pnetwork) P2P_ATTR_GROUP_INFO of
        Returns (ies, ielen) \<Rightarrow>
          run_of (do {
            (ad1, target) \<leftarrow> update_current_network ad (pnetwork\<lparr>IEs := ies, IELength := ielen\<rparr>);
            rtw_update_scanned_network now target ad1
          })
      | Outside \<Rightarrow> Outside
      | Endless \<Rightarrow> Endless)"

text \<open>The first eight bytes of the elements are the timestamp.\<close>

definition set_timestamp :: "u8 list \<Rightarrow> wlan_network \<Rightarrow> wlan_network option" where
  "set_timestamp src w = do {
     ts \<leftarrow> read_at 0 8 src;
     ies \<leftarrow> write_at 0 ts (IEs (network w));
     Some (w\<lparr>network := (network w)\<lparr>IEs := ies\<rparr>\<rparr>)
   }"

definition survey_add :: "u32 \<Rightarrow> WLAN_BSSID_EX \<Rightarrow> mlme_adapter \<Rightarrow> mlme_adapter run" where
  "survey_add now pnetwork ad =
     (if mlme_check_fwstate (mlmepriv ad) FW_UNDER_LINKING then Returns ad
      else rtw_add_network now
             (if hd (Ssid pnetwork) = 0 then pnetwork\<lparr>SsidLength := 0\<rparr> else pnetwork) ad)"

definition rtw_survey_event_callback :: "u32 \<Rightarrow> WLAN_BSSID_EX \<Rightarrow> mlme_adapter \<Rightarrow> mlme_adapter run" where
  "rtw_survey_event_callback now pnetwork ad =
     (let m = mlmepriv ad in
      if of_nat BSSID_EX_SZ < get_WLAN_BSSID_EX_sz pnetwork then Returns ad
      else if mlme_check_fwstate m WIFI_ADHOC_MASTER_STATE \<and>
              MacAddress (network (cur_network m)) = MacAddress pnetwork
      then case set_timestamp (IEs pnetwork) (cur_network m) of
             None \<Rightarrow> Outside
           | Some cur \<Rightarrow>
               let m1 = m\<lparr>cur_network := cur\<rparr> in
               (case rtw_find_network m1 (MacAddress pnetwork) of
                  None \<Rightarrow> survey_add now pnetwork (ad\<lparr>mlmepriv := m1\<rparr>)
                | Some i \<Rightarrow>
                    (case set_timestamp (IEs pnetwork) (bss_buf m1 ! i) of
                       None \<Rightarrow> Outside
                     | Some w \<Rightarrow> Returns (ad\<lparr>mlmepriv := set_network i (\<lambda>_. w) m1\<rparr>)))
      else survey_add now pnetwork ad)"

section \<open>Well-formed networks and their identity\<close>

definition bss_wf :: "WLAN_BSSID_EX \<Rightarrow> bool" where
  "bss_wf b \<longleftrightarrow> length (IEs b) = MAX_IE_SZ \<and> length (Ssid b) = 32 \<and> unat (SsidLength b) \<le> 32 \<and>
     unat (IELength b) \<le> MAX_IE_SZ"

text \<open>What identifies a network: its name, its address and two bits of its capabilities.\<close>

type_synonym net_key = "u32 \<times> u8 list \<times> mac \<times> u16 \<times> u16"

definition cap_of :: "WLAN_BSSID_EX \<Rightarrow> u16" where
  "cap_of b = le16 (IEs b ! 10) (IEs b ! 11)"

definition net_key :: "WLAN_BSSID_EX \<Rightarrow> net_key" where
  "net_key b = (SsidLength b, take (unat (SsidLength b)) (Ssid b), MacAddress b,
     cap_of b AND WLAN_CAPABILITY_IBSS, cap_of b AND WLAN_CAPABILITY_BSS)"

lemma rtw_get_capability_wf: "bss_wf b \<Longrightarrow> rtw_get_capability b = Some (cap_of b)"
  by (simp add: bss_wf_def rtw_get_capability_def get_le16_def cap_of_def MAX_IE_SZ_def)

lemma is_same_network_key:
  "bss_wf a \<Longrightarrow> bss_wf b \<Longrightarrow> is_same_network a b = Some (net_key a = net_key b)"
  by (auto simp: is_same_network_def rtw_get_capability_wf ssid_eq_def net_key_def)
    (simp_all add: bss_wf_def)

lemma copy_bss_wf:
  assumes "bss_wf a" and "bss_wf b"
  shows "\<exists>d. copy_bss a b = Some d \<and> bss_wf d \<and> (12 \<le> unat (IELength b) \<longrightarrow> net_key d = net_key b)"
proof -
  let ?n = "unat (IELength b)"
  define d where "d = b\<lparr>IEs := take ?n (IEs b) @ drop ?n (IEs a)\<rparr>"
  have n: "?n \<le> MAX_IE_SZ" and la: "length (IEs a) = MAX_IE_SZ" and lb: "length (IEs b) = MAX_IE_SZ"
    using assms by (simp_all add: bss_wf_def)
  have "copy_bss a b = Some d" using n by (simp add: copy_bss_def d_def)
  moreover have "bss_wf d" using assms n la lb by (simp add: bss_wf_def d_def)
  moreover have "net_key d = net_key b" if "12 \<le> ?n"
    using that n la lb by (simp add: net_key_def cap_of_def d_def nth_append)
  ultimately show ?thesis by blast
qed

lemma bss_wf_update [simp]:
  "bss_wf (b\<lparr>SignalStrength := x\<rparr>) = bss_wf b" "bss_wf (b\<lparr>SignalQuality := x\<rparr>) = bss_wf b"
  "bss_wf (b\<lparr>Rssi := r\<rparr>) = bss_wf b" "bss_wf (b\<lparr>Optimum_antenna := x\<rparr>) = bss_wf b"
  "bss_wf (b\<lparr>Length := l\<rparr>) = bss_wf b"
  by (simp_all add: bss_wf_def)

lemma net_key_update [simp]:
  "net_key (b\<lparr>SignalStrength := x\<rparr>) = net_key b" "net_key (b\<lparr>SignalQuality := x\<rparr>) = net_key b"
  "net_key (b\<lparr>Rssi := r\<rparr>) = net_key b" "net_key (b\<lparr>Optimum_antenna := x\<rparr>) = net_key b"
  "net_key (b\<lparr>Length := l\<rparr>) = net_key b"
  by (simp_all add: net_key_def cap_of_def)

lemma fix_quality_key [simp]:
  "bss_wf (fix_quality b) = bss_wf b" "net_key (fix_quality b) = net_key b"
  by (simp_all add: fix_quality_def)

lemma antdiv_keeps [simp]:
  "bss_wf (SwAntDivCompare8192C ad d s) = bss_wf s"
  "net_key (SwAntDivCompare8192C ad d s) = net_key s"
  "IELength (SwAntDivCompare8192C ad d s) = IELength s"
  by (simp_all add: SwAntDivCompare8192C_def)

section \<open>Smoothing\<close>

lemma smooth_u8_value: "unat (smooth_u8 a b) = (unat a + 4 * unat b) div 5"
proof -
  have a: "unat a < 256" and b: "unat b < 256"
    using unsigned_less [of a, where 'a = nat] unsigned_less [of b, where 'a = nat] by simp_all
  have u: "unat (ucast x :: u32) = unat x" for x :: u8
  proof -
    have "unat x < 256" using unsigned_less [of x, where 'a = nat] by simp
    then show ?thesis by (simp add: unsigned_ucast_eq take_bit_nat_eq_self)
  qed
  have "unat (ucast b * 4 :: u32) = unat b * 4"
    using b u [of b] by (subst unat_mult_lem [THEN iffD1]) simp_all
  then have s: "unat (ucast a + ucast b * 4 :: u32) = unat a + 4 * unat b"
    using a b u [of a] by (subst unat_add_lem [THEN iffD1]) simp_all
  have "unat ((ucast a + ucast b * 4 :: u32) div 5) = (unat a + 4 * unat b) div 5"
    by (simp add: unat_div s)
  moreover have "(unat a + 4 * unat b) div 5 < 256" using a b by simp
  ultimately show ?thesis
    by (simp add: smooth_u8_def unsigned_ucast_eq take_bit_nat_eq_self)
qed

lemma smooth_u8_between: "min a b \<le> smooth_u8 a b \<and> smooth_u8 a b \<le> max a b"
  by (simp add: word_le_nat_alt smooth_u8_value min_def max_def) linarith

lemma sdiv5_between:
  fixes x lo hi :: int
  assumes "5 * lo \<le> x" and "x \<le> 5 * hi"
  shows "lo \<le> x sdiv 5 \<and> x sdiv 5 \<le> hi"
proof (cases "0 \<le> x")
  case True
  then have "x sdiv 5 = x div 5" by (cases "x = 0") (simp_all add: signed_divide_int_def)
  then show ?thesis using assms by linarith
next
  case False
  then have "x sdiv 5 = - ((- x) div 5)" by (simp add: signed_divide_int_def)
  then show ?thesis using assms by linarith
qed

lemma smooth_rssi_between: "min a b \<le> smooth_rssi a b \<and> smooth_rssi a b \<le> max a b"
  unfolding smooth_rssi_def by (rule sdiv5_between) (simp_all add: min_def max_def)

definition joined_network :: "mlme_adapter \<Rightarrow> WLAN_BSSID_EX \<Rightarrow> bool" where
  "joined_network ad b \<longleftrightarrow> mlme_check_fwstate (mlmepriv ad) FW_LINKED \<and>
     net_key (network (cur_network (mlmepriv ad))) = net_key b"

definition between :: "'a::linorder \<Rightarrow> 'a \<Rightarrow> 'a \<Rightarrow> bool" where
  "between a b x \<longleftrightarrow> min a b \<le> x \<and> x \<le> max a b"

lemma between_self [simp]: "between a b a" "between a b b"
  by (simp_all add: between_def)

lemma between_smooth [simp]: "between a b (smooth_u8 a b)" "between x y (smooth_rssi x y)"
  using smooth_u8_between smooth_rssi_between by (auto simp: between_def)

lemma antdiv_signal [simp]:
  "SignalStrength (SwAntDivCompare8192C ad d s) = SignalStrength s"
  "SignalQuality (SwAntDivCompare8192C ad d s) = SignalQuality s"
  by (simp_all add: SwAntDivCompare8192C_def)

lemma antdiv_between: "between (Rssi (SwAntDivCompare8192C ad d s)) (Rssi d) x \<Longrightarrow> between (Rssi s) (Rssi d) x"
  by (auto simp: SwAntDivCompare8192C_def between_def split: if_splits)

lemma update_network_correct:
  assumes wf: "bss_wf dst" "bss_wf src" "bss_wf (network (cur_network (mlmepriv ad)))"
  shows "\<exists>d s. update_network ad ie dst src = Some (d, s) \<and> bss_wf d \<and> bss_wf s \<and>
    net_key s = net_key src \<and> IELength s = IELength src \<and>
    (net_key dst = net_key src \<longrightarrow> 12 \<le> unat (IELength src) \<longrightarrow> net_key d = net_key src) \<and>
    IELength d = (if ie then IELength src else IELength dst) \<and>
    between (Rssi src) (Rssi dst) (Rssi d) \<and>
    (if joined_network ad src then SignalStrength d = signal_strength ad \<and> SignalQuality d = signal_qual ad
     else between (SignalStrength src) (SignalStrength dst) (SignalStrength d) \<and>
          between (SignalQuality src) (SignalQuality dst) (SignalQuality d)) \<and>
    (SignalQuality src = WRONG_CHANNEL \<longrightarrow> Rssi d = Rssi dst)"
proof -
  let ?s = "SwAntDivCompare8192C ad dst src"
  obtain c where c: "copy_bss dst ?s = Some c" "bss_wf c"
    "12 \<le> unat (IELength src) \<longrightarrow> net_key c = net_key src"
    using copy_bss_wf [OF wf(1), of ?s] wf(2) by auto
  have ic: "IELength c = IELength src" using c(1) by (auto simp: copy_bss_def split: if_splits)
  have joined: "(if mlme_check_fwstate (mlmepriv ad) FW_LINKED
      then is_same_network (network (cur_network (mlmepriv ad))) ?s else Some False) =
      Some (joined_network ad src)"
    using wf by (simp add: joined_network_def is_same_network_key)
  show ?thesis
    using c wf antdiv_between [OF between_smooth(2)]
    by (cases ie; cases "joined_network ad src"; cases "SignalQuality src = WRONG_CHANNEL")
      (simp_all add: update_network_def Let_def joined ic)
qed

section \<open>The table\<close>

text \<open>
  Every network is on the pool or on the queue, the count is the length of the queue and every
  network, and the one that is joined, is well-formed.
\<close>

definition table_inv :: "mlme_priv \<Rightarrow> bool" where
  "table_inv m \<longleftrightarrow> length (bss_buf m) = MAX_BSS_CNT \<and>
     mset (free_bss_pool m) + mset (scanned_queue m) = mset [0..<MAX_BSS_CNT] \<and>
     num_of_scanned m = of_nat (length (scanned_queue m)) \<and>
     (\<forall>w \<in> set (bss_buf m). bss_wf (network w)) \<and> bss_wf (network (cur_network m))"

lemma table_inv_lists:
  assumes "table_inv m"
  shows "distinct (free_bss_pool m @ scanned_queue m)"
    and "set (free_bss_pool m) \<union> set (scanned_queue m) = {..<MAX_BSS_CNT}"
proof -
  have e: "mset (free_bss_pool m @ scanned_queue m) = mset [0..<MAX_BSS_CNT]"
    using assms by (simp add: table_inv_def)
  then show "distinct (free_bss_pool m @ scanned_queue m)" by (metis distinct_upt mset_eq_imp_distinct_iff)
  have "set (free_bss_pool m @ scanned_queue m) = set [0..<MAX_BSS_CNT]"
    using e by (rule mset_eq_setD)
  then show "set (free_bss_pool m) \<union> set (scanned_queue m) = {..<MAX_BSS_CNT}"
    by (simp add: atLeast0LessThan)
qed

lemma table_inv_index:
  assumes "table_inv m" and "i \<in> set (scanned_queue m)"
  shows "i < length (bss_buf m)" and "bss_wf (network (bss_buf m ! i))" and "i \<notin> set (free_bss_pool m)"
proof -
  show i: "i < length (bss_buf m)"
    using table_inv_lists(2) [OF assms(1)] assms by (auto simp: table_inv_def)
  then show "bss_wf (network (bss_buf m ! i))" using assms(1) by (auto simp: table_inv_def)
  show "i \<notin> set (free_bss_pool m)"
    using table_inv_lists(1) [OF assms(1)] assms(2) by auto
qed

lemma set_network_simps [simp]:
  "free_bss_pool (set_network i f m) = free_bss_pool m"
  "scanned_queue (set_network i f m) = scanned_queue m"
  "num_of_scanned (set_network i f m) = num_of_scanned m"
  "cur_network (set_network i f m) = cur_network m"
  "fw_state (set_network i f m) = fw_state m"
  "length (bss_buf (set_network i f m)) = length (bss_buf m)"
  "i < length (bss_buf m) \<Longrightarrow> bss_buf (set_network i f m) ! i = f (bss_buf m ! i)"
  "j \<noteq> i \<Longrightarrow> bss_buf (set_network i f m) ! j = bss_buf m ! j"
  by (simp_all add: set_network_def)

lemma table_inv_set_network:
  assumes "table_inv m" and "bss_wf (network (f (bss_buf m ! i)))"
  shows "table_inv (set_network i f m)"
proof -
  have "set (bss_buf (set_network i f m)) \<subseteq> insert (f (bss_buf m ! i)) (set (bss_buf m))"
    by (simp add: set_network_def set_update_subset_insert)
  then show ?thesis using assms by (auto simp: table_inv_def)
qed

lemma table_inv_to_pool:
  assumes inv: "table_inv m" and i: "i \<in> set (scanned_queue m)"
  shows "table_inv (to_pool i m)"
proof -
  have d: "distinct (scanned_queue m)" and nf: "i \<notin> set (free_bss_pool m)"
    using table_inv_lists(1) [OF inv] i by auto
  have len: "length (removeAll i (scanned_queue m)) = length (scanned_queue m) - 1"
    using d i by (metis distinct_remove1_removeAll length_remove1)
  moreover have "0 < length (scanned_queue m)" using i by auto
  ultimately have "(of_nat (length (removeAll i (scanned_queue m))) :: u32) =
      of_nat (length (scanned_queue m)) - 1"
    using len by (cases "length (scanned_queue m)") auto
  moreover have q: "add_mset i (mset (removeAll i (scanned_queue m))) = mset (scanned_queue m)"
    using d i by (metis distinct_remove1_removeAll mset_remove1 insert_DiffM set_mset_mset)
  have "add_mset i (mset (free_bss_pool m) + mset (removeAll i (scanned_queue m))) = mset [0..<MAX_BSS_CNT]"
    using inv by (simp add: table_inv_def flip: q)
  ultimately show ?thesis
    using inv nf by (simp add: table_inv_def to_pool_def)
qed

lemma rtw_init_mlme_priv_inv:
  assumes "rtw_init_mlme_priv True m0 = (SUCCESS, m)" and "bss_wf (network (cur_network m0))"
  shows "table_inv m \<and> scanned_queue m = []"
proof -
  define f where "f = (\<lambda>i m. m\<lparr>bss_buf := bss_buf m @ [zero_network],
    free_bss_pool := free_bss_pool m @ [i]\<rparr> :: mlme_priv)"
  have "fold f is m = m\<lparr>bss_buf := bss_buf m @ replicate (length is) zero_network,
      free_bss_pool := free_bss_pool m @ is\<rparr>" for "is" m
    by (induction "is" arbitrary: m) (simp_all add: f_def)
  note fold = this
  have z: "bss_wf (network zero_network)" by (simp add: zero_network_def zero_bss_def bss_wf_def)
  show ?thesis
    using assms z by (auto simp: rtw_init_mlme_priv_def Let_def fold [unfolded f_def] table_inv_def bss_wf_def)
qed

text \<open>An allocated network is off the pool; put on the queue, the invariant holds again.\<close>

lemma alloc_insert_inv:
  assumes inv: "table_inv m" and al: "rtw_alloc_network now m = (Some i, m1)" and b: "bss_wf b"
  shows "table_inv ((set_network i (\<lambda>w. w\<lparr>network := b, last_scanned := t\<rparr>) m1)
    \<lparr>scanned_queue := scanned_queue m1 @ [i]\<rparr>)" (is ?inv)
    and "i \<in> set (free_bss_pool m)" "i < length (bss_buf m)" "i \<notin> set (scanned_queue m)"
    and "scanned_queue m1 = scanned_queue m" "cur_network m1 = cur_network m"
    and "\<And>j. j \<noteq> i \<Longrightarrow> bss_buf m1 ! j = bss_buf m ! j" "length (bss_buf m1) = length (bss_buf m)"
    and "network (bss_buf m1 ! i) = network (bss_buf m ! i)" "fw_state m1 = fw_state m"
proof -
  obtain free where free: "free_bss_pool m = i # free"
    and m1: "m1 = set_network i (\<lambda>w. w\<lparr>network_type := 0, fixed := False, last_scanned := now,
      net_aid := 0, join_res := 0\<rparr>) (m\<lparr>free_bss_pool := free, num_of_scanned := num_of_scanned m + 1\<rparr>)"
    using al by (auto simp: rtw_alloc_network_def split: list.splits)
  show f: "i \<in> set (free_bss_pool m)" using free by simp
  then have "i \<in> {..<MAX_BSS_CNT}" using table_inv_lists(2) [OF inv] by blast
  then show i: "i < length (bss_buf m)" using inv by (simp add: table_inv_def)
  show "i \<notin> set (scanned_queue m)" using table_inv_lists(1) [OF inv] f by auto
  show "scanned_queue m1 = scanned_queue m" "cur_network m1 = cur_network m"
    "\<And>j. j \<noteq> i \<Longrightarrow> bss_buf m1 ! j = bss_buf m ! j" "length (bss_buf m1) = length (bss_buf m)"
    "network (bss_buf m1 ! i) = network (bss_buf m ! i)" "fw_state m1 = fw_state m"
    using i by (simp_all add: m1 set_network_def)
  define m2 where "m2 = set_network i (\<lambda>w. w\<lparr>network_type := 0, fixed := False,
      net_aid := 0, join_res := 0, network := b, last_scanned := t\<rparr>) m"
  have "table_inv m2" unfolding m2_def by (rule table_inv_set_network [OF inv]) (simp add: b)
  moreover have "(set_network i (\<lambda>w. w\<lparr>network := b, last_scanned := t\<rparr>) m1)\<lparr>scanned_queue := scanned_queue m1 @ [i]\<rparr> =
      m2\<lparr>free_bss_pool := free, num_of_scanned := num_of_scanned m + 1, scanned_queue := scanned_queue m @ [i]\<rparr>"
    using i by (intro mlme_priv.equality) (simp_all add: m1 m2_def set_network_def)
  ultimately show ?inv using free by (simp add: table_inv_def m2_def)
qed

section \<open>Which networks are listed\<close>

definition listed :: "mlme_priv \<Rightarrow> net_key set" where
  "listed m = (\<lambda>i. net_key (network (bss_buf m ! i))) ` set (scanned_queue m)"

definition listed_once :: "mlme_priv \<Rightarrow> bool" where
  "listed_once m \<longleftrightarrow> inj_on (\<lambda>i. net_key (network (bss_buf m ! i))) (set (scanned_queue m))"

definition age :: "u32 \<Rightarrow> wlan_network \<Rightarrow> nat" where
  "age now w = unat (now - last_scanned w)"

lemma sint_word_of_int_32: "sint (word_of_int k :: u32) = signed_take_bit 31 k"
  by (simp add: sint_uint signed_take_bit_take_bit unsigned_of_int)

lemma sint_diff_below:
  fixes x y :: u32
  assumes "unat x < 2 ^ 31" and "unat y < 2 ^ 31"
  shows "sint (x - y) = int (unat x) - int (unat y)"
proof -
  have t: "signed_take_bit 31 (int a - int b) = int a - int b" if "a < 2 ^ 31" "b < 2 ^ 31" for a b
    using that by (intro signed_take_bit_int_eq_self) simp_all
  have "x - y = word_of_int (int (unat x) - int (unat y))" by simp
  then show ?thesis using sint_word_of_int_32 t [OF assms] by metis
qed

lemma time_after_age:
  assumes "age now v < 2 ^ 31" and "age now w < 2 ^ 31"
  shows "time_after (last_scanned v) (last_scanned w) \<longleftrightarrow> age now v < age now w"
proof -
  have "last_scanned w - last_scanned v = (now - last_scanned v) - (now - last_scanned w)" by simp
  then show ?thesis
    using sint_diff_below [OF assms [unfolded age_def]] by (simp only: time_after_def age_def) linarith
qed

text \<open>
  Two loops over the queue keep the best network so far, the oldest and the strongest. What they share:
  where the comparison is that of a score, the one kept has the highest.
\<close>

definition keep_best :: "('i \<Rightarrow> 'i \<Rightarrow> bool) \<Rightarrow> 'i \<Rightarrow> 'i option \<Rightarrow> 'i option" where
  "keep_best worse i r = (case r of None \<Rightarrow> Some i | Some j \<Rightarrow> if worse j i then Some i else Some j)"

locale best_of =
  fixes ok :: "'i \<Rightarrow> bool" and worse :: "'i \<Rightarrow> 'i \<Rightarrow> bool" and score :: "'i \<Rightarrow> int"
  assumes worse_score: "ok j \<Longrightarrow> ok i \<Longrightarrow> worse j i \<longleftrightarrow> score j < score i"
begin

lemma fold_keep:
  assumes "\<forall>i \<in> insert j (set q). ok i"
  shows "\<exists>k. fold (keep_best worse) q (Some j) = Some k \<and> k \<in> insert j (set q) \<and>
    (\<forall>i \<in> insert j (set q). score i \<le> score k)"
  using assms
proof (induction q arbitrary: j)
  case Nil
  then show ?case by simp
next
  case (Cons i q)
  define k where "k = (if score j < score i then i else j)"
  have k: "keep_best worse i (Some j) = Some k"
    using Cons.prems worse_score [of j i] by (simp add: keep_best_def k_def)
  have "\<forall>l \<in> insert k (set q). ok l" using Cons.prems by (auto simp: k_def)
  then obtain m where "fold (keep_best worse) q (Some k) = Some m" "m \<in> insert k (set q)"
    "\<forall>l \<in> insert k (set q). score l \<le> score m"
    using Cons.IH by blast
  then show ?case using k by (auto simp: k_def split: if_splits)
qed

lemma fold_keep_None:
  assumes "\<forall>i \<in> set q. ok i"
  shows "case fold (keep_best worse) q None of
      None \<Rightarrow> q = []
    | Some k \<Rightarrow> k \<in> set q \<and> (\<forall>i \<in> set q. score i \<le> score k)"
proof (cases q)
  case (Cons j r)
  have "keep_best worse j None = Some j" by (simp add: keep_best_def)
  then show ?thesis using fold_keep [of j r] assms by (auto simp: Cons)
qed simp

end

interpretation oldest: best_of "\<lambda>i. age now (buf ! i) < 2 ^ 31"
  "\<lambda>j i. time_after (last_scanned (buf ! j)) (last_scanned (buf ! i))" "\<lambda>i. int (age now (buf ! i))"
  for now :: u32 and buf :: "wlan_network list"
  by unfold_locales (simp add: time_after_age)

lemma older_keep_best:
  "older buf = keep_best (\<lambda>j i. time_after (last_scanned (buf ! j)) (last_scanned (buf ! i)))"
  by (simp add: older_def keep_best_def fun_eq_iff)

text \<open>The oldest network that is not fixed.\<close>

lemma rtw_get_oldest_wlan_network_oldest:
  assumes "\<forall>i \<in> set (scanned_queue m). age now (bss_buf m ! i) < 2 ^ 31"
  shows "case rtw_get_oldest_wlan_network m of
      None \<Rightarrow> \<forall>i \<in> set (scanned_queue m). fixed (bss_buf m ! i)
    | Some k \<Rightarrow> k \<in> set (scanned_queue m) \<and> \<not> fixed (bss_buf m ! k) \<and>
        (\<forall>i \<in> set (scanned_queue m). \<not> fixed (bss_buf m ! i) \<longrightarrow>
           age now (bss_buf m ! i) \<le> age now (bss_buf m ! k))"
proof -
  define q where "q = filter (\<lambda>i. \<not> fixed (bss_buf m ! i)) (scanned_queue m)"
  have "fold (\<lambda>i r. if fixed (bss_buf m ! i) then r else older (bss_buf m) i r) is r =
      fold (older (bss_buf m)) (filter (\<lambda>i. \<not> fixed (bss_buf m ! i)) is) r" for "is" r
    by (induction "is" arbitrary: r) simp_all
  then have f: "rtw_get_oldest_wlan_network m = fold (older (bss_buf m)) q None"
    by (simp add: rtw_get_oldest_wlan_network_def q_def)
  have "\<forall>i \<in> set q. age now (bss_buf m ! i) < 2 ^ 31" using assms by (simp add: q_def)
  from oldest.fold_keep_None [OF this, folded older_keep_best]
  show ?thesis by (auto simp: f q_def filter_empty_conv split: option.splits)
qed

lemma scan_walk_finds:
  assumes "\<forall>i \<in> set q. bss_wf (network (buf ! i))" and "bss_wf t"
  shows "\<exists>r. scan_walk buf t q old = Some (find (\<lambda>i. net_key (network (buf ! i)) = net_key t) q, r) \<and>
    (find (\<lambda>i. net_key (network (buf ! i)) = net_key t) q = None \<longrightarrow> r = fold (older buf) q old)"
  using assms by (induction q arbitrary: old) (simp_all add: is_same_network_key)

lemma scan_table_found:
  assumes inv: "table_inv m" and t: "bss_wf t"
  shows "(\<exists>i r. scan_walk (bss_buf m) t (scanned_queue m) None = Some (Some i, r) \<and>
      i \<in> set (scanned_queue m) \<and> net_key (network (bss_buf m ! i)) = net_key t) \<or>
    (scan_walk (bss_buf m) t (scanned_queue m) None =
       Some (None, fold (older (bss_buf m)) (scanned_queue m) None) \<and> net_key t \<notin> listed m)"
proof -
  have "\<forall>i \<in> set (scanned_queue m). bss_wf (network (bss_buf m ! i))"
    using table_inv_index [OF inv] by blast
  then obtain r where r: "scan_walk (bss_buf m) t (scanned_queue m) None =
      Some (find (\<lambda>i. net_key (network (bss_buf m ! i)) = net_key t) (scanned_queue m), r)"
    and n: "find (\<lambda>i. net_key (network (bss_buf m ! i)) = net_key t) (scanned_queue m) = None \<longrightarrow>
      r = fold (older (bss_buf m)) (scanned_queue m) None"
    using scan_walk_finds [OF _ t] by blast
  show ?thesis
  proof (cases "find (\<lambda>i. net_key (network (bss_buf m ! i)) = net_key t) (scanned_queue m)")
    case None
    then show ?thesis using r n by (auto simp: find_None_iff listed_def)
  next
    case (Some i)
    then have "i \<in> set (scanned_queue m) \<and> net_key (network (bss_buf m ! i)) = net_key t"
      by (auto simp: find_Some_iff)
    then show ?thesis using r Some by auto
  qed
qed

section \<open>Entering a network\<close>

definition slot_key :: "mlme_priv \<Rightarrow> nat \<Rightarrow> net_key" where
  "slot_key m i = net_key (network (bss_buf m ! i))"

lemma listed_slot_key: "listed m = slot_key m ` set (scanned_queue m)"
  by (simp add: listed_def slot_key_def)

lemma listed_once_slot_key: "listed_once m \<longleftrightarrow> inj_on (slot_key m) (set (scanned_queue m))"
  by (simp add: listed_once_def slot_key_def [abs_def])

lemma slot_key_set_network:
  assumes "i < length (bss_buf m)"
  shows "slot_key (set_network i f m) = (slot_key m)(i := net_key (network (f (bss_buf m ! i))))"
  using assms by (auto simp: slot_key_def fun_eq_iff)

lemma listed_set_network:
  assumes "i < length (bss_buf m)" and "i \<in> set (scanned_queue m)" and "listed_once m"
    and "net_key (network (f (bss_buf m ! i))) \<notin> listed m - {slot_key m i}"
  shows "listed (set_network i f m) =
      insert (net_key (network (f (bss_buf m ! i)))) (listed m - {slot_key m i})"
    and "listed_once (set_network i f m)"
proof -
  let ?K = "net_key (network (f (bss_buf m ! i)))" and ?S = "set (scanned_queue m)"
  have inj: "inj_on (slot_key m) ?S" using assms(3) by (simp add: listed_once_slot_key)
  then have d: "slot_key m ` (?S - {i}) = listed m - {slot_key m i}"
    using assms(2) by (auto simp: listed_slot_key dest: inj_onD)
  then show "listed (set_network i f m) = insert ?K (listed m - {slot_key m i})"
    using assms(2) by (subst listed_slot_key)
      (simp only: set_network_simps slot_key_set_network [OF assms(1)] fun_upd_image if_True)
  have "inj_on ((slot_key m)(i := ?K)) (insert i (?S - {i}))"
    using inj assms(4) d by (subst inj_on_insert) (auto simp: inj_on_def)
  then show "listed_once (set_network i f m)"
    using assms(1,2) by (simp add: listed_once_slot_key slot_key_set_network insert_absorb)
qed

lemma listed_append:
  assumes "i \<notin> set (scanned_queue m)" and "listed_once m" and "slot_key m' i \<notin> listed m"
    and "scanned_queue m' = scanned_queue m @ [i]" and "\<And>j. j \<noteq> i \<Longrightarrow> slot_key m' j = slot_key m j"
  shows "listed m' = insert (slot_key m' i) (listed m)" and "listed_once m'"
proof -
  have e: "slot_key m' ` set (scanned_queue m) = listed m"
    unfolding listed_slot_key using assms(1) by (intro image_cong refl assms(5)) auto
  then show "listed m' = insert (slot_key m' i) (listed m)"
    by (simp add: listed_slot_key assms(4) insert_commute)
  have "slot_key m' j = slot_key m j" if "j \<in> set (scanned_queue m)" for j
    using assms(1) that by (intro assms(5)) auto
  then have "inj_on (slot_key m') (set (scanned_queue m))"
    using assms(2) inj_on_cong [of "set (scanned_queue m)" "slot_key m'"] by (simp add: listed_once_slot_key)
  moreover have "set (scanned_queue m) - {i} = set (scanned_queue m)" using assms(1) by auto
  ultimately show "listed_once m'"
    using assms(3) e by (simp add: listed_once_slot_key assms(4))
qed

text \<open>The networks of an adapter, and what an entry to the table needs of them.\<close>

definition ages_ok :: "u32 \<Rightarrow> mlme_priv \<Rightarrow> bool" where
  "ages_ok now m \<longleftrightarrow> (\<forall>i \<in> set (scanned_queue m). age now (bss_buf m ! i) < 2 ^ 31)"

definition entered :: "u32 \<Rightarrow> WLAN_BSSID_EX \<Rightarrow> mlme_priv \<Rightarrow> mlme_priv \<Rightarrow> bool" where
  "entered now t m m' \<longleftrightarrow> table_inv m' \<and> listed_once m' \<and> net_key t \<in> listed m' \<and>
     fw_state m' = fw_state m \<and> cur_network m' = cur_network m \<and>
     (\<exists>i \<in> set (scanned_queue m'). slot_key m' i = net_key t \<and> last_scanned (bss_buf m' ! i) = now) \<and>
     (if net_key t \<in> listed m \<or> free_bss_pool m \<noteq> [] then listed m' = insert (net_key t) (listed m)
      else \<exists>k \<in> set (scanned_queue m).
             (\<forall>i \<in> set (scanned_queue m). age now (bss_buf m ! i) \<le> age now (bss_buf m ! k)) \<and>
             listed m' = insert (net_key t) (listed m - {slot_key m k}))"

lemma entered_set_network:
  assumes inv: "table_inv m" and once: "listed_once m" and i: "i \<in> set (scanned_queue m)"
    and wf: "bss_wf (network (f (bss_buf m ! i)))"
    and key: "net_key (network (f (bss_buf m ! i))) = net_key t"
    and new: "net_key t \<notin> listed m - {slot_key m i}"
    and now: "last_scanned (f (bss_buf m ! i)) = now"
    and old: "slot_key m i = net_key t \<or> net_key t \<notin> listed m \<and> free_bss_pool m = [] \<and>
      (\<forall>j \<in> set (scanned_queue m). age now (bss_buf m ! j) \<le> age now (bss_buf m ! i))"
  shows "entered now t m (set_network i f m)"
proof -
  let ?m = "set_network i f m"
  have len: "i < length (bss_buf m)" using table_inv_index(1) [OF inv i] .
  have l: "listed ?m = insert (net_key t) (listed m - {slot_key m i})" "listed_once ?m"
    using listed_set_network [OF len i once, of f] new unfolding key by blast+
  have k: "slot_key ?m i = net_key t" "last_scanned (bss_buf ?m ! i) = now"
    using len key now by (simp_all add: slot_key_def)
  have mem: "slot_key m i \<in> listed m" using i by (simp add: listed_slot_key)
  have inv': "table_inv ?m" by (rule table_inv_set_network [OF inv, of f i, OF wf])
  have "if net_key t \<in> listed m \<or> free_bss_pool m \<noteq> [] then listed ?m = insert (net_key t) (listed m)
      else \<exists>k \<in> set (scanned_queue m).
             (\<forall>i \<in> set (scanned_queue m). age now (bss_buf m ! i) \<le> age now (bss_buf m ! k)) \<and>
             listed ?m = insert (net_key t) (listed m - {slot_key m k})"
  proof (cases "slot_key m i = net_key t")
    case True
    then show ?thesis using mem by (simp add: l(1))
  next
    case False
    then show ?thesis
      using old i unfolding l(1) by (simp only: if_False not_True_eq_False simp_thms) (rule bexI [of _ i], simp_all)
  qed
  moreover have "net_key t \<in> listed ?m" by (simp add: l)
  moreover have "\<exists>j \<in> set (scanned_queue ?m). slot_key ?m j = net_key t \<and> last_scanned (bss_buf ?m ! j) = now"
    using k i by (intro bexI [of _ i]) simp_all
  ultimately show ?thesis
    unfolding entered_def using inv' l(2) by (intro conjI) (assumption | simp only: set_network_simps)+
qed

lemma rtw_update_scanned_network_entered:
  assumes inv: "table_inv (mlmepriv ad)" and once: "listed_once (mlmepriv ad)"
    and t: "bss_wf t" and ie: "12 \<le> unat (IELength t)" and ages: "ages_ok now (mlmepriv ad)"
  shows "\<exists>m'. rtw_update_scanned_network now t ad = Some (ad\<lparr>mlmepriv := m'\<rparr>) \<and>
    entered now t (mlmepriv ad) m'"
proof -
  define m where "m = mlmepriv ad"
  have cur: "bss_wf (network (cur_network m))" using inv by (simp add: table_inv_def m_def)
  define t1 where "t1 = t\<lparr>Optimum_antenna := CurAntenna ad\<rparr>"
  define t2 where "t2 = t\<lparr>Length := get_WLAN_BSSID_EX_sz t, Optimum_antenna := CurAntenna ad\<rparr>"
  have t12: "bss_wf t1" "bss_wf t2" "12 \<le> unat (IELength t1)" "12 \<le> unat (IELength t2)"
    "net_key t1 = net_key t" "net_key t2 = net_key t" using t ie by (simp_all add: t1_def t2_def)
  from scan_table_found [OF inv t]
  consider i r where "scan_walk (bss_buf m) t (scanned_queue m) None = Some (Some i, r)"
      "i \<in> set (scanned_queue m)" "net_key (network (bss_buf m ! i)) = net_key t"
    | "scan_walk (bss_buf m) t (scanned_queue m) None =
        Some (None, fold (older (bss_buf m)) (scanned_queue m) None)" "net_key t \<notin> listed m"
    unfolding m_def by blast
  then have "\<exists>m'. rtw_update_scanned_network now t ad = Some (ad\<lparr>mlmepriv := m'\<rparr>) \<and> entered now t m m'"
  proof cases
    case (1 i r)
    note i = 1(2)
    define u where "u = (\<not> (IELength t < IELength (network (bss_buf m ! i)) \<and> hd (Reserved t) = 1))"
    obtain d s where u: "update_network ad u (network (bss_buf m ! i)) t = Some (d, s)"
      and d: "bss_wf d" "net_key d = net_key t"
      using update_network_correct [OF table_inv_index(2) [OF inv [folded m_def] i] t] cur ie 1(3)
      unfolding m_def by metis
    have "entered now t m (set_network i (\<lambda>w. w\<lparr>last_scanned := now, network := d\<rparr>) m)"
      using inv once i d 1(3) by (intro entered_set_network) (simp_all add: m_def slot_key_def)
    moreover have "rtw_update_scanned_network now t ad =
        Some (ad\<lparr>mlmepriv := set_network i (\<lambda>w. w\<lparr>last_scanned := now, network := d\<rparr>) m\<rparr>)"
      using 1(1) u by (simp add: rtw_update_scanned_network_def u_def m_def Let_def)
    ultimately show ?thesis by blast
  next
    case 2
    show ?thesis
    proof (cases "free_bss_pool m")
      case Nil
      have "0 \<in> {..<MAX_BSS_CNT}" by (simp add: MAX_BSS_CNT_def)
      then have "set (free_bss_pool m) \<union> set (scanned_queue m) \<noteq> {}"
        unfolding table_inv_lists(2) [OF inv [folded m_def]] by blast
      then have "scanned_queue m \<noteq> []" using Nil by simp
      then obtain k where k: "fold (older (bss_buf m)) (scanned_queue m) None = Some k"
        "k \<in> set (scanned_queue m)"
        "\<forall>i \<in> set (scanned_queue m). age now (bss_buf m ! i) \<le> age now (bss_buf m ! k)"
        using oldest.fold_keep_None [of "scanned_queue m" now "bss_buf m", folded older_keep_best] ages
        by (auto simp: ages_ok_def m_def split: option.splits)
      obtain net where net: "copy_bss (network (bss_buf m ! k)) t1 = Some net" "bss_wf net"
        "net_key net = net_key t"
        using copy_bss_wf [OF table_inv_index(2) [OF inv [folded m_def] k(2)] t12(1)] t12 by auto
      let ?f = "\<lambda>w. w\<lparr>network := fix_quality net, fixed := False, last_scanned := now,
        network_type := 0, net_aid := 0, join_res := 0\<rparr>"
      have "entered now t m (set_network k ?f m)"
        using inv once k net 2(2) Nil by (intro entered_set_network) (simp_all add: m_def)
      moreover have "rtw_update_scanned_network now t ad = Some (ad\<lparr>mlmepriv := set_network k ?f m\<rparr>)"
        using 2(1) k(1) net(1) Nil
        by (simp add: rtw_update_scanned_network_def m_def Let_def t1_def)
      ultimately show ?thesis by blast
    next
      case (Cons i0 free)
      obtain i m1 where al: "rtw_alloc_network now m = (Some i, m1)"
        using Cons by (simp add: rtw_alloc_network_def)
      note a = alloc_insert_inv [OF inv [folded m_def] al]
      have wi: "bss_wf (network (bss_buf m1 ! i))"
        using a(3,9) [OF t] inv by (simp add: table_inv_def m_def)
      obtain net where net: "copy_bss (network (bss_buf m1 ! i)) t2 = Some net" "bss_wf net"
        "net_key net = net_key t"
        using copy_bss_wf [OF wi t12(2)] t12 by auto
      define m2 where "m2 = set_network i (\<lambda>w. w\<lparr>network := fix_quality net, last_scanned := now\<rparr>) m1"
      define m3 where "m3 = m2\<lparr>scanned_queue := scanned_queue m2 @ [i]\<rparr>"
      have fq: "bss_wf (fix_quality net)" using net by simp
      note b = a [OF fq]
      have inv3: "table_inv m3" using b(1) [of now] by (simp add: m3_def m2_def)
      have sk: "slot_key m3 i = net_key t" "last_scanned (bss_buf m3 ! i) = now"
        "\<And>j. j \<noteq> i \<Longrightarrow> slot_key m3 j = slot_key m j" "scanned_queue m3 = scanned_queue m @ [i]"
        using b(3,5,7,8) net(3) by (simp_all add: slot_key_def m3_def m2_def)
      have l: "listed m3 = insert (net_key t) (listed m)" "listed_once m3"
        using listed_append [OF b(4) once [folded m_def] _ sk(4,3)] sk(1) 2(2) by simp_all
      have "entered now t m m3"
        using inv3 l sk Cons b(6,10) unfolding entered_def by (auto simp: m3_def m2_def)
      moreover have "rtw_update_scanned_network now t ad = Some (ad\<lparr>mlmepriv := m3\<rparr>)"
        using 2(1) al net(1) Cons
        by (simp add: rtw_update_scanned_network_def m_def Let_def t2_def m3_def m2_def)
      ultimately show ?thesis by blast
    qed
  qed
  then show ?thesis by (simp add: m_def)
qed

end
