(* ===== verification/Scan_Join.thy ===== *)
theory Scan_Join
  imports Scan_Table
begin

text \<open>
  What the states of \<^verbatim>\<open>core/rtw_mlme.c\<close> do with the table of scanned networks: the choice of the
  network to join, the network that a join event fixes, the release of the associated network, the
  network of a created IBSS and the expiry of old networks; a step relation of all of them, with
  the invariant of the table.
\<close>

section \<open>Choosing a network\<close>

abbreviation (input) "Ndis802_11EncryptionDisabled \<equiv> 1 :: nat"
abbreviation (input) "Ndis802_11AuthModeWPA2PSK \<equiv> 7 :: nat"
abbreviation (input) "RSN_IE_2 \<equiv> 48 :: int"

definition rtw_is_desired_network :: "mlme_adapter \<Rightarrow> wlan_network \<Rightarrow> bool option" where
  "rtw_is_desired_network ad pnetwork = do {
     let m = mlmepriv ad;
     let b = network pnetwork;
     let ielen = IELength b - of_nat FIXED_IE_LENGTH;
     if mlme_check_fwstate m WIFI_UNDER_WPS then do {
       (wps, _, _) \<leftarrow> rtw_get_wps_ie (IEs b) FIXED_IE_LENGTH ielen None;
       Some (wps \<noteq> None)
     }
     else do {
       bselected \<leftarrow>
         (if wifi_spec ad = 1 then
            if ndisauthtype ad = Ndis802_11AuthModeWPA2PSK then do {
              (p, ie_len) \<leftarrow> rtw_get_ie (IEs b) FIXED_IE_LENGTH RSN_IE_2 0 (sint ielen);
              Some (p \<noteq> None \<and> 0 < ie_len)
            }
            else Some (\<not> (ndisencryptstatus ad = Ndis802_11EncryptionDisabled \<and> Privacy b \<noteq> 0))
          else Some True);
       Some (bselected \<and>
         \<not> (ndisencryptstatus ad \<noteq> Ndis802_11EncryptionDisabled \<and> Privacy b = 0) \<and>
         \<not> (mlme_check_fwstate m WIFI_ADHOC_STATE \<and>
            InfrastructureMode b \<noteq> InfrastructureMode (network (cur_network m))))
     }
   }"

definition RTW_SCAN_RESULT_EXPIRE :: int where "RTW_SCAN_RESULT_EXPIRE = 2000"

text \<open>The milliseconds since \<open>start\<close>; the product wraps.\<close>

definition rtw_get_passing_time_ms :: "u32 \<Rightarrow> u32 \<Rightarrow> u32 \<Rightarrow> int" where
  "rtw_get_passing_time_ms HZ now start = sint (((now - start) * 1000) div HZ)"

text \<open>The conditions under which a competitor is considered, in the order of the code.\<close>

definition join_allowed :: "u32 \<Rightarrow> u32 \<Rightarrow> mlme_adapter \<Rightarrow> wlan_network \<Rightarrow> bool option" where
  "join_allowed HZ now ad w = do {
     let m = mlmepriv ad;
     if assoc_by_bssid m \<and> MacAddress (network w) \<noteq> assoc_bssid m then Some False
     else do {
       ssid_ok \<leftarrow>
         (if assoc_ssid_len m = 0 then Some True
          else if SsidLength (network w) \<noteq> assoc_ssid_len m then Some False
          else ssid_eq (Ssid (network w)) (assoc_ssid m) (assoc_ssid_len m));
       if \<not> ssid_ok then Some False
       else do {
         desired \<leftarrow> rtw_is_desired_network ad w;
         if \<not> desired then Some False
         else if 0 < to_roaming m then
           if RTW_SCAN_RESULT_EXPIRE \<le> rtw_get_passing_time_ms HZ now (last_scanned w) then Some False
           else is_same_ess (network w) (network (cur_network m))
         else Some True
       }
     }
   }"

definition rtw_check_join_candidate ::
  "u32 \<Rightarrow> u32 \<Rightarrow> mlme_adapter \<Rightarrow> nat option \<Rightarrow> nat \<Rightarrow> nat option option" where
  "rtw_check_join_candidate HZ now ad candidate competitor = do {
     let buf = bss_buf (mlmepriv ad);
     ok \<leftarrow> join_allowed HZ now ad (buf ! competitor);
     if \<not> ok then Some candidate
     else case candidate of
            None \<Rightarrow> Some (Some competitor)
          | Some c \<Rightarrow>
              if Rssi (network (buf ! c)) < Rssi (network (buf ! competitor))
              then Some (Some competitor) else Some candidate
   }"

text \<open>The loop of \<^verbatim>\<open>rtw_select_and_join_from_scanned_queue\<close>.\<close>

fun select_candidate ::
  "u32 \<Rightarrow> u32 \<Rightarrow> mlme_adapter \<Rightarrow> nat list \<Rightarrow> nat option \<Rightarrow> nat option option" where
  "select_candidate HZ now ad [] candidate = Some candidate"
| "select_candidate HZ now ad (i # q) candidate = do {
     c \<leftarrow> rtw_check_join_candidate HZ now ad candidate i;
     select_candidate HZ now ad q c
   }"

section \<open>Joining and leaving\<close>

text \<open>
  The network that a join event is about: the flag of the network that was joined before is
  cleared and its station freed; in the station state the flag of the new one is set.
  \<open>mac\<close> is the address in the event.
\<close>

definition set_fixed :: "bool \<Rightarrow> nat option \<Rightarrow> mlme_priv \<Rightarrow> mlme_priv" where
  "set_fixed v pwlan m =
     (case pwlan of None \<Rightarrow> m | Some i \<Rightarrow> set_network i (\<lambda>w. w\<lparr>fixed := v\<rparr>) m)"

definition free_station_of :: "mac \<Rightarrow> adapter \<Rightarrow> adapter" where
  "free_station_of mac sa =
     (case rtw_get_stainfo (stapriv sa) (Some mac) of
        None \<Rightarrow> sa
      | Some i \<Rightarrow>
          let sa = rtw_free_stainfo (Some i) (sa\<lparr>stapriv := lock_hash (stapriv sa)\<rparr>)
          in sa\<lparr>stapriv := unlock_hash (stapriv sa)\<rparr>)"

definition fix_target :: "mac \<Rightarrow> mlme_priv \<Rightarrow> nat option \<times> mlme_priv" where
  "fix_target mac m =
     (let target = rtw_find_network m mac
      in (target, if mlme_check_fwstate m WIFI_STATION_STATE then set_fixed True target m else m))"

definition joinbss_find_target :: "mac \<Rightarrow> mlme_adapter \<Rightarrow> nat option \<times> mlme_adapter" where
  "joinbss_find_target mac ad =
     (let m = mlmepriv ad; cur = MacAddress (network (cur_network m)) in
      if mlme_check_fwstate m FW_LINKED then
        if mac = cur then (rtw_find_network m cur, ad)
        else
          let m1 = set_fixed False (rtw_find_network m cur) m;
              (target, m2) = fix_target mac m1
          in (target, ad\<lparr>mlmepriv := m2, sta_adapter := free_station_of cur (sta_adapter ad)\<rparr>)
      else let (target, m1) = fix_target mac m in (target, ad\<lparr>mlmepriv := m1\<rparr>))"

text \<open>The group capability is cleared in the network's P2P element.\<close>

definition P2P_ATTR_CAPABILITY :: u8 where "P2P_ATTR_CAPABILITY = 0x02"

definition clear_group_capability :: "wlan_network \<Rightarrow> wlan_network run" where
  "clear_group_capability w =
     (let b = network w in
      case rtw_get_p2p_ie (IEs b) FIXED_IE_LENGTH (sint (IELength b - of_nat FIXED_IE_LENGTH)) None of
        None \<Rightarrow> Outside
      | Some (None, _, _) \<Rightarrow> Returns w
      | Some (Some p, _, p2p_ielen) \<Rightarrow>
          (case rtw_get_p2p_attr_content (IEs b) (Some p) p2p_ielen P2P_ATTR_CAPABILITY None of
             Returns (Some pcap, _, capability_len) \<Rightarrow>
               if capability_len = 2
               then run_of (do { ies \<leftarrow> write_at (pcap + 1) [0] (IEs b);
                                 Some (w\<lparr>network := b\<lparr>IEs := ies\<rparr>\<rparr>) })
               else Returns w
           | Returns (None, _, _) \<Rightarrow> Returns w
           | Outside \<Rightarrow> Outside
           | Endless \<Rightarrow> Endless))"

definition free_stations :: "mlme_priv \<Rightarrow> adapter \<Rightarrow> adapter" where
  "free_stations m sa =
     (let free_one = (\<lambda>psta sa. let sa = rtw_free_stainfo psta (sa\<lparr>stapriv := lock_hash (stapriv sa)\<rparr>)
                                in sa\<lparr>stapriv := unlock_hash (stapriv sa)\<rparr>);
          sa1 = (if mlme_check_fwstate m (WIFI_STATION_STATE OR WIFI_AP_STATE)
                 then free_one (rtw_get_stainfo (stapriv sa) (Some (MacAddress (network (cur_network m))))) sa
                 else sa)
      in if mlme_check_fwstate m (WIFI_ADHOC_STATE OR WIFI_ADHOC_MASTER_STATE OR WIFI_AP_STATE)
         then let sa2 = rtw_free_all_stainfo sa1
              in snd (rtw_init_bcmc_stainfo (free_one (rtw_get_bcmc_stainfo sa2) sa2))
         else sa1)"

definition rtw_free_assoc_resources :: "mlme_adapter \<Rightarrow> mlme_adapter run" where
  "rtw_free_assoc_resources ad =
     (let m = mlmepriv ad;
          sa = free_stations m (sta_adapter ad);
          pwlan = rtw_find_network m (MacAddress (network (cur_network m)));
          m1 = set_fixed False pwlan m;
          finish = (\<lambda>m. ad\<lparr>sta_adapter := sa, key_mask := 0,
             mlmepriv := if mlme_check_fwstate m WIFI_ADHOC_MASTER_STATE \<and> asoc_sta_count (stapriv sa) = 1
                         then rtw_free_network_nolock pwlan m else m\<rparr>)
      in case pwlan of
           None \<Rightarrow> Returns (finish m1)
         | Some i \<Rightarrow>
             if p2p_none ad then Returns (finish m1)
             else (case clear_group_capability (bss_buf m1 ! i) of
                     Returns w \<Rightarrow> Returns (finish (set_network i (\<lambda>_. w) m1))
                   | Outside \<Rightarrow> Outside
                   | Endless \<Rightarrow> Endless))"

text \<open>The network that is left is taken out of the table (\<^verbatim>\<open>rtw_stadel_event_callback\<close>).\<close>

definition drop_current_network :: "mlme_priv \<Rightarrow> mlme_priv" where
  "drop_current_network m =
     (case rtw_find_network m (MacAddress (network (cur_network m))) of
        None \<Rightarrow> m
      | Some i \<Rightarrow> rtw_free_network_nolock (Some i) (set_fixed False (Some i) m))"

text \<open>
  The network of a created IBSS takes a free network or the oldest that is not fixed, and becomes
  the current network (\<^verbatim>\<open>rtw_createbss_cmd_callback\<close>).
\<close>

definition list_created :: "WLAN_BSSID_EX \<Rightarrow> nat \<Rightarrow> mlme_priv \<Rightarrow> (status \<times> mlme_priv) option" where
  "list_created pnetwork i m = do {
     let b = pnetwork\<lparr>Length := get_WLAN_BSSID_EX_sz pnetwork\<rparr>;
     net \<leftarrow> copy_bss (network (bss_buf m ! i)) b;
     tgt \<leftarrow> copy_bss (network (cur_network m)) b;
     Some (SUCCESS, (set_network i (\<lambda>w. w\<lparr>network := net\<rparr>) m)
       \<lparr>cur_network := (cur_network m)\<lparr>network := tgt\<rparr>, fw_state := fw_state m AND NOT FW_UNDER_LINKING\<rparr>)
   }"

definition createbss_list_network ::
  "u32 \<Rightarrow> WLAN_BSSID_EX \<Rightarrow> mlme_priv \<Rightarrow> (status \<times> mlme_priv) option" where
  "createbss_list_network now pnetwork m =
     (case rtw_alloc_network now m of
        (Some i, m1) \<Rightarrow> list_created pnetwork i (m1\<lparr>scanned_queue := scanned_queue m1 @ [i]\<rparr>)
      | (None, m1) \<Rightarrow>
          (case rtw_get_oldest_wlan_network m1 of
             None \<Rightarrow> Some (FAIL, m1)
           | Some i \<Rightarrow> list_created pnetwork i (set_network i (\<lambda>w. w\<lparr>last_scanned := now\<rparr>) m1)))"

section \<open>The choice\<close>

lemma check_join_candidate_cases:
  assumes "join_allowed HZ now ad (bss_buf (mlmepriv ad) ! i) = Some ok"
  shows "rtw_check_join_candidate HZ now ad c i =
    Some (if ok \<and> (case c of None \<Rightarrow> True
                    | Some k \<Rightarrow> Rssi (network (bss_buf (mlmepriv ad) ! k)) < Rssi (network (bss_buf (mlmepriv ad) ! i)))
          then Some i else c)"
  using assms by (auto simp: rtw_check_join_candidate_def Let_def split: option.splits)

text \<open>The loop keeps the strongest of the networks that are allowed.\<close>

definition weaker :: "wlan_network list \<Rightarrow> nat \<Rightarrow> nat \<Rightarrow> bool" where
  "weaker buf j i \<longleftrightarrow> Rssi (network (buf ! j)) < Rssi (network (buf ! i))"

interpretation strongest: best_of "\<lambda>i. True" "weaker buf" "\<lambda>i. Rssi (network (buf ! i))"
  for buf :: "wlan_network list"
  by unfold_locales (simp add: weaker_def)

lemma select_candidate_fold:
  assumes "select_candidate HZ now ad q c = Some r"
  shows "(\<forall>i \<in> set q. join_allowed HZ now ad (bss_buf (mlmepriv ad) ! i) \<noteq> None) \<and>
    r = fold (keep_best (weaker (bss_buf (mlmepriv ad))))
          (filter (\<lambda>i. join_allowed HZ now ad (bss_buf (mlmepriv ad) ! i) = Some True) q) c"
  using assms
proof (induction q arbitrary: c)
  case Nil
  then show ?case by simp
next
  case (Cons i q)
  from Cons.prems obtain d where d: "rtw_check_join_candidate HZ now ad c i = Some d"
    "select_candidate HZ now ad q d = Some r" by (auto split: bind_splits)
  then obtain ok where ok: "join_allowed HZ now ad (bss_buf (mlmepriv ad) ! i) = Some ok"
    by (auto simp: rtw_check_join_candidate_def Let_def split: bind_splits)
  have "d = (if ok then keep_best (weaker (bss_buf (mlmepriv ad))) i c else c)"
    using d(1) unfolding check_join_candidate_cases [OF ok]
    by (auto simp: keep_best_def weaker_def split: option.splits)
  then show ?case using Cons.IH [OF d(2)] ok by simp
qed

text \<open>
  What it means that a network can be joined, said over its name, address and elements. \<open>holds_ies b es\<close>:
  behind the twelve fixed bytes the elements of \<open>b\<close> are the complete series \<open>es\<close>, in which no vendor
  element ends within the four bytes of the WPS identifier.
\<close>

definition holds_ies :: "WLAN_BSSID_EX \<Rightarrow> (u8 \<times> u8 list) list \<Rightarrow> bool" where
  "holds_ies b es \<longleftrightarrow> take (length (ies_bytes es)) (drop 12 (IEs b)) = ies_bytes es \<and> 12 + length (ies_bytes es) \<le> length (IEs b) \<and>
     unat (IELength b) = 12 + length (ies_bytes es) \<and> (\<forall>e \<in> set es. ex_valid VENDOR_SPECIFIC_IE (Some wps_oui) e)"

definition net_name :: "WLAN_BSSID_EX \<Rightarrow> u8 list" where
  "net_name b = take (unat (SsidLength b)) (Ssid b)"

definition security_fits :: "mlme_adapter \<Rightarrow> WLAN_BSSID_EX \<Rightarrow> (u8 \<times> u8 list) list \<Rightarrow> bool" where
  "security_fits ad b es \<longleftrightarrow>
     (ndisencryptstatus ad \<noteq> Ndis802_11EncryptionDisabled \<longrightarrow> Privacy b \<noteq> 0) \<and>
     (wifi_spec ad = 1 \<and> ndisauthtype ad = Ndis802_11AuthModeWPA2PSK \<longrightarrow>
        (case find (\<lambda>e. fst e = 48) es of None \<Rightarrow> False | Some e \<Rightarrow> snd e \<noteq> [])) \<and>
     (wifi_spec ad = 1 \<and> ndisauthtype ad \<noteq> Ndis802_11AuthModeWPA2PSK \<and>
        ndisencryptstatus ad = Ndis802_11EncryptionDisabled \<longrightarrow> Privacy b = 0)"

definition joinable :: "u32 \<Rightarrow> u32 \<Rightarrow> mlme_adapter \<Rightarrow> wlan_network \<Rightarrow> (u8 \<times> u8 list) list \<Rightarrow> bool" where
  "joinable HZ now ad w es \<longleftrightarrow>
     (let m = mlmepriv ad; b = network w in
      (assoc_by_bssid m \<longrightarrow> MacAddress b = assoc_bssid m) \<and>
      (assoc_ssid_len m \<noteq> 0 \<longrightarrow> net_name b = take (unat (assoc_ssid_len m)) (assoc_ssid m)) \<and>
      (if mlme_check_fwstate m WIFI_UNDER_WPS
       then \<exists>e \<in> set es. fst e = VENDOR_SPECIFIC_IE \<and> take 4 (snd e) = wps_oui
       else security_fits ad b es \<and>
         (mlme_check_fwstate m WIFI_ADHOC_STATE \<longrightarrow> InfrastructureMode b = InfrastructureMode (network (cur_network m)))) \<and>
      (0 < to_roaming m \<longrightarrow> rtw_get_passing_time_ms HZ now (last_scanned w) < 2000 \<and>
         net_name b = net_name (network (cur_network m))))"

lemma ssid_eq_names:
  assumes "bss_wf a" and "length y = 32" and "unat n \<le> 32"
  shows "(if SsidLength a = n then ssid_eq (Ssid a) y n else Some False) = Some (net_name a = take (unat n) y)"
proof -
  have "length (net_name a) = unat (SsidLength a)" "length (take (unat n) y) = unat n"
    using assms by (simp_all add: net_name_def bss_wf_def)
  then have "net_name a = take (unat n) y \<Longrightarrow> SsidLength a = n" by (metis word_unat_eq_iff)
  then show ?thesis using assms by (auto simp: ssid_eq_def read_at_def bss_wf_def net_name_def)
qed

lemma holds_ies_split:
  assumes "holds_ies b es"
  obtains post where "IEs b = take 12 (IEs b) @ ies_bytes es @ post" "length (take 12 (IEs b)) = 12"
    "IELength b - 12 = of_nat (length (ies_bytes es))"
proof
  show "IEs b = take 12 (IEs b) @ ies_bytes es @ drop (length (ies_bytes es)) (drop 12 (IEs b))"
    using assms unfolding holds_ies_def by (metis append_take_drop_id)
  show "length (take 12 (IEs b)) = 12" using assms by (simp add: holds_ies_def)
  have "IELength b = of_nat (unat (IELength b))" by simp
  also have "\<dots> = 12 + of_nat (length (ies_bytes es))" using assms by (simp add: holds_ies_def)
  finally show "IELength b - 12 = of_nat (length (ies_bytes es))" by simp
qed

lemma find_first_hit: "find P es = map_option fst (first_hit enc P p es)"
  by (induction es arbitrary: p) auto

lemma desired_network_reads:
  assumes "holds_ies b es" and "bss_wf b"
  shows "\<exists>p l. rtw_get_wps_ie (IEs b) FIXED_IE_LENGTH (IELength b - of_nat FIXED_IE_LENGTH) None = Some (p, l) \<and>
      (p \<noteq> None \<longleftrightarrow> (\<exists>e \<in> set es. fst e = VENDOR_SPECIFIC_IE \<and> take 4 (snd e) = wps_oui))"
    and "\<exists>p n. rtw_get_ie (IEs b) FIXED_IE_LENGTH RSN_IE_2 0 (sint (IELength b - of_nat FIXED_IE_LENGTH)) = Some (p, n) \<and>
      (p \<noteq> None \<and> 0 < n \<longleftrightarrow> (case find (\<lambda>e. fst e = 48) es of None \<Rightarrow> False | Some e \<Rightarrow> snd e \<noteq> []))"
proof -
  obtain post where sp: "IEs b = take 12 (IEs b) @ ies_bytes es @ post" "length (take 12 (IEs b)) = 12"
    "IELength b - 12 = of_nat (length (ies_bytes es))"
    by (rule holds_ies_split [OF assms(1)])
  define pre where "pre = take 12 (IEs b)"
  have l: "length (ies_bytes es) \<le> 768" using assms by (simp add: holds_ies_def bss_wf_def MAX_IE_SZ_def)
  have v: "\<forall>e \<in> set es. ex_valid VENDOR_SPECIFIC_IE (Some wps_oui) e" using assms(1) by (simp add: holds_ies_def)
  have IE: "IEs b = pre @ ies_bytes es @ post" "length pre = 12" using sp by (simp_all add: pre_def)
  have si: "sint (of_nat (length (ies_bytes es)) :: u32) = int (length (ies_bytes es))"
    using l by (simp add: signed_of_nat signed_take_bit_int_eq_self)
  show "\<exists>p l. rtw_get_wps_ie (IEs b) FIXED_IE_LENGTH (IELength b - of_nat FIXED_IE_LENGTH) None = Some (p, l) \<and>
      (p \<noteq> None \<longleftrightarrow> (\<exists>e \<in> set es. fst e = VENDOR_SPECIFIC_IE \<and> take 4 (snd e) = wps_oui))"
  proof (cases "es = []")
    case True
    then show ?thesis using sp(3) by (simp add: rtw_get_wps_ie_def rtw_get_ie_ex_def FIXED_IE_LENGTH_def)
  next
    case False
    then have "ies_bytes es \<noteq> []" by (cases es) simp_all
    from get_ie_ex_series [OF v _ this, of 4 pre post] l IE sp(3)
    show ?thesis
      using first_hit_None [of ie_bytes "ex_hit VENDOR_SPECIFIC_IE (Some wps_oui)" 12 es]
      by (auto simp: rtw_get_wps_ie_def oui_size_def FIXED_IE_LENGTH_def ex_hit_def split: option.splits)
  qed
  show "\<exists>p n. rtw_get_ie (IEs b) FIXED_IE_LENGTH RSN_IE_2 0 (sint (IELength b - of_nat FIXED_IE_LENGTH)) = Some (p, n) \<and>
      (p \<noteq> None \<and> 0 < n \<longleftrightarrow> (case find (\<lambda>e. fst e = 48) es of None \<Rightarrow> False | Some e \<Rightarrow> snd e \<noteq> []))"
  proof -
    have "\<forall>e \<in> set es. ie_ok e" using v by (simp add: ex_valid_def)
    moreover have "(uint x = 48) = (x = (48 :: u8))" for x using word_uint_eq_iff [of x 48] by simp
    ultimately show ?thesis
      using get_ie.search_series [of es pre post RSN_IE_2] find_first_hit [of "\<lambda>e. fst e = 48" es ie_bytes 12] IE sp(3) si
      by (auto simp: FIXED_IE_LENGTH_def ies_bytes_def split: option.splits)
  qed
qed

lemma desired_network_iff:
  assumes "holds_ies (network w) es" and "bss_wf (network w)"
  shows "rtw_is_desired_network ad w = Some (if mlme_check_fwstate (mlmepriv ad) WIFI_UNDER_WPS
      then \<exists>e \<in> set es. fst e = VENDOR_SPECIFIC_IE \<and> take 4 (snd e) = wps_oui
      else security_fits ad (network w) es \<and> (mlme_check_fwstate (mlmepriv ad) WIFI_ADHOC_STATE \<longrightarrow>
        InfrastructureMode (network w) = InfrastructureMode (network (cur_network (mlmepriv ad)))))"
proof -
  obtain p l where w: "rtw_get_wps_ie (IEs (network w)) FIXED_IE_LENGTH (IELength (network w) - of_nat FIXED_IE_LENGTH) None = Some (p, l)"
    "p \<noteq> None \<longleftrightarrow> (\<exists>e \<in> set es. fst e = VENDOR_SPECIFIC_IE \<and> take 4 (snd e) = wps_oui)"
    using desired_network_reads(1) [OF assms] by blast
  obtain q n where r: "rtw_get_ie (IEs (network w)) FIXED_IE_LENGTH RSN_IE_2 0 (sint (IELength (network w) - of_nat FIXED_IE_LENGTH)) =
      Some (q, n)"
    "q \<noteq> None \<and> 0 < n \<longleftrightarrow> (case find (\<lambda>e. fst e = 48) es of None \<Rightarrow> False | Some e \<Rightarrow> snd e \<noteq> [])"
    using desired_network_reads(2) [OF assms] by blast
  show ?thesis
    unfolding rtw_is_desired_network_def Let_def w(1) r(1) bind.bind_lunit prod.case security_fits_def w(2) [symmetric]
      r(2) [symmetric]
    by (cases l) auto
qed

lemma join_allowed_iff:
  assumes "holds_ies (network w) es" and "bss_wf (network w)" and "bss_wf (network (cur_network (mlmepriv ad)))"
    and "length (assoc_ssid (mlmepriv ad)) = 32" and "unat (assoc_ssid_len (mlmepriv ad)) \<le> 32"
  shows "join_allowed HZ now ad w = Some (joinable HZ now ad w es)"
proof -
  let ?m = "mlmepriv ad"
  have n: "(if SsidLength (network w) \<noteq> assoc_ssid_len ?m then Some False
      else ssid_eq (Ssid (network w)) (assoc_ssid ?m) (assoc_ssid_len ?m)) =
      Some (net_name (network w) = take (unat (assoc_ssid_len ?m)) (assoc_ssid ?m))"
    using ssid_eq_names [OF assms(2,4,5)] by (auto split: if_splits)
  have c: "is_same_ess (network w) (network (cur_network ?m)) = Some (net_name (network w) = net_name (network (cur_network ?m)))"
    using ssid_eq_names [OF assms(2), of "Ssid (network (cur_network ?m))" "SsidLength (network (cur_network ?m))"] assms(3)
    by (auto simp: is_same_ess_def bss_wf_def net_name_def split: if_splits)
  show ?thesis
    unfolding join_allowed_def Let_def n c desired_network_iff [OF assms(1,2)] joinable_def
    by (auto simp: RTW_SCAN_RESULT_EXPIRE_def)
qed

lemma select_candidate_total:
  assumes "\<forall>i \<in> set q. join_allowed HZ now ad (bss_buf (mlmepriv ad) ! i) \<noteq> None"
  shows "\<exists>r. select_candidate HZ now ad q c = Some r"
  using assms
proof (induction q arbitrary: c)
  case (Cons i q)
  then obtain ok where "join_allowed HZ now ad (bss_buf (mlmepriv ad) ! i) = Some ok" by auto
  then obtain d where "rtw_check_join_candidate HZ now ad c i = Some d" using check_join_candidate_cases by blast
  then show ?case using Cons by simp
qed simp

section \<open>Expiry\<close>

definition expires :: "u32 \<Rightarrow> u32 \<Rightarrow> bool \<Rightarrow> mlme_priv \<Rightarrow> nat \<Rightarrow> bool" where
  "expires HZ now isfreeall m i \<longleftrightarrow> \<not> fixed (bss_buf m ! i) \<and>
     (isfreeall \<or>
      (if mlme_check_fwstate m WIFI_ADHOC_MASTER_STATE \<or> mlme_check_fwstate m WIFI_ADHOC_STATE
       then 1 else SCANQUEUE_LIFETIME) \<le> (now - last_scanned (bss_buf m ! i)) div HZ)"

lemma rtw_free_network_expires:
  "rtw_free_network HZ now isfreeall (Some i) m = (if expires HZ now isfreeall m i then to_pool i m else m)"
  by (auto simp: rtw_free_network_def expires_def Let_def not_less not_le)

lemma to_pool_simps [simp]:
  "bss_buf (to_pool i m) = bss_buf m" "fw_state (to_pool i m) = fw_state m"
  "cur_network (to_pool i m) = cur_network m"
  "scanned_queue (to_pool i m) = removeAll i (scanned_queue m)"
  "free_bss_pool (to_pool i m) = removeAll i (free_bss_pool m) @ [i]"
  "num_of_scanned (to_pool i m) = num_of_scanned m - 1"
  "assoc_ssid_len (to_pool i m) = assoc_ssid_len m" "assoc_ssid (to_pool i m) = assoc_ssid m"
  "assoc_bssid (to_pool i m) = assoc_bssid m" "assoc_by_bssid (to_pool i m) = assoc_by_bssid m"
  "to_roaming (to_pool i m) = to_roaming m"
  by (simp_all add: to_pool_def)

lemma expires_to_pool [simp]: "expires HZ now all (to_pool i m) = expires HZ now all m"
  by (simp add: expires_def fun_eq_iff mlme_check_fwstate_def)

lemma fold_to_pool:
  assumes "distinct q" and "set q \<inter> set (free_bss_pool m) = {}"
    and P: "\<And>i m. i \<in> set q \<Longrightarrow> P (to_pool i m) = P m"
  shows "fold (\<lambda>i m. if P m i then to_pool i m else m) q m =
    m\<lparr>scanned_queue := filter (\<lambda>i. \<not> (i \<in> set q \<and> P m i)) (scanned_queue m),
      free_bss_pool := free_bss_pool m @ filter (P m) q,
      num_of_scanned := num_of_scanned m - of_nat (length (filter (P m) q))\<rparr>"
  using assms
proof (induction q arbitrary: m)
  case Nil
  then show ?case by simp
next
  case (Cons i q)
  show ?case
  proof (cases "P m i")
    case False
    then have "filter (\<lambda>j. \<not> (j \<in> set q \<and> P m j)) (scanned_queue m) =
        filter (\<lambda>j. \<not> (j \<in> set (i # q) \<and> P m j)) (scanned_queue m)"
      by (intro filter_cong) auto
    then show ?thesis using False Cons by simp
  next
    case True
    have pm: "P (to_pool i m) = P m" using Cons.prems(3) by simp
    have i: "i \<notin> set (free_bss_pool m)" using Cons.prems(2) by simp
    have "fold (\<lambda>i m. if P m i then to_pool i m else m) q (to_pool i m) =
      (to_pool i m)\<lparr>scanned_queue := filter (\<lambda>i. \<not> (i \<in> set q \<and> P m i)) (scanned_queue (to_pool i m)),
        free_bss_pool := free_bss_pool (to_pool i m) @ filter (P m) q,
        num_of_scanned := num_of_scanned (to_pool i m) - of_nat (length (filter (P m) q))\<rparr>"
      unfolding pm [symmetric] by (rule Cons.IH) (use Cons.prems i in auto)
    moreover have "filter (\<lambda>j. \<not> (j \<in> set q \<and> P m j)) (removeAll i (scanned_queue m)) =
        filter (\<lambda>j. \<not> (j \<in> set (i # q) \<and> P m j)) (scanned_queue m)"
      using True by (simp add: removeAll_filter_not_eq) (intro filter_cong, auto)
    ultimately show ?thesis
      using True i by (intro mlme_priv.equality) (simp_all add: algebra_simps)
  qed
qed

lemma rtw_free_network_queue_filter:
  assumes "table_inv m"
  shows "rtw_free_network_queue HZ now isfreeall m =
    m\<lparr>scanned_queue := filter (\<lambda>i. \<not> expires HZ now isfreeall m i) (scanned_queue m),
      free_bss_pool := free_bss_pool m @ filter (expires HZ now isfreeall m) (scanned_queue m),
      num_of_scanned := of_nat (length (filter (\<lambda>i. \<not> expires HZ now isfreeall m i) (scanned_queue m)))\<rparr>"
proof -
  let ?P = "expires HZ now isfreeall"
  have d: "distinct (scanned_queue m)" "set (scanned_queue m) \<inter> set (free_bss_pool m) = {}"
    using table_inv_lists(1) [OF assms] by auto
  have "rtw_free_network_queue HZ now isfreeall m =
      fold (\<lambda>i m. if ?P m i then to_pool i m else m) (scanned_queue m) m"
    by (simp add: rtw_free_network_queue_def rtw_free_network_expires [abs_def])
  also have "\<dots> = m\<lparr>scanned_queue := filter (\<lambda>i. \<not> (i \<in> set (scanned_queue m) \<and> ?P m i)) (scanned_queue m),
      free_bss_pool := free_bss_pool m @ filter (?P m) (scanned_queue m),
      num_of_scanned := num_of_scanned m - of_nat (length (filter (?P m) (scanned_queue m)))\<rparr>"
    by (rule fold_to_pool [OF d]) simp
  also have "filter (\<lambda>i. \<not> (i \<in> set (scanned_queue m) \<and> ?P m i)) (scanned_queue m) =
      filter (\<lambda>i. \<not> ?P m i) (scanned_queue m)" by (intro filter_cong) auto
  also have "num_of_scanned m - of_nat (length (filter (?P m) (scanned_queue m))) =
      of_nat (length (filter (\<lambda>i. \<not> ?P m i) (scanned_queue m)))"
  proof -
    have "num_of_scanned m = of_nat (length (filter (?P m) (scanned_queue m)) +
        length (filter (\<lambda>i. \<not> ?P m i) (scanned_queue m)))"
      using assms by (simp add: table_inv_def sum_length_filter_compl)
    then show ?thesis by simp
  qed
  finally show ?thesis .
qed

lemma free_scanqueue_all:
  assumes "table_inv m"
  shows "free_scanqueue m =
    m\<lparr>scanned_queue := [], free_bss_pool := free_bss_pool m @ scanned_queue m, num_of_scanned := 0\<rparr>"
proof -
  have d: "distinct (scanned_queue m)" "set (scanned_queue m) \<inter> set (free_bss_pool m) = {}"
    using table_inv_lists(1) [OF assms] by auto
  have "filter (\<lambda>i. \<not> (i \<in> set (scanned_queue m) \<and> True)) (scanned_queue m) = []"
    by (simp add: filter_empty_conv)
  then show ?thesis
    using fold_to_pool [OF d, of "\<lambda>_ _. True"] assms by (simp add: free_scanqueue_def table_inv_def)
qed

section \<open>The invariant\<close>

lemma free_network_queue_inv:
  assumes "table_inv m"
  shows "table_inv (rtw_free_network_queue HZ now isfreeall m)"
proof -
  have "mset (filter P q) + mset (filter (\<lambda>i. \<not> P i) q) = mset q" for P and q :: "nat list"
    by (induction q) simp_all
  then show ?thesis
    using assms unfolding rtw_free_network_queue_filter [OF assms] table_inv_def
    by (simp add: union_assoc)
qed

lemma free_scanqueue_inv: "table_inv m \<Longrightarrow> table_inv (free_scanqueue m)"
  by (simp add: free_scanqueue_all) (simp add: table_inv_def)

lemma find_network_scanned:
  "rtw_find_network m mac = Some i \<Longrightarrow> i \<in> set (scanned_queue m) \<and> MacAddress (network (bss_buf m ! i)) = mac"
  by (auto simp: rtw_find_network_def find_Some_iff split: if_splits)

lemma set_fixed_inv:
  assumes "table_inv m" and "\<And>i. p = Some i \<Longrightarrow> i \<in> set (scanned_queue m)"
  shows "table_inv (set_fixed v p m)"
proof (cases p)
  case None
  then show ?thesis using assms by (simp add: set_fixed_def)
next
  case (Some i)
  then have "bss_wf (network (bss_buf m ! i))" using table_inv_index(2) assms by blast
  then show ?thesis using Some assms(1) by (auto simp: set_fixed_def intro!: table_inv_set_network)
qed

lemma set_fixed_simps [simp]:
  "scanned_queue (set_fixed v p m) = scanned_queue m" "cur_network (set_fixed v p m) = cur_network m"
  "free_bss_pool (set_fixed v p m) = free_bss_pool m" "fw_state (set_fixed v p m) = fw_state m"
  by (simp_all add: set_fixed_def split: option.split)

lemma free_network_nolock_inv:
  assumes "table_inv m" and "\<And>i. p = Some i \<Longrightarrow> i \<in> set (scanned_queue m)"
  shows "table_inv (rtw_free_network_nolock p m)"
  using assms by (auto simp: rtw_free_network_nolock_def table_inv_to_pool split: option.split)

lemma drop_current_network_inv: "table_inv m \<Longrightarrow> table_inv (drop_current_network m)"
  unfolding drop_current_network_def
  by (auto split: option.split dest: find_network_scanned intro!: free_network_nolock_inv set_fixed_inv)

lemma fix_target_inv: "fix_target mac m = (t, m') \<Longrightarrow> table_inv m \<Longrightarrow> table_inv m'"
  by (auto simp: fix_target_def Let_def dest: find_network_scanned intro!: set_fixed_inv split: if_splits)

lemma joinbss_find_target_inv:
  assumes inv: "table_inv (mlmepriv ad)" and j: "joinbss_find_target mac ad = (t, ad')"
  shows "table_inv (mlmepriv ad')"
proof -
  have "table_inv (set_fixed False (rtw_find_network (mlmepriv ad) c) (mlmepriv ad))" for c
    using inv by (intro set_fixed_inv) (auto dest: find_network_scanned)
  then show ?thesis
    using j inv by (auto simp: joinbss_find_target_def Let_def split: if_splits prod.splits dest: fix_target_inv)
qed

lemma list_created_inv:
  assumes b: "bss_wf pnetwork" and l: "list_created pnetwork i n = Some (st, n')"
    and n: "table_inv n" and i: "i \<in> set (scanned_queue n)"
  shows "table_inv n'"
proof -
  define b' where "b' = pnetwork\<lparr>Length := get_WLAN_BSSID_EX_sz pnetwork\<rparr>"
  have b': "bss_wf b'" using b by (simp add: b'_def)
  obtain net tgt where e: "copy_bss (network (bss_buf n ! i)) b' = Some net"
    "copy_bss (network (cur_network n)) b' = Some tgt"
    "n' = (set_network i (\<lambda>w. w\<lparr>network := net\<rparr>) n)
       \<lparr>cur_network := (cur_network n)\<lparr>network := tgt\<rparr>, fw_state := fw_state n AND NOT FW_UNDER_LINKING\<rparr>"
    using l by (auto simp: list_created_def Let_def b'_def split: bind_splits)
  have w: "bss_wf net" "bss_wf tgt"
    using copy_bss_wf [OF table_inv_index(2) [OF n i] b'] copy_bss_wf [OF _ b', of "network (cur_network n)"]
      n e(1,2) by (auto simp: table_inv_def)
  have "table_inv (set_network i (\<lambda>w. w\<lparr>network := net\<rparr>) n)"
    by (rule table_inv_set_network [OF n]) (simp add: w)
  then show ?thesis using w(2) by (simp add: table_inv_def e(3))
qed

lemma get_oldest_scanned:
  assumes "rtw_get_oldest_wlan_network m = Some i"
  shows "i \<in> set (scanned_queue m)"
proof -
  let ?f = "\<lambda>i r. if fixed (bss_buf m ! i) then r else older (bss_buf m) i r"
  have some: "i \<in> insert k (set q)" if "fold ?f q (Some k) = Some i" for q k
    using that by (induction q arbitrary: k) (auto simp: older_def split: if_splits)
  have "i \<in> set q" if "fold ?f q None = Some i" for q
    using that by (induction q) (auto simp: older_def dest: some split: if_splits)
  then show ?thesis using assms by (simp add: rtw_get_oldest_wlan_network_def)
qed

lemma createbss_list_network_inv:
  assumes inv: "table_inv m" and b: "bss_wf pnetwork"
    and c: "createbss_list_network now pnetwork m = Some (st, m')"
  shows "table_inv m'"
proof (cases "rtw_alloc_network now m")
  case (Pair a m1)
  show ?thesis
  proof (cases a)
    case (Some i)
    note al = alloc_insert_inv [OF inv Pair [unfolded Some]]
    have z: "bss_wf (network (bss_buf m1 ! i))"
      using al(3,9) [OF b] inv by (simp add: table_inv_def)
    have "set_network i (\<lambda>w. w\<lparr>network := network (bss_buf m1 ! i), last_scanned := last_scanned (bss_buf m1 ! i)\<rparr>) m1 = m1"
      by (simp add: set_network_def)
    then have "table_inv (m1\<lparr>scanned_queue := scanned_queue m1 @ [i]\<rparr>)"
      using al(1) [OF z, of "last_scanned (bss_buf m1 ! i)"] by simp
    then show ?thesis
      using c Pair Some
      by - (rule list_created_inv [OF b, of i "m1\<lparr>scanned_queue := scanned_queue m1 @ [i]\<rparr>" st],
          simp_all add: createbss_list_network_def)
  next
    case None
    then have m1: "m1 = m" using Pair by (auto simp: rtw_alloc_network_def split: list.splits)
    show ?thesis
    proof (cases "rtw_get_oldest_wlan_network m")
      case None
      then show ?thesis using c Pair \<open>a = None\<close> m1 inv by (simp add: createbss_list_network_def)
    next
      case (Some i)
      have i: "i \<in> set (scanned_queue m)" by (rule get_oldest_scanned [OF Some])
      have "table_inv (set_network i (\<lambda>w. w\<lparr>last_scanned := now\<rparr>) m)"
        using table_inv_index(2) [OF inv i] by (intro table_inv_set_network [OF inv]) simp
      then show ?thesis
        using c Pair \<open>a = None\<close> m1 Some i
        by - (rule list_created_inv [OF b, of i "set_network i (\<lambda>w. w\<lparr>last_scanned := now\<rparr>) m" st],
            simp_all add: createbss_list_network_def)
    qed
  qed
qed

section \<open>The elements a received network loses\<close>

lemma write_at_before: "write_at off ys b = Some b' \<Longrightarrow> n \<le> off \<Longrightarrow> take n b' = take n b"
  by (auto simp: write_at_def min_def split: if_splits)

lemma remove_attr_keeps:
  assumes r: "remove_attr ie ielen p n b = Some b'" and "ie \<le> p"
  shows "length b' = length b \<and> take ie b' = take ie b"
proof -
  obtain c d e l xs where w: "write_at p (replicate n 0) b = Some c" "write_at p xs c = Some d"
    "write_at (ie + ielen - n) (replicate n 0) d = Some e" "write_at (Suc ie) [l] e = Some b'"
    using r unfolding remove_attr_def Let_def by (auto simp: Option.bind_eq_Some_conv split: if_split_asm)
  have "p \<le> ie + ielen - n" using remove_attr_inside [OF r] by simp
  then have "take ie c = take ie b" "take ie d = take ie c" "take ie e = take ie d" "take ie b' = take ie e"
    using assms(2) write_at_before [OF w(1), of ie] write_at_before [OF w(2), of ie]
      write_at_before [OF w(3), of ie] write_at_before [OF w(4), of ie] by simp_all
  moreover have "length b' = length b"
    using write_at_Some_length [OF w(1)] write_at_Some_length [OF w(2)]
      write_at_Some_length [OF w(3)] write_at_Some_length [OF w(4)] by simp
  ultimately show ?thesis by simp
qed

lemma p2p_attr_remove_loop_keeps:
  "p2p_attr_remove_loop b ie ielen a = Returns (n, b') \<Longrightarrow>
     n \<le> ielen \<and> length b' = length b \<and> take ie b' = take ie b"
proof (induction b ie ielen a arbitrary: n b' rule: p2p_attr_remove_loop.induct)
  case (1 b ie ielen a)
  show ?case
  proof (cases "rtw_get_p2p_attr b (Some ie) (of_nat ielen) a None")
    case (Returns r)
    then obtain q buf m where r: "rtw_get_p2p_attr b (Some ie) (of_nat ielen) a None = Returns (q, buf, m)"
      by (cases r) auto
    show ?thesis
    proof (cases "q = None \<or> m = 0")
      case True
      then show ?thesis using 1(2) r by (subst (asm) p2p_attr_remove_loop.simps) (auto split: option.splits)
    next
      case False
      then obtain p where p: "q = Some p" "m \<noteq> 0" by auto
      obtain c where c: "remove_attr ie ielen p (unat m) b = Some c"
        "p2p_attr_remove_loop c ie (ielen - unat m) a = Returns (n, b')"
        using 1(2) r p by (subst (asm) p2p_attr_remove_loop.simps) (auto split: option.splits)
      have "n \<le> ielen - unat m \<and> length b' = length c \<and> take ie b' = take ie c"
        using 1(1) [OF r, of "Some p" "(buf, m)" p buf m c n b'] r p c by simp
      moreover have "ie \<le> p" using get_p2p_attr_from [OF r [unfolded p(1)]] by simp
      ultimately show ?thesis using remove_attr_keeps [OF c(1)]
        by (auto intro: order_trans [OF _ diff_le_self])
    qed
  next
    case Outside
    then show ?thesis using 1(2) by (subst (asm) p2p_attr_remove_loop.simps) simp
  next
    case Endless
    then show ?thesis using 1(2) by (subst (asm) p2p_attr_remove_loop.simps) simp
  qed
qed

lemma get_p2p_ie_from:
  assumes "rtw_get_p2p_ie b q l None = Some (Some p, buf, n)"
  shows "q \<le> p"
proof -
  have "get_p2p_ie_loop b q l c = Some (Some p) \<Longrightarrow> q \<le> p" for c
    by (induction b q l c rule: get_p2p_ie_loop.induct)
      (subst (asm) get_p2p_ie_loop.simps, auto simp: Option.bind_eq_Some_conv split: if_split_asm)
  then show ?thesis using assms
    by (auto simp: rtw_get_p2p_ie_def Option.bind_eq_Some_conv split: option.split_asm)
qed

text \<open>The twelve fixed bytes stay, and the elements do not become longer.\<close>

lemma remove_p2p_attr_keeps:
  assumes r: "rtw_WLAN_BSSID_EX_remove_p2p_attr ies len a = Returns (b, n)" and len: "length ies < 2 ^ 31"
    and 12: "12 \<le> unat len"
  shows "length b = length ies \<and> unat n \<le> unat len \<and> take 12 b = take 12 ies \<and> 12 \<le> unat n"
proof -
  obtain q buf ori where g: "rtw_get_p2p_ie ies FIXED_IE_LENGTH (sint (len - of_nat FIXED_IE_LENGTH)) None = Some (q, buf, ori)"
    using r by (auto simp: rtw_WLAN_BSSID_EX_remove_p2p_attr_def split: option.splits)
  show ?thesis
  proof (cases q)
    case None
    then show ?thesis using r g 12 by (simp add: rtw_WLAN_BSSID_EX_remove_p2p_attr_def)
  next
    case (Some p)
    have p: "12 \<le> p" using get_p2p_ie_from [OF g [unfolded Some]] by (simp add: FIXED_IE_LENGTH_def)
    obtain k c where l: "p2p_attr_remove_loop ies p (unat ori) a = Returns (k, c)"
      and rest: "if of_nat k \<noteq> ori then close_gap c len p ori (of_nat k) = Some (b, n) else b = c \<and> n = len"
      using r g Some by (auto simp: rtw_WLAN_BSSID_EX_remove_p2p_attr_def rtw_p2p_attr_remove_def
          split: run.splits option.splits if_splits)
    have k: "k \<le> unat ori" "length c = length ies" "take p c = take p ies"
      using p2p_attr_remove_loop_keeps [OF l] by simp_all
    have t12: "take 12 x = take 12 y" if "take p x = take p y" for x y :: "u8 list"
      using that p by (metis min.absorb2 min.commute take_take)
    show ?thesis
    proof (cases "of_nat k = ori")
      case True
      then have "b = c" "n = len" using rest by simp_all
      then show ?thesis using k(2) t12 [OF k(3)] 12 by simp
    next
      case False
      define e where "e = (of_nat k :: u32)"
      have e: "unat e = k" using k(1) unsigned_less [of ori, where 'a = nat]
        by (simp add: e_def unsigned_of_nat take_bit_nat_eq_self)
      define rem where "rem = len - of_nat (p + unat ori)"
      obtain xs d where x: "read_at (p + unat ori) (unat rem) c = Some xs"
        "write_at (p + unat e) xs c = Some d"
        "write_at (p + unat e + unat rem) (replicate (unat (ori - e)) 0) d = Some b" "n = len - (ori - e)"
        using rest False by (auto simp: close_gap_def Let_def rem_def e_def Option.bind_eq_Some_conv)
      have "length b = length ies"
        using write_at_Some_length [OF x(2)] write_at_Some_length [OF x(3)] k(2) by simp
      moreover have "take p b = take p ies"
        using write_at_before [OF x(3), of p] write_at_before [OF x(2), of p] k(3) by simp
      moreover define N where "N = p + unat ori + unat rem"
      have "N < 2 ^ 31" using x(1) len k(2) by (auto simp: N_def read_at_def split: if_splits)
      then have "unat (of_nat N :: u32) = N" by (simp add: unsigned_of_nat take_bit_nat_eq_self)
      moreover have "len = of_nat N" by (simp add: rem_def N_def)
      ultimately have u: "unat len = p + unat ori + unat rem" "take 12 b = take 12 ies" "length b = length ies"
        using t12 [of b ies] by (simp_all add: N_def)
      have o: "unat (ori - e) = unat ori - k" using k(1) e by (simp add: unat_sub word_le_nat_alt)
      have "unat n = unat len - (unat ori - k)"
        unfolding x(4) using o u(1) by (subst unat_sub) (simp_all add: word_le_nat_alt)
      then show ?thesis using u p by simp
    qed
  qed
qed

lemma remove_p2p_attr_short:
  assumes "unat len < 12" and "12 < length ies"
  shows "rtw_WLAN_BSSID_EX_remove_p2p_attr ies len a = Returns (ies, len)"
proof -
  define k where "k = unat len"
  have k: "k < 12" using assms(1) by (simp add: k_def)
  have "len = of_nat k" by (simp add: k_def)
  then have "len - 12 = word_of_int (int k - 12)" by simp
  moreover have "signed_take_bit 31 (int k - 12) = int k - 12"
    using k by (intro signed_take_bit_int_eq_self) simp_all
  ultimately have s: "sint (len - 12) = int k - 12" using sint_word_of_int_32 by metis
  have "(int k - 12) mod 4294967296 = int k - 12 + 4294967296"
    using k by (subst mod_add_self2 [symmetric]) (intro mod_pos_pos_trivial, simp_all)
  then have "get_p2p_ie_loop ies 12 (int k - 12) 0 = Some None"
    using k assms(2) by (subst get_p2p_ie_loop.simps) simp
  then show ?thesis
    by (simp add: rtw_WLAN_BSSID_EX_remove_p2p_attr_def rtw_get_p2p_ie_def FIXED_IE_LENGTH_def s)
qed

lemma remove_p2p_attr_wf:
  assumes b: "bss_wf b" and r: "rtw_WLAN_BSSID_EX_remove_p2p_attr (IEs b) (IELength b) a = Returns (ies, n)"
  shows "bss_wf (b\<lparr>IEs := ies, IELength := n\<rparr>)"
    and "12 \<le> unat (IELength b) \<Longrightarrow>
      net_key (b\<lparr>IEs := ies, IELength := n\<rparr>) = net_key b \<and> 12 \<le> unat n"
proof -
  have len: "length (IEs b) = 768" using b by (simp add: bss_wf_def MAX_IE_SZ_def)
  have long: "length ies = length (IEs b) \<and> unat n \<le> unat (IELength b) \<and>
      take 12 ies = take 12 (IEs b) \<and> 12 \<le> unat n" if "12 \<le> unat (IELength b)"
    by (rule remove_p2p_attr_keeps [OF r _ that]) (simp add: len)
  show "bss_wf (b\<lparr>IEs := ies, IELength := n\<rparr>)"
  proof (cases "12 \<le> unat (IELength b)")
    case True
    then show ?thesis using long b by (auto simp: bss_wf_def)
  next
    case False
    then have "ies = IEs b" "n = IELength b" using remove_p2p_attr_short [of "IELength b" "IEs b" a] r len by simp_all
    then show ?thesis using b by simp
  qed
  assume l: "12 \<le> unat (IELength b)"
  have "ies ! 10 = IEs b ! 10" "ies ! 11 = IEs b ! 11"
    using long [OF l] nth_take [of 10 12 ies] nth_take [of 10 12 "IEs b"]
      nth_take [of 11 12 ies] nth_take [of 11 12 "IEs b"] by simp_all
  then show "net_key (b\<lparr>IEs := ies, IELength := n\<rparr>) = net_key b \<and> 12 \<le> unat n"
    using long [OF l] by (simp add: net_key_def cap_of_def)
qed

section \<open>A received network\<close>

lemma rtw_update_protection_only_vcs:
  "rtw_update_protection b ie n ad = Some ad' \<Longrightarrow> \<exists>v. ad' = ad\<lparr>vcs := v\<rparr>"
  by (auto simp: rtw_update_protection_def Option.bind_eq_Some_conv split: if_splits option.splits)
    (metis mlme_adapter.surjective mlme_adapter.update_convs(14))

lemma update_current_network_keeps:
  assumes inv: "table_inv (mlmepriv ad)" and t: "bss_wf t"
    and u: "update_current_network ad t = Some (ad1, src)"
  shows "bss_wf src \<and> net_key src = net_key t \<and> IELength src = IELength t \<and>
    (\<exists>cur. mlmepriv ad1 = (mlmepriv ad)\<lparr>cur_network := cur\<rparr> \<and> bss_wf (network cur))"
proof -
  let ?m = "mlmepriv ad" and ?cur = "cur_network (mlmepriv ad)"
  have wc: "bss_wf (network ?cur)" using inv by (simp add: table_inv_def)
  obtain same where same: "(if mlme_check_fwstate ?m FW_LINKED then is_same_network (network ?cur) t
      else Some False) = Some same"
    by (cases "mlme_check_fwstate ?m FW_LINKED") (auto simp: is_same_network_key [OF wc t])
  show ?thesis
  proof (cases same)
    case False
    then have "ad1 = ad" "src = t" using u same by (simp_all add: update_current_network_def Let_def)
    then show ?thesis using t wc by (auto intro: exI [of _ ?cur])
  next
    case True
    obtain d s where d: "update_network ad True (network ?cur) t = Some (d, s)" "bss_wf d" "bss_wf s"
      "net_key s = net_key t" "IELength s = IELength t"
      using update_network_correct [OF wc t wc] by metis
    obtain ad2 where "rtw_update_protection (IEs d) FIXED_IE_LENGTH (IELength d)
        (ad\<lparr>mlmepriv := ?m\<lparr>cur_network := ?cur\<lparr>network := d\<rparr>\<rparr>\<rparr>) = Some ad2" "ad1 = ad2" "src = s"
      using u same True d(1) by (auto simp: update_current_network_def Let_def Option.bind_eq_Some_conv)
    then have "mlmepriv ad1 = ?m\<lparr>cur_network := ?cur\<lparr>network := d\<rparr>\<rparr>" "src = s"
      by (auto dest: rtw_update_protection_only_vcs)
    then show ?thesis using d by (auto intro: exI [of _ "?cur\<lparr>network := d\<rparr>"])
  qed
qed

lemma run_of_Returns [simp]: "run_of r = Returns x \<longleftrightarrow> r = Some x"
  by (simp add: run_of_def split: option.split)

lemma rtw_add_network_steps:
  assumes inv: "table_inv (mlmepriv ad)" and b: "bss_wf b" and r: "rtw_add_network now b ad = Returns ad'"
  obtains ad1 src cur where "rtw_update_scanned_network now src ad1 = Some ad'" "bss_wf src"
    "mlmepriv ad1 = (mlmepriv ad)\<lparr>cur_network := cur\<rparr>" "bss_wf (network cur)"
    "12 \<le> unat (IELength b) \<Longrightarrow> net_key src = net_key b \<and> 12 \<le> unat (IELength src)"
proof -
  obtain ies n ad1 src where s:
    "rtw_WLAN_BSSID_EX_remove_p2p_attr (IEs b) (IELength b) P2P_ATTR_GROUP_INFO = Returns (ies, n)"
    "update_current_network ad (b\<lparr>IEs := ies, IELength := n\<rparr>) = Some (ad1, src)"
    "rtw_update_scanned_network now src ad1 = Some ad'"
    using r by (auto simp: rtw_add_network_def Option.bind_eq_Some_conv split: run.splits prod.splits)
  note w = remove_p2p_attr_wf [OF b s(1)]
  have "bss_wf src \<and> net_key src = net_key (b\<lparr>IEs := ies, IELength := n\<rparr>) \<and>
      IELength src = IELength (b\<lparr>IEs := ies, IELength := n\<rparr>) \<and>
      (\<exists>cur. mlmepriv ad1 = (mlmepriv ad)\<lparr>cur_network := cur\<rparr> \<and> bss_wf (network cur))"
    by (rule update_current_network_keeps [OF inv w(1) s(2)])
  then show ?thesis using that [OF s(3)] w(2) by auto
qed

lemma table_inv_cur: "table_inv m \<Longrightarrow> bss_wf (network cur) \<Longrightarrow> table_inv (m\<lparr>cur_network := cur\<rparr>)"
  by (simp add: table_inv_def)

lemma rtw_update_scanned_network_inv:
  assumes inv: "table_inv (mlmepriv ad)" and t: "bss_wf t"
    and u: "rtw_update_scanned_network now t ad = Some ad'"
  shows "table_inv (mlmepriv ad')"
proof -
  define m where "m = mlmepriv ad"
  note inv = inv [folded m_def]
  have cur: "bss_wf (network (cur_network (mlmepriv ad)))" using inv by (simp add: table_inv_def m_def)
  have copy: "bss_wf d" if "copy_bss a c = Some d" "bss_wf a" "bss_wf c" for a c d
    using copy_bss_wf [OF that(2,3)] that(1) by auto
  from scan_table_found [OF inv t] show ?thesis
  proof (elim disjE exE conjE)
    fix i r
    assume w: "scan_walk (bss_buf m) t (scanned_queue m) None = Some (Some i, r)"
      and i: "i \<in> set (scanned_queue m)"
    obtain d s where d: "update_network ad (\<not> (IELength t < IELength (network (bss_buf m ! i)) \<and> hd (Reserved t) = 1))
        (network (bss_buf m ! i)) t = Some (d, s)" "bss_wf d"
      using update_network_correct [OF table_inv_index(2) [OF inv i] t cur] by metis
    have "mlmepriv ad' = set_network i (\<lambda>w. w\<lparr>last_scanned := now, network := d\<rparr>) m"
      using u w d(1) by (auto simp: rtw_update_scanned_network_def m_def Let_def)
    then show ?thesis using table_inv_set_network [OF inv] d(2) by simp
  next
    assume w: "scan_walk (bss_buf m) t (scanned_queue m) None =
        Some (None, fold (older (bss_buf m)) (scanned_queue m) None)"
    have scanned: "i \<in> set (scanned_queue m)" if f: "fold (older (bss_buf m)) (scanned_queue m) None = Some i" for i
    proof -
      have "fold (older (bss_buf m)) q (Some k) = Some i \<Longrightarrow> i \<in> insert k (set q)" for q k
        by (induction q arbitrary: k) (auto simp: older_def split: if_splits)
      then show ?thesis using f by (cases "scanned_queue m") (auto simp: older_def)
    qed
    show ?thesis
    proof (cases "free_bss_pool m")
      case Nil
      obtain i net where e: "fold (older (bss_buf m)) (scanned_queue m) None = Some i"
        "copy_bss (network (bss_buf m ! i)) (t\<lparr>Optimum_antenna := CurAntenna ad\<rparr>) = Some net"
        "mlmepriv ad' = set_network i (\<lambda>w. w\<lparr>network := fix_quality net, fixed := False,
          last_scanned := now, network_type := 0, net_aid := 0, join_res := 0\<rparr>) m"
        using u w Nil by (auto simp: rtw_update_scanned_network_def m_def Let_def Option.bind_eq_Some_conv)
      have "bss_wf net" using copy [OF e(2)] table_inv_index(2) [OF inv scanned [OF e(1)]] t by simp
      then show ?thesis unfolding e(3) by (intro table_inv_set_network [OF inv]) simp
    next
      case (Cons i0 free)
      obtain i m1 where al: "rtw_alloc_network now m = (Some i, m1)"
        using Cons by (simp add: rtw_alloc_network_def)
      have wi: "bss_wf (network (bss_buf m1 ! i))"
        using alloc_insert_inv(3,9) [OF inv al t] inv by (simp add: table_inv_def)
      obtain net where e: "copy_bss (network (bss_buf m1 ! i))
          (t\<lparr>Length := get_WLAN_BSSID_EX_sz t, Optimum_antenna := CurAntenna ad\<rparr>) = Some net"
        "mlmepriv ad' = (set_network i (\<lambda>w. w\<lparr>network := fix_quality net, last_scanned := now\<rparr>) m1)
           \<lparr>scanned_queue := scanned_queue m1 @ [i]\<rparr>"
        using u w Cons al by (auto simp: rtw_update_scanned_network_def m_def Let_def Option.bind_eq_Some_conv)
      have "bss_wf (fix_quality net)" using copy [OF e(1) wi] t by simp
      then show ?thesis unfolding e(2) by (rule alloc_insert_inv(1) [OF inv al])
    qed
  qed
qed

lemma set_timestamp_wf: "set_timestamp ts w = Some w' \<Longrightarrow> bss_wf (network w) \<Longrightarrow> bss_wf (network w')"
  by (auto simp: set_timestamp_def bss_wf_def Option.bind_eq_Some_conv dest: write_at_Some_length)

lemma rtw_add_network_inv:
  assumes "table_inv (mlmepriv ad)" and "bss_wf b" and "rtw_add_network now b ad = Returns ad'"
  shows "table_inv (mlmepriv ad')"
proof -
  obtain ad1 src cur where s: "rtw_update_scanned_network now src ad1 = Some ad'" "bss_wf src"
    "mlmepriv ad1 = (mlmepriv ad)\<lparr>cur_network := cur\<rparr>" "bss_wf (network cur)"
    using rtw_add_network_steps [OF assms] by metis
  have "table_inv (mlmepriv ad1)" unfolding s(3) by (rule table_inv_cur [OF assms(1) s(4)])
  then show ?thesis by (rule rtw_update_scanned_network_inv [OF _ s(2,1)])
qed

lemma survey_add_inv:
  assumes inv: "table_inv (mlmepriv ad)" and b: "bss_wf b" and r: "survey_add now b ad = Returns ad'"
  shows "table_inv (mlmepriv ad')"
proof -
  define b' where "b' = (if hd (Ssid b) = 0 then b\<lparr>SsidLength := 0\<rparr> else b)"
  have b': "bss_wf b'" using b by (simp add: b'_def bss_wf_def)
  have "ad' = ad \<or> rtw_add_network now b' ad = Returns ad'"
    using r unfolding survey_add_def b'_def [symmetric] by (auto split: if_split_asm)
  then show ?thesis using inv rtw_add_network_inv [OF inv b'] by blast
qed

lemma survey_event_inv:
  assumes inv: "table_inv (mlmepriv ad)" and b: "bss_wf b"
    and r: "rtw_survey_event_callback now b ad = Returns ad'"
  shows "table_inv (mlmepriv ad')"
proof -
  let ?m = "mlmepriv ad"
  have cases: "ad' = ad \<or> survey_add now b ad = Returns ad' \<or>
    (\<exists>cur. set_timestamp (IEs b) (cur_network ?m) = Some cur \<and>
      (survey_add now b (ad\<lparr>mlmepriv := ?m\<lparr>cur_network := cur\<rparr>\<rparr>) = Returns ad' \<or>
       (\<exists>i w. rtw_find_network (?m\<lparr>cur_network := cur\<rparr>) (MacAddress b) = Some i \<and>
          set_timestamp (IEs b) (bss_buf ?m ! i) = Some w \<and>
          ad' = ad\<lparr>mlmepriv := set_network i (\<lambda>_. w) (?m\<lparr>cur_network := cur\<rparr>)\<rparr>)))"
    using r unfolding rtw_survey_event_callback_def Let_def
    by (simp split: if_split_asm option.split_asm)
  then show ?thesis
  proof (elim disjE exE conjE)
    fix cur assume c: "set_timestamp (IEs b) (cur_network ?m) = Some cur"
    have cur: "table_inv (?m\<lparr>cur_network := cur\<rparr>)"
      using set_timestamp_wf [OF c] inv by (intro table_inv_cur) (auto simp: table_inv_def)
    {
      assume "survey_add now b (ad\<lparr>mlmepriv := ?m\<lparr>cur_network := cur\<rparr>\<rparr>) = Returns ad'"
      then show ?thesis by (rule survey_add_inv [OF _ b, rotated]) (simp add: cur)
    next
      fix i w
      assume f: "rtw_find_network (?m\<lparr>cur_network := cur\<rparr>) (MacAddress b) = Some i"
        and w: "set_timestamp (IEs b) (bss_buf ?m ! i) = Some w"
        and a: "ad' = ad\<lparr>mlmepriv := set_network i (\<lambda>_. w) (?m\<lparr>cur_network := cur\<rparr>)\<rparr>"
      have "i \<in> set (scanned_queue ?m)" using find_network_scanned [OF f] by simp
      then have "bss_wf (network w)" using set_timestamp_wf [OF w] table_inv_index(2) [OF inv] by blast
      then show ?thesis using cur unfolding a by (simp add: table_inv_set_network)
    }
  qed (use inv survey_add_inv [OF inv b] in auto)
qed

lemma clear_group_capability_wf:
  "clear_group_capability w = Returns w' \<Longrightarrow> bss_wf (network w) \<Longrightarrow> bss_wf (network w')"
  by (auto simp: clear_group_capability_def Let_def bss_wf_def Option.bind_eq_Some_conv
      split: option.splits run.splits if_splits) (metis write_at_Some_length)

lemma rtw_free_assoc_resources_inv:
  assumes inv: "table_inv (mlmepriv ad)" and r: "rtw_free_assoc_resources ad = Returns ad'"
  shows "table_inv (mlmepriv ad')"
proof -
  define m where "m = mlmepriv ad"
  note inv = inv [folded m_def]
  define p where "p = rtw_find_network m (MacAddress (network (cur_network m)))"
  define m1 where "m1 = set_fixed False p m"
  have p: "i \<in> set (scanned_queue m)" if "p = Some i" for i
    using that by (auto simp: p_def dest: find_network_scanned)
  have i1: "table_inv m1" unfolding m1_def by (rule set_fixed_inv [OF inv p])
  obtain m2 where m2: "mlmepriv ad' = m2 \<or> mlmepriv ad' = rtw_free_network_nolock p m2"
    and c: "m2 = m1 \<or> (\<exists>i w. p = Some i \<and> clear_group_capability (bss_buf m1 ! i) = Returns w \<and>
        m2 = set_network i (\<lambda>_. w) m1)"
    using r by (fastforce simp: rtw_free_assoc_resources_def Let_def m1_def p_def m_def
        split: option.splits if_splits run.splits)
  have q: "scanned_queue m2 = scanned_queue m" using c by (auto simp: m1_def)
  have "table_inv m2"
  proof (cases "m2 = m1")
    case False
    then obtain i w where iw: "p = Some i" "clear_group_capability (bss_buf m1 ! i) = Returns w"
      "m2 = set_network i (\<lambda>_. w) m1" using c by blast
    then have "bss_wf (network (bss_buf m1 ! i))" using table_inv_index(2) [OF i1] p by (simp add: m1_def)
    then show ?thesis unfolding iw(3) using clear_group_capability_wf [OF iw(2)] by (intro table_inv_set_network [OF i1])
  qed (simp add: i1)
  then show ?thesis using m2 p q free_network_nolock_inv [of m2 p] by auto
qed

section \<open>All operations together\<close>

text \<open>
  The steps of the table, in any order; \<open>other\<close> are the rest of the driver, which changes states,
  the wanted and the joined network, but not the table.
\<close>

inductive mlme_step :: "u32 \<Rightarrow> mlme_adapter \<Rightarrow> mlme_adapter \<Rightarrow> bool" for HZ where
  survey: "bss_wf b \<Longrightarrow> rtw_survey_event_callback now b ad = Returns ad' \<Longrightarrow> mlme_step HZ ad ad'"
| expire: "mlme_step HZ ad (ad\<lparr>mlmepriv := rtw_free_network_queue HZ now isfreeall (mlmepriv ad)\<rparr>)"
| flush: "mlme_step HZ ad (ad\<lparr>mlmepriv := free_scanqueue (mlmepriv ad)\<rparr>)"
| join: "joinbss_find_target mac ad = (t, ad') \<Longrightarrow> mlme_step HZ ad ad'"
| leave: "rtw_free_assoc_resources ad = Returns ad' \<Longrightarrow> mlme_step HZ ad ad'"
| drop: "mlme_step HZ ad (ad\<lparr>mlmepriv := drop_current_network (mlmepriv ad)\<rparr>)"
| create: "bss_wf b \<Longrightarrow> createbss_list_network now b (mlmepriv ad) = Some (st, m) \<Longrightarrow>
    mlme_step HZ ad (ad\<lparr>mlmepriv := m\<rparr>)"
| other: "bss_buf (mlmepriv ad') = bss_buf (mlmepriv ad) \<Longrightarrow>
    free_bss_pool (mlmepriv ad') = free_bss_pool (mlmepriv ad) \<Longrightarrow>
    scanned_queue (mlmepriv ad') = scanned_queue (mlmepriv ad) \<Longrightarrow>
    num_of_scanned (mlmepriv ad') = num_of_scanned (mlmepriv ad) \<Longrightarrow>
    bss_wf (network (cur_network (mlmepriv ad'))) \<Longrightarrow> mlme_step HZ ad ad'"

inductive mlme_reachable :: "u32 \<Rightarrow> mlme_adapter \<Rightarrow> bool" for HZ where
  init: "rtw_init_mlme_priv True m0 = (SUCCESS, mlmepriv ad) \<Longrightarrow> bss_wf (network (cur_network m0)) \<Longrightarrow>
    mlme_reachable HZ ad"
| step: "mlme_reachable HZ ad \<Longrightarrow> mlme_step HZ ad ad' \<Longrightarrow> mlme_reachable HZ ad'"

lemma mlme_step_inv: "mlme_step HZ ad ad' \<Longrightarrow> table_inv (mlmepriv ad) \<Longrightarrow> table_inv (mlmepriv ad')"
proof (induction rule: mlme_step.induct)
  case (survey b now ad ad')
  then show ?case using survey_event_inv by blast
next
  case (join mac ad t ad')
  then show ?case using joinbss_find_target_inv by blast
next
  case (leave ad ad')
  then show ?case using rtw_free_assoc_resources_inv by blast
next
  case (create b now ad st m)
  then show ?case using createbss_list_network_inv by fastforce
next
  case (other ad' ad)
  then show ?case by (simp add: table_inv_def)
qed (simp_all add: free_network_queue_inv free_scanqueue_inv drop_current_network_inv)

lemma mlme_reachable_inv: "mlme_reachable HZ ad \<Longrightarrow> table_inv (mlmepriv ad)"
  by (induction rule: mlme_reachable.induct) (auto dest: rtw_init_mlme_priv_inv mlme_step_inv)

section \<open>What a received network does to the table\<close>

lemma add_network_entered:
  assumes inv: "table_inv (mlmepriv ad)" and once: "listed_once (mlmepriv ad)"
    and b: "bss_wf b" "12 \<le> unat (IELength b)" and ages: "ages_ok now (mlmepriv ad)"
    and r: "rtw_add_network now b ad = Returns ad'"
  shows "\<exists>cur. entered now b ((mlmepriv ad)\<lparr>cur_network := cur\<rparr>) (mlmepriv ad')"
proof -
  obtain ad1 src cur where s: "rtw_update_scanned_network now src ad1 = Some ad'" "bss_wf src"
    "mlmepriv ad1 = (mlmepriv ad)\<lparr>cur_network := cur\<rparr>" "bss_wf (network cur)"
    "net_key src = net_key b \<and> 12 \<le> unat (IELength src)"
    using rtw_add_network_steps [OF inv b(1) r] b(2) by metis
  have i1: "table_inv (mlmepriv ad1)" unfolding s(3) by (rule table_inv_cur [OF inv s(4)])
  have o1: "listed_once (mlmepriv ad1)" "ages_ok now (mlmepriv ad1)"
    using once ages by (simp_all add: s(3) listed_once_def ages_ok_def)
  obtain m' where m': "rtw_update_scanned_network now src ad1 = Some (ad1\<lparr>mlmepriv := m'\<rparr>)"
    "entered now src (mlmepriv ad1) m'"
    using rtw_update_scanned_network_entered [OF i1 o1(1) s(2) _ o1(2)] s(5) by blast
  have "mlmepriv ad' = m'" using m'(1) s(1) by auto
  moreover have "entered now src m1 m2 = entered now b m1 m2" for m1 m2
    unfolding entered_def by (simp only: conjunct1 [OF s(5)])
  ultimately show ?thesis using m'(2) unfolding s(3) by blast
qed

lemma listed_cur [simp]: "listed (m\<lparr>cur_network := c\<rparr>) = listed m" "slot_key (m\<lparr>cur_network := c\<rparr>) = slot_key m"
  by (simp_all add: listed_def slot_key_def fun_eq_iff)

text \<open>
  C15: from initialisation on, whatever beacons are received and whatever is joined, left,
  created or expired, every network of the table is on exactly one of the two lists, the count is
  that of the scanned ones, and no scanned network claims more elements than its array holds.
\<close>

theorem scan_table_invariant:
  "mlme_reachable HZ ad \<Longrightarrow>
     distinct (free_bss_pool (mlmepriv ad) @ scanned_queue (mlmepriv ad)) \<and>
     set (free_bss_pool (mlmepriv ad)) \<union> set (scanned_queue (mlmepriv ad)) = {..<MAX_BSS_CNT} \<and>
     num_of_scanned (mlmepriv ad) = of_nat (length (scanned_queue (mlmepriv ad))) \<and>
     (\<forall>i \<in> set (scanned_queue (mlmepriv ad)).
        unat (IELength (network (bss_buf (mlmepriv ad) ! i))) \<le> MAX_IE_SZ)"
  using table_inv_lists [OF mlme_reachable_inv] table_inv_index(2) [OF mlme_reachable_inv]
    mlme_reachable_inv by (auto simp: bss_wf_def table_inv_def)

definition blank_mlme :: mlme_priv where
  "blank_mlme = \<lparr>fw_state = 0, bss_buf = [], free_bss_pool = [], scanned_queue = [], num_of_scanned = 0,
     cur_network = zero_network, assoc_ssid_len = 0, assoc_ssid = replicate 32 0,
     assoc_bssid = replicate 6 0, assoc_by_bssid = False, to_roaming = 0\<rparr>"

definition sample_mlme :: mlme_priv where
  "sample_mlme = snd (rtw_init_mlme_priv True blank_mlme)"

definition sample_ad :: mlme_adapter where
  "sample_ad = \<lparr>mlmepriv = sample_mlme, sta_adapter = sample_adapter, signal_strength = 0, signal_qual = 0,
     AntDivCfg = 0, is_92C_serial = True, CurAntenna = 0, ndisencryptstatus = 1, ndisauthtype = 0,
     key_mask = 0, wifi_spec = 0, vcs_setting = 0, vcs_type = 0, vcs = 0, p2p_none = True\<rparr>"

lemma zero_network_wf: "bss_wf (network zero_network)"
  by (simp add: zero_network_def zero_bss_def bss_wf_def)

lemma sample_mlme_init: "rtw_init_mlme_priv True blank_mlme = (SUCCESS, sample_mlme)"
  by (simp add: sample_mlme_def rtw_init_mlme_priv_def Let_def)

lemma sample_reachable: "mlme_reachable HZ sample_ad"
  by (rule mlme_reachable.init [of blank_mlme])
    (simp add: sample_ad_def sample_mlme_init, simp add: blank_mlme_def zero_network_wf)

lemma sample_table: "table_inv sample_mlme \<and> scanned_queue sample_mlme = []"
  using rtw_init_mlme_priv_inv [OF sample_mlme_init] by (simp add: blank_mlme_def zero_network_wf)

lemma sample_mlme_fw [simp]: "fw_state sample_mlme = 0"
proof -
  have "fw_state (fold (\<lambda>i m. m\<lparr>bss_buf := bss_buf m @ [w], free_bss_pool := free_bss_pool m @ [i]\<rparr>) is m) =
      fw_state m" for "is" w and m :: mlme_priv
    by (induction "is" arbitrary: m) simp_all
  then show ?thesis by (simp add: sample_mlme_def rtw_init_mlme_priv_def Let_def)
qed

theorem scan_table_invariant_witness:
  "\<exists>ad. mlme_reachable 100 ad \<and> distinct (free_bss_pool (mlmepriv ad) @ scanned_queue (mlmepriv ad)) \<and>
     set (free_bss_pool (mlmepriv ad)) \<union> set (scanned_queue (mlmepriv ad)) = {..<128}"
  using scan_table_invariant [OF sample_reachable [of 100]] sample_reachable [of 100]
  by (auto simp: MAX_BSS_CNT_def)

text \<open>
  C14: a received network is listed. When \<^verbatim>\<open>rtw_add_network\<close> returns, exactly one network of the
  queue has the name, address and kind of the one received, its time is now, and no network is
  lost; only when it is new and the pool is empty, the network that was not heard of for the longest
  time gives way, whether or not it is marked as fixed.
\<close>

theorem rtw_add_network_lists:
  assumes "table_inv (mlmepriv ad)" and "listed_once (mlmepriv ad)"
    and "bss_wf b" and "12 \<le> unat (IELength b)"
    and "\<forall>i \<in> set (scanned_queue (mlmepriv ad)). age now (bss_buf (mlmepriv ad) ! i) < 2 ^ 31"
    and "rtw_add_network now b ad = Returns ad'"
  shows "table_inv (mlmepriv ad') \<and> listed_once (mlmepriv ad') \<and>
    (\<exists>!i. i \<in> set (scanned_queue (mlmepriv ad')) \<and>
       net_key (network (bss_buf (mlmepriv ad') ! i)) = net_key b \<and>
       last_scanned (bss_buf (mlmepriv ad') ! i) = now) \<and>
    (if net_key b \<in> listed (mlmepriv ad) \<or> free_bss_pool (mlmepriv ad) \<noteq> []
     then listed (mlmepriv ad') = insert (net_key b) (listed (mlmepriv ad))
     else \<exists>k \<in> set (scanned_queue (mlmepriv ad)).
       (\<forall>i \<in> set (scanned_queue (mlmepriv ad)).
          age now (bss_buf (mlmepriv ad) ! i) \<le> age now (bss_buf (mlmepriv ad) ! k)) \<and>
       listed (mlmepriv ad') =
         insert (net_key b) (listed (mlmepriv ad) - {net_key (network (bss_buf (mlmepriv ad) ! k))}))"
proof -
  obtain cur where e: "entered now b ((mlmepriv ad)\<lparr>cur_network := cur\<rparr>) (mlmepriv ad')"
    using add_network_entered [OF assms(1-4) _ assms(6)] assms(5) by (auto simp: ages_ok_def)
  then obtain i where i: "i \<in> set (scanned_queue (mlmepriv ad'))" "slot_key (mlmepriv ad') i = net_key b"
    "last_scanned (bss_buf (mlmepriv ad') ! i) = now" by (auto simp: entered_def)
  have "inj_on (slot_key (mlmepriv ad')) (set (scanned_queue (mlmepriv ad')))"
    using e by (simp add: entered_def listed_once_slot_key)
  then have "\<exists>!i. i \<in> set (scanned_queue (mlmepriv ad')) \<and> slot_key (mlmepriv ad') i = net_key b \<and>
      last_scanned (bss_buf (mlmepriv ad') ! i) = now"
    using i by (intro ex1I [of _ i]) (auto simp: inj_on_def)
  then show ?thesis using e unfolding entered_def by (simp add: slot_key_def cong: if_cong)
qed

text \<open>
  C16: the network to join. When the networks of the queue hold complete series of elements,
  \<open>select_candidate\<close> comes to an end and picks a network of the queue that can be joined, none of which
  has a stronger signal among those that can; it picks none only when no network can be joined. A
  network can be joined (\<open>joinable\<close>) when it has the address and the name asked for, if any are; when it
  has a WPS element, under WPS, or else its privacy fits the own encryption (with
  \<^verbatim>\<open>wifi_spec\<close> also a non-empty RSN element for WPA2-PSK) and, ad hoc, its mode the current one;
  and, when roaming, when it was heard less than two seconds ago and has the name of the current one.
\<close>

theorem select_candidate_strongest:
  assumes "\<forall>i \<in> set (scanned_queue (mlmepriv ad)).
      bss_wf (network (bss_buf (mlmepriv ad) ! i)) \<and> holds_ies (network (bss_buf (mlmepriv ad) ! i)) (es i)"
    and "bss_wf (network (cur_network (mlmepriv ad)))"
    and "length (assoc_ssid (mlmepriv ad)) = 32" and "unat (assoc_ssid_len (mlmepriv ad)) \<le> 32"
  shows "\<exists>r. select_candidate HZ now ad (scanned_queue (mlmepriv ad)) None = Some r \<and>
    (case r of
      None \<Rightarrow> \<forall>i \<in> set (scanned_queue (mlmepriv ad)). \<not> joinable HZ now ad (bss_buf (mlmepriv ad) ! i) (es i)
    | Some k \<Rightarrow> k \<in> set (scanned_queue (mlmepriv ad)) \<and> joinable HZ now ad (bss_buf (mlmepriv ad) ! k) (es k) \<and>
        (\<forall>i \<in> set (scanned_queue (mlmepriv ad)). joinable HZ now ad (bss_buf (mlmepriv ad) ! i) (es i) \<longrightarrow>
           Rssi (network (bss_buf (mlmepriv ad) ! i)) \<le> Rssi (network (bss_buf (mlmepriv ad) ! k))))"
proof -
  let ?q = "scanned_queue (mlmepriv ad)" and ?buf = "bss_buf (mlmepriv ad)"
  have j: "join_allowed HZ now ad (?buf ! i) = Some (joinable HZ now ad (?buf ! i) (es i))" if "i \<in> set ?q" for i
    using join_allowed_iff [OF _ _ assms(2-4)] assms(1) that by blast
  then obtain r where r: "select_candidate HZ now ad ?q None = Some r" using select_candidate_total by blast
  have f: "filter (\<lambda>i. join_allowed HZ now ad (?buf ! i) = Some True) ?q = filter (\<lambda>i. joinable HZ now ad (?buf ! i) (es i)) ?q"
    using j by (intro filter_cong) auto
  show ?thesis
    using r select_candidate_fold [OF r, unfolded f]
      strongest.fold_keep_None [of "filter (\<lambda>i. joinable HZ now ad (?buf ! i) (es i)) ?q" ?buf]
    by (auto simp: filter_empty_conv split: option.splits)
qed

text \<open>
  C30: smoothing. The new signal values of a network lie between the old ones and those of the
  sample, so that they never leave the range of what was measured; the joined network shows the
  values of the receiver; a sample of another channel does not change the signal in dBm.
\<close>

theorem update_network_smooths:
  assumes "bss_wf dst" and "bss_wf src" and "bss_wf (network (cur_network (mlmepriv ad)))"
  shows "\<exists>d s. update_network ad update_ie dst src = Some (d, s) \<and>
    min (Rssi src) (Rssi dst) \<le> Rssi d \<and> Rssi d \<le> max (Rssi src) (Rssi dst) \<and>
    (SignalQuality src = WRONG_CHANNEL \<longrightarrow> Rssi d = Rssi dst) \<and>
    (if joined_network ad src then SignalStrength d = signal_strength ad \<and> SignalQuality d = signal_qual ad
     else min (SignalStrength src) (SignalStrength dst) \<le> SignalStrength d \<and>
          SignalStrength d \<le> max (SignalStrength src) (SignalStrength dst) \<and>
          min (SignalQuality src) (SignalQuality dst) \<le> SignalQuality d \<and>
          SignalQuality d \<le> max (SignalQuality src) (SignalQuality dst))"
  using update_network_correct [OF assms, of update_ie] unfolding between_def by fastforce

text \<open>
  C31: expiry. \<^verbatim>\<open>_rtw_free_network_queue\<close> keeps, in their order, exactly the networks that are
  fixed or, unless all are to go, were heard within the lifetime; the others are appended to the pool.
\<close>

theorem rtw_free_network_queue_expires:
  assumes "table_inv m"
  shows "scanned_queue (rtw_free_network_queue HZ now isfreeall m) =
      filter (\<lambda>i. fixed (bss_buf m ! i) \<or> \<not> isfreeall \<and>
        (now - last_scanned (bss_buf m ! i)) div HZ <
          (if mlme_check_fwstate m WIFI_ADHOC_MASTER_STATE \<or> mlme_check_fwstate m WIFI_ADHOC_STATE then 1 else 20))
        (scanned_queue m) \<and>
    free_bss_pool (rtw_free_network_queue HZ now isfreeall m) = free_bss_pool m @
      filter (\<lambda>i. i \<notin> set (scanned_queue (rtw_free_network_queue HZ now isfreeall m))) (scanned_queue m)"
proof
  show "scanned_queue (rtw_free_network_queue HZ now isfreeall m) =
      filter (\<lambda>i. fixed (bss_buf m ! i) \<or> \<not> isfreeall \<and>
        (now - last_scanned (bss_buf m ! i)) div HZ <
          (if mlme_check_fwstate m WIFI_ADHOC_MASTER_STATE \<or> mlme_check_fwstate m WIFI_ADHOC_STATE then 1 else 20))
        (scanned_queue m)"
    unfolding rtw_free_network_queue_filter [OF assms] expires_def SCANQUEUE_LIFETIME_def
    by (auto intro!: filter_cong simp: not_le)
  show "free_bss_pool (rtw_free_network_queue HZ now isfreeall m) = free_bss_pool m @
      filter (\<lambda>i. i \<notin> set (scanned_queue (rtw_free_network_queue HZ now isfreeall m))) (scanned_queue m)"
    unfolding rtw_free_network_queue_filter [OF assms] by (auto intro!: filter_cong)
qed

section \<open>Examples\<close>

definition beacon :: "u8 \<Rightarrow> int \<Rightarrow> WLAN_BSSID_EX" where
  "beacon x rssi = zero_bss\<lparr>MacAddress := [2, 0, 0, 0, 0, x], SsidLength := 1,
     Ssid := 65 # replicate 31 0, Rssi := rssi, SignalStrength := 50, SignalQuality := 60, IELength := 12\<rparr>"

lemma beacon_wf [simp]: "bss_wf (beacon x r)"
  by (simp add: beacon_def zero_bss_def bss_wf_def MAX_IE_SZ_def)

lemma beacon_fields [simp]:
  "IELength (beacon x r) = 12" "Rssi (beacon x r) = r" "length (IEs (beacon x r)) = 768"
  "SignalStrength (beacon x r) = 50" "SignalQuality (beacon x r) = 60" "Privacy (beacon x r) = 0"
  by (simp_all add: beacon_def zero_bss_def MAX_IE_SZ_def)

lemma sample_ad_table: "table_inv (mlmepriv sample_ad)" "listed_once (mlmepriv sample_ad)"
  "scanned_queue (mlmepriv sample_ad) = []" "listed (mlmepriv sample_ad) = {}"
  "fw_state (mlmepriv sample_ad) = 0"
  using sample_table by (simp_all add: sample_ad_def listed_once_def listed_def)

lemma sample_add: "\<exists>ad'. rtw_add_network 7 (beacon 1 (- 60)) sample_ad = Returns ad'"
proof -
  let ?b = "beacon 1 (- 60)"
  have "get_p2p_ie_loop (IEs ?b) 12 0 0 = Some None" by (subst get_p2p_ie_loop.simps) simp
  then have r: "rtw_WLAN_BSSID_EX_remove_p2p_attr (IEs ?b) 12 P2P_ATTR_GROUP_INFO = Returns (IEs ?b, 12)"
    by (simp add: rtw_WLAN_BSSID_EX_remove_p2p_attr_def rtw_get_p2p_ie_def FIXED_IE_LENGTH_def)
  have b: "?b\<lparr>IELength := 12\<rparr> = ?b" by (simp add: beacon_def)
  have u: "update_current_network sample_ad ?b = Some (sample_ad, ?b)"
    by (simp add: update_current_network_def Let_def mlme_check_fwstate_def sample_ad_table)
  obtain m' where "rtw_update_scanned_network 7 ?b sample_ad = Some (sample_ad\<lparr>mlmepriv := m'\<rparr>)"
    using rtw_update_scanned_network_entered [OF sample_ad_table(1,2), of ?b 7]
    by (auto simp: ages_ok_def sample_ad_table(3))
  then show ?thesis by (simp add: rtw_add_network_def r b u)
qed

theorem rtw_add_network_lists_witness:
  "\<exists>ad'. rtw_add_network 7 (beacon 1 (- 60)) sample_ad = Returns ad' \<and>
     listed (mlmepriv ad') = {net_key (beacon 1 (- 60))}"
proof -
  obtain ad' where r: "rtw_add_network 7 (beacon 1 (- 60)) sample_ad = Returns ad'"
    using sample_add by blast
  have "0 < length [0..<MAX_BSS_CNT]" by (simp add: MAX_BSS_CNT_def)
  moreover have "mset (free_bss_pool (mlmepriv sample_ad)) = mset [0..<MAX_BSS_CNT]"
    using sample_ad_table(1,3) by (simp add: table_inv_def)
  ultimately have pool: "free_bss_pool (mlmepriv sample_ad) \<noteq> []"
    by (metis length_0_conv less_numeral_extra(3) size_mset)
  have "listed (mlmepriv ad') = {net_key (beacon 1 (- 60))}"
    using rtw_add_network_lists [OF sample_ad_table(1,2) _ _ _ r] pool by (simp add: sample_ad_table(3,4))
  then show ?thesis using r by blast
qed

text \<open>Two networks; the second is stronger.\<close>

definition two_networks :: mlme_adapter where
  "two_networks = sample_ad\<lparr>mlmepriv := blank_mlme
     \<lparr>bss_buf := [zero_network\<lparr>network := beacon 1 (- 60)\<rparr>, zero_network\<lparr>network := beacon 2 (- 40)\<rparr>],
      scanned_queue := [0, 1]\<rparr>\<rparr>"

theorem select_candidate_strongest_witness:
  "\<exists>k. select_candidate 100 0 two_networks (scanned_queue (mlmepriv two_networks)) None = Some (Some k) \<and>
     joinable 100 0 two_networks (bss_buf (mlmepriv two_networks) ! k) [] \<and>
     - 40 \<le> Rssi (network (bss_buf (mlmepriv two_networks) ! k))"
proof -
  have n: "holds_ies (beacon x r) []" for x r by (simp add: holds_ies_def)
  have "bss_wf (network zero_network)" by (rule zero_network_wf)
  with n have h: "\<forall>i \<in> set (scanned_queue (mlmepriv two_networks)).
      bss_wf (network (bss_buf (mlmepriv two_networks) ! i)) \<and> holds_ies (network (bss_buf (mlmepriv two_networks) ! i)) []"
    "bss_wf (network (cur_network (mlmepriv two_networks)))" "length (assoc_ssid (mlmepriv two_networks)) = 32"
    "unat (assoc_ssid_len (mlmepriv two_networks)) \<le> 32"
    by (simp_all add: two_networks_def sample_ad_def blank_mlme_def)
  have j: "joinable 100 0 two_networks (bss_buf (mlmepriv two_networks) ! i) []" if "i < 2" for i
    using that by (auto simp: less_Suc_eq numeral_2_eq_2 joinable_def Let_def two_networks_def sample_ad_def blank_mlme_def
        mlme_check_fwstate_def security_fits_def)
  from select_candidate_strongest [OF h, of 100 0] show ?thesis
    using j [of 0] j [of 1] by (auto simp: two_networks_def split: option.splits)
qed

theorem update_network_smooths_witness:
  "\<exists>d s. update_network sample_ad True (beacon 1 (- 60)) (beacon 1 (- 40)) = Some (d, s) \<and>
     - 60 \<le> Rssi d \<and> Rssi d \<le> - 40"
proof -
  have "bss_wf (network (cur_network (mlmepriv sample_ad)))"
    using sample_ad_table(1) by (simp add: table_inv_def)
  from update_network_smooths [OF beacon_wf [of 1 "- 60"] beacon_wf [of 1 "- 40"] this, of True]
  show ?thesis by fastforce
qed

theorem rtw_free_network_queue_expires_witness:
  "scanned_queue (rtw_free_network_queue 100 5 True sample_mlme) = []"
  using rtw_free_network_queue_expires [of sample_mlme 100 5 True] sample_table by simp

text \<open>The age in milliseconds wraps: what was heard twelve hours ago counts as seven milliseconds old.\<close>

lemma rtw_get_passing_time_ms_wraps: "rtw_get_passing_time_ms 100 4294968 0 = 7"
  by (simp add: rtw_get_passing_time_ms_def)

text \<open>
  The search for the protection element runs twelve bytes too far: here a full array of three elements,
  none of which is the one looked for, and the search leaves the array.
\<close>

definition full_ies :: "u8 list" where
  "full_ies = replicate 12 0 @ ([221, 250] @ replicate 250 0) @ ([221, 250] @ replicate 250 0) @
     ([221, 250] @ replicate 250 0)"

lemma full_ies_nth: "length full_ies = 768" "full_ies ! 12 = 221" "full_ies ! 13 = 250"
  "full_ies ! 264 = 221" "full_ies ! 265 = 250" "full_ies ! 516 = 221" "full_ies ! 517 = 250"
  by (simp_all add: full_ies_def nth_append nth_Cons')

lemma rtw_update_protection_overreads:
  "vcs_setting ad = 2 \<Longrightarrow> rtw_update_protection full_ies 12 768 ad = None"
  by (simp add: rtw_update_protection_def rtw_get_ie_def rtw_get_ie_loop.simps byte_at_def full_ies_nth)

end
