(* ===== verification/Efuse.thy ===== *)
theory Efuse
  imports Driver_Prelude
begin

text \<open>
  The EFUSE of the chip, a memory of 512 bytes that is programmed once: \<^verbatim>\<open>core/efuse/rtw_efuse.c\<close>
  and the 8192C part of \<^verbatim>\<open>hal/rtl8192c/rtl8192c_hal_init.c\<close>, for the calls the driver makes on this
  chip (\<^verbatim>\<open>bPseudoTest\<close> is \<^verbatim>\<open>_FALSE\<close>; the other value goes to the functions of another chip).
  The memory is a log of packets. A packet is a header, the section number in its high half and in its
  low half a bit per word that is clear when the word is present, followed by the words that are present.
  The driver sees the map of 16 sections of 4 words that the log describes, a later packet overriding
  an earlier one.

  The registers of the chip are a parameter: \<^verbatim>\<open>efuse_regs\<close> holds the accesses to them as functions
  on a state \<open>'d\<close> of the device.
  Addresses are below \<open>521\<close>, so that natural numbers stand for the 16-bit variables.
\<close>

section \<open>Constants and registers\<close>

definition EFUSE_REAL_CONTENT_LEN :: nat where "EFUSE_REAL_CONTENT_LEN = 512"

definition EFUSE_MAP_LEN :: nat where "EFUSE_MAP_LEN = 128"

definition EFUSE_MAX_SECTION :: nat where "EFUSE_MAX_SECTION = 16"

definition EFUSE_MAX_WORD_UNIT :: nat where "EFUSE_MAX_WORD_UNIT = 4"

definition EFUSE_OOB_PROTECT_BYTES :: nat where "EFUSE_OOB_PROTECT_BYTES = 15"

definition EFUSE_REPEAT_THRESHOLD :: int where "EFUSE_REPEAT_THRESHOLD = 3"

definition PGPKT_DATA_SIZE :: nat where "PGPKT_DATA_SIZE = 8"

definition EFUSE_CTRL :: nat where "EFUSE_CTRL = 0x30"

lemmas efuse_consts = EFUSE_REAL_CONTENT_LEN_def EFUSE_MAP_LEN_def EFUSE_MAX_SECTION_def
  EFUSE_MAX_WORD_UNIT_def EFUSE_OOB_PROTECT_BYTES_def EFUSE_REPEAT_THRESHOLD_def PGPKT_DATA_SIZE_def
  EFUSE_CTRL_def

record 'd efuse_regs =
  rtw_read8 :: "'d \<Rightarrow> nat \<Rightarrow> 'd \<times> u8"
  rtw_write8 :: "'d \<Rightarrow> nat \<Rightarrow> u8 \<Rightarrow> 'd"
  rtw_read16 :: "'d \<Rightarrow> nat \<Rightarrow> 'd \<times> u16"
  rtw_write16 :: "'d \<Rightarrow> nat \<Rightarrow> u16 \<Rightarrow> 'd"
  rtw_read32 :: "'d \<Rightarrow> nat \<Rightarrow> 'd \<times> u32"

text \<open>The state: the device and the static counter \<^verbatim>\<open>repeat_times\<close> of the packet writer.\<close>

record 'd efuse_st =
  dev :: 'd
  repeat_times :: int

section \<open>Power\<close>

definition REG_SYS_ISO_CTRL :: nat where "REG_SYS_ISO_CTRL = 0x0000"

definition REG_SYS_FUNC_EN :: nat where "REG_SYS_FUNC_EN = 0x0002"

definition REG_SYS_CLKR :: nat where "REG_SYS_CLKR = 0x0008"

definition EFUSE_TEST :: nat where "EFUSE_TEST = 0x0034"

definition PWC_EV12V :: u16 where "PWC_EV12V = push_bit 15 1"

definition FEN_ELDR :: u16 where "FEN_ELDR = push_bit 12 1"

definition LOADER_CLK_EN :: u16 where "LOADER_CLK_EN = push_bit 5 1"

definition ANA8M :: u16 where "ANA8M = push_bit 1 1"

text \<open>Turn on those of the given bits of a register that are off.\<close>

definition turn_on :: "'d efuse_regs \<Rightarrow> nat \<Rightarrow> u16 \<Rightarrow> 'd \<Rightarrow> 'd" where
  "turn_on regs reg bits d =
     (let (d, v) = rtw_read16 regs d reg
      in if v AND bits \<noteq> bits then rtw_write16 regs d reg (v OR bits) else d)"

definition hal_EfusePowerSwitch_RTL8192C :: "'d efuse_regs \<Rightarrow> bool \<Rightarrow> bool \<Rightarrow> 'd \<Rightarrow> 'd" where
  "hal_EfusePowerSwitch_RTL8192C regs bWrite PwrState d =
     (if PwrState
      then let d = turn_on regs REG_SYS_ISO_CTRL PWC_EV12V d;
               d = turn_on regs REG_SYS_FUNC_EN FEN_ELDR d;
               d = turn_on regs REG_SYS_CLKR (LOADER_CLK_EN OR ANA8M) d
           in if bWrite
              then let (d, v) = rtw_read8 regs d (EFUSE_TEST + 3)
                   in rtw_write8 regs d (EFUSE_TEST + 3) ((v AND 0x0F) OR push_bit 4 0x03 OR 0x80)
              else d
      else if bWrite
      then let (d, v) = rtw_read8 regs d (EFUSE_TEST + 3)
           in rtw_write8 regs d (EFUSE_TEST + 3) (v AND 0x7F)
      else d)"

section \<open>One byte\<close>

text \<open>
  The loops that wait for bit 7 of the control register. \<open>poll_flag\<close> tests the register up to
  \<open>n + 1\<close> times and says whether the wanted value came in the first \<open>n\<close>.
\<close>

fun poll_flag :: "'d efuse_regs \<Rightarrow> bool \<Rightarrow> nat \<Rightarrow> 'd \<Rightarrow> 'd \<times> bool" where
  "poll_flag regs want n d =
     (let (d, v) = rtw_read8 regs d (EFUSE_CTRL + 3) in
      if bit v 7 = want then (d, 0 < n)
      else if n = 0 then (d, False) else poll_flag regs want (n - 1) d)"

declare poll_flag.simps [simp del]

text \<open>The address registers: the two high bits of the address are merged into their register.\<close>

definition set_efuse_addr :: "'d efuse_regs \<Rightarrow> nat \<Rightarrow> 'd \<Rightarrow> 'd" where
  "set_efuse_addr regs addr d =
     (let d = rtw_write8 regs d (EFUSE_CTRL + 1) (word_of_nat addr AND 0xFF);
          (d, v) = rtw_read8 regs d (EFUSE_CTRL + 2)
      in rtw_write8 regs d (EFUSE_CTRL + 2) ((word_of_nat (addr div 256) AND 0x03) OR (v AND 0xFC)))"

definition efuse_OneByteRead :: "'d efuse_regs \<Rightarrow> nat \<Rightarrow> 'd \<Rightarrow> 'd \<times> bool \<times> u8" where
  "efuse_OneByteRead regs addr d =
     (let d = set_efuse_addr regs addr d;
          d = rtw_write8 regs d (EFUSE_CTRL + 3) 0x72;
          (d, done) = poll_flag regs True 100 d
      in if done then let (d, v) = rtw_read8 regs d EFUSE_CTRL in (d, True, v)
         else (d, False, 0xFF))"

definition efuse_OneByteWrite :: "'d efuse_regs \<Rightarrow> nat \<Rightarrow> u8 \<Rightarrow> 'd \<Rightarrow> 'd \<times> bool" where
  "efuse_OneByteWrite regs addr v d =
     (let d = set_efuse_addr regs addr d;
          d = rtw_write8 regs d EFUSE_CTRL v;
          d = rtw_write8 regs d (EFUSE_CTRL + 3) 0xF2
      in poll_flag regs False 100 d)"

fun wait_ready32 :: "'d efuse_regs \<Rightarrow> nat \<Rightarrow> u32 \<Rightarrow> 'd \<Rightarrow> 'd" where
  "wait_ready32 regs n v d =
     (if \<not> bit v 31 \<and> 0 < n
      then let (d, v) = rtw_read32 regs d EFUSE_CTRL in wait_ready32 regs (n - 1) v d
      else d)"

declare wait_ready32.simps [simp del]

definition ReadEFuseByte :: "'d efuse_regs \<Rightarrow> nat \<Rightarrow> 'd \<Rightarrow> 'd \<times> u8" where
  "ReadEFuseByte regs addr d =
     (let d = set_efuse_addr regs addr d;
          (d, v) = rtw_read8 regs d (EFUSE_CTRL + 3);
          d = rtw_write8 regs d (EFUSE_CTRL + 3) (v AND 0x7F);
          (d, w) = rtw_read32 regs d EFUSE_CTRL;
          d = wait_ready32 regs 10000 w d;
          (d, w) = rtw_read32 regs d EFUSE_CTRL
      in (d, ucast w))"

text \<open>
  \<^verbatim>\<open>EFUSE_Read1Byte\<close> and \<^verbatim>\<open>EFUSE_Write1Byte\<close> give up after 1000 and 100 turns without telling
  their caller.
\<close>

definition EFUSE_Read1Byte :: "'d efuse_regs \<Rightarrow> nat \<Rightarrow> 'd \<Rightarrow> 'd \<times> u8" where
  "EFUSE_Read1Byte regs addr d =
     (if addr < EFUSE_REAL_CONTENT_LEN
      then let d = set_efuse_addr regs addr d;
               (d, v) = rtw_read8 regs d (EFUSE_CTRL + 3);
               d = rtw_write8 regs d (EFUSE_CTRL + 3) (v AND 0x7F);
               (d, _) = poll_flag regs True 1000 d
           in rtw_read8 regs d EFUSE_CTRL
      else (d, 0xFF))"

definition EFUSE_Write1Byte :: "'d efuse_regs \<Rightarrow> nat \<Rightarrow> u8 \<Rightarrow> 'd \<Rightarrow> 'd" where
  "EFUSE_Write1Byte regs addr x d =
     (if addr < EFUSE_REAL_CONTENT_LEN
      then let d = rtw_write8 regs d EFUSE_CTRL x;
               d = set_efuse_addr regs addr d;
               (d, v) = rtw_read8 regs d (EFUSE_CTRL + 3);
               d = rtw_write8 regs d (EFUSE_CTRL + 3) (v OR 0x80)
           in fst (poll_flag regs False 100 d)
      else d)"

section \<open>Words and packets\<close>

definition Efuse_CalculateWordCnts :: "u8 \<Rightarrow> nat" where
  "Efuse_CalculateWordCnts word_en =
     (if bit word_en 0 then 0 else 1) + (if bit word_en 1 then 0 else 1) +
     (if bit word_en 2 then 0 else 1) + (if bit word_en 3 then 0 else 1)"

text \<open>Both arrays have eight bytes. The words that are enabled are copied, each at its own place.\<close>

definition copy_word :: "u8 \<Rightarrow> u8 list \<Rightarrow> nat \<Rightarrow> u8 list \<Rightarrow> u8 list" where
  "copy_word word_en src i tgt =
     (if \<not> bit word_en i then tgt[2 * i := src ! (2 * i), 2 * i + 1 := src ! (2 * i + 1)] else tgt)"

definition efuse_WordEnableDataRead :: "u8 \<Rightarrow> u8 list \<Rightarrow> u8 list \<Rightarrow> u8 list" where
  "efuse_WordEnableDataRead word_en src tgt =
     copy_word word_en src 3 (copy_word word_en src 2 (copy_word word_en src 1
       (copy_word word_en src 0 tgt)))"

text \<open>
  One of the four blocks of \<^verbatim>\<open>Hal_EfuseWordEnableDataWrite\<close>: program the two bytes of word \<open>i\<close>,
  read them back and note in \<open>bad\<close> when they differ.
\<close>

definition write_word ::
  "'d efuse_regs \<Rightarrow> u8 \<Rightarrow> u8 list \<Rightarrow> nat \<Rightarrow> 'd \<times> nat \<times> u8 \<Rightarrow> 'd \<times> nat \<times> u8" where
  "write_word regs word_en dat i = (\<lambda>(d, start, bad).
     if \<not> bit word_en i
     then let d = fst (efuse_OneByteWrite regs start (dat ! (2 * i)) d);
              d = fst (efuse_OneByteWrite regs (start + 1) (dat ! (2 * i + 1)) d);
              (d, _, v) = efuse_OneByteRead regs start d;
              (d, _, w) = efuse_OneByteRead regs (start + 1) d
          in (d, start + 2,
              if dat ! (2 * i) \<noteq> v \<or> dat ! (2 * i + 1) \<noteq> w then bad AND NOT (push_bit i 1) else bad)
     else (d, start, bad))"

definition Hal_EfuseWordEnableDataWrite ::
  "'d efuse_regs \<Rightarrow> nat \<Rightarrow> u8 \<Rightarrow> u8 list \<Rightarrow> 'd \<Rightarrow> 'd \<times> u8" where
  "Hal_EfuseWordEnableDataWrite regs addr word_en dat d =
     (let (d, _, bad) = write_word regs word_en dat 3 (write_word regs word_en dat 2
            (write_word regs word_en dat 1 (write_word regs word_en dat 0 (d, addr, 0x0F))))
      in (d, bad))"

section \<open>Reading the log\<close>

text \<open>\<^verbatim>\<open>hal_EfuseGetCurrentSize_8192C\<close>: the byte is read before the address is tested.\<close>

function cur_size_loop :: "'d efuse_regs \<Rightarrow> nat \<Rightarrow> 'd \<Rightarrow> 'd \<times> nat" where
  "cur_size_loop regs addr d =
     (let (d, ok, v) = efuse_OneByteRead regs addr d in
      if ok \<and> addr < EFUSE_REAL_CONTENT_LEN \<and> v \<noteq> 0xFF
      then cur_size_loop regs (addr + Efuse_CalculateWordCnts (v AND 0x0F) * 2 + 1) d
      else (d, addr))"
  by pat_completeness auto
termination
  by (relation "measure (\<lambda>(regs, addr, d). 512 - addr)") (auto simp: efuse_consts)

declare cur_size_loop.simps [simp del]

definition hal_EfuseGetCurrentSize_8192C :: "'d efuse_regs \<Rightarrow> 'd \<Rightarrow> 'd \<times> nat" where
  "hal_EfuseGetCurrentSize_8192C regs d = cur_size_loop regs 0 d"

definition efuse_GetCurrentSize :: "'d efuse_regs \<Rightarrow> 'd \<Rightarrow> 'd \<times> nat" where
  "efuse_GetCurrentSize regs d =
     (let d = hal_EfusePowerSwitch_RTL8192C regs False True d;
          (d, size) = hal_EfuseGetCurrentSize_8192C regs d
      in (hal_EfusePowerSwitch_RTL8192C regs False False d, size))"

text \<open>
  \<^verbatim>\<open>ReadEFuse_RTL8192C\<close>. Its table of 16 sections of 4 words is one list here, and its
  state is the device, the table, \<^verbatim>\<open>eFuse_Addr\<close>, \<^verbatim>\<open>efuse_utilized\<close> and \<^verbatim>\<open>rtemp8\<close>. The loop over
  the words of a packet stops when the memory ends.
\<close>

type_synonym 'd rd_st = "'d \<times> u16 list \<times> nat \<times> nat \<times> u8"

fun read_words :: "'d efuse_regs \<Rightarrow> nat \<Rightarrow> u8 \<Rightarrow> nat list \<Rightarrow> 'd rd_st \<Rightarrow> 'd rd_st" where
  "read_words regs off wren [] st = st"
| "read_words regs off wren (i # is) (d, ws, addr, util, v) =
     (if \<not> bit wren 0
      then let (d, v) = ReadEFuseByte regs addr d; addr = addr + 1; util = util + 1;
               ws = ws[4 * off + i := ucast v]
           in if EFUSE_REAL_CONTENT_LEN \<le> addr then (d, ws, addr, util, v)
              else let (d, v) = ReadEFuseByte regs addr d; addr = addr + 1; util = util + 1;
                       ws = ws[4 * off + i := ws ! (4 * off + i) OR push_bit 8 (ucast v)]
                   in if EFUSE_REAL_CONTENT_LEN \<le> addr then (d, ws, addr, util, v)
                      else read_words regs off (drop_bit 1 wren) is (d, ws, addr, util, v)
      else read_words regs off (drop_bit 1 wren) is (d, ws, addr, util, v))"

lemma read_words_mono:
  "addr \<le> fst (snd (snd (read_words regs off wren is (d, ws, addr, util, v))))"
proof (induction regs off wren "is" "(d, ws, addr, util, v)"
    arbitrary: d ws addr util v rule: read_words.induct)
  case (2 regs off wren i "is" d ws addr util v)
  then show ?case
    by (auto simp: Let_def split: prod.splits intro: order_trans [rotated])
      (meson Suc_leD le_trans lessI less_or_eq_imp_le)+
qed simp

text \<open>When the header just read is the end of the log or lies outside the memory, the outer loop ends.\<close>

function read_log :: "'d efuse_regs \<Rightarrow> 'd rd_st \<Rightarrow> 'd rd_st" where
  "read_log regs (d, ws, addr, util, v) =
     (if v \<noteq> 0xFF \<and> addr < EFUSE_REAL_CONTENT_LEN
      then let off = unat (drop_bit 4 v AND 0x0F);
               (d, ws, addr, util, v) =
                 (if off < EFUSE_MAX_SECTION
                  then read_words regs off (v AND 0x0F) [0..<EFUSE_MAX_WORD_UNIT] (d, ws, addr, util, v)
                  else (d, ws, addr, util, v));
               (d, v) = ReadEFuseByte regs addr d
           in if v \<noteq> 0xFF \<and> addr < EFUSE_REAL_CONTENT_LEN
              then read_log regs (d, ws, addr + 1, util + 1, v)
              else (d, ws, addr, util, v)
      else (d, ws, addr, util, v))"
  by pat_completeness auto
termination
proof (relation "measure (\<lambda>(regs, d, ws, addr, util, v). 512 - addr)", simp, goal_cases)
  case (1 regs d ws addr util v off x d1 y ws1 z addr1 u util1 v1 x2 d2 v2)
  have "addr \<le> addr1"
    using 1(3-7) read_words_mono [of addr regs off "v AND 0x0F" "[0..<EFUSE_MAX_WORD_UNIT]" d ws util v]
    by (auto split: if_splits dest: arg_cong [of _ _ "\<lambda>x. fst (snd (snd x))"])
  moreover have "addr < 512" using 1(1) by (simp add: efuse_consts)
  ultimately show ?case by simp
qed

declare read_log.simps [simp del]

definition ReadEFuse_RTL8192C ::
  "'d efuse_regs \<Rightarrow> nat \<Rightarrow> nat \<Rightarrow> 'd \<Rightarrow> 'd \<times> (u8 list \<times> nat) option" where
  "ReadEFuse_RTL8192C regs off size_byte d =
     (if off + size_byte > EFUSE_MAP_LEN then (d, None)
      else let ws = replicate (EFUSE_MAX_SECTION * EFUSE_MAX_WORD_UNIT) 0xFFFF;
               (d, v) = ReadEFuseByte regs 0 d;
               start = (if v \<noteq> 0xFF then 1 else 0);
               (d, ws, _, util, _) = read_log regs (d, ws, start, start, v);
               tbl = concat (map (\<lambda>w. [ucast w, ucast (drop_bit 8 w)]) ws)
           in (d, Some (take size_byte (drop off tbl), util)))"


text \<open>
  \<^verbatim>\<open>hal_EfusePgPacketRead_8192C\<close>: \<open>read_tmp\<close> is its loop over the bytes of a packet of the wanted
  section, with the flag \<^verbatim>\<open>bDataEmpty\<close>; the packet is then copied into the result in a turn of the
  outer loop of its own (\<^verbatim>\<open>PG_STATE_DATA\<close>).
\<close>

fun read_tmp :: "'d efuse_regs \<Rightarrow> nat \<Rightarrow> nat list \<Rightarrow> 'd \<times> u8 list \<times> bool \<Rightarrow> 'd \<times> u8 list \<times> bool" where
  "read_tmp regs addr [] st = st"
| "read_tmp regs addr (i # is) (d, tmp, blank) =
     (let (d, ok, v) = efuse_OneByteRead regs (addr + 1 + i) d in
      read_tmp regs addr is (d, if ok then tmp[i := v] else tmp, blank \<and> \<not> (ok \<and> v \<noteq> 0xFF)))"

datatype pg_state = PG_STATE_HEADER | PG_STATE_DATA

function pg_read_loop ::
  "'d efuse_regs \<Rightarrow> u8 \<Rightarrow> pg_state \<Rightarrow> nat \<Rightarrow> u8 \<Rightarrow> u8 list \<Rightarrow> u8 list \<Rightarrow> 'd \<Rightarrow> 'd \<times> u8 list" where
  "pg_read_loop regs offset st addr hworden tmp dat d =
     (if addr < EFUSE_REAL_CONTENT_LEN
      then case st of
        PG_STATE_HEADER \<Rightarrow>
          let (d, ok, v) = efuse_OneByteRead regs addr d in
          if ok \<and> v \<noteq> 0xFF
          then let hoffset = drop_bit 4 v AND 0x0F;
                   hworden = v AND 0x0F;
                   cnts = Efuse_CalculateWordCnts hworden
               in if hoffset = offset
                  then let (d, tmp, blank) = read_tmp regs addr [0..<cnts * 2] (d, tmp, True) in
                       if \<not> blank
                       then pg_read_loop regs offset PG_STATE_DATA addr hworden tmp dat d
                       else pg_read_loop regs offset PG_STATE_HEADER (addr + cnts * 2 + 1) hworden tmp dat d
                  else pg_read_loop regs offset PG_STATE_HEADER (addr + cnts * 2 + 1) hworden tmp dat d
          else (d, dat)
      | PG_STATE_DATA \<Rightarrow>
          pg_read_loop regs offset PG_STATE_HEADER
            (addr + Efuse_CalculateWordCnts hworden * 2 + 1) hworden tmp
            (efuse_WordEnableDataRead hworden tmp dat) d
      else (d, dat))"
  by pat_completeness auto
termination
  by (relation "measure (\<lambda>(regs, offset, st, addr, _). 2 * (512 - addr) +
        (if st = PG_STATE_HEADER then 1 else 0))") (auto simp: efuse_consts)

declare pg_read_loop.simps [simp del]

definition hal_EfusePgPacketRead_8192C :: "'d efuse_regs \<Rightarrow> u8 \<Rightarrow> 'd \<Rightarrow> 'd \<times> bool \<times> u8 list option" where
  "hal_EfusePgPacketRead_8192C regs offset d =
     (if offset > 15 then (d, False, None)
      else let (d, dat) = pg_read_loop regs offset PG_STATE_HEADER 0 0
                 (replicate PGPKT_DATA_SIZE 0xFF) (replicate PGPKT_DATA_SIZE 0xFF) d
           in (d, dat \<noteq> replicate PGPKT_DATA_SIZE 0xFF, Some dat))"

section \<open>Appending a packet\<close>

text \<open>
  \<^verbatim>\<open>hal_EfusePgPacketWrite_8192C\<close>. Its local variables that outlive a turn of the loop are the
  fields of \<open>pg_vars\<close>; \<open>originaldata\<close> starts with what the stack held. The function calls itself
  to rescue the words of a packet that the chip spoiled: \<open>again\<close> stands for that call, which gives
  \<open>None\<close> when it does not return within its fuel. A turn gives the new state and variables and
  whether the loop goes on (\<^verbatim>\<open>bContinual\<close>). The variable \<^verbatim>\<open>bResult\<close> is left out, as the function
  ignores it.
\<close>

record pg_vars =
  WriteState :: pg_state
  efuse_addr :: nat
  target_offset :: u8
  target_word_en :: u8
  target_data :: "u8 list"
  target_word_cnts :: nat
  originaldata :: "u8 list"

type_synonym 'd pg_again = "u8 \<Rightarrow> u8 \<Rightarrow> u8 list \<Rightarrow> 'd efuse_st \<Rightarrow> 'd efuse_st option"

definition count_repeat :: "'d efuse_st \<Rightarrow> bool \<Rightarrow> 'd efuse_st \<times> bool" where
  "count_repeat s cont =
     (let s = s\<lparr>repeat_times := repeat_times s + 1\<rparr>
      in (s, if repeat_times s > EFUSE_REPEAT_THRESHOLD then False else cont))"

text \<open>Case so-2-2 of the source: a packet of the section whose bytes are all erased is filled.\<close>

definition pg_fill_packet ::
  "'d efuse_regs \<Rightarrow> u8 \<Rightarrow> 'd pg_again \<Rightarrow> u8 \<Rightarrow> pg_vars \<Rightarrow> 'd efuse_st \<Rightarrow>
     ('d efuse_st \<times> pg_vars \<times> bool) option" where
  "pg_fill_packet regs offset again tmp_word_en l s =
     (let match_word_en = 0x0F AND (target_word_en l OR tmp_word_en) in
      if match_word_en \<noteq> 0x0F
      then do {
        let (d, badworden) =
          Hal_EfuseWordEnableDataWrite regs (efuse_addr l + 1) tmp_word_en (target_data l) (dev s);
        let s = s\<lparr>dev := d\<rparr>;
        s \<leftarrow> (if badworden AND 0x0F \<noteq> 0x0F then again offset badworden (originaldata l) s else Some s);
        let rest_word_en = 0x0F AND NOT (target_word_en l XOR match_word_en);
        let (s, l, cont) =
          (if rest_word_en \<noteq> 0x0F
           then let (d, a) = hal_EfuseGetCurrentSize_8192C regs (dev s)
                in (s\<lparr>dev := d\<rparr>, l\<lparr>efuse_addr := a, target_offset := offset,
                      target_word_en := rest_word_en\<rparr>, True)
           else (s, l, False));
        let (s, cont) = count_repeat s cont;
        Some (s, l\<lparr>WriteState := PG_STATE_HEADER\<rparr>, cont)
      }
      else Some (s, l\<lparr>efuse_addr := efuse_addr l + 2 * Efuse_CalculateWordCnts tmp_word_en + 1,
                       target_offset := offset, WriteState := PG_STATE_HEADER\<rparr>, True))"

text \<open>
  The loop of so-2 that looks whether the packet holds anything.
\<close>

fun pg_is_blank :: "'d efuse_regs \<Rightarrow> nat \<Rightarrow> nat list \<Rightarrow> 'd \<times> bool \<Rightarrow> 'd \<times> bool" where
  "pg_is_blank regs addr [] st = st"
| "pg_is_blank regs addr (i # is) (d, blank) =
     (let (d, ok, v) = efuse_OneByteRead regs (addr + 1 + i) d in
      pg_is_blank regs addr is (d, blank \<and> \<not> (ok \<and> v \<noteq> 0xFF)))"

text \<open>Case so: the address holds a header.\<close>

definition pg_old_header ::
  "'d efuse_regs \<Rightarrow> u8 \<Rightarrow> 'd pg_again \<Rightarrow> u8 \<Rightarrow> pg_vars \<Rightarrow> 'd efuse_st \<Rightarrow>
     ('d efuse_st \<times> pg_vars \<times> bool) option" where
  "pg_old_header regs offset again header l s =
     (let tmp_offset = drop_bit 4 header AND 0x0F;
          tmp_word_en = header AND 0x0F;
          cnts = Efuse_CalculateWordCnts tmp_word_en;
          next_packet = l\<lparr>efuse_addr := efuse_addr l + cnts * 2 + 1, WriteState := PG_STATE_HEADER\<rparr>
      in if tmp_offset \<noteq> target_offset l then Some (s, next_packet, True)
         else let (d, blank) = pg_is_blank regs (efuse_addr l) [0..<cnts * 2] (dev s, True);
                  s = s\<lparr>dev := d\<rparr>
              in if \<not> blank then Some (s, next_packet, True)
                 else pg_fill_packet regs offset again tmp_word_en l s)"

text \<open>Case s1: the address is free. The header is programmed and read back.\<close>

definition pg_new_header ::
  "'d efuse_regs \<Rightarrow> 'd pg_again \<Rightarrow> pg_vars \<Rightarrow> 'd efuse_st \<Rightarrow>
     ('d efuse_st \<times> pg_vars \<times> bool) option" where
  "pg_new_header regs again l s =
     (let pg_header = ((push_bit 4 (target_offset l)) AND 0xF0) OR target_word_en l;
          (d, _) = efuse_OneByteWrite regs (efuse_addr l) pg_header (dev s);
          (d, _, tmp_header) = efuse_OneByteRead regs (efuse_addr l) d;
          s = s\<lparr>dev := d\<rparr>
      in if tmp_header = pg_header then Some (s, l\<lparr>WriteState := PG_STATE_DATA\<rparr>, True)
         else if tmp_header = 0xFF
         then let (s, cont) = count_repeat s True in Some (s, l\<lparr>WriteState := PG_STATE_HEADER\<rparr>, cont)
         else do {
           let tmp_offset = drop_bit 4 tmp_header AND 0x0F;
           let tmp_word_en = tmp_header AND 0x0F;
           let next_addr = efuse_addr l + Efuse_CalculateWordCnts tmp_word_en * 2 + 1;
           let (d, found, dat) = hal_EfusePgPacketRead_8192C regs tmp_offset (dev s);
           let original = (case dat of Some x \<Rightarrow> x | None \<Rightarrow> replicate 8 0xFF);
           let s = s\<lparr>dev := d\<rparr>;
           (s, a) \<leftarrow>
             (if found
              then do {
                let (d, badworden) =
                  Hal_EfuseWordEnableDataWrite regs (efuse_addr l + 1) tmp_word_en original (dev s);
                let s = s\<lparr>dev := d\<rparr>;
                if badworden AND 0x0F \<noteq> 0x0F
                then do {
                  s \<leftarrow> again tmp_offset badworden original s;
                  let (d, a) = hal_EfuseGetCurrentSize_8192C regs (dev s);
                  Some (s\<lparr>dev := d\<rparr>, a)
                }
                else Some (s, next_addr)
              }
              else Some (s, next_addr));
           let (s, cont) = count_repeat s True;
           Some (s, l\<lparr>efuse_addr := a, originaldata := original, WriteState := PG_STATE_HEADER\<rparr>, cont)
         })"

text \<open>\<^verbatim>\<open>PG_STATE_DATA\<close>: the words follow the header.\<close>

definition pg_write_data ::
  "'d efuse_regs \<Rightarrow> u8 \<Rightarrow> pg_vars \<Rightarrow> 'd efuse_st \<Rightarrow> 'd efuse_st \<times> pg_vars \<times> bool" where
  "pg_write_data regs offset l s =
     (let (d, badworden) =
        Hal_EfuseWordEnableDataWrite regs (efuse_addr l + 1) (target_word_en l) (target_data l) (dev s);
          s = s\<lparr>dev := d\<rparr>
      in if badworden AND 0x0F = 0x0F then (s, l, False)
         else let l = l\<lparr>efuse_addr := efuse_addr l + 2 * target_word_cnts l + 1,
                        target_offset := offset, target_word_en := badworden,
                        target_word_cnts := Efuse_CalculateWordCnts badworden,
                        WriteState := PG_STATE_HEADER\<rparr>;
                  (s, cont) = count_repeat s True
              in (s, l, cont))"

definition pg_write_turn ::
  "'d efuse_regs \<Rightarrow> u8 \<Rightarrow> 'd pg_again \<Rightarrow> pg_vars \<Rightarrow> 'd efuse_st \<Rightarrow>
     ('d efuse_st \<times> pg_vars \<times> bool) option" where
  "pg_write_turn regs offset again l s =
     (case WriteState l of
        PG_STATE_HEADER \<Rightarrow>
          let (d, ok, v) = efuse_OneByteRead regs (efuse_addr l) (dev s);
              s = s\<lparr>dev := d\<rparr>
          in if ok \<and> v \<noteq> 0xFF then pg_old_header regs offset again v l s
             else pg_new_header regs again l s
      | PG_STATE_DATA \<Rightarrow> Some (pg_write_data regs offset l s))"

text \<open>
  The function: what goes before its loop, the loop, and both together. A turn takes one unit of fuel,
  also of the loops of the calls within it. \<open>stack\<close> is what the uninitialised array holds.
\<close>

definition pg_packet_start ::
  "'d efuse_regs \<Rightarrow> u8 list \<Rightarrow> (pg_vars \<Rightarrow> 'd efuse_st \<Rightarrow> 'd efuse_st option) \<Rightarrow> u8 \<Rightarrow> u8 \<Rightarrow> u8 list \<Rightarrow>
     'd efuse_st \<Rightarrow> ('d efuse_st \<times> bool) option" where
  "pg_packet_start regs stack loop offset word_en dat s =
     (let (d, size) = hal_EfuseGetCurrentSize_8192C regs (dev s);
          s = s\<lparr>dev := d\<rparr>
      in if size \<ge> EFUSE_REAL_CONTENT_LEN - EFUSE_OOB_PROTECT_BYTES then Some (s, False)
         else do {
           s \<leftarrow> loop
             \<lparr>WriteState = PG_STATE_HEADER, efuse_addr = 0, target_offset = offset,
              target_word_en = word_en,
              target_data = efuse_WordEnableDataRead word_en dat (replicate 8 0xFF),
              target_word_cnts = Efuse_CalculateWordCnts word_en, originaldata = stack\<rparr> s;
           Some (s, True)
         })"

fun pg_write_loop ::
  "nat \<Rightarrow> 'd efuse_regs \<Rightarrow> u8 list \<Rightarrow> u8 \<Rightarrow> pg_vars \<Rightarrow> 'd efuse_st \<Rightarrow> 'd efuse_st option" where
  "pg_write_loop 0 regs stack offset l s = None"
| "pg_write_loop (Suc n) regs stack offset l s =
     (if efuse_addr l < EFUSE_REAL_CONTENT_LEN - EFUSE_OOB_PROTECT_BYTES
      then do {
        (s, l, cont) \<leftarrow> pg_write_turn regs offset
          (\<lambda>off we dat s. map_option fst
             (pg_packet_start regs stack (\<lambda>l s. pg_write_loop n regs stack off l s) off we dat s)) l s;
        if cont then pg_write_loop n regs stack offset l s else Some s
      }
      else Some s)"

definition hal_EfusePgPacketWrite_8192C ::
  "nat \<Rightarrow> 'd efuse_regs \<Rightarrow> u8 list \<Rightarrow> u8 \<Rightarrow> u8 \<Rightarrow> u8 list \<Rightarrow> 'd efuse_st \<Rightarrow>
     ('d efuse_st \<times> bool) option" where
  "hal_EfusePgPacketWrite_8192C n regs stack offset word_en dat s =
     pg_packet_start regs stack (pg_write_loop n regs stack offset) offset word_en dat s"

declare pg_write_loop.simps [simp del]

section \<open>Access to the memory and to the map\<close>

fun access_loop ::
  "'d efuse_regs \<Rightarrow> bool \<Rightarrow> nat \<Rightarrow> u8 list \<Rightarrow> 'd \<times> status \<Rightarrow> u8 list \<Rightarrow> 'd \<times> status \<times> u8 list" where
  "access_loop regs bWrite addr [] (d, res) acc = (d, res, acc)"
| "access_loop regs bWrite addr (x # xs) (d, res) acc =
     (if addr \<ge> EFUSE_REAL_CONTENT_LEN then (d, FAIL, acc @ x # xs)
      else let (d, ok, y) = (if bWrite then let (d, ok) = efuse_OneByteWrite regs addr x d in (d, ok, x)
                             else efuse_OneByteRead regs addr d)
           in if ok then access_loop regs bWrite (addr + 1) xs (d, SUCCESS) (acc @ [y])
              else (d, FAIL, acc @ y # xs))"

text \<open>\<^verbatim>\<open>rtw_efuse_access\<close> on a buffer of \<^verbatim>\<open>cnts\<close> bytes, given back as the call leaves it.\<close>

definition rtw_efuse_access ::
  "'d efuse_regs \<Rightarrow> bool \<Rightarrow> nat \<Rightarrow> u8 list \<Rightarrow> 'd \<Rightarrow> 'd \<times> status \<times> u8 list" where
  "rtw_efuse_access regs bWrite start_addr buf d =
     (if start_addr > EFUSE_REAL_CONTENT_LEN then (d, FAIL, buf)
      else if bWrite \<and> start_addr + length buf > EFUSE_REAL_CONTENT_LEN - EFUSE_OOB_PROTECT_BYTES
      then (d, FAIL, buf)
      else let d = hal_EfusePowerSwitch_RTL8192C regs bWrite True d;
               (d, res, buf) = access_loop regs bWrite start_addr buf (d, FAIL) []
           in (hal_EfusePowerSwitch_RTL8192C regs bWrite False d, res, buf))"

definition rtw_efuse_map_read :: "'d efuse_regs \<Rightarrow> nat \<Rightarrow> nat \<Rightarrow> 'd \<Rightarrow> 'd \<times> u8 list option" where
  "rtw_efuse_map_read regs addr cnts d =
     (if addr + cnts > EFUSE_MAP_LEN then (d, None)
      else let d = hal_EfusePowerSwitch_RTL8192C regs False True d;
               (d, r) = ReadEFuse_RTL8192C regs addr cnts d
           in (hal_EfusePowerSwitch_RTL8192C regs False False d, map_option fst r))"

text \<open>
  \<^verbatim>\<open>rtw_efuse_map_write\<close>. \<open>fill_odd\<close> is its first step, \<open>fill_packet\<close> the inner loop over the
  words of a section: both give the index into the data, the enabled words and the bytes of the packet,
  and \<open>None\<close> when an index leaves a buffer.
\<close>

definition enable_word :: "u8 \<Rightarrow> nat \<Rightarrow> u8" where
  "enable_word word_en i = word_en AND NOT (push_bit (i div 2) 1)"

definition fill_odd ::
  "u8 list \<Rightarrow> u8 list \<Rightarrow> nat \<Rightarrow> nat \<Rightarrow> u8 list \<Rightarrow> (nat \<times> nat \<times> u8 \<times> u8 list) option" where
  "fill_odd dat mp addr i newdata =
     (if odd i
      then do {
        x \<leftarrow> byte_at 0 dat;
        m \<leftarrow> byte_at addr mp;
        if x \<noteq> m
        then do {
          m0 \<leftarrow> byte_at (addr - 1) mp;
          Some (i + 1, 1, enable_word 0x0F i, newdata[i - 1 := m0, i := x])
        }
        else Some (i + 1, 1, 0x0F, newdata)
      }
      else Some (i, 0, 0x0F, newdata))"

fun fill_packet ::
  "u8 list \<Rightarrow> nat \<Rightarrow> u8 list \<Rightarrow> nat \<Rightarrow> nat list \<Rightarrow> nat \<times> u8 \<times> u8 list \<Rightarrow>
     (nat \<times> u8 \<times> u8 list) option" where
  "fill_packet dat cnts mp addr [] st = Some st"
| "fill_packet dat cnts mp addr (i # is) (idx, we, nd) =
     (if idx = cnts then Some (idx, we, nd)
      else if cnts - idx = 1 \<and> idx < cnts
      then do {
        x \<leftarrow> byte_at idx dat;
        m \<leftarrow> byte_at (addr + idx) mp;
        if x \<noteq> m
        then do {
          m1 \<leftarrow> byte_at (addr + idx + 1) mp;
          Some (idx + 1, enable_word we i, nd[i := x, i + 1 := m1])
        }
        else Some (idx + 1, we, nd)
      }
      else do {
        x \<leftarrow> byte_at idx dat;
        y \<leftarrow> byte_at (idx + 1) dat;
        m \<leftarrow> byte_at (addr + idx) mp;
        m1 \<leftarrow> byte_at (addr + idx + 1) mp;
        fill_packet dat cnts mp addr is
          (if x \<noteq> m \<or> y \<noteq> m1 then (idx + 2, enable_word we i, nd[i := x, i + 1 := y])
           else (idx + 2, we, nd))
      })"

text \<open>The positions of the words of a section from byte \<open>i\<close> on.\<close>

definition word_starts :: "nat \<Rightarrow> nat list" where
  "word_starts i = filter (\<lambda>k. i \<le> k) [0, 2, 4, 6]"

text \<open>
  The outer loop: the sections from \<open>offset\<close> on. \<open>ret\<close> is what the last packet written gave.
  The result is \<open>None\<close> when an index leaves a buffer or the fuel runs out.
\<close>

fun map_write_loop ::
  "nat \<Rightarrow> 'd efuse_regs \<Rightarrow> u8 list \<Rightarrow> u8 list \<Rightarrow> nat \<Rightarrow> u8 list \<Rightarrow> nat \<Rightarrow> nat \<Rightarrow>
     nat \<times> nat \<times> u8 \<times> u8 list \<Rightarrow> status \<Rightarrow> 'd efuse_st \<Rightarrow> ('d efuse_st \<times> status) option" where
  "map_write_loop 0 regs stack dat cnts mp addr offset st ret s = None"
| "map_write_loop (Suc n) regs stack dat cnts mp addr offset (i, idx, we, nd) ret s = do {
     (idx, we, nd) \<leftarrow> fill_packet dat cnts mp addr (word_starts i) (idx, we, nd);
     (s, ret) \<leftarrow>
       (if we \<noteq> 0x0F
        then do {
          (s, r) \<leftarrow> hal_EfusePgPacketWrite_8192C n regs stack (word_of_nat offset) we nd s;
          Some (s, if r then SUCCESS else FAIL)
        }
        else Some (s, ret));
     if we \<noteq> 0x0F \<and> ret = FAIL then Some (s, FAIL)
     else if idx = cnts then Some (s, ret)
     else map_write_loop n regs stack dat cnts mp addr (offset + 1)
            (0, idx, 0x0F, replicate PGPKT_DATA_SIZE 0xFF) ret s
   }"

definition rtw_efuse_map_write ::
  "nat \<Rightarrow> 'd efuse_regs \<Rightarrow> u8 list \<Rightarrow> nat \<Rightarrow> nat \<Rightarrow> u8 list \<Rightarrow> 'd efuse_st \<Rightarrow>
     ('d efuse_st \<times> status) option" where
  "rtw_efuse_map_write n regs stack addr cnts dat s =
     (if addr + cnts > EFUSE_MAP_LEN then Some (s, FAIL)
      else case rtw_efuse_map_read regs 0 EFUSE_MAP_LEN (dev s) of
        (d, None) \<Rightarrow> Some (s\<lparr>dev := d\<rparr>, FAIL)
      | (d, Some mp) \<Rightarrow> do {
          let s = s\<lparr>dev := hal_EfusePowerSwitch_RTL8192C regs True True d\<rparr>;
          st \<leftarrow> fill_odd dat mp addr (addr mod 8) (replicate PGPKT_DATA_SIZE 0xFF);
          (s, ret) \<leftarrow> map_write_loop n regs stack dat cnts mp addr (addr div 8) st SUCCESS s;
          Some (s\<lparr>dev := hal_EfusePowerSwitch_RTL8192C regs True False (dev s)\<rparr>, ret)
        })"

section \<open>The shadow of the map\<close>

definition Efuse_ReadAllMap :: "'d efuse_regs \<Rightarrow> 'd \<Rightarrow> 'd \<times> u8 list option" where
  "Efuse_ReadAllMap regs d =
     (let d = hal_EfusePowerSwitch_RTL8192C regs False True d;
          (d, r) = ReadEFuse_RTL8192C regs 0 EFUSE_MAP_LEN d
      in (hal_EfusePowerSwitch_RTL8192C regs False False d, map_option fst r))"

text \<open>\<open>shadow\<close> is \<^verbatim>\<open>efuse_eeprom_data\<close>, of which the first 128 bytes are written.\<close>

definition EFUSE_ShadowMapUpdate ::
  "'d efuse_regs \<Rightarrow> bool \<Rightarrow> u8 list \<Rightarrow> 'd \<Rightarrow> 'd \<times> u8 list option" where
  "EFUSE_ShadowMapUpdate regs bautoload_fail_flag shadow d =
     (if bautoload_fail_flag then (d, write_at 0 (replicate EFUSE_MAP_LEN 0xFF) shadow)
      else let (d, r) = Efuse_ReadAllMap regs d in
           (d, case r of Some m \<Rightarrow> write_at 0 m shadow | None \<Rightarrow> Some shadow))"

text \<open>
  \<^verbatim>\<open>EFUSE_ShadowRead\<close> stores one, two or four bytes at the start of \<^verbatim>\<open>*Value\<close>; the rest of it stays.
\<close>

definition EFUSE_ShadowRead :: "nat \<Rightarrow> nat \<Rightarrow> u8 list \<Rightarrow> u32 \<Rightarrow> u32 option" where
  "EFUSE_ShadowRead Type off shadow val =
     (if Type = 1 then do {
        a \<leftarrow> byte_at off shadow; Some ((val AND 0xFFFFFF00) OR ucast a) }
      else if Type = 2 then do {
        a \<leftarrow> byte_at off shadow; b \<leftarrow> byte_at (off + 1) shadow;
        Some ((val AND 0xFFFF0000) OR ucast a OR push_bit 8 (ucast b)) }
      else if Type = 4 then do {
        a \<leftarrow> byte_at off shadow; b \<leftarrow> byte_at (off + 1) shadow;
        c \<leftarrow> byte_at (off + 2) shadow; e \<leftarrow> byte_at (off + 3) shadow;
        Some (ucast a OR push_bit 8 (ucast b) OR push_bit 16 (ucast c) OR push_bit 24 (ucast e)) }
      else Some val)"

end
