(* ===== verification/Efuse_Log.thy ===== *)
theory Efuse_Log
  imports Efuse
begin

text \<open>
  What the functions of \<^verbatim>\<open>Efuse\<close> do with a log of packets. The chip is any device whose registers
  behave as \<open>efuse_chip\<close> says; from it \<open>efuse_bytes\<close>, the behaviour of the accesses to one byte,
  is derived, on which the rest builds. \<open>map_of_log\<close> is the abstract meaning of a log.
\<close>

section \<open>The chip\<close>

text \<open>
  The registers of the EFUSE: the address (10 bits in two registers), the data, the command.
  A command with bit 7 clear reads the byte at the address, one with bit 7 set programs it. The chip
  turns the bit over when it has finished, which is when the register has been tested \<open>ev_busy\<close> more times.
\<close>

record efuse_view =
  ev_low :: u8
  ev_high :: u8
  ev_data :: u8
  ev_prog :: bool
  ev_busy :: nat
  ev_mem :: "u8 list"

definition ev_addr :: "efuse_view \<Rightarrow> nat" where
  "ev_addr v = unat (ev_low v) + 256 * unat (ev_high v AND 0x03)"

definition chip_address :: "'d efuse_regs \<Rightarrow> ('d \<Rightarrow> efuse_view) \<Rightarrow> bool" where
  "chip_address regs view \<longleftrightarrow>
     (\<forall>d v. view (rtw_write8 regs d (EFUSE_CTRL + 1) v) = (view d)\<lparr>ev_low := v\<rparr>) \<and>
     (\<forall>d v. view (rtw_write8 regs d (EFUSE_CTRL + 2) v) = (view d)\<lparr>ev_high := v\<rparr>) \<and>
     (\<forall>d. view (fst (rtw_read8 regs d (EFUSE_CTRL + 2))) = view d \<and>
          snd (rtw_read8 regs d (EFUSE_CTRL + 2)) = ev_high (view d))"

definition chip_command :: "'d efuse_regs \<Rightarrow> ('d \<Rightarrow> efuse_view) \<Rightarrow> bool" where
  "chip_command regs view \<longleftrightarrow>
     (\<forall>d v. view (rtw_write8 regs d EFUSE_CTRL v) = (view d)\<lparr>ev_data := v\<rparr>) \<and>
     (\<forall>d v. \<not> bit v 7 \<longrightarrow> (let e = view d; e' = view (rtw_write8 regs d (EFUSE_CTRL + 3) v) in
        ev_mem e' = ev_mem e \<and> ev_busy e' < 100 \<and> \<not> ev_prog e' \<and>
        (ev_addr e < 512 \<longrightarrow> ev_data e' = ev_mem e ! ev_addr e))) \<and>
     (\<forall>d v. bit v 7 \<longrightarrow> (let e = view d; e' = view (rtw_write8 regs d (EFUSE_CTRL + 3) v) in
        ev_busy e' < 100 \<and> ev_prog e' \<and>
        (ev_addr e < 512 \<and> ev_mem e ! ev_addr e = 0xFF \<longrightarrow>
           ev_mem e' = (ev_mem e)[ev_addr e := ev_data e])))"

definition chip_status :: "'d efuse_regs \<Rightarrow> ('d \<Rightarrow> efuse_view) \<Rightarrow> bool" where
  "chip_status regs view \<longleftrightarrow>
     (\<forall>d. view (fst (rtw_read8 regs d (EFUSE_CTRL + 3))) = (view d)\<lparr>ev_busy := ev_busy (view d) - 1\<rparr> \<and>
          (bit (snd (rtw_read8 regs d (EFUSE_CTRL + 3))) 7 \<longleftrightarrow> (ev_busy (view d) = 0) \<noteq> ev_prog (view d))) \<and>
     (\<forall>d. view (fst (rtw_read32 regs d EFUSE_CTRL)) = (view d)\<lparr>ev_busy := ev_busy (view d) - 1\<rparr> \<and>
          (bit (snd (rtw_read32 regs d EFUSE_CTRL)) 31 \<longleftrightarrow> (ev_busy (view d) = 0) \<noteq> ev_prog (view d)) \<and>
          (ev_busy (view d) = 0 \<longrightarrow> ucast (snd (rtw_read32 regs d EFUSE_CTRL)) = ev_data (view d))) \<and>
     (\<forall>d. ev_busy (view d) = 0 \<longrightarrow> view (fst (rtw_read8 regs d EFUSE_CTRL)) = view d \<and>
          snd (rtw_read8 regs d EFUSE_CTRL) = ev_data (view d))"

text \<open>The registers that switch the power do not touch the memory.\<close>

definition chip_power :: "'d efuse_regs \<Rightarrow> ('d \<Rightarrow> efuse_view) \<Rightarrow> bool" where
  "chip_power regs view \<longleftrightarrow>
     (\<forall>d a. a \<in> {REG_SYS_ISO_CTRL, REG_SYS_FUNC_EN, REG_SYS_CLKR} \<longrightarrow>
        ev_mem (view (fst (rtw_read16 regs d a))) = ev_mem (view d) \<and>
        (\<forall>v. ev_mem (view (rtw_write16 regs d a v)) = ev_mem (view d))) \<and>
     (\<forall>d v. ev_mem (view (fst (rtw_read8 regs d (EFUSE_TEST + 3)))) = ev_mem (view d) \<and>
        ev_mem (view (rtw_write8 regs d (EFUSE_TEST + 3) v)) = ev_mem (view d))"

definition efuse_chip :: "'d efuse_regs \<Rightarrow> ('d \<Rightarrow> efuse_view) \<Rightarrow> bool" where
  "efuse_chip regs view \<longleftrightarrow> chip_address regs view \<and> chip_command regs view \<and> chip_status regs view \<and>
     (\<forall>d. length (ev_mem (view d)) = 512) \<and>
     chip_power regs view"

text \<open>The accesses to one byte of a memory \<open>mem\<close>.\<close>

definition efuse_bytes :: "'d efuse_regs \<Rightarrow> ('d \<Rightarrow> u8 list) \<Rightarrow> bool" where
  "efuse_bytes regs mem \<longleftrightarrow>
     (\<forall>d. length (mem d) = 512) \<and>
     (\<forall>w p d. mem (hal_EfusePowerSwitch_RTL8192C regs w p d) = mem d) \<and>
     (\<forall>a d. \<exists>d' v. efuse_OneByteRead regs a d = (d', True, v) \<and> mem d' = mem d \<and>
        (a < 512 \<longrightarrow> v = mem d ! a)) \<and>
     (\<forall>a d. \<exists>d' v. ReadEFuseByte regs a d = (d', v) \<and> mem d' = mem d \<and> (a < 512 \<longrightarrow> v = mem d ! a)) \<and>
     (\<forall>a v d. a < 512 \<and> mem d ! a = 0xFF \<longrightarrow>
        (\<exists>d'. efuse_OneByteWrite regs a v d = (d', True) \<and> mem d' = (mem d)[a := v]))"

lemma unat_and_3: "unat ((x AND 3) :: u8) = unat x mod 4"
proof -
  have "x AND 3 = take_bit 2 x" by (simp add: take_bit_eq_mask mask_eq_exp_minus_1)
  then show ?thesis by (simp add: unsigned_take_bit_eq take_bit_eq_mod unat_mod_distrib)
qed

lemma high_merge: "((x AND 0x03) OR (v AND 0xFC)) AND 0x03 = x AND (0x03 :: u8)"
proof (rule bit_word_eqI)
  fix n assume "n < LENGTH(8)"
  then consider "n = 0" | "n = 1" | "n = 2" | "n = 3" | "n = 4" | "n = 5" | "n = 6" | "n = 7" by fastforce
  then show "bit (((x AND 0x03) OR (v AND 0xFC)) AND 0x03) n = bit (x AND 0x03) n"
    by cases (simp_all add: bit_simps bit_numeral_rec)
qed

lemma set_efuse_addr_view:
  assumes "efuse_chip regs view"
  shows "ev_mem (view (set_efuse_addr regs a d)) = ev_mem (view d)"
    and "a < 512 \<Longrightarrow> ev_addr (view (set_efuse_addr regs a d)) = a"
proof -
  have addr: "chip_address regs view" using assms by (simp add: efuse_chip_def)
  have and255: "x AND 0xFF = x" for x :: u8
    using take_bit_length_eq [of x] by (simp add: take_bit_eq_mask mask_eq_exp_minus_1)
  show "ev_mem (view (set_efuse_addr regs a d)) = ev_mem (view d)"
    using addr by (simp add: chip_address_def set_efuse_addr_def Let_def case_prod_beta)
  assume "a < 512"
  then have lo: "unat (word_of_nat a :: u8) = a mod 256" and "unat (word_of_nat (a div 256) :: u8) = a div 256"
    by (simp_all add: unsigned_of_nat take_bit_nat_eq_self take_bit_eq_mod)
  then have hi: "unat (word_of_nat (a div 256) AND (0x03 :: u8)) = a div 256"
    using \<open>a < 512\<close> by (simp add: unat_and_3)
  show "ev_addr (view (set_efuse_addr regs a d)) = a"
    using addr lo hi by (simp add: chip_address_def set_efuse_addr_def Let_def ev_addr_def and255 high_merge
        case_prod_beta)
qed


lemma poll_flag_done:
  assumes "efuse_chip regs view" and "ev_busy (view d) < n" and "ev_prog (view d) = (\<not> want)"
  shows "\<exists>d'. poll_flag regs want n d = (d', True) \<and> view d' = (view d)\<lparr>ev_busy := 0\<rparr>"
  using assms(2,3)
proof (induction n arbitrary: d)
  case (Suc n)
  obtain d1 v where r: "rtw_read8 regs d (EFUSE_CTRL + 3) = (d1, v)" by fastforce
  with assms(1) have v1: "view d1 = (view d)\<lparr>ev_busy := ev_busy (view d) - 1\<rparr>"
    and b: "bit v 7 = ((ev_busy (view d) = 0) \<noteq> ev_prog (view d))"
    by (simp_all add: efuse_chip_def chip_status_def) (metis fst_conv, metis snd_conv)
  show ?case
  proof (cases "ev_busy (view d) = 0")
    case True
    then show ?thesis using r v1 b Suc.prems by (subst poll_flag.simps) (auto simp: Let_def)
  next
    case False
    then have "\<exists>d'. poll_flag regs want n d1 = (d', True) \<and> view d' = (view d1)\<lparr>ev_busy := 0\<rparr>"
      using Suc.prems v1 by (intro Suc.IH) auto
    then show ?thesis using r v1 b Suc.prems False by (subst poll_flag.simps) (auto simp: Let_def)
  qed
qed simp

lemma wait_ready32_done:
  assumes "efuse_chip regs view" and "ev_busy (view d) \<le> n" and "\<not> ev_prog (view d)"
  shows "view (wait_ready32 regs n v d) = (view d)\<lparr>ev_busy := ev_busy (view (wait_ready32 regs n v d))\<rparr>"
    and "\<not> bit v 31 \<or> ev_busy (view d) = 0 \<Longrightarrow> ev_busy (view (wait_ready32 regs n v d)) = 0"
proof -
  have "view (wait_ready32 regs n v d) = (view d)\<lparr>ev_busy := ev_busy (view (wait_ready32 regs n v d))\<rparr> \<and>
     (\<not> bit v 31 \<or> ev_busy (view d) = 0 \<longrightarrow> ev_busy (view (wait_ready32 regs n v d)) = 0)"
    using assms(2,3)
  proof (induction n arbitrary: d v)
    case (Suc n)
    obtain d1 w where r: "rtw_read32 regs d EFUSE_CTRL = (d1, w)" by fastforce
    with assms(1) have v1: "view d1 = (view d)\<lparr>ev_busy := ev_busy (view d) - 1\<rparr>"
      and b: "bit w 31 = ((ev_busy (view d) = 0) \<noteq> ev_prog (view d))"
      by (simp_all add: efuse_chip_def chip_status_def) (metis fst_conv, metis snd_conv)
    show ?case
    proof (cases "bit v 31")
      case True
      then have "wait_ready32 regs (Suc n) v d = d" by (subst wait_ready32.simps) simp
      then show ?thesis using True by simp
    next
      case False
      have step: "wait_ready32 regs (Suc n) v d = wait_ready32 regs n w d1"
        using False r by (subst wait_ready32.simps) simp
      have ih: "view (wait_ready32 regs n w d1) =
          (view d1)\<lparr>ev_busy := ev_busy (view (wait_ready32 regs n w d1))\<rparr> \<and>
         (\<not> bit w 31 \<or> ev_busy (view d1) = 0 \<longrightarrow> ev_busy (view (wait_ready32 regs n w d1)) = 0)"
        using Suc.prems v1 by (intro Suc.IH) auto
      show ?thesis unfolding step using ih v1 b Suc.prems by auto
    qed
  qed (simp add: wait_ready32.simps)
  then show "view (wait_ready32 regs n v d) = (view d)\<lparr>ev_busy := ev_busy (view (wait_ready32 regs n v d))\<rparr>"
    and "\<not> bit v 31 \<or> ev_busy (view d) = 0 \<Longrightarrow> ev_busy (view (wait_ready32 regs n v d)) = 0"
    by blast+
qed

lemma chip_byte_read:
  assumes "efuse_chip regs view"
  shows "\<exists>d' v. efuse_OneByteRead regs a d = (d', True, v) \<and> ev_mem (view d') = ev_mem (view d) \<and>
     (a < 512 \<longrightarrow> v = ev_mem (view d) ! a)"
proof -
  define d1 where "d1 = set_efuse_addr regs a d"
  define d2 where "d2 = rtw_write8 regs d1 (EFUSE_CTRL + 3) 0x72"
  have d1: "ev_mem (view d1) = ev_mem (view d)" "a < 512 \<Longrightarrow> ev_addr (view d1) = a"
    unfolding d1_def by (rule set_efuse_addr_view [OF assms], rule set_efuse_addr_view(2) [OF assms])
  have cmd: "chip_command regs view" using assms by (simp add: efuse_chip_def)
  have "\<not> bit (0x72 :: u8) 7" by simp
  with cmd have d2: "ev_mem (view d2) = ev_mem (view d1)" "ev_busy (view d2) < 100" "\<not> ev_prog (view d2)"
    "ev_addr (view d1) < 512 \<Longrightarrow> ev_data (view d2) = ev_mem (view d1) ! ev_addr (view d1)"
    unfolding d2_def chip_command_def Let_def by blast+
  obtain d3 where p: "poll_flag regs True 100 d2 = (d3, True)" and d3: "view d3 = (view d2)\<lparr>ev_busy := 0\<rparr>"
    using poll_flag_done [OF assms d2(2), of True] d2(3) by auto
  have "view (fst (rtw_read8 regs d3 EFUSE_CTRL)) = view d3"
    "snd (rtw_read8 regs d3 EFUSE_CTRL) = ev_data (view d3)"
    using assms d3 by (simp_all add: efuse_chip_def chip_status_def)
  then show ?thesis
    using d1 d2 d3 p by (simp add: efuse_OneByteRead_def Let_def d1_def [symmetric] d2_def [symmetric]
        case_prod_beta)
qed

lemma chip_byte_read32:
  assumes "efuse_chip regs view"
  shows "\<exists>d' v. ReadEFuseByte regs a d = (d', v) \<and> ev_mem (view d') = ev_mem (view d) \<and>
     (a < 512 \<longrightarrow> v = ev_mem (view d) ! a)"
proof -
  define d1 where "d1 = set_efuse_addr regs a d"
  define d2 where "d2 = fst (rtw_read8 regs d1 (EFUSE_CTRL + 3))"
  define x where "x = snd (rtw_read8 regs d1 (EFUSE_CTRL + 3))"
  define d3 where "d3 = rtw_write8 regs d2 (EFUSE_CTRL + 3) (x AND 0x7F)"
  define d4 where "d4 = fst (rtw_read32 regs d3 EFUSE_CTRL)"
  define w where "w = snd (rtw_read32 regs d3 EFUSE_CTRL)"
  define d5 where "d5 = wait_ready32 regs 10000 w d4"
  have d1: "ev_mem (view d1) = ev_mem (view d)" "a < 512 \<Longrightarrow> ev_addr (view d1) = a"
    unfolding d1_def by (rule set_efuse_addr_view [OF assms], rule set_efuse_addr_view(2) [OF assms])
  have cmd: "chip_command regs view" and st: "chip_status regs view"
    using assms by (simp_all add: efuse_chip_def)
  have d2: "view d2 = (view d1)\<lparr>ev_busy := ev_busy (view d1) - 1\<rparr>"
    unfolding d2_def using st by (simp add: chip_status_def)
  have "\<not> bit (x AND 0x7F) 7" by (simp add: bit_simps)
  with cmd have d3: "ev_mem (view d3) = ev_mem (view d2)" "ev_busy (view d3) < 100" "\<not> ev_prog (view d3)"
    "ev_addr (view d2) < 512 \<Longrightarrow> ev_data (view d3) = ev_mem (view d2) ! ev_addr (view d2)"
    unfolding d3_def chip_command_def Let_def by blast+
  have d4: "view d4 = (view d3)\<lparr>ev_busy := ev_busy (view d3) - 1\<rparr>"
    and w: "bit w 31 = (ev_busy (view d3) = 0)"
    unfolding d4_def w_def using st d3 by (simp_all add: chip_status_def)
  have "ev_busy (view d4) \<le> 10000" "\<not> ev_prog (view d4)" "\<not> bit w 31 \<or> ev_busy (view d4) = 0"
    using d3 d4 w by auto
  then have d5: "view d5 = (view d4)\<lparr>ev_busy := 0\<rparr>"
    unfolding d5_def by (metis wait_ready32_done [OF assms])
  have "view (fst (rtw_read32 regs d5 EFUSE_CTRL)) = view d5"
    "ucast (snd (rtw_read32 regs d5 EFUSE_CTRL)) = ev_data (view d5)"
    using st d5 by (simp_all add: chip_status_def)
  moreover have "ReadEFuseByte regs a d =
      (fst (rtw_read32 regs d5 EFUSE_CTRL), ucast (snd (rtw_read32 regs d5 EFUSE_CTRL)))"
    by (simp add: ReadEFuseByte_def Let_def case_prod_beta d1_def d2_def x_def d3_def d4_def w_def d5_def)
  moreover have "ev_addr (view d2) = ev_addr (view d1)" using d2 by (simp add: ev_addr_def)
  ultimately show ?thesis using d1 d2 d3 d4 d5 by simp
qed

lemma chip_byte_write:
  assumes "efuse_chip regs view" and "a < 512" and "ev_mem (view d) ! a = 0xFF"
  shows "\<exists>d'. efuse_OneByteWrite regs a v d = (d', True) \<and> ev_mem (view d') = (ev_mem (view d))[a := v]"
proof -
  define d1 where "d1 = set_efuse_addr regs a d"
  define d2 where "d2 = rtw_write8 regs d1 EFUSE_CTRL v"
  define d3 where "d3 = rtw_write8 regs d2 (EFUSE_CTRL + 3) 0xF2"
  have d1: "ev_mem (view d1) = ev_mem (view d)" "ev_addr (view d1) = a"
    unfolding d1_def using set_efuse_addr_view [OF assms(1)] assms(2) by blast+
  have cmd: "chip_command regs view" using assms by (simp add: efuse_chip_def)
  have d2: "view d2 = (view d1)\<lparr>ev_data := v\<rparr>" using cmd by (simp add: chip_command_def d2_def)
  then have a2: "ev_addr (view d2) = a" using d1 by (simp add: ev_addr_def)
  have "bit (0xF2 :: u8) 7" by simp
  with cmd have d3: "ev_busy (view d3) < 100" "ev_prog (view d3)"
    "ev_addr (view d2) < 512 \<and> ev_mem (view d2) ! ev_addr (view d2) = 0xFF \<Longrightarrow>
       ev_mem (view d3) = (ev_mem (view d2))[ev_addr (view d2) := ev_data (view d2)]"
    unfolding d3_def chip_command_def Let_def by blast+
  obtain d4 where p: "poll_flag regs False 100 d3 = (d4, True)" and d4: "view d4 = (view d3)\<lparr>ev_busy := 0\<rparr>"
    using poll_flag_done [OF assms(1) d3(1), of False] d3(2) by auto
  have "efuse_OneByteWrite regs a v d = (d4, True)"
    using p by (simp add: efuse_OneByteWrite_def Let_def d1_def d2_def d3_def)
  then show ?thesis using a2 d1 d2 d3 d4 assms by simp
qed

lemma chip_power_switch:
  assumes "efuse_chip regs view"
  shows "ev_mem (view (hal_EfusePowerSwitch_RTL8192C regs w p d)) = ev_mem (view d)"
proof -
  have pw: "chip_power regs view" using assms by (simp add: efuse_chip_def)
  have r16: "ev_mem (view (fst (rtw_read16 regs x a))) = ev_mem (view x)"
    and w16: "ev_mem (view (rtw_write16 regs x a v)) = ev_mem (view x)"
    if "a \<in> {REG_SYS_ISO_CTRL, REG_SYS_FUNC_EN, REG_SYS_CLKR}" for a v x
    using pw that unfolding chip_power_def by blast+
  then have on: "ev_mem (view (turn_on regs a m x)) = ev_mem (view x)"
    if "a \<in> {REG_SYS_ISO_CTRL, REG_SYS_FUNC_EN, REG_SYS_CLKR}" for a m x
    using that by (simp only: turn_on_def Let_def case_prod_beta r16 w16 split: if_splits) simp
  have test: "ev_mem (view (fst (rtw_read8 regs x (EFUSE_TEST + 3)))) = ev_mem (view x)"
    "ev_mem (view (rtw_write8 regs x (EFUSE_TEST + 3) v)) = ev_mem (view x)" for x v
    using pw by (simp_all only: chip_power_def)
  show ?thesis
    by (simp add: hal_EfusePowerSwitch_RTL8192C_def Let_def case_prod_beta test on)
qed

lemma chip_bytes: "efuse_chip regs view \<Longrightarrow> efuse_bytes regs (\<lambda>d. ev_mem (view d))"
  unfolding efuse_bytes_def
  using chip_byte_read [of regs view] chip_byte_read32 [of regs view] chip_byte_write [of regs view]
    chip_power_switch [of regs view]
  by (auto simp: efuse_chip_def)


section \<open>Packets and logs\<close>

text \<open>A packet: its section, the enabled words (bit clear), and the eight bytes they are taken from.\<close>

type_synonym packet = "nat \<times> u8 \<times> u8 list"

definition pkt_header :: "nat \<Rightarrow> u8 \<Rightarrow> u8" where
  "pkt_header off we = (push_bit 4 (word_of_nat off) AND 0xF0) OR we"

definition word_bytes :: "u8 \<Rightarrow> u8 list \<Rightarrow> nat \<Rightarrow> u8 list" where
  "word_bytes we dat i = (if bit we i then [] else [dat ! (2 * i), dat ! (2 * i + 1)])"

definition pkt_words :: "u8 \<Rightarrow> u8 list \<Rightarrow> u8 list" where
  "pkt_words we dat = word_bytes we dat 0 @ word_bytes we dat 1 @ word_bytes we dat 2 @ word_bytes we dat 3"

fun pkt_bytes :: "packet \<Rightarrow> u8 list" where
  "pkt_bytes (off, we, dat) = pkt_header off we # pkt_words we dat"

fun pkt_ok :: "packet \<Rightarrow> bool" where
  "pkt_ok (off, we, dat) \<longleftrightarrow> off < 16 \<and> we < 16 \<and> length dat = 8 \<and> pkt_header off we \<noteq> 0xFF"

definition log_bytes :: "packet list \<Rightarrow> u8 list" where
  "log_bytes ps = concat (map pkt_bytes ps)"

text \<open>The memory holds a log: well-formed packets, then erased bytes.\<close>

definition holds_log :: "u8 list \<Rightarrow> packet list \<Rightarrow> bool" where
  "holds_log m ps \<longleftrightarrow> list_all pkt_ok ps \<and> length (log_bytes ps) \<le> 512 \<and>
     m = log_bytes ps @ replicate (512 - length (log_bytes ps)) 0xFF"

text \<open>What a packet does to the map of 128 bytes, and what a log means.\<close>

fun apply_word :: "nat \<Rightarrow> u8 \<Rightarrow> u8 list \<Rightarrow> nat \<Rightarrow> u8 list \<Rightarrow> u8 list" where
  "apply_word off we dat i mp =
     (if bit we i then mp
      else mp[8 * off + 2 * i := dat ! (2 * i), 8 * off + 2 * i + 1 := dat ! (2 * i + 1)])"

declare apply_word.simps [simp del]

fun apply_pkt :: "packet \<Rightarrow> u8 list \<Rightarrow> u8 list" where
  "apply_pkt (off, we, dat) mp =
     apply_word off we dat 3 (apply_word off we dat 2 (apply_word off we dat 1 (apply_word off we dat 0 mp)))"

definition map_of_log :: "packet list \<Rightarrow> u8 list" where
  "map_of_log ps = fold apply_pkt ps (replicate 128 0xFF)"

lemma log_bytes_simps [simp]:
  "log_bytes [] = []" "log_bytes (p # ps) = pkt_bytes p @ log_bytes ps"
  "log_bytes (ps @ qs) = log_bytes ps @ log_bytes qs"
  by (simp_all add: log_bytes_def)

lemma log_bytes_Nil_iff: "log_bytes ps = [] \<longleftrightarrow> ps = []"
proof (cases ps)
  case (Cons p qs)
  then show ?thesis by (cases p) simp
qed simp

lemma length_word_bytes: "length (word_bytes we dat i) = (if bit we i then 0 else 2)"
  by (simp add: word_bytes_def)

lemma word_bytes_cases:
  "bit we i \<Longrightarrow> word_bytes we dat i = []"
  "\<not> bit we i \<Longrightarrow> word_bytes we dat i = [dat ! (2 * i), dat ! (2 * i + 1)]"
  by (simp_all add: word_bytes_def)

lemma length_pkt_words: "length (pkt_words we dat) = 2 * Efuse_CalculateWordCnts we"
  by (simp add: pkt_words_def length_word_bytes Efuse_CalculateWordCnts_def)

lemma word_cnts_le: "Efuse_CalculateWordCnts we \<le> 4"
  by (simp add: Efuse_CalculateWordCnts_def)

lemma nibble_bits: "x < 16 \<Longrightarrow> 4 \<le> n \<Longrightarrow> \<not> bit (x :: u8) n"
proof -
  assume "x < 16" and "4 \<le> n"
  then have "take_bit 4 x = x"
    by (simp add: word_unat_eq_iff unsigned_take_bit_eq take_bit_nat_eq_self word_less_nat_alt)
  with \<open>4 \<le> n\<close> show ?thesis by (metis bit_take_bit_iff not_le)
qed

lemma u8_cases: "n < LENGTH(8) \<Longrightarrow> (n = 0 \<or> n = 1 \<or> n = 2 \<or> n = 3 \<or> n = 4 \<or> n = 5 \<or> n = 6 \<or> n = 7)"
  by auto

lemma we_low_bits:
  assumes w: "we < 16"
  shows "we AND 0x0F = (we :: u8)"
proof (rule bit_word_eqI)
  fix n assume n: "n < LENGTH(8)"
  from u8_cases [OF n] show "bit (we AND 0x0F) n = bit we n"
    using nibble_bits [OF w] by (elim disjE) (simp_all add: bit_simps)
qed

lemma pkt_header_parts:
  assumes "off < 16" and "we < 16"
  shows "drop_bit 4 (pkt_header off we) AND 0x0F = word_of_nat off" and "pkt_header off we AND 0x0F = we"
proof -
  define w where "w = (word_of_nat off :: u8)"
  have "w < 16" using assms(1) unfolding w_def by (simp add: word_less_nat_alt unsigned_of_nat take_bit_nat_eq_self)
  note bits = nibble_bits [OF this] nibble_bits [OF assms(2)]
  show "drop_bit 4 (pkt_header off we) AND 0x0F = word_of_nat off"
    unfolding pkt_header_def w_def [symmetric]
  proof (rule bit_word_eqI)
    fix n assume "n < LENGTH(8)"
    from u8_cases [OF this] show "bit (drop_bit 4 ((push_bit 4 w AND 0xF0) OR we) AND 0x0F) n = bit w n"
      using bits by (elim disjE) (simp_all add: bit_simps)
  qed
  show "pkt_header off we AND 0x0F = we"
    unfolding pkt_header_def w_def [symmetric]
  proof (rule bit_word_eqI)
    fix n assume "n < LENGTH(8)"
    from u8_cases [OF this] show "bit (((push_bit 4 w AND 0xF0) OR we) AND 0x0F) n = bit we n"
      using bits by (elim disjE) (simp_all add: bit_simps)
  qed
qed

lemma list8: "length dat = 8 \<Longrightarrow>
  dat = [dat ! 0, dat ! 1, dat ! 2, dat ! 3, dat ! 4, dat ! 5, dat ! 6, dat ! 7]"
  by (rule nth_equalityI) (auto simp: less_Suc_eq numeral_eq_Suc)

lemma pkt_words_read:
  assumes "length dat = 8"
  shows "pkt_words we (efuse_WordEnableDataRead we dat (replicate 8 0xFF)) = pkt_words we dat"
  by (subst (1 2) list8 [OF assms])
    (auto simp: pkt_words_def word_bytes_def efuse_WordEnableDataRead_def copy_word_def numeral_eq_Suc)

section \<open>Programming words\<close>

lemma write_word_ok:
  assumes eb: "efuse_bytes regs mem" and m: "mem d = pre @ replicate k 0xFF"
    and k: "length (word_bytes we dat i) \<le> k"
  shows "\<exists>d'. write_word regs we dat i (d, length pre, bad) =
      (d', length (pre @ word_bytes we dat i), bad) \<and>
    mem d' = (pre @ word_bytes we dat i) @ replicate (k - length (word_bytes we dat i)) 0xFF"
proof (cases "bit we i")
  case True
  then show ?thesis using m by (simp add: write_word_def word_bytes_def)
next
  case False
  let ?x = "dat ! (2 * i)" and ?y = "dat ! (2 * i + 1)" and ?a = "length pre"
  obtain j where j: "k = Suc (Suc j)"
    using k False by (auto simp: length_word_bytes dest!: le_Suc_ex simp flip: numeral_2_eq_2)
  have len: "length pre + k = 512" using eb m by (metis efuse_bytes_def length_append length_replicate)
  have W: "\<And>a v d. a < 512 \<Longrightarrow> mem d ! a = 0xFF \<Longrightarrow>
      \<exists>d'. efuse_OneByteWrite regs a v d = (d', True) \<and> mem d' = (mem d)[a := v]"
    and R: "\<And>a d. \<exists>d' v. efuse_OneByteRead regs a d = (d', True, v) \<and> mem d' = mem d \<and>
      (a < 512 \<longrightarrow> v = mem d ! a)"
    using eb by (simp_all add: efuse_bytes_def)
  obtain d1 where d1: "efuse_OneByteWrite regs ?a ?x d = (d1, True)"
    and m1: "mem d1 = pre @ [?x] @ replicate (Suc j) 0xFF"
    using W [of ?a d ?x] m j len by (auto simp: nth_append list_update_append)
  obtain d2 where d2: "efuse_OneByteWrite regs (?a + 1) ?y d1 = (d2, True)"
    and m2: "mem d2 = pre @ [?x, ?y] @ replicate j 0xFF"
    using W [of "?a + 1" d1 ?y] m1 j len by (auto simp: nth_append list_update_append)
  obtain d3 where d3: "efuse_OneByteRead regs ?a d2 = (d3, True, ?x)" and m3: "mem d3 = mem d2"
    using R [of ?a d2] m2 len j by (auto simp: nth_append)
  obtain d4 where d4: "efuse_OneByteRead regs (?a + 1) d3 = (d4, True, ?y)" and m4: "mem d4 = mem d2"
    using R [of "?a + 1" d3] m2 m3 len j by (auto simp: nth_append)
  show ?thesis
    using False d1 d2 d3 d4 m2 m4 j by (simp add: write_word_def word_bytes_def Let_def)
qed

lemma write_words_ok:
  assumes eb: "efuse_bytes regs mem" and m: "mem d = pre @ replicate k 0xFF"
    and k: "length (pkt_words we dat) \<le> k"
  shows "\<exists>d'. Hal_EfuseWordEnableDataWrite regs (length pre) we dat d = (d', 0x0F) \<and>
    mem d' = pre @ pkt_words we dat @ replicate (k - length (pkt_words we dat)) 0xFF"
proof -
  let ?w = "word_bytes we dat"
  have k': "length (?w 0) + length (?w 1) + length (?w 2) + length (?w 3) \<le> k"
    using k by (simp add: pkt_words_def)
  have k0: "length (?w 0) \<le> k" and k1: "length (?w 1) \<le> k - length (?w 0)"
    and k2: "length (?w 2) \<le> k - length (?w 0) - length (?w 1)"
    and k3: "length (?w 3) \<le> k - length (?w 0) - length (?w 1) - length (?w 2)"
    using k' by linarith+
  obtain d0 where d0: "write_word regs we dat 0 (d, length pre, 0x0F) = (d0, length (pre @ ?w 0), 0x0F)"
    and m0: "mem d0 = (pre @ ?w 0) @ replicate (k - length (?w 0)) 0xFF"
    using write_word_ok [OF eb m k0, of "0x0F"] by blast
  obtain d1 where d1: "write_word regs we dat 1 (d0, length (pre @ ?w 0), 0x0F) =
      (d1, length ((pre @ ?w 0) @ ?w 1), 0x0F)"
    and m1: "mem d1 = ((pre @ ?w 0) @ ?w 1) @ replicate (k - length (?w 0) - length (?w 1)) 0xFF"
    using write_word_ok [OF eb m0 k1, of "0x0F"] by blast
  obtain d2 where d2: "write_word regs we dat 2 (d1, length ((pre @ ?w 0) @ ?w 1), 0x0F) =
      (d2, length (((pre @ ?w 0) @ ?w 1) @ ?w 2), 0x0F)"
    and m2: "mem d2 = (((pre @ ?w 0) @ ?w 1) @ ?w 2) @
      replicate (k - length (?w 0) - length (?w 1) - length (?w 2)) 0xFF"
    using write_word_ok [OF eb m1 k2, of "0x0F"] by blast
  obtain d3 where d3: "write_word regs we dat 3 (d2, length (((pre @ ?w 0) @ ?w 1) @ ?w 2), 0x0F) =
      (d3, length ((((pre @ ?w 0) @ ?w 1) @ ?w 2) @ ?w 3), 0x0F)"
    and m3: "mem d3 = ((((pre @ ?w 0) @ ?w 1) @ ?w 2) @ ?w 3) @
      replicate (k - length (?w 0) - length (?w 1) - length (?w 2) - length (?w 3)) 0xFF"
    using write_word_ok [OF eb m2 k3, of "0x0F"] by blast
  show ?thesis
    using d0 d1 d2 d3 m3 by (simp add: Hal_EfuseWordEnableDataWrite_def pkt_words_def diff_diff_left add.assoc)
qed


section \<open>The size of a log\<close>

lemma log_end:
  assumes "efuse_bytes regs mem" and "mem d = pre @ replicate k 0xFF"
  shows "length pre + k = 512" and "length pre < 512 \<Longrightarrow> mem d ! length pre = 0xFF"
proof -
  show len: "length pre + k = 512" using assms by (metis efuse_bytes_def length_append length_replicate)
  assume "length pre < 512"
  then show "mem d ! length pre = 0xFF" using assms(2) len by (simp add: nth_append)
qed

lemma one_read:
  assumes "efuse_bytes regs mem"
  obtains d' v where "efuse_OneByteRead regs a d = (d', True, v)" and "mem d' = mem d"
    and "a < 512 \<Longrightarrow> v = mem d ! a"
  using assms by (metis efuse_bytes_def)

lemma one_write:
  assumes "efuse_bytes regs mem" and "a < 512" and "mem d ! a = 0xFF"
  obtains d' where "efuse_OneByteWrite regs a v d = (d', True)" and "mem d' = (mem d)[a := v]"
  using assms by (metis efuse_bytes_def)

lemma one_read32:
  assumes "efuse_bytes regs mem"
  obtains d' v where "ReadEFuseByte regs a d = (d', v)" and "mem d' = mem d"
    and "a < 512 \<Longrightarrow> v = mem d ! a"
  using assms by (metis efuse_bytes_def)

lemma cur_size_loop_log:
  assumes eb: "efuse_bytes regs mem" and "mem d = pre @ log_bytes ps @ replicate k 0xFF"
    and "list_all pkt_ok ps"
  shows "\<exists>d'. cur_size_loop regs (length pre) d = (d', length pre + length (log_bytes ps)) \<and> mem d' = mem d"
  using assms(2,3)
proof (induction ps arbitrary: pre d)
  case Nil
  obtain d' v where r: "efuse_OneByteRead regs (length pre) d = (d', True, v)" "mem d' = mem d"
    and v: "length pre < 512 \<Longrightarrow> v = mem d ! length pre"
    using one_read [OF eb] by metis
  then show ?case
    using log_end(2) [OF eb, of d pre k] Nil by (subst cur_size_loop.simps) (auto simp: efuse_consts)
next
  case (Cons p ps)
  obtain off we dat where p: "p = (off, we, dat)" by (cases p)
  obtain d1 v where r: "efuse_OneByteRead regs (length pre) d = (d1, True, v)" and m1: "mem d1 = mem d"
    and v: "length pre < 512 \<Longrightarrow> v = mem d ! length pre"
    using one_read [OF eb] by metis
  have ok: "off < 16" "we < 16" "pkt_header off we \<noteq> 0xFF" using Cons.prems(2) p by auto
  have "length (mem d) = 512" using eb by (simp add: efuse_bytes_def)
  then have lt: "length pre < 512" using Cons.prems(1) p by simp
  with v have v: "v = pkt_header off we" using Cons.prems(1) p by (simp add: nth_append)
  have "\<exists>d'. cur_size_loop regs (length (pre @ pkt_bytes p)) d1 =
      (d', length (pre @ pkt_bytes p) + length (log_bytes ps)) \<and> mem d' = mem d1"
    using Cons.prems m1 by (intro Cons.IH) auto
  moreover have "length (pre @ pkt_bytes p) = length pre + Efuse_CalculateWordCnts we * 2 + 1"
    using p by (simp add: length_pkt_words)
  ultimately show ?case
    using r m1 lt ok v p pkt_header_parts(2) [OF ok(1,2)]
    by (subst cur_size_loop.simps) (simp add: efuse_consts length_pkt_words add.commute add.left_commute
        mult.commute)
qed

lemma current_size_log:
  assumes eb: "efuse_bytes regs mem" and "holds_log (mem d) ps"
  shows "\<exists>d'. hal_EfuseGetCurrentSize_8192C regs d = (d', length (log_bytes ps)) \<and> mem d' = mem d"
  using cur_size_loop_log [OF eb, of d "[]" ps "512 - length (log_bytes ps)"] assms(2)
  by (simp add: holds_log_def hal_EfuseGetCurrentSize_8192C_def)

section \<open>Reading the map\<close>

definition tbl :: "u16 list \<Rightarrow> u8 list" where
  "tbl ws = concat (map (\<lambda>w. [ucast w, ucast (drop_bit 8 w)]) ws)"

lemma tbl_simps [simp]: "tbl [] = []" "tbl (w # ws) = ucast w # ucast (drop_bit 8 w) # tbl ws"
  by (simp_all add: tbl_def)

lemma tbl_replicate: "tbl (replicate n 0xFFFF) = replicate (2 * n) 0xFF"
  by (induction n) simp_all

lemma tbl_update:
  "k < length ws \<Longrightarrow> tbl (ws[k := w]) = (tbl ws)[2 * k := ucast w, 2 * k + 1 := ucast (drop_bit 8 w)]"
proof (induction ws arbitrary: k)
  case (Cons a ws)
  then show ?case by (cases k) simp_all
qed simp

lemma word_of_bytes:
  "ucast (ucast x OR push_bit 8 (ucast y) :: u16) = (x :: u8)"
  "ucast (drop_bit 8 (ucast x OR push_bit 8 (ucast y) :: u16)) = (y :: u8)"
  by (rule bit_word_eqI, simp add: bit_simps)+

lemma apply_none:
  "concat (map (word_bytes we dat) is) = [] \<Longrightarrow> fold (apply_word off we dat) is m = m"
  by (induction "is" arbitrary: m) (auto simp: apply_word.simps word_bytes_def split: if_splits)

lemma read_words_log:
  assumes eb: "efuse_bytes regs mem" and "mem d = pre @ concat (map (word_bytes we dat) is) @ post"
    and "\<forall>j < length is. bit wren j = bit we (is ! j)" and "off < 16" and "\<forall>i \<in> set is. i < 4"
    and "length ws = 64"
  shows "\<exists>d' ws' v'. read_words regs off wren is (d, ws, length pre, util, v) =
      (d', ws', length pre + length (concat (map (word_bytes we dat) is)),
       util + length (concat (map (word_bytes we dat) is)), v') \<and>
    mem d' = mem d \<and> length ws' = 64 \<and> tbl ws' = fold (apply_word off we dat) is (tbl ws)"
  using assms(2,3,5,6)
proof (induction "is" arbitrary: pre d wren ws util v)
  case (Cons i "is")
  have b0: "bit wren 0 = bit we i" using Cons.prems(2) by force
  have bs: "\<forall>j < length is. bit (drop_bit 1 wren) j = bit we (is ! j)"
    using Cons.prems(2) by (auto simp: bit_simps)
  have i4: "i < 4" and is4: "\<forall>i \<in> set is. i < 4" using Cons.prems(3) by auto
  show ?case
  proof (cases "bit we i")
    case True
    have "mem d = pre @ concat (map (word_bytes we dat) is) @ post"
      using Cons.prems(1) True by (simp add: word_bytes_cases)
    moreover have "apply_word off we dat i (tbl ws) = tbl ws" using True by (simp add: apply_word.simps)
    ultimately show ?thesis
      using Cons.IH [OF _ bs is4 Cons.prems(4)] True b0 by (simp add: word_bytes_cases)
  next
    case False
    let ?x = "dat ! (2 * i)" and ?y = "dat ! (2 * i + 1)"
    let ?rest = "concat (map (word_bytes we dat) is)"
    have m: "mem d = pre @ [?x, ?y] @ ?rest @ post"
      using Cons.prems(1) False by (simp add: word_bytes_cases)
    have "length (mem d) = 512" using eb by (simp add: efuse_bytes_def)
    then have len: "length pre + 2 + length ?rest + length post = 512" using m by simp
    obtain d1 v1 where r1: "ReadEFuseByte regs (length pre) d = (d1, v1)" and m1: "mem d1 = mem d"
      and v1: "length pre < 512 \<Longrightarrow> v1 = mem d ! length pre" using one_read32 [OF eb] by metis
    obtain d2 v2 where r2: "ReadEFuseByte regs (length pre + 1) d1 = (d2, v2)" and m2: "mem d2 = mem d1"
      and v2: "length pre + 1 < 512 \<Longrightarrow> v2 = mem d1 ! (length pre + 1)" using one_read32 [OF eb] by metis
    have v1: "v1 = ?x" and v2: "v2 = ?y" using v1 v2 m1 m len by (simp_all add: nth_append)
    define ws1 where "ws1 = ws[4 * off + i := ucast ?x OR push_bit 8 (ucast ?y)]"
    have k: "4 * off + i < length ws" using i4 assms(4) Cons.prems(4) by simp
    have l1: "length ws1 = 64" using Cons.prems(4) by (simp add: ws1_def)
    have t1: "tbl ws1 = apply_word off we dat i (tbl ws)"
      using tbl_update [OF k, of "ucast ?x OR push_bit 8 (ucast ?y)", unfolded word_of_bytes] False
      by (simp add: ws1_def apply_word.simps add.commute add.left_commute)
    have step: "read_words regs off wren (i # is) (d, ws, length pre, util, v) =
        (if 512 \<le> length pre + 2 then (d2, ws1, length pre + 2, util + 2, v2)
         else read_words regs off (drop_bit 1 wren) is (d2, ws1, length pre + 2, util + 2, v2))"
      using b0 False r1 r2 v1 v2 k len by (simp add: efuse_consts ws1_def)
    have n: "length (concat (map (word_bytes we dat) (i # is))) = 2 + length ?rest"
      using False by (simp add: word_bytes_cases)
    show ?thesis
    proof (cases "512 \<le> length pre + 2")
      case True
      then have "length ?rest = 0" using len by linarith
      then have "?rest = []" by (simp only: length_0_conv)
      with True show ?thesis
        unfolding step n using l1 t1 m1 m2 apply_none [of we dat "is" off] by simp
    next
      case False
      have "mem d2 = (pre @ [?x, ?y]) @ ?rest @ post" using m m1 m2 by simp
      from Cons.IH [OF this bs is4 l1, of "util + 2" v2] False show ?thesis
        unfolding step n using m1 m2 t1 by (simp add: add.assoc)
    qed
  qed
qed simp


lemma upt_four_words: "[0..<4] = [0, 1, 2, 3 :: nat]"
  by (simp add: upt_conv_Cons)

lemma apply_pkt_fold: "apply_pkt (off, we, dat) m = fold (apply_word off we dat) [0..<4] m"
  by (simp add: upt_four_words)

lemma pkt_words_concat: "pkt_words we dat = concat (map (word_bytes we dat) [0..<4])"
  by (simp add: pkt_words_def upt_four_words)

lemma read_log_fold:
  assumes eb: "efuse_bytes regs mem" and "mem d = pre @ log_bytes ps @ replicate k 0xFF"
    and "list_all pkt_ok ps" and "length ws = 64" and "length pre < 512 \<Longrightarrow> v = mem d ! length pre"
  shows "\<exists>d' ws' a' v'. read_log regs
      (if v \<noteq> 0xFF \<and> length pre < 512 then (d, ws, length pre + 1, util + 1, v)
       else (d, ws, length pre, util, v)) =
      (d', ws', a', util + length (log_bytes ps), v') \<and>
    mem d' = mem d \<and> length ws' = 64 \<and> tbl ws' = fold apply_pkt ps (tbl ws)"
  using assms(2-5)
proof (induction ps arbitrary: pre d ws util v)
  case Nil
  have stop: "\<not> (v \<noteq> 0xFF \<and> length pre < 512)"
    using log_end(2) [OF eb, of d pre k] Nil by auto
  then have "read_log regs (d, ws, length pre, util, v) = (d, ws, length pre, util, v)"
    by (subst read_log.simps) (auto simp: efuse_consts)
  with stop show ?case using Nil.prems(3) by (simp only: if_not_P) simp
next
  case (Cons p ps)
  obtain off we dat where p: "p = (off, we, dat)" by (cases p)
  let ?w = "pkt_words we dat"
  have ok: "off < 16" "we < 16" "pkt_header off we \<noteq> 0xFF" and oks: "list_all pkt_ok ps"
    using Cons.prems(2) p by auto
  have "length (mem d) = 512" using eb by (simp add: efuse_bytes_def)
  then have len: "length pre + 1 + length ?w + length (log_bytes ps) + k = 512" using Cons.prems(1) p by simp
  then have v: "v = pkt_header off we" using Cons.prems(1,4) p by (simp add: nth_append)
  have hd: "unat (drop_bit 4 v AND 0x0F) = off" "v AND 0x0F = we"
    using pkt_header_parts [OF ok(1,2)] v ok(1) by (simp_all add: unsigned_of_nat take_bit_nat_eq_self)
  show ?case
  proof (cases "length pre + 1 < 512")
    case False
    then have "length ?w = 0" and "length (log_bytes ps) = 0" using len by linarith+
    then have "?w = []" and "ps = []" by (simp_all add: log_bytes_Nil_iff)
    then have "apply_pkt p (tbl ws) = tbl ws"
      using apply_none [of we dat "[0..<4]" off "tbl ws"] p by (simp only: apply_pkt_fold pkt_words_concat)
    then show ?thesis
      using False v ok len p \<open>?w = []\<close> \<open>ps = []\<close> Cons.prems(3)
      by (simp add: read_log.simps efuse_consts)
  next
    case True
    have "mem d = (pre @ [v]) @ concat (map (word_bytes we dat) [0..<4]) @ (log_bytes ps @ replicate k 0xFF)"
      using Cons.prems(1) p v by (simp flip: pkt_words_concat)
    from read_words_log [OF eb this, of we off ws "util + 1" v] ok(1) Cons.prems(3)
    obtain d1 ws1 v1 where rw: "read_words regs off we [0..<4] (d, ws, length pre + 1, util + 1, v) =
        (d1, ws1, length pre + 1 + length ?w, util + 1 + length ?w, v1)"
      and m1: "mem d1 = mem d" and l1: "length ws1 = 64" and t1: "tbl ws1 = apply_pkt p (tbl ws)"
      unfolding p apply_pkt_fold pkt_words_concat by auto
    let ?pre = "pre @ pkt_bytes p"
    obtain d2 v2 where r2: "ReadEFuseByte regs (length ?pre) d1 = (d2, v2)" and m2: "mem d2 = mem d1"
      and v2: "length ?pre < 512 \<Longrightarrow> v2 = mem d1 ! length ?pre" using one_read32 [OF eb] by metis
    have pl: "length ?pre = length pre + 1 + length ?w" using p by simp
    have "mem d2 = ?pre @ log_bytes ps @ replicate k 0xFF" using Cons.prems(1) m1 m2 by simp
    moreover have "length ?pre < 512 \<Longrightarrow> v2 = mem d2 ! length ?pre" using v2 m2 by simp
    ultimately obtain d3 ws3 a3 v3 where ih: "read_log regs
        (if v2 \<noteq> 0xFF \<and> length ?pre < 512 then (d2, ws1, length ?pre + 1, util + 1 + length ?w + 1, v2)
         else (d2, ws1, length ?pre, util + 1 + length ?w, v2)) =
        (d3, ws3, a3, util + 1 + length ?w + length (log_bytes ps), v3)"
      "mem d3 = mem d2" "length ws3 = 64" "tbl ws3 = fold apply_pkt ps (tbl ws1)"
      using Cons.IH [of d2 ?pre ws1 v2 "util + 1 + length ?w"] oks l1 by blast
    have stop: "\<not> (v2 \<noteq> 0xFF \<and> length ?pre < 512) \<Longrightarrow>
        read_log regs (d2, ws1, length ?pre, util + 1 + length ?w, v2) =
        (d2, ws1, length ?pre, util + 1 + length ?w, v2)"
      by (subst read_log.simps) (auto simp: efuse_consts)
    have "read_log regs (d, ws, length pre + 1, util + 1, v) =
        (d3, ws3, a3, util + 1 + length ?w + length (log_bytes ps), v3)"
      using rw r2 hd v ok True ih(1) stop pl
      by (subst read_log.simps) (auto simp: efuse_consts Let_def split: if_splits)
    then show ?thesis
      using v ok True ih(2-4) m1 m2 t1 p by simp
  qed
qed

lemma ReadEFuse_log:
  assumes eb: "efuse_bytes regs mem" and "holds_log (mem d) ps" and "off + n \<le> 128"
  shows "\<exists>d'. ReadEFuse_RTL8192C regs off n d =
      (d', Some (take n (drop off (map_of_log ps)), length (log_bytes ps))) \<and> mem d' = mem d"
proof -
  obtain d1 v where r: "ReadEFuseByte regs 0 d = (d1, v)" and m1: "mem d1 = mem d"
    and v: "v = mem d ! 0" using one_read32 [OF eb, of 0 d] by auto
  have "\<exists>d' ws' a' v'. read_log regs
      (if v \<noteq> 0xFF \<and> length ([] :: u8 list) < 512
       then (d1, replicate 64 0xFFFF, length ([] :: u8 list) + 1, 0 + 1, v)
       else (d1, replicate 64 0xFFFF, length ([] :: u8 list), 0, v)) =
      (d', ws', a', 0 + length (log_bytes ps), v') \<and>
    mem d' = mem d1 \<and> length ws' = 64 \<and> tbl ws' = fold apply_pkt ps (tbl (replicate 64 0xFFFF))"
    using assms(2) v m1 by (intro read_log_fold [OF eb]) (auto simp: holds_log_def)
  then obtain d' ws' a' v' where "read_log regs
      (d1, replicate 64 0xFFFF, if v \<noteq> 0xFF then 1 else 0, if v \<noteq> 0xFF then 1 else 0, v) =
      (d', ws', a', length (log_bytes ps), v')"
    and "mem d' = mem d" "tbl ws' = map_of_log ps"
    using m1 by (cases "v = 0xFF") (auto simp: map_of_log_def tbl_replicate)
  then show ?thesis
    using r assms(3) by (simp add: ReadEFuse_RTL8192C_def efuse_consts Let_def tbl_def)
qed

end
