(* ===== verification/Efuse_Map.thy ===== *)
theory Efuse_Map
  imports Efuse_Log
begin

text \<open>
  The writers of the EFUSE. A packet is appended to the log, and a write to the map appends, section
  by section, the words it changes; reading the map then gives the new contents.
\<close>

section \<open>A packet is appended\<close>

fun pkt_blank :: "packet \<Rightarrow> bool" where
  "pkt_blank (off, we, dat) \<longleftrightarrow> (\<forall>x \<in> set (pkt_words we dat). x = 0xFF)"

lemma pg_is_blank_reads:
  assumes eb: "efuse_bytes regs mem" and "\<forall>i \<in> set is. addr + 1 + i < 512"
  shows "\<exists>d'. pg_is_blank regs addr is (d, b) =
    (d', b \<and> (\<forall>i \<in> set is. mem d ! (addr + 1 + i) = 0xFF)) \<and> mem d' = mem d"
  using assms(2)
proof (induction "is" arbitrary: d b)
  case (Cons i "is")
  obtain d1 v where r: "efuse_OneByteRead regs (addr + 1 + i) d = (d1, True, v)" "mem d1 = mem d"
    and v: "v = mem d ! (addr + 1 + i)"
    using one_read [OF eb, of "addr + 1 + i" d] Cons.prems by force
  then show ?case using Cons.IH [of d1 "b \<and> v = 0xFF"] Cons.prems by auto
qed simp

lemma ball_nth_list: "(\<forall>i \<in> {0..<length w}. w ! i = c) \<longleftrightarrow> (\<forall>x \<in> set w. x = c)"
  by (metis atLeastLessThan_iff bot_nat_0.extremum in_set_conv_nth)

lemma pg_blank_packet:
  assumes eb: "efuse_bytes regs mem" and m: "mem d = pre @ h # w @ post"
  shows "\<exists>d'. pg_is_blank regs (length pre) [0..<length w] (d, True) =
    (d', \<forall>x \<in> set w. x = 0xFF) \<and> mem d' = mem d"
proof -
  have "length (mem d) = 512" using eb by (simp add: efuse_bytes_def)
  then have len: "length pre + 1 + length w \<le> 512" using m by simp
  have nth: "mem d ! (length pre + 1 + i) = w ! i" if "i < length w" for i
    using m that by (simp add: nth_append)
  have "(\<forall>i \<in> {0..<length w}. mem d ! (length pre + 1 + i) = 0xFF) \<longleftrightarrow> (\<forall>x \<in> set w. x = 0xFF)"
    unfolding ball_nth_list [symmetric] using nth by auto
  then show ?thesis
    using pg_is_blank_reads [OF eb, of "[0..<length w]" "length pre" d True] len by simp
qed

text \<open>A turn over a packet of another section, or with contents.\<close>

lemma pg_turn_skip:
  assumes eb: "efuse_bytes regs mem" and m: "mem (dev s) = pre @ pkt_bytes p @ post"
    and p: "p = (off', we', dat')" and ok: "pkt_ok p"
    and l: "WriteState l = PG_STATE_HEADER" "efuse_addr l = length pre"
    and off: "target_offset l = word_of_nat off" "off < 16" and skip: "off' = off \<Longrightarrow> \<not> pkt_blank p"
  shows "\<exists>d'. pg_write_turn regs offset again l s =
      Some (s\<lparr>dev := d'\<rparr>, l\<lparr>efuse_addr := length (pre @ pkt_bytes p)\<rparr>, True) \<and> mem d' = mem (dev s)"
proof -
  let ?h = "pkt_header off' we'" and ?w = "pkt_words we' dat'"
  have ok: "off' < 16" "we' < 16" "?h \<noteq> 0xFF" using ok p by auto
  have m: "mem (dev s) = pre @ ?h # ?w @ post" using m p by simp
  have "length (mem (dev s)) = 512" using eb by (simp add: efuse_bytes_def)
  then have len: "length pre < 512" using m by simp
  obtain d1 v where r: "efuse_OneByteRead regs (length pre) (dev s) = (d1, True, v)"
    and m1: "mem d1 = mem (dev s)" and v: "v = ?h"
    using one_read [OF eb, of "length pre" "dev s"] len m by (metis nth_append_length)
  have parts: "drop_bit 4 ?h AND 0x0F = word_of_nat off'" "?h AND 0x0F = we'"
    using pkt_header_parts [OF ok(1,2)] by simp_all
  have "unat (word_of_nat off' :: u8) = off'" "unat (word_of_nat off :: u8) = off"
    using ok(1) off(2) by (simp_all add: unsigned_of_nat take_bit_nat_eq_self)
  then have inj: "word_of_nat off' = (word_of_nat off :: u8) \<longleftrightarrow> off' = off" by metis
  have next_addr: "length pre + Efuse_CalculateWordCnts we' * 2 + 1 = length (pre @ pkt_bytes p)"
    using p by (simp add: length_pkt_words)
  have keep: "l\<lparr>efuse_addr := a, WriteState := PG_STATE_HEADER\<rparr> = l\<lparr>efuse_addr := a\<rparr>" for a
    using l(1) by (cases l) simp
  show ?thesis
  proof (cases "off' = off")
    case False
    then show ?thesis
      using r v ok(3) l off(1) m1 parts inj next_addr keep
      by (intro exI [of _ d1]) (simp add: pg_write_turn_def pg_old_header_def Let_def)
  next
    case True
    have m1': "mem d1 = pre @ ?h # ?w @ post" using m m1 by simp
    have n: "Efuse_CalculateWordCnts we' * 2 = length ?w" by (simp add: length_pkt_words)
    have nb: "(\<forall>x \<in> set ?w. x = 0xFF) = False" using skip [OF True] p by simp
    have "\<exists>d'. pg_is_blank regs (length pre) [0..<Efuse_CalculateWordCnts we' * 2] (d1, True) =
        (d', False) \<and> mem d' = mem d1"
      using pg_blank_packet [OF eb m1', unfolded nb] unfolding n .
    then obtain d2 where
      d2: "pg_is_blank regs (length pre) [0..<Efuse_CalculateWordCnts we' * 2] (d1, True) = (d2, False)"
      and m2: "mem d2 = mem d1" by blast
    then show ?thesis
      using r v ok(3) l off(1) m1 m2 d2 parts True next_addr keep
      by (intro exI [of _ d2]) (simp add: pg_write_turn_def pg_old_header_def Let_def)
  qed
qed

text \<open>The two turns at the end of the log.\<close>

lemma pg_turn_header:
  assumes eb: "efuse_bytes regs mem" and m: "mem (dev s) = pre @ replicate (Suc k) 0xFF"
    and l: "WriteState l = PG_STATE_HEADER" "efuse_addr l = length pre"
      "target_offset l = word_of_nat off" "target_word_en l = we"
  shows "\<exists>d'. pg_write_turn regs offset again l s =
      Some (s\<lparr>dev := d'\<rparr>, l\<lparr>WriteState := PG_STATE_DATA\<rparr>, True) \<and>
    mem d' = pre @ [pkt_header off we] @ replicate k 0xFF"
proof -
  have len: "length pre + Suc k = 512" using log_end(1) [OF eb m] .
  have free: "mem (dev s) ! length pre = 0xFF" using m by simp
  obtain d1 v where r1: "efuse_OneByteRead regs (length pre) (dev s) = (d1, True, v)"
    and m1: "mem d1 = mem (dev s)" and v: "v = 0xFF"
    using one_read [OF eb, of "length pre" "dev s"] len free by auto
  have "mem d1 ! length pre = 0xFF" using free m1 by simp
  moreover have "length pre < 512" using len by simp
  ultimately obtain d2 where w: "efuse_OneByteWrite regs (length pre) (pkt_header off we) d1 = (d2, True)"
    and m2: "mem d2 = (mem d1)[length pre := pkt_header off we]"
    using one_write [OF eb] by metis
  have m2: "mem d2 = pre @ [pkt_header off we] @ replicate k 0xFF"
    using m2 m m1 by (simp add: list_update_append)
  then have "mem d2 ! length pre = pkt_header off we" by simp
  then obtain d3 where r3: "efuse_OneByteRead regs (length pre) d2 = (d3, True, pkt_header off we)"
    and m3: "mem d3 = mem d2"
    using one_read [OF eb, of "length pre" d2] len by auto
  show ?thesis
    using l r1 v w r3 m2 m3
    by (intro exI [of _ d3]) (simp add: pg_write_turn_def pg_new_header_def Let_def pkt_header_def)
qed

lemma pg_turn_data:
  assumes eb: "efuse_bytes regs mem" and m: "mem (dev s) = (pre @ [h]) @ replicate k 0xFF"
    and k: "length (pkt_words we dat) \<le> k"
    and l: "WriteState l = PG_STATE_DATA" "efuse_addr l = length pre"
      "target_word_en l = we" "target_data l = dat"
  shows "\<exists>d'. pg_write_turn regs offset again l s = Some (s\<lparr>dev := d'\<rparr>, l, False) \<and>
    mem d' = (pre @ [h]) @ pkt_words we dat @ replicate (k - length (pkt_words we dat)) 0xFF"
  using write_words_ok [OF eb m k] l by (auto simp: pg_write_turn_def pg_write_data_def Let_def)

lemma pg_loop_turn:
  assumes "efuse_addr l < 497"
    and "pg_write_turn regs offset
      (\<lambda>off we dat s. map_option fst (hal_EfusePgPacketWrite_8192C n regs stack off we dat s)) l s =
      Some (s', l', cont)"
  shows "pg_write_loop (Suc n) regs stack offset l s =
    (if cont then pg_write_loop n regs stack offset l' s' else Some s')"
  using assms by (simp add: pg_write_loop.simps hal_EfusePgPacketWrite_8192C_def efuse_consts)

lemma pg_write_loop_appends:
  assumes eb: "efuse_bytes regs mem" and "mem (dev s) = pre @ log_bytes ps @ replicate k 0xFF"
    and "list_all pkt_ok ps" and "length pre + length (log_bytes ps) < 497"
    and "\<forall>p \<in> set ps. fst p = off \<longrightarrow> \<not> pkt_blank p" and off: "off < 16"
    and "WriteState l = PG_STATE_HEADER" "efuse_addr l = length pre"
    and l: "target_offset l = word_of_nat off" "target_word_en l = we" "target_data l = dat"
    and "length ps + 2 \<le> n"
  shows "\<exists>d'. pg_write_loop n regs stack offset l s = Some (s\<lparr>dev := d'\<rparr>) \<and>
    mem d' = pre @ log_bytes ps @ pkt_bytes (off, we, dat) @
      replicate (k - length (pkt_bytes (off, we, dat))) 0xFF"
  using assms(2-5,7-)
proof (induction ps arbitrary: pre n l s)
  case Nil
  have len: "length pre + k = 512" using log_end(1) [OF eb, of "dev s" pre k] Nil.prems(1) by simp
  obtain j where j: "k = Suc j" using len Nil.prems(3) by (cases k) auto
  obtain n' where n: "n = Suc (Suc n')" using Nil.prems(10) by (auto dest!: le_Suc_ex)
  have lt: "efuse_addr l < 497" using Nil.prems(3,6) by simp
  let ?again = "\<lambda>n off we dat s. map_option fst (hal_EfusePgPacketWrite_8192C n regs stack off we dat s)"
  obtain d1 where t1: "pg_write_turn regs offset (?again (Suc n')) l s =
      Some (s\<lparr>dev := d1\<rparr>, l\<lparr>WriteState := PG_STATE_DATA\<rparr>, True)"
    and m1: "mem d1 = pre @ [pkt_header off we] @ replicate j 0xFF"
    using pg_turn_header [OF eb, of s pre j l off we] Nil.prems j by auto
  have "length (pkt_words we dat) \<le> j"
    using word_cnts_le [of we] len j Nil.prems(3) by (simp add: length_pkt_words)
  then obtain d2 where t2: "pg_write_turn regs offset (?again n') (l\<lparr>WriteState := PG_STATE_DATA\<rparr>)
      (s\<lparr>dev := d1\<rparr>) = Some (s\<lparr>dev := d2\<rparr>, l\<lparr>WriteState := PG_STATE_DATA\<rparr>, False)"
    and m2: "mem d2 = (pre @ [pkt_header off we]) @ pkt_words we dat @
      replicate (j - length (pkt_words we dat)) 0xFF"
    using pg_turn_data [OF eb, of "s\<lparr>dev := d1\<rparr>" pre "pkt_header off we" j we dat
        "l\<lparr>WriteState := PG_STATE_DATA\<rparr>"] m1 Nil.prems by auto
  have "pg_write_loop n regs stack offset l s = Some (s\<lparr>dev := d2\<rparr>)"
    unfolding n using pg_loop_turn [OF lt t1] pg_loop_turn [OF _ t2] lt by simp
  then show ?case using m2 j by auto
next
  case (Cons p ps)
  obtain off' we' dat' where p: "p = (off', we', dat')" by (cases p)
  obtain n' where n: "n = Suc n'" and n': "length ps + 2 \<le> n'" using Cons.prems(10) by (cases n) auto
  have lt: "efuse_addr l < 497" using Cons.prems(3,6) by simp
  let ?again = "\<lambda>off we dat s. map_option fst (hal_EfusePgPacketWrite_8192C n' regs stack off we dat s)"
  have m: "mem (dev s) = pre @ pkt_bytes p @ (log_bytes ps @ replicate k 0xFF)" using Cons.prems(1) by simp
  obtain d1 where t: "pg_write_turn regs offset ?again l s =
      Some (s\<lparr>dev := d1\<rparr>, l\<lparr>efuse_addr := length (pre @ pkt_bytes p)\<rparr>, True)" and m1: "mem d1 = mem (dev s)"
    using pg_turn_skip [OF eb m p _ Cons.prems(5,6,7) off, of offset ?again] Cons.prems(2,4) p by auto
  have "\<exists>d'. pg_write_loop n' regs stack offset (l\<lparr>efuse_addr := length (pre @ pkt_bytes p)\<rparr>) (s\<lparr>dev := d1\<rparr>) =
      Some (s\<lparr>dev := d1\<rparr>\<lparr>dev := d'\<rparr>) \<and>
    mem d' = (pre @ pkt_bytes p) @ log_bytes ps @ pkt_bytes (off, we, dat) @
      replicate (k - length (pkt_bytes (off, we, dat))) 0xFF"
    using Cons.prems n' m1 by (intro Cons.IH) auto
  then show ?case unfolding n using pg_loop_turn [OF lt t] by simp
qed


lemma length_log_ge: "length ps \<le> length (log_bytes ps)"
proof (induction ps)
  case (Cons p ps)
  then show ?case by (cases p) simp
qed simp

lemma length_pkt_bytes_le: "length (pkt_bytes p) \<le> 9"
  by (cases p) (use word_cnts_le in \<open>simp add: length_pkt_words\<close>)

lemma pg_packet_appended:
  assumes eb: "efuse_bytes regs mem" and log: "holds_log (mem (dev s)) ps"
    and size: "length (log_bytes ps) < 497"
    and "\<forall>p \<in> set ps. fst p = off \<longrightarrow> \<not> pkt_blank p" and ok: "pkt_ok (off, we, dat)" and "500 \<le> n"
  shows "\<exists>d'. hal_EfusePgPacketWrite_8192C n regs stack (word_of_nat off) we dat s =
      Some (s\<lparr>dev := d'\<rparr>, True) \<and> holds_log (mem d') (ps @ [(off, we, dat)])"
proof -
  let ?dat = "efuse_WordEnableDataRead we dat (replicate 8 0xFF)"
  obtain d1 where cs: "hal_EfuseGetCurrentSize_8192C regs (dev s) = (d1, length (log_bytes ps))"
    and m1: "mem d1 = mem (dev s)" using current_size_log [OF eb log] by blast
  have off: "off < 16" and words: "pkt_bytes (off, we, ?dat) = pkt_bytes (off, we, dat)"
    using ok pkt_words_read [of dat we] by simp_all
  let ?l = "\<lparr>WriteState = PG_STATE_HEADER, efuse_addr = 0, target_offset = word_of_nat off,
      target_word_en = we, target_data = ?dat, target_word_cnts = Efuse_CalculateWordCnts we,
      originaldata = stack\<rparr>"
  let ?k = "512 - length (log_bytes ps)"
  have "\<exists>d'. pg_write_loop n regs stack (word_of_nat off) ?l (s\<lparr>dev := d1\<rparr>) =
      Some (s\<lparr>dev := d1\<rparr>\<lparr>dev := d'\<rparr>) \<and>
    mem d' = [] @ log_bytes ps @ pkt_bytes (off, we, ?dat) @
      replicate (?k - length (pkt_bytes (off, we, ?dat))) 0xFF"
  proof (rule pg_write_loop_appends [OF eb _ _ _ _ off])
    show "length ps + 2 \<le> n" using length_log_ge [of ps] size \<open>500 \<le> n\<close> by linarith
  qed (use log size assms(4) m1 in \<open>auto simp: holds_log_def\<close>)
  then obtain d2 where w: "pg_write_loop n regs stack (word_of_nat off) ?l (s\<lparr>dev := d1\<rparr>) =
      Some (s\<lparr>dev := d2\<rparr>)"
    and m2: "mem d2 = log_bytes ps @ pkt_bytes (off, we, dat) @
      replicate (?k - length (pkt_bytes (off, we, dat))) 0xFF"
    unfolding words by auto
  have "length (log_bytes (ps @ [(off, we, dat)])) \<le> 512"
    using size length_pkt_bytes_le [of "(off, we, dat)"] by simp
  then have "holds_log (mem d2) (ps @ [(off, we, dat)])"
    using log ok m2 by (simp add: holds_log_def)
  moreover have "hal_EfusePgPacketWrite_8192C n regs stack (word_of_nat off) we dat s =
      Some (s\<lparr>dev := d2\<rparr>, True)"
    using cs size w
    by (simp add: hal_EfusePgPacketWrite_8192C_def pg_packet_start_def efuse_consts Let_def)
  ultimately show ?thesis by blast
qed

section \<open>The packet of a section\<close>

definition patch_map :: "nat \<Rightarrow> u8 list \<Rightarrow> u8 list \<Rightarrow> u8 list" where
  "patch_map addr dat m = take addr m @ dat @ drop (addr + length dat) m"

lemma length_patch_map: "addr + length dat \<le> length m \<Longrightarrow> length (patch_map addr dat m) = length m"
  by (simp add: patch_map_def)

lemma nth_patch_map:
  assumes "addr + length dat \<le> length m" and "k < length m"
  shows "patch_map addr dat m ! k =
    (if k < addr then m ! k else if k < addr + length dat then dat ! (k - addr) else m ! k)"
  using assms by (auto simp: patch_map_def nth_append)

text \<open>
  \<open>word_good\<close>: after the packet, word \<open>w\<close> of the section at byte \<open>b\<close> of the map is that of \<open>t\<close>: either the
  packet holds it or it was so before.
\<close>

definition word_good :: "u8 list \<Rightarrow> u8 list \<Rightarrow> nat \<Rightarrow> u8 \<Rightarrow> u8 list \<Rightarrow> nat \<Rightarrow> bool" where
  "word_good t m b we nd w \<longleftrightarrow>
     (if bit we w then t ! (b + 2 * w) = m ! (b + 2 * w) \<and> t ! (b + 2 * w + 1) = m ! (b + 2 * w + 1)
      else nd ! (2 * w) = t ! (b + 2 * w) \<and> nd ! (2 * w + 1) = t ! (b + 2 * w + 1))"

lemma enable_word_bit: "w < 4 \<Longrightarrow> bit (enable_word we (2 * j)) w \<longleftrightarrow> bit we w \<and> w \<noteq> j"
  by (auto simp: enable_word_def bit_simps)

lemma enable_word_bound: "we < 16 \<Longrightarrow> enable_word we i < 16"
  unfolding enable_word_def by (rule le_less_trans [OF word_and_le2])

lemma word_good_set:
  assumes "j < 4" and "w < 4" and "length nd = 8" and "word_good t m b we nd w \<or> w = j"
    and "x = t ! (b + 2 * j)" and "y = t ! (b + 2 * j + 1)"
  shows "word_good t m b (enable_word we (2 * j)) (nd[2 * j := x, 2 * j + 1 := y]) w"
proof (cases "w = j")
  case True
  then show ?thesis using assms by (simp add: word_good_def enable_word_bit nth_list_update)
next
  case False
  then have "2 * w \<noteq> 2 * j" "2 * w \<noteq> 2 * j + 1" "2 * w + 1 \<noteq> 2 * j" "2 * w + 1 \<noteq> 2 * j + 1" by presburger+
  then show ?thesis using assms False by (auto simp: word_good_def enable_word_bit nth_list_update split: if_splits)
qed

lemma fill_packet_good:
  assumes M: "length m = 128" and b: "b + 8 \<le> 128" and ad: "addr + length dat \<le> 128"
    and t: "t = patch_map addr dat m"
    and "j \<le> 4" and "addr + idx = b + 2 * j" and "idx \<le> length dat"
    and "\<forall>w < j. word_good t m b we nd w" and "\<forall>w. j \<le> w \<and> w < 4 \<longrightarrow> bit we w"
    and "length nd = 8" and "we < 16"
  shows "\<exists>idx' we' nd'. fill_packet dat (length dat) m addr (map (\<lambda>k. 2 * k) [j..<4]) (idx, we, nd) =
      Some (idx', we', nd') \<and> (\<forall>w < 4. word_good t m b we' nd' w) \<and> length nd' = 8 \<and> we' < 16 \<and>
    idx' \<le> length dat \<and> addr + idx' \<le> b + 8 \<and> (idx' = length dat \<or> addr + idx' = b + 8)"
  using assms(5-)
proof (induction "4 - j" arbitrary: j idx we nd)
  case 0
  then show ?case by (intro exI [of _ idx] exI [of _ we] exI [of _ nd]) auto
next
  case (Suc n)
  have j4: "j < 4" using Suc.hyps(2) by simp
  have ups: "map (\<lambda>k. 2 * k) [j..<4] = 2 * j # map (\<lambda>k. 2 * k) [Suc j..<4]" using j4 by (simp add: upt_conv_Cons)
  have tn: "t ! k = (if k < addr then m ! k else if k < addr + length dat then dat ! (k - addr) else m ! k)"
    if "k < 128" for k using that t M ad by (simp add: nth_patch_map)
  have p0: "b + 2 * j < 128" "b + 2 * j + 1 < 128" using b j4 by auto
  have late: "word_good t m b we' nd' w"
    if "w < 4" "bit we' w" "addr + length dat \<le> b + 2 * w" for we' nd' w
  proof -
    have "b + 2 * w + 1 < 128" using that b by simp
    then show ?thesis using that tn by (simp add: word_good_def)
  qed
  have pos: "b + 2 * j - addr = idx" "addr \<le> b + 2 * j" using Suc.prems(2) by auto
  have early: "word_good t m b (enable_word we (2 * j)) (nd[2 * j := x, 2 * j + 1 := y]) w"
    if "w < j" "x = t ! (b + 2 * j)" "y = t ! (b + 2 * j + 1)" for w x y
    using word_good_set [OF j4 _ Suc.prems(6)] Suc.prems(4) that j4 by simp
  have here: "word_good t m b (enable_word we (2 * j)) (nd[2 * j := x, 2 * j + 1 := y]) j"
    if "x = t ! (b + 2 * j)" "y = t ! (b + 2 * j + 1)" for x y
    using word_good_set [OF j4 j4 Suc.prems(6)] that by simp
  consider (stop) "idx = length dat" | (one) "length dat = idx + 1" | (two) "idx + 2 \<le> length dat"
    using Suc.prems(3) by linarith
  then show ?case
  proof cases
    case stop
    have "word_good t m b we nd w" if "w < 4" for w
      using that Suc.prems late [of w we nd] stop by (cases "w < j") auto
    then show ?thesis using stop Suc.prems unfolding ups by auto
  next
    case one
    have t0: "dat ! idx = t ! (b + 2 * j)" and t1: "m ! (b + 2 * j + 1) = t ! (b + 2 * j + 1)"
      using tn p0 pos one by auto
    let ?c = "dat ! idx \<noteq> m ! (b + 2 * j)"
    have "fill_packet dat (length dat) m addr (map (\<lambda>k. 2 * k) [j..<4]) (idx, we, nd) =
      (if ?c then Some (length dat, enable_word we (2 * j), nd[2 * j := dat ! idx, 2 * j + 1 := m ! (b + 2 * j + 1)])
       else Some (length dat, we, nd))"
      unfolding ups using one Suc.prems(2) M p0 by simp
    moreover have "word_good t m b (enable_word we (2 * j))
        (nd[2 * j := dat ! idx, 2 * j + 1 := m ! (b + 2 * j + 1)]) w" if "w < 4" for w
      using that early [OF _ t0 t1] here [OF t0 t1] late [of w] Suc.prems one
      by (cases w j rule: linorder_cases) (auto simp: enable_word_bit)
    moreover have "word_good t m b we nd w" if "w < 4" "\<not> ?c" for w
      using that late [of w we nd] Suc.prems one t0 t1 j4
      by (cases w j rule: linorder_cases) (auto simp: word_good_def)
    moreover have "addr + length dat \<le> b + 8" using one Suc.prems(2) j4 by simp
    ultimately show ?thesis using Suc.prems enable_word_bound by auto
  next
    case two
    have t0: "dat ! idx = t ! (b + 2 * j)" and t1: "dat ! (idx + 1) = t ! (b + 2 * j + 1)"
      using tn p0 pos two by (auto simp: Suc_diff_le)
    let ?c = "dat ! idx \<noteq> m ! (b + 2 * j) \<or> dat ! (idx + 1) \<noteq> m ! (b + 2 * j + 1)"
    define we1 where "we1 = (if ?c then enable_word we (2 * j) else we)"
    define nd1 where "nd1 = (if ?c then nd[2 * j := dat ! idx, 2 * j + 1 := dat ! (idx + 1)] else nd)"
    have "length dat - idx \<noteq> 1" using two by simp
    then have "fill_packet dat (length dat) m addr (map (\<lambda>k. 2 * k) [j..<4]) (idx, we, nd) =
      fill_packet dat (length dat) m addr (map (\<lambda>k. 2 * k) [Suc j..<4]) (idx + 2, we1, nd1)"
      unfolding ups we1_def nd1_def using two Suc.prems(2) M p0 by simp
    moreover have "word_good t m b we1 nd1 w" if "w < Suc j" for w
    proof (cases "w = j")
      case True
      then show ?thesis using here [OF t0 t1] Suc.prems(5) t0 t1 j4 by (auto simp: we1_def nd1_def word_good_def)
    next
      case False
      then show ?thesis using early [OF _ t0 t1] Suc.prems(4) that by (auto simp: we1_def nd1_def)
    qed
    moreover have "bit we1 w" if "Suc j \<le> w" "w < 4" for w
      using that Suc.prems(5) by (simp add: we1_def enable_word_bit)
    moreover have "length nd1 = 8" "we1 < 16"
      using Suc.prems enable_word_bound by (simp_all add: nd1_def we1_def)
    moreover have "n = 4 - Suc j" "Suc j \<le> 4" "addr + (idx + 2) = b + 2 * Suc j" "idx + 2 \<le> length dat"
      using Suc.hyps(2) j4 Suc.prems(2) two by auto
    ultimately show ?thesis using Suc.hyps(1) [of "Suc j" "idx + 2" we1 nd1] by auto
  qed
qed


section \<open>Writing to the map\<close>

lemma length_apply_word [simp]: "length (apply_word off we dat i m) = length m"
  by (simp add: apply_word.simps)

lemma length_apply_pkt [simp]: "length (apply_pkt p m) = length m"
  by (cases p) simp

lemma length_map_of_log: "length (map_of_log ps) = 128"
proof -
  have "length (fold apply_pkt ps m) = length m" for m by (induction ps arbitrary: m) simp_all
  then show ?thesis by (simp add: map_of_log_def)
qed

lemma nth_apply_word:
  assumes "k < length m"
  shows "apply_word off we dat i m ! k =
    (if \<not> bit we i \<and> k = 8 * off + 2 * i then dat ! (2 * i)
     else if \<not> bit we i \<and> k = 8 * off + 2 * i + 1 then dat ! (2 * i + 1) else m ! k)"
  using assms by (auto simp: apply_word.simps nth_list_update)

lemma word_index:
  fixes k b :: nat
  assumes "b \<le> k" and "k < b + 8"
  obtains w where "w < 4" and "k = b + 2 * w \<or> k = b + 2 * w + 1"
proof
  show "(k - b) div 2 < 4" and "k = b + 2 * ((k - b) div 2) \<or> k = b + 2 * ((k - b) div 2) + 1"
    using assms by presburger+
qed

lemma nth_apply_pkt_word:
  assumes "8 * off + 8 \<le> length m" and "w < 4"
  shows "apply_pkt (off, we, dat) m ! (8 * off + 2 * w) =
      (if bit we w then m ! (8 * off + 2 * w) else dat ! (2 * w)) \<and>
    apply_pkt (off, we, dat) m ! (8 * off + 2 * w + 1) =
      (if bit we w then m ! (8 * off + 2 * w + 1) else dat ! (2 * w + 1))"
proof -
  have "w = 0 \<or> w = 1 \<or> w = 2 \<or> w = 3" using assms(2) by auto
  then show ?thesis using assms(1) by (elim disjE) (simp_all add: nth_apply_word)
qed

lemma nth_apply_pkt_other:
  assumes "k < length m" and "k < 8 * off \<or> 8 * off + 8 \<le> k"
  shows "apply_pkt (off, we, dat) m ! k = m ! k"
  using assms by (auto simp: nth_apply_word)

lemma apply_pkt_section:
  assumes "length m = 128" and "length t = 128" and "off < 16"
    and good: "\<forall>w < 4. word_good t m (8 * off) we nd w"
  shows "apply_pkt (off, we, nd) (take (8 * off) t @ drop (8 * off) m) =
    take (8 * off + 8) t @ drop (8 * off + 8) m"
proof (rule nth_equalityI)
  let ?b = "8 * off" and ?c = "take (8 * off) t @ drop (8 * off) m"
  have len: "length ?c = 128" and b: "?b + 8 \<le> 128" using assms(1-3) by auto
  have c: "?c ! k = (if k < ?b then t ! k else m ! k)" if "k < 128" for k
    using that assms(1,2) b by (auto simp: nth_append)
  fix k assume "k < length (apply_pkt (off, we, nd) ?c)"
  then have k: "k < 128" using len by simp
  have r: "(take (?b + 8) t @ drop (?b + 8) m) ! k = (if k < ?b + 8 then t ! k else m ! k)"
    using k assms(1,2) b by (auto simp: nth_append)
  show "apply_pkt (off, we, nd) ?c ! k = (take (?b + 8) t @ drop (?b + 8) m) ! k"
  proof (cases "?b \<le> k \<and> k < ?b + 8")
    case True
    then obtain w where w: "w < 4" "k = ?b + 2 * w \<or> k = ?b + 2 * w + 1" by (meson word_index)
    have "word_good t m ?b we nd w" using good w by blast
    then have "apply_pkt (off, we, nd) ?c ! k = t ! k"
      using nth_apply_pkt_word [of off ?c w we nd] w len b c [OF k] True
      by (auto simp: word_good_def split: if_splits)
    then show ?thesis using r True by simp
  next
    case False
    then show ?thesis using r c [OF k] nth_apply_pkt_other [of k ?c off we nd] k len by auto
  qed
qed (use assms in simp)

lemma word_starts_upt: "j \<le> 4 \<Longrightarrow> word_starts (2 * j) = map (\<lambda>k. 2 * k) [j..<4]"
proof -
  assume "j \<le> 4"
  then have "j = 0 \<or> j = 1 \<or> j = 2 \<or> j = 3 \<or> j = 4" by auto
  then show ?thesis by (elim disjE) (simp_all add: word_starts_def upt_conv_Cons)
qed

lemma some_word_header: "off < 16 \<Longrightarrow> we < 16 \<Longrightarrow> we \<noteq> 0x0F \<Longrightarrow> pkt_header off we \<noteq> 0xFF"
  using pkt_header_parts(2) [of off we] by auto

lemma drop_patch_map: "addr + length dat \<le> k \<Longrightarrow> addr \<le> length m \<Longrightarrow> drop k (patch_map addr dat m) = drop k m"
  by (simp add: patch_map_def)

lemma all_bits_15: "w < 4 \<Longrightarrow> bit (0x0F :: u8) w"
proof -
  assume "w < 4"
  then have "w = 0 \<or> w = 1 \<or> w = 2 \<or> w = 3" by auto
  then show ?thesis by (elim disjE) simp_all
qed

lemma map_write_loop_ok:
  assumes eb: "efuse_bytes regs mem" and M: "length m = 128" and ad: "addr + length dat \<le> 128"
    and t: "t = patch_map addr dat m"
    and "holds_log (mem (dev s)) ps" and "map_of_log ps = take (8 * off) t @ drop (8 * off) m"
    and "off < 16" and "off < (addr + length dat + 7) div 8"
    and "length (log_bytes ps) + 9 * ((addr + length dat + 7) div 8 - off) \<le> 505"
    and "\<forall>p \<in> set ps. off \<le> fst p \<longrightarrow> \<not> pkt_blank p" and "501 + (16 - off) \<le> n"
    and "j \<le> 4" and "addr + idx = 8 * off + 2 * j" and "idx \<le> length dat"
    and "\<forall>w < j. word_good t m (8 * off) we nd w" and "\<forall>w. j \<le> w \<and> w < 4 \<longrightarrow> bit we w"
    and "length nd = 8" and "we < 16"
  shows "\<exists>d' qs. map_write_loop n regs stack dat (length dat) m addr off (2 * j, idx, we, nd) SUCCESS s =
      Some (s\<lparr>dev := d'\<rparr>, SUCCESS) \<and> holds_log (mem d') (ps @ qs) \<and> map_of_log (ps @ qs) = t"
  using assms(5-)
proof (induction n arbitrary: s ps off j idx we nd)
  case (Suc n)
  have lt: "length t = 128" using length_patch_map [of addr dat m] M ad t by simp
  obtain idx' we' nd' where fp: "fill_packet dat (length dat) m addr (word_starts (2 * j)) (idx, we, nd) =
      Some (idx', we', nd')"
    and good: "\<forall>w < 4. word_good t m (8 * off) we' nd' w" and n8: "length nd' = 8" and we': "we' < 16"
    and idx': "idx' \<le> length dat" "addr + idx' \<le> 8 * off + 8" "idx' = length dat \<or> addr + idx' = 8 * off + 8"
    using fill_packet_good [OF M _ ad t Suc.prems(8-14)] Suc.prems(3)
    by (auto simp: word_starts_upt [OF Suc.prems(8)])
  define qs where "qs = (if we' = 0x0F then [] else [(off, we', nd')])"
  let ?E = "(addr + length dat + 7) div 8"
  have applied: "apply_pkt (off, we', nd') (map_of_log ps) = take (8 * off + 8) t @ drop (8 * off + 8) m"
    unfolding Suc.prems(2) by (rule apply_pkt_section [OF M lt Suc.prems(3) good])
  have done_map: "map_of_log (ps @ qs) = take (8 * off + 8) t @ drop (8 * off + 8) m"
  proof (cases "we' = 0x0F")
    case True
    then have "apply_pkt (off, we', nd') (map_of_log ps) = map_of_log ps" by (simp add: apply_word.simps)
    then show ?thesis using applied True by (simp add: qs_def)
  next
    case False
    then show ?thesis using applied by (simp add: qs_def map_of_log_def)
  qed
  have size: "length (log_bytes ps) < 497" using Suc.prems(4,5) by linarith
  obtain d1 where w: "(if we' \<noteq> 0x0F
        then do {
          (s, r) \<leftarrow> hal_EfusePgPacketWrite_8192C n regs stack (word_of_nat off) we' nd' s;
          Some (s, if r then SUCCESS else FAIL)
        }
        else Some (s, SUCCESS)) = Some (s\<lparr>dev := d1\<rparr>, SUCCESS)"
    and log1: "holds_log (mem d1) (ps @ qs)"
  proof (cases "we' = 0x0F")
    case True
    then show ?thesis using that [of "dev s"] Suc.prems(1) by (simp add: qs_def)
  next
    case False
    have "\<forall>p \<in> set ps. fst p = off \<longrightarrow> \<not> pkt_blank p" using Suc.prems(6) by auto
    moreover have "pkt_ok (off, we', nd')" using Suc.prems(3) we' n8 some_word_header False by simp
    moreover have "500 \<le> n" using Suc.prems(7) by simp
    ultimately show ?thesis
      using pg_packet_appended [OF eb Suc.prems(1) size, of off we' nd' n stack] that False
      by (auto simp: qs_def)
  qed
  have step: "map_write_loop (Suc n) regs stack dat (length dat) m addr off (2 * j, idx, we, nd) SUCCESS s =
    (if idx' = length dat then Some (s\<lparr>dev := d1\<rparr>, SUCCESS)
     else map_write_loop n regs stack dat (length dat) m addr (off + 1)
       (0, idx', 0x0F, replicate PGPKT_DATA_SIZE 0xFF) SUCCESS (s\<lparr>dev := d1\<rparr>))"
    using fp w by simp
  show ?case
  proof (cases "idx' = length dat")
    case True
    then have "take (8 * off + 8) t @ drop (8 * off + 8) m = t"
      using drop_patch_map [of addr dat "8 * off + 8" m] idx'(2) ad M t by (metis append_take_drop_id add_leD1)
    then show ?thesis unfolding step using True log1 done_map by auto
  next
    case False
    then have e: "addr + idx' = 8 * off + 8" "idx' < length dat" using idx' by auto
    have len: "length (log_bytes (ps @ qs)) \<le> length (log_bytes ps) + 9"
      using length_pkt_bytes_le [of "(off, we', nd')"] by (simp add: qs_def)
    have E: "off + 1 < ?E" using e by auto
    have "\<exists>d' qs'. map_write_loop n regs stack dat (length dat) m addr (off + 1)
        (2 * 0, idx', 0x0F, replicate PGPKT_DATA_SIZE 0xFF) SUCCESS (s\<lparr>dev := d1\<rparr>) =
        Some (s\<lparr>dev := d1\<rparr>\<lparr>dev := d'\<rparr>, SUCCESS) \<and> holds_log (mem d') ((ps @ qs) @ qs') \<and>
        map_of_log ((ps @ qs) @ qs') = t"
    proof (rule Suc.IH)
      show "holds_log (mem (dev (s\<lparr>dev := d1\<rparr>))) (ps @ qs)" using log1 by simp
      show "map_of_log (ps @ qs) = take (8 * (off + 1)) t @ drop (8 * (off + 1)) m"
        using done_map by (simp add: add.commute)
      show "off + 1 < 16" using e ad by linarith
      show "off + 1 < ?E" by (rule E)
      show "length (log_bytes (ps @ qs)) + 9 * (?E - (off + 1)) \<le> 505" using len E Suc.prems(5) by linarith
      show "\<forall>p \<in> set (ps @ qs). off + 1 \<le> fst p \<longrightarrow> \<not> pkt_blank p"
        using Suc.prems(6) by (auto simp: qs_def)
      show "501 + (16 - (off + 1)) \<le> n" using Suc.prems(3,7) by linarith
      show "addr + idx' = 8 * (off + 1) + 2 * 0" using e by simp
      show "\<forall>w. 0 \<le> w \<and> w < 4 \<longrightarrow> bit (0x0F :: u8) w" using all_bits_15 by blast
    qed (use idx' in \<open>auto simp: efuse_consts\<close>)
    then show ?thesis unfolding step using False by auto
  qed
qed simp

lemma fill_odd_good:
  assumes M: "length m = 128" and ad: "addr + length dat \<le> 128" and ne: "dat \<noteq> []"
    and t: "t = patch_map addr dat m" and b: "b = 8 * (addr div 8)"
  shows "\<exists>j idx we nd. fill_odd dat m addr (addr mod 8) (replicate PGPKT_DATA_SIZE 0xFF) =
      Some (2 * j, idx, we, nd) \<and> j \<le> 4 \<and> addr + idx = b + 2 * j \<and> idx \<le> length dat \<and>
    (\<forall>w < j. word_good t m b we nd w) \<and> (\<forall>w. j \<le> w \<and> w < 4 \<longrightarrow> bit we w) \<and> length nd = 8 \<and> we < 16"
proof -
  define k where "k = addr mod 8 div 2"
  let ?nd = "replicate 8 0xFF :: u8 list"
  have k4: "k < 4" by (simp add: k_def)
  have tn: "t ! i = (if i < addr then m ! i else if i < addr + length dat then dat ! (i - addr) else m ! i)"
    if "i < 128" for i using that t M ad by (simp add: nth_patch_map)
  have addr: "addr = b + addr mod 8" by (simp add: b)
  have early: "word_good t m b 0x0F nd w" if "w < k" for nd w
  proof -
    have "b + 2 * w + 1 < addr" "w < 4" using that addr k4 unfolding k_def by linarith+
    then show ?thesis using tn ad all_bits_15 [of w] by (simp add: word_good_def)
  qed
  show ?thesis
  proof (cases "odd (addr mod 8)")
    case False
    then have "addr mod 8 = 2 * k" by (simp add: k_def)
    moreover have "fill_odd dat m addr (2 * k) ?nd = Some (2 * k, 0, 0x0F, ?nd)" by (simp add: fill_odd_def)
    ultimately show ?thesis
      using early addr k4 all_bits_15
      by (intro exI [of _ k] exI [of _ "0 :: nat"] exI [of _ "0x0F :: u8"] exI [of _ ?nd]) (simp add: efuse_consts)
  next
    case True
    then have k: "addr mod 8 = 2 * k + 1" unfolding k_def by presburger
    have ab: "addr = b + 2 * k + 1" using addr k by simp
    have la: "addr < 128" using ad ne by (cases dat) auto
    have t0: "t ! (b + 2 * k) = m ! (b + 2 * k)" and t1: "t ! (b + 2 * k + 1) = dat ! 0"
      using tn [of "b + 2 * k"] tn [of "b + 2 * k + 1"] ab la ne by auto
    have enab: "enable_word 0x0F (2 * k + 1) = enable_word 0x0F (2 * k)" by (simp add: enable_word_def)
    let ?c = "dat ! 0 \<noteq> m ! addr"
    define we where "we = (if ?c then enable_word 0x0F (2 * k) else 0x0F)"
    define nd where "nd = (if ?c then ?nd[2 * k := m ! (b + 2 * k), 2 * k + 1 := dat ! 0] else ?nd)"
    have "fill_odd dat m addr (2 * k + 1) ?nd = Some (2 * (k + 1), 1, we, nd)"
      using la ab M ne enab by (simp add: fill_odd_def we_def nd_def)
    moreover have "word_good t m b we nd w" if "w < k + 1" for w
    proof (cases "w = k")
      case True
      show ?thesis
      proof (cases ?c)
        case True
        then show ?thesis
          using word_good_set [OF k4, of w ?nd t m b "0x0F" "m ! (b + 2 * k)" "dat ! 0"] \<open>w = k\<close> k4 t0 t1
          by (simp add: we_def nd_def)
      next
        case False
        then show ?thesis using True t0 t1 ab all_bits_15 [OF k4] by (simp add: we_def nd_def word_good_def)
      qed
    next
      case False
      with that have "w < k" by simp
      then show ?thesis
        using early [of w ?nd] word_good_set [OF k4, of w ?nd t m b "0x0F" "m ! (b + 2 * k)" "dat ! 0"] k4 t0 t1
        by (simp add: we_def nd_def)
    qed
    moreover have "bit we w" if "k + 1 \<le> w" "w < 4" for w
      using that all_bits_15 [of w] by (simp add: we_def enable_word_bit)
    moreover have "we < 16" using enable_word_bound [of "0x0F" "2 * k"] by (simp add: we_def)
    moreover have "length nd = 8" by (simp add: nd_def)
    ultimately show ?thesis
      using k k4 ab ne
      by (intro exI [of _ "k + 1"] exI [of _ "1 :: nat"] exI [of _ we] exI [of _ nd])
        (auto simp: efuse_consts Suc_le_eq)
  qed
qed


lemma map_read_bytes:
  assumes eb: "efuse_bytes regs mem" and log: "holds_log (mem d) ps" and "off + n \<le> 128"
  shows "\<exists>d'. rtw_efuse_map_read regs off n d = (d', Some (take n (drop off (map_of_log ps)))) \<and>
    mem d' = mem d"
proof -
  have pw: "mem (hal_EfusePowerSwitch_RTL8192C regs w p x) = mem x" for w p x using eb by (simp add: efuse_bytes_def)
  obtain d1 where "ReadEFuse_RTL8192C regs off n (hal_EfusePowerSwitch_RTL8192C regs False True d) =
      (d1, Some (take n (drop off (map_of_log ps)), length (log_bytes ps)))" "mem d1 = mem d"
    using ReadEFuse_log [OF eb _ assms(3), of "hal_EfusePowerSwitch_RTL8192C regs False True d" ps] log pw by auto
  then show ?thesis using assms(3) pw by (simp add: rtw_efuse_map_read_def efuse_consts)
qed

lemma map_write_bytes:
  assumes eb: "efuse_bytes regs mem" and log: "holds_log (mem (dev s)) ps"
    and ad: "addr + length dat \<le> 128" and ne: "dat \<noteq> []"
    and blank: "\<forall>p \<in> set ps. \<not> pkt_blank p"
    and size: "length (log_bytes ps) + 9 * ((addr + length dat + 7) div 8 - addr div 8) \<le> 505"
    and n: "520 \<le> n"
  shows "\<exists>d' qs. rtw_efuse_map_write n regs stack addr (length dat) dat s = Some (s\<lparr>dev := d'\<rparr>, SUCCESS) \<and>
    holds_log (mem d') (ps @ qs) \<and> map_of_log (ps @ qs) = patch_map addr dat (map_of_log ps)"
proof -
  let ?m = "map_of_log ps" and ?b = "8 * (addr div 8)" and ?off = "addr div 8"
  have pw: "mem (hal_EfusePowerSwitch_RTL8192C regs w p x) = mem x" for w p x using eb by (simp add: efuse_bytes_def)
  have M: "length ?m = 128" by (rule length_map_of_log)
  obtain d1 where rd: "rtw_efuse_map_read regs 0 128 (dev s) = (d1, Some ?m)" and m1: "mem d1 = mem (dev s)"
    using map_read_bytes [OF eb log, of 0 128] M by auto
  define d2 where "d2 = hal_EfusePowerSwitch_RTL8192C regs True True d1"
  have m2: "mem d2 = mem (dev s)" using m1 pw by (simp add: d2_def)
  obtain j idx we nd where fo: "fill_odd dat ?m addr (addr mod 8) (replicate PGPKT_DATA_SIZE 0xFF) =
      Some (2 * j, idx, we, nd)"
    and inv: "j \<le> 4" "addr + idx = ?b + 2 * j" "idx \<le> length dat"
      "\<forall>w < j. word_good (patch_map addr dat ?m) ?m ?b we nd w" "\<forall>w. j \<le> w \<and> w < 4 \<longrightarrow> bit we w"
      "length nd = 8" "we < 16"
    using fill_odd_good [OF M ad ne refl refl] by blast
  have "\<exists>d' qs. map_write_loop n regs stack dat (length dat) ?m addr ?off (2 * j, idx, we, nd) SUCCESS
      (s\<lparr>dev := d2\<rparr>) = Some (s\<lparr>dev := d2\<rparr>\<lparr>dev := d'\<rparr>, SUCCESS) \<and> holds_log (mem d') (ps @ qs) \<and>
      map_of_log (ps @ qs) = patch_map addr dat ?m"
  proof (rule map_write_loop_ok [OF eb M ad refl])
    show "holds_log (mem (dev (s\<lparr>dev := d2\<rparr>))) ps" using log m2 by simp
    have "?b \<le> addr" by simp
    then have "take ?b (patch_map addr dat ?m) = take ?b ?m"
      using M ad by (simp add: patch_map_def)
    then show "?m = take ?b (patch_map addr dat ?m) @ drop ?b ?m" by simp
    have "1 \<le> length dat" using ne by (cases dat) auto
    then show "?off < 16" and "?off < (addr + length dat + 7) div 8" using ad by linarith+
    show "\<forall>p \<in> set ps. ?off \<le> fst p \<longrightarrow> \<not> pkt_blank p" using blank by blast
    show "501 + (16 - ?off) \<le> n" using n by linarith
  qed (fact size inv)+
  then obtain d3 qs where lp: "map_write_loop n regs stack dat (length dat) ?m addr ?off (2 * j, idx, we, nd)
      SUCCESS (s\<lparr>dev := d2\<rparr>) = Some (s\<lparr>dev := d3\<rparr>, SUCCESS)"
    and res: "holds_log (mem d3) (ps @ qs)" "map_of_log (ps @ qs) = patch_map addr dat ?m" by auto
  have "rtw_efuse_map_write n regs stack addr (length dat) dat s =
      Some (s\<lparr>dev := hal_EfusePowerSwitch_RTL8192C regs True False d3\<rparr>, SUCCESS)"
    using ad rd fo lp by (simp add: rtw_efuse_map_write_def EFUSE_MAP_LEN_def d2_def)
  then show ?thesis using res pw by metis
qed

section \<open>The other ways to the memory\<close>

text \<open>A memory that is full but for the protected bytes is left alone.\<close>

lemma pg_packet_full:
  assumes eb: "efuse_bytes regs mem" and log: "holds_log (mem (dev s)) ps" and "497 \<le> length (log_bytes ps)"
  shows "\<exists>d'. hal_EfusePgPacketWrite_8192C n regs stack off we dat s = Some (s\<lparr>dev := d'\<rparr>, False) \<and>
    mem d' = mem (dev s)"
  using current_size_log [OF eb log] assms(3)
  by (auto simp: hal_EfusePgPacketWrite_8192C_def pg_packet_start_def efuse_consts Let_def)

lemma access_loop_reads:
  assumes eb: "efuse_bytes regs mem" and "a + length buf \<le> 512"
  shows "\<exists>d'. access_loop regs False a buf (d, res) acc =
    (d', if buf = [] then res else SUCCESS, acc @ take (length buf) (drop a (mem d))) \<and> mem d' = mem d"
  using assms(2)
proof (induction buf arbitrary: a d res acc)
  case (Cons x buf)
  have len: "length (mem d) = 512" using eb by (simp add: efuse_bytes_def)
  obtain d1 where r: "efuse_OneByteRead regs a d = (d1, True, mem d ! a)" and m1: "mem d1 = mem d"
    using one_read [OF eb, of a d] Cons.prems by auto
  have "drop a (mem d) = mem d ! a # drop (a + 1) (mem d)"
    using len Cons.prems by (simp add: Cons_nth_drop_Suc)
  then show ?case
    using Cons.IH [of "a + 1" d1 SUCCESS "acc @ [mem d ! a]"] Cons.prems r m1 by (auto simp: efuse_consts)
qed simp

lemma rtw_efuse_access_reads:
  assumes eb: "efuse_bytes regs mem" and "a + length buf \<le> 512" and "buf \<noteq> []"
  shows "\<exists>d'. rtw_efuse_access regs False a buf d = (d', SUCCESS, take (length buf) (drop a (mem d))) \<and>
    mem d' = mem d"
  using access_loop_reads [OF eb assms(2), of "hal_EfusePowerSwitch_RTL8192C regs False True d" FAIL "[]"] assms eb
  by (auto simp: rtw_efuse_access_def efuse_consts efuse_bytes_def)

text \<open>The shadow holds the map of the log, read in little-endian order.\<close>

lemma shadow_update_read:
  assumes eb: "efuse_bytes regs mem" and log: "holds_log (mem d) ps" and "128 \<le> length shadow"
    and "off + 1 < 128"
  shows "\<exists>d' sh. EFUSE_ShadowMapUpdate regs False shadow d = (d', Some sh) \<and> mem d' = mem d \<and>
    length sh = length shadow \<and>
    EFUSE_ShadowRead 2 off sh 0 = Some (ucast (map_of_log ps ! off) OR push_bit 8 (ucast (map_of_log ps ! (off + 1))))"
proof -
  have pw: "mem (hal_EfusePowerSwitch_RTL8192C regs w p x) = mem x" for w p x using eb by (simp add: efuse_bytes_def)
  obtain d1 where "ReadEFuse_RTL8192C regs 0 128 (hal_EfusePowerSwitch_RTL8192C regs False True d) =
      (d1, Some (map_of_log ps, length (log_bytes ps)))" "mem d1 = mem d"
    using ReadEFuse_log [OF eb, of "hal_EfusePowerSwitch_RTL8192C regs False True d" ps 0 128] log pw
    by (auto simp: length_map_of_log)
  then show ?thesis
    using assms(3,4) pw length_map_of_log [of ps]
    by (auto simp: EFUSE_ShadowMapUpdate_def Efuse_ReadAllMap_def EFUSE_MAP_LEN_def EFUSE_ShadowRead_def nth_append)
qed

section \<open>What the packet reader loses\<close>

lemma pg_read_tmp:
  assumes eb: "efuse_bytes regs mem" and "\<forall>i \<in> set is. a + 1 + i < 512"
  shows "\<exists>d'. read_tmp regs a is (d, tmp, b) =
    (d', fold (\<lambda>i t. t[i := mem d ! (a + 1 + i)]) is tmp,
     b \<and> (\<forall>i \<in> set is. mem d ! (a + 1 + i) = 0xFF)) \<and> mem d' = mem d"
  using assms(2)
proof (induction "is" arbitrary: d tmp b)
  case (Cons i "is")
  obtain d1 where "efuse_OneByteRead regs (a + 1 + i) d = (d1, True, mem d ! (a + 1 + i))" "mem d1 = mem d"
    using one_read [OF eb, of "a + 1 + i" d] Cons.prems by force
  then show ?case using Cons.IH [of d1 "tmp[i := mem d ! (a + 1 + i)]" "b \<and> mem d ! (a + 1 + i) = 0xFF"]
      Cons.prems by auto
qed simp

text \<open>
  The reader at a packet: one of another section is skipped; of one with only the second word the two
  bytes go to the first two places of the buffer, from where nothing is copied.
\<close>

lemma pg_read_turn:
  assumes eb: "efuse_bytes regs mem" and m: "mem d = pre @ pkt_bytes p @ post" and p: "p = (o', we, w)" and ok: "pkt_ok p"
    and off: "off < 16" "o' = off \<Longrightarrow> we = 0x0D" and tmp: "length tmp = 8" "drop 2 tmp = replicate 6 0xFF"
  shows "\<exists>d' hw' tmp'. pg_read_loop regs (word_of_nat off) PG_STATE_HEADER (length pre) hw tmp (replicate 8 0xFF) d =
      pg_read_loop regs (word_of_nat off) PG_STATE_HEADER (length (pre @ pkt_bytes p)) hw' tmp' (replicate 8 0xFF) d' \<and>
    mem d' = mem d \<and> length tmp' = 8 \<and> drop 2 tmp' = replicate 6 0xFF"
proof -
  let ?h = "pkt_header o' we" and ?w = "pkt_words we w" and ?ff = "replicate 8 0xFF :: u8 list"
  let ?o = "word_of_nat off :: u8"
  have ok': "o' < 16" "we < 16" "?h \<noteq> 0xFF" using ok p by auto
  have m': "mem d = pre @ ?h # ?w @ post" using m p by simp
  have l: "length (mem d) = 512" using eb by (simp add: efuse_bytes_def)
  then have len: "length pre < 512" "length pre + length ?w < 512" using m' by simp_all
  obtain d1 where r: "efuse_OneByteRead regs (length pre) d = (d1, True, ?h)" and m1: "mem d1 = mem d"
    using one_read [OF eb, of "length pre" d] len m' by (metis nth_append_length)
  have parts: "drop_bit 4 ?h AND 0x0F = word_of_nat o'" "?h AND 0x0F = we"
    using pkt_header_parts [OF ok'(1,2)] by simp_all
  have "unat (word_of_nat o' :: u8) = o'" "unat ?o = off"
    using ok'(1) off(1) by (simp_all add: unsigned_of_nat take_bit_nat_eq_self)
  then have inj: "word_of_nat o' = ?o \<longleftrightarrow> o' = off" by metis
  let ?n = "Efuse_CalculateWordCnts we"
  have next_addr: "length pre + ?n * 2 + 1 = length (pre @ pkt_bytes p)"
    using p by (simp add: length_pkt_words)
  show ?thesis
  proof (cases "o' = off")
    case False
    have "pg_read_loop regs ?o PG_STATE_HEADER (length pre) hw tmp ?ff d =
        pg_read_loop regs ?o PG_STATE_HEADER (length pre + ?n * 2 + 1) we tmp ?ff d1"
      using ok'(3) len(1) False inj by (subst pg_read_loop.simps) (simp add: efuse_consts r parts)
    then show ?thesis using m1 tmp unfolding next_addr by blast
  next
    case True
    then have we: "we = 0x0D" by (rule off(2))
    have cnt: "?n = 1" "[0..<?n * 2] = [0, 1]" by (simp_all add: we Efuse_CalculateWordCnts_def upt_conv_Cons)
    have "length ?w = 2" by (simp add: length_pkt_words cnt(1))
    then have "\<forall>i \<in> set [0..<?n * 2]. length pre + 1 + i < 512" using len(2) unfolding cnt(2) by auto
    from pg_read_tmp [OF eb this, of d1 tmp True] obtain d2 b where
      t: "read_tmp regs (length pre) [0..<?n * 2] (d1, tmp, True) =
        (d2, tmp[0 := mem d1 ! (length pre + 1), 1 := mem d1 ! (length pre + 2)], b)" and m2: "mem d2 = mem d1"
      unfolding cnt(2) by (auto simp: numeral_2_eq_2)
    define tmp' where "tmp' = tmp[0 := mem d1 ! (length pre + 1), 1 := mem d1 ! (length pre + 2)]"
    have tmp': "length tmp' = 8" "drop 2 tmp' = replicate 6 0xFF" using tmp by (simp_all add: tmp'_def)
    have "tmp' ! 2 = drop 2 tmp' ! 0" "tmp' ! 3 = drop 2 tmp' ! 1" using tmp'(1) by simp_all
    then have t23: "tmp' ! 2 = 0xFF" "tmp' ! 3 = 0xFF" unfolding tmp'(2) by simp_all
    have dat: "efuse_WordEnableDataRead 0x0D tmp' ?ff = ?ff"
      using t23 by (simp add: efuse_WordEnableDataRead_def copy_word_def numeral_eq_Suc)
    have "pg_read_loop regs ?o PG_STATE_DATA (length pre) we tmp' ?ff d2 =
        pg_read_loop regs ?o PG_STATE_HEADER (length pre + ?n * 2 + 1) we tmp' ?ff d2"
      using len(1) by (subst pg_read_loop.simps) (simp add: efuse_consts dat [folded we] del: One_nat_def)
    moreover have "pg_read_loop regs ?o PG_STATE_HEADER (length pre) hw tmp ?ff d =
        (if \<not> b then pg_read_loop regs ?o PG_STATE_DATA (length pre) we tmp' ?ff d2
         else pg_read_loop regs ?o PG_STATE_HEADER (length pre + ?n * 2 + 1) we tmp' ?ff d2)"
      using ok'(3) len(1) True inj
      by (subst pg_read_loop.simps) (simp add: efuse_consts r parts [unfolded True] t [folded tmp'_def] del: read_tmp.simps One_nat_def)
    ultimately have "pg_read_loop regs ?o PG_STATE_HEADER (length pre) hw tmp ?ff d =
        pg_read_loop regs ?o PG_STATE_HEADER (length pre + ?n * 2 + 1) we tmp' ?ff d2"
      by (cases b) (simp_all only: simp_thms if_True if_False)
    then show ?thesis using m1 m2 tmp' unfolding next_addr by metis
  qed
qed

lemma pg_read_loses:
  assumes eb: "efuse_bytes regs mem" and "mem d = pre @ log_bytes ps @ replicate k 0xFF" and "list_all pkt_ok ps"
    and "off < 16" and "\<forall>(o', we, w) \<in> set ps. o' = off \<longrightarrow> we = 0x0D"
    and "length tmp = 8" and "drop 2 tmp = replicate 6 0xFF"
  shows "\<exists>d'. pg_read_loop regs (word_of_nat off) PG_STATE_HEADER (length pre) hw tmp (replicate 8 0xFF) d =
    (d', replicate 8 0xFF) \<and> mem d' = mem d"
  using assms(2,3,5-7)
proof (induction ps arbitrary: pre d hw tmp)
  case Nil
  show ?case
  proof (cases "length pre < 512")
    case True
    have "length (mem d) = 512" using eb by (simp add: efuse_bytes_def)
    then have "0 < k" using True Nil.prems(1) by (simp add: log_bytes_def)
    then have "mem d ! length pre = 0xFF" using Nil.prems(1) by (simp add: nth_append log_bytes_def)
    then obtain d1 where "efuse_OneByteRead regs (length pre) d = (d1, True, 0xFF)" "mem d1 = mem d"
      using one_read [OF eb, of "length pre" d] True by metis
    then show ?thesis using True by (subst pg_read_loop.simps) (simp add: efuse_consts)
  next
    case False
    then show ?thesis by (subst pg_read_loop.simps) (simp add: efuse_consts)
  qed
next
  case (Cons p ps)
  obtain o' we w where p: "p = (o', we, w)" by (cases p)
  have m: "mem d = pre @ pkt_bytes p @ (log_bytes ps @ replicate k 0xFF)" using Cons.prems(1) by (simp add: log_bytes_def)
  have "pkt_ok p" "o' = off \<Longrightarrow> we = 0x0D" using Cons.prems(2,3) by (auto simp: p)
  from pg_read_turn [OF eb m p this(1) assms(4) this(2) Cons.prems(4,5), of hw] obtain d1 hw' tmp' where
    s: "pg_read_loop regs (word_of_nat off) PG_STATE_HEADER (length pre) hw tmp (replicate 8 0xFF) d =
      pg_read_loop regs (word_of_nat off) PG_STATE_HEADER (length (pre @ pkt_bytes p)) hw' tmp' (replicate 8 0xFF) d1"
    and m1: "mem d1 = mem d" and t: "length tmp' = 8" "drop 2 tmp' = replicate 6 0xFF"
    by blast
  have "mem d1 = (pre @ pkt_bytes p) @ log_bytes ps @ replicate k 0xFF" using m m1 by simp
  from Cons.IH [OF this _ _ t] Cons.prems(2,3) show ?case unfolding s m1 by simp
qed

section \<open>A chip\<close>

text \<open>
  A device whose registers behave as \<open>efuse_chip\<close> asks: a command takes two tests of its register, and
  programming clears bits. It shows that the assumption can hold.
\<close>

record ref_chip =
  rc_low :: u8
  rc_high :: u8
  rc_data :: u8
  rc_prog :: bool
  rc_busy :: nat
  rc_mem :: "nat \<Rightarrow> u8"

definition rc_view :: "ref_chip \<Rightarrow> efuse_view" where
  "rc_view c = \<lparr>ev_low = rc_low c, ev_high = rc_high c, ev_data = rc_data c, ev_prog = rc_prog c,
     ev_busy = rc_busy c, ev_mem = map (rc_mem c) [0..<512]\<rparr>"

definition rc_command :: "ref_chip \<Rightarrow> u8 \<Rightarrow> ref_chip" where
  "rc_command c v =
     (let a = ev_addr (rc_view c) in
      if bit v 7
      then c\<lparr>rc_prog := True, rc_busy := 2, rc_mem := (rc_mem c)(a := rc_mem c a AND rc_data c)\<rparr>
      else c\<lparr>rc_prog := False, rc_busy := 2, rc_data := rc_mem c a\<rparr>)"

definition rc_flag :: "ref_chip \<Rightarrow> bool" where
  "rc_flag c \<longleftrightarrow> (rc_busy c = 0) \<noteq> rc_prog c"

definition rc_tested :: "ref_chip \<Rightarrow> ref_chip" where
  "rc_tested c = c\<lparr>rc_busy := rc_busy c - 1\<rparr>"

definition rc_regs :: "ref_chip efuse_regs" where
  "rc_regs = \<lparr>
     rtw_read8 = (\<lambda>c a. if a = EFUSE_CTRL + 3 then (rc_tested c, if rc_flag c then 0x80 else 0)
                        else if a = EFUSE_CTRL + 2 then (c, rc_high c)
                        else if a = EFUSE_CTRL + 1 then (c, rc_low c) else if a = EFUSE_CTRL then (c, rc_data c) else (c, 0)),
     rtw_write8 = (\<lambda>c a v. if a = EFUSE_CTRL + 3 then rc_command c v
                           else if a = EFUSE_CTRL + 2 then c\<lparr>rc_high := v\<rparr>
                           else if a = EFUSE_CTRL + 1 then c\<lparr>rc_low := v\<rparr>
                           else if a = EFUSE_CTRL then c\<lparr>rc_data := v\<rparr> else c),
     rtw_read16 = (\<lambda>c a. (c, 0)),
     rtw_write16 = (\<lambda>c a v. c),
     rtw_read32 = (\<lambda>c a. (rc_tested c, (if rc_flag c then 0x80000000 else 0) OR ucast (rc_data c)))\<rparr>"

lemma ref_chip_word:
  "bit ((if b then 0x80000000 else 0) OR ucast (x :: u8) :: u32) 31 = b"
  "ucast ((if b then 0x80000000 else 0) OR ucast x :: u32) = x"
proof -
  show "bit ((if b then 0x80000000 else 0) OR ucast (x :: u8) :: u32) 31 = b"
    by (simp add: bit_simps)
  show "ucast ((if b then 0x80000000 else 0) OR ucast x :: u32) = x"
  proof (rule bit_word_eqI)
    fix n assume "n < LENGTH(8)"
    from u8_cases [OF this]
    show "bit (ucast ((if b then 0x80000000 else 0) OR ucast x :: u32) :: u8) n = bit x n"
      by (elim disjE) (simp_all add: bit_simps)
  qed
qed

lemma upd_map: "a < 512 \<Longrightarrow> map (f(a := v)) [0..<512] = (map f [0..<512])[a := v]"
  by (rule nth_equalityI) (auto simp: nth_list_update)

lemma and_FF: "0xFF AND x = (x :: u8)"
  using take_bit_length_eq [of x] by (simp add: take_bit_eq_mask mask_eq_exp_minus_1 and.commute)

lemma ref_chip_ok: "efuse_chip rc_regs rc_view"
proof -
  have "chip_address rc_regs rc_view"
    by (simp add: chip_address_def rc_regs_def rc_view_def EFUSE_CTRL_def)
  moreover have "chip_command rc_regs rc_view"
  proof -
    have rd: "ev_mem (rc_view (rc_command c v)) = ev_mem (rc_view c) \<and> ev_busy (rc_view (rc_command c v)) = 2 \<and>
        \<not> ev_prog (rc_view (rc_command c v)) \<and>
        ev_data (rc_view (rc_command c v)) = rc_mem c (ev_addr (rc_view c))" if "\<not> bit v 7" for c v
      using that by (simp add: rc_command_def rc_view_def Let_def)
    have pr: "ev_busy (rc_view (rc_command c v)) = 2 \<and> ev_prog (rc_view (rc_command c v))"
      if "bit v 7" for c v
      using that by (simp add: rc_command_def rc_view_def Let_def)
    have me: "ev_mem (rc_view (rc_command c v)) = (ev_mem (rc_view c))[a := rc_data c]"
      if "bit v 7" "a = ev_addr (rc_view c)" "a < 512" "ev_mem (rc_view c) ! a = 0xFF" for c v a
    proof -
      have "rc_mem c a = 0xFF" using that by (simp add: rc_view_def)
      then have "rc_mem (rc_command c v) = (rc_mem c)(a := rc_data c)"
        using that and_FF by (simp add: rc_command_def Let_def)
      then show ?thesis using upd_map [OF that(3)] by (simp add: rc_view_def)
    qed
    have nth: "ev_mem (rc_view c) ! a = rc_mem c a" if "a < 512" for c a
      using that by (simp add: rc_view_def)
    have dat: "ev_data (rc_view c) = rc_data c" for c by (simp add: rc_view_def)
    have "rc_view (c\<lparr>rc_data := v\<rparr>) = (rc_view c)\<lparr>ev_data := v\<rparr>" for c v
      by (simp add: rc_view_def)
    then show ?thesis
      unfolding chip_command_def Let_def
      using rd pr me nth dat by (auto simp: rc_regs_def EFUSE_CTRL_def)
  qed
  moreover have "chip_status rc_regs rc_view"
    by (simp add: chip_status_def rc_regs_def rc_view_def rc_tested_def EFUSE_CTRL_def ref_chip_word rc_flag_def)
  moreover have "chip_power rc_regs rc_view"
    by (simp add: chip_power_def rc_regs_def EFUSE_CTRL_def EFUSE_TEST_def)
  ultimately show ?thesis by (simp add: efuse_chip_def rc_view_def)
qed

definition rc_blank :: ref_chip where
  "rc_blank = \<lparr>rc_low = 0, rc_high = 0, rc_data = 0, rc_prog = False, rc_busy = 0, rc_mem = (\<lambda>_. 0xFF)\<rparr>"

lemma rc_blank_log: "holds_log (ev_mem (rc_view rc_blank)) []"
  by (simp add: holds_log_def rc_blank_def rc_view_def map_replicate_const)

section \<open>The properties\<close>

text \<open>C18: Whatever log of well-formed packets the memory holds, rtw_efuse_map_read gives the asked
  part of the map of that log, in which the last packet that has a word decides it; the memory stays
  as it is. The chip may take up to 99 tests of its register for each byte.\<close>

theorem rtw_efuse_map_read_log:
  assumes "efuse_chip regs view" and "holds_log (ev_mem (view d)) ps" and "addr + cnts \<le> 128"
  shows "\<exists>d'. rtw_efuse_map_read regs addr cnts d = (d', Some (take cnts (drop addr (map_of_log ps)))) \<and>
    ev_mem (view d') = ev_mem (view d)"
  by (rule map_read_bytes [OF chip_bytes [OF assms(1)] assms(2,3)])

theorem rtw_efuse_map_read_log_witness:
  "\<exists>d'. rtw_efuse_map_read rc_regs 5 2 rc_blank = (d', Some [0xFF, 0xFF]) \<and>
    ev_mem (rc_view d') = ev_mem (rc_view rc_blank)"
  using rtw_efuse_map_read_log [OF ref_chip_ok rc_blank_log, of 5 2]
  by (simp add: map_of_log_def numeral_eq_Suc)

text \<open>C17: rtw_efuse_map_write returns, appends packets to the log and programs no byte that is in use;
  afterwards the map is the old one with the written bytes in it, so that rtw_efuse_map_read gives them
  back and all others unchanged. The log must have room for a packet per section written, and no
  packet whose bytes are all erased.\<close>

theorem rtw_efuse_map_write_read:
  assumes "efuse_chip regs view" and "holds_log (ev_mem (view (dev s))) ps"
    and "addr + length dat \<le> 128" and "dat \<noteq> []" and "\<forall>p \<in> set ps. \<not> pkt_blank p"
    and "length (log_bytes ps) + 9 * ((addr + length dat + 7) div 8 - addr div 8) \<le> 505" and "520 \<le> n"
    and "off + cnts \<le> 128"
  shows "\<exists>s' qs d'. rtw_efuse_map_write n regs stack addr (length dat) dat s = Some (s', SUCCESS) \<and>
    holds_log (ev_mem (view (dev s'))) (ps @ qs) \<and>
    rtw_efuse_map_read regs off cnts (dev s') =
      (d', Some (take cnts (drop off (patch_map addr dat (map_of_log ps)))))"
proof -
  note eb = chip_bytes [OF assms(1)]
  obtain d qs where w: "rtw_efuse_map_write n regs stack addr (length dat) dat s = Some (s\<lparr>dev := d\<rparr>, SUCCESS)"
    and log: "holds_log (ev_mem (view d)) (ps @ qs)"
    and m: "map_of_log (ps @ qs) = patch_map addr dat (map_of_log ps)"
    using map_write_bytes [OF eb assms(2-7), of stack] by blast
  from map_read_bytes [OF eb log assms(8)] m obtain d' where
    "rtw_efuse_map_read regs off cnts d =
      (d', Some (take cnts (drop off (patch_map addr dat (map_of_log ps)))))" by auto
  with w log show ?thesis by (intro exI [of _ "s\<lparr>dev := d\<rparr>"]) auto
qed

lemma patch_example: "take 5 (drop 2 (patch_map 3 [1, 2, 3] (map_of_log []))) = [0xFF, 1, 2, 3, 0xFF]"
  by (simp add: map_of_log_def patch_map_def)

theorem rtw_efuse_map_write_read_witness:
  "\<exists>s' qs d'. rtw_efuse_map_write 600 rc_regs [] 3 3 [1, 2, 3] \<lparr>dev = rc_blank, repeat_times = 0\<rparr> =
      Some (s', SUCCESS) \<and>
    holds_log (ev_mem (rc_view (dev s'))) qs \<and>
    rtw_efuse_map_read rc_regs 2 5 (dev s') = (d', Some [0xFF, 1, 2, 3, 0xFF])"
  using rtw_efuse_map_write_read [OF ref_chip_ok, of "\<lparr>dev = rc_blank, repeat_times = 0\<rparr>" "[]" 3 "[1, 2, 3]"
      600 2 5 "[]"] rc_blank_log
  by (simp add: patch_example flip: numeral_3_eq_3)

text \<open>C40: hal_EfusePgPacketRead_8192C does not find a section all of whose packets have only their
  second word, whatever the word is and whatever other packets the log holds before, between and behind
  them: it takes the words from the places they have in a full packet although the log holds them one
  behind the other. rtw_efuse_map_read reads the word in the same memory.\<close>

theorem pg_packet_read_loses_word:
  assumes "efuse_chip regs view" and "holds_log (ev_mem (view d)) ps" and "off < 16"
    and "\<forall>(o', we, w) \<in> set ps. o' = off \<longrightarrow> we = 0x0D"
  shows "(\<exists>d'. hal_EfusePgPacketRead_8192C regs (word_of_nat off) d = (d', False, Some (replicate 8 0xFF))) \<and>
    (\<exists>d'. rtw_efuse_map_read regs (8 * off) 8 d = (d', Some (take 8 (drop (8 * off) (map_of_log ps)))))"
proof
  note eb = chip_bytes [OF assms(1)]
  have "\<exists>d'. pg_read_loop regs (word_of_nat off) PG_STATE_HEADER (length ([] :: u8 list)) 0 (replicate 8 0xFF) (replicate 8 0xFF) d =
      (d', replicate 8 0xFF) \<and> ev_mem (view d') = ev_mem (view d)"
    by (rule pg_read_loses [OF eb _ _ assms(3,4)]) (use assms(2) in \<open>simp_all add: holds_log_def\<close>)
  moreover have "\<not> (word_of_nat off :: u8) > 15"
    using assms(3) by (simp add: word_less_nat_alt unsigned_of_nat take_bit_nat_eq_self)
  ultimately show "\<exists>d'. hal_EfusePgPacketRead_8192C regs (word_of_nat off) d = (d', False, Some (replicate 8 0xFF))"
    by (auto simp: hal_EfusePgPacketRead_8192C_def efuse_consts)
  show "\<exists>d'. rtw_efuse_map_read regs (8 * off) 8 d = (d', Some (take 8 (drop (8 * off) (map_of_log ps))))"
    using map_read_bytes [OF eb assms(2), of "8 * off" 8] assms(3) by auto
qed

definition rc_word1 :: ref_chip where
  "rc_word1 = rc_blank\<lparr>rc_mem := (\<lambda>a. if a = 0 then 0x2D else if a = 1 then 0x12 else if a = 2 then 0x34 else 0xFF)\<rparr>"

lemma rc_word1_log: "holds_log (ev_mem (rc_view rc_word1)) [(2, 0x0D, [0, 0, 0x12, 0x34, 0, 0, 0, 0])]"
proof -
  let ?f = "\<lambda>a :: nat. if a = 0 then 0x2D else if a = 1 then 0x12 else if a = 2 then 0x34 else 0xFF :: u8"
  have "[0..<3] = [0, 1, 2 :: nat]" by (simp add: upt_conv_Cons)
  then have "[0..<512] = [0, 1, 2] @ [3..<512 :: nat]"
    using upt_add_eq_append [of 0 3 509] by (simp del: upt_rec_numeral)
  moreover have "map ?f [3..<512] = map (\<lambda>_. 0xFF) [3..<512]"
    by (rule map_cong) (auto simp del: upt_rec_numeral)
  moreover have "map (\<lambda>_. 0xFF :: u8) [3..<512] = replicate 509 0xFF"
    by (simp add: map_replicate_const del: upt_rec_numeral)
  ultimately have m: "map ?f [0..<512] = [0x2D, 0x12, 0x34] @ replicate 509 0xFF" by simp
  have h: "pkt_header 2 0x0D = 0x2D" by (simp add: pkt_header_def)
  have w: "pkt_words 0x0D [0, 0, 0x12, 0x34, 0, 0, 0, 0] = [0x12, 0x34]" by (simp add: pkt_words_def word_bytes_def)
  show ?thesis using m h w by (simp add: holds_log_def rc_word1_def rc_blank_def rc_view_def)
qed

theorem pg_packet_read_loses_word_witness:
  "(\<exists>d'. hal_EfusePgPacketRead_8192C rc_regs 2 rc_word1 = (d', False, Some (replicate 8 0xFF))) \<and>
   (\<exists>d'. rtw_efuse_map_read rc_regs 16 8 rc_word1 = (d', Some [0xFF, 0xFF, 0x12, 0x34, 0xFF, 0xFF, 0xFF, 0xFF]))"
proof -
  have "take 8 (drop 16 (map_of_log [(2, 0x0D, [0, 0, 0x12, 0x34, 0, 0, 0, 0])])) =
      [0xFF, 0xFF, 0x12, 0x34, 0xFF, 0xFF, 0xFF, 0xFF]"
    by (simp add: map_of_log_def apply_word.simps drop_update_swap take_update_swap) (simp add: numeral_eq_Suc)
  then show ?thesis using pg_packet_read_loses_word [OF ref_chip_ok rc_word1_log, of 2] by simp
qed

end
