(* ===== verification/Spec2Isabelle.thy ===== *)
theory Spec2Isabelle
  imports Driver_Prelude Rc4 Crc32 Michael Frames Wep Tkip Aes_Core Ccmp Recv_Queue Sta_Table
    Rx_State Rx_Ethernet Rx_Reorder Rx_Defrag Rx_Path
    Xmit_Queue Xmit_Power Xmit_Path Rx_Validate
    Ie_Series Ie_Parse Ie_Vendor Ie_Rates
    Scan_Table Scan_Join
    Efuse Efuse_Log Efuse_Map
begin

text \<open>
  Verification of the rtl8192cu wireless driver, the USB 802.11n driver the repository adds to its
  Linux kernel (\<^verbatim>\<open>src/patches/rtl8192cu\<close>; the file names below are relative to it). The model
  follows the configuration of the build: station and access point, HT with A-MPDU and A-MSDU,
  USB aggregation of transmitted frames, reordering in the driver, little-endian machine.

  The program. A frame from the air is placed in a frame of the receive pool, validated, filtered by its
  addresses, decrypted, reassembled from its fragments, reordered within its block acknowledgement
  agreement, converted to Ethernet and given to the network stack. A packet of the stack takes a
  transmit frame, gets its attributes, is encrypted and waits in the queue of its station and access
  category until the tasklet puts it in an aggregate for the hardware; when the station sleeps it waits
  in a sleep queue instead. The station table joins both ways: a station owns the queues, the keys
  and the reordering windows, and what the receive path learns of its power state starts or stops the
  delivery of its frames. Information elements carry what stations tell each other of themselves;
  from those of the beacons it hears the driver keeps a table of networks and chooses the one to join.
  Its own address and calibration come from the EFUSE of the chip.

  Conventions. A C buffer is the list of its bytes, and an access outside it, undefined in C,
  is \<open>None\<close>; that a result is \<open>Some\<close> therefore says that the code stays inside its buffers.
  Machine integers are words of their width. Objects that the code links into lists are named by their
  index in the array that holds them, and each intrusive list is a list of indices. Locks do not
  appear: each operation is one step. (The one exception is the lock of the station table, which
  \<^verbatim>\<open>Sta_Table\<close> counts.) An operation that changes the adapter returns the new
  \<^verbatim>\<open>rx_adapter\<close>. Statistics, tracing and leds are left out.

  Theories, in the order of their imports:
  \<^item> \<^verbatim>\<open>Driver_Prelude\<close>: machine types, buffers, byte order, bytewise exclusive or.
  \<^item> \<^verbatim>\<open>Rc4\<close>, \<^verbatim>\<open>Crc32\<close>, \<^verbatim>\<open>Michael\<close>, \<^verbatim>\<open>Aes_Core\<close>: the primitives of
    \<^verbatim>\<open>core/rtw_security.c\<close>, each shown to be the algorithm of its standard. The locale
    \<open>keystream_cipher\<close> of \<^verbatim>\<open>Rc4\<close> states once why a stream cipher undoes itself.
  \<^item> \<^verbatim>\<open>Frames\<close>, \<^verbatim>\<open>Wep\<close>, \<^verbatim>\<open>Tkip\<close>, \<^verbatim>\<open>Ccmp\<close>: \<^verbatim>\<open>rtw_*_encrypt\<close> and
    \<^verbatim>\<open>rtw_*_decrypt\<close> of the same file on the frames of a packet in place. The locale
    \<open>fragment_cipher\<close> is the walk over the fragments, interpreted for the three ciphers. The
    lemmas show that decryption undoes encryption, which frames the receiver accepts, and what it does
    with the others.
  \<^item> \<^verbatim>\<open>Recv_Queue\<close>: the receive pool (\<^verbatim>\<open>core/rtw_recv.c\<close>): a frame is on one queue and the
    counters are true.
  \<^item> \<^verbatim>\<open>Sta_Table\<close>: \<^verbatim>\<open>core/rtw_sta_mgt.c\<close>: the invariant of the table, allocation, lookup and
    freeing.
  \<^item> \<^verbatim>\<open>Rx_State\<close>, \<^verbatim>\<open>Rx_Ethernet\<close>, \<^verbatim>\<open>Rx_Reorder\<close>, \<^verbatim>\<open>Rx_Defrag\<close>,
    \<^verbatim>\<open>Rx_Path\<close>: the second half of reception (\<^verbatim>\<open>recv_func_posthandle\<close> of
    \<^verbatim>\<open>core/rtw_recv.c\<close>). \<open>rob\<close> in \<^verbatim>\<open>Rx_Reorder\<close> is an abstract reorder buffer with unbounded
    numbers, which the 12-bit code refines within half the number space.
  \<^item> \<^verbatim>\<open>Xmit_Queue\<close>, \<^verbatim>\<open>Xmit_Power\<close>, \<^verbatim>\<open>Xmit_Path\<close>: the transmit queues of
    \<^verbatim>\<open>core/rtw_xmit.c\<close>, the stations asleep, \<^verbatim>\<open>rtw_xmit\<close>, and
    \<^verbatim>\<open>rtl8192cu_xmitframe_complete\<close> of \<^verbatim>\<open>hal/rtl8192c/usb/rtl8192cu_xmit.c\<close>.
    The step relation \<open>tx_step\<close> joins them; in every reachable state each transmit frame
    is in exactly one place, and waiting frames are served.
  \<^item> \<^verbatim>\<open>Rx_Validate\<close>: the first half of reception (\<^verbatim>\<open>validate_recv_frame\<close>, the address filters)
    and \<^verbatim>\<open>recv_func\<close>, which joins both halves and, in an access point, calls the transmit path.
    The lemmas show that no frame of the pool is lost (and the one case where a frame is freed twice),
    which frames pass, and that reception keeps the invariant of the transmit queues.
  \<^item> \<^verbatim>\<open>Ie_Series\<close>, \<^verbatim>\<open>Ie_Parse\<close>, \<^verbatim>\<open>Ie_Vendor\<close>, \<^verbatim>\<open>Ie_Rates\<close>: information elements,
    all of \<^verbatim>\<open>core/rtw_ieee80211.c\<close> but its printing. A series of elements is the encoding of a list
    of pairs; the locale \<open>tlv_search\<close> is the search for the first match in such an encoding,
    interpreted for \<^verbatim>\<open>rtw_get_ie\<close> and \<^verbatim>\<open>rtw_get_ie_ex\<close> and, through \<open>attr_format\<close>, for the
    attributes of WPS and P2P. The parser is shown to stay inside its input and to accept exactly the
    series. Loops of this file that may not end are \<open>while_option\<close>, and \<open>Endless\<close> is their
    result then.
  \<^item> \<^verbatim>\<open>Scan_Table\<close>, \<^verbatim>\<open>Scan_Join\<close>: the table of scanned networks of \<^verbatim>\<open>core/rtw_mlme.c\<close>.
    \<open>mlme_priv\<close> holds the array of networks and its two lists, the free ones and the scanned ones.
    A received network is found, updated with smoothed signal values or entered in the place of the
    oldest; networks expire; the strongest that fits is joined; \<^verbatim>\<open>rtw_free_assoc_resources\<close>
    calls the station table. The step relation \<open>mlme_step\<close> joins the handlers, and in every
    reachable state each network is on one list. The locale \<open>best_of\<close> is the loop that keeps the
    best element, interpreted for the oldest network and for the strongest.
  \<^item> \<^verbatim>\<open>Efuse\<close>, \<^verbatim>\<open>Efuse_Log\<close>, \<^verbatim>\<open>Efuse_Map\<close>: the EFUSE (\<^verbatim>\<open>core/efuse/rtw_efuse.c\<close> and the
    8192C functions of \<^verbatim>\<open>hal/rtl8192c/rtl8192c_hal_init.c\<close>), a memory programmed once that holds a
    log of packets. \<open>map_of_log\<close> is the abstract meaning of a log; the readers compute it, and the
    writers append to the log what changes it. The registers of the chip are a parameter, of which
    \<open>efuse_chip\<close> states the behaviour.

  Bounds and fuel. Loops over a list or a number are recursions on it. The remaining ones carry fuel that
  is proved, or evident, to be enough: the frames waiting for a key (\<^verbatim>\<open>recv_func\<close>) get one more
  than the length of their queue, since each turn takes one off and puts none on; the search for
  the first frame of an aggregate gets one more than \<open>NR_XMITFRAME\<close> turns and the emptying of the
  queues \<open>NR_XMITFRAME\<close>, since each turn removes a waiting frame. The writer of EFUSE packets, which
  calls itself when the chip spoils a byte, is shown to return with 500 units (a log has fewer packets),
  the writer of the map with 520.

  Inputs of the model. What other parts decide is an argument: in \<open>xmit_env\<close> the attributes
  \<^verbatim>\<open>update_attrib\<close> computes, the verdict of the bridge and whether a transmit buffer is free; for
  an aggregate, the outcome of \<^verbatim>\<open>rtw_xmitframe_coalesce\<close> per frame. Theorems hold
  for all their values. Calls into the management entity are recorded as events of the adapter.

  Not modelled. The rest of management: authentication, association and the scheduling of scans
  (\<^verbatim>\<open>core/rtw_mlme_ext.c\<close>), \<^verbatim>\<open>rtw_ap.c\<close>, \<^verbatim>\<open>rtw_p2p.c\<close>, \<^verbatim>\<open>rtw_cmd.c\<close> and \<^verbatim>\<open>rtw_pwrctrl.c\<close>, which
  assemble management frames and drive timers and firmware commands; the bridge; the register sequences
  of \<^verbatim>\<open>hal/\<close> other than those of the EFUSE, whose effect only the radio defines; firmware images and
  tables, which are data; test modes, the marshalling of user requests and the wrappers of the kernel;
  code the build leaves out (TDLS, 802.11w, MP). Elsewhere in the repository: Verilog
  around vendor blocks, device trees and scripts.
\<close>

end
